(* ===== verification/Ns3_Prelude.thy ===== *)
theory Ns3_Prelude
  imports Main "HOL-Library.Word" "HOL-Library.Monad_Syntax" "HOL-Library.Multiset"
begin

text \<open>
  Shared vocabulary of the development: the machine types of the C++ code, pointers, the two
  list-walking loops that the std::list and std::vector based components use, and the lemmas
  on lists, options and words the component theories rest on.

  An operation that can hit a failing NS_ASSERT, an NS_FATAL_ERROR or undefined behaviour
  (front() of an empty container, an index out of range) has an option type: \<^term>\<open>None\<close> is
  that outcome, and every theorem that an operation works states \<^term>\<open>Some\<close>.
\<close>

section \<open>Machine types\<close>

type_synonym u8 = "8 word"
type_synonym u16 = "16 word"
type_synonym u32 = "32 word"
type_synonym u64 = "64 word"

text \<open>A pointer is an address; address 0 is the null pointer.\<close>

type_synonym addr = nat

abbreviation (input) nullptr :: addr where
  "nullptr \<equiv> 0"

text \<open>Lemma collections: the equations of the data structure operations, and the facts that
  move arithmetic from words to natural numbers when nothing overflows.\<close>

named_theorems unat_simps
named_theorems walk_simps

section \<open>Walking a list\<close>

text \<open>
  \<open>list_insert_before P x xs\<close> is the loop that walks \<open>xs\<close>, inserts \<open>x\<close> in front of
  the first element that satisfies \<open>P\<close>, and appends it when there is none.
  \<open>list_erase_first P xs\<close> is the loop that erases the first element that satisfies
  \<open>P\<close>; it returns the element with the rest of the list.
\<close>

fun list_insert_before :: "('a \<Rightarrow> bool) \<Rightarrow> 'a \<Rightarrow> 'a list \<Rightarrow> 'a list" where
  "list_insert_before P x [] = [x]"
| "list_insert_before P x (y # ys) =
     (if P y then x # y # ys else y # list_insert_before P x ys)"

fun list_erase_first :: "('a \<Rightarrow> bool) \<Rightarrow> 'a list \<Rightarrow> ('a \<times> 'a list) option" where
  "list_erase_first P [] = None"
| "list_erase_first P (y # ys) =
     (if P y then Some (y, ys)
      else map_option (\<lambda>(z, zs). (z, y # zs)) (list_erase_first P ys))"

lemma set_list_insert_before [simp]: "set (list_insert_before P x xs) = insert x (set xs)"
  by (induction xs) auto

lemma mset_list_insert_before [simp]:
  "mset (list_insert_before P x xs) = add_mset x (mset xs)"
  by (induction xs) auto

lemma length_list_insert_before [simp]: "length (list_insert_before P x xs) = Suc (length xs)"
  by (induction xs) auto

lemma list_insert_before_not_Nil [simp]: "list_insert_before P x xs \<noteq> []"
  by (cases xs) auto

lemma list_insert_before_sorted:
  assumes "sorted_wrt R xs" and "transp R"
    and "\<And>y. y \<in> set xs \<Longrightarrow> \<not> R x y \<Longrightarrow> R y x"
  shows "sorted_wrt R (list_insert_before (R x) x xs)"
  using assms
proof (induction xs)
  case Nil
  then show ?case by simp
next
  case (Cons y ys)
  show ?case
  proof (cases "R x y")
    case True
    with Cons.prems(1,2) show ?thesis by (auto dest: transpD)
  next
    case False
    with Cons.prems have "R y x" by simp
    with Cons False show ?thesis by auto
  qed
qed

lemma list_erase_first_Some:
  assumes "list_erase_first P xs = Some (y, ys)"
  shows "y \<in> set xs" and "P y" and "mset xs = add_mset y (mset ys)"
  using assms by (induction xs arbitrary: ys) (auto split: if_splits)

lemma list_erase_first_length: "list_erase_first P xs = Some (y, ys) \<Longrightarrow> length xs = Suc (length ys)"
  by (induction xs arbitrary: ys) (auto split: if_splits)

lemma list_erase_first_sorted:
  assumes "list_erase_first P xs = Some (y, ys)" and "sorted_wrt R xs"
  shows "sorted_wrt R ys"
  using assms
proof (induction xs arbitrary: ys)
  case Nil
  then show ?case by simp
next
  case (Cons x xs)
  show ?case
  proof (cases "P x")
    case True
    with Cons.prems show ?thesis by simp
  next
    case False
    with Cons.prems obtain zs where zs: "list_erase_first P xs = Some (y, zs)" "ys = x # zs"
      by auto
    have "set zs \<subseteq> set xs"
      using list_erase_first_Some(3) [OF zs(1)] by (metis mset.simps(2) mset_eq_setD set_subset_Cons)
    with Cons zs show ?thesis by auto
  qed
qed

lemma list_erase_first_None:
  "list_erase_first P xs = None \<longleftrightarrow> (\<forall>x \<in> set xs. \<not> P x)"
  by (induction xs) auto

lemma list_erase_first_ex:
  assumes "x \<in> set xs" and "P x" and "\<And>y. y \<in> set xs \<Longrightarrow> P y \<Longrightarrow> y = x"
  shows "\<exists>ys. list_erase_first P xs = Some (x, ys)"
proof -
  from assms(1,2) have "list_erase_first P xs \<noteq> None" by (auto simp: list_erase_first_None)
  then obtain y ys where y: "list_erase_first P xs = Some (y, ys)" by auto
  with list_erase_first_Some(1,2) [OF y] assms(3) have "y = x" by blast
  with y show ?thesis by blast
qed

lemma list_erase_first_set:
  assumes "list_erase_first P xs = Some (y, ys)" and "distinct xs"
  shows "set ys = set xs - {y}" and "distinct ys"
proof -
  from list_erase_first_Some(3) [OF assms(1)] have m: "mset xs = mset (y # ys)" by simp
  then have "distinct (y # ys)" using assms(2) by (metis mset_eq_imp_distinct_iff)
  moreover have "set xs = set (y # ys)" using m by (rule mset_eq_setD)
  ultimately show "set ys = set xs - {y}" and "distinct ys" by auto
qed

section \<open>Words without overflow\<close>

lemma unat_plus_simple [unat_simps]:
  "unat x + unat y < 2 ^ LENGTH('a) \<Longrightarrow> unat (x + y) = unat x + unat (y :: 'a :: len word)"
  by (simp add: unat_add_lem)

lemma unat_times_simple [unat_simps]:
  "unat x * unat y < 2 ^ LENGTH('a) \<Longrightarrow> unat (x * y) = unat x * unat (y :: 'a :: len word)"
  by (simp add: unat_mult_lem)

lemmas [unat_simps] = unat_div_distrib unat_mod_distrib

lemma word_less_unat: "(x :: 'a :: len word) < y \<longleftrightarrow> unat x < unat y"
  by (simp add: word_less_nat_alt)

lemma word_le_unat: "(x :: 'a :: len word) \<le> y \<longleftrightarrow> unat x \<le> unat y"
  by (simp add: word_le_nat_alt)

lemma unat_Suc_simple:
  "unat x + 1 < 2 ^ LENGTH('a) \<Longrightarrow> unat (x + 1) = unat (x :: 'a :: len word) + 1"
  using unat_plus_simple [of x 1] by simp

lemma unat_of_nat_less: "n < 2 ^ LENGTH('a) \<Longrightarrow> unat (of_nat n :: 'a :: len word) = n"
  by (simp add: unsigned_of_nat take_bit_nat_eq_self)

section \<open>Translating lists element by element\<close>

text \<open>\<open>those\<close> collects the results of a translation that may fail. The first lemma is for the
  encoder, the second for the decoder of a list of messages.\<close>

lemma those_map_all2:
  assumes "\<And>x. x \<in> set xs \<Longrightarrow> \<exists>m. enc x = Some m \<and> R x m"
  shows "\<exists>ms. those (map enc xs) = Some ms \<and> list_all2 R xs ms"
  using assms
proof (induction xs)
  case (Cons x xs)
  obtain m where "enc x = Some m" "R x m" using Cons.prems [of x] by auto
  moreover obtain ms where "those (map enc xs) = Some ms" "list_all2 R xs ms" using Cons by auto
  ultimately show ?case by auto
qed simp

lemma those_map_decode:
  assumes "list_all2 R xs ms" and "\<And>x m. x \<in> set xs \<Longrightarrow> R x m \<Longrightarrow> dec m = Some (g x)"
  shows "those (map dec ms) = Some (map g xs)"
  using assms
proof (induction rule: list_all2_induct)
  case (Cons x xs m ms)
  have "dec m = Some (g x)" using Cons.hyps(1) Cons.prems by auto
  moreover have "those (map dec ms) = Some (map g xs)" using Cons.IH Cons.prems by auto
  ultimately show ?case by simp
qed simp

lemma those_None: "those (xs @ [None]) = None"
  by (induction xs) (auto split: option.splits)

lemma foldr_max_le: "x \<in> set xs \<Longrightarrow> x \<le> foldr max xs (0::nat)"
  by (induction xs) auto

section \<open>Lists of objects\<close>

text \<open>The objects that a program holds, without the one at index \<open>i\<close>.\<close>

definition remove_nth :: "nat \<Rightarrow> 'a list \<Rightarrow> 'a list" where
  "remove_nth i xs = take i xs @ drop (Suc i) xs"

lemma mset_remove_nth: "i < length xs \<Longrightarrow> mset xs = add_mset (xs ! i) (mset (remove_nth i xs))"
  by (subst id_take_nth_drop [of i xs]) (simp_all add: remove_nth_def)

lemma mset_update_nth: "i < length xs \<Longrightarrow> mset (xs[i := x]) = add_mset x (mset (remove_nth i xs))"
  by (simp add: upd_conv_take_nth_drop remove_nth_def)

lemma set_remove_nth: "i < length xs \<Longrightarrow> j < length xs \<Longrightarrow> j \<noteq> i \<Longrightarrow> xs ! j \<in> set (remove_nth i xs)"
  by (cases "j < i") (auto simp: remove_nth_def in_set_conv_nth intro: exI [of _ j] exI [of _ "j - Suc i"])

lemma map_remove_nth: "map f (remove_nth i xs) = remove_nth i (map f xs)"
  by (simp add: remove_nth_def take_map drop_map)

lemma all2_remove_nth: "list_all2 R xs ys \<Longrightarrow> list_all2 R (remove_nth i xs) (remove_nth i ys)"
  by (simp add: remove_nth_def list_all2_appendI)

end
