(* ===== verification/Event_Queue.thy ===== *)
theory Event_Queue
  imports Ns3_Prelude
begin

text \<open>
  src/core/model/scheduler.h: the event key, the event, their comparison operators and the
  Scheduler interface. The class Scheduler is abstract and the simulator calls it through
  virtual methods, so an implementation is a record of functions \<open>scheduler_ops\<close> over its
  own state type.

  What the interface promises is the locale \<open>event_queue\<close> (Insert, IsEmpty, PeekNext,
  RemoveNext: the pending events come out in key order) and its extension
  \<open>removable_queue\<close> (Remove takes one given event out). They are interpreted on the list,
  map, priority-queue, heap and calendar schedulers.
\<close>

section \<open>Keys and events\<close>

record EventKey =
  m_ts :: u64
  m_uid :: u32
  m_context :: u32

record Event =
  impl :: addr
  key :: EventKey

definition key_eq :: "EventKey \<Rightarrow> EventKey \<Rightarrow> bool" where
  "key_eq a b \<longleftrightarrow> m_uid a = m_uid b"

definition key_neq :: "EventKey \<Rightarrow> EventKey \<Rightarrow> bool" where
  "key_neq a b \<longleftrightarrow> m_uid a \<noteq> m_uid b"

definition key_less :: "EventKey \<Rightarrow> EventKey \<Rightarrow> bool" where
  "key_less a b \<longleftrightarrow> m_ts a < m_ts b \<or> (m_ts a = m_ts b \<and> m_uid a < m_uid b)"

definition key_greater :: "EventKey \<Rightarrow> EventKey \<Rightarrow> bool" where
  "key_greater a b \<longleftrightarrow> m_ts a > m_ts b \<or> (m_ts a = m_ts b \<and> m_uid a > m_uid b)"

definition event_eq :: "Event \<Rightarrow> Event \<Rightarrow> bool" where
  "event_eq a b \<longleftrightarrow> key_eq (key a) (key b)"

definition event_neq :: "Event \<Rightarrow> Event \<Rightarrow> bool" where
  "event_neq a b \<longleftrightarrow> key_neq (key a) (key b)"

definition event_less :: "Event \<Rightarrow> Event \<Rightarrow> bool" where
  "event_less a b \<longleftrightarrow> key_less (key a) (key b)"

definition event_greater :: "Event \<Rightarrow> Event \<Rightarrow> bool" where
  "event_greater a b \<longleftrightarrow> key_greater (key a) (key b)"

abbreviation ev_ts :: "Event \<Rightarrow> u64" where
  "ev_ts e \<equiv> m_ts (key e)"

abbreviation ev_uid :: "Event \<Rightarrow> u32" where
  "ev_uid e \<equiv> m_uid (key e)"

subsection \<open>The rank of a key\<close>

text \<open>
  The comparison operators read a key as the pair of its time stamp and its uid. The type
  \<open>rank\<close> is that pair with the lexicographic order; as a linear order it brings the library's
  order reasoning to the schedulers.
\<close>

datatype rank = Rank (rank_ts: u64) (rank_uid: u32)

instantiation rank :: linorder
begin

definition less_rank :: "rank \<Rightarrow> rank \<Rightarrow> bool" where
  "less_rank r s \<longleftrightarrow> rank_ts r < rank_ts s \<or> (rank_ts r = rank_ts s \<and> rank_uid r < rank_uid s)"

definition less_eq_rank :: "rank \<Rightarrow> rank \<Rightarrow> bool" where
  "less_eq_rank r s \<longleftrightarrow> rank_ts r < rank_ts s \<or> (rank_ts r = rank_ts s \<and> rank_uid r \<le> rank_uid s)"

instance
  by intro_classes (auto simp: less_rank_def less_eq_rank_def rank.expand)

end

definition key_rank :: "EventKey \<Rightarrow> rank" where
  "key_rank k = Rank (m_ts k) (m_uid k)"

abbreviation ev_rank :: "Event \<Rightarrow> rank" where
  "ev_rank e \<equiv> key_rank (key e)"

lemma key_less_rank: "key_less a b \<longleftrightarrow> key_rank a < key_rank b"
  by (auto simp: key_less_def key_rank_def less_rank_def)

lemma key_greater_rank: "key_greater a b \<longleftrightarrow> key_rank b < key_rank a"
  by (auto simp: key_greater_def key_rank_def less_rank_def)

lemma key_greater_less: "key_greater a b \<longleftrightarrow> key_less b a"
  by (simp add: key_less_rank key_greater_rank)

lemma event_less_rank: "event_less a b \<longleftrightarrow> ev_rank a < ev_rank b"
  by (simp add: event_less_def key_less_rank)

lemma event_greater_rank: "event_greater a b \<longleftrightarrow> ev_rank b < ev_rank a"
  by (simp add: event_greater_def key_greater_rank)

lemmas rank_simps = key_less_rank key_greater_rank event_less_rank event_greater_rank

lemma transp_event_less: "transp event_less"
  by (auto intro!: transpI simp: event_less_rank)

lemma key_rank_ts_le: "key_rank a \<le> key_rank b \<Longrightarrow> m_ts a \<le> m_ts b"
  by (auto simp: key_rank_def less_eq_rank_def)

lemma key_rank_ts_less: "m_ts a < m_ts b \<Longrightarrow> key_rank a < key_rank b"
  by (simp add: key_rank_def less_rank_def)

lemma key_rank_uid: "m_ts a \<le> m_ts b \<Longrightarrow> m_uid a < m_uid b \<Longrightarrow> key_rank a < key_rank b"
  by (auto simp: key_rank_def less_rank_def)

lemma key_rank_eq_uid: "key_rank a = key_rank b \<Longrightarrow> m_uid a = m_uid b"
  by (simp add: key_rank_def)

lemma event_less_ts: "event_less a b \<Longrightarrow> ev_ts a \<le> ev_ts b"
  by (simp add: event_less_rank key_rank_ts_le less_imp_le)

section \<open>The interface\<close>

record 's scheduler_ops =
  Insert :: "Event \<Rightarrow> 's \<Rightarrow> 's option"
  IsEmpty :: "'s \<Rightarrow> bool"
  PeekNext :: "'s \<Rightarrow> Event option"
  RemoveNext :: "'s \<Rightarrow> (Event \<times> 's) option"
  Remove :: "Event \<Rightarrow> 's \<Rightarrow> 's option"

text \<open>The earliest event of a set: every other event has a larger key.\<close>

definition earliest :: "Event set \<Rightarrow> Event \<Rightarrow> bool" where
  "earliest E e \<longleftrightarrow> e \<in> E \<and> (\<forall>e' \<in> E - {e}. event_less e e')"

text \<open>Pending events have different uids.\<close>

definition uids_distinct :: "Event set \<Rightarrow> bool" where
  "uids_distinct E \<longleftrightarrow> inj_on ev_uid E"

lemma earliest_unique: "earliest E e \<Longrightarrow> earliest E e' \<Longrightarrow> e = e'"
  by (metis DiffI earliest_def event_less_rank less_asym singletonD)

lemma earliest_le: "earliest E e \<Longrightarrow> e' \<in> E \<Longrightarrow> ev_rank e \<le> ev_rank e'"
  by (cases "e' = e") (auto simp: earliest_def event_less_rank intro: less_imp_le)

lemma earliest_ts_le: "earliest E e \<Longrightarrow> e' \<in> E \<Longrightarrow> ev_ts e \<le> ev_ts e'"
  by (blast intro: key_rank_ts_le earliest_le)

lemma earliestI:
  assumes "uids_distinct E" and "e \<in> E" and "\<And>e'. e' \<in> E \<Longrightarrow> ev_rank e \<le> ev_rank e'"
  shows "earliest E e"
  using assms unfolding earliest_def event_less_rank uids_distinct_def
  by (metis DiffD1 DiffD2 inj_onD insertI1 key_rank_eq_uid order_le_imp_less_or_eq)

lemma uids_distinct_subset: "uids_distinct E \<Longrightarrow> F \<subseteq> E \<Longrightarrow> uids_distinct F"
  by (auto simp: uids_distinct_def intro: inj_on_subset)

lemma uids_distinct_insert:
  "uids_distinct E \<Longrightarrow> ev_uid e \<notin> ev_uid ` E \<Longrightarrow> uids_distinct (insert e E)"
  by (auto simp: uids_distinct_def)

lemma uids_distinctD:
  "uids_distinct E \<Longrightarrow> a \<in> E \<Longrightarrow> b \<in> E \<Longrightarrow> ev_uid a = ev_uid b \<Longrightarrow> a = b"
  by (auto simp: uids_distinct_def dest: inj_onD)

text \<open>
  The contract. \<open>events s\<close> is the set of pending events; \<open>floor_ts s\<close> is the least time stamp
  that may still be inserted, which lets a scheduler rely on time not going backwards;
  \<open>horizon\<close> is the largest time stamp the scheduler supports. The size bound on Insert
  keeps 32-bit event counters exact.
\<close>

locale event_queue =
  fixes ops :: "'s scheduler_ops"
    and invar :: "'s \<Rightarrow> bool"
    and events :: "'s \<Rightarrow> Event set"
    and floor_ts :: "'s \<Rightarrow> u64"
    and horizon :: u64
  assumes finite_events: "invar s \<Longrightarrow> finite (events s)"
    and events_uids: "invar s \<Longrightarrow> uids_distinct (events s)"
    and IsEmpty_law: "invar s \<Longrightarrow> IsEmpty ops s \<longleftrightarrow> events s = {}"
    and PeekNext_law:
      "invar s \<Longrightarrow> events s \<noteq> {} \<Longrightarrow> \<exists>e. PeekNext ops s = Some e \<and> earliest (events s) e"
    and RemoveNext_law:
      "invar s \<Longrightarrow> events s \<noteq> {} \<Longrightarrow>
       \<exists>e s'. RemoveNext ops s = Some (e, s') \<and> earliest (events s) e \<and> invar s'
         \<and> events s' = events s - {e} \<and> floor_ts s' \<le> ev_ts e"
    and Insert_law:
      "invar s \<Longrightarrow> ev_uid e \<notin> ev_uid ` events s \<Longrightarrow> floor_ts s \<le> ev_ts e \<Longrightarrow>
       ev_ts e \<le> horizon \<Longrightarrow> card (events s) + 1 < 2 ^ 32 \<Longrightarrow>
       \<exists>s'. Insert ops e s = Some s' \<and> invar s' \<and> events s' = insert e (events s)
         \<and> floor_ts s' = floor_ts s"

locale removable_queue = event_queue +
  assumes Remove_law:
      "invar s \<Longrightarrow> e \<in> events s \<Longrightarrow>
       \<exists>s'. Remove ops e s = Some s' \<and> invar s' \<and> events s' = events s - {e}
         \<and> floor_ts s' = floor_ts s"

section \<open>Draining a queue\<close>

text \<open>
  The loop \<open>while (!IsEmpty ()) RemoveNext ()\<close> of DefaultSimulatorImpl::SetScheduler and
  DoDispose, run for at most \<open>n\<close> rounds: the events it takes out, in order. The result is
  None when the queue is not empty after \<open>n\<close> rounds.
\<close>

fun drain :: "'s scheduler_ops \<Rightarrow> nat \<Rightarrow> 's \<Rightarrow> Event list option" where
  "drain ops 0 s = (if IsEmpty ops s then Some [] else None)"
| "drain ops (Suc n) s =
     (if IsEmpty ops s then Some []
      else do {
        (e, s') \<leftarrow> RemoveNext ops s;
        es \<leftarrow> drain ops n s';
        Some (e # es)
      })"

context event_queue
begin

lemma PeekNext_RemoveNext:
  assumes "invar s" and "events s \<noteq> {}"
  shows "PeekNext ops s = map_option fst (RemoveNext ops s)"
  using PeekNext_law [OF assms] RemoveNext_law [OF assms] by (auto dest: earliest_unique)

lemma RemoveNext_card:
  assumes "invar s" and "RemoveNext ops s = Some (e, s')" and "events s \<noteq> {}"
  shows "card (events s) = Suc (card (events s'))"
proof -
  from RemoveNext_law [OF assms(1,3)] assms(2)
  have e: "e \<in> events s" and ev: "events s' = events s - {e}" by (auto simp: earliest_def)
  from card_Suc_Diff1 [OF finite_events [OF assms(1)] e] ev show ?thesis by simp
qed

text \<open>Draining yields every pending event, once, in key order.\<close>

lemma drain_sorted:
  assumes "invar s" and "card (events s) \<le> n"
  shows "\<exists>es. drain ops n s = Some es \<and> set es = events s \<and> sorted_wrt event_less es"
  using assms
proof (induction n arbitrary: s)
  case 0
  then show ?case by (simp add: IsEmpty_law finite_events)
next
  case (Suc n)
  show ?case
  proof (cases "events s = {}")
    case True
    with Suc.prems show ?thesis by (simp add: IsEmpty_law)
  next
    case False
    obtain e s' where r: "RemoveNext ops s = Some (e, s')" and e: "earliest (events s) e"
      and s': "invar s'" "events s' = events s - {e}"
      using RemoveNext_law [OF Suc.prems(1) False] by blast
    have "card (events s') \<le> n"
      using RemoveNext_card [OF Suc.prems(1) r False] Suc.prems(2) by simp
    from Suc.IH [OF s'(1) this] obtain es where es: "drain ops n s' = Some es"
      "set es = events s - {e}" "sorted_wrt event_less es"
      using s'(2) by auto
    have "sorted_wrt event_less (e # es)"
      using e es(2,3) by (simp add: earliest_def)
    with False Suc.prems(1) r e es(1,2) show ?thesis
      by (auto simp: IsEmpty_law earliest_def)
  qed
qed

end

end
