(* ===== verification/List_Scheduler.thy ===== *)
theory List_Scheduler
  imports Event_Queue
begin

text \<open>
  src/core/model/list-scheduler.cc: the events in one std::list, kept in key order by Insert.
\<close>

type_synonym ListScheduler = "Event list"

definition list_Insert :: "Event \<Rightarrow> ListScheduler \<Rightarrow> ListScheduler option" where
  "list_Insert ev s = Some (list_insert_before (\<lambda>i. key_less (key ev) (key i)) ev s)"

definition list_IsEmpty :: "ListScheduler \<Rightarrow> bool" where
  "list_IsEmpty s \<longleftrightarrow> s = []"

definition list_PeekNext :: "ListScheduler \<Rightarrow> Event option" where
  "list_PeekNext s = (case s of [] \<Rightarrow> None | e # _ \<Rightarrow> Some e)"

definition list_RemoveNext :: "ListScheduler \<Rightarrow> (Event \<times> ListScheduler) option" where
  "list_RemoveNext s = (case s of [] \<Rightarrow> None | next # rest \<Rightarrow> Some (next, rest))"

definition list_Remove :: "Event \<Rightarrow> ListScheduler \<Rightarrow> ListScheduler option" where
  "list_Remove ev s =
     (case list_erase_first (\<lambda>i. m_uid (key i) = m_uid (key ev)) s of
        None \<Rightarrow> None
      | Some (i, rest) \<Rightarrow> (if impl ev = impl i then Some rest else None))"

definition list_ops :: "ListScheduler scheduler_ops" where
  "list_ops = \<lparr>Insert = list_Insert, IsEmpty = list_IsEmpty, PeekNext = list_PeekNext,
     RemoveNext = list_RemoveNext, Remove = list_Remove\<rparr>"

text \<open>The invariant: the list is in strict key order and no uid occurs twice.\<close>

definition list_invar :: "ListScheduler \<Rightarrow> bool" where
  "list_invar s \<longleftrightarrow> sorted_wrt event_less s \<and> uids_distinct (set s)"

lemma sorted_events_distinct: "sorted_wrt event_less s \<Longrightarrow> distinct s"
  by (induction s) (auto simp: event_less_rank)

lemma list_ops_simps [simp]:
  "Insert list_ops = list_Insert" "IsEmpty list_ops = list_IsEmpty"
  "PeekNext list_ops = list_PeekNext" "RemoveNext list_ops = list_RemoveNext"
  "Remove list_ops = list_Remove"
  by (simp_all add: list_ops_def)

lemma earliest_Cons: "sorted_wrt event_less (e # es) \<Longrightarrow> earliest (set (e # es)) e"
  by (auto simp: earliest_def)

lemma sorted_events_insert:
  assumes "sorted_wrt event_less s" and "ev_uid e \<notin> ev_uid ` set s"
  shows "sorted_wrt event_less (list_insert_before (\<lambda>i. key_less (key e) (key i)) e s)"
proof -
  have "sorted_wrt event_less (list_insert_before (event_less e) e s)"
  proof (rule list_insert_before_sorted [OF assms(1) transp_event_less])
    fix y
    assume y: "y \<in> set s" "\<not> event_less e y"
    from y(1) assms(2) have "ev_rank y \<noteq> ev_rank e" by (metis imageI key_rank_eq_uid)
    with y(2) show "event_less y e" by (simp add: event_less_rank)
  qed
  then show ?thesis by (simp add: event_less_def [abs_def])
qed

lemma list_erase_uid:
  assumes "uids_distinct (set s)" and "e \<in> set s"
  shows "\<exists>rest. list_erase_first (\<lambda>i. m_uid (key i) = m_uid (key e)) s = Some (e, rest)"
  using assms by (intro list_erase_first_ex) (auto dest: uids_distinctD)

lemma list_Remove_works:
  assumes "list_invar s" and "e \<in> set s"
  shows "\<exists>s'. list_Remove e s = Some s' \<and> list_invar s' \<and> set s' = set s - {e}"
proof -
  from assms have srt: "sorted_wrt event_less s" and u: "uids_distinct (set s)"
    by (auto simp: list_invar_def)
  obtain rest where r: "list_erase_first (\<lambda>i. m_uid (key i) = m_uid (key e)) s = Some (e, rest)"
    using list_erase_uid [OF u assms(2)] by blast
  have "set rest = set s - {e}"
    using list_erase_first_set(1) [OF r] sorted_events_distinct [OF srt] by simp
  with r srt u show ?thesis
    by (auto simp: list_Remove_def list_invar_def
        intro: list_erase_first_sorted uids_distinct_subset)
qed

interpretation listq: removable_queue list_ops list_invar set "\<lambda>_. 0" "- 1"
proof (unfold_locales, goal_cases)
  case (4 s)
  then show ?case
    by (cases s) (auto simp: list_PeekNext_def list_invar_def simp del: set_simps intro: earliest_Cons)
next
  case (5 s)
  then show ?case
    by (cases s) (auto simp: list_RemoveNext_def list_invar_def event_less_rank
        intro: earliest_Cons [simplified] uids_distinct_subset)
next
  case (6 s e)
  then show ?case
    by (auto simp: list_Insert_def list_invar_def intro: sorted_events_insert uids_distinct_insert)
next
  case (7 s e)
  then show ?case by (auto dest: list_Remove_works)
qed (auto simp: list_invar_def list_IsEmpty_def)

end
