(* ===== verification/Map_Scheduler.thy ===== *)
theory Map_Scheduler
  imports List_Scheduler
begin

text \<open>
  src/core/model/map-scheduler.cc: the default scheduler, a std::map from event key to
  EventImpl pointer ordered by the operator < on keys. The map is its list of entries in
  iteration order; two keys are the same entry when neither is less than the other, so an
  event with the time stamp and uid of a pending one is refused by the NS_ASSERT in Insert.
\<close>

type_synonym MapScheduler = "(EventKey \<times> addr) list"

fun stdmap_insert :: "EventKey \<Rightarrow> addr \<Rightarrow> MapScheduler \<Rightarrow> MapScheduler option" where
  "stdmap_insert k v [] = Some [(k, v)]"
| "stdmap_insert k v ((k', v') # m) =
     (if key_less k k' then Some ((k, v) # (k', v') # m)
      else if key_less k' k then map_option (Cons (k', v')) (stdmap_insert k v m)
      else None)"

fun stdmap_find :: "EventKey \<Rightarrow> MapScheduler \<Rightarrow> (EventKey \<times> addr) option" where
  "stdmap_find k [] = None"
| "stdmap_find k ((k', v') # m) =
     (if \<not> key_less k k' \<and> \<not> key_less k' k then Some (k', v') else stdmap_find k m)"

fun stdmap_erase :: "EventKey \<Rightarrow> MapScheduler \<Rightarrow> MapScheduler" where
  "stdmap_erase k [] = []"
| "stdmap_erase k ((k', v') # m) =
     (if \<not> key_less k k' \<and> \<not> key_less k' k then m else (k', v') # stdmap_erase k m)"

definition map_Insert :: "Event \<Rightarrow> MapScheduler \<Rightarrow> MapScheduler option" where
  "map_Insert ev m_list = stdmap_insert (key ev) (impl ev) m_list"

definition map_IsEmpty :: "MapScheduler \<Rightarrow> bool" where
  "map_IsEmpty m_list \<longleftrightarrow> m_list = []"

definition map_PeekNext :: "MapScheduler \<Rightarrow> Event option" where
  "map_PeekNext m_list =
     (case m_list of [] \<Rightarrow> None | (k, v) # _ \<Rightarrow> Some \<lparr>impl = v, key = k\<rparr>)"

definition map_RemoveNext :: "MapScheduler \<Rightarrow> (Event \<times> MapScheduler) option" where
  "map_RemoveNext m_list =
     (case m_list of [] \<Rightarrow> None | (k, v) # rest \<Rightarrow> Some (\<lparr>impl = v, key = k\<rparr>, rest))"

definition map_Remove :: "Event \<Rightarrow> MapScheduler \<Rightarrow> MapScheduler option" where
  "map_Remove ev m_list =
     (case stdmap_find (key ev) m_list of
        None \<Rightarrow> None
      | Some (k, v) \<Rightarrow> (if v = impl ev then Some (stdmap_erase k m_list) else None))"

definition map_ops :: "MapScheduler scheduler_ops" where
  "map_ops = \<lparr>Insert = map_Insert, IsEmpty = map_IsEmpty, PeekNext = map_PeekNext,
     RemoveNext = map_RemoveNext, Remove = map_Remove\<rparr>"

lemma map_ops_simps [simp]:
  "Insert map_ops = map_Insert" "IsEmpty map_ops = map_IsEmpty"
  "PeekNext map_ops = map_PeekNext" "RemoveNext map_ops = map_RemoveNext"
  "Remove map_ops = map_Remove"
  by (simp_all add: map_ops_def)

text \<open>
  The map refines the sorted list: reading each entry as an event turns every operation of
  the map into the operation of the list scheduler.
\<close>

definition map_entry :: "EventKey \<times> addr \<Rightarrow> Event" where
  "map_entry kv = \<lparr>impl = snd kv, key = fst kv\<rparr>"

definition map_to_list :: "MapScheduler \<Rightarrow> ListScheduler" where
  "map_to_list m = map map_entry m"

definition map_invar :: "MapScheduler \<Rightarrow> bool" where
  "map_invar m \<longleftrightarrow> list_invar (map_to_list m)"

abbreviation map_events :: "MapScheduler \<Rightarrow> Event set" where
  "map_events m \<equiv> set (map_to_list m)"

lemma map_entry_simps [simp]: "key (map_entry kv) = fst kv" "impl (map_entry kv) = snd kv"
  by (simp_all add: map_entry_def)

lemma map_entry_key_impl [simp]: "map_entry (key e, impl e) = e"
  by (simp add: map_entry_def)

lemma map_to_list_simps [simp]:
  "map_to_list [] = []" "map_to_list (kv # m) = map_entry kv # map_to_list m"
  by (simp_all add: map_to_list_def)

lemma key_equiv_rank: "\<not> key_less a b \<and> \<not> key_less b a \<longleftrightarrow> key_rank a = key_rank b"
  by (auto simp: rank_simps)

lemma map_Insert_refines:
  assumes "ev_uid e \<notin> ev_uid ` map_events m"
  shows "\<exists>m'. map_Insert e m = Some m' \<and> list_Insert e (map_to_list m) = Some (map_to_list m')"
  using assms
proof (induction m)
  case Nil
  then show ?case by (simp add: map_Insert_def list_Insert_def)
next
  case (Cons kv m)
  obtain k v where kv: "kv = (k, v)" by force
  from Cons obtain m' where "map_Insert e m = Some m'"
    "list_Insert e (map_to_list m) = Some (map_to_list m')" by auto
  moreover have "key_rank (key e) \<noteq> key_rank k"
    using Cons.prems by (auto simp: kv dest: key_rank_eq_uid)
  ultimately show ?case
    by (auto simp: kv map_Insert_def list_Insert_def rank_simps)
qed

lemma stdmap_find_entry:
  assumes "uids_distinct (map_events m)" and "e \<in> map_events m"
  shows "stdmap_find (key e) m = Some (key e, impl e)
    \<and> list_erase_first (\<lambda>i. m_uid (key i) = m_uid (key e)) (map_to_list m)
       = Some (e, map_to_list (stdmap_erase (key e) m))"
  using assms
proof (induction m)
  case Nil
  then show ?case by simp
next
  case (Cons kv m)
  obtain k v where kv: "kv = (k, v)" by force
  show ?case
  proof (cases "e = map_entry kv")
    case True
    then show ?thesis by (simp add: kv key_less_rank)
  next
    case False
    then have uid: "m_uid k \<noteq> m_uid (key e)"
      using uids_distinctD [OF Cons.prems(1), of e "map_entry kv"] Cons.prems(2)
      by (auto simp: kv)
    then have "key_rank (key e) \<noteq> key_rank k" by (metis key_rank_eq_uid)
    moreover have "uids_distinct (map_events m)"
      using Cons.prems(1) by (rule uids_distinct_subset) auto
    moreover have "e \<in> map_events m" using False Cons.prems(2) by simp
    ultimately show ?thesis using Cons.IH uid by (auto simp: kv key_equiv_rank)
  qed
qed

lemma map_Remove_refines:
  assumes "map_invar m" and "e \<in> map_events m"
  shows "\<exists>m'. map_Remove e m = Some m' \<and> list_Remove e (map_to_list m) = Some (map_to_list m')"
  using stdmap_find_entry [of m e] assms
  by (auto simp: map_Remove_def list_Remove_def map_invar_def list_invar_def)

lemma map_Next_refines:
  "map_PeekNext m = list_PeekNext (map_to_list m)"
  "map_option (apsnd map_to_list) (map_RemoveNext m) = list_RemoveNext (map_to_list m)"
  by (auto simp: map_PeekNext_def list_PeekNext_def map_RemoveNext_def list_RemoveNext_def
      map_entry_def split: list.splits)

interpretation mapq: removable_queue map_ops map_invar map_events "\<lambda>_. 0" "- 1"
proof (unfold_locales, goal_cases)
  case (4 s)
  then show ?case
    using listq.PeekNext_law [of "map_to_list s"] by (simp add: map_invar_def map_Next_refines(1))
next
  case (5 s)
  then obtain e l where "list_RemoveNext (map_to_list s) = Some (e, l)" "earliest (map_events s) e"
    "list_invar l" "set l = map_events s - {e}"
    using listq.RemoveNext_law [of "map_to_list s"] by (auto simp: map_invar_def)
  with map_Next_refines(2) [of s] show ?case by (auto simp: map_invar_def)
next
  case (6 s e)
  then show ?case
    using listq.Insert_law [of "map_to_list s" e] map_Insert_refines [of e s]
    by (auto simp: map_invar_def)
next
  case (7 s e)
  then show ?case
    using listq.Remove_law [of "map_to_list s" e] map_Remove_refines [of s e]
    by (auto simp: map_invar_def)
qed (auto simp: map_invar_def list_invar_def map_IsEmpty_def map_to_list_def)

end
