(* ===== verification/PQ_Scheduler.thy ===== *)
theory PQ_Scheduler
  imports List_Scheduler
begin

text \<open>
  src/core/model/priority-queue-scheduler.cc: a std::priority_queue over a std::vector with
  std::greater as comparison, extended by a remove operation. The C++ standard fixes which
  element top () returns and pop () erases (none of the others compares before it), not how the
  vector is arranged, so the model keeps the elements as a list and selects on demand.
\<close>

type_synonym EventPriorityQueue = "Event list"

text \<open>\<open>pq_top\<close>: an element that is greater than no other one (std::greater as comparison
  makes the smallest key the top). None is top () of an empty queue.\<close>

fun pq_top :: "EventPriorityQueue \<Rightarrow> Event option" where
  "pq_top [] = None"
| "pq_top (e # es) =
     (case pq_top es of
        None \<Rightarrow> Some e
      | Some t \<Rightarrow> (if event_greater e t then Some t else Some e))"

definition pq_pop :: "EventPriorityQueue \<Rightarrow> EventPriorityQueue option" where
  "pq_pop c = (case pq_top c of None \<Rightarrow> None | Some t \<Rightarrow> Some (remove1 t c))"

definition pq_Insert :: "Event \<Rightarrow> EventPriorityQueue \<Rightarrow> EventPriorityQueue option" where
  "pq_Insert ev m_queue = Some (m_queue @ [ev])"

definition pq_IsEmpty :: "EventPriorityQueue \<Rightarrow> bool" where
  "pq_IsEmpty m_queue \<longleftrightarrow> m_queue = []"

definition pq_PeekNext :: "EventPriorityQueue \<Rightarrow> Event option" where
  "pq_PeekNext m_queue = pq_top m_queue"

definition pq_RemoveNext :: "EventPriorityQueue \<Rightarrow> (Event \<times> EventPriorityQueue) option" where
  "pq_RemoveNext m_queue =
     do { ev \<leftarrow> pq_top m_queue; rest \<leftarrow> pq_pop m_queue; Some (ev, rest) }"

text \<open>EventPriorityQueue::remove: find by operator ==, erase, and rebuild the heap. It
  returns whether the event was found.\<close>

definition pq_remove :: "Event \<Rightarrow> EventPriorityQueue \<Rightarrow> bool \<times> EventPriorityQueue" where
  "pq_remove ev c =
     (case list_erase_first (\<lambda>i. event_eq i ev) c of
        Some (_, rest) \<Rightarrow> (True, rest)
      | None \<Rightarrow> (False, c))"

definition pq_Remove :: "Event \<Rightarrow> EventPriorityQueue \<Rightarrow> EventPriorityQueue option" where
  "pq_Remove ev m_queue = Some (snd (pq_remove ev m_queue))"

definition pq_ops :: "EventPriorityQueue scheduler_ops" where
  "pq_ops = \<lparr>Insert = pq_Insert, IsEmpty = pq_IsEmpty, PeekNext = pq_PeekNext,
     RemoveNext = pq_RemoveNext, Remove = pq_Remove\<rparr>"

lemma pq_ops_simps [simp]:
  "Insert pq_ops = pq_Insert" "IsEmpty pq_ops = pq_IsEmpty"
  "PeekNext pq_ops = pq_PeekNext" "RemoveNext pq_ops = pq_RemoveNext"
  "Remove pq_ops = pq_Remove"
  by (simp_all add: pq_ops_def)

definition pq_invar :: "EventPriorityQueue \<Rightarrow> bool" where
  "pq_invar c \<longleftrightarrow> distinct c \<and> uids_distinct (set c)"

lemma pq_top_Some:
  assumes "c \<noteq> []"
  shows "\<exists>t. pq_top c = Some t \<and> t \<in> set c \<and> (\<forall>e \<in> set c. ev_rank t \<le> ev_rank e)"
  using assms
proof (induction c)
  case Nil
  then show ?case by simp
next
  case (Cons e es)
  show ?case
  proof (cases "es = []")
    case True
    then show ?thesis by simp
  next
    case False
    then obtain t where t: "pq_top es = Some t" "t \<in> set es" "\<forall>e \<in> set es. ev_rank t \<le> ev_rank e"
      using Cons.IH by blast
    show ?thesis
    proof (cases "ev_rank t < ev_rank e")
      case True
      with t show ?thesis by (auto simp: event_greater_rank)
    next
      case False
      with t show ?thesis by (fastforce simp: event_greater_rank)
    qed
  qed
qed

lemma pq_top_earliest:
  assumes "pq_invar c" and "c \<noteq> []"
  shows "\<exists>t. pq_top c = Some t \<and> earliest (set c) t"
  using pq_top_Some [OF assms(2)] assms(1) by (auto simp: pq_invar_def intro: earliestI)

lemma pq_Remove_works:
  assumes "pq_invar c" and "e \<in> set c"
  shows "\<exists>c'. pq_Remove e c = Some c' \<and> pq_invar c' \<and> set c' = set c - {e}"
proof -
  obtain rest where r: "list_erase_first (\<lambda>i. event_eq i e) c = Some (e, rest)"
    using list_erase_uid [of c e] assms by (auto simp: pq_invar_def event_eq_def key_eq_def)
  with list_erase_first_set [OF r] assms(1) show ?thesis
    by (auto simp: pq_Remove_def pq_remove_def pq_invar_def intro: uids_distinct_subset)
qed

interpretation pqq: removable_queue pq_ops pq_invar set "\<lambda>_. 0" "- 1"
proof (unfold_locales, goal_cases)
  case (4 s)
  then show ?case using pq_top_earliest [of s] by (auto simp: pq_PeekNext_def)
next
  case (5 s)
  then obtain t where "pq_top s = Some t" "earliest (set s) t" using pq_top_earliest [of s] by auto
  with 5 show ?case
    by (auto simp: pq_RemoveNext_def pq_pop_def pq_invar_def set_remove1_eq
        intro: uids_distinct_subset)
next
  case (6 s e)
  then show ?case by (auto simp: pq_Insert_def pq_invar_def intro: uids_distinct_insert)
next
  case (7 s e)
  then show ?case by (auto dest: pq_Remove_works)
qed (auto simp: pq_invar_def pq_IsEmpty_def)

end
