(* ===== verification/Heap_Scheduler.thy ===== *)
theory Heap_Scheduler
  imports List_Scheduler
begin

text \<open>
  src/core/model/heap-scheduler.cc: a binary heap in a std::vector whose first slot is wasted,
  so that the children of slot \<open>i\<close> are the slots \<open>2 i\<close> and \<open>2 i + 1\<close>. Reads and writes outside
  the vector, and the NS_ASSERT in Exch, are the outcome None.

  Insert, IsEmpty, PeekNext and RemoveNext meet the contract \<open>event_queue\<close>. Remove does not
  keep the heap ordered: it sifts the element it moves only downwards.
\<close>

section \<open>The operations\<close>

type_synonym HeapScheduler = "Event list"

definition heap_init :: HeapScheduler where
  "heap_init = [\<lparr>impl = nullptr, key = \<lparr>m_ts = 0, m_uid = 0, m_context = 0\<rparr>\<rparr>]"

definition Parent :: "nat \<Rightarrow> nat" where
  "Parent i = i div 2"

definition Sibling :: "nat \<Rightarrow> nat" where
  "Sibling i = i + 1"

definition LeftChild :: "nat \<Rightarrow> nat" where
  "LeftChild i = i * 2"

definition RightChild :: "nat \<Rightarrow> nat" where
  "RightChild i = i * 2 + 1"

definition Root :: nat where
  "Root = 1"

definition IsRoot :: "nat \<Rightarrow> bool" where
  "IsRoot i \<longleftrightarrow> i = Root"

definition Last :: "HeapScheduler \<Rightarrow> nat" where
  "Last h = length h - 1"

definition IsBottom :: "HeapScheduler \<Rightarrow> nat \<Rightarrow> bool" where
  "IsBottom h i \<longleftrightarrow> i \<ge> length h"

definition Exch :: "HeapScheduler \<Rightarrow> nat \<Rightarrow> nat \<Rightarrow> HeapScheduler option" where
  "Exch h a b =
     (if b < length h \<and> a < length h then Some (h[a := h ! b, b := h ! a]) else None)"

definition IsLessStrictly :: "HeapScheduler \<Rightarrow> nat \<Rightarrow> nat \<Rightarrow> bool option" where
  "IsLessStrictly h a b =
     (if a < length h \<and> b < length h then Some (event_less (h ! a) (h ! b)) else None)"

definition Smallest :: "HeapScheduler \<Rightarrow> nat \<Rightarrow> nat \<Rightarrow> nat option" where
  "Smallest h a b = do { lt \<leftarrow> IsLessStrictly h a b; Some (if lt then a else b) }"

definition heap_IsEmpty :: "HeapScheduler \<Rightarrow> bool" where
  "heap_IsEmpty h \<longleftrightarrow> length h = 1"

text \<open>The while loop of BottomUp. At slot 0 its guard compares the slot with itself and
  fails, so the index halves in every round.\<close>

function BottomUp_loop :: "HeapScheduler \<Rightarrow> nat \<Rightarrow> HeapScheduler option" where
  "BottomUp_loop h index =
     (if IsRoot index then Some h
      else do {
        lt \<leftarrow> IsLessStrictly h index (Parent index);
        if lt then do {
          h' \<leftarrow> Exch h index (Parent index);
          BottomUp_loop h' (Parent index)
        } else Some h
      })"
  by pat_completeness auto
termination
proof (relation "measure snd", goal_cases)
  case 1
  show ?case by simp
next
  case (2 h index lt h')
  then have "index \<noteq> index div 2"
    by (auto simp: Parent_def IsLessStrictly_def event_less_rank split: if_splits)
  then show ?case by (simp add: Parent_def)
qed

definition BottomUp :: "HeapScheduler \<Rightarrow> HeapScheduler option" where
  "BottomUp h = BottomUp_loop h (Last h)"

text \<open>
  TopDown. Its loop returns from the whole function when the element is in place; the code after
  the loop deals with a node that has only a left child. The function is called with a slot
  of the heap, never with slot 0, where the loop would not end (None).
\<close>

function TopDown :: "HeapScheduler \<Rightarrow> nat \<Rightarrow> HeapScheduler option" where
  "TopDown h index =
     (if index = 0 then None
      else if \<not> IsBottom h (RightChild index) then do {
        tmp \<leftarrow> Smallest h (LeftChild index) (RightChild index);
        lt \<leftarrow> IsLessStrictly h index tmp;
        if lt then Some h
        else do {
          h' \<leftarrow> Exch h index tmp;
          TopDown h' tmp
        }
      }
      else if IsBottom h index then Some h
      else if IsBottom h (LeftChild index) then Some h
      else do {
        lt \<leftarrow> IsLessStrictly h index (LeftChild index);
        if lt then Some h else Exch h index (LeftChild index)
      })"
  by pat_completeness auto
termination
  by (relation "measure (\<lambda>(h, index). length h - index)")
    (auto simp: Smallest_def Exch_def IsBottom_def LeftChild_def RightChild_def
      bind_eq_Some_conv split: if_splits)

declare BottomUp_loop.simps [simp del] TopDown.simps [simp del]

definition heap_Insert :: "Event \<Rightarrow> HeapScheduler \<Rightarrow> HeapScheduler option" where
  "heap_Insert ev h = BottomUp (h @ [ev])"

definition heap_PeekNext :: "HeapScheduler \<Rightarrow> Event option" where
  "heap_PeekNext h = (if Root < length h then Some (h ! Root) else None)"

definition heap_RemoveNext :: "HeapScheduler \<Rightarrow> (Event \<times> HeapScheduler) option" where
  "heap_RemoveNext h =
     (if Root < length h then do {
        h1 \<leftarrow> Exch h Root (Last h);
        h2 \<leftarrow> TopDown (butlast h1) Root;
        Some (h ! Root, h2)
      } else None)"

text \<open>The index loop of Remove: the first slot, from slot 1 on, that holds the uid.\<close>

fun heap_find_uid :: "HeapScheduler \<Rightarrow> u32 \<Rightarrow> nat \<Rightarrow> nat \<Rightarrow> nat option" where
  "heap_find_uid h uid i 0 = None"
| "heap_find_uid h uid i (Suc n) =
     (if uid = m_uid (key (h ! i)) then Some i else heap_find_uid h uid (Suc i) n)"

definition heap_Remove :: "Event \<Rightarrow> HeapScheduler \<Rightarrow> HeapScheduler option" where
  "heap_Remove ev h =
     (case heap_find_uid h (m_uid (key ev)) 1 (length h - 1) of
        None \<Rightarrow> None
      | Some i \<Rightarrow>
          (if impl (h ! i) = impl ev then do {
             h1 \<leftarrow> Exch h i (Last h);
             TopDown (butlast h1) i
           } else None))"

definition heap_ops :: "HeapScheduler scheduler_ops" where
  "heap_ops = \<lparr>Insert = heap_Insert, IsEmpty = heap_IsEmpty, PeekNext = heap_PeekNext,
     RemoveNext = heap_RemoveNext, Remove = heap_Remove\<rparr>"

lemma heap_ops_simps [simp]:
  "Insert heap_ops = heap_Insert" "IsEmpty heap_ops = heap_IsEmpty"
  "PeekNext heap_ops = heap_PeekNext" "RemoveNext heap_ops = heap_RemoveNext"
  "Remove heap_ops = heap_Remove"
  by (simp_all add: heap_ops_def)

lemmas heap_index_defs = Parent_def LeftChild_def RightChild_def Root_def IsRoot_def IsBottom_def

section \<open>Sifting, on the ranks\<close>

text \<open>
  The order is a property of the function from slots to ranks. \<open>up_hole f n i\<close>: the heap order
  holds but for the edge into slot \<open>i\<close>. \<open>down_hole f n k\<close>: it holds but for the edges from
  slot \<open>k\<close> to its children.
\<close>

definition heap_order :: "(nat \<Rightarrow> 'r :: linorder) \<Rightarrow> nat \<Rightarrow> bool" where
  "heap_order f n \<longleftrightarrow> (\<forall>j. 2 \<le> j \<longrightarrow> j < n \<longrightarrow> f (j div 2) \<le> f j)"

definition up_hole :: "(nat \<Rightarrow> 'r :: linorder) \<Rightarrow> nat \<Rightarrow> nat \<Rightarrow> bool" where
  "up_hole f n i \<longleftrightarrow>
     (\<forall>j. 2 \<le> j \<longrightarrow> j < n \<longrightarrow> j \<noteq> i \<longrightarrow> f (j div 2) \<le> f j) \<and>
     (\<forall>j. 2 \<le> i \<longrightarrow> j < n \<longrightarrow> j div 2 = i \<longrightarrow> f (i div 2) \<le> f j)"

definition down_hole :: "(nat \<Rightarrow> 'r :: linorder) \<Rightarrow> nat \<Rightarrow> nat \<Rightarrow> bool" where
  "down_hole f n k \<longleftrightarrow>
     (\<forall>j. 2 \<le> j \<longrightarrow> j < n \<longrightarrow> j div 2 \<noteq> k \<longrightarrow> f (j div 2) \<le> f j) \<and>
     (\<forall>j. 2 \<le> k \<longrightarrow> j < n \<longrightarrow> j div 2 = k \<longrightarrow> f (k div 2) \<le> f j)"

lemma heap_order_root:
  assumes "heap_order f n" and "1 \<le> i" and "i < n"
  shows "f 1 \<le> f i"
  using assms(2,3)
proof (induction i rule: less_induct)
  case (less i)
  show ?case
  proof (cases "i = 1")
    case True
    then show ?thesis by simp
  next
    case False
    with less.prems have "i div 2 < i" "1 \<le> i div 2" "i div 2 < n" by linarith+
    then have "f 1 \<le> f (i div 2)" by (rule less.IH)
    also have "\<dots> \<le> f i" using assms(1) False less.prems by (simp add: heap_order_def)
    finally show ?thesis .
  qed
qed

lemma up_hole_done: "up_hole f n i \<Longrightarrow> i < 2 \<or> f (i div 2) \<le> f i \<Longrightarrow> heap_order f n"
  by (auto simp: up_hole_def heap_order_def)

lemma up_hole_step:
  assumes h: "up_hole f n i" and i: "2 \<le> i" "i < n" and lt: "f i < f (i div 2)"
  shows "up_hole (f(i := f (i div 2), i div 2 := f i)) n (i div 2)"
proof -
  let ?p = "i div 2"
  let ?f = "f(i := f ?p, ?p := f i)"
  have pi: "?p \<noteq> i" "?p < n" "?p div 2 \<noteq> ?p" "?p div 2 \<noteq> i" using i by auto
  have edge: "f (j div 2) \<le> f j" if "2 \<le> j" "j < n" "j \<noteq> i" for j
    using h that by (simp add: up_hole_def)
  have child: "f ?p \<le> f j" if "j < n" "j div 2 = i" for j
    using h i that by (simp add: up_hole_def)
  have "?f (j div 2) \<le> ?f j" if j: "2 \<le> j" "j < n" "j \<noteq> ?p" for j
  proof (cases "j = i")
    case True
    then show ?thesis using lt pi by (simp add: less_imp_le)
  next
    case False
    have "f i \<le> f j" if "j div 2 = ?p" using edge [OF j(1,2) False] lt that by simp
    then show ?thesis using False j child [of j] edge [OF j(1,2) False] by auto
  qed
  moreover have "?f (?p div 2) \<le> ?f j" if "2 \<le> ?p" "j < n" "j div 2 = ?p" for j
  proof -
    have "f (?p div 2) \<le> f ?p" using edge [of ?p] that(1) pi by simp
    moreover have "f ?p \<le> f j" if "j \<noteq> i"
      using edge [of j] that \<open>2 \<le> ?p\<close> \<open>j < n\<close> \<open>j div 2 = ?p\<close> by auto
    ultimately show ?thesis using that pi by auto
  qed
  ultimately show ?thesis by (simp add: up_hole_def)
qed

lemma down_hole_done:
  assumes "down_hole f n k" and "\<And>j. 2 \<le> j \<Longrightarrow> j < n \<Longrightarrow> j div 2 = k \<Longrightarrow> f k \<le> f j"
  shows "heap_order f n"
  using assms by (auto simp: down_hole_def heap_order_def)

lemma down_hole_replace:
  assumes "heap_order f m" and "n \<le> m" and "\<And>j. j \<noteq> i \<Longrightarrow> j < n \<Longrightarrow> g j = f j"
    and "2 \<le> i \<Longrightarrow> i < n \<Longrightarrow> f (i div 2) \<le> g i" and "1 \<le> i"
  shows "down_hole g n i"
proof -
  have edge: "f (j div 2) \<le> f j" if "2 \<le> j" "j < n" for j
    using assms(1,2) that by (simp add: heap_order_def)
  have "g (j div 2) \<le> g j" if "2 \<le> j" "j < n" "j div 2 \<noteq> i" for j
    using edge [OF that(1,2)] assms(3) [of j] assms(3) [of "j div 2"] assms(4) that by (cases "j = i") auto
  moreover have "g (i div 2) \<le> g j" if "2 \<le> i" "j < n" "j div 2 = i" for j
  proof -
    have "f (i div 2) \<le> f i" "f i \<le> f j" using edge [of i] edge [of j] that by auto
    with assms(3) [of j] assms(3) [of "i div 2"] that show ?thesis by auto
  qed
  ultimately show ?thesis by (simp add: down_hole_def)
qed

lemma down_hole_step:
  assumes h: "down_hole f n k" and k: "1 \<le> k" and t: "t div 2 = k" "t < n"
    and ge: "f t \<le> f k" and small: "\<And>j. j < n \<Longrightarrow> j div 2 = k \<Longrightarrow> f t \<le> f j"
  shows "down_hole (f(k := f t, t := f k)) n t"
proof -
  let ?f = "f(k := f t, t := f k)"
  have kt: "k \<noteq> t" "2 \<le> t" using k t by auto
  have edge: "f (j div 2) \<le> f j" if "2 \<le> j" "j < n" "j div 2 \<noteq> k" for j
    using h that by (simp add: down_hole_def)
  have "?f (j div 2) \<le> ?f j" if j: "2 \<le> j" "j < n" "j div 2 \<noteq> t" for j
  proof (cases "j div 2 = k")
    case True
    then show ?thesis using ge small [of j] j kt by auto
  next
    case False
    have "f (k div 2) \<le> f t" if "2 \<le> k" using h t that by (simp add: down_hole_def)
    then show ?thesis using edge [OF j(1,2) False] False j t kt by auto
  qed
  moreover have "?f (t div 2) \<le> ?f j" if "j < n" "j div 2 = t" for j
    using edge [of j] that t kt by auto
  ultimately show ?thesis by (simp add: down_hole_def)
qed

section \<open>The operations keep the heap\<close>

abbreviation hr :: "HeapScheduler \<Rightarrow> nat \<Rightarrow> rank" where
  "hr h \<equiv> \<lambda>j. ev_rank (h ! j)"

definition heap_invar :: "HeapScheduler \<Rightarrow> bool" where
  "heap_invar h \<longleftrightarrow> h \<noteq> [] \<and> heap_order (hr h) (length h) \<and> distinct (tl h) \<and> uids_distinct (set (tl h))"

abbreviation heap_events :: "HeapScheduler \<Rightarrow> Event set" where
  "heap_events h \<equiv> set (tl h)"

text \<open>Two vectors hold the same events when they differ in the order of the slots from 1 on.\<close>

definition same_slots :: "HeapScheduler \<Rightarrow> HeapScheduler \<Rightarrow> bool" where
  "same_slots h h' \<longleftrightarrow> length h' = length h \<and> mset (tl h') = mset (tl h)"

lemma same_slots_refl [simp]: "same_slots h h"
  by (simp add: same_slots_def)

lemma same_slots_trans [trans]: "same_slots a b \<Longrightarrow> same_slots b c \<Longrightarrow> same_slots a c"
  by (simp add: same_slots_def)

lemma Exch_Some:
  assumes "a < length h" and "b < length h"
  shows "Exch h a b = Some (h[a := h ! b, b := h ! a])"
    and "hr (h[a := h ! b, b := h ! a]) = (hr h)(a := hr h b, b := hr h a)"
  using assms by (auto simp: Exch_def nth_list_update)

lemma Exch_same_slots:
  assumes "1 \<le> a" and "a < length h" and "1 \<le> b" and "b < length h"
  shows "same_slots h (h[a := h ! b, b := h ! a])"
proof -
  obtain x xs where h: "h = x # xs" using assms(2) by (cases h) auto
  obtain a' b' where "a = Suc a'" "b = Suc b'" using assms(1,3) by (metis not0_implies_Suc not_one_le_zero)
  with assms h show ?thesis using mset_swap [of b' xs a'] by (simp add: same_slots_def)
qed

lemma BottomUp_loop_correct:
  assumes "up_hole (hr h) (length h) i" and "1 \<le> i" and "i < length h"
  shows "\<exists>h'. BottomUp_loop h i = Some h' \<and> heap_order (hr h') (length h') \<and> same_slots h h'"
  using assms
proof (induction h i rule: BottomUp_loop.induct)
  case (1 h i)
  show ?case
  proof (cases "i \<ge> 2 \<and> hr h i < hr h (i div 2)")
    case False
    then have "heap_order (hr h) (length h)"
      using "1.prems"(1) by (intro up_hole_done [of _ _ i]) auto
    moreover have "BottomUp_loop h i = Some h"
      using False "1.prems" by (subst BottomUp_loop.simps)
        (auto simp: heap_index_defs IsLessStrictly_def event_less_rank)
    ultimately show ?thesis by simp
  next
    case True
    let ?h = "h[i := h ! (i div 2), i div 2 := h ! i]"
    have p: "1 \<le> i div 2" "i div 2 < length h" using True "1.prems" by auto
    note ex = Exch_Some [OF "1.prems"(3) p(2)]
    have "up_hole (hr ?h) (length ?h) (i div 2)"
      using up_hole_step [OF "1.prems"(1) _ "1.prems"(3)] True by (simp only: ex length_list_update)
    then obtain h' where h': "BottomUp_loop ?h (i div 2) = Some h'"
      "heap_order (hr h') (length h')" "same_slots ?h h'"
      using "1.IH" [of True ?h] True p "1.prems" ex(1)
      by (auto simp: heap_index_defs IsLessStrictly_def event_less_rank)
    have "BottomUp_loop h i = BottomUp_loop ?h (i div 2)"
      using True "1.prems" p by (subst BottomUp_loop.simps)
        (simp add: heap_index_defs IsLessStrictly_def event_less_rank ex)
    moreover have "same_slots h h'"
      using Exch_same_slots [OF "1.prems"(2,3) p] h'(3) by (rule same_slots_trans)
    ultimately show ?thesis using h' by simp
  qed
qed

lemma children_cases: "j div 2 = k \<longleftrightarrow> j = 2 * k \<or> j = Suc (2 * k)"
  for j k :: nat
  by auto

text \<open>One round of TopDown: a leaf, a node with a left child only, a node with two children.\<close>

definition smaller_child :: "HeapScheduler \<Rightarrow> nat \<Rightarrow> nat" where
  "smaller_child h k = (if hr h (2 * k) < hr h (Suc (2 * k)) then 2 * k else Suc (2 * k))"

lemma TopDown_leaf:
  "k \<noteq> 0 \<Longrightarrow> \<not> 2 * k < length h \<Longrightarrow> TopDown h k = Some h"
  by (subst TopDown.simps) (auto simp: heap_index_defs)

lemma TopDown_left:
  "k \<noteq> 0 \<Longrightarrow> 2 * k < length h \<Longrightarrow> \<not> Suc (2 * k) < length h \<Longrightarrow>
   TopDown h k = (if hr h k < hr h (2 * k) then Some h else Some (h[k := h ! (2 * k), 2 * k := h ! k]))"
  by (subst TopDown.simps)
    (auto simp: heap_index_defs IsLessStrictly_def event_less_rank Exch_def mult.commute)

lemma Smallest_child:
  "Suc (2 * k) < length h \<Longrightarrow>
   Smallest h (LeftChild k) (RightChild k) = Some (smaller_child h k)"
  by (auto simp: Smallest_def IsLessStrictly_def heap_index_defs smaller_child_def
      event_less_rank mult.commute)

lemma smaller_child:
  assumes "Suc (2 * k) < length h" and "k \<noteq> 0"
  shows "smaller_child h k div 2 = k" and "smaller_child h k < length h" and "1 \<le> smaller_child h k"
    and "k < length h" and "\<And>j. j div 2 = k \<Longrightarrow> hr h (smaller_child h k) \<le> hr h j"
  using assms by (auto simp: smaller_child_def children_cases)

lemma TopDown_both:
  assumes "Suc (2 * k) < length h" and "k \<noteq> 0" and "t = smaller_child h k"
  shows "TopDown h k = (if hr h k < hr h t then Some h else TopDown (h[k := h ! t, t := h ! k]) t)"
proof -
  note t = smaller_child [OF assms(1,2), folded assms(3)]
  have "\<not> IsBottom h (RightChild k)" using assms(1) by (simp add: heap_index_defs)
  then show ?thesis
    using assms(2,3) t(2,4) Exch_Some(1) [OF t(4,2)] by (subst TopDown.simps)
      (simp add: Smallest_child [OF assms(1)] IsLessStrictly_def event_less_rank)
qed

lemma TopDown_correct:
  assumes "down_hole (hr h) (length h) k" and "1 \<le> k"
  shows "\<exists>h'. TopDown h k = Some h' \<and> heap_order (hr h') (length h') \<and> same_slots h h'"
  using assms
proof (induction "length h - k" arbitrary: h k rule: less_induct)
  case less
  have ordered: "heap_order (hr h) (length h)"
    if "\<And>j. j < length h \<Longrightarrow> j div 2 = k \<Longrightarrow> hr h k \<le> hr h j"
    using less.prems(1) that by (blast intro: down_hole_done)
  have swap: "down_hole (hr (h[k := h ! t, t := h ! k])) (length h) t"
    "same_slots h (h[k := h ! t, t := h ! k])"
    if t: "t div 2 = k" "t < length h" "\<not> hr h k < hr h t"
      "\<And>j. j < length h \<Longrightarrow> j div 2 = k \<Longrightarrow> hr h t \<le> hr h j" for t
  proof -
    have k: "k < length h" "1 \<le> t" using t less.prems(2) by auto
    show "down_hole (hr (h[k := h ! t, t := h ! k])) (length h) t"
      unfolding Exch_Some(2) [OF k(1) t(2)] using t less.prems by (intro down_hole_step) auto
    show "same_slots h (h[k := h ! t, t := h ! k])"
      using t k less.prems(2) by (intro Exch_same_slots) auto
  qed
  consider (both) "Suc (2 * k) < length h" | (left) "2 * k < length h" "\<not> Suc (2 * k) < length h"
    | (leaf) "\<not> 2 * k < length h" by blast
  then show ?case
  proof cases
    case leaf
    then have "heap_order (hr h) (length h)" by (intro ordered) (auto simp: children_cases)
    with leaf less.prems(2) show ?thesis by (simp add: TopDown_leaf)
  next
    case left
    have "heap_order (hr (h[k := h ! (2 * k), 2 * k := h ! k])) (length h)"
      if "\<not> hr h k < hr h (2 * k)"
      by (rule down_hole_done [OF swap(1)]) (use left less.prems(2) that in \<open>auto simp: children_cases\<close>)
    moreover have "heap_order (hr h) (length h)" if "hr h k < hr h (2 * k)"
      using left that by (intro ordered) (auto simp: children_cases intro: less_imp_le)
    ultimately show ?thesis
      using left less.prems(2) swap(2) [of "2 * k"] by (auto simp: TopDown_left children_cases)
  next
    case both
    define t where "t = smaller_child h k"
    note t = smaller_child [OF both, folded t_def]
    have k: "k \<noteq> 0" using less.prems(2) by simp
    have "heap_order (hr h) (length h)" if "hr h k < hr h t"
      using t(5) [OF k] that by (intro ordered) (metis less_imp_le order_trans)
    moreover have "\<exists>h'. TopDown (h[k := h ! t, t := h ! k]) t = Some h' \<and>
      heap_order (hr h') (length h') \<and> same_slots h h'" if "\<not> hr h k < hr h t"
    proof -
      let ?h = "h[k := h ! t, t := h ! k]"
      have "length h - t < length h - k" using t(1,2,4) [OF k] k by auto
      moreover have "down_hole (hr ?h) (length ?h) t" and ss: "same_slots h ?h"
        using swap [of t] t [OF k] that by simp_all
      ultimately have "\<exists>h'. TopDown ?h t = Some h' \<and> heap_order (hr h') (length h') \<and> same_slots ?h h'"
        using t(3) [OF k] by (intro less.hyps) simp_all
      with ss show ?thesis by (blast intro: same_slots_trans)
    qed
    ultimately show ?thesis using TopDown_both [OF both k t_def] by auto
  qed
qed

text \<open>Without any order, TopDown still returns and keeps the events.\<close>

lemma TopDown_keeps_events:
  assumes "1 \<le> k"
  shows "\<exists>h'. TopDown h k = Some h' \<and> same_slots h h'"
  using assms
proof (induction "length h - k" arbitrary: h k rule: less_induct)
  case less
  have k: "k \<noteq> 0" using less.prems by simp
  consider (both) "Suc (2 * k) < length h" | (left) "2 * k < length h" "\<not> Suc (2 * k) < length h"
    | (leaf) "\<not> 2 * k < length h" by blast
  then show ?case
  proof cases
    case leaf
    with k show ?thesis by (simp add: TopDown_leaf)
  next
    case left
    with k Exch_same_slots [of k h "2 * k"] show ?thesis by (auto simp: TopDown_left)
  next
    case both
    define t where "t = smaller_child h k"
    note t = smaller_child [OF both k, folded t_def]
    let ?h = "h[k := h ! t, t := h ! k]"
    have "length h - t < length h - k" using t(1,2,4) k by auto
    then obtain h' where "TopDown ?h t = Some h'" "same_slots ?h h'"
      using less.hyps [of ?h t] t(3) by auto
    moreover have "same_slots h ?h" using Exch_same_slots [of k h t] t k by auto
    ultimately show ?thesis using TopDown_both [OF both k t_def] by (auto intro: same_slots_trans)
  qed
qed

lemma same_slots_events: "same_slots h h' \<Longrightarrow> heap_events h' = heap_events h"
  unfolding same_slots_def by (metis set_mset_mset)

lemma same_slots_invar:
  "same_slots h h' \<Longrightarrow> h \<noteq> [] \<Longrightarrow> distinct (tl h) \<Longrightarrow> uids_distinct (set (tl h)) \<Longrightarrow>
   heap_order (hr h') (length h') \<Longrightarrow> heap_invar h'"
  using same_slots_events [of h h'] unfolding heap_invar_def same_slots_def
  by (metis length_0_conv mset_eq_imp_distinct_iff)

lemma heap_Insert_works:
  assumes "heap_invar h" and "ev_uid e \<notin> ev_uid ` heap_events h"
  shows "\<exists>h'. heap_Insert e h = Some h' \<and> heap_invar h' \<and> heap_events h' = insert e (heap_events h)"
proof -
  let ?h = "h @ [e]"
  have ne: "h \<noteq> []" and ho: "heap_order (hr h) (length h)" using assms(1) by (auto simp: heap_invar_def)
  have "up_hole (hr ?h) (length ?h) (length h)"
    using ho ne unfolding up_hole_def heap_order_def by (auto simp: nth_append)
  moreover have "1 \<le> length h" using ne by (simp add: Suc_le_eq)
  ultimately obtain h' where h': "BottomUp_loop ?h (length h) = Some h'"
    "heap_order (hr h') (length h')" "same_slots ?h h'"
    using BottomUp_loop_correct [of ?h "length h"] by auto
  have tl: "tl ?h = tl h @ [e]" using ne by simp
  have "distinct (tl ?h)" "uids_distinct (set (tl ?h))"
    using assms tl by (auto simp: heap_invar_def intro: uids_distinct_insert)
  then have "heap_invar h'" using h' by (intro same_slots_invar [of ?h]) auto
  with h' tl show ?thesis
    by (auto simp: heap_Insert_def BottomUp_def Last_def dest: same_slots_events)
qed

text \<open>Both removals exchange a slot with the last one and drop the last one.\<close>

lemma heap_take_out:
  assumes "1 \<le> i" and "i < length h"
  shows "\<exists>h1. Exch h i (Last h) = Some h1 \<and> butlast h1 \<noteq> [] \<and> length (butlast h1) = length h - 1
    \<and> (\<forall>j. j \<noteq> i \<longrightarrow> j < length h - 1 \<longrightarrow> butlast h1 ! j = h ! j)
    \<and> (i < length h - 1 \<longrightarrow> butlast h1 ! i = last h)
    \<and> mset (tl h) = add_mset (h ! i) (mset (tl (butlast h1)))"
proof -
  define L where "L = length h - 1"
  have L: "1 \<le> L" "L < length h" "i \<le> L" using assms by (auto simp: L_def)
  define h1 where "h1 = h[i := h ! L, L := h ! i]"
  have e: "Exch h i (Last h) = Some h1"
    using Exch_Some(1) [OF assms(2) L(2)] by (simp add: Last_def L_def h1_def)
  have ne: "h1 \<noteq> []" "tl h1 \<noteq> []" using L by (auto simp: h1_def simp flip: length_greater_0_conv)
  have ln: "length h1 = Suc L" using L by (simp add: h1_def L_def)
  have "last h1 = h ! i" using ne L by (simp add: last_conv_nth h1_def L_def)
  moreover have "tl h1 = tl (butlast h1) @ [last h1]"
    using ne by (metis append_butlast_last_id butlast_tl last_tl)
  moreover have "mset (tl h1) = mset (tl h)"
    using Exch_same_slots [OF assms L(1,2)] by (simp add: same_slots_def h1_def)
  ultimately have "mset (tl h) = add_mset (h ! i) (mset (tl (butlast h1)))" by (simp add: union_commute)
  moreover have "\<forall>j. j < L \<longrightarrow> butlast h1 ! j = (if j = i then last h else h ! j)"
    using ln L ne by (auto simp: nth_butlast h1_def nth_list_update last_conv_nth L_def)
  ultimately show ?thesis using e ln L by (auto simp: L_def simp flip: length_greater_0_conv)
qed

lemma heap_drop_slot:
  assumes "heap_invar h" and "mset (tl h) = add_mset e (mset (tl h1))" and "same_slots h1 h2"
    and "h1 \<noteq> []"
  shows "heap_events h2 = heap_events h - {e}"
    and "heap_order (hr h2) (length h2) \<Longrightarrow> heap_invar h2"
proof -
  have d: "distinct (e # tl h1)"
    using assms(1,2) by (metis heap_invar_def mset.simps(2) mset_eq_imp_distinct_iff)
  have ev: "heap_events h = insert e (heap_events h1)" using assms(2) by (metis list.simps(15) mset.simps(2) mset_eq_setD)
  with d assms(3) show "heap_events h2 = heap_events h - {e}" by (auto dest: same_slots_events)
  assume "heap_order (hr h2) (length h2)"
  moreover have "uids_distinct (heap_events h1)"
    using assms(1) ev by (auto simp: heap_invar_def intro: uids_distinct_subset)
  ultimately show "heap_invar h2" using assms(3,4) d by (auto intro: same_slots_invar)
qed

lemma heap_root_earliest:
  assumes "heap_invar h" and "heap_events h \<noteq> {}"
  shows "1 < length h" and "earliest (heap_events h) (h ! 1)"
proof -
  show l: "1 < length h" using assms(2) by (cases h rule: list.exhaust; cases "tl h") auto
  have nth: "h ! Suc i = tl h ! i" if "i < length (tl h)" for i using that by (simp add: nth_tl)
  show "earliest (heap_events h) (h ! 1)"
  proof (rule earliestI)
    show "uids_distinct (heap_events h)" using assms(1) by (simp add: heap_invar_def)
    show "h ! 1 \<in> heap_events h" using nth [of 0] l by simp
    fix e'
    assume "e' \<in> heap_events h"
    then obtain i where "i < length (tl h)" "e' = h ! Suc i" using nth by (metis in_set_conv_nth)
    then show "hr h 1 \<le> ev_rank e'"
      using heap_order_root [of "hr h" "length h" "Suc i"] assms(1) by (auto simp: heap_invar_def)
  qed
qed

lemma heap_RemoveNext_works:
  assumes "heap_invar h" and "heap_events h \<noteq> {}"
  shows "\<exists>h'. heap_RemoveNext h = Some (h ! 1, h') \<and> heap_invar h' \<and> heap_events h' = heap_events h - {h ! 1}"
proof -
  note l = heap_root_earliest(1) [OF assms]
  obtain h1 where h1: "Exch h 1 (Last h) = Some h1" "butlast h1 \<noteq> []"
    "length (butlast h1) = length h - 1" "\<forall>j. j \<noteq> 1 \<longrightarrow> j < length h - 1 \<longrightarrow> butlast h1 ! j = h ! j"
    "mset (tl h) = add_mset (h ! 1) (mset (tl (butlast h1)))"
    using heap_take_out [of 1 h] l by auto
  have "down_hole (hr (butlast h1)) (length (butlast h1)) 1"
    using assms(1) h1(3,4) by (intro down_hole_replace [of "hr h" "length h"]) (auto simp: heap_invar_def)
  then obtain h2 where h2: "TopDown (butlast h1) 1 = Some h2" "heap_order (hr h2) (length h2)"
    "same_slots (butlast h1) h2"
    using TopDown_correct [of "butlast h1" 1] by auto
  with h1 l heap_drop_slot [OF assms(1) h1(5) h2(3) h1(2)] show ?thesis
    by (auto simp: heap_RemoveNext_def Root_def)
qed

interpretation heapq: event_queue heap_ops heap_invar heap_events "\<lambda>_. 0" "- 1"
proof (unfold_locales, goal_cases)
  case (3 s)
  then show ?case by (cases s) (auto simp: heap_IsEmpty_def heap_invar_def)
next
  case (4 s)
  then show ?case using heap_root_earliest [of s] by (auto simp: heap_PeekNext_def Root_def)
next
  case (5 s)
  then show ?case using heap_root_earliest [of s] heap_RemoveNext_works [of s] by auto
next
  case (6 s e)
  then show ?case using heap_Insert_works [of s e] by auto
qed (auto simp: heap_invar_def)

lemma heap_invar_init: "heap_invar heap_init" "heap_events heap_init = {}"
  by (simp_all add: heap_invar_def heap_init_def heap_order_def uids_distinct_def)

section \<open>Remove\<close>

lemma heap_find_uid_Some:
  assumes "uids_distinct (set (drop i h))" and "e \<in> set (drop i h)" and "i + n = length h"
  shows "\<exists>j. heap_find_uid h (ev_uid e) i n = Some j \<and> i \<le> j \<and> j < length h \<and> h ! j = e"
  using assms
proof (induction n arbitrary: i)
  case 0
  then show ?case by simp
next
  case (Suc n)
  then have d: "drop i h = h ! i # drop (Suc i) h" by (simp add: Cons_nth_drop_Suc)
  show ?case
  proof (cases "h ! i = e")
    case True
    with Suc.prems(3) show ?thesis by auto
  next
    case False
    with d Suc.prems(2) have e: "e \<in> set (drop (Suc i) h)" by simp
    have "ev_uid (h ! i) \<noteq> ev_uid e"
      using uids_distinctD [OF Suc.prems(1), of "h ! i" e] False d Suc.prems(2) by auto
    moreover have "uids_distinct (set (drop (Suc i) h))"
      using Suc.prems(1) by (rule uids_distinct_subset) (auto simp: d)
    ultimately show ?thesis using Suc.IH [of "Suc i"] e Suc.prems(3) by fastforce
  qed
qed

lemma heap_find_event:
  assumes "heap_invar h" and "e \<in> heap_events h"
  shows "\<exists>i. heap_find_uid h (ev_uid e) 1 (length h - 1) = Some i \<and> 1 \<le> i \<and> i < length h \<and> h ! i = e"
  using assms heap_find_uid_Some [of 1 h e "length h - 1"]
  by (auto simp: heap_invar_def drop_Suc Suc_le_eq)

text \<open>HeapScheduler::Remove always takes exactly the given event out of the vector: on a
  heap that holds the event no assertion fails, the loop ends, and the events left are the
  others.\<close>

theorem heap_Remove_events:
  assumes "heap_invar h" and "e \<in> heap_events h"
  shows "\<exists>h'. heap_Remove e h = Some h' \<and> heap_events h' = heap_events h - {e}"
proof -
  obtain i where i: "heap_find_uid h (ev_uid e) 1 (length h - 1) = Some i" "1 \<le> i" "i < length h" "h ! i = e"
    using heap_find_event [OF assms] by blast
  obtain h1 where h1: "Exch h i (Last h) = Some h1" "butlast h1 \<noteq> []"
    "mset (tl h) = add_mset e (mset (tl (butlast h1)))"
    using heap_take_out [OF i(2,3)] i(4) by auto
  obtain h2 where "TopDown (butlast h1) i = Some h2" "same_slots (butlast h1) h2"
    using TopDown_keeps_events [OF i(2)] by blast
  with i h1 heap_drop_slot(1) [OF assms(1) h1(3)] show ?thesis by (auto simp: heap_Remove_def)
qed

text \<open>HeapScheduler::Remove keeps the heap ordered when the last element of the vector is
  not earlier than the parent of the removed slot, the case the code handles by sifting down
  only.\<close>

theorem heap_Remove_ordered:
  assumes "heap_invar h" and "e \<in> heap_events h"
    and "\<forall>i < length h. 2 \<le> i \<longrightarrow> h ! i = e \<longrightarrow> \<not> event_less (last h) (h ! (i div 2))"
  shows "\<exists>h'. heap_Remove e h = Some h' \<and> heap_invar h' \<and> heap_events h' = heap_events h - {e}"
proof -
  obtain i where i: "heap_find_uid h (ev_uid e) 1 (length h - 1) = Some i" "1 \<le> i" "i < length h" "h ! i = e"
    using heap_find_event [OF assms(1,2)] by blast
  obtain h1 where h1: "Exch h i (Last h) = Some h1" "butlast h1 \<noteq> []"
    "length (butlast h1) = length h - 1" "\<forall>j. j \<noteq> i \<longrightarrow> j < length h - 1 \<longrightarrow> butlast h1 ! j = h ! j"
    "i < length h - 1 \<longrightarrow> butlast h1 ! i = last h"
    "mset (tl h) = add_mset e (mset (tl (butlast h1)))"
    using heap_take_out [OF i(2,3)] i(4) by auto
  have "down_hole (hr (butlast h1)) (length (butlast h1)) i"
    using assms(1,3) i h1(3,4,5)
    by (intro down_hole_replace [of "hr h" "length h"])
      (auto simp: heap_invar_def event_less_rank not_less)
  then obtain h2 where h2: "TopDown (butlast h1) i = Some h2" "heap_order (hr h2) (length h2)"
    "same_slots (butlast h1) h2"
    using TopDown_correct [OF _ i(2)] by blast
  with i h1 heap_drop_slot [OF assms(1) h1(6) h2(3) h1(2)] show ?thesis
    by (auto simp: heap_Remove_def)
qed

subsection \<open>Sample heaps\<close>

abbreviation sample_event :: "u64 \<Rightarrow> u32 \<Rightarrow> Event" where
  "sample_event ts uid \<equiv> \<lparr>impl = 1, key = \<lparr>m_ts = ts, m_uid = uid, m_context = 0\<rparr>\<rparr>"

definition sample_heap :: HeapScheduler where
  "sample_heap = heap_init @ [sample_event 1 4, sample_event 4 5, sample_event 2 6]"

lemma two_or_three: "2 \<le> j \<Longrightarrow> j < 4 \<Longrightarrow> j = 2 \<or> j = (3::nat)"
  by auto

lemma sample_heap_invar: "heap_invar sample_heap" "sample_event 4 5 \<in> heap_events sample_heap"
proof -
  have "heap_order (hr sample_heap) (length sample_heap)"
    by (auto simp: heap_order_def sample_heap_def heap_init_def key_rank_def less_eq_rank_def dest!: two_or_three)
  then show "heap_invar sample_heap"
    by (auto simp: heap_invar_def) (auto simp: sample_heap_def heap_init_def uids_distinct_def)
  show "sample_event 4 5 \<in> heap_events sample_heap" by (simp add: sample_heap_def heap_init_def)
qed

lemma heap_Remove_events_witness:
  "\<exists>h'. heap_Remove (sample_event 4 5) sample_heap = Some h' \<and>
     heap_events h' = heap_events sample_heap - {sample_event 4 5}"
  by (rule heap_Remove_events [OF sample_heap_invar])

lemma heap_Remove_ordered_witness:
  "\<exists>h'. heap_Remove (sample_event 4 5) sample_heap = Some h' \<and> heap_invar h' \<and>
     heap_events h' = heap_events sample_heap - {sample_event 4 5}"
proof (rule heap_Remove_ordered [OF sample_heap_invar])
  show "\<forall>i < length sample_heap. 2 \<le> i \<longrightarrow> sample_heap ! i = sample_event 4 5 \<longrightarrow>
      \<not> event_less (last sample_heap) (sample_heap ! (i div 2))"
    by (auto simp: sample_heap_def heap_init_def event_less_def key_less_def dest!: two_or_three)
qed

text \<open>Seven events at the times 1, 4, 2, 6, 3, 5, 0 are inserted; then the event at time 6 is
  removed and the rest is drained.\<close>

definition sample_inserted :: "HeapScheduler option" where
  "sample_inserted = foldl (\<lambda>s (t, u). Option.bind s (heap_Insert (sample_event t u))) (Some heap_init)
     [(1, 4), (4, 5), (2, 6), (6, 7), (3, 8), (5, 9), (0, 10)]"

definition sample_drained :: "Event list" where
  "sample_drained = map (\<lambda>(t, u). sample_event t u)
     [(0, 10), (1, 4), (3, 8), (2, 6), (4, 5), (5, 9)]"

lemma sample_drain:
  "do { h \<leftarrow> sample_inserted; h' \<leftarrow> heap_Remove (sample_event 6 7) h; drain heap_ops 6 h' }
   = Some sample_drained"
  by code_simp

text \<open>C20: HeapScheduler::Remove does not keep the heap ordered. From an empty scheduler, after
  inserting seven events and removing one, RemoveNext delivers the event at time 3 before the
  event at time 2.\<close>

theorem heap_Remove_out_of_order:
  "\<exists>es. do { h \<leftarrow> sample_inserted; h' \<leftarrow> heap_Remove (sample_event 6 7) h; drain heap_ops 6 h' } = Some es
     \<and> \<not> sorted_wrt event_less es"
proof -
  have "\<not> sorted_wrt event_less sample_drained" by code_simp
  with sample_drain show ?thesis by blast
qed

end
