(* ===== verification/Calendar_Scheduler.thy ===== *)
theory Calendar_Scheduler
  imports List_Scheduler
begin

text \<open>
  src/core/model/calendar-scheduler.cc: a calendar queue. Events are hashed by time stamp
  into \<open>m_nBuckets\<close> sorted buckets of width \<open>m_width\<close>; the search for the next event starts
  at the bucket of the last removed time stamp \<open>m_lastPrio\<close> and walks the buckets in the
  order of the calendar. The number of buckets and the width follow the number of events.

  The machine arithmetic of the code (32-bit bucket numbers, 64-bit time stamps) is kept at its
  width. The contract \<open>removable_queue\<close> holds for time stamps up to \<open>cal_horizon\<close>, \<open>2 ^ 47\<close>:
  with at most 32768 buckets of width at most three times the largest time stamp, the sum
  \<open>bucketTop += m_width\<close> of a whole turn of the calendar then stays below \<open>2 ^ 64\<close>.
\<close>

section \<open>State and operations\<close>

type_synonym Bucket = "Event list"

record CalendarScheduler =
  m_buckets :: "Bucket list"
  m_nBuckets :: u32
  m_width :: u64
  m_lastBucket :: u32
  m_bucketTop :: u64
  m_lastPrio :: u64
  m_qSize :: u32
  m_reverse :: bool

text \<open>SetReverse installs the three bucket functions.\<close>

definition NextEvent :: "bool \<Rightarrow> Bucket \<Rightarrow> Event" where
  "NextEvent reverse bucket = (if reverse then last bucket else hd bucket)"

definition Order :: "bool \<Rightarrow> EventKey \<Rightarrow> EventKey \<Rightarrow> bool" where
  "Order reverse a b = (if reverse then key_greater a b else key_less a b)"

definition Pop :: "bool \<Rightarrow> Bucket \<Rightarrow> Bucket" where
  "Pop reverse bucket = (if reverse then butlast bucket else tl bucket)"

definition cal_Hash :: "u32 \<Rightarrow> u64 \<Rightarrow> u64 \<Rightarrow> u32" where
  "cal_Hash nBuckets width ts = ucast ((ts div width) mod ucast nBuckets)"

definition cal_Init :: "u32 \<Rightarrow> u64 \<Rightarrow> u64 \<Rightarrow> CalendarScheduler \<Rightarrow> CalendarScheduler" where
  "cal_Init nBuckets width startPrio s =
     s\<lparr>m_buckets := replicate (unat nBuckets) [],
       m_nBuckets := nBuckets,
       m_width := width,
       m_lastPrio := startPrio,
       m_lastBucket := cal_Hash nBuckets width startPrio,
       m_bucketTop := (startPrio div width + 1) * width\<rparr>"

text \<open>The constructor, with the attribute Reverse.\<close>

definition cal_init :: "bool \<Rightarrow> CalendarScheduler" where
  "cal_init reverse =
     cal_Init 2 1 0 \<lparr>m_buckets = [], m_nBuckets = 0, m_width = 0, m_lastBucket = 0,
       m_bucketTop = 0, m_lastPrio = 0, m_qSize = 0, m_reverse = reverse\<rparr>"

definition cal_DoInsert :: "Event \<Rightarrow> CalendarScheduler \<Rightarrow> CalendarScheduler" where
  "cal_DoInsert ev s =
     (let bucket = unat (cal_Hash (m_nBuckets s) (m_width s) (m_ts (key ev)))
      in s\<lparr>m_buckets := (m_buckets s)[bucket :=
             list_insert_before (\<lambda>i. Order (m_reverse s) (key ev) (key i)) ev (m_buckets s ! bucket)]\<rparr>)"

definition cal_IsEmpty :: "CalendarScheduler \<Rightarrow> bool" where
  "cal_IsEmpty s \<longleftrightarrow> m_qSize s = 0"

text \<open>
  The do-while loop that PeekNext and DoRemoveNext share: it visits the buckets from bucket
  \<open>i\<close> on, with \<open>bucketTop\<close> the end of the time slot of the bucket. An event inside its slot
  ends the loop (\<open>Found\<close>); otherwise the loop remembers the least key seen and what the caller
  keeps with it (\<open>Turned\<close>). The fuel bounds the rounds; one per bucket is enough.
\<close>

datatype 'x scan = Found u32 u64 Event | Turned EventKey 'x

fun cal_scan :: "CalendarScheduler \<Rightarrow> (Event \<Rightarrow> u32 \<Rightarrow> 'x) \<Rightarrow> nat \<Rightarrow> u32 \<Rightarrow> u64 \<Rightarrow> EventKey \<Rightarrow> 'x
    \<Rightarrow> 'x scan option" where
  "cal_scan s keep 0 i bucketTop minKey x = None"
| "cal_scan s keep (Suc fuel) i bucketTop minKey x =
     (let bucket = m_buckets s ! unat i;
          next = NextEvent (m_reverse s) bucket;
          i' = (i + 1) mod m_nBuckets s;
          better = bucket \<noteq> [] \<and> key_less (key next) minKey;
          minKey' = (if better then key next else minKey);
          x' = (if better then keep next i else x)
      in if bucket \<noteq> [] \<and> m_ts (key next) < bucketTop then Some (Found i bucketTop next)
         else if i' \<noteq> m_lastBucket s
           then cal_scan s keep fuel i' (bucketTop + m_width s) minKey' x'
         else Some (Turned minKey' x'))"

definition cal_PeekNext :: "CalendarScheduler \<Rightarrow> Event option" where
  "cal_PeekNext s =
     (if cal_IsEmpty s then None
      else
        let minEvent = \<lparr>impl = nullptr, key = \<lparr>m_ts = - 1, m_uid = - 1, m_context = 0\<rparr>\<rparr>
        in case cal_scan s (\<lambda>e i. e) (unat (m_nBuckets s)) (m_lastBucket s) (m_bucketTop s)
                  (key minEvent) minEvent of
             None \<Rightarrow> None
           | Some (Found i bucketTop next) \<Rightarrow> Some next
           | Some (Turned k minEvent') \<Rightarrow> Some minEvent')"

text \<open>DoRemoveNext: \<open>minBucket\<close> is -1, here None, as long as no event was seen; indexing with
  it is the outcome None.\<close>

definition cal_DoRemoveNext :: "CalendarScheduler \<Rightarrow> (Event \<times> CalendarScheduler) option" where
  "cal_DoRemoveNext s =
     (if cal_IsEmpty s then None
      else case cal_scan s (\<lambda>e i. Some i) (unat (m_nBuckets s)) (m_lastBucket s) (m_bucketTop s)
             \<lparr>m_ts = - 1, m_uid = 0, m_context = 0xffffffff\<rparr> None of
        None \<Rightarrow> None
      | Some (Found i bucketTop next) \<Rightarrow>
          Some (next,
            s\<lparr>m_lastBucket := i, m_lastPrio := m_ts (key next), m_bucketTop := bucketTop,
              m_buckets := (m_buckets s)[unat i := Pop (m_reverse s) (m_buckets s ! unat i)]\<rparr>)
      | Some (Turned minKey None) \<Rightarrow> None
      | Some (Turned minKey (Some minBucket)) \<Rightarrow>
          Some (NextEvent (m_reverse s) (m_buckets s ! unat minBucket),
            s\<lparr>m_lastPrio := m_ts minKey,
              m_lastBucket := cal_Hash (m_nBuckets s) (m_width s) (m_ts minKey),
              m_bucketTop := (m_ts minKey div m_width s + 1) * m_width s,
              m_buckets := (m_buckets s)[unat minBucket :=
                Pop (m_reverse s) (m_buckets s ! unat minBucket)]\<rparr>))"

text \<open>The loop of CalculateNewWidth that gathers the first samples.\<close>

fun cal_gather :: "nat \<Rightarrow> CalendarScheduler \<Rightarrow> (Event list \<times> CalendarScheduler) option" where
  "cal_gather 0 s = Some ([], s)"
| "cal_gather (Suc n) s = do {
     (e, s1) \<leftarrow> cal_DoRemoveNext s;
     (es, s2) \<leftarrow> cal_gather n s1;
     Some (e # es, s2)
   }"

text \<open>The differences between consecutive time stamps, in 64-bit arithmetic.\<close>

fun separations :: "u64 list \<Rightarrow> u64 list" where
  "separations (cur # next # ts) = (next - cur) # separations (next # ts)"
| "separations _ = []"

definition cal_nSamples :: "u32 \<Rightarrow> u32" where
  "cal_nSamples qSize =
     (let nSamples = (if qSize \<le> 5 then qSize else 5 + qSize div 10)
      in if nSamples > 25 then 25 else nSamples)"

definition cal_width_of_samples :: "u32 \<Rightarrow> u64 list \<Rightarrow> u64" where
  "cal_width_of_samples nSamples tss =
     (let twiceAvg = sum_list (separations tss) div ucast (nSamples - 1) * 2;
          totalSeparation = sum_list (filter (\<lambda>diff. diff \<le> twiceAvg) (separations tss)) * 3
      in max totalSeparation 1)"

definition cal_CalculateNewWidth :: "CalendarScheduler \<Rightarrow> (u64 \<times> CalendarScheduler) option" where
  "cal_CalculateNewWidth s =
     (if m_qSize s < 2 then Some (1, s)
      else do {
        let nSamples = cal_nSamples (m_qSize s);
        (samples, s1) \<leftarrow> cal_gather (unat nSamples) s;
        let s2 = fold cal_DoInsert samples s1;
        let s3 = s2\<lparr>m_lastBucket := m_lastBucket s, m_bucketTop := m_bucketTop s,
                    m_lastPrio := m_lastPrio s\<rparr>;
        Some (cal_width_of_samples nSamples (map (\<lambda>e. m_ts (key e)) samples), s3)
      })"

definition cal_DoResize :: "u32 \<Rightarrow> u64 \<Rightarrow> CalendarScheduler \<Rightarrow> CalendarScheduler" where
  "cal_DoResize newSize newWidth s =
     fold cal_DoInsert (concat (m_buckets s)) (cal_Init newSize newWidth (m_lastPrio s) s)"

definition cal_Resize :: "u32 \<Rightarrow> CalendarScheduler \<Rightarrow> CalendarScheduler option" where
  "cal_Resize newSize s = do {
     (newWidth, s1) \<leftarrow> cal_CalculateNewWidth s;
     Some (cal_DoResize newSize newWidth s1)
   }"

definition cal_ResizeUp :: "CalendarScheduler \<Rightarrow> CalendarScheduler option" where
  "cal_ResizeUp s =
     (if m_qSize s > m_nBuckets s * 2 \<and> m_nBuckets s < 32768
      then cal_Resize (m_nBuckets s * 2) s else Some s)"

definition cal_ResizeDown :: "CalendarScheduler \<Rightarrow> CalendarScheduler option" where
  "cal_ResizeDown s =
     (if m_qSize s < m_nBuckets s div 2 then cal_Resize (m_nBuckets s div 2) s else Some s)"

definition cal_Insert :: "Event \<Rightarrow> CalendarScheduler \<Rightarrow> CalendarScheduler option" where
  "cal_Insert ev s =
     (let s1 = cal_DoInsert ev s in cal_ResizeUp (s1\<lparr>m_qSize := m_qSize s1 + 1\<rparr>))"

definition cal_RemoveNext :: "CalendarScheduler \<Rightarrow> (Event \<times> CalendarScheduler) option" where
  "cal_RemoveNext s =
     (if cal_IsEmpty s then None
      else do {
        (ev, s1) \<leftarrow> cal_DoRemoveNext s;
        s2 \<leftarrow> cal_ResizeDown (s1\<lparr>m_qSize := m_qSize s1 - 1\<rparr>);
        Some (ev, s2)
      })"

definition cal_Remove :: "Event \<Rightarrow> CalendarScheduler \<Rightarrow> CalendarScheduler option" where
  "cal_Remove ev s =
     (if cal_IsEmpty s then None
      else
        let bucket = unat (cal_Hash (m_nBuckets s) (m_width s) (m_ts (key ev)))
        in case list_erase_first (\<lambda>i. m_uid (key i) = m_uid (key ev)) (m_buckets s ! bucket) of
             None \<Rightarrow> None
           | Some (i, rest) \<Rightarrow>
               (if impl ev = impl i
                then cal_ResizeDown (s\<lparr>m_buckets := (m_buckets s)[bucket := rest],
                                      m_qSize := m_qSize s - 1\<rparr>)
                else None))"

definition cal_ops :: "CalendarScheduler scheduler_ops" where
  "cal_ops = \<lparr>Insert = cal_Insert, IsEmpty = cal_IsEmpty, PeekNext = cal_PeekNext,
     RemoveNext = cal_RemoveNext, Remove = cal_Remove\<rparr>"

lemma cal_ops_simps [simp]:
  "Insert cal_ops = cal_Insert" "IsEmpty cal_ops = cal_IsEmpty"
  "PeekNext cal_ops = cal_PeekNext" "RemoveNext cal_ops = cal_RemoveNext"
  "Remove cal_ops = cal_Remove"
  by (simp_all add: cal_ops_def)

declare cal_scan.simps(2) [simp del]

section \<open>The invariant\<close>

definition cal_horizon :: u64 where
  "cal_horizon = 2 ^ 47"

definition cal_events :: "CalendarScheduler \<Rightarrow> Event set" where
  "cal_events s = (\<Union>b \<in> set (m_buckets s). set b)"

abbreviation nb :: "CalendarScheduler \<Rightarrow> nat" where
  "nb s \<equiv> unat (m_nBuckets s)"

abbreviation wd :: "CalendarScheduler \<Rightarrow> nat" where
  "wd s \<equiv> unat (m_width s)"

text \<open>The slot of a time stamp counts the bucket widths before it; the bucket of an event is
  its slot modulo the number of buckets.\<close>

abbreviation slot :: "CalendarScheduler \<Rightarrow> u64 \<Rightarrow> nat" where
  "slot s ts \<equiv> unat ts div wd s"

abbreviation bucket_sorted :: "bool \<Rightarrow> Bucket \<Rightarrow> bool" where
  "bucket_sorted r b \<equiv> sorted_wrt (\<lambda>x y. Order r (key x) (key y)) b"

text \<open>\<open>cal_dims\<close>: the dimensions are in range. \<open>cal_shape\<close>: every event is in the bucket of its
  slot and the buckets are sorted. \<open>cal_cursor\<close>: the search position is the slot of
  \<open>m_lastPrio\<close> and no event is before it.\<close>

definition cal_dims :: "CalendarScheduler \<Rightarrow> bool" where
  "cal_dims s \<longleftrightarrow> length (m_buckets s) = nb s \<and> 1 \<le> nb s \<and> nb s \<le> 32768 \<and> 1 \<le> wd s \<and> wd s \<le> 3 * 2 ^ 47"

definition cal_shape :: "CalendarScheduler \<Rightarrow> bool" where
  "cal_shape s \<longleftrightarrow> cal_dims s \<and> uids_distinct (cal_events s) \<and>
     (\<forall>i < nb s. bucket_sorted (m_reverse s) (m_buckets s ! i) \<and>
        (\<forall>e \<in> set (m_buckets s ! i). slot s (ev_ts e) mod nb s = i))"

definition cal_cursor :: "CalendarScheduler \<Rightarrow> bool" where
  "cal_cursor s \<longleftrightarrow>
     m_lastPrio s \<le> cal_horizon \<and>
     unat (m_lastBucket s) = slot s (m_lastPrio s) mod nb s \<and>
     unat (m_bucketTop s) = (slot s (m_lastPrio s) + 1) * wd s \<and>
     (\<forall>e \<in> cal_events s. m_lastPrio s \<le> ev_ts e \<and> ev_ts e \<le> cal_horizon)"

definition cal_invar :: "CalendarScheduler \<Rightarrow> bool" where
  "cal_invar s \<longleftrightarrow> cal_shape s \<and> cal_cursor s \<and> card (cal_events s) = unat (m_qSize s) \<and>
     (\<exists>k \<le> 15. nb s = 2 ^ k)"

lemma cal_horizon_unat: "ts \<le> cal_horizon \<longleftrightarrow> unat ts \<le> 2 ^ 47"
  by (simp add: cal_horizon_def word_le_nat_alt)

lemma cal_finite_events [simp]: "finite (cal_events s)"
  by (simp add: cal_events_def)

lemma cal_events_nth: "e \<in> cal_events s \<longleftrightarrow> (\<exists>i < length (m_buckets s). e \<in> set (m_buckets s ! i))"
  unfolding cal_events_def UN_iff by (metis in_set_conv_nth)

lemma cal_Hash_unat:
  assumes "unat n \<le> 32768" and "1 \<le> unat n"
  shows "unat (cal_Hash n w ts) = (unat ts div unat w) mod unat n"
proof -
  have "unat n < 2 ^ 64" using assms(1) by simp
  then have "unat (ucast n :: u64) = unat n" by (simp add: unsigned_ucast_eq take_bit_nat_eq_self)
  then have v: "unat ((ts div w) mod ucast n) = (unat ts div unat w) mod unat n"
    by (simp add: unat_div_distrib unat_mod_distrib)
  have "(unat ts div unat w) mod unat n < unat n" using assms(2) by simp
  also have "\<dots> < 2 ^ 32" using assms(1) by simp
  finally show ?thesis by (simp add: cal_Hash_def v unsigned_ucast_eq take_bit_nat_eq_self)
qed

lemma bucket_next:
  assumes "bucket_sorted r b" and "b \<noteq> []"
  shows "NextEvent r b \<in> set b" and "\<And>e. e \<in> set b \<Longrightarrow> ev_rank (NextEvent r b) \<le> ev_rank e"
    and "set (Pop r b) = set b - {NextEvent r b}" and "bucket_sorted r (Pop r b)"
proof -
  have "NextEvent r b \<in> set b \<and> (\<forall>e \<in> set b. ev_rank (NextEvent r b) \<le> ev_rank e) \<and>
    set (Pop r b) = set b - {NextEvent r b} \<and> bucket_sorted r (Pop r b)"
  proof (cases r)
    case True
    obtain x xs where b: "b = xs @ [x]" using assms(2) by (metis rev_exhaust)
    with assms(1) True show ?thesis
      by (auto simp: NextEvent_def Pop_def Order_def sorted_wrt_append key_greater_rank intro: less_imp_le)
  next
    case False
    obtain x xs where b: "b = x # xs" using assms(2) by (metis neq_Nil_conv)
    with assms(1) False show ?thesis
      by (auto simp: NextEvent_def Pop_def Order_def key_less_rank intro: less_imp_le)
  qed
  then show "NextEvent r b \<in> set b" and "\<And>e. e \<in> set b \<Longrightarrow> ev_rank (NextEvent r b) \<le> ev_rank e"
    and "set (Pop r b) = set b - {NextEvent r b}" and "bucket_sorted r (Pop r b)"
    by blast+
qed

lemma sorted_wrt_irrefl_distinct:
  assumes "sorted_wrt R xs" and "\<And>x. \<not> R x x"
  shows "distinct xs"
  using assms by (induction xs) auto

lemma Order_irrefl [simp]: "\<not> Order r k k"
  by (simp add: Order_def rank_simps)

lemma bucket_insert:
  assumes "bucket_sorted r b" and "ev_uid e \<notin> ev_uid ` set b"
  shows "bucket_sorted r (list_insert_before (\<lambda>i. Order r (key e) (key i)) e b)"
proof (rule list_insert_before_sorted [OF assms(1)])
  show "transp (\<lambda>x y. Order r (key x) (key y))"
    by (auto intro!: transpI simp: Order_def rank_simps split: if_splits)
  fix y
  assume "y \<in> set b" and "\<not> Order r (key e) (key y)"
  moreover from \<open>y \<in> set b\<close> assms(2) have "ev_rank y \<noteq> ev_rank e" by (metis imageI key_rank_eq_uid)
  ultimately show "Order r (key y) (key e)" by (auto simp: Order_def rank_simps)
qed

section \<open>Insertion into a bucket\<close>

lemma cal_DoInsert_simps [simp]:
  "m_nBuckets (cal_DoInsert e s) = m_nBuckets s" "m_width (cal_DoInsert e s) = m_width s"
  "m_lastBucket (cal_DoInsert e s) = m_lastBucket s" "m_bucketTop (cal_DoInsert e s) = m_bucketTop s"
  "m_lastPrio (cal_DoInsert e s) = m_lastPrio s" "m_qSize (cal_DoInsert e s) = m_qSize s"
  "m_reverse (cal_DoInsert e s) = m_reverse s"
  by (simp_all add: cal_DoInsert_def Let_def)

lemma cal_dims_mod [simp]: "cal_dims s \<Longrightarrow> x mod nb s < nb s"
  by (simp add: cal_dims_def)

lemma cal_DoInsert_buckets:
  assumes "cal_dims s"
  shows "m_buckets (cal_DoInsert e s) = (m_buckets s)[slot s (ev_ts e) mod nb s :=
      list_insert_before (\<lambda>i. Order (m_reverse s) (key e) (key i)) e
        (m_buckets s ! (slot s (ev_ts e) mod nb s))]"
  using assms by (simp add: cal_DoInsert_def Let_def cal_Hash_unat cal_dims_def)

lemma ex_bucket_update:
  assumes "b < length bs"
  shows "(\<exists>i < length bs. x \<in> set (bs[b := y] ! i)) \<longleftrightarrow> x \<in> set y \<or> (\<exists>i < length bs. i \<noteq> b \<and> x \<in> set (bs ! i))"
  using assms by (metis nth_list_update_eq nth_list_update_neq)

lemma cal_events_at:
  assumes "b < length (m_buckets s)"
  shows "x \<in> cal_events s \<longleftrightarrow> x \<in> set (m_buckets s ! b)
      \<or> (\<exists>i < length (m_buckets s). i \<noteq> b \<and> x \<in> set (m_buckets s ! i))"
    and "m_buckets s' = (m_buckets s)[b := y] \<Longrightarrow> x \<in> cal_events s' \<longleftrightarrow> x \<in> set y
      \<or> (\<exists>i < length (m_buckets s). i \<noteq> b \<and> x \<in> set (m_buckets s ! i))"
  using assms ex_bucket_update [OF assms, of x y] by (auto simp: cal_events_nth)

lemma cal_shape_bucket:
  assumes "cal_shape s" and "i < nb s"
  shows "bucket_sorted (m_reverse s) (m_buckets s ! i)" and "set (m_buckets s ! i) \<subseteq> cal_events s"
    and "\<And>e. e \<in> cal_events s \<Longrightarrow> e \<in> set (m_buckets s ! i) \<longleftrightarrow> slot s (ev_ts e) mod nb s = i"
  using assms by (auto simp: cal_shape_def cal_dims_def cal_events_nth)

lemma cal_DoInsert_shape:
  assumes "cal_shape s" and "ev_uid e \<notin> ev_uid ` cal_events s"
  shows "cal_shape (cal_DoInsert e s)" and "cal_events (cal_DoInsert e s) = insert e (cal_events s)"
proof -
  have d: "cal_dims s" using assms(1) by (simp add: cal_shape_def)
  define b where "b = slot s (ev_ts e) mod nb s"
  have b: "b < nb s" "b < length (m_buckets s)" "length (m_buckets s) = nb s"
    using d by (auto simp: b_def cal_dims_def)
  note bk = cal_DoInsert_buckets [OF d, of e, folded b_def]
  have "x \<in> cal_events (cal_DoInsert e s) \<longleftrightarrow> x \<in> insert e (cal_events s)" for x
    using cal_events_at(2) [OF b(2) bk] cal_events_at(1) [OF b(2)] by auto
  then show ev: "cal_events (cal_DoInsert e s) = insert e (cal_events s)" by blast
  have "bucket_sorted (m_reverse s) (list_insert_before (\<lambda>i. Order (m_reverse s) (key e) (key i)) e (m_buckets s ! b))"
    using cal_shape_bucket(1,2) [OF assms(1) b(1)] assms(2) by (intro bucket_insert) auto
  with assms ev d b show "cal_shape (cal_DoInsert e s)"
    by (auto simp: cal_shape_def cal_dims_def bk nth_list_update b_def intro: uids_distinct_insert)
qed

lemma cal_fold_DoInsert_simps [simp]:
  "m_nBuckets (fold cal_DoInsert es s) = m_nBuckets s" "m_width (fold cal_DoInsert es s) = m_width s"
  "m_lastBucket (fold cal_DoInsert es s) = m_lastBucket s"
  "m_bucketTop (fold cal_DoInsert es s) = m_bucketTop s"
  "m_lastPrio (fold cal_DoInsert es s) = m_lastPrio s" "m_qSize (fold cal_DoInsert es s) = m_qSize s"
  "m_reverse (fold cal_DoInsert es s) = m_reverse s"
  by (induction es arbitrary: s) auto

lemma cal_fold_DoInsert:
  assumes "cal_shape s" and "distinct (map ev_uid es)" and "ev_uid ` set es \<inter> ev_uid ` cal_events s = {}"
  shows "cal_shape (fold cal_DoInsert es s) \<and> cal_events (fold cal_DoInsert es s) = set es \<union> cal_events s"
  using assms
proof (induction es arbitrary: s)
  case Nil
  then show ?case by simp
next
  case (Cons e es)
  have e: "ev_uid e \<notin> ev_uid ` cal_events s" using Cons.prems(3) by auto
  note i = cal_DoInsert_shape [OF Cons.prems(1) e]
  have "ev_uid ` set es \<inter> ev_uid ` cal_events (cal_DoInsert e s) = {}"
    using Cons.prems(2,3) i(2) by auto
  from Cons.IH [OF i(1) _ this] Cons.prems(2) i(2) show ?case by auto
qed

section \<open>The search\<close>

definition scanned :: "CalendarScheduler \<Rightarrow> nat \<Rightarrow> Event set" where
  "scanned s k = {e \<in> cal_events s.
     \<exists>k' < k. slot s (ev_ts e) mod nb s = (slot s (m_lastPrio s) + k') mod nb s}"

text \<open>\<open>bucket_head s e i\<close>: bucket \<open>i\<close> is the bucket of the event and the event is its first.\<close>

definition bucket_head :: "CalendarScheduler \<Rightarrow> Event \<Rightarrow> u32 \<Rightarrow> bool" where
  "bucket_head s e i \<longleftrightarrow> unat i = slot s (ev_ts e) mod nb s
     \<and> e = NextEvent (m_reverse s) (m_buckets s ! unat i)"

definition scan_best :: "CalendarScheduler \<Rightarrow> (Event \<Rightarrow> u32 \<Rightarrow> 'x) \<Rightarrow> EventKey \<Rightarrow> nat \<Rightarrow> EventKey \<Rightarrow> 'x \<Rightarrow> bool" where
  "scan_best s keep start k minKey x \<longleftrightarrow>
     (if scanned s k = {} then minKey = start
      else \<exists>e i. e \<in> scanned s k \<and> (\<forall>e' \<in> scanned s k. ev_rank e \<le> ev_rank e') \<and> minKey = key e
        \<and> x = keep e i \<and> bucket_head s e i)"

definition scan_ok :: "CalendarScheduler \<Rightarrow> (Event \<Rightarrow> u32 \<Rightarrow> 'x) \<Rightarrow> EventKey \<Rightarrow> 'x scan \<Rightarrow> bool" where
  "scan_ok s keep start r =
     (case r of
        Found i bucketTop e \<Rightarrow> earliest (cal_events s) e \<and> bucket_head s e i
          \<and> unat bucketTop = (slot s (ev_ts e) + 1) * wd s
      | Turned minKey x \<Rightarrow> scan_best s keep start (nb s) minKey x)"

lemma scanned_Suc:
  assumes "cal_shape s" and "i = (slot s (m_lastPrio s) + k) mod nb s"
  shows "scanned s (Suc k) = scanned s k \<union> set (m_buckets s ! i)"
proof -
  have i: "i < nb s" using assms by (auto simp: cal_shape_def)
  note b = cal_shape_bucket(2,3) [OF assms(1) i]
  show ?thesis using b assms(2) by (auto simp: scanned_def less_Suc_eq)
qed

lemma scanned_all:
  assumes "cal_dims s" and "\<forall>e \<in> cal_events s. slot s (m_lastPrio s) \<le> slot s (ev_ts e)"
  shows "scanned s (nb s) = cal_events s"
proof -
  have "\<exists>k' < nb s. q mod nb s = (q0 + k') mod nb s" if "q0 \<le> q" for q q0
    using assms(1) that by (intro exI [of _ "(q - q0) mod nb s"]) (simp add: mod_add_right_eq)
  with assms(2) show ?thesis by (auto simp: scanned_def)
qed

lemma scan_best_step:
  assumes s: "cal_shape s" and best: "scan_best s keep start k minKey x"
    and i: "unat i = (slot s (m_lastPrio s) + k) mod nb s"
    and start: "\<And>e. e \<in> cal_events s \<Longrightarrow> key_less (key e) start"
    and b: "bucket = m_buckets s ! unat i" and better: "better \<longleftrightarrow> bucket \<noteq> [] \<and> key_less (key next) minKey"
    and nxt: "next = NextEvent (m_reverse s) bucket"
  shows "scan_best s keep start (Suc k) (if better then key next else minKey) (if better then keep next i else x)"
proof -
  have il: "unat i < nb s" using s i by (auto simp: cal_shape_def)
  note bk = cal_shape_bucket [OF s il, folded b]
  have sc: "scanned s (Suc k) = scanned s k \<union> set bucket" using scanned_Suc [OF s i] b by simp
  show ?thesis
  proof (cases "bucket = []")
    case True
    have eq: "scanned s (Suc k) = scanned s k" using sc True by simp
    from best have "scan_best s keep start (Suc k) minKey x" unfolding scan_best_def eq .
    with True better show ?thesis by simp
  next
    case False
    note n = bucket_next [OF bk(1) False, folded nxt]
    have head: "bucket_head s next i" using bk(2,3) n(1) b nxt by (auto simp: bucket_head_def)
    show ?thesis
    proof (cases "better")
      case True
      have "ev_rank next \<le> ev_rank e'" if "e' \<in> scanned s k" for e'
      proof -
        from that best obtain e where "ev_rank e \<le> ev_rank e'" "minKey = key e"
          unfolding scan_best_def by (metis empty_iff)
        with better True show ?thesis
          by (auto simp: key_less_rank intro: less_imp_le order.strict_trans2)
      qed
      then have "\<forall>e' \<in> scanned s (Suc k). ev_rank next \<le> ev_rank e'" "next \<in> scanned s (Suc k)"
        using n(1,2) by (auto simp: sc)
      then show ?thesis unfolding scan_best_def using True head by auto
    next
      case worse: False
      then have ne: "scanned s k \<noteq> {}"
        using best better False start bk(2) n(1) by (auto simp: scan_best_def)
      then obtain e where "e \<in> scanned s k" "minKey = key e" "\<forall>e' \<in> scanned s k. ev_rank e \<le> ev_rank e'"
        using best by (auto simp: scan_best_def)
      moreover have "ev_rank e \<le> ev_rank e'" if "e' \<in> set bucket" "minKey = key e" for e e'
        using n(2) [OF that(1)] worse better False that(2) by (auto simp: key_less_rank not_less)
      ultimately show ?thesis using best ne worse sc by (auto simp: scan_best_def)
    qed
  qed
qed

lemma cal_cursor_slots:
  "cal_cursor s \<Longrightarrow> e \<in> cal_events s \<Longrightarrow> slot s (m_lastPrio s) \<le> slot s (ev_ts e)"
  by (simp add: cal_cursor_def word_le_nat_alt div_le_mono)

text \<open>A whole turn of the calendar does not overflow.\<close>

lemma cal_top_bound:
  assumes "cal_dims s" and "ts \<le> cal_horizon" and "k \<le> nb s"
  shows "(slot s ts + k + 1) * wd s < 2 ^ 64"
proof -
  have "slot s ts * wd s \<le> 2 ^ 47"
    using assms(2) order_trans [OF div_times_less_eq_dividend] by (simp add: cal_horizon_unat)
  moreover have "(k + 1) * wd s \<le> 32769 * (3 * 2 ^ 47)"
    using assms(1,3) by (intro mult_le_mono) (auto simp: cal_dims_def)
  ultimately show ?thesis by (simp add: algebra_simps)
qed

lemma cal_next_index:
  assumes "cal_dims s" and "unat i = x mod nb s"
  shows "unat ((i + 1) mod m_nBuckets s) = (x + 1) mod nb s"
proof -
  have "unat i < nb s" using assms by simp
  then have "unat (i + 1) = unat i + 1"
    using assms(1) by (intro unat_Suc_simple) (simp add: cal_dims_def)
  then show ?thesis using assms(2) by (simp add: unat_mod_distrib mod_Suc_eq)
qed

lemma cal_turn_done:
  assumes "k < n"
  shows "(q + k + 1) mod n = q mod n \<longleftrightarrow> k + 1 = (n :: nat)"
proof -
  have "(q + k + 1) mod n = q mod n \<longleftrightarrow> n dvd k + 1"
    using mod_eq_dvd_iff_nat [of q "q + k + 1" n] by simp
  also have "\<dots> \<longleftrightarrow> k + 1 = n" using assms by (auto dest: dvd_imp_le)
  finally show ?thesis .
qed

lemma cal_found_earliest:
  assumes s: "cal_shape s" and i: "i = (q mod nb s)" and b: "m_buckets s ! i \<noteq> []"
    and e: "e = NextEvent (m_reverse s) (m_buckets s ! i)"
    and low: "\<And>e'. e' \<in> cal_events s \<Longrightarrow> q \<le> slot s (ev_ts e')" and top: "unat (ev_ts e) < (q + 1) * wd s"
  shows "earliest (cal_events s) e" and "slot s (ev_ts e) = q"
proof -
  have il: "i < nb s" using s i by (auto simp: cal_shape_def)
  note bk = cal_shape_bucket [OF s il]
  note n = bucket_next [OF bk(1) b, folded e]
  have ev: "e \<in> cal_events s" using n(1) bk(2) by auto
  have "slot s (ev_ts e) < q + 1" using top by (rule less_mult_imp_div_less)
  with low [OF ev] show q: "slot s (ev_ts e) = q" by simp
  have "ev_rank e \<le> ev_rank e'" if e': "e' \<in> cal_events s" for e'
  proof (cases "slot s (ev_ts e') = q")
    case True
    then show ?thesis using bk(3) [OF e'] i n(2) by auto
  next
    case False
    then have "slot s (ev_ts e) < slot s (ev_ts e')" using low [OF e'] q by simp
    then have "ev_ts e < ev_ts e'" by (metis div_le_mono not_less word_less_nat_alt)
    then show ?thesis by (simp add: key_rank_ts_less less_imp_le)
  qed
  with s ev show "earliest (cal_events s) e" by (intro earliestI) (auto simp: cal_shape_def)
qed

lemma cal_not_found:
  assumes s: "cal_shape s" and i: "i = (q mod nb s)"
    and not: "\<not> (m_buckets s ! i \<noteq> [] \<and> unat (ev_ts (NextEvent (m_reverse s) (m_buckets s ! i))) < (q + 1) * wd s)"
    and low: "\<And>e'. e' \<in> cal_events s \<Longrightarrow> q \<le> slot s (ev_ts e')" and e: "e \<in> cal_events s"
  shows "q + 1 \<le> slot s (ev_ts e)"
proof (rule ccontr)
  assume "\<not> ?thesis"
  then have q: "slot s (ev_ts e) = q" using low [OF e] by simp
  have il: "i < nb s" using s i by (auto simp: cal_shape_def)
  note bk = cal_shape_bucket [OF s il]
  have eb: "e \<in> set (m_buckets s ! i)" using bk(3) [OF e] q i by simp
  then have "m_buckets s ! i \<noteq> []" by auto
  from bucket_next(2) [OF bk(1) this eb]
  have "ev_ts (NextEvent (m_reverse s) (m_buckets s ! i)) \<le> ev_ts e" by (rule key_rank_ts_le)
  moreover have "unat (ev_ts e) < (q + 1) * wd s"
    using q s dividend_less_div_times [of "wd s" "unat (ev_ts e)"] by (auto simp: cal_shape_def cal_dims_def)
  ultimately show False using not \<open>m_buckets s ! i \<noteq> []\<close> by (auto simp: word_le_nat_alt)
qed

lemma cal_scan_correct:
  assumes "cal_shape s" and "cal_cursor s" and "\<And>e. e \<in> cal_events s \<Longrightarrow> key_less (key e) start"
    and "k < nb s" and "unat i = (slot s (m_lastPrio s) + k) mod nb s"
    and "unat bucketTop = (slot s (m_lastPrio s) + k + 1) * wd s"
    and "\<And>e. e \<in> cal_events s \<Longrightarrow> slot s (m_lastPrio s) + k \<le> slot s (ev_ts e)"
    and "scan_best s keep start k minKey x" and "fuel = nb s - k"
  shows "\<exists>r. cal_scan s keep fuel i bucketTop minKey x = Some r \<and> scan_ok s keep start r"
  using assms(4-)
proof (induction fuel arbitrary: i bucketTop minKey x k)
  case 0
  then show ?case by simp
next
  case (Suc fuel)
  define q where "q = slot s (m_lastPrio s) + k"
  define bucket where "bucket = m_buckets s ! unat i"
  define nxt where "nxt = NextEvent (m_reverse s) bucket"
  define better where "better \<longleftrightarrow> bucket \<noteq> [] \<and> key_less (key nxt) minKey"
  let ?mk = "if better then key nxt else minKey"
  let ?x = "if better then keep nxt i else x"
  let ?i = "(i + 1) mod m_nBuckets s"
  note prems = Suc.prems [folded q_def]
  have d: "cal_dims s" using assms(1) by (simp add: cal_shape_def)
  have eq: "cal_scan s keep (Suc fuel) i bucketTop minKey x =
      (if bucket \<noteq> [] \<and> ev_ts nxt < bucketTop then Some (Found i bucketTop nxt)
       else if ?i \<noteq> m_lastBucket s then cal_scan s keep fuel ?i (bucketTop + m_width s) ?mk ?x
       else Some (Turned ?mk ?x))"
    by (simp add: cal_scan.simps(2) Let_def bucket_def nxt_def better_def)
  show ?case
  proof (cases "bucket \<noteq> [] \<and> ev_ts nxt < bucketTop")
    case True
    then have "earliest (cal_events s) nxt" "slot s (ev_ts nxt) = q"
      using cal_found_earliest [OF assms(1) prems(2), of nxt] prems(3,4)
      by (auto simp: bucket_def nxt_def word_less_nat_alt)
    then have "scan_ok s keep start (Found i bucketTop nxt)"
      using prems(2,3) by (simp add: scan_ok_def bucket_head_def nxt_def bucket_def)
    with True eq show ?thesis by simp
  next
    case False
    have low: "q + 1 \<le> slot s (ev_ts e)" if "e \<in> cal_events s" for e
      using cal_not_found [OF assms(1) prems(2) _ prems(4) that] False prems(3)
      by (auto simp: bucket_def nxt_def word_less_nat_alt)
    have best: "scan_best s keep start (Suc k) ?mk ?x"
      using scan_best_step [OF assms(1) prems(5) Suc.prems(2) assms(3) bucket_def better_def nxt_def] .
    have i': "unat ?i = (q + 1) mod nb s" using cal_next_index [OF d prems(2)] .
    have turn: "?i \<noteq> m_lastBucket s \<longleftrightarrow> k + 1 \<noteq> nb s"
      using i' cal_turn_done [OF prems(1), of "slot s (m_lastPrio s)"] assms(2)
      by (simp add: q_def cal_cursor_def flip: word_unat_eq_iff add: word_unat_eq_iff)
    show ?thesis
    proof (cases "k + 1 = nb s")
      case True
      then have "scan_ok s keep start (Turned ?mk ?x)" using best by (simp add: scan_ok_def)
      with False turn True eq show ?thesis by metis
    next
      case more: False
      have lp: "m_lastPrio s \<le> cal_horizon" using assms(2) by (simp add: cal_cursor_def)
      have "(q + 1 + 1) * wd s < 2 ^ 64"
        using cal_top_bound [OF d lp, of "k + 1"] prems(1) by (simp add: q_def)
      moreover have "unat bucketTop + wd s = (q + 1 + 1) * wd s" using prems(3) by simp
      ultimately have "unat (bucketTop + m_width s) = (q + 1 + 1) * wd s"
        using unat_plus_simple [of bucketTop "m_width s"] by simp
      moreover have "fuel = nb s - (k + 1)" using prems(6) by simp
      ultimately have "\<exists>r. cal_scan s keep fuel ?i (bucketTop + m_width s) ?mk ?x = Some r \<and> scan_ok s keep start r"
        using more prems(1) i' low best by (intro Suc.IH [of "k + 1"]) (simp_all add: q_def)
      with False turn more show ?thesis unfolding eq by auto
    qed
  qed
qed

text \<open>The loop started at the search position, as PeekNext and DoRemoveNext do.\<close>

lemma cal_scan_start:
  assumes "cal_shape s" and "cal_cursor s" and "m_ts start = - 1"
  shows "\<exists>r. cal_scan s keep (nb s) (m_lastBucket s) (m_bucketTop s) start x = Some r \<and> scan_ok s keep start r"
proof (rule cal_scan_correct [where k = 0])
  fix e
  assume e: "e \<in> cal_events s"
  then have "unat (ev_ts e) \<le> 2 ^ 47" using assms(2) by (auto simp: cal_cursor_def cal_horizon_unat)
  also have "\<dots> < unat (- 1 :: u64)" by (simp add: unsigned_minus_1_eq_mask mask_eq_exp_minus_1)
  finally show "key_less (key e) start" using assms(3) by (simp add: key_less_def word_less_nat_alt)
qed (use assms in \<open>auto simp: cal_cursor_slots scan_best_def scanned_def cal_cursor_def cal_shape_def cal_dims_def\<close>)

lemma scan_ok_Turned:
  assumes "cal_shape s" and "cal_cursor s" and "cal_events s \<noteq> {}" and "scan_ok s keep start (Turned k x)"
  shows "\<exists>e i. earliest (cal_events s) e \<and> k = key e \<and> x = keep e i \<and> bucket_head s e i"
proof -
  have "scanned s (nb s) = cal_events s"
    using assms(1,2) by (intro scanned_all) (auto simp: cal_shape_def cal_cursor_slots)
  then obtain e i where e: "e \<in> cal_events s" "\<forall>e' \<in> cal_events s. ev_rank e \<le> ev_rank e'" "k = key e"
      "x = keep e i" "bucket_head s e i"
    using assms(3,4) unfolding scan_ok_def scan_best_def by auto
  then have "earliest (cal_events s) e" using assms(1) by (intro earliestI) (auto simp: cal_shape_def)
  with e show ?thesis by blast
qed

lemma cal_PeekNext_works:
  assumes "cal_invar s" and "cal_events s \<noteq> {}"
  shows "\<exists>e. cal_PeekNext s = Some e \<and> earliest (cal_events s) e"
proof -
  let ?m = "\<lparr>impl = nullptr, key = \<lparr>m_ts = - 1, m_uid = - 1, m_context = 0\<rparr>\<rparr>"
  from assms have s: "cal_shape s" "cal_cursor s" and q: "\<not> cal_IsEmpty s"
    by (auto simp: cal_invar_def cal_IsEmpty_def)
  obtain r where r: "cal_scan s (\<lambda>e i. e) (nb s) (m_lastBucket s) (m_bucketTop s) (key ?m) ?m = Some r"
    "scan_ok s (\<lambda>e i. e) (key ?m) r"
    using cal_scan_start [OF s, of "key ?m" "\<lambda>e i. e" ?m] by auto
  show ?thesis
  proof (cases r)
    case (Found i bucketTop e)
    with r q show ?thesis by (auto simp: cal_PeekNext_def scan_ok_def)
  next
    case (Turned k x)
    with r(2) obtain e where "earliest (cal_events s) e" "x = e"
      using scan_ok_Turned [OF s assms(2), of "\<lambda>e i. e"] by blast
    with r(1) q Turned show ?thesis by (auto simp: cal_PeekNext_def)
  qed
qed

text \<open>Taking the next event out of its bucket and moving the search position to its slot.\<close>

lemma cal_pop_bucket:
  assumes s: "cal_shape s" and c: "cal_cursor s" and e: "earliest (cal_events s) e"
    and h: "bucket_head s e i"
    and lb: "unat lb = slot s (ev_ts e) mod nb s" and bt: "unat bt = (slot s (ev_ts e) + 1) * wd s"
    and s': "s' = s\<lparr>m_lastBucket := lb, m_lastPrio := ev_ts e, m_bucketTop := bt,
              m_buckets := (m_buckets s)[unat i := Pop (m_reverse s) (m_buckets s ! unat i)]\<rparr>"
  shows "cal_shape s'" and "cal_cursor s'" and "cal_events s' = cal_events s - {e}"
proof -
  note i = h [unfolded bucket_head_def, THEN conjunct1]
    and n = h [unfolded bucket_head_def, THEN conjunct2]
  have il: "unat i < nb s" and d: "cal_dims s" using s i by (auto simp: cal_shape_def)
  then have len: "unat i < length (m_buckets s)" by (simp add: cal_dims_def)
  note bk = cal_shape_bucket [OF s il]
  have ev: "e \<in> cal_events s" using e by (simp add: earliest_def)
  then have eb: "e \<in> set (m_buckets s ! unat i)" using bk(3) i by auto
  then have "m_buckets s ! unat i \<noteq> []" by auto
  note p = bucket_next(3,4) [OF bk(1) this, folded n]
  have only: "e \<notin> set (m_buckets s ! j)" if "j < nb s" "j \<noteq> unat i" for j
    using cal_shape_bucket(3) [OF s that(1) ev] i that(2) by simp
  have "x \<in> cal_events s' \<longleftrightarrow> x \<in> cal_events s - {e}" for x
    using cal_events_at(1) [OF len, of x] cal_events_at(2) [OF len, of s' "Pop (m_reverse s) (m_buckets s ! unat i)" x]
      p(1) only d eb by (auto simp: s' cal_dims_def)
  then show ev': "cal_events s' = cal_events s - {e}" by blast
  have "uids_distinct (cal_events s')" using s ev' by (auto simp: cal_shape_def intro: uids_distinct_subset)
  then show "cal_shape s'"
    using s d p len by (auto simp: cal_shape_def cal_dims_def s' nth_list_update)
  show "cal_cursor s'"
    using c ev ev' e lb bt by (auto simp: cal_cursor_def s' earliest_ts_le)
qed

text \<open>What DoRemoveNext leaves alone.\<close>

abbreviation same_dims :: "CalendarScheduler \<Rightarrow> CalendarScheduler \<Rightarrow> bool" where
  "same_dims s s' \<equiv> m_nBuckets s' = m_nBuckets s \<and> m_width s' = m_width s \<and> m_qSize s' = m_qSize s
     \<and> m_reverse s' = m_reverse s"

lemma cal_DoRemoveNext_works:
  assumes s: "cal_shape s" "cal_cursor s" and ne: "cal_events s \<noteq> {}" and q: "m_qSize s \<noteq> 0"
  shows "\<exists>e s'. cal_DoRemoveNext s = Some (e, s') \<and> earliest (cal_events s) e \<and> cal_shape s' \<and> cal_cursor s'
    \<and> cal_events s' = cal_events s - {e} \<and> m_lastPrio s' = ev_ts e \<and> same_dims s s'"
proof -
  let ?k = "\<lparr>m_ts = - 1, m_uid = 0, m_context = 0xffffffff\<rparr>"
  have q': "\<not> cal_IsEmpty s" using q by (simp add: cal_IsEmpty_def)
  obtain r where r: "cal_scan s (\<lambda>e i. Some i) (nb s) (m_lastBucket s) (m_bucketTop s) ?k None = Some r"
    "scan_ok s (\<lambda>e i. Some i) ?k r"
    using cal_scan_start [OF s, of ?k "\<lambda>e i. Some i" None] by auto
  show ?thesis
  proof (cases r)
    case (Found i bucketTop e)
    with r have e: "earliest (cal_events s) e" and h: "bucket_head s e i"
      and t: "unat bucketTop = (slot s (ev_ts e) + 1) * wd s" by (auto simp: scan_ok_def)
    note p = cal_pop_bucket [OF s e h h [unfolded bucket_head_def, THEN conjunct1] t refl]
    from r(1) Found q' e p show ?thesis by (auto simp: cal_DoRemoveNext_def)
  next
    case (Turned k x)
    then obtain e i where e: "earliest (cal_events s) e" "k = key e" "x = Some i" "bucket_head s e i"
      using r(2) scan_ok_Turned [OF s ne, of "\<lambda>e i. Some i"] by blast
    have d: "cal_dims s" using s(1) by (simp add: cal_shape_def)
    have lb: "unat (cal_Hash (m_nBuckets s) (m_width s) (ev_ts e)) = slot s (ev_ts e) mod nb s"
      using d by (simp add: cal_Hash_unat cal_dims_def)
    have ts: "ev_ts e \<le> cal_horizon" using s(2) e(1) by (auto simp: cal_cursor_def earliest_def)
    have "(slot s (ev_ts e) + 1) * wd s < 2 ^ 64" using cal_top_bound [OF d ts, of 0] by simp
    moreover have "slot s (ev_ts e) \<le> 2 ^ 47"
      by (rule order_trans [OF div_le_dividend]) (use ts in \<open>simp add: cal_horizon_unat\<close>)
    then have "slot s (ev_ts e) + 1 < 2 ^ 64" by simp
    ultimately have t: "unat ((ev_ts e div m_width s + 1) * m_width s) = (slot s (ev_ts e) + 1) * wd s"
      by (simp add: unat_times_simple unat_Suc_simple unat_div_distrib)
    define s' where "s' = s\<lparr>m_lastBucket := cal_Hash (m_nBuckets s) (m_width s) (ev_ts e), m_lastPrio := ev_ts e,
      m_bucketTop := (ev_ts e div m_width s + 1) * m_width s,
      m_buckets := (m_buckets s)[unat i := Pop (m_reverse s) (m_buckets s ! unat i)]\<rparr>"
    note p = cal_pop_bucket [OF s e(1,4) lb t s'_def]
    have "cal_DoRemoveNext s = Some (e, s')"
      using r(1) Turned q' e(2,3) e(4) [unfolded bucket_head_def, THEN conjunct2, symmetric]
      by (simp add: cal_DoRemoveNext_def s'_def)
    with e(1) p show ?thesis by (simp add: s'_def)
  qed
qed

section \<open>Resizing\<close>

lemma cal_gather_works:
  assumes "cal_shape s" and "cal_cursor s" and "n \<le> card (cal_events s)" and "m_qSize s \<noteq> 0"
  shows "\<exists>es s'. cal_gather n s = Some (es, s') \<and> length es = n \<and> sorted_wrt event_less es
    \<and> cal_events s = set es \<union> cal_events s' \<and> set es \<inter> cal_events s' = {} \<and> cal_shape s' \<and> same_dims s s'"
  using assms
proof (induction n arbitrary: s)
  case 0
  then show ?case by simp
next
  case (Suc n)
  then have "cal_events s \<noteq> {}" by auto
  from cal_DoRemoveNext_works [OF Suc.prems(1,2) this Suc.prems(4)] obtain e s1
    where r: "cal_DoRemoveNext s = Some (e, s1)" and e: "earliest (cal_events s) e"
      and s1: "cal_shape s1" "cal_cursor s1" "cal_events s1 = cal_events s - {e}" "same_dims s s1" by blast
  have ein: "e \<in> cal_events s" using e by (simp add: earliest_def)
  then have "n \<le> card (cal_events s1)" using s1(3) Suc.prems(3) by (simp add: card_Diff_singleton)
  with Suc.IH [OF s1(1,2)] s1(4) Suc.prems(4) obtain es s2 where
    es: "cal_gather n s1 = Some (es, s2)" "length es = n" "sorted_wrt event_less es"
      "cal_events s1 = set es \<union> cal_events s2" "set es \<inter> cal_events s2 = {}" "cal_shape s2" "same_dims s1 s2"
    by auto
  have "sorted_wrt event_less (e # es)" using e es(3,4) s1(3) by (auto simp: earliest_def)
  with r es s1 ein show ?case by auto
qed

lemma separations_sum:
  assumes "sorted_wrt (\<le>) tss" and "tss \<noteq> []"
  shows "unat (sum_list (filter P (separations tss))) \<le> unat (last tss) - unat (hd tss)"
  using assms
proof (induction tss rule: separations.induct)
  case (1 cur nxt ts)
  have le: "cur \<le> nxt" "nxt \<le> last (nxt # ts)" using "1.prems"(1) by auto
  have IH: "unat (sum_list (filter P (separations (nxt # ts)))) \<le> unat (last (nxt # ts)) - unat nxt"
    using 1 by simp
  have d: "unat (nxt - cur) = unat nxt - unat cur" using le(1) by (simp add: unat_sub)
  have m: "unat cur \<le> unat nxt" "unat nxt \<le> unat (last (nxt # ts))" using le by (simp_all add: word_le_nat_alt)
  have "unat (nxt - cur + sum_list (filter P (separations (nxt # ts))))
      \<le> unat (nxt - cur) + unat (sum_list (filter P (separations (nxt # ts))))"
    by (simp add: unat_plus_if')
  moreover have "last (cur # nxt # ts) = last (nxt # ts)" by simp
  ultimately show ?case using IH d m by (cases "P (nxt - cur)") (simp_all del: last.simps)
qed auto

lemma cal_width_bound:
  assumes "sorted_wrt (\<le>) tss" and "\<forall>t \<in> set tss. t \<le> cal_horizon" and "tss \<noteq> []"
  shows "1 \<le> unat (cal_width_of_samples n tss)" and "unat (cal_width_of_samples n tss) \<le> 3 * 2 ^ 47"
proof -
  define P where "P = (\<lambda>diff. diff \<le> sum_list (separations tss) div ucast (n - 1) * 2)"
  define t where "t = sum_list (filter P (separations tss))"
  have w: "cal_width_of_samples n tss = max (t * 3) 1"
    by (simp add: cal_width_of_samples_def Let_def P_def t_def)
  have "unat (last tss) \<le> 2 ^ 47" using assms(2,3) by (simp add: cal_horizon_unat)
  then have t: "unat t \<le> 2 ^ 47" using separations_sum [OF assms(1,3), of P] by (simp add: t_def)
  then have "unat (t * 3) = unat t * 3" using unat_times_simple [of t 3] by simp
  with t show "1 \<le> unat (cal_width_of_samples n tss)" "unat (cal_width_of_samples n tss) \<le> 3 * 2 ^ 47"
    unfolding w by (auto simp: max_def word_le_nat_alt)
qed

lemma cal_nSamples_bounds:
  assumes "2 \<le> q"
  shows "unat (cal_nSamples q) \<le> unat q" and "1 \<le> unat (cal_nSamples q)"
proof -
  have "unat q < 4294967296" using unsigned_less [of q] by simp
  then have "5 + unat q div 10 < 4294967296" by linarith
  then have "unat (5 + q div 10) = 5 + unat q div 10"
    using unat_plus_simple [of 5 "q div 10"] by (simp add: unat_div_distrib)
  then show "unat (cal_nSamples q) \<le> unat q" and "1 \<le> unat (cal_nSamples q)"
    using assms by (auto simp: cal_nSamples_def Let_def word_le_nat_alt word_less_nat_alt)
qed

lemma cal_cursor_same:
  "cal_cursor s \<Longrightarrow> cal_events s' = cal_events s \<Longrightarrow> m_nBuckets s' = m_nBuckets s \<Longrightarrow> m_width s' = m_width s \<Longrightarrow>
   m_lastBucket s' = m_lastBucket s \<Longrightarrow> m_bucketTop s' = m_bucketTop s \<Longrightarrow> m_lastPrio s' = m_lastPrio s \<Longrightarrow>
   cal_cursor s'"
  by (simp add: cal_cursor_def)

lemma cal_shape_same:
  "cal_shape s \<Longrightarrow> m_buckets s' = m_buckets s \<Longrightarrow> m_nBuckets s' = m_nBuckets s \<Longrightarrow> m_width s' = m_width s \<Longrightarrow>
   m_reverse s' = m_reverse s \<Longrightarrow> cal_shape s'"
  by (simp add: cal_shape_def cal_dims_def cal_events_def)

lemma cal_CalculateNewWidth_works:
  assumes s: "cal_shape s" "cal_cursor s" and card: "card (cal_events s) = unat (m_qSize s)"
  shows "\<exists>w s'. cal_CalculateNewWidth s = Some (w, s') \<and> 1 \<le> unat w \<and> unat w \<le> 3 * 2 ^ 47 \<and> cal_shape s'
    \<and> cal_cursor s' \<and> cal_events s' = cal_events s \<and> same_dims s s' \<and> m_lastPrio s' = m_lastPrio s"
proof (cases "m_qSize s < 2")
  case True
  with s show ?thesis by (simp add: cal_CalculateNewWidth_def)
next
  case False
  let ?n = "cal_nSamples (m_qSize s)"
  have n: "unat ?n \<le> card (cal_events s)" "1 \<le> unat ?n" "m_qSize s \<noteq> 0"
    using False cal_nSamples_bounds [of "m_qSize s"] card by (auto simp: not_less)
  obtain es s1 where g: "cal_gather (unat ?n) s = Some (es, s1)" "length es = unat ?n"
    "sorted_wrt event_less es" "cal_events s = set es \<union> cal_events s1" "set es \<inter> cal_events s1 = {}"
    "cal_shape s1" "same_dims s s1"
    using cal_gather_works [OF s n(1,3)] by auto
  define s2 where "s2 = fold cal_DoInsert es s1"
  have u: "inj_on ev_uid (cal_events s)" using s(1) by (simp add: cal_shape_def uids_distinct_def)
  have sub: "set es \<subseteq> cal_events s" "cal_events s1 \<subseteq> cal_events s" using g(4) by blast+
  have d: "distinct (map ev_uid es)"
    unfolding distinct_map using inj_on_subset [OF u sub(1)] sorted_events_distinct [OF g(3)] by (rule conjI [rotated])
  have dis: "ev_uid ` set es \<inter> ev_uid ` cal_events s1 = {}"
    using inj_on_image_Int [OF u sub] g(5) by simp
  have s2: "cal_shape s2" "cal_events s2 = cal_events s"
    using cal_fold_DoInsert [OF g(6) d dis] g(4) by (simp_all add: s2_def)
  define s3 where "s3 = s2\<lparr>m_lastBucket := m_lastBucket s, m_bucketTop := m_bucketTop s, m_lastPrio := m_lastPrio s\<rparr>"
  have s3: "cal_shape s3" "cal_events s3 = cal_events s"
    using s2 cal_shape_same [OF s2(1), of s3] by (simp_all add: s3_def cal_events_def)
  have f: "m_nBuckets s3 = m_nBuckets s" "m_width s3 = m_width s" "m_qSize s3 = m_qSize s" "m_reverse s3 = m_reverse s"
    "m_lastBucket s3 = m_lastBucket s" "m_bucketTop s3 = m_bucketTop s" "m_lastPrio s3 = m_lastPrio s"
    using g(7) by (simp_all add: s3_def s2_def)
  have cur: "cal_cursor s3" by (rule cal_cursor_same [OF s(2) s3(2) f(1,2,5,6,7)])
  have srt: "sorted_wrt (\<le>) (map ev_ts es)"
    unfolding sorted_wrt_map using g(3) by (rule sorted_wrt_mono_rel [rotated]) (rule event_less_ts)
  have hor: "\<forall>t \<in> set (map ev_ts es). t \<le> cal_horizon" using s(2) g(4) by (auto simp: cal_cursor_def)
  have "map ev_ts es \<noteq> []" using g(2) n(2) by auto
  note wb = cal_width_bound [OF srt hor this]
  have "cal_CalculateNewWidth s = Some (cal_width_of_samples ?n (map ev_ts es), s3)"
    using False g(1) by (simp add: cal_CalculateNewWidth_def Let_def s3_def s2_def)
  then show ?thesis using s3 cur wb f by blast
qed

lemma distinct_concat_index:
  assumes "\<And>i. i < length xs \<Longrightarrow> distinct (xs ! i) \<and> (\<forall>x \<in> set (xs ! i). f x = i)"
  shows "distinct (concat xs)"
  using assms
proof (induction xs rule: rev_induct)
  case Nil
  then show ?case by simp
next
  case (snoc ys xs)
  have "distinct (xs ! i) \<and> (\<forall>x \<in> set (xs ! i). f x = i)" if "i < length xs" for i
    using snoc.prems [of i] that by (simp add: nth_append)
  moreover from this have "f x \<noteq> length xs" if "x \<in> set (concat xs)" for x
    using that by (auto simp: in_set_conv_nth) (metis less_irrefl nth_mem)
  ultimately show ?case using snoc.IH snoc.prems [of "length xs"] by auto
qed

lemma cal_Init_simps [simp]:
  "m_nBuckets (cal_Init n w p s) = n" "m_width (cal_Init n w p s) = w" "m_lastPrio (cal_Init n w p s) = p"
  "m_qSize (cal_Init n w p s) = m_qSize s" "m_reverse (cal_Init n w p s) = m_reverse s"
  "cal_events (cal_Init n w p s) = {}"
  by (simp_all add: cal_Init_def cal_events_def)

lemma cal_Init_works:
  assumes "1 \<le> unat n" "unat n \<le> 32768" "1 \<le> unat w" "unat w \<le> 3 * 2 ^ 47" "p \<le> cal_horizon"
  shows "cal_shape (cal_Init n w p s)"
    and "unat (m_lastBucket (cal_Init n w p s)) = unat p div unat w mod unat n"
    and "unat (m_bucketTop (cal_Init n w p s)) = (unat p div unat w + 1) * unat w"
proof -
  let ?s = "cal_Init n w p s"
  show d: "cal_shape ?s" using assms by (simp add: cal_shape_def cal_dims_def uids_distinct_def) (simp add: cal_Init_def)
  show "unat (m_lastBucket ?s) = unat p div unat w mod unat n"
    using assms by (simp add: cal_Init_def cal_Hash_unat)
  have "(unat p div unat w + 1) * unat w < 2 ^ 64"
    using cal_top_bound [of ?s p 0] d assms(5) by (simp add: cal_shape_def)
  moreover have "unat p div unat w \<le> 2 ^ 47"
    by (rule order_trans [OF div_le_dividend]) (use assms(5) in \<open>simp add: cal_horizon_unat\<close>)
  ultimately show "unat (m_bucketTop ?s) = (unat p div unat w + 1) * unat w"
    by (simp add: cal_Init_def unat_times_simple unat_Suc_simple unat_div_distrib)
qed

lemma cal_DoResize_works:
  assumes s: "cal_shape s" "cal_cursor s" and n: "1 \<le> unat n" "unat n \<le> 32768"
    and w: "1 \<le> unat w" "unat w \<le> 3 * 2 ^ 47"
  shows "cal_shape (cal_DoResize n w s)" and "cal_cursor (cal_DoResize n w s)"
    and "cal_events (cal_DoResize n w s) = cal_events s"
    and "m_lastPrio (cal_DoResize n w s) = m_lastPrio s" and "m_qSize (cal_DoResize n w s) = m_qSize s"
proof -
  let ?i = "cal_Init n w (m_lastPrio s) s"
  have p: "m_lastPrio s \<le> cal_horizon" using s(2) by (simp add: cal_cursor_def)
  note i = cal_Init_works [OF n w p, of s]
  have set: "set (concat (m_buckets s)) = cal_events s" by (simp add: cal_events_def)
  have "distinct (m_buckets s ! j) \<and> (\<forall>e \<in> set (m_buckets s ! j). slot s (ev_ts e) mod nb s = j)"
    if "j < length (m_buckets s)" for j
    using that s(1) sorted_wrt_irrefl_distinct [of "\<lambda>x y. Order (m_reverse s) (key x) (key y)" "m_buckets s ! j"]
    by (auto simp: cal_shape_def cal_dims_def)
  then have "distinct (concat (m_buckets s))" by (rule distinct_concat_index)
  then have "distinct (map ev_uid (concat (m_buckets s)))"
    using s(1) set by (simp add: distinct_map cal_shape_def uids_distinct_def)
  from cal_fold_DoInsert [OF i(1) this] set
  show r: "cal_shape (cal_DoResize n w s)" "cal_events (cal_DoResize n w s) = cal_events s"
    by (simp_all add: cal_DoResize_def)
  show f: "m_lastPrio (cal_DoResize n w s) = m_lastPrio s" "m_qSize (cal_DoResize n w s) = m_qSize s"
    by (simp_all add: cal_DoResize_def)
  show "cal_cursor (cal_DoResize n w s)"
    using s(2) r(2) f(1) i(2,3) p by (simp add: cal_cursor_def) (simp add: cal_DoResize_def)
qed
text \<open>The state that an operation hands to ResizeUp or ResizeDown, up to the number of buckets.\<close>

lemma cal_Resize_works:
  assumes "cal_invar s" and n: "unat n = 2 ^ k" "k \<le> 15"
  shows "\<exists>s'. cal_Resize n s = Some s' \<and> cal_invar s' \<and> cal_events s' = cal_events s \<and> m_lastPrio s' = m_lastPrio s"
proof -
  from assms(1) have s: "cal_shape s" "cal_cursor s" "card (cal_events s) = unat (m_qSize s)"
    by (auto simp: cal_invar_def)
  obtain w s1 where w: "cal_CalculateNewWidth s = Some (w, s1)" "1 \<le> unat w" "unat w \<le> 3 * 2 ^ 47"
    and s1: "cal_shape s1" "cal_cursor s1" "cal_events s1 = cal_events s" "same_dims s s1" "m_lastPrio s1 = m_lastPrio s"
    using cal_CalculateNewWidth_works [OF s] by blast
  have "(2::nat) ^ k \<le> 2 ^ 15" using n(2) by (intro power_increasing) auto
  then have n': "1 \<le> unat n" "unat n \<le> 32768" using n(1) by auto
  note r = cal_DoResize_works [OF s1(1,2) n' w(2,3)]
  have "m_nBuckets (cal_DoResize n w s1) = n" by (simp add: cal_DoResize_def)
  then have "cal_invar (cal_DoResize n w s1)"
    using r s(3) s1(3,4) n by (auto simp: cal_invar_def)
  with w(1) r s1 show ?thesis by (simp add: cal_Resize_def)
qed

lemma cal_ResizeUp_works:
  assumes "cal_invar s"
  shows "\<exists>s'. cal_ResizeUp s = Some s' \<and> cal_invar s' \<and> cal_events s' = cal_events s \<and> m_lastPrio s' = m_lastPrio s"
proof (cases "m_qSize s > m_nBuckets s * 2 \<and> m_nBuckets s < 32768")
  case True
  from assms obtain k where k: "nb s = 2 ^ k" by (auto simp: cal_invar_def)
  from True have "(2::nat) ^ k < 2 ^ 15" using k by (simp add: word_less_nat_alt)
  then have "k < 15" by (rule power_less_imp_less_exp [rotated]) simp
  moreover have "unat (m_nBuckets s * 2) = 2 ^ Suc k"
    using True k by (simp add: unat_times_simple word_less_nat_alt)
  ultimately show ?thesis using cal_Resize_works [OF assms, of "m_nBuckets s * 2" "Suc k"] True
    by (simp add: cal_ResizeUp_def)
qed (use assms in \<open>auto simp: cal_ResizeUp_def\<close>)

lemma cal_ResizeDown_works:
  assumes "cal_invar s"
  shows "\<exists>s'. cal_ResizeDown s = Some s' \<and> cal_invar s' \<and> cal_events s' = cal_events s \<and> m_lastPrio s' = m_lastPrio s"
proof (cases "m_qSize s < m_nBuckets s div 2")
  case True
  from assms obtain k where k: "nb s = 2 ^ k" "k \<le> 15" by (auto simp: cal_invar_def)
  have h: "unat (m_nBuckets s div 2) = 2 ^ k div 2" using k(1) by (simp add: unat_div_distrib)
  with True have "k \<noteq> 0" by (cases k) (auto simp: word_less_nat_alt)
  then have "unat (m_nBuckets s div 2) = 2 ^ (k - 1)" using h by (cases k) auto
  then show ?thesis using cal_Resize_works [OF assms, of "m_nBuckets s div 2" "k - 1"] k(2) True
    by (simp add: cal_ResizeDown_def)
qed (use assms in \<open>auto simp: cal_ResizeDown_def\<close>)

section \<open>The contract\<close>

lemma cal_Insert_works:
  assumes "cal_invar s" and "ev_uid e \<notin> ev_uid ` cal_events s" and "m_lastPrio s \<le> ev_ts e"
    and "ev_ts e \<le> cal_horizon" and "card (cal_events s) + 1 < 2 ^ 32"
  shows "\<exists>s'. cal_Insert e s = Some s' \<and> cal_invar s' \<and> cal_events s' = insert e (cal_events s) \<and> m_lastPrio s' = m_lastPrio s"
proof -
  from assms(1) have s: "cal_shape s" "cal_cursor s" "card (cal_events s) = unat (m_qSize s)" "\<exists>k \<le> 15. nb s = 2 ^ k"
    by (auto simp: cal_invar_def)
  note i = cal_DoInsert_shape [OF s(1) assms(2)]
  define s1 where "s1 = (cal_DoInsert e s)\<lparr>m_qSize := m_qSize s + 1\<rparr>"
  have ev: "cal_events s1 = insert e (cal_events s)" using i(2) by (simp add: s1_def cal_events_def)
  have "cal_shape s1" using cal_shape_same [OF i(1), of s1] by (simp add: s1_def)
  moreover have "cal_cursor s1"
    using s(2) ev assms(3,4) by (auto simp: cal_cursor_def) (simp_all add: s1_def)
  moreover have "e \<notin> cal_events s" using assms(2) by auto
  then have "card (cal_events s1) = unat (m_qSize s1)"
    using assms(5) s(3) unfolding ev by (simp add: s1_def unat_Suc_simple)
  ultimately have "cal_invar s1" using s(4) by (simp add: cal_invar_def s1_def)
  from cal_ResizeUp_works [OF this] ev show ?thesis by (simp add: cal_Insert_def Let_def s1_def)
qed

text \<open>Taking one event off the count.\<close>

lemma cal_invar_less:
  assumes "cal_invar s" and e: "e \<in> cal_events s" and "cal_shape s1" "cal_cursor s1"
    and ev: "cal_events s1 = cal_events s - {e}" and "m_nBuckets s1 = m_nBuckets s" and q: "m_qSize s1 = m_qSize s"
  shows "cal_invar (s1\<lparr>m_qSize := m_qSize s1 - 1\<rparr>)" (is "cal_invar ?s")
proof -
  have c: "card (cal_events s) = unat (m_qSize s)" and k: "\<exists>k \<le> 15. nb s = 2 ^ k"
    using assms(1) by (auto simp: cal_invar_def)
  have ev': "cal_events ?s = cal_events s1" by (simp add: cal_events_def)
  have "card (cal_events s) = Suc (card (cal_events s1))" using card_Suc_Diff1 [OF cal_finite_events e] ev by simp
  then have "unat (m_qSize s) = Suc (card (cal_events s1))" using c by simp
  moreover from this have "unat (m_qSize s - 1) = unat (m_qSize s) - 1" by (intro unat_minus_one) auto
  ultimately have "card (cal_events ?s) = unat (m_qSize ?s)" unfolding ev' by (simp add: q)
  moreover have "cal_shape ?s" by (rule cal_shape_same [OF assms(3)]) simp_all
  moreover have "cal_cursor ?s" by (rule cal_cursor_same [OF assms(4) ev']) simp_all
  ultimately show ?thesis using k assms(6) by (simp add: cal_invar_def)
qed

lemma cal_RemoveNext_works:
  assumes "cal_invar s" and "cal_events s \<noteq> {}"
  shows "\<exists>e s'. cal_RemoveNext s = Some (e, s') \<and> earliest (cal_events s) e \<and> cal_invar s'
    \<and> cal_events s' = cal_events s - {e} \<and> m_lastPrio s' = ev_ts e"
proof -
  have s: "cal_shape s" "cal_cursor s" and q: "m_qSize s \<noteq> 0"
    using assms by (auto simp: cal_invar_def)
  obtain e s1 where e: "cal_DoRemoveNext s = Some (e, s1)" "earliest (cal_events s) e"
    and s1: "cal_shape s1" "cal_cursor s1" "cal_events s1 = cal_events s - {e}" "m_lastPrio s1 = ev_ts e" "same_dims s s1"
    using cal_DoRemoveNext_works [OF s assms(2) q] by blast
  have m: "e \<in> cal_events s" using e(2) by (simp add: earliest_def)
  define s2 where "s2 = s1\<lparr>m_qSize := m_qSize s1 - 1\<rparr>"
  have "cal_invar s2" unfolding s2_def using s1(5) by (intro cal_invar_less [OF assms(1) m s1(1,2,3)]) auto
  from cal_ResizeDown_works [OF this] obtain s3 where s3: "cal_ResizeDown s2 = Some s3" "cal_invar s3"
    "cal_events s3 = cal_events s2" "m_lastPrio s3 = m_lastPrio s2" by blast
  have f: "cal_events s2 = cal_events s1" "m_lastPrio s2 = m_lastPrio s1" by (simp_all add: s2_def cal_events_def)
  from s3(1) have "cal_RemoveNext s = Some (e, s3)"
    using e(1) q by (simp add: cal_RemoveNext_def cal_IsEmpty_def s2_def)
  then show ?thesis
    using s3(2) e(2) trans [OF trans [OF s3(3) f(1)] s1(3)] trans [OF trans [OF s3(4) f(2)] s1(4)] by (intro exI conjI)
qed

lemma cal_Remove_works:
  assumes "cal_invar s" and e: "e \<in> cal_events s"
  shows "\<exists>s'. cal_Remove e s = Some s' \<and> cal_invar s' \<and> cal_events s' = cal_events s - {e} \<and> m_lastPrio s' = m_lastPrio s"
proof -
  have s: "cal_shape s" "cal_cursor s" and d: "cal_dims s" and q: "m_qSize s \<noteq> 0"
    and u: "uids_distinct (cal_events s)"
    using assms by (auto simp: cal_invar_def cal_shape_def)
  define b where "b = slot s (ev_ts e) mod nb s"
  have b: "b < nb s" "b < length (m_buckets s)" using d by (auto simp: b_def cal_dims_def)
  note bk = cal_shape_bucket [OF s(1) b(1)]
  have eb: "e \<in> set (m_buckets s ! b)" using bk(3) [OF e] by (simp add: b_def)
  obtain rest where rest: "list_erase_first (\<lambda>i. ev_uid i = ev_uid e) (m_buckets s ! b) = Some (e, rest)"
    using list_erase_first_ex [OF eb, of "\<lambda>i. ev_uid i = ev_uid e"] bk(2) u e by (auto dest: uids_distinctD)
  have "distinct (m_buckets s ! b)" using sorted_wrt_irrefl_distinct [OF bk(1)] by simp
  note rs = list_erase_first_set [OF rest this] and sr = list_erase_first_sorted [OF rest bk(1)]
  define s1 where "s1 = s\<lparr>m_buckets := (m_buckets s)[b := rest]\<rparr>"
  have only: "e \<notin> set (m_buckets s ! j)" if "j < nb s" "j \<noteq> b" for j
    using cal_shape_bucket(3) [OF s(1) that(1) e] that(2) by (simp add: b_def)
  have "x \<in> cal_events s1 \<longleftrightarrow> x \<in> cal_events s - {e}" for x
    using cal_events_at(1) [OF b(2), of x] cal_events_at(2) [OF b(2), of s1 rest x] rs(1) only d
    by (auto simp: s1_def cal_dims_def)
  then have ev: "cal_events s1 = cal_events s - {e}" by blast
  have "uids_distinct (cal_events s1)" using u ev by (auto intro: uids_distinct_subset)
  then have "cal_shape s1"
    using s(1) d rs(1) sr b by (auto simp: cal_shape_def cal_dims_def s1_def nth_list_update)
  moreover have "cal_cursor s1" using s(2) ev by (auto simp: cal_cursor_def) (simp_all add: s1_def)
  ultimately have "cal_invar (s1\<lparr>m_qSize := m_qSize s1 - 1\<rparr>)"
    by (rule cal_invar_less [OF assms _ _ ev]) (simp_all add: s1_def)
  from cal_ResizeDown_works [OF this] obtain s3 where s3: "cal_ResizeDown (s1\<lparr>m_qSize := m_qSize s1 - 1\<rparr>) = Some s3"
    "cal_invar s3" "cal_events s3 = cal_events (s1\<lparr>m_qSize := m_qSize s1 - 1\<rparr>)" "m_lastPrio s3 = m_lastPrio s1"
    by auto
  have f: "cal_events s3 = cal_events s - {e}" "m_lastPrio s3 = m_lastPrio s"
    unfolding s3(3,4) using ev by (simp_all add: s1_def cal_events_def)
  have "cal_Remove e s = Some s3"
    using s3(1) rest q d by (simp add: cal_Remove_def cal_IsEmpty_def s1_def b_def cal_Hash_unat cal_dims_def)
  with s3(2) f show ?thesis by simp
qed

interpretation calq: removable_queue cal_ops cal_invar cal_events m_lastPrio cal_horizon
proof (unfold_locales, goal_cases)
  case (3 s)
  then show ?case using unat_eq_zero [of "m_qSize s"] by (auto simp: cal_IsEmpty_def cal_invar_def)
next
  case (4 s)
  then show ?case using cal_PeekNext_works by simp
next
  case (5 s)
  then show ?case using cal_RemoveNext_works [of s] by auto
next
  case (6 s e)
  then show ?case using cal_Insert_works [of s e] by simp
next
  case (7 s e)
  then show ?case using cal_Remove_works [of s e] by simp
qed (auto simp: cal_invar_def cal_shape_def)

lemma cal_init_invar [simp]: "cal_invar (cal_init r)" "cal_events (cal_init r) = {}" "m_lastPrio (cal_init r) = 0"
proof -
  show ev: "cal_events (cal_init r) = {}" and p: "m_lastPrio (cal_init r) = 0" by (simp_all add: cal_init_def)
  have "cal_shape (cal_init r)" unfolding cal_init_def by (rule cal_Init_works(1)) (simp_all add: cal_horizon_def)
  moreover have "cal_cursor (cal_init r)"
    by (simp add: cal_cursor_def ev p) (simp add: cal_init_def cal_Init_def cal_Hash_def)
  moreover have "nb (cal_init r) = 2 ^ 1" "m_qSize (cal_init r) = 0" by (simp_all add: cal_init_def)
  ultimately show "cal_invar (cal_init r)" unfolding cal_invar_def ev by (intro conjI exI [of _ 1]) simp_all
qed

end
