(* ===== verification/Scheduler_Equivalence.thy ===== *)
theory Scheduler_Equivalence
  imports Map_Scheduler PQ_Scheduler Heap_Scheduler Calendar_Scheduler
begin

text \<open>
  The schedulers are interchangeable: the attribute of the simulator that chooses one
  (src/core/model/simulator.cc, SchedulerType) does not change what a simulation does. A client
  is a sequence of calls of the interface of scheduler.h; the ListScheduler is the reference.
\<close>

datatype sched_call =
    CallInsert Event
  | CallPeekNext
  | CallRemoveNext
  | CallRemove Event

text \<open>One call, with the event it returns, and a sequence of calls.\<close>

fun sched_step :: "'s scheduler_ops \<Rightarrow> sched_call \<Rightarrow> 's \<Rightarrow> (Event option \<times> 's) option" where
  "sched_step ops (CallInsert e) s = map_option (Pair None) (Insert ops e s)"
| "sched_step ops CallPeekNext s = map_option (\<lambda>e. (Some e, s)) (PeekNext ops s)"
| "sched_step ops CallRemoveNext s = map_option (apfst Some) (RemoveNext ops s)"
| "sched_step ops (CallRemove e) s = map_option (Pair None) (Remove ops e s)"

fun sched_run :: "'s scheduler_ops \<Rightarrow> sched_call list \<Rightarrow> 's \<Rightarrow> (Event option list \<times> 's) option" where
  "sched_run ops [] s = Some ([], s)"
| "sched_run ops (c # cs) s = do {
     (r, s1) \<leftarrow> sched_step ops c s;
     (rs, s2) \<leftarrow> sched_run ops cs s1;
     Some (r # rs, s2)
   }"

text \<open>
  The calls a client may make, with the reference list \<open>l\<close> of pending events, the time stamp
  \<open>f\<close> of the last event taken and the largest time stamp \<open>h\<close>: it inserts fresh uids at or after
  \<open>f\<close>, asks for the next event only of a queue that has one, and removes only pending events.
\<close>

fun legal_call :: "u64 \<Rightarrow> u64 \<Rightarrow> ListScheduler \<Rightarrow> sched_call \<Rightarrow> bool" where
  "legal_call h f l (CallInsert e) \<longleftrightarrow>
     ev_uid e \<notin> ev_uid ` set l \<and> f \<le> ev_ts e \<and> ev_ts e \<le> h \<and> length l + 1 < 2 ^ 32"
| "legal_call h f l CallPeekNext \<longleftrightarrow> l \<noteq> []"
| "legal_call h f l CallRemoveNext \<longleftrightarrow> l \<noteq> []"
| "legal_call h f l (CallRemove e) \<longleftrightarrow> e \<in> set l"

definition next_floor :: "u64 \<Rightarrow> ListScheduler \<Rightarrow> sched_call \<Rightarrow> u64" where
  "next_floor f l c = (if c = CallRemoveNext then ev_ts (hd l) else f)"

fun legal_calls :: "u64 \<Rightarrow> u64 \<Rightarrow> ListScheduler \<Rightarrow> sched_call list \<Rightarrow> bool" where
  "legal_calls h f l [] = True"
| "legal_calls h f l (c # cs) \<longleftrightarrow> legal_call h f l c \<and>
     (case sched_step list_ops c l of
        None \<Rightarrow> False
      | Some (_, l') \<Rightarrow> legal_calls h (next_floor f l c) l' cs)"

text \<open>\<open>tracks l f s\<close>: the scheduler state \<open>s\<close> holds the events of the reference list \<open>l\<close>.\<close>

context event_queue
begin

definition tracks :: "ListScheduler \<Rightarrow> u64 \<Rightarrow> 's \<Rightarrow> bool" where
  "tracks l f s \<longleftrightarrow> invar s \<and> list_invar l \<and> events s = set l \<and> floor_ts s \<le> f"

lemma step_tracks:
  assumes "tracks l f s" and "legal_call h f l c" and "h \<le> horizon"
    and Rem: "\<And>e. c = CallRemove e \<Longrightarrow>
      \<exists>s'. Remove ops e s = Some s' \<and> invar s' \<and> events s' = events s - {e} \<and> floor_ts s' = floor_ts s"
  shows "\<exists>r s' l'. sched_step ops c s = Some (r, s') \<and> sched_step list_ops c l = Some (r, l') \<and>
    tracks l' (next_floor f l c) s'"
proof -
  from assms(1) have s: "invar s" "list_invar l" "events s = set l" "floor_ts s \<le> f"
    by (auto simp: tracks_def)
  have len: "card (set l) = length l"
    using s(2) by (simp add: list_invar_def distinct_card sorted_events_distinct)
  show ?thesis
  proof (cases c)
    case (CallInsert e)
    have "floor_ts s \<le> ev_ts e" "ev_ts e \<le> horizon" using CallInsert assms(2,3) s(4) by auto
    moreover have "ev_ts e \<le> - 1" by (rule word_order.extremum)
    ultimately show ?thesis
      using CallInsert assms(2) s len Insert_law [OF s(1), of e] listq.Insert_law [OF s(2), of e]
      by (auto simp: tracks_def next_floor_def)
  next
    case CallPeekNext
    then have ne: "events s \<noteq> {}" "set l \<noteq> {}" using assms(2) s(3) by auto
    show ?thesis
      using CallPeekNext assms(1) PeekNext_law [OF s(1) ne(1)] listq.PeekNext_law [OF s(2) ne(2)] s(3)
      by (auto simp: next_floor_def dest: earliest_unique)
  next
    case CallRemoveNext
    then have ne: "events s \<noteq> {}" "set l \<noteq> {}" using assms(2) s(3) by auto
    obtain e s' where e: "RemoveNext ops s = Some (e, s')" "earliest (set l) e" "invar s'"
      "events s' = set l - {e}" "floor_ts s' \<le> ev_ts e"
      using RemoveNext_law [OF s(1) ne(1)] s(3) by auto
    obtain e' l' where e': "list_RemoveNext l = Some (e', l')" "earliest (set l) e'" "list_invar l'"
      "set l' = set l - {e'}"
      using listq.RemoveNext_law [OF s(2) ne(2)] by auto
    have "e' = e" using e(2) e'(2) by (rule earliest_unique [THEN sym])
    moreover have "hd l = e'" using e'(1) by (auto simp: list_RemoveNext_def split: list.splits)
    ultimately show ?thesis using CallRemoveNext e e' by (simp add: tracks_def next_floor_def)
  next
    case (CallRemove e)
    then have "e \<in> set l" using assms(2) by simp
    with CallRemove Rem [OF CallRemove] listq.Remove_law [OF s(2), of e] s show ?thesis
      by (auto simp: tracks_def next_floor_def)
  qed
qed

lemma run_tracks:
  assumes "tracks l f s" and "legal_calls h f l cs" and "h \<le> horizon"
    and Rem: "\<And>s e. CallRemove e \<in> set cs \<Longrightarrow> invar s \<Longrightarrow> e \<in> events s \<Longrightarrow>
      \<exists>s'. Remove ops e s = Some s' \<and> invar s' \<and> events s' = events s - {e} \<and> floor_ts s' = floor_ts s"
  shows "\<exists>rs s' l'. sched_run ops cs s = Some (rs, s') \<and> sched_run list_ops cs l = Some (rs, l') \<and>
    events s' = set l'"
  using assms
proof (induction cs arbitrary: l f s)
  case Nil
  then show ?case by (simp add: tracks_def)
next
  case (Cons c cs)
  have lc: "legal_call h f l c" using Cons.prems(2) by simp
  have "\<exists>s'. Remove ops e s = Some s' \<and> invar s' \<and> events s' = events s - {e} \<and> floor_ts s' = floor_ts s"
    if "c = CallRemove e" for e
    using that lc Cons.prems(1) by (intro Cons.prems(4)) (auto simp: tracks_def)
  from step_tracks [OF Cons.prems(1) lc Cons.prems(3) this]
  obtain r s1 l1 where st: "sched_step ops c s = Some (r, s1)" "sched_step list_ops c l = Some (r, l1)"
    "tracks l1 (next_floor f l c) s1" by blast
  have "legal_calls h (next_floor f l c) l1 cs" using Cons.prems(2) st(2) by simp
  from Cons.IH [OF st(3) this Cons.prems(3)] Cons.prems(4)
  obtain rs s2 l2 where "sched_run ops cs s1 = Some (rs, s2)" "sched_run list_ops cs l1 = Some (rs, l2)"
    "events s2 = set l2" by auto
  with st show ?case by simp
qed

end

context removable_queue
begin

lemma run_like_list:
  assumes "invar s" and "events s = {}" and "floor_ts s = 0" and "legal_calls horizon 0 [] cs"
  shows "\<exists>rs s' l'. sched_run ops cs s = Some (rs, s') \<and> sched_run list_ops cs [] = Some (rs, l') \<and>
    events s' = set l'"
proof (rule run_tracks [OF _ assms(4) order_refl])
  show "tracks [] 0 s" using assms by (simp add: tracks_def list_invar_def uids_distinct_def)
qed (rule Remove_law)

end

text \<open>
  C21: The MapScheduler (the default) answers every legal sequence of calls, from its empty state
  on, exactly as the sorted list does: same events returned, in the same order, no assertion
  fails, and the same events pending at the end.
\<close>

theorem map_like_list:
  assumes "legal_calls (- 1) 0 [] cs"
  shows "\<exists>rs m l. sched_run map_ops cs [] = Some (rs, m) \<and> sched_run list_ops cs [] = Some (rs, l) \<and>
    map_events m = set l"
  by (rule mapq.run_like_list [OF _ _ _ assms])
    (simp_all add: map_invar_def list_invar_def uids_distinct_def)

text \<open>
  The PriorityQueueScheduler answers every legal sequence of calls exactly as the sorted
  list does, Remove included.
\<close>

theorem pq_like_list:
  assumes "legal_calls (- 1) 0 [] cs"
  shows "\<exists>rs c l. sched_run pq_ops cs [] = Some (rs, c) \<and> sched_run list_ops cs [] = Some (rs, l) \<and>
    set c = set l"
  by (rule pqq.run_like_list [OF _ _ _ assms]) (simp_all add: pq_invar_def uids_distinct_def)

text \<open>
  C2: The CalendarScheduler, in either bucket order, answers every legal sequence of calls with
  time stamps up to 2^47 exactly as the sorted list does, through all the resizings of its
  calendar and with its 32- and 64-bit arithmetic.
\<close>

theorem cal_like_list:
  assumes "legal_calls cal_horizon 0 [] cs"
  shows "\<exists>rs s l. sched_run cal_ops cs (cal_init r) = Some (rs, s) \<and> sched_run list_ops cs [] = Some (rs, l) \<and>
    cal_events s = set l"
  by (rule calq.run_like_list [OF _ _ _ assms]) simp_all

text \<open>
  C22: The HeapScheduler answers every legal sequence of calls without Remove exactly as the
  sorted list does.
\<close>

theorem heap_like_list:
  assumes "legal_calls (- 1) 0 [] cs" and "\<forall>e. CallRemove e \<notin> set cs"
  shows "\<exists>rs h l. sched_run heap_ops cs heap_init = Some (rs, h) \<and> sched_run list_ops cs [] = Some (rs, l) \<and>
    heap_events h = set l"
proof (rule heapq.run_tracks [OF _ assms(1) order_refl])
  show "heapq.tracks [] 0 heap_init"
    by (simp add: heapq.tracks_def heap_invar_init list_invar_def uids_distinct_def)
qed (use assms(2) in blast)

text \<open>The same sequence of calls for the witnesses: three insertions, one of them removed.\<close>

definition demo_event :: "u64 \<Rightarrow> u32 \<Rightarrow> Event" where
  "demo_event ts uid = \<lparr>impl = unat uid, key = \<lparr>m_ts = ts, m_uid = uid, m_context = 0\<rparr>\<rparr>"

definition demo_calls :: "bool \<Rightarrow> sched_call list" where
  "demo_calls rem =
     [CallInsert (demo_event 30 4), CallInsert (demo_event 10 5), CallInsert (demo_event 10 6),
      CallPeekNext, CallRemoveNext] @
     (if rem then [CallRemove (demo_event 30 4)] else []) @
     [CallInsert (demo_event 10 7), CallRemoveNext, CallRemoveNext]"

lemma demo_legal: "legal_calls (- 1) 0 [] (demo_calls rem)" "legal_calls cal_horizon 0 [] (demo_calls rem)"
  by (cases rem; simp add: demo_calls_def demo_event_def list_Insert_def list_PeekNext_def list_RemoveNext_def
      list_Remove_def key_less_def next_floor_def cal_horizon_def)+

lemma map_like_list_witness:
  "\<exists>rs m l. sched_run map_ops (demo_calls True) [] = Some (rs, m) \<and>
     sched_run list_ops (demo_calls True) [] = Some (rs, l) \<and> map_events m = set l"
  by (rule map_like_list [OF demo_legal(1)])

lemma pq_like_list_witness:
  "\<exists>rs c l. sched_run pq_ops (demo_calls True) [] = Some (rs, c) \<and>
     sched_run list_ops (demo_calls True) [] = Some (rs, l) \<and> set c = set l"
  by (rule pq_like_list [OF demo_legal(1)])

lemma cal_like_list_witness:
  "\<exists>rs s l. sched_run cal_ops (demo_calls True) (cal_init True) = Some (rs, s) \<and>
     sched_run list_ops (demo_calls True) [] = Some (rs, l) \<and> cal_events s = set l"
  by (rule cal_like_list [OF demo_legal(2)])

lemma heap_like_list_witness:
  "\<exists>rs h l. sched_run heap_ops (demo_calls False) heap_init = Some (rs, h) \<and>
     sched_run list_ops (demo_calls False) [] = Some (rs, l) \<and> heap_events h = set l"
  by (rule heap_like_list [OF demo_legal(1)]) (simp add: demo_calls_def)

end
