(* ===== verification/Simulator_Impl.thy ===== *)
theory Simulator_Impl
  imports Scheduler_Equivalence
begin

text \<open>
  src/core/model/default-simulator-impl.cc, with event-id.cc and event-impl.cc: the event loop.
  The simulator keeps the pending events in a scheduler (any implementation of the interface of
  \<open>Event_Queue\<close>), the current time, uid and context, and the list of events that other threads
  hand over. It gives every event a fresh uid, so that events with equal time stamps run in the
  order in which they were scheduled.

  An EventImpl is an address; its only mutable part, the flag \<open>m_cancel\<close>, is the field
  \<open>m_cancel\<close> of the state. Reference counts and log output are left out. The user's Notify
  methods are a parameter \<open>notify\<close> of the definitions that invoke events: a function from the
  state to the state the handler leaves. A failed assertion and the overflow of a signed integer
  are the outcome None.
\<close>

section \<open>State\<close>

record EventId =
  m_eventImpl :: addr
  id_ts :: u64
  id_context :: u32
  id_uid :: u32

definition eventid_eq :: "EventId \<Rightarrow> EventId \<Rightarrow> bool" where
  "eventid_eq a b \<longleftrightarrow> id_uid a = id_uid b \<and> id_context a = id_context b \<and> id_ts a = id_ts b \<and>
     m_eventImpl a = m_eventImpl b"

text \<open>EventId::UID.\<close>

definition uid_INVALID :: u32 where
  "uid_INVALID = 0"

definition uid_DESTROY :: u32 where
  "uid_DESTROY = 2"

definition uid_VALID :: u32 where
  "uid_VALID = 4"

record EventWithContext =
  ewc_context :: u32
  timestamp :: u64
  event :: addr

record 's simulator =
  m_events :: 's
  m_eventsWithContext :: "EventWithContext list"
  m_eventsWithContextEmpty :: bool
  m_destroyEvents :: "EventId list"
  m_stop :: bool
  sim_uid :: u32
  m_currentUid :: u32
  m_currentTs :: u64
  m_currentContext :: u32
  m_eventCount :: u64
  m_unscheduledEvents :: int
  m_cancel :: "addr \<Rightarrow> bool"

definition NO_CONTEXT :: u32 where
  "NO_CONTEXT = 0xffffffff"

text \<open>The constructor followed by SetScheduler with an empty scheduler.\<close>

definition sim_init :: "'s \<Rightarrow> 's simulator" where
  "sim_init events = \<lparr>m_events = events, m_eventsWithContext = [], m_eventsWithContextEmpty = True,
     m_destroyEvents = [], m_stop = False, sim_uid = uid_VALID, m_currentUid = uid_INVALID,
     m_currentTs = 0, m_currentContext = NO_CONTEXT, m_eventCount = 0, m_unscheduledEvents = 0,
     m_cancel = (\<lambda>_. False)\<rparr>"

section \<open>Scheduling\<close>

text \<open>\<open>delay + TimeStep (m_currentTs)\<close>: the time stamp is converted to int64 and added to the
  int64 of the delay; the sum is converted back.\<close>

definition absolute_ts :: "int \<Rightarrow> u64 \<Rightarrow> u64 option" where
  "absolute_ts delay ts =
     (let t = delay + sint ts
      in if - (2 ^ 63) \<le> t \<and> t < 2 ^ 63 then Some (word_of_int t) else None)"

text \<open>The common part: build the event, count it, and insert it.\<close>

definition sim_insert :: "'s scheduler_ops \<Rightarrow> addr \<Rightarrow> u64 \<Rightarrow> u32 \<Rightarrow> 's simulator
    \<Rightarrow> (EventKey \<times> 's simulator) option" where
  "sim_insert ops a ts context s =
     (let ev = \<lparr>impl = a, key = \<lparr>m_ts = ts, m_uid = sim_uid s, m_context = context\<rparr>\<rparr>
      in if m_unscheduledEvents s < 2 ^ 31 - 1 then do {
           events \<leftarrow> Insert ops ev (m_events s);
           Some (key ev, s\<lparr>m_events := events, sim_uid := sim_uid s + 1,
                           m_unscheduledEvents := m_unscheduledEvents s + 1\<rparr>)
         } else None)"

definition sim_Schedule :: "'s scheduler_ops \<Rightarrow> int \<Rightarrow> addr \<Rightarrow> 's simulator
    \<Rightarrow> (EventId \<times> 's simulator) option" where
  "sim_Schedule ops delay a s =
     (if delay < 0 then None
      else do {
        ts \<leftarrow> absolute_ts delay (m_currentTs s);
        (k, s') \<leftarrow> sim_insert ops a ts (m_currentContext s) s;
        Some (\<lparr>m_eventImpl = a, id_ts = m_ts k, id_context = m_context k, id_uid = m_uid k\<rparr>, s')
      })"

text \<open>ScheduleWithContext, called by the main thread or by another thread. The section under the
  mutex is one step.\<close>

definition sim_ScheduleWithContext :: "'s scheduler_ops \<Rightarrow> bool \<Rightarrow> u32 \<Rightarrow> int \<Rightarrow> addr \<Rightarrow> 's simulator
    \<Rightarrow> 's simulator option" where
  "sim_ScheduleWithContext ops main context delay a s =
     (if main then do {
        ts \<leftarrow> absolute_ts delay (m_currentTs s);
        (k, s') \<leftarrow> sim_insert ops a ts context s;
        Some s'
      }
      else Some (s\<lparr>m_eventsWithContext := m_eventsWithContext s @
                    [\<lparr>ewc_context = context, timestamp = word_of_int delay, event = a\<rparr>],
                  m_eventsWithContextEmpty := False\<rparr>))"

definition sim_ScheduleNow :: "'s scheduler_ops \<Rightarrow> addr \<Rightarrow> 's simulator
    \<Rightarrow> (EventId \<times> 's simulator) option" where
  "sim_ScheduleNow ops a s = sim_Schedule ops 0 a s"

definition sim_ScheduleDestroy :: "addr \<Rightarrow> 's simulator \<Rightarrow> EventId \<times> 's simulator" where
  "sim_ScheduleDestroy a s =
     (let i = \<lparr>m_eventImpl = a, id_ts = m_currentTs s, id_context = 0xffffffff, id_uid = 2\<rparr>
      in (i, s\<lparr>m_destroyEvents := m_destroyEvents s @ [i], sim_uid := sim_uid s + 1\<rparr>))"

definition sim_Stop :: "'s simulator \<Rightarrow> 's simulator" where
  "sim_Stop s = s\<lparr>m_stop := True\<rparr>"

section \<open>Event identifiers\<close>

definition sim_IsExpired :: "'s simulator \<Rightarrow> EventId \<Rightarrow> bool" where
  "sim_IsExpired s i =
     (if id_uid i = uid_DESTROY
      then (if m_eventImpl i = nullptr \<or> m_cancel s (m_eventImpl i) then True
            else \<not> list_ex (\<lambda>j. eventid_eq j i) (m_destroyEvents s))
      else m_eventImpl i = nullptr \<or> id_ts i < m_currentTs s \<or>
           (id_ts i = m_currentTs s \<and> id_uid i \<le> m_currentUid s) \<or> m_cancel s (m_eventImpl i))"

definition EventImpl_Cancel :: "addr \<Rightarrow> 's simulator \<Rightarrow> 's simulator" where
  "EventImpl_Cancel a s = s\<lparr>m_cancel := (m_cancel s)(a := True)\<rparr>"

definition sim_Cancel :: "EventId \<Rightarrow> 's simulator \<Rightarrow> 's simulator" where
  "sim_Cancel i s = (if \<not> sim_IsExpired s i then EventImpl_Cancel (m_eventImpl i) s else s)"

definition event_of_id :: "EventId \<Rightarrow> Event" where
  "event_of_id i = \<lparr>impl = m_eventImpl i, key = \<lparr>m_ts = id_ts i, m_uid = id_uid i, m_context = id_context i\<rparr>\<rparr>"

definition sim_Remove :: "'s scheduler_ops \<Rightarrow> EventId \<Rightarrow> 's simulator \<Rightarrow> 's simulator option" where
  "sim_Remove ops i s =
     (if id_uid i = uid_DESTROY
      then Some (s\<lparr>m_destroyEvents :=
             (case list_erase_first (\<lambda>j. eventid_eq j i) (m_destroyEvents s) of
                None \<Rightarrow> m_destroyEvents s | Some (_, rest) \<Rightarrow> rest)\<rparr>)
      else if sim_IsExpired s i then Some s
      else do {
        events \<leftarrow> Remove ops (event_of_id i) (m_events s);
        let s1 = EventImpl_Cancel (m_eventImpl i) (s\<lparr>m_events := events\<rparr>);
        Some (s1\<lparr>m_unscheduledEvents := m_unscheduledEvents s1 - 1\<rparr>)
      })"

text \<open>GetDelayLeft: a 64-bit difference read as a signed number of time steps.\<close>

definition sim_GetDelayLeft :: "'s simulator \<Rightarrow> EventId \<Rightarrow> int" where
  "sim_GetDelayLeft s i = (if sim_IsExpired s i then 0 else sint (id_ts i - m_currentTs s))"

section \<open>The event loop\<close>

definition EventImpl_Invoke :: "(addr \<Rightarrow> 's simulator \<Rightarrow> 's simulator option) \<Rightarrow> addr \<Rightarrow> 's simulator
    \<Rightarrow> 's simulator option" where
  "EventImpl_Invoke notify a s = (if \<not> m_cancel s a then notify a s else Some s)"

fun sim_enqueue :: "'s scheduler_ops \<Rightarrow> EventWithContext list \<Rightarrow> 's simulator \<Rightarrow> 's simulator option" where
  "sim_enqueue ops [] s = Some s"
| "sim_enqueue ops (e # es) s = do {
     (k, s') \<leftarrow> sim_insert ops (event e) (m_currentTs s + timestamp e) (ewc_context e) s;
     sim_enqueue ops es s'
   }"

definition sim_ProcessEventsWithContext :: "'s scheduler_ops \<Rightarrow> 's simulator \<Rightarrow> 's simulator option" where
  "sim_ProcessEventsWithContext ops s =
     (if m_eventsWithContextEmpty s then Some s
      else sim_enqueue ops (m_eventsWithContext s)
             (s\<lparr>m_eventsWithContext := [], m_eventsWithContextEmpty := True\<rparr>))"

text \<open>ProcessOneEvent, with the identifier that it passes to PreEventHook.\<close>

definition sim_ProcessOneEvent :: "'s scheduler_ops \<Rightarrow> (addr \<Rightarrow> 's simulator \<Rightarrow> 's simulator option)
    \<Rightarrow> 's simulator \<Rightarrow> (EventId \<times> 's simulator) option" where
  "sim_ProcessOneEvent ops notify s = do {
     (next, events) \<leftarrow> RemoveNext ops (m_events s);
     let hook = \<lparr>m_eventImpl = impl next, id_ts = m_ts (key next), id_context = m_context (key next),
                 id_uid = m_uid (key next)\<rparr>;
     if m_ts (key next) < m_currentTs s then None
     else do {
       s1 \<leftarrow> EventImpl_Invoke notify (impl next)
              (s\<lparr>m_events := events, m_unscheduledEvents := m_unscheduledEvents s - 1,
                m_eventCount := m_eventCount s + 1, m_currentTs := m_ts (key next),
                m_currentContext := m_context (key next), m_currentUid := m_uid (key next)\<rparr>);
       s2 \<leftarrow> sim_ProcessEventsWithContext ops s1;
       Some (hook, s2)
     }
   }"

definition sim_IsFinished :: "'s scheduler_ops \<Rightarrow> 's simulator \<Rightarrow> bool" where
  "sim_IsFinished ops s \<longleftrightarrow> IsEmpty ops (m_events s) \<or> m_stop s"

text \<open>The loop of Run, for at most \<open>n\<close> events; it returns the identifiers of the processed
  events in order.\<close>

fun sim_loop :: "'s scheduler_ops \<Rightarrow> (addr \<Rightarrow> 's simulator \<Rightarrow> 's simulator option) \<Rightarrow> nat \<Rightarrow> 's simulator
    \<Rightarrow> (EventId list \<times> 's simulator) option" where
  "sim_loop ops notify 0 s = (if sim_IsFinished ops s then Some ([], s) else None)"
| "sim_loop ops notify (Suc n) s =
     (if sim_IsFinished ops s then Some ([], s)
      else do {
        (i, s1) \<leftarrow> sim_ProcessOneEvent ops notify s;
        (is, s2) \<leftarrow> sim_loop ops notify n s1;
        Some (i # is, s2)
      })"

definition sim_Run :: "'s scheduler_ops \<Rightarrow> (addr \<Rightarrow> 's simulator \<Rightarrow> 's simulator option) \<Rightarrow> nat \<Rightarrow> 's simulator
    \<Rightarrow> (EventId list \<times> 's simulator) option" where
  "sim_Run ops notify n s = do {
     s1 \<leftarrow> sim_ProcessEventsWithContext ops s;
     (is, s2) \<leftarrow> sim_loop ops notify n (s1\<lparr>m_stop := False\<rparr>);
     if \<not> IsEmpty ops (m_events s2) \<or> m_unscheduledEvents s2 = 0 then Some (is, s2) else None
   }"

text \<open>Destroy, for at most \<open>n\<close> rounds: the handlers may schedule further destroy events. The
  addresses of the events that were invoked are returned in order.\<close>

fun sim_Destroy :: "(addr \<Rightarrow> 's simulator \<Rightarrow> 's simulator option) \<Rightarrow> nat \<Rightarrow> 's simulator
    \<Rightarrow> (addr list \<times> 's simulator) option" where
  "sim_Destroy notify n s =
     (case m_destroyEvents s of
        [] \<Rightarrow> Some ([], s)
      | i # is \<Rightarrow>
          (case n of
             0 \<Rightarrow> None
           | Suc n' \<Rightarrow>
               (let ev = m_eventImpl i; s1 = s\<lparr>m_destroyEvents := is\<rparr>
                in if \<not> m_cancel s ev then do {
                     s2 \<leftarrow> EventImpl_Invoke notify ev s1;
                     (evs, s3) \<leftarrow> sim_Destroy notify n' s2;
                     Some (ev # evs, s3)
                   } else sim_Destroy notify n' s1)))"

text \<open>SetScheduler: the pending events move from the old scheduler to the new one.\<close>

fun move_events :: "'s scheduler_ops \<Rightarrow> 't scheduler_ops \<Rightarrow> nat \<Rightarrow> 's \<Rightarrow> 't \<Rightarrow> 't option" where
  "move_events ops ops' n s t =
     (if IsEmpty ops s then Some t
      else case n of
        0 \<Rightarrow> None
      | Suc n' \<Rightarrow> do {
          (next, s') \<leftarrow> RemoveNext ops s;
          t' \<leftarrow> Insert ops' next t;
          move_events ops ops' n' s' t'
        })"

definition sim_SetScheduler :: "'s scheduler_ops \<Rightarrow> 't scheduler_ops \<Rightarrow> 't \<Rightarrow> nat \<Rightarrow> 's simulator
    \<Rightarrow> 't simulator option" where
  "sim_SetScheduler ops ops' scheduler n s = do {
     events \<leftarrow> move_events ops ops' n (m_events s) scheduler;
     Some \<lparr>m_events = events, m_eventsWithContext = m_eventsWithContext s,
       m_eventsWithContextEmpty = m_eventsWithContextEmpty s, m_destroyEvents = m_destroyEvents s,
       m_stop = m_stop s, sim_uid = sim_uid s, m_currentUid = m_currentUid s,
       m_currentTs = m_currentTs s, m_currentContext = m_currentContext s,
       m_eventCount = m_eventCount s, m_unscheduledEvents = m_unscheduledEvents s,
       m_cancel = m_cancel s\<rparr>
   }"

text \<open>DoDispose: the events handed over are scheduled, then all pending events are dropped.\<close>

definition sim_DoDispose :: "'s scheduler_ops \<Rightarrow> nat \<Rightarrow> 's simulator \<Rightarrow> Event list option" where
  "sim_DoDispose ops n s = do {
     s1 \<leftarrow> sim_ProcessEventsWithContext ops s;
     drain ops n (m_events s1)
   }"

section \<open>Calls that user code makes\<close>

datatype sim_call =
    Schedule int addr
  | ScheduleNow addr
  | ScheduleWithContext bool u32 int addr
  | ScheduleDestroy addr
  | RemoveId EventId
  | CancelId EventId
  | Stop

fun sim_do :: "'s scheduler_ops \<Rightarrow> sim_call \<Rightarrow> 's simulator \<Rightarrow> 's simulator option" where
  "sim_do ops (Schedule delay a) s = map_option snd (sim_Schedule ops delay a s)"
| "sim_do ops (ScheduleNow a) s = map_option snd (sim_ScheduleNow ops a s)"
| "sim_do ops (ScheduleWithContext main context delay a) s = sim_ScheduleWithContext ops main context delay a s"
| "sim_do ops (ScheduleDestroy a) s = Some (snd (sim_ScheduleDestroy a s))"
| "sim_do ops (RemoveId i) s = sim_Remove ops i s"
| "sim_do ops (CancelId i) s = Some (sim_Cancel i s)"
| "sim_do ops Stop s = Some (sim_Stop s)"

fun sim_do_all :: "'s scheduler_ops \<Rightarrow> sim_call list \<Rightarrow> 's simulator \<Rightarrow> 's simulator option" where
  "sim_do_all ops [] s = Some s"
| "sim_do_all ops (c # cs) s = do { s' \<leftarrow> sim_do ops c s; sim_do_all ops cs s' }"

end
