(* ===== verification/Simulator_Correct.thy ===== *)
theory Simulator_Correct
  imports Simulator_Impl
begin

text \<open>
  The simulator over any scheduler that keeps the contract \<open>removable_queue\<close>: the invariant of
  its state, what every call of user code keeps of it, and what Run does. The properties are
  stated for the MapScheduler (the default) and the CalendarScheduler.
\<close>

section \<open>The invariant\<close>

text \<open>
  Every pending event is after the current position (time stamp and uid), has a uid that was
  given out, and the counters agree with the queue. \<open>h\<close> is the largest time stamp. The events
  handed over by other threads still find a free uid and a free place.
\<close>

definition sim_inv :: "('s \<Rightarrow> bool) \<Rightarrow> ('s \<Rightarrow> Event set) \<Rightarrow> ('s \<Rightarrow> u64) \<Rightarrow> u64 \<Rightarrow> 's simulator \<Rightarrow> bool" where
  "sim_inv I E F h s \<longleftrightarrow>
     I (m_events s) \<and> F (m_events s) \<le> m_currentTs s \<and> m_currentTs s \<le> h \<and>
     (\<forall>e \<in> E (m_events s). Rank (m_currentTs s) (m_currentUid s) < ev_rank e \<and> ev_ts e \<le> h \<and>
        uid_VALID \<le> ev_uid e \<and> ev_uid e < sim_uid s) \<and>
     m_currentUid s < sim_uid s \<and> uid_VALID \<le> sim_uid s \<and>
     m_unscheduledEvents s = int (card (E (m_events s))) \<and>
     (m_eventsWithContextEmpty s \<longleftrightarrow> m_eventsWithContext s = []) \<and>
     (\<forall>x \<in> set (m_eventsWithContext s). unat (m_currentTs s) + unat (timestamp x) \<le> unat h) \<and>
     unat (sim_uid s) + length (m_eventsWithContext s) < 2 ^ 32 \<and>
     card (E (m_events s)) + length (m_eventsWithContext s) < 2 ^ 31"

text \<open>Room for one more event.\<close>

definition sim_room :: "('s \<Rightarrow> Event set) \<Rightarrow> 's simulator \<Rightarrow> bool" where
  "sim_room E s \<longleftrightarrow> unat (sim_uid s) + length (m_eventsWithContext s) + 1 < 2 ^ 32 \<and>
     card (E (m_events s)) + length (m_eventsWithContext s) + 1 < 2 ^ 31"

text \<open>An identifier is accurate when it is expired or its event is pending.\<close>

definition id_accurate :: "('s \<Rightarrow> Event set) \<Rightarrow> 's simulator \<Rightarrow> EventId \<Rightarrow> bool" where
  "id_accurate E s i \<longleftrightarrow> id_uid i = uid_DESTROY \<or> sim_IsExpired s i \<or> event_of_id i \<in> E (m_events s)"

text \<open>What the documentation of the calls asks of their caller: no negative delays, no time
  beyond \<open>h\<close>, and identifiers that come from Schedule.\<close>

fun sim_legal :: "('s \<Rightarrow> Event set) \<Rightarrow> u64 \<Rightarrow> sim_call \<Rightarrow> 's simulator \<Rightarrow> bool" where
  "sim_legal E h (Schedule delay a) s \<longleftrightarrow> sim_room E s \<and> 0 \<le> delay \<and> unat (m_currentTs s) + nat delay \<le> unat h"
| "sim_legal E h (ScheduleNow a) s \<longleftrightarrow> sim_room E s"
| "sim_legal E h (ScheduleWithContext main context delay a) s \<longleftrightarrow>
     sim_room E s \<and> 0 \<le> delay \<and> unat (m_currentTs s) + nat delay \<le> unat h"
| "sim_legal E h (ScheduleDestroy a) s \<longleftrightarrow> sim_room E s"
| "sim_legal E h (RemoveId i) s \<longleftrightarrow> id_accurate E s i"
| "sim_legal E h (CancelId i) s \<longleftrightarrow> True"
| "sim_legal E h Stop s \<longleftrightarrow> True"

fun sim_legal_all :: "'s scheduler_ops \<Rightarrow> ('s \<Rightarrow> Event set) \<Rightarrow> u64 \<Rightarrow> sim_call list \<Rightarrow> 's simulator \<Rightarrow> bool" where
  "sim_legal_all ops E h [] s = True"
| "sim_legal_all ops E h (c # cs) s \<longleftrightarrow> sim_legal E h c s \<and>
     (case sim_do ops c s of None \<Rightarrow> False | Some s' \<Rightarrow> sim_legal_all ops E h cs s')"

text \<open>A handler is any state-dependent sequence of legal calls.\<close>

definition handlers_legal :: "'s scheduler_ops \<Rightarrow> ('s \<Rightarrow> bool) \<Rightarrow> ('s \<Rightarrow> Event set) \<Rightarrow> ('s \<Rightarrow> u64) \<Rightarrow> u64
    \<Rightarrow> (addr \<Rightarrow> 's simulator \<Rightarrow> 's simulator option) \<Rightarrow> bool" where
  "handlers_legal ops I E F h notify \<longleftrightarrow>
     (\<forall>a s. sim_inv I E F h s \<longrightarrow> (\<exists>cs. sim_legal_all ops E h cs s \<and> notify a s = sim_do_all ops cs s))"

text \<open>The position of a simulator and of an identifier in the order of events.\<close>

definition sim_now :: "'s simulator \<Rightarrow> rank" where
  "sim_now s = Rank (m_currentTs s) (m_currentUid s)"

definition id_rank :: "EventId \<Rightarrow> rank" where
  "id_rank i = Rank (id_ts i) (id_uid i)"

text \<open>How many events can still be processed before the uids run out.\<close>

definition sim_budget :: "('s \<Rightarrow> Event set) \<Rightarrow> 's simulator \<Rightarrow> nat" where
  "sim_budget E s = card (E (m_events s)) + (2 ^ 32 - unat (sim_uid s))"

text \<open>The relation between a state and a later one: the position does not go back, a cancelled
  event stays cancelled, and a pending event stays pending, is cancelled, or is passed.\<close>

definition sim_later :: "('s \<Rightarrow> Event set) \<Rightarrow> 's simulator \<Rightarrow> 's simulator \<Rightarrow> bool" where
  "sim_later E s s' \<longleftrightarrow> sim_now s \<le> sim_now s' \<and>
     (\<forall>a. m_cancel s a \<longrightarrow> m_cancel s' a) \<and>
     (\<forall>e \<in> E (m_events s). e \<in> E (m_events s') \<or> m_cancel s' (impl e) \<or> ev_rank e \<le> sim_now s') \<and>
     sim_budget E s' \<le> sim_budget E s"

lemma sim_later_refl [simp]: "sim_later E s s"
  by (simp add: sim_later_def)

lemma sim_later_trans: "sim_later E s s' \<Longrightarrow> sim_later E s' s'' \<Longrightarrow> sim_later E s s''"
  unfolding sim_later_def by (meson order_trans)

lemma event_of_id_rank [simp]: "ev_rank (event_of_id i) = id_rank i" "impl (event_of_id i) = m_eventImpl i"
  by (simp_all add: event_of_id_def id_rank_def key_rank_def)

lemma IsExpired_rank:
  "id_uid i \<noteq> uid_DESTROY \<Longrightarrow>
   sim_IsExpired s i \<longleftrightarrow> m_eventImpl i = nullptr \<or> id_rank i \<le> sim_now s \<or> m_cancel s (m_eventImpl i)"
  by (auto simp: sim_IsExpired_def id_rank_def sim_now_def less_eq_rank_def)

lemma id_accurate_later:
  assumes "id_accurate E s i" and "sim_later E s s'"
  shows "id_accurate E s' i"
proof (cases "id_uid i = uid_DESTROY")
  case False
  with assms show ?thesis
    using event_of_id_rank [of i] unfolding id_accurate_def sim_later_def IsExpired_rank [OF False]
    by (metis order_trans)
qed (simp add: id_accurate_def)

lemma absolute_ts_sum:
  assumes "0 \<le> delay" and "unat ts + nat delay \<le> unat h" and "unat h < 2 ^ 63"
  shows "\<exists>t. absolute_ts delay ts = Some t \<and> unat t = unat ts + nat delay"
proof -
  have lt: "unat ts + nat delay < 2 ^ 63" using assms(2,3) by simp
  have "uint ts < 2 ^ 63" using iffD2 [OF of_nat_less_iff [where 'a = int], of "unat ts" "2 ^ 63"] lt by simp
  then have ts: "sint ts = uint ts"
    unfolding sint_uint using order_trans [OF _ uint_ge_0, of "- (2 ^ 63)" ts]
    by (subst signed_take_bit_int_eq_self) auto
  have sum: "delay + uint ts = int (unat ts + nat delay)" using assms(1) by simp
  have "int (unat ts + nat delay) < 2 ^ 63" using iffD2 [OF of_nat_less_iff [where 'a = int], OF lt] by simp
  moreover have "unat (of_nat (unat ts + nat delay) :: u64) = unat ts + nat delay"
    by (rule unat_of_nat_less) (use lt in simp)
  ultimately show ?thesis
    unfolding absolute_ts_def Let_def ts sum by (auto simp del: of_nat_add)
qed

section \<open>The loop over a scheduler with the contract\<close>

locale event_loop = removable_queue +
  fixes h :: u64
  assumes h_horizon: "h \<le> horizon"
    and h_signed: "unat h < 2 ^ 63"
begin

abbreviation pend where "pend s \<equiv> events (m_events s)"
abbreviation inv where "inv \<equiv> sim_inv invar events floor_ts h"

lemma inv_now: "inv s \<Longrightarrow> e \<in> pend s \<Longrightarrow> sim_now s < ev_rank e"
  by (simp add: sim_inv_def sim_now_def)

lemma insert_inv:
  assumes "inv s" and "sim_room events s" and "m_currentTs s \<le> ts" and "ts \<le> h"
  shows "\<exists>q s'. sim_insert ops a ts c s = Some (\<lparr>m_ts = ts, m_uid = sim_uid s, m_context = c\<rparr>, s') \<and> inv s' \<and>
    s' = s\<lparr>m_events := q, sim_uid := sim_uid s + 1, m_unscheduledEvents := m_unscheduledEvents s + 1\<rparr> \<and>
    pend s' = insert \<lparr>impl = a, key = \<lparr>m_ts = ts, m_uid = sim_uid s, m_context = c\<rparr>\<rparr> (pend s) \<and>
    sim_budget events s' = sim_budget events s"
proof -
  let ?k = "\<lparr>m_ts = ts, m_uid = sim_uid s, m_context = c\<rparr>"
  let ?e = "\<lparr>impl = a, key = ?k\<rparr>"
  note i = assms(1) [unfolded sim_inv_def]
  have inv: "invar (m_events s)" using i by blast
  have fresh: "ev_uid ?e \<notin> ev_uid ` pend s" using i by auto
  have fl: "floor_ts (m_events s) \<le> ev_ts ?e" using i assms(3) by (auto intro: order_trans)
  have hz: "ev_ts ?e \<le> horizon" using assms(4) h_horizon by (auto intro: order_trans)
  have cd: "card (pend s) + 1 < 2 ^ 32" using assms(2) by (simp add: sim_room_def)
  obtain q where q: "Insert ops ?e (m_events s) = Some q" "invar q" "events q = insert ?e (pend s)"
    "floor_ts q = floor_ts (m_events s)" using Insert_law [OF inv fresh fl hz cd] by blast
  define s' where "s' = s\<lparr>m_events := q, sim_uid := sim_uid s + 1, m_unscheduledEvents := m_unscheduledEvents s + 1\<rparr>"
  have "?e \<notin> pend s" using fresh imageI [of ?e "pend s" ev_uid] by auto
  then have card: "card (pend s') = card (pend s) + 1" using finite_events [OF inv] q(3) by (simp add: s'_def)
  have u: "unat (sim_uid s + 1) = unat (sim_uid s) + 1" using assms(2) by (simp add: sim_room_def unat_Suc_simple)
  have less: "x < sim_uid s \<Longrightarrow> x < sim_uid s + 1" "sim_uid s < sim_uid s + 1" for x
    using u by (simp_all add: word_less_nat_alt)
  have cur: "m_currentUid s < sim_uid s" "uid_VALID \<le> sim_uid s" using i by blast+
  then have rk: "Rank (m_currentTs s) (m_currentUid s) < key_rank ?k"
    using assms(3) by (auto simp: key_rank_def less_rank_def)
  have "inv s'" unfolding sim_inv_def
  proof (intro conjI)
    show "\<forall>e \<in> pend s'. Rank (m_currentTs s') (m_currentUid s') < ev_rank e \<and> ev_ts e \<le> h \<and> uid_VALID \<le> ev_uid e \<and> ev_uid e < sim_uid s'"
      using i rk assms(4) cur less by (simp add: s'_def q(3))
    show "m_unscheduledEvents s' = int (card (pend s'))" using i card by (simp add: s'_def)
    show "unat (sim_uid s') + length (m_eventsWithContext s') < 2 ^ 32"
      using assms(2) u by (simp add: s'_def sim_room_def)
    show "card (pend s') + length (m_eventsWithContext s') < 2 ^ 31"
      using assms(2) card by (simp add: s'_def sim_room_def)
    show "uid_VALID \<le> sim_uid s'" using cur(2) less(2) by (simp add: s'_def)
  qed (use i q less in \<open>simp_all add: s'_def\<close>)
  moreover have "m_unscheduledEvents s < 2 ^ 31 - 1" using i assms(2) by (simp add: sim_room_def)
  then have "sim_insert ops a ts c s = Some (?k, s')" using q(1) by (simp add: sim_insert_def s'_def)
  moreover have "sim_budget events s' = sim_budget events s"
    using card u assms(2) by (auto simp: sim_budget_def sim_room_def s'_def)
  ultimately show ?thesis using q(3) by (auto simp: s'_def)
qed

text \<open>What scheduling leaves as it was.\<close>

abbreviation same_now where
  "same_now s s' \<equiv> sim_now s' = sim_now s \<and> m_currentTs s' = m_currentTs s \<and> m_cancel s' = m_cancel s \<and> m_stop s' = m_stop s"

lemma enqueue_inv:
  assumes "inv s" and "m_eventsWithContext s = []"
    and "unat (sim_uid s) + length xs < 2 ^ 32" and "card (pend s) + length xs < 2 ^ 31"
    and "\<forall>x \<in> set xs. unat (m_currentTs s) + unat (timestamp x) \<le> unat h"
  shows "\<exists>s'. sim_enqueue ops xs s = Some s' \<and> inv s' \<and> m_eventsWithContext s' = [] \<and> pend s \<subseteq> pend s' \<and>
    same_now s s' \<and> sim_budget events s' = sim_budget events s"
  using assms
proof (induction xs arbitrary: s)
  case Nil
  then show ?case by simp
next
  case (Cons x xs)
  let ?t = "m_currentTs s + timestamp x"
  have sum: "unat (m_currentTs s) + unat (timestamp x) \<le> unat h" using Cons.prems(5) by simp
  then have t: "unat ?t = unat (m_currentTs s) + unat (timestamp x)" using h_signed by (intro unat_plus_simple) simp
  have tle: "m_currentTs s \<le> ?t" "?t \<le> h" using sum t by (simp_all add: word_le_nat_alt)
  have room: "sim_room events s" using Cons.prems by (simp add: sim_room_def)
  define ev where "ev = \<lparr>impl = event x, key = \<lparr>m_ts = ?t, m_uid = sim_uid s, m_context = ewc_context x\<rparr>\<rparr>"
  obtain q s1 where s1: "sim_insert ops (event x) ?t (ewc_context x) s = Some (key ev, s1)" "inv s1"
    "s1 = s\<lparr>m_events := q, sim_uid := sim_uid s + 1, m_unscheduledEvents := m_unscheduledEvents s + 1\<rparr>"
    "pend s1 = insert ev (pend s)" "sim_budget events s1 = sim_budget events s"
    using insert_inv [OF Cons.prems(1) room tle, of "event x" "ewc_context x"] unfolding ev_def by (simp, blast)
  have cd: "card (pend s1) \<le> Suc (card (pend s))"
    using Cons.prems(1) finite_events unfolding s1(4) by (auto simp: sim_inv_def card_insert_if)
  have f: "m_eventsWithContext s1 = []" "m_currentTs s1 = m_currentTs s" "same_now s s1" "sim_uid s1 = sim_uid s + 1"
    using s1(3) Cons.prems(2) by (simp_all add: sim_now_def)
  have "unat (sim_uid s1) = unat (sim_uid s) + 1" using Cons.prems(3) f(4) by (simp add: unat_Suc_simple)
  then have b: "unat (sim_uid s1) + length xs < 2 ^ 32" "card (pend s1) + length xs < 2 ^ 31"
    using Cons.prems(3,4) cd by simp_all
  have "\<forall>y \<in> set xs. unat (m_currentTs s1) + unat (timestamp y) \<le> unat h" using Cons.prems(5) f(2) by simp
  from Cons.IH [OF s1(2) f(1) b this] obtain s2 where "sim_enqueue ops xs s1 = Some s2" "inv s2"
    "m_eventsWithContext s2 = []" "pend s1 \<subseteq> pend s2" "same_now s1 s2" "sim_budget events s2 = sim_budget events s1"
    by blast
  with s1(1,4,5) f(3) show ?case by auto
qed

lemma process_foreign_inv:
  assumes "inv s"
  shows "\<exists>s'. sim_ProcessEventsWithContext ops s = Some s' \<and> inv s' \<and> m_eventsWithContext s' = [] \<and> pend s \<subseteq> pend s' \<and>
    same_now s s' \<and> sim_budget events s' = sim_budget events s"
proof (cases "m_eventsWithContextEmpty s")
  case True
  with assms show ?thesis by (simp add: sim_ProcessEventsWithContext_def sim_inv_def)
next
  case False
  let ?s = "s\<lparr>m_eventsWithContext := [], m_eventsWithContextEmpty := True\<rparr>"
  note i = assms [unfolded sim_inv_def]
  have inv: "inv ?s" using assms by (simp add: sim_inv_def)
  have "\<exists>s'. sim_enqueue ops (m_eventsWithContext s) ?s = Some s' \<and> inv s' \<and> m_eventsWithContext s' = [] \<and>
    pend ?s \<subseteq> pend s' \<and> same_now ?s s' \<and> sim_budget events s' = sim_budget events ?s"
    using i by (intro enqueue_inv [OF inv]) simp_all
  with False show ?thesis by (simp add: sim_ProcessEventsWithContext_def sim_now_def sim_budget_def)
qed


lemma later_same:
  assumes "pend s \<subseteq> pend s'" and "same_now s s'" and "sim_budget events s' = sim_budget events s"
  shows "sim_later events s s'"
  using assms by (auto simp: sim_later_def)

lemma schedule_inv:
  assumes "inv s" and "sim_room events s" and "0 \<le> delay" and "unat (m_currentTs s) + nat delay \<le> unat h"
  shows "\<exists>ts k s'. absolute_ts delay (m_currentTs s) = Some ts \<and> sim_insert ops a ts c s = Some (k, s') \<and>
    inv s' \<and> sim_later events s s' \<and> same_now s s' \<and> k = \<lparr>m_ts = ts, m_uid = sim_uid s, m_context = c\<rparr> \<and>
    unat ts = unat (m_currentTs s) + nat delay \<and> pend s' = insert \<lparr>impl = a, key = k\<rparr> (pend s)"
proof -
  obtain ts where ts: "absolute_ts delay (m_currentTs s) = Some ts" "unat ts = unat (m_currentTs s) + nat delay"
    using absolute_ts_sum [OF assms(3,4) h_signed] by blast
  have le: "m_currentTs s \<le> ts" "ts \<le> h" using ts(2) assms(3,4) by (simp_all add: word_le_nat_alt)
  define k where "k = \<lparr>m_ts = ts, m_uid = sim_uid s, m_context = c\<rparr>"
  obtain q s' where s': "sim_insert ops a ts c s = Some (k, s')" "inv s'"
    "s' = s\<lparr>m_events := q, sim_uid := sim_uid s + 1, m_unscheduledEvents := m_unscheduledEvents s + 1\<rparr>"
    "pend s' = insert \<lparr>impl = a, key = k\<rparr> (pend s)" "sim_budget events s' = sim_budget events s"
    using insert_inv [OF assms(1,2) le, of a c] unfolding k_def by blast
  have n: "same_now s s'" by (simp add: s'(3) sim_now_def)
  have "sim_later events s s'" using s'(4,5) n by (intro later_same) auto
  with ts s'(1,2,4) n k_def show ?thesis by blast
qed

text \<open>Changes that touch neither the queue nor the position.\<close>

lemma inv_cong:
  assumes "inv s" and "m_events s' = m_events s" "m_currentTs s' = m_currentTs s" "m_currentUid s' = m_currentUid s"
    "sim_uid s' = sim_uid s" "m_unscheduledEvents s' = m_unscheduledEvents s"
    "m_eventsWithContext s' = m_eventsWithContext s" "m_eventsWithContextEmpty s' = m_eventsWithContextEmpty s"
  shows "inv s'"
  using assms by (simp add: sim_inv_def)

lemma later_cong:
  assumes "m_events s' = m_events s" "m_currentTs s' = m_currentTs s" "m_currentUid s' = m_currentUid s"
    "sim_uid s \<le> sim_uid s'" "\<And>a. m_cancel s a \<Longrightarrow> m_cancel s' a"
  shows "sim_later events s s'"
  using assms by (auto simp: sim_later_def sim_now_def sim_budget_def word_le_nat_alt)

lemma remove_inv:
  assumes "inv s" and "id_accurate events s i" and nd: "id_uid i \<noteq> uid_DESTROY" and ne: "\<not> sim_IsExpired s i"
  shows "\<exists>s'. sim_Remove ops i s = Some s' \<and> inv s' \<and> sim_later events s s' \<and> sim_now s' = sim_now s \<and>
    pend s' = pend s - {event_of_id i} \<and> m_cancel s' = (m_cancel s)(m_eventImpl i := True)"
proof -
  let ?e = "event_of_id i"
  note i = assms(1) [unfolded sim_inv_def]
  have e: "?e \<in> pend s" using assms(2) nd ne by (auto simp: id_accurate_def)
  have inv: "invar (m_events s)" using i by blast
  obtain q where q: "Remove ops ?e (m_events s) = Some q" "invar q" "events q = pend s - {?e}"
    "floor_ts q = floor_ts (m_events s)" using Remove_law [OF inv e] by blast
  define s' where "s' = s\<lparr>m_events := q, m_cancel := (m_cancel s)(m_eventImpl i := True),
    m_unscheduledEvents := m_unscheduledEvents s - 1\<rparr>"
  have card: "card (pend s) = card (events q) + 1"
    using card_Suc_Diff1 [OF finite_events [OF inv] e] q(3) by simp
  have "inv s'" unfolding sim_inv_def
  proof (intro conjI)
    show "m_unscheduledEvents s' = int (card (pend s'))" using i card by (simp add: s'_def)
    show "card (pend s') + length (m_eventsWithContext s') < 2 ^ 31" using i card by (simp add: s'_def)
  qed (use i q in \<open>simp_all add: s'_def\<close>)
  moreover have "sim_Remove ops i s = Some s'"
    using nd ne q(1) by (simp add: sim_Remove_def EventImpl_Cancel_def s'_def Let_def)
  moreover have "sim_later events s s'"
    using q(3) card by (auto simp: sim_later_def sim_now_def sim_budget_def s'_def)
  ultimately show ?thesis using q(3) by (auto simp: s'_def sim_now_def)
qed

lemma call_inv:
  assumes "inv s" and "sim_legal events h c s"
  shows "\<exists>s'. sim_do ops c s = Some s' \<and> inv s' \<and> sim_later events s s' \<and> sim_now s' = sim_now s"
proof (cases c)
  case (Schedule delay a)
  with assms schedule_inv [OF assms(1), of delay a "m_currentContext s"] show ?thesis
    by (auto simp: sim_Schedule_def)
next
  case (ScheduleNow a)
  have "m_currentTs s \<le> h" using assms(1) by (simp add: sim_inv_def)
  with ScheduleNow assms schedule_inv [OF assms(1), of 0 a "m_currentContext s"] show ?thesis
    by (auto simp: sim_ScheduleNow_def sim_Schedule_def word_le_nat_alt)
next
  case (ScheduleWithContext main cx delay a)
  show ?thesis
  proof (cases main)
    case True
    with ScheduleWithContext assms schedule_inv [OF assms(1), of delay a cx] show ?thesis
      by (auto simp: sim_ScheduleWithContext_def)
  next
    case False
    define s' where "s' = s\<lparr>m_eventsWithContext := m_eventsWithContext s @
      [\<lparr>ewc_context = cx, timestamp = word_of_int delay, event = a\<rparr>], m_eventsWithContextEmpty := False\<rparr>"
    have d: "0 \<le> delay" "unat (m_currentTs s) + nat delay \<le> unat h" and room: "sim_room events s"
      using assms(2) ScheduleWithContext by auto
    have "word_of_int delay = (of_nat (nat delay) :: u64)" using d(1) of_int_of_nat_eq [of "nat delay"] by simp
    moreover have "nat delay < 2 ^ 64" using d(2) h_signed by simp
    ultimately have "unat (word_of_int delay :: u64) = nat delay" by (simp add: unat_of_nat_less)
    then have "unat (m_currentTs s) + unat (word_of_int delay :: u64) \<le> unat h" using d(2) by simp
    then have "inv s'" using assms(1) room by (auto simp: sim_inv_def s'_def sim_room_def)
    moreover have "sim_later events s s'" by (rule later_cong) (simp_all add: s'_def)
    moreover have "sim_do ops c s = Some s'"
      using False ScheduleWithContext by (simp add: sim_ScheduleWithContext_def s'_def)
    ultimately show ?thesis by (simp add: s'_def sim_now_def)
  qed
next
  case (ScheduleDestroy a)
  define s' where "s' = snd (sim_ScheduleDestroy a s)"
  have u: "unat (sim_uid s + 1) = unat (sim_uid s) + 1"
    using assms(2) ScheduleDestroy by (simp add: sim_room_def unat_Suc_simple)
  then have le: "sim_uid s \<le> sim_uid s + 1" by (simp add: word_le_nat_alt)
  have "inv s'"
    using assms ScheduleDestroy u le
    by (auto simp: sim_inv_def s'_def sim_ScheduleDestroy_def Let_def sim_room_def dest: less_le_trans order_trans)
  moreover have "sim_later events s s'"
    using le by (intro later_cong) (simp_all add: s'_def sim_ScheduleDestroy_def Let_def)
  ultimately show ?thesis using ScheduleDestroy by (simp add: s'_def sim_now_def sim_ScheduleDestroy_def Let_def)
next
  case (RemoveId i)
  consider "id_uid i = uid_DESTROY" | "id_uid i \<noteq> uid_DESTROY" "sim_IsExpired s i"
    | "id_uid i \<noteq> uid_DESTROY" "\<not> sim_IsExpired s i" by blast
  then show ?thesis
  proof cases
    case 1
    with RemoveId assms(1) show ?thesis
      by (auto simp: sim_Remove_def sim_now_def intro!: inv_cong [OF assms(1)] later_cong)
  next
    case 2
    with RemoveId assms(1) show ?thesis by (simp add: sim_Remove_def)
  next
    case 3
    with RemoveId assms remove_inv [OF assms(1) _ 3] show ?thesis by auto
  qed
next
  case (CancelId i)
  with assms(1) show ?thesis
    by (auto simp: sim_Cancel_def EventImpl_Cancel_def sim_now_def intro!: inv_cong [OF assms(1)] later_cong)
next
  case Stop
  with assms(1) show ?thesis
    by (auto simp: sim_Stop_def sim_now_def intro!: inv_cong [OF assms(1)] later_cong)
qed

lemma calls_inv:
  assumes "inv s" and "sim_legal_all ops events h cs s"
  shows "\<exists>s'. sim_do_all ops cs s = Some s' \<and> inv s' \<and> sim_later events s s' \<and> sim_now s' = sim_now s"
  using assms
proof (induction cs arbitrary: s)
  case Nil
  then show ?case by simp
next
  case (Cons c cs)
  then obtain s1 where s1: "sim_do ops c s = Some s1" "inv s1" "sim_later events s s1" "sim_now s1 = sim_now s"
    using call_inv [OF Cons.prems(1), of c] by auto
  with Cons.IH [OF s1(2)] Cons.prems(2) show ?case by (auto intro: sim_later_trans)
qed


abbreviation legal_handlers where "legal_handlers \<equiv> handlers_legal ops invar events floor_ts h"

lemma invoke_inv:
  assumes "inv s" and "legal_handlers notify"
  shows "\<exists>s'. EventImpl_Invoke notify a s = Some s' \<and> inv s' \<and> sim_later events s s' \<and> sim_now s' = sim_now s"
proof (cases "m_cancel s a")
  case False
  obtain cs where "sim_legal_all ops events h cs s" "notify a s = sim_do_all ops cs s"
    using assms by (auto simp: handlers_legal_def)
  with calls_inv [OF assms(1)] False show ?thesis by (auto simp: EventImpl_Invoke_def)
qed (use assms(1) in \<open>simp add: EventImpl_Invoke_def\<close>)

text \<open>Taking the next event off the queue and moving the position to it.\<close>

lemma take_next_inv:
  assumes "inv s" and "m_eventsWithContext s = []" and "pend s \<noteq> {}"
  shows "\<exists>e q s1. RemoveNext ops (m_events s) = Some (e, q) \<and> e \<in> pend s \<and> \<not> ev_ts e < m_currentTs s \<and>
    sim_now s < ev_rank e \<and> inv s1 \<and> sim_now s1 = ev_rank e \<and> pend s1 = pend s - {e} \<and> m_cancel s1 = m_cancel s \<and>
    sim_budget events s = Suc (sim_budget events s1) \<and>
    s1 = s\<lparr>m_events := q, m_unscheduledEvents := m_unscheduledEvents s - 1, m_eventCount := m_eventCount s + 1,
      m_currentTs := m_ts (key e), m_currentContext := m_context (key e), m_currentUid := m_uid (key e)\<rparr>"
proof -
  note i = assms(1) [unfolded sim_inv_def]
  have inv: "invar (m_events s)" using i by blast
  obtain e q where q: "RemoveNext ops (m_events s) = Some (e, q)" "earliest (pend s) e" "invar q"
    "events q = pend s - {e}" "floor_ts q \<le> ev_ts e" using RemoveNext_law [OF inv assms(3)] by blast
  have e: "e \<in> pend s" using q(2) by (simp add: earliest_def)
  have less: "ev_rank e < ev_rank x" if "x \<in> events q" for x
    using that q(2,4) by (auto simp: earliest_def event_less_rank)
  have now: "sim_now s < ev_rank e" using inv_now [OF assms(1) e] .
  have ts: "\<not> ev_ts e < m_currentTs s" using now by (auto simp: sim_now_def key_rank_def less_rank_def)
  define s1 where "s1 = s\<lparr>m_events := q, m_unscheduledEvents := m_unscheduledEvents s - 1, m_eventCount := m_eventCount s + 1,
      m_currentTs := m_ts (key e), m_currentContext := m_context (key e), m_currentUid := m_uid (key e)\<rparr>"
  have card: "card (pend s) = card (events q) + 1"
    using card_Suc_Diff1 [OF finite_events [OF inv] e] q(4) by simp
  have "inv s1" unfolding sim_inv_def
  proof (intro conjI)
    show "\<forall>x \<in> pend s1. Rank (m_currentTs s1) (m_currentUid s1) < ev_rank x \<and> ev_ts x \<le> h \<and> uid_VALID \<le> ev_uid x \<and> ev_uid x < sim_uid s1"
      using i q(4) less by (auto simp: s1_def key_rank_def)
    show "m_unscheduledEvents s1 = int (card (pend s1))" using i card by (simp add: s1_def)
    show "card (pend s1) + length (m_eventsWithContext s1) < 2 ^ 31" using i card by (simp add: s1_def)
    show "m_currentUid s1 < sim_uid s1" using i e by (simp add: s1_def)
    show "m_currentTs s1 \<le> h" using i e by (simp add: s1_def)
    show "\<forall>x \<in> set (m_eventsWithContext s1). unat (m_currentTs s1) + unat (timestamp x) \<le> unat h"
      using assms(2) by (simp add: s1_def)
  qed (use i q in \<open>simp_all add: s1_def\<close>)
  then show ?thesis using q e now ts card s1_def
    by (intro exI [of _ e] exI [of _ q] exI [of _ s1]) (simp add: sim_now_def key_rank_def sim_budget_def)
qed

text \<open>One turn of the loop: the next event in order is processed, and every other pending
  event stays pending unless a handler removes it.\<close>

definition turn where
  "turn s i s' \<longleftrightarrow> inv s' \<and> m_eventsWithContext s' = [] \<and> sim_later events s s' \<and>
     sim_budget events s' < sim_budget events s \<and> sim_now s < id_rank i \<and> sim_now s' = id_rank i \<and>
     event_of_id i \<in> pend s \<and>
     (\<forall>e \<in> pend s. e = event_of_id i \<or> e \<in> pend s' \<or> m_cancel s' (impl e))"

lemma one_event:
  assumes "inv s" and "m_eventsWithContext s = []" and "pend s \<noteq> {}" and "legal_handlers notify"
  shows "\<exists>i s'. sim_ProcessOneEvent ops notify s = Some (i, s') \<and> turn s i s'"
proof -
  obtain e q s1 where e: "RemoveNext ops (m_events s) = Some (e, q)" "e \<in> pend s" "\<not> ev_ts e < m_currentTs s"
    "sim_now s < ev_rank e" and s1: "inv s1" "sim_now s1 = ev_rank e" "pend s1 = pend s - {e}" "m_cancel s1 = m_cancel s"
    "sim_budget events s = Suc (sim_budget events s1)"
    and d: "s1 = s\<lparr>m_events := q, m_unscheduledEvents := m_unscheduledEvents s - 1, m_eventCount := m_eventCount s + 1,
      m_currentTs := m_ts (key e), m_currentContext := m_context (key e), m_currentUid := m_uid (key e)\<rparr>"
    using take_next_inv [OF assms(1-3)] by blast
  obtain s2 where s2: "EventImpl_Invoke notify (impl e) s1 = Some s2" "inv s2" "sim_later events s1 s2" "sim_now s2 = sim_now s1"
    using invoke_inv [OF s1(1) assms(4)] by blast
  obtain s3 where s3: "sim_ProcessEventsWithContext ops s2 = Some s3" "inv s3" "m_eventsWithContext s3 = []"
    "pend s2 \<subseteq> pend s3" "same_now s2 s3" "sim_budget events s3 = sim_budget events s2"
    using process_foreign_inv [OF s2(2)] by blast
  define i where "i = \<lparr>m_eventImpl = impl e, id_ts = m_ts (key e), id_context = m_context (key e), id_uid = m_uid (key e)\<rparr>"
  have ei: "event_of_id i = e" by (simp add: event_of_id_def i_def)
  then have ri: "id_rank i = ev_rank e" using event_of_id_rank(1) [of i] by simp
  have p: "sim_ProcessOneEvent ops notify s = Some (i, s3)"
    using e(1,3) s2(1) s3(1) by (simp add: sim_ProcessOneEvent_def i_def d [symmetric])
  have l: "sim_later events s1 s3" using s2(3) later_same [OF s3(4,5,6)] by (rule sim_later_trans)
  have n3: "sim_now s3 = ev_rank e" using s3(5) s2(4) s1(2) by simp
  have all: "\<forall>x \<in> pend s. x = e \<or> x \<in> pend s3 \<or> m_cancel s3 (impl x)"
  proof
    fix x
    assume x: "x \<in> pend s"
    show "x = e \<or> x \<in> pend s3 \<or> m_cancel s3 (impl x)"
    proof (cases "x = e")
      case False
      with x have x1: "x \<in> pend s1" using s1(3) by blast
      moreover from inv_now [OF s1(1) this] have "\<not> ev_rank x \<le> sim_now s3" using n3 s1(2) by simp
      ultimately show ?thesis using l by (auto simp: sim_later_def)
    qed simp
  qed
  have "sim_later events s s3"
    using l all e(4) n3 s1(4,5) by (fastforce simp: sim_later_def)
  moreover have "sim_budget events s3 < sim_budget events s" using l s1(5) by (simp add: sim_later_def)
  ultimately have "turn s i s3" unfolding turn_def ei ri using s3(2,3) e(2,4) n3 all by blast
  with p show ?thesis by blast
qed

definition ran where
  "ran s is s' \<longleftrightarrow> inv s' \<and> m_eventsWithContext s' = [] \<and> sim_later events s s' \<and> sorted_wrt (<) (map id_rank is) \<and>
     (\<forall>i \<in> set is. sim_now s < id_rank i \<and> id_rank i \<le> sim_now s') \<and>
     (\<forall>e \<in> pend s. e \<in> event_of_id ` set is \<or> e \<in> pend s' \<or> m_cancel s' (impl e))"

lemma finished_iff: "inv s \<Longrightarrow> sim_IsFinished ops s \<longleftrightarrow> pend s = {} \<or> m_stop s"
  by (simp add: sim_IsFinished_def sim_inv_def IsEmpty_law)

lemma turn_ran:
  assumes "turn s i s1" and "ran s1 is s2"
  shows "ran s (i # is) s2"
proof -
  note t = assms(1) [unfolded turn_def] and r = assms(2) [unfolded ran_def]
  have "sim_now s1 \<le> sim_now s2" using r by (simp add: sim_later_def)
  moreover have "\<forall>e \<in> pend s. e \<in> event_of_id ` set (i # is) \<or> e \<in> pend s2 \<or> m_cancel s2 (impl e)"
  proof
    fix e
    assume "e \<in> pend s"
    then consider "e = event_of_id i" | "e \<in> pend s1" | "m_cancel s1 (impl e)" using t by blast
    then show "e \<in> event_of_id ` set (i # is) \<or> e \<in> pend s2 \<or> m_cancel s2 (impl e)"
    proof cases
      case 3
      then show ?thesis using r by (simp add: sim_later_def)
    qed (use r in auto)
  qed
  ultimately show ?thesis unfolding ran_def using t r by (auto intro: sim_later_trans)
qed

lemma loop_runs:
  assumes "inv s" and "m_eventsWithContext s = []" and "legal_handlers notify" and "sim_budget events s \<le> n"
  shows "\<exists>is s'. sim_loop ops notify n s = Some (is, s') \<and> ran s is s' \<and> (pend s' = {} \<or> m_stop s')"
  using assms
proof (induction n arbitrary: s)
  case 0
  have "0 < sim_budget events s" 
  proof -
    have "unat (sim_uid s) < 2 ^ LENGTH(32)" by (rule unsigned_less)
    then show ?thesis by (simp add: sim_budget_def)
  qed
  with 0 show ?case by simp
next
  case (Suc n)
  show ?case
  proof (cases "sim_IsFinished ops s")
    case True
    with Suc.prems finished_iff show ?thesis by (simp add: ran_def)
  next
    case False
    then have "pend s \<noteq> {}" using Suc.prems(1) finished_iff by blast
    from one_event [OF Suc.prems(1,2) this Suc.prems(3)] obtain i s1
      where t: "sim_ProcessOneEvent ops notify s = Some (i, s1)" "turn s i s1" by blast
    then have s1: "inv s1" "m_eventsWithContext s1 = []" "sim_budget events s1 \<le> n"
      using Suc.prems(4) by (auto simp: turn_def)
    from Suc.IH [OF s1(1,2) Suc.prems(3) s1(3)] obtain "is" s2
      where "sim_loop ops notify n s1 = Some (is, s2)" "ran s1 is s2" "pend s2 = {} \<or> m_stop s2" by blast
    with t False turn_ran [OF t(2)] show ?thesis by auto
  qed
qed

lemma run_runs:
  assumes "inv s" and "legal_handlers notify" and "sim_budget events s \<le> n"
  shows "\<exists>is s'. sim_Run ops notify n s = Some (is, s') \<and> ran s is s' \<and> (pend s' = {} \<or> m_stop s')"
proof -
  obtain s1 where s1: "sim_ProcessEventsWithContext ops s = Some s1" "inv s1" "m_eventsWithContext s1 = []"
    "pend s \<subseteq> pend s1" "same_now s s1" "sim_budget events s1 = sim_budget events s"
    using process_foreign_inv [OF assms(1)] by blast
  define s2 where "s2 = s1\<lparr>m_stop := False\<rparr>"
  have s2: "inv s2" "m_eventsWithContext s2 = []" "sim_budget events s2 \<le> n" "sim_now s2 = sim_now s"
    "pend s2 = pend s1" "m_cancel s2 = m_cancel s"
    using s1 assms(3) by (simp_all add: s2_def sim_inv_def sim_budget_def sim_now_def)
  obtain "is" s' where r: "sim_loop ops notify n s2 = Some (is, s')" "ran s2 is s'" "pend s' = {} \<or> m_stop s'"
    using loop_runs [OF s2(1,2) assms(2) s2(3)] by blast
  have i': "invar (m_events s')" "m_unscheduledEvents s' = int (card (pend s'))"
    using r(2) by (auto simp: ran_def sim_inv_def)
  have "sim_later events s s2" using s1(4,6) s2(4-6) by (auto simp: sim_later_def s2_def sim_budget_def)
  then have "ran s is s'" using r(2) s1(4) s2(4,5) unfolding ran_def by (auto intro: sim_later_trans)
  moreover have "sim_Run ops notify n s = Some (is, s')"
    using s1(1) r(1) IsEmpty_law [OF i'(1)] i'(2) by (simp add: sim_Run_def s2_def)
  ultimately show ?thesis using r(3) by blast
qed

text \<open>A cancelled event is not notified: its handler does not matter.\<close>

lemma one_event_cancelled:
  assumes "m_cancel s a"
  shows "sim_ProcessOneEvent ops (notify(a := f)) s = sim_ProcessOneEvent ops notify s"
proof -
  have "EventImpl_Invoke (notify(a := f)) b s1 = EventImpl_Invoke notify b s1" if "m_cancel s1 = m_cancel s" for b s1
    using assms that by (simp add: EventImpl_Invoke_def)
  then show ?thesis
    unfolding sim_ProcessOneEvent_def
    by (cases "RemoveNext ops (m_events s)") (simp_all del: fun_upd_apply split: prod.split)
qed

lemma loop_cancelled:
  assumes "inv s" and "m_eventsWithContext s = []" and "legal_handlers notify" and "m_cancel s a"
  shows "sim_loop ops (notify(a := f)) n s = sim_loop ops notify n s"
  using assms
proof (induction n arbitrary: s)
  case (Suc n)
  show ?case
  proof (cases "sim_IsFinished ops s")
    case False
    then have p: "pend s \<noteq> {}" using Suc.prems(1) finished_iff by blast
    from one_event [OF Suc.prems(1,2) this Suc.prems(3)] obtain i s1
      where t: "sim_ProcessOneEvent ops notify s = Some (i, s1)" "turn s i s1" by blast
    then have s1: "inv s1" "m_eventsWithContext s1 = []" "m_cancel s1 a"
      using Suc.prems(4) by (auto simp: turn_def sim_later_def)
    show ?thesis
      using False t(1) one_event_cancelled [OF Suc.prems(4)] Suc.IH [OF s1(1,2) Suc.prems(3) s1(3)]
      by (simp del: fun_upd_apply)
  qed simp
qed simp

lemma run_cancelled:
  assumes "inv s" and "legal_handlers notify" and "m_cancel s a"
  shows "sim_Run ops (notify(a := f)) n s = sim_Run ops notify n s"
proof -
  obtain s1 where s1: "sim_ProcessEventsWithContext ops s = Some s1" "inv s1" "m_eventsWithContext s1 = []"
    "same_now s s1" using process_foreign_inv [OF assms(1)] by blast
  have "inv (s1\<lparr>m_stop := False\<rparr>)" using s1(2) by (simp add: sim_inv_def)
  then have "sim_loop ops (notify(a := f)) n (s1\<lparr>m_stop := False\<rparr>) = sim_loop ops notify n (s1\<lparr>m_stop := False\<rparr>)"
    using s1(3,4) assms(2,3) by (intro loop_cancelled) simp_all
  with s1(1) show ?thesis by (simp add: sim_Run_def)
qed


lemma schedule_id:
  assumes "inv s" and "sim_legal events h (Schedule delay a) s"
  shows "\<exists>i s'. sim_Schedule ops delay a s = Some (i, s') \<and> inv s' \<and> sim_later events s s' \<and> event_of_id i \<in> pend s' \<and>
    m_eventImpl i = a \<and> id_uid i = sim_uid s \<and> id_uid i \<noteq> uid_DESTROY \<and> unat (id_ts i) = unat (m_currentTs s) + nat delay \<and>
    m_currentTs s' = m_currentTs s \<and> m_cancel s' = m_cancel s"
proof -
  have v: "sim_uid s \<noteq> uid_DESTROY" using assms(1) by (auto simp: sim_inv_def uid_VALID_def uid_DESTROY_def)
  from assms(2) schedule_inv [OF assms(1), of delay a "m_currentContext s"] v show ?thesis
    by (auto simp: sim_Schedule_def event_of_id_def)
qed

text \<open>For an accurate identifier, IsExpired says exactly that the event is not pending or was
  cancelled.\<close>

lemma accurate_expired:
  assumes "inv s" and "id_accurate events s i" and "id_uid i \<noteq> uid_DESTROY" and "m_eventImpl i \<noteq> nullptr"
  shows "sim_IsExpired s i \<longleftrightarrow> event_of_id i \<notin> pend s \<or> m_cancel s (m_eventImpl i)"
  using assms(2) inv_now [OF assms(1), of "event_of_id i"] assms(3,4)
  by (auto simp: id_accurate_def IsExpired_rank)

definition destroy_budget where
  "destroy_budget s = length (m_destroyEvents s) + (2 ^ 32 - unat (sim_uid s))"

lemma insert_destroy:
  "sim_insert ops a ts c s = Some (k, s') \<Longrightarrow> m_destroyEvents s' = m_destroyEvents s \<and> sim_uid s' = sim_uid s + 1"
  by (auto simp: sim_insert_def Let_def bind_eq_Some_conv split: if_splits)

lemma call_destroy:
  assumes "sim_legal events h c s" and "sim_do ops c s = Some s'"
  shows "destroy_budget s' \<le> destroy_budget s"
proof -
  have uid: "unat (sim_uid s + 1) = unat (sim_uid s) + 1" if "sim_room events s"
    using that by (simp add: sim_room_def unat_Suc_simple)
  have lt: "unat (sim_uid s) + 1 < 2 ^ 32" if "sim_room events s" using that by (simp add: sim_room_def)
  show ?thesis
  proof (cases c)
    case (RemoveId i)
    have "length (m_destroyEvents s') \<le> length (m_destroyEvents s)" and "sim_uid s' = sim_uid s"
      using assms(2) RemoveId
      by (auto simp: sim_Remove_def EventImpl_Cancel_def Let_def bind_eq_Some_conv
          split: if_splits option.splits dest: list_erase_first_length)
    then show ?thesis by (simp add: destroy_budget_def)
  qed (use assms uid lt in \<open>auto simp: sim_Schedule_def sim_ScheduleNow_def sim_ScheduleWithContext_def sim_ScheduleDestroy_def
      sim_Cancel_def EventImpl_Cancel_def sim_Stop_def destroy_budget_def bind_eq_Some_conv Let_def
      dest!: insert_destroy split: if_splits\<close>)
qed

lemma calls_destroy:
  assumes "inv s" and "sim_legal_all ops events h cs s" and "sim_do_all ops cs s = Some s'"
  shows "destroy_budget s' \<le> destroy_budget s"
  using assms
proof (induction cs arbitrary: s)
  case Nil
  then show ?case by simp
next
  case (Cons c cs)
  have c: "sim_legal events h c s" using Cons.prems(2) by simp
  obtain s1 where s1: "sim_do ops c s = Some s1" "inv s1" using call_inv [OF Cons.prems(1) c] by blast
  with Cons.IH [OF s1(2)] Cons.prems(2,3) call_destroy [OF c s1(1)] show ?case by auto
qed

lemma destroy_runs:
  assumes "inv s" and "legal_handlers notify" and "destroy_budget s \<le> n"
  shows "\<exists>as s'. sim_Destroy notify n s = Some (as, s') \<and> m_destroyEvents s' = [] \<and> inv s' \<and> sim_later events s s'"
  using assms
proof (induction n arbitrary: s)
  case 0
  then show ?case by (auto simp: destroy_budget_def)
next
  case (Suc n)
  show ?case
  proof (cases "m_destroyEvents s")
    case Nil
    with Suc.prems(1) show ?thesis by simp
  next
    case (Cons i "is")
    let ?s = "s\<lparr>m_destroyEvents := is\<rparr>"
    have i: "inv ?s" by (rule inv_cong [OF Suc.prems(1)]) simp_all
    have b: "Suc (destroy_budget ?s) \<le> Suc n" using Suc.prems(3) Cons by (simp add: destroy_budget_def)
    have l: "sim_later events s ?s" by (rule later_cong) simp_all
    show ?thesis
    proof (cases "m_cancel s (m_eventImpl i)")
      case True
      with Suc.IH [OF i Suc.prems(2)] b Cons l show ?thesis by (auto intro: sim_later_trans)
    next
      case False
      obtain cs where cs: "sim_legal_all ops events h cs ?s" "notify (m_eventImpl i) ?s = sim_do_all ops cs ?s"
        using Suc.prems(2) i by (auto simp: handlers_legal_def)
      obtain s1 where s1: "sim_do_all ops cs ?s = Some s1" "inv s1" "sim_later events ?s s1"
        using calls_inv [OF i cs(1)] by blast
      have "destroy_budget s1 \<le> n" using calls_destroy [OF i cs(1) s1(1)] b by simp
      from Suc.IH [OF s1(2) Suc.prems(2) this] obtain "as" s' where "sim_Destroy notify n s1 = Some (as, s')"
        "m_destroyEvents s' = []" "inv s'" "sim_later events s1 s'" by blast
      with False Cons cs(2) s1 l show ?thesis
        by (auto simp: EventImpl_Invoke_def intro: sim_later_trans)
    qed
  qed
qed

end

section \<open>Changing the scheduler\<close>

locale scheduler_change =
  old: event_queue ops invar events floor_ts horizon + new: event_queue ops' invar' events' floor_ts' horizon'
  for ops :: "'s scheduler_ops" and invar events floor_ts horizon
    and ops' :: "'t scheduler_ops" and invar' events' floor_ts' horizon'
begin

lemma move_all:
  assumes "invar s" and "invar' t" and "card (events s) \<le> n" and "uids_distinct (events s \<union> events' t)"
    and "events s \<inter> events' t = {}" and "card (events s) + card (events' t) < 2 ^ 32"
    and "\<forall>e \<in> events s. floor_ts' t \<le> ev_ts e \<and> ev_ts e \<le> horizon'"
  shows "\<exists>t'. move_events ops ops' n s t = Some t' \<and> invar' t' \<and> events' t' = events s \<union> events' t \<and> floor_ts' t' = floor_ts' t"
  using assms
proof (induction n arbitrary: s t)
  case 0
  then show ?case using old.finite_events [OF 0(1)] by (simp add: old.IsEmpty_law)
next
  case (Suc n)
  show ?case
  proof (cases "events s = {}")
    case True
    with Suc.prems show ?thesis by (simp add: old.IsEmpty_law)
  next
    case False
    obtain e s1 where e: "RemoveNext ops s = Some (e, s1)" "e \<in> events s" "invar s1" "events s1 = events s - {e}"
      using old.RemoveNext_law [OF Suc.prems(1) False] by (auto simp: earliest_def)
    have c: "card (events s) = Suc (card (events s1))" using old.RemoveNext_card [OF Suc.prems(1) e(1) False] .
    have "x \<notin> events' t \<or> ev_uid x \<noteq> ev_uid e" for x
      using uids_distinctD [OF Suc.prems(4), of x e] e(2) Suc.prems(5) by auto
    then have fresh: "ev_uid e \<notin> ev_uid ` events' t" by (metis imageE)
    have ne: "e \<notin> events' t" using e(2) Suc.prems(5) by auto
    obtain t1 where t1: "Insert ops' e t = Some t1" "invar' t1" "events' t1 = insert e (events' t)" "floor_ts' t1 = floor_ts' t"
      using new.Insert_law [OF Suc.prems(2) fresh] Suc.prems(6,7) e(2) c by auto
    have "card (events' t1) = Suc (card (events' t))" using t1(3) ne new.finite_events [OF Suc.prems(2)] by simp
    moreover have un: "events s1 \<union> events' t1 = events s \<union> events' t" using e(2,4) t1(3) by auto
    ultimately have "\<exists>t'. move_events ops ops' n s1 t1 = Some t' \<and> invar' t' \<and> events' t' = events s1 \<union> events' t1 \<and> floor_ts' t' = floor_ts' t1"
      using Suc.prems(3-7) c e(4) t1(3,4) by (intro Suc.IH [OF e(3) t1(2)]) auto
    with False Suc.prems(1) e(1) t1(1,4) un show ?thesis by (simp add: old.IsEmpty_law)
  qed
qed

lemma set_scheduler_inv:
  assumes "sim_inv invar events floor_ts h s" and "h \<le> horizon'" and "invar' t" and "events' t = {}" and "floor_ts' t = 0"
    and "card (events (m_events s)) \<le> n"
  shows "\<exists>s'. sim_SetScheduler ops ops' t n s = Some s' \<and> sim_inv invar' events' floor_ts' h s' \<and>
    events' (m_events s') = events (m_events s) \<and> sim_now s' = sim_now s \<and> m_cancel s' = m_cancel s"
proof -
  note i = assms(1) [unfolded sim_inv_def]
  have inv: "invar (m_events s)" using i by blast
  have hz: "\<forall>e \<in> events (m_events s). floor_ts' t \<le> ev_ts e \<and> ev_ts e \<le> horizon'"
    using i assms(2,5) by (auto intro: order_trans)
  have "\<exists>t'. move_events ops ops' n (m_events s) t = Some t' \<and> invar' t' \<and>
      events' t' = events (m_events s) \<union> events' t \<and> floor_ts' t' = floor_ts' t"
    using i assms(4,6) old.events_uids [OF inv] by (intro move_all [OF inv assms(3) _ _ _ _ hz]) auto
  then obtain t' where t': "move_events ops ops' n (m_events s) t = Some t'" "invar' t'"
    "events' t' = events (m_events s)" "floor_ts' t' = 0" using assms(4,5) by auto
  define s' where "s' = the (sim_SetScheduler ops ops' t n s)"
  have r: "sim_SetScheduler ops ops' t n s = Some s'" "m_events s' = t'" "m_currentTs s' = m_currentTs s"
    "m_currentUid s' = m_currentUid s" "sim_uid s' = sim_uid s" "m_unscheduledEvents s' = m_unscheduledEvents s"
    "m_eventsWithContext s' = m_eventsWithContext s" "m_eventsWithContextEmpty s' = m_eventsWithContextEmpty s"
    "m_cancel s' = m_cancel s"
    using t'(1) by (simp_all add: s'_def sim_SetScheduler_def)
  have "sim_inv invar' events' floor_ts' h s'" using i t' by (simp add: sim_inv_def r(2-))
  with r t'(3) show ?thesis by (auto simp: sim_now_def)
qed

end

end
