(* ===== verification/Simulator_Properties.thy ===== *)
theory Simulator_Properties
  imports Simulator_Correct
begin

text \<open>
  The event loop on the schedulers of the repository: the locale \<open>event_loop\<close> is interpreted on
  the map, list, priority-queue and calendar schedulers, \<open>scheduler_change\<close> on the change from
  the map to the calendar, and the properties of the simulator follow.
\<close>

text \<open>GetMaximumSimulationTime.\<close>

definition max_time :: u64 where
  "max_time = 0x7fffffffffffffff"

interpretation mapsim: event_loop map_ops map_invar map_events "\<lambda>_. 0" "- 1" max_time
  by unfold_locales (simp_all add: max_time_def)

interpretation listsim: event_loop list_ops list_invar set "\<lambda>_. 0" "- 1" max_time
  by unfold_locales (simp_all add: max_time_def)

interpretation pqsim: event_loop pq_ops pq_invar set "\<lambda>_. 0" "- 1" max_time
  by unfold_locales (simp_all add: max_time_def)

interpretation calsim: event_loop cal_ops cal_invar cal_events m_lastPrio cal_horizon cal_horizon
  by unfold_locales (simp_all add: cal_horizon_def)

interpretation map_to_cal: scheduler_change map_ops map_invar map_events "\<lambda>_. 0" "- 1"
  cal_ops cal_invar cal_events m_lastPrio cal_horizon
  by unfold_locales

text \<open>The states and handlers of a simulation on the map and on the calendar.\<close>

abbreviation map_sim_inv :: "MapScheduler simulator \<Rightarrow> bool" where
  "map_sim_inv \<equiv> sim_inv map_invar map_events (\<lambda>_. 0) max_time"

abbreviation map_handlers :: "(addr \<Rightarrow> MapScheduler simulator \<Rightarrow> MapScheduler simulator option) \<Rightarrow> bool" where
  "map_handlers \<equiv> handlers_legal map_ops map_invar map_events (\<lambda>_. 0) max_time"

abbreviation cal_sim_inv :: "CalendarScheduler simulator \<Rightarrow> bool" where
  "cal_sim_inv \<equiv> sim_inv cal_invar cal_events m_lastPrio cal_horizon"

abbreviation cal_handlers :: "(addr \<Rightarrow> CalendarScheduler simulator \<Rightarrow> CalendarScheduler simulator option) \<Rightarrow> bool" where
  "cal_handlers \<equiv> handlers_legal cal_ops cal_invar cal_events m_lastPrio cal_horizon"

lemma map_init_inv: "map_sim_inv (sim_init [])"
  by (simp add: sim_inv_def sim_init_def map_invar_def list_invar_def uids_distinct_def uid_VALID_def uid_INVALID_def)

lemma cal_init_inv: "cal_sim_inv (sim_init (cal_init r))"
  by (simp add: sim_inv_def sim_init_def uid_VALID_def uid_INVALID_def)

section \<open>Properties\<close>

text \<open>
  C1: With the MapScheduler and handlers that make legal calls, Run returns as soon as it is given
  as many rounds as there are uids left: no assertion of ProcessOneEvent or Run fails, the events
  are processed in strictly increasing order of time stamp and uid after the current position,
  every event pending at the start is processed, still pending or cancelled at the end, and Run
  ends with an empty queue or because it was stopped.
\<close>

theorem map_Run_in_order:
  assumes "map_sim_inv s" and "map_handlers notify" and "sim_budget map_events s \<le> n"
  shows "\<exists>is s'. sim_Run map_ops notify n s = Some (is, s') \<and> map_sim_inv s' \<and>
    sorted_wrt (<) (map id_rank is) \<and> (\<forall>i \<in> set is. sim_now s < id_rank i \<and> id_rank i \<le> sim_now s') \<and>
    (\<forall>e \<in> map_events (m_events s). e \<in> event_of_id ` set is \<or> e \<in> map_events (m_events s') \<or> m_cancel s' (impl e)) \<and>
    (map_events (m_events s') = {} \<or> m_stop s')"
  using mapsim.run_runs [OF assms] unfolding mapsim.ran_def by blast

text \<open>
  C3: The same with the CalendarScheduler, for simulations that end before time stamp 2^47.
\<close>

theorem cal_Run_in_order:
  assumes "cal_sim_inv s" and "cal_handlers notify" and "sim_budget cal_events s \<le> n"
  shows "\<exists>is s'. sim_Run cal_ops notify n s = Some (is, s') \<and> cal_sim_inv s' \<and>
    sorted_wrt (<) (map id_rank is) \<and> (\<forall>i \<in> set is. sim_now s < id_rank i \<and> id_rank i \<le> sim_now s') \<and>
    (\<forall>e \<in> cal_events (m_events s). e \<in> event_of_id ` set is \<or> e \<in> cal_events (m_events s') \<or> m_cancel s' (impl e)) \<and>
    (cal_events (m_events s') = {} \<or> m_stop s')"
  using calsim.run_runs [OF assms] unfolding calsim.ran_def by blast


text \<open>
  Schedule returns an identifier of the event it inserted: it is pending at the current time
  plus the delay, not expired (unless the event was cancelled before), and GetDelayLeft is the
  delay.
\<close>

theorem map_Schedule_pending:
  assumes "map_sim_inv s" and "sim_legal map_events max_time (Schedule delay a) s" and "a \<noteq> nullptr" and "\<not> m_cancel s a"
  shows "\<exists>i s'. sim_Schedule map_ops delay a s = Some (i, s') \<and> map_sim_inv s' \<and> event_of_id i \<in> map_events (m_events s') \<and>
    unat (id_ts i) = unat (m_currentTs s) + nat delay \<and> \<not> sim_IsExpired s' i \<and> sim_GetDelayLeft s' i = delay"
proof -
  obtain i s' where i: "sim_Schedule map_ops delay a s = Some (i, s')" "map_sim_inv s'" "event_of_id i \<in> map_events (m_events s')"
    "m_eventImpl i = a" "id_uid i \<noteq> uid_DESTROY" "unat (id_ts i) = unat (m_currentTs s) + nat delay"
    "m_currentTs s' = m_currentTs s" "m_cancel s' = m_cancel s"
    using mapsim.schedule_id [OF assms(1,2)] by blast
  have "id_accurate map_events s' i" using i(3) by (simp add: id_accurate_def)
  from mapsim.accurate_expired [OF i(2) this i(5)] i(3,4,8) assms(3,4) have ne: "\<not> sim_IsExpired s' i" by auto
  have d: "0 \<le> delay" "unat (m_currentTs s) + nat delay \<le> unat max_time" using assms(2) by auto
  have "m_currentTs s \<le> id_ts i" using i(6) by (simp add: word_le_nat_alt)
  then have dl: "unat (id_ts i - m_currentTs s) = nat delay" using i(6) by (simp add: unat_sub)
  have "uint (id_ts i - m_currentTs s) = delay" using dl d(1) by (metis int_nat_eq of_nat_unat)
  moreover have "delay < 2 ^ 63" using d by (simp add: max_time_def)
  ultimately have "sint (id_ts i - m_currentTs s) = delay"
    using d(1) unfolding sint_uint by (subst signed_take_bit_int_eq_self) auto
  then have "sim_GetDelayLeft s' i = delay" using ne i(7) by (simp add: sim_GetDelayLeft_def)
  with i ne show ?thesis by blast
qed

text \<open>
  C23: Identifiers stay truthful over a whole Run: for an identifier whose event was pending, or
  already expired, before it, IsExpired says afterwards exactly whether the event has left the
  queue or was cancelled.
\<close>

theorem map_Run_identifiers:
  assumes "map_sim_inv s" and "map_handlers notify" and "sim_budget map_events s \<le> n"
    and "id_accurate map_events s i" and "id_uid i \<noteq> uid_DESTROY" and "m_eventImpl i \<noteq> nullptr"
  shows "\<exists>is s'. sim_Run map_ops notify n s = Some (is, s') \<and>
    (sim_IsExpired s' i \<longleftrightarrow> event_of_id i \<notin> map_events (m_events s') \<or> m_cancel s' (m_eventImpl i))"
proof -
  obtain "is" s' where r: "sim_Run map_ops notify n s = Some (is, s')" "mapsim.ran s is s'"
    using mapsim.run_runs [OF assms(1-3)] by blast
  then have "map_sim_inv s'" "sim_later map_events s s'" by (auto simp: mapsim.ran_def)
  then have "sim_IsExpired s' i \<longleftrightarrow> event_of_id i \<notin> map_events (m_events s') \<or> m_cancel s' (m_eventImpl i)"
    using assms(4-6) by (intro mapsim.accurate_expired) (auto intro: id_accurate_later)
  with r(1) show ?thesis by blast
qed

text \<open>
  C24: A cancelled event is never notified: the outcome of Run does not depend on the handler of
  an event that is cancelled when Run starts.
\<close>

theorem map_Run_cancelled:
  assumes "map_sim_inv s" and "map_handlers notify" and "m_cancel s a"
  shows "sim_Run map_ops (notify(a := f)) n s = sim_Run map_ops notify n s"
  by (rule mapsim.run_cancelled [OF assms])

text \<open>
  Remove of a pending event takes exactly that event out of the queue and cancels it.
\<close>

theorem map_Remove_pending:
  assumes "map_sim_inv s" and "id_accurate map_events s i" and "id_uid i \<noteq> uid_DESTROY" and "\<not> sim_IsExpired s i"
  shows "\<exists>s'. sim_Remove map_ops i s = Some s' \<and> map_sim_inv s' \<and> sim_IsExpired s' i \<and>
    map_events (m_events s') = map_events (m_events s) - {event_of_id i} \<and>
    m_unscheduledEvents s' = m_unscheduledEvents s - 1"
proof -
  obtain s' where s': "sim_Remove map_ops i s = Some s'" "map_sim_inv s'"
    "map_events (m_events s') = map_events (m_events s) - {event_of_id i}" "m_cancel s' = (m_cancel s)(m_eventImpl i := True)"
    using mapsim.remove_inv [OF assms] by blast
  have "sim_IsExpired s' i" using s'(4) assms(3) by (simp add: sim_IsExpired_def)
  moreover have "m_unscheduledEvents s' = m_unscheduledEvents s - 1"
    using s'(1) assms(3,4) by (auto simp: sim_Remove_def EventImpl_Cancel_def bind_eq_Some_conv Let_def)
  ultimately show ?thesis using s' by blast
qed


text \<open>
  Destroy returns, with no destroy event left, even though the handlers it invokes may
  schedule further destroy events.
\<close>

theorem map_Destroy_returns:
  assumes "map_sim_inv s" and "map_handlers notify"
    and "length (m_destroyEvents s) + (2 ^ 32 - unat (sim_uid s)) \<le> n"
  shows "\<exists>as s'. sim_Destroy notify n s = Some (as, s') \<and> m_destroyEvents s' = [] \<and> map_sim_inv s'"
  using mapsim.destroy_runs [OF assms(1,2), of n] assms(3) unfolding mapsim.destroy_budget_def by blast

text \<open>
  Schedule refuses a negative delay, but ScheduleWithContext does not check it: called on the
  main thread with delay -1 at time 10 it inserts an event in the past, and ProcessOneEvent then
  fails its assertion.
\<close>

theorem ScheduleWithContext_negative_delay:
  fixes notify :: "addr \<Rightarrow> MapScheduler simulator \<Rightarrow> MapScheduler simulator option"
  shows "sim_Schedule map_ops (- 1) 7 ((sim_init [])\<lparr>m_currentTs := 10\<rparr>) = None \<and>
    (\<exists>s. sim_ScheduleWithContext map_ops True 0 (- 1) 7 ((sim_init [])\<lparr>m_currentTs := 10\<rparr>) = Some s \<and>
      sim_ProcessOneEvent map_ops notify s = None)"
  by (simp add: sim_Schedule_def sim_ScheduleWithContext_def absolute_ts_def Let_def sim_insert_def sim_init_def
      map_Insert_def sim_ProcessOneEvent_def map_RemoveNext_def)

section \<open>A concrete simulation\<close>

text \<open>
  For the witnesses: the event at address 1 schedules the event at address 2 five time steps
  later, as long as few uids are used; every other handler does nothing. The simulation starts
  with event 3 at time 3 and event 1 at time 10.
\<close>

definition demo_calls_of :: "('s \<Rightarrow> Event set) \<Rightarrow> addr \<Rightarrow> 's simulator \<Rightarrow> sim_call list" where
  "demo_calls_of E a s =
     (if a = 1 \<and> sim_room E s \<and> unat (m_currentTs s) < 100 then [Schedule 5 2] else [])"

definition demo_notify :: "'s scheduler_ops \<Rightarrow> ('s \<Rightarrow> Event set) \<Rightarrow> addr \<Rightarrow> 's simulator \<Rightarrow> 's simulator option" where
  "demo_notify ops E a s = sim_do_all ops (demo_calls_of E a s) s"

definition demo_start :: "sim_call list" where
  "demo_start = [Schedule 10 1, Schedule 3 3, ScheduleDestroy 4]"

context event_loop
begin

lemma demo_legal_handlers:
  assumes "200 \<le> unat h"
  shows "handlers_legal ops invar events floor_ts h (demo_notify ops events)"
proof -
  have "sim_legal_all ops events h (demo_calls_of events a s) s" if "inv s" for a s
  proof (cases "a = 1 \<and> sim_room events s \<and> unat (m_currentTs s) < 100")
    case True
    then have l: "sim_legal events h (Schedule 5 2) s" using assms by simp
    from call_inv [OF that l] True l show ?thesis by (auto simp: demo_calls_of_def)
  qed (auto simp: demo_calls_of_def)
  then show ?thesis by (auto simp: handlers_legal_def demo_notify_def)
qed

lemma small_schedule:
  assumes "200 \<le> unat h" and "inv s" and "unat (sim_uid s) + card (pend s) \<le> k" and "k < 1000"
    and "m_eventsWithContext s = []" and "m_currentTs s = 0" and "0 \<le> delay" and "delay \<le> 100"
  shows "sim_legal events h (Schedule delay a) s \<and> (\<exists>s'. sim_do ops (Schedule delay a) s = Some s' \<and> inv s' \<and>
    unat (sim_uid s') + card (pend s') \<le> k + 2 \<and> m_eventsWithContext s' = [] \<and> m_currentTs s' = 0)"
proof -
  have room: "sim_room events s" using assms(3-5) by (simp add: sim_room_def)
  have d: "unat (m_currentTs s) + nat delay \<le> unat h" using assms(1,6,8) by simp
  obtain ts where ts: "absolute_ts delay (m_currentTs s) = Some ts" "unat ts = unat (m_currentTs s) + nat delay"
    using absolute_ts_sum [OF assms(7) d h_signed] by blast
  have le: "m_currentTs s \<le> ts" "ts \<le> h" using ts(2) d by (simp_all add: word_le_nat_alt)
  define e where "e = \<lparr>impl = a, key = \<lparr>m_ts = ts, m_uid = sim_uid s, m_context = m_currentContext s\<rparr>\<rparr>"
  obtain q s' where s': "sim_insert ops a ts (m_currentContext s) s = Some (key e, s')" "inv s'"
    "s' = s\<lparr>m_events := q, sim_uid := sim_uid s + 1, m_unscheduledEvents := m_unscheduledEvents s + 1\<rparr>"
    "pend s' = insert e (pend s)"
    using insert_inv [OF assms(2) room le, of a "m_currentContext s"] unfolding e_def by (simp, blast)
  have "card (pend s') \<le> Suc (card (pend s))" unfolding s'(4) by (rule card_insert_le_m1) simp_all
  moreover have "unat (sim_uid s') = unat (sim_uid s) + 1" using assms(3,4) by (simp add: s'(3) unat_Suc_simple)
  moreover have "sim_do ops (Schedule delay a) s = Some s'" using ts(1) s'(1) assms(7) by (simp add: sim_Schedule_def)
  ultimately show ?thesis using room d assms(3,5,6,7) s'(2) by (auto simp: s'(3))
qed

lemma demo_start_legal:
  assumes "200 \<le> unat h" and "inv (sim_init q)" and "events q = {}"
  shows "sim_legal_all ops events h demo_start (sim_init q)"
proof -
  have i: "unat (sim_uid (sim_init q)) + card (pend (sim_init q)) \<le> 4" "m_eventsWithContext (sim_init q) = []"
    "m_currentTs (sim_init q) = 0" using assms(3) by (simp_all add: sim_init_def uid_VALID_def)
  obtain s1 where s1: "sim_legal events h (Schedule 10 1) (sim_init q)" "sim_do ops (Schedule 10 1) (sim_init q) = Some s1"
    "inv s1" "unat (sim_uid s1) + card (pend s1) \<le> 6" "m_eventsWithContext s1 = []" "m_currentTs s1 = 0"
    using small_schedule [OF assms(1,2) i(1) _ i(2,3), of 10 1] by auto
  obtain s2 where s2: "sim_legal events h (Schedule 3 3) s1" "sim_do ops (Schedule 3 3) s1 = Some s2"
    "unat (sim_uid s2) + card (pend s2) \<le> 8" "m_eventsWithContext s2 = []"
    using small_schedule [OF assms(1) s1(3,4) _ s1(5,6), of 3 3] by auto
  have "sim_legal events h (ScheduleDestroy 4) s2" using s2(3,4) by (simp add: sim_room_def)
  with s1(1,2) s2(1,2) show ?thesis
    unfolding demo_start_def sim_legal_all.simps(2) by (simp del: sim_do.simps(1) sim_legal.simps)
qed

end

lemma map_demo_handlers: "map_handlers (demo_notify map_ops map_events)"
  by (rule mapsim.demo_legal_handlers) (simp add: max_time_def)

lemma cal_demo_handlers: "cal_handlers (demo_notify cal_ops cal_events)"
  by (rule calsim.demo_legal_handlers) (simp add: cal_horizon_def)

definition map_demo :: "MapScheduler simulator" where
  "map_demo = the (sim_do_all map_ops demo_start (sim_init []))"

definition cal_demo :: "CalendarScheduler simulator" where
  "cal_demo = the (sim_do_all cal_ops demo_start (sim_init (cal_init False)))"

lemma map_demo_legal: "sim_legal_all map_ops map_events max_time demo_start (sim_init [])"
  by (rule mapsim.demo_start_legal [OF _ map_init_inv]) (simp_all add: max_time_def)

lemma map_demo_inv: "map_sim_inv map_demo"
  using mapsim.calls_inv [OF map_init_inv map_demo_legal] by (auto simp: map_demo_def)

lemma cal_demo_inv: "cal_sim_inv cal_demo"
proof -
  have "sim_legal_all cal_ops cal_events cal_horizon demo_start (sim_init (cal_init False))"
    by (rule calsim.demo_start_legal [OF _ cal_init_inv]) (simp_all add: cal_horizon_def)
  from calsim.calls_inv [OF cal_init_inv this] show ?thesis by (auto simp: cal_demo_def)
qed

lemma map_Run_in_order_witness:
  "\<exists>is s'. sim_Run map_ops (demo_notify map_ops map_events) (sim_budget map_events map_demo) map_demo = Some (is, s') \<and>
    sorted_wrt (<) (map id_rank is)"
  using map_Run_in_order [OF map_demo_inv map_demo_handlers order_refl] by blast

lemma cal_Run_in_order_witness:
  "\<exists>is s'. sim_Run cal_ops (demo_notify cal_ops cal_events) (sim_budget cal_events cal_demo) cal_demo = Some (is, s') \<and>
    sorted_wrt (<) (map id_rank is)"
  using cal_Run_in_order [OF cal_demo_inv cal_demo_handlers order_refl] by blast


lemma map_Schedule_pending_witness:
  "\<exists>i s'. sim_Schedule map_ops 10 1 (sim_init []) = Some (i, s') \<and> sim_GetDelayLeft s' i = 10"
proof -
  have "sim_legal map_events max_time (Schedule 10 1) (sim_init [])" using map_demo_legal by (simp add: demo_start_def)
  from map_Schedule_pending [OF map_init_inv this] show ?thesis by (auto simp: sim_init_def)
qed

text \<open>The identifier of the event that was scheduled second.\<close>

definition demo_id :: EventId where
  "demo_id = \<lparr>m_eventImpl = 3, id_ts = 3, id_context = NO_CONTEXT, id_uid = 5\<rparr>"

lemma demo_id_pending:
  "id_accurate map_events map_demo demo_id" "\<not> sim_IsExpired map_demo demo_id" "id_uid demo_id \<noteq> uid_DESTROY"
proof -
  have "event_of_id demo_id \<in> map_events (m_events map_demo)" by code_simp
  then show "id_accurate map_events map_demo demo_id" by (simp add: id_accurate_def)
  show "\<not> sim_IsExpired map_demo demo_id" by code_simp
  show "id_uid demo_id \<noteq> uid_DESTROY" by code_simp
qed

lemma map_Run_identifiers_witness:
  "\<exists>is s'. sim_Run map_ops (demo_notify map_ops map_events) (sim_budget map_events map_demo) map_demo = Some (is, s') \<and>
    (sim_IsExpired s' demo_id \<longleftrightarrow> event_of_id demo_id \<notin> map_events (m_events s') \<or> m_cancel s' (m_eventImpl demo_id))"
  by (rule map_Run_identifiers [OF map_demo_inv map_demo_handlers order_refl demo_id_pending(1,3)]) (simp add: demo_id_def)

lemma map_Run_cancelled_witness:
  "sim_Run map_ops ((demo_notify map_ops map_events)(3 := (\<lambda>s. None))) 9 (sim_Cancel demo_id map_demo)
   = sim_Run map_ops (demo_notify map_ops map_events) 9 (sim_Cancel demo_id map_demo)"
proof (rule map_Run_cancelled [OF _ map_demo_handlers])
  show "map_sim_inv (sim_Cancel demo_id map_demo)"
    using mapsim.call_inv [OF map_demo_inv, of "CancelId demo_id"] by simp
  show "m_cancel (sim_Cancel demo_id map_demo) 3"
    using demo_id_pending(2) by (simp add: sim_Cancel_def EventImpl_Cancel_def demo_id_def)
qed

lemma map_Remove_pending_witness: "\<exists>s'. sim_Remove map_ops demo_id map_demo = Some s' \<and> sim_IsExpired s' demo_id"
  using map_Remove_pending [OF map_demo_inv demo_id_pending(1,3,2)] by blast


lemma map_Destroy_returns_witness:
  "\<exists>as s'. sim_Destroy (demo_notify map_ops map_events)
      (length (m_destroyEvents map_demo) + (2 ^ 32 - unat (sim_uid map_demo))) map_demo = Some (as, s') \<and> m_destroyEvents s' = []"
  using map_Destroy_returns [OF map_demo_inv map_demo_handlers order_refl] by blast

end
