(* ===== verification/Rng_Stream.thy ===== *)
theory Rng_Stream
  imports Ns3_Prelude "HOL-Library.Log_Nat"
begin

text \<open>
  src/core/model/rng-stream.cc: the random number generator MRG32k3a, which computes in floating point. All
  numbers of its state are integers, held in variables of type double. A double with an integral value is an integer here;
  \<open>fl\<close> rounds the result of an operation to the nearest double, and \<open>trunc_div\<close> is a division that is rounded to a double
  and then truncated to an \<open>int32_t\<close>. The final scaling of a draw by the constant norm is left out: RandU01 gives the integer
  that is scaled.
\<close>

section \<open>Doubles\<close>

text \<open>The integer nearest to \<open>n / d\<close>, the even one of two.\<close>

definition round_even_div :: "int \<Rightarrow> int \<Rightarrow> int" where
  "round_even_div n d =
     (let q = n div d; r = n mod d in if 2 * r < d \<or> (2 * r = d \<and> even q) then q else q + 1)"

definition two53 :: int where
  "two53 = 9007199254740992"

definition fl :: "int \<Rightarrow> int" where
  "fl x =
     (if \<bar>x\<bar> < two53 then x
      else let e = nat (bitlen \<bar>x\<bar> - 53) in sgn x * (round_even_div \<bar>x\<bar> (2 ^ e) * 2 ^ e))"

text \<open>\<open>static_cast<int32_t> (p / m)\<close>, for quotients in the range of \<open>int32_t\<close>: a quotient with \<open>b\<close> bits before the point is rounded to \<open>53 - b\<close> bits
  behind it.\<close>

definition trunc_div :: "int \<Rightarrow> int \<Rightarrow> int" where
  "trunc_div p m =
     (let k = nat (53 - bitlen (\<bar>p\<bar> div m)) in sgn p * (round_even_div (\<bar>p\<bar> * 2 ^ k) m div 2 ^ k))"

section \<open>Arithmetic modulo m\<close>

type_synonym vec = "int \<times> int \<times> int"
type_synonym matrix = "vec \<times> vec \<times> vec"

definition m1 :: int where
  "m1 = 4294967087"

definition m2 :: int where
  "m2 = 4294944443"

definition a12 :: int where
  "a12 = 1403580"

definition a13n :: int where
  "a13n = 810728"

definition a21 :: int where
  "a21 = 527612"

definition a23n :: int where
  "a23n = 1370589"

definition two17 :: int where
  "two17 = 131072"

definition A1p0 :: matrix where
  "A1p0 = ((0, 1, 0), (0, 0, 1), (- 810728, 1403580, 0))"

definition A2p0 :: matrix where
  "A2p0 = ((0, 1, 0), (0, 0, 1), (- 1370589, 0, 527612))"

text \<open>The end of MultModM: \<open>v\<close> modulo \<open>m\<close>.\<close>

definition reduce :: "int \<Rightarrow> int \<Rightarrow> int" where
  "reduce v m = (let a1 = trunc_div v m; v = fl (v - fl (a1 * m)) in if v < 0 then fl (v + m) else v)"

definition MultModM :: "int \<Rightarrow> int \<Rightarrow> int \<Rightarrow> int \<Rightarrow> int" where
  "MultModM a s c m =
     (let v = fl (fl (a * s) + c) in
      if two53 \<le> v \<or> v \<le> - two53 then
        (let a1 = trunc_div a two17;
             a = fl (a - fl (a1 * two17));
             v = fl (a1 * s);
             a1 = trunc_div v m;
             v = fl (v - fl (a1 * m));
             v = fl (fl (fl (v * two17) + fl (a * s)) + c)
         in reduce v m)
      else reduce v m)"

text \<open>The body of the loop of MatVecModM.\<close>

fun row_times :: "vec \<Rightarrow> vec \<Rightarrow> int \<Rightarrow> int" where
  "row_times (a0, a1, a2) (s0, s1, s2) m = MultModM a2 s2 (MultModM a1 s1 (MultModM a0 s0 0 m) m) m"

fun MatVecModM :: "matrix \<Rightarrow> vec \<Rightarrow> int \<Rightarrow> vec" where
  "MatVecModM (r0, r1, r2) s m = (row_times r0 s m, row_times r1 s m, row_times r2 s m)"

fun columns :: "matrix \<Rightarrow> matrix" where
  "columns ((a, b, c), (d, e, f), (g, h, i)) = ((a, d, g), (b, e, h), (c, f, i))"

text \<open>MatMatModM multiplies A with the columns of B and makes the results the columns of C.\<close>

definition MatMatModM :: "matrix \<Rightarrow> matrix \<Rightarrow> int \<Rightarrow> matrix" where
  "MatMatModM A B m = (case columns B of (v0, v1, v2) \<Rightarrow> columns (MatVecModM A v0 m, MatVecModM A v1 m, MatVecModM A v2 m))"

fun MatTwoPowModM :: "matrix \<Rightarrow> int \<Rightarrow> nat \<Rightarrow> matrix" where
  "MatTwoPowModM src m 0 = src"
| "MatTwoPowModM src m (Suc e) = (let dst = MatTwoPowModM src m e in MatMatModM dst dst m)"

function mat_pow_loop :: "nat \<Rightarrow> matrix \<Rightarrow> matrix \<Rightarrow> int \<Rightarrow> matrix" where
  "mat_pow_loop n W B m =
     (if 0 < n then mat_pow_loop (n div 2) (MatMatModM W W m) (if n mod 2 = 0 then B else MatMatModM W B m) m else B)"
  by pat_completeness auto
termination mat_pow_loop
  by (relation "measure (\<lambda>(n, W, B, m). n)") auto

declare mat_pow_loop.simps [simp del]

definition identity :: matrix where
  "identity = ((1, 0, 0), (0, 1, 0), (0, 0, 1))"

definition MatPowModM :: "matrix \<Rightarrow> int \<Rightarrow> nat \<Rightarrow> matrix" where
  "MatPowModM A m n = mat_pow_loop n A identity m"

section \<open>Streams\<close>

record Precalculated =
  pre_a1 :: "matrix list"
  pre_a2 :: "matrix list"

definition PowerOfTwoConstants :: Precalculated where
  "PowerOfTwoConstants =
     \<lparr>pre_a1 = map (\<lambda>i. MatTwoPowModM A1p0 m1 (i + 1)) [0..<190], pre_a2 = map (\<lambda>i. MatTwoPowModM A2p0 m2 (i + 1)) [0..<190]\<rparr>"

text \<open>An access outside the arrays is None.\<close>

definition PowerOfTwoMatrix :: "nat \<Rightarrow> (matrix \<times> matrix) option" where
  "PowerOfTwoMatrix n =
     (if 1 \<le> n \<and> n - 1 < length (pre_a1 PowerOfTwoConstants)
      then Some (pre_a1 PowerOfTwoConstants ! (n - 1), pre_a2 PowerOfTwoConstants ! (n - 1)) else None)"

text \<open>\<open>m_currentState\<close>: the first three numbers and the last three.\<close>

type_synonym rng_state = "vec \<times> vec"

text \<open>AdvanceNthBy: the loop over the lowest \<open>n\<close> bits of the index, the highest first.\<close>

fun advance_bits :: "nat \<Rightarrow> u64 \<Rightarrow> nat \<Rightarrow> rng_state \<Rightarrow> rng_state option" where
  "advance_bits 0 idx by' s = Some s"
| "advance_bits (Suc nbit) idx by' s =
     (if bit idx nbit
      then do { (matrix1, matrix2) \<leftarrow> PowerOfTwoMatrix (by' + nbit);
                advance_bits nbit idx by' (MatVecModM matrix1 (fst s) m1, MatVecModM matrix2 (snd s) m2) }
      else advance_bits nbit idx by' s)"

definition AdvanceNthBy :: "u64 \<Rightarrow> nat \<Rightarrow> rng_state \<Rightarrow> rng_state option" where
  "AdvanceNthBy = advance_bits 64"

definition RngStream :: "u32 \<Rightarrow> u64 \<Rightarrow> u64 \<Rightarrow> rng_state option" where
  "RngStream seedNumber stream substream =
     (let s = uint seedNumber in
      if m1 \<le> s \<or> m2 \<le> s \<or> s = 0 then None
      else do { s \<leftarrow> AdvanceNthBy stream 127 ((s, s, s), (s, s, s)); AdvanceNthBy substream 76 s })"

fun RandU01 :: "rng_state \<Rightarrow> int \<times> rng_state" where
  "RandU01 ((s0, s1, s2), (s3, s4, s5)) =
     (let p1 = fl (fl (a12 * s1) - fl (a13n * s0));
          k = trunc_div p1 m1;
          p1 = fl (p1 - fl (k * m1));
          p1 = (if p1 < 0 then fl (p1 + m1) else p1);
          p2 = fl (fl (a21 * s5) - fl (a23n * s3));
          k = trunc_div p2 m2;
          p2 = fl (p2 - fl (k * m2));
          p2 = (if p2 < 0 then fl (p2 + m2) else p2)
      in (if p2 < p1 then fl (p1 - p2) else fl (fl (p1 - p2) + m1), ((s1, s2, p1), (s4, s5, p2))))"

section \<open>Floating point is exact here\<close>

lemma fl_id [simp]: "\<bar>x\<bar> < two53 \<Longrightarrow> fl x = x"
  by (simp add: fl_def)

lemma round_even_div_bounds:
  assumes "0 < d"
  shows "n div d \<le> round_even_div n d" "2 * d * round_even_div n d \<le> 2 * n + d"
proof -
  define q r where "q = n div d" and "r = n mod d"
  have n: "n = d * q + r" "0 \<le> r" "r < d" using assms by (simp_all add: q_def r_def)
  have e: "round_even_div n d = q \<or> (round_even_div n d = q + 1 \<and> d \<le> 2 * r)"
    by (auto simp: round_even_div_def Let_def q_def r_def)
  then show "n div d \<le> round_even_div n d" by (auto simp: q_def)
  show "2 * d * round_even_div n d \<le> 2 * n + d" using e n by (auto simp: algebra_simps)
qed

lemma fl_large:
  assumes "two53 \<le> x"
  shows "two53 \<le> fl x"
proof -
  have x: "2 ^ 53 \<le> x" "0 < x" using assms by (simp_all add: two53_def)
  define b where "b = nat (bitlen x)"
  have b: "2 ^ (b - 1) \<le> x" "x < 2 ^ b" "bitlen x = int b" using bitlen_bounds [OF x(2)] bitlen_nonneg [of x] by (simp_all add: b_def nat_diff_distrib')
  have "\<not> b \<le> 53" using x(1) b(2) power_increasing [of b 53 "2 :: int"] by linarith
  define e where "e = b - 53"
  have e: "nat (bitlen x - 53) = e" "b - 1 = 52 + e" "1 \<le> e" using \<open>\<not> b \<le> 53\<close> b(3) by (simp_all add: e_def)
  have "((2 :: int) ^ 52 * 2 ^ e) div 2 ^ e \<le> x div 2 ^ e" using b(1) e(2) by (intro zdiv_mono1) (simp_all add: power_add)
  then have "2 ^ 52 \<le> x div 2 ^ e" by simp
  then have "2 ^ 52 \<le> round_even_div x (2 ^ e)" using round_even_div_bounds(1) [of "2 ^ e" x] by simp
  moreover have "(2 :: int) ^ 1 \<le> 2 ^ e" using e(3) by (intro power_increasing) simp_all
  ultimately have "2 ^ 52 * 2 ^ 1 \<le> round_even_div x (2 ^ e) * 2 ^ e" by (intro mult_mono) simp_all
  then show ?thesis using x e(1) assms by (simp add: fl_def Let_def two53_def)
qed

lemma trunc_div_exact:
  assumes m: "0 < m" "m < 2 ^ 32" and q: "\<bar>p\<bar> div m < 2 ^ 22"
  shows "trunc_div p m = sgn p * (\<bar>p\<bar> div m)"
proof -
  let ?q = "\<bar>p\<bar> div m"
  define k where "k = nat (53 - bitlen ?q)"
  have "0 \<le> ?q" using m(1) by (simp add: pos_imp_zdiv_nonneg_iff)
  then have "bitlen ?q \<le> 22" using q by (simp add: bitlen_le_iff_power)
  then have k: "31 \<le> k" by (simp add: k_def)
  then have K: "(2 :: int) ^ 31 \<le> 2 ^ k" by (intro power_increasing) simp_all
  let ?r = "round_even_div (\<bar>p\<bar> * 2 ^ k) m"
  have p: "\<bar>p\<bar> = m * ?q + \<bar>p\<bar> mod m" "0 \<le> \<bar>p\<bar> mod m" "\<bar>p\<bar> mod m \<le> m - 1" using m(1) by simp_all
  have "?q * 2 ^ k \<le> (\<bar>p\<bar> * 2 ^ k) div m"
  proof -
    have "(m * ?q) * 2 ^ k \<le> \<bar>p\<bar> * 2 ^ k" by (rule mult_right_mono) (use p in linarith, simp)
    then have "(m * (?q * 2 ^ k)) div m \<le> (\<bar>p\<bar> * 2 ^ k) div m" using m(1) by (intro zdiv_mono1) (simp_all add: mult.assoc)
    then show ?thesis using m(1) by simp
  qed
  then have lo: "?q * 2 ^ k \<le> ?r" using round_even_div_bounds(1) [OF m(1)] order_trans by blast
  have "2 * m * ?r \<le> 2 * (\<bar>p\<bar> * 2 ^ k) + m" by (rule round_even_div_bounds(2) [OF m(1)])
  also have "\<dots> < 2 * m * ((?q + 1) * 2 ^ k)"
  proof -
    have "\<bar>p\<bar> * 2 ^ k \<le> (m * ?q + m - 1) * 2 ^ k" by (rule mult_right_mono) (use p in linarith, simp)
    moreover have "m < 2 * 2 ^ k" using m(2) K by simp
    ultimately show ?thesis by (simp add: algebra_simps)
  qed
  finally have hi: "?r < (?q + 1) * 2 ^ k" using m(1) by simp
  have "?r div 2 ^ k = ?q" using lo hi by (intro int_div_pos_eq [of _ _ _ "?r - ?q * 2 ^ k"]) (simp_all add: algebra_simps)
  then show ?thesis by (simp add: trunc_div_def Let_def k_def)
qed

lemma quotient_less: "(0 :: int) < m \<Longrightarrow> v < k * m \<Longrightarrow> v div m < k"
proof (rule ccontr)
  assume "0 < m" "v < k * m" "\<not> v div m < k"
  then have "k * m \<le> v div m * m" by (intro mult_right_mono) simp_all
  moreover have "v div m * m \<le> v" using \<open>0 < m\<close> by (simp add: minus_mod_eq_div_mult [symmetric])
  ultimately show False using \<open>v < k * m\<close> by linarith
qed

lemma quotient_part: "(0 :: int) < m \<Longrightarrow> 0 \<le> v \<Longrightarrow> \<bar>v div m * m\<bar> \<le> v"
  using zmod_le_nonneg_dividend [of v m] by (simp add: minus_mod_eq_div_mult [symmetric])

text \<open>The modulus of a component.\<close>

definition modulus :: "int \<Rightarrow> bool" where
  "modulus m \<longleftrightarrow> 2 ^ 31 < m \<and> m < 2 ^ 32"

lemma moduli [simp]: "modulus m1" "modulus m2"
  by (simp_all add: modulus_def m1_def m2_def)

lemma quotient_small:
  assumes "modulus m" and "\<bar>v\<bar> < two53"
  shows "trunc_div v m = sgn v * (\<bar>v\<bar> div m)"
proof -
  have m: "0 < m" "m < 2 ^ 32" "2 ^ 31 < m" using assms(1) by (simp_all add: modulus_def)
  have "\<bar>v\<bar> < 2 ^ 22 * m" using assms(2) m by (simp add: two53_def)
  then have "\<bar>v\<bar> div m < 2 ^ 22" by (rule quotient_less [OF m(1)])
  then show ?thesis by (rule trunc_div_exact [OF m(1,2)])
qed

lemma truncated:
  fixes v m :: int
  assumes "0 < m"
  shows "v - sgn v * (\<bar>v\<bar> div m) * m = sgn v * (\<bar>v\<bar> mod m)" "\<bar>sgn v * (\<bar>v\<bar> div m) * m\<bar> \<le> \<bar>v\<bar>"
    "(if sgn v * (\<bar>v\<bar> mod m) < 0 then sgn v * (\<bar>v\<bar> mod m) + m else sgn v * (\<bar>v\<bar> mod m)) = v mod m"
proof -
  define q r where "q = \<bar>v\<bar> div m" and "r = \<bar>v\<bar> mod m"
  have d: "\<bar>v\<bar> = q * m + r" "0 \<le> r" "0 \<le> q" "r < m" using assms by (simp_all add: q_def r_def pos_imp_zdiv_nonneg_iff)
  have "v = sgn v * (q * m + r)" using d(1) sgn_mult_abs [of v] by simp
  then show "v - sgn v * (\<bar>v\<bar> div m) * m = sgn v * (\<bar>v\<bar> mod m)" unfolding q_def [symmetric] r_def [symmetric] by (simp add: algebra_simps)
  have "\<bar>sgn v * q * m\<bar> \<le> q * m" using d(3) assms by (auto simp: abs_mult abs_sgn_eq)
  then show "\<bar>sgn v * (\<bar>v\<bar> div m) * m\<bar> \<le> \<bar>v\<bar>" using d(1,2) unfolding q_def [symmetric] by linarith
  show "(if sgn v * (\<bar>v\<bar> mod m) < 0 then sgn v * (\<bar>v\<bar> mod m) + m else sgn v * (\<bar>v\<bar> mod m)) = v mod m"
  proof (cases "0 \<le> v")
    case False
    then have "- (- v mod m) mod m = v mod m" by (simp add: mod_minus_eq)
    then show ?thesis using False d(2,4) [unfolded r_def] zmod_zminus1_eq_if [of "- v" m] by (auto simp: sgn_if)
  qed (use d(2) [unfolded r_def] in \<open>auto simp: sgn_if\<close>)
qed

lemma reduce_ok:
  assumes m: "modulus m" and v: "\<bar>v\<bar> < two53"
  shows "reduce v m = v mod m"
proof -
  have m0: "0 < m" "m < 2 ^ 32" using m by (simp_all add: modulus_def)
  note t = truncated [OF m0(1), of v]
  have "\<bar>sgn v * (\<bar>v\<bar> mod m)\<bar> < m" using m0 by (simp add: abs_mult abs_sgn_eq)
  then have s: "\<bar>sgn v * (\<bar>v\<bar> mod m)\<bar> < two53" "sgn v * (\<bar>v\<bar> mod m) < 0 \<Longrightarrow> \<bar>sgn v * (\<bar>v\<bar> mod m) + m\<bar> < two53"
    using m0 by (auto simp: two53_def)
  have "fl (sgn v * (\<bar>v\<bar> div m) * m) = sgn v * (\<bar>v\<bar> div m) * m" using t(2) v by (intro fl_id) simp
  then show ?thesis unfolding reduce_def Let_def quotient_small [OF m v] using t(1,3) s by (auto split: if_splits)
qed

text \<open>MultModM is exact when its arguments are reduced, or small.\<close>

lemma MultModM_ok:
  assumes m: "modulus m" and c: "0 \<le> c" "c < m" and as: "(0 \<le> a \<and> a < m \<and> 0 \<le> s \<and> s < m) \<or> \<bar>a * s\<bar> < 2 ^ 52"
  shows "MultModM a s c m = (a * s + c) mod m"
proof -
  have m0: "0 < m" "m < 2 ^ 32" using m by (simp_all add: modulus_def)
  show ?thesis
  proof (cases "\<bar>a * s + c\<bar> < two53 \<and> \<bar>a * s\<bar> < two53")
    case True
    then have f: "fl (a * s) = a * s" "fl (a * s + c) = a * s + c" by (blast intro: fl_id)+
    have "\<not> (two53 \<le> a * s + c \<or> a * s + c \<le> - two53)" using True by linarith
    then show ?thesis using reduce_ok [OF m] True unfolding MultModM_def Let_def f by simp
  next
    case False
    have "\<not> \<bar>a * s\<bar> < 2 ^ 52" using False c m0 by (auto simp: two53_def)
    then have r: "0 \<le> a" "a < m" "0 \<le> s" "s < m" using as by auto
    then have pos: "0 \<le> a * s" by simp
    have big: "two53 \<le> fl (fl (a * s) + c)"
    proof (rule fl_large, cases "a * s < two53")
      case True
      then show "two53 \<le> fl (a * s) + c" using False pos c by simp
    qed (use fl_large [of "a * s"] c in simp)
    have a: "trunc_div a two17 = a div two17" "0 \<le> a div two17" "a div two17 < 2 ^ 15"
    proof -
      have "\<bar>a\<bar> div two17 < 2 ^ 15" using r m0 by (simp add: two17_def div_less_iff_less_mult)
      then show "trunc_div a two17 = a div two17" "a div two17 < 2 ^ 15" using trunc_div_exact [of two17 a] r by (auto simp: two17_def sgn_if)
      show "0 \<le> a div two17" using r by (simp add: two17_def)
    qed
    have am: "a - a div two17 * two17 = a mod two17" "0 \<le> a mod two17" "a mod two17 < 2 ^ 17" by (simp_all add: minus_div_mult_eq_mod two17_def)
    have at: "\<bar>a div two17 * two17\<bar> < two53" using a r m0 am by (simp add: two17_def two53_def)
    let ?v = "a div two17 * s"
    have v: "0 \<le> ?v" "?v < 2 ^ 15 * 2 ^ 32" using a(2,3) r m0 mult_strict_mono' [of "a div two17" "2 ^ 15" s "2 ^ 32"] by simp_all
    then have v53: "\<bar>?v\<bar> < two53" by (simp add: two53_def)
    have q: "trunc_div ?v m = ?v div m" using quotient_small [OF m v53] v by (auto simp: sgn_if)
    have vm: "?v - ?v div m * m = ?v mod m" "0 \<le> ?v mod m" "?v mod m < m" "\<bar>?v div m * m\<bar> \<le> ?v"
      using m0 v quotient_part [OF m0(1), of ?v] by (simp_all add: minus_div_mult_eq_mod)
    let ?w = "?v mod m * two17 + a mod two17 * s + c"
    have v32: "?v mod m < 2 ^ 32" using vm(3) m0(2) by linarith
    then have w1: "0 \<le> ?v mod m * two17" "?v mod m * two17 < 2 ^ 49" using vm(2) by (simp_all add: two17_def)
    have w2: "0 \<le> a mod two17 * s" "a mod two17 * s < 2 ^ 17 * 2 ^ 32"
      using am(2,3) r m0 mult_strict_mono' [of "a mod two17" "2 ^ 17" s "2 ^ 32"] by simp_all
    have small: "fl x = x" if "0 \<le> x" "x < 2 ^ 52" for x using that by (intro fl_id) (simp add: two53_def)
    have f: "fl (a div two17 * two17) = a div two17 * two17" "fl ?v = ?v" "fl (?v div m * m) = ?v div m * m"
      using at v53 vm(4) by (auto intro!: fl_id)
    have p: "(2 :: int) ^ 17 < 2 ^ 52" "(2 :: int) ^ 32 < 2 ^ 50" "(2 :: int) ^ 49 < 2 ^ 50" "(2 :: int) ^ 17 * 2 ^ 32 < 2 ^ 50" "(2 :: int) ^ 52 = 4 * 2 ^ 50" "(0 :: int) < 2 ^ 50"
      by simp_all
    have g: "fl (a mod two17) = a mod two17" by (rule small [OF am(2)]) (use am(3) p in linarith)
    have g2: "fl (?v mod m) = ?v mod m" by (rule small [OF vm(2)]) (use v32 p in linarith)
    have g3: "fl (?v mod m * two17) = ?v mod m * two17" by (rule small [OF w1(1)]) (use w1(2) p in linarith)
    have g4: "fl (a mod two17 * s) = a mod two17 * s" by (rule small [OF w2(1)]) (use w2(2) p in linarith)
    have h: "fl (?v mod m * two17 + a mod two17 * s) = ?v mod m * two17 + a mod two17 * s"
      by (rule small) (use w1 w2 p in linarith)+
    have h2: "fl ?w = ?w" by (rule small) (use w1 w2 c m0(2) p in linarith)+
    have "MultModM a s c m = reduce ?w m"
      unfolding MultModM_def Let_def a(1) f g g2 g3 g4 h h2 am(1) q vm(1) if_P [OF disjI1 [OF big]] by (rule refl)
    also have "\<dots> = ?w mod m" by (rule reduce_ok [OF m]) (use w1 w2 c m0 in \<open>simp add: two53_def\<close>)
    also have "\<dots> = (?v * two17 + a mod two17 * s + c) mod m"
      by (intro mod_add_cong mod_mult_cong) simp_all
    also have "?v * two17 + a mod two17 * s = a * s"
      by (metis (no_types, lifting) div_mult_mod_eq distrib_right mult.assoc mult.commute)
    finally show ?thesis .
  qed
qed

end
