(* ===== verification/Rng_Jump.thy ===== *)
theory Rng_Jump
  imports Rng_Stream
begin

text \<open>
  The streams of the generator: the jump of a stream to its place, by products of matrices, is the same as that many steps of
  the recurrence.
\<close>

section \<open>Matrices\<close>

text \<open>The same products, on integers.\<close>

fun dot :: "vec \<Rightarrow> vec \<Rightarrow> int" where
  "dot (a0, a1, a2) (s0, s1, s2) = a0 * s0 + a1 * s1 + a2 * s2"

fun mat_vec :: "matrix \<Rightarrow> vec \<Rightarrow> vec" where
  "mat_vec (r0, r1, r2) s = (dot r0 s, dot r1 s, dot r2 s)"

fun mat_mat :: "matrix \<Rightarrow> matrix \<Rightarrow> matrix" where
  "mat_mat A B = (case columns B of (v0, v1, v2) \<Rightarrow> columns (mat_vec A v0, mat_vec A v1, mat_vec A v2))"

fun vec_mod :: "int \<Rightarrow> vec \<Rightarrow> vec" where
  "vec_mod m (a, b, c) = (a mod m, b mod m, c mod m)"

fun mat_mod :: "int \<Rightarrow> matrix \<Rightarrow> matrix" where
  "mat_mod m (a, b, c) = (vec_mod m a, vec_mod m b, vec_mod m c)"

declare mat_mat.simps [simp del]

lemma mat_mat_vec: "mat_vec (mat_mat A B) s = mat_vec A (mat_vec B s)"
proof -
  obtain a b c d e f g h i where A: "A = ((a, b, c), (d, e, f), (g, h, i))" by (cases A rule: columns.cases)
  obtain a' b' c' d' e' f' g' h' i' where B: "B = ((a', b', c'), (d', e', f'), (g', h', i'))" by (cases B rule: columns.cases)
  obtain x y z where s: "s = (x, y, z)" by (cases s)
  show ?thesis by (simp add: A B s mat_mat.simps algebra_simps)
qed

lemma dot_mod: "dot (vec_mod m a) s mod m = dot a s mod m" "dot a (vec_mod m s) mod m = dot a s mod m"
  by (cases a; cases s; auto intro!: mod_add_cong mod_mult_cong)+

lemma mat_vec_mod: "vec_mod m (mat_vec (mat_mod m A) s) = vec_mod m (mat_vec A s)" "vec_mod m (mat_vec A (vec_mod m s)) = vec_mod m (mat_vec A s)"
proof -
  obtain r0 r1 r2 where "A = (r0, r1, r2)" by (cases A)
  then show "vec_mod m (mat_vec (mat_mod m A) s) = vec_mod m (mat_vec A s)" "vec_mod m (mat_vec A (vec_mod m s)) = vec_mod m (mat_vec A s)"
    by (simp_all only: mat_mod.simps mat_vec.simps vec_mod.simps dot_mod)
qed

lemma columns_mod: "columns (mat_mod m A) = mat_mod m (columns A)"
  by (cases A rule: columns.cases) simp

text \<open>Vectors and matrices whose products MultModM computes exactly: reduced ones, and the transition matrices.\<close>

fun reduced :: "int \<Rightarrow> vec \<Rightarrow> bool" where
  "reduced m (a, b, c) \<longleftrightarrow> 0 \<le> a \<and> a < m \<and> 0 \<le> b \<and> b < m \<and> 0 \<le> c \<and> c < m"

fun small :: "vec \<Rightarrow> bool" where
  "small (a, b, c) \<longleftrightarrow> \<bar>a\<bar> < 2 ^ 21 \<and> \<bar>b\<bar> < 2 ^ 21 \<and> \<bar>c\<bar> < 2 ^ 21"

fun rows :: "(vec \<Rightarrow> bool) \<Rightarrow> matrix \<Rightarrow> bool" where
  "rows P (a, b, c) \<longleftrightarrow> P a \<and> P b \<and> P c"

text \<open>Two vectors whose entries can be multiplied.\<close>

definition exact :: "int \<Rightarrow> int \<Rightarrow> int \<Rightarrow> bool" where
  "exact m a s \<longleftrightarrow> (0 \<le> a \<and> a < m \<and> 0 \<le> s \<and> s < m) \<or> \<bar>a * s\<bar> < 2 ^ 52"

lemma row_times_ok:
  assumes m: "modulus m" and "exact m a0 s0" "exact m a1 s1" "exact m a2 s2"
  shows "row_times (a0, a1, a2) (s0, s1, s2) m = dot (a0, a1, a2) (s0, s1, s2) mod m"
proof -
  have m0: "0 < m" using m by (simp add: modulus_def)
  have 1: "MultModM a0 s0 0 m = (a0 * s0) mod m" using MultModM_ok [OF m, of 0 a0 s0] m0 assms(2) by (simp add: exact_def)
  have 2: "MultModM a1 s1 ((a0 * s0) mod m) m = (a1 * s1 + a0 * s0) mod m"
    using MultModM_ok [OF m, of "(a0 * s0) mod m" a1 s1] m0 assms(3) by (simp add: exact_def mod_simps)
  have "MultModM a2 s2 ((a1 * s1 + a0 * s0) mod m) m = (a2 * s2 + (a1 * s1 + a0 * s0)) mod m"
    using MultModM_ok [OF m, of "(a1 * s1 + a0 * s0) mod m" a2 s2] m0 assms(4) by (simp add: exact_def mod_simps)
  then show ?thesis by (simp add: 1 2 ac_simps)
qed

lemma exact_cases:
  assumes "modulus m"
  shows "0 \<le> a \<Longrightarrow> a < m \<Longrightarrow> 0 \<le> s \<Longrightarrow> s < m \<Longrightarrow> exact m a s"
    and "\<bar>a\<bar> < 2 ^ 21 \<Longrightarrow> \<bar>s\<bar> < 2 ^ 21 \<Longrightarrow> exact m a s"
proof -
  assume "\<bar>a\<bar> < 2 ^ 21" "\<bar>s\<bar> < 2 ^ 21"
  then have "\<bar>a\<bar> * \<bar>s\<bar> < 2 ^ 21 * 2 ^ 21" by (intro mult_strict_mono') simp_all
  then show "exact m a s" by (simp add: exact_def abs_mult)
qed (simp add: exact_def)

lemma MatVecModM_ok:
  assumes m: "modulus m" and A: "(rows (reduced m) A \<and> reduced m s) \<or> (rows small A \<and> small s)"
  shows "MatVecModM A s m = vec_mod m (mat_vec A s)"
proof -
  obtain r0 r1 r2 where R: "A = (r0, r1, r2)" by (cases A)
  have "row_times r s m = dot r s mod m" if "(reduced m r \<and> reduced m s) \<or> (small r \<and> small s)" for r
  proof -
    obtain a0 a1 a2 s0 s1 s2 where v: "r = (a0, a1, a2)" "s = (s0, s1, s2)" by (cases r; cases s)
    show ?thesis unfolding v by (rule row_times_ok [OF m]) (use that v exact_cases [OF m] in auto)
  qed
  then show ?thesis using A by (simp add: R del: row_times.simps dot.simps split_paired_All) blast
qed

lemma reduced_mod: "0 < m \<Longrightarrow> reduced m (vec_mod m s)"
  by (cases s) simp

lemma rows_columns [simp]: "rows (reduced m) (columns A) = rows (reduced m) A" "rows small (columns A) = rows small A"
  by (cases A rule: columns.cases; auto)+

lemma MatMatModM_ok:
  assumes m: "modulus m" and A: "(rows (reduced m) A \<and> rows (reduced m) B) \<or> (rows small A \<and> rows small B)"
  shows "MatMatModM A B m = mat_mod m (mat_mat A B)"
proof -
  obtain v0 v1 v2 where c: "columns B = (v0, v1, v2)" by (cases "columns B")
  have "rows (reduced m) A \<and> rows (reduced m) (v0, v1, v2) \<or> rows small A \<and> rows small (v0, v1, v2)" using A c rows_columns by metis
  then have "MatVecModM A v m = vec_mod m (mat_vec A v)" if "v \<in> {v0, v1, v2}" for v
    using MatVecModM_ok [OF m, of A v] that by auto
  then show ?thesis by (simp add: MatMatModM_def mat_mat.simps c columns_mod [symmetric])
qed

text \<open>Powers.\<close>

fun mat_pow :: "matrix \<Rightarrow> nat \<Rightarrow> matrix" where
  "mat_pow A 0 = identity"
| "mat_pow A (Suc n) = mat_mat A (mat_pow A n)"

lemma mat_eqI:
  assumes "\<And>s. mat_vec A s = mat_vec B s"
  shows "A = B"
proof -
  obtain a b c d e f g h i where A: "A = ((a, b, c), (d, e, f), (g, h, i))" by (cases A rule: columns.cases)
  obtain a' b' c' d' e' f' g' h' i' where B: "B = ((a', b', c'), (d', e', f'), (g', h', i'))" by (cases B rule: columns.cases)
  show ?thesis using assms [of "(1, 0, 0)"] assms [of "(0, 1, 0)"] assms [of "(0, 0, 1)"] by (simp add: A B)
qed

lemma mat_vec_pow: "mat_vec (mat_pow A n) s = (mat_vec A ^^ n) s"
  by (induction n) (simp_all add: mat_mat_vec identity_def, cases s, simp)

lemma mat_pow_add: "mat_mat (mat_pow A k) (mat_pow A n) = mat_pow A (k + n)"
  by (rule mat_eqI) (simp only: mat_mat_vec mat_vec_pow funpow_add o_apply)

lemma mat_mat_mod: "mat_mod m (mat_mat (mat_mod m A) (mat_mod m B)) = mat_mod m (mat_mat A B)"
proof -
  obtain v0 v1 v2 where c: "columns B = (v0, v1, v2)" by (cases "columns B")
  show ?thesis by (simp add: mat_mat.simps c columns_mod columns_mod [symmetric] mat_vec_mod del: mat_vec.simps)
qed

lemma mod_mod [simp]: "vec_mod m (vec_mod m s) = vec_mod m s" "mat_mod m (mat_mod m A) = mat_mod m A"
  by (cases s; simp) (cases A rule: columns.cases; simp)

lemma rows_mod: "0 < m \<Longrightarrow> rows (reduced m) (mat_mod m A)"
  by (cases A rule: columns.cases) simp

lemma MatTwoPowModM_ok:
  assumes m: "modulus m" and A: "rows small A"
  shows "mat_mod m (MatTwoPowModM A m e) = mat_mod m (mat_pow A (2 ^ e)) \<and> (0 < e \<longrightarrow> rows (reduced m) (MatTwoPowModM A m e))"
proof (induction e)
  case 0
  have "mat_mat A identity = A" by (cases A rule: columns.cases) (simp add: identity_def mat_mat.simps)
  then show ?case by simp
next
  case (Suc e)
  let ?D = "MatTwoPowModM A m e"
  have m0: "0 < m" using m by (simp add: modulus_def)
  have "MatMatModM ?D ?D m = mat_mod m (mat_mat ?D ?D)"
    by (rule MatMatModM_ok [OF m]) (use Suc A in \<open>cases e; auto\<close>)
  also have "\<dots> = mat_mod m (mat_mat (mat_mod m ?D) (mat_mod m ?D))" by (simp only: mat_mat_mod)
  also have "\<dots> = mat_mod m (mat_pow A (2 ^ Suc e))"
    using Suc by (simp only: mat_mat_mod mat_pow_add mult_2 power_Suc)
  finally show ?case using rows_mod [OF m0] by (simp add: Let_def)
qed

text \<open>MatPowModM. Every matrix that occurs in its loop is a power times \<open>B\<close>, modulo \<open>m\<close>.\<close>

lemma mat_assoc: "mat_mat (mat_mat A B) C = mat_mat A (mat_mat B C)"
  by (rule mat_eqI) (simp only: mat_mat_vec)

lemma mat_pow_mod: "mat_mod m (mat_pow (mat_mod m A) n) = mat_mod m (mat_pow A n)"
proof (induction n)
  case (Suc n)
  have "mat_mod m (mat_pow (mat_mod m A) (Suc n)) = mat_mod m (mat_mat (mat_mod m (mat_mod m A)) (mat_mod m (mat_pow (mat_mod m A) n)))"
    by (simp only: mat_pow.simps mat_mat_mod)
  then show ?case by (simp only: Suc mod_mod mat_mat_mod mat_pow.simps)
qed simp

lemma mat_pow_square: "mat_pow (mat_mat A A) n = mat_pow A (2 * n)"
proof (induction n)
  case (Suc n)
  have "mat_pow A (2 * Suc n) = mat_mat A (mat_mat A (mat_pow A (2 * n)))" by simp
  then show ?case by (simp only: mat_pow.simps Suc mat_assoc)
qed simp

lemma mat_pow_mat: "mat_mat (mat_pow A n) A = mat_pow A (Suc n)"
proof -
  have "mat_pow A 1 = A" by (cases A rule: columns.cases) (simp add: identity_def mat_mat.simps)
  then show ?thesis using mat_pow_add [of A n 1] by simp
qed

lemma square_step: "mat_mod m (mat_mat (mat_pow (mat_mod m (mat_mat W W)) k) (mat_mod m B)) = mat_mod m (mat_mat (mat_pow W (2 * k)) B)"
proof -
  have "mat_mod m (mat_mat (mat_pow (mat_mod m (mat_mat W W)) k) (mat_mod m B)) =
      mat_mod m (mat_mat (mat_mod m (mat_pow (mat_mod m (mat_mat W W)) k)) (mat_mod m (mat_mod m B)))" by (simp only: mat_mat_mod)
  then show ?thesis by (simp only: mat_pow_mod mat_pow_square mod_mod mat_mat_mod)
qed

lemma reduced_same: "rows (reduced m) B \<Longrightarrow> mat_mod m B = B"
  by (cases B rule: columns.cases) simp

lemma mat_pow_loop_ok:
  "modulus m \<Longrightarrow> rows (reduced m) W \<Longrightarrow> rows (reduced m) B \<Longrightarrow> mat_mod m (mat_pow_loop n W B m) = mat_mod m (mat_mat (mat_pow W n) B)"
proof (induction n W B m rule: mat_pow_loop.induct)
  case (1 n W B m)
  show ?case
  proof (cases "0 < n")
    case True
    have m0: "0 < m" using "1.prems" by (simp add: modulus_def)
    have W: "MatMatModM W W m = mat_mod m (mat_mat W W)" and B: "MatMatModM W B m = mat_mod m (mat_mat W B)" using MatMatModM_ok "1.prems" by blast+
    have rec: "mat_mod m (mat_pow_loop n W B m) =
        mat_mod m (mat_mat (mat_pow (mat_mod m (mat_mat W W)) (n div 2)) (mat_mod m (if n mod 2 = 0 then B else mat_mat W B)))"
    proof -
      have "(if n mod 2 = 0 then B else MatMatModM W B m) = mat_mod m (if n mod 2 = 0 then B else mat_mat W B)"
        using B reduced_same [OF "1.prems"(3)] by simp
      then show ?thesis using "1.IH" [OF True "1.prems"(1)] True rows_mod [OF m0] by (simp only: mat_pow_loop.simps [of n] W if_True)
    qed
    have "mat_mat (mat_pow W (2 * (n div 2))) (if n mod 2 = 0 then B else mat_mat W B) = mat_mat (mat_pow W n) B"
      using mat_pow_mat [of W "2 * (n div 2)"] by (auto simp: mat_assoc [symmetric] mod_2_eq_odd simp del: mat_pow.simps)
    then show ?thesis unfolding rec square_step by simp
  next
    case False
    have "mat_mat identity B = B" by (cases B rule: columns.cases) (simp add: identity_def mat_mat.simps)
    then show ?thesis using False by (simp add: mat_pow_loop.simps [of 0])
  qed
qed

section \<open>The recurrence\<close>

fun next1 :: "vec \<Rightarrow> vec" where
  "next1 (s0, s1, s2) = (s1, s2, (a12 * s1 - a13n * s0) mod m1)"

fun next2 :: "vec \<Rightarrow> vec" where
  "next2 (s3, s4, s5) = (s4, s5, (a21 * s5 - a23n * s3) mod m2)"

definition rng_step :: "rng_state \<Rightarrow> rng_state" where
  "rng_step s = (next1 (fst s), next2 (snd s))"

definition rng_ok :: "rng_state \<Rightarrow> bool" where
  "rng_ok s \<longleftrightarrow> reduced m1 (fst s) \<and> reduced m2 (snd s)"

lemma m_pos [simp]: "0 < m1" "0 < m2"
  by (simp_all add: m1_def m2_def)

lemma next_matrix:
  "reduced m1 x \<Longrightarrow> vec_mod m1 (mat_vec A1p0 x) = next1 x" "reduced m2 y \<Longrightarrow> vec_mod m2 (mat_vec A2p0 y) = next2 y"
  by (cases x; simp add: A1p0_def a12_def a13n_def) (cases y; simp add: A2p0_def a21_def a23n_def)

lemma next_reduced: "reduced m1 x \<Longrightarrow> reduced m1 (next1 x)" "reduced m2 y \<Longrightarrow> reduced m2 (next2 y)"
  by (cases x; simp) (cases y; simp)

lemma vec_mod_reduced: "reduced m x \<Longrightarrow> vec_mod m x = x"
  by (cases x) simp

text \<open>\<open>n\<close> steps are one product with the power of the matrix.\<close>

lemma steps_matrix:
  assumes "\<And>x. reduced m x \<Longrightarrow> vec_mod m (mat_vec A x) = f x" and "\<And>x. reduced m x \<Longrightarrow> reduced m (f x)" and "reduced m x"
  shows "vec_mod m (mat_vec (mat_pow A n) x) = (f ^^ n) x \<and> reduced m ((f ^^ n) x)"
proof (induction n)
  case 0
  have "mat_vec identity x = x" by (cases x) (simp add: identity_def)
  then show ?case using assms(3) vec_mod_reduced by simp
next
  case (Suc n)
  have "vec_mod m (mat_vec (mat_pow A (Suc n)) x) = vec_mod m (mat_vec A (vec_mod m (mat_vec (mat_pow A n) x)))"
    by (simp only: mat_pow.simps mat_mat_vec mat_vec_mod)
  then show ?case using Suc assms(1,2) by simp
qed

lemma rng_steps: "(rng_step ^^ n) s = ((next1 ^^ n) (fst s), (next2 ^^ n) (snd s))"
  by (induction n) (simp_all add: rng_step_def)

lemma rng_steps_ok: "rng_ok s \<Longrightarrow> rng_ok ((rng_step ^^ n) s)"
  using steps_matrix [OF next_matrix(1) next_reduced(1)] steps_matrix [OF next_matrix(2) next_reduced(2)] by (simp add: rng_steps rng_ok_def)

section \<open>Jumps\<close>

lemma PowerOfTwoMatrix_ok:
  assumes "1 \<le> n" and "n \<le> 190"
  shows "PowerOfTwoMatrix n = Some (MatTwoPowModM A1p0 m1 n, MatTwoPowModM A2p0 m2 n)"
  using assms by (cases n) (simp_all add: PowerOfTwoMatrix_def PowerOfTwoConstants_def)

lemma jump_matrix:
  assumes m: "modulus m" and A: "rows small A" and e: "0 < e" and x: "reduced m x"
  shows "MatVecModM (MatTwoPowModM A m e) x m = vec_mod m (mat_vec (mat_pow A (2 ^ e)) x)"
proof -
  note t = MatTwoPowModM_ok [OF m A, of e]
  have "MatVecModM (MatTwoPowModM A m e) x m = vec_mod m (mat_vec (MatTwoPowModM A m e) x)"
    using MatVecModM_ok [OF m] t e x by blast
  also have "\<dots> = vec_mod m (mat_vec (mat_mod m (MatTwoPowModM A m e)) x)" by (simp only: mat_vec_mod)
  also have "\<dots> = vec_mod m (mat_vec (mat_pow A (2 ^ e)) x)" using t by (simp only: mat_vec_mod)
  finally show ?thesis .
qed

lemma transition_small: "rows small A1p0" "rows small A2p0"
  by (simp_all add: A1p0_def A2p0_def)

lemma low_bits: "unat (take_bit (Suc n) w) = (if bit w n then 2 ^ n else 0) + unat (take_bit n w)" for w :: u64
  by (simp add: unsigned_take_bit_eq take_bit_Suc_from_most bit_unsigned_iff)

lemma advance_bits_ok:
  assumes "rng_ok s" and "1 \<le> by'" and "by' + n \<le> 191"
  shows "advance_bits n idx by' s = Some ((rng_step ^^ (unat (take_bit n idx) * 2 ^ by')) s)"
  using assms
proof (induction n arbitrary: s)
  case (Suc n)
  let ?j = "if bit idx n then (rng_step ^^ (2 ^ (by' + n))) s else s"
  have "advance_bits (Suc n) idx by' s = advance_bits n idx by' ?j"
  proof (cases "bit idx n")
    case True
    have "(MatVecModM (MatTwoPowModM A1p0 m1 (by' + n)) (fst s) m1, MatVecModM (MatTwoPowModM A2p0 m2 (by' + n)) (snd s) m2) = (rng_step ^^ (2 ^ (by' + n))) s"
      using jump_matrix [OF moduli(1) transition_small(1)] jump_matrix [OF moduli(2) transition_small(2)]
        steps_matrix [OF next_matrix(1) next_reduced(1)] steps_matrix [OF next_matrix(2) next_reduced(2)] Suc.prems
      by (simp add: rng_steps rng_ok_def)
    then show ?thesis using True PowerOfTwoMatrix_ok [of "by' + n"] Suc.prems by simp
  qed simp
  also have "\<dots> = Some ((rng_step ^^ (unat (take_bit n idx) * 2 ^ by')) ?j)"
    using Suc.IH [of ?j] Suc.prems rng_steps_ok by simp
  also have "(rng_step ^^ (unat (take_bit n idx) * 2 ^ by')) ?j = (rng_step ^^ (unat (take_bit (Suc n) idx) * 2 ^ by')) s"
    by (simp add: low_bits funpow_add [symmetric, THEN fun_cong, simplified] algebra_simps power_add)
  finally show ?case .
qed simp

lemma AdvanceNthBy_ok:
  assumes "rng_ok s" and "1 \<le> by'" and "by' \<le> 127"
  shows "AdvanceNthBy idx by' s = Some ((rng_step ^^ (unat idx * 2 ^ by')) s)"
  using advance_bits_ok [OF assms(1,2), of 64 idx] assms(3) take_bit_word_eq_self [of 64 idx] by (simp add: AdvanceNthBy_def)

definition seed_state :: "u32 \<Rightarrow> rng_state" where
  "seed_state seed = ((uint seed, uint seed, uint seed), (uint seed, uint seed, uint seed))"

definition valid_seed :: "u32 \<Rightarrow> bool" where
  "valid_seed seed \<longleftrightarrow> 0 < uint seed \<and> uint seed < m2"

lemma seed_state_ok: "valid_seed seed \<Longrightarrow> rng_ok (seed_state seed)"
  by (auto simp: valid_seed_def rng_ok_def seed_state_def m1_def m2_def)

lemma RngStream_ok:
  "RngStream seed stream substream =
     (if valid_seed seed then Some ((rng_step ^^ (unat stream * 2 ^ 127 + unat substream * 2 ^ 76)) (seed_state seed)) else None)"
proof (cases "valid_seed seed")
  case True
  then have s: "\<not> (m1 \<le> uint seed \<or> m2 \<le> uint seed \<or> uint seed = 0)" by (auto simp: valid_seed_def m1_def m2_def)
  let ?a = "(rng_step ^^ (unat stream * 2 ^ 127)) (seed_state seed)"
  have "AdvanceNthBy stream 127 (seed_state seed) = Some ?a" using AdvanceNthBy_ok [OF seed_state_ok [OF True], of 127] by simp
  moreover have "AdvanceNthBy substream 76 ?a = Some ((rng_step ^^ (unat substream * 2 ^ 76)) ?a)"
    using AdvanceNthBy_ok [OF rng_steps_ok [OF seed_state_ok [OF True]], of 76] by simp
  ultimately show ?thesis using s True by (simp add: RngStream_def Let_def seed_state_def funpow_add add.commute)
qed (auto simp: RngStream_def Let_def valid_seed_def not_less uint_lt_0)

section \<open>Draws\<close>

definition draw :: "rng_state \<Rightarrow> int" where
  "draw s = (let p1 = snd (snd (fst s)); p2 = snd (snd (snd s)) in if p2 < p1 then p1 - p2 else p1 - p2 + m1)"

lemma difference_exact:
  assumes "0 \<le> x" "x < m1" "0 \<le> y" "y < m2"
  shows "fl (x - y) = x - y" "fl (x - y + m1) = x - y + m1"
  using assms by (auto intro!: fl_id simp: two53_def m1_def m2_def)

lemma RandU01_ok:
  assumes "rng_ok s"
  shows "RandU01 s = (draw (rng_step s), rng_step s)"
proof -
  obtain s0 s1 s2 s3 s4 s5 where s: "s = ((s0, s1, s2), (s3, s4, s5))" by (cases s rule: RandU01.cases)
  have r: "0 \<le> s0" "s0 < m1" "0 \<le> s1" "s1 < m1" "0 \<le> s3" "s3 < m2" "0 \<le> s5" "s5 < m2" using assms by (simp_all add: s rng_ok_def)
  let ?p1 = "a12 * s1 - a13n * s0" and ?p2 = "a21 * s5 - a23n * s3"
  have b: "\<bar>a12 * s1\<bar> < two53" "\<bar>a13n * s0\<bar> < two53" "\<bar>?p1\<bar> < two53" "\<bar>a21 * s5\<bar> < two53" "\<bar>a23n * s3\<bar> < two53" "\<bar>?p2\<bar> < two53"
    using r by (simp_all add: two53_def a12_def a13n_def a21_def a23n_def m1_def m2_def)
  let ?q1 = "?p1 mod m1" and ?q2 = "?p2 mod m2"
  have q: "reduce ?p1 m1 = ?q1" "reduce ?p2 m2 = ?q2" using reduce_ok b(3,6) by simp_all
  have "0 \<le> ?q1" "?q1 < m1" "0 \<le> ?q2" "?q2 < m2" by simp_all
  note f = difference_exact [OF this]
  show ?thesis
    unfolding s RandU01.simps Let_def fl_id [OF b(1)] fl_id [OF b(2)] fl_id [OF b(3)] fl_id [OF b(4)] fl_id [OF b(5)] fl_id [OF b(6)]
      reduce_def [unfolded Let_def, symmetric] q f
    by (simp add: rng_step_def draw_def)
qed

lemma draw_bounds: "rng_ok s \<Longrightarrow> 1 \<le> draw s \<and> draw s \<le> m1"
proof -
  assume "rng_ok s"
  moreover obtain s0 s1 s2 s3 s4 s5 where "s = ((s0, s1, s2), (s3, s4, s5))" by (cases s rule: RandU01.cases)
  ultimately show ?thesis by (auto simp: rng_ok_def draw_def m1_def m2_def)
qed

text \<open>Several draws from a stream.\<close>

primrec draws :: "nat \<Rightarrow> rng_state \<Rightarrow> int list \<times> rng_state" where
  "draws 0 s = ([], s)"
| "draws (Suc n) s = (case RandU01 s of (z, s) \<Rightarrow> case draws n s of (zs, s) \<Rightarrow> (z # zs, s))"

lemma draws_ok:
  "rng_ok s \<Longrightarrow> draws n s = (map (\<lambda>i. draw ((rng_step ^^ Suc i) s)) [0..<n], (rng_step ^^ n) s)"
proof (induction n arbitrary: s)
  case (Suc n)
  have "rng_ok (rng_step s)" using rng_steps_ok [OF Suc.prems, of 1] by simp
  then show ?case using Suc.IH [of "rng_step s"] RandU01_ok [OF Suc.prems]
    by (simp add: map_upt_Suc funpow_swap1 o_def del: upt_Suc)
qed simp

end
