(* ===== verification/Random_Variables.thy ===== *)
theory Random_Variables
  imports Rng_Jump
begin

text \<open>
  src/core/model/rng-seed-manager.cc and random-variable-stream.cc: the seed, the run and the stream of every random variable.
\<close>

section \<open>RngSeedManager and RandomVariableStream::SetStream\<close>

record rng_globals =
  g_nextStreamIndex :: u64
  g_rngSeed :: u32
  g_rngRun :: u64

definition rng_globals_init :: rng_globals where
  "rng_globals_init = \<lparr>g_nextStreamIndex = 0, g_rngSeed = 1, g_rngRun = 1\<rparr>"

definition rng_SetSeed :: "u32 \<Rightarrow> rng_globals \<Rightarrow> rng_globals" where
  "rng_SetSeed seed g = g\<lparr>g_rngSeed := seed\<rparr>"

definition rng_SetRun :: "u64 \<Rightarrow> rng_globals \<Rightarrow> rng_globals" where
  "rng_SetRun run g = g\<lparr>g_rngRun := run\<rparr>"

definition GetNextStreamIndex :: "rng_globals \<Rightarrow> u64 \<times> rng_globals" where
  "GetNextStreamIndex g = (g_nextStreamIndex g, g\<lparr>g_nextStreamIndex := g_nextStreamIndex g + 1\<rparr>)"

text \<open>A random variable: its generator and the number of its stream, an \<open>int64_t\<close>.\<close>

record RandomVariable =
  m_rng :: rng_state
  m_stream :: int

definition rv_SetStream :: "int \<Rightarrow> rng_globals \<Rightarrow> (RandomVariable \<times> rng_globals) option" where
  "rv_SetStream stream g =
     (if - 1 \<le> stream then
        if stream = - 1 then
          (case GetNextStreamIndex g of
             (nextStream, g) \<Rightarrow>
               if nextStream \<le> 2 ^ 63
               then do { r \<leftarrow> RngStream (g_rngSeed g) nextStream (g_rngRun g); Some (\<lparr>m_rng = r, m_stream = stream\<rparr>, g) }
               else None)
        else do { r \<leftarrow> RngStream (g_rngSeed g) (2 ^ 63 + word_of_int stream) (g_rngRun g); Some (\<lparr>m_rng = r, m_stream = stream\<rparr>, g) }
      else None)"

text \<open>A program that makes random variables, one after the other.\<close>

fun rv_make :: "int list \<Rightarrow> rng_globals \<Rightarrow> (RandomVariable list \<times> rng_globals) option" where
  "rv_make [] g = Some ([], g)"
| "rv_make (n # ns) g = do { (v, g) \<leftarrow> rv_SetStream n g; (vs, g) \<leftarrow> rv_make ns g; Some (v # vs, g) }"

section \<open>Blocks of the sequence\<close>

text \<open>The sequence of all draws for a seed, and the place in it at which a stream starts.\<close>

definition sequence :: "u32 \<Rightarrow> nat \<Rightarrow> int" where
  "sequence seed k = draw ((rng_step ^^ Suc k) (seed_state seed))"

definition rng_place :: "nat \<Rightarrow> nat \<Rightarrow> nat" where
  "rng_place stream run = stream * 2 ^ 127 + run * 2 ^ 76"

lemma draws_from:
  assumes "valid_seed seed"
  shows "draws n ((rng_step ^^ k) (seed_state seed)) = (map (sequence seed) [k..<k + n], (rng_step ^^ (k + n)) (seed_state seed))"
proof -
  let ?s = "(rng_step ^^ k) (seed_state seed)"
  have "(rng_step ^^ Suc i) ?s = (rng_step ^^ Suc (k + i)) (seed_state seed)" for i
    by (simp only: add.commute [of k] add_Suc [symmetric] funpow_add o_apply)
  then have "draw ((rng_step ^^ Suc i) ?s) = sequence seed (k + i)" for i by (simp only: sequence_def)
  then have "map (\<lambda>i. draw ((rng_step ^^ Suc i) ?s)) [0..<n] = map (sequence seed) [k..<k + n]"
    by (intro nth_equalityI) simp_all
  moreover have "(rng_step ^^ n) ?s = (rng_step ^^ (k + n)) (seed_state seed)" by (simp add: funpow_add add.commute [of k])
  ultimately show ?thesis using draws_ok [OF rng_steps_ok [OF seed_state_ok [OF assms]]] by metis
qed

text \<open>Blocks of \<open>2 ^ 76\<close> draws do not overlap, as long as there are fewer than \<open>2 ^ 51\<close> runs.\<close>

lemma rng_place_disjoint:
  assumes "rng_place i r + a = rng_place j q + b" and "r < 2 ^ 51" "q < 2 ^ 51" "a < 2 ^ 76" "b < 2 ^ 76"
  shows "i = j \<and> r = q"
proof -
  have e: "(i * 2 ^ 51 + r) * 2 ^ 76 + a = (j * 2 ^ 51 + q) * 2 ^ 76 + b"
    using assms(1) by (simp add: rng_place_def algebra_simps)
  have "((i * 2 ^ 51 + r) * 2 ^ 76 + a) div 2 ^ 76 = i * 2 ^ 51 + r" using assms(4) by (simp add: div_mult_self3)
  moreover have "((j * 2 ^ 51 + q) * 2 ^ 76 + b) div 2 ^ 76 = j * 2 ^ 51 + q" using assms(5) by (simp add: div_mult_self3)
  ultimately have f: "i * 2 ^ 51 + r = j * 2 ^ 51 + q" using e by metis
  have "(i * 2 ^ 51 + r) div 2 ^ 51 = i" "(j * 2 ^ 51 + q) div 2 ^ 51 = j" using assms(2,3) by simp_all
  then show ?thesis using f by (metis add_left_cancel)
qed

section \<open>The streams of a program\<close>

text \<open>The streams that the variables get: automatic ones are numbered from \<open>k\<close>, fixed ones lie behind \<open>2 ^ 63\<close>.\<close>

fun stream_numbers :: "int list \<Rightarrow> nat \<Rightarrow> nat list" where
  "stream_numbers [] k = []"
| "stream_numbers (n # ns) k = (if n = - 1 then k # stream_numbers ns (Suc k) else (2 ^ 63 + nat n) # stream_numbers ns k)"

definition stream_ok :: "int \<Rightarrow> bool" where
  "stream_ok n \<longleftrightarrow> - 1 \<le> n \<and> n < 2 ^ 63"

lemma length_numbers [simp]: "length (stream_numbers ns k) = length ns"
  by (induction ns arbitrary: k) auto

lemma uint_small: "0 \<le> k \<Longrightarrow> k < 2 ^ 64 \<Longrightarrow> uint (word_of_int k :: u64) = k"
  by (simp add: uint_word_of_int_eq take_bit_int_eq_self)

lemma fixed_index: "0 \<le> n \<Longrightarrow> n < 2 ^ 63 \<Longrightarrow> unat (2 ^ 63 + word_of_int n :: u64) = 2 ^ 63 + nat n"
proof -
  assume n: "0 \<le> n" "n < 2 ^ 63"
  have "(2 ^ 63 + word_of_int n :: u64) = word_of_int (2 ^ 63 + n)" by simp
  moreover have "uint (word_of_int (2 ^ 63 + n) :: u64) = 2 ^ 63 + n" by (rule uint_small) (use n in simp_all)
  ultimately have "unat (2 ^ 63 + word_of_int n :: u64) = nat (2 ^ 63 + n)" by (simp only: unat_eq_nat_uint)
  then show ?thesis using n(1) by (simp add: nat_add_distrib)
qed

lemma rv_make_ok:
  assumes "valid_seed (g_rngSeed g)" and "\<forall>n \<in> set ns. stream_ok n" and "unat (g_nextStreamIndex g) + length ns \<le> 2 ^ 63"
  shows "\<exists>vs g'. rv_make ns g = Some (vs, g') \<and> map m_stream vs = ns \<and>
    map m_rng vs = map (\<lambda>i. (rng_step ^^ rng_place i (unat (g_rngRun g))) (seed_state (g_rngSeed g))) (stream_numbers ns (unat (g_nextStreamIndex g)))"
  using assms
proof (induction ns arbitrary: g)
  case (Cons n ns)
  let ?k = "unat (g_nextStreamIndex g)"
  show ?case
  proof (cases "n = - 1")
    case True
    let ?g = "g\<lparr>g_nextStreamIndex := g_nextStreamIndex g + 1\<rparr>"
    have k: "unat (g_nextStreamIndex g + 1) = Suc ?k" using Cons.prems(3) by (simp add: unat_word_ariths)
    have le: "g_nextStreamIndex g \<le> 2 ^ 63" using Cons.prems(3) by (simp add: word_le_nat_alt)
    obtain vs g' where "rv_make ns ?g = Some (vs, g')" "map m_stream vs = ns"
      "map m_rng vs = map (\<lambda>i. (rng_step ^^ rng_place i (unat (g_rngRun g))) (seed_state (g_rngSeed g))) (stream_numbers ns (Suc ?k))"
      using Cons.IH [of ?g] Cons.prems k by auto
    then show ?thesis using True Cons.prems(1) le by (simp add: rv_SetStream_def GetNextStreamIndex_def RngStream_ok rng_place_def)
  next
    case False
    then have n: "0 \<le> n" "n < 2 ^ 63" using Cons.prems(2) by (simp_all add: stream_ok_def)
    obtain vs g' where "rv_make ns g = Some (vs, g')" "map m_stream vs = ns"
      "map m_rng vs = map (\<lambda>i. (rng_step ^^ rng_place i (unat (g_rngRun g))) (seed_state (g_rngSeed g))) (stream_numbers ns ?k)"
      using Cons.IH [of g] Cons.prems by auto
    then show ?thesis using False n Cons.prems(1) fixed_index [OF n] by (simp add: rv_SetStream_def RngStream_ok rng_place_def)
  qed
qed simp

lemma numbers_range:
  "i \<in> set (stream_numbers ns k) \<Longrightarrow> (k \<le> i \<and> i < k + length ns) \<or> (\<exists>n \<in> set ns. n \<noteq> - 1 \<and> i = 2 ^ 63 + nat n)"
proof (induction ns arbitrary: k)
  case (Cons n ns)
  show ?case
  proof (cases "n = - 1")
    case True
    then show ?thesis using Cons.IH [of "Suc k"] Cons.prems by (auto simp del: power_numeral)
  next
    case False
    then show ?thesis using Cons.IH [of k] Cons.prems by (auto simp del: power_numeral)
  qed
qed simp

lemma numbers_distinct:
  assumes "\<forall>n \<in> set ns. stream_ok n" and "distinct (filter (\<lambda>n. n \<noteq> - 1) ns)" and "k + length ns \<le> 2 ^ 63"
  shows "distinct (stream_numbers ns k)"
  using assms
proof (induction ns arbitrary: k)
  case (Cons n ns)
  show ?case
  proof (cases "n = - 1")
    case True
    have "k \<notin> set (stream_numbers ns (Suc k))" using numbers_range [of k ns "Suc k"] Cons.prems(3) by (auto simp del: power_numeral)
    then show ?thesis using True Cons.IH [of "Suc k"] Cons.prems by simp
  next
    case False
    have "nat n \<noteq> nat n'" if "n' \<in> set ns" "n' \<noteq> - 1" for n'
      using that Cons.prems(1,2) False by (auto simp: stream_ok_def eq_nat_nat_iff)
    then have "2 ^ 63 + nat n \<notin> set (stream_numbers ns k)"
      using numbers_range [of "2 ^ 63 + nat n" ns k] Cons.prems(3) by (auto simp del: power_numeral)
    then show ?thesis using False Cons.IH [of k] Cons.prems by simp
  qed
qed simp

section \<open>Properties\<close>

text \<open>
  C7: The random variables of a program are independent of each other. Let the seed be valid, the run below \<open>2 ^ 51\<close>, and fewer than
  \<open>2 ^ 63\<close> variables be made, with automatic streams or fixed ones, no fixed stream twice. Then every variable gets its generator, and
  there is one infinite sequence, the recurrence of MRG32k3a started at the seed, of which every variable draws
  consecutive numbers from a place of its own; the blocks of \<open>2 ^ 76\<close> numbers at these places do not overlap.
  So the products of matrices in floating point by which a stream jumps to its place are exact.
\<close>

theorem variables_draw_from_blocks:
  assumes "valid_seed (g_rngSeed g)" and "g_nextStreamIndex g = 0" and "unat (g_rngRun g) < 2 ^ 51"
    and "\<forall>n \<in> set ns. stream_ok n" and "distinct (filter (\<lambda>n. n \<noteq> - 1) ns)" and "length ns \<le> 2 ^ 63"
  shows "\<exists>vs g' places. rv_make ns g = Some (vs, g') \<and> length vs = length ns \<and> length places = length ns \<and>
    (\<forall>i < length ns. \<forall>c. fst (draws c (m_rng (vs ! i))) = map (sequence (g_rngSeed g)) [places ! i..<places ! i + c]) \<and>
    (\<forall>i < length ns. \<forall>j < length ns. i \<noteq> j \<longrightarrow> {places ! i..<places ! i + 2 ^ 76} \<inter> {places ! j..<places ! j + 2 ^ 76} = {})"
proof -
  let ?is = "stream_numbers ns 0" and ?r = "unat (g_rngRun g)"
  let ?places = "map (\<lambda>i. rng_place i ?r) ?is"
  obtain vs g' where v: "rv_make ns g = Some (vs, g')" "map m_stream vs = ns"
    "map m_rng vs = map (\<lambda>i. (rng_step ^^ rng_place i ?r) (seed_state (g_rngSeed g))) ?is"
    using rv_make_ok [OF assms(1,4)] assms(2,6) by auto
  have len: "length vs = length ns" using arg_cong [OF v(2), of length] by simp
  have "fst (draws c (m_rng (vs ! i))) = map (sequence (g_rngSeed g)) [?places ! i..<?places ! i + c]" if "i < length ns" for i c
  proof -
    have "m_rng (vs ! i) = map m_rng vs ! i" using that len by simp
    also have "\<dots> = (rng_step ^^ (?places ! i)) (seed_state (g_rngSeed g))" using that by (simp add: v(3))
    finally show ?thesis using draws_from [OF assms(1)] by simp
  qed
  moreover have "{?places ! i..<?places ! i + 2 ^ 76} \<inter> {?places ! j..<?places ! j + 2 ^ 76} = {}" if "i < length ns" "j < length ns" "i \<noteq> j" for i j
  proof -
    have "distinct ?is" using numbers_distinct [OF assms(4,5)] assms(6) by simp
    then have "?is ! i \<noteq> ?is ! j" using that by (simp add: nth_eq_iff_index_eq)
    then have "rng_place (?is ! i) ?r + a \<noteq> rng_place (?is ! j) ?r + b" if "a < 2 ^ 76" "b < 2 ^ 76" for a b
      using rng_place_disjoint [OF _ assms(3,3) that] by blast
    note apart = this
    show ?thesis
    proof (rule equals0I)
      fix x assume "x \<in> {?places ! i..<?places ! i + 2 ^ 76} \<inter> {?places ! j..<?places ! j + 2 ^ 76}"
      then have x: "rng_place (?is ! i) ?r \<le> x" "x < rng_place (?is ! i) ?r + 2 ^ 76" "rng_place (?is ! j) ?r \<le> x" "x < rng_place (?is ! j) ?r + 2 ^ 76"
        using that(1,2) by simp_all
      then obtain a b where "x = rng_place (?is ! i) ?r + a" "x = rng_place (?is ! j) ?r + b" unfolding le_iff_add by blast
      then show False using apart [of a b] x by simp
    qed
  qed
  ultimately show ?thesis using v(1) len by (intro exI [of _ vs] exI [of _ g'] exI [of _ ?places]) simp
qed

theorem variables_draw_from_blocks_witness:
  "\<exists>vs g' places. rv_make [- 1, 5, - 1, 0] rng_globals_init = Some (vs, g') \<and> length places = 4 \<and>
     (\<forall>i < 4. \<forall>c. fst (draws c (m_rng (vs ! i))) = map (sequence 1) [places ! i..<places ! i + c])"
proof -
  have "valid_seed (g_rngSeed rng_globals_init)" "g_nextStreamIndex rng_globals_init = 0" "unat (g_rngRun rng_globals_init) < 2 ^ 51"
    by (simp_all add: rng_globals_init_def valid_seed_def m2_def)
  moreover have "\<forall>n \<in> set [- 1, 5, - 1, 0]. stream_ok n" "distinct (filter (\<lambda>n. n \<noteq> - 1) [- 1, 5, - 1, 0 :: int])" "length [- 1, 5, - 1, 0 :: int] \<le> 2 ^ 63"
    by (simp_all add: stream_ok_def)
  ultimately obtain vs g' places where v: "rv_make [- 1, 5, - 1, 0] rng_globals_init = Some (vs, g')" "length places = length [- 1, 5, - 1, 0 :: int]"
    "\<forall>i < length [- 1, 5, - 1, 0 :: int]. \<forall>c. fst (draws c (m_rng (vs ! i))) = map (sequence (g_rngSeed rng_globals_init)) [places ! i..<places ! i + c]"
    using variables_draw_from_blocks by blast
  have n: "length [- 1, 5, - 1, 0 :: int] = 4" "g_rngSeed rng_globals_init = 1" by (simp_all add: rng_globals_init_def)
  show ?thesis using v unfolding n by blast
qed


text \<open>
  A run of \<open>2 ^ 51\<close> or more reaches into the next stream: run \<open>2 ^ 51\<close> of a stream is run 0 of the next one. Nothing checks the number
  of the run, which is a 64-bit integer.
\<close>

lemma run_reaches_next_stream:
  "unat stream < 2 ^ 64 - 1 \<Longrightarrow> RngStream seed stream (2 ^ 51) = RngStream seed (stream + 1) 0"
proof -
  assume "unat stream < 2 ^ 64 - 1"
  then have "unat (stream + 1) = unat stream + 1" by (simp add: unat_word_ariths)
  moreover have "unat (2 ^ 51 :: u64) = 2 ^ 51" by simp
  ultimately have "unat stream * 2 ^ 127 + unat (2 ^ 51 :: u64) * 2 ^ 76 = unat (stream + 1) * 2 ^ 127 + unat (0 :: u64) * 2 ^ 76" by simp
  then show ?thesis by (simp only: RngStream_ok)
qed

text \<open>The automatic stream \<open>2 ^ 63\<close>, which the assertion of SetStream lets pass, is the fixed stream 0.\<close>

lemma automatic_meets_fixed:
  assumes "g_nextStreamIndex g = 2 ^ 63"
  shows "map_option (m_rng \<circ> fst) (rv_SetStream (- 1) g) = map_option (m_rng \<circ> fst) (rv_SetStream 0 g)"
  using assms by (simp add: rv_SetStream_def GetNextStreamIndex_def option.map_comp o_def split: Option.bind_split)

end
