(* ===== verification/Int64x64.thy ===== *)
theory Int64x64
  imports Ns3_Prelude
begin

unbundle bit_operations_syntax

text \<open>
  src/core/model/int64x64-128.cc and int64x64-128.h: numbers with 64 bits before and 64 bits behind the point, in a 128-bit
  integer. A value is a word: \<^term>\<open>sint\<close> reads it as the \<open>int128_t\<close> of the class, \<^term>\<open>uint\<close> as a \<open>uint128_t\<close>. A failing
  abort or assertion and a division by zero are \<^term>\<open>None\<close>. The conversions from and to floating point are left out.
\<close>

section \<open>The number type\<close>

type_synonym int64x64_t = "128 word"

definition HP128_MASK_HI_BIT :: int64x64_t where
  "HP128_MASK_HI_BIT = push_bit 127 1"

definition HP_MASK_LO :: u64 where
  "HP_MASK_LO = 0xffffffffffffffff"

definition HP_MASK_HI :: u64 where
  "HP_MASK_HI = NOT HP_MASK_LO"

text \<open>The constructor from a signed integer, the one from a high and a low part, and the accessors.\<close>

definition of_int64 :: "u64 \<Rightarrow> int64x64_t" where
  "of_int64 v = push_bit 64 (scast v)"

definition of_hi_lo :: "u64 \<Rightarrow> u64 \<Rightarrow> int64x64_t" where
  "of_hi_lo hi lo = push_bit 64 (scast hi) OR ucast lo"

definition GetHigh :: "int64x64_t \<Rightarrow> u64" where
  "GetHigh v = ucast (signed_drop_bit 64 v)"

definition GetLow :: "int64x64_t \<Rightarrow> u64" where
  "GetLow v = ucast (v AND ucast HP_MASK_LO)"

definition GetInt :: "int64x64_t \<Rightarrow> u64" where
  "GetInt v =
     (let negative = sint v < 0;
          value = (if negative then - v else v);
          retval = ucast (drop_bit 64 value)
      in if negative then - retval else retval)"

definition Round :: "int64x64_t \<Rightarrow> u64" where
  "Round v =
     (let negative = sint v < 0;
          value = (if negative then - v else v) + of_hi_lo 0 (push_bit 63 1);
          retval = GetHigh value
      in if negative then - retval else retval)"

section \<open>Multiplication\<close>

definition output_sign :: "int64x64_t \<Rightarrow> int64x64_t \<Rightarrow> bool \<times> int64x64_t \<times> int64x64_t" where
  "output_sign sa sb =
     (let negA = sint sa < 0; negB = sint sb < 0
      in (negA \<noteq> negB, if negA then - sa else sa, if negB then - sb else sb))"

definition Umul :: "int64x64_t \<Rightarrow> int64x64_t \<Rightarrow> int64x64_t option" where
  "Umul a b =
     (let aL = a AND ucast HP_MASK_LO;
          bL = b AND ucast HP_MASK_LO;
          aH = drop_bit 64 a AND ucast HP_MASK_LO;
          bH = drop_bit 64 b AND ucast HP_MASK_LO;
          loPart = aL * bL;
          midPart = aL * bH + aH * bL;
          hiPart = aH * bH
      in if hiPart AND ucast HP_MASK_HI \<noteq> 0 then None
         else
           (let res1 = drop_bit 64 loPart;
                res2 = midPart AND ucast HP_MASK_LO;
                result = res1 + res2;
                res1 = drop_bit 64 midPart;
                res2 = hiPart AND ucast HP_MASK_LO;
                res1 = res1 + res2;
                res1 = push_bit 64 res1
            in Some (result + res1)))"

definition Mul :: "int64x64_t \<Rightarrow> int64x64_t \<Rightarrow> int64x64_t option" where
  "Mul v ov =
     (case output_sign v ov of (negative, a, b) \<Rightarrow>
        do { result \<leftarrow> Umul a b; Some (if negative then - result else result) })"

section \<open>Division\<close>

text \<open>The loops of Udiv: trailing zeros of the divisor, leading zeros of the remainder, more bits of the divisor.\<close>

function skip_trailing :: "nat \<Rightarrow> int64x64_t \<Rightarrow> nat \<times> int64x64_t" where
  "skip_trailing shift den =
     (if shift < 64 \<and> den AND 1 = 0 then skip_trailing (shift + 1) (drop_bit 1 den) else (shift, den))"
  by pat_completeness auto
termination skip_trailing
  by (relation "measure (\<lambda>(shift, den). 64 - shift)") auto

function skip_leading :: "nat \<Rightarrow> nat \<Rightarrow> int64x64_t \<Rightarrow> nat \<times> int64x64_t" where
  "skip_leading digis shift rem =
     (if digis + shift < 64 \<and> rem AND HP128_MASK_HI_BIT = 0 then skip_leading digis (shift + 1) (push_bit 1 rem) else (shift, rem))"
  by pat_completeness auto
termination skip_leading
  by (relation "measure (\<lambda>(digis, shift, rem). 64 - (digis + shift))") auto

function cast_off :: "nat \<Rightarrow> nat \<Rightarrow> int64x64_t \<Rightarrow> int64x64_t \<Rightarrow> nat \<times> int64x64_t" where
  "cast_off digis shift rem den =
     (if digis + shift < 64 \<and> (den AND 1 = 0 \<or> rem < den) then cast_off digis (shift + 1) rem (drop_bit 1 den) else (shift, den))"
  by pat_completeness auto
termination cast_off
  by (relation "measure (\<lambda>(digis, shift, rem, den). 64 - (digis + shift))") auto

declare skip_trailing.simps [simp del] skip_leading.simps [simp del] cast_off.simps [simp del]

text \<open>The loop that finds the digits; \<^term>\<open>None\<close> stands for a loop that does not end, too.\<close>

partial_function (option) udiv_digits :: "nat \<Rightarrow> nat \<Rightarrow> int64x64_t \<Rightarrow> int64x64_t \<Rightarrow> int64x64_t \<Rightarrow> (nat \<times> int64x64_t) option" where
  "udiv_digits digis shift rem den result =
     (if digis < 64 \<and> rem \<noteq> 0 then
        (case skip_leading digis shift rem of (shift, rem) \<Rightarrow>
         case cast_off digis shift rem den of (shift, den) \<Rightarrow>
           if den = 0 then None
           else udiv_digits (digis + shift) 0 (rem mod den) den (push_bit shift result + rem div den))
      else Some (digis, result))"

definition Udiv :: "int64x64_t \<Rightarrow> int64x64_t \<Rightarrow> int64x64_t option" where
  "Udiv a b =
     (if b = 0 then None
      else let quo = a div b; rem = a mod b in
        if rem < b then
          (case skip_trailing 0 b of (shift, den) \<Rightarrow>
             do { (digis, result) \<leftarrow> udiv_digits 0 shift rem den quo;
                  Some (if digis < 64 then push_bit (64 - digis) result else result) })
        else None)"

definition Div :: "int64x64_t \<Rightarrow> int64x64_t \<Rightarrow> int64x64_t option" where
  "Div v ov =
     (case output_sign v ov of (negative, a, b) \<Rightarrow>
        do { result \<leftarrow> Udiv a b; Some (if negative then - result else result) })"

section \<open>Multiplication by an inverse\<close>

definition UmulByInvert :: "int64x64_t \<Rightarrow> int64x64_t \<Rightarrow> int64x64_t" where
  "UmulByInvert a b =
     (let ah = drop_bit 64 a;
          bh = drop_bit 64 b;
          al = a AND ucast HP_MASK_LO;
          bl = b AND ucast HP_MASK_LO;
          hi = ah * bh;
          mid = ah * bl + al * bh;
          mid = drop_bit 64 mid
      in hi + mid)"

definition MulByInvert :: "int64x64_t \<Rightarrow> int64x64_t \<Rightarrow> int64x64_t" where
  "MulByInvert v ov =
     (let negResult = sint v < 0;
          a = (if negResult then - v else v);
          result = UmulByInvert a ov
      in if negResult then - result else result)"

definition Invert :: "u64 \<Rightarrow> int64x64_t option" where
  "Invert v =
     (if 1 < v then
        do { result \<leftarrow> Udiv (push_bit 64 1) (ucast v);
             let tmp = MulByInvert (of_hi_lo v 0) result in
             Some (if GetHigh tmp \<noteq> 1 then result + 1 else result) }
      else None)"

section \<open>Words as integers\<close>

lemma mask_lo: "ucast HP_MASK_LO = (mask 64 :: int64x64_t)"
  by (simp add: HP_MASK_LO_def mask_eq_exp_minus_1)

lemma mask_hi [simp]: "HP_MASK_HI = 0"
  by (simp add: HP_MASK_HI_def HP_MASK_LO_def)

lemma uint_less [simp]: "uint (a :: int64x64_t) < 2 ^ 128"
  using uint_lt2p [of a] by simp

lemma uint_lo: "uint (a AND ucast HP_MASK_LO :: int64x64_t) = uint a mod 2 ^ 64"
proof -
  have "uint (take_bit 64 a) = take_bit 64 (uint a)" by (rule unsigned_take_bit_eq)
  then show ?thesis by (simp only: mask_lo take_bit_eq_mask [symmetric] take_bit_eq_mod [of 64 "uint a"])
qed

lemma uint_drop: "uint (drop_bit n a :: int64x64_t) = uint a div 2 ^ n"
proof -
  have "uint (drop_bit n a) = drop_bit n (take_bit 128 (uint a))" by (simp only: unsigned_drop_bit_eq len_num0 len_bit0) simp
  also have "take_bit 128 (uint a) = uint a" by (rule take_bit_int_eq_self) (rule uint_ge_0 uint_less)+
  finally show ?thesis by (simp only: drop_bit_eq_div [of n "uint a"])
qed

lemma uint_push: "uint (push_bit n a :: int64x64_t) = uint a * 2 ^ n mod 2 ^ 128"
proof -
  have "uint (push_bit n a) = take_bit 128 (push_bit n (uint a))" by (simp only: unsigned_push_bit_eq) simp
  then show ?thesis by (simp only: push_bit_eq_mult [of n "uint a"] take_bit_eq_mod)
qed

lemma uint_add: "uint (a + b :: int64x64_t) = (uint a + uint b) mod 2 ^ 128"
  by (simp add: uint_word_ariths)

lemma uint_mul: "uint (a * b :: int64x64_t) = (uint a * uint b) mod 2 ^ 128"
  by (simp add: uint_word_ariths)

lemma odd_iff: "(a AND 1 = 0) = even (uint (a :: int64x64_t))"
proof -
  have "(a AND 2 ^ 0 = 0) = (\<not> bit a 0)" by (rule and_exp_eq_0_iff_not_bit)
  moreover have "bit a 0 = bit (uint a) 0" by (simp add: bit_uint_iff)
  ultimately show ?thesis by (simp add: bit_0)
qed

lemma hi_bit_iff: "(a AND HP128_MASK_HI_BIT = 0) = (uint (a :: int64x64_t) < 2 ^ 127)"
proof -
  have "(a AND 2 ^ 127 = 0) = (\<not> bit a 127)" by (rule and_exp_eq_0_iff_not_bit)
  moreover have "HP128_MASK_HI_BIT = 2 ^ 127" by (simp add: HP128_MASK_HI_BIT_def)
  moreover have "bit a 127 = bit (uint a) 127" by (simp add: bit_uint_iff)
  then have "bit a 127 = odd (uint a div 2 ^ 127)" by (simp only: bit_iff_odd)
  moreover have "uint a div 2 ^ 127 = (if uint a < 2 ^ 127 then 0 else 1)"
    using uint_less [of a] int_div_pos_eq [of "uint a" "2 ^ 127" 1 "uint a - 2 ^ 127"] by simp
  ultimately show ?thesis by simp
qed

end
