(* ===== verification/Int64x64_Correct.thy ===== *)
theory Int64x64_Correct
  imports Int64x64
begin

text \<open>
  Multiplication and division of 64.64 numbers compute the truncated product and quotient of the integers they hold; the loops
  of the division end.
\<close>

section \<open>Multiplication\<close>

lemma product_digits:
  fixes a b B :: int
  assumes "0 < B"
  shows "a * b div B = (a div B) * (b div B) * B + ((a mod B) * (b div B) + (a div B) * (b mod B)) + (a mod B) * (b mod B) div B"
proof -
  have "a * b = (a div B * B + a mod B) * (b div B * B + b mod B)" by simp
  also have "\<dots> = (a mod B) * (b mod B) + ((a div B) * (b div B) * B + ((a mod B) * (b div B) + (a div B) * (b mod B))) * B"
    by (simp only: algebra_simps)
  finally show ?thesis using assms by simp
qed

lemma product_sum:
  fixes a b B :: int
  assumes "0 < B"
  shows "(a mod B) * (b mod B) div B +
     (((a mod B) * (b div B) + (a div B) * (b mod B)) mod B + (((a mod B) * (b div B) + (a div B) * (b mod B)) div B + (a div B) * (b div B)) * B) =
     a * b div B"
proof -
  have "m mod B + (m div B + h) * B = h * B + m" for m h by (simp add: distrib_right)
  then show ?thesis by (simp only: product_digits [OF assms, of a b] add.commute)
qed

lemma mult_bound: "0 \<le> (a :: int) \<Longrightarrow> a \<le> x \<Longrightarrow> 0 \<le> b \<Longrightarrow> b \<le> y \<Longrightarrow> a * b \<le> x * y"
  by (meson mult_mono order_trans)

lemma Umul_ok:
  assumes "uint a \<le> 2 ^ 127" and "uint b \<le> 2 ^ 127"
  shows "\<exists>r. Umul a b = Some r \<and> uint r = (uint a * uint b div 2 ^ 64) mod 2 ^ 128"
proof -
  let ?B = "2 ^ 64 :: int" and ?W = "2 ^ 128 :: int"
  let ?aL = "uint a mod ?B" and ?bL = "uint b mod ?B" and ?aH = "uint a div ?B" and ?bH = "uint b div ?B"
  let ?mid = "?aL * ?bH + ?aH * ?bL" and ?lo = "?aL * ?bL" and ?hi = "?aH * ?bH"
  have aH: "0 \<le> ?aH" "?aH \<le> 2 ^ 63" and bH: "0 \<le> ?bH" "?bH \<le> 2 ^ 63" using assms
    by (simp_all add: pos_imp_zdiv_nonneg_iff)
  have L: "0 \<le> ?aL" "?aL \<le> ?B - 1" "0 \<le> ?bL" "?bL \<le> ?B - 1" by simp_all
  have lo: "0 \<le> ?lo" "?lo < ?W" using mult_bound [OF L] L by simp_all
  have mid: "0 \<le> ?mid" "?mid < ?W" using mult_bound [OF L(1,2) bH] mult_bound [OF aH L(3,4)] aH bH L by simp_all
  have hi: "0 \<le> ?hi" "?hi < ?W" using mult_bound [OF aH bH] aH bH by simp_all
  have m: "?aH mod ?B = ?aH" "?bH mod ?B = ?bH" using aH bH by simp_all
  let ?x1 = "?lo div ?B + ?mid mod ?B" and ?x2 = "(?mid div ?B + ?hi mod ?B) * ?B"
  have d: "?lo mod ?W = ?lo" "?mid mod ?W = ?mid" "?hi mod ?W = ?hi" using lo mid hi by (simp_all only: mod_pos_pos_trivial)
  have u: "uint (a AND ucast HP_MASK_LO) = ?aL" "uint (b AND ucast HP_MASK_LO) = ?bL"
     "uint (drop_bit 64 a AND ucast HP_MASK_LO) = ?aH" "uint (drop_bit 64 b AND ucast HP_MASK_LO) = ?bH"
    by (simp_all only: uint_lo uint_drop m)
  obtain r where r: "Umul a b = Some r" and e: "uint r = (?x1 mod ?W + ((?mid div ?B + ?hi mod ?B) mod ?W * ?B) mod ?W) mod ?W"
    unfolding Umul_def Let_def mask_hi
    by (simp only: uint_add uint_mul uint_lo uint_drop uint_push u d m mod_add_eq unsigned_0 and_zero_eq simp_thms if_False option.inject)
  have "uint r = (?x1 + ?x2) mod ?W" unfolding e by (simp only: mod_simps)
  also have "\<dots> = (?lo div ?B + (?mid mod ?B + (?mid div ?B + ?hi) * ?B)) mod ?W"
  proof -
    have "?hi mod ?B * ?B = ?hi * ?B mod ?W" by (simp add: mod_mult_mult2 [symmetric])
    then show ?thesis by (simp only: distrib_right add.assoc [symmetric] mod_add_right_eq)
  qed
  also have "?lo div ?B + (?mid mod ?B + (?mid div ?B + ?hi) * ?B) = uint a * uint b div ?B"
    by (rule product_sum) simp
  finally show ?thesis using r by blast
qed

section \<open>Signs\<close>

lemma sint_cases: "sint (v :: int64x64_t) = (if uint v < 2 ^ 127 then uint v else uint v - 2 ^ 128)"
proof -
  have "bit (uint v) 127 = (\<not> uint v < 2 ^ 127)"
    using hi_bit_iff [of v] and_exp_eq_0_iff_not_bit [of v 127] by (simp add: HP128_MASK_HI_BIT_def bit_uint_iff)
  moreover have "take_bit 128 (uint v) = uint v" by (rule take_bit_int_eq_self) (rule uint_ge_0 uint_less)+
  ultimately show ?thesis by (simp add: sint_uint signed_take_bit_eq_take_bit_minus)
qed

lemma uint_neg: "uint (- v :: int64x64_t) = (if uint v = 0 then 0 else 2 ^ 128 - uint v)"
proof -
  have "uint (- v) = (- uint v) mod 2 ^ 128" by (simp add: uint_word_ariths)
  then show ?thesis using uint_less [of v] uint_ge_0 [of v] by (simp add: zmod_zminus1_eq_if)
qed

lemma uint_abs: "uint (if sint v < 0 then - v else v :: int64x64_t) = \<bar>sint v\<bar>"
  using uint_less [of v] uint_ge_0 [of v] by (simp add: sint_cases uint_neg)

lemma sint_negate:
  assumes "uint (r :: int64x64_t) < 2 ^ 127"
  shows "sint (if n then - r else r) = (if n then - uint r else uint r)"
  using assms uint_ge_0 [of r] by (simp add: sint_cases uint_neg)

lemma abs_sint_le: "\<bar>sint (v :: int64x64_t)\<bar> \<le> 2 ^ 127"
  using uint_less [of v] uint_ge_0 [of v] by (simp add: sint_cases)

text \<open>An unsigned result, with the sign of a product, as signed integers.\<close>

definition signed_by :: "int \<Rightarrow> int \<Rightarrow> int \<Rightarrow> int" where
  "signed_by x y r = (if (x < 0) \<noteq> (y < 0) then - r else r)"

lemma Mul_ok:
  assumes "\<bar>sint a\<bar> * \<bar>sint b\<bar> div 2 ^ 64 < 2 ^ 127"
  shows "\<exists>r. Mul a b = Some r \<and> sint r = signed_by (sint a) (sint b) (\<bar>sint a\<bar> * \<bar>sint b\<bar> div 2 ^ 64)"
proof -
  let ?a = "if sint a < 0 then - a else a" and ?b = "if sint b < 0 then - b else b"
  have u: "uint ?a = \<bar>sint a\<bar>" "uint ?b = \<bar>sint b\<bar>" by (rule uint_abs)+
  obtain r where r: "Umul ?a ?b = Some r" "uint r = (uint ?a * uint ?b div 2 ^ 64) mod 2 ^ 128"
    using Umul_ok [of ?a ?b] abs_sint_le unfolding u by blast
  have "0 \<le> \<bar>sint a\<bar> * \<bar>sint b\<bar> div 2 ^ 64" by (simp add: pos_imp_zdiv_nonneg_iff)
  then have e: "uint r = \<bar>sint a\<bar> * \<bar>sint b\<bar> div 2 ^ 64" using assms r(2) unfolding u by simp
  have "Mul a b = Some (if (sint a < 0) \<noteq> (sint b < 0) then - r else r)"
    using r(1) by (simp add: Mul_def output_sign_def Let_def)
  moreover have "sint (if (sint a < 0) \<noteq> (sint b < 0) then - r else r) = signed_by (sint a) (sint b) (uint r)"
    unfolding signed_by_def by (rule sint_negate) (use assms e in simp)
  ultimately show ?thesis unfolding e by blast
qed

section \<open>Division\<close>

lemma uint_half: "even (uint d) \<Longrightarrow> uint (drop_bit 1 d :: int64x64_t) * 2 = uint d"
  by (simp only: uint_drop) simp

lemma skip_trailing_ok:
  "skip_trailing s d = (s', d') \<Longrightarrow> s \<le> 64 \<Longrightarrow> s \<le> s' \<and> s' \<le> 64 \<and> uint d = uint d' * 2 ^ (s' - s)"
proof (induction s d rule: skip_trailing.induct)
  case (1 s d)
  show ?case
  proof (cases "s < 64 \<and> d AND 1 = 0")
    case True
    then have "skip_trailing (s + 1) (drop_bit 1 d) = (s', d')" using "1.prems"(1) by (simp add: skip_trailing.simps [of s])
    then have i: "s + 1 \<le> s' \<and> s' \<le> 64 \<and> uint (drop_bit 1 d) = uint d' * 2 ^ (s' - (s + 1))" using "1.IH" [OF True] True by simp
    have "uint d = uint (drop_bit 1 d) * 2" using True uint_half [of d] by (simp only: odd_iff)
    moreover have "s' - s = Suc (s' - (s + 1))" using conjunct1 [OF i] by simp
    ultimately show ?thesis using i by simp
  next
    case False
    then have "skip_trailing s d = (s, d)" by (simp only: skip_trailing.simps [of s] if_False)
    then show ?thesis using "1.prems" by simp
  qed
qed

lemma skip_leading_ok:
  "skip_leading g s r = (s', r') \<Longrightarrow> g + s \<le> 64 \<Longrightarrow>
     s \<le> s' \<and> g + s' \<le> 64 \<and> uint r' = uint r * 2 ^ (s' - s) \<and> (g + s' < 64 \<longrightarrow> 2 ^ 127 \<le> uint r')"
proof (induction g s r rule: skip_leading.induct)
  case (1 g s r)
  show ?case
  proof (cases "g + s < 64 \<and> r AND HP128_MASK_HI_BIT = 0")
    case True
    then have "skip_leading g (s + 1) (push_bit 1 r) = (s', r')" using "1.prems"(1) by (simp add: skip_leading.simps [of g s])
    moreover have "g + (s + 1) \<le> 64" using True by simp
    ultimately have i: "s + 1 \<le> s' \<and> g + s' \<le> 64 \<and> uint r' = uint (push_bit 1 r) * 2 ^ (s' - (s + 1)) \<and> (g + s' < 64 \<longrightarrow> 2 ^ 127 \<le> uint r')"
      by (rule "1.IH" [OF True])
    have "uint r < 2 ^ 127" using True by (simp only: hi_bit_iff)
    then have "uint (push_bit 1 r) = uint r * 2" unfolding uint_push by (simp add: mod_pos_pos_trivial)
    moreover have "s' - s = Suc (s' - (s + 1))" using conjunct1 [OF i] by simp
    ultimately have "uint (push_bit 1 r) * 2 ^ (s' - (s + 1)) = uint r * 2 ^ (s' - s)" by simp
    then show ?thesis using i by (metis add_leE)
  next
    case False
    then show ?thesis using "1.prems" hi_bit_iff [of r] by (auto simp add: skip_leading.simps [of g s])
  qed
qed

lemma cast_off_ok:
  "cast_off g s r d = (s', d') \<Longrightarrow> g + s \<le> 64 \<Longrightarrow> (g + s < 64 \<Longrightarrow> d \<le> r) \<Longrightarrow>
     s \<le> s' \<and> g + s' \<le> 64 \<and> uint d = uint d' * 2 ^ (s' - s)"
proof (induction g s r d rule: cast_off.induct)
  case (1 g s r d)
  show ?case
  proof (cases "g + s < 64 \<and> (d AND 1 = 0 \<or> r < d)")
    case True
    then have "d AND 1 = 0" using "1.prems"(3) by auto
    then have d: "uint d = uint (drop_bit 1 d) * 2" using uint_half [of d] by (simp only: odd_iff)
    then have "uint (drop_bit 1 d) \<le> uint d" using uint_ge_0 [of "drop_bit 1 d"] by linarith
    moreover have "d \<le> r" using "1.prems"(3) True by simp
    ultimately have le: "drop_bit 1 d \<le> r" by (meson order_trans word_le_def)
    have "cast_off g (s + 1) r (drop_bit 1 d) = (s', d')" using "1.prems"(1) True by (simp add: cast_off.simps [of g s])
    then have i: "s + 1 \<le> s' \<and> g + s' \<le> 64 \<and> uint (drop_bit 1 d) = uint d' * 2 ^ (s' - (s + 1))"
      using "1.IH" [OF True] True le by simp
    moreover have "s' - s = Suc (s' - (s + 1))" using conjunct1 [OF i] by simp
    ultimately show ?thesis using d by simp
  next
    case False
    then have "cast_off g s r d = (s, d)" by (simp only: cast_off.simps [of g s] if_False)
    then show ?thesis using "1.prems" by simp
  qed
qed

text \<open>
  What the loop of Udiv keeps, over the integers: \<open>R\<close> holds \<open>g\<close> binary digits of the quotient behind the point, \<open>s\<close> more
  come in this round, and \<open>r / d\<close> is what is left.
\<close>

definition div_inv :: "int \<Rightarrow> int \<Rightarrow> nat \<Rightarrow> nat \<Rightarrow> int \<Rightarrow> int \<Rightarrow> int \<Rightarrow> bool" where
  "div_inv A B g s r d R \<longleftrightarrow>
     g + s \<le> 64 \<and> 0 < d \<and> d \<le> 2 ^ 127 \<and> 0 \<le> r \<and> r < d * 2 ^ s \<and> A * 2 ^ (g + s) * d = (R * 2 ^ s * d + r) * B"

lemma div_inv_exit:
  assumes "div_inv A B g s r d R" and "g = 64 \<or> r = 0" and "0 < B"
  shows "R * 2 ^ (64 - g) = A * 2 ^ 64 div B"
proof (cases "r = 0")
  case True
  have "g \<le> 64" and e: "A * 2 ^ (g + s) * d = R * 2 ^ s * d * B" and "0 < d" using assms(1) True unfolding div_inv_def by auto
  have "(A * 2 ^ g) * (2 ^ s * d) = (R * B) * (2 ^ s * d)" using e by (simp add: power_add algebra_simps)
  then have "A * 2 ^ g = R * B" using \<open>0 < d\<close> by simp
  then have "A * 2 ^ g * 2 ^ (64 - g) = R * 2 ^ (64 - g) * B" by simp
  moreover have "A * 2 ^ g * 2 ^ (64 - g) = A * 2 ^ 64" using \<open>g \<le> 64\<close> by (simp only: mult.assoc power_add [symmetric]) simp
  ultimately have "A * 2 ^ 64 = R * 2 ^ (64 - g) * B" by simp
  then show ?thesis using assms(3) by simp
next
  case False
  then have "g = 64" "s = 0" using assms(1,2) by (auto simp: div_inv_def)
  then have e: "A * 2 ^ 64 * d = (R * d + r) * B" "0 < d" "0 \<le> r" "r < d" using assms(1) by (simp_all add: div_inv_def)
  let ?q = "A * 2 ^ 64 - B * R"
  have q: "?q * d = r * B" using e(1) by (simp only: algebra_simps)
  have "0 \<le> ?q * d" "?q * d < B * d" unfolding q using e(2-4) assms(3) by (simp_all add: mult.commute [of B])
  then have "0 \<le> ?q" "?q < B" using e(2) by (simp_all only: zero_le_mult_iff mult_less_cancel_right) auto
  then have "A * 2 ^ 64 div B = R" by (intro int_div_pos_eq [of _ B R ?q]) simp_all
  then show ?thesis using \<open>g = 64\<close> by simp
qed

lemma div_inv_step:
  assumes "div_inv A B g s r d R" and "d = d' * 2 ^ u" and "g + (s + t + u) \<le> 64" and "0 < s + t + u"
  shows "div_inv A B (g + (s + t + u)) 0 (r * 2 ^ t mod d') d' (R * 2 ^ (s + t + u) + r * 2 ^ t div d')"
proof -
  have i: "0 < d" "d \<le> 2 ^ 127" "0 \<le> r" "A * 2 ^ (g + s) * d = (R * 2 ^ s * d + r) * B" using assms(1) by (simp_all add: div_inv_def)
  have d: "0 < d'" using i(1) assms(2) by (simp add: zero_less_mult_iff)
  then have "d' \<le> d" using assms(2) by simp
  have "(R * 2 ^ (s + t + u) + r * 2 ^ t div d') * d' + r * 2 ^ t mod d' = R * 2 ^ (s + t + u) * d' + (r * 2 ^ t div d' * d' + r * 2 ^ t mod d')"
    by (simp only: distrib_right add.assoc)
  also have "\<dots> = (R * 2 ^ s * d + r) * 2 ^ t" by (simp add: assms(2) power_add algebra_simps)
  finally have "((R * 2 ^ (s + t + u) + r * 2 ^ t div d') * d' + r * 2 ^ t mod d') * B = (R * 2 ^ s * d + r) * B * 2 ^ t" by simp
  also have "\<dots> = A * 2 ^ (g + s) * d * 2 ^ t" by (simp only: i(4))
  also have "\<dots> = A * 2 ^ (g + (s + t + u)) * d'" by (simp add: assms(2) power_add algebra_simps)
  finally show ?thesis using assms(3) d \<open>d' \<le> d\<close> i(2) by (simp add: div_inv_def)
qed

lemma push_add: "uint result = R mod 2 ^ 128 \<Longrightarrow> uint (push_bit n result + q :: int64x64_t) = (R * 2 ^ n + uint q) mod 2 ^ 128"
  by (simp only: uint_add uint_push mod_simps)

lemma uint_quot [simp]: "uint (a div b :: int64x64_t) = uint a div uint b" "uint (a mod b :: int64x64_t) = uint a mod uint b"
  by (simp_all add: uint_div_distrib uint_mod_distrib)

text \<open>The loop ends, with all digits or without a remainder.\<close>

lemma udiv_digits_ok:
  assumes "div_inv A B g s (uint r) (uint d) R" and "uint result = R mod 2 ^ 128"
  shows "\<exists>g' s' r' d' R' result'. udiv_digits g s r d result = Some (g', result') \<and> div_inv A B g' s' r' d' R' \<and>
    (g' = 64 \<or> r' = 0) \<and> uint result' = R' mod 2 ^ 128"
  using assms
proof (induction "64 - g" arbitrary: g s r d R result rule: less_induct)
  case less
  show ?case
  proof (cases "g < 64 \<and> r \<noteq> 0")
    case True
    obtain s1 r1 where l: "skip_leading g s r = (s1, r1)" by fastforce
    obtain s2 d2 where c: "cast_off g s1 r1 d = (s2, d2)" by fastforce
    note i = less.prems(1) [unfolded div_inv_def]
    have l': "s \<le> s1" "g + s1 \<le> 64" "uint r1 = uint r * 2 ^ (s1 - s)" "g + s1 < 64 \<longrightarrow> 2 ^ 127 \<le> uint r1"
      using skip_leading_ok [OF l] i by blast+
    have "d \<le> r1" if "g + s1 < 64" using l'(4) i that unfolding word_le_def by linarith
    note c' = cast_off_ok [OF c l'(2) this]
    have "0 < s2"
    proof (rule ccontr)
      assume "\<not> 0 < s2"
      then have z: "s = 0" "s1 = 0" using l'(1) c' by simp_all
      then have "uint r1 < uint d" using l'(3) i by simp
      moreover have "2 ^ 127 \<le> uint r1" using l'(4) True z by simp
      ultimately show False using i by linarith
    qed
    define t u where "t = s1 - s" and "u = s2 - s1"
    have s2: "s2 = s + t + u" unfolding t_def u_def using l'(1) c' by linarith
    have r1: "uint r1 = uint r * 2 ^ t" and d2: "uint d = uint d2 * 2 ^ u" using l'(3) c' unfolding t_def u_def by auto
    have "div_inv A B (g + s2) 0 (uint (r1 mod d2)) (uint d2) (R * 2 ^ s2 + uint (r1 div d2))"
      using div_inv_step [OF less.prems(1) d2, of t] c' \<open>0 < s2\<close> unfolding s2 uint_quot r1 by simp
    moreover have "uint (push_bit s2 result + r1 div d2) = (R * 2 ^ s2 + uint (r1 div d2)) mod 2 ^ 128" by (rule push_add [OF less.prems(2)])
    ultimately obtain g' s' r' d' R' result' where e: "udiv_digits (g + s2) 0 (r1 mod d2) d2 (push_bit s2 result + r1 div d2) = Some (g', result')"
      "div_inv A B g' s' r' d' R'" "g' = 64 \<or> r' = 0" "uint result' = R' mod 2 ^ 128"
      using less.hyps [of "g + s2" 0 "r1 mod d2" d2] True \<open>0 < s2\<close> by (metis diff_less_mono2 less_add_same_cancel1 less_diff_conv)
    have "0 < uint d" using i by blast
    then have "d2 \<noteq> 0" using d2 by auto
    then have "udiv_digits g s r d result = Some (g', result')" using e(1) True l c by (simp add: udiv_digits.simps [of g])
    then show ?thesis using e(2-4) by blast
  next
    case False
    then have "udiv_digits g s r d result = Some (g, result)" by (simp only: udiv_digits.simps [of g] if_False)
    moreover have "g = 64 \<or> uint r = 0" using False less.prems(1) by (auto simp: div_inv_def)
    ultimately show ?thesis using less.prems by blast
  qed
qed

lemma Udiv_ok:
  assumes "b \<noteq> 0" and "uint b \<le> 2 ^ 127"
  shows "\<exists>r. Udiv a b = Some r \<and> uint r = (uint a * 2 ^ 64 div uint b) mod 2 ^ 128"
proof -
  have b: "0 < uint b" using assms(1) uint_ge_0 [of b] by (metis less_le uint_0_iff)
  obtain s d where s: "skip_trailing 0 b = (s, d)" by fastforce
  have d: "s \<le> 64" "uint b = uint d * 2 ^ s" using skip_trailing_ok [OF s] by simp_all
  have d0: "0 < uint d" using b unfolding d(2) by (simp add: zero_less_mult_iff)
  have "uint d \<le> uint b" unfolding d(2) using d0 by simp
  then have "uint d \<le> 2 ^ 127" using assms(2) by (rule order_trans)
  moreover have "uint (a mod b) < uint d * 2 ^ s" using b unfolding d(2) [symmetric] by simp
  moreover have "uint a * 2 ^ s * uint d = (uint (a div b) * 2 ^ s * uint d + uint (a mod b)) * uint b"
  proof -
    have "uint (a div b) * 2 ^ s * uint d = uint (a div b) * uint b" unfolding d(2) by simp
    then have "uint (a div b) * 2 ^ s * uint d + uint (a mod b) = uint a" by (simp only: uint_quot div_mult_mod_eq)
    then show ?thesis unfolding d(2) by simp
  qed
  ultimately have "div_inv (uint a) (uint b) 0 s (uint (a mod b)) (uint d) (uint (a div b))"
    using d0 d(1) unfolding div_inv_def by (simp only: add_0 uint_ge_0 simp_thms)
  moreover have "uint (a div b) = uint (a div b) mod 2 ^ 128" by (rule mod_pos_pos_trivial [symmetric]) (rule uint_ge_0 uint_less)+
  ultimately obtain g' s' r' d' R' result' where e: "udiv_digits 0 s (a mod b) d (a div b) = Some (g', result')"
    "div_inv (uint a) (uint b) g' s' r' d' R'" "g' = 64 \<or> r' = 0" "uint result' = R' mod 2 ^ 128"
    using udiv_digits_ok by blast
  let ?r = "if g' < 64 then push_bit (64 - g') result' else result'"
  have "a mod b < b" using b unfolding word_less_def by simp
  then have "Udiv a b = Some ?r" using assms(1) s e(1) by (simp add: Udiv_def)
  moreover have "uint ?r = (R' * 2 ^ (64 - g')) mod 2 ^ 128"
  proof (cases "g' < 64")
    case True
    then show ?thesis using e(4) by (simp only: uint_push mod_simps if_True)
  qed (use e(4) in simp)
  ultimately show ?thesis using div_inv_exit [OF e(2,3) b] by auto
qed

lemma Div_ok:
  assumes "b \<noteq> 0" and "\<bar>sint a\<bar> * 2 ^ 64 div \<bar>sint b\<bar> < 2 ^ 127"
  shows "\<exists>r. Div a b = Some r \<and> sint r = signed_by (sint a) (sint b) (\<bar>sint a\<bar> * 2 ^ 64 div \<bar>sint b\<bar>)"
proof -
  let ?a = "if sint a < 0 then - a else a" and ?b = "if sint b < 0 then - b else b"
  have u: "uint ?a = \<bar>sint a\<bar>" "uint ?b = \<bar>sint b\<bar>" by (rule uint_abs)+
  have "?b \<noteq> 0" using assms(1) by simp
  then obtain r where r: "Udiv ?a ?b = Some r" "uint r = (uint ?a * 2 ^ 64 div uint ?b) mod 2 ^ 128"
    using Udiv_ok [of ?b ?a] abs_sint_le unfolding u by blast
  have "0 \<le> \<bar>sint a\<bar> * 2 ^ 64 div \<bar>sint b\<bar>" by (simp add: div_int_pos_iff)
  then have e: "uint r = \<bar>sint a\<bar> * 2 ^ 64 div \<bar>sint b\<bar>" using assms(2) r(2) unfolding u by simp
  have "Div a b = Some (if (sint a < 0) \<noteq> (sint b < 0) then - r else r)"
    using r(1) by (simp add: Div_def output_sign_def Let_def)
  moreover have "sint (if (sint a < 0) \<noteq> (sint b < 0) then - r else r) = signed_by (sint a) (sint b) (uint r)"
    unfolding signed_by_def by (rule sint_negate) (use assms(2) e in simp)
  ultimately show ?thesis unfolding e by blast
qed

section \<open>Multiplication by an inverse\<close>

text \<open>For an integer, the low part of the first factor is zero.\<close>

lemma UmulByInvert_ok:
  assumes "uint a = x * 2 ^ 64" and "0 \<le> x" and "x * uint b div 2 ^ 64 < 2 ^ 128"
  shows "uint (UmulByInvert a b) = x * uint b div 2 ^ 64"
proof -
  let ?B = "2 ^ 64 :: int" and ?W = "2 ^ 128 :: int"
  let ?bH = "uint b div ?B" and ?bL = "uint b mod ?B"
  have a: "uint (drop_bit 64 a) = x" "uint (a AND ucast HP_MASK_LO) = 0" using assms(1) by (simp_all only: uint_drop uint_lo) simp_all
  have "x < ?B" using uint_less [of a] unfolding assms(1) by simp
  moreover have "0 \<le> ?bL" "?bL \<le> ?B - 1" by simp_all
  ultimately have l: "0 \<le> x * ?bL" "x * ?bL < ?W" using assms(2) mult_bound [of x "?B - 1" ?bL "?B - 1"] by simp_all
  have "uint b = ?bL + ?bH * ?B" by simp
  then have "x * uint b = x * ?bL + x * ?bH * ?B" by (metis distrib_left mult.assoc)
  then have e: "x * uint b div ?B = x * ?bH + x * ?bL div ?B" by simp
  have "uint (UmulByInvert a b) = (x * ?bH mod ?W + (x * ?bL mod ?W + 0) mod ?W div ?B) mod ?W"
    unfolding UmulByInvert_def Let_def
    by (simp only: uint_add uint_mul uint_drop [of 64 b] a uint_lo [of b] uint_drop [of 64 "_ + _"] mult_zero_left mod_0)
  also have "\<dots> = (x * ?bH + x * ?bL div ?B) mod ?W" using l by (simp only: mod_pos_pos_trivial add_0_right mod_simps)
  also have "\<dots> = x * uint b div ?B" unfolding e [symmetric]
  proof (rule mod_pos_pos_trivial)
    show "0 \<le> x * uint b div ?B" using assms(2) by (simp add: pos_imp_zdiv_nonneg_iff)
    show "x * uint b div ?B < ?W" by (rule assms(3))
  qed
  finally show ?thesis .
qed

end
