(* ===== verification/Int64x64_Inverse.thy ===== *)
theory Int64x64_Inverse
  imports Int64x64_Correct
begin

text \<open>
  The inverse of an integer is rounded up to 128 bits, and the multiplication of an integer with it gives the exact quotient, truncated or rounded;
  GetHigh, GetInt and Round as integers.
\<close>

section \<open>Parts of a number\<close>

lemma sint_word128: "- (2 ^ 127) \<le> k \<Longrightarrow> k < 2 ^ 127 \<Longrightarrow> sint (word_of_int k :: int64x64_t) = k"
  by (simp add: signed_of_int signed_take_bit_int_eq_self)

lemma sint_word64: "- (2 ^ 63) \<le> k \<Longrightarrow> k < 2 ^ 63 \<Longrightarrow> sint (word_of_int k :: u64) = k"
  by (simp add: signed_of_int signed_take_bit_int_eq_self)

lemma sint64_bounds: "- (2 ^ 63) \<le> sint (x :: u64)" "sint x < 2 ^ 63"
  using sint_ge [of x] sint_lt [of x] by simp_all

lemma sint128_bounds: "- (2 ^ 63 * 2 ^ 64) \<le> sint (v :: int64x64_t)" "sint v < 2 ^ 63 * 2 ^ 64"
  using sint_ge [of v] sint_lt [of v] by simp_all

lemma div_bounds:
  fixes x c B :: int
  assumes "0 < B" and "- (c * B) \<le> x" and "x < c * B"
  shows "- c \<le> x div B" "x div B < c"
proof -
  have "(- c) * B div B \<le> x div B" by (rule zdiv_mono1) (use assms in simp_all)
  moreover have "(- c) * B div B = - c" by (rule nonzero_mult_div_cancel_right) (use assms in simp)
  ultimately show "- c \<le> x div B" by simp
  have "x div B * B \<le> x" using assms(1) pos_mod_sign [of B x] div_mult_mod_eq [of x B] by linarith
  then have "x div B * B < c * B" using assms(3) by linarith
  then show "x div B < c" using assms(1) by (simp only: mult_less_cancel_right_pos)
qed

lemma sint_GetHigh: "sint (GetHigh v) = sint v div 2 ^ 64"
proof -
  have "GetHigh v = word_of_int (drop_bit 64 (sint v))"
    by (rule bit_eqI) (simp add: GetHigh_def bit_unsigned_iff bit_signed_drop_bit_iff bit_word_of_int_iff bit_drop_bit_eq bit_sint_iff
        del: drop_bit_numeral_bit0)
  then show ?thesis using sint_word64 [OF div_bounds [OF _ sint128_bounds]] by (simp only: drop_bit_eq_div) simp
qed

lemma sint_of_int64: "sint (of_int64 x) = sint x * 2 ^ 64"
proof -
  have "of_int64 x = word_of_int (sint x * 2 ^ 64)" by (simp only: of_int64_def push_bit_eq_mult scast_eq of_int_mult of_int_power of_int_numeral)
  moreover have "- (2 ^ 63) * 2 ^ 64 \<le> sint x * 2 ^ 64" by (rule mult_right_mono) (simp_all only: sint64_bounds zero_le_numeral zero_le_power)
  moreover have "sint x * 2 ^ 64 < 2 ^ 63 * 2 ^ 64" by (rule mult_strict_right_mono) (simp_all only: sint64_bounds zero_less_numeral zero_less_power)
  ultimately show ?thesis using sint_word128 [of "sint x * 2 ^ 64"] by simp
qed

lemma of_hi_lo_0: "of_hi_lo x 0 = of_int64 x"
  by (simp add: of_hi_lo_def of_int64_def)

lemma of_hi_lo_half: "of_hi_lo 0 (push_bit 63 1) = 2 ^ 63"
  by (simp add: of_hi_lo_def)

lemma abs_sint64_le: "\<bar>sint (x :: u64)\<bar> \<le> 2 ^ 63"
  using sint64_bounds [of x] by linarith

lemma MulByInvert_ok:
  assumes "uint r \<le> 2 ^ 127"
  shows "sint (MulByInvert (of_int64 x) r) = signed_by (sint x) 0 (\<bar>sint x\<bar> * uint r div 2 ^ 64)"
    and "\<bar>sint x\<bar> * uint r div 2 ^ 64 \<le> 2 ^ 126"
proof -
  let ?v = "of_int64 x"
  let ?a = "if sint ?v < 0 then - ?v else ?v"
  have neg: "sint ?v < 0 \<longleftrightarrow> sint x < 0" by (simp add: sint_of_int64 mult_less_0_iff)
  have a: "uint ?a = \<bar>sint x\<bar> * 2 ^ 64" unfolding uint_abs by (simp only: sint_of_int64 abs_mult power_abs abs_numeral)
  have "\<bar>sint x\<bar> * uint r \<le> 2 ^ 63 * 2 ^ 127" by (rule mult_bound [OF abs_ge_zero abs_sint64_le uint_ge_0 assms])
  then have "\<bar>sint x\<bar> * uint r div 2 ^ 64 \<le> 2 ^ 63 * 2 ^ 127 div 2 ^ 64" by (rule zdiv_mono1) simp
  also have "2 ^ 63 * 2 ^ 127 div 2 ^ 64 = (2 ^ 126 :: int)" by simp
  finally show le: "\<bar>sint x\<bar> * uint r div 2 ^ 64 \<le> 2 ^ 126" .
  then have u: "uint (UmulByInvert ?a r) = \<bar>sint x\<bar> * uint r div 2 ^ 64" by (intro UmulByInvert_ok [OF a]) simp_all
  have "MulByInvert ?v r = (if sint x < 0 then - UmulByInvert ?a r else UmulByInvert ?a r)"
    unfolding MulByInvert_def Let_def neg ..
  moreover have "sint (if sint x < 0 then - UmulByInvert ?a r else UmulByInvert ?a r) = (if sint x < 0 then - uint (UmulByInvert ?a r) else uint (UmulByInvert ?a r))"
    by (rule sint_negate) (use le u in simp)
  ultimately show "sint (MulByInvert ?v r) = signed_by (sint x) 0 (\<bar>sint x\<bar> * uint r div 2 ^ 64)" unfolding u signed_by_def by simp
qed

text \<open>The inverse is the quotient \<open>2 ^ 128 / v\<close>, rounded up.\<close>

lemma Invert_ok:
  assumes "1 < v" and "uint v < 2 ^ 63"
  shows "\<exists>r. Invert v = Some r \<and> 2 ^ 128 \<le> uint v * uint r \<and> uint v * uint r < 2 ^ 128 + uint v \<and> uint r \<le> 2 ^ 127"
proof -
  let ?V = "uint v" and ?W = "2 ^ 128 :: int"
  have V: "2 \<le> ?V" using assms(1) by (simp add: word_less_def)
  have c: "uint (ucast v :: int64x64_t) = ?V" by (rule uint_up_ucast) (simp add: is_up_def source_size_def target_size_def)
  have one: "uint (push_bit 64 1 :: int64x64_t) = 2 ^ 64" by (simp add: uint_push)
  have "(ucast v :: int64x64_t) \<noteq> 0" using V c by auto
  moreover have "uint (ucast v :: int64x64_t) \<le> 2 ^ 127" using assms(2) c by simp
  ultimately obtain r where r: "Udiv (push_bit 64 1) (ucast v) = Some r" "uint r = (2 ^ 64 * 2 ^ 64 div ?V) mod ?W"
    using Udiv_ok [of "ucast v" "push_bit 64 1"] unfolding c one by blast
  have "?W div ?V \<le> ?W div 2" using V by (intro zdiv_mono2) simp_all
  then have le: "?W div ?V \<le> 2 ^ 127" by simp
  moreover have "0 \<le> ?W div ?V" using V by (simp add: pos_imp_zdiv_nonneg_iff)
  ultimately have e: "uint r = ?W div ?V" using r(2) by simp
  have s: "sint v = ?V" using assms(2) V by (simp add: sint_uint signed_take_bit_int_eq_self)
  have m: "?V * uint r \<le> ?W" "?W < ?V * uint r + ?V"
    unfolding e using V pos_mod_sign [of ?V ?W] pos_mod_bound [of ?V ?W] mult_div_mod_eq [of ?V ?W] by linarith+
  have "sint (GetHigh (MulByInvert (of_hi_lo v 0) r)) = ?V * uint r div 2 ^ 64 div 2 ^ 64"
    using MulByInvert_ok [of r v] le e V by (simp only: of_hi_lo_0 sint_GetHigh s signed_by_def) simp
  also have "\<dots> = ?V * uint r div ?W" by (simp add: zdiv_zmult2_eq)
  finally have g: "sint (GetHigh (MulByInvert (of_hi_lo v 0) r)) = ?V * uint r div ?W" .
  have i: "Invert v = Some (if GetHigh (MulByInvert (of_hi_lo v 0) r) \<noteq> 1 then r + 1 else r)"
    using assms(1) r(1) by (simp add: Invert_def Let_def)
  show ?thesis
  proof (cases "?V * uint r = ?W")
    case True
    then have "sint (GetHigh (MulByInvert (of_hi_lo v 0) r)) = sint (1 :: u64)" using g by simp
    then have "GetHigh (MulByInvert (of_hi_lo v 0) r) = 1" by (simp only: signed_word_eqI)
    then show ?thesis using i True V le e by simp
  next
    case False
    then have l: "?V * uint r < ?W" using m by simp
    then have "?V * uint r div ?W = 0" using V by (intro div_pos_pos_trivial) simp_all
    then have "GetHigh (MulByInvert (of_hi_lo v 0) r) \<noteq> 1" using g by auto
    moreover have "uint r < 2 ^ 127"
    proof (rule ccontr)
      assume "\<not> uint r < 2 ^ 127"
      then have "2 * 2 ^ 127 \<le> ?V * uint r" using V by (intro mult_mono) simp_all
      then show False using l by simp
    qed
    moreover from this have "uint (r + 1) = uint r + 1" by (simp add: uint_add)
    ultimately show ?thesis using i l m(2) by (simp add: distrib_left)
  qed
qed

section \<open>Division by an integer is exact\<close>

definition is_inverse :: "int \<Rightarrow> int \<Rightarrow> bool" where
  "is_inverse V r \<longleftrightarrow> 0 < V \<and> V < 2 ^ 63 \<and> 2 ^ 128 \<le> V * r \<and> V * r < 2 ^ 128 + V"

text \<open>With \<open>h = 0\<close> this truncates the quotient \<open>X / V\<close>, with \<open>h = 1\<close> it rounds it.\<close>

lemma inverse_exact:
  assumes "is_inverse V r" and "0 \<le> X" "X \<le> 2 ^ 63" and "0 \<le> h"
  shows "(X * r + h * 2 ^ 127) div 2 ^ 128 = (2 * X + h * V) div (2 * V)"
proof -
  let ?W = "2 ^ 128 :: int" and ?N = "2 * X + h * V"
  define e k m where "e = V * r - ?W" and "k = ?N div (2 * V)" and "m = ?N mod (2 * V)"
  have V: "0 < V" "V < 2 ^ 63" and e: "0 \<le> e" "e < V" using assms(1) by (simp_all add: is_inverse_def e_def)
  have N: "?N = 2 * V * k + m" unfolding k_def m_def by simp
  have m: "0 \<le> m" "m \<le> 2 * V - 1" unfolding m_def using V(1) pos_mod_bound [of "2 * V" ?N] by simp_all
  have Xe: "0 \<le> 2 * (X * e)" "2 * (X * e) < ?W"
  proof -
    have "X * e \<le> 2 ^ 63 * 2 ^ 63" using assms(2,3) e V(2) by (intro mult_mono) simp_all
    then show "2 * (X * e) < ?W" by simp
  qed (use assms(2) e in simp)
  have "2 * V * (X * r + h * 2 ^ 127) = 2 * X * (V * r) + h * V * ?W" by (simp add: algebra_simps)
  also have "\<dots> = ?N * ?W + 2 * (X * e)" unfolding e_def by (simp only: algebra_simps)
  also have "\<dots> = 2 * V * (k * ?W) + (m * ?W + 2 * (X * e))" unfolding N by (simp only: algebra_simps)
  finally have f: "2 * V * (X * r + h * 2 ^ 127) = 2 * V * (k * ?W) + (m * ?W + 2 * (X * e))" .
  have "m * ?W \<le> (2 * V - 1) * ?W" using m(2) by (rule mult_right_mono) simp
  then have b: "m * ?W + 2 * (X * e) < 2 * V * ?W" using Xe(2) by (simp only: left_diff_distrib)
  have "0 \<le> m * ?W + 2 * (X * e)" using m(1) Xe(1) by simp
  then have "2 * V * (k * ?W) \<le> 2 * V * (X * r + h * 2 ^ 127)" "2 * V * (X * r + h * 2 ^ 127) < 2 * V * (k * ?W + ?W)"
    unfolding f using b by (simp_all only: distrib_left)
  then have "k * ?W \<le> X * r + h * 2 ^ 127" "X * r + h * 2 ^ 127 < k * ?W + ?W" 
    using mult_le_cancel_left_pos [of "2 * V"] mult_less_cancel_left_pos [of "2 * V"] V(1) by simp_all
  then have "(X * r + h * 2 ^ 127) div ?W = k" by (intro int_div_pos_eq [of _ ?W k "X * r + h * 2 ^ 127 - k * ?W"]) simp_all
  then show ?thesis unfolding k_def .
qed

lemma inverse_divides:
  assumes "is_inverse V r" and "0 \<le> k" and "k * V \<le> 2 ^ 63"
  shows "k * V * r div 2 ^ 64 = k * 2 ^ 64"
proof -
  define e where "e = V * r - 2 ^ 128"
  have e: "0 \<le> e" "e < V" using assms(1) by (simp_all add: is_inverse_def e_def)
  have "k * e \<le> k * V" using assms(2) e(2) by (intro mult_left_mono) simp_all
  then have "k * e < 2 ^ 64" "0 \<le> k * e" using assms(2,3) e(1) by simp_all
  moreover have "k * V * r = 2 ^ 64 * (k * 2 ^ 64) + k * e" unfolding e_def by (simp add: algebra_simps)
  ultimately show ?thesis by (intro int_div_pos_eq [of _ _ _ "k * e"]) simp_all
qed

lemma Invert_inverse:
  assumes "1 < v" and "uint v < 2 ^ 63"
  shows "\<exists>r. Invert v = Some r \<and> is_inverse (uint v) (uint r) \<and> uint r \<le> 2 ^ 127"
proof -
  have "0 < uint v" using assms(1) by (simp add: word_less_def)
  then show ?thesis using Invert_ok [OF assms] assms(2) unfolding is_inverse_def by auto
qed

section \<open>Rounding\<close>

lemma sint_neg64: "- (2 ^ 63) < k \<Longrightarrow> k < 2 ^ 63 \<Longrightarrow> sint w = k \<Longrightarrow> sint (- w :: u64) = - k"
proof -
  assume k: "- (2 ^ 63) < k" "k < 2 ^ 63" "sint w = k"
  have "sint w = sint (word_of_int k :: u64)" using sint_word64 [of k] k by simp
  then have "w = word_of_int k" by (rule signed_word_eqI)
  then have "- w = word_of_int (- k)" by simp
  then show ?thesis using sint_word64 [of "- k"] k by simp
qed

lemma Round_ok:
  assumes "\<bar>sint v\<bar> + 2 ^ 63 < 2 ^ 127"
  shows "sint (Round v) = signed_by (sint v) 0 ((\<bar>sint v\<bar> + 2 ^ 63) div 2 ^ 64)"
proof -
  let ?a = "if sint v < 0 then - v else v" and ?k = "(\<bar>sint v\<bar> + 2 ^ 63) div 2 ^ 64"
  have half: "uint (2 ^ 63 :: int64x64_t) = 2 ^ 63" by simp
  have u: "uint (?a + 2 ^ 63) = \<bar>sint v\<bar> + 2 ^ 63" unfolding uint_add uint_abs half using assms by (intro mod_pos_pos_trivial) simp_all
  then have "sint (?a + 2 ^ 63) = \<bar>sint v\<bar> + 2 ^ 63" using assms unfolding sint_cases [of "?a + 2 ^ 63"] by simp
  then have g: "sint (GetHigh (?a + 2 ^ 63)) = ?k" by (simp only: sint_GetHigh)
  have "0 \<le> ?k" by (simp add: pos_imp_zdiv_nonneg_iff)
  moreover have "?k < 2 ^ 63" by (rule div_bounds) (use assms in simp_all)
  ultimately have "sint (- GetHigh (?a + 2 ^ 63)) = - ?k" by (intro sint_neg64 [OF _ _ g]) simp_all
  then show ?thesis unfolding Round_def Let_def of_hi_lo_half signed_by_def using g
    by (cases "sint v < 0") (simp_all only: if_True if_False less_irrefl simp_thms)
qed

end
