(* ===== verification/Ns3_Time.thy ===== *)
theory Ns3_Time
  imports Int64x64_Inverse
begin

text \<open>
  src/core/model/nstime.h and time.cc: times as 64-bit integers in units of the current resolution, the table by which
  they are converted, and the change of the resolution, which converts the Time objects that exist. Of the floating point in SetResolution,
  powers of ten with a few factors, all values are exact, and the comparison with 1 is decided over the rationals.
  Construction from and conversion to double and text are left out.
\<close>

section \<open>Units\<close>

text \<open>The markers LAST and AUTO of the enumeration, which are not units of a conversion, are left out.\<close>

datatype Unit = Unit_Y | Unit_D | Unit_H | Unit_MIN | Unit_S | Unit_MS | Unit_US | Unit_NS | Unit_PS | Unit_FS

fun UNIT_POWER :: "Unit \<Rightarrow> int" where
  "UNIT_POWER Unit_Y = 17"
| "UNIT_POWER Unit_D = 17"
| "UNIT_POWER Unit_H = 17"
| "UNIT_POWER Unit_MIN = 16"
| "UNIT_POWER Unit_S = 15"
| "UNIT_POWER Unit_MS = 12"
| "UNIT_POWER Unit_US = 9"
| "UNIT_POWER Unit_NS = 6"
| "UNIT_POWER Unit_PS = 3"
| "UNIT_POWER Unit_FS = 0"

fun UNIT_COEFF :: "Unit \<Rightarrow> int" where
  "UNIT_COEFF Unit_Y = 315360"
| "UNIT_COEFF Unit_D = 864"
| "UNIT_COEFF Unit_H = 36"
| "UNIT_COEFF Unit_MIN = 6"
| "UNIT_COEFF Unit_S = 1"
| "UNIT_COEFF Unit_MS = 1"
| "UNIT_COEFF Unit_US = 1"
| "UNIT_COEFF Unit_NS = 1"
| "UNIT_COEFF Unit_PS = 1"
| "UNIT_COEFF Unit_FS = 1"

definition Scale :: "Unit \<Rightarrow> int" where
  "Scale u = UNIT_COEFF u * 10 ^ nat (UNIT_POWER u)"

definition units :: "Unit list" where
  "units = [Unit_Y, Unit_D, Unit_H, Unit_MIN, Unit_S, Unit_MS, Unit_US, Unit_NS, Unit_PS, Unit_FS]"

section \<open>The conversion table\<close>

record Information =
  toMul :: bool
  fromMul :: bool
  factor :: u64
  timeTo :: int64x64_t
  timeFrom :: int64x64_t
  isValid :: bool

record Resolution =
  res_info :: "Unit \<Rightarrow> Information"
  res_unit :: Unit

text \<open>The quotient of the coefficients, which is asserted to be exact.\<close>

definition coeff_quotient :: "Unit \<Rightarrow> Unit \<Rightarrow> int option" where
  "coeff_quotient unit i =
     (if UNIT_COEFF unit < UNIT_COEFF i then
        (let quotient = UNIT_COEFF i div UNIT_COEFF unit in if quotient * UNIT_COEFF unit = UNIT_COEFF i then Some quotient else None)
      else if UNIT_COEFF i < UNIT_COEFF unit then
        (let quotient = UNIT_COEFF unit div UNIT_COEFF i in if quotient * UNIT_COEFF i = UNIT_COEFF unit then Some quotient else None)
      else Some 1)"

text \<open>\<open>realFactor > 1\<close> and \<open>realFactor < 1\<close>, for \<open>realFactor = 10 ^ shift * UNIT_COEFF i / UNIT_COEFF unit\<close>.\<close>

definition realFactor_gt1 :: "Unit \<Rightarrow> Unit \<Rightarrow> int \<Rightarrow> bool" where
  "realFactor_gt1 unit i shift \<longleftrightarrow> UNIT_COEFF unit * 10 ^ nat (- shift) < UNIT_COEFF i * 10 ^ nat shift"

definition realFactor_lt1 :: "Unit \<Rightarrow> Unit \<Rightarrow> int \<Rightarrow> bool" where
  "realFactor_lt1 unit i shift \<longleftrightarrow> UNIT_COEFF i * 10 ^ nat shift < UNIT_COEFF unit * 10 ^ nat (- shift)"

text \<open>The body of the loop of SetResolution.\<close>

definition set_info :: "Unit \<Rightarrow> Unit \<Rightarrow> Information \<Rightarrow> Information option" where
  "set_info unit i info =
     (let shift = UNIT_POWER i - UNIT_POWER unit in
      do { quotient \<leftarrow> coeff_quotient unit i;
           let f = 10 ^ nat \<bar>shift\<bar> * quotient in
           if 2 ^ 63 < f then Some (info\<lparr>isValid := False\<rparr>)
           else
             let info = info\<lparr>factor := word_of_int f\<rparr> in
             if shift = 0 \<and> quotient = 1 then
               Some (info\<lparr>timeFrom := of_int64 1, timeTo := of_int64 1, toMul := True, fromMul := True, isValid := True\<rparr>)
             else if realFactor_gt1 unit i shift then
               do { inverse \<leftarrow> Invert (word_of_int f);
                    Some (info\<lparr>timeFrom := of_int64 (word_of_int f), timeTo := inverse, toMul := False, fromMul := True, isValid := True\<rparr>) }
             else if realFactor_lt1 unit i shift then
               do { inverse \<leftarrow> Invert (word_of_int f);
                    Some (info\<lparr>timeFrom := inverse, timeTo := of_int64 (word_of_int f), toMul := True, fromMul := False, isValid := True\<rparr>) }
             else None })"

fun set_infos :: "Unit list \<Rightarrow> Unit \<Rightarrow> (Unit \<Rightarrow> Information) \<Rightarrow> (Unit \<Rightarrow> Information) option" where
  "set_infos [] unit infos = Some infos"
| "set_infos (i # is) unit infos = do { info \<leftarrow> set_info unit i (infos i); set_infos is unit (infos(i := info)) }"

text \<open>SetResolution without the conversion of existing times, which SetDefaultNsResolution calls on a zero-initialized object.\<close>

definition set_resolution_table :: "Unit \<Rightarrow> Resolution \<Rightarrow> Resolution option" where
  "set_resolution_table unit resolution =
     do { infos \<leftarrow> set_infos units unit (res_info resolution);
          Some (resolution\<lparr>res_info := infos, res_unit := unit\<rparr>) }"

definition zero_resolution :: Resolution where
  "zero_resolution =
     \<lparr>res_info = (\<lambda>u. \<lparr>toMul = False, fromMul = False, factor = 0, timeTo = 0, timeFrom = 0, isValid = False\<rparr>), res_unit = Unit_Y\<rparr>"

definition SetDefaultNsResolution :: "Resolution option" where
  "SetDefaultNsResolution = set_resolution_table Unit_NS zero_resolution"

section \<open>Conversions\<close>

text \<open>The division of \<open>int64_t\<close>, which truncates.\<close>

definition sdiv64 :: "u64 \<Rightarrow> u64 \<Rightarrow> u64" where
  "sdiv64 a b =
     word_of_int (if (sint a < 0) \<noteq> (sint b < 0) then - (\<bar>sint a\<bar> div \<bar>sint b\<bar>) else \<bar>sint a\<bar> div \<bar>sint b\<bar>)"

definition srem64 :: "u64 \<Rightarrow> u64 \<Rightarrow> u64" where
  "srem64 a b = a - sdiv64 a b * b"

definition FromInteger :: "Resolution \<Rightarrow> u64 \<Rightarrow> Unit \<Rightarrow> u64 option" where
  "FromInteger resolution value unit =
     (let info = res_info resolution unit in
      if isValid info then Some (if fromMul info then value * factor info else value div factor info) else None)"

definition From :: "Resolution \<Rightarrow> int64x64_t \<Rightarrow> Unit \<Rightarrow> u64 option" where
  "From resolution value unit =
     (let info = res_info resolution unit in
      if isValid info then
        do { retval \<leftarrow> (if fromMul info then Mul value (timeFrom info) else Some (MulByInvert value (timeFrom info)));
             Some (Round retval) }
      else None)"

definition ToInteger :: "Resolution \<Rightarrow> u64 \<Rightarrow> Unit \<Rightarrow> u64 option" where
  "ToInteger resolution m_data unit =
     (let info = res_info resolution unit in
      if isValid info then Some (if toMul info then m_data * factor info else sdiv64 m_data (factor info)) else None)"

definition To :: "Resolution \<Rightarrow> u64 \<Rightarrow> Unit \<Rightarrow> int64x64_t option" where
  "To resolution m_data unit =
     (let info = res_info resolution unit in
      if isValid info then
        (if toMul info then Mul (of_int64 m_data) (timeTo info) else Some (MulByInvert (of_int64 m_data) (timeTo info)))
      else None)"

definition RoundTo :: "Resolution \<Rightarrow> u64 \<Rightarrow> Unit \<Rightarrow> u64 option" where
  "RoundTo resolution m_data unit = do { v \<leftarrow> To resolution m_data unit; From resolution (of_int64 (Round v)) unit }"

section \<open>Quotients of times\<close>

definition time_quotient :: "u64 \<Rightarrow> u64 \<Rightarrow> int64x64_t option" where
  "time_quotient lhs rhs = Div (of_int64 lhs) (of_int64 rhs)"

text \<open>Division by zero is None.\<close>

definition time_Div :: "u64 \<Rightarrow> u64 \<Rightarrow> u64 option" where
  "time_Div lhs rhs = (if rhs = 0 then None else Some (sdiv64 lhs rhs))"

definition time_Rem :: "u64 \<Rightarrow> u64 \<Rightarrow> u64 option" where
  "time_Rem lhs rhs = (if rhs = 0 then None else Some (srem64 lhs rhs))"

section \<open>Existing times\<close>

text \<open>The Time objects of a program by their addresses, and the registry, a null pointer once the resolution is fixed.\<close>

record time_state =
  ts_resolution :: Resolution
  g_markingTimes :: "addr list option"
  time_objects :: "addr \<Rightarrow> u64 option"

definition Mark :: "addr \<Rightarrow> time_state \<Rightarrow> time_state" where
  "Mark time s =
     (case g_markingTimes s of
        None \<Rightarrow> s
      | Some m \<Rightarrow> s\<lparr>g_markingTimes := Some (if time \<in> set m then m else insort time m)\<rparr>)"

definition Clear :: "addr \<Rightarrow> time_state \<Rightarrow> time_state option" where
  "Clear time s =
     (case g_markingTimes s of
        None \<Rightarrow> Some s
      | Some m \<Rightarrow> if time \<in> set m then Some (s\<lparr>g_markingTimes := Some (remove1 time m)\<rparr>) else None)"

definition Time_new :: "addr \<Rightarrow> u64 \<Rightarrow> time_state \<Rightarrow> time_state" where
  "Time_new time v s = Mark time (s\<lparr>time_objects := (time_objects s)(time \<mapsto> v)\<rparr>)"

definition Time_delete :: "addr \<Rightarrow> time_state \<Rightarrow> time_state option" where
  "Time_delete time s = do { s \<leftarrow> Clear time s; Some (s\<lparr>time_objects := (time_objects s)(time := None)\<rparr>) }"

definition Time_assign :: "addr \<Rightarrow> addr \<Rightarrow> time_state \<Rightarrow> time_state option" where
  "Time_assign time o' s =
     (case (time_objects s time, time_objects s o') of
        (Some t, Some v) \<Rightarrow> Some (s\<lparr>time_objects := (time_objects s)(time \<mapsto> v)\<rparr>)
      | _ \<Rightarrow> None)"

definition ClearMarkedTimes :: "time_state \<Rightarrow> time_state" where
  "ClearMarkedTimes s = s\<lparr>g_markingTimes := None\<rparr>"

text \<open>The loop of ConvertTimes; a marked time that does not exist is undefined behaviour.\<close>

fun convert_times :: "addr list \<Rightarrow> Resolution \<Rightarrow> Unit \<Rightarrow> (addr \<Rightarrow> u64 option) \<Rightarrow> (addr \<Rightarrow> u64 option) option" where
  "convert_times [] resolution unit objects = Some objects"
| "convert_times (tp # tps) resolution unit objects =
     do { v \<leftarrow> objects tp;
          v' \<leftarrow> (if sint v = - (2 ^ 63) \<or> sint v = 2 ^ 63 - 1 then Some v else ToInteger resolution v unit);
          convert_times tps resolution unit (objects(tp \<mapsto> v')) }"

definition ConvertTimes :: "Unit \<Rightarrow> time_state \<Rightarrow> time_state option" where
  "ConvertTimes unit s =
     do { m \<leftarrow> g_markingTimes s;
          objects \<leftarrow> convert_times m (ts_resolution s) unit (time_objects s);
          Some (s\<lparr>time_objects := objects, g_markingTimes := None\<rparr>) }"

definition SetResolution :: "Unit \<Rightarrow> time_state \<Rightarrow> time_state option" where
  "SetResolution unit s =
     do { s \<leftarrow> ConvertTimes unit s;
          resolution \<leftarrow> set_resolution_table unit (ts_resolution s);
          Some (s\<lparr>ts_resolution := resolution\<rparr>) }"

section \<open>The table is right\<close>

text \<open>What an entry of the table has to be, with the sizes of the units in femtoseconds.\<close>

definition info_ok :: "Unit \<Rightarrow> Unit \<Rightarrow> Information \<Rightarrow> bool" where
  "info_ok r i info \<longleftrightarrow>
     (isValid info \<longleftrightarrow> max (Scale i) (Scale r) div min (Scale i) (Scale r) < 2 ^ 63) \<and>
     (isValid info \<longrightarrow>
        sint (factor info) * min (Scale i) (Scale r) = max (Scale i) (Scale r) \<and> 0 < sint (factor info) \<and>
        fromMul info = (Scale r \<le> Scale i) \<and> toMul info = (Scale i \<le> Scale r) \<and>
        (if fromMul info then timeFrom info = of_int64 (factor info) else is_inverse (sint (factor info)) (uint (timeFrom info)) \<and> uint (timeFrom info) \<le> 2 ^ 127) \<and>
        (if toMul info then timeTo info = of_int64 (factor info) else is_inverse (sint (factor info)) (uint (timeTo info)) \<and> uint (timeTo info) \<le> 2 ^ 127))"

lemma Scale_simps [simp]:
  "Scale Unit_Y = 31536000000000000000000" "Scale Unit_D = 86400000000000000000" "Scale Unit_H = 3600000000000000000"
  "Scale Unit_MIN = 60000000000000000" "Scale Unit_S = 1000000000000000" "Scale Unit_MS = 1000000000000"
  "Scale Unit_US = 1000000000" "Scale Unit_NS = 1000000" "Scale Unit_PS = 1000" "Scale Unit_FS = 1"
  by (simp_all add: Scale_def)

lemma Scale_pos [simp]: "0 < Scale u"
  by (cases u) simp_all

lemma Scale_ne [simp]: "Scale u \<noteq> 0"
  using Scale_pos [of u] by (simp del: Scale_pos)

lemma quot_eq: "a = b * c \<Longrightarrow> c \<noteq> 0 \<Longrightarrow> a div c = b" for a b c :: int
  by simp

text \<open>The larger of two units is a multiple of the smaller one, and the loop finds their quotient.\<close>

lemma unit_facts:
  "\<exists>q. coeff_quotient r i = Some q \<and>
     10 ^ nat \<bar>UNIT_POWER i - UNIT_POWER r\<bar> * q * min (Scale i) (Scale r) = max (Scale i) (Scale r) \<and>
     10 ^ nat \<bar>UNIT_POWER i - UNIT_POWER r\<bar> * q \<noteq> 2 ^ 63 \<and>
     (UNIT_POWER i - UNIT_POWER r = 0 \<and> q = 1 \<longleftrightarrow> Scale i = Scale r)"
  by (cases r; cases i; simp add: coeff_quotient_def)

lemma realFactor_facts:
  "realFactor_gt1 r i (UNIT_POWER i - UNIT_POWER r) \<longleftrightarrow> Scale r < Scale i"
  "realFactor_lt1 r i (UNIT_POWER i - UNIT_POWER r) \<longleftrightarrow> Scale i < Scale r"
  by (cases r; cases i; simp add: realFactor_gt1_def realFactor_lt1_def)+

lemma factor_word:
  assumes "0 < f" and "f < 2 ^ 63"
  shows "sint (word_of_int f :: u64) = f" "uint (word_of_int f :: u64) = f" "f \<noteq> 1 \<Longrightarrow> 1 < (word_of_int f :: u64)"
proof -
  show "sint (word_of_int f :: u64) = f" using assms by (intro sint_word64) simp_all
  show u: "uint (word_of_int f :: u64) = f" using assms by (simp add: unsigned_of_int take_bit_int_eq_self)
  show "f \<noteq> 1 \<Longrightarrow> 1 < (word_of_int f :: u64)" using assms(1) unfolding word_less_def u by simp
qed

lemma set_info_ok: "\<exists>info'. set_info r i info = Some info' \<and> info_ok r i info'"
proof -
  let ?min = "min (Scale i) (Scale r)" and ?max = "max (Scale i) (Scale r)"
  let ?shift = "UNIT_POWER i - UNIT_POWER r"
  obtain q where q: "coeff_quotient r i = Some q" "10 ^ nat \<bar>?shift\<bar> * q * ?min = ?max" "10 ^ nat \<bar>?shift\<bar> * q \<noteq> 2 ^ 63"
    "?shift = 0 \<and> q = 1 \<longleftrightarrow> Scale i = Scale r" using unit_facts by blast
  define f where "f = 10 ^ nat \<bar>?shift\<bar> * q"
  have f: "f * ?min = ?max" "f \<noteq> 2 ^ 63" using q(2,3) unfolding f_def by blast+
  have pos: "0 < ?min" "0 < ?max" by (simp_all add: less_max_iff_disj)
  then have "0 < f" using f(1) by (metis zero_less_mult_pos2)
  have d: "?max div ?min = f" unfolding f(1) [symmetric] by (rule nonzero_mult_div_cancel_right) (use pos(1) in linarith)
  show ?thesis
  proof (cases "2 ^ 63 < f")
    case True
    then show ?thesis using q(1) d by (simp add: set_info_def info_ok_def Let_def flip: f_def)
  next
    case False
    then have l: "f < 2 ^ 63" using f(2) by simp
    note w = factor_word [OF \<open>0 < f\<close> l]
    have v: "?max div ?min < 2 ^ 63" using l d by simp
    show ?thesis
    proof (cases "Scale i = Scale r")
      case True
      then have "f = 1" using f(1) by simp
      then show ?thesis using q(1,4) True by (simp add: set_info_def info_ok_def Let_def flip: f_def)
    next
      case ne: False
      have "f \<noteq> 1" using f(1) ne by (auto simp: min_def max_def split: if_splits)
      then obtain inv where inv: "Invert (word_of_int f) = Some inv" "is_inverse f (uint inv)" "uint inv \<le> 2 ^ 127"
        using Invert_inverse [OF w(3)] l unfolding w(2) by blast
      show ?thesis
      proof (cases "Scale r < Scale i")
        case True
        then show ?thesis using q(1,4) ne False inv w(1) f(1) v \<open>0 < f\<close>
          by (simp add: set_info_def info_ok_def Let_def realFactor_facts flip: f_def)
      next
        case le: False
        then show ?thesis using q(1,4) ne False inv w(1) f(1) v \<open>0 < f\<close>
          by (simp add: set_info_def info_ok_def Let_def realFactor_facts flip: f_def)
      qed
    qed
  qed
qed

lemma set_infos_ok:
  "\<exists>infos'. set_infos is r infos = Some infos' \<and> (\<forall>i. info_ok r i (infos' i) \<or> i \<notin> set is \<and> infos' i = infos i)"
proof (induction "is" arbitrary: infos)
  case (Cons i "is")
  obtain info where info: "set_info r i (infos i) = Some info" "info_ok r i info" using set_info_ok by blast
  obtain infos' where "set_infos is r (infos(i := info)) = Some infos'"
    "\<forall>j. info_ok r j (infos' j) \<or> j \<notin> set is \<and> infos' j = (infos(i := info)) j" using Cons.IH by blast
  then show ?case using info by (intro exI [of _ infos']) (auto split: if_splits)
qed simp

definition resolution_ok :: "Resolution \<Rightarrow> bool" where
  "resolution_ok resolution \<longleftrightarrow> (\<forall>i. info_ok (res_unit resolution) i (res_info resolution i))"

lemma set_resolution_table_ok:
  "\<exists>resolution'. set_resolution_table r resolution = Some resolution' \<and> res_unit resolution' = r \<and> resolution_ok resolution'"
proof -
  have "i \<in> set units" for i by (cases i) (simp_all add: units_def)
  then show ?thesis using set_infos_ok [of units r "res_info resolution"]
    unfolding set_resolution_table_def resolution_ok_def by auto
qed

section \<open>Conversions of integers\<close>

text \<open>A table that SetResolution made, and its entry for a unit that can be used.\<close>

definition info_entry_ok :: "Resolution \<Rightarrow> Unit \<Rightarrow> Unit \<Rightarrow> bool" where
  "info_entry_ok resolution r u \<longleftrightarrow> info_ok r u (res_info resolution u) \<and> isValid (res_info resolution u)"

lemma table_entry_ok: "set_resolution_table r res0 = Some resolution \<Longrightarrow> isValid (res_info resolution u) \<Longrightarrow> info_entry_ok resolution r u"
  using set_resolution_table_ok [of r res0] by (auto simp: info_entry_ok_def resolution_ok_def)

lemma entry_cases [consumes 1, case_names coarse fine]:
  assumes "info_entry_ok resolution r u"
  obtains "Scale r \<le> Scale u" "fromMul (res_info resolution u)" "sint (factor (res_info resolution u)) * Scale r = Scale u"
      "0 < sint (factor (res_info resolution u))"
    | "Scale u < Scale r" "\<not> fromMul (res_info resolution u)" "sint (factor (res_info resolution u)) * Scale u = Scale r"
      "0 < sint (factor (res_info resolution u))"
  using assms by (cases "Scale r \<le> Scale u") (auto simp: info_entry_ok_def info_ok_def min_def max_def split: if_splits)

lemma sint_word_id: "sint (w :: u64) = k \<Longrightarrow> w = word_of_int k"
proof -
  assume "sint w = k"
  then have "sint w = sint (word_of_int k :: u64)" using sint_word64 [OF sint64_bounds, of w] by simp
  then show ?thesis by (rule signed_word_eqI)
qed

lemma uint_sint_pos: "0 \<le> sint (w :: u64) \<Longrightarrow> uint w = sint w"
proof -
  assume "0 \<le> sint w"
  moreover obtain k where k: "sint w = k" by blast
  ultimately have "uint (word_of_int k :: u64) = k" using sint64_bounds [of w] by (simp add: unsigned_of_int take_bit_int_eq_self)
  then show ?thesis using sint_word_id [OF k] k by simp
qed

lemma sint_mult:
  assumes "- (2 ^ 63) \<le> sint a * sint b" and "sint a * sint b < 2 ^ 63"
  shows "sint (a * b :: u64) = sint a * sint b"
proof -
  have "a * b = word_of_int (sint a * sint b)" using sint_word_id [of a] sint_word_id [of b] by (simp only: of_int_mult)
  then show ?thesis using sint_word64 [OF assms] by simp
qed

lemma signed_by_mult: "0 \<le> f \<Longrightarrow> signed_by x 0 (\<bar>x\<bar> * f) = x * f"
  by (simp add: signed_by_def)

lemma signed_by_bounds: "0 \<le> q \<Longrightarrow> q < 2 ^ 63 \<Longrightarrow> - (2 ^ 63) \<le> signed_by x y q \<and> signed_by x y q < 2 ^ 63"
  by (simp add: signed_by_def)

lemma sint_sdiv64: "\<bar>sint a\<bar> div \<bar>sint b\<bar> < 2 ^ 63 \<Longrightarrow> sint (sdiv64 a b) = signed_by (sint a) (sint b) (\<bar>sint a\<bar> div \<bar>sint b\<bar>)"
  using signed_by_bounds [of "\<bar>sint a\<bar> div \<bar>sint b\<bar>" "sint a" "sint b"]
  unfolding sdiv64_def signed_by_def [symmetric] by (intro sint_word64) (simp_all add: div_int_pos_iff)

lemma ToInteger_ok:
  assumes "info_entry_ok resolution r u" and "\<bar>sint x\<bar> * Scale r div Scale u < 2 ^ 63"
  shows "\<exists>y. ToInteger resolution x u = Some y \<and> sint y = signed_by (sint x) 0 (\<bar>sint x\<bar> * Scale r div Scale u)"
proof -
  let ?info = "res_info resolution u" and ?q = "\<bar>sint x\<bar> * Scale r div Scale u"
  let ?f = "sint (factor ?info)"
  have valid: "isValid ?info" "toMul ?info = (Scale u \<le> Scale r)" using assms(1) by (auto simp: info_entry_ok_def info_ok_def)
  have q: "0 \<le> ?q" by (simp add: pos_imp_zdiv_nonneg_iff Scale_pos [THEN less_imp_le])
  show ?thesis
  proof (cases "Scale u \<le> Scale r")
    case True
    have "?f * Scale u = Scale r" "0 < ?f" using assms(1) True by (auto simp: info_entry_ok_def info_ok_def)
    then have e: "?q = \<bar>sint x\<bar> * ?f" by (intro quot_eq) simp_all
    then have s: "signed_by (sint x) 0 ?q = sint x * ?f" using \<open>0 < ?f\<close> signed_by_mult by simp
    then have "sint (x * factor ?info) = signed_by (sint x) 0 ?q"
      using signed_by_bounds [OF q assms(2), of "sint x" 0] sint_mult [of x "factor ?info"] by simp
    then show ?thesis using valid True by (simp add: ToInteger_def)
  next
    case False
    then have "?f * Scale r = Scale u" "0 < ?f" using assms(1) by (auto simp: info_entry_ok_def info_ok_def)
    then have "?q = \<bar>sint x\<bar> * Scale r div (?f * Scale r)" by simp
    also have "\<dots> = \<bar>sint x\<bar> div ?f" by (rule div_mult_mult2) (use Scale_pos [of r] in linarith)
    finally have e: "?q = \<bar>sint x\<bar> div \<bar>?f\<bar>" using \<open>0 < ?f\<close> by simp
    then have "sint (sdiv64 x (factor ?info)) = signed_by (sint x) 0 ?q"
      using sint_sdiv64 [of x "factor ?info"] assms(2) \<open>0 < ?f\<close> by (simp add: signed_by_def)
    then show ?thesis using valid False by (simp add: ToInteger_def)
  qed
qed

lemma FromInteger_ok:
  assumes "info_entry_ok resolution r u" and "uint n * Scale u div Scale r < 2 ^ 63"
  shows "\<exists>t. FromInteger resolution n u = Some t \<and> sint t = uint n * Scale u div Scale r"
proof -
  let ?info = "res_info resolution u" and ?q = "uint n * Scale u div Scale r"
  let ?f = "sint (factor ?info)"
  have valid: "isValid ?info" using assms(1) by (auto simp: info_entry_ok_def)
  have q: "0 \<le> ?q" by (simp add: pos_imp_zdiv_nonneg_iff Scale_pos [THEN less_imp_le])
  have "uint (if fromMul ?info then n * factor ?info else n div factor ?info) = ?q"
    using assms(1)
  proof (cases rule: entry_cases)
    case coarse
    then have "?q = uint n * ?f" by (intro quot_eq) simp_all
    moreover have "uint (factor ?info) = ?f" using coarse(4) by (simp add: uint_sint_pos)
    ultimately have "uint (n * factor ?info) = ?q mod 2 ^ 64" by (simp add: uint_word_ariths)
    also have "\<dots> = ?q" using q assms(2) by simp
    finally show ?thesis using coarse(2) by simp
  next
    case fine
    then have "?q = uint n * Scale u div (?f * Scale u)" by simp
    also have "\<dots> = uint n div ?f" by (rule div_mult_mult2) (use Scale_pos [of u] in linarith)
    moreover have "uint (factor ?info) = ?f" using fine(4) by (simp add: uint_sint_pos)
    ultimately show ?thesis using fine(2) by (simp add: uint_div_distrib)
  qed
  moreover have "sint w = uint w" if "uint w < 2 ^ 63" for w :: u64
    using that signed_take_bit_int_eq_self [of 63 "uint w"] order_trans [OF _ uint_ge_0 [of w], of "- (2 ^ 63)"] by (simp add: sint_uint)
  ultimately have "sint (if fromMul ?info then n * factor ?info else n div factor ?info) = ?q" using assms(2) by simp
  then show ?thesis using valid by (simp add: FromInteger_def Let_def)
qed

section \<open>Rounding\<close>

text \<open>The multiple of \<open>F\<close> that is nearest to \<open>x\<close>, the one farther from zero of two.\<close>

definition nearest_multiple :: "int \<Rightarrow> int \<Rightarrow> int \<Rightarrow> bool" where
  "nearest_multiple F x y \<longleftrightarrow> F dvd y \<and> 2 * \<bar>y - x\<bar> \<le> F \<and> (2 * \<bar>y - x\<bar> = F \<longrightarrow> \<bar>x\<bar> < \<bar>y\<bar>)"

lemma nearest_multiple_pos:
  assumes "0 < F" and "0 \<le> X"
  shows "nearest_multiple F X ((2 * X + F) div (2 * F) * F)"
proof -
  define k m where "k = (2 * X + F) div (2 * F)" and "m = (2 * X + F) mod (2 * F)"
  have "2 * X + F = k * (2 * F) + m" unfolding k_def m_def by (rule div_mult_mod_eq [symmetric])
  then have y: "2 * X + F = 2 * (k * F) + m" by (simp only: mult.left_commute)
  have m: "0 \<le> m" "m < 2 * F" using assms(1) unfolding m_def by simp_all
  define z where "z = k * F"
  have y: "2 * X + F = 2 * z + m" using y unfolding z_def .
  have "2 * \<bar>z - X\<bar> \<le> F" using y m by (cases "z \<le> X") (simp_all add: abs_if)
  moreover have "\<bar>X\<bar> < \<bar>z\<bar>" if "2 * \<bar>z - X\<bar> = F" using that y m assms by (cases "z \<le> X") (simp_all add: abs_if split: if_splits)
  ultimately show ?thesis unfolding nearest_multiple_def k_def [symmetric] z_def by simp
qed

lemma nearest_multiple_signed: "nearest_multiple F \<bar>x\<bar> y \<Longrightarrow> 0 \<le> y \<Longrightarrow> nearest_multiple F x (signed_by x 0 y)"
proof -
  assume a: "nearest_multiple F \<bar>x\<bar> y" "0 \<le> y"
  have "\<bar>signed_by x 0 y - x\<bar> = \<bar>y - \<bar>x\<bar>\<bar>" "\<bar>signed_by x 0 y\<bar> = \<bar>y\<bar>" "F dvd signed_by x 0 y \<longleftrightarrow> F dvd y"
    unfolding signed_by_def using abs_minus_cancel [of "y + x"] by simp_all
  then show ?thesis using a unfolding nearest_multiple_def by simp
qed

lemma To_Round_coarse:
  assumes "info_entry_ok resolution r u" and "Scale r < Scale u"
  defines "F \<equiv> sint (factor (res_info resolution u))"
  shows "\<exists>v. To resolution x u = Some v \<and> sint (Round v) = signed_by (sint x) 0 ((2 * \<bar>sint x\<bar> + F) div (2 * F))"
proof -
  let ?info = "res_info resolution u"
  let ?r = "uint (timeTo ?info)" and ?q = "\<bar>sint x\<bar> * uint (timeTo ?info) div 2 ^ 64"
  have i: "isValid ?info" "\<not> toMul ?info" "is_inverse F ?r" "?r \<le> 2 ^ 127" using assms by (auto simp: info_entry_ok_def info_ok_def)
  let ?v = "MulByInvert (of_int64 x) (timeTo ?info)"
  have v: "sint ?v = signed_by (sint x) 0 ?q" "?q \<le> 2 ^ 126" using MulByInvert_ok [OF i(4)] by blast+
  have q0: "0 \<le> ?q" by (simp add: pos_imp_zdiv_nonneg_iff)
  then have a: "\<bar>sint ?v\<bar> = ?q" unfolding v(1) signed_by_def by simp
  have "sint (Round ?v) = signed_by (sint ?v) 0 ((?q + 2 ^ 63) div 2 ^ 64)"
    using Round_ok [of ?v] v(2) unfolding a by simp
  moreover have "(?q + 2 ^ 63) div 2 ^ 64 = (2 * \<bar>sint x\<bar> + F) div (2 * F)"
  proof -
    have "?q + 2 ^ 63 = (\<bar>sint x\<bar> * ?r + 2 ^ 63 * 2 ^ 64) div 2 ^ 64" by (subst div_mult_self1) simp_all
    then have "(?q + 2 ^ 63) div 2 ^ 64 = (\<bar>sint x\<bar> * ?r + 1 * 2 ^ 127) div 2 ^ 128" by (simp add: div_mult2_eq [symmetric])
    also have "\<dots> = (2 * \<bar>sint x\<bar> + 1 * F) div (2 * F)" by (rule inverse_exact [OF i(3) abs_ge_zero abs_sint64_le]) simp
    finally show ?thesis by simp
  qed
  moreover have "signed_by (sint ?v) 0 k = signed_by (sint x) 0 k" if "?q = 0 \<longrightarrow> k = 0" for k
    using q0 that unfolding v(1) signed_by_def by auto
  moreover have "?q = 0 \<longrightarrow> (?q + 2 ^ 63) div 2 ^ 64 = 0" by simp
  ultimately have "sint (Round ?v) = signed_by (sint x) 0 ((2 * \<bar>sint x\<bar> + F) div (2 * F))" by metis
  then show ?thesis using i(1,2) by (simp add: To_def)
qed

end
