(* ===== verification/Time_Correct.thy ===== *)
theory Time_Correct
  imports Ns3_Time
begin

text \<open>
  Rounding and quotients of times, and the properties of conversions and of the numbers below them.
\<close>

section \<open>Rounding to a unit\<close>

lemma Mul_int64:
  assumes "\<bar>sint a * sint b\<bar> < 2 ^ 63"
  shows "\<exists>v. Mul (of_int64 a) (of_int64 b) = Some v \<and> sint v = sint a * sint b * 2 ^ 64"
proof -
  let ?p = "\<bar>sint a\<bar> * \<bar>sint b\<bar>"
  have "\<bar>sint (of_int64 a)\<bar> * \<bar>sint (of_int64 b)\<bar> = ?p * 2 ^ 64 * 2 ^ 64" by (simp add: sint_of_int64 abs_mult)
  then have e: "\<bar>sint (of_int64 a)\<bar> * \<bar>sint (of_int64 b)\<bar> div 2 ^ 64 = ?p * 2 ^ 64" by simp
  have "?p < 2 ^ 63" using assms by (simp add: abs_mult)
  then have "?p * 2 ^ 64 < 2 ^ 63 * 2 ^ 64" by (rule mult_strict_right_mono) simp
  then obtain v where v: "Mul (of_int64 a) (of_int64 b) = Some v" "sint v = signed_by (sint (of_int64 a)) (sint (of_int64 b)) (?p * 2 ^ 64)"
    using Mul_ok [of "of_int64 a" "of_int64 b"] unfolding e by auto
  have "signed_by (sint (of_int64 a)) (sint (of_int64 b)) (?p * 2 ^ 64) = sint a * sint b * 2 ^ 64"
    by (simp add: signed_by_def sint_of_int64 mult_less_0_iff abs_if)
  then show ?thesis using v by simp
qed

lemma Round_int:
  assumes "sint v = n * 2 ^ 64" and "\<bar>n\<bar> < 2 ^ 63"
  shows "sint (Round v) = n"
proof -
  have a: "\<bar>sint v\<bar> = \<bar>n\<bar> * 2 ^ 64" by (simp add: assms(1) abs_mult)
  have "(\<bar>n\<bar> + 1) * 2 ^ 64 \<le> 2 ^ 63 * 2 ^ 64" using assms(2) by (intro mult_right_mono) simp_all
  then have "\<bar>sint v\<bar> + 2 ^ 63 < 2 ^ 127" unfolding a by (simp add: distrib_right)
  note r = Round_ok [OF this]
  have "(\<bar>n\<bar> * 2 ^ 64 + 2 ^ 63) div 2 ^ 64 = \<bar>n\<bar>" by (intro int_div_pos_eq [of _ _ _ "2 ^ 63"]) simp_all
  then show ?thesis using r unfolding a by (simp add: signed_by_def assms(1) mult_less_0_iff abs_if)
qed

lemma RoundTo_coarse:
  assumes "info_entry_ok resolution r u" and "Scale r < Scale u" and "2 * \<bar>sint x\<bar> + sint (factor (res_info resolution u)) < 2 ^ 64"
  shows "\<exists>y. RoundTo resolution x u = Some y \<and> nearest_multiple (sint (factor (res_info resolution u))) (sint x) (sint y)"
proof -
  let ?info = "res_info resolution u"
  define F k where "F = sint (factor ?info)" and "k = (2 * \<bar>sint x\<bar> + F) div (2 * F)"
  have i: "isValid ?info" "fromMul ?info" "0 < F" "timeFrom ?info = of_int64 (factor ?info)"
    using assms(1,2) by (auto simp: info_entry_ok_def info_ok_def F_def)
  obtain v where v: "To resolution x u = Some v" "sint (Round v) = signed_by (sint x) 0 k"
    using To_Round_coarse [OF assms(1,2), of x] unfolding k_def F_def by blast
  have n: "nearest_multiple F \<bar>sint x\<bar> (k * F)" unfolding k_def by (rule nearest_multiple_pos) (use i(3) in simp_all)
  have k: "0 \<le> k" unfolding k_def using i(3) by (simp add: pos_imp_zdiv_nonneg_iff)
  then have kF: "0 \<le> k * F" using i(3) by simp
  have "2 * \<bar>k * F - \<bar>sint x\<bar>\<bar> \<le> F" using n unfolding nearest_multiple_def by blast
  moreover have "2 * (k * F - \<bar>sint x\<bar>) \<le> 2 * \<bar>k * F - \<bar>sint x\<bar>\<bar>" by (rule mult_left_mono) simp_all
  ultimately have "2 * (k * F - \<bar>sint x\<bar>) \<le> F" by (rule order_trans [rotated])
  then have small: "k * F < 2 ^ 63" using assms(3) unfolding F_def [symmetric] by simp
  have s: "signed_by (sint x) 0 k * F = signed_by (sint x) 0 (k * F)" by (simp add: signed_by_def)
  have "\<bar>signed_by (sint x) 0 (k * F)\<bar> = k * F" using kF by (simp add: signed_by_def)
  then have b: "\<bar>sint (Round v) * F\<bar> < 2 ^ 63" using small unfolding v(2) s by simp
  then obtain w where w: "Mul (of_int64 (Round v)) (of_int64 (factor ?info)) = Some w" "sint w = sint (Round v) * F * 2 ^ 64"
    using Mul_int64 [of "Round v" "factor ?info"] unfolding F_def by blast
  have "sint (Round w) = signed_by (sint x) 0 (k * F)" using Round_int [OF w(2) b] unfolding v(2) s .
  moreover have "RoundTo resolution x u = Some (Round w)" using v(1) w(1) i by (simp add: RoundTo_def From_def Let_def)
  ultimately show ?thesis using nearest_multiple_signed [OF n kF] unfolding F_def by auto
qed

lemma RoundTo_fine:
  assumes "info_entry_ok resolution r u" and "Scale u \<le> Scale r" and "\<bar>sint x\<bar> * sint (factor (res_info resolution u)) < 2 ^ 63"
  shows "RoundTo resolution x u = Some x"
proof -
  let ?info = "res_info resolution u"
  define F where "F = sint (factor ?info)"
  have i: "isValid ?info" "toMul ?info" "0 < F" "timeTo ?info = of_int64 (factor ?info)"
    using assms(1,2) by (auto simp: info_entry_ok_def info_ok_def F_def)
  have b: "\<bar>sint x * F\<bar> < 2 ^ 63" using assms(3) i(3) by (simp add: abs_mult flip: F_def)
  then obtain v where v: "To resolution x u = Some v" "sint v = sint x * F * 2 ^ 64"
    using Mul_int64 [of x "factor ?info"] i(1,2,4) unfolding F_def To_def Let_def by auto
  note rv = Round_int [OF v(2) b]
  have "From resolution (of_int64 (Round v)) u = Some x"
  proof (cases "fromMul ?info")
    case True
    from assms(1) have "F = 1"
    proof (cases rule: entry_cases)
      case coarse
      then have "F * Scale r = 1 * Scale r" using assms(2) unfolding F_def by linarith
      then show ?thesis unfolding mult_cancel_right by simp
    qed (use True in blast)
    moreover have "timeFrom ?info = of_int64 (factor ?info)" using assms(1) True unfolding info_entry_ok_def info_ok_def by metis
    ultimately have e: "F = 1" "timeFrom ?info = of_int64 (factor ?info)" by blast+
    obtain w where w: "Mul (of_int64 (Round v)) (of_int64 (factor ?info)) = Some w" "sint w = sint (Round v) * F * 2 ^ 64"
      using Mul_int64 [of "Round v" "factor ?info"] rv b e(1) unfolding F_def by auto
    have "sint (Round w) = sint x" using Round_int [OF w(2)] rv b e(1) by simp
    then have "Round w = x" by (rule signed_word_eqI)
    then show ?thesis using True i(1) e(2) w(1) by (simp add: From_def Let_def)
  next
    case False
    have e: "is_inverse F (uint (timeFrom ?info))" "uint (timeFrom ?info) \<le> 2 ^ 127"
      using assms(1) False unfolding F_def info_entry_ok_def info_ok_def by meson+
    let ?w = "MulByInvert (of_int64 (Round v)) (timeFrom ?info)"
    have "\<bar>sint (Round v)\<bar> * uint (timeFrom ?info) div 2 ^ 64 = \<bar>sint x\<bar> * 2 ^ 64"
      using inverse_divides [OF e(1), of "\<bar>sint x\<bar>"] b i(3) unfolding rv by (simp add: abs_mult)
    then have "sint ?w = signed_by (sint (Round v)) 0 (\<bar>sint x\<bar> * 2 ^ 64)" using MulByInvert_ok(1) [OF e(2), of "Round v"] by simp
    also have "\<dots> = sint x * 2 ^ 64" unfolding rv using i(3) by (simp add: signed_by_def mult_less_0_iff abs_if)
    finally have w: "sint ?w = sint x * 2 ^ 64" .
    have "\<bar>sint x\<bar> * 1 \<le> \<bar>sint x\<bar> * F" by (rule mult_left_mono) (use i(3) in simp_all)
    then have "sint (Round ?w) = sint x" using assms(3) unfolding F_def by (intro Round_int [OF w]) linarith
    then have "Round ?w = x" by (rule signed_word_eqI)
    then show ?thesis using False i(1) by (simp add: From_def Let_def)
  qed
  then show ?thesis using v(1) by (simp add: RoundTo_def)
qed

section \<open>Quotients\<close>

lemma time_quotient_ok:
  assumes "rhs \<noteq> 0" and "\<bar>sint lhs\<bar> div \<bar>sint rhs\<bar> < 2 ^ 63"
  shows "\<exists>q. time_quotient lhs rhs = Some q \<and> sint q = signed_by (sint lhs) (sint rhs) (\<bar>sint lhs\<bar> * 2 ^ 64 div \<bar>sint rhs\<bar>)"
proof -
  let ?a = "\<bar>sint lhs\<bar>" and ?b = "\<bar>sint rhs\<bar>"
  have "sint rhs \<noteq> 0" using assms(1) by (simp add: signed_eq_0_iff)
  then have b: "0 < ?b" by simp
  have e: "\<bar>sint (of_int64 lhs)\<bar> * 2 ^ 64 div \<bar>sint (of_int64 rhs)\<bar> = ?a * 2 ^ 64 div ?b"
    by (simp only: sint_of_int64 abs_mult power_abs abs_numeral) (rule div_mult_mult2, simp)
  have "?a < ?a div ?b * ?b + ?b" using pos_mod_bound [OF b, of ?a] div_mult_mod_eq [of ?a ?b] by linarith
  then have "?a < (?a div ?b + 1) * ?b" by (simp only: distrib_right mult_1)
  also have "\<dots> \<le> 2 ^ 63 * ?b" using assms(2) by (intro mult_right_mono) simp_all
  finally have "?a * 2 ^ 64 < 2 ^ 63 * ?b * 2 ^ 64" by (rule mult_strict_right_mono) simp
  then have "?a * 2 ^ 64 div ?b < 2 ^ 127" using b by (intro div_bounds(2)) simp_all
  moreover have "of_int64 rhs \<noteq> 0" using b sint_of_int64 [of rhs] by auto
  ultimately obtain q where q: "Div (of_int64 lhs) (of_int64 rhs) = Some q"
    "sint q = signed_by (sint (of_int64 lhs)) (sint (of_int64 rhs)) (?a * 2 ^ 64 div ?b)"
    using Div_ok [of "of_int64 rhs" "of_int64 lhs"] unfolding e by blast
  have "signed_by (sint (of_int64 lhs)) (sint (of_int64 rhs)) n = signed_by (sint lhs) (sint rhs) n" for n
    by (simp add: signed_by_def sint_of_int64 mult_less_0_iff)
  then show ?thesis using q unfolding time_quotient_def by simp
qed

lemma sint_GetInt:
  assumes "\<bar>sint v\<bar> < 2 ^ 127"
  shows "sint (GetInt v) = signed_by (sint v) 0 (\<bar>sint v\<bar> div 2 ^ 64)"
proof -
  let ?a = "if sint v < 0 then - v else v" and ?k = "\<bar>sint v\<bar> div 2 ^ 64"
  have k: "0 \<le> ?k" "?k < 2 ^ 63" using div_bounds(2) [of "2 ^ 64" "\<bar>sint v\<bar>" "2 ^ 63"] assms by (simp_all add: pos_imp_zdiv_nonneg_iff)
  have "uint (drop_bit 64 ?a) = ?k" by (simp only: uint_drop uint_abs)
  then have "ucast (drop_bit 64 ?a) = (word_of_int ?k :: u64)" by (simp only: ucast_eq)
  moreover have "sint (word_of_int ?k :: u64) = ?k" using k by (intro sint_word64) simp_all
  moreover have "sint (- word_of_int ?k :: u64) = - ?k" using k sint_word64 [of "- ?k"] by simp
  ultimately show ?thesis unfolding GetInt_def Let_def signed_by_def
    by (cases "sint v < 0") (simp_all only: if_True if_False less_irrefl simp_thms)
qed

lemma signed_by_diff: "P + M = \<bar>x\<bar> \<Longrightarrow> x - signed_by x 0 P = signed_by x 0 M"
  unfolding signed_by_def by (cases "x < 0") auto

lemma sint_Rem:
  assumes "rhs \<noteq> 0" and "\<bar>sint lhs\<bar> div \<bar>sint rhs\<bar> < 2 ^ 63"
  shows "sint (srem64 lhs rhs) = sint lhs - sint rhs * sint (sdiv64 lhs rhs)" and "\<bar>sint (srem64 lhs rhs)\<bar> < \<bar>sint rhs\<bar>"
proof -
  let ?a = "\<bar>sint lhs\<bar>" and ?b = "\<bar>sint rhs\<bar>"
  let ?r = "sint lhs - sint rhs * sint (sdiv64 lhs rhs)"
  have "sint rhs \<noteq> 0" using assms(1) by (simp add: signed_eq_0_iff)
  then have b: "0 < ?b" by simp
  have "sint rhs * sint (sdiv64 lhs rhs) = signed_by (sint lhs) 0 (?b * (?a div ?b))"
    unfolding sint_sdiv64 [OF assms(2)] signed_by_def by simp
  then have r: "?r = signed_by (sint lhs) 0 (?a mod ?b)"
    using signed_by_diff [OF mult_div_mod_eq [of ?b ?a]] by simp
  have m: "0 \<le> ?a mod ?b" "?a mod ?b < ?b" using b by simp_all
  have "?b \<le> 2 ^ 63" by (rule abs_sint64_le)
  then have "- (2 ^ 63) \<le> ?r" "?r < 2 ^ 63" unfolding r signed_by_def using m by auto
  moreover have "srem64 lhs rhs = word_of_int ?r"
    unfolding srem64_def using sint_word_id [of lhs] sint_word_id [of rhs] sint_word_id [of "sdiv64 lhs rhs"]
    by (simp only: of_int_diff of_int_mult mult.commute)
  ultimately show e: "sint (srem64 lhs rhs) = ?r" using sint_word64 [of ?r] by simp
  show "\<bar>sint (srem64 lhs rhs)\<bar> < ?b" unfolding e r signed_by_def using m by simp
qed

section \<open>Properties of numbers and times\<close>

text \<open>
  C11: The quotient of two times is exact. Unless the divisor is zero or the quotient is too large, the division of two
  times ends with the quotient truncated to 64 binary digits behind the point, of the right sign; Div is its integer part, as GetInt
  gives it, and \<open>ta = tb * Div (ta, tb) + Rem (ta, tb)\<close> with a remainder smaller than the divisor.
\<close>

theorem time_quotient_exact:
  assumes "rhs \<noteq> 0" and "\<bar>sint lhs\<bar> div \<bar>sint rhs\<bar> < 2 ^ 63"
  shows "\<exists>q d m. time_quotient lhs rhs = Some q \<and> time_Div lhs rhs = Some d \<and> time_Rem lhs rhs = Some m \<and>
    sint q = signed_by (sint lhs) (sint rhs) (\<bar>sint lhs\<bar> * 2 ^ 64 div \<bar>sint rhs\<bar>) \<and> GetInt q = d \<and>
    sint lhs = sint rhs * sint d + sint m \<and> \<bar>sint m\<bar> < \<bar>sint rhs\<bar>"
proof -
  let ?a = "\<bar>sint lhs\<bar>" and ?b = "\<bar>sint rhs\<bar>"
  obtain q where q: "time_quotient lhs rhs = Some q" "sint q = signed_by (sint lhs) (sint rhs) (?a * 2 ^ 64 div ?b)"
    using time_quotient_ok [OF assms] by blast
  have n: "0 \<le> ?a * 2 ^ 64 div ?b" by (simp add: div_int_pos_iff)
  then have aq: "\<bar>sint q\<bar> = ?a * 2 ^ 64 div ?b" unfolding q(2) signed_by_def by simp
  have k: "\<bar>sint q\<bar> div 2 ^ 64 = ?a div ?b"
  proof -
    have "?a * 2 ^ 64 div ?b div 2 ^ 64 = ?a * 2 ^ 64 div (?b * 2 ^ 64)" by (rule zdiv_zmult2_eq [symmetric]) simp
    also have "\<dots> = ?a div ?b" by (rule div_mult_mult2) simp
    finally show ?thesis unfolding aq .
  qed
  have "\<bar>sint q\<bar> < 2 ^ 127"
  proof (rule ccontr)
    assume "\<not> ?thesis"
    then have "2 ^ 127 div 2 ^ 64 \<le> \<bar>sint q\<bar> div 2 ^ 64" by (intro zdiv_mono1) simp_all
    then show False using assms(2) unfolding k by simp
  qed
  then have "sint (GetInt q) = signed_by (sint q) 0 (?a div ?b)" using sint_GetInt k by simp
  also have "\<dots> = signed_by (sint lhs) (sint rhs) (?a div ?b)"
    using n k unfolding aq unfolding q(2) signed_by_def by auto
  also have "\<dots> = sint (sdiv64 lhs rhs)" by (rule sint_sdiv64 [OF assms(2), symmetric])
  finally have "GetInt q = sdiv64 lhs rhs" by (rule signed_word_eqI)
  then show ?thesis using q sint_Rem [OF assms] assms(1) by (simp add: time_Div_def time_Rem_def)
qed

theorem time_quotient_exact_witness:
  "(7 :: u64) \<noteq> 0 \<and> \<bar>sint (100 :: u64)\<bar> div \<bar>sint (7 :: u64)\<bar> < 2 ^ 63 \<and>
   (\<exists>q d m. time_quotient 100 7 = Some q \<and> time_Div 100 7 = Some d \<and> time_Rem 100 7 = Some m \<and>
      sint q = 100 * 2 ^ 64 div 7 \<and> sint (100 :: u64) = sint (7 :: u64) * sint d + sint m)"
proof -
  have "(7 :: u64) \<noteq> 0" "\<bar>sint (100 :: u64)\<bar> div \<bar>sint (7 :: u64)\<bar> < 2 ^ 63" by simp_all
  moreover from time_quotient_exact [OF this]
  have "\<exists>q d m. time_quotient 100 7 = Some q \<and> time_Div 100 7 = Some d \<and> time_Rem 100 7 = Some m \<and>
      sint q = 100 * 2 ^ 64 div 7 \<and> sint (100 :: u64) = sint (7 :: u64) * sint d + sint m" by (auto simp: signed_by_def)
  ultimately show ?thesis by blast
qed

text \<open>
  The comment on Div gives \<open>ta = tb * (ta / tb).GetHigh () + ta % tb\<close>, too. That fails for a negative quotient, which GetHigh rounds
  down while the remainder belongs to the truncated quotient.
\<close>

lemma GetHigh_rounds_down:
  "\<exists>q m. time_quotient (- 7) 2 = Some q \<and> time_Rem (- 7) 2 = Some m \<and> sint (GetHigh q) = - 4 \<and> sint m = - 1 \<and>
     2 * sint (GetHigh q) + sint m \<noteq> - 7"
proof -
  have s: "sint (- 7 :: u64) = - 7" "sint (2 :: u64) = 2" "(2 :: u64) \<noteq> 0" by simp_all
  then have b: "\<bar>sint (- 7 :: u64)\<bar> div \<bar>sint (2 :: u64)\<bar> < 2 ^ 63" by simp
  obtain q where q: "time_quotient (- 7) 2 = Some q" "sint q = - (7 * 2 ^ 64 div 2)"
    using time_quotient_ok [OF s(3) b] unfolding s signed_by_def by auto
  have "sint (sdiv64 (- 7) 2) = - 3" using sint_sdiv64 [OF b] unfolding s signed_by_def by simp
  then have "sint (srem64 (- 7) 2) = - 1" using sint_Rem(1) [OF s(3) b] unfolding s by simp
  moreover have "sint (GetHigh q) = - 4" unfolding sint_GetHigh q(2) by simp
  ultimately show ?thesis using q(1) s(3) by (simp add: time_Rem_def)
qed

text \<open>
  C38: The multiplication never aborts on an overflow. Its documentation says that an overflow of the integer part is
  asserted, but the mask of the test is a 64-bit zero, so that Mul gives a result for all factors: the product of
  \<open>2 ^ 32\<close> and \<open>2 ^ 31\<close> is negative.
\<close>

theorem Mul_overflow_unnoticed:
  "(\<forall>a b. Mul a b \<noteq> None) \<and> (\<exists>r. Mul (of_int64 (2 ^ 32)) (of_int64 (2 ^ 31)) = Some r \<and> sint r = - (2 ^ 127))"
proof -
  have u: "Umul a b \<noteq> None" for a b by (simp add: Umul_def Let_def)
  have "sint (of_int64 (2 ^ 32)) = 2 ^ 96" "sint (of_int64 (2 ^ 31)) = 2 ^ 95" by (simp_all add: sint_of_int64)
  then have p: "uint (of_int64 (2 ^ 32)) = 2 ^ 96" "uint (of_int64 (2 ^ 31)) = 2 ^ 95" "\<not> sint (of_int64 (2 ^ 32)) < 0" "\<not> sint (of_int64 (2 ^ 31)) < 0"
    using uint_abs [of "of_int64 (2 ^ 32)"] uint_abs [of "of_int64 (2 ^ 31)"] by simp_all
  obtain r where r: "Umul (of_int64 (2 ^ 32)) (of_int64 (2 ^ 31)) = Some r" "uint r = (2 ^ 96 * 2 ^ 95 div 2 ^ 64) mod 2 ^ 128"
    using Umul_ok [of "of_int64 (2 ^ 32)" "of_int64 (2 ^ 31)"] unfolding p by auto
  have "sint r = - (2 ^ 127)" using r(2) by (simp add: sint_cases)
  moreover have "Mul (of_int64 (2 ^ 32)) (of_int64 (2 ^ 31)) = Some r" using r(1) p by (simp add: Mul_def output_sign_def Let_def)
  moreover have "Mul a b \<noteq> None" for a b 

  proof -
    obtain n a' b' where o: "output_sign a b = (n, a', b')" using prod_cases3 by blast
    obtain x where "Umul a' b' = Some x" using u [of a' b'] by blast
    then show ?thesis using o by (simp add: Mul_def)
  qed
  ultimately show ?thesis by blast
qed

text \<open>
  C12: Conversions between integers and times are exact. With the table that SetResolution makes for a resolution \<open>r\<close>, whatever it
  held before, and a unit \<open>u\<close> that the table marks as usable, FromInteger gives the number of whole steps of the resolution in \<open>n\<close> units and ToInteger
  the number of whole units in a time, truncated towards zero, as long as these numbers fit; a unit not finer than
  the resolution survives the round trip.
\<close>

theorem integer_conversions:
  assumes "set_resolution_table r res0 = Some resolution" and "isValid (res_info resolution u)"
  shows "(uint n * Scale u div Scale r < 2 ^ 63 \<longrightarrow>
      (\<exists>t. FromInteger resolution n u = Some t \<and> sint t = uint n * Scale u div Scale r)) \<and>
    (\<bar>sint x\<bar> * Scale r div Scale u < 2 ^ 63 \<longrightarrow>
      (\<exists>y. ToInteger resolution x u = Some y \<and> sint y = signed_by (sint x) 0 (\<bar>sint x\<bar> * Scale r div Scale u))) \<and>
    (Scale r \<le> Scale u \<and> uint n * Scale u div Scale r < 2 ^ 63 \<longrightarrow>
      (\<exists>t. FromInteger resolution n u = Some t \<and> ToInteger resolution t u = Some n))"
proof -
  note ok = table_entry_ok [OF assms]
  have "\<exists>t. FromInteger resolution n u = Some t \<and> ToInteger resolution t u = Some n" if le: "Scale r \<le> Scale u" and fits: "uint n * Scale u div Scale r < 2 ^ 63"
  proof -
    obtain t where t: "FromInteger resolution n u = Some t" "sint t = uint n * Scale u div Scale r"
      using FromInteger_ok [OF ok fits] by blast
    obtain f where f: "f * Scale r = Scale u" "0 < f" using ok le by (cases rule: entry_cases) auto
    have t': "sint t = uint n * f" unfolding t(2) f(1) [symmetric] by (rule quot_eq) simp_all
    have n: "\<bar>sint t\<bar> * Scale r div Scale u = uint n"
      unfolding t' using f by (intro quot_eq) (simp_all add: abs_mult)
    have "uint n * 1 \<le> uint n * f" using f(2) by (intro mult_left_mono) simp_all
    then have "uint n < 2 ^ 63" using fits unfolding t(2) [symmetric] t' by linarith
    then obtain y where y: "ToInteger resolution t u = Some y" "sint y = signed_by (sint t) 0 (uint n)"
      using ToInteger_ok [OF ok, of t] unfolding n by blast
    have "sint y = uint n" unfolding y(2) signed_by_def t' using f(2) by (simp add: mult_less_0_iff)
    then have "uint y = uint n" using uint_sint_pos [of y] by simp
    then have "y = n" by (rule unsigned_word_eqI)
    then show ?thesis using t(1) y(1) by simp
  qed
  then show ?thesis using FromInteger_ok [OF ok, of n] ToInteger_ok [OF ok, of x] by blast
qed

lemma default_table:
  obtains resolution where "SetDefaultNsResolution = Some resolution" "set_resolution_table Unit_NS zero_resolution = Some resolution"
    "\<And>u. isValid (res_info resolution u) \<longleftrightarrow> max (Scale u) (Scale Unit_NS) div min (Scale u) (Scale Unit_NS) < 2 ^ 63"
  using set_resolution_table_ok [of Unit_NS zero_resolution]
  unfolding SetDefaultNsResolution_def resolution_ok_def info_ok_def by metis

theorem integer_conversions_witness:
  "\<exists>resolution t. SetDefaultNsResolution = Some resolution \<and> isValid (res_info resolution Unit_MS) \<and>
     FromInteger resolution 5 Unit_MS = Some t \<and> sint t = 5000000 \<and> ToInteger resolution t Unit_MS = Some 5"
proof (rule default_table)
  fix resolution
  assume r: "SetDefaultNsResolution = Some resolution" "set_resolution_table Unit_NS zero_resolution = Some resolution"
    "\<And>u. isValid (res_info resolution u) \<longleftrightarrow> max (Scale u) (Scale Unit_NS) div min (Scale u) (Scale Unit_NS) < 2 ^ 63"
  have v: "isValid (res_info resolution Unit_MS)" unfolding r(3) by simp
  have u: "uint (5 :: u64) * Scale Unit_MS div Scale Unit_NS = 5000000" by simp
  from integer_conversions [OF r(2) v, of 5 0, unfolded u]
  obtain t where t: "FromInteger resolution 5 Unit_MS = Some t" "sint t = 5000000" "ToInteger resolution t Unit_MS = Some 5" by auto
  then show ?thesis using r(1) v by blast
qed

text \<open>
  C10: RoundTo is exact. With the table of SetResolution for a resolution \<open>r\<close> and a usable unit \<open>u\<close> coarser than \<open>r\<close>, it gives the
  multiple of the unit that is nearest to the time, the one farther from zero when there are two, although it multiplies with an inverse that is
  rounded to 128 bits; for a unit that is not coarser it gives the time itself. The results have to fit.
\<close>

theorem RoundTo_nearest:
  assumes "set_resolution_table r res0 = Some resolution" and "isValid (res_info resolution u)"
  shows "(Scale r < Scale u \<and> 2 * \<bar>sint x\<bar> + Scale u div Scale r < 2 ^ 64 \<longrightarrow>
      (\<exists>y. RoundTo resolution x u = Some y \<and> nearest_multiple (Scale u div Scale r) (sint x) (sint y))) \<and>
    (Scale u \<le> Scale r \<and> \<bar>sint x\<bar> * (Scale r div Scale u) < 2 ^ 63 \<longrightarrow> RoundTo resolution x u = Some x)"
proof -
  let ?F = "sint (factor (res_info resolution u))"
  note ok = table_entry_ok [OF assms]
  have i: "?F * min (Scale u) (Scale r) = max (Scale u) (Scale r)" using ok by (auto simp: info_entry_ok_def info_ok_def)
  have "Scale u div Scale r = ?F" if "Scale r < Scale u" using i that by (intro quot_eq) simp_all
  moreover have "Scale r div Scale u = ?F" if "Scale u \<le> Scale r" using i that by (intro quot_eq) simp_all
  ultimately show ?thesis using RoundTo_coarse [OF ok, of x] RoundTo_fine [OF ok, of x] by metis
qed

theorem RoundTo_nearest_witness:
  "\<exists>resolution y. SetDefaultNsResolution = Some resolution \<and> isValid (res_info resolution Unit_MS) \<and>
     RoundTo resolution 7500000 Unit_MS = Some y \<and> nearest_multiple 1000000 7500000 (sint y)"
proof (rule default_table)
  fix resolution
  assume r: "SetDefaultNsResolution = Some resolution" "set_resolution_table Unit_NS zero_resolution = Some resolution"
    "\<And>u. isValid (res_info resolution u) \<longleftrightarrow> max (Scale u) (Scale Unit_NS) div min (Scale u) (Scale Unit_NS) < 2 ^ 63"
  have v: "isValid (res_info resolution Unit_MS)" unfolding r(3) by simp
  have u: "Scale Unit_MS div Scale Unit_NS = 1000000" "sint (7500000 :: u64) = 7500000" by simp_all
  from RoundTo_nearest [OF r(2) v, of 7500000, unfolded u]
  obtain y where "RoundTo resolution 7500000 Unit_MS = Some y" "nearest_multiple 1000000 7500000 (sint y)" by auto
  then show ?thesis using r(1) v by blast
qed

end
