(* ===== verification/Time_Registry.thy ===== *)
theory Time_Registry
  imports Time_Correct
begin

text \<open>
  The Time objects of a program and the change of the resolution: every object that exists is in the registry until the
  resolution is fixed, and SetResolution converts all of them.
\<close>

section \<open>Programs\<close>

text \<open>
  The states of a program that makes, copies, assigns and destroys Time objects, fixes the resolution (the simulator does that when it starts to run) and changes it.
  A new object has an address that no other object has, and only objects that exist are destroyed or assigned.
\<close>

inductive times_reach :: "time_state \<Rightarrow> bool" where
  reach_init: "SetDefaultNsResolution = Some resolution \<Longrightarrow>
    times_reach \<lparr>ts_resolution = resolution, g_markingTimes = Some [], time_objects = Map.empty\<rparr>"
| reach_new: "times_reach s \<Longrightarrow> time_objects s a = None \<Longrightarrow> times_reach (Time_new a v s)"
| reach_delete: "times_reach s \<Longrightarrow> time_objects s a \<noteq> None \<Longrightarrow> Time_delete a s = Some s' \<Longrightarrow> times_reach s'"
| reach_assign: "times_reach s \<Longrightarrow> Time_assign a b s = Some s' \<Longrightarrow> times_reach s'"
| reach_clear: "times_reach s \<Longrightarrow> times_reach (ClearMarkedTimes s)"
| reach_set: "times_reach s \<Longrightarrow> SetResolution u s = Some s' \<Longrightarrow> times_reach s'"

definition times_inv :: "time_state \<Rightarrow> bool" where
  "times_inv s \<longleftrightarrow> resolution_ok (ts_resolution s) \<and>
     (\<forall>m. g_markingTimes s = Some m \<longrightarrow> distinct m \<and> set m = dom (time_objects s))"

lemma SetResolution_fields:
  assumes "SetResolution u s = Some s'"
  shows "g_markingTimes s' = None \<and> resolution_ok (ts_resolution s') \<and> res_unit (ts_resolution s') = u"
  using assms set_resolution_table_ok [of u "ts_resolution s"]
  by (auto simp: SetResolution_def ConvertTimes_def split: Option.bind_splits)

lemma times_inv_reach: "times_reach s \<Longrightarrow> times_inv s"
proof (induction rule: times_reach.induct)
  case (reach_init resolution)
  then show ?case using set_resolution_table_ok [of Unit_NS zero_resolution] by (auto simp: times_inv_def SetDefaultNsResolution_def)
next
  case (reach_new s a v)
  then show ?case by (auto simp: times_inv_def Time_new_def Mark_def set_insort_key distinct_insort split: option.splits)
next
  case (reach_delete s a s')
  then show ?case by (auto simp: times_inv_def Time_delete_def Clear_def split: option.splits Option.bind_splits if_splits)
next
  case (reach_assign s a b s')
  then have "dom (time_objects s') = dom (time_objects s)" "ts_resolution s' = ts_resolution s" "g_markingTimes s' = g_markingTimes s"
    by (auto simp: Time_assign_def split: option.splits if_splits)
  then show ?case using reach_assign.IH by (simp add: times_inv_def)
next
  case (reach_clear s)
  then show ?case by (simp add: times_inv_def ClearMarkedTimes_def)
next
  case (reach_set s u s')
  then show ?case using SetResolution_fields by (simp add: times_inv_def)
qed

section \<open>Conversion\<close>

definition extreme :: "u64 \<Rightarrow> bool" where
  "extreme v \<longleftrightarrow> sint v = - (2 ^ 63) \<or> sint v = 2 ^ 63 - 1"

text \<open>A time in units of \<open>r\<close>, in units of \<open>u\<close>: truncated towards zero; the minimum and the maximum stay what they are.\<close>

definition rescaled :: "Unit \<Rightarrow> Unit \<Rightarrow> u64 \<Rightarrow> u64 \<Rightarrow> bool" where
  "rescaled r u v v' \<longleftrightarrow> (if extreme v then v' = v else sint v' = signed_by (sint v) 0 (\<bar>sint v\<bar> * Scale r div Scale u))"

lemma convert_one:
  assumes "info_entry_ok resolution r u" and "extreme v \<or> \<bar>sint v\<bar> * Scale r div Scale u < 2 ^ 63"
  shows "\<exists>v'. (if sint v = - (2 ^ 63) \<or> sint v = 2 ^ 63 - 1 then Some v else ToInteger resolution v u) = Some v' \<and> rescaled r u v v'"
  using assms(2) ToInteger_ok [OF assms(1), of v] unfolding extreme_def [symmetric] rescaled_def by auto

lemma convert_times_ok:
  assumes "info_entry_ok resolution r u" and "distinct m" and "set m \<subseteq> dom objects"
    and "\<And>a v. a \<in> set m \<Longrightarrow> objects a = Some v \<Longrightarrow> extreme v \<or> \<bar>sint v\<bar> * Scale r div Scale u < 2 ^ 63"
  shows "\<exists>objects'. convert_times m resolution u objects = Some objects' \<and> dom objects' = dom objects \<and>
    (\<forall>a v. objects a = Some v \<longrightarrow> (\<exists>v'. objects' a = Some v' \<and> (if a \<in> set m then rescaled r u v v' else v' = v)))"
  using assms(2-4)
proof (induction m arbitrary: objects)
  case (Cons a m)
  obtain v where v: "objects a = Some v" using Cons.prems(2) by auto
  obtain v' where v': "(if sint v = - (2 ^ 63) \<or> sint v = 2 ^ 63 - 1 then Some v else ToInteger resolution v u) = Some v'" "rescaled r u v v'"
    using convert_one [OF assms(1)] Cons.prems(3) [OF _ v] by auto
  let ?objects = "objects(a \<mapsto> v')"
  have ne: "b \<noteq> a" if "b \<in> set m" for b using Cons.prems(1) that by auto
  then have "extreme w \<or> \<bar>sint w\<bar> * Scale r div Scale u < 2 ^ 63" if "b \<in> set m" "?objects b = Some w" for b w
    using Cons.prems(3) [of b w] that by auto
  moreover have "distinct m" "set m \<subseteq> dom ?objects" using Cons.prems(1,2) by auto
  ultimately obtain objects' where o: "convert_times m resolution u ?objects = Some objects'" "dom objects' = dom ?objects"
    "\<And>b w. ?objects b = Some w \<Longrightarrow> \<exists>w'. objects' b = Some w' \<and> (if b \<in> set m then rescaled r u w w' else w' = w)"
    using Cons.IH [of ?objects] by blast
  have "\<exists>w'. objects' b = Some w' \<and> (if b \<in> set (a # m) then rescaled r u w w' else w' = w)" if "objects b = Some w" for b w
  proof (cases "b = a")
    case True
    moreover have "a \<notin> set m" using Cons.prems(1) by simp
    ultimately show ?thesis using o(3) [of a v'] that v v'(2) by auto
  next
    case False
    then show ?thesis using o(3) [of b w] that by simp
  qed
  moreover have "convert_times (a # m) resolution u objects = Some objects'" using v v'(1) o(1) by simp
  moreover have "dom objects' = dom objects" using o(2) v by auto
  ultimately show ?case by blast
qed auto

section \<open>Properties\<close>

text \<open>
  C9: The change of the resolution converts every Time object. In every state that a program reaches, whatever objects it made, copied, assigned and
  destroyed: as long as the resolution is not fixed, SetResolution to a usable unit succeeds if the converted times fit, keeps the
  set of objects, and every object holds its time in the new unit, truncated towards zero, the minimum and the maximum unchanged; afterwards the resolution is the new one and
  fixed. Once it is fixed, SetResolution fails its assertion. And the destruction of an object that exists never fails.
\<close>

theorem SetResolution_converts_all:
  assumes "times_reach s" and "isValid (res_info (ts_resolution s) u)"
    and "\<forall>v \<in> ran (time_objects s). extreme v \<or> \<bar>sint v\<bar> * Scale (res_unit (ts_resolution s)) div Scale u < 2 ^ 63"
  shows "(if g_markingTimes s = None then SetResolution u s = None
     else \<exists>s'. SetResolution u s = Some s' \<and> res_unit (ts_resolution s') = u \<and> g_markingTimes s' = None \<and>
       dom (time_objects s') = dom (time_objects s) \<and>
       (\<forall>a v. time_objects s a = Some v \<longrightarrow> (\<exists>v'. time_objects s' a = Some v' \<and> rescaled (res_unit (ts_resolution s)) u v v'))) \<and>
    (\<forall>a. time_objects s a \<noteq> None \<longrightarrow> Time_delete a s \<noteq> None)"
proof (cases "g_markingTimes s")
  case None
  then show ?thesis by (simp add: SetResolution_def ConvertTimes_def Time_delete_def Clear_def)
next
  case (Some m)
  let ?r = "res_unit (ts_resolution s)"
  have i: "resolution_ok (ts_resolution s)" "distinct m" "set m = dom (time_objects s)"
    using times_inv_reach [OF assms(1)] Some by (auto simp: times_inv_def)
  have ok: "info_entry_ok (ts_resolution s) ?r u" using i(1) assms(2) by (simp add: info_entry_ok_def resolution_ok_def)
  obtain objects' where o: "convert_times m (ts_resolution s) u (time_objects s) = Some objects'" "dom objects' = dom (time_objects s)"
    "\<forall>a v. time_objects s a = Some v \<longrightarrow> (\<exists>v'. objects' a = Some v' \<and> (if a \<in> set m then rescaled ?r u v v' else v' = v))"
    using convert_times_ok [OF ok i(2), of "time_objects s"] i(3) assms(3) by (metis ranI order_refl)
  have all: "\<exists>v'. objects' a = Some v' \<and> rescaled ?r u v v'" if "time_objects s a = Some v" for a v
    using o(3) that i(3) by (metis domI)
  obtain resolution' where t: "set_resolution_table u (ts_resolution s) = Some resolution'" "res_unit resolution' = u"
    using set_resolution_table_ok by blast
  let ?s = "s\<lparr>time_objects := objects', g_markingTimes := None, ts_resolution := resolution'\<rparr>"
  have "SetResolution u s = Some ?s" using Some o(1) t(1) by (simp add: SetResolution_def ConvertTimes_def)
  moreover have "Time_delete a s \<noteq> None" if "time_objects s a \<noteq> None" for a
    using Some i(3) that by (auto simp: Time_delete_def Clear_def)
  ultimately show ?thesis using Some t(2) o(2) all by (intro conjI) (simp_all add: exI [of _ ?s])
qed

theorem SetResolution_converts_all_witness:
  "\<exists>s s'. times_reach s \<and> isValid (res_info (ts_resolution s) Unit_US) \<and> time_objects s 8 = Some 7900 \<and>
     SetResolution Unit_US s = Some s' \<and> (\<exists>v'. time_objects s' 8 = Some v' \<and> rescaled Unit_NS Unit_US 7900 v')"
proof -
  obtain resolution where r: "SetDefaultNsResolution = Some resolution" "set_resolution_table Unit_NS zero_resolution = Some resolution"
    "\<And>u. isValid (res_info resolution u) \<longleftrightarrow> max (Scale u) (Scale Unit_NS) div min (Scale u) (Scale Unit_NS) < 2 ^ 63"
    using default_table by metis
  have u: "res_unit resolution = Unit_NS" using set_resolution_table_ok [of Unit_NS zero_resolution] r(2) by auto
  let ?i = "\<lparr>ts_resolution = resolution, g_markingTimes = Some [], time_objects = Map.empty\<rparr>"
  let ?s = "Time_new 8 7900 ?i"
  have reach: "times_reach ?s" by (rule reach_new [OF reach_init [OF r(1)]]) simp
  have f: "ts_resolution ?s = resolution" "g_markingTimes ?s = Some [8]" "time_objects ?s = [8 \<mapsto> 7900]" by (simp_all add: Time_new_def Mark_def)
  have v: "isValid (res_info (ts_resolution ?s) Unit_US)" unfolding f r(3) by simp
  have "\<forall>v \<in> ran (time_objects ?s). extreme v \<or> \<bar>sint v\<bar> * Scale (res_unit (ts_resolution ?s)) div Scale Unit_US < 2 ^ 63"
    unfolding f u by simp
  from SetResolution_converts_all [OF reach v this]
  obtain s' where s': "SetResolution Unit_US ?s = Some s'"
    "\<forall>a v. [8 \<mapsto> 7900] a = Some v \<longrightarrow> (\<exists>v'. time_objects s' a = Some v' \<and> rescaled Unit_NS Unit_US v v')"
    unfolding f u by auto
  then have "\<exists>v'. time_objects s' 8 = Some v' \<and> rescaled Unit_NS Unit_US 7900 v'" by simp
  then show ?thesis using reach v s'(1) f(3) by (intro exI [of _ ?s] exI [of _ s']) simp
qed

end
