(* ===== verification/Gym_Containers.thy ===== *)
theory Gym_Containers
  imports Ns3_Prelude "HOL-Library.Char_ord" "HOL-Library.List_Lexorder"
begin

text \<open>
  contrib/ns3-ai/model/gym-interface/cpp/container.cc and container.h: the data containers in
  which observations and actions travel, and their translation to and from the protobuf messages
  of messages.proto.

  The protobuf library is not part of the repository. Packing a message into a
  google.protobuf.Any and unpacking it are parameters \<open>pack\<close> and \<open>unpack\<close>; what the code relies
  on is that unpacking gives back what was packed. The conversion of a number to float by the
  compiler is the parameter \<open>to_float\<close>; floats and doubles are copied and never computed with, so
  their types are type variables \<open>'f\<close> and \<open>'d\<close>.
\<close>

section \<open>Messages\<close>

datatype SpaceType = NoSpaceType | Discrete | Box | Tuple | Dict

datatype Dtype = NoDType | INT_dtype | UINT_dtype | FLOAT_dtype | DOUBLE_dtype

record 'any DataContainerPb =
  pb_type :: SpaceType
  pb_data :: 'any
  pb_name :: string

record ('f, 'd) BoxDataPb =
  box_dtype :: Dtype
  box_shape :: "u32 list"
  intData :: "32 word list"
  uintData :: "u32 list"
  floatData :: "'f list"
  doubleData :: "'d list"

datatype ('f, 'd, 'any) payload =
    DiscretePayload "32 word"
  | BoxPayload "('f, 'd) BoxDataPb"
  | TuplePayload "'any DataContainerPb list"
  | DictPayload "'any DataContainerPb list"

text \<open>UnpackTo leaves the default message when the Any holds something else.\<close>

definition unpack_discrete :: "('any \<Rightarrow> ('f, 'd, 'any) payload option) \<Rightarrow> 'any \<Rightarrow> 32 word" where
  "unpack_discrete unpack a = (case unpack a of Some (DiscretePayload d) \<Rightarrow> d | _ \<Rightarrow> 0)"

definition unpack_box :: "('any \<Rightarrow> ('f, 'd, 'any) payload option) \<Rightarrow> 'any \<Rightarrow> ('f, 'd) BoxDataPb" where
  "unpack_box unpack a =
     (case unpack a of Some (BoxPayload b) \<Rightarrow> b
      | _ \<Rightarrow> \<lparr>box_dtype = NoDType, box_shape = [], intData = [], uintData = [], floatData = [], doubleData = []\<rparr>)"

definition unpack_tuple :: "('any \<Rightarrow> ('f, 'd, 'any) payload option) \<Rightarrow> 'any \<Rightarrow> 'any DataContainerPb list" where
  "unpack_tuple unpack a = (case unpack a of Some (TuplePayload es) \<Rightarrow> es | _ \<Rightarrow> [])"

definition unpack_dict :: "('any \<Rightarrow> ('f, 'd, 'any) payload option) \<Rightarrow> 'any \<Rightarrow> 'any DataContainerPb list" where
  "unpack_dict unpack a = (case unpack a of Some (DictPayload es) \<Rightarrow> es | _ \<Rightarrow> [])"

section \<open>Containers\<close>

text \<open>
  The data vector of an OpenGymBoxContainer<T>: for an integral \<open>T\<close> the name that TypeNameGet
  gives it, and the values as integers.
\<close>

datatype ('f, 'd) box_values = Ints string "int list" | Floats "'f list" | Doubles "'d list"

text \<open>
  A pointer is an option, None the null pointer. The value of a discrete container is None until
  SetValue is called: the constructors leave \<open>m_value\<close> uninitialised. A std::map is the list of
  its entries in the order of their keys.
\<close>

datatype ('f, 'd) container =
    DiscreteContainer u32 "u32 option"
  | BoxContainer "u32 list" "('f, 'd) box_values"
  | TupleContainer "('f, 'd) container option list"
  | DictContainer "(string \<times> ('f, 'd) container option) list"

definition DiscreteContainer_new :: "u32 \<Rightarrow> ('f, 'd) container" where
  "DiscreteContainer_new n = DiscreteContainer n None"

definition SetValue :: "u32 \<Rightarrow> ('f, 'd) container \<Rightarrow> ('f, 'd) container option" where
  "SetValue v c = (case c of DiscreteContainer n _ \<Rightarrow> Some (DiscreteContainer n (Some v)) | _ \<Rightarrow> None)"

definition TypeNameGet :: "('f, 'd) box_values \<Rightarrow> string" where
  "TypeNameGet vs = (case vs of Ints name _ \<Rightarrow> name | Floats _ \<Rightarrow> ''float'' | Doubles _ \<Rightarrow> ''double'')"

definition SetDtype :: "string \<Rightarrow> Dtype" where
  "SetDtype name =
     (if name = ''int8_t'' \<or> name = ''int16_t'' \<or> name = ''int32_t'' \<or> name = ''int64_t'' then INT_dtype
      else if name = ''uint8_t'' \<or> name = ''uint16_t'' \<or> name = ''uint32_t'' \<or> name = ''uint64_t'' then UINT_dtype
      else if name = ''float'' then FLOAT_dtype
      else if name = ''double'' then DOUBLE_dtype
      else FLOAT_dtype)"

text \<open>GetValue of a box: zero out of range.\<close>

definition box_GetValue :: "u32 \<Rightarrow> int list \<Rightarrow> int" where
  "box_GetValue idx data = (if unat idx < length data then data ! unat idx else 0)"

definition box_AddValue :: "'t \<Rightarrow> 't list \<Rightarrow> 't list" where
  "box_AddValue value data = data @ [value]"

definition tuple_Add :: "('f, 'd) container option \<Rightarrow> ('f, 'd) container option list \<Rightarrow> ('f, 'd) container option list" where
  "tuple_Add x m_tuple = m_tuple @ [x]"

definition tuple_Get :: "u32 \<Rightarrow> ('f, 'd) container option list \<Rightarrow> ('f, 'd) container option" where
  "tuple_Get idx m_tuple = (if unat idx < length m_tuple then m_tuple ! unat idx else None)"

text \<open>std::map::insert keeps an entry that is there.\<close>

fun dict_Add :: "string \<Rightarrow> 'v \<Rightarrow> (string \<times> 'v) list \<Rightarrow> (string \<times> 'v) list" where
  "dict_Add k v [] = [(k, v)]"
| "dict_Add k v ((k', v') # d) =
     (if k < k' then (k, v) # (k', v') # d
      else if k' < k then (k', v') # dict_Add k v d
      else (k', v') # d)"

definition dict_Get :: "string \<Rightarrow> (string \<times> 'v option) list \<Rightarrow> 'v option" where
  "dict_Get k m_dict = (case map_of m_dict k of Some v \<Rightarrow> v | None \<Rightarrow> None)"

section \<open>To and from messages\<close>

definition box_pb :: "(int \<Rightarrow> 'f) \<Rightarrow> u32 list \<Rightarrow> ('f, 'd) box_values \<Rightarrow> ('f, 'd) BoxDataPb" where
  "box_pb to_float shape values =
     (let m_dtype = SetDtype (TypeNameGet values);
          pb = \<lparr>box_dtype = m_dtype, box_shape = shape, intData = [], uintData = [], floatData = [], doubleData = []\<rparr>
      in case values of
           Ints _ data \<Rightarrow>
             (if m_dtype = INT_dtype then pb\<lparr>intData := map word_of_int data\<rparr>
              else if m_dtype = UINT_dtype then pb\<lparr>uintData := map word_of_int data\<rparr>
              else pb\<lparr>floatData := map to_float data\<rparr>)
         | Floats data \<Rightarrow> pb\<lparr>floatData := data\<rparr>
         | Doubles data \<Rightarrow> pb\<lparr>doubleData := data\<rparr>)"

text \<open>GetDataContainerPbMsg of the four classes; tuple and dictionary are given the messages of
  their elements. None: the value was never set, or a null pointer is followed.\<close>

definition discrete_pb :: "(('f, 'd, 'any) payload \<Rightarrow> 'any) \<Rightarrow> u32 option \<Rightarrow> 'any DataContainerPb option" where
  "discrete_pb pack m_value = do {
     value \<leftarrow> m_value;
     Some \<lparr>pb_type = Discrete, pb_data = pack (DiscretePayload value), pb_name = []\<rparr>
   }"

definition tuple_pb :: "(('f, 'd, 'any) payload \<Rightarrow> 'any) \<Rightarrow> 'any DataContainerPb option list \<Rightarrow> 'any DataContainerPb option" where
  "tuple_pb pack subs = do {
     elements \<leftarrow> those subs;
     Some \<lparr>pb_type = Tuple, pb_data = pack (TuplePayload elements), pb_name = []\<rparr>
   }"

definition dict_pb :: "(('f, 'd, 'any) payload \<Rightarrow> 'any) \<Rightarrow> (string \<times> 'any DataContainerPb option) list \<Rightarrow> 'any DataContainerPb option" where
  "dict_pb pack subs = do {
     elements \<leftarrow> those (map (\<lambda>(name, x). map_option (\<lambda>e. e\<lparr>pb_name := name\<rparr>) x) subs);
     Some \<lparr>pb_type = Dict, pb_data = pack (DictPayload elements), pb_name = []\<rparr>
   }"

function (sequential) GetDataContainerPbMsg :: "(int \<Rightarrow> 'f) \<Rightarrow> (('f, 'd, 'any) payload \<Rightarrow> 'any) \<Rightarrow> ('f, 'd) container
    \<Rightarrow> 'any DataContainerPb option" where
  "GetDataContainerPbMsg to_float pack (DiscreteContainer n v) = discrete_pb pack v"
| "GetDataContainerPbMsg to_float pack (BoxContainer shape values) =
     Some \<lparr>pb_type = Box, pb_data = pack (BoxPayload (box_pb to_float shape values)), pb_name = []\<rparr>"
| "GetDataContainerPbMsg to_float pack (TupleContainer m_tuple) =
     tuple_pb pack (map (\<lambda>x. Option.bind x (GetDataContainerPbMsg to_float pack)) m_tuple)"
| "GetDataContainerPbMsg to_float pack (DictContainer m_dict) =
     dict_pb pack (map (\<lambda>(name, x). (name, Option.bind x (GetDataContainerPbMsg to_float pack))) m_dict)"
  by pat_completeness auto

lemma tuple_size: "Some c \<in> set m_tuple \<Longrightarrow> size c < Suc (size_list (size_option size) m_tuple)"
  by (induction m_tuple) auto

lemma dict_size: "(name, Some c) \<in> set m_dict \<Longrightarrow> size c < Suc (size_list (size_prod (\<lambda>_. 0) (size_option size)) m_dict)"
  by (induction m_dict) auto

termination GetDataContainerPbMsg
  by (relation "measure (\<lambda>(tf, pack, c). size c)") (auto dest: tuple_size dict_size)

lemma dict_pb_map:
  "dict_pb pack (map (\<lambda>(name, x). (name, f x)) d) = do {
     elements \<leftarrow> those (map (\<lambda>(name, x). map_option (\<lambda>e. e\<lparr>pb_name := name\<rparr>) (f x)) d);
     Some \<lparr>pb_type = Dict, pb_data = pack (DictPayload elements), pb_name = []\<rparr>
   }"
  by (simp add: dict_pb_def comp_def split_def)

declare discrete_pb_def [simp] tuple_pb_def [simp] dict_pb_map [simp]

text \<open>
  CreateFromDataContainerPbMsg: the outer option is None when the nesting of the message exceeds
  the fuel \<open>n\<close>; the inner one is the pointer, null for a message without a space type.
\<close>

definition box_of_pb :: "('f, 'd) BoxDataPb \<Rightarrow> ('f, 'd) container" where
  "box_of_pb b =
     (if box_dtype b = INT_dtype then BoxContainer [] (Ints ''int32_t'' (map sint (intData b)))
      else if box_dtype b = UINT_dtype then BoxContainer [] (Ints ''uint32_t'' (map uint (uintData b)))
      else if box_dtype b = FLOAT_dtype then BoxContainer [] (Floats (floatData b))
      else if box_dtype b = DOUBLE_dtype then BoxContainer [] (Doubles (doubleData b))
      else BoxContainer [] (Floats (floatData b)))"

fun CreateFromDataContainerPbMsg :: "('any \<Rightarrow> ('f, 'd, 'any) payload option) \<Rightarrow> nat \<Rightarrow> 'any DataContainerPb
    \<Rightarrow> ('f, 'd) container option option" where
  "CreateFromDataContainerPbMsg unpack 0 m = None"
| "CreateFromDataContainerPbMsg unpack (Suc n) m =
     (case pb_type m of
        Discrete \<Rightarrow> Some (Some (DiscreteContainer 0 (Some (unpack_discrete unpack (pb_data m)))))
      | Box \<Rightarrow> Some (Some (box_of_pb (unpack_box unpack (pb_data m))))
      | Tuple \<Rightarrow> do {
          subs \<leftarrow> those (map (CreateFromDataContainerPbMsg unpack n) (unpack_tuple unpack (pb_data m)));
          Some (Some (TupleContainer (fold tuple_Add subs [])))
        }
      | Dict \<Rightarrow> do {
          let elements = unpack_dict unpack (pb_data m);
          subs \<leftarrow> those (map (CreateFromDataContainerPbMsg unpack n) elements);
          Some (Some (DictContainer (fold (\<lambda>(k, x). dict_Add k x) (zip (map pb_name elements) subs) [])))
        }
      | NoSpaceType \<Rightarrow> Some None)"

section \<open>Round trip\<close>

text \<open>
  Containers whose message carries all their values: the value of a discrete container is set, the
  integers of a box fit into 32 bits of their signedness, no pointer is null, and the keys of a
  dictionary are in order, which dict_Add maintains.
\<close>

definition values_ok :: "('f, 'd) box_values \<Rightarrow> bool" where
  "values_ok vs =
     (case vs of
        Ints name data \<Rightarrow>
          (SetDtype name = INT_dtype \<and> (\<forall>x \<in> set data. - (2 ^ 31) \<le> x \<and> x < 2 ^ 31)) \<or>
          (SetDtype name = UINT_dtype \<and> (\<forall>x \<in> set data. 0 \<le> x \<and> x < 2 ^ 32))
      | _ \<Rightarrow> True)"

primrec container_ok :: "('f, 'd) container \<Rightarrow> bool" where
  "container_ok (DiscreteContainer n v) \<longleftrightarrow> v \<noteq> None"
| "container_ok (BoxContainer shape vs) \<longleftrightarrow> values_ok vs"
| "container_ok (TupleContainer xs) \<longleftrightarrow> list_all (\<lambda>b. b = Some True) (map (map_option container_ok) xs)"
| "container_ok (DictContainer d) \<longleftrightarrow> list_all (\<lambda>kb. snd kb = Some True) (map (map_prod id (map_option container_ok)) d) \<and>
     sorted_wrt (<) (map fst d)"

text \<open>The nesting of a container, the fuel that its message needs.\<close>

primrec depth :: "('f, 'd) container \<Rightarrow> nat" where
  "depth (DiscreteContainer n v) = 1"
| "depth (BoxContainer shape vs) = 1"
| "depth (TupleContainer xs) = Suc (foldr max (map (case_option 0 id) (map (map_option depth) xs)) 0)"
| "depth (DictContainer d) = Suc (foldr max (map (case_option 0 id \<circ> snd) (map (map_prod id (map_option depth)) d)) 0)"

text \<open>What arrives: the shape of a box and the size of a discrete space are not restored, and the
  integer type becomes the 32-bit one.\<close>

definition arrived_values :: "('f, 'd) box_values \<Rightarrow> ('f, 'd) box_values" where
  "arrived_values vs =
     (case vs of Ints name data \<Rightarrow> Ints (if SetDtype name = INT_dtype then ''int32_t'' else ''uint32_t'') data | _ \<Rightarrow> vs)"

primrec arrived :: "('f, 'd) container \<Rightarrow> ('f, 'd) container" where
  "arrived (DiscreteContainer n v) = DiscreteContainer 0 v"
| "arrived (BoxContainer shape vs) = BoxContainer [] (arrived_values vs)"
| "arrived (TupleContainer xs) = TupleContainer (map (map_option arrived) xs)"
| "arrived (DictContainer d) = DictContainer (map (map_prod id (map_option arrived)) d)"

lemma dict_Add_keys: "fst ` set (dict_Add k v d) = insert k (fst ` set d)"
  by (induction k v d rule: dict_Add.induct) (auto simp: not_less dest: antisym)

lemma dict_Add_sorted: "sorted_wrt (<) (map fst d) \<Longrightarrow> sorted_wrt (<) (map fst (dict_Add k v d))"
proof (induction k v d rule: dict_Add.induct)
  case (2 k v k' v' d)
  note IH = "2.IH" and prems = "2.prems"
  consider (lt) "k < k'" | (gt) "k' < k" | (eq) "k = k'" by (rule linorder_cases)
  then show ?case
  proof cases
    case lt
    have "\<forall>x \<in> set d. k < fst x" using prems less_trans [OF lt] by simp
    with lt prems show ?thesis by simp
  next
    case gt
    have "\<forall>y \<in> fst ` set (dict_Add k v d). k' < y" using prems gt unfolding dict_Add_keys by simp
    moreover have "\<not> k < k'" using gt by (rule less_not_sym)
    ultimately show ?thesis using gt IH prems by simp
  next
    case eq
    with prems show ?thesis by simp
  qed
qed simp

lemma map_of_dict_Add:
  assumes "sorted_wrt (<) (map fst d)"
  shows "map_of (dict_Add k v d) k' = (if k' = k \<and> k \<notin> fst ` set d then Some v else map_of d k')"
  using assms by (induction k v d rule: dict_Add.induct) (auto simp: not_less image_iff dest: antisym, force)

lemma fold_tuple_Add: "fold tuple_Add xs ys = ys @ xs"
  by (induction xs arbitrary: ys) (simp_all add: tuple_Add_def)

lemma dict_Add_last:
  assumes "\<forall>k' \<in> fst ` set d. k' < k"
  shows "dict_Add k v d = d @ [(k, v)]"
  using assms by (induction d) auto

lemma fold_dict_Add:
  assumes "sorted_wrt (<) (map fst (d @ es))"
  shows "fold (\<lambda>(k, x). dict_Add k x) es d = d @ es"
  using assms
proof (induction es arbitrary: d)
  case (Cons e es)
  then have "dict_Add (fst e) (snd e) d = d @ [e]"
    by (subst dict_Add_last) (auto simp: sorted_wrt_append)
  with Cons show ?case by (simp add: split_def)
qed simp

lemma box_round_trip:
  assumes "values_ok vs"
  shows "box_of_pb (box_pb to_float shape vs) = BoxContainer [] (arrived_values vs)"
proof (cases vs)
  case (Ints name data)
  show ?thesis
  proof (cases "SetDtype name = INT_dtype")
    case True
    then have "sint (word_of_int x :: 32 word) = x" if "x \<in> set data" for x
      using that assms Ints by (auto simp: values_ok_def signed_of_int signed_take_bit_int_eq_self)
    then have "map (sint \<circ> (word_of_int :: int \<Rightarrow> 32 word)) data = data" by (simp add: map_idI)
    with True Ints show ?thesis
      by (simp add: box_of_pb_def box_pb_def arrived_values_def TypeNameGet_def Let_def)
  next
    case False
    then have u: "SetDtype name = UINT_dtype" and "uint (word_of_int x :: u32) = x" if "x \<in> set data" for x
      using that assms Ints by (auto simp: values_ok_def unsigned_of_int take_bit_int_eq_self)
    moreover have "SetDtype name = UINT_dtype" using False assms Ints by (auto simp: values_ok_def)
    ultimately have "map (uint \<circ> (word_of_int :: int \<Rightarrow> u32)) data = data" by (simp add: map_idI)
    with \<open>SetDtype name = UINT_dtype\<close> Ints show ?thesis
      by (simp add: box_of_pb_def box_pb_def arrived_values_def TypeNameGet_def Let_def)
  qed
qed (simp_all add: box_of_pb_def box_pb_def arrived_values_def TypeNameGet_def Let_def SetDtype_def)

lemma depth_tuple: "Some c \<in> set xs \<Longrightarrow> depth c < depth (TupleContainer xs)"
  using foldr_max_le [of "depth c" "map (case_option 0 id) (map (map_option depth) xs)"] by force

lemma depth_dict: "(k, Some c) \<in> set d \<Longrightarrow> depth c < depth (DictContainer d)"
  using foldr_max_le [of "depth c" "map (case_option 0 id \<circ> snd) (map (map_prod id (map_option depth)) d)"] by force

lemma create_name: "CreateFromDataContainerPbMsg unpack n (m\<lparr>pb_name := k\<rparr>) = CreateFromDataContainerPbMsg unpack n m"
  by (cases n) (simp_all split: SpaceType.split)

definition round_trips :: "(int \<Rightarrow> 'f) \<Rightarrow> (('f, 'd, 'any) payload \<Rightarrow> 'any) \<Rightarrow> ('any \<Rightarrow> ('f, 'd, 'any) payload option)
    \<Rightarrow> ('f, 'd) container \<Rightarrow> bool" where
  "round_trips to_float pack unpack c \<longleftrightarrow>
     (\<exists>m. GetDataContainerPbMsg to_float pack c = Some m \<and>
        (\<forall>n \<ge> depth c. CreateFromDataContainerPbMsg unpack n m = Some (Some (arrived c))))"

lemma tuple_round_trips:
  assumes unpack: "\<And>p. unpack (pack p) = Some p"
    and xs: "\<And>x. x \<in> set xs \<Longrightarrow> \<exists>c. x = Some c \<and> round_trips to_float pack unpack c"
  shows "round_trips to_float pack unpack (TupleContainer xs)"
proof -
  let ?N = "depth (TupleContainer xs)"
  let ?enc = "\<lambda>x. Option.bind x (GetDataContainerPbMsg to_float pack)"
  let ?R = "\<lambda>x m. \<forall>n. ?N \<le> Suc n \<longrightarrow> CreateFromDataContainerPbMsg unpack n m = Some (map_option arrived x)"
  have "\<exists>m. ?enc x = Some m \<and> ?R x m" if "x \<in> set xs" for x
    using xs [OF that] that depth_tuple [of _ xs] by (fastforce simp: round_trips_def simp del: depth.simps)
  from those_map_all2 [of xs ?enc ?R, OF this] obtain es where es: "those (map ?enc xs) = Some es" "list_all2 ?R xs es" by blast
  have "those (map (CreateFromDataContainerPbMsg unpack n) es) = Some (map (map_option arrived) xs)" if "?N \<le> Suc n" for n
    using that by (intro those_map_decode [OF es(2)]) blast
  then have "CreateFromDataContainerPbMsg unpack n \<lparr>pb_type = Tuple, pb_data = pack (TuplePayload es), pb_name = []\<rparr>
      = Some (Some (arrived (TupleContainer xs)))" if "?N \<le> n" for n
    using that by (cases n) (auto simp: unpack_tuple_def unpack fold_tuple_Add)
  with es(1) show ?thesis by (auto simp: round_trips_def simp del: depth.simps)
qed

lemma dict_round_trips:
  assumes unpack: "\<And>p. unpack (pack p) = Some p" and srt: "sorted_wrt (<) (map fst d)"
    and xs: "\<And>k x. (k, x) \<in> set d \<Longrightarrow> \<exists>c. x = Some c \<and> round_trips to_float pack unpack c"
  shows "round_trips to_float pack unpack (DictContainer d)"
proof -
  let ?N = "depth (DictContainer d)"
  let ?R = "\<lambda>kx m. pb_name m = fst kx \<and>
    (\<forall>n. ?N \<le> Suc n \<longrightarrow> CreateFromDataContainerPbMsg unpack n m = Some (map_option arrived (snd kx)))"
  let ?enc = "\<lambda>(name, x). map_option (\<lambda>e. e\<lparr>pb_name := name\<rparr>) (Option.bind x (GetDataContainerPbMsg to_float pack))"
  have "\<exists>m. ?enc kx = Some m \<and> ?R kx m" if "kx \<in> set d" for kx
  proof -
    obtain k x where kx: "kx = (k, x)" by fastforce
    then have "(k, x) \<in> set d" using that by simp
    from xs [OF this] obtain c m where c: "x = Some c" "GetDataContainerPbMsg to_float pack c = Some m"
      "\<forall>n \<ge> depth c. CreateFromDataContainerPbMsg unpack n m = Some (Some (arrived c))"
      by (auto simp: round_trips_def)
    moreover have "depth c < ?N" using depth_dict that kx c(1) by blast
    ultimately show ?thesis by (auto simp: kx create_name simp del: depth.simps)
  qed
  from those_map_all2 [of d ?enc ?R, OF this] obtain es where es: "those (map ?enc d) = Some es" "list_all2 ?R d es" by blast
  have names: "map pb_name es = map fst d" using es(2) by (induction rule: list_all2_induct) auto
  have "those (map (CreateFromDataContainerPbMsg unpack n) es) = Some (map (map_option arrived \<circ> snd) d)" if "?N \<le> Suc n" for n
    using that by (intro those_map_decode [OF es(2)]) simp
  moreover have "fold (\<lambda>(k, x). dict_Add k x) (zip (map fst d) (map (map_option arrived \<circ> snd) d)) []
      = map (map_prod id (map_option arrived)) d"
    using srt by (subst fold_dict_Add) (auto simp: zip_map_map zip_same_conv_map map_prod_def split_def comp_def)
  ultimately have "CreateFromDataContainerPbMsg unpack n \<lparr>pb_type = Dict, pb_data = pack (DictPayload es), pb_name = []\<rparr>
      = Some (Some (arrived (DictContainer d)))" if "?N \<le> n" for n
    using that names by (cases n) (auto simp: unpack_dict_def unpack Let_def)
  with es(1) show ?thesis by (auto simp: round_trips_def simp del: depth.simps)
qed

lemma round_trip_all:
  assumes unpack: "\<And>p. unpack (pack p) = Some p" and "container_ok c"
  shows "round_trips to_float pack unpack c"
  using assms(2)
proof (induction c)
  case (DiscreteContainer n v)
  then show ?case
    by (auto simp: round_trips_def unpack_discrete_def unpack Suc_le_eq gr0_conv_Suc)
next
  case (BoxContainer shape vs)
  then show ?case
    by (auto simp: round_trips_def unpack_box_def unpack box_round_trip Suc_le_eq gr0_conv_Suc)
next
  case (TupleContainer xs)
  then show ?case by (intro tuple_round_trips [OF unpack]) (fastforce simp: list_all_iff)
next
  case (DictContainer d)
  then show ?case by (intro dict_round_trips [OF unpack]) (fastforce simp: list_all_iff)+
qed


text \<open>
  64-bit integers are not carried: a box container of int64_t is sent as 32-bit numbers, so
  that 2^32 + 7 arrives as 7.
\<close>

theorem box_int64_truncated:
  "box_of_pb (box_pb to_float [1] (Ints ''int64_t'' [2 ^ 32 + 7])) = BoxContainer [] (Ints ''int32_t'' [7])"
  by (simp add: box_of_pb_def box_pb_def TypeNameGet_def SetDtype_def)

text \<open>
  A discrete container is sent only after SetValue: the constructor leaves the value
  uninitialised, and building the message of a fresh container, or of a tuple that holds one,
  reads it.
\<close>

theorem discrete_needs_value:
  "GetDataContainerPbMsg to_float pack (DiscreteContainer_new n) = None \<and>
   GetDataContainerPbMsg to_float pack (TupleContainer (xs @ [Some (DiscreteContainer_new n)])) = None \<and>
   (\<exists>c m. SetValue v (DiscreteContainer_new n) = Some c \<and> GetDataContainerPbMsg to_float pack c = Some m)"
  by (simp add: DiscreteContainer_new_def SetValue_def those_None)

text \<open>
  A dictionary keeps its entries in key order and the first value given for a key: after Add,
  Get of the key returns the value that was there, or else the new one, and every other key is
  unaffected.
\<close>

theorem dict_Add_Get:
  assumes "sorted_wrt (<) (map fst d)"
  shows "sorted_wrt (<) (map fst (dict_Add k v d)) \<and>
    dict_Get k (dict_Add k v d) = (if k \<in> fst ` set d then dict_Get k d else v) \<and>
    (k' \<noteq> k \<longrightarrow> dict_Get k' (dict_Add k v d) = dict_Get k' d)"
  using assms by (auto simp: dict_Get_def map_of_dict_Add dict_Add_sorted)

section \<open>A concrete Any\<close>

text \<open>For the witnesses: an Any that keeps the packed message as a tree.\<close>

datatype any_tree =
    AnyDiscrete "32 word"
  | AnyBox "(int, int) BoxDataPb"
  | AnyTuple "(SpaceType \<times> any_tree \<times> string) list"
  | AnyDict "(SpaceType \<times> any_tree \<times> string) list"

definition to_tree :: "any_tree DataContainerPb \<Rightarrow> SpaceType \<times> any_tree \<times> string" where
  "to_tree m = (pb_type m, pb_data m, pb_name m)"

definition of_tree :: "SpaceType \<times> any_tree \<times> string \<Rightarrow> any_tree DataContainerPb" where
  "of_tree t = \<lparr>pb_type = fst t, pb_data = fst (snd t), pb_name = snd (snd t)\<rparr>"

primrec tree_pack :: "(int, int, any_tree) payload \<Rightarrow> any_tree" where
  "tree_pack (DiscretePayload d) = AnyDiscrete d"
| "tree_pack (BoxPayload b) = AnyBox b"
| "tree_pack (TuplePayload es) = AnyTuple (map to_tree es)"
| "tree_pack (DictPayload es) = AnyDict (map to_tree es)"

primrec tree_unpack :: "any_tree \<Rightarrow> (int, int, any_tree) payload option" where
  "tree_unpack (AnyDiscrete d) = Some (DiscretePayload d)"
| "tree_unpack (AnyBox b) = Some (BoxPayload b)"
| "tree_unpack (AnyTuple ts) = Some (TuplePayload (map of_tree ts))"
| "tree_unpack (AnyDict ts) = Some (DictPayload (map of_tree ts))"

lemma tree_unpack_pack: "\<forall>p. tree_unpack (tree_pack p) = Some p"
proof
  fix p
  show "tree_unpack (tree_pack p) = Some p" by (cases p) (simp_all add: of_tree_def to_tree_def map_idI)
qed

definition demo_container :: "(int, int) container" where
  "demo_container = DictContainer
     [(''box'', Some (BoxContainer [2] (Ints ''int16_t'' [- 5, 5]))),
      (''rest'', Some (TupleContainer [Some (DiscreteContainer 4 (Some 3)), Some (BoxContainer [1] (Floats [1]))]))]"


lemma dict_Add_Get_witness:
  "dict_Get ''b'' (dict_Add ''b'' (Some (2::int)) [(''a'', Some 1), (''b'', None)]) = None"
proof -
  have "sorted_wrt (<) (map fst [(''a'', Some (1::int)), (''b'', None)])" by code_simp
  from dict_Add_Get [OF this, of "''b''" "Some 2"] show ?thesis by (simp add: dict_Get_def)
qed

end
