(* ===== verification/Gym_Spaces.thy ===== *)
theory Gym_Spaces
  imports Gym_Containers
begin

text \<open>
  contrib/ns3-ai/model/gym-interface/cpp/spaces.cc: the descriptions of the action and observation
  spaces, and \<open>_create_space\<close> of ns3_environment.py, which rebuilds them on the Python side. As in
  \<open>Gym_Containers\<close> the packing into an Any is a parameter, and floats are a type variable.
\<close>

section \<open>Spaces\<close>

record 'f BoxSpace =
  m_low :: 'f
  m_high :: 'f
  m_shape :: "u32 list"
  m_dtypeName :: string
  m_lowVec :: "'f list"
  m_highVec :: "'f list"
  m_dtype :: Dtype

text \<open>The two constructors; the second is given the float zero.\<close>

definition BoxSpace_scalar :: "'f \<Rightarrow> 'f \<Rightarrow> u32 list \<Rightarrow> string \<Rightarrow> 'f BoxSpace" where
  "BoxSpace_scalar low high shape dtype = \<lparr>m_low = low, m_high = high, m_shape = shape, m_dtypeName = dtype,
     m_lowVec = [], m_highVec = [], m_dtype = SetDtype dtype\<rparr>"

definition BoxSpace_vector :: "'f \<Rightarrow> 'f list \<Rightarrow> 'f list \<Rightarrow> u32 list \<Rightarrow> string \<Rightarrow> 'f BoxSpace" where
  "BoxSpace_vector zero low high shape dtype = \<lparr>m_low = zero, m_high = zero, m_shape = shape, m_dtypeName = dtype,
     m_lowVec = low, m_highVec = high, m_dtype = SetDtype dtype\<rparr>"

datatype 'f space =
    DiscreteSpace "32 word"
  | BoxSpaceOf "'f BoxSpace"
  | TupleSpace "'f space option list"
  | DictSpace "(string \<times> 'f space option) list"

definition tuple_space_Add :: "'f space option \<Rightarrow> 'f space option list \<Rightarrow> 'f space option list" where
  "tuple_space_Add x m_tuple = m_tuple @ [x]"

definition tuple_space_Get :: "u32 \<Rightarrow> 'f space option list \<Rightarrow> 'f space option" where
  "tuple_space_Get idx m_tuple = (if unat idx < length m_tuple then m_tuple ! unat idx else None)"

definition dict_space_Add :: "string \<Rightarrow> 'f space option \<Rightarrow> (string \<times> 'f space option) list \<Rightarrow> (string \<times> 'f space option) list" where
  "dict_space_Add key x m_dict = dict_Add key x m_dict"

definition dict_space_Get :: "string \<Rightarrow> (string \<times> 'f space option) list \<Rightarrow> 'f space option" where
  "dict_space_Get key m_dict = dict_Get key m_dict"

section \<open>Descriptions\<close>

record 'any SpaceDescription =
  desc_type :: SpaceType
  desc_space :: 'any
  desc_name :: string

record 'f BoxSpacePb =
  pb_low :: 'f
  pb_high :: 'f
  pb_dtype :: Dtype
  pb_shape :: "u32 list"

datatype ('f, 'any) space_payload =
    DiscreteSpacePb "32 word"
  | BoxSpacePbOf "'f BoxSpacePb"
  | TupleSpacePb "'any SpaceDescription list"
  | DictSpacePb "'any SpaceDescription list"

definition box_space_pb :: "'f BoxSpace \<Rightarrow> 'f BoxSpacePb" where
  "box_space_pb b = \<lparr>pb_low = m_low b, pb_high = m_high b, pb_dtype = m_dtype b, pb_shape = m_shape b\<rparr>"

text \<open>GetSpaceDescription of the four classes; tuple and dictionary are given the descriptions of
  their elements. None: a null pointer is followed.\<close>

definition discrete_description :: "(('f, 'any) space_payload \<Rightarrow> 'any) \<Rightarrow> 32 word \<Rightarrow> 'any SpaceDescription" where
  "discrete_description pack m_n = \<lparr>desc_type = Discrete, desc_space = pack (DiscreteSpacePb m_n), desc_name = []\<rparr>"

definition box_description :: "(('f, 'any) space_payload \<Rightarrow> 'any) \<Rightarrow> 'f BoxSpace \<Rightarrow> 'any SpaceDescription" where
  "box_description pack b = \<lparr>desc_type = Box, desc_space = pack (BoxSpacePbOf (box_space_pb b)), desc_name = []\<rparr>"

definition tuple_description :: "(('f, 'any) space_payload \<Rightarrow> 'any) \<Rightarrow> 'any SpaceDescription option list \<Rightarrow> 'any SpaceDescription option" where
  "tuple_description pack subs = do {
     elements \<leftarrow> those subs;
     Some \<lparr>desc_type = Tuple, desc_space = pack (TupleSpacePb elements), desc_name = []\<rparr>
   }"

definition dict_description :: "(('f, 'any) space_payload \<Rightarrow> 'any) \<Rightarrow> (string \<times> 'any SpaceDescription option) list \<Rightarrow> 'any SpaceDescription option" where
  "dict_description pack subs = do {
     elements \<leftarrow> those (map (\<lambda>(name, x). map_option (\<lambda>e. e\<lparr>desc_name := name\<rparr>) x) subs);
     Some \<lparr>desc_type = Dict, desc_space = pack (DictSpacePb elements), desc_name = []\<rparr>
   }"

function (sequential) GetSpaceDescription :: "(('f, 'any) space_payload \<Rightarrow> 'any) \<Rightarrow> 'f space \<Rightarrow> 'any SpaceDescription option" where
  "GetSpaceDescription pack (DiscreteSpace n) = Some (discrete_description pack n)"
| "GetSpaceDescription pack (BoxSpaceOf b) = Some (box_description pack b)"
| "GetSpaceDescription pack (TupleSpace m_tuple) =
     tuple_description pack (map (\<lambda>x. Option.bind x (GetSpaceDescription pack)) m_tuple)"
| "GetSpaceDescription pack (DictSpace m_dict) =
     dict_description pack (map (\<lambda>(name, x). (name, Option.bind x (GetSpaceDescription pack))) m_dict)"
  by pat_completeness auto

lemma tuple_space_size: "Some c \<in> set xs \<Longrightarrow> size c < Suc (size_list (size_option size) xs)"
  by (induction xs) auto

lemma dict_space_size: "(name, Some c) \<in> set d \<Longrightarrow> size c < Suc (size_list (size_prod (\<lambda>_. 0) (size_option size)) d)"
  by (induction d) auto

termination GetSpaceDescription
  by (relation "measure (\<lambda>(pack, c). size c)") (auto dest: tuple_space_size dict_space_size)

lemma dict_description_map:
  "dict_description pack (map (\<lambda>(name, x). (name, f x)) d) = do {
     elements \<leftarrow> those (map (\<lambda>(name, x). map_option (\<lambda>e. e\<lparr>desc_name := name\<rparr>) (f x)) d);
     Some \<lparr>desc_type = Dict, desc_space = pack (DictSpacePb elements), desc_name = []\<rparr>
   }"
  by (simp add: dict_description_def comp_def split_def)

declare discrete_description_def [simp] box_description_def [simp] tuple_description_def [simp] dict_description_map [simp]

section \<open>The Python side\<close>

datatype np_type = np_int | np_uint | np_float

datatype 'f py_space =
    PyDiscrete int
  | PyBox 'f 'f "int list" np_type
  | PyTuple "'f py_space option list"
  | PyDict "(string \<times> 'f py_space option) list"

text \<open>Assignment to a key of a Python dict: in place, or at the end.\<close>

fun py_dict_set :: "string \<Rightarrow> 'v \<Rightarrow> (string \<times> 'v) list \<Rightarrow> (string \<times> 'v) list" where
  "py_dict_set k v [] = [(k, v)]"
| "py_dict_set k v ((k', v') # d) = (if k = k' then (k, v) # d else (k', v') # py_dict_set k v d)"

definition np_type_of :: "Dtype \<Rightarrow> np_type" where
  "np_type_of mtype =
     (if mtype = INT_dtype then np_int
      else if mtype = UINT_dtype then np_uint
      else if mtype = DOUBLE_dtype then np_float
      else np_float)"

text \<open>\<open>_create_space\<close>: the outer option is the fuel, the inner one Python's None. Unpack into a
  message of another type leaves the default message, given as \<open>zero\<close> for floats.\<close>

fun create_space :: "'f \<Rightarrow> ('any \<Rightarrow> ('f, 'any) space_payload option) \<Rightarrow> nat \<Rightarrow> 'any SpaceDescription
    \<Rightarrow> 'f py_space option option" where
  "create_space zero unpack 0 desc = None"
| "create_space zero unpack (Suc n) desc =
     (case desc_type desc of
        Discrete \<Rightarrow>
          Some (Some (PyDiscrete (case unpack (desc_space desc) of Some (DiscreteSpacePb k) \<Rightarrow> sint k | _ \<Rightarrow> 0)))
      | Box \<Rightarrow>
          (let b = (case unpack (desc_space desc) of Some (BoxSpacePbOf b) \<Rightarrow> b
                    | _ \<Rightarrow> \<lparr>pb_low = zero, pb_high = zero, pb_dtype = NoDType, pb_shape = []\<rparr>)
           in Some (Some (PyBox (pb_low b) (pb_high b) (map uint (pb_shape b)) (np_type_of (pb_dtype b)))))
      | Tuple \<Rightarrow> do {
          subs \<leftarrow> those (map (create_space zero unpack n)
                    (case unpack (desc_space desc) of Some (TupleSpacePb es) \<Rightarrow> es | _ \<Rightarrow> []));
          Some (Some (PyTuple subs))
        }
      | Dict \<Rightarrow> do {
          let elements = (case unpack (desc_space desc) of Some (DictSpacePb es) \<Rightarrow> es | _ \<Rightarrow> []);
          subs \<leftarrow> those (map (create_space zero unpack n) elements);
          Some (Some (PyDict (fold (\<lambda>(k, x). py_dict_set k x) (zip (map desc_name elements) subs) [])))
        }
      | NoSpaceType \<Rightarrow> Some None)"

section \<open>The description is faithful\<close>

text \<open>The space the Python side should see.\<close>

primrec py_view :: "'f space \<Rightarrow> 'f py_space" where
  "py_view (DiscreteSpace n) = PyDiscrete (sint n)"
| "py_view (BoxSpaceOf b) = PyBox (m_low b) (m_high b) (map uint (m_shape b)) (np_type_of (m_dtype b))"
| "py_view (TupleSpace xs) = PyTuple (map (map_option py_view) xs)"
| "py_view (DictSpace d) = PyDict (map (map_prod id (map_option py_view)) d)"

primrec space_ok :: "'f space \<Rightarrow> bool" where
  "space_ok (DiscreteSpace n) \<longleftrightarrow> True"
| "space_ok (BoxSpaceOf b) \<longleftrightarrow> True"
| "space_ok (TupleSpace xs) \<longleftrightarrow> list_all (\<lambda>b. b = Some True) (map (map_option space_ok) xs)"
| "space_ok (DictSpace d) \<longleftrightarrow> list_all (\<lambda>kb. snd kb = Some True) (map (map_prod id (map_option space_ok)) d) \<and>
     sorted_wrt (<) (map fst d)"

primrec space_depth :: "'f space \<Rightarrow> nat" where
  "space_depth (DiscreteSpace n) = 1"
| "space_depth (BoxSpaceOf b) = 1"
| "space_depth (TupleSpace xs) = Suc (foldr max (map (case_option 0 id) (map (map_option space_depth) xs)) 0)"
| "space_depth (DictSpace d) = Suc (foldr max (map (case_option 0 id \<circ> snd) (map (map_prod id (map_option space_depth)) d)) 0)"

lemma space_depth_tuple: "Some c \<in> set xs \<Longrightarrow> space_depth c < space_depth (TupleSpace xs)"
  using foldr_max_le [of "space_depth c" "map (case_option 0 id) (map (map_option space_depth) xs)"] by force

lemma space_depth_dict: "(k, Some c) \<in> set d \<Longrightarrow> space_depth c < space_depth (DictSpace d)"
  using foldr_max_le [of "space_depth c" "map (case_option 0 id \<circ> snd) (map (map_prod id (map_option space_depth)) d)"] by force

lemma create_space_name: "create_space zero unpack n (m\<lparr>desc_name := k\<rparr>) = create_space zero unpack n m"
  by (cases n) (simp_all split: SpaceType.split)

lemma py_dict_set_new: "k \<notin> fst ` set d \<Longrightarrow> py_dict_set k v d = d @ [(k, v)]"
  by (induction d) auto

lemma fold_py_dict_set:
  assumes "distinct (map fst (d @ es))"
  shows "fold (\<lambda>(k, x). py_dict_set k x) es d = d @ es"
  using assms
proof (induction es arbitrary: d)
  case (Cons e es)
  then have "py_dict_set (fst e) (snd e) d = d @ [e]" by (subst py_dict_set_new) auto
  with Cons show ?case by (simp add: split_def)
qed simp

definition described :: "'f \<Rightarrow> (('f, 'any) space_payload \<Rightarrow> 'any) \<Rightarrow> ('any \<Rightarrow> ('f, 'any) space_payload option) \<Rightarrow> 'f space \<Rightarrow> bool" where
  "described zero pack unpack s \<longleftrightarrow>
     (\<exists>m. GetSpaceDescription pack s = Some m \<and> (\<forall>n \<ge> space_depth s. create_space zero unpack n m = Some (Some (py_view s))))"

lemma tuple_described:
  assumes unpack: "\<And>p. unpack (pack p) = Some p" and xs: "\<And>x. x \<in> set xs \<Longrightarrow> \<exists>s. x = Some s \<and> described zero pack unpack s"
  shows "described zero pack unpack (TupleSpace xs)"
proof -
  let ?N = "space_depth (TupleSpace xs)"
  let ?enc = "\<lambda>x. Option.bind x (GetSpaceDescription pack)"
  let ?R = "\<lambda>x m. \<forall>n. ?N \<le> Suc n \<longrightarrow> create_space zero unpack n m = Some (map_option py_view x)"
  have "\<exists>m. ?enc x = Some m \<and> ?R x m" if "x \<in> set xs" for x
    using xs [OF that] that space_depth_tuple [of _ xs] by (fastforce simp: described_def simp del: space_depth.simps)
  from those_map_all2 [of xs ?enc ?R, OF this] obtain es where es: "those (map ?enc xs) = Some es" "list_all2 ?R xs es" by blast
  have "those (map (create_space zero unpack n) es) = Some (map (map_option py_view) xs)" if "?N \<le> Suc n" for n
    using that by (intro those_map_decode [OF es(2)]) blast
  then have "create_space zero unpack n \<lparr>desc_type = Tuple, desc_space = pack (TupleSpacePb es), desc_name = []\<rparr>
      = Some (Some (py_view (TupleSpace xs)))" if "?N \<le> n" for n
    using that by (cases n) (auto simp: unpack)
  with es(1) show ?thesis by (auto simp: described_def simp del: space_depth.simps)
qed

lemma dict_described:
  assumes unpack: "\<And>p. unpack (pack p) = Some p" and srt: "sorted_wrt (<) (map fst d)"
    and xs: "\<And>k x. (k, x) \<in> set d \<Longrightarrow> \<exists>s. x = Some s \<and> described zero pack unpack s"
  shows "described zero pack unpack (DictSpace d)"
proof -
  let ?N = "space_depth (DictSpace d)"
  let ?R = "\<lambda>kx m. desc_name m = fst kx \<and> (\<forall>n. ?N \<le> Suc n \<longrightarrow> create_space zero unpack n m = Some (map_option py_view (snd kx)))"
  let ?enc = "\<lambda>(name, x). map_option (\<lambda>e. e\<lparr>desc_name := name\<rparr>) (Option.bind x (GetSpaceDescription pack))"
  have "\<exists>m. ?enc kx = Some m \<and> ?R kx m" if "kx \<in> set d" for kx
  proof -
    obtain k x where kx: "kx = (k, x)" by fastforce
    then have "(k, x) \<in> set d" using that by simp
    from xs [OF this] obtain s m where s: "x = Some s" "GetSpaceDescription pack s = Some m"
      "\<forall>n \<ge> space_depth s. create_space zero unpack n m = Some (Some (py_view s))" by (auto simp: described_def)
    moreover have "space_depth s < ?N" using space_depth_dict that kx s(1) by blast
    ultimately show ?thesis by (auto simp: kx create_space_name simp del: space_depth.simps)
  qed
  from those_map_all2 [of d ?enc ?R, OF this] obtain es where es: "those (map ?enc d) = Some es" "list_all2 ?R d es" by blast
  have names: "map desc_name es = map fst d" using es(2) by (induction rule: list_all2_induct) auto
  have "those (map (create_space zero unpack n) es) = Some (map (map_option py_view \<circ> snd) d)" if "?N \<le> Suc n" for n
    using that by (intro those_map_decode [OF es(2)]) simp
  moreover have "distinct (map fst d)" using srt by (simp add: strict_sorted_iff)
  then have "fold (\<lambda>(k, x). py_dict_set k x) (zip (map fst d) (map (map_option py_view \<circ> snd) d)) []
      = map (map_prod id (map_option py_view)) d"
    by (subst fold_py_dict_set) (auto simp: zip_map_map zip_same_conv_map map_prod_def split_def comp_def)
  ultimately have "create_space zero unpack n \<lparr>desc_type = Dict, desc_space = pack (DictSpacePb es), desc_name = []\<rparr>
      = Some (Some (py_view (DictSpace d)))" if "?N \<le> n" for n
    using that names by (cases n) (auto simp: unpack Let_def)
  with es(1) show ?thesis by (auto simp: described_def simp del: space_depth.simps)
qed

lemma described_all:
  assumes unpack: "\<And>p. unpack (pack p) = Some p" and "space_ok s"
  shows "described zero pack unpack s"
  using assms(2)
proof (induction s)
  case (TupleSpace xs)
  then show ?case by (intro tuple_described [OF unpack]) (fastforce simp: list_all_iff)
next
  case (DictSpace d)
  then show ?case by (intro dict_described [OF unpack]) (fastforce simp: list_all_iff)+
qed (auto simp: described_def unpack Suc_le_eq gr0_conv_Suc box_space_pb_def)


text \<open>
  The bounds of a box space that was constructed from two vectors are not sent: its
  description carries the bounds 0 and 0, whatever the vectors are.
\<close>

theorem box_vector_bounds_lost:
  "\<exists>desc. GetSpaceDescription pack (BoxSpaceOf (BoxSpace_vector zero low high shape dtype)) = Some desc \<and>
     GetSpaceDescription pack (BoxSpaceOf (BoxSpace_vector zero low' high' shape dtype)) = Some desc \<and>
     py_view (BoxSpaceOf (BoxSpace_vector zero low high shape dtype)) = PyBox zero zero (map uint shape) (np_type_of (SetDtype dtype))"
  by (simp add: BoxSpace_vector_def box_space_pb_def)

text \<open>For the witness: an Any that keeps the packed description as a tree.\<close>

datatype space_tree =
    TreeDiscrete "32 word"
  | TreeBox "int BoxSpacePb"
  | TreeTuple "(SpaceType \<times> space_tree \<times> string) list"
  | TreeDict "(SpaceType \<times> space_tree \<times> string) list"

definition desc_to_tree :: "space_tree SpaceDescription \<Rightarrow> SpaceType \<times> space_tree \<times> string" where
  "desc_to_tree m = (desc_type m, desc_space m, desc_name m)"

definition desc_of_tree :: "SpaceType \<times> space_tree \<times> string \<Rightarrow> space_tree SpaceDescription" where
  "desc_of_tree t = \<lparr>desc_type = fst t, desc_space = fst (snd t), desc_name = snd (snd t)\<rparr>"

primrec space_tree_pack :: "(int, space_tree) space_payload \<Rightarrow> space_tree" where
  "space_tree_pack (DiscreteSpacePb d) = TreeDiscrete d"
| "space_tree_pack (BoxSpacePbOf b) = TreeBox b"
| "space_tree_pack (TupleSpacePb es) = TreeTuple (map desc_to_tree es)"
| "space_tree_pack (DictSpacePb es) = TreeDict (map desc_to_tree es)"

primrec space_tree_unpack :: "space_tree \<Rightarrow> (int, space_tree) space_payload option" where
  "space_tree_unpack (TreeDiscrete d) = Some (DiscreteSpacePb d)"
| "space_tree_unpack (TreeBox b) = Some (BoxSpacePbOf b)"
| "space_tree_unpack (TreeTuple ts) = Some (TupleSpacePb (map desc_of_tree ts))"
| "space_tree_unpack (TreeDict ts) = Some (DictSpacePb (map desc_of_tree ts))"

lemma space_tree_unpack_pack: "\<forall>p. space_tree_unpack (space_tree_pack p) = Some p"
proof
  fix p
  show "space_tree_unpack (space_tree_pack p) = Some p" by (cases p) (simp_all add: desc_of_tree_def desc_to_tree_def map_idI)
qed

definition demo_space :: "int space" where
  "demo_space = DictSpace
     [(''actions'', Some (TupleSpace [Some (DiscreteSpace 4), Some (DiscreteSpace 2)])),
      (''load'', Some (BoxSpaceOf (BoxSpace_scalar 0 100 [5] ''uint32_t'')))]"


end
