(* ===== verification/Ai_Msg_Interface.thy ===== *)
theory Ai_Msg_Interface
  imports Ns3_Prelude
begin

text \<open>
  contrib/ns3-ai/model/msg-interface: the shared memory through which the simulation (C++) and
  the agent (Python) exchange messages. Each direction has one message buffer and two 8-bit
  semaphores, an empty count that starts at 1 and a full count that starts at 0. The two
  processes run concurrently; the semaphores spin on atomic reads and compare-and-swaps.

  Every atomic memory access is one step: \<open>msg_step\<close> interleaves the steps of the two processes
  in every possible way. A process runs a sequence of calls, each of them Begin, the access to
  the buffer, and End; what it sends may depend on everything it has received.
\<close>

section \<open>The semaphore\<close>

text \<open>ns3-ai-semaphore.h. The memory cell is the first argument; an operation returns what it
  reads together with the new contents.\<close>

definition atomic_read8 :: "u8 \<Rightarrow> u8" where
  "atomic_read8 mem = mem"

definition atomic_cas8 :: "u8 \<Rightarrow> u8 \<Rightarrow> u8 \<Rightarrow> u8 \<times> u8" where
  "atomic_cas8 mem new cmp = (mem, if mem = cmp then new else mem)"

definition atomic_add8 :: "u8 \<Rightarrow> u8 \<Rightarrow> u8 \<times> u8" where
  "atomic_add8 mem val = (mem, mem + val)"

text \<open>
  The control points of \<open>sem_wait\<close>: before the read of \<open>atomic_add_unless8\<close>, before its
  compare-and-swap with the value \<open>c\<close> read last, and after success. A step is one atomic access;
  a failed \<open>sem_try_wait\<close> starts again.
\<close>

datatype wait_pc = WRead | WCas u8 | WDone

definition add_unless_test :: "u8 \<Rightarrow> wait_pc" where
  "add_unless_test c = (if c \<noteq> 0 then WCas c else WRead)"

fun sem_wait_step :: "u8 \<Rightarrow> wait_pc \<Rightarrow> u8 \<times> wait_pc" where
  "sem_wait_step mem WRead = (mem, add_unless_test (atomic_read8 mem))"
| "sem_wait_step mem (WCas c) =
     (let (old, mem') = atomic_cas8 mem (c + (- 1)) c
      in (mem', if old \<noteq> c then add_unless_test old else WDone))"
| "sem_wait_step mem WDone = (mem, WDone)"

definition sem_post :: "u8 \<Rightarrow> u8" where
  "sem_post mem = snd (atomic_add8 mem 1)"

section \<open>The interface\<close>

record Ns3AiMsgSync =
  m_cpp2pyEmptyCount :: u8
  m_cpp2pyFullCount :: u8
  m_py2cppEmptyCount :: u8
  m_py2cppFullCount :: u8
  sync_isFinished :: bool

definition msg_sync_init :: Ns3AiMsgSync where
  "msg_sync_init = \<lparr>m_cpp2pyEmptyCount = 1, m_cpp2pyFullCount = 0, m_py2cppEmptyCount = 1,
     m_py2cppFullCount = 0, sync_isFinished = False\<rparr>"

text \<open>One atomic step of the Begin methods, and the End methods.\<close>

definition CppSendBegin :: "wait_pc \<Rightarrow> Ns3AiMsgSync \<Rightarrow> wait_pc \<times> Ns3AiMsgSync" where
  "CppSendBegin w y = (let (v, w') = sem_wait_step (m_cpp2pyEmptyCount y) w in (w', y\<lparr>m_cpp2pyEmptyCount := v\<rparr>))"

definition CppSendEnd :: "Ns3AiMsgSync \<Rightarrow> Ns3AiMsgSync" where
  "CppSendEnd y = y\<lparr>m_cpp2pyFullCount := sem_post (m_cpp2pyFullCount y)\<rparr>"

definition CppRecvBegin :: "wait_pc \<Rightarrow> Ns3AiMsgSync \<Rightarrow> wait_pc \<times> Ns3AiMsgSync" where
  "CppRecvBegin w y = (let (v, w') = sem_wait_step (m_py2cppFullCount y) w in (w', y\<lparr>m_py2cppFullCount := v\<rparr>))"

definition CppRecvEnd :: "Ns3AiMsgSync \<Rightarrow> Ns3AiMsgSync" where
  "CppRecvEnd y = y\<lparr>m_py2cppEmptyCount := sem_post (m_py2cppEmptyCount y)\<rparr>"

definition PyRecvBegin :: "wait_pc \<Rightarrow> Ns3AiMsgSync \<Rightarrow> wait_pc \<times> Ns3AiMsgSync" where
  "PyRecvBegin w y = (let (v, w') = sem_wait_step (m_cpp2pyFullCount y) w in (w', y\<lparr>m_cpp2pyFullCount := v\<rparr>))"

definition PyRecvEnd :: "Ns3AiMsgSync \<Rightarrow> Ns3AiMsgSync" where
  "PyRecvEnd y = y\<lparr>m_cpp2pyEmptyCount := sem_post (m_cpp2pyEmptyCount y)\<rparr>"

definition PySendBegin :: "wait_pc \<Rightarrow> Ns3AiMsgSync \<Rightarrow> wait_pc \<times> Ns3AiMsgSync" where
  "PySendBegin w y = (let (v, w') = sem_wait_step (m_py2cppEmptyCount y) w in (w', y\<lparr>m_py2cppEmptyCount := v\<rparr>))"

definition PySendEnd :: "Ns3AiMsgSync \<Rightarrow> Ns3AiMsgSync" where
  "PySendEnd y = y\<lparr>m_py2cppFullCount := sem_post (m_py2cppFullCount y)\<rparr>"

section \<open>Two processes\<close>

text \<open>
  A process is at one of three places of its current call: waiting in Begin, inside (its next
  step is the access to the buffer), or leaving (its next step is End). CppSetFinished is a send
  whose access sets the shared flag instead of the buffer.
\<close>

datatype call_pc = Waiting wait_pc | Inside | Leaving

datatype ('m, 'a) cpp_call = CppSend "'a list \<Rightarrow> 'm" | CppRecv | CppSetFinished

datatype ('m, 'a) py_call = PyRecv | PySend "'m option list \<Rightarrow> 'a"

text \<open>\<open>cpp2py\<close> and \<open>py2cpp\<close> are the buffers. The last four fields record what was sent and
  received; an end of the simulation is sent and received as None.\<close>

record ('m, 'a) msg_system =
  msg_sync :: Ns3AiMsgSync
  cpp2py :: 'm
  py2cpp :: 'a
  m_handleFinish :: bool
  cpp_todo :: "('m, 'a) cpp_call list"
  cpp_pc :: call_pc
  cpp_isFinished :: bool
  py_todo :: "('m, 'a) py_call list"
  py_pc :: call_pc
  py_isFinished :: bool
  cpp_sent :: "'m option list"
  py_got :: "'m option list"
  py_sent :: "'a list"
  cpp_got :: "'a list"

definition after_wait :: "wait_pc \<Rightarrow> call_pc" where
  "after_wait w = (if w = WDone then Inside else Waiting w)"

text \<open>One atomic step of the C++ process. None: it has nothing left to do, or the assertion of
  CppSetFinished fails.\<close>

fun cpp_step :: "('m, 'a) msg_system \<Rightarrow> ('m, 'a) msg_system option" where
  "cpp_step s =
     (case cpp_todo s of
        [] \<Rightarrow> None
      | CppSend f # cs \<Rightarrow>
          (case cpp_pc s of
             Waiting w \<Rightarrow> (let (w', y) = CppSendBegin w (msg_sync s)
                           in Some (s\<lparr>msg_sync := y, cpp_pc := after_wait w'\<rparr>))
           | Inside \<Rightarrow> Some (s\<lparr>cpp2py := f (cpp_got s), cpp_pc := Leaving\<rparr>)
           | Leaving \<Rightarrow> Some (s\<lparr>msg_sync := CppSendEnd (msg_sync s), cpp_sent := cpp_sent s @ [Some (f (cpp_got s))],
                               cpp_todo := cs, cpp_pc := Waiting WRead\<rparr>))
      | CppSetFinished # cs \<Rightarrow>
          (if \<not> m_handleFinish s then None
           else case cpp_pc s of
             Waiting w \<Rightarrow> (let (w', y) = CppSendBegin w (msg_sync s)
                           in Some (s\<lparr>msg_sync := y, cpp_pc := after_wait w', cpp_isFinished := True\<rparr>))
           | Inside \<Rightarrow> Some (s\<lparr>msg_sync := (msg_sync s)\<lparr>sync_isFinished := True\<rparr>, cpp_pc := Leaving\<rparr>)
           | Leaving \<Rightarrow> Some (s\<lparr>msg_sync := CppSendEnd (msg_sync s), cpp_sent := cpp_sent s @ [None],
                               cpp_todo := cs, cpp_pc := Waiting WRead\<rparr>))
      | CppRecv # cs \<Rightarrow>
          (case cpp_pc s of
             Waiting w \<Rightarrow> (let (w', y) = CppRecvBegin w (msg_sync s)
                           in Some (s\<lparr>msg_sync := y, cpp_pc := after_wait w'\<rparr>))
           | Inside \<Rightarrow> Some (s\<lparr>cpp_got := cpp_got s @ [py2cpp s], cpp_pc := Leaving\<rparr>)
           | Leaving \<Rightarrow> Some (s\<lparr>msg_sync := CppRecvEnd (msg_sync s), cpp_todo := cs, cpp_pc := Waiting WRead\<rparr>)))"

text \<open>One atomic step of the Python process. PyRecvBegin copies the shared flag before the
  buffer is read.\<close>

fun py_step :: "('m, 'a) msg_system \<Rightarrow> ('m, 'a) msg_system option" where
  "py_step s =
     (case py_todo s of
        [] \<Rightarrow> None
      | PyRecv # ps \<Rightarrow>
          (case py_pc s of
             Waiting w \<Rightarrow> (let (w', y) = PyRecvBegin w (msg_sync s)
                           in Some (s\<lparr>msg_sync := y, py_pc := after_wait w'\<rparr>))
           | Inside \<Rightarrow>
               (let fin = (if m_handleFinish s then sync_isFinished (msg_sync s) else py_isFinished s)
                in Some (s\<lparr>py_isFinished := fin, py_got := py_got s @ [if fin then None else Some (cpp2py s)],
                           py_pc := Leaving\<rparr>))
           | Leaving \<Rightarrow> Some (s\<lparr>msg_sync := PyRecvEnd (msg_sync s), py_todo := ps, py_pc := Waiting WRead\<rparr>))
      | PySend f # ps \<Rightarrow>
          (case py_pc s of
             Waiting w \<Rightarrow> (let (w', y) = PySendBegin w (msg_sync s)
                           in Some (s\<lparr>msg_sync := y, py_pc := after_wait w'\<rparr>))
           | Inside \<Rightarrow> Some (s\<lparr>py2cpp := f (py_got s), py_pc := Leaving\<rparr>)
           | Leaving \<Rightarrow> Some (s\<lparr>msg_sync := PySendEnd (msg_sync s), py_sent := py_sent s @ [f (py_got s)],
                               py_todo := ps, py_pc := Waiting WRead\<rparr>)))"

inductive msg_step :: "('m, 'a) msg_system \<Rightarrow> ('m, 'a) msg_system \<Rightarrow> bool" where
  cpp: "cpp_step s = Some s' \<Longrightarrow> msg_step s s'"
| py: "py_step s = Some s' \<Longrightarrow> msg_step s s'"

declare cpp_step.simps [simp del] py_step.simps [simp del]

inductive_cases msg_stepE: "msg_step s s'"

declare cpp_step.simps [simp] py_step.simps [simp]

definition msg_init :: "bool \<Rightarrow> 'm \<Rightarrow> 'a \<Rightarrow> ('m, 'a) cpp_call list \<Rightarrow> ('m, 'a) py_call list \<Rightarrow> ('m, 'a) msg_system" where
  "msg_init handleFinish m a cs ps = \<lparr>msg_sync = msg_sync_init, cpp2py = m, py2cpp = a, m_handleFinish = handleFinish,
     cpp_todo = cs, cpp_pc = Waiting WRead, cpp_isFinished = False, py_todo = ps, py_pc = Waiting WRead,
     py_isFinished = False, cpp_sent = [], py_got = [], py_sent = [], cpp_got = []\<rparr>"

text \<open>CppSetFinished is called, if at all, once, at the end (in the destructor), and only with
  \<open>m_handleFinish\<close>.\<close>

definition cpp_program_ok :: "bool \<Rightarrow> ('m, 'a) cpp_call list \<Rightarrow> bool" where
  "cpp_program_ok handleFinish cs \<longleftrightarrow>
     CppSetFinished \<notin> set (butlast cs) \<and> (CppSetFinished \<in> set cs \<longrightarrow> handleFinish)"

section \<open>Safety\<close>

text \<open>Who is between Begin and End of which direction.\<close>

definition holding :: "call_pc \<Rightarrow> bool" where
  "holding pc \<longleftrightarrow> pc = Inside \<or> pc = Leaving"

fun sends_next :: "('m, 'a) cpp_call list \<Rightarrow> bool" where
  "sends_next (CppSend f # cs) = True"
| "sends_next (CppSetFinished # cs) = True"
| "sends_next cs = False"

definition cpp_writing :: "('m, 'a) msg_system \<Rightarrow> bool" where
  "cpp_writing s \<longleftrightarrow> holding (cpp_pc s) \<and> sends_next (cpp_todo s)"

definition cpp_reading :: "('m, 'a) msg_system \<Rightarrow> bool" where
  "cpp_reading s \<longleftrightarrow> holding (cpp_pc s) \<and> (\<exists>cs. cpp_todo s = CppRecv # cs)"

definition py_reading :: "('m, 'a) msg_system \<Rightarrow> bool" where
  "py_reading s \<longleftrightarrow> holding (py_pc s) \<and> (\<exists>ps. py_todo s = PyRecv # ps)"

definition py_writing :: "('m, 'a) msg_system \<Rightarrow> bool" where
  "py_writing s \<longleftrightarrow> holding (py_pc s) \<and> (\<exists>f ps. py_todo s = PySend f # ps)"

text \<open>The token of a direction is in one of four places: the empty count, the writer, the full
  count, the reader.\<close>

definition one_token :: "u8 \<Rightarrow> u8 \<Rightarrow> bool \<Rightarrow> bool \<Rightarrow> bool" where
  "one_token e full writing reading \<longleftrightarrow>
     (e = 1 \<and> full = 0 \<and> \<not> writing \<and> \<not> reading) \<or> (e = 0 \<and> full = 0 \<and> writing \<and> \<not> reading) \<or>
     (e = 0 \<and> full = 1 \<and> \<not> writing \<and> \<not> reading) \<or> (e = 0 \<and> full = 0 \<and> \<not> writing \<and> reading)"

definition tokens :: "('m, 'a) msg_system \<Rightarrow> bool" where
  "tokens s \<longleftrightarrow>
     one_token (m_cpp2pyEmptyCount (msg_sync s)) (m_cpp2pyFullCount (msg_sync s)) (cpp_writing s) (py_reading s) \<and>
     one_token (m_py2cppEmptyCount (msg_sync s)) (m_py2cppFullCount (msg_sync s)) (py_writing s) (cpp_reading s)"

definition pc_ok :: "call_pc \<Rightarrow> bool" where
  "pc_ok pc \<longleftrightarrow> pc \<noteq> Waiting WDone \<and> pc \<noteq> Waiting (WCas 0)"

text \<open>The messages in flight: sent and not yet read.\<close>

definition in_flight1 :: "('m, 'a) msg_system \<Rightarrow> 'm option list" where
  "in_flight1 s =
     (if m_cpp2pyFullCount (msg_sync s) \<noteq> 0 \<or> (py_reading s \<and> py_pc s = Inside)
      then [if sync_isFinished (msg_sync s) then None else Some (cpp2py s)] else [])"

definition in_flight2 :: "('m, 'a) msg_system \<Rightarrow> 'a list" where
  "in_flight2 s =
     (if m_py2cppFullCount (msg_sync s) \<noteq> 0 \<or> (cpp_reading s \<and> cpp_pc s = Inside) then [py2cpp s] else [])"

definition written :: "('m, 'a) msg_system \<Rightarrow> bool" where
  "written s \<longleftrightarrow>
     (cpp_pc s = Leaving \<longrightarrow> (\<forall>f cs. cpp_todo s = CppSend f # cs \<longrightarrow> cpp2py s = f (cpp_got s)) \<and>
        (\<forall>cs. cpp_todo s = CppSetFinished # cs \<longrightarrow> sync_isFinished (msg_sync s))) \<and>
     (py_pc s = Leaving \<longrightarrow> (\<forall>f ps. py_todo s = PySend f # ps \<longrightarrow> py2cpp s = f (py_got s)))"

definition finish_ok :: "('m, 'a) msg_system \<Rightarrow> bool" where
  "finish_ok s \<longleftrightarrow>
     (sync_isFinished (msg_sync s) \<longrightarrow> m_handleFinish s \<and> (cpp_todo s = [] \<or> cpp_todo s = [CppSetFinished] \<and> cpp_pc s = Leaving)) \<and>
     (py_isFinished s \<longrightarrow> sync_isFinished (msg_sync s))"

definition msg_inv :: "('m, 'a) msg_system \<Rightarrow> bool" where
  "msg_inv s \<longleftrightarrow> tokens s \<and> pc_ok (cpp_pc s) \<and> pc_ok (py_pc s) \<and>
     cpp_sent s = py_got s @ in_flight1 s \<and> py_sent s = cpp_got s @ in_flight2 s \<and>
     written s \<and> finish_ok s \<and> cpp_program_ok (m_handleFinish s) (cpp_todo s)"

lemma holding_simps [simp]: "\<not> holding (Waiting w)" "holding Inside" "holding Leaving"
  by (simp_all add: holding_def)

lemma pc_ok_simps [simp]: "pc_ok (Waiting WRead)" "pc_ok Inside" "pc_ok Leaving"
  by (simp_all add: pc_ok_def)

text \<open>A step of a wait either takes the token or leaves the semaphore alone.\<close>

lemma sem_wait_cases:
  assumes "sem_wait_step v w = (v', w')" and "pc_ok (Waiting w)"
  shows "(after_wait w' = Inside \<and> v \<noteq> 0 \<and> v' = v - 1) \<or> (v' = v \<and> after_wait w' = Waiting w' \<and> pc_ok (Waiting w'))"
  using assms by (cases w) (auto simp: after_wait_def add_unless_test_def atomic_read8_def atomic_cas8_def pc_ok_def split: if_splits)

lemma sem_post_0 [simp]: "sem_post 0 = 1"
  by (simp add: sem_post_def atomic_add8_def)

lemma cpp_program_ok_tl: "cpp_program_ok hf (c # cs) \<Longrightarrow> cpp_program_ok hf cs"
  by (auto simp: cpp_program_ok_def split: if_splits)

lemma cpp_program_ok_finish: "cpp_program_ok hf (CppSetFinished # cs) \<Longrightarrow> cs = [] \<and> hf"
  by (auto simp: cpp_program_ok_def split: if_splits)

lemmas role_defs = cpp_writing_def cpp_reading_def py_reading_def py_writing_def
lemmas flight_defs = in_flight1_def in_flight2_def

lemma one_token_moves:
  "one_token e f False r \<Longrightarrow> e \<noteq> 0 \<Longrightarrow> one_token (e - 1) f True r"
  "one_token e f True r \<Longrightarrow> one_token e (sem_post f) False r"
  "one_token e f w False \<Longrightarrow> f \<noteq> 0 \<Longrightarrow> one_token e (f - 1) w True"
  "one_token e f w True \<Longrightarrow> one_token (sem_post e) f w False"
  by (auto simp: one_token_def)

lemma one_token_writing: "one_token e f True r \<Longrightarrow> f = 0 \<and> \<not> r"
  by (auto simp: one_token_def)

lemma one_token_reading: "one_token e f w True \<Longrightarrow> f = 0 \<and> e = 0 \<and> \<not> w"
  by (auto simp: one_token_def)

lemma one_token_full: "one_token e f w r \<Longrightarrow> f \<noteq> 0 \<Longrightarrow> f - 1 = 0"
  by (auto simp: one_token_def)

text \<open>The steps of the C++ process.\<close>

lemma cpp_wait_send_inv:
  assumes i: "msg_inv s" and c: "sends_next (cpp_todo s)" and w: "cpp_pc s = Waiting w"
    and sw: "sem_wait_step (m_cpp2pyEmptyCount (msg_sync s)) w = (v, w')"
  shows "msg_inv (s\<lparr>msg_sync := (msg_sync s)\<lparr>m_cpp2pyEmptyCount := v\<rparr>, cpp_pc := after_wait w', cpp_isFinished := b\<rparr>)"
    (is "msg_inv ?s")
proof -
  have "pc_ok (Waiting w)" using i w by (simp add: msg_inv_def)
  note wc = sem_wait_cases [OF sw this]
  have nr: "cpp_todo s \<noteq> CppRecv # cs" for cs using c by (cases "cpp_todo s") auto
  have t: "tokens s" "written s" "finish_ok s" using i by (simp_all add: msg_inv_def)
  have "tokens ?s" using t(1) wc c w nr one_token_moves(1) by (auto simp: tokens_def role_defs)
  moreover have "in_flight1 ?s = in_flight1 s" "in_flight2 ?s = in_flight2 s"
    using nr w by (simp_all add: flight_defs role_defs)
  moreover have "written ?s" using t(2) wc by (auto simp: written_def)
  moreover have "finish_ok ?s" using t(3) c w by (auto simp: finish_ok_def)
  moreover have "pc_ok (cpp_pc ?s)" using wc by auto
  ultimately show ?thesis using i by (simp add: msg_inv_def)
qed

lemma cpp_send_inv:
  assumes i: "msg_inv s" and c: "cpp_todo s = CppSend f # cs" and st: "cpp_step s = Some s'"
  shows "msg_inv s'"
proof (cases "cpp_pc s")
  case (Waiting w)
  obtain v w' where w: "sem_wait_step (m_cpp2pyEmptyCount (msg_sync s)) w = (v, w')" by fastforce
  have s': "s' = s\<lparr>msg_sync := (msg_sync s)\<lparr>m_cpp2pyEmptyCount := v\<rparr>, cpp_pc := after_wait w', cpp_isFinished := cpp_isFinished s\<rparr>"
    using st c Waiting w by (cases s) (auto simp: CppSendBegin_def)
  show ?thesis unfolding s' by (rule cpp_wait_send_inv [OF i _ Waiting w]) (simp add: c)
next
  case Inside
  have s': "s' = s\<lparr>cpp2py := f (cpp_got s), cpp_pc := Leaving\<rparr>" using st c Inside by simp
  have t: "tokens s" "written s" "finish_ok s" using i by (simp_all add: msg_inv_def)
  have "tokens s'" using t(1) c Inside by (simp add: tokens_def s' role_defs)
  moreover have "cpp_writing s" using c Inside by (simp add: role_defs)
  then have "m_cpp2pyFullCount (msg_sync s) = 0" "\<not> py_reading s"
    using t(1) one_token_writing by (auto simp: tokens_def)
  then have "in_flight1 s' = in_flight1 s" "in_flight2 s' = in_flight2 s"
    using c by (simp_all add: flight_defs s' role_defs)
  moreover have "written s'" using t(2) c by (simp add: written_def s')
  moreover have "finish_ok s'" using t(3) c by (auto simp: finish_ok_def s')
  ultimately show ?thesis using i by (simp add: msg_inv_def) (simp add: s')
next
  case Leaving
  have s': "s' = s\<lparr>msg_sync := CppSendEnd (msg_sync s), cpp_sent := cpp_sent s @ [Some (f (cpp_got s))],
    cpp_todo := cs, cpp_pc := Waiting WRead\<rparr>" using st c Leaving by simp
  have t: "tokens s" "written s" "finish_ok s" using i by (simp_all add: msg_inv_def)
  have w: "cpp_writing s" using c Leaving by (simp add: role_defs)
  then have z: "m_cpp2pyFullCount (msg_sync s) = 0" "\<not> py_reading s"
    using t(1) one_token_writing by (auto simp: tokens_def)
  have "tokens s'" using t(1) w c Leaving one_token_moves(2) by (auto simp: tokens_def s' role_defs CppSendEnd_def)
  moreover have "\<not> sync_isFinished (msg_sync s)" using t(3) c by (auto simp: finish_ok_def)
  then have "in_flight1 s = []" "in_flight1 s' = [Some (f (cpp_got s))]" "in_flight2 s' = in_flight2 s"
    using t(2) c z Leaving by (simp_all add: flight_defs s' role_defs CppSendEnd_def written_def)
  moreover have "written s'" using t(2) by (simp add: written_def s')
  moreover have "finish_ok s'" using t(3) c by (auto simp: finish_ok_def s' CppSendEnd_def)
  ultimately show ?thesis using i c cpp_program_ok_tl by (simp add: msg_inv_def) (auto simp: s')
qed

lemma cpp_finish_inv:
  assumes i: "msg_inv s" and c: "cpp_todo s = CppSetFinished # cs" and st: "cpp_step s = Some s'"
  shows "msg_inv s'"
proof (cases "cpp_pc s")
  case (Waiting w)
  obtain v w' where w: "sem_wait_step (m_cpp2pyEmptyCount (msg_sync s)) w = (v, w')" by fastforce
  have "s' = s\<lparr>msg_sync := (msg_sync s)\<lparr>m_cpp2pyEmptyCount := v\<rparr>, cpp_pc := after_wait w', cpp_isFinished := True\<rparr>"
    using st c Waiting w by (simp add: CppSendBegin_def split: if_splits)
  with cpp_wait_send_inv [OF i _ Waiting w] c show ?thesis by simp
next
  case Inside
  have s': "s' = s\<lparr>msg_sync := (msg_sync s)\<lparr>sync_isFinished := True\<rparr>, cpp_pc := Leaving\<rparr>"
    using st c Inside by (simp split: if_splits)
  have t: "tokens s" "written s" "finish_ok s" and cs: "cs = []" "m_handleFinish s"
    using i c cpp_program_ok_finish by (auto simp: msg_inv_def)
  have "tokens s'" using t(1) c Inside by (simp add: tokens_def s' role_defs)
  moreover have "cpp_writing s" using c Inside by (simp add: role_defs)
  then have "m_cpp2pyFullCount (msg_sync s) = 0" "\<not> py_reading s"
    using t(1) one_token_writing by (auto simp: tokens_def)
  then have "in_flight1 s' = in_flight1 s" "in_flight2 s' = in_flight2 s"
    using c by (simp_all add: flight_defs s' role_defs)
  moreover have "written s'" using t(2) c by (simp add: written_def s')
  moreover have "finish_ok s'" using t(3) c cs by (simp add: finish_ok_def s')
  ultimately show ?thesis using i by (simp add: msg_inv_def) (simp add: s')
next
  case Leaving
  have s': "s' = s\<lparr>msg_sync := CppSendEnd (msg_sync s), cpp_sent := cpp_sent s @ [None],
    cpp_todo := cs, cpp_pc := Waiting WRead\<rparr>" using st c Leaving by (simp split: if_splits)
  have t: "tokens s" "written s" "finish_ok s" and cs: "cs = []"
    using i c cpp_program_ok_finish by (auto simp: msg_inv_def)
  have w: "cpp_writing s" using c Leaving by (simp add: role_defs)
  then have z: "m_cpp2pyFullCount (msg_sync s) = 0" "\<not> py_reading s"
    using t(1) one_token_writing by (auto simp: tokens_def)
  have "tokens s'" using t(1) w c Leaving one_token_moves(2) by (auto simp: tokens_def s' role_defs CppSendEnd_def)
  moreover have "sync_isFinished (msg_sync s)" using t(2) c Leaving by (auto simp: written_def)
  then have "in_flight1 s = []" "in_flight1 s' = [None]" "in_flight2 s' = in_flight2 s"
    using c z Leaving by (simp_all add: flight_defs s' role_defs CppSendEnd_def)
  moreover have "written s'" using t(2) by (simp add: written_def s')
  moreover have "finish_ok s'" using t(3) c cs by (simp add: finish_ok_def s' CppSendEnd_def)
  ultimately show ?thesis using i c cpp_program_ok_tl by (simp add: msg_inv_def) (auto simp: s')
qed

lemma cpp_recv_inv:
  assumes i: "msg_inv s" and c: "cpp_todo s = CppRecv # cs" and st: "cpp_step s = Some s'"
  shows "msg_inv s'"
proof (cases "cpp_pc s")
  case (Waiting w)
  obtain v w' where w: "sem_wait_step (m_py2cppFullCount (msg_sync s)) w = (v, w')" by fastforce
  have s': "s' = s\<lparr>msg_sync := (msg_sync s)\<lparr>m_py2cppFullCount := v\<rparr>, cpp_pc := after_wait w'\<rparr>"
    using st c Waiting w by (simp add: CppRecvBegin_def)
  have "pc_ok (Waiting w)" using i Waiting by (simp add: msg_inv_def)
  note wc = sem_wait_cases [OF w this]
  have t: "tokens s" "written s" "finish_ok s" using i by (simp_all add: msg_inv_def)
  have "tokens s'" using t(1) wc c Waiting one_token_moves(3) by (auto simp: tokens_def role_defs s')
  moreover have "in_flight1 s' = in_flight1 s" using c Waiting by (simp add: flight_defs role_defs s')
  moreover have "in_flight2 s' = in_flight2 s"
    using wc c Waiting t(1) one_token_full by (auto simp: flight_defs role_defs s' tokens_def)
  moreover have "written s'" using t(2) wc c by (auto simp: written_def s')
  moreover have "finish_ok s'" using t(3) c Waiting by (auto simp: finish_ok_def s')
  moreover have "pc_ok (cpp_pc s')" using wc by (auto simp: s')
  ultimately show ?thesis using i by (simp add: msg_inv_def) (simp add: s')
next
  case Inside
  have s': "s' = s\<lparr>cpp_got := cpp_got s @ [py2cpp s], cpp_pc := Leaving\<rparr>" using st c Inside by simp
  have t: "tokens s" "written s" "finish_ok s" using i by (simp_all add: msg_inv_def)
  have r: "cpp_reading s" using c Inside by (simp add: role_defs)
  then have z: "m_py2cppFullCount (msg_sync s) = 0" using t(1) one_token_reading by (auto simp: tokens_def)
  have "tokens s'" using t(1) c Inside by (simp add: tokens_def s' role_defs)
  moreover have "in_flight1 s' = in_flight1 s" "in_flight2 s = [py2cpp s]" "in_flight2 s' = []"
    using c Inside z r by (simp_all add: flight_defs s' role_defs)
  moreover have "written s'" using t(2) c by (simp add: written_def s')
  moreover have "finish_ok s'" using t(3) c by (auto simp: finish_ok_def s')
  ultimately show ?thesis using i by (simp add: msg_inv_def) (simp add: s')
next
  case Leaving
  have s': "s' = s\<lparr>msg_sync := CppRecvEnd (msg_sync s), cpp_todo := cs, cpp_pc := Waiting WRead\<rparr>"
    using st c Leaving by simp
  have t: "tokens s" "written s" "finish_ok s" using i by (simp_all add: msg_inv_def)
  have r: "cpp_reading s" using c Leaving by (simp add: role_defs)
  have "tokens s'" using t(1) r c Leaving one_token_moves(4) by (auto simp: tokens_def s' role_defs CppRecvEnd_def)
  moreover have "in_flight1 s' = in_flight1 s" "in_flight2 s' = in_flight2 s"
    using c Leaving by (simp_all add: flight_defs s' role_defs CppRecvEnd_def)
  moreover have "written s'" using t(2) by (simp add: written_def s')
  moreover have "finish_ok s'" using t(3) c by (auto simp: finish_ok_def s' CppRecvEnd_def)
  ultimately show ?thesis using i c cpp_program_ok_tl by (simp add: msg_inv_def) (auto simp: s')
qed

lemma cpp_step_inv: "msg_inv s \<Longrightarrow> cpp_step s = Some s' \<Longrightarrow> msg_inv s'"
proof -
  assume a: "msg_inv s" "cpp_step s = Some s'"
  then obtain c cs where "cpp_todo s = c # cs" by (cases "cpp_todo s") auto
  with a show "msg_inv s'" by (cases c) (blast intro: cpp_send_inv cpp_finish_inv cpp_recv_inv)+
qed

text \<open>The steps of the Python process.\<close>

lemma py_recv_inv:
  assumes i: "msg_inv s" and c: "py_todo s = PyRecv # ps" and st: "py_step s = Some s'"
  shows "msg_inv s'"
proof (cases "py_pc s")
  case (Waiting w)
  obtain v w' where w: "sem_wait_step (m_cpp2pyFullCount (msg_sync s)) w = (v, w')" by fastforce
  have s': "s' = s\<lparr>msg_sync := (msg_sync s)\<lparr>m_cpp2pyFullCount := v\<rparr>, py_pc := after_wait w'\<rparr>"
    using st c Waiting w by (simp add: PyRecvBegin_def)
  have "pc_ok (Waiting w)" using i Waiting by (simp add: msg_inv_def)
  note wc = sem_wait_cases [OF w this]
  have t: "tokens s" "written s" "finish_ok s" using i by (simp_all add: msg_inv_def)
  have "tokens s'" using t(1) wc c Waiting one_token_moves(3) by (auto simp: tokens_def role_defs s')
  moreover have "in_flight2 s' = in_flight2 s" using c Waiting by (simp add: flight_defs role_defs s')
  moreover have "in_flight1 s' = in_flight1 s"
    using wc c Waiting t(1) one_token_full by (auto simp: flight_defs role_defs s' tokens_def)
  moreover have "written s'" using t(2) wc c by (auto simp: written_def s')
  moreover have "finish_ok s'" using t(3) by (simp add: finish_ok_def s')
  moreover have "pc_ok (py_pc s')" using wc by (auto simp: s')
  ultimately show ?thesis using i by (simp add: msg_inv_def) (simp add: s')
next
  case Inside
  have t: "tokens s" "written s" "finish_ok s" using i by (simp_all add: msg_inv_def)
  define fin where "fin = sync_isFinished (msg_sync s)"
  have "(if m_handleFinish s then sync_isFinished (msg_sync s) else py_isFinished s) = fin"
    using t(3) by (auto simp: finish_ok_def fin_def)
  then have s': "s' = s\<lparr>py_isFinished := fin, py_got := py_got s @ [if fin then None else Some (cpp2py s)], py_pc := Leaving\<rparr>"
    using st c Inside by (simp add: Let_def)
  have r: "py_reading s" using c Inside by (simp add: role_defs)
  then have z: "m_cpp2pyFullCount (msg_sync s) = 0" using t(1) one_token_reading by (auto simp: tokens_def)
  have "tokens s'" using t(1) c Inside by (simp add: tokens_def s' role_defs)
  moreover have "in_flight2 s' = in_flight2 s" "in_flight1 s = [if fin then None else Some (cpp2py s)]" "in_flight1 s' = []"
    using c Inside z r by (simp_all add: flight_defs s' role_defs fin_def)
  moreover have "written s'" using t(2) c by (simp add: written_def s')
  moreover have "finish_ok s'" using t(3) by (simp add: finish_ok_def s' fin_def)
  ultimately show ?thesis using i by (simp add: msg_inv_def) (simp add: s')
next
  case Leaving
  have s': "s' = s\<lparr>msg_sync := PyRecvEnd (msg_sync s), py_todo := ps, py_pc := Waiting WRead\<rparr>"
    using st c Leaving by simp
  have t: "tokens s" "written s" "finish_ok s" using i by (simp_all add: msg_inv_def)
  have r: "py_reading s" using c Leaving by (simp add: role_defs)
  have "tokens s'" using t(1) r c Leaving one_token_moves(4) by (auto simp: tokens_def s' role_defs PyRecvEnd_def)
  moreover have "in_flight1 s' = in_flight1 s" "in_flight2 s' = in_flight2 s"
    using c Leaving by (simp_all add: flight_defs s' role_defs PyRecvEnd_def)
  moreover have "written s'" using t(2) by (simp add: written_def s' PyRecvEnd_def)
  moreover have "finish_ok s'" using t(3) by (simp add: finish_ok_def s' PyRecvEnd_def)
  ultimately show ?thesis using i by (simp add: msg_inv_def) (simp add: s')
qed

lemma py_send_inv:
  assumes i: "msg_inv s" and c: "py_todo s = PySend f # ps" and st: "py_step s = Some s'"
  shows "msg_inv s'"
proof (cases "py_pc s")
  case (Waiting w)
  obtain v w' where w: "sem_wait_step (m_py2cppEmptyCount (msg_sync s)) w = (v, w')" by fastforce
  have s': "s' = s\<lparr>msg_sync := (msg_sync s)\<lparr>m_py2cppEmptyCount := v\<rparr>, py_pc := after_wait w'\<rparr>"
    using st c Waiting w by (simp add: PySendBegin_def)
  have "pc_ok (Waiting w)" using i Waiting by (simp add: msg_inv_def)
  note wc = sem_wait_cases [OF w this]
  have t: "tokens s" "written s" "finish_ok s" using i by (simp_all add: msg_inv_def)
  have "tokens s'" using t(1) wc c Waiting one_token_moves(1) by (auto simp: tokens_def role_defs s')
  moreover have "in_flight1 s' = in_flight1 s" "in_flight2 s' = in_flight2 s"
    using c Waiting by (simp_all add: flight_defs role_defs s')
  moreover have "written s'" using t(2) wc c by (auto simp: written_def s')
  moreover have "finish_ok s'" using t(3) by (simp add: finish_ok_def s')
  moreover have "pc_ok (py_pc s')" using wc by (auto simp: s')
  ultimately show ?thesis using i by (simp add: msg_inv_def) (simp add: s')
next
  case Inside
  have s': "s' = s\<lparr>py2cpp := f (py_got s), py_pc := Leaving\<rparr>" using st c Inside by simp
  have t: "tokens s" "written s" "finish_ok s" using i by (simp_all add: msg_inv_def)
  have "tokens s'" using t(1) c Inside by (simp add: tokens_def s' role_defs)
  moreover have "py_writing s" using c Inside by (simp add: role_defs)
  then have "m_py2cppFullCount (msg_sync s) = 0" "\<not> cpp_reading s"
    using t(1) one_token_writing by (auto simp: tokens_def)
  then have "in_flight1 s' = in_flight1 s" "in_flight2 s' = in_flight2 s"
    using c by (simp_all add: flight_defs s' role_defs)
  moreover have "written s'" using t(2) c by (simp add: written_def s')
  moreover have "finish_ok s'" using t(3) by (simp add: finish_ok_def s')
  ultimately show ?thesis using i by (simp add: msg_inv_def) (simp add: s')
next
  case Leaving
  have s': "s' = s\<lparr>msg_sync := PySendEnd (msg_sync s), py_sent := py_sent s @ [f (py_got s)],
    py_todo := ps, py_pc := Waiting WRead\<rparr>" using st c Leaving by simp
  have t: "tokens s" "written s" "finish_ok s" using i by (simp_all add: msg_inv_def)
  have w: "py_writing s" using c Leaving by (simp add: role_defs)
  then have z: "m_py2cppFullCount (msg_sync s) = 0" "\<not> cpp_reading s"
    using t(1) one_token_writing by (auto simp: tokens_def)
  have "tokens s'" using t(1) w c Leaving one_token_moves(2) by (auto simp: tokens_def s' role_defs PySendEnd_def)
  moreover have "in_flight2 s = []" "in_flight2 s' = [f (py_got s)]" "in_flight1 s' = in_flight1 s"
    using t(2) c z Leaving by (simp_all add: flight_defs s' role_defs PySendEnd_def written_def)
  moreover have "written s'" using t(2) by (simp add: written_def s' PySendEnd_def)
  moreover have "finish_ok s'" using t(3) by (simp add: finish_ok_def s' PySendEnd_def)
  ultimately show ?thesis using i by (simp add: msg_inv_def) (simp add: s')
qed

lemma py_step_inv: "msg_inv s \<Longrightarrow> py_step s = Some s' \<Longrightarrow> msg_inv s'"
proof -
  assume a: "msg_inv s" "py_step s = Some s'"
  then obtain c cs where "py_todo s = c # cs" by (cases "py_todo s") auto
  with a show "msg_inv s'" by (cases c) (blast intro: py_send_inv py_recv_inv)+
qed

lemma msg_step_inv: "msg_step s s' \<Longrightarrow> msg_inv s \<Longrightarrow> msg_inv s'"
  by (erule msg_stepE) (blast intro: cpp_step_inv py_step_inv)+

lemma msg_init_inv: "cpp_program_ok hf cs \<Longrightarrow> msg_inv (msg_init hf m a cs ps)"
  by (simp add: msg_inv_def msg_init_def tokens_def role_defs one_token_def msg_sync_init_def flight_defs written_def finish_ok_def)

lemma msg_steps_inv: "msg_step\<^sup>*\<^sup>* s s' \<Longrightarrow> msg_inv s \<Longrightarrow> msg_inv s'"
  by (induction rule: rtranclp_induct) (auto intro: msg_step_inv)

text \<open>
  C15: Whatever the two processes do and however their atomic steps interleave, the simulation and
  the agent are never in the same buffer at once, all four 8-bit counts stay at 0 or 1, every
  message is received exactly once, unchanged and in order, and at most one message per direction
  is under way.
\<close>

theorem msg_exchange_safe:
  assumes "cpp_program_ok handleFinish cs" and "msg_step\<^sup>*\<^sup>* (msg_init handleFinish m a cs ps) s"
  shows "\<not> (cpp_writing s \<and> py_reading s) \<and> \<not> (py_writing s \<and> cpp_reading s) \<and>
    (\<exists>xs. cpp_sent s = py_got s @ xs \<and> length xs \<le> 1) \<and> (\<exists>xs. py_sent s = cpp_got s @ xs \<and> length xs \<le> 1) \<and>
    m_cpp2pyEmptyCount (msg_sync s) \<le> 1 \<and> m_cpp2pyFullCount (msg_sync s) \<le> 1 \<and>
    m_py2cppEmptyCount (msg_sync s) \<le> 1 \<and> m_py2cppFullCount (msg_sync s) \<le> 1"
proof -
  have i: "msg_inv s" by (rule msg_steps_inv [OF assms(2) msg_init_inv [OF assms(1)]])
  then have t: "tokens s" and l: "cpp_sent s = py_got s @ in_flight1 s" "py_sent s = cpp_got s @ in_flight2 s"
    by (simp_all add: msg_inv_def)
  have "length (in_flight1 s) \<le> 1" "length (in_flight2 s) \<le> 1" by (simp_all add: flight_defs)
  moreover have "e \<le> 1 \<and> f \<le> 1 \<and> \<not> (w \<and> r)" if "one_token e f w r" for e f w r
    using that by (auto simp: one_token_def)
  ultimately show ?thesis using t l unfolding tokens_def by blast
qed

section \<open>Progress\<close>

text \<open>Two programs fit together when one receives where the other sends.\<close>

fun dual :: "('m, 'a) cpp_call list \<Rightarrow> ('m, 'a) py_call list \<Rightarrow> bool" where
  "dual [] [] = True"
| "dual (CppSend f # cs) (PyRecv # ps) = dual cs ps"
| "dual (CppSetFinished # cs) (PyRecv # ps) = dual cs ps"
| "dual (CppRecv # cs) (PySend f # ps) = dual cs ps"
| "dual _ _ = False"

text \<open>The atomic steps left to each process if it never has to spin.\<close>

fun pc_left :: "call_pc \<Rightarrow> nat" where
  "pc_left (Waiting WRead) = 4"
| "pc_left (Waiting w) = 3"
| "pc_left Inside = 2"
| "pc_left Leaving = 1"

definition process_left :: "'c list \<Rightarrow> call_pc \<Rightarrow> nat" where
  "process_left todo pc = (case todo of [] \<Rightarrow> 0 | c # cs \<Rightarrow> 4 * length cs + pc_left pc)"

definition work_left :: "('m, 'a) msg_system \<Rightarrow> nat" where
  "work_left s = process_left (cpp_todo s) (cpp_pc s) + process_left (py_todo s) (py_pc s)"

text \<open>
  The states of a run of two programs that fit: both are at corresponding calls and the receiver
  waits, or the sender is one call ahead. The steps of the process whose turn it is are never in
  vain.
\<close>

definition turn_pc :: "call_pc \<Rightarrow> bool" where
  "turn_pc pc \<longleftrightarrow> pc = Waiting WRead \<or> pc = Waiting (WCas 1) \<or> pc = Inside \<or> pc = Leaving"

definition held :: "call_pc \<Rightarrow> u8" where
  "held pc = (if holding pc then 0 else 1)"

definition cpp_sends :: "('m, 'a) msg_system \<Rightarrow> bool" where
  "cpp_sends s \<longleftrightarrow> dual (cpp_todo s) (py_todo s) \<and> sends_next (cpp_todo s) \<and> turn_pc (cpp_pc s) \<and> py_pc s = Waiting WRead \<and>
     m_cpp2pyEmptyCount (msg_sync s) = held (cpp_pc s) \<and> m_cpp2pyFullCount (msg_sync s) = 0 \<and>
     m_py2cppEmptyCount (msg_sync s) = 1 \<and> m_py2cppFullCount (msg_sync s) = 0"

definition py_receives :: "('m, 'a) msg_system \<Rightarrow> bool" where
  "py_receives s \<longleftrightarrow> (\<exists>ps. py_todo s = PyRecv # ps \<and> dual (cpp_todo s) ps) \<and> cpp_pc s = Waiting WRead \<and> turn_pc (py_pc s) \<and>
     m_cpp2pyEmptyCount (msg_sync s) = 0 \<and> m_cpp2pyFullCount (msg_sync s) = held (py_pc s) \<and>
     m_py2cppEmptyCount (msg_sync s) = 1 \<and> m_py2cppFullCount (msg_sync s) = 0"

definition py_sends :: "('m, 'a) msg_system \<Rightarrow> bool" where
  "py_sends s \<longleftrightarrow> dual (cpp_todo s) (py_todo s) \<and> (\<exists>f ps. py_todo s = PySend f # ps) \<and> cpp_pc s = Waiting WRead \<and> turn_pc (py_pc s) \<and>
     m_cpp2pyEmptyCount (msg_sync s) = 1 \<and> m_cpp2pyFullCount (msg_sync s) = 0 \<and>
     m_py2cppEmptyCount (msg_sync s) = held (py_pc s) \<and> m_py2cppFullCount (msg_sync s) = 0"

definition cpp_receives :: "('m, 'a) msg_system \<Rightarrow> bool" where
  "cpp_receives s \<longleftrightarrow> (\<exists>cs. cpp_todo s = CppRecv # cs \<and> dual cs (py_todo s)) \<and> py_pc s = Waiting WRead \<and> turn_pc (cpp_pc s) \<and>
     m_cpp2pyEmptyCount (msg_sync s) = 1 \<and> m_cpp2pyFullCount (msg_sync s) = 0 \<and>
     m_py2cppEmptyCount (msg_sync s) = 0 \<and> m_py2cppFullCount (msg_sync s) = held (cpp_pc s)"

definition both_done :: "('m, 'a) msg_system \<Rightarrow> bool" where
  "both_done s \<longleftrightarrow> cpp_todo s = [] \<and> py_todo s = []"

definition at_rest :: "('m, 'a) msg_system \<Rightarrow> bool" where
  "at_rest s \<longleftrightarrow> cpp_pc s = Waiting WRead \<and> py_pc s = Waiting WRead \<and> m_cpp2pyEmptyCount (msg_sync s) = 1 \<and>
     m_cpp2pyFullCount (msg_sync s) = 0 \<and> m_py2cppEmptyCount (msg_sync s) = 1 \<and> m_py2cppFullCount (msg_sync s) = 0"

definition lockstep :: "('m, 'a) msg_system \<Rightarrow> bool" where
  "lockstep s \<longleftrightarrow> cpp_sends s \<or> py_receives s \<or> py_sends s \<or> cpp_receives s \<or> (both_done s \<and> at_rest s)"

lemma dual_cases:
  assumes "dual cs ps"
  obtains "cs = []" "ps = []" | "sends_next cs" "\<exists>ps'. ps = PyRecv # ps' \<and> dual (tl cs) ps'"
    | cs' f ps' where "cs = CppRecv # cs'" "ps = PySend f # ps'" "dual cs' ps'"
  using assms by (cases "(cs, ps)" rule: dual.cases) auto

lemma at_rest_lockstep:
  assumes "at_rest s" and "dual (cpp_todo s) (py_todo s)"
  shows "lockstep s"
  using assms(2)
proof (cases rule: dual_cases)
  case 1
  with assms show ?thesis by (simp add: lockstep_def both_done_def)
next
  case 2
  with assms have "cpp_sends s" by (simp add: cpp_sends_def at_rest_def turn_pc_def held_def)
  then show ?thesis by (simp add: lockstep_def)
next
  case 3
  with assms have "py_sends s" by (simp add: py_sends_def at_rest_def turn_pc_def held_def)
  then show ?thesis by (simp add: lockstep_def)
qed

lemma sem_wait_turns [simp]:
  "sem_wait_step 1 WRead = (1, WCas 1)" "sem_wait_step 1 (WCas 1) = (0, WDone)" "sem_wait_step 0 WRead = (0, WRead)"
  by (simp_all add: add_unless_test_def atomic_read8_def atomic_cas8_def)

lemma after_wait_simps [simp]:
  "after_wait WDone = Inside" "after_wait WRead = Waiting WRead" "after_wait (WCas c) = Waiting (WCas c)"
  by (simp_all add: after_wait_def)

lemma held_simps [simp]: "held (Waiting w) = 1" "held Inside = 0" "held Leaving = 0"
  by (simp_all add: held_def)

lemma process_left_simps [simp]: "process_left [] pc = 0" "process_left (c # cs) pc = 4 * length cs + pc_left pc"
  by (simp_all add: process_left_def)

declare sem_wait_step.simps(1,2) [simp del]

lemma turn_pc_cases:
  assumes "turn_pc pc"
  obtains "pc = Waiting WRead" | "pc = Waiting (WCas 1)" | "pc = Inside" | "pc = Leaving"
  using assms by (auto simp: turn_pc_def)

lemma process_left_next: "process_left cs (Waiting WRead) = 4 * length cs"
  by (cases cs) auto

lemma cpp_sends_step:
  assumes "cpp_sends s" and "CppSetFinished \<in> set (cpp_todo s) \<longrightarrow> m_handleFinish s"
  shows "\<exists>s'. cpp_step s = Some s' \<and> lockstep s' \<and> work_left s' < work_left s"
proof -
  note d = assms(1) [unfolded cpp_sends_def]
  obtain c cs where c: "cpp_todo s = c # cs" "c = CppSetFinished \<or> (\<exists>f. c = CppSend f)"
    using d by (cases "cpp_todo s" rule: sends_next.cases) auto
  obtain ps where ps: "py_todo s = PyRecv # ps" "dual cs ps" using d c by (cases "py_todo s") (auto elim: dual.elims)
  have "turn_pc (cpp_pc s)" using d by blast
  then show ?thesis
  proof (cases rule: turn_pc_cases)
    case 4
    define s' where "s' = the (cpp_step s)"
    have f: "cpp_step s = Some s'" "cpp_todo s' = cs" "cpp_pc s' = Waiting WRead" "py_todo s' = py_todo s" "py_pc s' = py_pc s"
      "msg_sync s' = CppSendEnd (msg_sync s)" using 4 c assms(2) by (auto simp: s'_def)
    have "py_receives s'" using d 4 ps by (simp add: py_receives_def f(2-6) CppSendEnd_def turn_pc_def)
    then show ?thesis using 4 c f by (auto simp: lockstep_def work_left_def process_left_next)
  qed (use d c assms(2) in \<open>auto simp: lockstep_def cpp_sends_def work_left_def CppSendBegin_def turn_pc_def\<close>)
qed

lemma py_receives_step:
  assumes "py_receives s"
  shows "\<exists>s'. py_step s = Some s' \<and> lockstep s' \<and> work_left s' < work_left s"
proof -
  note d = assms(1) [unfolded py_receives_def]
  obtain ps where ps: "py_todo s = PyRecv # ps" "dual (cpp_todo s) ps" using d by blast
  have "turn_pc (py_pc s)" using d by blast
  then show ?thesis
  proof (cases rule: turn_pc_cases)
    case 4
    define s' where "s' = the (py_step s)"
    have f: "py_step s = Some s'" "py_todo s' = ps" "py_pc s' = Waiting WRead" "cpp_todo s' = cpp_todo s" "cpp_pc s' = cpp_pc s"
      "msg_sync s' = PyRecvEnd (msg_sync s)" using 4 ps by (auto simp: s'_def)
    have "at_rest s'" using d 4 by (simp add: at_rest_def f(2-6) PyRecvEnd_def)
    then have "lockstep s'" using ps f by (intro at_rest_lockstep) simp_all
    then show ?thesis using 4 ps f by (auto simp: work_left_def process_left_next)
  qed (use d ps in \<open>auto simp: lockstep_def py_receives_def work_left_def PyRecvBegin_def turn_pc_def Let_def\<close>)
qed

lemma py_sends_step:
  assumes "py_sends s"
  shows "\<exists>s'. py_step s = Some s' \<and> lockstep s' \<and> work_left s' < work_left s"
proof -
  note d = assms(1) [unfolded py_sends_def]
  obtain f0 ps where p: "py_todo s = PySend f0 # ps" using d by blast
  obtain cs where cs: "cpp_todo s = CppRecv # cs" "dual cs ps" using d p by (cases "cpp_todo s") (auto elim: dual.elims)
  have "turn_pc (py_pc s)" using d by blast
  then show ?thesis
  proof (cases rule: turn_pc_cases)
    case 4
    define s' where "s' = the (py_step s)"
    have f: "py_step s = Some s'" "py_todo s' = ps" "py_pc s' = Waiting WRead" "cpp_todo s' = cpp_todo s" "cpp_pc s' = cpp_pc s"
      "msg_sync s' = PySendEnd (msg_sync s)" using 4 p by (auto simp: s'_def)
    have "cpp_receives s'" using d 4 cs by (simp add: cpp_receives_def f(2-6) PySendEnd_def turn_pc_def)
    then show ?thesis using 4 p f by (auto simp: lockstep_def work_left_def process_left_next)
  qed (use d p cs in \<open>auto simp: lockstep_def py_sends_def work_left_def PySendBegin_def turn_pc_def\<close>)
qed

lemma cpp_receives_step:
  assumes "cpp_receives s"
  shows "\<exists>s'. cpp_step s = Some s' \<and> lockstep s' \<and> work_left s' < work_left s"
proof -
  note d = assms(1) [unfolded cpp_receives_def]
  obtain cs where cs: "cpp_todo s = CppRecv # cs" "dual cs (py_todo s)" using d by blast
  have "turn_pc (cpp_pc s)" using d by blast
  then show ?thesis
  proof (cases rule: turn_pc_cases)
    case 4
    define s' where "s' = the (cpp_step s)"
    have f: "cpp_step s = Some s'" "cpp_todo s' = cs" "cpp_pc s' = Waiting WRead" "py_todo s' = py_todo s" "py_pc s' = py_pc s"
      "msg_sync s' = CppRecvEnd (msg_sync s)" using 4 cs by (auto simp: s'_def)
    have "at_rest s'" using d 4 by (simp add: at_rest_def f(2-6) CppRecvEnd_def)
    then have "lockstep s'" using cs f by (intro at_rest_lockstep) simp_all
    then show ?thesis using 4 cs f by (auto simp: work_left_def process_left_next)
  qed (use d cs in \<open>auto simp: lockstep_def cpp_receives_def work_left_def CppRecvBegin_def turn_pc_def\<close>)
qed

text \<open>The process whose turn it is not only spins.\<close>

lemma lockstep_flag:
  "lockstep (s\<lparr>cpp_isFinished := b\<rparr>) = lockstep s" "work_left (s\<lparr>cpp_isFinished := b\<rparr>) = work_left s"
  by (simp_all add: lockstep_def cpp_sends_def py_receives_def py_sends_def cpp_receives_def both_done_def at_rest_def work_left_def)

lemma py_spins:
  assumes "py_pc s = Waiting WRead" and "py_step s = Some s'"
    and "\<exists>ps. py_todo s = PyRecv # ps \<Longrightarrow> m_cpp2pyFullCount (msg_sync s) = 0"
    and "\<exists>f ps. py_todo s = PySend f # ps \<Longrightarrow> m_py2cppEmptyCount (msg_sync s) = 0"
  shows "s' = s"
  using assms by (cases "py_todo s"; cases "hd (py_todo s)") (auto simp: PyRecvBegin_def PySendBegin_def)

lemma cpp_spins:
  assumes "cpp_pc s = Waiting WRead" and "cpp_step s = Some s'"
    and "sends_next (cpp_todo s) \<Longrightarrow> m_cpp2pyEmptyCount (msg_sync s) = 0"
    and "\<exists>cs. cpp_todo s = CppRecv # cs \<Longrightarrow> m_py2cppFullCount (msg_sync s) = 0"
  shows "\<exists>b. s' = s\<lparr>cpp_isFinished := b\<rparr>"
proof (intro exI [of _ "cpp_isFinished s'"] msg_system.equality)
  show "msg_sync s' = msg_sync (s\<lparr>cpp_isFinished := cpp_isFinished s'\<rparr>)"
    using assms by (cases "cpp_todo s"; cases "hd (cpp_todo s)")
      (auto simp: CppSendBegin_def CppRecvBegin_def split: if_splits intro!: Ns3AiMsgSync.equality)
qed (use assms in \<open>cases "cpp_todo s"; cases "hd (cpp_todo s)";
  auto simp: CppSendBegin_def CppRecvBegin_def split: if_splits\<close>)+

lemma msg_inv_finish_handled: "msg_inv s \<Longrightarrow> CppSetFinished \<in> set (cpp_todo s) \<longrightarrow> m_handleFinish s"
  by (auto simp: msg_inv_def cpp_program_ok_def)

text \<open>Every step keeps the two processes in lockstep and none adds work; unless both are done, a
  step of one of them does some of it.\<close>

lemma lockstep_step:
  assumes "lockstep s" and "msg_inv s" and "msg_step s s'"
  shows "lockstep s' \<and> work_left s' \<le> work_left s"
proof -
  note h = msg_inv_finish_handled [OF assms(2)]
  have spin: "lockstep s' \<and> work_left s' \<le> work_left s" if "s' = s\<lparr>cpp_isFinished := b\<rparr>" for b
    unfolding that lockstep_flag using assms(1) by simp
  from assms(3) consider "cpp_step s = Some s'" | "py_step s = Some s'" by (blast elim: msg_stepE)
  then show ?thesis
  proof cases
    case 1
    then have nd: "\<not> both_done s" by (auto simp: both_done_def)
    show ?thesis
    proof (cases "cpp_sends s \<or> cpp_receives s")
      case True
      with cpp_sends_step [OF _ h] cpp_receives_step 1 show ?thesis by fastforce
    next
      case False
      with assms(1) nd have "py_receives s \<or> py_sends s" by (auto simp: lockstep_def)
      moreover from this have "cpp_pc s = Waiting WRead" by (auto simp: py_receives_def py_sends_def)
      moreover have "\<not> (sends_next (cpp_todo s) \<and> py_sends s)" by (auto simp: py_sends_def elim: dual.elims)
      ultimately obtain b where "s' = s\<lparr>cpp_isFinished := b\<rparr>"
        using cpp_spins [OF _ 1] by (auto simp: py_receives_def py_sends_def)
      then show ?thesis by (rule spin)
    qed
  next
    case 2
    then have nd: "\<not> both_done s" by (auto simp: both_done_def)
    show ?thesis
    proof (cases "py_sends s \<or> py_receives s")
      case True
      with py_sends_step py_receives_step 2 show ?thesis by fastforce
    next
      case False
      with assms(1) nd have "cpp_receives s \<or> cpp_sends s" by (auto simp: lockstep_def)
      moreover from this have "py_pc s = Waiting WRead" by (auto simp: cpp_receives_def cpp_sends_def)
      moreover have "\<not> ((\<exists>f ps. py_todo s = PySend f # ps) \<and> cpp_sends s)" by (auto simp: cpp_sends_def elim: dual.elims)
      ultimately have "s' = s"
        using py_spins [OF _ 2] by (auto simp: cpp_receives_def cpp_sends_def)
      with assms(1) show ?thesis by simp
    qed
  qed
qed

lemma lockstep_steps: "msg_step\<^sup>*\<^sup>* s s' \<Longrightarrow> lockstep s \<Longrightarrow> msg_inv s \<Longrightarrow> lockstep s'"
  by (induction rule: rtranclp_induct) (auto dest: lockstep_step msg_steps_inv)

lemma lockstep_progress:
  assumes "lockstep s" and "msg_inv s" and "\<not> both_done s"
  shows "\<exists>s'. msg_step s s' \<and> lockstep s' \<and> work_left s' < work_left s"
  using assms cpp_sends_step [OF _ msg_inv_finish_handled [OF assms(2)]] cpp_receives_step [of s] py_sends_step [of s] py_receives_step [of s]
  unfolding lockstep_def by (meson msg_step.intros)

lemma lockstep_completes:
  assumes "lockstep s" and "msg_inv s"
  shows "\<exists>s'. msg_step\<^sup>*\<^sup>* s s' \<and> both_done s' \<and> lockstep s' \<and> msg_inv s'"
  using assms
proof (induction "work_left s" arbitrary: s rule: less_induct)
  case less
  show ?case
  proof (cases "both_done s")
    case False
    obtain s1 where s1: "msg_step s s1" "lockstep s1" "work_left s1 < work_left s"
      using lockstep_progress [OF less.prems False] by blast
    from less.hyps [OF s1(3,2) msg_step_inv [OF s1(1) less.prems(2)]] s1(1) show ?thesis
      by (meson converse_rtranclp_into_rtranclp)
  qed (use less.prems in blast)
qed

lemma msg_init_lockstep: "dual cs ps \<Longrightarrow> lockstep (msg_init hf m a cs ps)"
  by (rule at_rest_lockstep) (simp_all add: at_rest_def msg_init_def msg_sync_init_def)

text \<open>
  Two programs that fit together never deadlock: in every state they reach, by any
  interleaving, both are done or one of them has an atomic step that is not in vain, and no step
  of either adds to the work left.
\<close>

theorem msg_deadlock_free:
  assumes "cpp_program_ok handleFinish cs" and "dual cs ps" and "msg_step\<^sup>*\<^sup>* (msg_init handleFinish m a cs ps) s"
  shows "(both_done s \<or> (\<exists>s'. msg_step s s' \<and> work_left s' < work_left s)) \<and>
    (\<forall>s'. msg_step s s' \<longrightarrow> work_left s' \<le> work_left s)"
proof -
  have i: "msg_inv s" by (rule msg_steps_inv [OF assms(3) msg_init_inv [OF assms(1)]])
  have "lockstep s" by (rule lockstep_steps [OF assms(3) msg_init_lockstep [OF assms(2)] msg_init_inv [OF assms(1)]])
  with i lockstep_progress lockstep_step show ?thesis by blast
qed

text \<open>
  C16: From every state that two fitting programs reach they can complete, and then each side has
  received exactly what the other has sent.
\<close>

theorem msg_exchange_completes:
  assumes "cpp_program_ok handleFinish cs" and "dual cs ps" and "msg_step\<^sup>*\<^sup>* (msg_init handleFinish m a cs ps) s"
  shows "\<exists>s'. msg_step\<^sup>*\<^sup>* s s' \<and> both_done s' \<and> py_got s' = cpp_sent s' \<and> cpp_got s' = py_sent s'"
proof -
  have i: "msg_inv s" by (rule msg_steps_inv [OF assms(3) msg_init_inv [OF assms(1)]])
  have "lockstep s" by (rule lockstep_steps [OF assms(3) msg_init_lockstep [OF assms(2)] msg_init_inv [OF assms(1)]])
  then obtain s' where s': "msg_step\<^sup>*\<^sup>* s s'" "both_done s'" "lockstep s'" "msg_inv s'"
    using lockstep_completes i by blast
  from s'(2) have "cpp_todo s' = []" "py_todo s' = []" by (simp_all add: both_done_def)
  then have "at_rest s'" using s'(3) by (auto simp: lockstep_def cpp_sends_def py_receives_def py_sends_def cpp_receives_def)
  then have "in_flight1 s' = []" "in_flight2 s' = []" by (simp_all add: at_rest_def flight_defs)
  with s' show ?thesis by (auto simp: msg_inv_def)
qed

text \<open>For the witnesses: the C++ side sends a state, waits for the action, sends the sum of what it
  has and signals the end; the Python side answers with the number of messages it got.\<close>

definition demo_cpp :: "(int, int) cpp_call list" where
  "demo_cpp = [CppSend (\<lambda>as. 7), CppRecv, CppSend sum_list, CppSetFinished]"

definition demo_py :: "(int, int) py_call list" where
  "demo_py = [PyRecv, PySend (\<lambda>ms. int (length ms)), PyRecv, PyRecv]"

lemma demo_program_ok: "cpp_program_ok True demo_cpp" "dual demo_cpp demo_py"
  by (simp_all add: cpp_program_ok_def demo_cpp_def demo_py_def)

lemma msg_exchange_safe_witness:
  "\<not> (cpp_writing (msg_init True 0 0 demo_cpp demo_py) \<and> py_reading (msg_init True 0 0 demo_cpp demo_py))"
  using msg_exchange_safe [OF demo_program_ok(1) rtranclp.rtrancl_refl, of 0 0 demo_py] by blast

lemma msg_deadlock_free_witness:
  "both_done (msg_init True 0 0 demo_cpp demo_py) \<or> (\<exists>s'. msg_step (msg_init True 0 0 demo_cpp demo_py) s')"
  using msg_deadlock_free [OF demo_program_ok rtranclp.rtrancl_refl, of 0 0] by blast

lemma msg_exchange_completes_witness:
  "\<exists>s'. msg_step\<^sup>*\<^sup>* (msg_init True 0 0 demo_cpp demo_py) s' \<and> both_done s' \<and> py_got s' = cpp_sent s'"
  using msg_exchange_completes [OF demo_program_ok rtranclp.rtrancl_refl, of 0 0] by blast

end
