(* ===== verification/Gym_Interface.thy ===== *)
theory Gym_Interface
  imports Gym_Spaces Ai_Msg_Interface
begin

text \<open>
  contrib/ns3-ai/model/gym-interface/cpp/ns3-ai-gym-interface.cc and ns3-ai-gym-env.cc: the object
  through which a simulation talks to a gym agent. Init sends the description of the spaces once;
  NotifyCurrentState sends observation, reward, end of game and extra information, waits for the
  reply and executes the action in it.

  The user's environment is a state \<open>'e\<close>; its callbacks may change it. The agent is the list of
  the replies that are still to come. The protobuf library (serialisation, parsing, Any) is the
  record \<open>gym_lib\<close> of parameters. Every message goes through the buffer of \<open>Ns3AiGymMsg\<close>.
\<close>

section \<open>Messages and library\<close>

definition MSG_BUFFER_SIZE :: nat where
  "MSG_BUFFER_SIZE = 1024"

record 'sany SimInitMsg =
  obsSpace :: "'sany SpaceDescription option"
  actSpace :: "'sany SpaceDescription option"

record SimInitAck =
  ack_done :: bool
  ack_stopSimReq :: bool

datatype Reason = SimulationEnd | GameOver

record ('f, 'any) EnvStateMsg =
  obsData :: "'any DataContainerPb option"
  reward :: 'f
  isGameOver :: bool
  reason :: Reason
  info :: string

record 'any EnvActMsg =
  actData :: "'any DataContainerPb"
  act_stopSimReq :: bool

record ('f, 'd, 'any, 'sany) gym_lib =
  to_float :: "int \<Rightarrow> 'f"
  float_zero :: 'f
  pack :: "('f, 'd, 'any) payload \<Rightarrow> 'any"
  unpack :: "'any \<Rightarrow> ('f, 'd, 'any) payload option"
  space_pack :: "('f, 'sany) space_payload \<Rightarrow> 'sany"
  serialize_init :: "'sany SimInitMsg \<Rightarrow> u8 list"
  serialize_state :: "('f, 'any) EnvStateMsg \<Rightarrow> u8 list"
  parse_ack :: "u8 list \<Rightarrow> SimInitAck"
  parse_act :: "u8 list \<Rightarrow> 'any EnvActMsg"
  nesting :: nat

section \<open>The interface object\<close>

text \<open>A callback that is not set is None.\<close>

record ('e, 'f, 'd) gym_callbacks =
  m_actionSpaceCb :: "('e \<Rightarrow> 'f space option \<times> 'e) option"
  m_observationSpaceCb :: "('e \<Rightarrow> 'f space option \<times> 'e) option"
  m_gameOverCb :: "('e \<Rightarrow> bool \<times> 'e) option"
  m_obsCb :: "('e \<Rightarrow> ('f, 'd) container option \<times> 'e) option"
  m_rewardCb :: "('e \<Rightarrow> 'f \<times> 'e) option"
  m_extraInfoCb :: "('e \<Rightarrow> string \<times> 'e) option"
  m_actionCb :: "(('f, 'd) container option \<Rightarrow> 'e \<Rightarrow> bool \<times> 'e) option"

text \<open>\<open>io\<close> records the messages in order.\<close>

datatype gym_io = Sends "u8 list" | Receives "u8 list"

record ('e, 'f, 'd) OpenGymInterface =
  m_simEnd :: bool
  m_stopEnvRequested :: bool
  m_initSimMsgSent :: bool
  callbacks :: "('e, 'f, 'd) gym_callbacks"
  env :: 'e
  replies :: "u8 list list"
  io :: "gym_io list"

text \<open>A call returns, ends the process with std::exit after Stop and Destroy, or does neither: an
  assertion fails, a null pointer is followed, or no reply ever comes.\<close>

datatype 's gym_result = Running 's | Exited 's | Stuck

fun gym_then :: "'s gym_result \<Rightarrow> ('s \<Rightarrow> 's gym_result) \<Rightarrow> 's gym_result" where
  "gym_then (Running s) f = f s"
| "gym_then (Exited s) f = Exited s"
| "gym_then Stuck f = Stuck"

definition gym_init :: "('e, 'f, 'd) gym_callbacks \<Rightarrow> 'e \<Rightarrow> u8 list list \<Rightarrow> ('e, 'f, 'd) OpenGymInterface" where
  "gym_init cbs e rs = \<lparr>m_simEnd = False, m_stopEnvRequested = False, m_initSimMsgSent = False, callbacks = cbs,
     env = e, replies = rs, io = []\<rparr>"

text \<open>The getters: the default when the callback is not set.\<close>

definition GetActionSpace :: "('e, 'f, 'd) OpenGymInterface \<Rightarrow> 'f space option \<times> 'e" where
  "GetActionSpace s = (case m_actionSpaceCb (callbacks s) of None \<Rightarrow> (None, env s) | Some cb \<Rightarrow> cb (env s))"

definition GetObservationSpace :: "('e, 'f, 'd) OpenGymInterface \<Rightarrow> 'f space option \<times> 'e" where
  "GetObservationSpace s = (case m_observationSpaceCb (callbacks s) of None \<Rightarrow> (None, env s) | Some cb \<Rightarrow> cb (env s))"

definition GetObservation :: "('e, 'f, 'd) OpenGymInterface \<Rightarrow> ('f, 'd) container option \<times> 'e" where
  "GetObservation s = (case m_obsCb (callbacks s) of None \<Rightarrow> (None, env s) | Some cb \<Rightarrow> cb (env s))"

definition GetReward :: "'f \<Rightarrow> ('e, 'f, 'd) OpenGymInterface \<Rightarrow> 'f \<times> 'e" where
  "GetReward zero s = (case m_rewardCb (callbacks s) of None \<Rightarrow> (zero, env s) | Some cb \<Rightarrow> cb (env s))"

definition IsGameOver :: "('e, 'f, 'd) OpenGymInterface \<Rightarrow> bool \<times> 'e" where
  "IsGameOver s =
     (let (gameOver, e) = (case m_gameOverCb (callbacks s) of None \<Rightarrow> (False, env s) | Some cb \<Rightarrow> cb (env s))
      in (gameOver \<or> m_simEnd s, e))"

definition GetExtraInfo :: "('e, 'f, 'd) OpenGymInterface \<Rightarrow> string \<times> 'e" where
  "GetExtraInfo s = (case m_extraInfoCb (callbacks s) of None \<Rightarrow> ([], env s) | Some cb \<Rightarrow> cb (env s))"

definition ExecuteActions :: "('f, 'd) container option \<Rightarrow> ('e, 'f, 'd) OpenGymInterface \<Rightarrow> ('e, 'f, 'd) OpenGymInterface" where
  "ExecuteActions action s = (case m_actionCb (callbacks s) of None \<Rightarrow> s | Some cb \<Rightarrow> s\<lparr>env := snd (cb action (env s))\<rparr>)"

text \<open>Sending a message and waiting for the reply.\<close>

definition gym_exchange :: "u8 list \<Rightarrow> ('e, 'f, 'd) OpenGymInterface
    \<Rightarrow> (u8 list \<times> ('e, 'f, 'd) OpenGymInterface) option" where
  "gym_exchange m s =
     (if MSG_BUFFER_SIZE < length m then None
      else case replies s of
        [] \<Rightarrow> None
      | r # rs \<Rightarrow> Some (r, s\<lparr>io := io s @ [Sends m, Receives r], replies := rs\<rparr>))"

definition space_message :: "('f, 'd, 'any, 'sany) gym_lib \<Rightarrow> 'f space option \<Rightarrow> 'sany SpaceDescription option option" where
  "space_message lib sp = (case sp of None \<Rightarrow> Some None | Some p \<Rightarrow> map_option Some (GetSpaceDescription (space_pack lib) p))"

definition gym_Init :: "('f, 'd, 'any, 'sany) gym_lib \<Rightarrow> ('e, 'f, 'd) OpenGymInterface \<Rightarrow> ('e, 'f, 'd) OpenGymInterface gym_result" where
  "gym_Init lib s =
     (if m_initSimMsgSent s then Running s
      else
        let s0 = s\<lparr>m_initSimMsgSent := True\<rparr>;
            (obs, e1) = GetObservationSpace s0; s1 = s0\<lparr>env := e1\<rparr>;
            (act, e2) = GetActionSpace s1; s2 = s1\<lparr>env := e2\<rparr>
        in case (space_message lib obs, space_message lib act) of
             (Some obsDesc, Some actDesc) \<Rightarrow>
               (case gym_exchange (serialize_init lib \<lparr>obsSpace = obsDesc, actSpace = actDesc\<rparr>) s2 of
                  None \<Rightarrow> Stuck
                | Some (r, s3) \<Rightarrow>
                    if ack_stopSimReq (parse_ack lib r) then Exited (s3\<lparr>m_stopEnvRequested := True\<rparr>) else Running s3)
           | _ \<Rightarrow> Stuck)"

text \<open>The state message.\<close>

definition state_message :: "'any DataContainerPb option \<Rightarrow> 'f \<Rightarrow> bool \<Rightarrow> bool \<Rightarrow> string \<Rightarrow> ('f, 'any) EnvStateMsg" where
  "state_message obs rew gameOver simEnd extra =
     \<lparr>obsData = obs, reward = rew, isGameOver = gameOver,
      reason = (if gameOver then (if simEnd then SimulationEnd else GameOver) else SimulationEnd), info = extra\<rparr>"

text \<open>Collecting the state: the four callbacks in the order of the code.\<close>

definition collect_state :: "('f, 'd, 'any, 'sany) gym_lib \<Rightarrow> ('e, 'f, 'd) OpenGymInterface
    \<Rightarrow> (('f, 'any) EnvStateMsg \<times> ('e, 'f, 'd) OpenGymInterface) option" where
  "collect_state lib s =
     (let (obs, e1) = GetObservation s; s1 = s\<lparr>env := e1\<rparr>;
          (rew, e2) = GetReward (float_zero lib) s1; s2 = s1\<lparr>env := e2\<rparr>;
          (over, e3) = IsGameOver s2; s3 = s2\<lparr>env := e3\<rparr>;
          (extra, e4) = GetExtraInfo s3; s4 = s3\<lparr>env := e4\<rparr>
      in case obs of
           None \<Rightarrow> Some (state_message None rew over (m_simEnd s4) extra, s4)
         | Some c \<Rightarrow>
             (case GetDataContainerPbMsg (to_float lib) (pack lib) c of
                None \<Rightarrow> None
              | Some pb \<Rightarrow> Some (state_message (Some pb) rew over (m_simEnd s4) extra, s4)))"

definition gym_act :: "('f, 'd, 'any, 'sany) gym_lib \<Rightarrow> u8 list \<Rightarrow> ('e, 'f, 'd) OpenGymInterface \<Rightarrow> ('e, 'f, 'd) OpenGymInterface gym_result" where
  "gym_act lib r s =
     (if m_simEnd s then Running s
      else if act_stopSimReq (parse_act lib r) then Exited (s\<lparr>m_stopEnvRequested := True\<rparr>)
      else case CreateFromDataContainerPbMsg (unpack lib) (nesting lib) (actData (parse_act lib r)) of
             None \<Rightarrow> Stuck
           | Some c \<Rightarrow> Running (ExecuteActions c s))"

definition gym_NotifyCurrentState :: "('f, 'd, 'any, 'sany) gym_lib \<Rightarrow> ('e, 'f, 'd) OpenGymInterface \<Rightarrow> ('e, 'f, 'd) OpenGymInterface gym_result" where
  "gym_NotifyCurrentState lib s =
     gym_then (if \<not> m_initSimMsgSent s then gym_Init lib s else Running s)
       (\<lambda>s. if m_stopEnvRequested s then Running s
            else case collect_state lib s of
                   None \<Rightarrow> Stuck
                 | Some (m, s1) \<Rightarrow>
                     (case gym_exchange (serialize_state lib m) s1 of
                        None \<Rightarrow> Stuck
                      | Some (r, s2) \<Rightarrow> gym_act lib r s2))"

definition gym_WaitForStop :: "('f, 'd, 'any, 'sany) gym_lib \<Rightarrow> ('e, 'f, 'd) OpenGymInterface \<Rightarrow> ('e, 'f, 'd) OpenGymInterface gym_result" where
  "gym_WaitForStop lib s = gym_NotifyCurrentState lib s"

definition gym_NotifySimulationEnd :: "('f, 'd, 'any, 'sany) gym_lib \<Rightarrow> ('e, 'f, 'd) OpenGymInterface \<Rightarrow> ('e, 'f, 'd) OpenGymInterface gym_result" where
  "gym_NotifySimulationEnd lib s =
     (let s1 = s\<lparr>m_simEnd := True\<rparr> in if m_initSimMsgSent s1 then gym_WaitForStop lib s1 else Running s1)"

text \<open>Notify of an environment: its five methods become the callbacks.\<close>

definition gym_Notify :: "('f, 'd, 'any, 'sany) gym_lib \<Rightarrow> ('e, 'f, 'd) gym_callbacks \<Rightarrow> ('e, 'f, 'd) OpenGymInterface
    \<Rightarrow> ('e, 'f, 'd) OpenGymInterface gym_result" where
  "gym_Notify lib entity s =
     gym_NotifyCurrentState lib (s\<lparr>callbacks := (callbacks s)\<lparr>m_gameOverCb := m_gameOverCb entity, m_obsCb := m_obsCb entity,
       m_rewardCb := m_rewardCb entity, m_extraInfoCb := m_extraInfoCb entity, m_actionCb := m_actionCb entity\<rparr>\<rparr>)"

text \<open>OpenGymEnv::SetOpenGymInterface installs all seven.\<close>

definition SetOpenGymInterface :: "('e, 'f, 'd) gym_callbacks \<Rightarrow> ('e, 'f, 'd) OpenGymInterface \<Rightarrow> ('e, 'f, 'd) OpenGymInterface" where
  "SetOpenGymInterface entity s = s\<lparr>callbacks := entity\<rparr>"

section \<open>Sessions\<close>

text \<open>A session: the calls a simulation makes, until the process exits.\<close>

datatype ('e, 'f, 'd) gym_call = CallInit | CallNotify "('e, 'f, 'd) gym_callbacks" | CallNotifyCurrentState | CallNotifySimulationEnd

fun gym_do :: "('f, 'd, 'any, 'sany) gym_lib \<Rightarrow> ('e, 'f, 'd) gym_call \<Rightarrow> ('e, 'f, 'd) OpenGymInterface \<Rightarrow> ('e, 'f, 'd) OpenGymInterface gym_result" where
  "gym_do lib CallInit s = gym_Init lib s"
| "gym_do lib (CallNotify entity) s = gym_Notify lib entity s"
| "gym_do lib CallNotifyCurrentState s = gym_NotifyCurrentState lib s"
| "gym_do lib CallNotifySimulationEnd s = gym_NotifySimulationEnd lib s"

fun gym_session :: "('f, 'd, 'any, 'sany) gym_lib \<Rightarrow> ('e, 'f, 'd) gym_call list \<Rightarrow> ('e, 'f, 'd) OpenGymInterface \<Rightarrow> ('e, 'f, 'd) OpenGymInterface gym_result" where
  "gym_session lib [] s = Running s"
| "gym_session lib (c # cs) s = gym_then (gym_do lib c s) (gym_session lib cs)"

text \<open>The messages of a session: first the spaces, then states, each answered by one reply, and
  each no longer than the buffer.\<close>

fun state_exchanges :: "('f, 'd, 'any, 'sany) gym_lib \<Rightarrow> gym_io list \<Rightarrow> bool" where
  "state_exchanges lib [] = True"
| "state_exchanges lib (Sends m # Receives r # rest) \<longleftrightarrow>
     (\<exists>msg. m = serialize_state lib msg) \<and> length m \<le> MSG_BUFFER_SIZE \<and> state_exchanges lib rest"
| "state_exchanges lib _ = False"

definition session_shape :: "('f, 'd, 'any, 'sany) gym_lib \<Rightarrow> bool \<Rightarrow> gym_io list \<Rightarrow> bool" where
  "session_shape lib initSent ms \<longleftrightarrow>
     (if initSent
      then \<exists>msg r rest. ms = Sends (serialize_init lib msg) # Receives r # rest \<and>
             length (serialize_init lib msg) \<le> MSG_BUFFER_SIZE \<and> state_exchanges lib rest
      else ms = [])"

definition session_inv :: "('f, 'd, 'any, 'sany) gym_lib \<Rightarrow> ('e, 'f, 'd) OpenGymInterface \<Rightarrow> bool" where
  "session_inv lib s \<longleftrightarrow> session_shape lib (m_initSimMsgSent s) (io s)"

fun result_all :: "('s \<Rightarrow> bool) \<Rightarrow> 's gym_result \<Rightarrow> bool" where
  "result_all P (Running s) = P s"
| "result_all P (Exited s) = P s"
| "result_all P Stuck = True"

lemma state_exchanges_append:
  "state_exchanges lib xs \<Longrightarrow> state_exchanges lib ys \<Longrightarrow> state_exchanges lib (xs @ ys)"
  by (induction lib xs rule: state_exchanges.induct) auto

lemma result_all_then:
  "result_all P r \<Longrightarrow> (\<And>s. P s \<Longrightarrow> result_all P (f s)) \<Longrightarrow> result_all P (gym_then r f)"
  by (cases r) auto

lemma gym_exchange_Some:
  assumes "gym_exchange m s = Some (r, s')"
  shows "length m \<le> MSG_BUFFER_SIZE" "io s' = io s @ [Sends m, Receives r]" "m_initSimMsgSent s' = m_initSimMsgSent s"
    "m_simEnd s' = m_simEnd s" "env s' = env s" "callbacks s' = callbacks s" "m_stopEnvRequested s' = m_stopEnvRequested s"
  using assms by (auto simp: gym_exchange_def split: if_splits list.splits)

lemma collect_state_Some:
  assumes "collect_state lib s = Some (m, s')"
  shows "io s' = io s" "m_initSimMsgSent s' = m_initSimMsgSent s" "m_simEnd s' = m_simEnd s" "callbacks s' = callbacks s"
    "m_simEnd s \<Longrightarrow> isGameOver m \<and> reason m = SimulationEnd"
  using assms by (auto simp: collect_state_def state_message_def IsGameOver_def Let_def split: prod.splits option.splits)

lemma gym_act_io: "result_all (\<lambda>s'. io s' = io s \<and> m_initSimMsgSent s' = m_initSimMsgSent s) (gym_act lib r s)"
  by (auto simp: gym_act_def ExecuteActions_def split: option.splits)

lemma session_shape_append:
  assumes "session_shape lib True ms" and "length (serialize_state lib m) \<le> MSG_BUFFER_SIZE"
  shows "session_shape lib True (ms @ [Sends (serialize_state lib m), Receives r])"
proof -
  obtain msg r0 rest where ms: "ms = Sends (serialize_init lib msg) # Receives r0 # rest"
    "length (serialize_init lib msg) \<le> MSG_BUFFER_SIZE" "state_exchanges lib rest"
    using assms(1) by (auto simp: session_shape_def)
  have "state_exchanges lib (rest @ [Sends (serialize_state lib m), Receives r])"
    using ms(3) assms(2) by (intro state_exchanges_append) auto
  with ms show ?thesis by (auto simp: session_shape_def)
qed

lemma session_inv_flags [simp]:
  "session_inv lib (s\<lparr>callbacks := c\<rparr>) = session_inv lib s" "session_inv lib (s\<lparr>m_simEnd := b\<rparr>) = session_inv lib s"
  by (simp_all add: session_inv_def)

lemma init_exchange_inv:
  assumes "gym_exchange (serialize_init lib m) s1 = Some (r, s2)" and "io s1 = []" and "m_initSimMsgSent s1"
  shows "session_inv lib (s2\<lparr>m_stopEnvRequested := b\<rparr>)" and "session_inv lib s2" and "m_initSimMsgSent s2"
  using gym_exchange_Some [OF assms(1)] assms(2,3) by (auto simp: session_inv_def session_shape_def)

lemma gym_Init_inv:
  assumes "session_inv lib s"
  shows "result_all (\<lambda>s'. session_inv lib s' \<and> m_initSimMsgSent s') (gym_Init lib s)"
proof (cases "m_initSimMsgSent s")
  case False
  then have i: "io s = []" using assms by (simp add: session_inv_def session_shape_def)
  from False i show ?thesis
    by (auto simp: gym_Init_def Let_def split: prod.splits option.splits dest: init_exchange_inv)
qed (use assms in \<open>simp add: gym_Init_def\<close>)

lemma gym_NotifyCurrentState_inv:
  assumes "session_inv lib s"
  shows "result_all (session_inv lib) (gym_NotifyCurrentState lib s)"
proof -
  let ?body = "\<lambda>s. if m_stopEnvRequested s then Running s
    else case collect_state lib s of None \<Rightarrow> Stuck
    | Some (m, s1) \<Rightarrow> (case gym_exchange (serialize_state lib m) s1 of None \<Rightarrow> Stuck | Some (r, s2) \<Rightarrow> gym_act lib r s2)"
  have body: "result_all (\<lambda>s'. session_inv lib s' \<and> m_initSimMsgSent s') (?body s)"
    if s: "session_inv lib s \<and> m_initSimMsgSent s" for s
  proof -
    have "result_all (\<lambda>s'. session_inv lib s' \<and> m_initSimMsgSent s') (gym_act lib r s2)"
      if c: "collect_state lib s = Some (m, s1)" and x: "gym_exchange (serialize_state lib m) s1 = Some (r, s2)" for m s1 r s2
    proof -
      have "session_inv lib s' \<and> m_initSimMsgSent s'" if "io s' = io s2 \<and> m_initSimMsgSent s' = m_initSimMsgSent s2" for s'
        using s that gym_exchange_Some(1,2,3) [OF x] collect_state_Some(1,2) [OF c]
          session_shape_append [of lib "io s" m r] by (auto simp: session_inv_def)
      then show ?thesis using gym_act_io [of s2 lib r] by (cases "gym_act lib r s2") auto
    qed
    then show ?thesis using s by (auto split: option.splits)
  qed
  have "result_all (\<lambda>s'. session_inv lib s' \<and> m_initSimMsgSent s') (if \<not> m_initSimMsgSent s then gym_Init lib s else Running s)"
    using gym_Init_inv [OF assms] assms by simp
  from result_all_then [OF this body]
  have "result_all (\<lambda>s'. session_inv lib s' \<and> m_initSimMsgSent s') (gym_NotifyCurrentState lib s)"
    by (simp add: gym_NotifyCurrentState_def)
  then show ?thesis by (cases "gym_NotifyCurrentState lib s") auto
qed

lemma gym_do_inv: "session_inv lib s \<Longrightarrow> result_all (session_inv lib) (gym_do lib c s)"
proof (cases c)
  case CallInit
  assume "session_inv lib s"
  with CallInit gym_Init_inv [of lib s] show ?thesis by (cases "gym_Init lib s") auto
qed (auto simp: gym_Notify_def gym_NotifySimulationEnd_def gym_WaitForStop_def Let_def
    intro!: gym_NotifyCurrentState_inv)

lemma gym_session_inv: "session_inv lib s \<Longrightarrow> result_all (session_inv lib) (gym_session lib cs s)"
  by (induction cs arbitrary: s) (auto intro: result_all_then gym_do_inv)

text \<open>
  C17: In every session, whatever calls the simulation makes in whatever order, the description of
  the spaces is sent exactly once, as the first message; every later message is a state; every
  message fits the 1024-byte buffer and is followed by exactly one reply.
\<close>

theorem gym_session_messages:
  "result_all (\<lambda>s. session_shape lib (m_initSimMsgSent s) (io s)) (gym_session lib cs (gym_init cbs e rs))"
proof -
  have "session_inv lib (gym_init cbs e rs)" by (simp add: session_inv_def session_shape_def gym_init_def)
  from gym_session_inv [OF this] show ?thesis by (simp add: session_inv_def [abs_def])
qed

text \<open>
  The end of the simulation: when spaces were sent and the agent has not asked to stop,
  NotifySimulationEnd sends one last state that says the game is over because the simulation
  ended, waits for one reply, and executes no action: the environment is as the four getters left
  it.
\<close>

theorem gym_simulation_end:
  assumes "m_initSimMsgSent s" and "\<not> m_stopEnvRequested s" and "gym_NotifySimulationEnd lib s \<noteq> Stuck"
  shows "\<exists>m s1 r s'. gym_NotifySimulationEnd lib s = Running s' \<and> collect_state lib (s\<lparr>m_simEnd := True\<rparr>) = Some (m, s1) \<and>
    isGameOver m \<and> reason m = SimulationEnd \<and> io s' = io s @ [Sends (serialize_state lib m), Receives r] \<and> env s' = env s1"
proof -
  let ?s = "s\<lparr>m_simEnd := True\<rparr>"
  have n: "gym_NotifySimulationEnd lib s = (case collect_state lib ?s of None \<Rightarrow> Stuck
    | Some (m, s1) \<Rightarrow> (case gym_exchange (serialize_state lib m) s1 of None \<Rightarrow> Stuck | Some (r, s2) \<Rightarrow> gym_act lib r s2))"
    using assms(1,2) by (simp add: gym_NotifySimulationEnd_def gym_WaitForStop_def gym_NotifyCurrentState_def)
  then obtain m s1 where c: "collect_state lib ?s = Some (m, s1)" using assms(3) by (auto split: option.splits)
  then obtain r s2 where x: "gym_exchange (serialize_state lib m) s1 = Some (r, s2)"
    using assms(3) n by (auto split: option.splits)
  have "gym_NotifySimulationEnd lib s = Running s2"
    using n c x collect_state_Some(3) [OF c] gym_exchange_Some(4) [OF x] by (simp add: gym_act_def)
  with c collect_state_Some(1,5) [OF c] gym_exchange_Some(2,5) [OF x] show ?thesis by auto
qed

text \<open>
  C19: The action that the agent chose is the action that is executed: when the reply carries the
  message of a container \<open>c\<close> whose values fit it, NotifyCurrentState hands exactly the values of
  \<open>c\<close> to the action callback, on the environment as the getters left it.
\<close>

theorem gym_action_delivered:
  assumes "m_initSimMsgSent s" "\<not> m_stopEnvRequested s" "\<not> m_simEnd s"
    and lib: "\<forall>p. unpack lib (pack lib p) = Some p"
    and c: "container_ok c" "depth c \<le> nesting lib" "GetDataContainerPbMsg (to_float lib) (pack lib) c = Some pb"
    and reply: "replies s = r # rs" "parse_act lib r = \<lparr>actData = pb, act_stopSimReq = False\<rparr>"
    and cb: "m_actionCb (callbacks s) = Some act"
    and state: "collect_state lib s = Some (m, s1)" "replies s1 = replies s" "length (serialize_state lib m) \<le> MSG_BUFFER_SIZE"
  shows "\<exists>s'. gym_NotifyCurrentState lib s = Running s' \<and> env s' = snd (act (Some (arrived c)) (env s1)) \<and> replies s' = rs"
proof -
  define s2 where "s2 = s1\<lparr>io := io s1 @ [Sends (serialize_state lib m), Receives r], replies := rs\<rparr>"
  have x: "gym_exchange (serialize_state lib m) s1 = Some (r, s2)"
    using reply(1) state(2,3) by (simp add: gym_exchange_def s2_def)
  have d: "CreateFromDataContainerPbMsg (unpack lib) (nesting lib) pb = Some (Some (arrived c))"
    using round_trip_all [of "unpack lib" "pack lib" c "to_float lib"] lib c by (auto simp: round_trips_def)
  have f: "m_simEnd s2 = m_simEnd s" "callbacks s2 = callbacks s" "env s2 = env s1" "replies s2 = rs"
    using collect_state_Some(3,4) [OF state(1)] by (simp_all add: s2_def)
  have "gym_NotifyCurrentState lib s = gym_act lib r s2"
    using assms(1,2) state(1) x by (simp add: gym_NotifyCurrentState_def)
  also have "\<dots> = Running (s2\<lparr>env := snd (act (Some (arrived c)) (env s2))\<rparr>)"
    using assms(3) d f reply(2) cb by (simp add: gym_act_def ExecuteActions_def)
  finally show ?thesis using f by simp
qed

text \<open>The calls of the message interface that a session makes, and those of the agent.\<close>

definition cpp_calls :: "gym_io list \<Rightarrow> (u8 list, u8 list) cpp_call list" where
  "cpp_calls ms = map (\<lambda>x. case x of Sends m \<Rightarrow> CppSend (\<lambda>_. m) | Receives r \<Rightarrow> CppRecv) ms"

definition py_agent :: "(u8 list option list \<Rightarrow> u8 list) \<Rightarrow> nat \<Rightarrow> (u8 list, u8 list) py_call list" where
  "py_agent policy n = concat (replicate n [PyRecv, PySend policy])"

lemma state_exchanges_dual:
  "state_exchanges lib ms \<Longrightarrow> dual (cpp_calls ms) (py_agent policy (length ms div 2))"
  by (induction lib ms rule: state_exchanges.induct) (auto simp: cpp_calls_def py_agent_def)

lemma session_shape_dual:
  "session_shape lib b ms \<Longrightarrow> dual (cpp_calls ms) (py_agent policy (length ms div 2))"
  using state_exchanges_dual [of lib _ policy]
  by (auto simp: session_shape_def cpp_calls_def py_agent_def split: if_splits)

lemma cpp_calls_ok: "cpp_program_ok b (cpp_calls ms)"
proof -
  have "CppSetFinished \<notin> set (cpp_calls ms)" by (auto simp: cpp_calls_def split: gym_io.splits)
  then show ?thesis by (auto simp: cpp_program_ok_def dest: in_set_butlastD)
qed


section \<open>A concrete session\<close>

text \<open>For the witnesses: a library whose messages are single bytes and an environment that
  observes a counter and sets it to the discrete action it is given.\<close>

definition demo_lib :: "(int, int, any_tree, space_tree) gym_lib" where
  "demo_lib = \<lparr>to_float = id, float_zero = 0, pack = tree_pack, unpack = tree_unpack, space_pack = space_tree_pack,
     serialize_init = (\<lambda>m. [0]), serialize_state = (\<lambda>m. [if isGameOver m then 2 else 1]),
     parse_ack = (\<lambda>r. \<lparr>ack_done = True, ack_stopSimReq = False\<rparr>),
     parse_act = (\<lambda>r. \<lparr>actData = \<lparr>pb_type = Discrete, pb_data = AnyDiscrete 3, pb_name = []\<rparr>, act_stopSimReq = False\<rparr>),
     nesting = 5\<rparr>"

definition demo_act :: "(int, int) container option \<Rightarrow> nat \<Rightarrow> bool \<times> nat" where
  "demo_act c e = (case c of Some (DiscreteContainer n (Some v)) \<Rightarrow> (True, unat v) | _ \<Rightarrow> (False, e))"

definition demo_callbacks :: "(nat, int, int) gym_callbacks" where
  "demo_callbacks = \<lparr>m_actionSpaceCb = Some (\<lambda>e. (Some (DiscreteSpace 4), e)), m_observationSpaceCb = None,
     m_gameOverCb = None, m_obsCb = Some (\<lambda>e. (Some (DiscreteContainer 4 (Some (of_nat e))), e)),
     m_rewardCb = None, m_extraInfoCb = None, m_actionCb = Some demo_act\<rparr>"

definition demo_gym :: "(nat, int, int) OpenGymInterface" where
  "demo_gym = (gym_init demo_callbacks 0 [[9], [9]])\<lparr>m_initSimMsgSent := True\<rparr>"

lemma demo_gym_flags: "m_initSimMsgSent demo_gym" "\<not> m_stopEnvRequested demo_gym" "\<not> m_simEnd demo_gym"
  by (simp_all add: demo_gym_def gym_init_def)

lemma gym_simulation_end_witness:
  "\<exists>m r s'. gym_NotifySimulationEnd demo_lib demo_gym = Running s' \<and> isGameOver m \<and> reason m = SimulationEnd \<and>
     io s' = io demo_gym @ [Sends (serialize_state demo_lib m), Receives r]"
proof -
  have "gym_NotifySimulationEnd demo_lib demo_gym \<noteq> Stuck"
    by (simp add: gym_NotifySimulationEnd_def gym_WaitForStop_def gym_NotifyCurrentState_def demo_gym_def gym_init_def
        collect_state_def GetObservation_def GetReward_def IsGameOver_def GetExtraInfo_def demo_callbacks_def demo_lib_def
        gym_exchange_def MSG_BUFFER_SIZE_def gym_act_def)
  from gym_simulation_end [OF demo_gym_flags(1,2) this] show ?thesis by blast
qed

lemma gym_action_delivered_witness:
  "\<exists>s'. gym_NotifyCurrentState demo_lib demo_gym = Running s' \<and>
     env s' = snd (demo_act (Some (arrived (DiscreteContainer 4 (Some 3)))) 0) \<and> replies s' = [[9]]"
proof -
  define m where "m = fst (the (collect_state demo_lib demo_gym))"
  have c: "collect_state demo_lib demo_gym = Some (m, demo_gym)"
    by (simp add: m_def demo_gym_def gym_init_def collect_state_def GetObservation_def GetReward_def IsGameOver_def GetExtraInfo_def
        demo_callbacks_def demo_lib_def)
  have e: "env demo_gym = 0" by (simp add: demo_gym_def gym_init_def)
  show ?thesis
    using gym_action_delivered [OF demo_gym_flags, of demo_lib "DiscreteContainer 4 (Some 3)"
        "\<lparr>pb_type = Discrete, pb_data = AnyDiscrete 3, pb_name = []\<rparr>" "[9]" "[[9]]" demo_act m demo_gym] c e tree_unpack_pack
    by (simp add: demo_lib_def demo_gym_def gym_init_def demo_callbacks_def MSG_BUFFER_SIZE_def)
qed


end
