(* ===== verification/Packet_Buffer.thy ===== *)
theory Packet_Buffer
  imports Ns3_Prelude
begin

text \<open>
  src/network/model/buffer.cc: the byte buffer of a packet. The bytes lie in a reference-counted
  storage object \<open>Data\<close> that several buffers share; a buffer sees a part of it, with a virtual
  area of zero bytes, which has no storage, in the middle. A buffer may grow in place over storage
  that no other buffer sees (the dirty area of the storage tells), and copies the storage
  otherwise. Storage that is no longer used goes to a free list.

  The storage objects are in the store \<open>buf_heap\<close>, with the static variables of the class. A byte
  that was never written since its storage was allocated is None; an operation that fails an
  assertion, reads such a byte, or accesses memory outside its storage returns None. Offsets are
  natural numbers; where the code relies on a difference that can wrap around at 32 bits, the
  wrap-around is written out.
\<close>

section \<open>The store\<close>

record Data =
  m_count :: nat
  m_size :: nat
  m_dirtyStart :: nat
  m_dirtyEnd :: nat
  m_bytes :: "u8 option list"

text \<open>\<open>g_freeList\<close> is None until the first storage is created; \<open>next_addr\<close> is the next address
  that operator new returns.\<close>

record buf_heap =
  datas :: "addr \<Rightarrow> Data option"
  g_freeList :: "addr list option"
  g_maxSize :: nat
  g_recommendedStart :: nat
  next_addr :: addr

record Buffer =
  m_data :: addr
  m_maxZeroAreaStart :: nat
  m_zeroAreaStart :: nat
  m_zeroAreaEnd :: nat
  m_start :: nat
  m_end :: nat

definition set_data :: "addr \<Rightarrow> Data \<Rightarrow> buf_heap \<Rightarrow> buf_heap" where
  "set_data a d h = h\<lparr>datas := (datas h)(a \<mapsto> d)\<rparr>"

text \<open>memcpy and memset to and from a storage; of no bytes at all they access nothing.\<close>

definition splice :: "nat \<Rightarrow> 'a list \<Rightarrow> 'a list \<Rightarrow> 'a list" where
  "splice i ys xs = take i xs @ ys @ drop (i + length ys) xs"

definition mem_write :: "addr \<Rightarrow> nat \<Rightarrow> u8 option list \<Rightarrow> buf_heap \<Rightarrow> buf_heap option" where
  "mem_write a off bs h =
     do { d \<leftarrow> datas h a;
          if bs = [] then Some h
          else if off + length bs \<le> length (m_bytes d) then Some (set_data a (d\<lparr>m_bytes := splice off bs (m_bytes d)\<rparr>) h)
          else None }"

definition mem_read :: "addr \<Rightarrow> nat \<Rightarrow> nat \<Rightarrow> buf_heap \<Rightarrow> u8 option list option" where
  "mem_read a off n h =
     do { d \<leftarrow> datas h a;
          if n = 0 \<or> off + n \<le> length (m_bytes d) then Some (take n (drop off (m_bytes d))) else None }"

section \<open>Storage\<close>

definition ALLOC_OVER_PROVISION :: nat where
  "ALLOC_OVER_PROVISION = 100"

definition buf_Allocate :: "nat \<Rightarrow> buf_heap \<Rightarrow> addr \<times> buf_heap" where
  "buf_Allocate reqSize h =
     (let n = (if reqSize = 0 then 1 else reqSize) + ALLOC_OVER_PROVISION; a = next_addr h
      in (a, set_data a \<lparr>m_count = 1, m_size = n, m_dirtyStart = 0, m_dirtyEnd = 0, m_bytes = replicate n None\<rparr>
               (h\<lparr>next_addr := Suc a\<rparr>)))"

definition buf_Deallocate :: "addr \<Rightarrow> buf_heap \<Rightarrow> buf_heap option" where
  "buf_Deallocate a h =
     do { d \<leftarrow> datas h a; if m_count d = 0 then Some (h\<lparr>datas := (datas h)(a := None)\<rparr>) else None }"

definition buf_Recycle :: "addr \<Rightarrow> buf_heap \<Rightarrow> buf_heap option" where
  "buf_Recycle a h =
     do { d \<leftarrow> datas h a;
          if m_count d \<noteq> 0 then None
          else do { fl \<leftarrow> g_freeList h;
                    let h1 = h\<lparr>g_maxSize := max (g_maxSize h) (m_size d)\<rparr>;
                    if m_size d < g_maxSize h1 \<or> 1000 < length fl then buf_Deallocate a h1
                    else Some (h1\<lparr>g_freeList := Some (fl @ [a])\<rparr>) } }"

text \<open>The loop of Create, over the free list from its back.\<close>

fun buf_Create_loop :: "nat \<Rightarrow> addr list \<Rightarrow> buf_heap \<Rightarrow> (addr option \<times> buf_heap) option" where
  "buf_Create_loop dataSize [] h = Some (None, h\<lparr>g_freeList := Some []\<rparr>)"
| "buf_Create_loop dataSize (a # fl) h =
     do { d \<leftarrow> datas h a;
          if dataSize \<le> m_size d
          then Some (Some a, set_data a (d\<lparr>m_count := 1\<rparr>) (h\<lparr>g_freeList := Some (rev fl)\<rparr>))
          else do { h1 \<leftarrow> buf_Deallocate a h; buf_Create_loop dataSize fl h1 } }"

definition buf_Create :: "nat \<Rightarrow> buf_heap \<Rightarrow> (addr \<times> buf_heap) option" where
  "buf_Create dataSize h =
     do { (r, h1) \<leftarrow> (case g_freeList h of None \<Rightarrow> Some (None, h\<lparr>g_freeList := Some []\<rparr>)
                    | Some fl \<Rightarrow> buf_Create_loop dataSize (rev fl) h);
          Some (case r of Some a \<Rightarrow> (a, h1) | None \<Rightarrow> buf_Allocate dataSize h1) }"

section \<open>Constructors and destructor\<close>

definition buf_Initialize :: "nat \<Rightarrow> buf_heap \<Rightarrow> (Buffer \<times> buf_heap) option" where
  "buf_Initialize zeroSize h =
     do { (a, h1) \<leftarrow> buf_Create 0 h;
          d \<leftarrow> datas h1 a;
          let start = min (m_size d) (g_recommendedStart h1);
          Some (\<lparr>m_data = a, m_maxZeroAreaStart = start, m_zeroAreaStart = start, m_zeroAreaEnd = start + zeroSize,
                  m_start = start, m_end = start + zeroSize\<rparr>,
                set_data a (d\<lparr>m_dirtyStart := start, m_dirtyEnd := start + zeroSize\<rparr>) h1) }"

definition buf_copy :: "Buffer \<Rightarrow> buf_heap \<Rightarrow> (Buffer \<times> buf_heap) option" where
  "buf_copy b h =
     do { d \<leftarrow> datas h (m_data b);
          Some (b\<lparr>m_maxZeroAreaStart := m_zeroAreaStart b\<rparr>, set_data (m_data b) (d\<lparr>m_count := m_count d + 1\<rparr>) h) }"

text \<open>Giving up a reference to a storage; the code of the destructor and of operator=.\<close>

definition buf_release :: "addr \<Rightarrow> buf_heap \<Rightarrow> buf_heap option" where
  "buf_release a h =
     do { d \<leftarrow> datas h a;
          let h1 = set_data a (d\<lparr>m_count := m_count d - 1\<rparr>) h;
          if m_count d - 1 = 0 then buf_Recycle a h1 else Some h1 }"

definition buf_assign :: "Buffer \<Rightarrow> Buffer \<Rightarrow> buf_heap \<Rightarrow> (Buffer \<times> buf_heap) option" where
  "buf_assign b o' h =
     do { h1 \<leftarrow> (if m_data b \<noteq> m_data o'
                 then do { h1 \<leftarrow> buf_release (m_data b) h;
                           d \<leftarrow> datas h1 (m_data o');
                           Some (set_data (m_data o') (d\<lparr>m_count := m_count d + 1\<rparr>) h1) }
                 else Some h);
          Some (o', h1\<lparr>g_recommendedStart := max (g_recommendedStart h1) (m_maxZeroAreaStart b)\<rparr>) }"

definition buf_destroy :: "Buffer \<Rightarrow> buf_heap \<Rightarrow> buf_heap option" where
  "buf_destroy b h =
     buf_release (m_data b) (h\<lparr>g_recommendedStart := max (g_recommendedStart h) (m_maxZeroAreaStart b)\<rparr>)"

section \<open>Growing and shrinking\<close>

definition buf_GetSize :: "Buffer \<Rightarrow> nat" where
  "buf_GetSize b = m_end b - m_start b"

definition GetInternalSize :: "Buffer \<Rightarrow> nat" where
  "GetInternalSize b = m_zeroAreaStart b - m_start b + m_end b - m_zeroAreaEnd b"

definition GetInternalEnd :: "Buffer \<Rightarrow> nat" where
  "GetInternalEnd b = m_end b - (m_zeroAreaEnd b - m_zeroAreaStart b)"

text \<open>A new storage of \<open>newSize\<close> bytes with the bytes of the buffer from offset \<open>off\<close> on.\<close>

definition buf_move :: "nat \<Rightarrow> nat \<Rightarrow> Buffer \<Rightarrow> buf_heap \<Rightarrow> (addr \<times> buf_heap) option" where
  "buf_move newSize off b h =
     do { (a, h1) \<leftarrow> buf_Create newSize h;
          bs \<leftarrow> mem_read (m_data b) (m_start b) (GetInternalSize b) h1;
          h2 \<leftarrow> mem_write a off bs h1;
          h3 \<leftarrow> buf_release (m_data b) h2;
          Some (a, h3) }"

definition set_dirty :: "addr \<Rightarrow> nat \<Rightarrow> nat \<Rightarrow> buf_heap \<Rightarrow> buf_heap option" where
  "set_dirty a s e h = do { d \<leftarrow> datas h a; Some (set_data a (d\<lparr>m_dirtyStart := s, m_dirtyEnd := e\<rparr>) h) }"

definition buf_AddAtStart :: "nat \<Rightarrow> Buffer \<Rightarrow> buf_heap \<Rightarrow> (Buffer \<times> buf_heap) option" where
  "buf_AddAtStart start b h =
     do { d \<leftarrow> datas h (m_data b);
          let isDirty = (1 < m_count d \<and> m_dirtyStart d < m_start b);
          (b1, h1) \<leftarrow>
            (if start \<le> m_start b \<and> \<not> isDirty
             then if m_count d = 1 \<or> m_start b = m_dirtyStart d
                  then let b1 = b\<lparr>m_start := m_start b - start\<rparr>
                       in Some (b1, set_data (m_data b) (d\<lparr>m_dirtyStart := m_start b1\<rparr>) h)
                  else None
             else do { (a, h1) \<leftarrow> buf_move (GetInternalSize b + start) start b h;
                       let b1 = b\<lparr>m_data := a, m_zeroAreaStart := m_zeroAreaStart b + start - m_start b,
                                  m_zeroAreaEnd := m_zeroAreaEnd b + start - m_start b,
                                  m_end := m_end b + start - m_start b, m_start := 0\<rparr>;
                       h2 \<leftarrow> set_dirty a (m_start b1) (m_end b1) h1;
                       Some (b1, h2) });
          Some (b1\<lparr>m_maxZeroAreaStart := max (m_maxZeroAreaStart b1) (m_zeroAreaStart b1)\<rparr>, h1) }"

definition buf_AddAtEnd :: "nat \<Rightarrow> Buffer \<Rightarrow> buf_heap \<Rightarrow> (Buffer \<times> buf_heap) option" where
  "buf_AddAtEnd n b h =
     do { d \<leftarrow> datas h (m_data b);
          let isDirty = (1 < m_count d \<and> m_end b < m_dirtyEnd d);
          (b1, h1) \<leftarrow>
            (if GetInternalEnd b + n \<le> m_size d \<and> \<not> isDirty
             then if m_count d = 1 \<or> m_end b = m_dirtyEnd d
                  then let b1 = b\<lparr>m_end := m_end b + n\<rparr>
                       in Some (b1, set_data (m_data b) (d\<lparr>m_dirtyEnd := m_end b1\<rparr>) h)
                  else None
             else do { (a, h1) \<leftarrow> buf_move (GetInternalSize b + n) 0 b h;
                       let b1 = b\<lparr>m_data := a, m_zeroAreaStart := m_zeroAreaStart b - m_start b,
                                  m_zeroAreaEnd := m_zeroAreaEnd b - m_start b,
                                  m_end := m_end b - m_start b + n, m_start := 0\<rparr>;
                       h2 \<leftarrow> set_dirty a (m_start b1) (m_end b1) h1;
                       Some (b1, h2) });
          Some (b1\<lparr>m_maxZeroAreaStart := max (m_maxZeroAreaStart b1) (m_zeroAreaStart b1)\<rparr>, h1) }"

definition buf_RemoveAtStart :: "nat \<Rightarrow> Buffer \<Rightarrow> Buffer option" where
  "buf_RemoveAtStart start b =
     (let newStart = m_start b + start; zeroSize = m_zeroAreaEnd b - m_zeroAreaStart b in
      do { b1 \<leftarrow>
             (if newStart \<le> m_zeroAreaStart b then Some (b\<lparr>m_start := newStart\<rparr>)
              else if newStart \<le> m_zeroAreaEnd b then
                let delta = newStart - m_zeroAreaStart b
                in Some (b\<lparr>m_start := m_zeroAreaStart b, m_zeroAreaEnd := m_zeroAreaEnd b - delta, m_end := m_end b - delta\<rparr>)
              else if newStart \<le> m_end b then
                if start \<le> m_end b
                then Some (b\<lparr>m_start := newStart - zeroSize, m_end := m_end b - zeroSize,
                             m_zeroAreaStart := newStart - zeroSize, m_zeroAreaEnd := newStart - zeroSize\<rparr>)
                else None
              else let e = m_end b - zeroSize
                   in Some (b\<lparr>m_end := e, m_start := e, m_zeroAreaEnd := e, m_zeroAreaStart := e\<rparr>));
           Some (b1\<lparr>m_maxZeroAreaStart := max (m_maxZeroAreaStart b1) (m_zeroAreaStart b1)\<rparr>) })"

definition buf_RemoveAtEnd :: "nat \<Rightarrow> Buffer \<Rightarrow> Buffer" where
  "buf_RemoveAtEnd n b =
     (let newEnd = m_end b - min n (m_end b - m_start b);
          b1 = (if m_zeroAreaEnd b < newEnd then b\<lparr>m_end := newEnd\<rparr>
                else if m_zeroAreaStart b < newEnd then b\<lparr>m_end := newEnd, m_zeroAreaEnd := newEnd\<rparr>
                else if m_start b < newEnd then b\<lparr>m_end := newEnd, m_zeroAreaEnd := newEnd, m_zeroAreaStart := newEnd\<rparr>
                else b\<lparr>m_end := m_start b, m_zeroAreaEnd := m_start b, m_zeroAreaStart := m_start b\<rparr>)
      in b1\<lparr>m_maxZeroAreaStart := max (m_maxZeroAreaStart b1) (m_zeroAreaStart b1)\<rparr>)"

text \<open>Subtraction of unsigned 32-bit numbers.\<close>

definition sub32 :: "nat \<Rightarrow> nat \<Rightarrow> nat" where
  "sub32 x y = (x + 2 ^ 32 - y) mod 2 ^ 32"

definition buf_CreateFragment :: "nat \<Rightarrow> nat \<Rightarrow> Buffer \<Rightarrow> buf_heap \<Rightarrow> (Buffer \<times> buf_heap) option" where
  "buf_CreateFragment start len b h =
     do { (tmp, h1) \<leftarrow> buf_copy b h;
          tmp1 \<leftarrow> buf_RemoveAtStart start tmp;
          Some (buf_RemoveAtEnd (sub32 (buf_GetSize b) ((start + len) mod 2 ^ 32)) tmp1, h1) }"

end
