(* ===== verification/Buffer_Iterator.thy ===== *)
theory Buffer_Iterator
  imports Packet_Buffer
begin

unbundle bit_operations_syntax

text \<open>
  src/network/model/buffer.h and buffer.cc: the iterator through which headers write and read the
  bytes of a buffer, and the operations of the buffer that are built with it: the full copy, the
  concatenation of two buffers and the copy to a byte array.
\<close>

section \<open>The iterator\<close>

record Iterator =
  m_zeroStart :: nat
  m_zeroEnd :: nat
  m_dataStart :: nat
  m_dataEnd :: nat
  m_current :: nat
  it_data :: addr

definition buf_Begin :: "Buffer \<Rightarrow> Iterator" where
  "buf_Begin b = \<lparr>m_zeroStart = m_zeroAreaStart b, m_zeroEnd = m_zeroAreaEnd b, m_dataStart = m_start b,
     m_dataEnd = m_end b, m_current = m_start b, it_data = m_data b\<rparr>"

definition buf_End :: "Buffer \<Rightarrow> Iterator" where
  "buf_End b = (buf_Begin b)\<lparr>m_current := m_end b\<rparr>"

definition it_Next :: "nat \<Rightarrow> Iterator \<Rightarrow> Iterator option" where
  "it_Next delta it = (if m_current it + delta \<le> m_dataEnd it then Some (it\<lparr>m_current := m_current it + delta\<rparr>) else None)"

definition it_Prev :: "nat \<Rightarrow> Iterator \<Rightarrow> Iterator option" where
  "it_Prev delta it = (if delta \<le> m_current it then Some (it\<lparr>m_current := m_current it - delta\<rparr>) else None)"

definition it_GetDistanceFrom :: "Iterator \<Rightarrow> Iterator \<Rightarrow> nat option" where
  "it_GetDistanceFrom o' it =
     (if it_data it = it_data o' then Some (max (m_current it) (m_current o') - min (m_current it) (m_current o')) else None)"

definition it_IsEnd :: "Iterator \<Rightarrow> bool" where
  "it_IsEnd it \<longleftrightarrow> m_current it = m_dataEnd it"

definition it_IsStart :: "Iterator \<Rightarrow> bool" where
  "it_IsStart it \<longleftrightarrow> m_current it = m_dataStart it"

definition CheckNoZero :: "nat \<Rightarrow> nat \<Rightarrow> Iterator \<Rightarrow> bool" where
  "CheckNoZero start e it \<longleftrightarrow>
     \<not> (start < m_dataStart it \<or> m_dataEnd it < e \<or>
        (m_zeroStart it < e \<and> start < m_zeroEnd it \<and> m_zeroEnd it \<noteq> m_zeroStart it \<and> start \<noteq> e))"

definition Check :: "nat \<Rightarrow> Iterator \<Rightarrow> bool" where
  "Check i it \<longleftrightarrow> m_dataStart it \<le> i \<and> \<not> (m_zeroStart it \<le> i \<and> i < m_zeroEnd it) \<and> i \<le> m_dataEnd it"

definition zero_size :: "Iterator \<Rightarrow> nat" where
  "zero_size it = m_zeroEnd it - m_zeroStart it"

section \<open>Writing\<close>

type_synonym writer = "Iterator \<Rightarrow> buf_heap \<Rightarrow> (Iterator \<times> buf_heap) option"

text \<open>Writing bytes at an offset of the storage and advancing.\<close>

definition write_at :: "nat \<Rightarrow> u8 option list \<Rightarrow> writer" where
  "write_at off bs it h =
     do { h1 \<leftarrow> mem_write (it_data it) off bs h; Some (it\<lparr>m_current := m_current it + length bs\<rparr>, h1) }"

definition WriteU8 :: "u8 \<Rightarrow> writer" where
  "WriteU8 data it h =
     (if Check (m_current it) it
      then write_at (if m_current it < m_zeroStart it then m_current it else m_current it - zero_size it) [Some data] it h
      else None)"

definition WriteU8_n :: "u8 \<Rightarrow> nat \<Rightarrow> writer" where
  "WriteU8_n data len it h =
     (if CheckNoZero (m_current it) (m_current it + len) it
      then write_at (if m_current it \<le> m_zeroStart it then m_current it else m_current it - zero_size it)
             (replicate len (Some data)) it h
      else None)"

definition byte :: "nat \<Rightarrow> 'a :: len word \<Rightarrow> u8" where
  "byte k data = ucast (drop_bit k data AND 0xff)"

definition WriteHtonU16 :: "u16 \<Rightarrow> writer" where
  "WriteHtonU16 data it h =
     (if CheckNoZero (m_current it) (m_current it + 2) it
      then write_at (if m_current it + 2 \<le> m_zeroStart it then m_current it else m_current it - zero_size it)
             [Some (byte 8 data), Some (byte 0 data)] it h
      else None)"

definition WriteHtonU32 :: "u32 \<Rightarrow> writer" where
  "WriteHtonU32 data it h =
     (if CheckNoZero (m_current it) (m_current it + 4) it
      then write_at (if m_current it + 4 \<le> m_zeroStart it then m_current it else m_current it - zero_size it)
             [Some (byte 24 data), Some (byte 16 data), Some (byte 8 data), Some (byte 0 data)] it h
      else None)"

text \<open>The writers that call WriteU8 byte after byte.\<close>

fun WriteU8s :: "u8 list \<Rightarrow> writer" where
  "WriteU8s [] it h = Some (it, h)"
| "WriteU8s (b # bs) it h = do { (it1, h1) \<leftarrow> WriteU8 b it h; WriteU8s bs it1 h1 }"

definition WriteU16 :: "u16 \<Rightarrow> writer" where
  "WriteU16 data = WriteU8s [byte 0 data, byte 0 (drop_bit 8 data)]"

definition WriteU32 :: "u32 \<Rightarrow> writer" where
  "WriteU32 data = WriteU8s [byte 0 data, byte 0 (drop_bit 8 data), byte 0 (drop_bit 8 (drop_bit 8 data)),
     byte 0 (drop_bit 8 (drop_bit 8 (drop_bit 8 data)))]"

definition WriteU64 :: "u64 \<Rightarrow> writer" where
  "WriteU64 data = WriteU8s (map (\<lambda>k. byte 0 ((drop_bit 8 ^^ k) data)) [0..<8])"

definition WriteHtolsbU16 :: "u16 \<Rightarrow> writer" where
  "WriteHtolsbU16 data = WriteU8s [byte 0 data, byte 8 data]"

definition WriteHtolsbU32 :: "u32 \<Rightarrow> writer" where
  "WriteHtolsbU32 data = WriteU8s [byte 0 data, byte 8 data, byte 16 data, byte 24 data]"

definition WriteHtolsbU64 :: "u64 \<Rightarrow> writer" where
  "WriteHtolsbU64 data = WriteU8s [byte 0 data, byte 8 data, byte 16 data, byte 24 data,
     byte 32 data, byte 40 data, byte 48 data, byte 56 data]"

definition WriteHtonU64 :: "u64 \<Rightarrow> writer" where
  "WriteHtonU64 data = WriteU8s [byte 56 data, byte 48 data, byte 40 data, byte 32 data,
     byte 24 data, byte 16 data, byte 8 data, byte 0 data]"

text \<open>Write of a byte array. The assertion is the one of the code: its second argument is the size,
  not the end of the range that is written.\<close>

definition it_Write :: "u8 option list \<Rightarrow> writer" where
  "it_Write buffer it h =
     (if CheckNoZero (m_current it) (length buffer) it
      then write_at (if m_current it \<le> m_zeroStart it then m_current it else m_current it - zero_size it) buffer it h
      else None)"

text \<open>Write of the range between two iterators of another buffer, in its three parts: before, in
  and after the zero area of the source.\<close>

definition it_Write_range :: "Iterator \<Rightarrow> Iterator \<Rightarrow> writer" where
  "it_Write_range start e it h =
     (if it_data start = it_data e \<and> m_current start \<le> m_current e \<and> m_zeroStart start = m_zeroStart e \<and>
         m_zeroEnd start = m_zeroEnd e \<and> it_data it \<noteq> it_data start \<and>
         CheckNoZero (m_current it) (m_current it + (m_current e - m_current start)) it
      then
        do { let size0 = m_current e - m_current start;
             let n1 = (if m_current start \<le> m_zeroStart start then min size0 (m_zeroStart start - m_current start) else 0);
             bs1 \<leftarrow> mem_read (it_data start) (m_current start) n1 h;
             (it1, h1) \<leftarrow> write_at (m_current it) bs1 it h;
             let c1 = m_current start + n1; let size1 = size0 - n1;
             let n2 = (if c1 \<le> m_zeroEnd start then min size1 (m_zeroEnd start - c1) else 0);
             (it2, h2) \<leftarrow> write_at (m_current it1) (replicate n2 (Some 0)) it1 h1;
             let c2 = c1 + n2; let size2 = size1 - n2;
             let n3 = min size2 (m_dataEnd start - c2);
             bs3 \<leftarrow> mem_read (it_data start) (c2 - zero_size start) n3 h2;
             write_at (m_current it2) bs3 it2 h2 }
      else None)"

section \<open>Reading\<close>

definition PeekU8 :: "Iterator \<Rightarrow> buf_heap \<Rightarrow> u8 option" where
  "PeekU8 it h =
     (if m_dataStart it \<le> m_current it \<and> m_current it < m_dataEnd it
      then if m_current it < m_zeroStart it then do { bs \<leftarrow> mem_read (it_data it) (m_current it) 1 h; hd bs }
           else if m_current it < m_zeroEnd it then Some 0
           else do { bs \<leftarrow> mem_read (it_data it) (m_current it - zero_size it) 1 h; hd bs }
      else None)"

definition ReadU8 :: "Iterator \<Rightarrow> buf_heap \<Rightarrow> (u8 \<times> Iterator) option" where
  "ReadU8 it h = do { v \<leftarrow> PeekU8 it h; Some (v, it\<lparr>m_current := m_current it + 1\<rparr>) }"

fun it_Read :: "nat \<Rightarrow> Iterator \<Rightarrow> buf_heap \<Rightarrow> (u8 list \<times> Iterator) option" where
  "it_Read 0 it h = Some ([], it)"
| "it_Read (Suc n) it h =
     do { (v, it1) \<leftarrow> ReadU8 it h; (vs, it2) \<leftarrow> it_Read n it1 h; Some (v # vs, it2) }"

text \<open>\<open>data <<= 8; data |= byte\<close>, from the most significant byte on.\<close>

definition join_byte :: "'a :: len word \<Rightarrow> u8 \<Rightarrow> 'a word" where
  "join_byte data b = push_bit 8 data OR ucast b"

definition ReadU16 :: "Iterator \<Rightarrow> buf_heap \<Rightarrow> (u16 \<times> Iterator) option" where
  "ReadU16 it h =
     do { (byte0, it) \<leftarrow> ReadU8 it h; (byte1, it) \<leftarrow> ReadU8 it h; Some (join_byte (ucast byte1) byte0, it) }"

definition ReadU32 :: "Iterator \<Rightarrow> buf_heap \<Rightarrow> (u32 \<times> Iterator) option" where
  "ReadU32 it h =
     do { (byte0, it) \<leftarrow> ReadU8 it h; (byte1, it) \<leftarrow> ReadU8 it h; (byte2, it) \<leftarrow> ReadU8 it h; (byte3, it) \<leftarrow> ReadU8 it h;
          Some (join_byte (join_byte (join_byte (ucast byte3) byte2) byte1) byte0, it) }"

definition ReadU64 :: "Iterator \<Rightarrow> buf_heap \<Rightarrow> (u64 \<times> Iterator) option" where
  "ReadU64 it h =
     do { (byte0, it) \<leftarrow> ReadU8 it h; (byte1, it) \<leftarrow> ReadU8 it h; (byte2, it) \<leftarrow> ReadU8 it h; (byte3, it) \<leftarrow> ReadU8 it h;
          (byte4, it) \<leftarrow> ReadU8 it h; (byte5, it) \<leftarrow> ReadU8 it h; (byte6, it) \<leftarrow> ReadU8 it h; (byte7, it) \<leftarrow> ReadU8 it h;
          Some (join_byte (join_byte (join_byte (join_byte (join_byte (join_byte (join_byte
            (ucast byte7) byte6) byte5) byte4) byte3) byte2) byte1) byte0, it) }"

text \<open>The Lsbtoh readers have the bodies of the readers above, in full.\<close>

definition ReadLsbtohU16 :: "Iterator \<Rightarrow> buf_heap \<Rightarrow> (u16 \<times> Iterator) option" where
  "ReadLsbtohU16 = ReadU16"

definition ReadLsbtohU32 :: "Iterator \<Rightarrow> buf_heap \<Rightarrow> (u32 \<times> Iterator) option" where
  "ReadLsbtohU32 = ReadU32"

definition ReadLsbtohU64 :: "Iterator \<Rightarrow> buf_heap \<Rightarrow> (u64 \<times> Iterator) option" where
  "ReadLsbtohU64 = ReadU64"

fun join_bytes :: "nat \<Rightarrow> 'a :: len word \<Rightarrow> Iterator \<Rightarrow> buf_heap \<Rightarrow> ('a word \<times> Iterator) option" where
  "join_bytes 0 retval it h = Some (retval, it)"
| "join_bytes (Suc n) retval it h = do { (b, it) \<leftarrow> ReadU8 it h; join_bytes n (join_byte retval b) it h }"

definition SlowReadNtohU16 :: "Iterator \<Rightarrow> buf_heap \<Rightarrow> (u16 \<times> Iterator) option" where
  "SlowReadNtohU16 = join_bytes 2 0"

definition SlowReadNtohU32 :: "Iterator \<Rightarrow> buf_heap \<Rightarrow> (u32 \<times> Iterator) option" where
  "SlowReadNtohU32 = join_bytes 4 0"

definition ReadNtohU64 :: "Iterator \<Rightarrow> buf_heap \<Rightarrow> (u64 \<times> Iterator) option" where
  "ReadNtohU64 = join_bytes 8 0"

text \<open>The fast paths read the storage directly.\<close>

definition read_at :: "nat \<Rightarrow> nat \<Rightarrow> Iterator \<Rightarrow> buf_heap \<Rightarrow> (u8 list \<times> Iterator) option" where
  "read_at off n it h =
     do { bs \<leftarrow> mem_read (it_data it) off n h; vs \<leftarrow> those bs; Some (vs, it\<lparr>m_current := m_current it + n\<rparr>) }"

definition ReadNtohU16 :: "Iterator \<Rightarrow> buf_heap \<Rightarrow> (u16 \<times> Iterator) option" where
  "ReadNtohU16 it h =
     (if m_current it + 2 \<le> m_zeroStart it
      then do { (vs, it1) \<leftarrow> read_at (m_current it) 2 it h; Some (foldl join_byte 0 vs, it1) }
      else if m_zeroEnd it \<le> m_current it
      then do { (vs, it1) \<leftarrow> read_at (m_current it - zero_size it) 2 it h; Some (foldl join_byte 0 vs, it1) }
      else SlowReadNtohU16 it h)"

definition ReadNtohU32 :: "Iterator \<Rightarrow> buf_heap \<Rightarrow> (u32 \<times> Iterator) option" where
  "ReadNtohU32 it h =
     (if m_current it + 4 \<le> m_zeroStart it
      then do { (vs, it1) \<leftarrow> read_at (m_current it) 4 it h; Some (foldl join_byte 0 vs, it1) }
      else if m_zeroEnd it \<le> m_current it
      then do { (vs, it1) \<leftarrow> read_at (m_current it - zero_size it) 4 it h; Some (foldl join_byte 0 vs, it1) }
      else SlowReadNtohU32 it h)"

text \<open>CalculateIpChecksum: the sum of the 16-bit words, in host order, and its folding to 16 bits.\<close>

fun sum_words :: "nat \<Rightarrow> u32 \<Rightarrow> Iterator \<Rightarrow> buf_heap \<Rightarrow> (u32 \<times> Iterator) option" where
  "sum_words 0 s it h = Some (s, it)"
| "sum_words (Suc n) s it h = do { (w, it) \<leftarrow> ReadU16 it h; sum_words n (s + ucast w) it h }"

definition fold_step :: "u32 \<Rightarrow> u32" where
  "fold_step s = (s AND 0xffff) + drop_bit 16 s"

lemma low_half: "(s :: u32) AND 0xffff = s mod 65536"
  using take_bit_eq_mask [of 16 s] by (simp add: mask_eq_exp_minus_1 take_bit_eq_mod)

lemma high_half: "drop_bit 16 (s :: u32) = s div 65536"
  by (simp add: drop_bit_eq_div)

lemma unat_fold_step: "unat (fold_step s) = unat s mod 65536 + unat s div 65536"
proof -
  have "unat s < 4294967296" using unsigned_less [of s] by simp
  then have "unat s div 65536 < 65536" by (simp add: div_less_iff_less_mult)
  moreover have "unat s mod 65536 < 65536" by simp
  ultimately have "unat s mod 65536 + unat s div 65536 < 4294967296" by linarith
  then show ?thesis
    by (simp only: fold_step_def low_half high_half, subst unat_plus_simple) (simp_all add: unat_div_distrib unat_mod_distrib)
qed

lemma fold_step_less:
  assumes "drop_bit 16 s \<noteq> 0"
  shows "unat (fold_step s) < unat s"
proof -
  have "unat (s div 65536) \<noteq> 0" using assms by (simp add: high_half unat_eq_zero)
  then have "unat s div 65536 \<noteq> 0" by (simp add: unat_div_distrib)
  then have "0 < unat s div 65536" by simp
  then show ?thesis unfolding unat_fold_step using div_mult_mod_eq [of "unat s" 65536] by linarith
qed

function fold_sum :: "u32 \<Rightarrow> u32" where
  "fold_sum s = (if drop_bit 16 s \<noteq> 0 then fold_sum (fold_step s) else s)"
  by auto

termination by (relation "measure unat") (auto simp: fold_step_less)

definition CalculateIpChecksum :: "u16 \<Rightarrow> u32 \<Rightarrow> Iterator \<Rightarrow> buf_heap \<Rightarrow> (u16 \<times> Iterator) option" where
  "CalculateIpChecksum sz initialChecksum it h =
     do { (s, it1) \<leftarrow> sum_words (unat sz div 2) initialChecksum it h;
          (s, it2) \<leftarrow> (if sz AND 1 \<noteq> 0 then do { (b, it2) \<leftarrow> ReadU8 it1 h; Some (s + ucast b, it2) } else Some (s, it1));
          Some (NOT (ucast (fold_sum s)), it2) }"

section \<open>Copies and concatenation\<close>

definition buf_CreateFullCopy :: "Buffer \<Rightarrow> buf_heap \<Rightarrow> (Buffer \<times> buf_heap) option" where
  "buf_CreateFullCopy b h =
     (if m_zeroAreaEnd b - m_zeroAreaStart b \<noteq> 0 then
        do { (tmp, h) \<leftarrow> buf_Initialize 0 h;
             let zeros = m_zeroAreaEnd b - m_zeroAreaStart b;
             (tmp, h) \<leftarrow> buf_AddAtStart zeros tmp h;
             (_, h) \<leftarrow> WriteU8_n 0 zeros (buf_Begin tmp) h;
             let dataStart = m_zeroAreaStart b - m_start b;
             (tmp, h) \<leftarrow> buf_AddAtStart dataStart tmp h;
             front \<leftarrow> mem_read (m_data b) (m_start b) dataStart h;
             (_, h) \<leftarrow> it_Write front (buf_Begin tmp) h;
             let dataEnd = m_end b - m_zeroAreaEnd b;
             (tmp, h) \<leftarrow> buf_AddAtEnd dataEnd tmp h;
             i \<leftarrow> it_Prev dataEnd (buf_End tmp);
             back \<leftarrow> mem_read (m_data b) (m_zeroAreaStart b) dataEnd h;
             (_, h) \<leftarrow> it_Write back i h;
             Some (tmp, h) }
      else buf_copy b h)"

text \<open>The path for two buffers with adjacent zero areas.\<close>

definition extend_zeros :: "nat \<Rightarrow> Buffer \<Rightarrow> Buffer" where
  "extend_zeros zeroSize b =
     (let b = (if m_zeroAreaStart b = m_zeroAreaEnd b then b\<lparr>m_zeroAreaStart := m_end b\<rparr> else b)
      in b\<lparr>m_zeroAreaEnd := m_end b + zeroSize, m_end := m_end b + zeroSize\<rparr>)"

definition buf_AddAtEnd_adjacent :: "Buffer \<Rightarrow> Buffer \<Rightarrow> Data \<Rightarrow> buf_heap \<Rightarrow> (Buffer \<times> buf_heap) option" where
  "buf_AddAtEnd_adjacent o' b d h =
     do { let zeroSize = m_zeroAreaEnd o' - m_zeroAreaStart o';
          let b = extend_zeros zeroSize b;
          let h = set_data (m_data b) (d\<lparr>m_dirtyEnd := m_zeroAreaEnd b\<rparr>) h;
          let endData = m_end o' - m_zeroAreaEnd o';
          (b, h) \<leftarrow> buf_AddAtEnd endData b h;
          dst \<leftarrow> it_Prev endData (buf_End b);
          src \<leftarrow> it_Prev endData (buf_End o');
          (_, h) \<leftarrow> it_Write_range src (buf_End o') dst h;
          Some (b, h) }"

definition buf_AddAtEnd_buffer :: "Buffer \<Rightarrow> Buffer \<Rightarrow> buf_heap \<Rightarrow> (Buffer \<times> buf_heap) option" where
  "buf_AddAtEnd_buffer o' b h =
     do { d \<leftarrow> datas h (m_data b);
          if m_count d = 1 \<and> (m_end b = m_zeroAreaEnd b \<or> m_zeroAreaStart b = m_zeroAreaEnd b) \<and>
             m_end b = m_dirtyEnd d \<and> m_start o' = m_zeroAreaStart o' \<and> 0 < m_zeroAreaEnd o' - m_zeroAreaStart o'
          then buf_AddAtEnd_adjacent o' b d h
          else
            do { (tmp, h) \<leftarrow> buf_CreateFullCopy b h;
                 (b, h) \<leftarrow> buf_assign b tmp h;
                 h \<leftarrow> buf_destroy tmp h;
                 (b, h) \<leftarrow> buf_AddAtEnd (buf_GetSize o') b h;
                 destStart \<leftarrow> it_Prev (buf_GetSize o') (buf_End b);
                 (_, h) \<leftarrow> it_Write_range (buf_Begin o') (buf_End o') destStart h;
                 Some (b, h) } }"

text \<open>CopyData to an array of \<open>size\<close> bytes: the bytes copied. The zero area is copied from an array
  of 1000 zeros.\<close>

function copy_zeroes :: "nat \<Rightarrow> u8 option list" where
  "copy_zeroes left = (if 0 < left then replicate (min left 1000) (Some 0) @ copy_zeroes (left - min left 1000) else [])"
  by auto
termination by (relation "measure id") auto

definition buf_CopyData :: "nat \<Rightarrow> Buffer \<Rightarrow> buf_heap \<Rightarrow> u8 option list option" where
  "buf_CopyData sz b h =
     (if 0 < sz then
        do { let n1 = min (m_zeroAreaStart b - m_start b) sz;
             bs1 \<leftarrow> mem_read (m_data b) (m_start b) n1 h;
             if 0 < sz - n1 then
               do { let n2 = min (m_zeroAreaEnd b - m_zeroAreaStart b) (sz - n1);
                    let bs2 = copy_zeroes n2;
                    if 0 < sz - n1 - n2 then
                      do { bs3 \<leftarrow> mem_read (m_data b) (m_zeroAreaStart b) (min (m_end b - m_zeroAreaEnd b) (sz - n1 - n2)) h;
                           Some (bs1 @ bs2 @ bs3) }
                    else Some (bs1 @ bs2) }
             else Some bs1 }
      else Some [])"

text \<open>PeekData makes the buffer real and returns a pointer to its first byte: here the bytes that
  can be read through it.\<close>

definition buf_PeekData :: "Buffer \<Rightarrow> buf_heap \<Rightarrow> (u8 option list \<times> Buffer \<times> buf_heap) option" where
  "buf_PeekData b h =
     do { (tmp, h) \<leftarrow> buf_CreateFullCopy b h;
          (b, h) \<leftarrow> buf_assign b tmp h;
          h \<leftarrow> buf_destroy tmp h;
          bs \<leftarrow> mem_read (m_data b) (m_start b) (buf_GetSize b) h;
          Some (bs, b, h) }"

end
