(* ===== verification/Buffer_Correct.thy ===== *)
theory Buffer_Correct
  imports Packet_Buffer
begin

text \<open>
  The contract of the byte buffer. The content of a buffer is the list of its bytes, the virtual
  zeros included. \<open>buf_inv h B\<close> is the invariant of a store with the live buffers \<open>B\<close>: reference
  counts are right, every buffer lies inside its storage and inside the dirty area of it. Each
  operation on one buffer changes its content as the list operation does, and leaves the content
  of every other buffer alone, however the storage is shared.
\<close>

section \<open>Content and invariant\<close>

definition zsize :: "Buffer \<Rightarrow> nat" where
  "zsize b = m_zeroAreaEnd b - m_zeroAreaStart b"

definition offsets_ok :: "Buffer \<Rightarrow> bool" where
  "offsets_ok b \<longleftrightarrow> m_start b \<le> m_zeroAreaStart b \<and> m_zeroAreaStart b \<le> m_zeroAreaEnd b \<and> m_zeroAreaEnd b \<le> m_end b"

definition byte_at :: "u8 option list \<Rightarrow> Buffer \<Rightarrow> nat \<Rightarrow> u8 option" where
  "byte_at bs b i =
     (if m_start b + i < m_zeroAreaStart b then bs ! (m_start b + i)
      else if m_start b + i < m_zeroAreaEnd b then Some 0
      else bs ! (m_start b + i - zsize b))"

definition bytes_of :: "u8 option list \<Rightarrow> Buffer \<Rightarrow> u8 option list" where
  "bytes_of bs b = map (byte_at bs b) [0..<buf_GetSize b]"

definition content :: "buf_heap \<Rightarrow> Buffer \<Rightarrow> u8 option list" where
  "content h b = (case datas h (m_data b) of None \<Rightarrow> [] | Some d \<Rightarrow> bytes_of (m_bytes d) b)"

text \<open>\<open>R\<close> are the references to storage objects, with multiplicity.\<close>

definition store_ok :: "buf_heap \<Rightarrow> addr multiset \<Rightarrow> bool" where
  "store_ok h R \<longleftrightarrow>
     (\<forall>a d. datas h a = Some d \<longrightarrow> length (m_bytes d) = m_size d \<and> m_count d = count R a \<and> a < next_addr h) \<and>
     (\<forall>a \<in># R. datas h a \<noteq> None) \<and>
     (case g_freeList h of None \<Rightarrow> R = {#}
      | Some fl \<Rightarrow> distinct fl \<and> (\<forall>a \<in> set fl. datas h a \<noteq> None \<and> a \<notin># R))"

definition seen :: "Data \<Rightarrow> Buffer \<Rightarrow> bool" where
  "seen d b \<longleftrightarrow> offsets_ok b \<and> m_dirtyStart d \<le> m_start b \<and> GetInternalEnd b \<le> m_size d"

definition buffers_ok :: "buf_heap \<Rightarrow> Buffer multiset \<Rightarrow> bool" where
  "buffers_ok h B \<longleftrightarrow> (\<forall>b \<in># B. \<exists>d. datas h (m_data b) = Some d \<and> seen d b)"

text \<open>The buffers that share a storage: those with a larger zero area end earlier in the storage,
  relative to the end of the dirty area, so that only a buffer that ends last may grow in place.\<close>

definition sharing :: "Buffer multiset \<Rightarrow> addr \<Rightarrow> nat \<Rightarrow> nat \<Rightarrow> bool" where
  "sharing B a dirtyEnd Z \<longleftrightarrow> (\<forall>b \<in># B. m_data b = a \<longrightarrow> zsize b \<le> Z \<and> GetInternalEnd b + Z \<le> dirtyEnd)"

definition shared_ok :: "buf_heap \<Rightarrow> Buffer multiset \<Rightarrow> bool" where
  "shared_ok h B \<longleftrightarrow> (\<forall>a d. datas h a = Some d \<longrightarrow> (\<exists>Z. sharing B a (m_dirtyEnd d) Z))"

definition buf_inv :: "buf_heap \<Rightarrow> Buffer multiset \<Rightarrow> bool" where
  "buf_inv h B \<longleftrightarrow> store_ok h (image_mset m_data B) \<and> buffers_ok h B \<and> shared_ok h B"

definition buf_heap_init :: buf_heap where
  "buf_heap_init = \<lparr>datas = Map.empty, g_freeList = None, g_maxSize = 0, g_recommendedStart = 0, next_addr = 1\<rparr>"

lemma sharing_add [simp]:
  "sharing (add_mset b B) a e Z \<longleftrightarrow> (m_data b = a \<longrightarrow> zsize b \<le> Z \<and> GetInternalEnd b + Z \<le> e) \<and> sharing B a e Z"
  by (auto simp: sharing_def)

lemma sharing_sub: "sharing B a e Z \<Longrightarrow> set_mset B' \<subseteq> set_mset B \<Longrightarrow> sharing B' a e Z"
  by (auto simp: sharing_def)

lemma shared_ok_sub: "shared_ok h B \<Longrightarrow> set_mset B' \<subseteq> set_mset B \<Longrightarrow> shared_ok h B'"
  unfolding shared_ok_def using sharing_sub by metis

lemma sharing_unused: "a \<notin># image_mset m_data B \<Longrightarrow> sharing B a e Z"
  by (auto simp: sharing_def)

lemma buf_inv_init: "buf_inv buf_heap_init {#}"
  by (simp add: buf_inv_def store_ok_def buffers_ok_def shared_ok_def buf_heap_init_def)

subsection \<open>The store\<close>

lemma datas_set_data [simp]: "datas (set_data a d h) = (datas h)(a \<mapsto> d)"
  and freeList_set_data [simp]: "g_freeList (set_data a d h) = g_freeList h"
  and next_set_data [simp]: "next_addr (set_data a d h) = next_addr h"
  and rec_set_data [simp]: "g_recommendedStart (set_data a d h) = g_recommendedStart h"
  by (simp_all add: set_data_def)

lemma length_splice [simp]: "i + length ys \<le> length xs \<Longrightarrow> length (splice i ys xs) = length xs"
  by (simp add: splice_def)

lemma nth_splice:
  "i + length ys \<le> length xs \<Longrightarrow> j < length xs \<Longrightarrow>
   splice i ys xs ! j = (if i \<le> j \<and> j < i + length ys then ys ! (j - i) else xs ! j)"
  by (auto simp: splice_def nth_append min_def)

lemma splice_nil [simp]: "splice i [] xs = xs"
  by (simp add: splice_def)

lemma set_data_set_data [simp]: "set_data a d (set_data a e h) = set_data a d h"
  by (simp add: set_data_def)

lemma set_data_same: "datas h a = Some d \<Longrightarrow> set_data a d h = h"
  by (simp add: set_data_def map_upd_triv)

lemma mem_write_Some:
  "datas h a = Some d \<Longrightarrow> off + length bs \<le> length (m_bytes d) \<Longrightarrow>
   mem_write a off bs h = Some (set_data a (d\<lparr>m_bytes := splice off bs (m_bytes d)\<rparr>) h)"
  by (auto simp: mem_write_def set_data_same)

text \<open>Updating a storage without touching its reference count.\<close>

lemma store_ok_set_data:
  assumes "store_ok h R" and "datas h a = Some d" and "m_count d' = m_count d" and "length (m_bytes d') = m_size d'"
  shows "store_ok (set_data a d' h) R"
  using assms by (auto simp: store_ok_def split: option.splits)

lemma store_ok_count:
  assumes "store_ok h R" and "datas h a = Some d" and "a \<in># R"
  shows "store_ok (set_data a (d\<lparr>m_count := m_count d + 1\<rparr>) h) (add_mset a R)"
  using assms by (auto simp: store_ok_def split: option.splits)

lemma store_ok_globals [simp]:
  "store_ok (h\<lparr>g_recommendedStart := n\<rparr>) R = store_ok h R" "store_ok (h\<lparr>g_maxSize := n\<rparr>) R = store_ok h R"
  by (simp_all add: store_ok_def split: option.splits)

lemma Create_loop_ok:
  assumes "store_ok (h\<lparr>g_freeList := Some (rev fl)\<rparr>) R"
  shows "\<exists>r h1. buf_Create_loop n fl h = Some (r, h1) \<and> g_freeList h1 \<noteq> None \<and>
    (\<forall>a \<in># R. datas h1 a = datas h a) \<and>
    (case r of None \<Rightarrow> store_ok h1 R
     | Some a \<Rightarrow> a \<notin># R \<and> store_ok h1 (add_mset a R) \<and> (\<exists>d. datas h1 a = Some d \<and> n \<le> m_size d))"
  using assms
proof (induction fl arbitrary: h)
  case Nil
  then show ?case by auto
next
  case (Cons a fl)
  obtain d where d: "datas h a = Some d" using Cons.prems by (auto simp: store_ok_def)
  have a: "a \<notin># R" "a \<notin> set fl" using Cons.prems by (auto simp: store_ok_def)
  show ?case
  proof (cases "n \<le> m_size d")
    case True
    let ?h = "set_data a (d\<lparr>m_count := 1\<rparr>) (h\<lparr>g_freeList := Some (rev fl)\<rparr>)"
    have "store_ok ?h (add_mset a R)"
      using Cons.prems d a by (auto simp: store_ok_def not_in_iff)
    then show ?thesis using True d a by auto
  next
    case False
    let ?h = "h\<lparr>datas := (datas h)(a := None)\<rparr>"
    have c: "m_count d = 0" using Cons.prems d a by (auto simp: store_ok_def not_in_iff)
    have "store_ok (?h\<lparr>g_freeList := Some (rev fl)\<rparr>) R"
      using Cons.prems a by (auto simp: store_ok_def)
    from Cons.IH [OF this] obtain r h1 where r: "buf_Create_loop n fl ?h = Some (r, h1)" "g_freeList h1 \<noteq> None"
      "\<forall>a \<in># R. datas h1 a = datas ?h a"
      "case r of None \<Rightarrow> store_ok h1 R
       | Some a \<Rightarrow> a \<notin># R \<and> store_ok h1 (add_mset a R) \<and> (\<exists>d. datas h1 a = Some d \<and> n \<le> m_size d)" by blast
    have "buf_Create_loop n (a # fl) h = Some (r, h1)" using False d c r(1) by (simp add: buf_Deallocate_def)
    moreover have "\<forall>a \<in># R. datas h1 a = datas h a" using r(3) a by auto
    ultimately show ?thesis using r(2,4) by blast
  qed
qed

lemma Allocate_ok:
  assumes "store_ok h R" and "g_freeList h \<noteq> None" and "buf_Allocate n h = (a, h1)"
  shows "a \<notin># R" and "store_ok h1 (add_mset a R)" and "\<exists>d. datas h1 a = Some d \<and> n \<le> m_size d"
    and "g_freeList h1 \<noteq> None" and "\<forall>a' \<in># R. datas h1 a' = datas h a'"
proof -
  have a: "a = next_addr h" using assms(3) by (auto simp: buf_Allocate_def Let_def)
  have n: "datas h a = None" using assms(1) a by (cases "datas h a") (auto simp: store_ok_def)
  then show nr: "a \<notin># R" using assms(1) by (auto simp: store_ok_def)
  have h1: "datas h1 = (datas h)(a \<mapsto> the (datas h1 a))" "next_addr h1 = Suc a" "g_freeList h1 = g_freeList h"
    "\<exists>d. datas h1 a = Some d \<and> m_count d = 1 \<and> length (m_bytes d) = m_size d \<and> n \<le> m_size d"
    using assms(3) by (auto simp: buf_Allocate_def Let_def ALLOC_OVER_PROVISION_def)
  then show "\<exists>d. datas h1 a = Some d \<and> n \<le> m_size d" "g_freeList h1 \<noteq> None" using assms(2) by auto
  show "\<forall>a' \<in># R. datas h1 a' = datas h a'"
  proof
    fix a' assume "a' \<in># R"
    with nr have "a' \<noteq> a" by blast
    then show "datas h1 a' = datas h a'" by (subst h1(1)) simp
  qed
  obtain d where d: "datas h1 = (datas h)(a \<mapsto> d)" "m_count d = 1" "length (m_bytes d) = m_size d" using h1 by auto
  obtain fl where fl: "g_freeList h = Some fl" using assms(2) by auto
  show "store_ok h1 (add_mset a R)"
    using assms(1) n nr d h1(2,3) fl a by (auto simp: store_ok_def not_in_iff less_Suc_eq)
qed

lemma Create_ok:
  assumes "store_ok h R"
  shows "\<exists>a h1 d. buf_Create n h = Some (a, h1) \<and> a \<notin># R \<and> datas h1 a = Some d \<and> n \<le> m_size d \<and>
    store_ok h1 (add_mset a R) \<and> (\<forall>a' \<in># R. datas h1 a' = datas h a')"
proof -
  let ?p = "case g_freeList h of None \<Rightarrow> Some (None, h\<lparr>g_freeList := Some []\<rparr>) | Some fl \<Rightarrow> buf_Create_loop n (rev fl) h"
  have "\<exists>r h1. ?p = Some (r, h1) \<and> g_freeList h1 \<noteq> None \<and> (\<forall>a \<in># R. datas h1 a = datas h a) \<and>
    (case r of None \<Rightarrow> store_ok h1 R
     | Some a \<Rightarrow> a \<notin># R \<and> store_ok h1 (add_mset a R) \<and> (\<exists>d. datas h1 a = Some d \<and> n \<le> m_size d))"
  proof (cases "g_freeList h")
    case None
    then show ?thesis using assms by (auto simp: store_ok_def)
  next
    case (Some fl)
    then have "store_ok (h\<lparr>g_freeList := Some (rev (rev fl))\<rparr>) R" using assms by (simp add: store_ok_def)
    from Create_loop_ok [OF this] show ?thesis using Some by simp
  qed
  then obtain r h1 where r: "?p = Some (r, h1)" "g_freeList h1 \<noteq> None" "\<forall>a \<in># R. datas h1 a = datas h a"
    "case r of None \<Rightarrow> store_ok h1 R
     | Some a \<Rightarrow> a \<notin># R \<and> store_ok h1 (add_mset a R) \<and> (\<exists>d. datas h1 a = Some d \<and> n \<le> m_size d)" by blast
  show ?thesis
  proof (cases r)
    case None
    obtain a h2 where h2: "buf_Allocate n h1 = (a, h2)" by (cases "buf_Allocate n h1")
    have "store_ok h1 R" using r(4) None by simp
    from Allocate_ok [OF this r(2) h2] show ?thesis using r(1,3) None h2 by (auto simp: buf_Create_def)
  next
    case (Some a)
    then show ?thesis using r by (auto simp: buf_Create_def)
  qed
qed

text \<open>Two stores agree on a storage up to the reference count.\<close>

definition agree :: "buf_heap \<Rightarrow> buf_heap \<Rightarrow> addr \<Rightarrow> bool" where
  "agree h h' a \<longleftrightarrow> map_option (\<lambda>d. d\<lparr>m_count := 0\<rparr>) (datas h' a) = map_option (\<lambda>d. d\<lparr>m_count := 0\<rparr>) (datas h a)"

lemma agree_refl [simp]: "agree h h a"
  by (simp add: agree_def)

lemma agree_trans: "agree h h1 a \<Longrightarrow> agree h1 h2 a \<Longrightarrow> agree h h2 a"
  by (simp add: agree_def)

lemma agree_same: "datas h' a = datas h a \<Longrightarrow> agree h h' a"
  by (simp add: agree_def)

lemma agree_Some:
  assumes "agree h h' a" and "datas h a = Some d"
  shows "\<exists>n. datas h' a = Some (d\<lparr>m_count := n\<rparr>)"
proof -
  obtain d' where d': "datas h' a = Some d'" "d'\<lparr>m_count := 0\<rparr> = d\<lparr>m_count := 0\<rparr>" using assms by (auto simp: agree_def)
  have "d' = d\<lparr>m_count := m_count d'\<rparr>" using d'(2) by (cases d; cases d') simp
  then show ?thesis using d'(1) by metis
qed

lemma agree_content: "agree h h' (m_data b) \<Longrightarrow> content h' b = content h b"
  by (cases "datas h (m_data b)"; cases "datas h' (m_data b)")
     (auto simp: agree_def content_def dest: arg_cong [where f = m_bytes])

lemma agree_inv:
  assumes "\<forall>b \<in># B. agree h h' (m_data b)"
  shows "buffers_ok h B \<Longrightarrow> buffers_ok h' B" and "shared_ok h B \<Longrightarrow> buffers_ok h B \<Longrightarrow> shared_ok h' B"
proof -
  show "buffers_ok h B \<Longrightarrow> buffers_ok h' B"
    using assms by (fastforce simp: buffers_ok_def seen_def dest: agree_Some)
  assume s: "shared_ok h B" and bo: "buffers_ok h B"
  show "shared_ok h' B"
    unfolding shared_ok_def
  proof (intro allI impI)
    fix a d' assume d': "datas h' a = Some d'"
    show "\<exists>Z. sharing B a (m_dirtyEnd d') Z"
    proof (cases "a \<in># image_mset m_data B")
      case True
      then obtain b where b: "b \<in># B" "m_data b = a" by auto
      obtain d where d: "datas h a = Some d" using bo b by (auto simp: buffers_ok_def)
      have "agree h h' a" using assms b by auto
      from agree_Some [OF this d] have "m_dirtyEnd d' = m_dirtyEnd d" using d' by auto
      then show ?thesis using s d unfolding shared_ok_def by metis
    qed (use sharing_unused in blast)
  qed
qed

lemma Recycle_ok:
  assumes "store_ok h R" and "a \<notin># R" and "datas h a = Some d" and "g_freeList h = Some fl" and "a \<notin> set fl"
  shows "\<exists>h1. buf_Recycle a h = Some h1 \<and> store_ok h1 R \<and> (\<forall>a' \<in># R. datas h1 a' = datas h a')"
proof -
  have c: "m_count d = 0" using assms by (auto simp: store_ok_def not_in_iff)
  let ?h = "h\<lparr>g_maxSize := max (g_maxSize h) (m_size d)\<rparr>"
  have s1: "store_ok (?h\<lparr>datas := (datas h)(a := None)\<rparr>) R" using assms by (auto simp: store_ok_def)
  have s2: "store_ok (?h\<lparr>g_freeList := Some (fl @ [a])\<rparr>) R" using assms by (auto simp: store_ok_def)
  show ?thesis
    using s1 s2 assms c by (auto simp: buf_Recycle_def buf_Deallocate_def Let_def)
qed

lemma release_ok:
  assumes "store_ok h (add_mset a R)"
  shows "\<exists>h1. buf_release a h = Some h1 \<and> store_ok h1 R \<and> (\<forall>a' \<in># R. agree h h1 a')"
proof -
  obtain d fl where d: "datas h a = Some d" "m_count d = count R a + 1" "g_freeList h = Some fl" "a \<notin> set fl"
    using assms by (auto simp: store_ok_def split: option.splits)
  let ?h = "set_data a (d\<lparr>m_count := m_count d - 1\<rparr>) h"
  have s: "store_ok ?h R" using assms d by (auto simp: store_ok_def)
  have ag: "agree h ?h a'" for a' using d by (auto simp: agree_def)
  show ?thesis
  proof (cases "a \<in># R")
    case True
    then have "m_count d - 1 \<noteq> 0" using d(2) by simp
    then have "buf_release a h = Some ?h" using d(1) by (simp add: buf_release_def)
    then show ?thesis using s ag by auto
  next
    case False
    then have c: "m_count d - 1 = 0" using d(2) by (simp add: not_in_iff)
    obtain h1 where h1: "buf_Recycle a ?h = Some h1" "store_ok h1 R" "\<forall>a' \<in># R. datas h1 a' = datas ?h a'"
      using Recycle_ok [OF s False] d by fastforce
    have "buf_release a h = Some h1" using d(1) c h1(1) by (simp add: buf_release_def)
    moreover have "\<forall>a' \<in># R. agree h h1 a'" using h1(3) ag by (metis agree_same agree_trans)
    ultimately show ?thesis using h1(2) by blast
  qed
qed

subsection \<open>Changing one buffer\<close>

lemma offsets_ok_end: "offsets_ok b \<Longrightarrow> GetInternalEnd b + zsize b = m_end b"
  by (simp add: offsets_ok_def GetInternalEnd_def zsize_def)

lemma offsets_ok_size: "offsets_ok b \<Longrightarrow> m_start b + GetInternalSize b = GetInternalEnd b"
  by (simp add: offsets_ok_def GetInternalEnd_def GetInternalSize_def)

lemma content_maxZero [simp]: "content h (b\<lparr>m_maxZeroAreaStart := n\<rparr>) = content h b"
  by (simp add: content_def bytes_of_def byte_at_def [abs_def] buf_GetSize_def zsize_def split: option.splits)

lemma offsets_maxZero [simp]:
  "zsize (b\<lparr>m_maxZeroAreaStart := n\<rparr>) = zsize b" "GetInternalEnd (b\<lparr>m_maxZeroAreaStart := n\<rparr>) = GetInternalEnd b"
  "offsets_ok (b\<lparr>m_maxZeroAreaStart := n\<rparr>) = offsets_ok b" "seen d (b\<lparr>m_maxZeroAreaStart := n\<rparr>) = seen d b"
  "buf_GetSize (b\<lparr>m_maxZeroAreaStart := n\<rparr>) = buf_GetSize b"
  by (simp_all add: zsize_def GetInternalEnd_def offsets_ok_def seen_def buf_GetSize_def)

lemma buf_inv_maxZero [simp]: "buf_inv h (add_mset (b\<lparr>m_maxZeroAreaStart := n\<rparr>) B) = buf_inv h (add_mset b B)"
  by (simp add: buf_inv_def buffers_ok_def shared_ok_def)

lemma buf_invD:
  assumes "buf_inv h (add_mset b B)"
  shows "\<exists>d. datas h (m_data b) = Some d \<and> seen d b \<and> length (m_bytes d) = m_size d \<and>
    m_count d = count (image_mset m_data B) (m_data b) + 1 \<and> m_end b \<le> m_dirtyEnd d"
proof -
  obtain d where d: "datas h (m_data b) = Some d" "seen d b" using assms by (auto simp: buf_inv_def buffers_ok_def)
  then have "length (m_bytes d) = m_size d" "m_count d = count (image_mset m_data B) (m_data b) + 1"
    using assms by (auto simp: buf_inv_def store_ok_def)
  moreover obtain Z where "zsize b \<le> Z" "GetInternalEnd b + Z \<le> m_dirtyEnd d"
    using assms d(1) unfolding buf_inv_def shared_ok_def by (metis sharing_add)
  then have "m_end b \<le> m_dirtyEnd d" using offsets_ok_end [of b] d(2) by (simp add: seen_def)
  ultimately show ?thesis using d by blast
qed

lemma buf_inv_frame: "buf_inv h (add_mset b B) \<Longrightarrow> buffers_ok h B \<and> shared_ok h B"
  unfolding buf_inv_def buffers_ok_def shared_ok_def by (metis sharing_add union_single_eq_member insert_iff set_mset_add_mset_insert)

text \<open>A buffer on a storage that no other buffer uses.\<close>

lemma fresh_inv:
  assumes "store_ok h1 (add_mset (m_data b) (image_mset m_data B))" and "m_data b \<notin># image_mset m_data B"
    and "\<forall>c \<in># B. agree h h1 (m_data c)" and "buffers_ok h B" and "shared_ok h B"
    and "datas h1 (m_data b) = Some d" and "seen d b" and "m_end b \<le> m_dirtyEnd d"
  shows "buf_inv h1 (add_mset b B)"
proof -
  have "buffers_ok h1 B" "shared_ok h1 B" using agree_inv [OF assms(3)] assms(4,5) by auto
  moreover have "GetInternalEnd b + zsize b \<le> m_dirtyEnd d" using assms(7,8) offsets_ok_end [of b] by (simp add: seen_def)
  moreover have "shared_ok h1 (add_mset b B)"
    unfolding shared_ok_def
  proof (intro allI impI)
    fix a e assume e: "datas h1 a = Some e"
    show "\<exists>Z. sharing (add_mset b B) a (m_dirtyEnd e) Z"
    proof (cases "a = m_data b")
      case True
      then show ?thesis using e assms(2,6) calculation(3) sharing_unused by auto
    next
      case False
      then show ?thesis using e calculation(2) by (auto simp: shared_ok_def)
    qed
  qed
  ultimately show ?thesis using assms(1,6,7) by (auto simp: buf_inv_def buffers_ok_def)
qed

text \<open>A buffer that sees less of its storage than before.\<close>

lemma shrink_inv:
  assumes "buf_inv h (add_mset b B)" and "m_data b' = m_data b" and "offsets_ok b'" and "m_start b \<le> m_start b'"
    and "zsize b' \<le> zsize b" and "GetInternalEnd b' \<le> GetInternalEnd b"
  shows "buf_inv h (add_mset b' B)"
proof -
  have "buffers_ok h (add_mset b' B)" using assms by (fastforce simp: buf_inv_def buffers_ok_def seen_def)
  moreover have "shared_ok h (add_mset b' B)"
    unfolding shared_ok_def
  proof (intro allI impI)
    fix a d assume "datas h a = Some d"
    then obtain Z where Z: "sharing (add_mset b B) a (m_dirtyEnd d) Z"
      using assms(1) unfolding buf_inv_def shared_ok_def by blast
    then have "sharing (add_mset b' B) a (m_dirtyEnd d) Z" using assms(2,5,6) by auto
    then show "\<exists>Z. sharing (add_mset b' B) a (m_dirtyEnd d) Z" by blast
  qed
  ultimately show ?thesis using assms(1,2) by (simp add: buf_inv_def)
qed

text \<open>The bytes of the storage from \<open>off\<close> on, \<open>n\<close> of them, are not seen by the buffers \<open>B\<close>.\<close>

definition unseen :: "addr \<Rightarrow> nat \<Rightarrow> nat \<Rightarrow> Buffer multiset \<Rightarrow> bool" where
  "unseen a off n B \<longleftrightarrow> (\<forall>c \<in># B. m_data c = a \<longrightarrow> off + n \<le> m_start c \<or> GetInternalEnd c \<le> off)"

lemma count_one_unseen:
  assumes "buf_inv h (add_mset b B)" and "datas h (m_data b) = Some d" and "m_count d = 1"
  shows "\<forall>c \<in># B. m_data c \<noteq> m_data b"
proof -
  have "m_count d = count (image_mset m_data B) (m_data b) + 1" using buf_invD [OF assms(1)] assms(2) by auto
  then have "m_data b \<notin># image_mset m_data B" using assms(3) unfolding not_in_iff by simp
  then show ?thesis by (auto simp: image_iff)
qed

section \<open>Construction, copy and destruction\<close>

lemma bytes_of_zero: "m_start b = m_zeroAreaStart b \<Longrightarrow> m_zeroAreaEnd b = m_end b \<Longrightarrow> bytes_of bs b = replicate (buf_GetSize b) (Some 0)"
  by (rule nth_equalityI) (auto simp: bytes_of_def byte_at_def buf_GetSize_def)

lemma Initialize_ok:
  assumes "buf_inv h B"
  shows "\<exists>b h1. buf_Initialize n h = Some (b, h1) \<and> buf_inv h1 (add_mset b B) \<and>
    content h1 b = replicate n (Some 0) \<and> (\<forall>c \<in># B. content h1 c = content h c)"
proof -
  have s: "store_ok h (image_mset m_data B)" "buffers_ok h B" "shared_ok h B" using assms by (auto simp: buf_inv_def)
  obtain a h1 d where c: "buf_Create 0 h = Some (a, h1)" "a \<notin># image_mset m_data B" "datas h1 a = Some d"
    "store_ok h1 (add_mset a (image_mset m_data B))" "\<forall>a' \<in># image_mset m_data B. datas h1 a' = datas h a'"
    using Create_ok [OF s(1), of 0] by blast
  define st where "st = min (m_size d) (g_recommendedStart h1)"
  define b where "b = \<lparr>m_data = a, m_maxZeroAreaStart = st, m_zeroAreaStart = st, m_zeroAreaEnd = st + n, m_start = st, m_end = st + n\<rparr>"
  define h2 where "h2 = set_data a (d\<lparr>m_dirtyStart := st, m_dirtyEnd := st + n\<rparr>) h1"
  have I: "buf_Initialize n h = Some (b, h2)"
    using c(1,3) by (simp add: buf_Initialize_def st_def b_def h2_def Let_def)
  have ag: "\<forall>x \<in># B. agree h h2 (m_data x)" using c(2,5) by (auto simp: h2_def intro!: agree_same)
  have st2: "store_ok h2 (add_mset a (image_mset m_data B))"
    unfolding h2_def by (rule store_ok_set_data [OF c(4,3)]) (use c(3,4) in \<open>auto simp: store_ok_def\<close>)
  have "buf_inv h2 (add_mset b B)"
  proof (rule fresh_inv [OF _ _ ag s(2,3)])
    show "datas h2 (m_data b) = Some (d\<lparr>m_dirtyStart := st, m_dirtyEnd := st + n\<rparr>)" by (simp add: h2_def b_def)
    show "seen (d\<lparr>m_dirtyStart := st, m_dirtyEnd := st + n\<rparr>) b"
      by (simp add: seen_def offsets_ok_def GetInternalEnd_def b_def st_def)
  qed (use st2 c(2) in \<open>simp_all add: b_def\<close>)
  moreover have "content h2 b = replicate n (Some 0)"
    by (simp add: content_def h2_def b_def bytes_of_zero buf_GetSize_def)
  ultimately show ?thesis using I ag agree_content by blast
qed

lemma copy_ok:
  assumes "buf_inv h (add_mset b B)"
  shows "\<exists>b1 h1. buf_copy b h = Some (b1, h1) \<and> buf_inv h1 (add_mset b1 (add_mset b B)) \<and>
    content h1 b1 = content h b \<and> (\<forall>c \<in># add_mset b B. content h1 c = content h c)"
proof -
  obtain d where d: "datas h (m_data b) = Some d" using buf_invD [OF assms] by blast
  let ?h = "set_data (m_data b) (d\<lparr>m_count := m_count d + 1\<rparr>) h" and ?b = "b\<lparr>m_maxZeroAreaStart := m_zeroAreaStart b\<rparr>"
  have ag: "agree h ?h a" for a using d by (simp add: agree_def)
  have c: "buf_copy b h = Some (?b, ?h)" using d by (simp add: buf_copy_def)
  have "store_ok ?h (add_mset (m_data b) (image_mset m_data (add_mset b B)))"
    by (rule store_ok_count) (use assms d in \<open>auto simp: buf_inv_def\<close>)
  moreover have "buffers_ok ?h (add_mset b B)" "shared_ok ?h (add_mset b B)"
    using agree_inv [of "add_mset b B" h ?h] assms ag by (auto simp: buf_inv_def)
  then have "buffers_ok ?h (add_mset b (add_mset b B))" "shared_ok ?h (add_mset b (add_mset b B))"
    by (auto simp: buffers_ok_def shared_ok_def)
  ultimately have "buf_inv ?h (add_mset b (add_mset b B))" by (simp add: buf_inv_def)
  then have "buf_inv ?h (add_mset ?b (add_mset b B))" by simp
  then show ?thesis using c ag agree_content by auto
qed

lemma destroy_ok:
  assumes "buf_inv h (add_mset b B)"
  shows "\<exists>h1. buf_destroy b h = Some h1 \<and> buf_inv h1 B \<and> (\<forall>c \<in># B. content h1 c = content h c)"
proof -
  let ?h = "h\<lparr>g_recommendedStart := max (g_recommendedStart h) (m_maxZeroAreaStart b)\<rparr>"
  have "store_ok ?h (add_mset (m_data b) (image_mset m_data B))" using assms by (simp add: buf_inv_def)
  from release_ok [OF this] obtain h1 where h1: "buf_release (m_data b) ?h = Some h1"
    "store_ok h1 (image_mset m_data B)" "\<forall>a' \<in># image_mset m_data B. agree ?h h1 a'" by blast
  then have ag: "\<forall>c \<in># B. agree h h1 (m_data c)" by (simp add: agree_def)
  have "buf_inv h1 B" using h1(2) agree_inv [OF ag] buf_inv_frame [OF assms] by (simp add: buf_inv_def)
  then show ?thesis using h1(1) ag agree_content by (auto simp: buf_destroy_def)
qed

lemma assign_ok:
  assumes "buf_inv h (add_mset b (add_mset o' B))"
  shows "\<exists>h1. buf_assign b o' h = Some (o', h1) \<and> buf_inv h1 (add_mset o' (add_mset o' B)) \<and>
    (\<forall>c \<in># add_mset o' B. content h1 c = content h c)"
proof (cases "m_data b = m_data o'")
  case True
  let ?h = "h\<lparr>g_recommendedStart := max (g_recommendedStart h) (m_maxZeroAreaStart b)\<rparr>"
  have "shared_ok h (add_mset o' (add_mset o' B))"
    by (rule shared_ok_sub [of h "add_mset b (add_mset o' B)"]) (use assms in \<open>auto simp: buf_inv_def\<close>)
  then have "shared_ok ?h (add_mset o' (add_mset o' B))" by (simp add: shared_ok_def)
  then have "buf_inv ?h (add_mset o' (add_mset o' B))"
    using assms True by (auto simp: buf_inv_def buffers_ok_def)
  moreover have "buf_assign b o' h = Some (o', ?h)" using True by (simp add: buf_assign_def)
  ultimately show ?thesis by (simp add: content_def)
next
  case False
  have "store_ok h (add_mset (m_data b) (image_mset m_data (add_mset o' B)))" using assms by (simp add: buf_inv_def)
  from release_ok [OF this] obtain h1 where h1: "buf_release (m_data b) h = Some h1"
    "store_ok h1 (image_mset m_data (add_mset o' B))" "\<forall>a' \<in># image_mset m_data (add_mset o' B). agree h h1 a'" by blast
  then obtain d where d: "datas h1 (m_data o') = Some d" by (auto simp: store_ok_def)
  let ?h2 = "set_data (m_data o') (d\<lparr>m_count := m_count d + 1\<rparr>) h1"
  let ?h = "?h2\<lparr>g_recommendedStart := max (g_recommendedStart ?h2) (m_maxZeroAreaStart b)\<rparr>"
  have ag: "\<forall>c \<in># add_mset o' B. agree h ?h (m_data c)"
    using h1(3) d by (auto simp: agree_def)
  have "buf_assign b o' h = Some (o', ?h)" using False h1(1) d by (simp add: buf_assign_def)
  moreover have "store_ok ?h (add_mset (m_data o') (image_mset m_data (add_mset o' B)))"
    using store_ok_count [OF h1(2) d] by simp
  moreover have "buffers_ok ?h (add_mset o' B)" "shared_ok ?h (add_mset o' B)"
    using agree_inv [OF ag] buf_inv_frame [OF assms] by auto
  then have "buffers_ok ?h (add_mset o' (add_mset o' B))" "shared_ok ?h (add_mset o' (add_mset o' B))"
    by (auto simp: buffers_ok_def shared_ok_def)
  ultimately show ?thesis using ag agree_content by (fastforce simp: buf_inv_def)
qed

section \<open>Growing\<close>

text \<open>What a buffer sees of a storage from which its bytes were copied.\<close>

definition shifted :: "nat \<Rightarrow> addr \<Rightarrow> Buffer \<Rightarrow> Buffer" where
  "shifted off a b = b\<lparr>m_data := a, m_zeroAreaStart := m_zeroAreaStart b + off - m_start b,
     m_zeroAreaEnd := m_zeroAreaEnd b + off - m_start b, m_end := m_end b + off - m_start b, m_start := off\<rparr>"

lemma shifted_ok:
  assumes "offsets_ok b"
  shows "offsets_ok (shifted off a b)" "zsize (shifted off a b) = zsize b"
    "GetInternalEnd (shifted off a b) = off + GetInternalSize b" "buf_GetSize (shifted off a b) = buf_GetSize b"
  using assms by (auto simp: shifted_def offsets_ok_def zsize_def GetInternalEnd_def GetInternalSize_def buf_GetSize_def)

lemma bytes_of_shifted:
  assumes "offsets_ok b" and "GetInternalEnd b \<le> length xs" and "off + GetInternalSize b \<le> length ys"
    and "\<And>i. i < GetInternalSize b \<Longrightarrow> ys ! (off + i) = xs ! (m_start b + i)"
  shows "bytes_of ys (shifted off a b) = bytes_of xs b"
proof -
  have "byte_at ys (shifted off a b) i = byte_at xs b i" if i: "i < buf_GetSize b" for i
  proof -
    consider "m_start b + i < m_zeroAreaStart b" | "m_zeroAreaStart b \<le> m_start b + i" "m_start b + i < m_zeroAreaEnd b"
      | "m_zeroAreaEnd b \<le> m_start b + i" by linarith
    then show ?thesis
    proof cases
      case 1
      then have "i < GetInternalSize b" using assms(1) by (auto simp: offsets_ok_def GetInternalSize_def)
      then show ?thesis using 1 assms(1) assms(4) [of i] by (auto simp: byte_at_def shifted_def offsets_ok_def)
    next
      case 2
      then show ?thesis using assms(1) by (auto simp: byte_at_def shifted_def offsets_ok_def)
    next
      case 3
      have l: "i - zsize b < GetInternalSize b" "zsize b \<le> i"
        using 3 i assms(1) by (auto simp: offsets_ok_def GetInternalSize_def zsize_def buf_GetSize_def)
      then have "ys ! (off + (i - zsize b)) = xs ! (m_start b + (i - zsize b))" by (intro assms(4))
      then show ?thesis using 3 l assms(1) shifted_ok(2) [OF assms(1), of off a]
        by (simp add: byte_at_def) (auto simp: shifted_def offsets_ok_def)
    qed
  qed
  then show ?thesis using shifted_ok(4) [OF assms(1)] by (simp add: bytes_of_def)
qed

lemma move_ok:
  assumes "buf_inv h (add_mset b B)" and "off + GetInternalSize b \<le> n"
  shows "\<exists>a h1 d. buf_move n off b h = Some (a, h1) \<and> a \<notin># image_mset m_data B \<and>
    store_ok h1 (add_mset a (image_mset m_data B)) \<and> datas h1 a = Some d \<and> n \<le> m_size d \<and>
    bytes_of (m_bytes d) (shifted off a b) = content h b \<and> (\<forall>c \<in># B. agree h h1 (m_data c))"
proof -
  let ?R = "image_mset m_data B" and ?n = "GetInternalSize b"
  obtain d where d: "datas h (m_data b) = Some d" "seen d b" "length (m_bytes d) = m_size d" using buf_invD [OF assms(1)] by blast
  have s: "store_ok h (add_mset (m_data b) ?R)" using assms(1) by (simp add: buf_inv_def)
  obtain a h1 e where c: "buf_Create n h = Some (a, h1)" "a \<noteq> m_data b" "a \<notin># ?R" "datas h1 a = Some e" "n \<le> m_size e"
    "store_ok h1 (add_mset a (add_mset (m_data b) ?R))" "\<forall>a' \<in># add_mset (m_data b) ?R. datas h1 a' = datas h a'"
    using Create_ok [OF s, of n] by auto
  have le: "length (m_bytes e) = m_size e" using c(4,6) by (simp add: store_ok_def)
  define bs where "bs = take ?n (drop (m_start b) (m_bytes d))"
  have o: "offsets_ok b" using d(2) by (simp add: seen_def)
  have lb: "length bs = ?n" "m_start b + ?n \<le> length (m_bytes d)"
    using d(2,3) offsets_ok_size [OF o] by (auto simp: bs_def seen_def)
  have r: "mem_read (m_data b) (m_start b) ?n h1 = Some bs" using c(7) d(1) lb(2) by (simp add: mem_read_def bs_def)
  define e1 where "e1 = e\<lparr>m_bytes := splice off bs (m_bytes e)\<rparr>"
  define h2 where "h2 = set_data a e1 h1"
  have fit: "off + length bs \<le> length (m_bytes e)" using le lb(1) assms(2) c(5) by simp
  have w: "mem_write a off bs h1 = Some h2" using mem_write_Some [OF c(4) fit] by (simp add: h2_def e1_def)
  have "store_ok h2 (add_mset a (add_mset (m_data b) ?R))"
    unfolding h2_def by (rule store_ok_set_data [OF c(6,4)]) (use fit le in \<open>simp_all add: e1_def\<close>)
  then have "store_ok h2 (add_mset (m_data b) (add_mset a ?R))" by (simp add: add_mset_commute)
  from release_ok [OF this] obtain h3 where h3: "buf_release (m_data b) h2 = Some h3" "store_ok h3 (add_mset a ?R)"
    "\<forall>a' \<in># add_mset a ?R. agree h2 h3 a'" by blast
  obtain k where k: "datas h3 a = Some (e1\<lparr>m_count := k\<rparr>)"
    using agree_Some [of h2 h3 a e1] h3(3) by (auto simp: h2_def)
  have "bytes_of (m_bytes e1) (shifted off a b) = bytes_of (m_bytes d) b"
  proof (rule bytes_of_shifted [OF o])
    fix i assume i: "i < ?n"
    have "splice off bs (m_bytes e) ! (off + i) = bs ! i"
      by (subst nth_splice [OF fit]) (use i lb(1) fit in auto)
    also have "\<dots> = m_bytes d ! (m_start b + i)" using i lb(2) by (simp add: bs_def)
    finally show "m_bytes e1 ! (off + i) = m_bytes d ! (m_start b + i)" by (simp add: e1_def)
  qed (use lb fit d(2,3) in \<open>auto simp: e1_def seen_def\<close>)
  then have cont: "bytes_of (m_bytes (e1\<lparr>m_count := k\<rparr>)) (shifted off a b) = content h b" using d(1) by (simp add: content_def)
  have ag: "\<forall>x \<in># B. agree h h3 (m_data x)"
  proof
    fix x assume x: "x \<in># B"
    then have "datas h2 (m_data x) = datas h (m_data x)" using c(3,7) by (auto simp: h2_def)
    then show "agree h h3 (m_data x)" using h3(3) x by (auto intro: agree_trans agree_same)
  qed
  have "buf_move n off b h = Some (a, h3)" using c(1) r w h3(1) by (simp add: buf_move_def)
  then show ?thesis using c(3,5) h3(2) k cont ag by (auto simp: e1_def)
qed

lemma bytes_of_front: "m_start b = m_start b' + n \<Longrightarrow> m_zeroAreaStart b' = m_zeroAreaStart b \<Longrightarrow> m_zeroAreaEnd b' = m_zeroAreaEnd b \<Longrightarrow>
    m_end b' = m_end b \<Longrightarrow> drop n (bytes_of bs b') = bytes_of bs b"
  by (rule nth_equalityI) (auto simp: bytes_of_def byte_at_def buf_GetSize_def zsize_def add.assoc)

lemma bytes_of_back: "offsets_ok b \<Longrightarrow> m_start b' = m_start b \<Longrightarrow> m_zeroAreaStart b' = m_zeroAreaStart b \<Longrightarrow> m_zeroAreaEnd b' = m_zeroAreaEnd b \<Longrightarrow>
    m_end b' = m_end b + n \<Longrightarrow> take (buf_GetSize b) (bytes_of bs b') = bytes_of bs b"
  by (rule nth_equalityI) (auto simp: bytes_of_def byte_at_def buf_GetSize_def zsize_def offsets_ok_def)

text \<open>The outcome of growing a buffer by \<open>n\<close> bytes whose place in the storage is \<open>off\<close>.\<close>

definition grown :: "buf_heap \<Rightarrow> Buffer \<Rightarrow> Buffer multiset \<Rightarrow> nat \<Rightarrow> buf_heap \<Rightarrow> Buffer \<Rightarrow> nat \<Rightarrow> bool" where
  "grown h b B n h1 b1 off \<longleftrightarrow>
     buf_inv h1 (add_mset b1 B) \<and> buf_GetSize b1 = buf_GetSize b + n \<and> unseen (m_data b1) off n B \<and>
     (\<forall>c \<in># B. content h1 c = content h c)"

lemma set_dirty_inv:
  assumes "buf_inv h (add_mset b B)" and "datas h (m_data b) = Some d" and "m_data b1 = m_data b" and "offsets_ok b1"
    and "s \<le> m_start b1" "s \<le> m_dirtyStart d" and "GetInternalEnd b1 \<le> m_size d" and "zsize b1 = zsize b"
    and "GetInternalEnd b1 + e0 \<le> GetInternalEnd b + e" and "e0 \<le> e" "m_dirtyEnd d = e0"
  shows "buf_inv (set_data (m_data b) (d\<lparr>m_dirtyStart := s, m_dirtyEnd := e\<rparr>) h) (add_mset b1 B)" (is "buf_inv ?h _")
proof -
  have "length (m_bytes d) = m_size d" using buf_invD [OF assms(1)] assms(2) by auto
  then have "store_ok ?h (image_mset m_data (add_mset b1 B))"
    using assms(1,2,3) by (intro store_ok_set_data [OF _ assms(2)]) (auto simp: buf_inv_def)
  moreover have "buffers_ok ?h (add_mset b1 B)"
    using assms by (auto simp: buf_inv_def buffers_ok_def seen_def)
  moreover have "shared_ok ?h (add_mset b1 B)"
    unfolding shared_ok_def
  proof (intro allI impI)
    fix a f assume f: "datas ?h a = Some f"
    show "\<exists>Z. sharing (add_mset b1 B) a (m_dirtyEnd f) Z"
    proof (cases "a = m_data b")
      case True
      obtain Z where Z: "sharing (add_mset b B) a e0 Z"
        using assms(1,2,11) True unfolding buf_inv_def shared_ok_def by blast
      have "sharing (add_mset b1 B) a e Z"
        using Z True assms(3,8,9,10) by (auto simp: sharing_def)
      then show ?thesis using f True by auto
    next
      case False
      then obtain Z where "sharing (add_mset b B) a (m_dirtyEnd f) Z"
        using assms(1) f unfolding buf_inv_def shared_ok_def by fastforce
      then show ?thesis using False assms(3) by auto
    qed
  qed
  ultimately show ?thesis by (simp add: buf_inv_def)
qed

lemma set_dirty_content:
  assumes "datas h a = Some d" and "m_bytes d' = m_bytes d"
  shows "content (set_data a d' h) c = content h c"
  using assms by (auto simp: content_def)

text \<open>Growing in place.\<close>

lemma AddAtStart_place:
  assumes i: "buf_inv h (add_mset b B)" and d: "datas h (m_data b) = Some d"
    and n: "n \<le> m_start b" and c: "m_count d = 1 \<or> m_start b = m_dirtyStart d"
  defines "b1 \<equiv> b\<lparr>m_start := m_start b - n\<rparr>"
  defines "h1 \<equiv> set_data (m_data b) (d\<lparr>m_dirtyStart := m_start b1\<rparr>) h"
  shows "grown h b B n h1 b1 (m_start b1)" and "drop n (content h1 b1) = content h b"
proof -
  have o: "offsets_ok b" "GetInternalEnd b \<le> m_size d" "m_dirtyStart d \<le> m_start b" using buf_invD [OF i] d by (auto simp: seen_def)
  have o1: "offsets_ok b1" "zsize b1 = zsize b" "GetInternalEnd b1 = GetInternalEnd b" "m_data b1 = m_data b"
    using o(1) by (auto simp: b1_def offsets_ok_def zsize_def GetInternalEnd_def)
  have ct: "content h1 x = content h x" for x unfolding h1_def by (rule set_dirty_content [OF d]) simp
  have un: "unseen (m_data b1) (m_start b1) n B"
    using c
  proof
    assume "m_count d = 1"
    from count_one_unseen [OF i d this] show ?thesis by (auto simp: unseen_def o1)
  next
    assume e: "m_start b = m_dirtyStart d"
    have "\<forall>x \<in># B. m_data x = m_data b \<longrightarrow> m_dirtyStart d \<le> m_start x"
      using i d by (auto simp: buf_inv_def buffers_ok_def seen_def)
    then show ?thesis using e n by (auto simp: unseen_def b1_def)
  qed
  have "buf_inv h1 (add_mset b1 B)"
  proof (cases "m_start b1 \<le> m_dirtyStart d")
    case True
    have "set_data (m_data b) (d\<lparr>m_dirtyStart := m_start b1, m_dirtyEnd := m_dirtyEnd d\<rparr>) h = h1" by (simp add: h1_def)
    then show ?thesis
      using set_dirty_inv [OF i d o1(4,1), of "m_start b1" "m_dirtyEnd d" "m_dirtyEnd d"] True o o1 by simp
  next
    case False
    then have one: "m_count d = 1" using c by (auto simp: b1_def)
    have ne: "\<forall>x \<in># B. m_data x \<noteq> m_data b" by (rule count_one_unseen [OF i d one])
    have st: "store_ok h1 (add_mset (m_data b1) (image_mset m_data B))"
      unfolding h1_def by (rule store_ok_set_data [OF _ d]) (use i d buf_invD [OF i] o1(4) in \<open>auto simp: buf_inv_def\<close>)
    show ?thesis
    proof (rule fresh_inv [OF st, of h])
      show "m_data b1 \<notin># image_mset m_data B" using ne o1(4) by auto
      show "\<forall>c \<in># B. agree h h1 (m_data c)" using ne by (auto simp: h1_def intro: agree_same)
      show "buffers_ok h B" "shared_ok h B" using buf_inv_frame [OF i] by auto
      show "datas h1 (m_data b1) = Some (d\<lparr>m_dirtyStart := m_start b1\<rparr>)" by (simp add: h1_def o1)
      show "seen (d\<lparr>m_dirtyStart := m_start b1\<rparr>) b1" using o o1 by (simp add: seen_def)
      show "m_end b1 \<le> m_dirtyEnd (d\<lparr>m_dirtyStart := m_start b1\<rparr>)" using buf_invD [OF i] d by (auto simp: b1_def)
    qed
  qed
  then show "grown h b B n h1 b1 (m_start b1)"
    using un ct n o(1) by (auto simp: grown_def buf_GetSize_def b1_def offsets_ok_def)
  show "drop n (content h1 b1) = content h b"
    unfolding ct using d n by (simp add: content_def b1_def bytes_of_front [of b])
qed

lemma AddAtEnd_place:
  assumes i: "buf_inv h (add_mset b B)" and d: "datas h (m_data b) = Some d"
    and n: "GetInternalEnd b + n \<le> m_size d" and c: "m_count d = 1 \<or> m_end b = m_dirtyEnd d"
  defines "b1 \<equiv> b\<lparr>m_end := m_end b + n\<rparr>"
  defines "h1 \<equiv> set_data (m_data b) (d\<lparr>m_dirtyEnd := m_end b1\<rparr>) h"
  shows "grown h b B n h1 b1 (GetInternalEnd b)" and "take (buf_GetSize b) (content h1 b1) = content h b"
proof -
  have o: "offsets_ok b" "m_dirtyStart d \<le> m_start b" using buf_invD [OF i] d by (auto simp: seen_def)
  have o1: "offsets_ok b1" "zsize b1 = zsize b" "GetInternalEnd b1 = GetInternalEnd b + n" "m_data b1 = m_data b"
    using o(1) by (auto simp: b1_def offsets_ok_def zsize_def GetInternalEnd_def)
  have ct: "content h1 x = content h x" for x unfolding h1_def by (rule set_dirty_content [OF d]) simp
  have un: "unseen (m_data b1) (GetInternalEnd b) n B"
    using c
  proof
    assume "m_count d = 1"
    from count_one_unseen [OF i d this] show ?thesis by (auto simp: unseen_def o1)
  next
    assume e: "m_end b = m_dirtyEnd d"
    obtain Z where Z: "sharing (add_mset b B) (m_data b) (m_dirtyEnd d) Z"
      using i d unfolding buf_inv_def shared_ok_def by blast
    then have "zsize b \<le> Z" by simp
    with Z have "\<forall>x \<in># B. m_data x = m_data b \<longrightarrow> GetInternalEnd x \<le> GetInternalEnd b"
      using e offsets_ok_end [OF o(1)] by (fastforce simp: sharing_def)
    then show ?thesis by (auto simp: unseen_def o1)
  qed
  have "buf_inv h1 (add_mset b1 B)"
  proof (cases "m_end b = m_dirtyEnd d")
    case True
    have "set_data (m_data b) (d\<lparr>m_dirtyStart := m_dirtyStart d, m_dirtyEnd := m_end b1\<rparr>) h = h1" by (simp add: h1_def)
    moreover have "m_start b1 = m_start b" "m_end b1 = m_dirtyEnd d + n" using True by (simp_all add: b1_def)
    ultimately show ?thesis
      using set_dirty_inv [OF i d o1(4,1), of "m_dirtyStart d" "m_dirtyEnd d" "m_end b1"] o o1 n by simp
  next
    case False
    then have one: "m_count d = 1" using c by simp
    have ne: "\<forall>x \<in># B. m_data x \<noteq> m_data b" by (rule count_one_unseen [OF i d one])
    have st: "store_ok h1 (add_mset (m_data b1) (image_mset m_data B))"
      unfolding h1_def by (rule store_ok_set_data [OF _ d]) (use i d buf_invD [OF i] o1(4) in \<open>auto simp: buf_inv_def\<close>)
    show ?thesis
    proof (rule fresh_inv [OF st, of h])
      show "m_data b1 \<notin># image_mset m_data B" using ne o1(4) by auto
      show "\<forall>c \<in># B. agree h h1 (m_data c)" using ne by (auto simp: h1_def intro: agree_same)
      show "buffers_ok h B" "shared_ok h B" using buf_inv_frame [OF i] by auto
      show "datas h1 (m_data b1) = Some (d\<lparr>m_dirtyEnd := m_end b1\<rparr>)" by (simp add: h1_def o1)
      show "seen (d\<lparr>m_dirtyEnd := m_end b1\<rparr>) b1" using o o1 n by (simp add: seen_def b1_def)
    qed simp
  qed
  then show "grown h b B n h1 b1 (GetInternalEnd b)"
    using un ct o(1) by (auto simp: grown_def buf_GetSize_def b1_def offsets_ok_def)
  show "take (buf_GetSize b) (content h1 b1) = content h b"
    unfolding ct using d o(1) by (simp add: content_def b1_def bytes_of_back [of b])
qed

text \<open>Growing by moving to a new storage.\<close>

lemma moved_inv:
  assumes i: "buf_inv h (add_mset b B)"
    and m: "a \<notin># image_mset m_data B" "store_ok h1 (add_mset a (image_mset m_data B))" "datas h1 a = Some d"
      "\<forall>c \<in># B. agree h h1 (m_data c)"
    and b1: "m_data b1 = a" "offsets_ok b1" "GetInternalEnd b1 \<le> m_size d" "m_start b1 = 0"
    and h2: "h2 = set_data a (d\<lparr>m_dirtyStart := m_start b1, m_dirtyEnd := m_end b1\<rparr>) h1"
  shows "buf_inv h2 (add_mset b1 B) \<and> unseen (m_data b1) off n B \<and> (\<forall>c \<in># B. content h2 c = content h c)"
proof -
  have ne: "\<forall>c \<in># B. m_data c \<noteq> a" using m(1) by (auto simp: image_iff)
  have ag: "\<forall>c \<in># B. agree h h2 (m_data c)" using m(4) ne by (auto simp: h2 agree_def)
  have st: "store_ok h2 (add_mset (m_data b1) (image_mset m_data B))"
    unfolding h2 b1(1) by (rule store_ok_set_data [OF m(2,3)]) (use m(2,3) in \<open>auto simp: store_ok_def\<close>)
  have "buf_inv h2 (add_mset b1 B)"
    by (rule fresh_inv [OF st _ ag, of "d\<lparr>m_dirtyStart := m_start b1, m_dirtyEnd := m_end b1\<rparr>"])
       (use buf_inv_frame [OF i] m(1) b1 in \<open>auto simp: h2 seen_def\<close>)
  then show ?thesis using ag agree_content ne b1(1) by (auto simp: unseen_def)
qed

lemma AddAtStart_ok:
  assumes i: "buf_inv h (add_mset b B)"
  shows "\<exists>b1 h1. buf_AddAtStart n b h = Some (b1, h1) \<and> grown h b B n h1 b1 (m_start b1) \<and>
    drop n (content h1 b1) = content h b \<and> m_start b1 + n \<le> m_zeroAreaStart b1"
proof -
  obtain d where d: "datas h (m_data b) = Some d" "seen d b" "m_count d \<ge> 1" using buf_invD [OF i] by auto
  have o: "offsets_ok b" "m_dirtyStart d \<le> m_start b" using d(2) by (auto simp: seen_def)
  show ?thesis
  proof (cases "n \<le> m_start b \<and> \<not> (1 < m_count d \<and> m_dirtyStart d < m_start b)")
    case True
    define b1 where "b1 = b\<lparr>m_start := m_start b - n\<rparr>"
    define h1 where "h1 = set_data (m_data b) (d\<lparr>m_dirtyStart := m_start b1\<rparr>) h"
    have c: "m_count d = 1 \<or> m_start b = m_dirtyStart d" using True d(3) o(2) by linarith
    have "buf_AddAtStart n b h = Some (b1\<lparr>m_maxZeroAreaStart := max (m_maxZeroAreaStart b1) (m_zeroAreaStart b1)\<rparr>, h1)"
      using d(1) True c by (simp add: buf_AddAtStart_def b1_def h1_def)
    moreover have "grown h b B n h1 b1 (m_start b1)" "drop n (content h1 b1) = content h b"
      using AddAtStart_place [OF i d(1) _ c, of n] True by (simp_all add: b1_def h1_def)
    ultimately show ?thesis using True o(1) by (auto simp: grown_def b1_def offsets_ok_def)
  next
    case False
    obtain a h1 e where m: "buf_move (GetInternalSize b + n) n b h = Some (a, h1)" "a \<notin># image_mset m_data B"
      "store_ok h1 (add_mset a (image_mset m_data B))" "datas h1 a = Some e" "GetInternalSize b + n \<le> m_size e"
      "bytes_of (m_bytes e) (shifted n a b) = content h b" "\<forall>c \<in># B. agree h h1 (m_data c)"
      using move_ok [OF i, of n "GetInternalSize b + n"] by (auto simp: add.commute)
    define b1 where "b1 = b\<lparr>m_data := a, m_zeroAreaStart := m_zeroAreaStart b + n - m_start b,
      m_zeroAreaEnd := m_zeroAreaEnd b + n - m_start b, m_end := m_end b + n - m_start b, m_start := 0\<rparr>"
    define h2 where "h2 = set_data a (e\<lparr>m_dirtyStart := m_start b1, m_dirtyEnd := m_end b1\<rparr>) h1"
    have a: "buf_AddAtStart n b h = Some (b1\<lparr>m_maxZeroAreaStart := max (m_maxZeroAreaStart b1) (m_zeroAreaStart b1)\<rparr>, h2)"
      using d(1) False m(1,4) by (auto simp: buf_AddAtStart_def b1_def h2_def set_dirty_def)
    have b1: "offsets_ok b1" "GetInternalEnd b1 = GetInternalSize b + n" "buf_GetSize b1 = buf_GetSize b + n"
      using o(1) by (auto simp: b1_def offsets_ok_def GetInternalEnd_def GetInternalSize_def buf_GetSize_def)
    have "grown h b B n h2 b1 (m_start b1)"
      using moved_inv [OF i m(2,3,4,7) _ b1(1) _ _ h2_def, of "m_start b1" n] b1 m(5) by (simp add: grown_def b1_def)
    moreover have "drop n (content h2 b1) = content h b"
      unfolding m(6) [symmetric] by (simp add: content_def h2_def b1_def bytes_of_front [of "shifted n a b"] shifted_def)
    moreover have "m_start b1 + n \<le> m_zeroAreaStart b1" using o(1) by (auto simp: b1_def offsets_ok_def)
    ultimately show ?thesis using a by (auto simp: grown_def)
  qed
qed

lemma AddAtEnd_ok:
  assumes i: "buf_inv h (add_mset b B)"
  shows "\<exists>b1 h1. buf_AddAtEnd n b h = Some (b1, h1) \<and> grown h b B n h1 b1 (GetInternalEnd b1 - n) \<and>
    take (buf_GetSize b) (content h1 b1) = content h b \<and> m_zeroAreaEnd b1 + n \<le> m_end b1"
proof -
  obtain d where d: "datas h (m_data b) = Some d" "seen d b" "m_count d \<ge> 1" "m_end b \<le> m_dirtyEnd d" using buf_invD [OF i] by auto
  have o: "offsets_ok b" using d(2) by (auto simp: seen_def)
  show ?thesis
  proof (cases "GetInternalEnd b + n \<le> m_size d \<and> \<not> (1 < m_count d \<and> m_end b < m_dirtyEnd d)")
    case True
    define b1 where "b1 = b\<lparr>m_end := m_end b + n\<rparr>"
    define h1 where "h1 = set_data (m_data b) (d\<lparr>m_dirtyEnd := m_end b1\<rparr>) h"
    have c: "m_count d = 1 \<or> m_end b = m_dirtyEnd d" using True d(3,4) by linarith
    have "buf_AddAtEnd n b h = Some (b1\<lparr>m_maxZeroAreaStart := max (m_maxZeroAreaStart b1) (m_zeroAreaStart b1)\<rparr>, h1)"
      using d(1) True c by (simp add: buf_AddAtEnd_def b1_def h1_def)
    moreover have "grown h b B n h1 b1 (GetInternalEnd b)" "take (buf_GetSize b) (content h1 b1) = content h b"
      using AddAtEnd_place [OF i d(1) _ c, of n] True by (simp_all add: b1_def h1_def)
    moreover have "GetInternalEnd b1 - n = GetInternalEnd b" using o by (auto simp: b1_def GetInternalEnd_def offsets_ok_def)
    ultimately show ?thesis using o by (auto simp: grown_def b1_def offsets_ok_def)
  next
    case False
    obtain a h1 e where m: "buf_move (GetInternalSize b + n) 0 b h = Some (a, h1)" "a \<notin># image_mset m_data B"
      "store_ok h1 (add_mset a (image_mset m_data B))" "datas h1 a = Some e" "GetInternalSize b + n \<le> m_size e"
      "bytes_of (m_bytes e) (shifted 0 a b) = content h b" "\<forall>c \<in># B. agree h h1 (m_data c)"
      using move_ok [OF i, of 0 "GetInternalSize b + n"] by auto
    define b1 where "b1 = b\<lparr>m_data := a, m_zeroAreaStart := m_zeroAreaStart b - m_start b,
      m_zeroAreaEnd := m_zeroAreaEnd b - m_start b, m_end := m_end b - m_start b + n, m_start := 0\<rparr>"
    define h2 where "h2 = set_data a (e\<lparr>m_dirtyStart := m_start b1, m_dirtyEnd := m_end b1\<rparr>) h1"
    have a: "buf_AddAtEnd n b h = Some (b1\<lparr>m_maxZeroAreaStart := max (m_maxZeroAreaStart b1) (m_zeroAreaStart b1)\<rparr>, h2)"
      using d(1) False m(1,4) by (auto simp: buf_AddAtEnd_def b1_def h2_def set_dirty_def)
    have b1: "offsets_ok b1" "GetInternalEnd b1 = GetInternalSize b + n" "buf_GetSize b1 = buf_GetSize b + n"
      using o by (auto simp: b1_def offsets_ok_def GetInternalEnd_def GetInternalSize_def buf_GetSize_def)
    have "grown h b B n h2 b1 (GetInternalEnd b1 - n)"
      using moved_inv [OF i m(2,3,4,7) _ b1(1) _ _ h2_def, of "GetInternalEnd b1 - n" n] b1 m(5) by (simp add: grown_def b1_def)
    moreover have "take (buf_GetSize b) (content h2 b1) = content h b"
      unfolding m(6) [symmetric] using bytes_of_back [of "shifted 0 a b" b1 n "m_bytes e"] shifted_ok [OF o, of 0 a]
      by (simp add: content_def h2_def b1_def shifted_def)
    moreover have "m_zeroAreaEnd b1 + n \<le> m_end b1" using o by (auto simp: b1_def offsets_ok_def)
    ultimately show ?thesis using a by (auto simp: grown_def)
  qed
qed

section \<open>Shrinking\<close>

lemma bytes_of_drop:
  assumes "buf_GetSize b1 = buf_GetSize b - n" and "\<And>i. i < buf_GetSize b1 \<Longrightarrow> byte_at bs b1 i = byte_at bs b (n + i)"
  shows "bytes_of bs b1 = drop n (bytes_of bs b)"
  by (rule nth_equalityI) (use assms in \<open>auto simp: bytes_of_def\<close>)

lemma bytes_of_take:
  assumes "buf_GetSize b1 = buf_GetSize b - n" and "\<And>i. i < buf_GetSize b1 \<Longrightarrow> byte_at bs b1 i = byte_at bs b i"
  shows "bytes_of bs b1 = take (buf_GetSize b - n) (bytes_of bs b)"
  by (rule nth_equalityI) (use assms in \<open>auto simp: bytes_of_def\<close>)

lemma bytes_of_maxZero [simp]: "bytes_of bs (b\<lparr>m_maxZeroAreaStart := k\<rparr>) = bytes_of bs b"
  by (simp add: bytes_of_def byte_at_def [abs_def] buf_GetSize_def zsize_def)

text \<open>A buffer \<open>b1\<close> that starts \<open>n\<close> bytes later, or ends \<open>n\<close> bytes earlier, than \<open>b\<close>.\<close>

definition narrower :: "Buffer \<Rightarrow> Buffer \<Rightarrow> bool" where
  "narrower b b1 \<longleftrightarrow> m_data b1 = m_data b \<and> offsets_ok b1 \<and> m_start b \<le> m_start b1 \<and> zsize b1 \<le> zsize b \<and>
     GetInternalEnd b1 \<le> GetInternalEnd b"

lemma narrower_maxZero [simp]: "narrower b (b1\<lparr>m_maxZeroAreaStart := k\<rparr>) = narrower b b1"
  by (simp add: narrower_def)

lemma RemoveAtStart_cases:
  assumes o: "offsets_ok b"
  shows "\<exists>b1. buf_RemoveAtStart n b = Some b1 \<and> narrower b b1 \<and> (\<forall>bs. bytes_of bs b1 = drop n (bytes_of bs b))"
proof -
  note defs = offsets_ok_def narrower_def zsize_def GetInternalEnd_def
  let ?s = "m_start b + n"
  consider "?s \<le> m_zeroAreaStart b" | "m_zeroAreaStart b < ?s" "?s \<le> m_zeroAreaEnd b"
    | "m_zeroAreaEnd b < ?s" "?s \<le> m_end b" | "m_end b < ?s" by linarith
  then show ?thesis
  proof cases
    case 1
    let ?b = "b\<lparr>m_start := ?s\<rparr>"
    have "narrower b ?b" using 1 o by (auto simp: defs)
    moreover have "bytes_of bs ?b = drop n (bytes_of bs b)" for bs
      by (rule bytes_of_front [symmetric]) simp_all
    ultimately show ?thesis using 1 by (simp add: buf_RemoveAtStart_def Let_def)
  next
    case 2
    let ?k = "?s - m_zeroAreaStart b"
    let ?b = "b\<lparr>m_start := m_zeroAreaStart b, m_zeroAreaEnd := m_zeroAreaEnd b - ?k, m_end := m_end b - ?k\<rparr>"
    have "narrower b ?b" using 2 o by (auto simp: defs)
    moreover have "bytes_of bs ?b = drop n (bytes_of bs b)" for bs
    proof (rule bytes_of_drop)
      show "buf_GetSize ?b = buf_GetSize b - n" using 2 o by (auto simp: buf_GetSize_def defs)
      fix i assume "i < buf_GetSize ?b"
      show "byte_at bs ?b i = byte_at bs b (n + i)"
      proof (cases "?s + i < m_zeroAreaEnd b")
        case True
        then show ?thesis using 2 o by (auto simp: byte_at_def defs)
      next
        case False
        have "m_zeroAreaStart b + i - (m_zeroAreaEnd b - ?k - m_zeroAreaStart b) = ?s + i - zsize b"
          using 2 o False by (simp add: defs)
        then show ?thesis using 2 o False by (auto simp: byte_at_def zsize_def add.assoc)
      qed
    qed
    ultimately show ?thesis using 2 by (simp add: buf_RemoveAtStart_def Let_def)
  next
    case 3
    let ?z = "m_zeroAreaEnd b - m_zeroAreaStart b"
    let ?b = "b\<lparr>m_start := ?s - ?z, m_end := m_end b - ?z, m_zeroAreaStart := ?s - ?z, m_zeroAreaEnd := ?s - ?z\<rparr>"
    have "narrower b ?b" using 3 o by (auto simp: defs)
    moreover have "bytes_of bs ?b = drop n (bytes_of bs b)" for bs
    proof (rule bytes_of_drop)
      show "buf_GetSize ?b = buf_GetSize b - n" using 3 o by (auto simp: buf_GetSize_def defs)
      fix i assume "i < buf_GetSize ?b"
      have "?s - ?z + i = m_start b + (n + i) - zsize b" using 3 o by (auto simp: defs)
      moreover have "byte_at bs ?b i = bs ! (?s - ?z + i)" by (simp add: byte_at_def zsize_def)
      moreover have "byte_at bs b (n + i) = bs ! (m_start b + (n + i) - zsize b)" using 3 o by (auto simp: byte_at_def offsets_ok_def)
      ultimately show "byte_at bs ?b i = byte_at bs b (n + i)" by simp
    qed
    ultimately show ?thesis using 3 o by (simp add: buf_RemoveAtStart_def Let_def offsets_ok_def)
  next
    case 4
    let ?e = "m_end b - (m_zeroAreaEnd b - m_zeroAreaStart b)"
    let ?b = "b\<lparr>m_end := ?e, m_start := ?e, m_zeroAreaEnd := ?e, m_zeroAreaStart := ?e\<rparr>"
    have "narrower b ?b" using 4 o by (auto simp: defs)
    moreover have "bytes_of bs ?b = drop n (bytes_of bs b)" for bs using 4 by (simp add: bytes_of_def buf_GetSize_def)
    ultimately show ?thesis using 4 o by (simp add: buf_RemoveAtStart_def Let_def offsets_ok_def)
  qed
qed

lemma RemoveAtEnd_cases:
  assumes o: "offsets_ok b"
  shows "narrower b (buf_RemoveAtEnd n b) \<and> (\<forall>bs. bytes_of bs (buf_RemoveAtEnd n b) = take (buf_GetSize b - n) (bytes_of bs b))"
proof -
  note defs = offsets_ok_def narrower_def zsize_def GetInternalEnd_def
  define e where "e = m_end b - min n (m_end b - m_start b)"
  have e: "m_start b \<le> e" "e \<le> m_end b" "e - m_start b = buf_GetSize b - n"
    using o by (auto simp: e_def offsets_ok_def buf_GetSize_def)
  define b1 where "b1 = (if m_zeroAreaEnd b < e then b\<lparr>m_end := e\<rparr>
    else if m_zeroAreaStart b < e then b\<lparr>m_end := e, m_zeroAreaEnd := e\<rparr>
    else if m_start b < e then b\<lparr>m_end := e, m_zeroAreaEnd := e, m_zeroAreaStart := e\<rparr>
    else b\<lparr>m_end := m_start b, m_zeroAreaEnd := m_start b, m_zeroAreaStart := m_start b\<rparr>)"
  have r: "buf_RemoveAtEnd n b = b1\<lparr>m_maxZeroAreaStart := max (m_maxZeroAreaStart b1) (m_zeroAreaStart b1)\<rparr>"
    by (simp only: buf_RemoveAtEnd_def Let_def b1_def e_def)
  consider "m_zeroAreaEnd b < e" | "e \<le> m_zeroAreaEnd b" "m_zeroAreaStart b < e" | "e \<le> m_zeroAreaStart b" "m_start b < e"
    | "e = m_start b" "m_start b \<le> m_zeroAreaStart b" using e(1) o by (fastforce simp: offsets_ok_def)
  then have "narrower b b1 \<and> (\<forall>bs. bytes_of bs b1 = take (buf_GetSize b - n) (bytes_of bs b))"
  proof cases
    case 1
    then have b1: "b1 = b\<lparr>m_end := e\<rparr>" by (simp add: b1_def)
    have "bytes_of bs b1 = take (buf_GetSize b - n) (bytes_of bs b)" for bs
      by (rule bytes_of_take) (simp_all add: b1 buf_GetSize_def byte_at_def zsize_def e(3) [unfolded buf_GetSize_def])
    moreover have "narrower b b1" using 1 o e by (auto simp: b1 defs)
    ultimately show ?thesis by blast
  next
    case 2
    then have b1: "b1 = b\<lparr>m_end := e, m_zeroAreaEnd := e\<rparr>" by (simp add: b1_def)
    have "bytes_of bs b1 = take (buf_GetSize b - n) (bytes_of bs b)" for bs
    proof (rule bytes_of_take)
      show "buf_GetSize b1 = buf_GetSize b - n" using e(3) by (simp add: b1 buf_GetSize_def)
      fix i assume "i < buf_GetSize b1"
      then have "m_start b + i < e" by (simp add: b1 buf_GetSize_def)
      then show "byte_at bs b1 i = byte_at bs b i" using 2 by (auto simp: b1 byte_at_def)
    qed
    moreover have "narrower b b1" using 2 o e by (auto simp: b1 defs)
    ultimately show ?thesis by blast
  next
    case 3
    then have b1: "b1 = b\<lparr>m_end := e, m_zeroAreaEnd := e, m_zeroAreaStart := e\<rparr>" using o by (auto simp: b1_def offsets_ok_def)
    have "bytes_of bs b1 = take (buf_GetSize b - n) (bytes_of bs b)" for bs
    proof (rule bytes_of_take)
      show "buf_GetSize b1 = buf_GetSize b - n" using e(3) by (simp add: b1 buf_GetSize_def)
      fix i assume "i < buf_GetSize b1"
      then have "m_start b + i < e" by (simp add: b1 buf_GetSize_def)
      then show "byte_at bs b1 i = byte_at bs b i" using 3 by (auto simp: b1 byte_at_def)
    qed
    moreover have "narrower b b1" using 3 o e by (auto simp: b1 defs)
    ultimately show ?thesis by blast
  next
    case 4
    then have b1: "b1 = b\<lparr>m_end := m_start b, m_zeroAreaEnd := m_start b, m_zeroAreaStart := m_start b\<rparr>"
      using o by (auto simp: b1_def offsets_ok_def)
    have "bytes_of bs b1 = take (buf_GetSize b - n) (bytes_of bs b)" for bs
      using 4(1) e(3) by (simp add: b1 bytes_of_def buf_GetSize_def)
    moreover have "narrower b b1" using o by (auto simp: b1 defs)
    ultimately show ?thesis by blast
  qed
  then show ?thesis by (simp add: r)
qed

lemma narrower_inv:
  assumes "buf_inv h (add_mset b B)" and "narrower b b1"
  shows "buf_inv h (add_mset b1 B)"
  using shrink_inv [OF assms(1)] assms(2) by (simp add: narrower_def)

lemma RemoveAtStart_ok:
  assumes i: "buf_inv h (add_mset b B)"
  shows "\<exists>b1. buf_RemoveAtStart n b = Some b1 \<and> buf_inv h (add_mset b1 B) \<and> content h b1 = drop n (content h b)"
proof -
  obtain d where d: "datas h (m_data b) = Some d" and o: "offsets_ok b" using buf_invD [OF i] by (auto simp: seen_def)
  obtain b1 where "buf_RemoveAtStart n b = Some b1" "narrower b b1" "\<forall>bs. bytes_of bs b1 = drop n (bytes_of bs b)"
    using RemoveAtStart_cases [OF o] by blast
  then show ?thesis using narrower_inv [OF i] d by (auto simp: content_def narrower_def)
qed

lemma RemoveAtEnd_ok:
  assumes i: "buf_inv h (add_mset b B)"
  shows "buf_inv h (add_mset (buf_RemoveAtEnd n b) B)" and "content h (buf_RemoveAtEnd n b) = take (buf_GetSize b - n) (content h b)"
proof -
  obtain d where d: "datas h (m_data b) = Some d" and o: "offsets_ok b" using buf_invD [OF i] by (auto simp: seen_def)
  show "buf_inv h (add_mset (buf_RemoveAtEnd n b) B)" using narrower_inv [OF i] RemoveAtEnd_cases [OF o] by blast
  show "content h (buf_RemoveAtEnd n b) = take (buf_GetSize b - n) (content h b)"
    using RemoveAtEnd_cases [OF o, of n] d by (auto simp: content_def narrower_def)
qed

lemma length_content: "buf_inv h (add_mset b B) \<Longrightarrow> length (content h b) = buf_GetSize b"
  using buf_invD [of h b B] by (auto simp: content_def bytes_of_def)

lemma CreateFragment_ok:
  assumes i: "buf_inv h (add_mset b B)" and "s + n \<le> buf_GetSize b" and "buf_GetSize b < 2 ^ 32"
  shows "\<exists>b1 h1. buf_CreateFragment s n b h = Some (b1, h1) \<and> buf_inv h1 (add_mset b1 (add_mset b B)) \<and>
    content h1 b1 = take n (drop s (content h b)) \<and> (\<forall>c \<in># add_mset b B. content h1 c = content h c)"
proof -
  obtain t h1 where c: "buf_copy b h = Some (t, h1)" "buf_inv h1 (add_mset t (add_mset b B))" "content h1 t = content h b"
    "\<forall>c \<in># add_mset b B. content h1 c = content h c" using copy_ok [OF i] by blast
  obtain t1 where t1: "buf_RemoveAtStart s t = Some t1" "buf_inv h1 (add_mset t1 (add_mset b B))" "content h1 t1 = drop s (content h b)"
    using RemoveAtStart_ok [OF c(2)] c(3) by metis
  let ?k = "sub32 (buf_GetSize b) ((s + n) mod 2 ^ 32)"
  have "?k = (buf_GetSize b - (s + n) + 2 ^ 32) mod 2 ^ 32" using assms(2,3) by (simp add: sub32_def)
  then have "?k = buf_GetSize b - (s + n)" using assms(3) by (simp only: mod_add_self2) simp
  moreover have "buf_GetSize t1 = buf_GetSize b - s" using length_content [OF t1(2)] t1(3) length_content [OF i] by simp
  ultimately have k: "buf_GetSize t1 - ?k = n" using assms(2) by simp
  have "content h1 (buf_RemoveAtEnd ?k t1) = take n (drop s (content h b))"
    using RemoveAtEnd_ok(2) [OF t1(2), of ?k] t1(3) k by simp
  then show ?thesis using c(1,4) t1(1) RemoveAtEnd_ok(1) [OF t1(2), of ?k] by (simp add: buf_CreateFragment_def)
qed

end
