(* ===== verification/Buffer_Codec.thy ===== *)
theory Buffer_Codec
  imports Buffer_Iterator Buffer_Correct
begin

unbundle bit_operations_syntax

text \<open>
  What the writers and readers of the iterator do, in terms of bytes: a writer \<open>emits\<close> a list of
  bytes into the room in front of or behind the zero area, a reader takes the \<open>upcoming\<close> bytes.
  Integers are written and read back in all three byte orders.
\<close>

section \<open>Bytes of words\<close>

lemma byte_eq: "byte k data = ucast (drop_bit k data)"
proof (rule bit_word_eqI)
  have m: "(0xff :: 'a word) = mask 8" by (simp add: mask_eq_exp_minus_1)
  fix n assume "n < LENGTH(8)"
  then show "bit (byte k data) n \<longleftrightarrow> bit (ucast (drop_bit k data) :: u8) n"
    by (simp add: byte_def m bit_simps) (auto dest: bit_imp_le_length)
qed

lemma join_byte_step: "join_byte (drop_bit (k + 8) w) (byte k w) = drop_bit k (w :: 'a :: len word)"
proof (rule bit_word_eqI)
  fix n assume "n < LENGTH('a)"
  then show "bit (join_byte (drop_bit (k + 8) w) (byte k w)) n \<longleftrightarrow> bit (drop_bit k w) n"
    by (cases "n < 8") (auto simp: join_byte_def byte_eq bit_simps dest: bit_imp_le_length)
qed

lemma join_byte_0: "join_byte 0 b = ucast b"
  by (simp add: join_byte_def)

lemma ucast_byte: "LENGTH('a) \<le> k + 8 \<Longrightarrow> ucast (byte k w) = drop_bit k (w :: 'a :: len word)"
  by (rule bit_word_eqI) (auto simp: byte_eq bit_simps dest: bit_imp_le_length)

lemma join16: "join_byte (ucast (byte 8 w)) (byte 0 w) = (w :: u16)"
  using join_byte_step [of 0 w] by (simp add: ucast_byte)

lemma join32: "join_byte (join_byte (join_byte (ucast (byte 24 w)) (byte 16 w)) (byte 8 w)) (byte 0 w) = (w :: u32)"
  using join_byte_step [of 16 w] join_byte_step [of 8 w] join_byte_step [of 0 w] by (simp add: ucast_byte)

lemma join64:
  "join_byte (join_byte (join_byte (join_byte (join_byte (join_byte (join_byte (ucast (byte 56 w)) (byte 48 w)) (byte 40 w))
    (byte 32 w)) (byte 24 w)) (byte 16 w)) (byte 8 w)) (byte 0 w) = (w :: u64)"
  using join_byte_step [of 48 w] join_byte_step [of 40 w] join_byte_step [of 32 w] join_byte_step [of 24 w]
    join_byte_step [of 16 w] join_byte_step [of 8 w] join_byte_step [of 0 w] by (simp add: ucast_byte)

lemma byte_drop: "byte 0 (drop_bit k w) = byte k w"
  by (simp add: byte_eq)

section \<open>Writers\<close>

text \<open>There is room for \<open>n\<close> bytes at the iterator, before or behind the zero area; \<open>place n it\<close> is
  where they go in the storage.\<close>

definition room :: "nat \<Rightarrow> Iterator \<Rightarrow> bool" where
  "room n it \<longleftrightarrow> m_dataStart it \<le> m_current it \<and> m_current it + n \<le> m_dataEnd it \<and> m_zeroStart it \<le> m_zeroEnd it \<and>
     (m_current it + n \<le> m_zeroStart it \<or> m_zeroEnd it \<le> m_current it)"

definition place :: "nat \<Rightarrow> Iterator \<Rightarrow> nat" where
  "place n it = (if m_current it + n \<le> m_zeroStart it then m_current it else m_current it - zero_size it)"

definition advance :: "nat \<Rightarrow> Iterator \<Rightarrow> Iterator" where
  "advance n it = it\<lparr>m_current := m_current it + n\<rparr>"

definition emits_raw :: "writer \<Rightarrow> u8 option list \<Rightarrow> bool" where
  "emits_raw w bs \<longleftrightarrow>
     (\<forall>it h d. room (length bs) it \<longrightarrow> datas h (it_data it) = Some d \<longrightarrow> place (length bs) it + length bs \<le> length (m_bytes d) \<longrightarrow>
        w it h = Some (advance (length bs) it,
          set_data (it_data it) (d\<lparr>m_bytes := splice (place (length bs) it) bs (m_bytes d)\<rparr>) h))"

definition emits :: "writer \<Rightarrow> u8 list \<Rightarrow> bool" where
  "emits w bs \<longleftrightarrow> emits_raw w (map Some bs)"

text \<open>Writers one after the other.\<close>

fun run_writers :: "writer list \<Rightarrow> writer" where
  "run_writers [] it h = Some (it, h)"
| "run_writers (w # ws) it h = do { (it1, h1) \<leftarrow> w it h; run_writers ws it1 h1 }"

named_theorems emits_intros
named_theorems reads_intros

lemma advance_simps [simp]:
  "it_data (advance n it) = it_data it" "m_current (advance n it) = m_current it + n" "m_dataStart (advance n it) = m_dataStart it"
  "m_dataEnd (advance n it) = m_dataEnd it" "m_zeroStart (advance n it) = m_zeroStart it" "m_zeroEnd (advance n it) = m_zeroEnd it"
  "advance m (advance n it) = advance (n + m) it" "advance 0 it = it" "zero_size (advance n it) = zero_size it"
  by (simp_all add: advance_def zero_size_def add.assoc)

lemma splice_splice: "i + length xs \<le> length zs \<Longrightarrow> splice (i + length xs) ys (splice i xs zs) = splice i (xs @ ys) zs"
  by (simp add: splice_def ac_simps)

lemma room_append:
  assumes "room (m + n) it"
  shows "room m it" "room n (advance m it)" "place m it = place (m + n) it" "place n (advance m it) = place (m + n) it + m"
  using assms by (auto simp: room_def place_def zero_size_def)

lemma emits_nil [emits_intros]: "emits (run_writers []) []"
  by (simp add: emits_def emits_raw_def set_data_same)

lemma emits_raw_cons:
  assumes "emits_raw w xs" and "emits_raw (run_writers ws) ys"
  shows "emits_raw (run_writers (w # ws)) (xs @ ys)"
  unfolding emits_raw_def
proof (intro allI impI)
  fix it and h :: buf_heap and d
  assume r: "room (length (xs @ ys)) it" and d: "datas h (it_data it) = Some d"
    and l: "place (length (xs @ ys)) it + length (xs @ ys) \<le> length (m_bytes d)"
  let ?p = "place (length (xs @ ys)) it"
  let ?d = "d\<lparr>m_bytes := splice ?p xs (m_bytes d)\<rparr>"
  note r = room_append [OF r [unfolded length_append]]
  have "w it h = Some (advance (length xs) it, set_data (it_data it) ?d h)"
    using assms(1) r(1,3) d l by (simp add: emits_raw_def)
  moreover have "run_writers ws (advance (length xs) it) (set_data (it_data it) ?d h) =
    Some (advance (length (xs @ ys)) it, set_data (it_data it)
      (?d\<lparr>m_bytes := splice (?p + length xs) ys (m_bytes ?d)\<rparr>) (set_data (it_data it) ?d h))"
    using assms(2) [unfolded emits_raw_def, rule_format, of "advance (length xs) it" "set_data (it_data it) ?d h" ?d] r(2,4) l by simp
  ultimately show "run_writers (w # ws) it h = Some (advance (length (xs @ ys)) it,
      set_data (it_data it) (d\<lparr>m_bytes := splice ?p (xs @ ys) (m_bytes d)\<rparr>) h)"
    using splice_splice [of ?p xs "m_bytes d" ys] l by simp
qed

lemma emits_cons [emits_intros]: "emits w xs \<Longrightarrow> emits (run_writers ws) ys \<Longrightarrow> emits (run_writers (w # ws)) (xs @ ys)"
  unfolding emits_def map_append by (rule emits_raw_cons)

lemma emits_write_at:
  assumes "\<And>it h. room (length bs) it \<Longrightarrow> w it h = write_at (place (length bs) it) bs it h"
  shows "emits_raw w bs"
  using assms by (simp add: emits_raw_def write_at_def mem_write_Some advance_def)

lemma room_check: "room (Suc n) it \<Longrightarrow> Check (m_current it) it"
  and room_no_zero: "room n it \<Longrightarrow> CheckNoZero (m_current it) (m_current it + n) it"
  by (auto simp: room_def Check_def CheckNoZero_def)

lemma place_le: "room n it \<Longrightarrow> (if m_current it \<le> m_zeroStart it then m_current it else m_current it - zero_size it) = place n it"
  by (auto simp: room_def place_def zero_size_def)

lemma emits_WriteU8 [emits_intros]: "emits (WriteU8 b) [b]"
  unfolding emits_def by (rule emits_write_at) (auto simp: WriteU8_def place_def dest: room_check)

lemma emits_WriteU8_n [emits_intros]: "emits (WriteU8_n b n) (replicate n b)"
  unfolding emits_def by (rule emits_write_at) (simp add: WriteU8_n_def place_le room_no_zero)

lemma emits_WriteHtonU16 [emits_intros]: "emits (WriteHtonU16 v) [byte 8 v, byte 0 v]"
  unfolding emits_def by (rule emits_write_at) (use room_no_zero [of 2] in \<open>simp add: WriteHtonU16_def place_def numeral_2_eq_2\<close>)

lemma emits_WriteHtonU32 [emits_intros]: "emits (WriteHtonU32 v) [byte 24 v, byte 16 v, byte 8 v, byte 0 v]"
  unfolding emits_def by (rule emits_write_at) (use room_no_zero [of 4] in \<open>simp add: WriteHtonU32_def place_def eval_nat_numeral\<close>)

text \<open>The assertion of \<open>it_Write\<close> holds wherever there is room.\<close>

lemma emits_it_Write: "emits_raw (it_Write bs) bs"
proof (rule emits_write_at)
  fix it and h :: buf_heap assume r: "room (length bs) it"
  then have "CheckNoZero (m_current it) (length bs) it" by (auto simp: room_def CheckNoZero_def)
  then show "it_Write bs it h = write_at (place (length bs) it) bs it h" using r by (simp add: it_Write_def place_le)
qed

lemma run_WriteU8s: "WriteU8s bs = run_writers (map WriteU8 bs)"
proof (induction bs)
  case Nil
  show ?case by (intro ext) simp
next
  case (Cons b bs)
  show ?case by (intro ext) (simp add: Cons)
qed

lemma emits_WriteU8s: "emits (WriteU8s bs) bs"
proof (induction bs)
  case (Cons b bs)
  then show ?case using emits_cons [OF emits_WriteU8, of "map WriteU8 bs" bs b] by (simp add: run_WriteU8s del: run_writers.simps)
qed (simp only: run_WriteU8s list.map emits_nil)

lemma emits_words [emits_intros]:
  "emits (WriteU16 v16) [byte 0 v16, byte 8 v16]"
  "emits (WriteU32 v32) [byte 0 v32, byte 8 v32, byte 16 v32, byte 24 v32]"
  "emits (WriteU64 v64) [byte 0 v64, byte 8 v64, byte 16 v64, byte 24 v64, byte 32 v64, byte 40 v64, byte 48 v64, byte 56 v64]"
  "emits (WriteHtolsbU16 v16) [byte 0 v16, byte 8 v16]"
  "emits (WriteHtolsbU32 v32) [byte 0 v32, byte 8 v32, byte 16 v32, byte 24 v32]"
  "emits (WriteHtolsbU64 v64) [byte 0 v64, byte 8 v64, byte 16 v64, byte 24 v64, byte 32 v64, byte 40 v64, byte 48 v64, byte 56 v64]"
  "emits (WriteHtonU64 v64) [byte 56 v64, byte 48 v64, byte 40 v64, byte 32 v64, byte 24 v64, byte 16 v64, byte 8 v64, byte 0 v64]"
proof -
  have s: "(drop_bit 8 ^^ k) v = drop_bit (8 * k) v" for k and v :: u64
    by (induction k) (simp_all add: drop_bit_drop_bit ac_simps)
  show "emits (WriteU64 v64) [byte 0 v64, byte 8 v64, byte 16 v64, byte 24 v64, byte 32 v64, byte 40 v64, byte 48 v64, byte 56 v64]"
    using emits_WriteU8s [of "map (\<lambda>k. byte 0 ((drop_bit 8 ^^ k) v64)) [0..<8]"]
    by (simp add: WriteU64_def s byte_drop upt_conv_Cons)
qed (use emits_WriteU8s in \<open>simp_all add: WriteU16_def WriteU32_def WriteHtolsbU16_def WriteHtolsbU32_def WriteHtolsbU64_def
  WriteHtonU64_def byte_drop drop_bit_drop_bit\<close>)

section \<open>Readers\<close>

type_synonym 'v reader = "Iterator \<Rightarrow> buf_heap \<Rightarrow> ('v \<times> Iterator) option"

fun upcoming :: "Iterator \<Rightarrow> buf_heap \<Rightarrow> u8 list \<Rightarrow> bool" where
  "upcoming it h [] \<longleftrightarrow> True"
| "upcoming it h (b # bs) \<longleftrightarrow> PeekU8 it h = Some b \<and> upcoming (advance 1 it) h bs"

definition reads :: "'v reader \<Rightarrow> u8 list \<Rightarrow> 'v \<Rightarrow> bool" where
  "reads r bs v \<longleftrightarrow> (\<forall>it h. upcoming it h bs \<longrightarrow> r it h = Some (v, advance (length bs) it))"

lemma upcoming_append: "upcoming it h (xs @ ys) \<longleftrightarrow> upcoming it h xs \<and> upcoming (advance (length xs) it) h ys"
  by (induction xs arbitrary: it) simp_all

lemma reads_return [reads_intros]: "reads (\<lambda>it h. Some (v, it)) [] v"
  by (simp add: reads_def)

lemma reads_bind:
  assumes "reads r xs v" and "reads (f v) ys w"
  shows "reads (\<lambda>it h. Option.bind (r it h) (\<lambda>(v, it). f v it h)) (xs @ ys) w"
  using assms by (simp add: reads_def upcoming_append)

lemma reads_ReadU8 [reads_intros]: "reads ReadU8 [b] b"
  by (simp add: reads_def ReadU8_def advance_def)

lemma reads_it_Read [reads_intros]: "reads (it_Read (length bs)) bs bs"
proof (induction bs)
  case (Cons b bs)
  then show ?case by (simp add: reads_def ReadU8_def advance_def)
qed (simp add: reads_def)

lemma mem_read_1: "Option.bind (mem_read a off 1 h) hd = Some b \<longleftrightarrow> mem_read a off 1 h = Some [Some b]"
  by (auto simp: mem_read_def take_Suc hd_drop_conv_nth split: Option.bind_splits if_splits)

lemma mem_read_Cons:
  "mem_read a off 1 h = Some [x] \<Longrightarrow> mem_read a (Suc off) n h = Some xs \<Longrightarrow> mem_read a off (Suc n) h = Some (x # xs)"
  by (auto simp: mem_read_def take_Suc drop_Suc tl_drop [symmetric] split: Option.bind_splits if_splits)

text \<open>The bytes in front of, or behind, the zero area are in the storage.\<close>

lemma upcoming_front:
  assumes "bs \<noteq> []" and "upcoming it h bs" and "m_current it + length bs \<le> m_zeroStart it"
  shows "mem_read (it_data it) (m_current it) (length bs) h = Some (map Some bs)"
  using assms
proof (induction bs arbitrary: it rule: list_nonempty_induct)
  case (single b)
  then show ?case using mem_read_1 [of "it_data it" "m_current it" h b] by (simp add: PeekU8_def split: if_splits)
next
  case (cons b bs)
  then show ?case using mem_read_1 [of "it_data it" "m_current it" h b] cons.IH [of "advance 1 it"]
    by (auto simp: PeekU8_def split: if_splits intro: mem_read_Cons)
qed

lemma PeekU8_back:
  "m_zeroEnd it \<le> m_current it \<Longrightarrow> PeekU8 it h = Some b \<Longrightarrow> mem_read (it_data it) (m_current it - zero_size it) 1 h = Some [Some b]"
  using mem_read_1 [of "it_data it" "m_current it - zero_size it" h b]
  by (cases "m_current it < m_zeroStart it") (auto simp: PeekU8_def zero_size_def split: if_splits)

lemma upcoming_back:
  assumes "bs \<noteq> []" and "upcoming it h bs" and "m_zeroEnd it \<le> m_current it"
  shows "mem_read (it_data it) (m_current it - zero_size it) (length bs) h = Some (map Some bs)"
  using assms
proof (induction bs arbitrary: it rule: list_nonempty_induct)
  case (single b)
  then show ?case using PeekU8_back [of it h b] by simp
next
  case (cons b bs)
  have "Suc (m_current it) - zero_size it = Suc (m_current it - zero_size it)" using cons.prems by (auto simp: zero_size_def)
  then show ?case using PeekU8_back [of it h b] cons.IH [of "advance 1 it"] cons.prems by (auto intro: mem_read_Cons)
qed

lemma those_map_Some [simp]: "those (map Some xs) = Some xs"
  by (induction xs) simp_all

lemma read_at_upcoming:
  assumes "upcoming it h bs" and "bs \<noteq> []"
  shows "m_current it + length bs \<le> m_zeroStart it \<Longrightarrow> read_at (m_current it) (length bs) it h = Some (bs, advance (length bs) it)"
    and "m_zeroEnd it \<le> m_current it \<Longrightarrow> read_at (m_current it - zero_size it) (length bs) it h = Some (bs, advance (length bs) it)"
  using upcoming_front [OF assms(2,1)] upcoming_back [OF assms(2,1)] by (simp_all add: read_at_def advance_def)

lemma reads_join_bytes: "reads (join_bytes (length bs) v) bs (foldl join_byte v bs)"
proof (induction bs arbitrary: v)
  case (Cons b bs)
  then show ?case by (simp add: reads_def ReadU8_def advance_def)
qed (simp add: reads_def)

lemma foldl_join [simp]:
  "foldl join_byte 0 [byte 8 v16, byte 0 v16] = (v16 :: u16)"
  "foldl join_byte 0 [byte 24 v32, byte 16 v32, byte 8 v32, byte 0 v32] = (v32 :: u32)"
  "foldl join_byte 0 [byte 56 v64, byte 48 v64, byte 40 v64, byte 32 v64, byte 24 v64, byte 16 v64, byte 8 v64, byte 0 v64] = (v64 :: u64)"
  by (simp_all add: join_byte_0 join16 join32 join64)

text \<open>The fast paths read what the slow path reads.\<close>

lemma reads_fast_path:
  shows "length bs = 2 \<Longrightarrow> reads ReadNtohU16 bs (foldl join_byte 0 bs)"
    and "length bs = 4 \<Longrightarrow> reads ReadNtohU32 bs (foldl join_byte 0 bs)"
proof -
  assume l: "length bs = 2"
  then have "bs \<noteq> []" by auto
  then show "reads ReadNtohU16 bs (foldl join_byte 0 bs)"
    using read_at_upcoming [of _ _ bs] reads_join_bytes [of bs "0 :: u16"] l
    by (simp add: reads_def ReadNtohU16_def SlowReadNtohU16_def)
next
  assume l: "length bs = 4"
  then have "bs \<noteq> []" by auto
  then show "reads ReadNtohU32 bs (foldl join_byte 0 bs)"
    using read_at_upcoming [of _ _ bs] reads_join_bytes [of bs "0 :: u32"] l
    by (simp add: reads_def ReadNtohU32_def SlowReadNtohU32_def)
qed

lemma reads_Ntoh [reads_intros]:
  "reads ReadNtohU16 [byte 8 v16, byte 0 v16] v16"
  "reads ReadNtohU32 [byte 24 v32, byte 16 v32, byte 8 v32, byte 0 v32] v32"
  "reads ReadNtohU64 [byte 56 v64, byte 48 v64, byte 40 v64, byte 32 v64, byte 24 v64, byte 16 v64, byte 8 v64, byte 0 v64] v64"
proof -
  show "reads ReadNtohU16 [byte 8 v16, byte 0 v16] v16"
    using reads_fast_path(1) [of "[byte 8 v16, byte 0 v16]"] by (simp del: foldl.simps)
  show "reads ReadNtohU32 [byte 24 v32, byte 16 v32, byte 8 v32, byte 0 v32] v32"
    using reads_fast_path(2) [of "[byte 24 v32, byte 16 v32, byte 8 v32, byte 0 v32]"] by (simp del: foldl.simps)
  let ?b = "[byte 56 v64, byte 48 v64, byte 40 v64, byte 32 v64, byte 24 v64, byte 16 v64, byte 8 v64, byte 0 v64]"
  have "length ?b = 8" by simp
  then show "reads ReadNtohU64 ?b v64" using reads_join_bytes [of ?b "0 :: u64"] by (simp only: ReadNtohU64_def foldl_join)
qed

lemma reads_little_endian [reads_intros]:
  "reads ReadU16 [byte 0 v16, byte 8 v16] v16" "reads ReadLsbtohU16 [byte 0 v16, byte 8 v16] v16"
  "reads ReadU32 [byte 0 v32, byte 8 v32, byte 16 v32, byte 24 v32] v32"
  "reads ReadLsbtohU32 [byte 0 v32, byte 8 v32, byte 16 v32, byte 24 v32] v32"
  "reads ReadU64 [byte 0 v64, byte 8 v64, byte 16 v64, byte 24 v64, byte 32 v64, byte 40 v64, byte 48 v64, byte 56 v64] v64"
  "reads ReadLsbtohU64 [byte 0 v64, byte 8 v64, byte 16 v64, byte 24 v64, byte 32 v64, byte 40 v64, byte 48 v64, byte 56 v64] v64"
  by (simp_all add: reads_def ReadLsbtohU16_def ReadLsbtohU32_def ReadLsbtohU64_def ReadU16_def ReadU32_def ReadU64_def
    ReadU8_def advance_def join16 join32 join64)

end
