(* ===== verification/Buffer_Write.thy ===== *)
theory Buffer_Write
  imports Buffer_Codec
begin

text \<open>
  Bytes written through an iterator into a buffer that has just grown, the copy of a buffer to a
  byte array, and the full copy that gives the zero area storage.
\<close>

section \<open>Writing into the grown part\<close>

lemma nth_splice_in: "i + length ys \<le> length xs \<Longrightarrow> j < length ys \<Longrightarrow> splice i ys xs ! (i + j) = ys ! j"
  by (simp add: nth_splice)

lemma bytes_of_splice_unseen:
  assumes "offsets_ok c" and "off + length ys \<le> length xs" and "GetInternalEnd c \<le> length xs"
    and "off + length ys \<le> m_start c \<or> GetInternalEnd c \<le> off"
  shows "bytes_of (splice off ys xs) c = bytes_of xs c"
proof -
  have "byte_at (splice off ys xs) c i = byte_at xs c i" if "i < buf_GetSize c" for i
    using that assms by (auto simp: byte_at_def nth_splice offsets_ok_def GetInternalEnd_def buf_GetSize_def zsize_def)
  then show ?thesis by (simp add: bytes_of_def)
qed

lemma write_inv:
  assumes i: "buf_inv h (add_mset b B)" and d: "datas h (m_data b) = Some d" and l: "off + length ys \<le> m_size d"
    and u: "unseen (m_data b) off (length ys) B" and h1: "h1 = set_data (m_data b) (d\<lparr>m_bytes := splice off ys (m_bytes d)\<rparr>) h"
  shows "buf_inv h1 (add_mset b B)" and "\<forall>c \<in># B. content h1 c = content h c"
proof -
  have lb: "length (m_bytes d) = m_size d" using buf_invD [OF i] d by auto
  have s: "store_ok h1 (image_mset m_data (add_mset b B))"
    using i d l lb unfolding h1 by (intro store_ok_set_data) (auto simp: buf_inv_def)
  have "buffers_ok h1 (add_mset b B)"
    using i d by (fastforce simp: h1 buf_inv_def buffers_ok_def seen_def)
  moreover have "shared_ok h1 (add_mset b B)"
    using i d by (simp add: h1 buf_inv_def shared_ok_def del: sharing_add)
  ultimately show "buf_inv h1 (add_mset b B)" using s by (simp add: buf_inv_def)
  show "\<forall>c \<in># B. content h1 c = content h c"
  proof
    fix c assume c: "c \<in># B"
    show "content h1 c = content h c"
    proof (cases "m_data c = m_data b")
      case True
      have sc: "seen d c" using i c d True by (fastforce simp: buf_inv_def buffers_ok_def)
      then have "bytes_of (splice off ys (m_bytes d)) c = bytes_of (m_bytes d) c"
        using u c True l lb by (intro bytes_of_splice_unseen) (auto simp: seen_def unseen_def)
      then show ?thesis using True d by (simp add: h1 content_def)
    qed (simp add: h1 content_def)
  qed
qed

lemma bytes_of_splice_front:
  assumes "offsets_ok b" and "m_start b + length ys \<le> m_zeroAreaStart b" and "GetInternalEnd b \<le> length xs"
  shows "bytes_of (splice (m_start b) ys xs) b = ys @ drop (length ys) (bytes_of xs b)"
proof (rule nth_equalityI)
  show "length (bytes_of (splice (m_start b) ys xs) b) = length (ys @ drop (length ys) (bytes_of xs b))"
    using assms by (auto simp: bytes_of_def buf_GetSize_def offsets_ok_def)
  fix i assume "i < length (bytes_of (splice (m_start b) ys xs) b)"
  then have i: "i < buf_GetSize b" by (simp add: bytes_of_def)
  have l: "m_start b + length ys \<le> length xs" using assms by (auto simp: offsets_ok_def GetInternalEnd_def)
  have "byte_at (splice (m_start b) ys xs) b i = (if i < length ys then ys ! i else byte_at xs b i)"
    using i assms l by (auto simp: byte_at_def nth_splice offsets_ok_def GetInternalEnd_def buf_GetSize_def zsize_def)
  then show "bytes_of (splice (m_start b) ys xs) b ! i = (ys @ drop (length ys) (bytes_of xs b)) ! i"
    using i assms by (auto simp: bytes_of_def nth_append)
qed

lemma bytes_of_splice_back:
  assumes "offsets_ok b" and "m_zeroAreaEnd b + length ys \<le> m_end b" and "GetInternalEnd b \<le> length xs"
  shows "bytes_of (splice (GetInternalEnd b - length ys) ys xs) b = take (buf_GetSize b - length ys) (bytes_of xs b) @ ys"
proof (rule nth_equalityI)
  let ?o = "GetInternalEnd b - length ys"
  show "length (bytes_of (splice ?o ys xs) b) = length (take (buf_GetSize b - length ys) (bytes_of xs b) @ ys)"
    using assms by (auto simp: bytes_of_def buf_GetSize_def offsets_ok_def)
  fix i assume "i < length (bytes_of (splice ?o ys xs) b)"
  then have i: "i < buf_GetSize b" by (simp add: bytes_of_def)
  have l: "?o + length ys \<le> length xs" "length ys \<le> GetInternalEnd b" using assms by (auto simp: offsets_ok_def GetInternalEnd_def)
  show "bytes_of (splice ?o ys xs) b ! i = (take (buf_GetSize b - length ys) (bytes_of xs b) @ ys) ! i"
  proof (cases "i < buf_GetSize b - length ys")
    case True
    have "byte_at (splice ?o ys xs) b i = byte_at xs b i"
      using True i assms l by (auto simp: byte_at_def nth_splice offsets_ok_def GetInternalEnd_def buf_GetSize_def zsize_def)
    then show ?thesis using True i by (simp add: bytes_of_def nth_append)
  next
    case False
    define j where "j = i - (buf_GetSize b - length ys)"
    have j: "m_start b + i - zsize b = ?o + j" "j < length ys" "\<not> m_start b + i < m_zeroAreaEnd b"
      using False i assms by (auto simp: j_def offsets_ok_def GetInternalEnd_def buf_GetSize_def zsize_def)
    have "byte_at (splice ?o ys xs) b i = splice ?o ys xs ! (?o + j)" using j assms(1) by (auto simp: byte_at_def offsets_ok_def)
    also have "\<dots> = ys ! j" using l(1) j(2) by (rule nth_splice_in)
    finally show ?thesis using False i by (simp add: bytes_of_def nth_append j_def min_def)
  qed
qed

text \<open>A header in front: AddAtStart, then its writers at the beginning.\<close>

lemma push_front_raw:
  assumes i: "buf_inv h (add_mset b B)" and w: "emits_raw w bs"
  shows "\<exists>b1 h1 it h2. buf_AddAtStart (length bs) b h = Some (b1, h1) \<and> w (buf_Begin b1) h1 = Some (it, h2) \<and>
    buf_inv h2 (add_mset b1 B) \<and> content h2 b1 = bs @ content h b \<and> (\<forall>c \<in># B. content h2 c = content h c)"
proof -
  obtain b1 h1 where a: "buf_AddAtStart (length bs) b h = Some (b1, h1)" "grown h b B (length bs) h1 b1 (m_start b1)"
    "drop (length bs) (content h1 b1) = content h b" "m_start b1 + length bs \<le> m_zeroAreaStart b1"
    using AddAtStart_ok [OF i, of "length bs"] by blast
  have i1: "buf_inv h1 (add_mset b1 B)" and u: "unseen (m_data b1) (m_start b1) (length bs) B"
    and o: "\<forall>c \<in># B. content h1 c = content h c" using a(2) by (auto simp: grown_def)
  obtain d where d: "datas h1 (m_data b1) = Some d" "seen d b1" "length (m_bytes d) = m_size d" using buf_invD [OF i1] by blast
  have ok: "offsets_ok b1" "GetInternalEnd b1 \<le> m_size d" using d(2) by (auto simp: seen_def)
  have l: "m_start b1 + length bs \<le> m_size d" using ok a(4) by (auto simp: offsets_ok_def GetInternalEnd_def)
  define h2 where "h2 = set_data (m_data b1) (d\<lparr>m_bytes := splice (m_start b1) bs (m_bytes d)\<rparr>) h1"
  have r: "room (length bs) (buf_Begin b1)" "place (length bs) (buf_Begin b1) = m_start b1"
    using a(4) ok(1) by (auto simp: room_def place_def buf_Begin_def offsets_ok_def)
  have "w (buf_Begin b1) h1 = Some (advance (length bs) (buf_Begin b1), h2)"
    using w r d l by (simp add: emits_raw_def h2_def buf_Begin_def)
  moreover have "buf_inv h2 (add_mset b1 B)" "\<forall>c \<in># B. content h2 c = content h1 c"
    using write_inv [OF i1 d(1) l _ h2_def] u by simp_all
  moreover have "content h2 b1 = bs @ content h b"
    using bytes_of_splice_front [OF ok(1), of "bs" "m_bytes d"] a(3,4) ok(2) d by (simp add: content_def h2_def)
  ultimately show ?thesis using a(1) o by auto
qed

text \<open>A trailer behind: AddAtEnd, and its writers from \<open>length bs\<close> bytes before the end.\<close>

lemma push_back_raw:
  assumes i: "buf_inv h (add_mset b B)" and w: "emits_raw w bs"
  shows "\<exists>b1 h1 it0 it h2. buf_AddAtEnd (length bs) b h = Some (b1, h1) \<and> it_Prev (length bs) (buf_End b1) = Some it0 \<and>
    w it0 h1 = Some (it, h2) \<and> buf_inv h2 (add_mset b1 B) \<and> content h2 b1 = content h b @ bs \<and>
    (\<forall>c \<in># B. content h2 c = content h c)"
proof -
  obtain b1 h1 where a: "buf_AddAtEnd (length bs) b h = Some (b1, h1)" "grown h b B (length bs) h1 b1 (GetInternalEnd b1 - length bs)"
    "take (buf_GetSize b) (content h1 b1) = content h b" "m_zeroAreaEnd b1 + length bs \<le> m_end b1"
    using AddAtEnd_ok [OF i, of "length bs"] by blast
  let ?o = "GetInternalEnd b1 - length bs"
  have i1: "buf_inv h1 (add_mset b1 B)" and u: "unseen (m_data b1) ?o (length bs) B"
    and o: "\<forall>c \<in># B. content h1 c = content h c" and sz: "buf_GetSize b1 = buf_GetSize b + length bs"
    using a(2) by (auto simp: grown_def)
  obtain d where d: "datas h1 (m_data b1) = Some d" "seen d b1" "length (m_bytes d) = m_size d" using buf_invD [OF i1] by blast
  have ok: "offsets_ok b1" "GetInternalEnd b1 \<le> m_size d" using d(2) by (auto simp: seen_def)
  have l: "?o + length bs \<le> m_size d" using ok a(4) by (auto simp: offsets_ok_def GetInternalEnd_def)
  define it0 where "it0 = (buf_Begin b1)\<lparr>m_current := m_end b1 - length bs\<rparr>"
  have p: "it_Prev (length bs) (buf_End b1) = Some it0"
    using a(4) by (simp add: it_Prev_def buf_End_def it0_def)
  define h2 where "h2 = set_data (m_data b1) (d\<lparr>m_bytes := splice ?o bs (m_bytes d)\<rparr>) h1"
  have r: "room (length bs) it0" using a(4) ok(1) by (auto simp: room_def it0_def buf_Begin_def offsets_ok_def)
  have pl: "place (length bs) it0 = ?o"
  proof (cases "m_end b1 \<le> m_zeroAreaStart b1")
    case True
    then show ?thesis using ok(1) a(4) by (auto simp: place_def it0_def buf_Begin_def offsets_ok_def GetInternalEnd_def)
  next
    case False
    then show ?thesis using a(4) ok(1) by (auto simp: place_def it0_def buf_Begin_def offsets_ok_def GetInternalEnd_def zero_size_def)
  qed
  have "w it0 h1 = Some (advance (length bs) it0, h2)"
    using w r pl d l by (simp add: emits_raw_def h2_def it0_def buf_Begin_def)
  moreover have "buf_inv h2 (add_mset b1 B)" "\<forall>c \<in># B. content h2 c = content h1 c"
    using write_inv [OF i1 d(1) l _ h2_def] u by simp_all
  moreover have "content h2 b1 = content h b @ bs"
    using bytes_of_splice_back [OF ok(1), of "bs" "m_bytes d"] a(3,4) ok(2) d sz by (simp add: content_def h2_def)
  ultimately show ?thesis using a(1) o p by auto
qed

lemmas push_front_ok = push_front_raw [OF _ emits_def [THEN iffD1], unfolded length_map]
lemmas push_back_ok = push_back_raw [OF _ emits_def [THEN iffD1], unfolded length_map]

section \<open>Copies\<close>

text \<open>The parts of the content in front of, in and behind the zero area.\<close>

lemma content_parts:
  assumes i: "buf_inv h (add_mset b B)"
  shows "mem_read (m_data b) (m_start b) (m_zeroAreaStart b - m_start b) h = Some (take (m_zeroAreaStart b - m_start b) (content h b))"
    and "take (zsize b) (drop (m_zeroAreaStart b - m_start b) (content h b)) = replicate (zsize b) (Some 0)"
    and "mem_read (m_data b) (m_zeroAreaStart b) (m_end b - m_zeroAreaEnd b) h = Some (drop (m_zeroAreaEnd b - m_start b) (content h b))"
proof -
  obtain d where d: "datas h (m_data b) = Some d" "seen d b" "length (m_bytes d) = m_size d" using buf_invD [OF i] by blast
  have ok: "offsets_ok b" "GetInternalEnd b \<le> length (m_bytes d)" using d(2,3) by (auto simp: seen_def)
  have c: "content h b = bytes_of (m_bytes d) b" using d(1) by (simp add: content_def)
  have "take (m_zeroAreaStart b - m_start b) (drop (m_start b) (m_bytes d)) = take (m_zeroAreaStart b - m_start b) (bytes_of (m_bytes d) b)"
    by (rule nth_equalityI) (use ok in \<open>auto simp: bytes_of_def buf_GetSize_def byte_at_def offsets_ok_def GetInternalEnd_def\<close>)
  then show "mem_read (m_data b) (m_start b) (m_zeroAreaStart b - m_start b) h = Some (take (m_zeroAreaStart b - m_start b) (content h b))"
    using d(1) ok by (auto simp: mem_read_def c offsets_ok_def GetInternalEnd_def)
  show "take (zsize b) (drop (m_zeroAreaStart b - m_start b) (content h b)) = replicate (zsize b) (Some 0)"
    unfolding c
    by (rule nth_equalityI) (use ok in \<open>auto simp: bytes_of_def buf_GetSize_def byte_at_def offsets_ok_def zsize_def\<close>)
  have "take (m_end b - m_zeroAreaEnd b) (drop (m_zeroAreaStart b) (m_bytes d)) = drop (m_zeroAreaEnd b - m_start b) (bytes_of (m_bytes d) b)"
  proof (rule nth_equalityI)
    fix j assume "j < length (take (m_end b - m_zeroAreaEnd b) (drop (m_zeroAreaStart b) (m_bytes d)))"
    then have j: "j < m_end b - m_zeroAreaEnd b" "m_zeroAreaStart b + j < length (m_bytes d)" by auto
    have "m_start b + (m_zeroAreaEnd b - m_start b + j) - zsize b = m_zeroAreaStart b + j"
      using ok(1) by (auto simp: offsets_ok_def zsize_def)
    then have "byte_at (m_bytes d) b (m_zeroAreaEnd b - m_start b + j) = m_bytes d ! (m_zeroAreaStart b + j)"
      using ok(1) by (auto simp: byte_at_def offsets_ok_def)
    then show "take (m_end b - m_zeroAreaEnd b) (drop (m_zeroAreaStart b) (m_bytes d)) ! j =
        drop (m_zeroAreaEnd b - m_start b) (bytes_of (m_bytes d) b) ! j"
      using j ok(1) by (auto simp: bytes_of_def buf_GetSize_def offsets_ok_def)
  qed (use ok in \<open>auto simp: bytes_of_def buf_GetSize_def offsets_ok_def GetInternalEnd_def\<close>)
  then show "mem_read (m_data b) (m_zeroAreaStart b) (m_end b - m_zeroAreaEnd b) h = Some (drop (m_zeroAreaEnd b - m_start b) (content h b))"
    using d(1) ok by (auto simp: mem_read_def c offsets_ok_def GetInternalEnd_def)
qed

lemma mem_read_take: "mem_read a off n h = Some xs \<Longrightarrow> mem_read a off (min n k) h = Some (take k xs)"
  by (auto simp: mem_read_def min_def split: Option.bind_splits if_splits)

lemma copy_zeroes_eq [simp]: "copy_zeroes n = replicate n (Some 0)"
proof (induction n rule: copy_zeroes.induct)
  case (1 left)
  then show ?case by (subst copy_zeroes.simps) (auto simp: replicate_add [symmetric] min_def simp del: copy_zeroes.simps)
qed

declare copy_zeroes.simps [simp del]

lemma content_split:
  assumes i: "buf_inv h (add_mset b B)"
  shows "content h b = take (m_zeroAreaStart b - m_start b) (content h b) @ replicate (zsize b) (Some 0) @
    drop (m_zeroAreaEnd b - m_start b) (content h b)"
proof -
  obtain d where "seen d b" using buf_invD [OF i] by blast
  then have o: "m_zeroAreaEnd b - m_start b = m_zeroAreaStart b - m_start b + zsize b" by (auto simp: seen_def offsets_ok_def zsize_def)
  show ?thesis unfolding content_parts(2) [OF i, symmetric] o
    by (metis append_take_drop_id drop_drop add.commute)
qed

lemma CopyData_ok:
  assumes i: "buf_inv h (add_mset b B)"
  shows "buf_CopyData n b h = Some (take n (content h b))"
proof -
  let ?a = "m_zeroAreaStart b - m_start b" and ?e = "m_end b - m_zeroAreaEnd b"
  let ?X = "take ?a (content h b)" and ?Z = "drop (m_zeroAreaEnd b - m_start b) (content h b)"
  obtain d where "seen d b" using buf_invD [OF i] by blast
  then have ok: "offsets_ok b" by (simp add: seen_def)
  have lX: "length ?X = ?a" "length ?Z = ?e"
    using ok length_content [OF i] by (auto simp: offsets_ok_def buf_GetSize_def)
  have t: "take n (content h b) = take n ?X @ replicate (min (n - ?a) (zsize b)) (Some 0) @ take (n - ?a - zsize b) ?Z"
    by (subst content_split [OF i]) (simp add: lX(1) del: take_take length_take)
  have r1: "mem_read (m_data b) (m_start b) (min ?a n) h = Some (take n ?X)"
    by (rule mem_read_take [OF content_parts(1) [OF i]])
  have r3: "mem_read (m_data b) (m_zeroAreaStart b) (min ?e k) h = Some (take k ?Z)" for k
    by (rule mem_read_take [OF content_parts(3) [OF i]])
  have k: "n - min ?a n = n - ?a" "\<And>k. k - min (zsize b) k = k - zsize b" by auto
  consider "n - ?a = 0" | "0 < n - ?a" "n - ?a \<le> zsize b" | "zsize b < n - ?a" by linarith
  then show ?thesis
  proof cases
    case 1
    then show ?thesis unfolding t using r1 by (simp add: buf_CopyData_def)
  next
    case 2
    then show ?thesis unfolding t using r1 by (auto simp: buf_CopyData_def Let_def zsize_def [symmetric] min_absorb1 min_absorb2)
  next
    case 3
    then show ?thesis unfolding t using r1 r3 [of "n - ?a - zsize b"]
      by (auto simp: buf_CopyData_def Let_def zsize_def [symmetric] min_absorb1)
  qed
qed

text \<open>Growing keeps the size of the zero area, and moves only to a storage that no other buffer has.\<close>

lemma grow_shape:
  assumes i: "buf_inv h (add_mset b B)"
  shows "buf_AddAtStart n b h = Some (b1, h1) \<Longrightarrow> zsize b1 = zsize b \<and> (m_data b1 = m_data b \<or> m_data b1 \<notin># image_mset m_data B)"
    and "buf_AddAtEnd n b h = Some (b1, h1) \<Longrightarrow> zsize b1 = zsize b \<and> (m_data b1 = m_data b \<or> m_data b1 \<notin># image_mset m_data B)"
proof -
  obtain d where d: "datas h (m_data b) = Some d" "seen d b" using buf_invD [OF i] by blast
  then have ok: "offsets_ok b" by (simp add: seen_def)
  assume a: "buf_AddAtStart n b h = Some (b1, h1)"
  show "zsize b1 = zsize b \<and> (m_data b1 = m_data b \<or> m_data b1 \<notin># image_mset m_data B)"
  proof (cases "n \<le> m_start b \<and> \<not> (1 < m_count d \<and> m_dirtyStart d < m_start b)")
    case True
    then show ?thesis using a d(1) by (auto simp: buf_AddAtStart_def Let_def zsize_def split: if_splits)
  next
    case False
    then obtain a h2 where m: "buf_move (GetInternalSize b + n) n b h = Some (a, h2)" "m_data b1 = a" "zsize b1 = zsize b"
      using a d(1) ok by (auto simp: buf_AddAtStart_def zsize_def offsets_ok_def simp del: if_not_P split: Option.bind_splits)
    moreover have "a \<notin># image_mset m_data B" using move_ok [OF i, of n "GetInternalSize b + n"] m(1) by auto
    ultimately show ?thesis by blast
  qed
next
  obtain d where d: "datas h (m_data b) = Some d" "seen d b" using buf_invD [OF i] by blast
  then have ok: "offsets_ok b" by (simp add: seen_def)
  assume a: "buf_AddAtEnd n b h = Some (b1, h1)"
  show "zsize b1 = zsize b \<and> (m_data b1 = m_data b \<or> m_data b1 \<notin># image_mset m_data B)"
  proof (cases "GetInternalEnd b + n \<le> m_size d \<and> \<not> (1 < m_count d \<and> m_end b < m_dirtyEnd d)")
    case True
    then show ?thesis using a d(1) by (auto simp: buf_AddAtEnd_def Let_def zsize_def split: if_splits)
  next
    case False
    then obtain a h2 where m: "buf_move (GetInternalSize b + n) 0 b h = Some (a, h2)" "m_data b1 = a" "zsize b1 = zsize b"
      using a d(1) ok by (auto simp: buf_AddAtEnd_def zsize_def offsets_ok_def simp del: if_not_P split: Option.bind_splits)
    moreover have "a \<notin># image_mset m_data B" using move_ok [OF i, of 0 "GetInternalSize b + n"] m(1) by auto
    ultimately show ?thesis by blast
  qed
qed

lemma Initialize_shape:
  assumes "buf_inv h B" and "buf_Initialize n h = Some (b, h1)"
  shows "zsize b = n" and "m_data b \<notin># image_mset m_data B"
  using Create_ok [of h "image_mset m_data B" 0] assms by (auto simp: buf_inv_def buf_Initialize_def zsize_def Let_def)

lemma CreateFullCopy_plain: "zsize b = 0 \<Longrightarrow> buf_CreateFullCopy b h = buf_copy b h"
  by (simp add: buf_CreateFullCopy_def zsize_def)

lemma CreateFullCopy_real:
  assumes i: "buf_inv h B" and b: "b \<in># B" and z: "0 < zsize b"
  shows "\<exists>b1 h1. buf_CreateFullCopy b h = Some (b1, h1) \<and> buf_inv h1 (add_mset b1 B) \<and> content h1 b1 = content h b \<and>
    (\<forall>c \<in># B. content h1 c = content h c) \<and> zsize b1 = 0 \<and> m_data b1 \<notin># image_mset m_data B"
proof -
  let ?X = "take (m_zeroAreaStart b - m_start b) (content h b)" and ?Z = "drop (m_zeroAreaEnd b - m_start b) (content h b)"
  obtain B' where B: "B = add_mset b B'" using b by (metis insert_DiffM)
  obtain d where "seen d b" using buf_invD [OF i [unfolded B]] by blast
  then have ok: "offsets_ok b" by (simp add: seen_def)
  have l: "length (content h b) = buf_GetSize b" using length_content i B by simp
  have lX: "m_zeroAreaStart b - m_start b = length ?X" "m_end b - m_zeroAreaEnd b = length ?Z"
    using ok l by (auto simp: offsets_ok_def buf_GetSize_def)
  let ?in = "\<lambda>h'. \<forall>c \<in># B. content h' c = content h c"
  obtain t0 h0 where 0: "buf_Initialize 0 h = Some (t0, h0)" "buf_inv h0 (add_mset t0 B)" "content h0 t0 = []" "?in h0"
    using Initialize_ok [OF i, of 0] by auto
  obtain t1 h1 i1 h2 where 1: "buf_AddAtStart (zsize b) t0 h0 = Some (t1, h1)" "WriteU8_n 0 (zsize b) (buf_Begin t1) h1 = Some (i1, h2)"
    "buf_inv h2 (add_mset t1 B)" "content h2 t1 = replicate (zsize b) (Some 0)" "?in h2"
    using push_front_ok [OF 0(2) emits_WriteU8_n, of "zsize b" 0] 0(3,4) by auto
  obtain t3 h3 i3 h4 where 2: "buf_AddAtStart (length ?X) t1 h2 = Some (t3, h3)" "it_Write ?X (buf_Begin t3) h3 = Some (i3, h4)"
    "buf_inv h4 (add_mset t3 B)" "content h4 t3 = ?X @ replicate (zsize b) (Some 0)" "?in h4"
    using push_front_raw [OF 1(3) emits_it_Write, of ?X] 1(4,5) by auto
  obtain t5 h5 i5 i6 h6 where 3: "buf_AddAtEnd (length ?Z) t3 h4 = Some (t5, h5)" "it_Prev (length ?Z) (buf_End t5) = Some i5"
    "it_Write ?Z i5 h5 = Some (i6, h6)" "buf_inv h6 (add_mset t5 B)" "content h6 t5 = ?X @ replicate (zsize b) (Some 0) @ ?Z" "?in h6"
    using push_back_raw [OF 2(3) emits_it_Write, of ?Z] 2(4,5) by auto
  have in3: "buf_inv h3 (add_mset t3 B)" "content h3 b = content h b"
    using AddAtStart_ok [OF 1(3), of "length ?X"] 2(1) 1(5) b by (auto simp: grown_def)
  have in5: "buf_inv h5 (add_mset t5 B)" "content h5 b = content h b"
    using AddAtEnd_ok [OF 2(3), of "length ?Z"] 3(1) 2(5) b by (auto simp: grown_def)
  have r1: "mem_read (m_data b) (m_start b) (length ?X) h3 = Some ?X"
    using content_parts(1) [of h3 b "add_mset t3 B'"] in3 B lX(1) by (simp add: add_mset_commute)
  have r2: "mem_read (m_data b) (m_zeroAreaStart b) (length ?Z) h5 = Some ?Z"
    using content_parts(3) [of h5 b "add_mset t5 B'"] in5 B lX(2) by (simp add: add_mset_commute)
  have "buf_CreateFullCopy b h = Some (t5, h6)"
    using z 0(1) 1(1,2) 2(1,2) 3(1,2,3) r1 r2 lX
    by (simp add: buf_CreateFullCopy_def zsize_def [symmetric] del: length_take length_drop)
  moreover have "zsize t5 = 0 \<and> m_data t5 \<notin># image_mset m_data B"
    using Initialize_shape [OF i 0(1)] grow_shape(1) [OF 0(2) 1(1)] grow_shape(1) [OF 1(3) 2(1)] grow_shape(2) [OF 2(3) 3(1)] by metis
  moreover have "content h6 t5 = content h b" using 3(5) content_split [OF i [unfolded B]] by simp
  ultimately show ?thesis using 3(4,6) by blast
qed

end
