(* ===== verification/Buffer_Concat.thy ===== *)
theory Buffer_Concat
  imports Buffer_Write
begin

text \<open>
  Buffer::AddAtEnd(const Buffer&): the concatenation of two buffers. It is right when the other
  buffer lies in another storage and ends with its zero area or does not take the path for
  adjacent zero areas; two closed evaluations show what happens otherwise.
\<close>

section \<open>Writing one buffer into another\<close>

lemma write_at_Some:
  "datas h (it_data it) = Some d \<Longrightarrow> off + length bs \<le> length (m_bytes d) \<Longrightarrow>
   write_at off bs it h = Some (advance (length bs) it, set_data (it_data it) (d\<lparr>m_bytes := splice off bs (m_bytes d)\<rparr>) h)"
  by (simp add: write_at_def mem_write_Some advance_def)

lemma mem_read_other: "a \<noteq> a' \<Longrightarrow> mem_read a off n (set_data a' d h) = mem_read a off n h"
  by (simp add: mem_read_def)

lemma it_Write_range_steps:
  assumes "it_data start = it_data e" "m_current start \<le> m_current e" "m_zeroStart start = m_zeroStart e" "m_zeroEnd start = m_zeroEnd e"
    "it_data it \<noteq> it_data start" "CheckNoZero (m_current it) (m_current it + (m_current e - m_current start)) it"
    and "(if m_current start \<le> m_zeroStart start then min (m_current e - m_current start) (m_zeroStart start - m_current start) else 0) = n1"
    and "mem_read (it_data start) (m_current start) n1 h = Some bs1" and "write_at (m_current it) bs1 it h = Some (it1, h1)"
    and "(if m_current start + n1 \<le> m_zeroEnd start
          then min (m_current e - m_current start - n1) (m_zeroEnd start - (m_current start + n1)) else 0) = n2"
    and "write_at (m_current it1) (replicate n2 (Some 0)) it1 h1 = Some (it2, h2)"
    and "min (m_current e - m_current start - n1 - n2) (m_dataEnd start - (m_current start + n1 + n2)) = n3"
    and "mem_read (it_data start) (m_current start + n1 + n2 - zero_size start) n3 h2 = Some bs3"
    and "write_at (m_current it2) bs3 it2 h2 = Some r"
  shows "it_Write_range start e it h = Some r"
proof -
  have "it_data start = it_data e \<and> m_current start \<le> m_current e \<and> m_zeroStart start = m_zeroStart e \<and>
    m_zeroEnd start = m_zeroEnd e \<and> it_data it \<noteq> it_data start \<and>
    CheckNoZero (m_current it) (m_current it + (m_current e - m_current start)) it" using assms(1-6) by blast
  from if_P [OF this] show ?thesis by (simp only: it_Write_range_def Let_def assms(7-) bind.simps prod.case)
qed

lemma write_range_eq:
  assumes i: "buf_inv h (add_mset c B)" and a: "it_data it \<noteq> m_data c" and z: "m_zeroStart it = m_zeroEnd it"
    and r: "room (buf_GetSize c) it" and d: "datas h (it_data it) = Some d" and l: "m_current it + buf_GetSize c \<le> length (m_bytes d)"
  shows "it_Write_range (buf_Begin c) (buf_End c) it h = it_Write (content h c) it h"
proof -
  let ?n1 = "m_zeroAreaStart c - m_start c" and ?n3 = "m_end c - m_zeroAreaEnd c"
  let ?X = "take ?n1 (content h c)" and ?Y = "replicate (zsize c) (Some 0)" and ?Z = "drop (m_zeroAreaEnd c - m_start c) (content h c)"
  obtain e where "seen e c" using buf_invD [OF i] by blast
  then have ok: "offsets_ok c" by (simp add: seen_def)
  have lc: "length (content h c) = buf_GetSize c" using length_content [OF i] .
  have n: "length ?X = ?n1" "length ?Z = ?n3" "buf_GetSize c = ?n1 + zsize c + ?n3"
    using ok lc by (auto simp: offsets_ok_def buf_GetSize_def zsize_def)
  have w: "it_Write (content h c) it h = Some (advance (buf_GetSize c) it,
      set_data (it_data it) (d\<lparr>m_bytes := splice (m_current it) (content h c) (m_bytes d)\<rparr>) h)"
    using emits_it_Write [of "content h c", unfolded emits_raw_def, rule_format, of it h d] r d l z lc
    by (simp add: place_def zero_size_def)
  let ?p = "m_current it"
  let ?d1 = "d\<lparr>m_bytes := splice ?p ?X (m_bytes d)\<rparr>"
  let ?d2 = "d\<lparr>m_bytes := splice ?p (?X @ ?Y) (m_bytes d)\<rparr>"
  have s: "splice (?p + ?n1) ?Y (splice ?p ?X (m_bytes d)) = splice ?p (?X @ ?Y) (m_bytes d)"
    using splice_splice [of ?p ?X "m_bytes d" ?Y] n l by simp
  have s2: "splice (?p + ?n1 + zsize c) ?Z (splice ?p (?X @ ?Y) (m_bytes d)) = splice ?p (content h c) (m_bytes d)"
    using splice_splice [of ?p "?X @ ?Y" "m_bytes d" ?Z] n l by (subst (3) content_split [OF i]) (simp add: add.assoc)
  have w1: "write_at ?p ?X it h = Some (advance ?n1 it, set_data (it_data it) ?d1 h)"
    using write_at_Some [OF d, of ?p ?X] l by (simp add: n del: length_take)
  have w2: "write_at (?p + ?n1) ?Y (advance ?n1 it) (set_data (it_data it) ?d1 h) =
      Some (advance (?n1 + zsize c) it, set_data (it_data it) ?d2 h)"
    using write_at_Some [of "set_data (it_data it) ?d1 h" "advance ?n1 it" ?d1 "?p + ?n1" ?Y] s n l by simp
  have w3: "write_at (?p + (?n1 + zsize c)) ?Z (advance (?n1 + zsize c) it) (set_data (it_data it) ?d2 h) =
      Some (advance (buf_GetSize c) it, set_data (it_data it) (d\<lparr>m_bytes := splice ?p (content h c) (m_bytes d)\<rparr>) h)"
    using write_at_Some [of "set_data (it_data it) ?d2 h" "advance (?n1 + zsize c) it" ?d2 "?p + ?n1 + zsize c" ?Z] s2 n l
    by (simp add: add.assoc)
  have c: "CheckNoZero ?p (?p + (m_end c - m_start c)) it" using room_no_zero [OF r] by (simp add: buf_GetSize_def)
  have k: "m_start c \<le> m_zeroAreaStart c" "m_zeroAreaStart c \<le> m_zeroAreaEnd c" "m_zeroAreaEnd c \<le> m_end c"
    using ok by (auto simp: offsets_ok_def)
  have r3: "mem_read (m_data c) (m_zeroAreaStart c) ?n3 (set_data (it_data it) ?d2 h) = Some ?Z"
    using content_parts(3) [OF i] a by (simp add: mem_read_other)
  have o3: "m_start c + ?n1 + zsize c - zero_size (buf_Begin c) = m_zeroAreaStart c"
    using k by (simp add: zsize_def zero_size_def buf_Begin_def)
  show ?thesis
    unfolding w
  proof (rule it_Write_range_steps [where ?n1.0 = ?n1 and ?n2.0 = "zsize c" and ?n3.0 = ?n3])
    show "write_at (m_current it) ?X it h = Some (advance ?n1 it, set_data (it_data it) ?d1 h)" by (rule w1)
    show "write_at (m_current (advance ?n1 it)) ?Y (advance ?n1 it) (set_data (it_data it) ?d1 h) =
      Some (advance (?n1 + zsize c) it, set_data (it_data it) ?d2 h)" using w2 by simp
    show "write_at (m_current (advance (?n1 + zsize c) it)) ?Z (advance (?n1 + zsize c) it) (set_data (it_data it) ?d2 h) =
      Some (advance (buf_GetSize c) it, set_data (it_data it) (d\<lparr>m_bytes := splice ?p (content h c) (m_bytes d)\<rparr>) h)" using w3 by simp
    show "mem_read (it_data (buf_Begin c)) (m_current (buf_Begin c) + ?n1 + zsize c - zero_size (buf_Begin c)) ?n3
      (set_data (it_data it) ?d2 h) = Some ?Z" using r3 o3 by (simp add: buf_Begin_def)
    show "mem_read (it_data (buf_Begin c)) (m_current (buf_Begin c)) ?n1 h = Some ?X" using content_parts(1) [OF i] by (simp add: buf_Begin_def)
  qed (use c a k in \<open>auto simp: buf_Begin_def buf_End_def zsize_def\<close>)
qed

section \<open>Concatenation\<close>

text \<open>The condition of the path for adjacent zero areas.\<close>

definition adjacent_zeros :: "buf_heap \<Rightarrow> Buffer \<Rightarrow> Buffer \<Rightarrow> bool" where
  "adjacent_zeros h b c \<longleftrightarrow>
     (case datas h (m_data b) of None \<Rightarrow> False
      | Some d \<Rightarrow> m_count d = 1 \<and> (m_end b = m_zeroAreaEnd b \<or> m_zeroAreaStart b = m_zeroAreaEnd b) \<and>
          m_end b = m_dirtyEnd d \<and> m_start c = m_zeroAreaStart c \<and> 0 < m_zeroAreaEnd c - m_zeroAreaStart c)"

text \<open>\<open>*this = CreateFullCopy ()\<close>: the buffer without a zero area.\<close>

lemma real_copy_ok:
  assumes i: "buf_inv h (add_mset b B)"
  shows "\<exists>t h1 h2 h3. buf_CreateFullCopy b h = Some (t, h1) \<and> buf_assign b t h1 = Some (t, h2) \<and> buf_destroy t h2 = Some h3 \<and>
    buf_inv h3 (add_mset t B) \<and> content h3 t = content h b \<and> (\<forall>c \<in># B. content h3 c = content h c) \<and> zsize t = 0 \<and>
    (if zsize b = 0 then m_data t = m_data b else m_data t \<notin># image_mset m_data B)"
proof -
  obtain t h1 where t: "buf_CreateFullCopy b h = Some (t, h1)" "buf_inv h1 (add_mset t (add_mset b B))" "content h1 t = content h b"
    "\<forall>c \<in># add_mset b B. content h1 c = content h c" "zsize t = 0"
    "if zsize b = 0 then m_data t = m_data b else m_data t \<notin># image_mset m_data B"
  proof (cases "zsize b = 0")
    case True
    obtain t h1 where c: "buf_copy b h = Some (t, h1)" "buf_inv h1 (add_mset t (add_mset b B))" "content h1 t = content h b"
      "\<forall>c \<in># add_mset b B. content h1 c = content h c" using copy_ok [OF i] by blast
    have "zsize t = 0" "m_data t = m_data b" using c(1) True by (auto simp: buf_copy_def split: Option.bind_splits)
    then show ?thesis using that c True CreateFullCopy_plain [OF True, of h] by auto
  next
    case False
    then show ?thesis using that CreateFullCopy_real [OF i, of b] by auto
  qed
  obtain h2 where a: "buf_assign b t h1 = Some (t, h2)" "buf_inv h2 (add_mset t (add_mset t B))"
    "\<forall>c \<in># add_mset t B. content h2 c = content h1 c" using assign_ok [of h1 b t B] t(2) by (metis add_mset_commute)
  obtain h3 where "buf_destroy t h2 = Some h3" "buf_inv h3 (add_mset t B)" "\<forall>c \<in># add_mset t B. content h3 c = content h2 c"
    using destroy_ok [OF a(2)] by blast
  then show ?thesis using t a by auto
qed

lemma AddAtEnd_buffer_ok:
  assumes i: "buf_inv h (add_mset b B)" and c: "c \<in># B" and n: "\<not> adjacent_zeros h b c"
    and s: "m_data c \<noteq> m_data b \<or> 0 < zsize b"
  shows "\<exists>b1 h1. buf_AddAtEnd_buffer c b h = Some (b1, h1) \<and> buf_inv h1 (add_mset b1 B) \<and>
    content h1 b1 = content h b @ content h c \<and> (\<forall>x \<in># B. content h1 x = content h x)"
proof -
  obtain d where d: "datas h (m_data b) = Some d" using buf_invD [OF i] by blast
  obtain t h1 h2 h3 where t: "buf_CreateFullCopy b h = Some (t, h1)" "buf_assign b t h1 = Some (t, h2)" "buf_destroy t h2 = Some h3"
    "buf_inv h3 (add_mset t B)" "content h3 t = content h b" "\<forall>c \<in># B. content h3 c = content h c" "zsize t = 0"
    "if zsize b = 0 then m_data t = m_data b else m_data t \<notin># image_mset m_data B"
    using real_copy_ok [OF i] by blast
  obtain B' where B: "B = add_mset c B'" using c by (metis insert_DiffM)
  have sz: "length (content h c) = buf_GetSize c" using length_content [of h c "add_mset b B'"] i B by (simp add: add_mset_commute)
  obtain t4 h4 it it' h5 where p: "buf_AddAtEnd (buf_GetSize c) t h3 = Some (t4, h4)" "it_Prev (buf_GetSize c) (buf_End t4) = Some it"
    "it_Write (content h c) it h4 = Some (it', h5)" "buf_inv h5 (add_mset t4 B)" "content h5 t4 = content h b @ content h c"
    "\<forall>x \<in># B. content h5 x = content h x"
    using push_back_raw [OF t(4) emits_it_Write, of "content h c"] t(5,6) sz by auto
  obtain t4' h4' where g: "buf_AddAtEnd (buf_GetSize c) t h3 = Some (t4', h4')" "grown h3 t B (buf_GetSize c) h4' t4' (GetInternalEnd t4' - buf_GetSize c)"
    "m_zeroAreaEnd t4' + buf_GetSize c \<le> m_end t4'" using AddAtEnd_ok [OF t(4), of "buf_GetSize c"] by blast
  then have g: "grown h3 t B (buf_GetSize c) h4 t4 (GetInternalEnd t4 - buf_GetSize c)" "m_zeroAreaEnd t4 + buf_GetSize c \<le> m_end t4"
    using p(1) by auto
  have i4: "buf_inv h4 (add_mset t4 B)" and c4: "content h4 c = content h c" using g(1) t(6) c by (auto simp: grown_def)
  have sh: "zsize t4 = 0" "m_data t4 = m_data t \<or> m_data t4 \<notin># image_mset m_data B" using grow_shape(2) [OF t(4) p(1)] t(7) by auto
  have df: "m_data t4 \<noteq> m_data c" using sh(2) t(8) s c B by (auto split: if_splits)
  obtain d4 where d4: "datas h4 (m_data t4) = Some d4" "seen d4 t4" "length (m_bytes d4) = m_size d4" using buf_invD [OF i4] by blast
  have ok: "offsets_ok t4" "m_zeroAreaStart t4 = m_zeroAreaEnd t4" "m_end t4 \<le> m_size d4"
    using d4(2) sh(1) by (auto simp: seen_def offsets_ok_def zsize_def GetInternalEnd_def)
  have it: "it = (buf_Begin t4)\<lparr>m_current := m_end t4 - buf_GetSize c\<rparr>" using p(2) by (auto simp: it_Prev_def buf_End_def split: if_splits)
  have "it_Write_range (buf_Begin c) (buf_End c) it h4 = it_Write (content h4 c) it h4"
  proof (rule write_range_eq)
    show "buf_inv h4 (add_mset c (add_mset t4 B'))" using i4 B by (simp add: add_mset_commute)
    show "datas h4 (it_data it) = Some d4" using d4(1) by (simp add: it buf_Begin_def)
  qed (use ok d4(3) g(2) df in \<open>auto simp: it buf_Begin_def room_def offsets_ok_def\<close>)
  then have w: "it_Write_range (buf_Begin c) (buf_End c) it h4 = Some (it', h5)" using p(3) c4 by simp
  have "\<not> (m_count d = 1 \<and> (m_end b = m_zeroAreaEnd b \<or> m_zeroAreaStart b = m_zeroAreaEnd b) \<and>
      m_end b = m_dirtyEnd d \<and> m_start c = m_zeroAreaStart c \<and> 0 < m_zeroAreaEnd c - m_zeroAreaStart c)"
    using n d by (simp only: adjacent_zeros_def option.case) blast
  from if_not_P [OF this] have "buf_AddAtEnd_buffer c b h = Some (t4, h5)"
    by (simp only: buf_AddAtEnd_buffer_def d t(1,2,3) p(1,2) w bind.simps prod.case)
  then show ?thesis using p(4,5,6) by blast
qed

text \<open>The path for adjacent zero areas, when the other buffer has nothing but zeros.\<close>

lemma it_Write_range_nil:
  assumes "it_data it \<noteq> it_data e" and "CheckNoZero (m_current it) (m_current it) it"
    and "datas h (it_data e) = Some d" and "datas h (it_data it) = Some d'"
  shows "it_Write_range e e it h = Some (it, h)"
  by (rule it_Write_range_steps [where ?n1.0 = 0 and ?n2.0 = 0 and ?n3.0 = 0 and ?bs1.0 = "[]" and ?bs3.0 = "[]"
      and ?it1.0 = it and ?it2.0 = it and ?h1.0 = h and ?h2.0 = h])
    (use assms in \<open>simp_all add: mem_read_def write_at_def mem_write_def\<close>)

lemma AddAtEnd_zeros_ok:
  assumes i: "buf_inv h (add_mset b B)" and c: "c \<in># B" and n: "adjacent_zeros h b c" and e: "m_end c = m_zeroAreaEnd c"
  shows "\<exists>b1 h1. buf_AddAtEnd_buffer c b h = Some (b1, h1) \<and> buf_inv h1 (add_mset b1 B) \<and>
    content h1 b1 = content h b @ content h c \<and> (\<forall>x \<in># B. content h1 x = content h x)"
proof -
  obtain d where d: "datas h (m_data b) = Some d" "seen d b" using buf_invD [OF i] by blast
  have ok: "offsets_ok b" "m_dirtyStart d \<le> m_start b" "GetInternalEnd b \<le> m_size d" using d(2) by (auto simp: seen_def)
  have a: "m_count d = 1" "m_end b = m_zeroAreaEnd b \<or> m_zeroAreaStart b = m_zeroAreaEnd b" "m_end b = m_dirtyEnd d"
    "m_start c = m_zeroAreaStart c" "0 < m_zeroAreaEnd c - m_zeroAreaStart c" using n d(1) by (auto simp: adjacent_zeros_def)
  have ne: "\<forall>x \<in># B. m_data x \<noteq> m_data b" by (rule count_one_unseen [OF i d(1) a(1)])
  let ?z = "m_zeroAreaEnd c - m_zeroAreaStart c"
  define b1 where "b1 = extend_zeros ?z b"
  have b1_def: "b1 = b\<lparr>m_zeroAreaStart := (if m_zeroAreaStart b = m_zeroAreaEnd b then m_end b else m_zeroAreaStart b),
    m_zeroAreaEnd := m_end b + ?z, m_end := m_end b + ?z\<rparr>" by (simp add: b1_def extend_zeros_def)
  have b1: "extend_zeros ?z b = b1" by (simp add: b1_def extend_zeros_def)
  define d1 where "d1 = d\<lparr>m_dirtyEnd := m_end b + ?z\<rparr>"
  define h1 where "h1 = set_data (m_data b) d1 h"
  have o1: "offsets_ok b1" "m_data b1 = m_data b" "m_start b1 = m_start b" "GetInternalEnd b1 = GetInternalEnd b" "m_end b1 = m_end b + ?z"
    using ok(1) a(2,5) by (auto simp: b1_def offsets_ok_def GetInternalEnd_def)
  have s1: "seen d1 b1" using o1 ok(2,3) by (simp add: seen_def d1_def)
  have i1: "buf_inv h1 (add_mset b1 B)"
  proof (rule fresh_inv [where h = h and d = d1])
    show "store_ok h1 (add_mset (m_data b1) (image_mset m_data B))"
      unfolding h1_def using store_ok_set_data [of h _ "m_data b" d d1] i d(1) buf_invD [OF i] o1(2) by (auto simp: buf_inv_def d1_def)
  qed (use ne o1 s1 buf_inv_frame [OF i] in \<open>auto simp: h1_def agree_def d1_def\<close>)
  have cn: "content h1 b1 = content h b @ replicate ?z (Some 0)"
  proof -
    have "bytes_of (m_bytes d) b1 = bytes_of (m_bytes d) b @ replicate ?z (Some 0)"
    proof (rule nth_equalityI)
      fix j assume "j < length (bytes_of (m_bytes d) b1)"
      then have j: "j < buf_GetSize b1" by (simp add: bytes_of_def)
      show "bytes_of (m_bytes d) b1 ! j = (bytes_of (m_bytes d) b @ replicate ?z (Some 0)) ! j"
      proof (cases "m_zeroAreaStart b = m_zeroAreaEnd b")
        case True
        then show ?thesis using j ok(1) by (auto simp: bytes_of_def nth_append b1_def buf_GetSize_def byte_at_def offsets_ok_def zsize_def)
      next
        case False
        then show ?thesis using j ok(1) a(2) by (auto simp: bytes_of_def nth_append b1_def buf_GetSize_def byte_at_def offsets_ok_def)
      qed
    qed (use ok(1) in \<open>auto simp: bytes_of_def b1_def buf_GetSize_def offsets_ok_def\<close>)
    then show ?thesis using d(1) by (simp add: content_def h1_def d1_def o1)
  qed
  obtain B' where B: "B = add_mset c B'" using c by (metis insert_DiffM)
  have cc: "content h c = replicate ?z (Some 0)"
    using content_split [of h c "add_mset b B'"] i B e a(4) by (simp add: add_mset_commute zsize_def length_content [of h c "add_mset b B'"] buf_GetSize_def)
  let ?b2 = "b1\<lparr>m_maxZeroAreaStart := max (m_maxZeroAreaStart b1) (m_zeroAreaStart b1)\<rparr>"
  have "buf_AddAtEnd 0 b1 h1 = Some (?b2, h1)"
    using a(1) o1 ok(3) by (simp add: buf_AddAtEnd_def h1_def d1_def)
  moreover have w: "it_Write_range (buf_End c) (buf_End c) (buf_End ?b2) h1 = Some (buf_End ?b2, h1)"
  proof -
    obtain dc where "datas h1 (m_data c) = Some dc" using buf_invD [of h1 c "add_mset b1 B'"] i1 B by (auto simp: add_mset_commute)
    then show ?thesis using ne c o1(1,2)
      by (intro it_Write_range_nil) (auto simp: buf_End_def buf_Begin_def h1_def CheckNoZero_def offsets_ok_def)
  qed
  moreover have p: "it_Prev 0 x = Some x" for x by (simp add: it_Prev_def)
  moreover have h: "set_data (m_data b1) (d\<lparr>m_dirtyEnd := m_zeroAreaEnd b1\<rparr>) h = h1" by (simp add: h1_def d1_def b1_def)
  ultimately have ad: "buf_AddAtEnd_adjacent c b d h = Some (?b2, h1)"
    using e h by (simp only: buf_AddAtEnd_adjacent_def b1 Let_def diff_self_eq_0 p bind.simps prod.case)
  have "m_count d = 1 \<and> (m_end b = m_zeroAreaEnd b \<or> m_zeroAreaStart b = m_zeroAreaEnd b) \<and>
      m_end b = m_dirtyEnd d \<and> m_start c = m_zeroAreaStart c \<and> 0 < ?z" using a by blast
  from if_P [OF this] ad have "buf_AddAtEnd_buffer c b h = Some (?b2, h1)"
    by (simp only: buf_AddAtEnd_buffer_def d(1) bind.simps)
  moreover have "\<forall>x \<in># B. content h1 x = content h x" using ne by (simp add: h1_def content_def)
  moreover have "content h1 ?b2 = content h b @ content h c" using cn cc by simp
  ultimately show ?thesis using i1 by (metis buf_inv_maxZero)
qed

end
