(* ===== verification/Buffer_Pool.thy ===== *)
theory Buffer_Pool
  imports Buffer_Concat
begin

text \<open>
  The refinement theorem of the byte buffer: a pool of buffers that share their storage behaves as
  a pool of independent lists of bytes, whatever the order of the operations.
\<close>

section \<open>Operations on a pool\<close>

text \<open>
  The buffers a program holds, by index, and the operations on them. A new buffer is appended; a
  destroyed one leaves the list.
\<close>

datatype buf_op =
    OpNew nat
  | OpCopy nat
  | OpAssign nat nat
  | OpDestroy nat
  | OpPushFront nat "u8 list"
  | OpPushBack nat "u8 list"
  | OpRemoveAtStart nat nat
  | OpRemoveAtEnd nat nat
  | OpFragment nat nat nat
  | OpRealize nat

type_synonym pool = "Buffer list \<times> buf_heap"

definition update_buffer :: "nat \<Rightarrow> Buffer list \<Rightarrow> (Buffer \<times> buf_heap) option \<Rightarrow> pool option" where
  "update_buffer i bs r = do { (b, h) \<leftarrow> r; Some (bs[i := b], h) }"

definition append_buffer :: "Buffer list \<Rightarrow> (Buffer \<times> buf_heap) option \<Rightarrow> pool option" where
  "append_buffer bs r = do { (b, h) \<leftarrow> r; Some (bs @ [b], h) }"

definition push_front :: "u8 list \<Rightarrow> Buffer \<Rightarrow> buf_heap \<Rightarrow> (Buffer \<times> buf_heap) option" where
  "push_front vs b h = do { (b, h) \<leftarrow> buf_AddAtStart (length vs) b h; (_, h) \<leftarrow> WriteU8s vs (buf_Begin b) h; Some (b, h) }"

definition push_back :: "u8 list \<Rightarrow> Buffer \<Rightarrow> buf_heap \<Rightarrow> (Buffer \<times> buf_heap) option" where
  "push_back vs b h =
     do { (b, h) \<leftarrow> buf_AddAtEnd (length vs) b h; it \<leftarrow> it_Prev (length vs) (buf_End b); (_, h) \<leftarrow> WriteU8s vs it h; Some (b, h) }"

definition realize :: "Buffer \<Rightarrow> buf_heap \<Rightarrow> (Buffer \<times> buf_heap) option" where
  "realize b h = do { (_, b, h) \<leftarrow> buf_PeekData b h; Some (b, h) }"

fun pool_step :: "buf_op \<Rightarrow> pool \<Rightarrow> pool option" where
  "pool_step (OpNew n) (bs, h) = append_buffer bs (buf_Initialize n h)"
| "pool_step (OpCopy i) (bs, h) = append_buffer bs (buf_copy (bs ! i) h)"
| "pool_step (OpAssign i j) (bs, h) = update_buffer i bs (buf_assign (bs ! i) (bs ! j) h)"
| "pool_step (OpDestroy i) (bs, h) = do { h \<leftarrow> buf_destroy (bs ! i) h; Some (remove_nth i bs, h) }"
| "pool_step (OpPushFront i vs) (bs, h) = update_buffer i bs (push_front vs (bs ! i) h)"
| "pool_step (OpPushBack i vs) (bs, h) = update_buffer i bs (push_back vs (bs ! i) h)"
| "pool_step (OpRemoveAtStart i n) (bs, h) = update_buffer i bs (do { b \<leftarrow> buf_RemoveAtStart n (bs ! i); Some (b, h) })"
| "pool_step (OpRemoveAtEnd i n) (bs, h) = update_buffer i bs (Some (buf_RemoveAtEnd n (bs ! i), h))"
| "pool_step (OpFragment i s n) (bs, h) = append_buffer bs (buf_CreateFragment s n (bs ! i) h)"
| "pool_step (OpRealize i) (bs, h) = update_buffer i bs (realize (bs ! i) h)"

fun run_pool :: "buf_op list \<Rightarrow> pool \<Rightarrow> pool option" where
  "run_pool [] p = Some p"
| "run_pool (x # xs) p = do { p \<leftarrow> pool_step x p; run_pool xs p }"

text \<open>The specification: independent lists of bytes.\<close>

type_synonym spec_pool = "u8 option list list"

fun spec_step :: "buf_op \<Rightarrow> spec_pool \<Rightarrow> spec_pool option" where
  "spec_step (OpNew n) cs = Some (cs @ [replicate n (Some 0)])"
| "spec_step (OpCopy i) cs = (if i < length cs then Some (cs @ [cs ! i]) else None)"
| "spec_step (OpAssign i j) cs = (if i < length cs \<and> j < length cs \<and> i \<noteq> j then Some (cs[i := cs ! j]) else None)"
| "spec_step (OpDestroy i) cs = (if i < length cs then Some (remove_nth i cs) else None)"
| "spec_step (OpPushFront i vs) cs = (if i < length cs then Some (cs[i := map Some vs @ cs ! i]) else None)"
| "spec_step (OpPushBack i vs) cs = (if i < length cs then Some (cs[i := cs ! i @ map Some vs]) else None)"
| "spec_step (OpRemoveAtStart i n) cs = (if i < length cs then Some (cs[i := drop n (cs ! i)]) else None)"
| "spec_step (OpRemoveAtEnd i n) cs = (if i < length cs then Some (cs[i := take (length (cs ! i) - n) (cs ! i)]) else None)"
| "spec_step (OpFragment i s n) cs =
     (if i < length cs \<and> s + n \<le> length (cs ! i) \<and> length (cs ! i) < 2 ^ 32 then Some (cs @ [take n (drop s (cs ! i))]) else None)"
| "spec_step (OpRealize i) cs = (if i < length cs then Some cs else None)"

fun run_spec :: "buf_op list \<Rightarrow> spec_pool \<Rightarrow> spec_pool option" where
  "run_spec [] cs = Some cs"
| "run_spec (x # xs) cs = do { cs \<leftarrow> spec_step x cs; run_spec xs cs }"

definition pool_abs :: "pool \<Rightarrow> spec_pool" where
  "pool_abs p = map (content (snd p)) (fst p)"

definition pool_inv :: "pool \<Rightarrow> bool" where
  "pool_inv p \<longleftrightarrow> buf_inv (snd p) (mset (fst p))"

text \<open>The contract of an operation that yields the buffer \<open>b\<close> with content \<open>c\<close> beside the buffers
  \<open>B\<close>, which keep their contents.\<close>

definition yields :: "buf_heap \<Rightarrow> Buffer multiset \<Rightarrow> (Buffer \<times> buf_heap) option \<Rightarrow> u8 option list \<Rightarrow> bool" where
  "yields h B r c \<longleftrightarrow>
     (\<exists>b1 h1. r = Some (b1, h1) \<and> buf_inv h1 (add_mset b1 B) \<and> content h1 b1 = c \<and> (\<forall>x \<in># B. content h1 x = content h x))"

lemma yields_update:
  assumes "i < length bs" and "yields h (mset (remove_nth i bs)) r c"
  shows "\<exists>p1. update_buffer i bs r = Some p1 \<and> pool_inv p1 \<and> pool_abs p1 = (pool_abs (bs, h))[i := c]"
proof -
  obtain b h1 where r: "r = Some (b, h1)" "buf_inv h1 (add_mset b (mset (remove_nth i bs)))" "content h1 b = c"
    "\<forall>x \<in># mset (remove_nth i bs). content h1 x = content h x" using assms(2) by (auto simp: yields_def)
  have "map (content h1) (bs[i := b]) = (map (content h) bs)[i := c]"
  proof (rule nth_equalityI)
    fix j assume "j < length (map (content h1) (bs[i := b]))"
    then show "map (content h1) (bs[i := b]) ! j = (map (content h) bs)[i := c] ! j"
      using assms(1) r(3,4) set_remove_nth [of i bs j] by (cases "j = i") auto
  qed simp
  then show ?thesis using assms(1) r by (simp add: update_buffer_def pool_inv_def pool_abs_def mset_update_nth)
qed

lemma yields_append:
  "yields h (mset bs) r c \<Longrightarrow> \<exists>p1. append_buffer bs r = Some p1 \<and> pool_inv p1 \<and> pool_abs p1 = pool_abs (bs, h) @ [c]"
  by (auto simp: yields_def append_buffer_def pool_inv_def pool_abs_def)

section \<open>Refinement\<close>

lemma realize_ok:
  assumes i: "buf_inv h (add_mset b B)"
  shows "\<exists>b1 h1. realize b h = Some (b1, h1) \<and> buf_inv h1 (add_mset b1 B) \<and> content h1 b1 = content h b \<and>
    (\<forall>x \<in># B. content h1 x = content h x)"
proof -
  obtain t h1 h2 h3 where t: "buf_CreateFullCopy b h = Some (t, h1)" "buf_assign b t h1 = Some (t, h2)" "buf_destroy t h2 = Some h3"
    "buf_inv h3 (add_mset t B)" "content h3 t = content h b" "\<forall>c \<in># B. content h3 c = content h c" "zsize t = 0"
    using real_copy_ok [OF i] by blast
  obtain d where d: "datas h3 (m_data t) = Some d" "seen d t" "length (m_bytes d) = m_size d" using buf_invD [OF t(4)] by blast
  have "m_start t + buf_GetSize t \<le> length (m_bytes d)"
    using d(2,3) t(7) by (auto simp: seen_def offsets_ok_def zsize_def GetInternalEnd_def buf_GetSize_def)
  then have "\<exists>xs. mem_read (m_data t) (m_start t) (buf_GetSize t) h3 = Some xs" using d(1) by (simp add: mem_read_def)
  then show ?thesis using t by (auto simp: realize_def buf_PeekData_def)
qed

text \<open>The contracts of the operations, in this form.\<close>

lemma yields_new:
  assumes "buf_inv h B"
  shows "yields h B (buf_Initialize n h) (replicate n (Some 0))"
  using Initialize_ok [OF assms, of n] by (auto simp: yields_def)

lemma yields_from:
  assumes i: "buf_inv h (add_mset b B)"
  shows "yields h (add_mset b B) (buf_copy b h) (content h b)"
    and "yields h B (push_front vs b h) (map Some vs @ content h b)"
    and "yields h B (push_back vs b h) (content h b @ map Some vs)"
    and "yields h B (do { b1 \<leftarrow> buf_RemoveAtStart n b; Some (b1, h) }) (drop n (content h b))"
    and "yields h B (Some (buf_RemoveAtEnd n b, h)) (take (length (content h b) - n) (content h b))"
    and "yields h B (realize b h) (content h b)"
proof -
  show "yields h (add_mset b B) (buf_copy b h) (content h b)" using copy_ok [OF i] by (simp add: yields_def)
  show "yields h B (push_front vs b h) (map Some vs @ content h b)"
    using push_front_ok [OF i emits_WriteU8s, of vs] by (auto simp: push_front_def yields_def)
  show "yields h B (push_back vs b h) (content h b @ map Some vs)"
    using push_back_ok [OF i emits_WriteU8s, of vs] by (auto simp: push_back_def yields_def)
  show "yields h B (do { b1 \<leftarrow> buf_RemoveAtStart n b; Some (b1, h) }) (drop n (content h b))"
    using RemoveAtStart_ok [OF i, of n] by (auto simp: yields_def)
  show "yields h B (Some (buf_RemoveAtEnd n b, h)) (take (length (content h b) - n) (content h b))"
    using RemoveAtEnd_ok [OF i, of n] length_content [OF i] by (simp add: yields_def)
  show "yields h B (realize b h) (content h b)" using realize_ok [OF i] by (simp add: yields_def)
qed

lemma yields_fragment:
  assumes "buf_inv h (add_mset b B)" and "s + n \<le> length (content h b)" and "length (content h b) < 2 ^ 32"
  shows "yields h (add_mset b B) (buf_CreateFragment s n b h) (take n (drop s (content h b)))"
  using CreateFragment_ok [OF assms(1), of s n] assms(2,3) length_content [OF assms(1)] by (simp add: yields_def)

lemma yields_assign:
  assumes "buf_inv h (add_mset b B)" and "c \<in># B"
  shows "yields h B (buf_assign b c h) (content h c)"
proof -
  obtain B' where B: "B = add_mset c B'" using assms(2) by (metis insert_DiffM)
  then show ?thesis using assign_ok [of h b c B'] assms(1) by (auto simp: yields_def)
qed

lemma pool_step_ok:
  assumes i: "pool_inv (bs, h)" and s: "spec_step x (pool_abs (bs, h)) = Some cs"
  shows "\<exists>p1. pool_step x (bs, h) = Some p1 \<and> pool_inv p1 \<and> pool_abs p1 = cs"
proof -
  have inv: "buf_inv h (mset bs)" using i by (simp add: pool_inv_def)
  have at: "buf_inv h (add_mset (bs ! k) (mset (remove_nth k bs)))" if "k < length bs" for k
    using inv mset_remove_nth [OF that] by simp
  have len: "length (pool_abs (bs, h)) = length bs" and nth: "\<And>k. k < length bs \<Longrightarrow> pool_abs (bs, h) ! k = content h (bs ! k)"
    by (simp_all add: pool_abs_def)
  note upd = yields_update [of _ bs h] and app = yields_append [of h bs]
  show ?thesis
  proof (cases x)
    case (OpNew n)
    then show ?thesis using s app [OF yields_new [OF inv]] by auto
  next
    case (OpCopy k)
    then have k: "k < length bs" using s len by (simp split: if_splits)
    then show ?thesis using s OpCopy app yields_from(1) [OF at [OF k]] mset_remove_nth [OF k] len nth by auto
  next
    case (OpAssign k j)
    then have k: "k < length bs" "j < length bs" "k \<noteq> j" using s len by (simp_all split: if_splits)
    then show ?thesis using s OpAssign upd [OF k(1) yields_assign [OF at [OF k(1)]]] set_remove_nth [of k bs j] len nth by auto
  next
    case (OpDestroy k)
    then have k: "k < length bs" using s len by (simp split: if_splits)
    show ?thesis using destroy_ok [OF at [OF k]] s OpDestroy k by (auto simp: pool_abs_def pool_inv_def map_remove_nth [symmetric])
  next
    case (OpPushFront k vs)
    then have k: "k < length bs" using s len by (simp split: if_splits)
    then show ?thesis using s OpPushFront upd [OF k yields_from(2) [OF at [OF k]]] len nth by auto
  next
    case (OpPushBack k vs)
    then have k: "k < length bs" using s len by (simp split: if_splits)
    then show ?thesis using s OpPushBack upd [OF k yields_from(3) [OF at [OF k]]] len nth by auto
  next
    case (OpRemoveAtStart k n)
    then have k: "k < length bs" using s len by (simp split: if_splits)
    then show ?thesis using s OpRemoveAtStart upd [OF k yields_from(4) [OF at [OF k]]] len nth by auto
  next
    case (OpRemoveAtEnd k n)
    then have k: "k < length bs" using s len by (simp split: if_splits)
    then show ?thesis using s OpRemoveAtEnd upd [OF k yields_from(5) [OF at [OF k]]] len nth by auto
  next
    case (OpFragment k o' n)
    then have k: "k < length bs" using s len by (simp split: if_splits)
    then show ?thesis using s OpFragment app yields_fragment [OF at [OF k], of o' n] mset_remove_nth [OF k] len nth
      by (auto split: if_splits)
  next
    case (OpRealize k)
    then have k: "k < length bs" using s len by (simp split: if_splits)
    then show ?thesis using s OpRealize upd [OF k yields_from(6) [OF at [OF k]]] len nth [OF k] list_update_id [of "pool_abs (bs, h)" k] by simp
  qed
qed

lemma run_pool_ok:
  "pool_inv p \<Longrightarrow> run_spec xs (pool_abs p) = Some cs \<Longrightarrow> \<exists>p1. run_pool xs p = Some p1 \<and> pool_inv p1 \<and> pool_abs p1 = cs"
proof (induction xs arbitrary: p)
  case (Cons x xs)
  obtain c1 where c1: "spec_step x (pool_abs p) = Some c1" "run_spec xs c1 = Some cs"
    using Cons.prems(2) by (auto split: Option.bind_splits)
  obtain bs h where p: "p = (bs, h)" by (cases p)
  obtain p1 where p1: "pool_step x p = Some p1" "pool_inv p1" "pool_abs p1 = c1"
    using pool_step_ok [of bs h x c1] Cons.prems(1) c1(1) p by auto
  then show ?case using Cons.IH [of p1] c1(2) by simp
qed simp

lemma pool_refines:
  assumes "run_spec xs [] = Some cs"
  shows "\<exists>bs h. run_pool xs ([], buf_heap_init) = Some (bs, h) \<and> map (content h) bs = cs \<and> buf_inv h (mset bs)"
proof -
  have "pool_inv ([], buf_heap_init)" by (simp add: pool_inv_def buf_inv_init)
  from run_pool_ok [OF this, of xs cs] show ?thesis using assms by (auto simp: pool_inv_def pool_abs_def)
qed

section \<open>Properties\<close>


definition pool_example :: "buf_op list" where
  "pool_example = [OpNew 3, OpCopy 0, OpPushFront 0 [1, 2], OpPushFront 1 [8], OpPushBack 0 [9], OpFragment 0 1 4,
     OpRemoveAtStart 0 3, OpAssign 1 2, OpDestroy 2, OpRealize 0]"


end
