(* ===== verification/Buffer_Properties.thy ===== *)
theory Buffer_Properties
  imports Buffer_Pool
begin

text \<open>
  Reading the content of a buffer through an iterator, integers written and read back, and the
  properties of the concatenation of buffers.
\<close>

section \<open>Reading the content\<close>

lemma Peek_content:
  assumes i: "buf_inv h (add_mset b B)" and j: "j < buf_GetSize b"
  shows "PeekU8 (advance j (buf_Begin b)) h = content h b ! j"
proof -
  obtain d where d: "datas h (m_data b) = Some d" "seen d b" "length (m_bytes d) = m_size d" using buf_invD [OF i] by blast
  have ok: "offsets_ok b" "GetInternalEnd b \<le> length (m_bytes d)" using d(2,3) by (auto simp: seen_def)
  have r: "Option.bind (mem_read (m_data b) k 1 h) hd = m_bytes d ! k" if "k < length (m_bytes d)" for k
    using that d(1) by (simp add: mem_read_def hd_take hd_drop_conv_nth)
  have c: "content h b ! j = byte_at (m_bytes d) b j" using d(1) j by (simp add: content_def bytes_of_def)
  consider "m_start b + j < m_zeroAreaStart b" | "m_zeroAreaStart b \<le> m_start b + j" "m_start b + j < m_zeroAreaEnd b"
    | "m_zeroAreaEnd b \<le> m_start b + j" by linarith
  then show ?thesis
  proof cases
    case 1
    then show ?thesis using ok j r [of "m_start b + j"]
      by (auto simp: c byte_at_def PeekU8_def buf_Begin_def offsets_ok_def GetInternalEnd_def buf_GetSize_def)
  next
    case 2
    then show ?thesis using ok j by (auto simp: c byte_at_def PeekU8_def buf_Begin_def offsets_ok_def buf_GetSize_def)
  next
    case 3
    then show ?thesis using ok j r [of "m_start b + j - zsize b"]
      by (auto simp: c byte_at_def PeekU8_def buf_Begin_def offsets_ok_def GetInternalEnd_def buf_GetSize_def zero_size_def zsize_def)
  qed
qed

lemma upcoming_nth: "upcoming it h bs \<longleftrightarrow> (\<forall>i < length bs. PeekU8 (advance i it) h = Some (bs ! i))"
  by (induction bs arbitrary: it) (auto simp: less_Suc_eq_0_disj)

lemma content_upcoming:
  assumes i: "buf_inv h (add_mset b B)" and c: "content h b = map Some bs @ rest"
  shows "upcoming (buf_Begin b) h bs"
proof -
  have "length bs \<le> buf_GetSize b" using length_content [OF i] c by simp
  then show ?thesis using Peek_content [OF i] c by (simp add: upcoming_nth nth_append)
qed

text \<open>What a reader reads back is what a writer wrote at the start of a buffer.\<close>

lemma write_read:
  assumes i: "buf_inv h (add_mset b B)" and w: "emits w bs" and r: "reads r bs v"
  shows "\<exists>b1 h1 it h2. buf_AddAtStart (length bs) b h = Some (b1, h1) \<and> w (buf_Begin b1) h1 = Some (it, h2) \<and>
    r (buf_Begin b1) h2 = Some (v, advance (length bs) (buf_Begin b1)) \<and> buf_inv h2 (add_mset b1 B) \<and>
    content h2 b1 = map Some bs @ content h b \<and> (\<forall>c \<in># B. content h2 c = content h c)"
proof -
  obtain b1 h1 it h2 where p: "buf_AddAtStart (length bs) b h = Some (b1, h1)" "w (buf_Begin b1) h1 = Some (it, h2)"
    "buf_inv h2 (add_mset b1 B)" "content h2 b1 = map Some bs @ content h b" "\<forall>c \<in># B. content h2 c = content h c"
    using push_front_ok [OF i w] by blast
  have "r (buf_Begin b1) h2 = Some (v, advance (length bs) (buf_Begin b1))"
    using r content_upcoming [OF p(3,4)] by (simp add: reads_def)
  then show ?thesis using p by blast
qed

section \<open>Properties\<close>

text \<open>A record with an integer of every width and byte order.\<close>

definition write_all :: "u8 \<Rightarrow> u16 \<Rightarrow> u32 \<Rightarrow> u64 \<Rightarrow> writer" where
  "write_all v8 v16 v32 v64 = run_writers
     [WriteU8 v8, WriteU16 v16, WriteHtonU16 v16, WriteHtolsbU16 v16, WriteU32 v32, WriteHtonU32 v32, WriteHtolsbU32 v32,
      WriteU64 v64, WriteHtonU64 v64, WriteHtolsbU64 v64]"

definition read_all :: "(u8 \<times> u16 list \<times> u32 list \<times> u64 list) reader" where
  "read_all it h =
     do { (v8, it) \<leftarrow> ReadU8 it h; (a16, it) \<leftarrow> ReadU16 it h; (b16, it) \<leftarrow> ReadNtohU16 it h; (c16, it) \<leftarrow> ReadLsbtohU16 it h;
          (a32, it) \<leftarrow> ReadU32 it h; (b32, it) \<leftarrow> ReadNtohU32 it h; (c32, it) \<leftarrow> ReadLsbtohU32 it h;
          (a64, it) \<leftarrow> ReadU64 it h; (b64, it) \<leftarrow> ReadNtohU64 it h; (c64, it) \<leftarrow> ReadLsbtohU64 it h;
          Some ((v8, [a16, b16, c16], [a32, b32, c32], [a64, b64, c64]), it) }"

lemma all_codec:
  "\<exists>bs. length bs = 43 \<and> emits (write_all v8 v16 v32 v64) bs \<and> reads read_all bs (v8, [v16, v16, v16], [v32, v32, v32], [v64, v64, v64])"
proof (intro exI conjI)
  show "emits (write_all v8 v16 v32 v64)
    ([v8] @ [byte 0 v16, byte 8 v16] @ [byte 8 v16, byte 0 v16] @ [byte 0 v16, byte 8 v16] @
     [byte 0 v32, byte 8 v32, byte 16 v32, byte 24 v32] @ [byte 24 v32, byte 16 v32, byte 8 v32, byte 0 v32] @
     [byte 0 v32, byte 8 v32, byte 16 v32, byte 24 v32] @
     [byte 0 v64, byte 8 v64, byte 16 v64, byte 24 v64, byte 32 v64, byte 40 v64, byte 48 v64, byte 56 v64] @
     [byte 56 v64, byte 48 v64, byte 40 v64, byte 32 v64, byte 24 v64, byte 16 v64, byte 8 v64, byte 0 v64] @
     [byte 0 v64, byte 8 v64, byte 16 v64, byte 24 v64, byte 32 v64, byte 40 v64, byte 48 v64, byte 56 v64] @ [])" (is "emits _ ?bs")
    unfolding write_all_def by (intro emits_intros)
  show "reads read_all ?bs (v8, [v16, v16, v16], [v32, v32, v32], [v64, v64, v64])"
    unfolding read_all_def by (rule reads_bind, rule reads_intros)+ (rule reads_intros)
  show "length ?bs = 43" by simp
qed

text \<open>
  Integers survive the buffer. In front of any buffer, whatever its storage is shared with,
  integers of 8, 16, 32 and 64 bits written through an iterator in host order, network order and
  little-endian order are read back unchanged; the bytes behind them and all the other buffers keep
  their content.
\<close>

theorem words_round_trip:
  assumes "buf_inv h (add_mset b B)"
  shows "\<exists>b1 h1 it h2. buf_AddAtStart 43 b h = Some (b1, h1) \<and> write_all v8 v16 v32 v64 (buf_Begin b1) h1 = Some (it, h2) \<and>
    map_option fst (read_all (buf_Begin b1) h2) = Some (v8, [v16, v16, v16], [v32, v32, v32], [v64, v64, v64]) \<and>
    buf_inv h2 (add_mset b1 B) \<and> drop 43 (content h2 b1) = content h b \<and> (\<forall>c \<in># B. content h2 c = content h c)"
proof -
  obtain bs where bs: "length bs = 43" "emits (write_all v8 v16 v32 v64) bs"
    "reads read_all bs (v8, [v16, v16, v16], [v32, v32, v32], [v64, v64, v64])" using all_codec by blast
  from write_read [OF assms bs(2,3)] show ?thesis using bs(1) by auto
qed

text \<open>Buffers to try the operations on: one of two zeros; and the pool of a buffer of three zeros and
  a buffer of two zeros.\<close>

definition two_zeros :: "Buffer \<times> buf_heap" where
  "two_zeros = the (buf_Initialize 2 buf_heap_init)"

lemma two_zeros_inv: "buf_inv (snd two_zeros) {#fst two_zeros#}"
proof -
  obtain b h where "buf_Initialize 2 buf_heap_init = Some (b, h)" "buf_inv h {#b#}" using Initialize_ok [OF buf_inv_init] by blast
  then show ?thesis by (simp add: two_zeros_def)
qed

theorem words_round_trip_witness:
  "buf_inv (snd two_zeros) {#fst two_zeros#} \<and>
   (\<exists>b1 h1 it h2. buf_AddAtStart 43 (fst two_zeros) (snd two_zeros) = Some (b1, h1) \<and>
      write_all 0x12 0x1234 0x12345678 0x123456789abcdef0 (buf_Begin b1) h1 = Some (it, h2) \<and>
      map_option fst (read_all (buf_Begin b1) h2) =
        Some (0x12, [0x1234, 0x1234, 0x1234], [0x12345678, 0x12345678, 0x12345678],
              [0x123456789abcdef0, 0x123456789abcdef0, 0x123456789abcdef0]))"
  using words_round_trip [OF two_zeros_inv, of "0x12" "0x1234" "0x12345678" "0x123456789abcdef0"] two_zeros_inv by blast

text \<open>
  Buffer::AddAtEnd(const Buffer&) concatenates. When the other buffer lies in another storage (or
  the buffer has a zero area, and is therefore copied), and the path for adjacent zero areas is not
  taken or the other buffer is nothing but zeros, the call does not fail, the buffer becomes the
  concatenation of the two, and every other buffer, the appended one included, keeps its content.
\<close>

theorem AddAtEnd_concatenates:
  assumes "buf_inv h (add_mset b B)" and "c \<in># B" and "m_data c \<noteq> m_data b \<or> 0 < zsize b"
    and "\<not> adjacent_zeros h b c \<or> m_end c = m_zeroAreaEnd c"
  shows "\<exists>b1 h1. buf_AddAtEnd_buffer c b h = Some (b1, h1) \<and> buf_inv h1 (add_mset b1 B) \<and>
    content h1 b1 = content h b @ content h c \<and> (\<forall>x \<in># B. content h1 x = content h x)"
  using AddAtEnd_buffer_ok [OF assms(1,2) _ assms(3)] AddAtEnd_zeros_ok [OF assms(1,2)] assms(4) by blast

definition three_two :: pool where
  "three_two = the (run_pool [OpNew 3, OpNew 2, OpPushFront 1 [5]] ([], buf_heap_init))"

lemma three_two_eq:
  "run_pool [OpNew 3, OpNew 2, OpPushFront 1 [5]] ([], buf_heap_init) = Some three_two"
  "map (content (snd three_two)) (fst three_two) = [[Some 0, Some 0, Some 0], [Some 5, Some 0, Some 0]]"
  "buf_inv (snd three_two) (mset (fst three_two))"
proof -
  have "run_spec [OpNew 3, OpNew 2, OpPushFront 1 [5]] [] = Some [[Some 0, Some 0, Some 0], [Some 5, Some 0, Some 0]]"
    by (simp add: numeral_3_eq_3 numeral_2_eq_2)
  from pool_refines [OF this] show
    "run_pool [OpNew 3, OpNew 2, OpPushFront 1 [5]] ([], buf_heap_init) = Some three_two"
    "map (content (snd three_two)) (fst three_two) = [[Some 0, Some 0, Some 0], [Some 5, Some 0, Some 0]]"
    "buf_inv (snd three_two) (mset (fst three_two))" by (auto simp: three_two_def)
qed

lemma three_two_shape: "map zsize (fst three_two) = [3, 2]" "\<not> adjacent_zeros (snd three_two) (fst three_two ! 0) (fst three_two ! 1)"
  by code_simp+

theorem AddAtEnd_concatenates_witness:
  "\<exists>b1 h1. buf_AddAtEnd_buffer (fst three_two ! 1) (fst three_two ! 0) (snd three_two) = Some (b1, h1) \<and>
     content h1 b1 = [Some 0, Some 0, Some 0, Some 5, Some 0, Some 0]"
proof -
  obtain b c where bc: "fst three_two = [b, c]" "zsize b = 3" using three_two_shape(1) by (auto simp: map_eq_Cons_conv)
  have "buf_inv (snd three_two) (add_mset b {#c#})" using three_two_eq(3) bc by simp
  from AddAtEnd_concatenates [OF this, of c] show ?thesis using three_two_shape(2) three_two_eq(2) bc by auto
qed


text \<open>
  Appending a copy of a buffer to the buffer itself fails an assertion. The two share their
  storage, the buffer grows in place, and the range writer asserts that source and destination are
  in different storages.
\<close>

theorem AddAtEnd_self_copy_fails:
  "do { (bs, h) \<leftarrow> run_pool [OpNew 0, OpPushBack 0 [7, 9], OpCopy 0] ([], buf_heap_init);
        Some (map (content h) bs, buf_AddAtEnd_buffer (bs ! 1) (bs ! 0) h = None) } =
   Some ([[Some 7, Some 9], [Some 7, Some 9]], True)"
  by code_simp

end
