(* ===== verification/Byte_Tags.thy ===== *)
theory Byte_Tags
  imports Buffer_Codec
begin

text \<open>
  src/network/model/byte-tag-list.cc and byte-tag-list.h: the tags of the bytes of a packet. A list is a
  storage ByteTagListData, shared by the copies of a packet, of which it uses the first \<open>bt_used\<close>
  bytes: one record after the other, each with the type, the size, the start and the end of a tag
  and the tag itself, written by TagBuffer (tag-buffer.cc). Start and end are stored relative to
  \<open>bt_adjustment\<close>, so that all tags move when a header is added or removed.

  An \<open>int32_t\<close> is an integer with the wrap-around \<open>i32\<close>. Bytes of a storage that were never written are None;
  reading one, or an assertion that fails, is None.
\<close>

section \<open>Storage\<close>

record ByteTagListData =
  bd_size :: nat
  bd_count :: nat
  bd_dirty :: nat
  bd_data :: "u8 option list"

record btl_heap =
  bds :: "addr \<Rightarrow> ByteTagListData option"
  bt_freeList :: "addr list"
  bt_maxSize :: nat
  bt_fresh :: addr

record ByteTagList =
  bt_minStart :: int
  bt_maxEnd :: int
  bt_adjustment :: int
  bt_used :: nat
  bt_data :: addr

definition i32 :: "int \<Rightarrow> int" where
  "i32 x = signed_take_bit 31 x"

definition put_bd :: "addr \<Rightarrow> ByteTagListData \<Rightarrow> btl_heap \<Rightarrow> btl_heap" where
  "put_bd a d h = h\<lparr>bds := (bds h)(a \<mapsto> d)\<rparr>"

text \<open>Allocate: the loop over the free list, from its end, then operator new.\<close>

fun bt_reuse :: "nat \<Rightarrow> addr list \<Rightarrow> btl_heap \<Rightarrow> (addr option \<times> btl_heap) option" where
  "bt_reuse n [] h = Some (None, h\<lparr>bt_freeList := []\<rparr>)"
| "bt_reuse n (a # fl) h =
     do { d \<leftarrow> bds h a;
          if n \<le> bd_size d
          then Some (Some a, put_bd a (d\<lparr>bd_count := 1, bd_dirty := 0\<rparr>) (h\<lparr>bt_freeList := rev fl\<rparr>))
          else bt_reuse n fl (h\<lparr>bds := (bds h)(a := None)\<rparr>) }"

definition bt_Allocate :: "nat \<Rightarrow> btl_heap \<Rightarrow> (addr \<times> btl_heap) option" where
  "bt_Allocate n h =
     do { (r, h) \<leftarrow> bt_reuse n (rev (bt_freeList h)) h;
          case r of
            Some a \<Rightarrow> Some (a, h)
          | None \<Rightarrow> Some (bt_fresh h,
              put_bd (bt_fresh h) \<lparr>bd_size = n, bd_count = 1, bd_dirty = 0, bd_data = replicate (max n (bt_maxSize h)) None\<rparr>
                (h\<lparr>bt_fresh := Suc (bt_fresh h)\<rparr>)) }"

definition bt_FREE_LIST_SIZE :: nat where
  "bt_FREE_LIST_SIZE = 1000"

definition bt_Deallocate :: "addr \<Rightarrow> btl_heap \<Rightarrow> btl_heap option" where
  "bt_Deallocate a h =
     (if a = nullptr then Some h
      else do { d \<leftarrow> bds h a;
                let h = h\<lparr>bt_maxSize := max (bt_maxSize h) (bd_size d)\<rparr>;
                let h = put_bd a (d\<lparr>bd_count := bd_count d - 1\<rparr>) h;
                if bd_count d - 1 = 0
                then if bt_FREE_LIST_SIZE < length (bt_freeList h) \<or> bd_size d < bt_maxSize h
                     then Some (h\<lparr>bds := (bds h)(a := None)\<rparr>)
                     else Some (h\<lparr>bt_freeList := bt_freeList h @ [a]\<rparr>)
                else Some h })"

definition bt_empty :: ByteTagList where
  "bt_empty = \<lparr>bt_minStart = 2 ^ 31 - 1, bt_maxEnd = - (2 ^ 31), bt_adjustment = 0, bt_used = 0, bt_data = nullptr\<rparr>"

definition bt_copy :: "ByteTagList \<Rightarrow> btl_heap \<Rightarrow> (ByteTagList \<times> btl_heap) option" where
  "bt_copy l h =
     (if bt_data l = nullptr then Some (l, h)
      else do { d \<leftarrow> bds h (bt_data l); Some (l, put_bd (bt_data l) (d\<lparr>bd_count := bd_count d + 1\<rparr>) h) })"

text \<open>\<open>l = o\<close>, for two different objects.\<close>

definition bt_assign :: "ByteTagList \<Rightarrow> ByteTagList \<Rightarrow> btl_heap \<Rightarrow> (ByteTagList \<times> btl_heap) option" where
  "bt_assign l l' h = do { h \<leftarrow> bt_Deallocate (bt_data l) h; bt_copy l' h }"

definition bt_destroy :: "ByteTagList \<Rightarrow> btl_heap \<Rightarrow> btl_heap option" where
  "bt_destroy l h = bt_Deallocate (bt_data l) h"

definition bt_RemoveAll :: "ByteTagList \<Rightarrow> btl_heap \<Rightarrow> (ByteTagList \<times> btl_heap) option" where
  "bt_RemoveAll l h = do { h \<leftarrow> bt_Deallocate (bt_data l) h; Some (bt_empty, h) }"

definition bt_Adjust :: "int \<Rightarrow> ByteTagList \<Rightarrow> ByteTagList" where
  "bt_Adjust n l = l\<lparr>bt_adjustment := i32 (bt_adjustment l + n)\<rparr>"

section \<open>Records\<close>

text \<open>TagBuffer::WriteU32 and ReadU32.\<close>

definition tb_u32 :: "u32 \<Rightarrow> u8 list" where
  "tb_u32 data = [byte 0 data, byte 8 data, byte 16 data, byte 24 data]"

definition tb_ReadU32 :: "nat \<Rightarrow> nat \<Rightarrow> u8 option list \<Rightarrow> u32 option" where
  "tb_ReadU32 current end data =
     (if current + 4 \<le> end then
        do { bs \<leftarrow> those (take 4 (drop current data));
             if length bs = 4 then Some (foldl join_byte 0 (rev bs)) else None }
      else None)"

text \<open>Add, with the bytes that the caller writes into the TagBuffer that it returns.\<close>

definition bt_record :: "u32 \<Rightarrow> int \<Rightarrow> int \<Rightarrow> u8 list \<Rightarrow> u8 list" where
  "bt_record tid start end bytes =
     tb_u32 tid @ tb_u32 (of_nat (length bytes)) @ tb_u32 (word_of_int start) @ tb_u32 (word_of_int end) @ bytes"

text \<open>The storage in which Add writes: the one of the list, unless it is too small or another list has written behind
  the end of this one.\<close>

definition bt_reserve :: "nat \<Rightarrow> ByteTagList \<Rightarrow> btl_heap \<Rightarrow> (ByteTagList \<times> btl_heap) option" where
  "bt_reserve spaceNeeded l h =
     (if bt_data l = nullptr then do { (a, h) \<leftarrow> bt_Allocate spaceNeeded h; Some (l\<lparr>bt_data := a, bt_used := 0\<rparr>, h) }
      else do { d \<leftarrow> bds h (bt_data l);
                if bd_size d < spaceNeeded \<or> (bd_count d \<noteq> 1 \<and> bd_dirty d \<noteq> bt_used l)
                then do { (a, h) \<leftarrow> bt_Allocate spaceNeeded h;
                          n \<leftarrow> bds h a;
                          h \<leftarrow> bt_Deallocate (bt_data l)
                                (put_bd a (n\<lparr>bd_data := take (bt_used l) (bd_data d) @ drop (bt_used l) (bd_data n)\<rparr>) h);
                          Some (l\<lparr>bt_data := a\<rparr>, h) }
                else Some (l, h) })"

definition bt_Add :: "u32 \<Rightarrow> u8 list \<Rightarrow> int \<Rightarrow> int \<Rightarrow> ByteTagList \<Rightarrow> btl_heap \<Rightarrow> (ByteTagList \<times> btl_heap) option" where
  "bt_Add tid bytes start end l h =
     (let spaceNeeded = bt_used l + length bytes + 16 in
      if int spaceNeeded < 2 ^ 32 then
        do { (l, h) \<leftarrow> bt_reserve spaceNeeded l h;
             d \<leftarrow> bds h (bt_data l);
             let rec = bt_record tid (i32 (start - bt_adjustment l)) (i32 (end - bt_adjustment l)) bytes;
             let h = put_bd (bt_data l) (d\<lparr>bd_data := splice (bt_used l) (map Some rec) (bd_data d), bd_dirty := spaceNeeded\<rparr>) h;
             let l = l\<lparr>bt_minStart := min (bt_minStart l) (i32 (start - bt_adjustment l)),
                       bt_maxEnd := max (bt_maxEnd l) (i32 (end - bt_adjustment l)), bt_used := spaceNeeded\<rparr>;
             Some (l, h) }
      else None)"

section \<open>Iteration\<close>

record bt_Iterator =
  bi_data :: addr
  bi_current :: nat
  bi_end :: nat
  bi_offsetStart :: int
  bi_offsetEnd :: int
  bi_adjustment :: int
  bi_nextTid :: u32
  bi_nextSize :: nat
  bi_nextStart :: int
  bi_nextEnd :: int

record bt_Item =
  item_tid :: u32
  item_size :: nat
  item_start :: int
  item_end :: int
  item_buf :: "u8 list"

text \<open>PrepareForNext: the fields of the record at the current place, and the loop over the records outside the range.\<close>

definition bi_load :: "bt_Iterator \<Rightarrow> btl_heap \<Rightarrow> bt_Iterator option" where
  "bi_load i h =
     do { d \<leftarrow> bds h (bi_data i);
          tid \<leftarrow> tb_ReadU32 (bi_current i) (bi_end i) (bd_data d);
          size \<leftarrow> tb_ReadU32 (bi_current i + 4) (bi_end i) (bd_data d);
          start \<leftarrow> tb_ReadU32 (bi_current i + 8) (bi_end i) (bd_data d);
          end \<leftarrow> tb_ReadU32 (bi_current i + 12) (bi_end i) (bd_data d);
          Some (i\<lparr>bi_nextTid := tid, bi_nextSize := unat size,
                  bi_nextStart := i32 (uint start + bi_adjustment i), bi_nextEnd := i32 (uint end + bi_adjustment i)\<rparr>) }"

lemma load_forward: "bi_load i h = Some i' \<Longrightarrow> bi_current i' = bi_current i \<and> bi_end i' = bi_end i"
  by (auto simp: bi_load_def bind_eq_Some_conv)

function bi_PrepareForNext :: "bt_Iterator \<Rightarrow> btl_heap \<Rightarrow> bt_Iterator option" where
  "bi_PrepareForNext i h =
     (if bi_current i < bi_end i then
        (case bi_load i h of
           None \<Rightarrow> None
         | Some i \<Rightarrow> if bi_offsetEnd i \<le> bi_nextStart i \<or> bi_nextEnd i \<le> bi_offsetStart i
                     then bi_PrepareForNext (i\<lparr>bi_current := bi_current i + 16 + bi_nextSize i\<rparr>) h
                     else Some i)
      else Some i)"
  by pat_completeness auto
termination bi_PrepareForNext
  by (relation "measure (\<lambda>(i, h). bi_end i - bi_current i)") (auto dest: load_forward)

declare bi_PrepareForNext.simps [simp del]

definition bt_Begin :: "int \<Rightarrow> int \<Rightarrow> ByteTagList \<Rightarrow> btl_heap \<Rightarrow> bt_Iterator option" where
  "bt_Begin offsetStart offsetEnd l h =
     bi_PrepareForNext
       \<lparr>bi_data = bt_data l, bi_current = 0, bi_end = (if bt_data l = nullptr then 0 else bt_used l),
        bi_offsetStart = offsetStart, bi_offsetEnd = offsetEnd,
        bi_adjustment = (if bt_data l = nullptr then 0 else bt_adjustment l),
        bi_nextTid = 0, bi_nextSize = 0, bi_nextStart = 0, bi_nextEnd = 0\<rparr> h"

definition OFFSET_MAX :: int where
  "OFFSET_MAX = 2 ^ 31 - 1"

definition bt_BeginAll :: "ByteTagList \<Rightarrow> btl_heap \<Rightarrow> bt_Iterator option" where
  "bt_BeginAll = bt_Begin 0 OFFSET_MAX"

definition bi_HasNext :: "bt_Iterator \<Rightarrow> bool" where
  "bi_HasNext i \<longleftrightarrow> bi_current i < bi_end i"

text \<open>Next: TrimAtEnd asserts that the tag lies within the list.\<close>

definition bi_Next :: "bt_Iterator \<Rightarrow> btl_heap \<Rightarrow> (bt_Item \<times> bt_Iterator) option" where
  "bi_Next i h =
     (let after = bi_current i + 16 + bi_nextSize i in
      if bi_HasNext i \<and> after \<le> bi_end i then
        do { d \<leftarrow> bds h (bi_data i);
             buf \<leftarrow> those (take (bi_nextSize i) (drop (bi_current i + 16) (bd_data d)));
             let item = \<lparr>item_tid = bi_nextTid i, item_size = bi_nextSize i, item_start = max (bi_nextStart i) (bi_offsetStart i),
                         item_end = min (bi_nextEnd i) (bi_offsetEnd i), item_buf = buf\<rparr>;
             i \<leftarrow> bi_PrepareForNext (i\<lparr>bi_current := after\<rparr>) h;
             Some (item, i) }
      else None)"


lemma PrepareForNext_forward:
  "bi_PrepareForNext i h = Some i' \<Longrightarrow> bi_current i \<le> bi_current i' \<and> bi_end i' = bi_end i"
proof (induction i h rule: bi_PrepareForNext.induct)
  case (1 i h)
  show ?case
  proof (cases "bi_current i < bi_end i")
    case True
    then obtain i1 where l: "bi_load i h = Some i1"
      using "1.prems" by (auto simp: bi_PrepareForNext.simps [of i] split: option.splits)
    show ?thesis
      using "1.IH" [OF True l] "1.prems" True l load_forward [OF l] by (auto simp: bi_PrepareForNext.simps [of i] split: if_splits)
  qed (use "1.prems" in \<open>simp add: bi_PrepareForNext.simps [of i]\<close>)
qed

lemma Next_forward:
  "bi_Next i h = Some (item, i') \<Longrightarrow> bi_current i < bi_current i' \<and> bi_current i < bi_end i \<and> bi_end i' = bi_end i"
  by (auto simp: bi_Next_def Let_def bi_HasNext_def bind_eq_Some_conv split: if_splits dest!: PrepareForNext_forward)

section \<open>Loops over a list\<close>

text \<open>
  The loop of Add(const ByteTagList&), AddAtEnd and AddAtStart: every item of the iterator is added to \<open>list\<close>, with the start and the
  end that \<open>f\<close> gives it, or left out.
\<close>

function bt_add_items :: "(bt_Item \<Rightarrow> (int \<times> int) option) \<Rightarrow> bt_Iterator \<Rightarrow> ByteTagList \<Rightarrow> btl_heap \<Rightarrow> (ByteTagList \<times> btl_heap) option" where
  "bt_add_items f i list h =
     (if bi_HasNext i then
        (case bi_Next i h of
           None \<Rightarrow> None
         | Some (item, i) \<Rightarrow>
             (case f item of
                None \<Rightarrow> bt_add_items f i list h
              | Some (start, end) \<Rightarrow>
                  (case bt_Add (item_tid item) (item_buf item) start end list h of
                     None \<Rightarrow> None
                   | Some (list, h) \<Rightarrow> bt_add_items f i list h)))
      else Some (list, h))"
  by pat_completeness auto
termination bt_add_items
proof (relation "measure (\<lambda>(f, i, l, h). bi_end i - bi_current i)", goal_cases)
  case (2 f i l h x2 item i')
  then show ?case using Next_forward [of i h item i'] by auto
next
  case (3 f i l h x2 item i' x start' end' x' l' h')
  then show ?case using Next_forward [of i h item i'] by auto
qed simp

declare bt_add_items.simps [simp del]

definition bt_Add_list :: "ByteTagList \<Rightarrow> ByteTagList \<Rightarrow> btl_heap \<Rightarrow> (ByteTagList \<times> btl_heap) option" where
  "bt_Add_list o' l h = do { i \<leftarrow> bt_BeginAll o' h; bt_add_items (\<lambda>item. Some (item_start item, item_end item)) i l h }"

text \<open>\<open>*this = list\<close> and the end of the scope of \<open>list\<close>. What the loops write to \<open>m_minStart\<close> and \<open>m_maxEnd\<close> of this
  list is overwritten by the assignment.\<close>

definition bt_become :: "ByteTagList \<Rightarrow> ByteTagList \<Rightarrow> btl_heap \<Rightarrow> (ByteTagList \<times> btl_heap) option" where
  "bt_become list l h = do { (l, h) \<leftarrow> bt_assign l list h; h \<leftarrow> bt_destroy list h; Some (l, h) }"

definition bt_AddAtEnd :: "int \<Rightarrow> ByteTagList \<Rightarrow> btl_heap \<Rightarrow> (ByteTagList \<times> btl_heap) option" where
  "bt_AddAtEnd appendOffset l h =
     (if bt_maxEnd l \<le> i32 (appendOffset - bt_adjustment l) then Some (l, h)
      else do { i \<leftarrow> bt_BeginAll l h;
                (list, h) \<leftarrow> bt_add_items (\<lambda>item. if appendOffset \<le> item_start item then None
                                            else Some (item_start item, min (item_end item) appendOffset)) i bt_empty h;
                bt_become list l h })"

definition bt_AddAtStart :: "int \<Rightarrow> ByteTagList \<Rightarrow> btl_heap \<Rightarrow> (ByteTagList \<times> btl_heap) option" where
  "bt_AddAtStart prependOffset l h =
     (if i32 (prependOffset - bt_adjustment l) \<le> bt_minStart l then Some (l, h)
      else do { i \<leftarrow> bt_BeginAll l h;
                (list, h) \<leftarrow> bt_add_items (\<lambda>item. if item_end item \<le> prependOffset then None
                                            else Some (max (item_start item) prependOffset, item_end item)) i bt_empty h;
                bt_become list l h })"

text \<open>All items of an iterator.\<close>

function bi_items :: "bt_Iterator \<Rightarrow> btl_heap \<Rightarrow> bt_Item list option" where
  "bi_items i h =
     (if bi_HasNext i then
        (case bi_Next i h of None \<Rightarrow> None | Some (item, i) \<Rightarrow> map_option ((#) item) (bi_items i h))
      else Some [])"
  by pat_completeness auto
termination bi_items
proof (relation "measure (\<lambda>(i, h). bi_end i - bi_current i)", goal_cases)
  case (2 i h x2 item i')
  then show ?case using Next_forward [of i h item i'] by auto
qed simp


declare bi_items.simps [simp del]

end
