(* ===== verification/Byte_Tag_Sharing.thy ===== *)
theory Byte_Tag_Sharing
  imports Byte_Tags
begin

text \<open>
  The lists of byte tags are independent although they share storage. \<open>btl_inv h L\<close> is the invariant of a
  heap with the lists \<open>L\<close>; \<open>bt_holds h l raw\<close> says that \<open>l\<close> holds the tags \<open>raw\<close>, with their stored offsets. Every
  operation on a list keeps what the others hold.
\<close>

section \<open>The invariant\<close>

type_synonym raw_tag = "u32 \<times> int \<times> int \<times> u8 list"

definition records :: "raw_tag list \<Rightarrow> u8 list" where
  "records raw = concat (map (\<lambda>(tid, s, e, bytes). bt_record tid s e bytes) raw)"

definition bt_holds :: "btl_heap \<Rightarrow> ByteTagList \<Rightarrow> raw_tag list \<Rightarrow> bool" where
  "bt_holds h l raw \<longleftrightarrow>
     bt_used l = length (records raw) \<and> int (bt_used l) < 2 ^ 32 \<and>
     (if bt_data l = nullptr then raw = [] else \<exists>d. bds h (bt_data l) = Some d \<and> take (bt_used l) (bd_data d) = map Some (records raw))"

definition users :: "addr \<Rightarrow> ByteTagList multiset \<Rightarrow> nat" where
  "users a L = size (filter_mset (\<lambda>l. bt_data l = a) L)"

definition list_ok :: "btl_heap \<Rightarrow> ByteTagList \<Rightarrow> bool" where
  "list_ok h l \<longleftrightarrow>
     (if bt_data l = nullptr then bt_used l = 0 else \<exists>d. bds h (bt_data l) = Some d \<and> bt_used l \<le> bd_dirty d \<and> bd_dirty d \<le> bd_size d)"

definition btl_inv :: "btl_heap \<Rightarrow> ByteTagList multiset \<Rightarrow> bool" where
  "btl_inv h L \<longleftrightarrow>
     bds h nullptr = None \<and> 0 < bt_fresh h \<and>
     (\<forall>a d. bds h a = Some d \<longrightarrow> a < bt_fresh h \<and> bd_size d \<le> length (bd_data d) \<and> bd_count d = users a L \<and>
        (bd_count d = 0) = (a \<in> set (bt_freeList h))) \<and>
     distinct (bt_freeList h) \<and> set (bt_freeList h) \<subseteq> dom (bds h) \<and> (\<forall>l \<in># L. list_ok h l)"

definition bt_frames :: "ByteTagList multiset \<Rightarrow> btl_heap \<Rightarrow> btl_heap \<Rightarrow> bool" where
  "bt_frames L h h' \<longleftrightarrow> (\<forall>l \<in># L. \<forall>raw. bt_holds h l raw \<longrightarrow> bt_holds h' l raw)"

lemma frames_trans: "bt_frames L h h' \<Longrightarrow> bt_frames L h' h'' \<Longrightarrow> bt_frames L h h''"
  by (simp add: bt_frames_def)

lemma bds_simps [simp]:
  "bds (put_bd a d h) b = (if b = a then Some d else bds h b)" "bt_freeList (put_bd a d h) = bt_freeList h"
  "bt_fresh (put_bd a d h) = bt_fresh h" "bt_maxSize (put_bd a d h) = bt_maxSize h"
  by (simp_all add: put_bd_def)

lemma dom_put_bd [simp]: "dom (bds (put_bd a d h)) = insert a (dom (bds h))"
  by (auto simp: domIff split: if_splits)

lemma users_simps [simp]: "users a {#} = 0" "users a (add_mset l L) = (if bt_data l = a then Suc (users a L) else users a L)"
  by (simp_all add: users_def)

lemma users_pos: "l \<in># L \<Longrightarrow> 0 < users (bt_data l) L"
  by (auto simp: users_def nonempty_has_size [symmetric] filter_mset_eq_conv)

lemma users_zero: "(\<And>l. l \<in># L \<Longrightarrow> bt_data l \<noteq> a) \<Longrightarrow> users a L = 0"
  by (induction L) auto

lemma btl_invD:
  assumes "btl_inv h L"
  shows "bds h nullptr = None" "0 < bt_fresh h" "distinct (bt_freeList h)" "set (bt_freeList h) \<subseteq> dom (bds h)"
    and "bds h a = Some d \<Longrightarrow> a < bt_fresh h" "bds h a = Some d \<Longrightarrow> bd_size d \<le> length (bd_data d)"
    and "bds h a = Some d \<Longrightarrow> bd_count d = users a L" "bds h a = Some d \<Longrightarrow> (bd_count d = 0) = (a \<in> set (bt_freeList h))"
    and "l \<in># L \<Longrightarrow> list_ok h l"
  using assms unfolding btl_inv_def by blast+

lemma not_null: "btl_inv h L \<Longrightarrow> bds h a = Some d \<Longrightarrow> a \<noteq> nullptr"
  using btl_invD(1) by (metis option.distinct(1))

lemma btl_invI:
  assumes "bds h nullptr = None" "0 < bt_fresh h" "distinct (bt_freeList h)" "set (bt_freeList h) \<subseteq> dom (bds h)"
    and "\<And>a d. bds h a = Some d \<Longrightarrow> a < bt_fresh h \<and> bd_size d \<le> length (bd_data d)"
    and "\<And>a d. bds h a = Some d \<Longrightarrow> bd_count d = users a L"
    and "\<And>a d. bds h a = Some d \<Longrightarrow> (bd_count d = 0) = (a \<in> set (bt_freeList h))"
    and "\<And>l. l \<in># L \<Longrightarrow> list_ok h l"
  shows "btl_inv h L"
  using assms by (simp add: btl_inv_def)

lemma inv_users:
  assumes i: "btl_inv h L" and u: "\<And>a d. bds h a = Some d \<Longrightarrow> users a L' = users a L" and l: "\<And>l. l \<in># L' \<Longrightarrow> list_ok h l"
  shows "btl_inv h L'"
  by (rule btl_invI) (use btl_invD(1-8) [OF i] u l in auto)

lemma inv_without_data:
  assumes "bt_data l = nullptr"
  shows "btl_inv h L \<Longrightarrow> list_ok h l \<Longrightarrow> btl_inv h (add_mset l L)" and "btl_inv h (add_mset l L) \<Longrightarrow> btl_inv h L"
  by (auto intro!: inv_users [of h L "add_mset l L"] inv_users [of h "add_mset l L" L] simp: assms dest: not_null btl_invD(9))

lemma records_simps [simp]: "records [] = []" "records (r @ r') = records r @ records r'"
  "records ((tid, s, e, bytes) # r) = bt_record tid s e bytes @ records r"
  by (simp_all add: records_def)

text \<open>A list that has storage.\<close>

lemma live_data:
  assumes "btl_inv h L" and "l \<in># L" and "bt_data l \<noteq> nullptr"
  shows "\<exists>d. bds h (bt_data l) = Some d \<and> bt_used l \<le> bd_dirty d \<and> bd_dirty d \<le> bd_size d \<and> bd_size d \<le> length (bd_data d) \<and>
    bd_count d = users (bt_data l) L \<and> 0 < bd_count d \<and> bt_data l \<notin> set (bt_freeList h)"
proof -
  obtain d where d: "bds h (bt_data l) = Some d" "bt_used l \<le> bd_dirty d" "bd_dirty d \<le> bd_size d"
    using btl_invD(9) [OF assms(1,2)] assms(3) by (auto simp: list_ok_def)
  then show ?thesis using btl_invD(6-8) [OF assms(1) d(1)] users_pos [OF assms(2)] by auto
qed

text \<open>Only the storages of lists matter to them.\<close>

lemma frames_data:
  assumes "\<And>l. l \<in># L \<Longrightarrow> bt_data l \<noteq> nullptr \<Longrightarrow> map_option bd_data (bds h' (bt_data l)) = map_option bd_data (bds h (bt_data l))"
  shows "bt_frames L h h'"
proof -
  have "bt_holds h' l raw" if l: "l \<in># L" and r: "bt_holds h l raw" for l raw
  proof (cases "bt_data l = nullptr")
    case False
    then obtain d where "bds h (bt_data l) = Some d" "take (bt_used l) (bd_data d) = map Some (records raw)" using r by (auto simp: bt_holds_def)
    then show ?thesis using assms [OF l False] r False by (auto simp: bt_holds_def)
  qed (use r in \<open>simp add: bt_holds_def\<close>)
  then show ?thesis by (simp add: bt_frames_def)
qed

section \<open>Storage\<close>

lemma bt_copy_ok:
  assumes i: "btl_inv h L" and l: "l \<in># L"
  shows "\<exists>h'. bt_copy l h = Some (l, h') \<and> btl_inv h' (add_mset l L) \<and> bt_frames L h h'"
proof (cases "bt_data l = nullptr")
  case True
  then show ?thesis using inv_without_data(1) [OF True i btl_invD(9) [OF i l]] by (simp add: bt_copy_def bt_frames_def)
next
  case False
  obtain d where d: "bds h (bt_data l) = Some d" "bd_count d = users (bt_data l) L" "0 < bd_count d" "bt_data l \<notin> set (bt_freeList h)"
    using live_data [OF i l False] by auto
  let ?h = "put_bd (bt_data l) (d\<lparr>bd_count := bd_count d + 1\<rparr>) h"
  have "list_ok ?h k" if "k \<in># add_mset l L" for k
  proof -
    have "list_ok h k" using btl_invD(9) [OF i] l that by auto
    then show ?thesis using d(1) by (auto simp: list_ok_def)
  qed
  then have "btl_inv ?h (add_mset l L)"
    by (intro btl_invI) (use btl_invD [OF i] d False in \<open>auto split: if_splits\<close>)
  moreover have "bt_frames L h ?h" by (rule frames_data) (use d(1) in auto)
  ultimately show ?thesis using False d(1) by (simp add: bt_copy_def)
qed

lemma bt_Deallocate_ok:
  assumes i: "btl_inv h (add_mset l L)"
  shows "\<exists>h'. bt_Deallocate (bt_data l) h = Some h' \<and> btl_inv h' L \<and> bt_frames L h h'"
proof (cases "bt_data l = nullptr")
  case True
  then show ?thesis using inv_without_data(2) [OF True i] by (simp add: bt_Deallocate_def bt_frames_def)
next
  case False
  let ?a = "bt_data l"
  obtain d where d: "bds h ?a = Some d" "bd_count d = Suc (users ?a L)" "?a \<notin> set (bt_freeList h)" "bd_size d \<le> length (bd_data d)" "?a < bt_fresh h"
    using live_data [OF i _ False] btl_invD(5) [OF i] by auto
  let ?h = "put_bd ?a (d\<lparr>bd_count := bd_count d - 1\<rparr>) (h\<lparr>bt_maxSize := max (bt_maxSize h) (bd_size d)\<rparr>)"
  have k: "list_ok h k" if "k \<in># L" for k using btl_invD(9) [OF i] that by auto
  note f = btl_invD(1-4) [OF i] btl_invD(5-8) [OF i]
  show ?thesis
  proof (cases "users ?a L = 0")
    case last: True
    then have other: "bt_data k \<noteq> ?a" if "k \<in># L" for k using users_pos [OF that] by auto
    let ?free = "?h\<lparr>bds := (bds ?h)(?a := None)\<rparr>" and ?keep = "?h\<lparr>bt_freeList := bt_freeList ?h @ [?a]\<rparr>"
    have "btl_inv ?free L"
    proof (rule btl_invI)
      show "set (bt_freeList ?free) \<subseteq> dom (bds ?free)" using f(4) d(3) by auto
      show "list_ok ?free k" if "k \<in># L" for k using k [OF that] other [OF that] by (auto simp: list_ok_def)
      fix a x assume "bds ?free a = Some x"
      then have "bds h a = Some x" "a \<noteq> ?a" by (auto split: if_splits)
      then show "a < bt_fresh ?free \<and> bd_size x \<le> length (bd_data x)" "bd_count x = users a L" "(bd_count x = 0) = (a \<in> set (bt_freeList ?free))"
        using f(5-8) [of a x] by auto
    qed (use f in auto)
    moreover have "btl_inv ?keep L"
    proof (rule btl_invI)
      show "set (bt_freeList ?keep) \<subseteq> dom (bds ?keep)" using f(4) by auto
      show "list_ok ?keep k" if "k \<in># L" for k using k [OF that] other [OF that] by (auto simp: list_ok_def)
      fix a x assume x: "bds ?keep a = Some x"
      show "a < bt_fresh ?keep \<and> bd_size x \<le> length (bd_data x)" "bd_count x = users a L" "(bd_count x = 0) = (a \<in> set (bt_freeList ?keep))"
        using x f(5-8) [of a x] d last by (auto split: if_splits)
    qed (use f d(3) False in auto)
    moreover have "bt_frames L h ?free" "bt_frames L h ?keep" by (rule frames_data, use other in auto)+
    ultimately show ?thesis using False d last by (auto simp: bt_Deallocate_def Let_def)
  next
    case shared: False
    have "btl_inv ?h L"
    proof (rule btl_invI)
      show "list_ok ?h k" if "k \<in># L" for k using k [OF that] d(1) by (auto simp: list_ok_def)
      fix a x assume x: "bds ?h a = Some x"
      show "a < bt_fresh ?h \<and> bd_size x \<le> length (bd_data x)" "bd_count x = users a L" "(bd_count x = 0) = (a \<in> set (bt_freeList ?h))"
        using x f(5-8) [of a x] d shared by (auto split: if_splits)
    qed (use f False in auto)
    moreover have "bt_frames L h ?h" by (rule frames_data) (use d(1) in auto)
    ultimately show ?thesis using False d shared by (auto simp: bt_Deallocate_def Let_def)
  qed
qed


text \<open>Storage for a new list: it belongs to nobody else.\<close>

abbreviation on_data :: "addr \<Rightarrow> ByteTagList" where
  "on_data a \<equiv> bt_empty\<lparr>bt_data := a\<rparr>"

lemma on_data_simps [simp]: "bt_data (on_data a) = a" "bt_used (on_data a) = 0" "bt_used bt_empty = 0" "bt_data bt_empty = nullptr"
  "bt_adjustment bt_empty = 0"
  by (simp_all add: bt_empty_def)

definition new_data :: "btl_heap \<Rightarrow> ByteTagList multiset \<Rightarrow> nat \<Rightarrow> addr \<Rightarrow> btl_heap \<Rightarrow> bool" where
  "new_data h L n a h' \<longleftrightarrow> btl_inv h' (add_mset (on_data a) L) \<and> bt_frames L h h' \<and> users a L = 0 \<and> a \<noteq> nullptr \<and>
     (\<exists>d. bds h' a = Some d \<and> n \<le> bd_size d)"

lemma reuse_ok:
  assumes "btl_inv (h\<lparr>bt_freeList := rev fl\<rparr>) L"
  shows "\<exists>r h'. bt_reuse n fl h = Some (r, h') \<and> (case r of None \<Rightarrow> btl_inv h' L \<and> bt_frames L h h' | Some a \<Rightarrow> new_data h L n a h')"
  using assms
proof (induction fl arbitrary: h)
  case Nil
  have "bt_frames L h (h\<lparr>bt_freeList := []\<rparr>)" by (rule frames_data) simp
  then show ?case using Nil by simp
next
  case (Cons a fl)
  note f = btl_invD(1-4) [OF Cons.prems] btl_invD(5-8) [OF Cons.prems]
  obtain d where d: "bds h a = Some d" using f(4) by auto
  have u: "users a L = 0" using f(7,8) [of a d] d by simp
  then have other: "bt_data k \<noteq> a" if "k \<in># L" for k using users_pos [OF that] by auto
  have "a \<noteq> nullptr" by (rule not_null [OF Cons.prems, of a d]) (use d in simp)
  then have a: "a \<noteq> nullptr" "a < bt_fresh h" "bd_size d \<le> length (bd_data d)" using f(5,6) [of a d] d by simp_all
  have k: "list_ok (h\<lparr>bt_freeList := rev (a # fl)\<rparr>) k" if "k \<in># L" for k by (rule btl_invD(9) [OF Cons.prems that])
  show ?case
  proof (cases "n \<le> bd_size d")
    case True
    let ?h = "put_bd a (d\<lparr>bd_count := 1, bd_dirty := 0\<rparr>) (h\<lparr>bt_freeList := rev fl\<rparr>)"
    have "btl_inv ?h (add_mset (on_data a) L)"
    proof (rule btl_invI)
      show "list_ok ?h k" if "k \<in># add_mset (on_data a) L" for k using that k [of k] other [of k] a by (auto simp: list_ok_def)
      fix b x assume x: "bds ?h b = Some x"
      show "b < bt_fresh ?h \<and> bd_size x \<le> length (bd_data x)" "bd_count x = users b (add_mset (on_data a) L)"
        "(bd_count x = 0) = (b \<in> set (bt_freeList ?h))"
        using x f(3) f(5-8) [of b x] a u by (auto split: if_splits)
    qed (use f a in auto)
    moreover have "bt_frames L h ?h" by (rule frames_data) (use other in auto)
    ultimately show ?thesis using d True u a by (auto simp: new_data_def)
  next
    case False
    let ?h = "h\<lparr>bds := (bds h)(a := None)\<rparr>"
    have "btl_inv (?h\<lparr>bt_freeList := rev fl\<rparr>) L"
    proof (rule btl_invI)
      show "list_ok (?h\<lparr>bt_freeList := rev fl\<rparr>) k" if "k \<in># L" for k using k [OF that] other [OF that] by (auto simp: list_ok_def)
      fix b x assume "bds (?h\<lparr>bt_freeList := rev fl\<rparr>) b = Some x"
      then have "bds h b = Some x" "b \<noteq> a" by (auto split: if_splits)
      then show "b < bt_fresh (?h\<lparr>bt_freeList := rev fl\<rparr>) \<and> bd_size x \<le> length (bd_data x)" "bd_count x = users b L"
        "(bd_count x = 0) = (b \<in> set (bt_freeList (?h\<lparr>bt_freeList := rev fl\<rparr>)))"
        using f(5-8) [of b x] by auto
    qed (use f in auto)
    then obtain r h' where r: "bt_reuse n fl ?h = Some (r, h')"
      "case r of None \<Rightarrow> btl_inv h' L \<and> bt_frames L ?h h' | Some a \<Rightarrow> new_data ?h L n a h'" using Cons.IH by blast
    have "bt_frames L h ?h" by (rule frames_data) (use other in auto)
    then show ?thesis using r d False frames_trans by (cases r) (auto simp: new_data_def)
  qed
qed

lemma bt_Allocate_ok:
  assumes i: "btl_inv h L"
  shows "\<exists>a h'. bt_Allocate n h = Some (a, h') \<and> new_data h L n a h'"
proof -
  have "btl_inv (h\<lparr>bt_freeList := rev (rev (bt_freeList h))\<rparr>) L" using i by simp
  then obtain r h1 where r: "bt_reuse n (rev (bt_freeList h)) h = Some (r, h1)"
    "case r of None \<Rightarrow> btl_inv h1 L \<and> bt_frames L h h1 | Some a \<Rightarrow> new_data h L n a h1"
    using reuse_ok by blast
  show ?thesis
  proof (cases r)
    case None
    then have i1: "btl_inv h1 L" and f1: "bt_frames L h h1" using r(2) by simp_all
    note f = btl_invD(1-4) [OF i1] btl_invD(5-8) [OF i1]
    let ?a = "bt_fresh h1"
    let ?d = "\<lparr>bd_size = n, bd_count = 1, bd_dirty = 0, bd_data = replicate (max n (bt_maxSize h1)) None\<rparr>"
    let ?h = "put_bd ?a ?d (h1\<lparr>bt_fresh := Suc ?a\<rparr>)"
    have n: "bds h1 ?a = None" using f(5) [of ?a] by (cases "bds h1 ?a") auto
    have other: "bt_data k \<noteq> ?a" if "k \<in># L" for k
      using live_data [OF i1 that] n f(2) by (cases "bt_data k = nullptr") auto
    then have u: "users ?a L = 0" by (rule users_zero)
    have "btl_inv ?h (add_mset (on_data ?a) L)"
    proof (rule btl_invI)
      show "list_ok ?h k" if "k \<in># add_mset (on_data ?a) L" for k
        using that btl_invD(9) [OF i1, of k] other [of k] f(2) by (auto simp: list_ok_def)
      fix b x assume x: "bds ?h b = Some x"
      show "b < bt_fresh ?h \<and> bd_size x \<le> length (bd_data x)" "bd_count x = users b (add_mset (on_data ?a) L)"
        "(bd_count x = 0) = (b \<in> set (bt_freeList ?h))"
        using x f(5-8) [of b x] f(4) n u by (auto split: if_splits simp: less_Suc_eq)
    qed (use f in auto)
    moreover have "bt_frames L h1 ?h" by (rule frames_data) (use other in auto)
    ultimately have "new_data h L n ?a ?h" using u f(2) frames_trans [OF f1] by (simp add: new_data_def)
    then show ?thesis using r(1) None by (simp add: bt_Allocate_def)
  qed (use r in \<open>auto simp: bt_Allocate_def\<close>)
qed

text \<open>A list writes at its end: nobody else uses what lies behind.\<close>

lemma append_ok:
  assumes i: "btl_inv h (add_mset l L)" and d: "bds h (bt_data l) = Some d"
    and own: "bd_count d = 1 \<or> bd_dirty d = bt_used l" and room: "bt_used l + length bs \<le> bd_size d"
    and l': "bt_data l' = bt_data l" "bt_used l' = bt_used l + length bs"
  shows "btl_inv (put_bd (bt_data l) (d\<lparr>bd_data := splice (bt_used l) bs (bd_data d), bd_dirty := bt_used l'\<rparr>) h) (add_mset l' L)"
    and "bt_frames L h (put_bd (bt_data l) (d\<lparr>bd_data := splice (bt_used l) bs (bd_data d), bd_dirty := bt_used l'\<rparr>) h)"
proof -
  let ?a = "bt_data l"
  let ?h = "put_bd ?a (d\<lparr>bd_data := splice (bt_used l) bs (bd_data d), bd_dirty := bt_used l'\<rparr>) h"
  have a: "?a \<noteq> nullptr" by (rule not_null [OF i d])
  have s: "bd_count d = Suc (users ?a L)" "bd_size d \<le> length (bd_data d)" using btl_invD(6,7) [OF i d] by simp_all
  have len: "length (splice (bt_used l) bs (bd_data d)) = length (bd_data d)" using room s(2) by (simp add: splice_def)
  have used: "bt_used k \<le> bt_used l" if k: "k \<in># L" "bt_data k = ?a" for k
  proof -
    have "0 < users ?a L" using users_pos [OF k(1)] k(2) by simp
    then have "bd_dirty d = bt_used l" using own s(1) by auto
    then show ?thesis using btl_invD(9) [OF i, of k] k a d by (auto simp: list_ok_def)
  qed
  show "btl_inv ?h (add_mset l' L)"
  proof (rule btl_invI)
    show "list_ok ?h k" if "k \<in># add_mset l' L" for k
    proof (cases "bt_data k = ?a")
      case True
      then have "bt_used k \<le> bt_used l'" using that used [of k] l' by auto
      then show ?thesis using True a room l' by (simp add: list_ok_def)
    next
      case False
      then have "k \<in># add_mset l L" using that l' by auto
      then show ?thesis using btl_invD(9) [OF i, of k] False by (auto simp: list_ok_def)
    qed
    fix b x assume x: "bds ?h b = Some x"
    show "b < bt_fresh ?h \<and> bd_size x \<le> length (bd_data x)" "bd_count x = users b (add_mset l' L)" "(bd_count x = 0) = (b \<in> set (bt_freeList ?h))"
      using x btl_invD(5-8) [OF i, of b x] btl_invD(5-8) [OF i d] l' len s by (auto split: if_splits)
  qed (use btl_invD(1-4) [OF i] a in auto)
  have "bt_holds ?h k raw" if k: "k \<in># L" and r: "bt_holds h k raw" for k raw
  proof (cases "bt_data k = ?a")
    case True
    then have "bt_used k \<le> bt_used l" using used k by simp
    then have "take (bt_used k) (splice (bt_used l) bs (bd_data d)) = take (bt_used k) (bd_data d)"
      using s(2) room by (simp add: splice_def min_absorb1)
    then show ?thesis using r True d a by (auto simp: bt_holds_def)
  qed (use r in \<open>auto simp: bt_holds_def\<close>)
  then show "bt_frames L h ?h" by (simp add: bt_frames_def)
qed


section \<open>Adding a tag\<close>

lemma length_record [simp]: "length (bt_record tid s e bytes) = 16 + length bytes"
  by (simp add: bt_record_def tb_u32_def)

definition bt_leaves :: "btl_heap \<Rightarrow> ByteTagList multiset \<Rightarrow> ByteTagList \<Rightarrow> btl_heap \<Rightarrow> raw_tag list \<Rightarrow> bool" where
  "bt_leaves h L l h' raw \<longleftrightarrow> btl_inv h' (add_mset l L) \<and> bt_holds h' l raw \<and> bt_frames L h h'"

text \<open>The records \<open>new\<close> behind the place \<open>p\<close> of a storage, after which it holds \<open>raw\<close>.\<close>

lemma append_records:
  assumes i: "btl_inv h (add_mset k L)" and d: "bds h (bt_data k) = Some d" and own: "bd_count d = 1 \<or> bd_dirty d = bt_used k"
    and data: "take (bt_used k) (bd_data d) @ map Some new = map Some (records raw)" and room: "bt_used k + length new \<le> bd_size d"
    and l': "bt_data l' = bt_data k" "bt_used l' = bt_used k + length new" "int (bt_used l') < 2 ^ 32"
  shows "bt_leaves h L l' (put_bd (bt_data k) (d\<lparr>bd_data := splice (bt_used k) (map Some new) (bd_data d), bd_dirty := bt_used l'\<rparr>) h) raw"
proof -
  let ?d = "d\<lparr>bd_data := splice (bt_used k) (map Some new) (bd_data d), bd_dirty := bt_used l'\<rparr>"
  have a: "bt_data k \<noteq> nullptr" by (rule not_null [OF i d])
  have u: "bt_used k \<le> length (bd_data d)" using room btl_invD(6) [OF i d] by simp
  have "length (records raw) = bt_used l'" using arg_cong [OF data, of length] u l'(2) by (simp add: min_absorb2)
  moreover have "take (bt_used l') (bd_data ?d) = map Some (records raw)" using data u l'(2) by (simp add: splice_def min_absorb2)
  ultimately have "bt_holds (put_bd (bt_data k) ?d h) l' raw" using a l' by (simp add: bt_holds_def)
  moreover have "bt_used k + length (map Some new) \<le> bd_size d" "bt_used l' = bt_used k + length (map Some new)" using room l'(2) by simp_all
  ultimately show ?thesis using append_ok [OF i d own, of "map Some new" l'] l'(1) unfolding bt_leaves_def by blast
qed

lemma Deallocate_put:
  "a \<noteq> b \<Longrightarrow> bt_Deallocate b (put_bd a x h) = map_option (put_bd a x) (bt_Deallocate b h)"
  by (cases h) (auto simp: bt_Deallocate_def Let_def put_bd_def fun_upd_twist split: Option.bind_splits)

lemma put_put_bd [simp]: "put_bd a x (put_bd a y h) = put_bd a x h"
  by (simp add: put_bd_def)

lemma leaves_trans: "bt_frames L h h1 \<Longrightarrow> bt_leaves h1 L l h2 raw \<Longrightarrow> bt_leaves h L l h2 raw"
  using frames_trans by (auto simp: bt_leaves_def)

lemma frames_sub: "bt_frames (add_mset l L) h h' \<Longrightarrow> bt_frames L h h'"
  by (simp add: bt_frames_def)

text \<open>After bt_reserve, a record can be written.\<close>

lemma reserve_ok:
  assumes i: "btl_inv h (add_mset l L)" and r: "bt_holds h l raw" and n: "n = bt_used l + length new" "int n < 2 ^ 32"
    and raw': "records raw' = records raw @ new"
  shows "\<exists>a h1 d. bt_reserve n l h = Some (l\<lparr>bt_data := a\<rparr>, h1) \<and> bds h1 a = Some d \<and>
    (\<forall>l'. bt_data l' = a \<and> bt_used l' = n \<longrightarrow>
      bt_leaves h L l' (put_bd a (d\<lparr>bd_data := splice (bt_used l) (map Some new) (bd_data d), bd_dirty := n\<rparr>) h1) raw')"
proof -
  have u: "bt_used l = length (records raw)" using r by (simp add: bt_holds_def)
  consider (none) "bt_data l = nullptr" | (new) d where "bt_data l \<noteq> nullptr" "bds h (bt_data l) = Some d" "bd_size d < n \<or> (bd_count d \<noteq> 1 \<and> bd_dirty d \<noteq> bt_used l)"
    | (old) d where "bt_data l \<noteq> nullptr" "bds h (bt_data l) = Some d" "\<not> (bd_size d < n \<or> (bd_count d \<noteq> 1 \<and> bd_dirty d \<noteq> bt_used l))"
    using live_data [OF i, of l] by fastforce
  then show ?thesis
  proof cases
    case none
    then have e: "raw = []" "bt_used l = 0" using r by (simp_all add: bt_holds_def)
    obtain a h1 where a: "bt_Allocate n h = Some (a, h1)" "new_data h L n a h1" using bt_Allocate_ok [OF inv_without_data(2) [OF none i]] by blast
    then obtain d where d: "bds h1 a = Some d" "n \<le> bd_size d" and i1: "btl_inv h1 (add_mset (on_data a) L)" and f: "bt_frames L h h1" "users a L = 0"
      by (auto simp: new_data_def)
    have c: "bd_count d = 1" using btl_invD(7) [OF i1 d(1)] f(2) by simp
    have "bt_leaves h1 L l' (put_bd a (d\<lparr>bd_data := splice 0 (map Some new) (bd_data d), bd_dirty := n\<rparr>) h1) raw'"
      if "bt_data l' = a" "bt_used l' = n" for l'
      using append_records [OF i1, of d new raw' l'] d c raw' e n that by simp
    then show ?thesis using none a(1) d(1) e(2) leaves_trans [OF f(1)] by (cases l) (auto simp: bt_reserve_def)
  next
    case old
    have "bt_leaves h L l' (put_bd (bt_data l) (d\<lparr>bd_data := splice (bt_used l) (map Some new) (bd_data d), bd_dirty := n\<rparr>) h) raw'"
      if "bt_data l' = bt_data l" "bt_used l' = n" for l'
      using append_records [OF i, of d new raw' l'] old raw' n that r by (auto simp: bt_holds_def)
    then show ?thesis using old by (auto simp: bt_reserve_def intro!: exI [of _ "bt_data l"])
  next
    case new
    obtain a h1 where a: "bt_Allocate n h = Some (a, h1)" "new_data h (add_mset l L) n a h1" using bt_Allocate_ok [OF i] by blast
    then obtain x where x: "bds h1 a = Some x" "n \<le> bd_size x" and i1: "btl_inv h1 (add_mset (on_data a) (add_mset l L))"
      and f: "bt_frames (add_mset l L) h h1" "users a (add_mset l L) = 0" by (auto simp: new_data_def)
    have c: "bd_count x = 1" "a \<noteq> bt_data l" using btl_invD(7) [OF i1 x(1)] f(2) by (auto split: if_splits)
    let ?all = "records raw @ new"
    have old: "take (bt_used l) (bd_data d) = map Some (records raw)" using r new by (auto simp: bt_holds_def)
    let ?m = "x\<lparr>bd_data := take (bt_used l) (bd_data d) @ drop (bt_used l) (bd_data x)\<rparr>"
    let ?fin = "x\<lparr>bd_data := splice 0 (map Some ?all) (bd_data x), bd_dirty := n\<rparr>"
    have fin: "?m\<lparr>bd_data := splice (bt_used l) (map Some new) (bd_data ?m), bd_dirty := n\<rparr> = ?fin"
      using old u by (simp add: splice_def add.commute)
    have w: "bt_leaves h1 (add_mset l L) l' (put_bd a ?fin h1) raw'" if "bt_data l' = a" "bt_used l' = n" for l'
      using append_records [OF i1, of x ?all raw' l'] x c raw' u n that by simp
    have iw: "btl_inv (put_bd a ?fin h1) (add_mset l (add_mset (l\<lparr>bt_data := a, bt_used := n\<rparr>) L))"
      using w [of "l\<lparr>bt_data := a, bt_used := n\<rparr>"] by (simp add: bt_leaves_def add_mset_commute)
    obtain h2 where "bt_Deallocate (bt_data l) (put_bd a ?fin h1) = Some h2" using bt_Deallocate_ok [OF iw] by blast
    then obtain h3 where h3: "bt_Deallocate (bt_data l) h1 = Some h3" using Deallocate_put [OF c(2)] by auto
    have leaves: "bt_leaves h L l' (put_bd a ?fin h3) raw'" if l': "bt_data l' = a" "bt_used l' = n" for l'
    proof -
      have "btl_inv (put_bd a ?fin h1) (add_mset l (add_mset l' L))" using w [OF l'] by (simp add: bt_leaves_def add_mset_commute)
      then have "btl_inv (put_bd a ?fin h3) (add_mset l' L) \<and> bt_frames (add_mset l' L) (put_bd a ?fin h1) (put_bd a ?fin h3)"
        using bt_Deallocate_ok [of "put_bd a ?fin h1" l "add_mset l' L"] Deallocate_put [OF c(2)] h3 by auto
      then have "bt_leaves (put_bd a ?fin h1) L l' (put_bd a ?fin h3) raw'"
        using w [OF l'] by (auto simp: bt_leaves_def bt_frames_def)
      moreover have "bt_frames L h (put_bd a ?fin h1)" using frames_sub [OF frames_trans [OF f(1)]] w [OF l'] unfolding bt_leaves_def by blast
      ultimately show ?thesis by (rule leaves_trans [rotated])
    qed
    have "bt_Deallocate (bt_data l) (put_bd a ?m h1) = Some (put_bd a ?m h3)" using Deallocate_put [OF c(2)] h3 by simp
    then have "bt_reserve n l h = Some (l\<lparr>bt_data := a\<rparr>, put_bd a ?m h3)" using new a(1) x(1) by (simp add: bt_reserve_def)
    moreover have "bds (put_bd a ?m h3) a = Some ?m" by simp
    moreover have "bt_leaves h L l' (put_bd a (?m\<lparr>bd_data := splice (bt_used l) (map Some new) (bd_data ?m), bd_dirty := n\<rparr>) (put_bd a ?m h3)) raw'"
      if "bt_data l' = a" "bt_used l' = n" for l'
      unfolding fin put_put_bd by (rule leaves [OF that])
    ultimately show ?thesis by blast
  qed
qed

lemma bt_Add_ok:
  assumes v: "bt_leaves h0 L l h raw" and small: "int (bt_used l + length bytes + 16) < 2 ^ 32"
  shows "\<exists>l' h'. bt_Add tid bytes start end l h = Some (l', h') \<and>
    bt_leaves h0 L l' h' (raw @ [(tid, i32 (start - bt_adjustment l), i32 (end - bt_adjustment l), bytes)]) \<and>
    bt_adjustment l' = bt_adjustment l \<and> bt_minStart l' = min (bt_minStart l) (i32 (start - bt_adjustment l)) \<and>
    bt_maxEnd l' = max (bt_maxEnd l) (i32 (end - bt_adjustment l)) \<and> bt_used l' = bt_used l + length bytes + 16"
proof -
  let ?n = "bt_used l + length bytes + 16" and ?s = "i32 (start - bt_adjustment l)" and ?e = "i32 (end - bt_adjustment l)"
  have i: "btl_inv h (add_mset l L)" and r: "bt_holds h l raw" and f: "bt_frames L h0 h" using v by (simp_all add: bt_leaves_def)
  obtain a h1 d where p: "bt_reserve ?n l h = Some (l\<lparr>bt_data := a\<rparr>, h1)" "bds h1 a = Some d"
    "\<forall>l'. bt_data l' = a \<and> bt_used l' = ?n \<longrightarrow>
      bt_leaves h L l' (put_bd a (d\<lparr>bd_data := splice (bt_used l) (map Some (bt_record tid ?s ?e bytes)) (bd_data d), bd_dirty := ?n\<rparr>) h1)
        (raw @ [(tid, ?s, ?e, bytes)])"
    using reserve_ok [OF i r, of ?n "bt_record tid ?s ?e bytes" "raw @ [(tid, ?s, ?e, bytes)]"] small by auto
  let ?l' = "l\<lparr>bt_data := a, bt_minStart := min (bt_minStart l) ?s, bt_maxEnd := max (bt_maxEnd l) ?e, bt_used := ?n\<rparr>"
  show ?thesis using p(1,2) p(3) [rule_format, of ?l'] leaves_trans [OF f] small by (simp add: bt_Add_def Let_def)
qed


section \<open>Iteration\<close>

lemma i32_id: "- (2 ^ 31) \<le> x \<Longrightarrow> x < 2 ^ 31 \<Longrightarrow> i32 x = x"
  unfolding i32_def by (rule signed_take_bit_int_eq_self) simp_all

lemma i32_uint: "i32 (uint (word_of_int s :: u32) + a) = i32 (s + a)"
  unfolding i32_def
  by (subst signed_take_bit_eq_iff_take_bit_eq) (simp add: take_bit_eq_mod uint_word_of_int mod_simps)

lemma read_u32:
  assumes "c + 4 \<le> e" and "take 4 (drop c data) = map Some (tb_u32 w)"
  shows "tb_ReadU32 c e data = Some w"
  using assms foldl_join(2) [of w] by (simp add: tb_ReadU32_def tb_u32_def)

text \<open>The iterator \<open>i\<close> over the list \<open>l\<close> is behind the records \<open>pre\<close>.\<close>

definition behind :: "ByteTagList \<Rightarrow> bt_Iterator \<Rightarrow> raw_tag list \<Rightarrow> bool" where
  "behind l i pre \<longleftrightarrow> bi_data i = bt_data l \<and> bi_current i = length (records pre) \<and> bi_end i = bt_used l"

definition loaded :: "bt_Iterator \<Rightarrow> raw_tag \<Rightarrow> bool" where
  "loaded i r \<longleftrightarrow>
     (case r of (tid, s, e, bytes) \<Rightarrow>
        bi_nextTid i = tid \<and> bi_nextSize i = length bytes \<and> bi_nextStart i = i32 (s + bi_adjustment i) \<and> bi_nextEnd i = i32 (e + bi_adjustment i))"

definition same_walk :: "bt_Iterator \<Rightarrow> bt_Iterator \<Rightarrow> bool" where
  "same_walk i i' \<longleftrightarrow> bi_offsetStart i' = bi_offsetStart i \<and> bi_offsetEnd i' = bi_offsetEnd i \<and> bi_adjustment i' = bi_adjustment i"

lemma record_data:
  assumes h: "bt_holds h l (pre @ (tid, s, e, bytes) # rest)"
  shows "\<exists>d. bds h (bt_data l) = Some d \<and> drop (length (records pre)) (bd_data d) = map Some (bt_record tid s e bytes @ records rest) @ drop (bt_used l) (bd_data d)"
proof -
  obtain d where d: "bds h (bt_data l) = Some d" "take (bt_used l) (bd_data d) = map Some (records (pre @ (tid, s, e, bytes) # rest))"
    "bt_used l = length (records (pre @ (tid, s, e, bytes) # rest))"
    using h by (auto simp: bt_holds_def split: if_splits)
  have "bd_data d = map Some (records pre) @ map Some (bt_record tid s e bytes @ records rest) @ drop (bt_used l) (bd_data d)"
    using append_take_drop_id [of "bt_used l" "bd_data d"] d(2) by simp
  then have "drop (length (records pre)) (bd_data d) =
      drop (length (records pre)) (map Some (records pre) @ map Some (bt_record tid s e bytes @ records rest) @ drop (bt_used l) (bd_data d))" by metis
  then show ?thesis using d(1) by simp
qed

lemma load_ok:
  assumes h: "bt_holds h l (pre @ (tid, s, e, bytes) # rest)" and b: "behind l i pre"
  shows "\<exists>i'. bi_load i h = Some i' \<and> behind l i' pre \<and> loaded i' (tid, s, e, bytes) \<and> same_walk i i'"
proof -
  obtain d where d: "bds h (bt_data l) = Some d"
    "drop (length (records pre)) (bd_data d) = map Some (bt_record tid s e bytes @ records rest) @ drop (bt_used l) (bd_data d)"
    using record_data [OF h] by blast
  let ?c = "length (records pre)"
  have u: "?c + 16 + length bytes \<le> bt_used l" "length bytes < 2 ^ 32" using h by (simp_all add: bt_holds_def)
  have dr: "drop (?c + k) (bd_data d) = drop k (map Some (bt_record tid s e bytes @ records rest) @ drop (bt_used l) (bd_data d))" for k
    using d(2) by (metis add.commute drop_drop)
  have t: "take 4 (drop ?c (bd_data d)) = map Some (tb_u32 tid)" "take 4 (drop (?c + 4) (bd_data d)) = map Some (tb_u32 (of_nat (length bytes)))"
    "take 4 (drop (?c + 8) (bd_data d)) = map Some (tb_u32 (word_of_int s))" "take 4 (drop (?c + 12) (bd_data d)) = map Some (tb_u32 (word_of_int e))"
    using dr [of 0] by (simp_all add: dr bt_record_def tb_u32_def)
  have n: "unat (of_nat (length bytes) :: u32) = length bytes" using u(2) by (simp add: unat_of_nat)
  show ?thesis
    using b d(1) u(1) read_u32 [OF _ t(1), of "bt_used l"] read_u32 [OF _ t(2), of "bt_used l"] read_u32 [OF _ t(3), of "bt_used l"]
      read_u32 [OF _ t(4), of "bt_used l"] n
    by (simp add: bi_load_def behind_def loaded_def same_walk_def i32_uint)
qed


text \<open>PrepareForNext finds the next record in range; Next returns it, cut to the range.\<close>

definition in_range :: "bt_Iterator \<Rightarrow> raw_tag \<Rightarrow> bool" where
  "in_range i r \<longleftrightarrow> (case r of (tid, s, e, bytes) \<Rightarrow> i32 (s + bi_adjustment i) < bi_offsetEnd i \<and> bi_offsetStart i < i32 (e + bi_adjustment i))"

definition cut :: "bt_Iterator \<Rightarrow> raw_tag \<Rightarrow> bt_Item" where
  "cut i r = (case r of (tid, s, e, bytes) \<Rightarrow>
     \<lparr>item_tid = tid, item_size = length bytes, item_start = max (i32 (s + bi_adjustment i)) (bi_offsetStart i),
      item_end = min (i32 (e + bi_adjustment i)) (bi_offsetEnd i), item_buf = bytes\<rparr>)"

definition ready :: "ByteTagList \<Rightarrow> bt_Iterator \<Rightarrow> raw_tag list \<Rightarrow> raw_tag list \<Rightarrow> bool" where
  "ready l i pre rest \<longleftrightarrow> behind l i pre \<and> (case rest of [] \<Rightarrow> True | r # _ \<Rightarrow> loaded i r \<and> in_range i r)"

lemma same_walk_range: "same_walk i i' \<Longrightarrow> in_range i' = in_range i" "same_walk i i' \<Longrightarrow> cut i' = cut i"
  by (auto simp: same_walk_def in_range_def cut_def fun_eq_iff)

lemma same_walk_trans: "same_walk i i' \<Longrightarrow> same_walk i' i'' \<Longrightarrow> same_walk i i''"
  by (simp add: same_walk_def)

lemma PrepareForNext_ok:
  assumes "bt_holds h l (pre @ rest)" and "behind l i pre"
  shows "\<exists>i' skipped rest'. bi_PrepareForNext i h = Some i' \<and> rest = skipped @ rest' \<and> ready l i' (pre @ skipped) rest' \<and> same_walk i i' \<and>
    filter (in_range i) skipped = []"
  using assms
proof (induction rest arbitrary: pre i)
  case Nil
  then have "\<not> bi_current i < bi_end i" by (simp add: bt_holds_def behind_def)
  then show ?case using Nil by (subst bi_PrepareForNext.simps) (simp add: ready_def same_walk_def)
next
  case (Cons r rest)
  obtain tid s e bytes where r: "r = (tid, s, e, bytes)" by (cases r)
  obtain i1 where i1: "bi_load i h = Some i1" "behind l i1 pre" "loaded i1 r" "same_walk i i1" using load_ok [of h l pre tid s e bytes rest i] Cons.prems r by auto
  have c: "bi_current i < bi_end i" using Cons.prems r by (simp add: bt_holds_def behind_def)
  show ?case
  proof (cases "in_range i r")
    case True
    then have "bi_PrepareForNext i h = Some i1"
      using c i1 r by (subst bi_PrepareForNext.simps) (auto simp: loaded_def in_range_def same_walk_def)
    then show ?thesis using i1 True same_walk_range(1) [OF i1(4)]
      by (intro exI [of _ i1] exI [of _ "[]"] exI [of _ "r # rest"]) (simp add: ready_def)
  next
    case False
    let ?i2 = "i1\<lparr>bi_current := bi_current i1 + 16 + bi_nextSize i1\<rparr>"
    have b2: "behind l ?i2 (pre @ [r])" "same_walk i ?i2" using i1 r by (simp_all add: behind_def loaded_def same_walk_def)
    have p: "bi_PrepareForNext i h = bi_PrepareForNext ?i2 h"
      using c i1 r False by (subst bi_PrepareForNext.simps) (auto simp: loaded_def in_range_def same_walk_def)
    obtain i' skipped rest' where "bi_PrepareForNext ?i2 h = Some i'" "rest = skipped @ rest'" "ready l i' ((pre @ [r]) @ skipped) rest'"
      "same_walk ?i2 i'" "filter (in_range ?i2) skipped = []"
      using Cons.IH [of "pre @ [r]" ?i2] Cons.prems(1) b2(1) by auto
    then show ?thesis using p False same_walk_trans [OF b2(2)] same_walk_range(1) [OF b2(2)]
      by (intro exI [of _ i'] exI [of _ "r # skipped"] exI [of _ rest']) auto
  qed
qed

lemma Begin_ok:
  assumes h: "bt_holds h l raw"
  shows "\<exists>i pre rest. bt_Begin os oe l h = Some i \<and> raw = pre @ rest \<and> ready l i pre rest \<and>
    bi_offsetStart i = os \<and> bi_offsetEnd i = oe \<and> (raw \<noteq> [] \<longrightarrow> bi_adjustment i = bt_adjustment l) \<and> filter (in_range i) pre = []"
proof -
  let ?i = "\<lparr>bi_data = bt_data l, bi_current = 0, bi_end = (if bt_data l = nullptr then 0 else bt_used l), bi_offsetStart = os, bi_offsetEnd = oe,
    bi_adjustment = (if bt_data l = nullptr then 0 else bt_adjustment l), bi_nextTid = 0, bi_nextSize = 0, bi_nextStart = 0, bi_nextEnd = 0\<rparr>"
  have b: "behind l ?i []" "raw \<noteq> [] \<Longrightarrow> bt_data l \<noteq> nullptr" using h by (auto simp: behind_def bt_holds_def split: if_splits)
  obtain i' skipped rest' where i': "bi_PrepareForNext ?i h = Some i'" "raw = skipped @ rest'" "ready l i' ([] @ skipped) rest'" "same_walk ?i i'"
    "filter (in_range ?i) skipped = []"
    using PrepareForNext_ok [of h l "[]" raw ?i] h b(1) by auto
  then show ?thesis using b(2) same_walk_range(1) [OF i'(4)]
    by (intro exI [of _ i'] exI [of _ skipped] exI [of _ rest']) (auto simp: bt_Begin_def same_walk_def)
qed

lemma Next_ok:
  assumes h: "bt_holds h l (pre @ r # rest)" and i: "ready l i pre (r # rest)"
  shows "\<exists>i' skipped rest'. bi_Next i h = Some (cut i r, i') \<and> rest = skipped @ rest' \<and> ready l i' (pre @ r # skipped) rest' \<and> same_walk i i' \<and>
    filter (in_range i) skipped = []"
proof -
  obtain tid s e bytes where r: "r = (tid, s, e, bytes)" by (cases r)
  have b: "behind l i pre" "loaded i r" using i by (simp_all add: ready_def)
  obtain d where d: "bds h (bt_data l) = Some d"
    "drop (length (records pre)) (bd_data d) = map Some (bt_record tid s e bytes @ records rest) @ drop (bt_used l) (bd_data d)"
    using record_data [of h l pre tid s e bytes rest] h r by blast
  have "drop (bi_current i + 16) (bd_data d) = drop 16 (drop (length (records pre)) (bd_data d))" using b(1) by (simp add: behind_def add.commute)
  also have "\<dots> = map Some (bytes @ records rest) @ drop (bt_used l) (bd_data d)" by (simp add: d(2) bt_record_def tb_u32_def)
  finally have "take (bi_nextSize i) (drop (bi_current i + 16) (bd_data d)) = map Some bytes" using b(2) r by (simp add: loaded_def)
  then have buf: "those (take (bi_nextSize i) (drop (bi_current i + 16) (bd_data d))) = Some bytes" by (metis those_map_Some)
  let ?i = "i\<lparr>bi_current := bi_current i + 16 + bi_nextSize i\<rparr>"
  have w: "behind l ?i (pre @ [r])" "same_walk i ?i" using b r by (simp_all add: behind_def loaded_def same_walk_def)
  obtain i' skipped rest' where i': "bi_PrepareForNext ?i h = Some i'" "rest = skipped @ rest'" "ready l i' ((pre @ [r]) @ skipped) rest'" "same_walk ?i i'"
    "filter (in_range ?i) skipped = []"
    using PrepareForNext_ok [of h l "pre @ [r]" rest ?i] h w(1) by auto
  have "bi_HasNext i" "bi_current i + 16 + bi_nextSize i \<le> bi_end i" using h b r by (simp_all add: bt_holds_def behind_def bi_HasNext_def loaded_def)
  then have "bi_Next i h = Some (cut i r, i')" using buf d(1) b i'(1) r by (simp add: bi_Next_def Let_def behind_def loaded_def cut_def)
  then show ?thesis using i' same_walk_trans [OF w(2)] same_walk_range(1) [OF w(2)]
    by (intro exI [of _ i'] exI [of _ skipped] exI [of _ rest']) auto
qed

lemma HasNext_ready: "bt_holds h l (pre @ rest) \<Longrightarrow> ready l i pre rest \<Longrightarrow> bi_HasNext i \<longleftrightarrow> rest \<noteq> []"
  by (cases rest) (auto simp: bt_holds_def ready_def behind_def bi_HasNext_def bt_record_def tb_u32_def)

text \<open>The items that an iterator returns.\<close>

lemma bi_items_ok:
  assumes "bt_holds h l (pre @ rest)" and "ready l i pre rest"
  shows "bi_items i h = Some (map (cut i) (filter (in_range i) rest))"
  using assms
proof (induction "length rest" arbitrary: pre rest i rule: less_induct)
  case less
  show ?case
  proof (cases rest)
    case Nil
    then show ?thesis using HasNext_ready [OF less.prems] by (simp add: bi_items.simps)
  next
    case (Cons r rest1)
    obtain i' skipped rest' where n: "bi_Next i h = Some (cut i r, i')" "rest1 = skipped @ rest'" "ready l i' (pre @ r # skipped) rest'"
      "same_walk i i'" "filter (in_range i) skipped = []"
      using Next_ok less.prems Cons by metis
    have "bi_items i' h = Some (map (cut i') (filter (in_range i') rest'))"
      using less.hyps [of rest' "pre @ r # skipped" i'] less.prems(1) n Cons by simp
    moreover have "in_range i r" using less.prems(2) Cons by (simp add: ready_def)
    ultimately show ?thesis
      using HasNext_ready [OF less.prems] n Cons same_walk_range [OF n(4)] by (simp add: bi_items.simps [of i])
  qed
qed

section \<open>Copying items to a list\<close>

definition bounded :: "ByteTagList \<Rightarrow> raw_tag list \<Rightarrow> bool" where
  "bounded l raw \<longleftrightarrow> (\<forall>(tid, s, e, bytes) \<in> set raw. bt_minStart l \<le> s \<and> e \<le> bt_maxEnd l)"

fun added :: "(bt_Item \<Rightarrow> (int \<times> int) option) \<Rightarrow> int \<Rightarrow> bt_Item list \<Rightarrow> raw_tag list" where
  "added f a [] = []"
| "added f a (x # xs) =
     (case f x of None \<Rightarrow> added f a xs | Some (s, e) \<Rightarrow> (item_tid x, i32 (s - a), i32 (e - a), item_buf x) # added f a xs)"

lemma length_cut: "length (item_buf (cut i (tid, s, e, bytes))) = length bytes"
  by (simp add: cut_def)

lemma add_items_ok:
  assumes "bt_leaves h0 L k h raw" and "l \<in># L" and "bt_holds h0 l (pre @ rest)" and "ready l i pre rest"
    and "int (bt_used k + length (records rest)) < 2 ^ 32" and "bounded k raw"
  shows "\<exists>k' h'. bt_add_items f i k h = Some (k', h') \<and>
    bt_leaves h0 L k' h' (raw @ added f (bt_adjustment k) (map (cut i) (filter (in_range i) rest))) \<and> bt_adjustment k' = bt_adjustment k \<and>
    bounded k' (raw @ added f (bt_adjustment k) (map (cut i) (filter (in_range i) rest)))"
  using assms
proof (induction "length rest" arbitrary: pre rest i k h raw rule: less_induct)
  case less
  have hl: "bt_holds h l (pre @ rest)" using less.prems(1-3) by (simp add: bt_leaves_def bt_frames_def)
  show ?case
  proof (cases rest)
    case Nil
    then show ?thesis using HasNext_ready [OF hl less.prems(4)] less.prems(1,6) by (simp add: bt_add_items.simps [of f i])
  next
    case (Cons r rest1)
    obtain tid s e bytes where r: "r = (tid, s, e, bytes)" by (cases r)
    obtain i' skipped rest' where n: "bi_Next i h = Some (cut i r, i')" "rest1 = skipped @ rest'" "ready l i' (pre @ r # skipped) rest'"
      "same_walk i i'" "filter (in_range i) skipped = []"
      using Next_ok hl less.prems(4) Cons by metis
    have has: "bi_HasNext i" using HasNext_ready [OF hl less.prems(4)] Cons by simp
    have rg: "in_range i r" using less.prems(4) Cons by (simp add: ready_def)
    note w = same_walk_range [OF n(4)]
    have h0: "bt_holds h0 l ((pre @ r # skipped) @ rest')" and len: "length rest' < length rest" using less.prems(3) Cons n(2) by simp_all
    let ?new = "\<lambda>a xs. added f a (map (cut i) (filter (in_range i) xs))"
    show ?thesis
    proof (cases "f (cut i r)")
      case None
      have "int (bt_used k + length (records rest')) < 2 ^ 32" using less.prems(5) Cons n(2) r by simp
      then show ?thesis
        using less.hyps [OF len less.prems(1,2) h0 n(3) _ less.prems(6)] None has n(1,2,5) Cons rg w by (simp add: bt_add_items.simps [of f i])
    next
      case (Some x)
      obtain st en where x: "x = (st, en)" by (cases x)
      have small: "int (bt_used k + length (item_buf (cut i r)) + 16) < 2 ^ 32" using less.prems(5) Cons r by (simp add: cut_def)
      let ?a = "bt_adjustment k"
      let ?raw = "raw @ [(item_tid (cut i r), i32 (st - ?a), i32 (en - ?a), item_buf (cut i r))]"
      obtain k1 h1 where k1: "bt_Add (item_tid (cut i r)) (item_buf (cut i r)) st en k h = Some (k1, h1)" "bt_leaves h0 L k1 h1 ?raw"
        "bt_adjustment k1 = ?a" "bt_minStart k1 = min (bt_minStart k) (i32 (st - ?a))" "bt_maxEnd k1 = max (bt_maxEnd k) (i32 (en - ?a))"
        "bt_used k1 = bt_used k + length (item_buf (cut i r)) + 16"
        using bt_Add_ok [OF less.prems(1) small] by metis
      have "bounded k1 ?raw" using less.prems(6) k1(4,5) by (fastforce simp: bounded_def)
      moreover have "int (bt_used k1 + length (records rest')) < 2 ^ 32" using less.prems(5) Cons n(2) k1(6) r by (simp add: cut_def)
      ultimately obtain k' h' where "bt_add_items f i' k1 h1 = Some (k', h')" "bt_leaves h0 L k' h' (?raw @ ?new ?a rest')"
        "bt_adjustment k' = ?a" "bounded k' (?raw @ ?new ?a rest')"
        using less.hyps [OF len k1(2) less.prems(2) h0 n(3)] k1(3) w by auto
      then show ?thesis using Some x has n(1,2,5) Cons rg k1(1) by (simp add: bt_add_items.simps [of f i])
    qed
  qed
qed


lemma become_ok:
  assumes v: "bt_leaves h (add_mset l L) k h' raw"
  shows "\<exists>h''. bt_become k l h' = Some (k, h'') \<and> bt_leaves h L k h'' raw"
proof -
  have i: "btl_inv h' (add_mset l (add_mset k L))" and r: "bt_holds h' k raw" and f: "bt_frames L h h'"
    using v frames_sub by (auto simp: bt_leaves_def add_mset_commute)
  obtain h1 where h1: "bt_Deallocate (bt_data l) h' = Some h1" "btl_inv h1 (add_mset k L)" "bt_frames (add_mset k L) h' h1"
    using bt_Deallocate_ok [OF i] by blast
  obtain h2 where h2: "bt_copy k h1 = Some (k, h2)" "btl_inv h2 (add_mset k (add_mset k L))" "bt_frames (add_mset k L) h1 h2"
    using bt_copy_ok [OF h1(2)] by auto
  obtain h3 where h3: "bt_Deallocate (bt_data k) h2 = Some h3" "btl_inv h3 (add_mset k L)" "bt_frames (add_mset k L) h2 h3"
    using bt_Deallocate_ok [OF h2(2)] by blast
  have "bt_frames (add_mset k L) h' h3" using frames_trans h1(3) h2(3) h3(3) by metis
  then have "bt_holds h3 k raw" "bt_frames L h h3" using r f frames_sub frames_trans by (auto simp: bt_frames_def)
  then show ?thesis using h1 h2 h3 by (simp add: bt_become_def bt_assign_def bt_destroy_def bt_leaves_def)
qed

lemma rebuild_ok:
  assumes i: "btl_inv h (add_mset l L)" and r: "bt_holds h l raw"
  shows "\<exists>i0 k h'. bt_BeginAll l h = Some i0 \<and> (\<exists>h1. bt_add_items f i0 bt_empty h = Some (k, h1) \<and> bt_become k l h1 = Some (k, h')) \<and>
    bt_leaves h L k h' (added f 0 (map (cut i0) (filter (in_range i0) raw))) \<and> bt_adjustment k = 0 \<and>
    bounded k (added f 0 (map (cut i0) (filter (in_range i0) raw))) \<and>
    bi_offsetStart i0 = 0 \<and> bi_offsetEnd i0 = OFFSET_MAX \<and> (raw \<noteq> [] \<longrightarrow> bi_adjustment i0 = bt_adjustment l)"
proof -
  obtain i0 pre rest where b: "bt_BeginAll l h = Some i0" "raw = pre @ rest" "ready l i0 pre rest" "bi_offsetStart i0 = 0" "bi_offsetEnd i0 = OFFSET_MAX"
    "raw \<noteq> [] \<longrightarrow> bi_adjustment i0 = bt_adjustment l" "filter (in_range i0) pre = []"
    using Begin_ok [OF r, of 0 OFFSET_MAX] by (auto simp: bt_BeginAll_def)
  have e: "bt_leaves h (add_mset l L) bt_empty h []"
  proof -
    have "bt_holds h bt_empty []" "list_ok h bt_empty" by (simp_all add: bt_holds_def list_ok_def)
    moreover have "bt_frames (add_mset l L) h h" by (simp add: bt_frames_def)
    ultimately show ?thesis using inv_without_data(1) [of bt_empty h "add_mset l L"] i by (simp add: bt_leaves_def)
  qed
  have sp: "int (bt_used bt_empty + length (records rest)) < 2 ^ 32" using r b(2) by (simp add: bt_holds_def)
  have bd: "bounded bt_empty []" by (simp add: bounded_def)
  have mem: "l \<in># add_mset l L" by simp
  obtain k h1 where k: "bt_add_items f i0 bt_empty h = Some (k, h1)"
    "bt_leaves h (add_mset l L) k h1 (added f 0 (map (cut i0) (filter (in_range i0) rest)))" "bt_adjustment k = 0"
    "bounded k (added f 0 (map (cut i0) (filter (in_range i0) rest)))"
    using add_items_ok [OF e mem _ b(3) sp bd, of f] r b(2) by auto
  obtain h' where "bt_become k l h1 = Some (k, h')" "bt_leaves h L k h' (added f 0 (map (cut i0) (filter (in_range i0) rest)))"
    using become_ok [OF k(2)] by blast
  then show ?thesis using b k(1,3,4) by auto
qed

end
