(* ===== verification/Byte_Tag_Views.thy ===== *)
theory Byte_Tag_Views
  imports Byte_Tag_Sharing
begin

text \<open>
  What the lists of byte tags mean: the tags of every byte of a packet. The operations of the list move, cut and add tags as
  bytes are added to and removed from the packet.
\<close>

section \<open>The tags of a byte\<close>

text \<open>The offsets of a list, and its adjustment, are at most \<open>M\<close> in absolute value, so that nothing wraps around.\<close>

definition sane :: "int \<Rightarrow> ByteTagList \<Rightarrow> raw_tag list \<Rightarrow> bool" where
  "sane M l raw \<longleftrightarrow> \<bar>bt_adjustment l\<bar> \<le> M \<and> M < 2 ^ 30 \<and>
     (\<forall>(tid, s, e, bytes) \<in> set raw. \<bar>s + bt_adjustment l\<bar> \<le> M \<and> \<bar>e + bt_adjustment l\<bar> \<le> M)"

lemma saneD:
  assumes "sane M l raw"
  shows "\<bar>bt_adjustment l\<bar> \<le> M" "M < 2 ^ 30" "(tid, s, e, bytes) \<in> set raw \<Longrightarrow> \<bar>s + bt_adjustment l\<bar> \<le> M"
    "(tid, s, e, bytes) \<in> set raw \<Longrightarrow> \<bar>e + bt_adjustment l\<bar> \<le> M"
  using assms by (auto simp: sane_def)

definition covers :: "int \<Rightarrow> int \<Rightarrow> raw_tag \<Rightarrow> bool" where
  "covers a k r \<longleftrightarrow> (case r of (tid, s, e, bytes) \<Rightarrow> s + a \<le> k \<and> k < e + a)"

definition tag_of :: "raw_tag \<Rightarrow> u32 \<times> u8 list" where
  "tag_of r = (case r of (tid, s, e, bytes) \<Rightarrow> (tid, bytes))"

definition tags_at :: "int \<Rightarrow> raw_tag list \<Rightarrow> int \<Rightarrow> (u32 \<times> u8 list) list" where
  "tags_at a raw k = map tag_of (filter (covers a k) raw)"

lemma tags_at_simps [simp]: "tags_at a [] k = []" "tags_at a (r # raw) k = (if covers a k r then tag_of r # tags_at a raw k else tags_at a raw k)"
  "tags_at a (raw @ raw') k = tags_at a raw k @ tags_at a raw' k"
  by (simp_all add: tags_at_def)

lemma tags_at_shift: "tags_at (a + n) raw k = tags_at a raw (k - n)"
  by (auto simp: tags_at_def covers_def intro!: arg_cong [of _ _ "map tag_of"] filter_cong)

text \<open>A function on items that cuts them to the range from \<open>lo\<close> to \<open>hi\<close>.\<close>

definition cuts :: "int \<Rightarrow> int \<Rightarrow> (bt_Item \<Rightarrow> (int \<times> int) option) \<Rightarrow> bool" where
  "cuts lo hi f \<longleftrightarrow>
     (\<forall>x. 0 \<le> item_start x \<and> item_end x \<le> OFFSET_MAX \<longrightarrow>
        (case f x of None \<Rightarrow> hi \<le> item_start x \<or> item_end x \<le> lo
         | Some (s, e) \<Rightarrow> s = max (item_start x) lo \<and> e = min (item_end x) hi))"

lemma added_append [simp]: "added f a (xs @ ys) = added f a xs @ added f a ys"
  by (induction xs) (auto split: option.splits)

text \<open>One record of the list, in the copy.\<close>

lemma copied_record:
  assumes f: "cuts lo hi f" and lo: "0 \<le> lo" "lo \<le> M" and hi: "- M \<le> hi" and a: "\<bar>a\<bar> \<le> M" "M < 2 ^ 30"
    and r: "\<bar>s + b\<bar> \<le> M" "\<bar>e + b\<bar> \<le> M" and i: "bi_offsetStart i = 0" "bi_offsetEnd i = OFFSET_MAX" "bi_adjustment i = b"
  shows "tags_at a (added f a (map (cut i) (filter (in_range i) [(tid, s, e, bytes)]))) k =
      (if lo \<le> k \<and> k < hi then tags_at b [(tid, s, e, bytes)] k else [])"
    and "(tid', s', e', bytes') \<in> set (added f a (map (cut i) (filter (in_range i) [(tid, s, e, bytes)]))) \<Longrightarrow> \<bar>s' + a\<bar> \<le> M \<and> \<bar>e' + a\<bar> \<le> M"
proof -
  have id: "i32 (s + b) = s + b" "i32 (e + b) = e + b" using r a by (auto intro!: i32_id)
  have range: "in_range i (tid, s, e, bytes) \<longleftrightarrow> 0 < e + b" using r a i id by (auto simp: in_range_def OFFSET_MAX_def)
  have "item_start (cut i (tid, s, e, bytes)) = max (s + b) 0" "item_end (cut i (tid, s, e, bytes)) = e + b"
    using r a i id by (auto simp: cut_def OFFSET_MAX_def)
  note item = this
  have "e + b \<le> OFFSET_MAX" using r a by (simp add: OFFSET_MAX_def)
  then have c: "case f (cut i (tid, s, e, bytes)) of None \<Rightarrow> hi \<le> max (s + b) 0 \<or> e + b \<le> lo
      | Some (st, en) \<Rightarrow> st = max (max (s + b) 0) lo \<and> en = min (e + b) hi"
    using f [unfolded cuts_def, rule_format, of "cut i (tid, s, e, bytes)"] unfolding item by simp
  have at: "tags_at a (added f a (map (cut i) (filter (in_range i) [(tid, s, e, bytes)]))) k =
      (if lo \<le> k \<and> k < hi then tags_at b [(tid, s, e, bytes)] k else [])"
    and bound: "\<forall>(tid', s', e', bytes') \<in> set (added f a (map (cut i) (filter (in_range i) [(tid, s, e, bytes)]))). \<bar>s' + a\<bar> \<le> M \<and> \<bar>e' + a\<bar> \<le> M"
    for k
  proof -
    show "tags_at a (added f a (map (cut i) (filter (in_range i) [(tid, s, e, bytes)]))) k =
      (if lo \<le> k \<and> k < hi then tags_at b [(tid, s, e, bytes)] k else [])"
    proof (cases "f (cut i (tid, s, e, bytes))")
      case None
      then show ?thesis using c range lo by (auto simp: covers_def)
    next
      case (Some x)
      then have x: "x = (max (max (s + b) 0) lo, min (e + b) hi)" using c by (cases x) simp
      have "i32 (max (max (s + b) 0) lo - a) = max (max (s + b) 0) lo - a" using r a lo by (intro i32_id) auto
      moreover have "i32 (min (e + b) hi - a) = min (e + b) hi - a" using r a lo hi by (intro i32_id) auto
      ultimately show ?thesis using Some x range lo by (auto simp: covers_def tag_of_def cut_def)
    qed
    show "\<forall>(tid', s', e', bytes') \<in> set (added f a (map (cut i) (filter (in_range i) [(tid, s, e, bytes)]))). \<bar>s' + a\<bar> \<le> M \<and> \<bar>e' + a\<bar> \<le> M"
    proof (cases "f (cut i (tid, s, e, bytes))")
      case (Some x)
      then have x: "x = (max (max (s + b) 0) lo, min (e + b) hi)" using c by (cases x) simp
      have "i32 (max (max (s + b) 0) lo - a) = max (max (s + b) 0) lo - a" using r a lo by (intro i32_id) auto
      moreover have "i32 (min (e + b) hi - a) = min (e + b) hi - a" using r a lo hi by (intro i32_id) auto
      ultimately show ?thesis using Some x range r lo hi by auto
    qed simp
  qed
  show "tags_at a (added f a (map (cut i) (filter (in_range i) [(tid, s, e, bytes)]))) k =
      (if lo \<le> k \<and> k < hi then tags_at b [(tid, s, e, bytes)] k else [])" by (rule at)
  show "(tid', s', e', bytes') \<in> set (added f a (map (cut i) (filter (in_range i) [(tid, s, e, bytes)]))) \<Longrightarrow> \<bar>s' + a\<bar> \<le> M \<and> \<bar>e' + a\<bar> \<le> M"
    using bound by auto
qed

lemma copied_tags:
  assumes f: "cuts lo hi f" and lo: "0 \<le> lo" "lo \<le> M" and hi: "- M \<le> hi" and a: "\<bar>a\<bar> \<le> M" and M: "sane M l raw"
    and i: "bi_offsetStart i = 0" "bi_offsetEnd i = OFFSET_MAX" "raw \<noteq> [] \<longrightarrow> bi_adjustment i = bt_adjustment l"
  shows "tags_at a (added f a (map (cut i) (filter (in_range i) raw))) k = (if lo \<le> k \<and> k < hi then tags_at (bt_adjustment l) raw k else [])"
  using M i(3)
proof (induction raw)
  case (Cons r raw)
  obtain tid s e bytes where r: "r = (tid, s, e, bytes)" by (cases r)
  have b: "\<bar>s + bt_adjustment l\<bar> \<le> M" "\<bar>e + bt_adjustment l\<bar> \<le> M" "M < 2 ^ 30" "sane M l raw" "bi_adjustment i = bt_adjustment l"
    using Cons.prems r by (auto simp: sane_def)
  have "tags_at a (added f a (map (cut i) (filter (in_range i) ([r] @ raw)))) k =
      tags_at a (added f a (map (cut i) (filter (in_range i) [r]))) k @ tags_at a (added f a (map (cut i) (filter (in_range i) raw))) k"
    by (simp only: filter_append map_append added_append tags_at_simps(3))
  then show ?case using Cons.IH b copied_record(1) [OF f lo hi a b(3,1,2) i(1,2) b(5)] r by simp
qed simp

lemma copied_bounds:
  assumes f: "cuts lo hi f" and lo: "0 \<le> lo" "lo \<le> M" and hi: "- M \<le> hi" and a: "\<bar>a\<bar> \<le> M" and M: "sane M l raw"
    and i: "bi_offsetStart i = 0" "bi_offsetEnd i = OFFSET_MAX" "raw \<noteq> [] \<longrightarrow> bi_adjustment i = bt_adjustment l"
    and x: "(tid', s', e', bytes') \<in> set (added f a (map (cut i) (filter (in_range i) raw)))"
  shows "\<bar>s' + a\<bar> \<le> M \<and> \<bar>e' + a\<bar> \<le> M"
  using M i(3) x
proof (induction raw)
  case (Cons r raw)
  obtain tid s e bytes where r: "r = (tid, s, e, bytes)" by (cases r)
  have b: "\<bar>s + bt_adjustment l\<bar> \<le> M" "\<bar>e + bt_adjustment l\<bar> \<le> M" "M < 2 ^ 30" "sane M l raw" "bi_adjustment i = bt_adjustment l"
    using Cons.prems(1,2) r by (auto simp: sane_def)
  have "added f a (map (cut i) (filter (in_range i) ([r] @ raw))) =
      added f a (map (cut i) (filter (in_range i) [r])) @ added f a (map (cut i) (filter (in_range i) raw))"
    by (simp only: filter_append map_append added_append)
  then consider "(tid', s', e', bytes') \<in> set (added f a (map (cut i) (filter (in_range i) [(tid, s, e, bytes)])))"
    | "(tid', s', e', bytes') \<in> set (added f a (map (cut i) (filter (in_range i) raw)))" using Cons.prems(3) r by auto
  then show ?case using Cons.IH b copied_record(2) [OF f lo hi a b(3,1,2) i(1,2) b(5)] by cases blast+
qed simp

lemma length_copied: "length (records (added f a (map (cut i) (filter (in_range i) raw)))) \<le> length (records raw)"
proof (induction raw)
  case (Cons r raw)
  obtain tid s e bytes where "r = (tid, s, e, bytes)" by (cases r)
  then show ?case using Cons.IH by (auto simp: cut_def split: option.split)
qed simp

text \<open>The copy that AddAtEnd and AddAtStart put in the place of the list.\<close>

lemma rebuild_views:
  assumes i: "btl_inv h (add_mset l L)" and r: "bt_holds h l raw" and M: "sane M l raw"
    and f: "cuts lo hi f" "0 \<le> lo" "lo \<le> M" "- M \<le> hi"
  shows "\<exists>i0 k h1 h' raw'. bt_BeginAll l h = Some i0 \<and> bt_add_items f i0 bt_empty h = Some (k, h1) \<and> bt_become k l h1 = Some (k, h') \<and>
    bt_leaves h L k h' raw' \<and> bounded k raw' \<and> sane M k raw' \<and> length (records raw') \<le> length (records raw) \<and>
    (\<forall>n. tags_at (bt_adjustment k) raw' n = (if lo \<le> n \<and> n < hi then tags_at (bt_adjustment l) raw n else []))"
proof -
  obtain i0 k h1 h' where k: "bt_BeginAll l h = Some i0" "bt_add_items f i0 bt_empty h = Some (k, h1)" "bt_become k l h1 = Some (k, h')"
    "bt_leaves h L k h' (added f 0 (map (cut i0) (filter (in_range i0) raw)))" "bt_adjustment k = 0"
    "bounded k (added f 0 (map (cut i0) (filter (in_range i0) raw)))" 
    "bi_offsetStart i0 = 0" "bi_offsetEnd i0 = OFFSET_MAX" "raw \<noteq> [] \<longrightarrow> bi_adjustment i0 = bt_adjustment l"
    using rebuild_ok [OF i r, of f] by blast
  have M0: "\<bar>0\<bar> \<le> M" "M < 2 ^ 30" using M by (auto simp: sane_def)
  have "sane M k (added f 0 (map (cut i0) (filter (in_range i0) raw)))"
    using copied_bounds [OF f M0(1) M k(7-9)] M0 k(5) by (fastforce simp: sane_def)
  then show ?thesis using k copied_tags [OF f M0(1) M k(7-9)] length_copied by metis
qed

section \<open>Operations\<close>

text \<open>
  \<open>l\<close> gives the bytes of a packet the tags \<open>ts\<close>; its records take at most \<open>S\<close> bytes, and all its offsets are at most \<open>M\<close>.
\<close>

definition bt_tagged :: "nat \<Rightarrow> nat \<Rightarrow> btl_heap \<Rightarrow> ByteTagList \<Rightarrow> (u32 \<times> u8 list) list list \<Rightarrow> bool" where
  "bt_tagged M S h l ts \<longleftrightarrow>
     (\<exists>raw. bt_holds h l raw \<and> bounded l raw \<and> sane (int M) l raw \<and> bt_used l \<le> S \<and>
        (\<forall>k < length ts. tags_at (bt_adjustment l) raw (int k) = ts ! k))"

definition bt_yields :: "btl_heap \<Rightarrow> ByteTagList multiset \<Rightarrow> (ByteTagList \<times> btl_heap) option \<Rightarrow> nat \<Rightarrow> nat \<Rightarrow> (u32 \<times> u8 list) list list \<Rightarrow> bool" where
  "bt_yields h L r M S ts \<longleftrightarrow>
     (\<exists>l' h'. r = Some (l', h') \<and> btl_inv h' (add_mset l' L) \<and> bt_frames L h h' \<and> bt_tagged M S h' l' ts)"

lemma tagged_frames: "bt_frames L h h' \<Longrightarrow> l \<in># L \<Longrightarrow> bt_tagged M S h l ts \<Longrightarrow> bt_tagged M S h' l ts"
  by (auto simp: bt_tagged_def bt_frames_def)

lemma sane_mono: "sane M l raw \<Longrightarrow> M \<le> M' \<Longrightarrow> M' < 2 ^ 30 \<Longrightarrow> sane M' l raw"
  by (auto simp: sane_def dest!: bspec)

lemma tagged_mono: "bt_tagged M S h l ts \<Longrightarrow> M \<le> M' \<Longrightarrow> S \<le> S' \<Longrightarrow> int M' < 2 ^ 30 \<Longrightarrow> bt_tagged M' S' h l ts"
  using sane_mono [of "int M" l _ "int M'"] unfolding bt_tagged_def by (metis le_trans of_nat_mono)

lemma tagged_take: "bt_tagged M S h l ts \<Longrightarrow> bt_tagged M S h l (take n ts)"
  by (auto simp: bt_tagged_def)

lemma same_list_yields: "btl_inv h (add_mset l L) \<Longrightarrow> bt_tagged M S h l ts \<Longrightarrow> bt_yields h L (Some (l, h)) M S ts"
  by (auto simp: bt_yields_def bt_frames_def)

lemma bt_copy_yields:
  assumes "btl_inv h L" and "l \<in># L" and "bt_tagged M S h l ts"
  shows "bt_yields h L (bt_copy l h) M S ts"
  using bt_copy_ok [OF assms(1,2)] tagged_frames assms(2,3) unfolding bt_yields_def by metis

lemma no_tags: "int M < 2 ^ 30 \<Longrightarrow> bt_tagged M S h bt_empty (replicate n [])"
  by (auto simp: bt_tagged_def bt_holds_def bounded_def sane_def intro!: exI [of _ "[]"])

text \<open>AddAtEnd cuts off what lies behind the end of the packet, AddAtStart what lies before a place.\<close>

definition bt_cut :: "btl_heap \<Rightarrow> ByteTagList multiset \<Rightarrow> ByteTagList \<Rightarrow> (ByteTagList \<times> btl_heap) option \<Rightarrow> int \<Rightarrow> raw_tag list \<Rightarrow> (int \<Rightarrow> bool) \<Rightarrow> bool" where
  "bt_cut h L l r M raw P \<longleftrightarrow>
     (\<exists>l' h' raw'. r = Some (l', h') \<and> bt_leaves h L l' h' raw' \<and> bounded l' raw' \<and> sane M l' raw' \<and> bt_used l' \<le> bt_used l \<and>
        (\<forall>k. 0 \<le> k \<or> \<not> P k \<longrightarrow> tags_at (bt_adjustment l') raw' k = (if P k then tags_at (bt_adjustment l) raw k else [])))"

lemma cut_nothing:
  assumes "btl_inv h (add_mset l L)" "bt_holds h l raw" "bounded l raw" "sane M l raw"
    and "\<And>k. \<not> P k \<Longrightarrow> tags_at (bt_adjustment l) raw k = []"
  shows "bt_cut h L l (Some (l, h)) M raw P"
proof -
  have "bt_leaves h L l h raw" using assms(1,2) unfolding bt_leaves_def by (simp add: bt_frames_def)
  then show ?thesis using assms(3-5) unfolding bt_cut_def by auto
qed

lemma cut_rebuild:
  assumes i: "btl_inv h (add_mset l L)" and r: "bt_holds h l raw" and M: "sane M l raw"
    and f: "cuts lo hi f" "0 \<le> lo" "lo \<le> M" "- M \<le> hi" and P: "\<And>k. \<bar>k\<bar> \<le> M \<Longrightarrow> 0 \<le> k \<or> \<not> P k \<Longrightarrow> P k \<longleftrightarrow> lo \<le> k \<and> k < hi"
  shows "bt_cut h L l (do { i0 \<leftarrow> bt_BeginAll l h; (list, h) \<leftarrow> bt_add_items f i0 bt_empty h; bt_become list l h }) M raw P"
proof -
  obtain i0 k h1 h' raw' where k: "bt_BeginAll l h = Some i0" "bt_add_items f i0 bt_empty h = Some (k, h1)" "bt_become k l h1 = Some (k, h')"
    "bt_leaves h L k h' raw'" "bounded k raw'" "sane M k raw'" "length (records raw') \<le> length (records raw)"
    "\<And>n. tags_at (bt_adjustment k) raw' n = (if lo \<le> n \<and> n < hi then tags_at (bt_adjustment l) raw n else [])"
    using rebuild_views [OF i r M f] by blast
  have "(if lo \<le> n \<and> n < hi then tags_at (bt_adjustment l) raw n else []) = (if P n then tags_at (bt_adjustment l) raw n else [])"
    if "0 \<le> n \<or> \<not> P n" for n
  proof (cases "\<bar>n\<bar> \<le> M")
    case False
    then have "tags_at (bt_adjustment l) raw n = []"
      using saneD(3,4) [OF M] by (fastforce simp: tags_at_def covers_def filter_empty_conv)
    then show ?thesis by simp
  qed (use P that in simp)
  moreover have "bt_used k \<le> bt_used l" using k(4,7) r by (auto simp: bt_leaves_def bt_holds_def)
  ultimately show ?thesis using k by (auto simp: bt_cut_def)
qed

lemma AddAtEnd_cut:
  assumes i: "btl_inv h (add_mset l L)" and r: "bt_holds h l raw" "bounded l raw" and M: "sane M l raw" and n: "0 \<le> n" "n \<le> M"
  shows "bt_cut h L l (bt_AddAtEnd n l h) M raw (\<lambda>k. k < n)"
proof (cases "bt_maxEnd l \<le> i32 (n - bt_adjustment l)")
  case True
  then have "bt_maxEnd l \<le> n - bt_adjustment l" using i32_id [of "n - bt_adjustment l"] saneD(1,2) [OF M] n by simp
  then have "tags_at (bt_adjustment l) raw k = []" if "\<not> k < n" for k
    using r(2) that by (fastforce simp: tags_at_def covers_def bounded_def filter_empty_conv)
  then show ?thesis using cut_nothing [OF i r M] True by (simp add: bt_AddAtEnd_def)
next
  case False
  let ?f = "\<lambda>item. if n \<le> item_start item then None else Some (item_start item, min (item_end item) n)"
  have "cuts 0 n ?f" by (auto simp: cuts_def)
  then have "bt_cut h L l (do { i0 \<leftarrow> bt_BeginAll l h; (list, h) \<leftarrow> bt_add_items ?f i0 bt_empty h; bt_become list l h }) M raw (\<lambda>k. k < n)"
    by (rule cut_rebuild [OF i r(1) M]) (use n in auto)
  then show ?thesis using False by (simp add: bt_AddAtEnd_def)
qed

lemma AddAtStart_cut:
  assumes i: "btl_inv h (add_mset l L)" and r: "bt_holds h l raw" "bounded l raw" and M: "sane M l raw" and n: "0 \<le> n" "n \<le> M"
  shows "bt_cut h L l (bt_AddAtStart n l h) M raw (\<lambda>k. n \<le> k)"
proof (cases "i32 (n - bt_adjustment l) \<le> bt_minStart l")
  case True
  then have "n - bt_adjustment l \<le> bt_minStart l" using i32_id [of "n - bt_adjustment l"] saneD(1,2) [OF M] n by simp
  then have "tags_at (bt_adjustment l) raw k = []" if "\<not> n \<le> k" for k
    using r(2) that by (fastforce simp: tags_at_def covers_def bounded_def filter_empty_conv)
  then show ?thesis using cut_nothing [OF i r M] True by (simp add: bt_AddAtStart_def)
next
  case False
  let ?f = "\<lambda>item. if item_end item \<le> n then None else Some (max (item_start item) n, item_end item)"
  have "cuts n OFFSET_MAX ?f" by (auto simp: cuts_def)
  moreover have "M < OFFSET_MAX" using saneD(2) [OF M] by (simp add: OFFSET_MAX_def)
  ultimately have "bt_cut h L l (do { i0 \<leftarrow> bt_BeginAll l h; (list, h) \<leftarrow> bt_add_items ?f i0 bt_empty h; bt_become list l h }) M raw (\<lambda>k. n \<le> k)"
    by (intro cut_rebuild [OF i r(1) M, of n OFFSET_MAX]) (use n in auto)
  then show ?thesis using False by (simp add: bt_AddAtStart_def)
qed

text \<open>Adjust moves all tags, also by a negative number of bytes.\<close>

lemma inv_same_data:
  assumes "btl_inv h (add_mset l L)" and "bt_data l' = bt_data l" and "bt_used l' = bt_used l"
  shows "btl_inv h (add_mset l' L)"
proof -
  have "list_ok h l'" using btl_invD(9) [OF assms(1), of l] assms(2,3) by (simp add: list_ok_def)
  then show ?thesis using inv_users [OF assms(1), of "add_mset l' L"] assms(2) btl_invD(9) [OF assms(1)] by auto
qed

lemma Adjust_raw:
  assumes "bt_holds h l raw" and "bounded l raw" and "sane M l raw" and "M + \<bar>n\<bar> < 2 ^ 30" and "l' = bt_Adjust n l"
  shows "bt_holds h l' raw" "bounded l' raw" "sane (M + \<bar>n\<bar>) l' raw" "bt_adjustment l' = bt_adjustment l + n"
    "bt_data l' = bt_data l" "bt_used l' = bt_used l"
proof -
  have "\<bar>bt_adjustment l\<bar> \<le> M" using assms(3) by (simp add: sane_def)
  then have a: "i32 (bt_adjustment l + n) = bt_adjustment l + n" using assms(4) by (intro i32_id) auto
  show "bt_holds h l' raw" "bounded l' raw" "bt_adjustment l' = bt_adjustment l + n" "bt_data l' = bt_data l" "bt_used l' = bt_used l"
    using assms(1,2,5) a by (auto simp: bt_Adjust_def bt_holds_def bounded_def)
  have "\<bar>s + (bt_adjustment l + n)\<bar> \<le> M + \<bar>n\<bar> \<and> \<bar>e + (bt_adjustment l + n)\<bar> \<le> M + \<bar>n\<bar>" if "(tid, s, e, bytes) \<in> set raw" for tid s e bytes
    using saneD(3,4) [OF assms(3) that] by linarith
  then show "sane (M + \<bar>n\<bar>) l' raw" using saneD(1) [OF assms(3)] assms(4,5) a by (auto simp: bt_Adjust_def sane_def)
qed

lemma Adjust_tagged:
  assumes t: "bt_tagged M S h l ts" and n: "int (M + n) < 2 ^ 30"
  shows "bt_tagged (M + n) S h (bt_Adjust (- int n) l) (drop n ts)"
proof -
  obtain raw where r: "bt_holds h l raw" "bounded l raw" "sane (int M) l raw" "bt_used l \<le> S"
    "\<forall>k < length ts. tags_at (bt_adjustment l) raw (int k) = ts ! k" using t by (auto simp: bt_tagged_def)
  have "int M + \<bar>- int n\<bar> < 2 ^ 30" using n by simp
  note a = Adjust_raw [OF r(1-3) this refl]
  have "tags_at (bt_adjustment l + - int n) raw (int k) = ts ! (n + k)" if "k < length (drop n ts)" for k
    unfolding tags_at_shift using r(5) [rule_format, of "k + n"] that by (simp add: add.commute)
  then show ?thesis using a r(4) by (auto simp: bt_tagged_def)
qed

lemma taggedE:
  assumes "bt_tagged M S h l ts"
  obtains raw where "bt_holds h l raw" "bounded l raw" "sane (int M) l raw" "bt_used l \<le> S"
    "\<And>k. k < length ts \<Longrightarrow> tags_at (bt_adjustment l) raw (int k) = ts ! k"
  using assms unfolding bt_tagged_def by blast

lemma cut_yields:
  assumes "bt_cut h L l r (int M) raw P" and "bt_used l \<le> S"
    and "\<And>k. k < length ts \<Longrightarrow> (if P (int k) then tags_at (bt_adjustment l) raw (int k) else []) = ts ! k"
  shows "bt_yields h L r M S ts"
proof -
  obtain l' h' raw' where l': "r = Some (l', h')" "bt_leaves h L l' h' raw'" "bounded l' raw'" "sane (int M) l' raw'" "bt_used l' \<le> bt_used l"
    "\<And>k. 0 \<le> k \<or> \<not> P k \<Longrightarrow> tags_at (bt_adjustment l') raw' k = (if P k then tags_at (bt_adjustment l) raw k else [])"
    using assms(1) unfolding bt_cut_def by blast
  have "bt_tagged M S h' l' ts" using l'(2-6) assms(2,3) unfolding bt_tagged_def bt_leaves_def by auto
  then show ?thesis using l'(1,2) by (simp add: bt_yields_def bt_leaves_def)
qed

lemma bt_AddAtEnd_yields:
  assumes i: "btl_inv h (add_mset l L)" and t: "bt_tagged M S h l ts" and n: "length ts \<le> M"
  shows "bt_yields h L (bt_AddAtEnd (int (length ts)) l h) M S (ts @ replicate m [])"
proof -
  obtain raw where r: "bt_holds h l raw" "bounded l raw" "sane (int M) l raw" "bt_used l \<le> S"
    "\<And>k. k < length ts \<Longrightarrow> tags_at (bt_adjustment l) raw (int k) = ts ! k" by (rule taggedE [OF t]) blast
  show ?thesis by (rule cut_yields [OF AddAtEnd_cut [OF i r(1-3)] r(4)]) (use n r(5) in \<open>auto simp: nth_append\<close>)
qed

lemma bt_prepend_yields:
  assumes i: "btl_inv h (add_mset l L)" and t: "bt_tagged M S h l ts" and n: "int (M + n) < 2 ^ 30"
  shows "bt_yields h L (bt_AddAtStart (int n) (bt_Adjust (int n) l) h) (M + n) S (replicate n [] @ ts)"
proof -
  obtain raw where r: "bt_holds h l raw" "bounded l raw" "sane (int M) l raw" "bt_used l \<le> S"
    "\<And>k. k < length ts \<Longrightarrow> tags_at (bt_adjustment l) raw (int k) = ts ! k" by (rule taggedE [OF t]) blast
  let ?l = "bt_Adjust (int n) l"
  have "int M + \<bar>int n\<bar> < 2 ^ 30" using n by simp
  note a = Adjust_raw [OF r(1-3) this refl]
  have sane: "sane (int (M + n)) ?l raw" using a(3) by simp
  have old: "tags_at (bt_adjustment ?l) raw (int k) = ts ! (k - n)" if "n \<le> k" "k < n + length ts" for k
    unfolding a(4) tags_at_shift using r(5) [of "k - n"] that by (simp add: of_nat_diff)
  show ?thesis
    by (rule cut_yields [OF AddAtStart_cut [OF inv_same_data [OF i a(5,6)] a(1,2) sane]]) (use a(6) r(4) old in \<open>auto simp: nth_append\<close>)
qed

text \<open>The copy that Packet::AddAtEnd makes of the list of the other packet: what lies before that packet is cut off, the rest moved behind \<open>n\<close> bytes.\<close>

lemma bt_append_copy:
  assumes i: "btl_inv h (add_mset l L)" and t: "bt_tagged M S h l ts" and n: "int (M + n) < 2 ^ 30"
  shows "\<exists>l' h'. bt_AddAtStart 0 l h = Some (l', h') \<and> btl_inv h' (add_mset (bt_Adjust (int n) l') L) \<and> bt_frames L h h' \<and>
    bt_tagged (M + n) S h' (bt_Adjust (int n) l') (replicate n [] @ ts)"
proof -
  obtain raw where r: "bt_holds h l raw" "bounded l raw" "sane (int M) l raw" "bt_used l \<le> S"
    "\<And>k. k < length ts \<Longrightarrow> tags_at (bt_adjustment l) raw (int k) = ts ! k" by (rule taggedE [OF t]) blast
  obtain l' h' raw' where l': "bt_AddAtStart 0 l h = Some (l', h')" "bt_leaves h L l' h' raw'" "bounded l' raw'" "sane (int M) l' raw'" "bt_used l' \<le> bt_used l"
    "\<And>k. tags_at (bt_adjustment l') raw' k = (if 0 \<le> k then tags_at (bt_adjustment l) raw k else [])"
    using AddAtStart_cut [OF i r(1-3), of 0] unfolding bt_cut_def by (metis linear of_nat_0_le_iff)
  have m: "int M + \<bar>int n\<bar> < 2 ^ 30" using n by simp
  have h: "btl_inv h' (add_mset l' L)" "bt_holds h' l' raw'" "bt_frames L h h'" using l'(2) by (simp_all add: bt_leaves_def)
  note a = Adjust_raw [OF h(2) l'(3,4) m refl]
  have "tags_at (bt_adjustment (bt_Adjust (int n) l')) raw' (int k) = (replicate n [] @ ts) ! k" if "k < n + length ts" for k
    unfolding a(4) tags_at_shift using l'(6) [of "int k - int n"] r(5) [of "k - n"] that by (auto simp: nth_append of_nat_diff)
  then have "bt_tagged (M + n) S h' (bt_Adjust (int n) l') (replicate n [] @ ts)"
    using a(1-3,6) l'(5) r(4) by (auto simp: bt_tagged_def intro!: exI [of _ raw'])
  then show ?thesis using l'(1) h(3) inv_same_data [OF h(1) a(5,6)] by blast
qed

lemma bt_RemoveAll_yields:
  assumes i: "btl_inv h (add_mset l L)" and M: "int M < 2 ^ 30"
  shows "bt_yields h L (bt_RemoveAll l h) M S (replicate n [])"
proof -
  obtain h' where h': "bt_Deallocate (bt_data l) h = Some h'" "btl_inv h' L" "bt_frames L h h'" using bt_Deallocate_ok [OF i] by blast
  have "btl_inv h' (add_mset bt_empty L)" by (rule inv_without_data(1) [OF _ h'(2)]) (simp_all add: list_ok_def)
  then show ?thesis using h' no_tags [OF M] by (simp add: bt_RemoveAll_def bt_yields_def)
qed

text \<open>A tag for the bytes from \<open>s\<close> to \<open>e\<close>.\<close>

definition tag_range :: "nat \<Rightarrow> nat \<Rightarrow> 'a \<Rightarrow> 'a list list \<Rightarrow> 'a list list" where
  "tag_range s e t ts = map (\<lambda>k. if s \<le> k \<and> k < e then ts ! k @ [t] else ts ! k) [0..<length ts]"

lemma length_tag_range [simp]: "length (tag_range s e t ts) = length ts"
  by (simp add: tag_range_def)

lemma bt_Add_yields:
  assumes i: "btl_inv h (add_mset l L)" and t: "bt_tagged M S h l ts" and small: "int (S + length bytes + 16) < 2 ^ 32"
    and e: "s \<le> e" "e \<le> M'" "M \<le> M'" "int M' < 2 ^ 30"
  shows "bt_yields h L (bt_Add tid bytes (int s) (int e) l h) M' (S + length bytes + 16) (tag_range s e (tid, bytes) ts)"
proof -
  obtain raw where r: "bt_holds h l raw" "bounded l raw" "sane (int M) l raw" "bt_used l \<le> S"
    "\<And>k. k < length ts \<Longrightarrow> tags_at (bt_adjustment l) raw (int k) = ts ! k" by (rule taggedE [OF t]) blast
  let ?a = "bt_adjustment l"
  let ?raw = "raw @ [(tid, int s - ?a, int e - ?a, bytes)]"
  note M = saneD(1,2) [OF r(3)]
  have id: "i32 (int s - ?a) = int s - ?a" "i32 (int e - ?a) = int e - ?a" using M e by (auto intro!: i32_id)
  have "bt_leaves h L l h raw" unfolding bt_leaves_def using i r(1) by (simp add: bt_frames_def)
  from bt_Add_ok [OF this, of bytes tid "int s" "int e"] obtain l' h' where l': "bt_Add tid bytes (int s) (int e) l h = Some (l', h')"
    "bt_leaves h L l' h' ?raw" "bt_adjustment l' = ?a" "bt_minStart l' = min (bt_minStart l) (int s - ?a)" "bt_maxEnd l' = max (bt_maxEnd l) (int e - ?a)"
    "bt_used l' = bt_used l + length bytes + 16"
    using id small r(4) by auto
  have "bounded l' ?raw" using r(2) l'(4,5) by (fastforce simp: bounded_def)
  moreover have "sane (int M') l' ?raw"
    using sane_mono [OF r(3), of "int M'"] e l'(3) by (auto simp: sane_def)
  moreover have "tags_at (bt_adjustment l') ?raw (int k) = tag_range s e (tid, bytes) ts ! k" if "k < length ts" for k
    using r(5) [OF that] that l'(3) by (auto simp: tag_range_def covers_def tag_of_def)
  ultimately have "bt_tagged M' (S + length bytes + 16) h' l' (tag_range s e (tid, bytes) ts)"
    using l'(2,6) r(4) unfolding bt_tagged_def bt_leaves_def by auto
  then show ?thesis using l'(1,2) by (simp add: bt_yields_def bt_leaves_def)
qed

text \<open>Add(const ByteTagList&): the tags of another list behind those of this one.\<close>

lemma bt_Add_list_yields:
  assumes i: "btl_inv h (add_mset l L)" and t: "bt_tagged M S h l ts" and c: "c \<in># L" "bt_tagged M' S' h c us" "length us = length ts"
    and small: "int (S + S') < 2 ^ 32" and M': "M \<le> M'"
  shows "bt_yields h L (bt_Add_list c l h) M' (S + S') (map2 (@) ts us)"
proof -
  obtain raw where r: "bt_holds h l raw" "bounded l raw" "sane (int M) l raw" "bt_used l \<le> S"
    "\<And>k. k < length ts \<Longrightarrow> tags_at (bt_adjustment l) raw (int k) = ts ! k" by (rule taggedE [OF t]) blast
  obtain raw2 where r2: "bt_holds h c raw2" "bounded c raw2" "sane (int M') c raw2" "bt_used c \<le> S'"
    "\<And>k. k < length us \<Longrightarrow> tags_at (bt_adjustment c) raw2 (int k) = us ! k" by (rule taggedE [OF c(2)]) blast
  let ?f = "\<lambda>item. Some (item_start item, item_end item)" and ?a = "bt_adjustment l"
  obtain i0 pre rest where b: "bt_BeginAll c h = Some i0" "raw2 = pre @ rest" "ready c i0 pre rest" "bi_offsetStart i0 = 0" "bi_offsetEnd i0 = OFFSET_MAX"
    "raw2 \<noteq> [] \<longrightarrow> bi_adjustment i0 = bt_adjustment c" "filter (in_range i0) pre = []"
    using Begin_ok [OF r2(1), of 0 OFFSET_MAX] by (auto simp: bt_BeginAll_def)
  let ?new = "added ?f ?a (map (cut i0) (filter (in_range i0) raw2))"
  have new: "map (cut i0) (filter (in_range i0) rest) = map (cut i0) (filter (in_range i0) raw2)" using b(2,7) by simp
  have lv: "bt_leaves h L l h raw" unfolding bt_leaves_def using i r(1) by (simp add: bt_frames_def)
  have "int (bt_used l + length (records rest)) < 2 ^ 32" using r(4) r2(1,4) b(2) small by (simp add: bt_holds_def)
  from add_items_ok [OF lv c(1) _ b(3) this r(2), of ?f] obtain l' h' where l': "bt_add_items ?f i0 l h = Some (l', h')"
    "bt_leaves h L l' h' (raw @ ?new)" "bt_adjustment l' = ?a" "bounded l' (raw @ ?new)"
    using r2(1) b(2) unfolding new by auto
  have f: "cuts 0 OFFSET_MAX ?f" by (auto simp: cuts_def)
  have s: "sane (int M') l raw" using sane_mono [OF r(3)] M' saneD(2) [OF r2(3)] by simp
  have a: "\<bar>?a\<bar> \<le> int M'" "int M' < 2 ^ 30" "0 \<le> int M'" "- int M' \<le> OFFSET_MAX" using saneD(1,2) [OF s] by (auto simp: OFFSET_MAX_def)
  have "sane (int M') l' (raw @ ?new)"
    using s copied_bounds [OF f order_refl a(3,4,1) r2(3) b(4-6)] l'(3) by (fastforce simp: sane_def)
  moreover have "tags_at (bt_adjustment l') (raw @ ?new) (int k) = map2 (@) ts us ! k" if "k < length ts" for k
  proof -
    have "tags_at ?a ?new (int k) = (if 0 \<le> int k \<and> int k < OFFSET_MAX then tags_at (bt_adjustment c) raw2 (int k) else [])"
      by (rule copied_tags [OF f order_refl a(3,4,1) r2(3) b(4-6)])
    moreover have "us ! k = []" if "\<not> int k < OFFSET_MAX"
    proof -
      have "tags_at (bt_adjustment c) raw2 (int k) = []"
        using saneD(4) [OF r2(3)] that a(2) by (fastforce simp: tags_at_def covers_def filter_empty_conv OFFSET_MAX_def)
      then show ?thesis using r2(5) [of k] \<open>k < length ts\<close> c(3) by simp
    qed
    ultimately show ?thesis using r(5) [OF that] r2(5) [of k] that c(3) l'(3) by auto
  qed
  moreover have "bt_used l' \<le> S + S'"
    using l'(2) r(1,4) r2(1,4) length_copied [of ?f ?a i0 raw2] by (auto simp: bt_leaves_def bt_holds_def)
  ultimately have "bt_tagged M' (S + S') h' l' (map2 (@) ts us)" using l'(2,4) c(3) unfolding bt_tagged_def bt_leaves_def by auto
  then show ?thesis using b(1) l'(1,2) by (simp add: bt_yields_def bt_leaves_def bt_Add_list_def)
qed

text \<open>The iterator over the tags of a packet gives exactly the tags of its bytes.\<close>

definition items_at :: "bt_Item list \<Rightarrow> nat \<Rightarrow> (u32 \<times> u8 list) list" where
  "items_at xs k = map (\<lambda>x. (item_tid x, item_buf x)) (filter (\<lambda>x. item_start x \<le> int k \<and> int k < item_end x) xs)"

lemma items_of_raw:
  assumes "sane M l raw" and "bi_offsetStart i = 0" "bi_offsetEnd i = n" "n \<le> M" "raw \<noteq> [] \<longrightarrow> bi_adjustment i = bt_adjustment l" and "int k < n"
  shows "items_at (map (cut i) (filter (in_range i) raw)) k = tags_at (bt_adjustment l) raw (int k)"
  using assms(1,5)
proof (induction raw)
  case (Cons r raw)
  obtain tid s e bytes where r: "r = (tid, s, e, bytes)" by (cases r)
  have b: "\<bar>s + bt_adjustment l\<bar> \<le> M" "\<bar>e + bt_adjustment l\<bar> \<le> M" "M < 2 ^ 30" "sane M l raw" "bi_adjustment i = bt_adjustment l"
    using Cons.prems r by (auto simp: sane_def)
  have id: "i32 (s + bt_adjustment l) = s + bt_adjustment l" "i32 (e + bt_adjustment l) = e + bt_adjustment l" using b by (auto intro!: i32_id)
  show ?case using Cons.IH b(4,5) assms(2,3,6) r id by (auto simp: items_at_def in_range_def cut_def covers_def tag_of_def)
qed (simp add: items_at_def)

lemma bt_Begin_items:
  assumes t: "bt_tagged M S h l ts" and n: "length ts \<le> M"
  shows "\<exists>i xs. bt_Begin 0 (int (length ts)) l h = Some i \<and> bi_items i h = Some xs \<and> (\<forall>k < length ts. items_at xs k = ts ! k) \<and>
    (\<forall>x \<in> set xs. 0 \<le> item_start x \<and> item_end x \<le> int (length ts))"
proof -
  obtain raw where r: "bt_holds h l raw" "bounded l raw" "sane (int M) l raw" "bt_used l \<le> S"
    "\<And>k. k < length ts \<Longrightarrow> tags_at (bt_adjustment l) raw (int k) = ts ! k" by (rule taggedE [OF t]) blast
  obtain i pre rest where b: "bt_Begin 0 (int (length ts)) l h = Some i" "raw = pre @ rest" "ready l i pre rest" "bi_offsetStart i = 0" "bi_offsetEnd i = int (length ts)"
    "raw \<noteq> [] \<longrightarrow> bi_adjustment i = bt_adjustment l" "filter (in_range i) pre = []"
    using Begin_ok [OF r(1), of 0 "int (length ts)"] by blast
  have "bi_items i h = Some (map (cut i) (filter (in_range i) raw))" using bi_items_ok [of h l pre rest i] r(1) b(2,3,7) by simp
  moreover have "items_at (map (cut i) (filter (in_range i) raw)) k = ts ! k" if "k < length ts" for k
    using items_of_raw [OF r(3) b(4,5) _ b(6)] n that r(5) [OF that] by simp
  moreover have "0 \<le> item_start (cut i x) \<and> item_end (cut i x) \<le> int (length ts)" for x using b(4,5) by (cases x) (simp add: cut_def)
  ultimately show ?thesis using b(1) by auto
qed

end
