(* ===== verification/Packet_Tags.thy ===== *)
theory Packet_Tags
  imports Ns3_Prelude
begin

text \<open>
  src/network/model/packet-tag-list.cc and packet-tag-list.h: the tags of a packet. A list of tags is a
  pointer to a cell TagData that links to the next one; the copies of a packet share the cells, so that
  the lists of all packets form a tree with its root at the null pointer. A cell counts the links to it. An
  operation that changes a list copies the cells from the first shared one up to the place of the change.

  The cells live in a heap that the operations pass on. A cell holds the serialized tag; a tag is its type
  id with the bytes that Tag::Serialize writes, and GetSerializedSize is their number. Counts are
  natural numbers.
\<close>

section \<open>Cells\<close>

record TagData =
  td_next :: addr
  td_count :: nat
  td_tid :: u16
  td_size :: nat
  td_data :: "u8 list"

record Tag =
  tg_tid :: u16
  tg_bytes :: "u8 list"

record tag_heap =
  cells :: "addr \<Rightarrow> TagData option"
  fresh :: addr

definition put_cell :: "addr \<Rightarrow> TagData \<Rightarrow> tag_heap \<Rightarrow> tag_heap" where
  "put_cell a d h = h\<lparr>cells := (cells h)(a \<mapsto> d)\<rparr>"

definition free_cell :: "addr \<Rightarrow> tag_heap \<Rightarrow> tag_heap" where
  "free_cell a h = h\<lparr>cells := (cells h)(a := None)\<rparr>"

text \<open>CreateTagData, with the assignments to the fields of the new cell that follow it.\<close>

definition CreateTagData :: "TagData \<Rightarrow> tag_heap \<Rightarrow> (addr \<times> tag_heap) option" where
  "CreateTagData d h =
     (if td_size d < 2 ^ 32 - 1 then Some (fresh h, put_cell (fresh h) d (h\<lparr>fresh := Suc (fresh h)\<rparr>)) else None)"

text \<open>\<open>tag.Serialize (TagBuffer (cur->data, cur->data + cur->size))\<close>: TagBuffer asserts that the tag fits.\<close>

definition serialize_into :: "Tag \<Rightarrow> TagData \<Rightarrow> TagData option" where
  "serialize_into tag d =
     (if length (tg_bytes tag) \<le> td_size d
      then Some (d\<lparr>td_data := tg_bytes tag @ drop (length (tg_bytes tag)) (td_data d)\<rparr>) else None)"

text \<open>The pointer that \<open>prevNext\<close> points to: m_next of the list, or the field next of a cell. A list is its m_next.\<close>

datatype link = ListNext | CellNext addr

fun set_link :: "link \<Rightarrow> addr \<Rightarrow> addr \<times> tag_heap \<Rightarrow> (addr \<times> tag_heap) option" where
  "set_link ListNext p (m, h) = Some (p, h)"
| "set_link (CellNext a) p (m, h) = do { d \<leftarrow> cells h a; Some (m, put_cell a (d\<lparr>td_next := p\<rparr>) h) }"

section \<open>Operations\<close>

subsection \<open>Copy on write\<close>

text \<open>The loop from the head of the list to the first shared cell or the tag.\<close>

partial_function (option) cow_search :: "u16 \<Rightarrow> link \<Rightarrow> addr \<Rightarrow> tag_heap \<Rightarrow> (link \<times> addr) option" where
  "cow_search tid prevNext cur h =
     (if cur = nullptr then Some (prevNext, cur)
      else do { d \<leftarrow> cells h cur;
                if 1 < td_count d \<or> td_tid d = tid then Some (prevNext, cur)
                else cow_search tid (CellNext cur) (td_next d) h })"

text \<open>The loop that looks for the tag behind the first shared cell.\<close>

partial_function (option) cow_exists :: "u16 \<Rightarrow> addr \<Rightarrow> tag_heap \<Rightarrow> bool option" where
  "cow_exists tid it h =
     (if it = nullptr then Some False
      else do { d \<leftarrow> cells h it; if td_tid d = tid then Some True else cow_exists tid (td_next d) h })"

text \<open>The loop that copies the shared cells in front of the tag.\<close>

partial_function (option) cow_copy :: "u16 \<Rightarrow> link \<Rightarrow> addr \<Rightarrow> addr \<Rightarrow> tag_heap \<Rightarrow> (link \<times> addr \<times> addr \<times> tag_heap) option" where
  "cow_copy tid prevNext cur m h =
     do { d \<leftarrow> cells h cur;
          if td_tid d = tid then Some (prevNext, cur, m, h)
          else if td_count d \<le> 1 then None
          else do { (copy, h) \<leftarrow> CreateTagData (d\<lparr>td_count := 1\<rparr>) (put_cell cur (d\<lparr>td_count := td_count d - 1\<rparr>) h);
                    n \<leftarrow> cells h (td_next d);
                    (m, h) \<leftarrow> set_link prevNext copy (m, put_cell (td_next d) (n\<lparr>td_count := td_count n + 1\<rparr>) h);
                    cow_copy tid (CellNext copy) (td_next d) m h } }"

text \<open>COWTraverse: the writer gets \<open>preMerge\<close>, \<open>cur\<close>, \<open>prevNext\<close> and the list. None: the tag is not found.\<close>

definition COWTraverse :: "u16 \<Rightarrow> (bool \<Rightarrow> addr \<Rightarrow> link \<Rightarrow> addr \<times> tag_heap \<Rightarrow> ('r \<times> addr \<times> tag_heap) option) \<Rightarrow> addr \<times> tag_heap \<Rightarrow>
  ('r option \<times> addr \<times> tag_heap) option" where
  "COWTraverse tid Writer l =
     (case l of (m, h) \<Rightarrow>
        if m = nullptr then Some (None, m, h)
        else do { (prevNext, cur) \<leftarrow> cow_search tid ListNext m h;
                  if cur = nullptr then Some (None, m, h)
                  else do { d \<leftarrow> cells h cur;
                            if td_count d \<le> 1 then do { (r, l) \<leftarrow> Writer True cur prevNext (m, h); Some (Some r, l) }
                            else do { found \<leftarrow> cow_exists tid cur h;
                                      if \<not> found then Some (None, m, h)
                                      else do { (prevNext, cur, m, h) \<leftarrow> cow_copy tid prevNext cur m h;
                                                d \<leftarrow> cells h cur;
                                                if td_count d \<le> 1 then None
                                                else do { (r, l) \<leftarrow> Writer False cur prevNext (m, h); Some (Some r, l) } } } } })"

text \<open>The link count of a cell that exists, when it gains a link.\<close>

definition add_link :: "addr \<Rightarrow> tag_heap \<Rightarrow> tag_heap option" where
  "add_link a h =
     (if a = nullptr then Some h else do { d \<leftarrow> cells h a; Some (put_cell a (d\<lparr>td_count := td_count d + 1\<rparr>) h) })"

definition RemoveWriter :: "bool \<Rightarrow> addr \<Rightarrow> link \<Rightarrow> addr \<times> tag_heap \<Rightarrow> (u8 list \<times> addr \<times> tag_heap) option" where
  "RemoveWriter preMerge cur prevNext l =
     do { d \<leftarrow> cells (snd l) cur;
          (m, h) \<leftarrow> set_link prevNext (td_next d) l;
          if preMerge then Some (td_data d, m, free_cell cur h)
          else do { d \<leftarrow> cells h cur;
                    h \<leftarrow> add_link (td_next d) (put_cell cur (d\<lparr>td_count := td_count d - 1\<rparr>) h);
                    Some (td_data d, m, h) } }"

text \<open>Remove, with the bytes that Tag::Deserialize gets.\<close>

definition ptl_Remove :: "u16 \<Rightarrow> addr \<times> tag_heap \<Rightarrow> (u8 list option \<times> addr \<times> tag_heap) option" where
  "ptl_Remove tid l = COWTraverse tid RemoveWriter l"

definition ReplaceWriter :: "Tag \<Rightarrow> bool \<Rightarrow> addr \<Rightarrow> link \<Rightarrow> addr \<times> tag_heap \<Rightarrow> (unit \<times> addr \<times> tag_heap) option" where
  "ReplaceWriter tag preMerge cur prevNext l =
     (case l of (m, h) \<Rightarrow>
        do { d \<leftarrow> cells h cur;
             if preMerge then do { d \<leftarrow> serialize_into tag d; Some ((), m, put_cell cur d h) }
             else do { (copy, h) \<leftarrow> CreateTagData \<lparr>td_next = td_next d, td_count = 1, td_tid = tg_tid tag,
                                       td_size = length (tg_bytes tag), td_data = tg_bytes tag\<rparr>
                                     (put_cell cur (d\<lparr>td_count := td_count d - 1\<rparr>) h);
                       h \<leftarrow> add_link (td_next d) h;
                       (m, h) \<leftarrow> set_link prevNext copy (m, h);
                       Some ((), m, h) } })"

text \<open>The loop of Add and of Peek.\<close>

partial_function (option) find_tag :: "u16 \<Rightarrow> addr \<Rightarrow> tag_heap \<Rightarrow> u8 list option option" where
  "find_tag tid cur h =
     (if cur = nullptr then Some None
      else do { d \<leftarrow> cells h cur; if td_tid d = tid then Some (Some (td_data d)) else find_tag tid (td_next d) h })"

definition ptl_Add :: "Tag \<Rightarrow> addr \<times> tag_heap \<Rightarrow> (addr \<times> tag_heap) option" where
  "ptl_Add tag l =
     (case l of (m, h) \<Rightarrow>
        do { old \<leftarrow> find_tag (tg_tid tag) m h;
             if old \<noteq> None then None
             else CreateTagData \<lparr>td_next = m, td_count = 1, td_tid = tg_tid tag,
                    td_size = length (tg_bytes tag), td_data = tg_bytes tag\<rparr> h })"

definition ptl_Replace :: "Tag \<Rightarrow> addr \<times> tag_heap \<Rightarrow> (bool \<times> addr \<times> tag_heap) option" where
  "ptl_Replace tag l =
     do { (found, l) \<leftarrow> COWTraverse (tg_tid tag) (ReplaceWriter tag) l;
          if found = None then do { l \<leftarrow> ptl_Add tag l; Some (False, l) } else Some (True, l) }"

definition ptl_Peek :: "u16 \<Rightarrow> addr \<times> tag_heap \<Rightarrow> u8 list option option" where
  "ptl_Peek tid l = find_tag tid (fst l) (snd l)"

subsection \<open>Copies and destruction\<close>

text \<open>The loop of RemoveAll: a cell is freed after the pointer to the next one has been read.\<close>

definition free_prev :: "addr \<Rightarrow> tag_heap \<Rightarrow> tag_heap" where
  "free_prev prev h = (if prev = nullptr then h else free_cell prev h)"

partial_function (option) remove_loop :: "addr \<Rightarrow> addr \<Rightarrow> tag_heap \<Rightarrow> tag_heap option" where
  "remove_loop prev cur h =
     (if cur = nullptr then Some (free_prev prev h)
      else do { d \<leftarrow> cells h cur;
                let h = put_cell cur (d\<lparr>td_count := td_count d - 1\<rparr>) h;
                if 0 < td_count d - 1 then Some (free_prev prev h)
                else remove_loop cur (td_next d) (free_prev prev h) })"

definition ptl_RemoveAll :: "addr \<times> tag_heap \<Rightarrow> (addr \<times> tag_heap) option" where
  "ptl_RemoveAll l = do { h \<leftarrow> remove_loop nullptr (fst l) (snd l); Some (nullptr, h) }"

definition ptl_copy :: "addr \<Rightarrow> tag_heap \<Rightarrow> (addr \<times> tag_heap) option" where
  "ptl_copy m' h = do { h \<leftarrow> add_link m' h; Some (m', h) }"

definition ptl_assign :: "addr \<Rightarrow> addr \<Rightarrow> tag_heap \<Rightarrow> (addr \<times> tag_heap) option" where
  "ptl_assign m m' h = (if m = m' then Some (m, h) else do { (_, h) \<leftarrow> ptl_RemoveAll (m, h); ptl_copy m' h })"

definition ptl_destroy :: "addr \<Rightarrow> tag_heap \<Rightarrow> tag_heap option" where
  "ptl_destroy m h = do { (_, h) \<leftarrow> ptl_RemoveAll (m, h); Some h }"

end
