(* ===== verification/Tag_Sharing.thy ===== *)
theory Tag_Sharing
  imports Packet_Tags
begin

text \<open>
  The lists of packet tags are independent although they share cells. \<open>holds h p xs\<close> says that the
  list at \<open>p\<close> is \<open>xs\<close>; \<open>tag_inv h P\<close> is the invariant of a heap with the lists \<open>P\<close>: no link dangles,
  no list is cyclic, and the count of every cell is the number of links to it, and positive. Four steps generate all
  changes of the heap: a list gains a cell in front, loses a cell that nobody shares,
  a shared cell gains a list, a shared cell loses one.
\<close>

section \<open>Lists in the heap\<close>

lemma cells_simps [simp]:
  "cells (put_cell a d h) b = (if b = a then Some d else cells h b)" "fresh (put_cell a d h) = fresh h"
  "cells (free_cell a h) b = (if b = a then None else cells h b)" "fresh (free_cell a h) = fresh h"
  by (simp_all add: put_cell_def free_cell_def)

lemma dom_simps [simp]: "dom (cells (put_cell a d h)) = insert a (dom (cells h))" "dom (cells (free_cell a h)) = dom (cells h) - {a}"
  by (auto simp: domIff split: if_splits)

type_synonym tag_value = "u16 \<times> u8 list"

definition value_of :: "TagData \<Rightarrow> tag_value" where
  "value_of d = (td_tid d, td_data d)"

primrec holds :: "tag_heap \<Rightarrow> addr \<Rightarrow> tag_value list \<Rightarrow> bool" where
  "holds h p [] \<longleftrightarrow> p = nullptr"
| "holds h p (x # xs) \<longleftrightarrow> p \<noteq> nullptr \<and> (\<exists>d. cells h p = Some d \<and> value_of d = x \<and> holds h (td_next d) xs)"

lemma holds_null [simp]: "holds h nullptr xs \<longleftrightarrow> xs = []"
  by (cases xs) auto

lemma holds_cell:
  "p \<noteq> nullptr \<Longrightarrow> holds h p xs \<longleftrightarrow> (\<exists>d ys. cells h p = Some d \<and> xs = value_of d # ys \<and> holds h (td_next d) ys)"
  by (cases xs) auto

lemma holds_unique: "holds h p xs \<Longrightarrow> holds h p ys \<Longrightarrow> xs = ys"
proof (induction xs arbitrary: p ys)
  case (Cons x xs)
  then show ?case by (cases ys) auto
qed simp

text \<open>A list does not depend on cells that are not linked, nor on counts.\<close>

definition same_list :: "TagData \<Rightarrow> TagData \<Rightarrow> bool" where
  "same_list d d' \<longleftrightarrow> td_next d = td_next d' \<and> value_of d = value_of d'"

lemma holds_same:
  "rel_option same_list (cells h a) (cells h' a) \<Longrightarrow> (\<forall>b. b \<noteq> a \<longrightarrow> cells h b = cells h' b) \<Longrightarrow> holds h p xs \<Longrightarrow> holds h' p xs"
proof (induction xs arbitrary: p)
  case (Cons x xs)
  obtain d where d: "cells h p = Some d" "value_of d = x" "holds h (td_next d) xs" "p \<noteq> 0" using Cons.prems(3) by auto
  then obtain d' where "cells h' p = Some d'" "same_list d d'"
    using Cons.prems(1,2) by (cases "p = a") (auto simp: option_rel_Some1 same_list_def)
  then show ?case using d Cons.IH [OF Cons.prems(1,2)] by (auto simp: same_list_def)
qed simp

lemma holds_count [simp]: "cells h a = Some d \<Longrightarrow> holds (put_cell a (d\<lparr>td_count := n\<rparr>) h) p xs \<longleftrightarrow> holds h p xs"
  using holds_same [of h a "put_cell a (d\<lparr>td_count := n\<rparr>) h" p xs] holds_same [of "put_cell a (d\<lparr>td_count := n\<rparr>) h" a h p xs]
  by (auto simp: put_cell_def same_list_def value_of_def)

lemma holds_new: "cells h a = None \<Longrightarrow> holds h p xs \<Longrightarrow> holds (put_cell a d h) p xs"
  by (induction xs arbitrary: p) (auto simp: put_cell_def)

lemma holds_unlinked:
  assumes "holds h p xs" and "p \<noteq> a" and "\<And>b d. cells h b = Some d \<Longrightarrow> td_next d \<noteq> a"
  shows "holds (free_cell a h) p xs"
  using assms(1,2)
proof (induction xs arbitrary: p)
  case (Cons x xs)
  then show ?case using assms(3) by (auto simp: free_cell_def)
qed simp

section \<open>The invariant\<close>

definition next_links :: "tag_heap \<Rightarrow> addr multiset" where
  "next_links h = image_mset (\<lambda>a. td_next (the (cells h a))) (mset_set (dom (cells h)))"

definition cell_ok :: "TagData \<Rightarrow> nat \<Rightarrow> bool" where
  "cell_ok d n \<longleftrightarrow> td_count d = n \<and> 0 < n \<and> length (td_data d) = td_size d \<and> td_size d < 2 ^ 32 - 1"

definition tag_inv :: "tag_heap \<Rightarrow> addr multiset \<Rightarrow> bool" where
  "tag_inv h P \<longleftrightarrow>
     finite (dom (cells h)) \<and> cells h nullptr = None \<and> 0 < fresh h \<and> (\<forall>a \<in> dom (cells h). a < fresh h) \<and>
     (\<forall>a d. cells h a = Some d \<longrightarrow> cell_ok d (count (P + next_links h) a)) \<and>
     (\<forall>a \<in> dom (cells h) \<union> set_mset P. \<exists>xs. holds h a xs)"

lemma next_links_put:
  "finite (dom (cells h)) \<Longrightarrow> cells h a = None \<Longrightarrow> next_links (put_cell a d h) = add_mset (td_next d) (next_links h)"
  unfolding next_links_def put_cell_def
  by (auto intro!: image_mset_cong simp: domIff)

lemma next_links_free:
  assumes "finite (dom (cells h))" and "cells h a = Some d"
  shows "next_links h = add_mset (td_next d) (next_links (free_cell a h))"
proof -
  have h: "h = put_cell a d (free_cell a h)" using assms(2) by (simp add: put_cell_def free_cell_def fun_upd_idem)
  show ?thesis by (subst h, rule next_links_put) (use assms in \<open>simp_all add: free_cell_def\<close>)
qed

lemma next_links_count [simp]: "cells h a = Some d \<Longrightarrow> next_links (put_cell a (d\<lparr>td_count := n\<rparr>) h) = next_links h"
  by (auto simp: next_links_def put_cell_def insert_absorb [OF domI] intro!: image_mset_cong)

lemma next_in_links: "finite (dom (cells h)) \<Longrightarrow> cells h b = Some d \<Longrightarrow> td_next d \<in># next_links h"
  by (auto simp: next_links_free)

lemma tag_invD:
  assumes "tag_inv h P"
  shows "finite (dom (cells h))" "cells h nullptr = None" "cells h (fresh h) = None" "0 < fresh h"
    and "cells h a = Some d \<Longrightarrow> a < fresh h"
    and "cells h a = Some d \<Longrightarrow> cell_ok d (count (P + next_links h) a)"
    and "cells h a = Some d \<Longrightarrow> \<exists>xs. holds h a xs"
    and "p \<in># P \<Longrightarrow> \<exists>xs. holds h p xs"
  using assms by (auto simp: tag_inv_def)

lemma tag_invI:
  assumes "finite (dom (cells h))" and "cells h nullptr = None" and "0 < fresh h"
    and "\<And>b x. cells h b = Some x \<Longrightarrow> b < fresh h" and "\<And>b x. cells h b = Some x \<Longrightarrow> cell_ok x (count (P + next_links h) b)"
    and "\<And>b. b \<in> dom (cells h) \<union> set_mset P \<Longrightarrow> \<exists>xs. holds h b xs"
  shows "tag_inv h P"
  using assms by (auto simp: tag_inv_def)

lemma link_target:
  assumes i: "tag_inv h P" and b: "b \<in># P + next_links h"
  shows "b = nullptr \<or> (\<exists>d. cells h b = Some d)"
proof -
  have "\<exists>xs. holds h b xs"
  proof (cases "b \<in># P")
    case False
    then obtain a d where "cells h a = Some d" "td_next d = b" using b tag_invD(1) [OF i] by (auto simp: next_links_def)
    then show ?thesis using tag_invD(7) [OF i] tag_invD(2) [OF i] by (metis holds_cell option.distinct(1) option.inject)
  qed (rule tag_invD(8) [OF i])
  then show ?thesis by (cases "b = nullptr") (auto simp: holds_cell)
qed

text \<open>The four steps.\<close>

lemma inv_null [simp]: "tag_inv h (add_mset nullptr P) \<longleftrightarrow> tag_inv h P"
  by (auto simp: tag_inv_def)

lemma inv_front:
  assumes i: "tag_inv h (add_mset p P)" and a: "cells h a = None" "a < fresh h" "a \<noteq> nullptr" and d: "td_next d = p" "cell_ok d 1"
  shows "tag_inv (put_cell a d h) (add_mset a P)"
proof -
  note f = tag_invD [OF i]
  have links: "next_links (put_cell a d h) = add_mset p (next_links h)" using next_links_put [OF f(1) a(1), of d] d(1) by simp
  have "\<not> a \<in># add_mset p P + next_links h" using link_target [OF i, of a] a by auto
  then have "count (add_mset a P + add_mset p (next_links h)) a = 1" by (simp add: count_eq_zero_iff)
  moreover have "count (add_mset a P + add_mset p (next_links h)) b = count (add_mset p P + next_links h) b" if "b \<noteq> a" for b
    using that by simp
  ultimately have c: "cell_ok x (count (add_mset a P + add_mset p (next_links h)) b)" if "cells (put_cell a d h) b = Some x" for b x
    using that f(6) [of b x] d(2) by (metis cells_simps(1) option.inject)
  have h: "\<exists>xs. holds (put_cell a d h) b xs" if "\<exists>xs. holds h b xs" for b using that holds_new [OF a(1)] by blast
  obtain xs where "holds h p xs" using f(8) by auto
  then have "holds (put_cell a d h) a (value_of d # xs)" using holds_new [OF a(1)] a(3) d(1) by simp
  then have "\<exists>xs. holds (put_cell a d h) a xs" by blast
  then have "\<exists>xs. holds (put_cell a d h) b xs" if "b \<in> dom (cells (put_cell a d h)) \<union> set_mset (add_mset a P)" for b
    using that h f(7,8) by (cases "b = a") auto
  then show ?thesis by (intro tag_invI) (use f(1-5) c a links in \<open>auto split: if_splits\<close>)
qed

lemma inv_take:
  assumes i: "tag_inv h (add_mset a P)" and d: "cells h a = Some d" "td_count d \<le> 1"
  shows "tag_inv (free_cell a h) (add_mset (td_next d) P)"
    and "p \<in># add_mset (td_next d) P \<Longrightarrow> holds h p xs \<Longrightarrow> holds (free_cell a h) p xs"
proof -
  note f = tag_invD [OF i]
  have links: "next_links h = add_mset (td_next d) (next_links (free_cell a h))" by (rule next_links_free [OF f(1) d(1)])
  have "count (P + next_links h) a = 0" using f(6) [OF d(1)] d(2) by (simp add: cell_ok_def)
  then have n: "a \<notin># P" "a \<notin># next_links h" by (auto simp: count_eq_zero_iff)
  have u: "td_next x \<noteq> a" if "cells h b = Some x" for b x using next_in_links [OF f(1) that] n(2) by auto
  have k: "holds (free_cell a h) b xs" if "holds h b xs" "b \<noteq> a" for b xs by (rule holds_unlinked [OF that u])
  have "\<exists>xs. holds h (td_next d) xs" using f(7) [OF d(1)] d(1) by (metis f(2) holds_cell option.distinct(1) option.inject)
  then have "\<exists>xs. holds (free_cell a h) b xs" if "b \<in> dom (cells (free_cell a h)) \<union> set_mset (add_mset (td_next d) P)" for b
  proof -
    have "b \<noteq> a" using that n(1) u [OF d(1)] by auto
    moreover have "\<exists>xs. holds h b xs" using that f(7,8) \<open>\<exists>xs. holds h (td_next d) xs\<close> by auto
    ultimately show ?thesis using k by blast
  qed
  moreover have "cell_ok x (count (add_mset (td_next d) P + next_links (free_cell a h)) b)" if "cells (free_cell a h) b = Some x" for b x
  proof -
    have "b \<noteq> a" "cells h b = Some x" using that by (auto split: if_splits)
    moreover have "count (add_mset a P + next_links h) b = count (add_mset (td_next d) P + next_links (free_cell a h)) b"
      using \<open>b \<noteq> a\<close> by (simp add: links)
    ultimately show ?thesis using f(6) by metis
  qed
  ultimately show "tag_inv (free_cell a h) (add_mset (td_next d) P)"
    by (intro tag_invI) (use f(1-5) in \<open>auto split: if_splits\<close>)
  show "holds (free_cell a h) p xs" if "p \<in># add_mset (td_next d) P" "holds h p xs"
    using k that n(1) u [OF d(1)] by auto
qed

lemma inv_recount:
  assumes i: "tag_inv h P" and d: "cells h a = Some d" and n: "n = count (Q + next_links h) a" "0 < n"
    and q: "\<And>b. b \<noteq> a \<Longrightarrow> count Q b = count P b"
  shows "tag_inv (put_cell a (d\<lparr>td_count := n\<rparr>) h) Q"
proof -
  note f = tag_invD [OF i]
  have l: "next_links (put_cell a (d\<lparr>td_count := n\<rparr>) h) = next_links h" using d by simp
  have e: "holds (put_cell a (d\<lparr>td_count := n\<rparr>) h) = holds h" using d by (simp add: fun_eq_iff)
  have "b \<in># P" if "b \<in># Q" "b \<noteq> a" for b using that q [of b] by (metis count_eq_zero_iff)
  then have "\<exists>xs. holds h b xs" if "b \<in> dom (cells h) \<union> set_mset Q" for b using that f(7,8) d by (cases "b = a") auto
  moreover have "a \<noteq> nullptr" using d f(2) by (metis option.distinct(1))
  moreover have "cell_ok x (count (Q + next_links h) b)" if "cells (put_cell a (d\<lparr>td_count := n\<rparr>) h) b = Some x" for b x
  proof (cases "b = a")
    case True
    then show ?thesis using that n f(6) [OF d] by (auto simp: cell_ok_def simp del: count_greater_zero_iff)
  next
    case False
    then have "cells h b = Some x" using that by simp
    then show ?thesis using f(6) [of b x] q [OF False] by simp
  qed
  ultimately show ?thesis using f d unfolding tag_inv_def l e by auto
qed

lemma inv_share:
  assumes "tag_inv h P" and "cells h a = Some d"
  shows "tag_inv (put_cell a (d\<lparr>td_count := td_count d + 1\<rparr>) h) (add_mset a P)"
  using tag_invD(6) [OF assms] by (intro inv_recount [OF assms]) (auto simp: cell_ok_def)

lemma inv_unshare:
  assumes "tag_inv h (add_mset a P)" and "cells h a = Some d" and "1 < td_count d"
  shows "tag_inv (put_cell a (d\<lparr>td_count := td_count d - 1\<rparr>) h) P"
  using tag_invD(6) [OF assms(1,2)] assms(3) by (intro inv_recount [OF assms(1,2)]) (auto simp: cell_ok_def)


lemma inv_fresh: "tag_inv h P \<Longrightarrow> tag_inv (h\<lparr>fresh := Suc (fresh h)\<rparr>) P"
proof -
  assume i: "tag_inv h P"
  have e: "holds (h\<lparr>fresh := n\<rparr>) p xs = holds h p xs" for n p xs by (induction xs arbitrary: p) auto
  show ?thesis by (intro tag_invI) (use tag_invD [OF i] in \<open>auto simp: e next_links_def less_Suc_eq\<close>)
qed

section \<open>A place in a list\<close>

text \<open>
  While an operation walks through a list, the cells behind it, \<open>rs\<close> with the last one first, belong to
  the list alone. \<open>attach rs cur h\<close> is the list and the heap in which they link to \<open>cur\<close>; the
  invariant holds for \<open>h\<close>, the heap without them, with \<open>cur\<close> as a list.
\<close>

fun attach :: "(addr \<times> TagData) list \<Rightarrow> addr \<Rightarrow> tag_heap \<Rightarrow> addr \<times> tag_heap" where
  "attach [] cur h = (cur, h)"
| "attach ((a, d) # rs) cur h = attach rs a (put_cell a (d\<lparr>td_next := cur\<rparr>) h)"

definition owned :: "(addr \<times> TagData) list \<Rightarrow> tag_heap \<Rightarrow> bool" where
  "owned rs h \<longleftrightarrow> distinct (map fst rs) \<and>
     (\<forall>(a, d) \<in> set rs. cells h a = None \<and> a \<noteq> nullptr \<and> a < fresh h \<and> cell_ok d 1)"

definition prev_link :: "(addr \<times> TagData) list \<Rightarrow> link" where
  "prev_link rs = (case rs of [] \<Rightarrow> ListNext | (a, d) # _ \<Rightarrow> CellNext a)"

definition passed :: "(addr \<times> TagData) list \<Rightarrow> tag_value list" where
  "passed rs = map (\<lambda>(a, d). value_of d) (rev rs)"

lemma cell_next [simp]: "value_of (d\<lparr>td_next := p\<rparr>) = value_of d" "cell_ok (d\<lparr>td_next := p\<rparr>) n = cell_ok d n"
  by (simp_all add: value_of_def cell_ok_def)

lemma put_put [simp]: "put_cell a x (put_cell a y h) = put_cell a x h" "put_cell a x (free_cell a h) = put_cell a x h"
  by (simp_all add: put_cell_def free_cell_def)

lemma put_commute: "a \<noteq> b \<Longrightarrow> put_cell a x (put_cell b y h) = put_cell b y (put_cell a x h)"
  "a \<noteq> b \<Longrightarrow> free_cell a (put_cell b y h) = put_cell b y (free_cell a h)"
  by (simp_all add: put_cell_def free_cell_def fun_upd_twist)

lemma attach_put:
  "b \<notin> fst ` set rs \<Longrightarrow> attach rs cur (put_cell b x h) = (fst (attach rs cur h), put_cell b x (snd (attach rs cur h)))"
  by (induction rs cur h rule: attach.induct) (auto simp: put_commute(1) [of b])

lemma attach_free:
  "b \<notin> fst ` set rs \<Longrightarrow> attach rs cur (free_cell b h) = (fst (attach rs cur h), free_cell b (snd (attach rs cur h)))"
  by (induction rs cur h rule: attach.induct) (auto simp: put_commute(2) [of b, symmetric])

lemma attach_grow: "attach rs cur (h\<lparr>fresh := n\<rparr>) = (fst (attach rs cur h), (snd (attach rs cur h))\<lparr>fresh := n\<rparr>)"
proof (induction rs cur h rule: attach.induct)
  case (2 a d rs cur h)
  have "put_cell a x (h\<lparr>fresh := n\<rparr>) = (put_cell a x h)\<lparr>fresh := n\<rparr>" for x by (cases h) (simp add: put_cell_def)
  then show ?case using 2 by simp
qed simp

lemma attach_cells [simp]: "b \<notin> fst ` set rs \<Longrightarrow> cells (snd (attach rs cur h)) b = cells h b"
  by (induction rs cur h rule: attach.induct) auto

lemma attach_fresh [simp]: "fresh (snd (attach rs cur h)) = fresh h"
  by (induction rs cur h rule: attach.induct) auto

lemma attach_set_link:
  assumes "owned rs h"
  shows "set_link (prev_link rs) q (attach rs cur h) = Some (attach rs q h)"
proof (cases rs)
  case (Cons x rs')
  obtain a d where x: "x = (a, d)" by (cases x)
  have a: "a \<notin> fst ` set rs'" using assms Cons x by (auto simp: owned_def)
  show ?thesis
    using attach_put [OF a, of a "d\<lparr>td_next := q\<rparr>" "put_cell a (d\<lparr>td_next := cur\<rparr>) h"] a
    by (cases "attach rs' a (put_cell a (d\<lparr>td_next := cur\<rparr>) h)") (use Cons x attach_cells [OF a, of a "put_cell a (d\<lparr>td_next := cur\<rparr>) h"] in \<open>auto simp: prev_link_def\<close>)
qed (simp add: prev_link_def)

definition frames :: "addr multiset \<Rightarrow> tag_heap \<Rightarrow> tag_heap \<Rightarrow> bool" where
  "frames P h h' \<longleftrightarrow> (\<forall>p \<in># P. \<forall>xs. holds h p xs \<longrightarrow> holds h' p xs)"

lemma attach_inv:
  assumes "tag_inv h (add_mset cur P)" and "owned rs h" and "holds h cur ys" and "attach rs cur h = (m, H)"
  shows "tag_inv H (add_mset m P) \<and> holds H m (passed rs @ ys) \<and> frames P h H"
  using assms
proof (induction rs cur h arbitrary: ys rule: attach.induct)
  case (2 a d rs cur h)
  let ?x = "d\<lparr>td_next := cur\<rparr>" and ?h = "put_cell a (d\<lparr>td_next := cur\<rparr>) h"
  have a: "cells h a = None" "a < fresh h" "a \<noteq> nullptr" "cell_ok ?x 1" using "2.prems"(2) by (auto simp: owned_def)
  have i: "tag_inv ?h (add_mset a P)" using inv_front [OF "2.prems"(1) a(1-3) _ a(4)] by simp
  have o: "owned rs ?h" using "2.prems"(2) by (force simp: owned_def)
  have y: "holds ?h a (value_of d # ys)" using holds_new [OF a(1) "2.prems"(3)] a(3) by simp
  have r: "tag_inv H (add_mset m P)" "holds H m (passed rs @ value_of d # ys)" "frames P ?h H"
    using "2.IH" [OF i o y] "2.prems"(4) by simp_all
  have "frames P h H" using r(3) holds_new [OF a(1)] by (auto simp: frames_def)
  then show ?case using r by (simp add: passed_def)
qed (simp add: passed_def frames_def)


text \<open>The walk through the list \<open>l\<close> that began in the heap \<open>h0\<close> is at \<open>cur\<close>, in front of \<open>ys\<close>.\<close>

definition zipper :: "tag_heap \<Rightarrow> addr multiset \<Rightarrow> addr \<times> tag_heap \<Rightarrow> (addr \<times> TagData) list \<Rightarrow> addr \<Rightarrow> tag_heap \<Rightarrow> tag_value list \<Rightarrow> bool" where
  "zipper h0 P l rs cur h ys \<longleftrightarrow>
     owned rs h \<and> attach rs cur h = l \<and> tag_inv h (add_mset cur P) \<and> holds h cur ys \<and> frames P h0 h"

lemma zipper_start: "tag_inv h (add_mset m P) \<Longrightarrow> holds h m xs \<Longrightarrow> zipper h P (m, h) [] m h xs"
  by (simp add: zipper_def owned_def frames_def)

lemma zipper_end:
  "zipper h0 P (m, H) rs cur h ys \<Longrightarrow> tag_inv H (add_mset m P) \<and> holds H m (passed rs @ ys) \<and> frames P h0 H"
  using attach_inv [of h cur P rs ys m H] by (auto simp: zipper_def frames_def)

lemma zipper_apart:
  assumes "zipper h0 P l rs cur h ys"
  shows "cur \<noteq> nullptr \<Longrightarrow> cur \<notin> fst ` set rs" and "cells h b \<noteq> None \<Longrightarrow> b \<notin> fst ` set rs" and "fresh h \<notin> fst ` set rs"
    and "cells (snd l) cur = cells h cur"
proof -
  have o: "owned rs h" "attach rs cur h = l" "cells h nullptr = None" using assms tag_invD(2) by (auto simp: zipper_def)
  show c: "cells h b \<noteq> None \<Longrightarrow> b \<notin> fst ` set rs" for b using o(1) by (auto simp: owned_def)
  show "fresh h \<notin> fst ` set rs" using o(1) by (auto simp: owned_def)
  show n: "cur \<noteq> nullptr \<Longrightarrow> cur \<notin> fst ` set rs" using assms c [of cur] by (auto simp: zipper_def holds_cell)
  have "nullptr \<notin> fst ` set rs" using o(1) by (auto simp: owned_def)
  then show "cells (snd l) cur = cells h cur" using n attach_cells [of cur rs cur h] o(2) by (cases "cur = nullptr") auto
qed

lemma zipper_cell:
  assumes "zipper h0 P l rs cur h ys" and "cur \<noteq> nullptr"
  shows "\<exists>d zs. cells h cur = Some d \<and> cells (snd l) cur = Some d \<and> ys = value_of d # zs \<and> holds h (td_next d) zs \<and> cell_ok d (td_count d)"
proof -
  have "tag_inv h (add_mset cur P)" "holds h cur ys" using assms(1) by (simp_all add: zipper_def)
  then show ?thesis using assms(2) zipper_apart(4) [OF assms(1)] tag_invD(6) by (fastforce simp: holds_cell cell_ok_def)
qed

text \<open>A cell that only this list uses is passed, dropped or rewritten.\<close>

lemma zipper_own:
  assumes z: "zipper h0 P l rs cur h (v # ys)" and d: "cells h cur = Some d" "td_count d \<le> 1"
  shows "owned rs (free_cell cur h)" "tag_inv (free_cell cur h) (add_mset (td_next d) P)" "holds (free_cell cur h) (td_next d) ys"
    "frames P h0 (free_cell cur h)" "cell_ok d 1" "cur \<noteq> nullptr" "cur < fresh h"
proof -
  have i: "tag_inv h (add_mset cur P)" using z by (simp add: zipper_def)
  show "owned rs (free_cell cur h)" using z by (auto simp: zipper_def owned_def)
  show "tag_inv (free_cell cur h) (add_mset (td_next d) P)" by (rule inv_take(1) [OF i d])
  show "cur \<noteq> nullptr" using d(1) tag_invD(2) [OF i] by (metis option.distinct(1))
  then have "holds h (td_next d) ys" using z d by (auto simp: zipper_def)
  then show "holds (free_cell cur h) (td_next d) ys" by (rule inv_take(2) [OF i d, rotated]) simp
  show "frames P h0 (free_cell cur h)" using z inv_take(2) [OF i d] by (simp add: zipper_def frames_def)
  show "cell_ok d 1" using tag_invD(6) [OF i d(1)] d(2) by (auto simp: cell_ok_def simp del: count_greater_zero_iff)
  show "cur < fresh h" by (rule tag_invD(5) [OF i d(1)])
qed

lemma zipper_move:
  assumes z: "zipper h0 P l rs cur h (v # ys)" and d: "cells h cur = Some d" "td_count d \<le> 1"
  shows "zipper h0 P l ((cur, d) # rs) (td_next d) (free_cell cur h) ys"
proof -
  note o = zipper_own [OF z d]
  have "put_cell cur d h = h" using d(1) by (simp add: put_cell_def fun_upd_idem)
  then have "attach ((cur, d) # rs) (td_next d) (free_cell cur h) = l" using z d(1) by (simp add: zipper_def)
  moreover have "owned ((cur, d) # rs) (free_cell cur h)" using o zipper_apart(1) [OF z] by (auto simp: owned_def)
  ultimately show ?thesis using o by (simp add: zipper_def)
qed

lemma zipper_drop:
  assumes z: "zipper h0 P l rs cur h (v # ys)" and d: "cells h cur = Some d" "td_count d \<le> 1"
  shows "\<exists>m H. set_link (prev_link rs) (td_next d) l = Some (m, H) \<and> zipper h0 P (m, free_cell cur H) rs (td_next d) (free_cell cur h) ys"
proof -
  note o = zipper_own [OF z d]
  have "set_link (prev_link rs) (td_next d) l = Some (attach rs (td_next d) h)" using z attach_set_link by (auto simp: zipper_def)
  then show ?thesis
    using o attach_free [OF zipper_apart(1) [OF z o(6)], of "td_next d" h] by (cases "attach rs (td_next d) h") (simp add: zipper_def)
qed

lemma zipper_write:
  assumes z: "zipper h0 P (m, H) rs cur h (v # ys)" and d: "cells h cur = Some d" "td_count d \<le> 1"
    and x: "td_next x = td_next d" "cell_ok x 1"
  shows "zipper h0 P (m, put_cell cur x H) rs cur (put_cell cur x h) (value_of x # ys)"
proof -
  note o = zipper_own [OF z d]
  have e: "put_cell cur x h = put_cell cur x (free_cell cur h)" by simp
  have n: "cells (free_cell cur h) cur = None" by simp
  have "tag_inv (put_cell cur x h) (add_mset cur P)" unfolding e by (rule inv_front [OF o(2)]) (use o x in simp_all)
  moreover have "holds (put_cell cur x h) cur (value_of x # ys)" unfolding e using holds_new [OF n o(3)] o(6) x(1) by simp
  moreover have "frames P h0 (put_cell cur x h)" unfolding e using holds_new [OF n] o(4) by (auto simp: frames_def)
  moreover have "owned rs (put_cell cur x h)" using z zipper_apart(1) [OF z o(6)] by (force simp: zipper_def owned_def)
  moreover have "attach rs cur (put_cell cur x h) = (m, put_cell cur x H)"
    using attach_put [OF zipper_apart(1) [OF z o(6)], of cur x h] z by (simp add: zipper_def)
  ultimately show ?thesis by (simp add: zipper_def)
qed


text \<open>A shared cell is left by this list: the next one gains a link.\<close>

lemma add_link_ok:
  assumes i: "tag_inv h P" and e: "holds h p xs"
  shows "\<exists>h'. add_link p h = Some h' \<and> tag_inv h' (add_mset p P) \<and> (\<forall>q ys. holds h' q ys = holds h q ys) \<and> fresh h' = fresh h \<and>
    (\<forall>b. (cells h' b = None) = (cells h b = None)) \<and> (\<forall>d. cells h p = Some d \<longrightarrow> cells h' p = Some (d\<lparr>td_count := td_count d + 1\<rparr>))"
proof (cases "p = nullptr")
  case True
  then show ?thesis using i tag_invD(2) [OF i] by (simp add: add_link_def)
next
  case False
  then obtain d where "cells h p = Some d" using e by (auto simp: holds_cell)
  then show ?thesis using False inv_share [OF i] by (simp add: add_link_def)
qed

lemma zipper_leave:
  assumes z: "zipper h0 P l rs cur h (v # ys)" and d: "cells h cur = Some d" "1 < td_count d"
  shows "\<exists>h'. add_link (td_next d) (put_cell cur (d\<lparr>td_count := td_count d - 1\<rparr>) h) = Some h' \<and>
    tag_inv h' (add_mset (td_next d) P) \<and> holds h' (td_next d) ys \<and> frames P h0 h' \<and> owned rs h' \<and> fresh h' = fresh h \<and>
    (\<forall>n. cells h' (td_next d) = Some n \<longrightarrow> 1 < td_count n)"
proof -
  let ?h = "put_cell cur (d\<lparr>td_count := td_count d - 1\<rparr>) h"
  have i: "tag_inv h (add_mset cur P)" and o: "owned rs h" and f: "frames P h0 h" using z by (simp_all add: zipper_def)
  have c: "cur \<noteq> nullptr" using d(1) tag_invD(2) [OF i] by (metis option.distinct(1))
  have "holds h (td_next d) ys" using z d c by (auto simp: zipper_def)
  then have y: "holds ?h (td_next d) ys" using d by simp
  obtain h' where h': "add_link (td_next d) ?h = Some h'" "tag_inv h' (add_mset (td_next d) P)" "\<forall>q ys. holds h' q ys = holds ?h q ys"
    "fresh h' = fresh h" "\<forall>b. (cells h' b = None) = (cells ?h b = None)"
    "\<forall>n. cells ?h (td_next d) = Some n \<longrightarrow> cells h' (td_next d) = Some (n\<lparr>td_count := td_count n + 1\<rparr>)"
    using add_link_ok [OF inv_unshare [OF i d] y] by auto
  have "1 < td_count n" if n: "cells h' (td_next d) = Some n" for n
  proof -
    obtain n0 where n0: "cells ?h (td_next d) = Some n0" using h'(5) n by (metis option.exhaust option.distinct(1))
    have "0 < td_count n0" using tag_invD(6) [OF inv_unshare [OF i d] n0] unfolding cell_ok_def by metis
    then show ?thesis using h'(6) n0 n by simp
  qed
  have "owned rs h'" using o h'(4,5) d(1) unfolding owned_def by (force split: if_splits)
  moreover have "frames P h0 h'" using f h'(3) d(1) by (simp add: frames_def)
  ultimately show ?thesis using h'(1-4) y \<open>\<And>n. cells h' (td_next d) = Some n \<Longrightarrow> 1 < td_count n\<close> by blast
qed

lemma attach_add_link:
  assumes "owned rs h" and "p = nullptr \<or> cells h p \<noteq> None" and "add_link p h = Some h'"
  shows "add_link p (snd (attach rs cur h)) = Some (snd (attach rs cur h')) \<and> fst (attach rs cur h') = fst (attach rs cur h)"
proof (cases "p = nullptr")
  case False
  then have "p \<notin> fst ` set rs" using assms(1,2) by (auto simp: owned_def)
  then show ?thesis using assms(3) False attach_put [of p rs cur] by (auto simp: add_link_def bind_eq_Some_conv)
qed (use assms in \<open>simp add: add_link_def\<close>)

lemma zipper_skip:
  assumes z: "zipper h0 P l rs cur h (v # ys)" and d: "cells h cur = Some d" "1 < td_count d"
  shows "\<exists>m H H'. set_link (prev_link rs) (td_next d) l = Some (m, H) \<and> cells H cur = Some d \<and>
    add_link (td_next d) (put_cell cur (d\<lparr>td_count := td_count d - 1\<rparr>) H) = Some H' \<and> (\<exists>h'. zipper h0 P (m, H') rs (td_next d) h' ys)"
proof -
  let ?h = "put_cell cur (d\<lparr>td_count := td_count d - 1\<rparr>) h"
  obtain h' where h': "add_link (td_next d) ?h = Some h'" "tag_inv h' (add_mset (td_next d) P)" "holds h' (td_next d) ys" "frames P h0 h'" "owned rs h'"
    using zipper_leave [OF z d] by auto
  have o: "owned rs h" using z by (simp add: zipper_def)
  have c: "cur \<notin> fst ` set rs" using zipper_apart(2) [OF z] d(1) by simp
  obtain m H where mH: "attach rs (td_next d) h = (m, H)" by (metis surj_pair)
  have "cells H cur = Some d" using attach_cells [OF c, of "td_next d" h] mH d(1) by simp
  have a: "attach rs (td_next d) ?h = (m, put_cell cur (d\<lparr>td_count := td_count d - 1\<rparr>) H)" using attach_put [OF c] mH by simp
  have "owned rs ?h" using o c by (force simp: owned_def)
  moreover have "td_next d = nullptr \<or> cells ?h (td_next d) \<noteq> None" using h'(1) by (auto simp: add_link_def bind_eq_Some_conv split: if_splits)
  ultimately have "add_link (td_next d) (put_cell cur (d\<lparr>td_count := td_count d - 1\<rparr>) H) = Some (snd (attach rs (td_next d) h'))"
    "fst (attach rs (td_next d) h') = m"
    using attach_add_link [OF _ _ h'(1), of rs "td_next d"] a by auto
  moreover have "set_link (prev_link rs) (td_next d) l = Some (m, H)" using attach_set_link [OF o, of "td_next d" cur] mH z by (simp add: zipper_def)
  ultimately show ?thesis using h' \<open>cells H cur = Some d\<close> by (cases "attach rs (td_next d) h'") (auto simp: zipper_def)
qed


text \<open>A shared cell is replaced in this list by a new cell with the same successor.\<close>

lemma add_link_new:
  assumes "add_link p h = Some h'" and "cells h f = None"
  shows "add_link p (put_cell f x (h\<lparr>fresh := n\<rparr>)) = Some (put_cell f x (h'\<lparr>fresh := n\<rparr>))"
proof (cases "p = nullptr")
  case False
  then obtain d where d: "cells h p = Some d" "h' = put_cell p (d\<lparr>td_count := td_count d + 1\<rparr>) h"
    using assms(1) by (auto simp: add_link_def bind_eq_Some_conv)
  moreover have "put_cell p y (put_cell f x (h\<lparr>fresh := n\<rparr>)) = put_cell f x ((put_cell p y h)\<lparr>fresh := n\<rparr>)" if "p \<noteq> f" for y
    using that by (cases h) (simp add: put_cell_def fun_upd_twist)
  ultimately show ?thesis using False assms(2) by (cases "p = f") (simp_all add: add_link_def)
qed (use assms in \<open>simp add: add_link_def\<close>)

lemma zipper_divert:
  assumes z: "zipper h0 P (m, H) rs cur h (v # ys)" and d: "cells h cur = Some d" "1 < td_count d"
    and x: "td_next x = td_next d" "cell_ok x 1"
  shows "\<exists>copy H1 H2 l h'. CreateTagData x (put_cell cur (d\<lparr>td_count := td_count d - 1\<rparr>) H) = Some (copy, H1) \<and>
    add_link (td_next d) H1 = Some H2 \<and> set_link (prev_link rs) copy (m, H2) = Some l \<and>
    zipper h0 P l ((copy, x) # rs) (td_next d) h' ys \<and> (\<forall>n. cells h' (td_next d) = Some n \<longrightarrow> 1 < td_count n)"
proof -
  let ?h = "put_cell cur (d\<lparr>td_count := td_count d - 1\<rparr>) h" and ?f = "fresh h"
  let ?g = "\<lambda>h. put_cell ?f x (h\<lparr>fresh := Suc ?f\<rparr>)"
  obtain h' where h': "add_link (td_next d) ?h = Some h'" "tag_inv h' (add_mset (td_next d) P)" "holds h' (td_next d) ys" "frames P h0 h'"
    "owned rs h'" "fresh h' = ?f" "\<forall>n. cells h' (td_next d) = Some n \<longrightarrow> 1 < td_count n"
    using zipper_leave [OF z d] by auto
  have i: "tag_inv h (add_mset cur P)" and o: "owned rs h" and a: "attach rs cur h = (m, H)" using z by (simp_all add: zipper_def)
  have c: "cur \<notin> fst ` set rs" "?f \<notin> fst ` set rs" "cells h ?f = None" "?f \<noteq> cur"
    using zipper_apart(2,3) [OF z] d(1) tag_invD(3,5) [OF i] by auto
  have 1: "attach rs p (?g k) = (fst (attach rs p k), ?g (snd (attach rs p k)))" for p k using attach_put [OF c(2)] attach_grow by simp
  have H: "attach rs cur ?h = (m, put_cell cur (d\<lparr>td_count := td_count d - 1\<rparr>) H)" using attach_put [OF c(1)] a by simp
  have "fresh H = ?f" using a attach_fresh [of rs cur h] by simp
  then have 2: "CreateTagData x (put_cell cur (d\<lparr>td_count := td_count d - 1\<rparr>) H) = Some (?f, snd (attach rs cur (?g ?h)))"
    using x(2) by (simp add: CreateTagData_def cell_ok_def 1 H del: One_nat_def)
  have og: "owned rs (?g k)" if "owned rs k" "fresh k = ?f" for k using that c(2) by (force simp: owned_def)
  have ol: "owned rs ?h" using o c(1) by (force simp: owned_def)
  have l: "add_link (td_next d) (?g ?h) = Some (?g h')" using add_link_new [OF h'(1)] c(3,4) by simp
  then have "td_next d = nullptr \<or> cells (?g ?h) (td_next d) \<noteq> None" by (auto simp: add_link_def bind_eq_Some_conv split: if_splits)
  then have 3: "add_link (td_next d) (snd (attach rs cur (?g ?h))) = Some (snd (attach rs cur (?g h')))" "fst (attach rs cur (?g h')) = m"
    using attach_add_link [OF og [OF ol] _ l, of cur] H 1 [of cur ?h] by auto
  have "set_link (prev_link rs) ?f (attach rs cur (?g h')) = Some (attach rs ?f (?g h'))" by (rule attach_set_link [OF og [OF h'(5,6)]])
  then have 4: "set_link (prev_link rs) ?f (m, snd (attach rs cur (?g h'))) = Some (attach rs ?f (?g h'))" using 3(2) by (metis prod.collapse)
  have e: "holds (h'\<lparr>fresh := n\<rparr>) p xs = holds h' p xs" for n p xs by (induction xs arbitrary: p) auto
  have "owned ((?f, x) # rs) (h'\<lparr>fresh := Suc ?f\<rparr>)"
    using h'(5,6) c(2) x(2) tag_invD(3,4) [OF h'(2)] by (force simp: owned_def)
  moreover have "tag_inv (h'\<lparr>fresh := Suc ?f\<rparr>) (add_mset (td_next d) P)" using inv_fresh [OF h'(2)] h'(6) by simp
  moreover have "attach ((?f, x) # rs) (td_next d) (h'\<lparr>fresh := Suc ?f\<rparr>) = attach rs ?f (?g h')" by (simp add: x(1) [symmetric])
  ultimately have "zipper h0 P (attach rs ?f (?g h')) ((?f, x) # rs) (td_next d) (h'\<lparr>fresh := Suc ?f\<rparr>) ys"
    using h'(3,4) by (simp add: zipper_def e frames_def)
  moreover have "\<forall>n. cells (h'\<lparr>fresh := Suc ?f\<rparr>) (td_next d) = Some n \<longrightarrow> 1 < td_count n" using h'(7) by simp
  ultimately show ?thesis using 2 3(1) 4 by blast
qed


section \<open>The operations\<close>

lemma value_of_simps [simp]: "value_of (d\<lparr>td_count := n\<rparr>) = value_of d" "fst (value_of d) = td_tid d" "snd (value_of d) = td_data d"
  by (simp_all add: value_of_def)

lemma passed_simps [simp]: "passed [] = []" "passed ((a, d) # rs) = passed rs @ [value_of d]"
  by (simp_all add: passed_def)

lemma prev_link_Cons [simp]: "prev_link ((a, d) # rs) = CellNext a"
  by (simp add: prev_link_def)

text \<open>The search ends at the end of the list, at a shared cell or at the tag.\<close>

lemma cow_search_ok:
  assumes "zipper h0 P (m, H) rs cur h ys"
  shows "\<exists>rs' cur' h' pre ys'. cow_search tid (prev_link rs) cur H = Some (prev_link rs', cur') \<and> zipper h0 P (m, H) rs' cur' h' ys' \<and>
    ys = pre @ ys' \<and> passed rs' = passed rs @ pre \<and> tid \<notin> fst ` set pre \<and>
    (\<forall>d. cur' \<noteq> nullptr \<and> cells H cur' = Some d \<longrightarrow> 1 < td_count d \<or> td_tid d = tid)"
  using assms
proof (induction ys arbitrary: rs cur h)
  case Nil
  then have "cur = nullptr" by (simp add: zipper_def)
  then show ?case using Nil by (subst cow_search.simps) fastforce
next
  case (Cons v ys)
  have c: "cur \<noteq> nullptr" using Cons.prems by (simp add: zipper_def)
  obtain d where d: "cells h cur = Some d" "cells H cur = Some d" "v = value_of d" using zipper_cell [OF Cons.prems c] by auto
  show ?case
  proof (cases "1 < td_count d \<or> td_tid d = tid")
    case True
    then have "cow_search tid (prev_link rs) cur H = Some (prev_link rs, cur)" using c d by (subst cow_search.simps) simp
    then show ?thesis using Cons.prems True d by (intro exI [of _ rs] exI [of _ cur] exI [of _ h] exI [of _ "[]"] exI [of _ "v # ys"]) auto
  next
    case False
    then have z: "zipper h0 P (m, H) ((cur, d) # rs) (td_next d) (free_cell cur h) ys" using zipper_move [OF Cons.prems d(1)] by simp
    have s: "cow_search tid (prev_link rs) cur H = cow_search tid (CellNext cur) (td_next d) H"
      using c d False by (subst cow_search.simps) simp
    obtain rs' cur' h' pre ys' where r: "cow_search tid (CellNext cur) (td_next d) H = Some (prev_link rs', cur')"
      "zipper h0 P (m, H) rs' cur' h' ys'" "ys = pre @ ys'" "passed rs' = passed ((cur, d) # rs) @ pre" "tid \<notin> fst ` set pre"
      "\<forall>d. cur' \<noteq> nullptr \<and> cells H cur' = Some d \<longrightarrow> 1 < td_count d \<or> td_tid d = tid"
      using Cons.IH [OF z] by auto
    then show ?thesis using s d(3) False
      by (intro exI [of _ rs'] exI [of _ cur'] exI [of _ h'] exI [of _ "v # pre"] exI [of _ ys']) auto
  qed
qed

lemma attach_holds: "owned rs h \<Longrightarrow> holds h p xs \<Longrightarrow> holds (snd (attach rs cur h)) p xs"
proof (induction rs cur h rule: attach.induct)
  case (2 a d rs cur h)
  have "owned rs (put_cell a (d\<lparr>td_next := cur\<rparr>) h)" using "2.prems"(1) by (force simp: owned_def)
  moreover have "cells h a = None" using "2.prems"(1) by (simp add: owned_def)
  ultimately show ?case using 2 holds_new by simp
qed simp

lemma holds_zipper: "zipper h0 P (m, H) rs cur h ys \<Longrightarrow> holds H cur ys"
  using attach_holds [of rs h cur ys cur] by (auto simp: zipper_def)

lemma cow_exists_eq: "holds H p xs \<Longrightarrow> cow_exists tid p H = Some (tid \<in> fst ` set xs)"
proof (induction xs arbitrary: p)
  case (Cons x xs)
  then obtain d where "cells H p = Some d" "p \<noteq> nullptr" "x = value_of d" "holds H (td_next d) xs" by auto
  then show ?case using Cons.IH [of "td_next d"] by (subst cow_exists.simps) auto
qed (simp add: cow_exists.simps)

lemma find_tag_eq: "holds H p xs \<Longrightarrow> find_tag tid p H = Some (map_of xs tid)"
proof (induction xs arbitrary: p)
  case (Cons x xs)
  then obtain d where "cells H p = Some d" "p \<noteq> nullptr" "x = value_of d" "holds H (td_next d) xs" by auto
  then show ?case using Cons.IH [of "td_next d"] by (subst find_tag.simps) (auto simp: value_of_def)
qed (simp add: find_tag.simps)

lemma cow_copy_ok:
  assumes "zipper h0 P (m, H) rs cur h ys" and "cells h cur = Some d" and "1 < td_count d" and "tid \<in> fst ` set ys"
  shows "\<exists>rs' cur' m' H' h' pre v ys' d'. cow_copy tid (prev_link rs) cur m H = Some (prev_link rs', cur', m', H') \<and>
    zipper h0 P (m', H') rs' cur' h' (v # ys') \<and> ys = pre @ v # ys' \<and> passed rs' = passed rs @ pre \<and> tid \<notin> fst ` set pre \<and>
    fst v = tid \<and> cells h' cur' = Some d' \<and> 1 < td_count d'"
  using assms
proof (induction ys arbitrary: m H rs cur h d)
  case (Cons v ys)
  have c: "cur \<noteq> nullptr" using Cons.prems(1) by (simp add: zipper_def)
  have d: "cells H cur = Some d" "v = value_of d" "cell_ok d (td_count d)" "holds h (td_next d) ys"
    using zipper_cell [OF Cons.prems(1) c] Cons.prems(2) by auto
  show ?case
  proof (cases "td_tid d = tid")
    case True
    then have "cow_copy tid (prev_link rs) cur m H = Some (prev_link rs, cur, m, H)" using d(1) by (subst cow_copy.simps) simp
    then show ?thesis using Cons.prems True d
      by (intro exI [of _ rs] exI [of _ cur] exI [of _ m] exI [of _ H] exI [of _ h] exI [of _ "[]"] exI [of _ v] exI [of _ ys] exI [of _ d]) auto
  next
    case False
    let ?x = "d\<lparr>td_count := 1\<rparr>" and ?H = "put_cell cur (d\<lparr>td_count := td_count d - 1\<rparr>) H"
    have x: "td_next ?x = td_next d" "cell_ok ?x 1" using d(3) by (simp_all add: cell_ok_def)
    obtain copy H1 H2 m3 H3 h' where r: "CreateTagData ?x ?H = Some (copy, H1)" "add_link (td_next d) H1 = Some H2"
      "set_link (prev_link rs) copy (m, H2) = Some (m3, H3)" "zipper h0 P (m3, H3) ((copy, ?x) # rs) (td_next d) h' ys"
      "\<forall>n. cells h' (td_next d) = Some n \<longrightarrow> 1 < td_count n"
      using zipper_divert [OF Cons.prems(1,2,3) x] by (metis surj_pair)
    have t: "tid \<in> fst ` set ys" using Cons.prems(4) False d(2) by auto
    then have n: "td_next d \<noteq> nullptr" using d(4) by (cases "td_next d = nullptr") auto
    then obtain n0 where n0: "cells H1 (td_next d) = Some n0" "H2 = put_cell (td_next d) (n0\<lparr>td_count := td_count n0 + 1\<rparr>) H1"
      using r(2) by (auto simp: add_link_def bind_eq_Some_conv)
    have s: "cow_copy tid (prev_link rs) cur m H = cow_copy tid (CellNext copy) (td_next d) m3 H3"
      using d(1) False Cons.prems(3) r(1,3) n0 by (subst cow_copy.simps) simp
    obtain d1 where d1: "cells h' (td_next d) = Some d1" using zipper_cell [OF r(4) n] by auto
    obtain rs' cur' m' H' h'' pre v' ys' d' where "cow_copy tid (CellNext copy) (td_next d) m3 H3 = Some (prev_link rs', cur', m', H')"
      "zipper h0 P (m', H') rs' cur' h'' (v' # ys')" "ys = pre @ v' # ys'" "passed rs' = passed ((copy, ?x) # rs) @ pre" "tid \<notin> fst ` set pre"
      "fst v' = tid" "cells h'' cur' = Some d'" "1 < td_count d'"
      using Cons.IH [OF r(4) d1 _ t] r(5) d1 by auto
    then show ?thesis using s d(2) False
      by (intro exI [of _ rs'] exI [of _ cur'] exI [of _ m'] exI [of _ H'] exI [of _ h''] exI [of _ "v # pre"] exI [of _ v'] exI [of _ ys'] exI [of _ d']) auto
  qed
qed simp


text \<open>What an operation leaves: the list \<open>xs\<close> and all other lists as they were.\<close>

definition leaves :: "tag_heap \<Rightarrow> addr multiset \<Rightarrow> addr \<times> tag_heap \<Rightarrow> tag_value list \<Rightarrow> bool" where
  "leaves h P l xs \<longleftrightarrow> tag_inv (snd l) (add_mset (fst l) P) \<and> holds (snd l) (fst l) xs \<and> frames P h (snd l)"

lemma zipper_leaves: "zipper h0 P l rs cur h ys \<Longrightarrow> leaves h0 P l (passed rs @ ys)"
  using zipper_end [of h0 P "fst l" "snd l"] by (simp add: leaves_def)

lemma first_unique:
  "k \<notin> fst ` set xs \<Longrightarrow> k \<notin> fst ` set ys \<Longrightarrow> fst v = k \<Longrightarrow> fst w = k \<Longrightarrow> xs @ v # us = ys @ w # vs \<Longrightarrow> xs = ys \<and> v = w \<and> us = vs"
proof (induction xs arbitrary: ys)
  case (Cons x xs)
  then show ?case by (cases ys) auto
qed (auto simp: Cons_eq_append_conv)

text \<open>COWTraverse with a writer that does its work at a cell of its own and at a shared one.\<close>

definition writes :: "(bool \<Rightarrow> addr \<Rightarrow> link \<Rightarrow> addr \<times> tag_heap \<Rightarrow> ('r \<times> addr \<times> tag_heap) option) \<Rightarrow> tag_value \<Rightarrow> 'r \<Rightarrow> tag_value list \<Rightarrow> bool" where
  "writes Writer v r vs \<longleftrightarrow>
     (\<forall>h0 P l rs cur h d ys. zipper h0 P l rs cur h (v # ys) \<and> cells h cur = Some d \<longrightarrow>
        (\<exists>l'. Writer (td_count d \<le> 1) cur (prev_link rs) l = Some (r, l') \<and> leaves h0 P l' (passed rs @ vs @ ys)))"

lemma COWTraverse_found:
  assumes i: "tag_inv h (add_mset m P)" and xs: "holds h m (pre @ (tid, bs) # ys)" and pre: "tid \<notin> fst ` set pre"
    and w: "writes Writer (tid, bs) r vs"
  shows "\<exists>l'. COWTraverse tid Writer (m, h) = Some (Some r, l') \<and> leaves h P l' (pre @ vs @ ys)"
proof -
  let ?v = "(tid, bs)"
  have m: "m \<noteq> nullptr" using xs by (cases "m = nullptr") auto
  obtain rs cur h1 pre1 ys1 where s: "cow_search tid ListNext m h = Some (prev_link rs, cur)" "zipper h P (m, h) rs cur h1 ys1"
    "pre @ ?v # ys = pre1 @ ys1" "passed rs = pre1" "tid \<notin> fst ` set pre1"
    "\<forall>d. cur \<noteq> nullptr \<and> cells h cur = Some d \<longrightarrow> 1 < td_count d \<or> td_tid d = tid"
    using cow_search_ok [OF zipper_start [OF i xs], of tid] by (auto simp: prev_link_def)
  obtain mid where mid: "pre = pre1 @ mid" "ys1 = mid @ ?v # ys"
    using s(3,5) by (auto simp: append_eq_append_conv2 Cons_eq_append_conv)
  have c: "cur \<noteq> nullptr" using s(2) mid(2) by (cases "cur = nullptr") (auto simp: zipper_def)
  obtain d where d: "cells h1 cur = Some d" "cells h cur = Some d" "\<exists>zs. ys1 = value_of d # zs" using zipper_cell [OF s(2) c] by auto
  show ?thesis
  proof (cases "td_count d \<le> 1")
    case True
    then have "td_tid d = tid" using s(6) c d(2) by auto
    then have "mid = []" using d(3) mid pre by (cases mid) (auto simp: value_of_def)
    then have z: "zipper h P (m, h) rs cur h1 (?v # ys)" using s(2) mid by simp
    obtain l' where "Writer True cur (prev_link rs) (m, h) = Some (r, l')" "leaves h P l' (passed rs @ vs @ ys)"
      using w z d(1) True unfolding writes_def by (metis (full_types))
    then show ?thesis using s(1,4) mid \<open>mid = []\<close> m c d True by (auto simp: COWTraverse_def)
  next
    case False
    have e: "cow_exists tid cur h = Some True" using cow_exists_eq [OF holds_zipper [OF s(2)], of tid] mid by auto
    obtain rs' cur' m' H' h' pre2 v ys2 d' where k: "cow_copy tid (prev_link rs) cur m h = Some (prev_link rs', cur', m', H')"
      "zipper h P (m', H') rs' cur' h' (v # ys2)" "ys1 = pre2 @ v # ys2" "passed rs' = passed rs @ pre2" "tid \<notin> fst ` set pre2"
      "fst v = tid" "cells h' cur' = Some d'" "1 < td_count d'"
      using cow_copy_ok [OF s(2) d(1), of tid] False mid(2) by auto
    have "pre2 = mid \<and> v = ?v \<and> ys2 = ys"
      using first_unique [of tid pre2 mid v ?v ys2 ys] k(3,5,6) mid pre by auto
    then have z: "zipper h P (m', H') rs' cur' h' (?v # ys)" "passed rs' = pre" using k(2,4) s(4) mid(1) by simp_all
    obtain l' where "Writer False cur' (prev_link rs') (m', H') = Some (r, l')" "leaves h P l' (passed rs' @ vs @ ys)"
      using w z(1) k(7,8) unfolding writes_def by (metis (full_types) leD)
    moreover have "cells H' cur' = Some d'" using zipper_apart(4) [OF k(2)] k(7) by simp
    ultimately show ?thesis using s(1) z m c d False e k(1,8) by (auto simp: COWTraverse_def)
  qed
qed

lemma COWTraverse_absent:
  assumes i: "tag_inv h (add_mset m P)" and xs: "holds h m xs" and t: "tid \<notin> fst ` set xs"
  shows "COWTraverse tid Writer (m, h) = Some (None, m, h)"
proof (cases "m = nullptr")
  case False
  obtain rs cur h1 pre ys where s: "cow_search tid ListNext m h = Some (prev_link rs, cur)" "zipper h P (m, h) rs cur h1 ys" "xs = pre @ ys"
    "\<forall>d. cur \<noteq> nullptr \<and> cells h cur = Some d \<longrightarrow> 1 < td_count d \<or> td_tid d = tid"
    using cow_search_ok [OF zipper_start [OF i xs], of tid] by (auto simp: prev_link_def)
  have e: "cow_exists tid cur h = Some False" using cow_exists_eq [OF holds_zipper [OF s(2)], of tid] s(3) t by auto
  show ?thesis
  proof (cases "cur = nullptr")
    case c: False
    obtain d where d: "cells h cur = Some d" "\<exists>zs. ys = value_of d # zs" using zipper_cell [OF s(2) c] by auto
    then have "td_tid d \<noteq> tid" using s(3) t by (auto simp: value_of_def)
    then show ?thesis using s(1,4) c d False e by (auto simp: COWTraverse_def)
  qed (use s(1) False in \<open>simp add: COWTraverse_def\<close>)
qed (simp add: COWTraverse_def)


subsection \<open>Remove, Replace, Add\<close>

lemma RemoveWriter_writes: "writes RemoveWriter (tid, bs) bs []"
proof -
  have "\<exists>l'. RemoveWriter (td_count d \<le> 1) cur (prev_link rs) l = Some (bs, l') \<and> leaves h0 P l' (passed rs @ ys)"
    if z: "zipper h0 P l rs cur h ((tid, bs) # ys)" and d: "cells h cur = Some d" for h0 P l rs cur h d ys
  proof -
    have b: "cells (snd l) cur = Some d" "td_data d = bs"
      using zipper_apart(4) [OF z] d zipper_cell [OF z] z by (auto simp: zipper_def value_of_def)
    show ?thesis
    proof (cases "td_count d \<le> 1")
      case True
      obtain m H where "set_link (prev_link rs) (td_next d) l = Some (m, H)" "zipper h0 P (m, free_cell cur H) rs (td_next d) (free_cell cur h) ys"
        using zipper_drop [OF z d True] by blast
      then show ?thesis using True b zipper_leaves by (fastforce simp: RemoveWriter_def)
    next
      case False
      obtain m H H' h' where "set_link (prev_link rs) (td_next d) l = Some (m, H)" "cells H cur = Some d"
        "add_link (td_next d) (put_cell cur (d\<lparr>td_count := td_count d - 1\<rparr>) H) = Some H'" "zipper h0 P (m, H') rs (td_next d) h' ys"
        using zipper_skip [OF z d] False by auto
      then show ?thesis using False b zipper_leaves by (fastforce simp: RemoveWriter_def)
    qed
  qed
  then show ?thesis unfolding writes_def append_Nil append_Cons by blast
qed

lemma ReplaceWriter_writes:
  assumes t: "length (tg_bytes tag) = length bs" "length bs < 2 ^ 32 - 1"
  shows "writes (ReplaceWriter tag) (tg_tid tag, bs) () [(tg_tid tag, tg_bytes tag)]"
proof -
  have "\<exists>l'. ReplaceWriter tag (td_count d \<le> 1) cur (prev_link rs) l = Some ((), l') \<and> leaves h0 P l' (passed rs @ (tg_tid tag, tg_bytes tag) # ys)"
    if z: "zipper h0 P l rs cur h ((tg_tid tag, bs) # ys)" and d: "cells h cur = Some d" for h0 P l rs cur h d ys
  proof -
    obtain m H where l: "l = (m, H)" by (cases l)
    note z = z [unfolded l]
    have b: "cells H cur = Some d" "td_data d = bs" "td_tid d = tg_tid tag" "cell_ok d (td_count d)"
      using zipper_apart(4) [OF z] d zipper_cell [OF z] z by (auto simp: zipper_def value_of_def)
    show ?thesis
    proof (cases "td_count d \<le> 1")
      case True
      let ?x = "d\<lparr>td_data := tg_bytes tag\<rparr>"
      have x: "serialize_into tag d = Some ?x" "cell_ok ?x 1" "value_of ?x = (tg_tid tag, tg_bytes tag)"
        using b t True by (auto simp: serialize_into_def cell_ok_def value_of_def)
      have "zipper h0 P (m, put_cell cur ?x H) rs cur (put_cell cur ?x h) ((tg_tid tag, tg_bytes tag) # ys)"
        using zipper_write [OF z d True _ x(2)] x(3) by simp
      then show ?thesis using True b x(1) zipper_leaves l by (fastforce simp: ReplaceWriter_def)
    next
      case False
      let ?x = "\<lparr>td_next = td_next d, td_count = 1, td_tid = tg_tid tag, td_size = length (tg_bytes tag), td_data = tg_bytes tag\<rparr>"
      have x: "td_next ?x = td_next d" "cell_ok ?x 1" "value_of ?x = (tg_tid tag, tg_bytes tag)" using t by (simp_all add: cell_ok_def value_of_def)
      obtain copy H1 H2 l' h' where r: "CreateTagData ?x (put_cell cur (d\<lparr>td_count := td_count d - 1\<rparr>) H) = Some (copy, H1)"
        "add_link (td_next d) H1 = Some H2" "set_link (prev_link rs) copy (m, H2) = Some l'" "zipper h0 P l' ((copy, ?x) # rs) (td_next d) h' ys"
        using zipper_divert [OF z d _ x(1,2)] False by auto
      have "leaves h0 P l' (passed rs @ (tg_tid tag, tg_bytes tag) # ys)" using zipper_leaves [OF r(4)] x(3) by simp
      then show ?thesis using False b(1) r(1-3) l by (cases l') (simp add: ReplaceWriter_def)
    qed
  qed
  then show ?thesis unfolding writes_def append_Nil append_Cons by blast
qed

lemma first_split:
  assumes "map_of xs k = Some v"
  shows "\<exists>pre ys. xs = pre @ (k, v) # ys \<and> k \<notin> fst ` set pre"
  using assms
proof (induction xs)
  case (Cons x xs)
  show ?case
  proof (cases "fst x = k")
    case True
    then show ?thesis using Cons.prems by (intro exI [of _ "[]"] exI [of _ xs]) (cases x, auto)
  next
    case False
    then obtain pre ys where "xs = pre @ (k, v) # ys" "k \<notin> fst ` set pre" using Cons by (cases x) auto
    then show ?thesis using False by (intro exI [of _ "x # pre"] exI [of _ ys]) auto
  qed
qed simp

text \<open>The specification: the first tag of the type leaves the list, or gets other bytes.\<close>

fun without_tag :: "u16 \<Rightarrow> tag_value list \<Rightarrow> tag_value list" where
  "without_tag tid [] = []"
| "without_tag tid (x # xs) = (if fst x = tid then xs else x # without_tag tid xs)"

fun with_tag :: "tag_value \<Rightarrow> tag_value list \<Rightarrow> tag_value list" where
  "with_tag v [] = []"
| "with_tag v (x # xs) = (if fst x = fst v then v # xs else x # with_tag v xs)"

lemma tag_spec_split:
  "tid \<notin> fst ` set pre \<Longrightarrow> without_tag tid (pre @ (tid, b) # ys) = pre @ ys"
  "tid \<notin> fst ` set pre \<Longrightarrow> with_tag (tid, c) (pre @ (tid, b) # ys) = pre @ (tid, c) # ys"
  by (induction pre) auto

lemma Remove_ok:
  assumes "tag_inv h (add_mset m P)" and "holds h m xs"
  shows "\<exists>l'. ptl_Remove tid (m, h) = Some (map_of xs tid, l') \<and> leaves h P l' (without_tag tid xs)"
proof (cases "map_of xs tid")
  case None
  then have "without_tag tid xs = xs" by (induction xs) (auto split: if_splits)
  moreover have "tid \<notin> fst ` set xs" using None by (simp add: map_of_eq_None_iff)
  ultimately show ?thesis using COWTraverse_absent [OF assms, of tid RemoveWriter] None assms by (auto simp: ptl_Remove_def leaves_def frames_def)
next
  case (Some bs)
  then obtain pre ys where "xs = pre @ (tid, bs) # ys" "tid \<notin> fst ` set pre" using first_split by metis
  then show ?thesis
    using COWTraverse_found [OF assms(1) _ _ RemoveWriter_writes, of pre tid bs ys] assms(2) Some by (simp add: ptl_Remove_def tag_spec_split)
qed

lemma Add_ok:
  assumes i: "tag_inv h (add_mset m P)" and xs: "holds h m xs" and t: "map_of xs (tg_tid tag) = None" "length (tg_bytes tag) < 2 ^ 32 - 1"
  shows "\<exists>l'. ptl_Add tag (m, h) = Some l' \<and> leaves h P l' ((tg_tid tag, tg_bytes tag) # xs)"
proof -
  let ?x = "\<lparr>td_next = m, td_count = 1, td_tid = tg_tid tag, td_size = length (tg_bytes tag), td_data = tg_bytes tag\<rparr>"
  let ?h = "h\<lparr>fresh := Suc (fresh h)\<rparr>"
  have f: "cells h (fresh h) = None" "0 < fresh h" using tag_invD(3,4) [OF i] by auto
  have e: "holds ?h p ys = holds h p ys" for p ys by (induction ys arbitrary: p) auto
  have n: "cells ?h (fresh h) = None" using f(1) by simp
  have "ptl_Add tag (m, h) = Some (fresh h, put_cell (fresh h) ?x ?h)"
    using find_tag_eq [OF xs] t by (simp add: ptl_Add_def CreateTagData_def)
  moreover have "tag_inv (put_cell (fresh h) ?x ?h) (add_mset (fresh h) P)"
    by (rule inv_front [OF inv_fresh [OF i]]) (use f t(2) in \<open>simp_all add: cell_ok_def\<close>)
  moreover have "holds (put_cell (fresh h) ?x ?h) (fresh h) ((tg_tid tag, tg_bytes tag) # xs)"
    using holds_new [OF n] xs e f(2) by (simp add: value_of_def)
  moreover have "frames P h (put_cell (fresh h) ?x ?h)" using holds_new [OF n] e by (simp add: frames_def)
  ultimately show ?thesis by (simp add: leaves_def)
qed

lemma Replace_ok:
  assumes i: "tag_inv h (add_mset m P)" and xs: "holds h m xs" and t: "length (tg_bytes tag) < 2 ^ 32 - 1"
    and same: "\<And>bs. map_of xs (tg_tid tag) = Some bs \<Longrightarrow> length (tg_bytes tag) = length bs"
  shows "\<exists>l'. ptl_Replace tag (m, h) = Some (map_of xs (tg_tid tag) \<noteq> None, l') \<and>
    leaves h P l' (if map_of xs (tg_tid tag) = None then (tg_tid tag, tg_bytes tag) # xs else with_tag (tg_tid tag, tg_bytes tag) xs)"
proof (cases "map_of xs (tg_tid tag)")
  case None
  then show ?thesis
    using COWTraverse_absent [OF i xs, of "tg_tid tag" "ReplaceWriter tag"] Add_ok [OF i xs None t] by (auto simp: ptl_Replace_def map_of_eq_None_iff)
next
  case (Some bs)
  then obtain pre ys where p: "xs = pre @ (tg_tid tag, bs) # ys" "tg_tid tag \<notin> fst ` set pre" using first_split by metis
  have "length (tg_bytes tag) = length bs" "length bs < 2 ^ 32 - 1" using same [OF Some] t by simp_all
  then obtain l' where "COWTraverse (tg_tid tag) (ReplaceWriter tag) (m, h) = Some (Some (), l')"
    "leaves h P l' (pre @ [(tg_tid tag, tg_bytes tag)] @ ys)"
    using COWTraverse_found [OF i _ p(2) ReplaceWriter_writes, of bs ys] xs p(1) by blast
  then show ?thesis using Some p by (cases l') (simp add: ptl_Replace_def tag_spec_split)
qed


subsection \<open>Copies and destruction\<close>

lemma tags_copy_ok:
  assumes "tag_inv h P" and "holds h p xs"
  shows "\<exists>l'. ptl_copy p h = Some l' \<and> leaves h P l' xs"
  using add_link_ok [OF assms] assms(2) by (auto simp: ptl_copy_def leaves_def frames_def)

text \<open>The loop of RemoveAll, with the cell \<open>prev\<close> that nothing links to any more.\<close>

lemma put_free: "put_cell a x (free_cell b h) = free_cell b (put_cell a x h)" if "a \<noteq> b"
  using put_commute(2) [of b a x h] that by simp

lemma free_prev_simps [simp]:
  "b \<noteq> prev \<Longrightarrow> cells (free_prev prev h) b = cells h b" "a \<noteq> prev \<Longrightarrow> put_cell a x (free_prev prev h) = free_prev prev (put_cell a x h)"
  by (simp_all add: free_prev_def put_free)

lemma remove_loop_ok:
  assumes "tag_inv (free_prev prev h) (add_mset cur P)" and "holds (free_prev prev h) cur xs" and "prev = nullptr \<or> prev \<noteq> cur"
  shows "\<exists>h'. remove_loop prev cur h = Some h' \<and> tag_inv h' P \<and> frames P (free_prev prev h) h'"
  using assms
proof (induction xs arbitrary: prev cur h)
  case Nil
  then show ?case by (subst remove_loop.simps) (simp add: frames_def)
next
  case (Cons x xs)
  let ?h = "free_prev prev h"
  have c: "cur \<noteq> nullptr" "cur \<noteq> prev" using Cons.prems by auto
  obtain d where d: "cells ?h cur = Some d" "holds ?h (td_next d) xs" using Cons.prems(2) by auto
  then have dh: "cells h cur = Some d" using c by simp
  let ?h1 = "free_prev prev (put_cell cur (d\<lparr>td_count := td_count d - 1\<rparr>) h)"
  have e: "?h1 = put_cell cur (d\<lparr>td_count := td_count d - 1\<rparr>) ?h" using c by simp
  show ?case
  proof (cases "0 < td_count d - 1")
    case True
    then have "remove_loop prev cur h = Some ?h1" using c dh by (subst remove_loop.simps) simp
    moreover have "tag_inv ?h1 P" unfolding e by (rule inv_unshare [OF Cons.prems(1) d(1)]) (use True in simp)
    moreover have "frames P ?h ?h1" unfolding e frames_def using d(1) by simp
    ultimately show ?thesis by blast
  next
    case False
    have f: "free_prev cur ?h1 = free_cell cur ?h" using c unfolding e by (simp add: free_prev_def free_cell_def put_cell_def)
    have i: "tag_inv (free_prev cur ?h1) (add_mset (td_next d) P)" unfolding f by (rule inv_take(1) [OF Cons.prems(1) d(1)]) (use False in simp)
    have k: "p \<in># add_mset (td_next d) P \<Longrightarrow> holds ?h p ys \<Longrightarrow> holds (free_prev cur ?h1) p ys" for p ys
      unfolding f using inv_take(2) [OF Cons.prems(1) d(1)] False by simp
    have "cur \<noteq> td_next d"
    proof
      assume "cur = td_next d"
      then have "holds (free_prev cur ?h1) cur xs" using k [of cur xs] d(2) by simp
      then show False unfolding f using c by (cases xs) auto
    qed
    then obtain h' where h': "remove_loop cur (td_next d) ?h1 = Some h'" "tag_inv h' P" "frames P (free_prev cur ?h1) h'"
      using Cons.IH [OF i] k [OF _ d(2)] by auto
    moreover have "remove_loop prev cur h = remove_loop cur (td_next d) ?h1" using c dh False by (subst remove_loop.simps) simp
    moreover have "frames P ?h h'" using k h'(3) by (auto simp: frames_def)
    ultimately show ?thesis by auto
  qed
qed

lemma tags_destroy_ok:
  assumes "tag_inv h (add_mset m P)"
  shows "\<exists>h'. ptl_destroy m h = Some h' \<and> ptl_RemoveAll (m, h) = Some (nullptr, h') \<and> tag_inv h' P \<and> frames P h h'"
proof -
  obtain xs where "holds h m xs" using tag_invD(8) [OF assms] by auto
  then show ?thesis using remove_loop_ok [of nullptr h m P xs] assms by (auto simp: free_prev_def ptl_destroy_def ptl_RemoveAll_def)
qed

lemma tags_assign_ok:
  assumes i: "tag_inv h (add_mset m P)" and q: "q \<in># P" and xs: "holds h q xs"
  shows "\<exists>l'. ptl_assign m q h = Some l' \<and> leaves h P l' xs"
proof (cases "m = q")
  case True
  then show ?thesis using i xs by (auto simp: ptl_assign_def leaves_def frames_def)
next
  case False
  obtain h' where h': "ptl_RemoveAll (m, h) = Some (nullptr, h')" "tag_inv h' P" "frames P h h'" using tags_destroy_ok [OF i] by blast
  then have "holds h' q xs" using q xs by (auto simp: frames_def)
  then obtain l' where "ptl_copy q h' = Some l'" "leaves h' P l' xs" using tags_copy_ok [OF h'(2)] by blast
  then show ?thesis using False h' by (auto simp: ptl_assign_def leaves_def frames_def)
qed

text \<open>Without lists there are no cells.\<close>

lemma inv_empty:
  assumes "tag_inv h {#}"
  shows "cells h = Map.empty"
proof (rule ccontr)
  assume "cells h \<noteq> Map.empty"
  note f = tag_invD [OF assms]
  define len where "len = (\<lambda>a. length (THE xs. holds h a xs))"
  have len: "len a = length xs" if "holds h a xs" for a xs
    unfolding len_def using that holds_unique by (metis (no_types, lifting) the_equality)
  have "dom (cells h) \<noteq> {}" using \<open>cells h \<noteq> Map.empty\<close> by auto
  then have "Max (len ` dom (cells h)) \<in> len ` dom (cells h)" using f(1) by (intro Max_in) auto
  then obtain a where a: "a \<in> dom (cells h)" "len a = Max (len ` dom (cells h))" by (metis imageE)
  obtain d where d: "cells h a = Some d" using a(1) by auto
  have "0 < count (next_links h) a" using f(6) [OF d] by (simp add: cell_ok_def)
  then obtain b e where b: "cells h b = Some e" "td_next e = a" using f(1) by (auto simp: next_links_def)
  obtain xs where xs: "holds h b xs" using f(7) [OF b(1)] by blast
  have "b \<noteq> nullptr" using b(1) f(2) by (metis option.distinct(1))
  then obtain ys where "xs = value_of e # ys" "holds h a ys" using xs b by (auto simp: holds_cell)
  then have "len a < len b" using len [OF xs] len [of a ys] by simp
  moreover have "len b \<le> len a" unfolding a(2) using b(1) f(1) by (intro Max_ge) auto
  ultimately show False by simp
qed

end
