(* ===== verification/Tag_Pool.thy ===== *)
theory Tag_Pool
  imports Tag_Sharing
begin

text \<open>
  The refinement theorem of the packet tags: the lists of any number of packets, which share their cells,
  behave as independent lists, whatever the order of the operations, and no cell is leaked.
\<close>

section \<open>Operations on the lists of many packets\<close>

datatype tag_op =
    TagNew
  | TagCopy nat
  | TagAssign nat nat
  | TagDestroy nat
  | TagAdd nat Tag
  | TagRemove nat u16
  | TagReplace nat Tag
  | TagPeek nat u16
  | TagRemoveAll nat

text \<open>What an operation tells its caller.\<close>

datatype tag_answer = NoAnswer | FoundTag "u8 list option" | Replaced bool

fun tag_step :: "tag_op \<Rightarrow> addr list \<times> tag_heap \<Rightarrow> (tag_answer \<times> addr list \<times> tag_heap) option" where
  "tag_step TagNew (ms, h) = Some (NoAnswer, ms @ [nullptr], h)"
| "tag_step (TagCopy i) (ms, h) = do { (m, h) \<leftarrow> ptl_copy (ms ! i) h; Some (NoAnswer, ms @ [m], h) }"
| "tag_step (TagAssign i j) (ms, h) = do { (m, h) \<leftarrow> ptl_assign (ms ! i) (ms ! j) h; Some (NoAnswer, ms[i := m], h) }"
| "tag_step (TagDestroy i) (ms, h) = do { h \<leftarrow> ptl_destroy (ms ! i) h; Some (NoAnswer, remove_nth i ms, h) }"
| "tag_step (TagAdd i tag) (ms, h) = do { (m, h) \<leftarrow> ptl_Add tag (ms ! i, h); Some (NoAnswer, ms[i := m], h) }"
| "tag_step (TagRemove i tid) (ms, h) = do { (r, m, h) \<leftarrow> ptl_Remove tid (ms ! i, h); Some (FoundTag r, ms[i := m], h) }"
| "tag_step (TagReplace i tag) (ms, h) = do { (r, m, h) \<leftarrow> ptl_Replace tag (ms ! i, h); Some (Replaced r, ms[i := m], h) }"
| "tag_step (TagPeek i tid) (ms, h) = do { r \<leftarrow> ptl_Peek tid (ms ! i, h); Some (FoundTag r, ms, h) }"
| "tag_step (TagRemoveAll i) (ms, h) = do { (m, h) \<leftarrow> ptl_RemoveAll (ms ! i, h); Some (NoAnswer, ms[i := m], h) }"

fun tag_run :: "tag_op list \<Rightarrow> addr list \<times> tag_heap \<Rightarrow> (tag_answer list \<times> addr list \<times> tag_heap) option" where
  "tag_run [] s = Some ([], s)"
| "tag_run (x # xs) s = do { (r, s) \<leftarrow> tag_step x s; (rs, s) \<leftarrow> tag_run xs s; Some (r # rs, s) }"

text \<open>
  The specification. A tag may be added when the list has none of its type; a tag may be replaced by one of the same size:
  the code writes the new tag over the old one when nobody shares it.
\<close>

fun tag_spec :: "tag_op \<Rightarrow> tag_value list list \<Rightarrow> (tag_answer \<times> tag_value list list) option" where
  "tag_spec TagNew xss = Some (NoAnswer, xss @ [[]])"
| "tag_spec (TagCopy i) xss = (if i < length xss then Some (NoAnswer, xss @ [xss ! i]) else None)"
| "tag_spec (TagAssign i j) xss =
     (if i < length xss \<and> j < length xss \<and> i \<noteq> j then Some (NoAnswer, xss[i := xss ! j]) else None)"
| "tag_spec (TagDestroy i) xss = (if i < length xss then Some (NoAnswer, remove_nth i xss) else None)"
| "tag_spec (TagAdd i tag) xss =
     (if i < length xss \<and> map_of (xss ! i) (tg_tid tag) = None \<and> length (tg_bytes tag) < 2 ^ 32 - 1
      then Some (NoAnswer, xss[i := (tg_tid tag, tg_bytes tag) # xss ! i]) else None)"
| "tag_spec (TagRemove i tid) xss =
     (if i < length xss then Some (FoundTag (map_of (xss ! i) tid), xss[i := without_tag tid (xss ! i)]) else None)"
| "tag_spec (TagReplace i tag) xss =
     (if i < length xss \<and> length (tg_bytes tag) < 2 ^ 32 - 1 then
        (case map_of (xss ! i) (tg_tid tag) of
           None \<Rightarrow> Some (Replaced False, xss[i := (tg_tid tag, tg_bytes tag) # xss ! i])
         | Some bs \<Rightarrow> if length bs = length (tg_bytes tag)
                      then Some (Replaced True, xss[i := with_tag (tg_tid tag, tg_bytes tag) (xss ! i)]) else None)
      else None)"
| "tag_spec (TagPeek i tid) xss = (if i < length xss then Some (FoundTag (map_of (xss ! i) tid), xss) else None)"
| "tag_spec (TagRemoveAll i) xss = (if i < length xss then Some (NoAnswer, xss[i := []]) else None)"

fun tag_spec_run :: "tag_op list \<Rightarrow> tag_value list list \<Rightarrow> (tag_answer list \<times> tag_value list list) option" where
  "tag_spec_run [] xss = Some ([], xss)"
| "tag_spec_run (x # xs) xss = do { (r, xss) \<leftarrow> tag_spec x xss; (rs, xss) \<leftarrow> tag_spec_run xs xss; Some (r # rs, xss) }"

section \<open>Refinement\<close>

definition tag_rel :: "addr list \<times> tag_heap \<Rightarrow> tag_value list list \<Rightarrow> bool" where
  "tag_rel s xss \<longleftrightarrow> tag_inv (snd s) (mset (fst s)) \<and> list_all2 (holds (snd s)) (fst s) xss"

lemma frames_all2: "frames P h h' \<Longrightarrow> set ms \<subseteq> set_mset P \<Longrightarrow> list_all2 (holds h) ms xss \<Longrightarrow> list_all2 (holds h') ms xss"
  unfolding frames_def by (metis (no_types, lifting) list.rel_mono_strong subsetD)

text \<open>One list changes; a list joins; a list leaves.\<close>

lemma rel_inv:
  assumes "tag_rel (ms, h) xss" and "i < length xss"
  shows "tag_inv h (add_mset (ms ! i) (mset (remove_nth i ms)))" "holds h (ms ! i) (xss ! i)" "i < length ms"
  using assms mset_remove_nth [of i ms] by (auto simp: tag_rel_def list_all2_conv_all_nth)

lemma rel_update:
  assumes r: "tag_rel (ms, h) xss" and i: "i < length xss" and l: "leaves h (mset (remove_nth i ms)) l xs"
  shows "tag_rel (ms[i := fst l], snd l) (xss[i := xs])"
proof -
  have "list_all2 (holds (snd l)) (ms[i := fst l]) (xss[i := xs])"
  proof (rule list_all2_all_nthI)
    show "length (ms[i := fst l]) = length (xss[i := xs])" using r by (auto simp: tag_rel_def dest: list_all2_lengthD)
    fix j assume "j < length (ms[i := fst l])"
    then show "holds (snd l) (ms[i := fst l] ! j) (xss[i := xs] ! j)"
      using r i l set_remove_nth [of i ms j] by (cases "j = i") (auto simp: tag_rel_def leaves_def frames_def list_all2_conv_all_nth)
  qed
  then show ?thesis using rel_inv(3) [OF r i] l by (simp add: tag_rel_def leaves_def mset_update_nth)
qed

lemma rel_append:
  assumes "tag_rel (ms, h) xss" and "leaves h (mset ms) l xs"
  shows "tag_rel (ms @ [fst l], snd l) (xss @ [xs])"
  using assms frames_all2 [of "mset ms" h "snd l" ms xss] by (simp add: tag_rel_def leaves_def list_all2_appendI)

lemma rel_remove:
  assumes "tag_rel (ms, h) xss" and "tag_inv h' (mset (remove_nth i ms))" and "frames (mset (remove_nth i ms)) h h'"
  shows "tag_rel (remove_nth i ms, h') (remove_nth i xss)"
  using assms frames_all2 [OF assms(3)] all2_remove_nth [of "holds h" ms xss i] by (simp add: tag_rel_def)

lemma tag_step_refines:
  assumes r: "tag_rel s xss" and x: "tag_spec x xss = Some (a, xss')"
  shows "\<exists>s'. tag_step x s = Some (a, s') \<and> tag_rel s' xss'"
proof -
  obtain ms h where s: "s = (ms, h)" by (cases s)
  note r = r [unfolded s]
  have L: "\<exists>s'. (case l of (m, h) \<Rightarrow> Some (a', ms[i := m], h)) = Some (a', s') \<and> tag_rel s' (xss[i := xs])"
    if "i < length xss" "leaves h (mset (remove_nth i ms)) l xs" for l xs i a'
    using rel_update [OF r that] by (cases l) simp
  have j: "ms ! j \<in># mset (remove_nth i ms) \<and> holds h (ms ! j) (xss ! j)" if "i < length xss" "j < length xss" "i \<noteq> j" for i j
    using set_remove_nth [of i ms j] rel_inv [OF r] that by auto
  show ?thesis
  proof (cases x)
    case TagNew
    have "leaves h (mset ms) (nullptr, h) []" using r by (simp add: leaves_def tag_rel_def frames_def)
    then show ?thesis using x s TagNew rel_append [OF r] by fastforce
  next
    case (TagCopy i)
    then have i: "i < length xss" "a = NoAnswer" "xss' = xss @ [xss ! i]" using x by (auto split: if_splits)
    obtain l where "ptl_copy (ms ! i) h = Some l" "leaves h (mset ms) l (xss ! i)"
      using tags_copy_ok [of h "mset ms", OF _ rel_inv(2) [OF r i(1)]] r unfolding tag_rel_def by auto
    then show ?thesis using s TagCopy i rel_append [OF r] by (cases l) fastforce
  next
    case (TagAssign i k)
    then have i: "i < length xss" "k < length xss" "i \<noteq> k" "a = NoAnswer" "xss' = xss[i := xss ! k]" using x by (auto split: if_splits)
    obtain l where "ptl_assign (ms ! i) (ms ! k) h = Some l" "leaves h (mset (remove_nth i ms)) l (xss ! k)"
      using tags_assign_ok [OF rel_inv(1) [OF r i(1)]] j [OF i(1-3)] by blast
    then show ?thesis using L [OF i(1), of l] i(4,5) s TagAssign by simp
  next
    case (TagDestroy i)
    then have i: "i < length xss" "a = NoAnswer" "xss' = remove_nth i xss" using x by (auto split: if_splits)
    then show ?thesis using tags_destroy_ok [OF rel_inv(1) [OF r i(1)]] rel_remove [OF r] s TagDestroy by fastforce
  next
    case (TagAdd i tag)
    then have i: "i < length xss" "map_of (xss ! i) (tg_tid tag) = None" "length (tg_bytes tag) < 2 ^ 32 - 1" "a = NoAnswer"
      "xss' = xss[i := (tg_tid tag, tg_bytes tag) # xss ! i]" using x by (auto split: if_splits)
    then show ?thesis using Add_ok [OF rel_inv(1,2) [OF r i(1)] i(2,3)] L [OF i(1)] s TagAdd by fastforce
  next
    case (TagRemove i tid)
    then have i: "i < length xss" "a = FoundTag (map_of (xss ! i) tid)" "xss' = xss[i := without_tag tid (xss ! i)]" using x by (auto split: if_splits)
    then show ?thesis using Remove_ok [OF rel_inv(1,2) [OF r i(1)], of tid] L [OF i(1)] s TagRemove by fastforce
  next
    case (TagReplace i tag)
    then have i: "i < length xss" "length (tg_bytes tag) < 2 ^ 32 - 1"
      "\<And>bs. map_of (xss ! i) (tg_tid tag) = Some bs \<Longrightarrow> length (tg_bytes tag) = length bs" "a = Replaced (map_of (xss ! i) (tg_tid tag) \<noteq> None)"
      "xss' = xss[i := if map_of (xss ! i) (tg_tid tag) = None then (tg_tid tag, tg_bytes tag) # xss ! i else with_tag (tg_tid tag, tg_bytes tag) (xss ! i)]"
      using x by (auto split: if_splits option.splits)
    then show ?thesis using Replace_ok [OF rel_inv(1,2) [OF r i(1)] i(2,3)] L [OF i(1)] s TagReplace by fastforce
  next
    case (TagPeek i tid)
    then have "i < length xss" "a = FoundTag (map_of (xss ! i) tid)" "xss' = xss" using x by (auto split: if_splits)
    then show ?thesis using find_tag_eq [OF rel_inv(2) [OF r], of i tid] r s TagPeek by (simp add: ptl_Peek_def)
  next
    case (TagRemoveAll i)
    then have i: "i < length xss" "a = NoAnswer" "xss' = xss[i := []]" using x by (auto split: if_splits)
    obtain h' where "ptl_RemoveAll (ms ! i, h) = Some (nullptr, h')" "leaves h (mset (remove_nth i ms)) (nullptr, h') []"
      using tags_destroy_ok [OF rel_inv(1) [OF r i(1)]] by (auto simp: leaves_def)
    then show ?thesis using L [OF i(1)] i s TagRemoveAll by fastforce
  qed
qed

lemma tag_run_refines:
  "tag_rel s xss \<Longrightarrow> tag_spec_run xs xss = Some (rs, xss') \<Longrightarrow> \<exists>s'. tag_run xs s = Some (rs, s') \<and> tag_rel s' xss'"
proof (induction xs arbitrary: s xss rs)
  case (Cons x xs)
  then obtain r xss1 rs1 where 1: "tag_spec x xss = Some (r, xss1)" "tag_spec_run xs xss1 = Some (rs1, xss')" "rs = r # rs1"
    by (auto simp: bind_eq_Some_conv)
  obtain s1 where "tag_step x s = Some (r, s1)" "tag_rel s1 xss1" using tag_step_refines [OF Cons.prems(1) 1(1)] by blast
  then show ?case using Cons.IH [OF _ 1(2)] 1(3) by fastforce
qed simp

definition tag_heap_init :: tag_heap where
  "tag_heap_init = \<lparr>cells = Map.empty, fresh = 1\<rparr>"

lemma tag_rel_init: "tag_rel ([], tag_heap_init) []"
  by (simp add: tag_rel_def tag_inv_def tag_heap_init_def next_links_def)

text \<open>
  C6: The packet tags of different packets are independent. Take any sequence of constructions,
  copies, assignments, destructions and changes of tag lists that the specification on plain lists
  allows (no second tag of a type is added, a tag is replaced by one of the same size). Although the lists share
  their cells, every operation succeeds and gives the answer of the specification, every list is afterwards what the
  specification says, no link dangles and every cell counts its links; and when no list is left, every
  cell has been freed.
\<close>

theorem tag_lists_independent:
  assumes "tag_spec_run xs [] = Some (answers, xss)"
  shows "\<exists>ms h. tag_run xs ([], tag_heap_init) = Some (answers, ms, h) \<and> tag_inv h (mset ms) \<and> list_all2 (holds h) ms xss \<and>
    (xss = [] \<longrightarrow> cells h = Map.empty)"
proof -
  obtain ms h where s: "tag_run xs ([], tag_heap_init) = Some (answers, ms, h)" "tag_rel (ms, h) xss"
    using tag_run_refines [OF tag_rel_init assms] by auto
  then have "cells h = Map.empty" if "xss = []" using that inv_empty [of h] by (auto simp: tag_rel_def)
  then show ?thesis using s by (auto simp: tag_rel_def)
qed

definition example_tag_ops :: "tag_op list" where
  "example_tag_ops = [TagNew, TagAdd 0 \<lparr>tg_tid = 1, tg_bytes = [10]\<rparr>, TagAdd 0 \<lparr>tg_tid = 2, tg_bytes = [20]\<rparr>, TagAdd 0 \<lparr>tg_tid = 3, tg_bytes = [30]\<rparr>,
     TagCopy 0, TagReplace 1 \<lparr>tg_tid = 2, tg_bytes = [21]\<rparr>, TagRemove 0 1, TagPeek 1 1, TagPeek 0 2, TagPeek 1 2]"

theorem tag_lists_independent_witness:
  "\<exists>ms h. tag_run example_tag_ops ([], tag_heap_init) =
     Some ([NoAnswer, NoAnswer, NoAnswer, NoAnswer, NoAnswer, Replaced True, FoundTag (Some [10]), FoundTag (Some [10]), FoundTag (Some [20]), FoundTag (Some [21])], ms, h) \<and>
     list_all2 (holds h) ms [[(3, [30]), (2, [20])], [(3, [30]), (2, [21]), (1, [10])]]"
proof -
  have "tag_spec_run example_tag_ops [] =
      Some ([NoAnswer, NoAnswer, NoAnswer, NoAnswer, NoAnswer, Replaced True, FoundTag (Some [10]), FoundTag (Some [10]), FoundTag (Some [20]), FoundTag (Some [21])],
        [[(3, [30]), (2, [20])], [(3, [30]), (2, [21]), (1, [10])]])"
    by (simp add: example_tag_ops_def)
  from tag_lists_independent [OF this] show ?thesis by blast
qed

end
