(* ===== verification/Packet_Header.thy ===== *)
theory Packet_Header
  imports Buffer_Properties
begin

text \<open>
  src/network/model/packet.cc: adding and removing a header of a packet, on the byte buffer of the
  packet. A header class is described by the interface \<open>header_codec\<close>: how many bytes it takes,
  how it is written and how it is read back. The round trip through the buffer is proved once,
  for every header class.
\<close>

section \<open>Packet::AddHeader, RemoveHeader and PeekHeader\<close>

text \<open>Deserialize is a method of a header object, which it overwrites: its first argument. It returns
  the new state of the object and the number of bytes it has read.\<close>

type_synonym 'h deserializer = "'h \<Rightarrow> Iterator \<Rightarrow> buf_heap \<Rightarrow> ('h \<times> nat) option"

definition pkt_AddHeader :: "nat \<Rightarrow> writer \<Rightarrow> Buffer \<Rightarrow> buf_heap \<Rightarrow> (Buffer \<times> buf_heap) option" where
  "pkt_AddHeader sz serialize b h =
     do { (b, h) \<leftarrow> buf_AddAtStart sz b h; (_, h) \<leftarrow> serialize (buf_Begin b) h; Some (b, h) }"

definition pkt_RemoveHeader :: "'h deserializer \<Rightarrow> 'h \<Rightarrow> Buffer \<Rightarrow> buf_heap \<Rightarrow> ('h \<times> nat \<times> Buffer) option" where
  "pkt_RemoveHeader deserialize x b h =
     do { (x, deserialized) \<leftarrow> deserialize x (buf_Begin b) h; b \<leftarrow> buf_RemoveAtStart deserialized b; Some (x, deserialized, b) }"

definition pkt_PeekHeader :: "'h deserializer \<Rightarrow> 'h \<Rightarrow> Buffer \<Rightarrow> buf_heap \<Rightarrow> ('h \<times> nat) option" where
  "pkt_PeekHeader deserialize x b h = deserialize x (buf_Begin b) h"

text \<open>The end of the Deserialize methods: the distance from the start, which must be the size.\<close>

definition deserialized :: "Iterator \<Rightarrow> ('h \<Rightarrow> nat) \<Rightarrow> ('h \<times> Iterator) option \<Rightarrow> ('h \<times> nat) option" where
  "deserialized start sz r =
     do { (x, i) \<leftarrow> r; dist \<leftarrow> it_GetDistanceFrom start i; if dist = sz x then Some (x, dist) else None }"

lemma deserialized_reads:
  assumes "reads r bs x" and "upcoming it h bs" and "sz x = length bs"
  shows "deserialized it sz (r it h) = Some (x, length bs)"
  using assms by (simp add: deserialized_def reads_def it_GetDistanceFrom_def)

section \<open>Header classes\<close>

locale header_codec =
  fixes valid :: "'h \<Rightarrow> bool"
    and GetSerializedSize :: "'h \<Rightarrow> nat"
    and Serialize :: "'h \<Rightarrow> writer"
    and Deserialize :: "'h deserializer"
    and wire :: "'h \<Rightarrow> u8 list"
  assumes size_wire: "valid x \<Longrightarrow> GetSerializedSize x = length (wire x)"
    and emits_wire: "valid x \<Longrightarrow> emits (Serialize x) (wire x)"
    and reads_wire: "valid x \<Longrightarrow> upcoming it h (wire x) \<Longrightarrow> Deserialize x0 it h = Some (x, length (wire x))"
begin

lemma add_header:
  assumes "buf_inv h (add_mset b B)" and "valid x"
  shows "\<exists>b1 h1. pkt_AddHeader (GetSerializedSize x) (Serialize x) b h = Some (b1, h1) \<and> buf_inv h1 (add_mset b1 B) \<and>
    content h1 b1 = map Some (wire x) @ content h b \<and> (\<forall>c \<in># B. content h1 c = content h c)"
  using push_front_ok [OF assms(1) emits_wire [OF assms(2)]] size_wire [OF assms(2)] by (auto simp: pkt_AddHeader_def)

lemma remove_header:
  assumes i: "buf_inv h (add_mset b B)" and v: "valid x" and c: "content h b = map Some (wire x) @ rest"
  shows "\<exists>b1. pkt_RemoveHeader Deserialize x0 b h = Some (x, GetSerializedSize x, b1) \<and> buf_inv h (add_mset b1 B) \<and> content h b1 = rest"
proof -
  have d: "Deserialize x0 (buf_Begin b) h = Some (x, length (wire x))" by (rule reads_wire [OF v content_upcoming [OF i c]])
  obtain b1 where "buf_RemoveAtStart (length (wire x)) b = Some b1" "buf_inv h (add_mset b1 B)" "content h b1 = drop (length (wire x)) (content h b)"
    using RemoveAtStart_ok [OF i] by blast
  then show ?thesis using d c size_wire [OF v] by (simp add: pkt_RemoveHeader_def)
qed

text \<open>What AddHeader puts in front of a packet, RemoveHeader takes off again.\<close>

lemma round_trip:
  assumes i: "buf_inv h (add_mset b B)" and v: "valid x"
  shows "\<exists>b1 h1 b2. pkt_AddHeader (GetSerializedSize x) (Serialize x) b h = Some (b1, h1) \<and>
    pkt_RemoveHeader Deserialize x0 b1 h1 = Some (x, GetSerializedSize x, b2) \<and> buf_inv h1 (add_mset b2 B) \<and>
    content h1 b2 = content h b \<and> (\<forall>c \<in># B. content h1 c = content h c)"
  using add_header [OF assms] remove_header [OF _ v] by metis

end

end
