(* ===== verification/Packets.thy ===== *)
theory Packets
  imports Byte_Tag_Views Tag_Pool Packet_Header
begin

text \<open>
  src/network/model/packet.cc: a packet is a byte buffer, a list of byte tags and a list of packet tags. The operations of Packet
  keep the three together. Each of them lives in a heap of its own, which the copies of a packet share. The
  metadata for printing and the NIx-vector are left out.
\<close>

section \<open>Packets\<close>

record Packet =
  pk_buffer :: Buffer
  pk_byteTagList :: ByteTagList
  pk_packetTagList :: addr

record packet_heap =
  ph_buffers :: buf_heap
  ph_byteTags :: btl_heap
  ph_tags :: tag_heap

type_synonym packet_result = "(Packet \<times> packet_heap) option"

definition pk_GetSize :: "Packet \<Rightarrow> nat" where
  "pk_GetSize p = buf_GetSize (pk_buffer p)"

definition Packet_new :: "nat \<Rightarrow> packet_heap \<Rightarrow> packet_result" where
  "Packet_new sz w =
     do { (b, hb) \<leftarrow> buf_Initialize sz (ph_buffers w);
          Some (\<lparr>pk_buffer = b, pk_byteTagList = bt_empty, pk_packetTagList = nullptr\<rparr>, w\<lparr>ph_buffers := hb\<rparr>) }"

definition Packet_data :: "u8 list \<Rightarrow> packet_heap \<Rightarrow> packet_result" where
  "Packet_data buffer w =
     do { (b, hb) \<leftarrow> buf_Initialize 0 (ph_buffers w);
          (b, hb) \<leftarrow> buf_AddAtStart (length buffer) b hb;
          (_, hb) \<leftarrow> it_Write (map Some buffer) (buf_Begin b) hb;
          Some (\<lparr>pk_buffer = b, pk_byteTagList = bt_empty, pk_packetTagList = nullptr\<rparr>, w\<lparr>ph_buffers := hb\<rparr>) }"

definition Packet_copy :: "Packet \<Rightarrow> packet_heap \<Rightarrow> packet_result" where
  "Packet_copy p w =
     do { (b, hb) \<leftarrow> buf_copy (pk_buffer p) (ph_buffers w);
          (l, ht) \<leftarrow> bt_copy (pk_byteTagList p) (ph_byteTags w);
          (m, hp) \<leftarrow> ptl_copy (pk_packetTagList p) (ph_tags w);
          Some (\<lparr>pk_buffer = b, pk_byteTagList = l, pk_packetTagList = m\<rparr>, \<lparr>ph_buffers = hb, ph_byteTags = ht, ph_tags = hp\<rparr>) }"

text \<open>\<open>p = q\<close>, for two different packets.\<close>

definition Packet_assign :: "Packet \<Rightarrow> Packet \<Rightarrow> packet_heap \<Rightarrow> packet_result" where
  "Packet_assign p q w =
     do { (b, hb) \<leftarrow> buf_assign (pk_buffer p) (pk_buffer q) (ph_buffers w);
          (l, ht) \<leftarrow> bt_assign (pk_byteTagList p) (pk_byteTagList q) (ph_byteTags w);
          (m, hp) \<leftarrow> ptl_assign (pk_packetTagList p) (pk_packetTagList q) (ph_tags w);
          Some (\<lparr>pk_buffer = b, pk_byteTagList = l, pk_packetTagList = m\<rparr>, \<lparr>ph_buffers = hb, ph_byteTags = ht, ph_tags = hp\<rparr>) }"

text \<open>The destructors of the members, the last one first.\<close>

definition Packet_destroy :: "Packet \<Rightarrow> packet_heap \<Rightarrow> packet_heap option" where
  "Packet_destroy p w =
     do { hp \<leftarrow> ptl_destroy (pk_packetTagList p) (ph_tags w);
          ht \<leftarrow> bt_destroy (pk_byteTagList p) (ph_byteTags w);
          hb \<leftarrow> buf_destroy (pk_buffer p) (ph_buffers w);
          Some \<lparr>ph_buffers = hb, ph_byteTags = ht, ph_tags = hp\<rparr> }"

section \<open>Bytes\<close>

text \<open>CreateFragment: \<open>-start\<close> is unsigned; Adjust takes it as an \<open>int32_t\<close>.\<close>

definition Packet_CreateFragment :: "nat \<Rightarrow> nat \<Rightarrow> Packet \<Rightarrow> packet_heap \<Rightarrow> packet_result" where
  "Packet_CreateFragment start len p w =
     do { (b, hb) \<leftarrow> buf_CreateFragment start len (pk_buffer p) (ph_buffers w);
          (l, ht) \<leftarrow> bt_copy (pk_byteTagList p) (ph_byteTags w);
          if start + len \<le> pk_GetSize p then
            do { (m, hp) \<leftarrow> ptl_copy (pk_packetTagList p) (ph_tags w);
                 Some (\<lparr>pk_buffer = b, pk_byteTagList = bt_Adjust (i32 (- int start)) l, pk_packetTagList = m\<rparr>,
                       \<lparr>ph_buffers = hb, ph_byteTags = ht, ph_tags = hp\<rparr>) }
          else None }"

definition Packet_AddHeader :: "nat \<Rightarrow> writer \<Rightarrow> Packet \<Rightarrow> packet_heap \<Rightarrow> packet_result" where
  "Packet_AddHeader sz serialize p w =
     do { (b, hb) \<leftarrow> buf_AddAtStart sz (pk_buffer p) (ph_buffers w);
          let l = bt_Adjust (i32 (int sz)) (pk_byteTagList p);
          (l, ht) \<leftarrow> bt_AddAtStart (i32 (int sz)) l (ph_byteTags w);
          (_, hb) \<leftarrow> serialize (buf_Begin b) hb;
          Some (p\<lparr>pk_buffer := b, pk_byteTagList := l\<rparr>, w\<lparr>ph_buffers := hb, ph_byteTags := ht\<rparr>) }"

definition Packet_RemoveHeader :: "'h deserializer \<Rightarrow> 'h \<Rightarrow> Packet \<Rightarrow> packet_heap \<Rightarrow> ('h \<times> nat \<times> Packet) option" where
  "Packet_RemoveHeader deserialize header p w =
     do { (header, deserialized) \<leftarrow> deserialize header (buf_Begin (pk_buffer p)) (ph_buffers w);
          b \<leftarrow> buf_RemoveAtStart deserialized (pk_buffer p);
          Some (header, deserialized, p\<lparr>pk_buffer := b, pk_byteTagList := bt_Adjust (i32 (- int deserialized)) (pk_byteTagList p)\<rparr>) }"

definition Packet_AddTrailer :: "nat \<Rightarrow> writer \<Rightarrow> Packet \<Rightarrow> packet_heap \<Rightarrow> packet_result" where
  "Packet_AddTrailer sz serialize p w =
     do { (l, ht) \<leftarrow> bt_AddAtEnd (i32 (int (pk_GetSize p))) (pk_byteTagList p) (ph_byteTags w);
          (b, hb) \<leftarrow> buf_AddAtEnd sz (pk_buffer p) (ph_buffers w);
          (_, hb) \<leftarrow> serialize (buf_End b) hb;
          Some (p\<lparr>pk_buffer := b, pk_byteTagList := l\<rparr>, w\<lparr>ph_buffers := hb, ph_byteTags := ht\<rparr>) }"

definition Packet_RemoveTrailer :: "'h deserializer \<Rightarrow> 'h \<Rightarrow> Packet \<Rightarrow> packet_heap \<Rightarrow> ('h \<times> nat \<times> Packet) option" where
  "Packet_RemoveTrailer deserialize trailer p w =
     do { (trailer, deserialized) \<leftarrow> deserialize trailer (buf_End (pk_buffer p)) (ph_buffers w);
          Some (trailer, deserialized, p\<lparr>pk_buffer := buf_RemoveAtEnd deserialized (pk_buffer p)\<rparr>) }"

text \<open>AddAtEnd(Ptr<const Packet>): the copy of the other list is destroyed at the end of the scope.\<close>

definition Packet_AddAtEnd :: "Packet \<Rightarrow> Packet \<Rightarrow> packet_heap \<Rightarrow> packet_result" where
  "Packet_AddAtEnd packet p w =
     do { (l, ht) \<leftarrow> bt_AddAtEnd (i32 (int (pk_GetSize p))) (pk_byteTagList p) (ph_byteTags w);
          (copy, ht) \<leftarrow> bt_copy (pk_byteTagList packet) ht;
          (copy, ht) \<leftarrow> bt_AddAtStart 0 copy ht;
          let copy = bt_Adjust (i32 (int (pk_GetSize p))) copy;
          (l, ht) \<leftarrow> bt_Add_list copy l ht;
          (b, hb) \<leftarrow> buf_AddAtEnd_buffer (pk_buffer packet) (pk_buffer p) (ph_buffers w);
          ht \<leftarrow> bt_destroy copy ht;
          Some (p\<lparr>pk_buffer := b, pk_byteTagList := l\<rparr>, w\<lparr>ph_buffers := hb, ph_byteTags := ht\<rparr>) }"

definition Packet_AddPaddingAtEnd :: "nat \<Rightarrow> Packet \<Rightarrow> packet_heap \<Rightarrow> packet_result" where
  "Packet_AddPaddingAtEnd sz p w =
     do { (l, ht) \<leftarrow> bt_AddAtEnd (i32 (int (pk_GetSize p))) (pk_byteTagList p) (ph_byteTags w);
          (b, hb) \<leftarrow> buf_AddAtEnd sz (pk_buffer p) (ph_buffers w);
          Some (p\<lparr>pk_buffer := b, pk_byteTagList := l\<rparr>, w\<lparr>ph_buffers := hb, ph_byteTags := ht\<rparr>) }"

definition Packet_RemoveAtEnd :: "nat \<Rightarrow> Packet \<Rightarrow> Packet" where
  "Packet_RemoveAtEnd sz p = p\<lparr>pk_buffer := buf_RemoveAtEnd sz (pk_buffer p)\<rparr>"

definition Packet_RemoveAtStart :: "nat \<Rightarrow> Packet \<Rightarrow> Packet option" where
  "Packet_RemoveAtStart sz p =
     do { b \<leftarrow> buf_RemoveAtStart sz (pk_buffer p);
          Some (p\<lparr>pk_buffer := b, pk_byteTagList := bt_Adjust (i32 (- int sz)) (pk_byteTagList p)\<rparr>) }"

section \<open>Tags\<close>

text \<open>A byte tag is a type with the bytes that the tag serializes.\<close>

definition Packet_AddByteTag :: "u32 \<Rightarrow> u8 list \<Rightarrow> Packet \<Rightarrow> packet_heap \<Rightarrow> packet_result" where
  "Packet_AddByteTag tid bytes p w =
     do { (l, ht) \<leftarrow> bt_Add tid bytes 0 (i32 (int (pk_GetSize p))) (pk_byteTagList p) (ph_byteTags w);
          Some (p\<lparr>pk_byteTagList := l\<rparr>, w\<lparr>ph_byteTags := ht\<rparr>) }"

definition Packet_AddByteTag_range :: "u32 \<Rightarrow> u8 list \<Rightarrow> nat \<Rightarrow> nat \<Rightarrow> Packet \<Rightarrow> packet_heap \<Rightarrow> packet_result" where
  "Packet_AddByteTag_range tid bytes start end p w =
     (if end < start then None
      else do { (l, ht) \<leftarrow> bt_Add tid bytes (i32 (int start)) (i32 (int end)) (pk_byteTagList p) (ph_byteTags w);
                Some (p\<lparr>pk_byteTagList := l\<rparr>, w\<lparr>ph_byteTags := ht\<rparr>) })"

definition Packet_RemoveAllByteTags :: "Packet \<Rightarrow> packet_heap \<Rightarrow> packet_result" where
  "Packet_RemoveAllByteTags p w =
     do { (l, ht) \<leftarrow> bt_RemoveAll (pk_byteTagList p) (ph_byteTags w); Some (p\<lparr>pk_byteTagList := l\<rparr>, w\<lparr>ph_byteTags := ht\<rparr>) }"

definition Packet_GetByteTagIterator :: "Packet \<Rightarrow> packet_heap \<Rightarrow> bt_Iterator option" where
  "Packet_GetByteTagIterator p w = bt_Begin 0 (i32 (int (pk_GetSize p))) (pk_byteTagList p) (ph_byteTags w)"

text \<open>FindFirstMatchingByteTag: the bytes of the first tag of the type, for the caller to deserialize.\<close>

function find_matching :: "u32 \<Rightarrow> bt_Iterator \<Rightarrow> btl_heap \<Rightarrow> u8 list option option" where
  "find_matching tid i h =
     (if bi_HasNext i then
        (case bi_Next i h of
           None \<Rightarrow> None
         | Some (item, i) \<Rightarrow> if tid = item_tid item then Some (Some (item_buf item)) else find_matching tid i h)
      else Some None)"
  by pat_completeness auto
termination find_matching
proof (relation "measure (\<lambda>(tid, i, h). bi_end i - bi_current i)", goal_cases)
  case (2 tid i h x2 item i')
  then show ?case using Next_forward [of i h item i'] by auto
qed simp

declare find_matching.simps [simp del]

definition Packet_FindFirstMatchingByteTag :: "u32 \<Rightarrow> Packet \<Rightarrow> packet_heap \<Rightarrow> u8 list option option" where
  "Packet_FindFirstMatchingByteTag tid p w = do { i \<leftarrow> Packet_GetByteTagIterator p w; find_matching tid i (ph_byteTags w) }"

definition Packet_AddPacketTag :: "Tag \<Rightarrow> Packet \<Rightarrow> packet_heap \<Rightarrow> packet_result" where
  "Packet_AddPacketTag tag p w =
     do { (m, hp) \<leftarrow> ptl_Add tag (pk_packetTagList p, ph_tags w); Some (p\<lparr>pk_packetTagList := m\<rparr>, w\<lparr>ph_tags := hp\<rparr>) }"

definition Packet_RemovePacketTag :: "u16 \<Rightarrow> Packet \<Rightarrow> packet_heap \<Rightarrow> (u8 list option \<times> Packet \<times> packet_heap) option" where
  "Packet_RemovePacketTag tid p w =
     do { (found, m, hp) \<leftarrow> ptl_Remove tid (pk_packetTagList p, ph_tags w); Some (found, p\<lparr>pk_packetTagList := m\<rparr>, w\<lparr>ph_tags := hp\<rparr>) }"

definition Packet_ReplacePacketTag :: "Tag \<Rightarrow> Packet \<Rightarrow> packet_heap \<Rightarrow> (bool \<times> Packet \<times> packet_heap) option" where
  "Packet_ReplacePacketTag tag p w =
     do { (found, m, hp) \<leftarrow> ptl_Replace tag (pk_packetTagList p, ph_tags w); Some (found, p\<lparr>pk_packetTagList := m\<rparr>, w\<lparr>ph_tags := hp\<rparr>) }"

definition Packet_PeekPacketTag :: "u16 \<Rightarrow> Packet \<Rightarrow> packet_heap \<Rightarrow> u8 list option option" where
  "Packet_PeekPacketTag tid p w = ptl_Peek tid (pk_packetTagList p, ph_tags w)"

definition Packet_RemoveAllPacketTags :: "Packet \<Rightarrow> packet_heap \<Rightarrow> packet_result" where
  "Packet_RemoveAllPacketTags p w =
     do { (m, hp) \<leftarrow> ptl_RemoveAll (pk_packetTagList p, ph_tags w); Some (p\<lparr>pk_packetTagList := m\<rparr>, w\<lparr>ph_tags := hp\<rparr>) }"

end
