(* ===== verification/Packet_Correct.thy ===== *)
theory Packet_Correct
  imports Packets
begin

text \<open>
  The contracts of the packet operations: what they do to the bytes of the packet, to the tags of every byte and to the
  packet tags, and that they leave all the other packets alone.
\<close>

section \<open>What a packet is\<close>

text \<open>
  A packet is a list of bytes, each with its byte tags, and a list of packet tags. The offsets of byte tags are 32-bit integers and
  move with the packet: \<open>sp_span\<close> bounds how far they have moved, \<open>sp_space\<close> the storage of the byte tags.
\<close>

type_synonym byte_tag = "u32 \<times> u8 list"

record spec_packet =
  sp_bytes :: "(u8 option \<times> byte_tag list) list"
  sp_tags :: "tag_value list"
  sp_span :: nat
  sp_space :: nat

definition pk_is :: "packet_heap \<Rightarrow> Packet \<Rightarrow> spec_packet \<Rightarrow> bool" where
  "pk_is w p s \<longleftrightarrow>
     content (ph_buffers w) (pk_buffer p) = map fst (sp_bytes s) \<and>
     bt_tagged (sp_span s) (sp_space s) (ph_byteTags w) (pk_byteTagList p) (map snd (sp_bytes s)) \<and>
     holds (ph_tags w) (pk_packetTagList p) (sp_tags s) \<and> length (sp_bytes s) \<le> sp_span s"

definition pk_inv :: "packet_heap \<Rightarrow> Packet multiset \<Rightarrow> bool" where
  "pk_inv w P \<longleftrightarrow>
     buf_inv (ph_buffers w) (image_mset pk_buffer P) \<and> btl_inv (ph_byteTags w) (image_mset pk_byteTagList P) \<and>
     tag_inv (ph_tags w) (image_mset pk_packetTagList P)"

definition pk_frames :: "Packet multiset \<Rightarrow> packet_heap \<Rightarrow> packet_heap \<Rightarrow> bool" where
  "pk_frames P w w' \<longleftrightarrow> (\<forall>q \<in># P. \<forall>s. pk_is w q s \<longrightarrow> pk_is w' q s)"

definition pk_yields :: "packet_heap \<Rightarrow> Packet multiset \<Rightarrow> packet_result \<Rightarrow> spec_packet \<Rightarrow> bool" where
  "pk_yields w P r s \<longleftrightarrow> (\<exists>p w'. r = Some (p, w') \<and> pk_inv w' (add_mset p P) \<and> pk_frames P w w' \<and> pk_is w' p s)"

lemma framesI:
  assumes "\<forall>x \<in># image_mset pk_buffer P. content (ph_buffers w') x = content (ph_buffers w) x"
    and "bt_frames (image_mset pk_byteTagList P) (ph_byteTags w) (ph_byteTags w')"
    and "frames (image_mset pk_packetTagList P) (ph_tags w) (ph_tags w')"
  shows "pk_frames P w w'"
proof -
  have "pk_is w' q s" if "q \<in># P" "pk_is w q s" for q s
    using assms that tagged_frames [OF assms(2)] unfolding pk_is_def frames_def by auto
  then show ?thesis by (simp add: pk_frames_def)
qed

text \<open>The three parts of a packet, together.\<close>

lemma pk_yieldsI:
  assumes "yields (ph_buffers w) (image_mset pk_buffer P) (Some (pk_buffer p, ph_buffers w')) (map fst (sp_bytes s))"
    and "bt_yields (ph_byteTags w) (image_mset pk_byteTagList P) (Some (pk_byteTagList p, ph_byteTags w')) (sp_span s) (sp_space s) (map snd (sp_bytes s))"
    and "leaves (ph_tags w) (image_mset pk_packetTagList P) (pk_packetTagList p, ph_tags w') (sp_tags s)"
    and "length (sp_bytes s) \<le> sp_span s"
  shows "pk_yields w P (Some (p, w')) s"
  using assms framesI [of P w' w] by (simp add: pk_yields_def yields_def bt_yields_def leaves_def pk_inv_def pk_is_def)

lemma yields_same: "buf_inv h (add_mset b B) \<Longrightarrow> content h b = c \<Longrightarrow> yields h B (Some (b, h)) c"
  by (simp add: yields_def)

lemma bt_result: "bt_yields h L r M S ts \<Longrightarrow> \<exists>l h'. r = Some (l, h') \<and> bt_yields h L (Some (l, h')) M S ts"
  unfolding bt_yields_def by blast

lemma leaves_same: "tag_inv h (add_mset m P) \<Longrightarrow> holds h m xs \<Longrightarrow> leaves h P (m, h) xs"
  by (simp add: leaves_def frames_def)

text \<open>A packet beside the packets \<open>P\<close>, taken apart.\<close>

lemma pk_parts:
  assumes "pk_inv w (add_mset p P)" and "pk_is w p s"
  shows "buf_inv (ph_buffers w) (add_mset (pk_buffer p) (image_mset pk_buffer P))"
    and "btl_inv (ph_byteTags w) (add_mset (pk_byteTagList p) (image_mset pk_byteTagList P))"
    and "tag_inv (ph_tags w) (add_mset (pk_packetTagList p) (image_mset pk_packetTagList P))"
    and "content (ph_buffers w) (pk_buffer p) = map fst (sp_bytes s)"
    and "bt_tagged (sp_span s) (sp_space s) (ph_byteTags w) (pk_byteTagList p) (map snd (sp_bytes s))"
    and "holds (ph_tags w) (pk_packetTagList p) (sp_tags s)" and "length (sp_bytes s) \<le> sp_span s"
    and "pk_GetSize p = length (sp_bytes s)" and "int (sp_span s) < 2 ^ 30"
proof -
  show *: "buf_inv (ph_buffers w) (add_mset (pk_buffer p) (image_mset pk_buffer P))"
    "content (ph_buffers w) (pk_buffer p) = map fst (sp_bytes s)"
    using assms by (simp_all add: pk_inv_def pk_is_def)
  show "pk_GetSize p = length (sp_bytes s)" using length_content [OF *(1)] *(2) by (simp add: pk_GetSize_def)
  show "int (sp_span s) < 2 ^ 30" using assms(2) by (auto simp: pk_is_def bt_tagged_def sane_def)
qed (use assms in \<open>simp_all add: pk_inv_def pk_is_def\<close>)

lemma i32_nat: "int n < 2 ^ 30 \<Longrightarrow> i32 (int n) = int n" "int n < 2 ^ 30 \<Longrightarrow> i32 (- int n) = - int n"
  by (simp_all add: i32_id)

section \<open>Construction\<close>

definition plain :: "u8 option list \<Rightarrow> (u8 option \<times> byte_tag list) list" where
  "plain bs = map (\<lambda>b. (b, [])) bs"

lemma map_plain [simp]: "map fst (plain bs) = bs" "map snd (plain bs) = replicate (length bs) []" "length (plain bs) = length bs"
  by (simp_all add: plain_def comp_def map_replicate_const)

lemma new_parts:
  assumes "pk_inv w P" and "int M < 2 ^ 30"
  shows "bt_yields (ph_byteTags w) (image_mset pk_byteTagList P) (Some (bt_empty, ph_byteTags w)) M 0 (replicate n [])"
    and "leaves (ph_tags w) (image_mset pk_packetTagList P) (nullptr, ph_tags w) []"
proof -
  have "btl_inv (ph_byteTags w) (add_mset bt_empty (image_mset pk_byteTagList P))"
    by (rule inv_without_data(1)) (use assms(1) in \<open>simp_all add: pk_inv_def list_ok_def\<close>)
  then show "bt_yields (ph_byteTags w) (image_mset pk_byteTagList P) (Some (bt_empty, ph_byteTags w)) M 0 (replicate n [])"
    by (rule same_list_yields) (rule no_tags [OF assms(2)])
  show "leaves (ph_tags w) (image_mset pk_packetTagList P) (nullptr, ph_tags w) []"
    using assms(1) by (simp add: leaves_def pk_inv_def frames_def)
qed

lemma Packet_new_ok:
  assumes i: "pk_inv w P" and n: "int n < 2 ^ 30"
  shows "pk_yields w P (Packet_new n w) \<lparr>sp_bytes = plain (replicate n (Some 0)), sp_tags = [], sp_span = n, sp_space = 0\<rparr>"
proof -
  obtain b hb where b: "buf_Initialize n (ph_buffers w) = Some (b, hb)"
    "yields (ph_buffers w) (image_mset pk_buffer P) (Some (b, hb)) (replicate n (Some 0))"
    using yields_new [of "ph_buffers w" "image_mset pk_buffer P" n] i by (auto simp: pk_inv_def yields_def)
  show ?thesis unfolding Packet_new_def b(1) using b(2) new_parts [OF i n] by (simp add: pk_yieldsI)
qed

lemma Packet_data_ok:
  assumes i: "pk_inv w P" and n: "int (length bs) < 2 ^ 30"
  shows "pk_yields w P (Packet_data bs w) \<lparr>sp_bytes = plain (map Some bs), sp_tags = [], sp_span = length bs, sp_space = 0\<rparr>"
proof -
  obtain b hb where b: "buf_Initialize 0 (ph_buffers w) = Some (b, hb)" "buf_inv hb (add_mset b (image_mset pk_buffer P))" "content hb b = []"
    "\<forall>x \<in># image_mset pk_buffer P. content hb x = content (ph_buffers w) x"
    using yields_new [of "ph_buffers w" "image_mset pk_buffer P" 0] i by (auto simp: pk_inv_def yields_def)
  obtain b1 h1 it h2 where c: "buf_AddAtStart (length bs) b hb = Some (b1, h1)" "it_Write (map Some bs) (buf_Begin b1) h1 = Some (it, h2)"
    "buf_inv h2 (add_mset b1 (image_mset pk_buffer P))" "content h2 b1 = map Some bs" "\<forall>x \<in># image_mset pk_buffer P. content h2 x = content hb x"
    using push_front_raw [OF b(2) emits_it_Write, of "map Some bs"] b(3) by auto
  have "yields (ph_buffers w) (image_mset pk_buffer P) (Some (b1, h2)) (map Some bs)" using c b(4) by (simp add: yields_def)
  then show ?thesis unfolding Packet_data_def using b(1) c(1,2) new_parts [OF i n] by (simp add: pk_yieldsI)
qed

lemma Packet_copy_ok:
  assumes i: "pk_inv w (add_mset p P)" and s: "pk_is w p s"
  shows "pk_yields w (add_mset p P) (Packet_copy p w) s"
proof -
  note a = pk_parts [OF i s]
  obtain b hb where b: "buf_copy (pk_buffer p) (ph_buffers w) = Some (b, hb)"
    "yields (ph_buffers w) (image_mset pk_buffer (add_mset p P)) (Some (b, hb)) (map fst (sp_bytes s))"
    using yields_from(1) [OF a(1)] a(4) by (auto simp: yields_def)
  obtain l ht where l: "bt_copy (pk_byteTagList p) (ph_byteTags w) = Some (l, ht)"
    "bt_yields (ph_byteTags w) (image_mset pk_byteTagList (add_mset p P)) (Some (l, ht)) (sp_span s) (sp_space s) (map snd (sp_bytes s))"
    using bt_copy_yields [OF a(2) _ a(5)] by (auto simp: bt_yields_def)
  obtain m hp where m: "ptl_copy (pk_packetTagList p) (ph_tags w) = Some (m, hp)"
    "leaves (ph_tags w) (image_mset pk_packetTagList (add_mset p P)) (m, hp) (sp_tags s)"
    using tags_copy_ok [OF a(3,6)] by auto
  show ?thesis unfolding Packet_copy_def using b l m a(7) by (simp add: pk_yieldsI)
qed

lemma bt_assign_yields:
  assumes i: "btl_inv h (add_mset l L)" and c: "c \<in># L" "bt_tagged M S h c ts"
  shows "bt_yields h L (bt_assign l c h) M S ts"
proof -
  obtain h1 where h1: "bt_Deallocate (bt_data l) h = Some h1" "btl_inv h1 L" "bt_frames L h h1" using bt_Deallocate_ok [OF i] by blast
  have "bt_assign l c h = bt_copy c h1" using h1(1) by (simp add: bt_assign_def)
  then show ?thesis using bt_copy_yields [OF h1(2) c(1) tagged_frames [OF h1(3) c]] frames_trans [OF h1(3)]
    unfolding bt_yields_def by metis
qed

lemma Packet_assign_ok:
  assumes i: "pk_inv w (add_mset p P)" and q: "q \<in># P" and s: "pk_is w q s"
  shows "pk_yields w P (Packet_assign p q w) s"
proof -
  have a: "buf_inv (ph_buffers w) (add_mset (pk_buffer p) (image_mset pk_buffer P))"
    "btl_inv (ph_byteTags w) (add_mset (pk_byteTagList p) (image_mset pk_byteTagList P))"
    "tag_inv (ph_tags w) (add_mset (pk_packetTagList p) (image_mset pk_packetTagList P))"
    using i by (simp_all add: pk_inv_def)
  have mem: "pk_buffer q \<in># image_mset pk_buffer P" "pk_byteTagList q \<in># image_mset pk_byteTagList P"
    "pk_packetTagList q \<in># image_mset pk_packetTagList P" using q by auto
  obtain b hb where b: "buf_assign (pk_buffer p) (pk_buffer q) (ph_buffers w) = Some (b, hb)"
    "yields (ph_buffers w) (image_mset pk_buffer P) (Some (b, hb)) (map fst (sp_bytes s))"
    using yields_assign [OF a(1) mem(1)] s by (auto simp: yields_def pk_is_def)
  obtain l ht where l: "bt_assign (pk_byteTagList p) (pk_byteTagList q) (ph_byteTags w) = Some (l, ht)"
    "bt_yields (ph_byteTags w) (image_mset pk_byteTagList P) (Some (l, ht)) (sp_span s) (sp_space s) (map snd (sp_bytes s))"
    using bt_assign_yields [OF a(2) mem(2)] s bt_result unfolding pk_is_def by metis
  obtain m hp where m: "ptl_assign (pk_packetTagList p) (pk_packetTagList q) (ph_tags w) = Some (m, hp)"
    "leaves (ph_tags w) (image_mset pk_packetTagList P) (m, hp) (sp_tags s)"
    using tags_assign_ok [OF a(3) mem(3), of "sp_tags s"] s by (auto simp: pk_is_def)
  show ?thesis unfolding Packet_assign_def using b l m s by (simp add: pk_yieldsI pk_is_def)
qed

lemma Packet_destroy_ok:
  assumes i: "pk_inv w (add_mset p P)"
  shows "\<exists>w'. Packet_destroy p w = Some w' \<and> pk_inv w' P \<and> pk_frames P w w'"
proof -
  have a: "buf_inv (ph_buffers w) (add_mset (pk_buffer p) (image_mset pk_buffer P))"
    "btl_inv (ph_byteTags w) (add_mset (pk_byteTagList p) (image_mset pk_byteTagList P))"
    "tag_inv (ph_tags w) (add_mset (pk_packetTagList p) (image_mset pk_packetTagList P))"
    using i by (simp_all add: pk_inv_def)
  obtain hp where hp: "ptl_destroy (pk_packetTagList p) (ph_tags w) = Some hp" "tag_inv hp (image_mset pk_packetTagList P)"
    "frames (image_mset pk_packetTagList P) (ph_tags w) hp" using tags_destroy_ok [OF a(3)] by blast
  obtain ht where ht: "bt_Deallocate (bt_data (pk_byteTagList p)) (ph_byteTags w) = Some ht" "btl_inv ht (image_mset pk_byteTagList P)"
    "bt_frames (image_mset pk_byteTagList P) (ph_byteTags w) ht" using bt_Deallocate_ok [OF a(2)] by blast
  obtain hb where hb: "buf_destroy (pk_buffer p) (ph_buffers w) = Some hb" "buf_inv hb (image_mset pk_buffer P)"
    "\<forall>x \<in># image_mset pk_buffer P. content hb x = content (ph_buffers w) x" using destroy_ok [OF a(1)] by blast
  let ?w = "\<lparr>ph_buffers = hb, ph_byteTags = ht, ph_tags = hp\<rparr>"
  have "pk_frames P w ?w" by (rule framesI) (use hp(3) ht(3) hb(3) in simp_all)
  then show ?thesis using hp ht hb by (simp add: Packet_destroy_def bt_destroy_def pk_inv_def)
qed

section \<open>Bytes in front and behind\<close>

definition put_bytes :: "(u8 option \<times> byte_tag list) list \<Rightarrow> nat \<Rightarrow> spec_packet \<Rightarrow> spec_packet" where
  "put_bytes bs n s = s\<lparr>sp_bytes := bs, sp_span := sp_span s + n\<rparr>"

lemma put_bytes_simps [simp]: "sp_bytes (put_bytes bs n s) = bs" "sp_tags (put_bytes bs n s) = sp_tags s"
  "sp_span (put_bytes bs n s) = sp_span s + n" "sp_space (put_bytes bs n s) = sp_space s"
  by (simp_all add: put_bytes_def)

lemma Packet_AddHeader_ok:
  assumes i: "pk_inv w (add_mset p P)" and s: "pk_is w p s" and n: "int (sp_span s + length bs) < 2 ^ 30" and e: "emits serialize bs"
  shows "pk_yields w P (Packet_AddHeader (length bs) serialize p w) (put_bytes (plain (map Some bs) @ sp_bytes s) (length bs) s)"
proof -
  note a = pk_parts [OF i s]
  obtain b1 h1 it h2 where b: "buf_AddAtStart (length bs) (pk_buffer p) (ph_buffers w) = Some (b1, h1)" "serialize (buf_Begin b1) h1 = Some (it, h2)"
    "yields (ph_buffers w) (image_mset pk_buffer P) (Some (b1, h2)) (map Some bs @ map fst (sp_bytes s))"
    using push_front_ok [OF a(1) e] a(4) by (auto simp: yields_def)
  have sz: "i32 (int (length bs)) = int (length bs)" using n by (simp add: i32_nat)
  obtain l ht where l: "bt_AddAtStart (int (length bs)) (bt_Adjust (int (length bs)) (pk_byteTagList p)) (ph_byteTags w) = Some (l, ht)"
    "bt_yields (ph_byteTags w) (image_mset pk_byteTagList P) (Some (l, ht)) (sp_span s + length bs) (sp_space s) (replicate (length bs) [] @ map snd (sp_bytes s))"
    using bt_prepend_yields [OF a(2,5) n] by (auto simp: bt_yields_def)
  show ?thesis unfolding Packet_AddHeader_def using b l leaves_same [OF a(3,6)] a(7) sz by (simp add: pk_yieldsI)
qed

lemma bytes_back:
  assumes i: "pk_inv w (add_mset p P)" and s: "pk_is w p s" and n: "int (sp_span s + n) < 2 ^ 30"
  shows "\<exists>l ht. bt_AddAtEnd (i32 (int (pk_GetSize p))) (pk_byteTagList p) (ph_byteTags w) = Some (l, ht) \<and>
    bt_yields (ph_byteTags w) (image_mset pk_byteTagList P) (Some (l, ht)) (sp_span s + n) (sp_space s) (map snd (sp_bytes s) @ replicate n [])"
proof -
  note a = pk_parts [OF i s]
  have "i32 (int (pk_GetSize p)) = int (length (map snd (sp_bytes s)))" using a(7-9) by (simp add: i32_nat)
  moreover have "bt_tagged (sp_span s + n) (sp_space s) (ph_byteTags w) (pk_byteTagList p) (map snd (sp_bytes s))"
    using tagged_mono [OF a(5)] n by simp
  ultimately show ?thesis using bt_AddAtEnd_yields [OF a(2), of "sp_span s + n" "sp_space s" "map snd (sp_bytes s)" n] a(7) by (auto simp: bt_yields_def)
qed

text \<open>Trailers write backwards from the end of the packet.\<close>

definition trailer :: "u8 list \<Rightarrow> writer" where
  "trailer bs it h = do { it \<leftarrow> it_Prev (length bs) it; WriteU8s bs it h }"

lemma Packet_AddTrailer_ok:
  assumes i: "pk_inv w (add_mset p P)" and s: "pk_is w p s" and n: "int (sp_span s + length bs) < 2 ^ 30"
  shows "pk_yields w P (Packet_AddTrailer (length bs) (trailer bs) p w) (put_bytes (sp_bytes s @ plain (map Some bs)) (length bs) s)"
proof -
  note a = pk_parts [OF i s]
  obtain l ht where l: "bt_AddAtEnd (i32 (int (pk_GetSize p))) (pk_byteTagList p) (ph_byteTags w) = Some (l, ht)"
    "bt_yields (ph_byteTags w) (image_mset pk_byteTagList P) (Some (l, ht)) (sp_span s + length bs) (sp_space s) (map snd (sp_bytes s) @ replicate (length bs) [])"
    using bytes_back [OF i s n] by blast
  obtain b1 h1 i1 it h2 where b: "buf_AddAtEnd (length bs) (pk_buffer p) (ph_buffers w) = Some (b1, h1)" "it_Prev (length bs) (buf_End b1) = Some i1"
    "WriteU8s bs i1 h1 = Some (it, h2)" "yields (ph_buffers w) (image_mset pk_buffer P) (Some (b1, h2)) (map fst (sp_bytes s) @ map Some bs)"
    using push_back_ok [OF a(1) emits_WriteU8s, of bs] a(4) by (auto simp: yields_def)
  show ?thesis unfolding Packet_AddTrailer_def using b l leaves_same [OF a(3,6)] a(7) by (simp add: pk_yieldsI trailer_def)
qed

text \<open>The bytes of AddPaddingAtEnd are whatever the storage has.\<close>

lemma Packet_AddPaddingAtEnd_ok:
  assumes i: "pk_inv w (add_mset p P)" and s: "pk_is w p s" and n: "int (sp_span s + n) < 2 ^ 30"
  shows "\<exists>bs. length bs = n \<and> pk_yields w P (Packet_AddPaddingAtEnd n p w) (put_bytes (sp_bytes s @ plain bs) n s)"
proof -
  note a = pk_parts [OF i s]
  obtain l ht where l: "bt_AddAtEnd (i32 (int (pk_GetSize p))) (pk_byteTagList p) (ph_byteTags w) = Some (l, ht)"
    "bt_yields (ph_byteTags w) (image_mset pk_byteTagList P) (Some (l, ht)) (sp_span s + n) (sp_space s) (map snd (sp_bytes s) @ replicate n [])"
    using bytes_back [OF i s n] by blast
  obtain b1 hb where b: "buf_AddAtEnd n (pk_buffer p) (ph_buffers w) = Some (b1, hb)" "grown (ph_buffers w) (pk_buffer p) (image_mset pk_buffer P) n hb b1 (GetInternalEnd b1 - n)"
    "take (buf_GetSize (pk_buffer p)) (content hb b1) = map fst (sp_bytes s)"
    using AddAtEnd_ok [OF a(1), of n] a(4) by auto
  have inv: "buf_inv hb (add_mset b1 (image_mset pk_buffer P))" and sz: "buf_GetSize b1 = buf_GetSize (pk_buffer p) + n" using b(2) by (simp_all add: grown_def)
  let ?bs = "drop (buf_GetSize (pk_buffer p)) (content hb b1)"
  have "length ?bs = n" using length_content [OF inv] sz by simp
  moreover have "content hb b1 = map fst (sp_bytes s) @ ?bs" using append_take_drop_id [of "buf_GetSize (pk_buffer p)" "content hb b1"] b(3) by simp
  then have "yields (ph_buffers w) (image_mset pk_buffer P) (Some (b1, hb)) (map fst (sp_bytes s) @ ?bs)" using inv b(2) by (simp add: yields_def grown_def)
  ultimately have "pk_yields w P (Packet_AddPaddingAtEnd n p w) (put_bytes (sp_bytes s @ plain ?bs) n s)"
    unfolding Packet_AddPaddingAtEnd_def using b(1) l leaves_same [OF a(3,6)] a(7) by (simp add: pk_yieldsI)
  then show ?thesis using \<open>length ?bs = n\<close> by blast
qed

lemma Packet_RemoveAtStart_ok:
  assumes i: "pk_inv w (add_mset p P)" and s: "pk_is w p s" and n: "int (sp_span s + n) < 2 ^ 30"
  shows "pk_yields w P (map_option (\<lambda>p. (p, w)) (Packet_RemoveAtStart n p)) (put_bytes (drop n (sp_bytes s)) n s)"
proof -
  note a = pk_parts [OF i s]
  obtain b where b: "buf_RemoveAtStart n (pk_buffer p) = Some b"
    "yields (ph_buffers w) (image_mset pk_buffer P) (Some (b, ph_buffers w)) (drop n (map fst (sp_bytes s)))"
    using RemoveAtStart_ok [OF a(1), of n] a(4) by (auto simp: yields_def)
  let ?l = "bt_Adjust (- int n) (pk_byteTagList p)"
  have "i32 (- int n) = - int n" using n by (simp add: i32_nat)
  moreover have "btl_inv (ph_byteTags w) (add_mset ?l (image_mset pk_byteTagList P))" by (rule inv_same_data [OF a(2)]) (simp_all add: bt_Adjust_def)
  then have "bt_yields (ph_byteTags w) (image_mset pk_byteTagList P) (Some (?l, ph_byteTags w)) (sp_span s + n) (sp_space s) (drop n (map snd (sp_bytes s)))"
    using same_list_yields Adjust_tagged [OF a(5) n] by blast
  ultimately show ?thesis unfolding Packet_RemoveAtStart_def using b leaves_same [OF a(3,6)] a(7) by (simp add: pk_yieldsI drop_map)
qed

text \<open>RemoveHeader, for every header class.\<close>

context header_codec
begin

lemma packet_remove_header:
  assumes i: "pk_inv w (add_mset p P)" and s: "pk_is w p s" and v: "valid x" and b: "sp_bytes s = plain (map Some (wire x)) @ rest"
    and n: "int (sp_span s + length (wire x)) < 2 ^ 30"
  shows "\<exists>p'. Packet_RemoveHeader Deserialize x0 p w = Some (x, GetSerializedSize x, p') \<and> pk_inv w (add_mset p' P) \<and> pk_is w p' (put_bytes rest (length (wire x)) s)"
proof -
  note a = pk_parts [OF i s]
  have "upcoming (buf_Begin (pk_buffer p)) (ph_buffers w) (wire x)" by (rule content_upcoming [OF a(1)]) (use a(4) b in simp)
  then have d: "Deserialize x0 (buf_Begin (pk_buffer p)) (ph_buffers w) = Some (x, length (wire x))" by (rule reads_wire [OF v])
  obtain p' where p': "Packet_RemoveAtStart (length (wire x)) p = Some p'" "pk_inv w (add_mset p' P)" "pk_is w p' (put_bytes rest (length (wire x)) s)"
    using Packet_RemoveAtStart_ok [OF i s n] b by (auto simp: pk_yields_def)
  have "Packet_RemoveHeader Deserialize x0 p w = Some (x, length (wire x), p')"
    using d p'(1) by (auto simp: Packet_RemoveHeader_def Packet_RemoveAtStart_def bind_eq_Some_conv)
  then show ?thesis using p'(2,3) size_wire [OF v] by simp
qed

lemma packet_round_trip:
  assumes i: "pk_inv w (add_mset p P)" and s: "pk_is w p s" and v: "valid x" and n: "int (sp_span s + 2 * length (wire x)) < 2 ^ 30"
  shows "\<exists>p1 w1 p2. Packet_AddHeader (GetSerializedSize x) (Serialize x) p w = Some (p1, w1) \<and>
    Packet_RemoveHeader Deserialize x0 p1 w1 = Some (x, GetSerializedSize x, p2) \<and> pk_inv w1 (add_mset p2 P) \<and> pk_frames P w w1 \<and>
    pk_is w1 p2 (put_bytes (sp_bytes s) (2 * length (wire x)) s)"
proof -
  have n1: "int (sp_span s + length (wire x)) < 2 ^ 30" using n by simp
  let ?s1 = "put_bytes (plain (map Some (wire x)) @ sp_bytes s) (length (wire x)) s"
  obtain p1 w1 where 1: "Packet_AddHeader (GetSerializedSize x) (Serialize x) p w = Some (p1, w1)" "pk_inv w1 (add_mset p1 P)" "pk_frames P w w1" "pk_is w1 p1 ?s1"
    using Packet_AddHeader_ok [OF i s n1 emits_wire [OF v]] size_wire [OF v] unfolding pk_yields_def by auto
  have "int (sp_span ?s1 + length (wire x)) < 2 ^ 30" using n by simp
  then obtain p2 where "Packet_RemoveHeader Deserialize x0 p1 w1 = Some (x, GetSerializedSize x, p2)" "pk_inv w1 (add_mset p2 P)"
    "pk_is w1 p2 (put_bytes (sp_bytes s) (length (wire x)) ?s1)"
    using packet_remove_header [OF 1(2,4) v] by auto
  then show ?thesis using 1(1,3) by (auto simp: put_bytes_def mult_2 add.assoc)
qed

end

lemma Packet_RemoveAtEnd_ok:
  assumes i: "pk_inv w (add_mset p P)" and s: "pk_is w p s"
  shows "pk_yields w P (Some (Packet_RemoveAtEnd n p, w)) (put_bytes (take (length (sp_bytes s) - n) (sp_bytes s)) 0 s)"
proof -
  note a = pk_parts [OF i s]
  have "yields (ph_buffers w) (image_mset pk_buffer P) (Some (buf_RemoveAtEnd n (pk_buffer p), ph_buffers w)) (take (length (sp_bytes s) - n) (map fst (sp_bytes s)))"
    using yields_from(5) [OF a(1), of n] a(4) by simp
  then show ?thesis using same_list_yields [OF a(2) tagged_take [OF a(5)]] leaves_same [OF a(3,6)] a(7)
    by (simp add: Packet_RemoveAtEnd_def pk_yieldsI take_map)
qed

lemma Packet_CreateFragment_ok:
  assumes i: "pk_inv w (add_mset p P)" and s: "pk_is w p s" and n: "o' + n \<le> length (sp_bytes s)" "int (sp_span s + o') < 2 ^ 30"
  shows "pk_yields w (add_mset p P) (Packet_CreateFragment o' n p w) (put_bytes (take n (drop o' (sp_bytes s))) o' s)"
proof -
  note a = pk_parts [OF i s]
  have "length (sp_bytes s) < 2 ^ 32" using a(7,9) by simp
  then obtain b hb where b: "buf_CreateFragment o' n (pk_buffer p) (ph_buffers w) = Some (b, hb)"
    "yields (ph_buffers w) (image_mset pk_buffer (add_mset p P)) (Some (b, hb)) (take n (drop o' (map fst (sp_bytes s))))"
    using yields_fragment [OF a(1), of o' n] a(4) n(1) by (auto simp: yields_def)
  obtain l ht where l: "bt_copy (pk_byteTagList p) (ph_byteTags w) = Some (l, ht)"
    "btl_inv ht (add_mset l (image_mset pk_byteTagList (add_mset p P)))" "bt_frames (image_mset pk_byteTagList (add_mset p P)) (ph_byteTags w) ht"
    "bt_tagged (sp_span s) (sp_space s) ht l (map snd (sp_bytes s))"
    using bt_copy_yields [OF a(2) _ a(5)] by (auto simp: bt_yields_def)
  let ?l = "bt_Adjust (- int o') l"
  have "i32 (- int o') = - int o'" using n by (simp add: i32_nat)
  moreover have "btl_inv ht (add_mset ?l (image_mset pk_byteTagList (add_mset p P)))" by (rule inv_same_data [OF l(2)]) (simp_all add: bt_Adjust_def)
  then have "bt_yields (ph_byteTags w) (image_mset pk_byteTagList (add_mset p P)) (Some (?l, ht)) (sp_span s + o') (sp_space s) (take n (drop o' (map snd (sp_bytes s))))"
    using tagged_take [OF Adjust_tagged [OF l(4) n(2)]] l(3) by (simp add: bt_yields_def)
  moreover obtain m hp where m: "ptl_copy (pk_packetTagList p) (ph_tags w) = Some (m, hp)"
    "leaves (ph_tags w) (image_mset pk_packetTagList (add_mset p P)) (m, hp) (sp_tags s)"
    using tags_copy_ok [OF a(3,6)] by auto
  ultimately show ?thesis unfolding Packet_CreateFragment_def using b l(1) m a(7,8) n(1) by (simp add: pk_yieldsI take_map drop_map)
qed

section \<open>Appending a packet\<close>

text \<open>The lists of Packet::AddAtEnd(Ptr<const Packet>).\<close>

lemma bt_append_packet:
  assumes i: "btl_inv h (add_mset l L)" and t: "bt_tagged M S h l ts" "length ts \<le> M" and q: "q \<in># L" "bt_tagged N S' h q us"
    and n: "int (M + N) < 2 ^ 30" "int (S + S') < 2 ^ 32"
  shows "\<exists>l1 h1 c h2 c' h3 l' h4 h5. bt_AddAtEnd (int (length ts)) l h = Some (l1, h1) \<and> bt_copy q h1 = Some (c, h2) \<and>
    bt_AddAtStart 0 c h2 = Some (c', h3) \<and> bt_Add_list (bt_Adjust (int (length ts)) c') l1 h3 = Some (l', h4) \<and>
    bt_destroy (bt_Adjust (int (length ts)) c') h4 = Some h5 \<and> bt_yields h L (Some (l', h5)) (M + N) (S + S') (ts @ us)"
proof -
  let ?n = "length ts"
  obtain l1 h1 where l1: "bt_AddAtEnd (int ?n) l h = Some (l1, h1)" "btl_inv h1 (add_mset l1 L)" "bt_frames L h h1" "bt_tagged M S h1 l1 (ts @ replicate (length us) [])"
    using bt_AddAtEnd_yields [OF i t] unfolding bt_yields_def by blast
  have q1: "q \<in># add_mset l1 L" "bt_tagged N S' h1 q us" using q tagged_frames [OF l1(3)] by auto
  obtain c h2 where c: "bt_copy q h1 = Some (c, h2)" "btl_inv h2 (add_mset c (add_mset l1 L))" "bt_frames (add_mset l1 L) h1 h2" "bt_tagged N S' h2 c us"
    using bt_copy_yields [OF l1(2) q1] unfolding bt_yields_def by blast
  have "int (N + ?n) < 2 ^ 30" using n(1) t(2) by simp
  then obtain c' h3 where c': "bt_AddAtStart 0 c h2 = Some (c', h3)" "btl_inv h3 (add_mset (bt_Adjust (int ?n) c') (add_mset l1 L))"
    "bt_frames (add_mset l1 L) h2 h3" "bt_tagged (N + ?n) S' h3 (bt_Adjust (int ?n) c') (replicate ?n [] @ us)"
    using bt_append_copy [OF c(2,4)] by blast
  let ?c = "bt_Adjust (int ?n) c'"
  have f3: "bt_frames (add_mset l1 L) h1 h3" by (rule frames_trans [OF c(3) c'(3)])
  have i3: "btl_inv h3 (add_mset l1 (add_mset ?c L))" using c'(2) by (simp add: add_mset_commute)
  have t3: "bt_tagged M S h3 l1 (ts @ replicate (length us) [])" using tagged_frames [OF f3] l1(4) by simp
  have u3: "bt_tagged (M + N) S' h3 ?c (replicate ?n [] @ us)" using tagged_mono [OF c'(4)] n(1) t(2) by simp
  have "bt_yields h3 (add_mset ?c L) (bt_Add_list ?c l1 h3) (M + N) (S + S') (map2 (@) (ts @ replicate (length us) []) (replicate ?n [] @ us))"
    by (rule bt_Add_list_yields [OF i3 t3 _ u3]) (use n(2) in simp_all)
  moreover have "map2 (@) (ts @ replicate (length us) []) (replicate ?n [] @ us) = ts @ us"
    by (rule nth_equalityI) (auto simp: nth_append)
  ultimately obtain l' h4 where l': "bt_Add_list ?c l1 h3 = Some (l', h4)" "btl_inv h4 (add_mset l' (add_mset ?c L))" "bt_frames (add_mset ?c L) h3 h4"
    "bt_tagged (M + N) (S + S') h4 l' (ts @ us)" unfolding bt_yields_def by auto
  have "btl_inv h4 (add_mset ?c (add_mset l' L))" using l'(2) by (simp add: add_mset_commute)
  then obtain h5 where h5: "bt_destroy ?c h4 = Some h5" "btl_inv h5 (add_mset l' L)" "bt_frames (add_mset l' L) h4 h5"
    using bt_Deallocate_ok unfolding bt_destroy_def by blast
  have "bt_frames L h h5" using frames_trans l1(3) frames_sub [OF f3] frames_sub [OF l'(3)] frames_sub [OF h5(3)] by metis
  moreover have "bt_tagged (M + N) (S + S') h5 l' (ts @ us)" using tagged_frames [OF h5(3)] l'(4) by simp
  ultimately have "bt_yields h L (Some (l', h5)) (M + N) (S + S') (ts @ us)" using h5(2) by (simp add: bt_yields_def)
  then show ?thesis using l1(1) c(1) c'(1) l'(1) h5(1) by blast
qed

text \<open>The appended bytes bring their tags; the conditions on the buffers are those of \<open>AddAtEnd_concatenates\<close>.\<close>

definition join_packets :: "spec_packet \<Rightarrow> spec_packet \<Rightarrow> spec_packet" where
  "join_packets s t = s\<lparr>sp_bytes := sp_bytes s @ sp_bytes t, sp_span := sp_span s + sp_span t, sp_space := sp_space s + sp_space t\<rparr>"

definition joinable :: "packet_heap \<Rightarrow> Packet \<Rightarrow> Packet \<Rightarrow> bool" where
  "joinable w p q \<longleftrightarrow>
     (m_data (pk_buffer q) \<noteq> m_data (pk_buffer p) \<or> 0 < zsize (pk_buffer p)) \<and>
     (\<not> adjacent_zeros (ph_buffers w) (pk_buffer p) (pk_buffer q) \<or> m_end (pk_buffer q) = m_zeroAreaEnd (pk_buffer q))"

lemma Packet_AddAtEnd_ok:
  assumes i: "pk_inv w (add_mset p P)" and s: "pk_is w p s" and q: "q \<in># P" "pk_is w q t" and j: "joinable w p q"
    and n: "int (sp_span s + sp_span t) < 2 ^ 30" "int (sp_space s + sp_space t) < 2 ^ 32"
  shows "pk_yields w P (Packet_AddAtEnd q p w) (join_packets s t)"
proof -
  note a = pk_parts [OF i s]
  have mem: "pk_buffer q \<in># image_mset pk_buffer P" "pk_byteTagList q \<in># image_mset pk_byteTagList P" using q by auto
  have tq: "bt_tagged (sp_span t) (sp_space t) (ph_byteTags w) (pk_byteTagList q) (map snd (sp_bytes t))" "content (ph_buffers w) (pk_buffer q) = map fst (sp_bytes t)"
    "length (sp_bytes t) \<le> sp_span t" using q(2) by (simp_all add: pk_is_def)
  let ?n = "length (sp_bytes s)"
  have sz: "i32 (int (pk_GetSize p)) = int ?n" using a(7-9) by (simp add: i32_nat)
  obtain l1 h1 c h2 c' h3 l' h4 h5 where l: "bt_AddAtEnd (int ?n) (pk_byteTagList p) (ph_byteTags w) = Some (l1, h1)" "bt_copy (pk_byteTagList q) h1 = Some (c, h2)"
    "bt_AddAtStart 0 c h2 = Some (c', h3)" "bt_Add_list (bt_Adjust (int ?n) c') l1 h3 = Some (l', h4)" "bt_destroy (bt_Adjust (int ?n) c') h4 = Some h5"
    "bt_yields (ph_byteTags w) (image_mset pk_byteTagList P) (Some (l', h5)) (sp_span s + sp_span t) (sp_space s + sp_space t) (map snd (sp_bytes s @ sp_bytes t))"
    using bt_append_packet [OF a(2,5) _ mem(2) tq(1) n] a(7) by auto
  obtain b1 hb where "buf_AddAtEnd_buffer (pk_buffer q) (pk_buffer p) (ph_buffers w) = Some (b1, hb)"
    "yields (ph_buffers w) (image_mset pk_buffer P) (Some (b1, hb)) (map fst (sp_bytes s @ sp_bytes t))"
    using AddAtEnd_buffer_ok [OF a(1) mem(1)] AddAtEnd_zeros_ok [OF a(1) mem(1)] j a(4) tq(2) unfolding joinable_def yields_def by fastforce
  then show ?thesis unfolding Packet_AddAtEnd_def join_packets_def using l leaves_same [OF a(3,6)] a(7) tq(3) sz by (simp add: pk_yieldsI)
qed

section \<open>Tags\<close>

definition tag_bytes :: "nat \<Rightarrow> nat \<Rightarrow> byte_tag \<Rightarrow> (u8 option \<times> byte_tag list) list \<Rightarrow> (u8 option \<times> byte_tag list) list" where
  "tag_bytes s e t bs = zip (map fst bs) (tag_range s e t (map snd bs))"

lemma tag_range_simps [simp]: "tag_range s e t [] = []"
  "tag_range s e t (x # xs) = (if s = 0 \<and> 0 < e then x @ [t] else x) # tag_range (s - 1) (e - 1) t xs"
  by (simp add: tag_range_def) (auto simp: tag_range_def map_upt_Suc simp del: upt_Suc)

lemma map_tag_bytes [simp]: "map fst (tag_bytes s e t bs) = map fst bs" "map snd (tag_bytes s e t bs) = tag_range s e t (map snd bs)"
  "length (tag_bytes s e t bs) = length bs"
  by (simp_all add: tag_bytes_def)

definition put_tag :: "nat \<Rightarrow> nat \<Rightarrow> byte_tag \<Rightarrow> spec_packet \<Rightarrow> spec_packet" where
  "put_tag st e t s =
     s\<lparr>sp_bytes := tag_bytes st e t (sp_bytes s), sp_span := max (sp_span s) e, sp_space := sp_space s + length (snd t) + 16\<rparr>"

lemma Packet_AddByteTag_range_ok:
  assumes i: "pk_inv w (add_mset p P)" and s: "pk_is w p s" and n: "st \<le> e" "int e < 2 ^ 30" "int (sp_space s + length bytes + 16) < 2 ^ 32"
  shows "pk_yields w P (Packet_AddByteTag_range tid bytes st e p w) (put_tag st e (tid, bytes) s)"
proof -
  note a = pk_parts [OF i s]
  have M: "e \<le> max (sp_span s) e" "sp_span s \<le> max (sp_span s) e" "int (max (sp_span s) e) < 2 ^ 30" using a(9) n(2) by simp_all
  obtain l ht where l: "bt_Add tid bytes (int st) (int e) (pk_byteTagList p) (ph_byteTags w) = Some (l, ht)"
    "bt_yields (ph_byteTags w) (image_mset pk_byteTagList P) (Some (l, ht)) (max (sp_span s) e) (sp_space s + length bytes + 16)
      (tag_range st e (tid, bytes) (map snd (sp_bytes s)))"
    using bt_result [OF bt_Add_yields [OF a(2,5) n(3,1) M]] by blast
  have "i32 (int st) = int st" "i32 (int e) = int e" using n by (simp_all add: i32_nat)
  then show ?thesis unfolding Packet_AddByteTag_range_def put_tag_def using l n(1) yields_same [OF a(1,4)] leaves_same [OF a(3,6)] a(7) by (simp add: pk_yieldsI)
qed

lemma AddByteTag_whole: "Packet_AddByteTag tid bytes p w = Packet_AddByteTag_range tid bytes 0 (pk_GetSize p) p w"
  by (simp add: Packet_AddByteTag_def Packet_AddByteTag_range_def i32_def)

definition untag :: "spec_packet \<Rightarrow> spec_packet" where
  "untag s = s\<lparr>sp_bytes := plain (map fst (sp_bytes s))\<rparr>"

lemma Packet_RemoveAllByteTags_ok:
  assumes i: "pk_inv w (add_mset p P)" and s: "pk_is w p s"
  shows "pk_yields w P (Packet_RemoveAllByteTags p w) (untag s)"
proof -
  note a = pk_parts [OF i s]
  obtain l ht where "bt_RemoveAll (pk_byteTagList p) (ph_byteTags w) = Some (l, ht)"
    "bt_yields (ph_byteTags w) (image_mset pk_byteTagList P) (Some (l, ht)) (sp_span s) (sp_space s) (replicate (length (sp_bytes s)) [])"
    using bt_result [OF bt_RemoveAll_yields [OF a(2,9)]] by blast
  then show ?thesis unfolding Packet_RemoveAllByteTags_def untag_def using yields_same [OF a(1,4)] leaves_same [OF a(3,6)] a(7) by (simp add: pk_yieldsI)
qed

text \<open>An operation that changes only the packet tags.\<close>

lemma only_tags:
  assumes i: "pk_inv w (add_mset p P)" and s: "pk_is w p s" and "leaves (ph_tags w) (image_mset pk_packetTagList P) (m, hp) xs"
  shows "pk_yields w P (Some (p\<lparr>pk_packetTagList := m\<rparr>, w\<lparr>ph_tags := hp\<rparr>)) (s\<lparr>sp_tags := xs\<rparr>)"
proof -
  note a = pk_parts [OF i s]
  show ?thesis using yields_same [OF a(1,4)] same_list_yields [OF a(2,5)] assms(3) a(7) by (simp add: pk_yieldsI)
qed

lemma Packet_AddPacketTag_ok:
  assumes i: "pk_inv w (add_mset p P)" and s: "pk_is w p s" and t: "map_of (sp_tags s) (tg_tid tag) = None" "length (tg_bytes tag) < 2 ^ 32 - 1"
  shows "pk_yields w P (Packet_AddPacketTag tag p w) (s\<lparr>sp_tags := (tg_tid tag, tg_bytes tag) # sp_tags s\<rparr>)"
proof -
  note a = pk_parts [OF i s]
  obtain l' where "ptl_Add tag (pk_packetTagList p, ph_tags w) = Some l'"
    "leaves (ph_tags w) (image_mset pk_packetTagList P) l' ((tg_tid tag, tg_bytes tag) # sp_tags s)"
    using Add_ok [OF a(3,6) t] by blast
  then show ?thesis using only_tags [OF i s] by (cases l') (simp add: Packet_AddPacketTag_def)
qed

lemma Packet_RemovePacketTag_ok:
  assumes i: "pk_inv w (add_mset p P)" and s: "pk_is w p s"
  shows "\<exists>r. Packet_RemovePacketTag tid p w = Some (map_of (sp_tags s) tid, r) \<and> pk_yields w P (Some r) (s\<lparr>sp_tags := without_tag tid (sp_tags s)\<rparr>)"
proof -
  note a = pk_parts [OF i s]
  obtain l' where "ptl_Remove tid (pk_packetTagList p, ph_tags w) = Some (map_of (sp_tags s) tid, l')"
    "leaves (ph_tags w) (image_mset pk_packetTagList P) l' (without_tag tid (sp_tags s))"
    using Remove_ok [OF a(3,6)] by blast
  then show ?thesis using only_tags [OF i s] by (cases l') (simp add: Packet_RemovePacketTag_def)
qed

lemma Packet_ReplacePacketTag_ok:
  assumes i: "pk_inv w (add_mset p P)" and s: "pk_is w p s" and t: "length (tg_bytes tag) < 2 ^ 32 - 1"
    and same: "\<And>bs. map_of (sp_tags s) (tg_tid tag) = Some bs \<Longrightarrow> length (tg_bytes tag) = length bs"
  shows "\<exists>r. Packet_ReplacePacketTag tag p w = Some (map_of (sp_tags s) (tg_tid tag) \<noteq> None, r) \<and>
    pk_yields w P (Some r) (s\<lparr>sp_tags := if map_of (sp_tags s) (tg_tid tag) = None then (tg_tid tag, tg_bytes tag) # sp_tags s
      else with_tag (tg_tid tag, tg_bytes tag) (sp_tags s)\<rparr>)"
proof -
  note a = pk_parts [OF i s]
  obtain l' where "ptl_Replace tag (pk_packetTagList p, ph_tags w) = Some (map_of (sp_tags s) (tg_tid tag) \<noteq> None, l')"
    "leaves (ph_tags w) (image_mset pk_packetTagList P) l'
      (if map_of (sp_tags s) (tg_tid tag) = None then (tg_tid tag, tg_bytes tag) # sp_tags s else with_tag (tg_tid tag, tg_bytes tag) (sp_tags s))"
    using Replace_ok [OF a(3,6) t same] by blast
  then show ?thesis using only_tags [OF i s] by (cases l') (simp add: Packet_ReplacePacketTag_def)
qed

lemma Packet_RemoveAllPacketTags_ok:
  assumes i: "pk_inv w (add_mset p P)" and s: "pk_is w p s"
  shows "pk_yields w P (Packet_RemoveAllPacketTags p w) (s\<lparr>sp_tags := []\<rparr>)"
proof -
  note a = pk_parts [OF i s]
  obtain h' where "ptl_RemoveAll (pk_packetTagList p, ph_tags w) = Some (nullptr, h')"
    "leaves (ph_tags w) (image_mset pk_packetTagList P) (nullptr, h') []"
    using tags_destroy_ok [OF a(3)] by (auto simp: leaves_def)
  then show ?thesis using only_tags [OF i s] by (simp add: Packet_RemoveAllPacketTags_def)
qed

lemma Packet_PeekPacketTag_ok:
  "pk_is w p s \<Longrightarrow> Packet_PeekPacketTag tid p w = Some (map_of (sp_tags s) tid)"
  using find_tag_eq by (simp add: Packet_PeekPacketTag_def ptl_Peek_def pk_is_def)

text \<open>The iterator over the byte tags; the first tag of a type.\<close>

lemma Packet_items_ok:
  assumes i: "pk_inv w (add_mset p P)" and s: "pk_is w p s"
  shows "\<exists>i xs. Packet_GetByteTagIterator p w = Some i \<and> bi_items i (ph_byteTags w) = Some xs \<and>
    (\<forall>k < length (sp_bytes s). items_at xs k = snd (sp_bytes s ! k)) \<and>
    (\<forall>x \<in> set xs. 0 \<le> item_start x \<and> item_end x \<le> int (length (sp_bytes s)))"
proof -
  note a = pk_parts [OF i s]
  have "i32 (int (pk_GetSize p)) = int (length (map snd (sp_bytes s)))" using a(7-9) by (simp add: i32_nat)
  then show ?thesis using bt_Begin_items [OF a(5)] a(7) by (auto simp: Packet_GetByteTagIterator_def)
qed

lemma find_matching_items:
  "bi_items i h = Some xs \<Longrightarrow> find_matching tid i h = Some (map_option item_buf (List.find (\<lambda>x. item_tid x = tid) xs))"
proof (induction i h arbitrary: xs rule: bi_items.induct)
  case (1 i h)
  show ?case
  proof (cases "bi_HasNext i")
    case True
    then obtain x i' ys where n: "bi_Next i h = Some (x, i')" "bi_items i' h = Some ys" "xs = x # ys"
      using "1.prems" by (auto simp: bi_items.simps [of i] split: option.splits)
    then show ?thesis using "1.IH" [OF True n(1) refl n(2)] True by (auto simp: find_matching.simps [of tid i])
  qed (use "1.prems" in \<open>simp add: bi_items.simps [of i] find_matching.simps [of tid i]\<close>)
qed

text \<open>A tag on some byte is found.\<close>

lemma Packet_Find_ok:
  assumes i: "pk_inv w (add_mset p P)" and s: "pk_is w p s"
    and k: "k < length (sp_bytes s)" "(tid, bs) \<in> set (snd (sp_bytes s ! k))"
  shows "\<exists>bs'. Packet_FindFirstMatchingByteTag tid p w = Some (Some bs')"
proof -
  obtain i xs where x: "Packet_GetByteTagIterator p w = Some i" "bi_items i (ph_byteTags w) = Some xs" "items_at xs k = snd (sp_bytes s ! k)"
    using Packet_items_ok [OF assms(1,2)] k(1) by blast
  have "(tid, bs) \<in> set (items_at xs k)" using x(3) k(2) by simp
  then obtain x where "x \<in> set xs" "item_tid x = tid" by (auto simp: items_at_def)
  then have "List.find (\<lambda>x. item_tid x = tid) xs \<noteq> None" by (auto simp: find_None_iff)
  then show ?thesis using x(1) find_matching_items [OF x(2)] by (auto simp: Packet_FindFirstMatchingByteTag_def)
qed

end
