(* ===== verification/Packet_Pool.thy ===== *)
theory Packet_Pool
  imports Packet_Correct
begin

text \<open>
  The refinement theorem of packets: whatever the order of the operations, the packets of a program behave as
  independent lists of bytes with their tags.
\<close>

section \<open>Operations on many packets\<close>

datatype packet_op =
    PkNew nat
  | PkData "u8 list"
  | PkCopy nat
  | PkAssign nat nat
  | PkDestroy nat
  | PkAddHeader nat "u8 list"
  | PkAddTrailer nat "u8 list"
  | PkRemoveAtStart nat nat
  | PkRemoveAtEnd nat nat
  | PkFragment nat nat nat
  | PkAddByteTag nat u32 "u8 list"
  | PkAddByteTagRange nat u32 "u8 list" nat nat
  | PkRemoveAllByteTags nat
  | PkAddPacketTag nat Tag
  | PkRemovePacketTag nat u16
  | PkReplacePacketTag nat Tag
  | PkPeekPacketTag nat u16
  | PkRemoveAllPacketTags nat

type_synonym packet_pool = "Packet list \<times> packet_heap"

definition pk_join :: "Packet list \<Rightarrow> packet_result \<Rightarrow> (tag_answer \<times> packet_pool) option" where
  "pk_join ps r = do { (p, w) \<leftarrow> r; Some (NoAnswer, ps @ [p], w) }"

definition pk_replace :: "nat \<Rightarrow> Packet list \<Rightarrow> (tag_answer \<times> Packet \<times> packet_heap) option \<Rightarrow> (tag_answer \<times> packet_pool) option" where
  "pk_replace i ps r = do { (a, p, w) \<leftarrow> r; Some (a, ps[i := p], w) }"

definition silent :: "packet_result \<Rightarrow> (tag_answer \<times> Packet \<times> packet_heap) option" where
  "silent r = do { (p, w) \<leftarrow> r; Some (NoAnswer, p, w) }"

fun packet_step :: "packet_op \<Rightarrow> packet_pool \<Rightarrow> (tag_answer \<times> packet_pool) option" where
  "packet_step (PkNew n) (ps, w) = pk_join ps (Packet_new n w)"
| "packet_step (PkData bs) (ps, w) = pk_join ps (Packet_data bs w)"
| "packet_step (PkCopy i) (ps, w) = pk_join ps (Packet_copy (ps ! i) w)"
| "packet_step (PkAssign i j) (ps, w) = pk_replace i ps (silent (Packet_assign (ps ! i) (ps ! j) w))"
| "packet_step (PkDestroy i) (ps, w) = do { w \<leftarrow> Packet_destroy (ps ! i) w; Some (NoAnswer, remove_nth i ps, w) }"
| "packet_step (PkAddHeader i bs) (ps, w) = pk_replace i ps (silent (Packet_AddHeader (length bs) (WriteU8s bs) (ps ! i) w))"
| "packet_step (PkAddTrailer i bs) (ps, w) = pk_replace i ps (silent (Packet_AddTrailer (length bs) (trailer bs) (ps ! i) w))"
| "packet_step (PkRemoveAtStart i n) (ps, w) = pk_replace i ps (silent (map_option (\<lambda>p. (p, w)) (Packet_RemoveAtStart n (ps ! i))))"
| "packet_step (PkRemoveAtEnd i n) (ps, w) = pk_replace i ps (silent (Some (Packet_RemoveAtEnd n (ps ! i), w)))"
| "packet_step (PkFragment i s n) (ps, w) = pk_join ps (Packet_CreateFragment s n (ps ! i) w)"
| "packet_step (PkAddByteTag i tid bs) (ps, w) = pk_replace i ps (silent (Packet_AddByteTag tid bs (ps ! i) w))"
| "packet_step (PkAddByteTagRange i tid bs s e) (ps, w) = pk_replace i ps (silent (Packet_AddByteTag_range tid bs s e (ps ! i) w))"
| "packet_step (PkRemoveAllByteTags i) (ps, w) = pk_replace i ps (silent (Packet_RemoveAllByteTags (ps ! i) w))"
| "packet_step (PkAddPacketTag i tag) (ps, w) = pk_replace i ps (silent (Packet_AddPacketTag tag (ps ! i) w))"
| "packet_step (PkRemovePacketTag i tid) (ps, w) = pk_replace i ps (map_option (map_prod FoundTag id) (Packet_RemovePacketTag tid (ps ! i) w))"
| "packet_step (PkReplacePacketTag i tag) (ps, w) = pk_replace i ps (map_option (map_prod Replaced id) (Packet_ReplacePacketTag tag (ps ! i) w))"
| "packet_step (PkPeekPacketTag i tid) (ps, w) = do { r \<leftarrow> Packet_PeekPacketTag tid (ps ! i) w; Some (FoundTag r, ps, w) }"
| "packet_step (PkRemoveAllPacketTags i) (ps, w) = pk_replace i ps (silent (Packet_RemoveAllPacketTags (ps ! i) w))"

fun packet_run :: "packet_op list \<Rightarrow> packet_pool \<Rightarrow> (tag_answer list \<times> packet_pool) option" where
  "packet_run [] s = Some ([], s)"
| "packet_run (x # xs) s = do { (r, s) \<leftarrow> packet_step x s; (rs, s) \<leftarrow> packet_run xs s; Some (r # rs, s) }"

text \<open>
  The specification of an operation on one packet: the answer and the packet afterwards. An operation is allowed while the offsets
  of the byte tags stay below \<open>2 ^ 30\<close> and their storage below \<open>2 ^ 32\<close> bytes.
\<close>

definition fits :: "nat \<Rightarrow> bool" where
  "fits n \<longleftrightarrow> int n < 2 ^ 30"

fun spec_change :: "packet_op \<Rightarrow> spec_packet \<Rightarrow> (tag_answer \<times> spec_packet) option" where
  "spec_change (PkAddHeader i bs) s =
     (if fits (sp_span s + length bs) then Some (NoAnswer, put_bytes (plain (map Some bs) @ sp_bytes s) (length bs) s) else None)"
| "spec_change (PkAddTrailer i bs) s =
     (if fits (sp_span s + length bs) then Some (NoAnswer, put_bytes (sp_bytes s @ plain (map Some bs)) (length bs) s) else None)"
| "spec_change (PkRemoveAtStart i n) s = (if fits (sp_span s + n) then Some (NoAnswer, put_bytes (drop n (sp_bytes s)) n s) else None)"
| "spec_change (PkRemoveAtEnd i n) s = Some (NoAnswer, put_bytes (take (length (sp_bytes s) - n) (sp_bytes s)) 0 s)"
| "spec_change (PkAddByteTag i tid bs) s =
     (if int (sp_space s + length bs + 16) < 2 ^ 32 then Some (NoAnswer, put_tag 0 (length (sp_bytes s)) (tid, bs) s) else None)"
| "spec_change (PkAddByteTagRange i tid bs st e) s =
     (if st \<le> e \<and> fits e \<and> int (sp_space s + length bs + 16) < 2 ^ 32 then Some (NoAnswer, put_tag st e (tid, bs) s) else None)"
| "spec_change (PkRemoveAllByteTags i) s = Some (NoAnswer, untag s)"
| "spec_change (PkAddPacketTag i tag) s =
     (if map_of (sp_tags s) (tg_tid tag) = None \<and> length (tg_bytes tag) < 2 ^ 32 - 1
      then Some (NoAnswer, s\<lparr>sp_tags := (tg_tid tag, tg_bytes tag) # sp_tags s\<rparr>) else None)"
| "spec_change (PkRemovePacketTag i tid) s = Some (FoundTag (map_of (sp_tags s) tid), s\<lparr>sp_tags := without_tag tid (sp_tags s)\<rparr>)"
| "spec_change (PkReplacePacketTag i tag) s =
     (if length (tg_bytes tag) < 2 ^ 32 - 1 \<and> (\<forall>bs \<in> set_option (map_of (sp_tags s) (tg_tid tag)). length (tg_bytes tag) = length bs)
      then Some (Replaced (map_of (sp_tags s) (tg_tid tag) \<noteq> None),
        s\<lparr>sp_tags := if map_of (sp_tags s) (tg_tid tag) = None then (tg_tid tag, tg_bytes tag) # sp_tags s
                     else with_tag (tg_tid tag, tg_bytes tag) (sp_tags s)\<rparr>)
      else None)"
| "spec_change (PkRemoveAllPacketTags i) s = Some (NoAnswer, s\<lparr>sp_tags := []\<rparr>)"
| "spec_change _ s = None"

text \<open>The packet that an operation changes.\<close>

fun changes :: "packet_op \<Rightarrow> nat option" where
  "changes (PkAddHeader i bs) = Some i"
| "changes (PkAddTrailer i bs) = Some i"
| "changes (PkRemoveAtStart i n) = Some i"
| "changes (PkRemoveAtEnd i n) = Some i"
| "changes (PkAddByteTag i tid bs) = Some i"
| "changes (PkAddByteTagRange i tid bs s e) = Some i"
| "changes (PkRemoveAllByteTags i) = Some i"
| "changes (PkAddPacketTag i tag) = Some i"
| "changes (PkRemovePacketTag i tid) = Some i"
| "changes (PkReplacePacketTag i tag) = Some i"
| "changes (PkRemoveAllPacketTags i) = Some i"
| "changes _ = None"

definition new_packet :: "u8 option list \<Rightarrow> spec_packet" where
  "new_packet bs = \<lparr>sp_bytes = plain bs, sp_tags = [], sp_span = length bs, sp_space = 0\<rparr>"

fun packet_spec :: "packet_op \<Rightarrow> spec_packet list \<Rightarrow> (tag_answer \<times> spec_packet list) option" where
  "packet_spec (PkNew n) ss = (if fits n then Some (NoAnswer, ss @ [new_packet (replicate n (Some 0))]) else None)"
| "packet_spec (PkData bs) ss = (if fits (length bs) then Some (NoAnswer, ss @ [new_packet (map Some bs)]) else None)"
| "packet_spec (PkCopy i) ss = (if i < length ss then Some (NoAnswer, ss @ [ss ! i]) else None)"
| "packet_spec (PkAssign i j) ss = (if i < length ss \<and> j < length ss \<and> i \<noteq> j then Some (NoAnswer, ss[i := ss ! j]) else None)"
| "packet_spec (PkDestroy i) ss = (if i < length ss then Some (NoAnswer, remove_nth i ss) else None)"
| "packet_spec (PkFragment i s n) ss =
     (if i < length ss \<and> s + n \<le> length (sp_bytes (ss ! i)) \<and> fits (sp_span (ss ! i) + s)
      then Some (NoAnswer, ss @ [put_bytes (take n (drop s (sp_bytes (ss ! i)))) s (ss ! i)]) else None)"
| "packet_spec (PkPeekPacketTag i tid) ss = (if i < length ss then Some (FoundTag (map_of (sp_tags (ss ! i)) tid), ss) else None)"
| "packet_spec x ss =
     do { i \<leftarrow> changes x; if i < length ss then do { (a, s) \<leftarrow> spec_change x (ss ! i); Some (a, ss[i := s]) } else None }"

fun packet_spec_run :: "packet_op list \<Rightarrow> spec_packet list \<Rightarrow> (tag_answer list \<times> spec_packet list) option" where
  "packet_spec_run [] ss = Some ([], ss)"
| "packet_spec_run (x # xs) ss = do { (r, ss) \<leftarrow> packet_spec x ss; (rs, ss) \<leftarrow> packet_spec_run xs ss; Some (r # rs, ss) }"

section \<open>Refinement\<close>

definition pk_rel :: "packet_pool \<Rightarrow> spec_packet list \<Rightarrow> bool" where
  "pk_rel pw ss \<longleftrightarrow> pk_inv (snd pw) (mset (fst pw)) \<and> list_all2 (pk_is (snd pw)) (fst pw) ss"

lemma pk_at:
  assumes "pk_rel (ps, w) ss" and "i < length ss"
  shows "pk_inv w (add_mset (ps ! i) (mset (remove_nth i ps)))" "pk_is w (ps ! i) (ss ! i)" "i < length ps"
  using assms mset_remove_nth [of i ps] by (auto simp: pk_rel_def list_all2_conv_all_nth)

lemma pk_replaced:
  assumes r: "pk_rel (ps, w) ss" and i: "i < length ss" and y: "pk_yields w (mset (remove_nth i ps)) (Some (p, w')) s"
  shows "pk_rel (ps[i := p], w') (ss[i := s])"
proof -
  have y: "pk_inv w' (add_mset p (mset (remove_nth i ps)))" "pk_frames (mset (remove_nth i ps)) w w'" "pk_is w' p s" using y by (simp_all add: pk_yields_def)
  have "list_all2 (pk_is w') (ps[i := p]) (ss[i := s])"
  proof (rule list_all2_all_nthI)
    show "length (ps[i := p]) = length (ss[i := s])" using r by (auto simp: pk_rel_def dest: list_all2_lengthD)
    fix j assume "j < length (ps[i := p])"
    then show "pk_is w' (ps[i := p] ! j) (ss[i := s] ! j)"
      using r i y(2,3) set_remove_nth [of i ps j] by (cases "j = i") (auto simp: pk_rel_def pk_frames_def list_all2_conv_all_nth)
  qed
  then show ?thesis using pk_at(3) [OF r i] y(1) by (simp add: pk_rel_def mset_update_nth)
qed

lemma pk_framed: "pk_frames P w w' \<Longrightarrow> set ps \<subseteq> set_mset P \<Longrightarrow> list_all2 (pk_is w) ps ss \<Longrightarrow> list_all2 (pk_is w') ps ss"
  unfolding pk_frames_def by (metis (no_types, lifting) list.rel_mono_strong subsetD)

lemma pk_joined:
  assumes "pk_rel (ps, w) ss" and "pk_yields w (mset ps) r s"
  shows "\<exists>pw. pk_join ps r = Some (NoAnswer, pw) \<and> pk_rel pw (ss @ [s])"
proof -
  obtain p w' where y: "r = Some (p, w')" "pk_inv w' (add_mset p (mset ps))" "pk_frames (mset ps) w w'" "pk_is w' p s" using assms(2) by (auto simp: pk_yields_def)
  have "pk_rel (ps @ [p], w') (ss @ [s])" using assms(1) y(2,4) pk_framed [OF y(3), of ps ss] by (simp add: pk_rel_def list_all2_appendI)
  then show ?thesis using y(1) by (simp add: pk_join_def)
qed

lemma pk_changed:
  assumes "pk_rel (ps, w) ss" and "i < length ss" and "r = Some (a, x)" and "pk_yields w (mset (remove_nth i ps)) (Some x) s"
  shows "\<exists>pw. pk_replace i ps r = Some (a, pw) \<and> pk_rel pw (ss[i := s])"
  using pk_replaced [OF assms(1,2), of "fst x" "snd x" s] assms(3,4) by (cases x) (simp add: pk_replace_def)

lemma pk_silent:
  assumes "pk_rel (ps, w) ss" and "i < length ss" and "pk_yields w (mset (remove_nth i ps)) r s"
  shows "\<exists>pw. pk_replace i ps (silent r) = Some (NoAnswer, pw) \<and> pk_rel pw (ss[i := s])"
proof -
  obtain p w' where "r = Some (p, w')" using assms(3) by (auto simp: pk_yields_def)
  then show ?thesis using pk_changed [OF assms(1,2), of "silent r" NoAnswer "(p, w')"] assms(3) by (simp add: silent_def)
qed

lemma change_refines:
  assumes r: "pk_rel (ps, w) ss" and i: "i < length ss" and x: "changes x = Some i" and c: "spec_change x (ss ! i) = Some (a, s)"
  shows "\<exists>pw. packet_step x (ps, w) = Some (a, pw) \<and> pk_rel pw (ss[i := s])"
proof -
  note at = pk_at [OF r i] and q = pk_silent [OF r i]
  show ?thesis
  proof (cases x)
    case (PkAddHeader j bs)
    then show ?thesis using x c q [OF Packet_AddHeader_ok [OF at(1,2) _ emits_WriteU8s, of bs]] by (auto simp: fits_def split: if_splits)
  next
    case (PkAddTrailer j bs)
    then show ?thesis using x c q [OF Packet_AddTrailer_ok [OF at(1,2), of bs]] by (auto simp: fits_def split: if_splits)
  next
    case (PkRemoveAtStart j n)
    then show ?thesis using x c q [OF Packet_RemoveAtStart_ok [OF at(1,2), of n]] by (auto simp: fits_def split: if_splits)
  next
    case (PkRemoveAtEnd j n)
    then show ?thesis using x c q [OF Packet_RemoveAtEnd_ok [OF at(1,2), of n]] by auto
  next
    case (PkAddByteTag j tid bs)
    have "pk_GetSize (ps ! i) = length (sp_bytes (ss ! i))" "int (length (sp_bytes (ss ! i))) < 2 ^ 30" using pk_parts [OF at(1,2)] by simp_all
    then show ?thesis using PkAddByteTag x c q [OF Packet_AddByteTag_range_ok [OF at(1,2), of 0 "length (sp_bytes (ss ! i))" bs tid]]
      by (auto simp: AddByteTag_whole split: if_splits)
  next
    case (PkAddByteTagRange j tid bs st e)
    then show ?thesis using x c q [OF Packet_AddByteTag_range_ok [OF at(1,2), of st e bs tid]] by (auto simp: fits_def split: if_splits)
  next
    case (PkRemoveAllByteTags j)
    then show ?thesis using x c q [OF Packet_RemoveAllByteTags_ok [OF at(1,2)]] by auto
  next
    case (PkAddPacketTag j tag)
    then show ?thesis using x c q [OF Packet_AddPacketTag_ok [OF at(1,2), of tag]] by (auto split: if_splits)
  next
    case (PkRemovePacketTag j tid)
    obtain y where "Packet_RemovePacketTag tid (ps ! i) w = Some (map_of (sp_tags (ss ! i)) tid, y)"
      "pk_yields w (mset (remove_nth i ps)) (Some y) ((ss ! i)\<lparr>sp_tags := without_tag tid (sp_tags (ss ! i))\<rparr>)"
      using Packet_RemovePacketTag_ok [OF at(1,2)] by blast
    then show ?thesis using PkRemovePacketTag x c pk_changed [OF r i refl] by auto
  next
    case (PkReplacePacketTag j tag)
    then have t: "length (tg_bytes tag) < 2 ^ 32 - 1" "\<And>bs. map_of (sp_tags (ss ! i)) (tg_tid tag) = Some bs \<Longrightarrow> length (tg_bytes tag) = length bs"
      "a = Replaced (map_of (sp_tags (ss ! i)) (tg_tid tag) \<noteq> None)"
      "s = (ss ! i)\<lparr>sp_tags := if map_of (sp_tags (ss ! i)) (tg_tid tag) = None then (tg_tid tag, tg_bytes tag) # sp_tags (ss ! i)
        else with_tag (tg_tid tag, tg_bytes tag) (sp_tags (ss ! i))\<rparr>"
      using c by (auto split: if_splits)
    obtain y where "Packet_ReplacePacketTag tag (ps ! i) w = Some (map_of (sp_tags (ss ! i)) (tg_tid tag) \<noteq> None, y)"
      "pk_yields w (mset (remove_nth i ps)) (Some y) s"
      using Packet_ReplacePacketTag_ok [OF at(1,2) t(1,2)] t(4) by blast
    then show ?thesis using PkReplacePacketTag x t(3) pk_changed [OF r i refl] by auto
  next
    case (PkRemoveAllPacketTags j)
    then show ?thesis using x c q [OF Packet_RemoveAllPacketTags_ok [OF at(1,2)]] by auto
  qed (use x in simp_all)
qed

lemma packet_step_refines:
  assumes r: "pk_rel (ps, w) ss" and x: "packet_spec x ss = Some (a, ss')"
  shows "\<exists>pw. packet_step x (ps, w) = Some (a, pw) \<and> pk_rel pw ss'"
proof (cases "changes x")
  case (Some i)
  then have "i < length ss \<and> (\<exists>s. spec_change x (ss ! i) = Some (a, s) \<and> ss' = ss[i := s])"
    using x by (cases x) (auto simp: bind_eq_Some_conv split: if_splits)
  then show ?thesis using change_refines [OF r _ Some] by blast
next
  case None
  have inv: "pk_inv w (mset ps)" using r by (simp add: pk_rel_def)
  have all: "add_mset (ps ! i) (mset (remove_nth i ps)) = mset ps" if "i < length ss" for i using pk_at(3) [OF r that] mset_remove_nth [of i ps] by simp
  show ?thesis
  proof (cases x)
    case (PkNew n)
    then show ?thesis using x pk_joined [OF r Packet_new_ok [OF inv, of n]] by (auto simp: fits_def new_packet_def split: if_splits)
  next
    case (PkData bs)
    then show ?thesis using x pk_joined [OF r Packet_data_ok [OF inv, of bs]] by (auto simp: fits_def new_packet_def split: if_splits)
  next
    case (PkCopy i)
    then have i: "i < length ss" using x by (auto split: if_splits)
    then show ?thesis using x PkCopy pk_joined [OF r] Packet_copy_ok [OF pk_at(1,2) [OF r i]] all [OF i] by auto
  next
    case (PkAssign i j)
    then have i: "i < length ss" "j < length ss" "i \<noteq> j" using x by (auto split: if_splits)
    have "ps ! j \<in># mset (remove_nth i ps)" using set_remove_nth [of i ps j] pk_at(3) [OF r] i by auto
    then show ?thesis using x PkAssign i pk_silent [OF r i(1) Packet_assign_ok [OF pk_at(1) [OF r i(1)] _ pk_at(2) [OF r i(2)]]] by auto
  next
    case (PkDestroy i)
    then have i: "i < length ss" using x by (auto split: if_splits)
    obtain w' where w': "Packet_destroy (ps ! i) w = Some w'" "pk_inv w' (mset (remove_nth i ps))" "pk_frames (mset (remove_nth i ps)) w w'"
      using Packet_destroy_ok [OF pk_at(1) [OF r i]] by blast
    have "list_all2 (pk_is w') (remove_nth i ps) (remove_nth i ss)"
      using pk_framed [OF w'(3)] all2_remove_nth [of "pk_is w" ps ss i] r by (simp add: pk_rel_def)
    then show ?thesis using x PkDestroy i w' by (auto simp: pk_rel_def)
  next
    case (PkFragment i st n)
    then have i: "i < length ss" "st + n \<le> length (sp_bytes (ss ! i))" "int (sp_span (ss ! i) + st) < 2 ^ 30" using x by (auto simp: fits_def split: if_splits)
    then show ?thesis using x PkFragment pk_joined [OF r] Packet_CreateFragment_ok [OF pk_at(1,2) [OF r i(1)] i(2,3)] all [OF i(1)] by (auto simp: fits_def)
  next
    case (PkPeekPacketTag i tid)
    then show ?thesis using x r Packet_PeekPacketTag_ok [OF pk_at(2) [OF r, of i], of tid] by (auto split: if_splits)
  qed (use None in simp_all)
qed

lemma packet_run_refines:
  "pk_rel pw ss \<Longrightarrow> packet_spec_run xs ss = Some (rs, ss') \<Longrightarrow> \<exists>pw'. packet_run xs pw = Some (rs, pw') \<and> pk_rel pw' ss'"
proof (induction xs arbitrary: pw ss rs)
  case (Cons x xs)
  then obtain r ss1 rs1 where 1: "packet_spec x ss = Some (r, ss1)" "packet_spec_run xs ss1 = Some (rs1, ss')" "rs = r # rs1"
    by (auto simp: bind_eq_Some_conv)
  obtain pw1 where "packet_step x pw = Some (r, pw1)" "pk_rel pw1 ss1"
    using packet_step_refines [of "fst pw" "snd pw" ss x r ss1] Cons.prems(1) 1(1) by auto
  then show ?case using Cons.IH [OF _ 1(2)] 1(3) by fastforce
qed simp

definition btl_heap_init :: btl_heap where
  "btl_heap_init = \<lparr>bds = Map.empty, bt_freeList = [], bt_maxSize = 0, bt_fresh = 1\<rparr>"

definition packet_heap_init :: packet_heap where
  "packet_heap_init = \<lparr>ph_buffers = buf_heap_init, ph_byteTags = btl_heap_init, ph_tags = tag_heap_init\<rparr>"

lemma pk_rel_init: "pk_rel ([], packet_heap_init) []"
  using tag_rel_init by (simp add: pk_rel_def pk_inv_def packet_heap_init_def buf_inv_init btl_inv_def btl_heap_init_def tag_rel_def)

text \<open>What a program can see of a packet: its bytes, the tags that the iterator gives for each byte, and its packet tags.\<close>

definition shows_packet :: "packet_heap \<Rightarrow> Packet \<Rightarrow> spec_packet \<Rightarrow> bool" where
  "shows_packet w p s \<longleftrightarrow>
     content (ph_buffers w) (pk_buffer p) = map fst (sp_bytes s) \<and>
     (\<exists>i items. Packet_GetByteTagIterator p w = Some i \<and> bi_items i (ph_byteTags w) = Some items \<and>
        map (items_at items) [0..<length (sp_bytes s)] = map snd (sp_bytes s)) \<and>
     holds (ph_tags w) (pk_packetTagList p) (sp_tags s)"

lemma is_shows: "pk_inv w (add_mset p P) \<Longrightarrow> pk_is w p s \<Longrightarrow> shows_packet w p s"
proof -
  assume i: "pk_inv w (add_mset p P)" and s: "pk_is w p s"
  obtain i items where "Packet_GetByteTagIterator p w = Some i" "bi_items i (ph_byteTags w) = Some items"
    "\<forall>k < length (sp_bytes s). items_at items k = snd (sp_bytes s ! k)" using Packet_items_ok [OF i s] by blast
  moreover from this have "map (items_at items) [0..<length (sp_bytes s)] = map snd (sp_bytes s)" by (intro nth_equalityI) simp_all
  ultimately show ?thesis using s by (auto simp: shows_packet_def pk_is_def)
qed

lemma rel_shows: "pk_rel (ps, w) ss \<Longrightarrow> list_all2 (shows_packet w) ps ss"
proof (rule list_all2_all_nthI)
  assume r: "pk_rel (ps, w) ss"
  then show len: "length ps = length ss" by (auto simp: pk_rel_def list_all2_lengthD)
  show "shows_packet w (ps ! k) (ss ! k)" if "k < length ps" for k using is_shows [OF pk_at(1,2) [OF r]] len that by simp
qed

section \<open>Properties\<close>

text \<open>
  C5: Packets are independent, and bytes keep their tags. Take any sequence of constructions, copies, assignments, destructions,
  headers and trailers added, bytes removed at both ends, fragments, byte tags on all bytes or on a range, and changes of packet tags,
  that the specification allows (the offsets of byte tags stay below \<open>2 ^ 30\<close> and their storage below \<open>2 ^ 32\<close>). Then every
  operation succeeds and answers as the specification says, and every packet shows the bytes of the specification,
  its iterator gives for every byte exactly the tags that were put on that byte, in the order in which they
  were added, and it has the packet tags of the specification; although buffers, byte tags and packet tags are shared between
  packets and copied only when they must be.
\<close>

theorem packets_refine:
  assumes "packet_spec_run xs [] = Some (answers, ss)"
  shows "\<exists>ps w. packet_run xs ([], packet_heap_init) = Some (answers, ps, w) \<and> pk_inv w (mset ps) \<and> list_all2 (shows_packet w) ps ss"
proof -
  obtain ps w where "packet_run xs ([], packet_heap_init) = Some (answers, ps, w)" "pk_rel (ps, w) ss"
    using packet_run_refines [OF pk_rel_init assms] by auto
  then show ?thesis using rel_shows by (auto simp: pk_rel_def)
qed

text \<open>A packet of two bytes is tagged, gets a header, is cut to a fragment, and loses bytes and gets others.\<close>

definition example_packet_ops :: "packet_op list" where
  "example_packet_ops = [PkData [1, 2], PkAddByteTag 0 7 [70], PkAddHeader 0 [9], PkAddByteTagRange 0 8 [80] 0 2, PkFragment 0 1 2,
     PkRemoveAtEnd 0 1, PkAddTrailer 0 [5], PkRemoveAtStart 0 1, PkAddHeader 0 [6], PkAddPacketTag 0 \<lparr>tg_tid = 3, tg_bytes = [30]\<rparr>,
     PkCopy 0, PkRemovePacketTag 0 3, PkPeekPacketTag 0 3]"

definition example_packets :: "spec_packet list" where
  "example_packets =
     [\<lparr>sp_bytes = [(Some 6, []), (Some 1, [(7, [70]), (8, [80])]), (Some 5, [])], sp_tags = [], sp_span = 6, sp_space = 34\<rparr>,
      \<lparr>sp_bytes = [(Some 1, [(7, [70]), (8, [80])]), (Some 2, [(7, [70])])], sp_tags = [], sp_span = 4, sp_space = 34\<rparr>,
      \<lparr>sp_bytes = [(Some 6, []), (Some 1, [(7, [70]), (8, [80])]), (Some 5, [])], sp_tags = [(3, [30])], sp_span = 6, sp_space = 34\<rparr>]"

theorem packets_refine_witness:
  "\<exists>ps w. packet_run example_packet_ops ([], packet_heap_init) =
     Some (replicate 11 NoAnswer @ [FoundTag (Some [30]), FoundTag None], ps, w) \<and> pk_inv w (mset ps) \<and> list_all2 (shows_packet w) ps example_packets"
proof -
  have "packet_spec_run example_packet_ops [] = Some (replicate 11 NoAnswer @ [FoundTag (Some [30]), FoundTag None], example_packets)"
    by (simp add: example_packet_ops_def example_packets_def fits_def new_packet_def plain_def put_bytes_def put_tag_def tag_bytes_def, simp add: eval_nat_numeral)
  from packets_refine [OF this] show ?thesis .
qed


definition two_packets :: "packet_op list" where
  "two_packets = [PkData [1, 2], PkAddByteTag 0 7 [70], PkRemoveAtEnd 0 1, PkData [3, 4], PkAddByteTag 1 8 [80], PkRemoveAtStart 1 1]"



end
