(* ===== verification/Ordered_Map.thy ===== *)
theory Ordered_Map
  imports Ns3_Prelude
begin

text \<open>
  std::map: the list of its pairs, in the order of iteration, which is the order of the keys. The
  lookup \<open>find\<close> is \<open>map_of\<close>; \<open>om_insert\<close> is \<open>insert\<close>, which keeps a value that is there,
  \<open>om_set\<close> the assignment through operator[] or through an iterator.
\<close>

type_synonym ('k, 'v) omap = "('k \<times> 'v) list"

definition om_ok :: "('k :: linorder, 'v) omap \<Rightarrow> bool" where
  "om_ok m \<longleftrightarrow> sorted_wrt (<) (map fst m)"

fun om_insert :: "'k :: linorder \<Rightarrow> 'v \<Rightarrow> ('k, 'v) omap \<Rightarrow> ('k, 'v) omap" where
  "om_insert k v [] = [(k, v)]"
| "om_insert k v ((k', v') # m) =
     (if k < k' then (k, v) # (k', v') # m else if k = k' then (k', v') # m else (k', v') # om_insert k v m)"

fun om_set :: "'k :: linorder \<Rightarrow> 'v \<Rightarrow> ('k, 'v) omap \<Rightarrow> ('k, 'v) omap" where
  "om_set k v [] = [(k, v)]"
| "om_set k v ((k', v') # m) =
     (if k < k' then (k, v) # (k', v') # m else if k = k' then (k, v) # m else (k', v') # om_set k v m)"

definition om_erase :: "'k :: linorder \<Rightarrow> ('k, 'v) omap \<Rightarrow> ('k, 'v) omap" where
  "om_erase k m = filter (\<lambda>p. fst p \<noteq> k) m"

lemma om_ok_Nil [simp]: "om_ok []"
  by (simp add: om_ok_def)

lemma om_ok_Cons [simp]: "om_ok ((k, v) # m) \<longleftrightarrow> (\<forall>p \<in> set m. k < fst p) \<and> om_ok m"
  by (auto simp: om_ok_def)

lemma om_ok_distinct: "om_ok m \<Longrightarrow> distinct (map fst m)"
  by (auto simp: om_ok_def strict_sorted_iff)

lemma keys_om_insert [simp]: "fst ` set (om_insert k v m) = insert k (fst ` set m)"
  by (induction k v m rule: om_insert.induct) auto

lemma keys_om_set [simp]: "fst ` set (om_set k v m) = insert k (fst ` set m)"
  by (induction k v m rule: om_set.induct) auto

lemma om_ok_less: "om_ok ((k, v) # m) \<longleftrightarrow> (\<forall>k' \<in> fst ` set m. k < k') \<and> om_ok m"
  by auto

lemma om_ok_insert [simp]: "om_ok m \<Longrightarrow> om_ok (om_insert k v m)"
proof (induction k v m rule: om_insert.induct)
  case (2 k v k' v' m)
  have "k' < k \<Longrightarrow> om_ok ((k', v') # om_insert k v m)" using 2 unfolding om_ok_less keys_om_insert by auto
  then show ?case using 2(2) by auto
qed simp

lemma om_ok_set [simp]: "om_ok m \<Longrightarrow> om_ok (om_set k v m)"
proof (induction k v m rule: om_set.induct)
  case (2 k v k' v' m)
  have "k' < k \<Longrightarrow> om_ok ((k', v') # om_set k v m)" using 2 unfolding om_ok_less keys_om_set by auto
  then show ?case using 2(2) by auto
qed simp

lemma om_ok_filter [simp]: "om_ok m \<Longrightarrow> om_ok (filter P m)"
  by (induction m) auto

lemma om_ok_erase [simp]: "om_ok m \<Longrightarrow> om_ok (om_erase k m)"
  by (simp add: om_erase_def)

lemma om_ok_map_values [simp]: "om_ok (map (\<lambda>(k, v). (k, f k v)) m) \<longleftrightarrow> om_ok m"
  by (simp add: om_ok_def case_prod_beta comp_def)

lemma map_of_not_less: "\<forall>p \<in> set m. (k :: 'k :: linorder) < fst p \<Longrightarrow> map_of m k = None"
  by (fastforce simp: map_of_eq_None_iff)

lemma map_of_om_insert:
  "om_ok m \<Longrightarrow> map_of (om_insert k v m) = (case map_of m k of None \<Rightarrow> (map_of m)(k \<mapsto> v) | Some _ \<Rightarrow> map_of m)"
proof (induction k v m rule: om_insert.induct)
  case (2 k v k' v' m)
  then show ?case
  proof (cases k k' rule: linorder_cases)
    case less
    then have "\<forall>p \<in> set m. k < fst p" using 2(2) by auto
    then show ?thesis using less map_of_not_less [of m k] by auto
  next
    case greater
    then show ?thesis using 2 by (auto simp: fun_upd_twist split: option.splits)
  qed auto
qed auto

lemma map_of_om_set: "om_ok m \<Longrightarrow> map_of (om_set k v m) = (map_of m)(k \<mapsto> v)"
proof (induction k v m rule: om_set.induct)
  case (2 k v k' v' m)
  then show ?case by (cases k k' rule: linorder_cases) (auto simp: fun_upd_twist)
qed auto

lemma map_of_om_erase: "map_of (om_erase k m) = (map_of m)(k := None)"
  by (induction m) (auto simp: om_erase_def)

lemma map_of_filter:
  "distinct (map fst m) \<Longrightarrow> map_of (filter (\<lambda>(k, v). P k v) m) k = (case map_of m k of None \<Rightarrow> None | Some v \<Rightarrow> if P k v then Some v else None)"
  by (induction m) (auto simp: map_of_eq_None_iff image_iff split: option.splits)

lemma om_insert_last: "\<forall>p \<in> set m. fst p < k \<Longrightarrow> om_insert k v m = m @ [(k, v)]"
  by (induction k v m rule: om_insert.induct) auto

lemma length_om_insert: "map_of m k = None \<Longrightarrow> length (om_insert k v m) = Suc (length m)"
  by (induction k v m rule: om_insert.induct) (auto split: if_splits)

lemma om_insert_found: "om_ok m \<Longrightarrow> map_of m k = Some v' \<Longrightarrow> om_insert k v m = m"
proof (induction k v m rule: om_insert.induct)
  case (2 k v k' v'' m)
  have "k < k' \<Longrightarrow> map_of ((k', v'') # m) k = None" using 2(2) by (intro map_of_not_less) auto
  then show ?case using 2 by (cases k k' rule: linorder_cases) auto
qed simp

text \<open>Inserting pairs in the order of their keys, at the back.\<close>

lemma fold_om_insert:
  "om_ok (m @ xs) \<Longrightarrow> fold (\<lambda>(k, v). om_insert k v) xs m = m @ xs"
proof (induction xs arbitrary: m)
  case (Cons x xs)
  then have "om_ok ((m @ [x]) @ xs)" by simp
  moreover have "om_insert (fst x) (snd x) m = m @ [x]"
    using Cons.prems by (intro trans [OF om_insert_last]) (auto simp: om_ok_def sorted_wrt_append)
  ultimately show ?case using Cons.IH [of "m @ [x]"] by (simp add: case_prod_beta)
qed simp

end
