(* ===== verification/Aodv_Packet.thy ===== *)
theory Aodv_Packet
  imports Packet_Header Ordered_Map "HOL-Library.Signed_Division"
begin

unbundle bit_operations_syntax

text \<open>
  src/aodv/model/aodv-packet.cc: the messages of the AODV routing protocol and their headers. Every
  header class interprets the interface \<open>header_codec\<close>, so that a message survives its way
  through the byte buffer of a packet.
\<close>

section \<open>Addresses and times\<close>

type_synonym Ipv4Address = u32

text \<open>Time is an integer number of nanoseconds.\<close>

type_synonym Time = int

definition MilliSeconds :: "int \<Rightarrow> Time" where
  "MilliSeconds n = n * 1000000"

definition GetMilliSeconds :: "Time \<Rightarrow> int" where
  "GetMilliSeconds t = t sdiv 1000000"

definition WriteTo_Ipv4 :: "Ipv4Address \<Rightarrow> writer" where
  "WriteTo_Ipv4 ad = WriteHtonU32 ad"

definition ReadFrom_Ipv4 :: "Ipv4Address reader" where
  "ReadFrom_Ipv4 it h = ReadNtohU32 it h"

section \<open>TypeHeader\<close>

datatype MessageType = AODVTYPE_RREQ | AODVTYPE_RREP | AODVTYPE_RERR | AODVTYPE_RREP_ACK

fun MessageType_code :: "MessageType \<Rightarrow> u8" where
  "MessageType_code AODVTYPE_RREQ = 1"
| "MessageType_code AODVTYPE_RREP = 2"
| "MessageType_code AODVTYPE_RERR = 3"
| "MessageType_code AODVTYPE_RREP_ACK = 4"

record TypeHeader =
  th_type :: MessageType
  th_valid :: bool

definition mk_TypeHeader :: "MessageType \<Rightarrow> TypeHeader" where
  "mk_TypeHeader t = \<lparr>th_type = t, th_valid = True\<rparr>"

definition TypeHeader_GetSerializedSize :: "TypeHeader \<Rightarrow> nat" where
  "TypeHeader_GetSerializedSize x = 1"

definition TypeHeader_Serialize :: "TypeHeader \<Rightarrow> writer" where
  "TypeHeader_Serialize x = run_writers [WriteU8 (MessageType_code (th_type x))]"

definition TypeHeader_switch :: "TypeHeader \<Rightarrow> u8 \<Rightarrow> TypeHeader" where
  "TypeHeader_switch x type =
     (if type = 1 then \<lparr>th_type = AODVTYPE_RREQ, th_valid = True\<rparr>
      else if type = 2 then \<lparr>th_type = AODVTYPE_RREP, th_valid = True\<rparr>
      else if type = 3 then \<lparr>th_type = AODVTYPE_RERR, th_valid = True\<rparr>
      else if type = 4 then \<lparr>th_type = AODVTYPE_RREP_ACK, th_valid = True\<rparr>
      else x\<lparr>th_valid := False\<rparr>)"

definition TypeHeader_Deserialize :: "TypeHeader deserializer" where
  "TypeHeader_Deserialize x start h =
     deserialized start TypeHeader_GetSerializedSize
       (do { (type, i) \<leftarrow> ReadU8 start h; Some (TypeHeader_switch x type, i) })"

section \<open>RreqHeader\<close>

record RreqHeader =
  rq_flags :: u8
  rq_reserved :: u8
  rq_hopCount :: u8
  rq_requestID :: u32
  rq_dst :: Ipv4Address
  rq_dstSeqNo :: u32
  rq_origin :: Ipv4Address
  rq_originSeqNo :: u32

definition RreqHeader_GetSerializedSize :: "RreqHeader \<Rightarrow> nat" where
  "RreqHeader_GetSerializedSize x = 23"

definition RreqHeader_Serialize :: "RreqHeader \<Rightarrow> writer" where
  "RreqHeader_Serialize x = run_writers
     [WriteU8 (rq_flags x), WriteU8 (rq_reserved x), WriteU8 (rq_hopCount x), WriteHtonU32 (rq_requestID x),
      WriteTo_Ipv4 (rq_dst x), WriteHtonU32 (rq_dstSeqNo x), WriteTo_Ipv4 (rq_origin x), WriteHtonU32 (rq_originSeqNo x)]"

definition RreqHeader_read :: "RreqHeader reader" where
  "RreqHeader_read i h =
     do { (fl, i) \<leftarrow> ReadU8 i h; (re, i) \<leftarrow> ReadU8 i h; (ho, i) \<leftarrow> ReadU8 i h; (rid, i) \<leftarrow> ReadNtohU32 i h;
          (ds, i) \<leftarrow> ReadFrom_Ipv4 i h; (dn, i) \<leftarrow> ReadNtohU32 i h; (og, i) \<leftarrow> ReadFrom_Ipv4 i h; (on, i) \<leftarrow> ReadNtohU32 i h;
          Some (\<lparr>rq_flags = fl, rq_reserved = re, rq_hopCount = ho, rq_requestID = rid, rq_dst = ds, rq_dstSeqNo = dn,
                 rq_origin = og, rq_originSeqNo = on\<rparr>, i) }"

definition RreqHeader_Deserialize :: "RreqHeader deserializer" where
  "RreqHeader_Deserialize x start h = deserialized start RreqHeader_GetSerializedSize (RreqHeader_read start h)"

text \<open>Setting and clearing a bit of the flags.\<close>

definition set_flag :: "nat \<Rightarrow> bool \<Rightarrow> u8 \<Rightarrow> u8" where
  "set_flag n f flags = (if f then flags OR push_bit n 1 else flags AND NOT (push_bit n 1))"

definition get_flag :: "nat \<Rightarrow> u8 \<Rightarrow> bool" where
  "get_flag n flags \<longleftrightarrow> flags AND push_bit n 1 \<noteq> 0"

definition SetGratuitousRrep :: "bool \<Rightarrow> RreqHeader \<Rightarrow> RreqHeader" where
  "SetGratuitousRrep f x = x\<lparr>rq_flags := set_flag 5 f (rq_flags x)\<rparr>"

definition GetGratuitousRrep :: "RreqHeader \<Rightarrow> bool" where
  "GetGratuitousRrep x = get_flag 5 (rq_flags x)"

definition SetDestinationOnly :: "bool \<Rightarrow> RreqHeader \<Rightarrow> RreqHeader" where
  "SetDestinationOnly f x = x\<lparr>rq_flags := set_flag 4 f (rq_flags x)\<rparr>"

definition GetDestinationOnly :: "RreqHeader \<Rightarrow> bool" where
  "GetDestinationOnly x = get_flag 4 (rq_flags x)"

definition SetUnknownSeqno :: "bool \<Rightarrow> RreqHeader \<Rightarrow> RreqHeader" where
  "SetUnknownSeqno f x = x\<lparr>rq_flags := set_flag 3 f (rq_flags x)\<rparr>"

definition GetUnknownSeqno :: "RreqHeader \<Rightarrow> bool" where
  "GetUnknownSeqno x = get_flag 3 (rq_flags x)"

section \<open>RrepHeader\<close>

record RrepHeader =
  rp_flags :: u8
  rp_prefixSize :: u8
  rp_hopCount :: u8
  rp_dst :: Ipv4Address
  rp_dstSeqNo :: u32
  rp_origin :: Ipv4Address
  rp_lifeTime :: u32

definition mk_RrepHeader :: "u8 \<Rightarrow> u8 \<Rightarrow> Ipv4Address \<Rightarrow> u32 \<Rightarrow> Ipv4Address \<Rightarrow> Time \<Rightarrow> RrepHeader" where
  "mk_RrepHeader prefixSize hopCount dst dstSeqNo origin lifeTime =
     \<lparr>rp_flags = 0, rp_prefixSize = prefixSize, rp_hopCount = hopCount, rp_dst = dst, rp_dstSeqNo = dstSeqNo, rp_origin = origin,
      rp_lifeTime = word_of_int (GetMilliSeconds lifeTime)\<rparr>"

definition RrepHeader_GetSerializedSize :: "RrepHeader \<Rightarrow> nat" where
  "RrepHeader_GetSerializedSize x = 19"

definition RrepHeader_Serialize :: "RrepHeader \<Rightarrow> writer" where
  "RrepHeader_Serialize x = run_writers
     [WriteU8 (rp_flags x), WriteU8 (rp_prefixSize x), WriteU8 (rp_hopCount x), WriteTo_Ipv4 (rp_dst x),
      WriteHtonU32 (rp_dstSeqNo x), WriteTo_Ipv4 (rp_origin x), WriteHtonU32 (rp_lifeTime x)]"

definition RrepHeader_read :: "RrepHeader reader" where
  "RrepHeader_read i h =
     do { (fl, i) \<leftarrow> ReadU8 i h; (pr, i) \<leftarrow> ReadU8 i h; (ho, i) \<leftarrow> ReadU8 i h; (ds, i) \<leftarrow> ReadFrom_Ipv4 i h;
          (dn, i) \<leftarrow> ReadNtohU32 i h; (og, i) \<leftarrow> ReadFrom_Ipv4 i h; (lt, i) \<leftarrow> ReadNtohU32 i h;
          Some (\<lparr>rp_flags = fl, rp_prefixSize = pr, rp_hopCount = ho, rp_dst = ds, rp_dstSeqNo = dn, rp_origin = og, rp_lifeTime = lt\<rparr>, i) }"

definition RrepHeader_Deserialize :: "RrepHeader deserializer" where
  "RrepHeader_Deserialize x start h = deserialized start RrepHeader_GetSerializedSize (RrepHeader_read start h)"

definition SetLifeTime :: "Time \<Rightarrow> RrepHeader \<Rightarrow> RrepHeader" where
  "SetLifeTime t x = x\<lparr>rp_lifeTime := word_of_int (GetMilliSeconds t)\<rparr>"

definition GetLifeTime :: "RrepHeader \<Rightarrow> Time" where
  "GetLifeTime x = MilliSeconds (uint (rp_lifeTime x))"

definition SetAckRequired :: "bool \<Rightarrow> RrepHeader \<Rightarrow> RrepHeader" where
  "SetAckRequired f x = x\<lparr>rp_flags := set_flag 6 f (rp_flags x)\<rparr>"

definition GetAckRequired :: "RrepHeader \<Rightarrow> bool" where
  "GetAckRequired x = get_flag 6 (rp_flags x)"

definition SetHello :: "Ipv4Address \<Rightarrow> u32 \<Rightarrow> Time \<Rightarrow> RrepHeader \<Rightarrow> RrepHeader" where
  "SetHello origin srcSeqNo lifetime x =
     x\<lparr>rp_flags := 0, rp_prefixSize := 0, rp_hopCount := 0, rp_dst := origin, rp_dstSeqNo := srcSeqNo, rp_origin := origin,
       rp_lifeTime := word_of_int (GetMilliSeconds lifetime)\<rparr>"

section \<open>RrepAckHeader\<close>

record RrepAckHeader =
  ra_reserved :: u8

definition mk_RrepAckHeader :: RrepAckHeader where
  "mk_RrepAckHeader = \<lparr>ra_reserved = 0\<rparr>"

definition RrepAckHeader_GetSerializedSize :: "RrepAckHeader \<Rightarrow> nat" where
  "RrepAckHeader_GetSerializedSize x = 1"

definition RrepAckHeader_Serialize :: "RrepAckHeader \<Rightarrow> writer" where
  "RrepAckHeader_Serialize x = run_writers [WriteU8 (ra_reserved x)]"

definition RrepAckHeader_Deserialize :: "RrepAckHeader deserializer" where
  "RrepAckHeader_Deserialize x start h =
     deserialized start RrepAckHeader_GetSerializedSize (do { (re, i) \<leftarrow> ReadU8 start h; Some (\<lparr>ra_reserved = re\<rparr>, i) })"

section \<open>RerrHeader\<close>

record RerrHeader =
  re_flag :: u8
  re_reserved :: u8
  re_unreachable :: "(Ipv4Address, u32) omap"

definition mk_RerrHeader :: RerrHeader where
  "mk_RerrHeader = \<lparr>re_flag = 0, re_reserved = 0, re_unreachable = []\<rparr>"

definition GetDestCount :: "RerrHeader \<Rightarrow> u8" where
  "GetDestCount x = word_of_nat (length (re_unreachable x))"

definition RerrHeader_GetSerializedSize :: "RerrHeader \<Rightarrow> nat" where
  "RerrHeader_GetSerializedSize x = 3 + 8 * unat (GetDestCount x)"

definition RerrHeader_Serialize :: "RerrHeader \<Rightarrow> writer" where
  "RerrHeader_Serialize x = run_writers
     ([WriteU8 (re_flag x), WriteU8 (re_reserved x), WriteU8 (GetDestCount x)] @
      concat (map (\<lambda>(a, s). [WriteTo_Ipv4 a, WriteHtonU32 s]) (re_unreachable x)))"

fun RerrHeader_read_loop :: "nat \<Rightarrow> (Ipv4Address, u32) omap \<Rightarrow> (Ipv4Address, u32) omap reader" where
  "RerrHeader_read_loop 0 m i h = Some (m, i)"
| "RerrHeader_read_loop (Suc n) m i h =
     do { (address, i) \<leftarrow> ReadFrom_Ipv4 i h; (seqNo, i) \<leftarrow> ReadNtohU32 i h; RerrHeader_read_loop n (om_insert address seqNo m) i h }"

definition RerrHeader_read :: "RerrHeader reader" where
  "RerrHeader_read i h =
     do { (fl, i) \<leftarrow> ReadU8 i h; (re, i) \<leftarrow> ReadU8 i h; (dest, i) \<leftarrow> ReadU8 i h;
          (m, i) \<leftarrow> RerrHeader_read_loop (unat dest) [] i h;
          Some (\<lparr>re_flag = fl, re_reserved = re, re_unreachable = m\<rparr>, i) }"

definition RerrHeader_Deserialize :: "RerrHeader deserializer" where
  "RerrHeader_Deserialize x start h = deserialized start RerrHeader_GetSerializedSize (RerrHeader_read start h)"

definition SetNoDelete :: "bool \<Rightarrow> RerrHeader \<Rightarrow> RerrHeader" where
  "SetNoDelete f x = x\<lparr>re_flag := set_flag 0 f (re_flag x)\<rparr>"

definition GetNoDelete :: "RerrHeader \<Rightarrow> bool" where
  "GetNoDelete x = get_flag 0 (re_flag x)"

text \<open>AddUnDestination: the result is the value returned and the header; None when the assertion on the
  number of destinations fails.\<close>

definition AddUnDestination :: "Ipv4Address \<Rightarrow> u32 \<Rightarrow> RerrHeader \<Rightarrow> (bool \<times> RerrHeader) option" where
  "AddUnDestination dst seqNo x =
     (if map_of (re_unreachable x) dst \<noteq> None then Some (True, x)
      else if GetDestCount x < 255 then Some (True, x\<lparr>re_unreachable := om_insert dst seqNo (re_unreachable x)\<rparr>)
      else None)"

text \<open>RemoveUnDestination: None when the code returns false.\<close>

definition RemoveUnDestination :: "RerrHeader \<Rightarrow> ((Ipv4Address \<times> u32) \<times> RerrHeader) option" where
  "RemoveUnDestination x =
     (case re_unreachable x of [] \<Rightarrow> None | un # m \<Rightarrow> Some (un, x\<lparr>re_unreachable := m\<rparr>))"

definition RerrHeader_Clear :: "RerrHeader \<Rightarrow> RerrHeader" where
  "RerrHeader_Clear x = x\<lparr>re_unreachable := [], re_flag := 0, re_reserved := 0\<rparr>"

section \<open>The wire formats\<close>

definition be32 :: "u32 \<Rightarrow> u8 list" where
  "be32 v = [byte 24 v, byte 16 v, byte 8 v, byte 0 v]"

definition rreq_wire :: "RreqHeader \<Rightarrow> u8 list" where
  "rreq_wire x = [rq_flags x] @ [rq_reserved x] @ [rq_hopCount x] @ be32 (rq_requestID x) @ be32 (rq_dst x) @ be32 (rq_dstSeqNo x) @
     be32 (rq_origin x) @ be32 (rq_originSeqNo x) @ []"

definition rrep_wire :: "RrepHeader \<Rightarrow> u8 list" where
  "rrep_wire x = [rp_flags x] @ [rp_prefixSize x] @ [rp_hopCount x] @ be32 (rp_dst x) @ be32 (rp_dstSeqNo x) @
     be32 (rp_origin x) @ be32 (rp_lifeTime x) @ []"

fun dests_wire :: "(Ipv4Address, u32) omap \<Rightarrow> u8 list" where
  "dests_wire [] = []"
| "dests_wire ((a, s) # m) = be32 a @ be32 s @ dests_wire m"

definition rerr_wire :: "RerrHeader \<Rightarrow> u8 list" where
  "rerr_wire x = [re_flag x] @ [re_reserved x] @ [GetDestCount x] @ dests_wire (re_unreachable x) @ []"

text \<open>A route error that its serialization can represent.\<close>

definition rerr_valid :: "RerrHeader \<Rightarrow> bool" where
  "rerr_valid x \<longleftrightarrow> om_ok (re_unreachable x) \<and> length (re_unreachable x) \<le> 255"

lemma emits_be32 [emits_intros]: "emits (WriteHtonU32 v) (be32 v)" "emits (WriteTo_Ipv4 v) (be32 v)"
  by (simp_all add: be32_def WriteTo_Ipv4_def emits_WriteHtonU32)

lemma reads_be32 [reads_intros]: "reads ReadNtohU32 (be32 v) v" "reads ReadFrom_Ipv4 (be32 v) v"
  by (simp_all add: be32_def ReadFrom_Ipv4_def [abs_def] reads_Ntoh)

lemma length_be32 [simp]: "length (be32 v) = 4"
  by (simp add: be32_def)

lemma length_dests_wire [simp]: "length (dests_wire m) = 8 * length m"
  by (induction m rule: dests_wire.induct) simp_all

lemma reads_rreq: "reads RreqHeader_read (rreq_wire x) x"
  unfolding RreqHeader_read_def [abs_def] rreq_wire_def
  by (rule reads_bind, rule reads_intros)+ (cases x, simp add: reads_return)

lemma reads_rrep: "reads RrepHeader_read (rrep_wire x) x"
  unfolding RrepHeader_read_def [abs_def] rrep_wire_def
  by (rule reads_bind, rule reads_intros)+ (cases x, simp add: reads_return)

lemma reads_dests:
  "om_ok (m @ xs) \<Longrightarrow> reads (RerrHeader_read_loop (length xs) m) (dests_wire xs) (m @ xs)"
proof (induction xs arbitrary: m rule: dests_wire.induct)
  case 1
  show ?case by (simp add: reads_def)
next
  case (2 a s xs)
  have "reads (RerrHeader_read_loop (length xs) (m @ [(a, s)])) (dests_wire xs) (m @ (a, s) # xs)"
    using "2.IH" [of "m @ [(a, s)]"] "2.prems" by simp
  moreover have "om_insert a s m = m @ [(a, s)]"
    using "2.prems" by (intro om_insert_last) (auto simp: om_ok_def sorted_wrt_append)
  ultimately show ?case using reads_be32 [of a] reads_be32 [of s] by (simp add: reads_def upcoming_append add.assoc)
qed

lemma unat_DestCount: "rerr_valid x \<Longrightarrow> unat (GetDestCount x) = length (re_unreachable x)"
  by (simp add: rerr_valid_def GetDestCount_def unat_of_nat)

lemma reads_rerr: "rerr_valid x \<Longrightarrow> reads RerrHeader_read (rerr_wire x) x"
  unfolding RerrHeader_read_def [abs_def] rerr_wire_def
  by ((rule reads_bind, rule reads_intros)+, rule reads_bind, simp only: unat_DestCount, rule reads_dests)
     (simp add: rerr_valid_def, cases x, simp add: reads_return)

lemma emits_dests: "emits (run_writers (concat (map (\<lambda>(a, s). [WriteTo_Ipv4 a, WriteHtonU32 s]) m))) (dests_wire m)"
proof (induction m rule: dests_wire.induct)
  case (2 a s m)
  from emits_cons [OF emits_be32(2) emits_cons [OF emits_be32(1) 2]] show ?case by (simp del: run_writers.simps)
qed (simp del: run_writers.simps add: emits_nil)

lemma emits_rerr: "emits (RerrHeader_Serialize x) (rerr_wire x)"
  using emits_cons [OF emits_WriteU8 emits_cons [OF emits_WriteU8 emits_cons [OF emits_WriteU8 emits_dests]]]
  by (simp add: RerrHeader_Serialize_def rerr_wire_def del: run_writers.simps)

interpretation rreq: header_codec "\<lambda>_. True" RreqHeader_GetSerializedSize RreqHeader_Serialize RreqHeader_Deserialize rreq_wire
proof
  show "emits (RreqHeader_Serialize x) (rreq_wire x)" for x
    unfolding RreqHeader_Serialize_def rreq_wire_def by (intro emits_intros)
  show "RreqHeader_Deserialize x0 it h = Some (x, length (rreq_wire x))" if "upcoming it h (rreq_wire x)" for x x0 it h
    unfolding RreqHeader_Deserialize_def by (rule deserialized_reads [OF reads_rreq that]) (simp add: rreq_wire_def RreqHeader_GetSerializedSize_def)
qed (simp add: rreq_wire_def RreqHeader_GetSerializedSize_def)

interpretation rrep: header_codec "\<lambda>_. True" RrepHeader_GetSerializedSize RrepHeader_Serialize RrepHeader_Deserialize rrep_wire
proof
  show "emits (RrepHeader_Serialize x) (rrep_wire x)" for x
    unfolding RrepHeader_Serialize_def rrep_wire_def by (intro emits_intros)
  show "RrepHeader_Deserialize x0 it h = Some (x, length (rrep_wire x))" if "upcoming it h (rrep_wire x)" for x x0 it h
    unfolding RrepHeader_Deserialize_def by (rule deserialized_reads [OF reads_rrep that]) (simp add: rrep_wire_def RrepHeader_GetSerializedSize_def)
qed (simp add: rrep_wire_def RrepHeader_GetSerializedSize_def)

interpretation rerr: header_codec rerr_valid RerrHeader_GetSerializedSize RerrHeader_Serialize RerrHeader_Deserialize rerr_wire
proof
  fix x it h x0 assume v: "rerr_valid x"
  show l: "RerrHeader_GetSerializedSize x = length (rerr_wire x)"
    using v by (simp add: rerr_wire_def RerrHeader_GetSerializedSize_def unat_DestCount)
  show "emits (RerrHeader_Serialize x) (rerr_wire x)" by (rule emits_rerr)
  show "RerrHeader_Deserialize x0 it h = Some (x, length (rerr_wire x))" if "upcoming it h (rerr_wire x)"
    unfolding RerrHeader_Deserialize_def by (rule deserialized_reads [OF reads_rerr [OF v] that]) (rule l)
qed

interpretation rack: header_codec "\<lambda>_. True" RrepAckHeader_GetSerializedSize RrepAckHeader_Serialize RrepAckHeader_Deserialize
  "\<lambda>x. [ra_reserved x]"
proof
  fix x it h x0
  show "emits (RrepAckHeader_Serialize x) [ra_reserved x]"
    using emits_cons [OF emits_WriteU8 emits_nil] by (simp add: RrepAckHeader_Serialize_def del: run_writers.simps)
  have "reads (\<lambda>i h. do { (re, i) \<leftarrow> ReadU8 i h; Some (\<lparr>ra_reserved = re\<rparr>, i) }) ([ra_reserved x] @ []) x"
    by (rule reads_bind, rule reads_intros) (cases x, simp add: reads_return)
  then show "RrepAckHeader_Deserialize x0 it h = Some (x, length [ra_reserved x])" if "upcoming it h [ra_reserved x]"
    unfolding RrepAckHeader_Deserialize_def
    using deserialized_reads [of "\<lambda>i h. do { (re, i) \<leftarrow> ReadU8 i h; Some (\<lparr>ra_reserved = re\<rparr>, i) }" "[ra_reserved x]" x it h] that
    by (simp add: RrepAckHeader_GetSerializedSize_def)
qed (simp add: RrepAckHeader_GetSerializedSize_def)

interpretation mtype: header_codec th_valid TypeHeader_GetSerializedSize TypeHeader_Serialize TypeHeader_Deserialize
  "\<lambda>x. [MessageType_code (th_type x)]"
proof
  fix x x0 :: TypeHeader and it h assume v: "th_valid x"
  show "emits (TypeHeader_Serialize x) [MessageType_code (th_type x)]"
    using emits_cons [OF emits_WriteU8 emits_nil] by (simp add: TypeHeader_Serialize_def del: run_writers.simps)
  have "TypeHeader_switch x0 (MessageType_code (th_type x)) = x"
    using v by (cases x; cases "th_type x") (auto simp: TypeHeader_switch_def)
  then have "reads (\<lambda>i h. do { (type, i) \<leftarrow> ReadU8 i h; Some (TypeHeader_switch x0 type, i) }) ([MessageType_code (th_type x)] @ []) x"
    by (intro reads_bind [OF reads_ReadU8]) (simp add: reads_return)
  then show "TypeHeader_Deserialize x0 it h = Some (x, length [MessageType_code (th_type x)])" if "upcoming it h [MessageType_code (th_type x)]"
    unfolding TypeHeader_Deserialize_def
    using deserialized_reads [of "\<lambda>i h. do { (type, i) \<leftarrow> ReadU8 i h; Some (TypeHeader_switch x0 type, i) }"
      "[MessageType_code (th_type x)]" x it h] that
    by (simp add: TypeHeader_GetSerializedSize_def)
qed (simp add: TypeHeader_GetSerializedSize_def)

end
