(* ===== verification/Aodv_Rtable.thy ===== *)
theory Aodv_Rtable
  imports Aodv_Packet
begin

unbundle bit_operations_syntax

text \<open>
  src/aodv/model/aodv-rtable.cc and aodv-rtable.h: the routing table of AODV. A table maps a
  destination to its entry; every lookup first purges the table, which removes invalid entries
  whose lifetime is over and invalidates valid ones. \<open>now\<close> is Simulator::Now ().

  The Ipv4Route of an entry is a value here. In the code it is an object that a copy of the entry
  shares; the code changes it only on a copy that it stores back in the table right after. The
  RREP_ACK timer of an entry is never scheduled by the code and is left out.
\<close>

section \<open>Addresses of interfaces and routes\<close>

datatype InterfaceAddressScope = HOST | LINK | GLOBAL

record Ipv4InterfaceAddress =
  ifa_local :: Ipv4Address
  ifa_mask :: u32
  ifa_broadcast :: Ipv4Address
  ifa_scope :: InterfaceAddressScope
  ifa_secondary :: bool

text \<open>The address and the mask that the default constructors make, 102.102.102.102.\<close>

definition Ipv4Address_default :: Ipv4Address where
  "Ipv4Address_default = 0x66666666"

definition Ipv4InterfaceAddress_default :: Ipv4InterfaceAddress where
  "Ipv4InterfaceAddress_default =
     \<lparr>ifa_local = Ipv4Address_default, ifa_mask = 0x66666666, ifa_broadcast = Ipv4Address_default, ifa_scope = GLOBAL, ifa_secondary = False\<rparr>"

definition GetLoopback :: Ipv4Address where
  "GetLoopback = 0x7f000001"

definition mk_Ipv4InterfaceAddress :: "Ipv4Address \<Rightarrow> u32 \<Rightarrow> Ipv4InterfaceAddress" where
  "mk_Ipv4InterfaceAddress local msk =
     \<lparr>ifa_local = local, ifa_mask = msk, ifa_broadcast = local OR NOT msk,
      ifa_scope = (if local = GetLoopback then HOST else GLOBAL), ifa_secondary = False\<rparr>"

text \<open>A device is an address of an object.\<close>

record Ipv4Route =
  r_dest :: Ipv4Address
  r_source :: Ipv4Address
  r_gateway :: Ipv4Address
  r_outputDevice :: addr

section \<open>Entries\<close>

datatype RouteFlags = VALID | INVALID | IN_SEARCH

record RoutingTableEntry =
  rt_validSeqNo :: bool
  rt_seqNo :: u32
  rt_hops :: u16
  rt_lifeTime :: Time
  rt_route :: Ipv4Route
  rt_iface :: Ipv4InterfaceAddress
  rt_flag :: RouteFlags
  rt_precursorList :: "Ipv4Address list"
  rt_reqCount :: u8
  rt_blackListState :: bool
  rt_blackListTimeout :: Time

definition mk_RoutingTableEntry ::
  "Time \<Rightarrow> addr \<Rightarrow> Ipv4Address \<Rightarrow> bool \<Rightarrow> u32 \<Rightarrow> Ipv4InterfaceAddress \<Rightarrow> u16 \<Rightarrow> Ipv4Address \<Rightarrow> Time \<Rightarrow> RoutingTableEntry" where
  "mk_RoutingTableEntry now dev dst vSeqNo seqNo iface hops nextHop lifetime =
     \<lparr>rt_validSeqNo = vSeqNo, rt_seqNo = seqNo, rt_hops = hops, rt_lifeTime = lifetime + now,
      rt_route = \<lparr>r_dest = dst, r_source = ifa_local iface, r_gateway = nextHop, r_outputDevice = dev\<rparr>,
      rt_iface = iface, rt_flag = VALID, rt_precursorList = [], rt_reqCount = 0, rt_blackListState = False,
      rt_blackListTimeout = now\<rparr>"

text \<open>A local variable of type RoutingTableEntry before anything is assigned to it.\<close>

definition RoutingTableEntry_default :: "Time \<Rightarrow> RoutingTableEntry" where
  "RoutingTableEntry_default now =
     mk_RoutingTableEntry now nullptr Ipv4Address_default False 0 Ipv4InterfaceAddress_default 0 Ipv4Address_default now"

abbreviation GetDestination :: "RoutingTableEntry \<Rightarrow> Ipv4Address" where
  "GetDestination rt \<equiv> r_dest (rt_route rt)"

abbreviation GetNextHop :: "RoutingTableEntry \<Rightarrow> Ipv4Address" where
  "GetNextHop rt \<equiv> r_gateway (rt_route rt)"

abbreviation GetOutputDevice :: "RoutingTableEntry \<Rightarrow> addr" where
  "GetOutputDevice rt \<equiv> r_outputDevice (rt_route rt)"

definition SetNextHop :: "Ipv4Address \<Rightarrow> RoutingTableEntry \<Rightarrow> RoutingTableEntry" where
  "SetNextHop nextHop rt = rt\<lparr>rt_route := (rt_route rt)\<lparr>r_gateway := nextHop\<rparr>\<rparr>"

definition SetOutputDevice :: "addr \<Rightarrow> RoutingTableEntry \<Rightarrow> RoutingTableEntry" where
  "SetOutputDevice dev rt = rt\<lparr>rt_route := (rt_route rt)\<lparr>r_outputDevice := dev\<rparr>\<rparr>"

definition rt_SetLifeTime :: "Time \<Rightarrow> Time \<Rightarrow> RoutingTableEntry \<Rightarrow> RoutingTableEntry" where
  "rt_SetLifeTime now lt rt = rt\<lparr>rt_lifeTime := lt + now\<rparr>"

definition rt_GetLifeTime :: "Time \<Rightarrow> RoutingTableEntry \<Rightarrow> Time" where
  "rt_GetLifeTime now rt = rt_lifeTime rt - now"

definition IncrementRreqCnt :: "RoutingTableEntry \<Rightarrow> RoutingTableEntry" where
  "IncrementRreqCnt rt = rt\<lparr>rt_reqCount := rt_reqCount rt + 1\<rparr>"

subsection \<open>Precursors\<close>

definition LookupPrecursor :: "Ipv4Address \<Rightarrow> RoutingTableEntry \<Rightarrow> bool" where
  "LookupPrecursor i rt \<longleftrightarrow> i \<in> set (rt_precursorList rt)"

definition InsertPrecursor :: "Ipv4Address \<Rightarrow> RoutingTableEntry \<Rightarrow> bool \<times> RoutingTableEntry" where
  "InsertPrecursor i rt =
     (if \<not> LookupPrecursor i rt then (True, rt\<lparr>rt_precursorList := rt_precursorList rt @ [i]\<rparr>) else (False, rt))"

definition DeletePrecursor :: "Ipv4Address \<Rightarrow> RoutingTableEntry \<Rightarrow> bool \<times> RoutingTableEntry" where
  "DeletePrecursor i rt =
     (let l = removeAll i (rt_precursorList rt)
      in if length l = length (rt_precursorList rt) then (False, rt) else (True, rt\<lparr>rt_precursorList := l\<rparr>))"

definition DeleteAllPrecursors :: "RoutingTableEntry \<Rightarrow> RoutingTableEntry" where
  "DeleteAllPrecursors rt = rt\<lparr>rt_precursorList := []\<rparr>"

definition IsPrecursorListEmpty :: "RoutingTableEntry \<Rightarrow> bool" where
  "IsPrecursorListEmpty rt \<longleftrightarrow> rt_precursorList rt = []"

fun add_precursors :: "Ipv4Address list \<Rightarrow> Ipv4Address list \<Rightarrow> Ipv4Address list" where
  "add_precursors [] prec = prec"
| "add_precursors (i # is) prec = add_precursors is (if i \<in> set prec then prec else prec @ [i])"

definition GetPrecursors :: "RoutingTableEntry \<Rightarrow> Ipv4Address list \<Rightarrow> Ipv4Address list" where
  "GetPrecursors rt prec = (if IsPrecursorListEmpty rt then prec else add_precursors (rt_precursorList rt) prec)"

definition Invalidate :: "Time \<Rightarrow> Time \<Rightarrow> RoutingTableEntry \<Rightarrow> RoutingTableEntry" where
  "Invalidate now badLinkLifetime rt =
     (if rt_flag rt = INVALID then rt
      else rt\<lparr>rt_flag := INVALID, rt_reqCount := 0, rt_lifeTime := badLinkLifetime + now\<rparr>)"

section \<open>The table\<close>

record RoutingTable =
  m_ipv4AddressEntry :: "(Ipv4Address, RoutingTableEntry) omap"
  m_badLinkLifetime :: Time

text \<open>Purge: what becomes of an entry, None when it is erased.\<close>

definition purge_entry :: "Time \<Rightarrow> Time \<Rightarrow> RoutingTableEntry \<Rightarrow> RoutingTableEntry option" where
  "purge_entry now badLink rt =
     (if rt_GetLifeTime now rt < 0
      then case rt_flag rt of INVALID \<Rightarrow> None | VALID \<Rightarrow> Some (Invalidate now badLink rt) | IN_SEARCH \<Rightarrow> Some rt
      else Some rt)"

fun purge_list :: "Time \<Rightarrow> Time \<Rightarrow> (Ipv4Address, RoutingTableEntry) omap \<Rightarrow> (Ipv4Address, RoutingTableEntry) omap" where
  "purge_list now badLink [] = []"
| "purge_list now badLink ((k, rt) # m) =
     (case purge_entry now badLink rt of None \<Rightarrow> purge_list now badLink m | Some rt' \<Rightarrow> (k, rt') # purge_list now badLink m)"

definition rt_Purge :: "Time \<Rightarrow> RoutingTable \<Rightarrow> RoutingTable" where
  "rt_Purge now t = t\<lparr>m_ipv4AddressEntry := purge_list now (m_badLinkLifetime t) (m_ipv4AddressEntry t)\<rparr>"

text \<open>The lookups return whether they succeed, the entry argument, which they overwrite when an entry
  is found, and the purged table.\<close>

definition LookupRoute :: "Time \<Rightarrow> Ipv4Address \<Rightarrow> RoutingTableEntry \<Rightarrow> RoutingTable \<Rightarrow> bool \<times> RoutingTableEntry \<times> RoutingTable" where
  "LookupRoute now i rt t =
     (let t1 = rt_Purge now t in
      case map_of (m_ipv4AddressEntry t1) i of None \<Rightarrow> (False, rt, t1) | Some rt' \<Rightarrow> (True, rt', t1))"

definition LookupValidRoute :: "Time \<Rightarrow> Ipv4Address \<Rightarrow> RoutingTableEntry \<Rightarrow> RoutingTable \<Rightarrow> bool \<times> RoutingTableEntry \<times> RoutingTable" where
  "LookupValidRoute now i rt t =
     (case LookupRoute now i rt t of (ok, rt', t1) \<Rightarrow> (ok \<and> rt_flag rt' = VALID, rt', t1))"

definition DeleteRoute :: "Time \<Rightarrow> Ipv4Address \<Rightarrow> RoutingTable \<Rightarrow> bool \<times> RoutingTable" where
  "DeleteRoute now dst t =
     (let t1 = rt_Purge now t
      in (map_of (m_ipv4AddressEntry t1) dst \<noteq> None, t1\<lparr>m_ipv4AddressEntry := om_erase dst (m_ipv4AddressEntry t1)\<rparr>))"

definition clear_count :: "RoutingTableEntry \<Rightarrow> RoutingTableEntry" where
  "clear_count rt = (if rt_flag rt \<noteq> IN_SEARCH then rt\<lparr>rt_reqCount := 0\<rparr> else rt)"

definition AddRoute :: "Time \<Rightarrow> RoutingTableEntry \<Rightarrow> RoutingTable \<Rightarrow> bool \<times> RoutingTable" where
  "AddRoute now rt t =
     (let t1 = rt_Purge now t; rt' = clear_count rt
      in (map_of (m_ipv4AddressEntry t1) (GetDestination rt') = None,
          t1\<lparr>m_ipv4AddressEntry := om_insert (GetDestination rt') rt' (m_ipv4AddressEntry t1)\<rparr>))"

definition rt_Update :: "RoutingTableEntry \<Rightarrow> RoutingTable \<Rightarrow> bool \<times> RoutingTable" where
  "rt_Update rt t =
     (case map_of (m_ipv4AddressEntry t) (GetDestination rt) of None \<Rightarrow> (False, t)
      | Some _ \<Rightarrow> (True, t\<lparr>m_ipv4AddressEntry := om_set (GetDestination rt) (clear_count rt) (m_ipv4AddressEntry t)\<rparr>))"

definition SetEntryState :: "Ipv4Address \<Rightarrow> RouteFlags \<Rightarrow> RoutingTable \<Rightarrow> bool \<times> RoutingTable" where
  "SetEntryState i state t =
     (case map_of (m_ipv4AddressEntry t) i of None \<Rightarrow> (False, t)
      | Some rt \<Rightarrow> (True, t\<lparr>m_ipv4AddressEntry := om_set i (rt\<lparr>rt_flag := state, rt_reqCount := 0\<rparr>) (m_ipv4AddressEntry t)\<rparr>))"

definition GetListOfDestinationWithNextHop :: "Time \<Rightarrow> Ipv4Address \<Rightarrow> RoutingTable \<Rightarrow> (Ipv4Address, u32) omap \<times> RoutingTable" where
  "GetListOfDestinationWithNextHop now nextHop t =
     (let t1 = rt_Purge now t
      in (fold (\<lambda>(k, rt) u. if GetNextHop rt = nextHop then om_insert k (rt_seqNo rt) u else u) (m_ipv4AddressEntry t1) [], t1))"

definition invalidate_if :: "Time \<Rightarrow> Time \<Rightarrow> (Ipv4Address, u32) omap \<Rightarrow> Ipv4Address \<Rightarrow> RoutingTableEntry \<Rightarrow> RoutingTableEntry" where
  "invalidate_if now badLink unreachable k rt =
     fold (\<lambda>(k', _) rt. if k = k' \<and> rt_flag rt = VALID then Invalidate now badLink rt else rt) unreachable rt"

definition InvalidateRoutesWithDst :: "Time \<Rightarrow> (Ipv4Address, u32) omap \<Rightarrow> RoutingTable \<Rightarrow> RoutingTable" where
  "InvalidateRoutesWithDst now unreachable t =
     (let t1 = rt_Purge now t
      in t1\<lparr>m_ipv4AddressEntry :=
           map (\<lambda>(k, rt). (k, invalidate_if now (m_badLinkLifetime t1) unreachable k rt)) (m_ipv4AddressEntry t1)\<rparr>)"

definition DeleteAllRoutesFromInterface :: "Ipv4InterfaceAddress \<Rightarrow> RoutingTable \<Rightarrow> RoutingTable" where
  "DeleteAllRoutesFromInterface iface t =
     t\<lparr>m_ipv4AddressEntry := filter (\<lambda>(k, rt). rt_iface rt \<noteq> iface) (m_ipv4AddressEntry t)\<rparr>"

definition MarkLinkAsUnidirectional :: "Ipv4Address \<Rightarrow> Time \<Rightarrow> RoutingTable \<Rightarrow> bool \<times> RoutingTable" where
  "MarkLinkAsUnidirectional neighbor blacklistTimeout t =
     (case map_of (m_ipv4AddressEntry t) neighbor of None \<Rightarrow> (False, t)
      | Some rt \<Rightarrow>
          (True, t\<lparr>m_ipv4AddressEntry := om_set neighbor
             (rt\<lparr>rt_blackListState := True, rt_blackListTimeout := blacklistTimeout, rt_reqCount := 0\<rparr>) (m_ipv4AddressEntry t)\<rparr>))"

definition rt_Clear :: "RoutingTable \<Rightarrow> RoutingTable" where
  "rt_Clear t = t\<lparr>m_ipv4AddressEntry := []\<rparr>"

section \<open>Invariant\<close>

text \<open>
  The keys are in order, an entry is stored under its destination, has no precursor twice, and
  counts route requests only while a search is on.
\<close>

definition entry_ok :: "RoutingTableEntry \<Rightarrow> bool" where
  "entry_ok rt \<longleftrightarrow> distinct (rt_precursorList rt) \<and> (rt_flag rt \<noteq> IN_SEARCH \<longrightarrow> rt_reqCount rt = 0)"

definition table_ok :: "RoutingTable \<Rightarrow> bool" where
  "table_ok t \<longleftrightarrow> om_ok (m_ipv4AddressEntry t) \<and> 0 \<le> m_badLinkLifetime t \<and>
     (\<forall>(k, rt) \<in> set (m_ipv4AddressEntry t). GetDestination rt = k \<and> entry_ok rt)"

text \<open>The table as a map.\<close>

definition entries :: "RoutingTable \<Rightarrow> Ipv4Address \<Rightarrow> RoutingTableEntry option" where
  "entries t = map_of (m_ipv4AddressEntry t)"

lemma table_ok_entries:
  "table_ok t \<longleftrightarrow> om_ok (m_ipv4AddressEntry t) \<and> 0 \<le> m_badLinkLifetime t \<and>
     (\<forall>k rt. entries t k = Some rt \<longrightarrow> GetDestination rt = k \<and> entry_ok rt)"
  by (auto simp: table_ok_def entries_def om_ok_distinct dest: map_of_SomeD)

lemma purge_list_keys: "fst ` set (purge_list now bl m) \<subseteq> fst ` set m"
  by (induction now bl m rule: purge_list.induct) (auto split: option.splits)

lemma om_ok_purge_list: "om_ok m \<Longrightarrow> om_ok (purge_list now bl m)"
proof (induction now bl m rule: purge_list.induct)
  case (2 now bl k rt m)
  then show ?case using purge_list_keys [of now bl m] by (fastforce split: option.splits)
qed simp

lemma map_of_purge_list:
  "om_ok m \<Longrightarrow> map_of (purge_list now bl m) k = Option.bind (map_of m k) (purge_entry now bl)"
proof (induction now bl m rule: purge_list.induct)
  case (2 now bl k' rt m)
  have "map_of m k' = None" using "2.prems" by (intro map_of_not_less) auto
  then show ?case using 2 by (auto split: option.splits)
qed simp

text \<open>What a lookup of \<open>k\<close> finds at time \<open>now\<close>.\<close>

definition visible :: "Time \<Rightarrow> RoutingTable \<Rightarrow> Ipv4Address \<Rightarrow> RoutingTableEntry option" where
  "visible now t k = Option.bind (entries t k) (purge_entry now (m_badLinkLifetime t))"

lemma entries_Purge [simp]: "table_ok t \<Longrightarrow> entries (rt_Purge now t) = visible now t"
  by (auto simp: entries_def visible_def rt_Purge_def table_ok_def map_of_purge_list fun_eq_iff)

lemma badLink_Purge [simp]: "m_badLinkLifetime (rt_Purge now t) = m_badLinkLifetime t"
  by (simp add: rt_Purge_def)

lemma purge_entry_idem: "0 \<le> bl \<Longrightarrow> purge_entry now bl rt = Some rt' \<Longrightarrow> purge_entry now bl rt' = Some rt'"
  by (auto simp: purge_entry_def Invalidate_def rt_GetLifeTime_def split: if_splits RouteFlags.splits)

lemma purge_entry_ok:
  "purge_entry now bl rt = Some rt' \<Longrightarrow> GetDestination rt' = GetDestination rt \<and> (entry_ok rt \<longrightarrow> entry_ok rt')"
  by (auto simp: purge_entry_def Invalidate_def entry_ok_def split: if_splits RouteFlags.splits)

lemma table_ok_Purge [simp]:
  assumes "table_ok t"
  shows "table_ok (rt_Purge now t)"
proof -
  have "om_ok (m_ipv4AddressEntry (rt_Purge now t))" using assms by (simp add: table_ok_def rt_Purge_def om_ok_purge_list)
  moreover have "GetDestination rt = k \<and> entry_ok rt" if "entries (rt_Purge now t) k = Some rt" for k rt
    using that assms by (auto simp: visible_def table_ok_entries bind_eq_Some_conv dest!: purge_entry_ok)
  moreover have "0 \<le> m_badLinkLifetime (rt_Purge now t)" using assms by (simp add: table_ok_def)
  ultimately show ?thesis unfolding table_ok_entries [of "rt_Purge now t"] by blast
qed

lemma visible_Purge [simp]:
  assumes "table_ok t"
  shows "visible now (rt_Purge now t) = visible now t"
proof
  fix k
  have bl: "0 \<le> m_badLinkLifetime t" using assms by (simp add: table_ok_def)
  have "visible now (rt_Purge now t) k = Option.bind (visible now t k) (purge_entry now (m_badLinkLifetime t))"
    using assms by (simp add: visible_def [of now "rt_Purge now t"])
  also have "\<dots> = visible now t k"
  proof (cases "visible now t k")
    case (Some rt)
    then obtain rt0 where "purge_entry now (m_badLinkLifetime t) rt0 = Some rt" by (auto simp: visible_def bind_eq_Some_conv)
    then show ?thesis using Some purge_entry_idem [OF bl] by simp
  qed simp
  finally show "visible now (rt_Purge now t) k = visible now t k" .
qed

section \<open>Laws of the operations\<close>

lemma LookupRoute_eq:
  "table_ok t \<Longrightarrow> LookupRoute now i rt t =
     (case visible now t i of None \<Rightarrow> (False, rt, rt_Purge now t) | Some rt' \<Rightarrow> (True, rt', rt_Purge now t))"
  by (simp add: LookupRoute_def Let_def entries_def [symmetric])

lemma LookupValidRoute_eq:
  "table_ok t \<Longrightarrow> LookupValidRoute now i rt t =
     (case visible now t i of None \<Rightarrow> (False, rt, rt_Purge now t) | Some rt' \<Rightarrow> (rt_flag rt' = VALID, rt', rt_Purge now t))"
  by (simp add: LookupValidRoute_def LookupRoute_eq split: option.splits)

lemma visible_ok: "table_ok t \<Longrightarrow> visible now t k = Some rt \<Longrightarrow> GetDestination rt = k \<and> entry_ok rt"
  by (auto simp: visible_def table_ok_entries bind_eq_Some_conv dest!: purge_entry_ok)

text \<open>A valid entry that a lookup finds is not expired.\<close>

lemma purge_entry_valid:
  assumes "purge_entry now bl rt = Some rt'" and "rt_flag rt' = VALID"
  shows "rt' = rt" and "now \<le> rt_lifeTime rt"
  using assms by (cases "rt_flag rt"; auto simp: purge_entry_def rt_GetLifeTime_def Invalidate_def split: if_splits)+

lemma visible_valid: "visible now t k = Some rt \<Longrightarrow> rt_flag rt = VALID \<Longrightarrow> now \<le> rt_lifeTime rt"
  using purge_entry_valid by (fastforce simp: visible_def bind_eq_Some_conv)

lemma entry_ok_clear [simp]: "entry_ok (clear_count rt) \<longleftrightarrow> distinct (rt_precursorList rt)"
  by (simp add: entry_ok_def clear_count_def)

lemma clear_count_simps [simp]:
  "rt_route (clear_count rt) = rt_route rt" "rt_flag (clear_count rt) = rt_flag rt" "rt_seqNo (clear_count rt) = rt_seqNo rt"
  "rt_validSeqNo (clear_count rt) = rt_validSeqNo rt" "rt_hops (clear_count rt) = rt_hops rt" "rt_lifeTime (clear_count rt) = rt_lifeTime rt"
  "rt_precursorList (clear_count rt) = rt_precursorList rt" "rt_iface (clear_count rt) = rt_iface rt"
  by (simp_all add: clear_count_def)

text \<open>Storing an entry under its destination.\<close>

lemma table_ok_put:
  assumes "table_ok t" and "entries t' = (entries t)(GetDestination rt \<mapsto> rt)" and "om_ok (m_ipv4AddressEntry t')"
    and "m_badLinkLifetime t' = m_badLinkLifetime t" and "entry_ok rt"
  shows "table_ok t'"
  using assms by (auto simp: table_ok_entries split: if_splits)

lemma Update_entries:
  assumes "table_ok t"
  shows "entries (snd (rt_Update rt t)) =
    (if entries t (GetDestination rt) = None then entries t else (entries t)(GetDestination rt \<mapsto> clear_count rt))"
  using assms by (auto simp: rt_Update_def entries_def table_ok_def map_of_om_set split: option.splits)

lemma Update_badLink [simp]: "m_badLinkLifetime (snd (rt_Update rt t)) = m_badLinkLifetime t"
  by (simp add: rt_Update_def split: option.splits)

lemma Update_ok [simp]:
  assumes "table_ok t" and "distinct (rt_precursorList rt)"
  shows "table_ok (snd (rt_Update rt t))"
proof (cases "entries t (GetDestination rt)")
  case None
  then show ?thesis using assms(1) by (simp add: rt_Update_def entries_def)
next
  case (Some rt')
  show ?thesis
    by (rule table_ok_put [OF assms(1), where rt = "clear_count rt"])
       (use assms Some Update_entries [OF assms(1), of rt] in \<open>auto simp: table_ok_def rt_Update_def split: option.splits\<close>)
qed

lemma AddRoute_entries:
  assumes "table_ok t"
  shows "entries (snd (AddRoute now rt t)) =
    (if visible now t (GetDestination rt) = None then (visible now t)(GetDestination rt \<mapsto> clear_count rt) else visible now t)"
proof -
  have "om_ok (m_ipv4AddressEntry (rt_Purge now t))" using table_ok_Purge [OF assms] by (simp add: table_ok_def)
  then show ?thesis using entries_Purge [OF assms, of now]
    by (auto simp: AddRoute_def Let_def entries_def map_of_om_insert split: option.splits)
qed

lemma AddRoute_badLink [simp]: "m_badLinkLifetime (snd (AddRoute now rt t)) = m_badLinkLifetime t"
  by (simp add: AddRoute_def Let_def)

lemma AddRoute_ok [simp]:
  assumes "table_ok t" and "distinct (rt_precursorList rt)"
  shows "table_ok (snd (AddRoute now rt t))"
proof -
  have "om_ok (m_ipv4AddressEntry (snd (AddRoute now rt t)))"
    using table_ok_Purge [OF assms(1), of now] by (simp add: AddRoute_def Let_def table_ok_def)
  moreover have "GetDestination x = k \<and> entry_ok x" if "entries (snd (AddRoute now rt t)) k = Some x" for k x
    using that assms visible_ok [OF assms(1)] by (auto simp: AddRoute_entries split: if_splits)
  moreover have "0 \<le> m_badLinkLifetime (snd (AddRoute now rt t))" using assms by (simp add: table_ok_def)
  ultimately show ?thesis unfolding table_ok_entries [of "snd (AddRoute now rt t)"] by blast
qed

lemma DeleteRoute_entries: "table_ok t \<Longrightarrow> entries (snd (DeleteRoute now dst t)) = (visible now t)(dst := None)"
  using entries_Purge [of t now] by (simp add: DeleteRoute_def Let_def entries_def map_of_om_erase)

lemma DeleteRoute_ok [simp]: "table_ok t \<Longrightarrow> table_ok (snd (DeleteRoute now dst t))"
  using table_ok_Purge [of t now] by (auto simp: DeleteRoute_def Let_def table_ok_def om_erase_def)

lemma invalidate_if_eq:
  "invalidate_if now bl u k rt = (if k \<in> fst ` set u \<and> rt_flag rt = VALID then Invalidate now bl rt else rt)"
proof (induction u arbitrary: rt)
  case (Cons x u)
  then show ?case by (cases x) (auto simp: invalidate_if_def Invalidate_def)
qed (simp add: invalidate_if_def)

lemma map_of_map_values: "map_of (map (\<lambda>(k, v). (k, f k v)) m) k = map_option (f k) (map_of m k)"
  by (induction m) auto

lemma InvalidateRoutes_entries:
  assumes "table_ok t"
  shows "entries (InvalidateRoutesWithDst now u t) k =
    map_option (\<lambda>rt. if k \<in> fst ` set u \<and> rt_flag rt = VALID then Invalidate now (m_badLinkLifetime t) rt else rt) (visible now t k)"
  using entries_Purge [OF assms, of now]
  by (simp add: InvalidateRoutesWithDst_def Let_def entries_def map_of_map_values invalidate_if_eq [abs_def] cong: if_cong)

lemma InvalidateRoutes_ok [simp]:
  assumes "table_ok t"
  shows "table_ok (InvalidateRoutesWithDst now u t)"
proof -
  have "om_ok (m_ipv4AddressEntry (InvalidateRoutesWithDst now u t))"
    using table_ok_Purge [OF assms, of now] by (simp add: InvalidateRoutesWithDst_def Let_def table_ok_def)
  moreover have "GetDestination rt = k \<and> entry_ok rt" if "entries (InvalidateRoutesWithDst now u t) k = Some rt" for k rt
    using that visible_ok [OF assms, of now k] by (auto simp: InvalidateRoutes_entries [OF assms] Invalidate_def entry_ok_def split: if_splits)
  moreover have "m_badLinkLifetime (InvalidateRoutesWithDst now u t) = m_badLinkLifetime t"
    by (simp add: InvalidateRoutesWithDst_def Let_def)
  moreover have "0 \<le> m_badLinkLifetime t" using assms by (simp add: table_ok_def)
  ultimately show ?thesis unfolding table_ok_entries [of "InvalidateRoutesWithDst now u t"] by simp
qed

lemma DeleteAllRoutes_ok [simp]: "table_ok t \<Longrightarrow> table_ok (DeleteAllRoutesFromInterface iface t)"
  by (auto simp: DeleteAllRoutesFromInterface_def table_ok_def)

lemma SetEntryState_ok [simp]:
  assumes "table_ok t"
  shows "table_ok (snd (SetEntryState i st t))"
proof (cases "entries t i")
  case (Some rt)
  show ?thesis
    by (rule table_ok_put [OF assms, where rt = "rt\<lparr>rt_flag := st, rt_reqCount := 0\<rparr>"])
       (use assms Some in \<open>auto simp: SetEntryState_def entries_def map_of_om_set table_ok_def entry_ok_def dest: map_of_SomeD\<close>)
qed (use assms in \<open>simp add: SetEntryState_def entries_def\<close>)

lemma MarkLink_ok [simp]:
  assumes "table_ok t"
  shows "table_ok (snd (MarkLinkAsUnidirectional i bt t))"
proof (cases "entries t i")
  case (Some rt)
  show ?thesis
    by (rule table_ok_put [OF assms, where rt = "rt\<lparr>rt_blackListState := True, rt_blackListTimeout := bt, rt_reqCount := 0\<rparr>"])
       (use assms Some in \<open>auto simp: MarkLinkAsUnidirectional_def entries_def map_of_om_set table_ok_def entry_ok_def dest: map_of_SomeD\<close>)
qed (use assms in \<open>simp add: MarkLinkAsUnidirectional_def entries_def\<close>)

end
