(* ===== verification/Aodv_Queue.thy ===== *)
theory Aodv_Queue
  imports Aodv_Packet
begin

text \<open>
  src/aodv/model: the id cache (aodv-id-cache.cc), the detection of duplicate packets on top of it
  (aodv-dpd.cc) and the queue of packets that wait for a route (aodv-rqueue.cc). \<open>now\<close> is
  Simulator::Now ().
\<close>

section \<open>IdCache\<close>

record UniqueId =
  uid_context :: Ipv4Address
  uid_id :: u32
  uid_expire :: Time

record IdCache =
  m_idCache :: "UniqueId list"
  ic_lifetime :: Time

definition ic_IsExpired :: "Time \<Rightarrow> UniqueId \<Rightarrow> bool" where
  "ic_IsExpired now u \<longleftrightarrow> uid_expire u < now"

definition ic_Purge :: "Time \<Rightarrow> IdCache \<Rightarrow> IdCache" where
  "ic_Purge now c = c\<lparr>m_idCache := filter (\<lambda>u. \<not> ic_IsExpired now u) (m_idCache c)\<rparr>"

definition ic_IsDuplicate :: "Time \<Rightarrow> Ipv4Address \<Rightarrow> u32 \<Rightarrow> IdCache \<Rightarrow> bool \<times> IdCache" where
  "ic_IsDuplicate now ad i c =
     (let c1 = ic_Purge now c in
      if \<exists>u \<in> set (m_idCache c1). uid_context u = ad \<and> uid_id u = i then (True, c1)
      else (False, c1\<lparr>m_idCache := m_idCache c1 @ [\<lparr>uid_context = ad, uid_id = i, uid_expire = ic_lifetime c1 + now\<rparr>]\<rparr>))"

definition ic_GetSize :: "Time \<Rightarrow> IdCache \<Rightarrow> nat \<times> IdCache" where
  "ic_GetSize now c = (let c1 = ic_Purge now c in (length (m_idCache c1), c1))"

section \<open>Packets and headers of the network layer\<close>

text \<open>What the routing protocol looks at: the uid of a packet, the interface in its
  DeferredRouteOutputTag if it has one, the source, destination, time to live and protocol of its IPv4
  header, and the destination port of its UDP header.\<close>

record data_packet =
  pk_uid :: u64
  pk_deferred :: "int option"
  pk_udpPort :: u16

record Ipv4Header =
  ih_source :: Ipv4Address
  ih_destination :: Ipv4Address
  ih_ttl :: u8
  ih_protocol :: u8

text \<open>The uid is a 64-bit number; the id cache takes 32 bits of it.\<close>

definition dpd_IsDuplicate :: "Time \<Rightarrow> data_packet \<Rightarrow> Ipv4Header \<Rightarrow> IdCache \<Rightarrow> bool \<times> IdCache" where
  "dpd_IsDuplicate now p hdr c = ic_IsDuplicate now (ih_source hdr) (ucast (pk_uid p)) c"

section \<open>RequestQueue\<close>

record QueueEntry =
  qe_packet :: data_packet
  qe_header :: Ipv4Header
  qe_expire :: Time

record RequestQueue =
  m_queue :: "QueueEntry list"
  m_maxLen :: nat
  m_queueTimeout :: Time

definition qe_SetExpireTime :: "Time \<Rightarrow> Time \<Rightarrow> QueueEntry \<Rightarrow> QueueEntry" where
  "qe_SetExpireTime now exp e = e\<lparr>qe_expire := exp + now\<rparr>"

definition qe_GetExpireTime :: "Time \<Rightarrow> QueueEntry \<Rightarrow> Time" where
  "qe_GetExpireTime now e = qe_expire e - now"

definition qe_IsExpired :: "Time \<Rightarrow> QueueEntry \<Rightarrow> bool" where
  "qe_IsExpired now e \<longleftrightarrow> qe_GetExpireTime now e < 0"

abbreviation qe_dst :: "QueueEntry \<Rightarrow> Ipv4Address" where
  "qe_dst e \<equiv> ih_destination (qe_header e)"

text \<open>The operations return the entries they drop, each with a call of its error callback.\<close>

definition rq_Purge :: "Time \<Rightarrow> RequestQueue \<Rightarrow> QueueEntry list \<times> RequestQueue" where
  "rq_Purge now q =
     (filter (qe_IsExpired now) (m_queue q), q\<lparr>m_queue := filter (\<lambda>e. \<not> qe_IsExpired now e) (m_queue q)\<rparr>)"

definition rq_GetSize :: "Time \<Rightarrow> RequestQueue \<Rightarrow> nat \<times> QueueEntry list \<times> RequestQueue" where
  "rq_GetSize now q = (case rq_Purge now q of (dr, q1) \<Rightarrow> (length (m_queue q1), dr, q1))"

definition rq_Enqueue :: "Time \<Rightarrow> QueueEntry \<Rightarrow> RequestQueue \<Rightarrow> (bool \<times> QueueEntry list \<times> RequestQueue) option" where
  "rq_Enqueue now entry q =
     (case rq_Purge now q of (dr, q1) \<Rightarrow>
        if \<exists>e \<in> set (m_queue q1). pk_uid (qe_packet e) = pk_uid (qe_packet entry) \<and> qe_dst e = qe_dst entry
        then Some (False, dr, q1)
        else let entry = qe_SetExpireTime now (m_queueTimeout q1) entry in
             if length (m_queue q1) = m_maxLen q1
             then case m_queue q1 of [] \<Rightarrow> None
                  | e # es \<Rightarrow> Some (True, dr @ [e], q1\<lparr>m_queue := es @ [entry]\<rparr>)
             else Some (True, dr, q1\<lparr>m_queue := m_queue q1 @ [entry]\<rparr>))"

definition rq_DropPacketWithDst :: "Time \<Rightarrow> Ipv4Address \<Rightarrow> RequestQueue \<Rightarrow> QueueEntry list \<times> RequestQueue" where
  "rq_DropPacketWithDst now dst q =
     (case rq_Purge now q of (dr, q1) \<Rightarrow>
        (dr @ filter (\<lambda>e. qe_dst e = dst) (m_queue q1), q1\<lparr>m_queue := filter (\<lambda>e. qe_dst e \<noteq> dst) (m_queue q1)\<rparr>))"

definition rq_Dequeue :: "Time \<Rightarrow> Ipv4Address \<Rightarrow> RequestQueue \<Rightarrow> QueueEntry option \<times> QueueEntry list \<times> RequestQueue" where
  "rq_Dequeue now dst q =
     (case rq_Purge now q of (dr, q1) \<Rightarrow>
        case list_erase_first (\<lambda>e. qe_dst e = dst) (m_queue q1) of
          None \<Rightarrow> (None, dr, q1)
        | Some (e, es) \<Rightarrow> (Some e, dr, q1\<lparr>m_queue := es\<rparr>))"

definition rq_Find :: "Ipv4Address \<Rightarrow> RequestQueue \<Rightarrow> bool" where
  "rq_Find dst q \<longleftrightarrow> (\<exists>e \<in> set (m_queue q). qe_dst e = dst)"

section \<open>A history of the queue\<close>

datatype rq_op = Enq QueueEntry | Deq Ipv4Address | DropDst Ipv4Address

text \<open>One operation: the entries it accepts, the entries that leave the queue, in order, with whether
  they are delivered (and not dropped), and the queue.\<close>

type_synonym rq_step = "QueueEntry list \<times> (bool \<times> QueueEntry) list \<times> RequestQueue"

abbreviation dropped :: "QueueEntry list \<Rightarrow> (bool \<times> QueueEntry) list" where
  "dropped es \<equiv> map (Pair False) es"

fun rq_exec :: "Time \<Rightarrow> rq_op \<Rightarrow> RequestQueue \<Rightarrow> rq_step option" where
  "rq_exec now (Enq e) q =
     (case rq_Enqueue now e q of None \<Rightarrow> None
      | Some (ok, dr, q1) \<Rightarrow> Some (if ok then [qe_SetExpireTime now (m_queueTimeout q) e] else [], dropped dr, q1))"
| "rq_exec now (Deq dst) q =
     (case rq_Dequeue now dst q of (None, dr, q1) \<Rightarrow> Some ([], dropped dr, q1)
      | (Some e, dr, q1) \<Rightarrow> Some ([], dropped dr @ [(True, e)], q1))"
| "rq_exec now (DropDst dst) q = (case rq_DropPacketWithDst now dst q of (dr, q1) \<Rightarrow> Some ([], dropped dr, q1))"

fun rq_run :: "(Time \<times> rq_op) list \<Rightarrow> RequestQueue \<Rightarrow> rq_step option" where
  "rq_run [] q = Some ([], [], q)"
| "rq_run ((now, x) # xs) q =
     (case rq_exec now x q of None \<Rightarrow> None
      | Some (acc, out, q1) \<Rightarrow>
          (case rq_run xs q1 of None \<Rightarrow> None | Some (acc', out', q2) \<Rightarrow> Some (acc @ acc', out @ out', q2)))"

text \<open>The queue is sorted by expiry, within its bound, and holds a packet for a destination once.\<close>

definition rq_key :: "QueueEntry \<Rightarrow> u64 \<times> Ipv4Address" where
  "rq_key e = (pk_uid (qe_packet e), qe_dst e)"

definition rq_inv :: "Time \<Rightarrow> RequestQueue \<Rightarrow> bool" where
  "rq_inv now q \<longleftrightarrow> 0 < m_maxLen q \<and> length (m_queue q) \<le> m_maxLen q \<and> 0 \<le> m_queueTimeout q \<and>
     sorted (map qe_expire (m_queue q)) \<and> (\<forall>e \<in> set (m_queue q). qe_expire e \<le> m_queueTimeout q + now) \<and>
     distinct (map rq_key (m_queue q))"

lemma sorted_filter_expired:
  "sorted (map qe_expire es) \<Longrightarrow> filter (qe_IsExpired now) es @ filter (\<lambda>e. \<not> qe_IsExpired now e) es = es"
proof (induction es)
  case (Cons e es)
  show ?case
  proof (cases "qe_IsExpired now e")
    case False
    then have "\<forall>x \<in> set es. \<not> qe_IsExpired now x" using Cons.prems by (auto simp: qe_IsExpired_def qe_GetExpireTime_def)
    then show ?thesis using False by (simp add: filter_empty_conv filter_id_conv)
  qed (use Cons in simp)
qed simp

text \<open>Purge takes a part of the queue off its front.\<close>

lemma rq_Purge_inv:
  assumes "rq_inv now0 q" and "now0 \<le> now" and "rq_Purge now q = (dr, q1)"
  shows "rq_inv now q1" and "m_queue q = dr @ m_queue q1" and "m_queueTimeout q1 = m_queueTimeout q"
    and "\<forall>e \<in> set (m_queue q1). now \<le> qe_expire e"
proof -
  have q1: "m_queue q1 = filter (\<lambda>e. \<not> qe_IsExpired now e) (m_queue q)" "dr = filter (qe_IsExpired now) (m_queue q)"
    "m_maxLen q1 = m_maxLen q" "m_queueTimeout q1 = m_queueTimeout q" using assms(3) by (auto simp: rq_Purge_def)
  show q: "m_queue q = dr @ m_queue q1"
    using sorted_filter_expired [of "m_queue q" now] assms(1) q1(1,2) by (simp add: rq_inv_def)
  have "sorted (map qe_expire (m_queue q1))" "distinct (map rq_key (m_queue q1))" "length (m_queue q1) \<le> m_maxLen q"
    using assms(1) q by (auto simp: rq_inv_def sorted_append)
  then show "rq_inv now q1" using assms(1,2) q1 by (fastforce simp: rq_inv_def)
  show "m_queueTimeout q1 = m_queueTimeout q" by (rule q1(4))
  show "\<forall>e \<in> set (m_queue q1). now \<le> qe_expire e" by (auto simp: q1(1) qe_IsExpired_def qe_GetExpireTime_def)
qed

text \<open>What leaves, and what stays, is in the order of arrival, for each destination.\<close>

abbreviation for_dst :: "Ipv4Address \<Rightarrow> QueueEntry list \<Rightarrow> QueueEntry list" where
  "for_dst D es \<equiv> filter (\<lambda>e. qe_dst e = D) es"

definition fifo_step :: "Time \<Rightarrow> RequestQueue \<Rightarrow> rq_step \<Rightarrow> bool" where
  "fifo_step now q r \<longleftrightarrow>
     (case r of (acc, out, q1) \<Rightarrow> rq_inv now q1 \<and> m_maxLen q1 = m_maxLen q \<and> m_queueTimeout q1 = m_queueTimeout q \<and>
        (\<forall>D. for_dst D (map snd out) @ for_dst D (m_queue q1) = for_dst D (m_queue q) @ for_dst D acc) \<and>
        (\<forall>e. (True, e) \<in> set out \<longrightarrow> now \<le> qe_expire e))"

lemma erase_first_filter:
  "list_erase_first P xs = Some (y, ys) \<Longrightarrow> filter P xs = y # filter P ys \<and> (\<forall>Q. (\<forall>x. Q x \<longrightarrow> \<not> P x) \<longrightarrow> filter Q xs = filter Q ys)"
  by (induction xs arbitrary: ys) (auto split: if_splits)

lemma erase_first_split: "list_erase_first P xs = Some (y, ys) \<Longrightarrow> \<exists>us vs. xs = us @ y # vs \<and> ys = us @ vs"
proof (induction xs arbitrary: ys)
  case (Cons x xs)
  show ?case
  proof (cases "P x")
    case True
    then have "x # xs = [] @ y # ys \<and> ys = [] @ ys" using Cons.prems by auto
    then show ?thesis by blast
  next
    case False
    then obtain zs where zs: "list_erase_first P xs = Some (y, zs)" "ys = x # zs" using Cons.prems by auto
    from Cons.IH [OF zs(1)] obtain us vs where "xs = us @ y # vs" "zs = us @ vs" by blast
    then show ?thesis using zs(2) by (intro exI [of _ "x # us"] exI [of _ vs]) simp
  qed
qed simp

text \<open>A part of a queue that satisfies the invariant satisfies it.\<close>

lemma rq_inv_part:
  assumes "rq_inv now q" and "m_queue q' = us @ vs" and "m_queue q = us @ ws @ vs"
    and "m_maxLen q' = m_maxLen q" and "m_queueTimeout q' = m_queueTimeout q"
  shows "rq_inv now q'"
  using assms by (auto simp: rq_inv_def sorted_append)

lemma rq_inv_filter: "rq_inv now q \<Longrightarrow> rq_inv now (q\<lparr>m_queue := filter P (m_queue q)\<rparr>)"
  by (auto simp: rq_inv_def sorted_wrt_map sorted_wrt_filter distinct_map inj_on_def sorted_filter intro: le_trans [OF length_filter_le])

lemma rq_inv_push:
  assumes "rq_inv now q" and "length (m_queue q) < m_maxLen q" and "rq_key e \<notin> rq_key ` set (m_queue q)"
  shows "rq_inv now (q\<lparr>m_queue := m_queue q @ [qe_SetExpireTime now (m_queueTimeout q) e]\<rparr>)"
  using assms by (auto simp: rq_inv_def sorted_append qe_SetExpireTime_def rq_key_def)

lemma fifo_enq:
  assumes i: "rq_inv now0 q" and n: "now0 \<le> now"
  shows "\<exists>r. rq_exec now (Enq e) q = Some r \<and> fifo_step now q r"
proof -
  obtain dr q1 where p: "rq_Purge now q = (dr, q1)" by (cases "rq_Purge now q")
  note P = rq_Purge_inv [OF i n p]
  have ml: "m_maxLen q1 = m_maxLen q" using p by (auto simp: rq_Purge_def)
  let ?e = "qe_SetExpireTime now (m_queueTimeout q1) e"
  have d: "qe_dst ?e = qe_dst e" by (simp add: qe_SetExpireTime_def)
  show ?thesis
  proof (cases "\<exists>x \<in> set (m_queue q1). pk_uid (qe_packet x) = pk_uid (qe_packet e) \<and> qe_dst x = qe_dst e")
    case True
    then show ?thesis using p P ml by (auto simp: rq_Enqueue_def fifo_step_def comp_def)
  next
    case new: False
    then have k: "rq_key e \<notin> rq_key ` set (m_queue q1)" by (auto simp: rq_key_def)
    show ?thesis
    proof (cases "length (m_queue q1) = m_maxLen q1")
      case True
      then obtain f fs where f: "m_queue q1 = f # fs" using P(1) by (cases "m_queue q1") (auto simp: rq_inv_def)
      have i2: "rq_inv now (q1\<lparr>m_queue := fs\<rparr>)" by (rule rq_inv_part [OF P(1), of _ "[]" fs "[f]"]) (simp_all add: f)
      have "rq_inv now (q1\<lparr>m_queue := fs @ [?e]\<rparr>)"
        using rq_inv_push [OF i2, of e] k True f P(1) by (simp add: rq_inv_def)
      then show ?thesis using p P ml new True f d by (auto simp: rq_Enqueue_def fifo_step_def comp_def)
    next
      case False
      then have "rq_inv now (q1\<lparr>m_queue := m_queue q1 @ [?e]\<rparr>)" using rq_inv_push [OF P(1) _ k] P(1) by (simp add: rq_inv_def)
      then show ?thesis using p P ml new False d by (auto simp: rq_Enqueue_def fifo_step_def comp_def)
    qed
  qed
qed

lemma fifo_deq:
  assumes i: "rq_inv now0 q" and n: "now0 \<le> now"
  shows "\<exists>r. rq_exec now (Deq dst) q = Some r \<and> fifo_step now q r"
proof -
  obtain dr q1 where p: "rq_Purge now q = (dr, q1)" by (cases "rq_Purge now q")
  note P = rq_Purge_inv [OF i n p]
  have ml: "m_maxLen q1 = m_maxLen q" using p by (auto simp: rq_Purge_def)
  show ?thesis
  proof (cases "list_erase_first (\<lambda>e. qe_dst e = dst) (m_queue q1)")
    case None
    then show ?thesis using p P ml by (simp add: rq_Dequeue_def fifo_step_def comp_def) auto
  next
    case (Some y)
    obtain e es where y: "y = (e, es)" by (cases y)
    obtain us vs where sp: "m_queue q1 = us @ e # vs" "es = us @ vs" using erase_first_split [OF Some [unfolded y]] by blast
    have "rq_inv now (q1\<lparr>m_queue := es\<rparr>)" by (rule rq_inv_part [OF P(1), of _ us vs "[e]"]) (simp_all add: sp)
    moreover have e: "qe_dst e = dst" "e \<in> set (m_queue q1)" using list_erase_first_Some [OF Some [unfolded y]] by auto
    moreover have f: "for_dst D (m_queue q1) = for_dst D [e] @ for_dst D es" for D
      using erase_first_filter [OF Some [unfolded y]] e(1) by (cases "D = dst") auto
    moreover have "rq_exec now (Deq dst) q = Some ([], dropped dr @ [(True, e)], q1\<lparr>m_queue := es\<rparr>)"
      using p Some y by (simp add: rq_Dequeue_def)
    moreover have "for_dst D (dr @ [e]) @ for_dst D es = for_dst D (m_queue q)" for D
      unfolding P(2) by (simp only: filter_append append.assoc f)
    moreover have "now \<le> qe_expire e" using P(4) e(2) by blast
    ultimately show ?thesis using P(3) ml by (simp add: fifo_step_def comp_def) auto
  qed
qed

lemma fifo_drop:
  assumes i: "rq_inv now0 q" and n: "now0 \<le> now"
  shows "\<exists>r. rq_exec now (DropDst dst) q = Some r \<and> fifo_step now q r"
proof -
  obtain dr q1 where p: "rq_Purge now q = (dr, q1)" by (cases "rq_Purge now q")
  note P = rq_Purge_inv [OF i n p]
  have ml: "m_maxLen q1 = m_maxLen q" using p by (auto simp: rq_Purge_def)
  have "for_dst D (for_dst dst xs) @ for_dst D (filter (\<lambda>e. qe_dst e \<noteq> dst) xs) = for_dst D xs" for D xs
    by (cases "D = dst") (auto simp: filter_empty_conv intro!: filter_cong)
  then show ?thesis using p P ml rq_inv_filter [OF P(1), of "\<lambda>e. qe_dst e \<noteq> dst"]
    by (auto simp: rq_DropPacketWithDst_def fifo_step_def comp_def)
qed

lemma fifo_exec: "rq_inv now0 q \<Longrightarrow> now0 \<le> now \<Longrightarrow> \<exists>r. rq_exec now x q = Some r \<and> fifo_step now q r"
  by (cases x) (simp_all only: fifo_enq fifo_deq fifo_drop)

text \<open>The times of the operations do not go back.\<close>

lemma fifo_run:
  assumes "rq_inv now0 q" and "sorted (now0 # map fst xs)"
  shows "\<exists>acc out q1. rq_run xs q = Some (acc, out, q1) \<and> rq_inv (last (now0 # map fst xs)) q1 \<and> m_maxLen q1 = m_maxLen q \<and>
    (\<forall>D. for_dst D (map snd out) @ for_dst D (m_queue q1) = for_dst D (m_queue q) @ for_dst D acc)"
  using assms
proof (induction xs arbitrary: now0 q)
  case (Cons x xs)
  obtain now y where x: "x = (now, y)" by (cases x)
  then obtain acc out q1 where 1: "rq_exec now y q = Some (acc, out, q1)" "fifo_step now q (acc, out, q1)"
    using fifo_exec [OF Cons.prems(1), of now y] Cons.prems(2) by auto
  then have s: "rq_inv now q1" "m_maxLen q1 = m_maxLen q" "\<And>D. for_dst D (map snd out) @ for_dst D (m_queue q1) = for_dst D (m_queue q) @ for_dst D acc"
    by (auto simp: fifo_step_def)
  obtain acc' out' q2 where 2: "rq_run xs q1 = Some (acc', out', q2)" "rq_inv (last (now # map fst xs)) q2" "m_maxLen q2 = m_maxLen q1"
    "\<And>D. for_dst D (map snd out') @ for_dst D (m_queue q2) = for_dst D (m_queue q1) @ for_dst D acc'"
    using Cons.IH [OF s(1)] Cons.prems(2) x by auto
  have "for_dst D (map snd (out @ out')) @ for_dst D (m_queue q2) = for_dst D (m_queue q) @ for_dst D (acc @ acc')" for D
    using s(3) [of D] 2(4) [of D] by simp
  then show ?case using 1 2 s(2) x by auto
qed simp

section \<open>The id cache\<close>

text \<open>
  A filter for duplicates: at each arrival it says whether the key has been accepted before, within
  a time window. The client's lemma is proved for any such filter.
\<close>

locale duplicate_filter =
  fixes check :: "Time \<Rightarrow> 'k \<Rightarrow> 'c \<Rightarrow> bool \<times> 'c"
    and remembers :: "Time \<Rightarrow> 'k \<Rightarrow> 'c \<Rightarrow> bool"
    and window :: "'c \<Rightarrow> Time"
  assumes check_iff: "fst (check now k c) \<longleftrightarrow> remembers now k c"
    and check_window: "window (snd (check now k c)) = window c"
    and check_keeps: "now \<le> later \<Longrightarrow> remembers later k c \<Longrightarrow> remembers later k (snd (check now k' c))"
    and check_adds: "\<not> remembers now k c \<Longrightarrow> now \<le> later \<Longrightarrow> later \<le> now + window c \<Longrightarrow> remembers later k (snd (check now k c))"
begin

text \<open>The arrivals that are accepted, from a list of arrivals with their times.\<close>

fun accepted :: "(Time \<times> 'k) list \<Rightarrow> 'c \<Rightarrow> 'k list" where
  "accepted [] c = []"
| "accepted ((now, k) # xs) c = (case check now k c of (dup, c1) \<Rightarrow> (if dup then [] else [k]) @ accepted xs c1)"

lemma remembered_not_accepted:
  assumes "sorted (map fst xs)" and "\<forall>x \<in> set xs. remembers (fst x) k c"
  shows "k \<notin> set (accepted xs c)"
  using assms
proof (induction xs arbitrary: c)
  case (Cons x xs)
  obtain now k' where x: "x = (now, k')" by (cases x)
  obtain dup c1 where c: "check now k' c = (dup, c1)" by (cases "check now k' c")
  have "\<forall>y \<in> set xs. remembers (fst y) k c1"
    using check_keeps [of now _ k c k'] Cons.prems x c by fastforce
  then have "k \<notin> set (accepted xs c1)" using Cons.IH Cons.prems(1) by simp
  moreover have "dup" if "k' = k" using check_iff [of now k' c] Cons.prems(2) x c that by simp
  ultimately show ?case using x c by auto
qed simp

text \<open>Within the window, a key is accepted at most once.\<close>

lemma accepted_once:
  assumes "sorted (map fst xs)" and "\<forall>x \<in> set xs. \<forall>y \<in> set xs. fst y \<le> fst x + window c"
  shows "distinct (accepted xs c)"
  using assms
proof (induction xs arbitrary: c)
  case (Cons x xs)
  obtain now k where x: "x = (now, k)" by (cases x)
  obtain dup c1 where c: "check now k c = (dup, c1)" by (cases "check now k c")
  have w: "window c1 = window c" using check_window [of now k c] c by simp
  have d: "distinct (accepted xs c1)" using Cons.IH [of c1] Cons.prems w by simp
  have "k \<notin> set (accepted xs c1)" if "\<not> dup"
  proof (rule remembered_not_accepted)
    show "\<forall>y \<in> set xs. remembers (fst y) k c1"
      using check_adds [of now k c] check_iff [of now k c] that c Cons.prems x by auto
  qed (use Cons.prems in simp)
  then show ?case using x c d by auto
qed simp

end

definition ic_remembers :: "Time \<Rightarrow> Ipv4Address \<times> u32 \<Rightarrow> IdCache \<Rightarrow> bool" where
  "ic_remembers now k c \<longleftrightarrow> (\<exists>u \<in> set (m_idCache c). uid_context u = fst k \<and> uid_id u = snd k \<and> now \<le> uid_expire u)"

definition ic_check :: "Time \<Rightarrow> Ipv4Address \<times> u32 \<Rightarrow> IdCache \<Rightarrow> bool \<times> IdCache" where
  "ic_check now k c = ic_IsDuplicate now (fst k) (snd k) c"

interpretation idc: duplicate_filter ic_check ic_remembers ic_lifetime
proof
  fix now later k k' c
  show "fst (ic_check now k c) \<longleftrightarrow> ic_remembers now k c"
    by (auto simp: ic_check_def ic_IsDuplicate_def ic_remembers_def ic_Purge_def ic_IsExpired_def Let_def)
  show "ic_lifetime (snd (ic_check now k c)) = ic_lifetime c"
    by (simp add: ic_check_def ic_IsDuplicate_def ic_Purge_def Let_def)
  show "now \<le> later \<Longrightarrow> ic_remembers later k c \<Longrightarrow> ic_remembers later k (snd (ic_check now k' c))"
    by (fastforce simp: ic_check_def ic_IsDuplicate_def ic_remembers_def ic_Purge_def ic_IsExpired_def Let_def)
  show "\<not> ic_remembers now k c \<Longrightarrow> now \<le> later \<Longrightarrow> later \<le> now + ic_lifetime c \<Longrightarrow> ic_remembers later k (snd (ic_check now k c))"
    by (auto simp: ic_check_def ic_IsDuplicate_def ic_remembers_def ic_Purge_def ic_IsExpired_def Let_def)
qed

section \<open>Properties\<close>

text \<open>
  C29: The queue of packets that wait for a route is bounded and first in, first out. From any
  queue that satisfies its invariant, with a positive length limit, and for any sequence of Enqueue,
  Dequeue and DropPacketWithDst at times that do not go back: no operation fails, the queue never
  exceeds its limit, and for every destination the entries that have left, delivered or dropped, followed by
  the entries still queued are exactly the entries that were there, followed by the accepted ones, in order.
\<close>

theorem queue_bounded_fifo:
  assumes "rq_inv now0 q" and "sorted (now0 # map fst xs)"
  shows "\<exists>acc out q1. rq_run xs q = Some (acc, out, q1) \<and> length (m_queue q1) \<le> m_maxLen q \<and>
    (\<forall>D. for_dst D (map snd out) @ for_dst D (m_queue q1) = for_dst D (m_queue q) @ for_dst D acc)"
  using fifo_run [OF assms] by (auto simp: rq_inv_def)

definition example_entry :: "u64 \<Rightarrow> Ipv4Address \<Rightarrow> QueueEntry" where
  "example_entry u d =
     \<lparr>qe_packet = \<lparr>pk_uid = u, pk_deferred = None, pk_udpPort = 9\<rparr>,
      qe_header = \<lparr>ih_source = 1, ih_destination = d, ih_ttl = 64, ih_protocol = 17\<rparr>, qe_expire = 0\<rparr>"

theorem queue_bounded_fifo_witness:
  "rq_inv 0 \<lparr>m_queue = [], m_maxLen = 2, m_queueTimeout = 30\<rparr> \<and>
   (\<exists>acc out q1. rq_run [(1, Enq (example_entry 1 7)), (2, Enq (example_entry 2 7)), (3, Enq (example_entry 3 7)), (5, Deq 7), (40, Deq 7)]
      \<lparr>m_queue = [], m_maxLen = 2, m_queueTimeout = 30\<rparr> = Some (acc, out, q1) \<and> length (m_queue q1) \<le> 2 \<and>
      for_dst 7 (map snd out) @ for_dst 7 (m_queue q1) = for_dst 7 acc)"
proof -
  let ?q = "\<lparr>m_queue = [], m_maxLen = 2, m_queueTimeout = 30\<rparr>"
  let ?xs = "[(1 :: Time, Enq (example_entry 1 7)), (2, Enq (example_entry 2 7)), (3, Enq (example_entry 3 7)), (5, Deq 7), (40, Deq 7)]"
  have i: "rq_inv 0 ?q" by (simp add: rq_inv_def)
  have s: "sorted (0 # map fst ?xs)" by simp
  obtain acc out q1 where r: "rq_run ?xs ?q = Some (acc, out, q1)" "length (m_queue q1) \<le> m_maxLen ?q"
    "\<forall>D. for_dst D (map snd out) @ for_dst D (m_queue q1) = for_dst D (m_queue ?q) @ for_dst D acc"
    using queue_bounded_fifo [OF i s] by blast
  have "length (m_queue q1) \<le> 2" "for_dst 7 (map snd out) @ for_dst 7 (m_queue q1) = for_dst 7 acc"
    using r(2) r(3) [rule_format, of 7] by simp_all
  then show ?thesis using i r(1) by blast
qed

end
