(* ===== verification/Aodv_Protocol.thy ===== *)
theory Aodv_Protocol
  imports Aodv_Rtable Aodv_Queue
begin

unbundle bit_operations_syntax

text \<open>
  src/aodv/model/aodv-routing-protocol.cc: the AODV routing protocol of a node, with the list of
  its neighbours (aodv-neighbor.cc). The members of the class are the record \<open>RoutingProtocol\<close>;
  a handler maps a state to a state, and None stands for a failing NS_ASSERT or NS_ABORT or
  undefined behaviour. What a handler does outside the class, packets sent, events scheduled and
  callbacks called, is appended to the field \<open>m_out\<close>, in order.

  The environment is a record: the current time, the answers of the Ipv4 object and of the ARP
  caches, and the state of the callbacks of the caller. A control packet is the header object it carries
  with its time-to-live tag; Aodv_Packet shows that the headers survive serialization.
\<close>

section \<open>State\<close>

datatype aodv_msg = MsgRreq RreqHeader | MsgRrep RrepHeader | MsgRerr RerrHeader | MsgRrepAck RrepAckHeader

datatype action =
    SendTo addr aodv_msg u8 Ipv4Address
  | ScheduleSendTo Time addr aodv_msg u8 Ipv4Address
  | ScheduleSendRequest Time Ipv4Address
  | UnicastForward Ipv4Route data_packet Ipv4Header
  | LocalDeliver data_packet Ipv4Header int
  | ErrorCallback data_packet Ipv4Header
  | CloseSocket addr
  | ScheduleNowStart

type_synonym Mac48Address = u64

record Neighbor =
  n_neighborAddress :: Ipv4Address
  n_hardwareAddress :: Mac48Address
  n_expireTime :: Time
  n_close :: bool

record Neighbors =
  m_nb_list :: "Neighbor list"
  m_ntimer_delay :: Time
  m_ntimer :: "Time option"
  m_arp :: "addr list"

text \<open>A timer is the time at which it expires, None when it is not running.\<close>

record RoutingProtocol =
  m_rreqRetries :: u32
  m_ttlStart :: u16
  m_ttlIncrement :: u16
  m_ttlThreshold :: u16
  m_timeoutBuffer :: u16
  m_rreqRateLimit :: u16
  m_rerrRateLimit :: u16
  m_activeRouteTimeout :: Time
  m_netDiameter :: u32
  m_nodeTraversalTime :: Time
  m_netTraversalTime :: Time
  m_pathDiscoveryTime :: Time
  m_myRouteTimeout :: Time
  m_helloInterval :: Time
  m_allowedHelloLoss :: u32
  m_blackListTimeout :: Time
  m_destinationOnly :: bool
  m_gratuitousReply :: bool
  m_enableHello :: bool
  m_enableBroadcast :: bool
  m_ipv4 :: addr
  m_socketAddresses :: "(addr, Ipv4InterfaceAddress) omap"
  m_socketSubnetBroadcastAddresses :: "(addr, Ipv4InterfaceAddress) omap"
  m_lo :: addr
  m_routingTable :: RoutingTable
  m_rqueue :: RequestQueue
  m_requestId :: u32
  m_seqNo :: u32
  m_rreqIdCache :: IdCache
  m_dpd :: IdCache
  m_nb :: Neighbors
  m_rreqCount :: u16
  m_rerrCount :: u16
  m_htimer :: "Time option"
  m_rreqRateLimitTimer :: "Time option"
  m_rerrRateLimitTimer :: "Time option"
  m_addressReqTimer :: "(Ipv4Address, Time option) omap"
  m_lastBcastTime :: Time
  m_random :: "nat \<Rightarrow> u32"
  m_out :: "action list"

record environment =
  env_now :: Time
  GetInterfaceForAddress :: "Ipv4Address \<Rightarrow> int"
  GetInterfaceForDevice :: "addr \<Rightarrow> int"
  GetNetDevice :: "int \<Rightarrow> addr"
  GetAddress :: "int \<Rightarrow> Ipv4InterfaceAddress"
  IsDestinationAddress :: "Ipv4Address \<Rightarrow> int \<Rightarrow> bool"
  IsForwarding :: "int \<Rightarrow> bool"
  ArpLookup :: "addr \<Rightarrow> Ipv4Address \<Rightarrow> Mac48Address option"
  GetNInterfaces :: nat
  IsUp :: "int \<Rightarrow> bool"
  GetNAddresses :: "int \<Rightarrow> nat"
  GetArpCache :: "int \<Rightarrow> addr"
  HasAdhocWifiMac :: "int \<Rightarrow> bool"

definition emit :: "action \<Rightarrow> RoutingProtocol \<Rightarrow> RoutingProtocol" where
  "emit a s = s\<lparr>m_out := m_out s @ [a]\<rparr>"

definition emit_errors :: "QueueEntry list \<Rightarrow> RoutingProtocol \<Rightarrow> RoutingProtocol" where
  "emit_errors es s = s\<lparr>m_out := m_out s @ map (\<lambda>e. ErrorCallback (qe_packet e) (qe_header e)) es\<rparr>"

text \<open>\<open>m_uniformRandomVariable->GetInteger (0, 10)\<close> in milliseconds: the next number of the stream
  \<open>m_random\<close>.\<close>

definition jitter :: "RoutingProtocol \<Rightarrow> Time \<times> RoutingProtocol" where
  "jitter s = (MilliSeconds (uint (m_random s 0)), s\<lparr>m_random := (\<lambda>n. m_random s (Suc n))\<rparr>)"

definition schedule_send :: "addr \<Rightarrow> aodv_msg \<Rightarrow> u8 \<Rightarrow> Ipv4Address \<Rightarrow> RoutingProtocol \<Rightarrow> RoutingProtocol" where
  "schedule_send socket msg ttl dest s = (case jitter s of (t, s) \<Rightarrow> emit (ScheduleSendTo t socket msg ttl dest) s)"

text \<open>The routing table as a member.\<close>

definition do_lookup :: "environment \<Rightarrow> Ipv4Address \<Rightarrow> RoutingTableEntry \<Rightarrow> RoutingProtocol \<Rightarrow> bool \<times> RoutingTableEntry \<times> RoutingProtocol" where
  "do_lookup e i rt s =
     (case LookupRoute (env_now e) i rt (m_routingTable s) of (ok, rt, t) \<Rightarrow> (ok, rt, s\<lparr>m_routingTable := t\<rparr>))"

definition do_lookup_valid :: "environment \<Rightarrow> Ipv4Address \<Rightarrow> RoutingTableEntry \<Rightarrow> RoutingProtocol \<Rightarrow> bool \<times> RoutingTableEntry \<times> RoutingProtocol" where
  "do_lookup_valid e i rt s =
     (case LookupValidRoute (env_now e) i rt (m_routingTable s) of (ok, rt, t) \<Rightarrow> (ok, rt, s\<lparr>m_routingTable := t\<rparr>))"

definition do_update :: "RoutingTableEntry \<Rightarrow> RoutingProtocol \<Rightarrow> RoutingProtocol" where
  "do_update rt s = s\<lparr>m_routingTable := snd (rt_Update rt (m_routingTable s))\<rparr>"

definition do_add :: "environment \<Rightarrow> RoutingTableEntry \<Rightarrow> RoutingProtocol \<Rightarrow> RoutingProtocol" where
  "do_add e rt s = s\<lparr>m_routingTable := snd (AddRoute (env_now e) rt (m_routingTable s))\<rparr>"

definition do_delete :: "environment \<Rightarrow> Ipv4Address \<Rightarrow> RoutingProtocol \<Rightarrow> RoutingProtocol" where
  "do_delete e dst s = s\<lparr>m_routingTable := snd (DeleteRoute (env_now e) dst (m_routingTable s))\<rparr>"

abbreviation fresh_entry :: "environment \<Rightarrow> RoutingTableEntry" where
  "fresh_entry e \<equiv> RoutingTableEntry_default (env_now e)"

text \<open>The device and the address of the interface that has a local address.\<close>

definition receiver_dev :: "environment \<Rightarrow> Ipv4Address \<Rightarrow> addr" where
  "receiver_dev e receiver = GetNetDevice e (GetInterfaceForAddress e receiver)"

definition receiver_iface :: "environment \<Rightarrow> Ipv4Address \<Rightarrow> Ipv4InterfaceAddress" where
  "receiver_iface e receiver = GetAddress e (GetInterfaceForAddress e receiver)"

section \<open>Sockets\<close>

definition find_socket :: "Ipv4InterfaceAddress \<Rightarrow> (addr, Ipv4InterfaceAddress) omap \<Rightarrow> addr option" where
  "find_socket ad m = map_option fst (find (\<lambda>(socket, iface). iface = ad) m)"

definition FindSocketWithInterfaceAddress :: "Ipv4InterfaceAddress \<Rightarrow> RoutingProtocol \<Rightarrow> addr option" where
  "FindSocketWithInterfaceAddress ad s = find_socket ad (m_socketAddresses s)"

definition FindSubnetBroadcastSocketWithInterfaceAddress :: "Ipv4InterfaceAddress \<Rightarrow> RoutingProtocol \<Rightarrow> addr option" where
  "FindSubnetBroadcastSocketWithInterfaceAddress ad s = find_socket ad (m_socketSubnetBroadcastAddresses s)"

definition IsMyOwnAddress :: "Ipv4Address \<Rightarrow> RoutingProtocol \<Rightarrow> bool" where
  "IsMyOwnAddress src s \<longleftrightarrow> (\<exists>(socket, iface) \<in> set (m_socketAddresses s). src = ifa_local iface)"

text \<open>The all-hosts broadcast address on an interface with a full mask, the subnet-directed one otherwise.\<close>

definition broadcast_of :: "Ipv4InterfaceAddress \<Rightarrow> Ipv4Address" where
  "broadcast_of iface = (if ifa_mask iface = 0xffffffff then 0xffffffff else ifa_broadcast iface)"

section \<open>Lifetimes\<close>

definition UpdateRouteLifeTime :: "environment \<Rightarrow> Ipv4Address \<Rightarrow> Time \<Rightarrow> RoutingProtocol \<Rightarrow> bool \<times> RoutingProtocol" where
  "UpdateRouteLifeTime e ad lifetime s =
     (case do_lookup e ad (fresh_entry e) s of (ok, rt, s) \<Rightarrow>
        if ok \<and> rt_flag rt = VALID
        then (True, do_update (rt_SetLifeTime (env_now e) (max lifetime (rt_GetLifeTime (env_now e) rt)) (rt\<lparr>rt_reqCount := 0\<rparr>)) s)
        else (False, s))"

abbreviation touch :: "environment \<Rightarrow> Ipv4Address \<Rightarrow> RoutingProtocol \<Rightarrow> RoutingProtocol" where
  "touch e ad s \<equiv> snd (UpdateRouteLifeTime e ad (m_activeRouteTimeout s) s)"

text \<open>The existing entry of a neighbour with a valid sequence number, one hop away on the same device:
  the code sets the lifetime of its copy and does not store it.\<close>

definition UpdateRouteToNeighbor :: "environment \<Rightarrow> Ipv4Address \<Rightarrow> Ipv4Address \<Rightarrow> RoutingProtocol \<Rightarrow> RoutingProtocol" where
  "UpdateRouteToNeighbor e sender receiver s =
     (case do_lookup e sender (fresh_entry e) s of (ok, toNeighbor, s) \<Rightarrow>
        let dev = receiver_dev e receiver; new = (\<lambda>lifetime. mk_RoutingTableEntry (env_now e) dev sender False 0 (receiver_iface e receiver) 1 sender lifetime)
        in if \<not> ok then do_add e (new (m_activeRouteTimeout s)) s
           else if rt_validSeqNo toNeighbor \<and> rt_hops toNeighbor = 1 \<and> GetOutputDevice toNeighbor = dev then s
           else do_update (new (max (m_activeRouteTimeout s) (rt_GetLifeTime (env_now e) toNeighbor))) s)"

section \<open>Route errors\<close>

text \<open>The interfaces of the precursors that have a valid route, in order, without repetition.\<close>

fun precursor_ifaces :: "environment \<Rightarrow> Ipv4Address list \<Rightarrow> RoutingTableEntry \<Rightarrow> Ipv4InterfaceAddress list \<Rightarrow> RoutingProtocol \<Rightarrow>
  Ipv4InterfaceAddress list \<times> RoutingProtocol" where
  "precursor_ifaces e [] toPrecursor ifaces s = (ifaces, s)"
| "precursor_ifaces e (p # ps) toPrecursor ifaces s =
     (case do_lookup_valid e p toPrecursor s of (ok, toPrecursor, s) \<Rightarrow>
        precursor_ifaces e ps toPrecursor (if ok \<and> rt_iface toPrecursor \<notin> set ifaces then ifaces @ [rt_iface toPrecursor] else ifaces) s)"

fun send_on_ifaces :: "aodv_msg \<Rightarrow> u8 \<Rightarrow> Ipv4InterfaceAddress list \<Rightarrow> RoutingProtocol \<Rightarrow> RoutingProtocol option" where
  "send_on_ifaces msg ttl [] s = Some s"
| "send_on_ifaces msg ttl (i # is) s =
     do { socket \<leftarrow> FindSocketWithInterfaceAddress i s;
          send_on_ifaces msg ttl is (schedule_send socket msg ttl (broadcast_of i) s) }"

definition SendRerrMessage :: "environment \<Rightarrow> aodv_msg \<Rightarrow> u8 \<Rightarrow> Ipv4Address list \<Rightarrow> RoutingProtocol \<Rightarrow> RoutingProtocol option" where
  "SendRerrMessage e msg ttl precursors s =
     (if precursors = [] then Some s
      else if m_rerrCount s = m_rerrRateLimit s then if m_rerrRateLimitTimer s \<noteq> None then Some s else None
      else if length precursors = 1 then
        (case do_lookup_valid e (hd precursors) (fresh_entry e) s of (ok, toPrecursor, s) \<Rightarrow>
           if ok then
             do { socket \<leftarrow> FindSocketWithInterfaceAddress (rt_iface toPrecursor) s;
                  let s = schedule_send socket msg ttl (hd precursors) s;
                  Some (s\<lparr>m_rerrCount := m_rerrCount s + 1\<rparr>) }
           else Some s)
      else
        (case precursor_ifaces e precursors (fresh_entry e) [] s of (ifaces, s) \<Rightarrow> send_on_ifaces msg ttl ifaces s))"

text \<open>The loop over the unreachable destinations that builds a route error. AddUnDestination never
  returns false, so that the branch that sends a full message is not reached.\<close>

fun collect_unreachable :: "environment \<Rightarrow> (Ipv4Address, u32) omap \<Rightarrow> RerrHeader \<Rightarrow> Ipv4Address list \<Rightarrow> RoutingProtocol \<Rightarrow>
  (RerrHeader \<times> Ipv4Address list \<times> RoutingProtocol) option" where
  "collect_unreachable e [] rerrHeader precursors s = Some (rerrHeader, precursors, s)"
| "collect_unreachable e ((dst, seqNo) # u) rerrHeader precursors s =
     do { (ok, rerrHeader) \<leftarrow> AddUnDestination dst seqNo rerrHeader;
          if \<not> ok then
            do { s \<leftarrow> SendRerrMessage e (MsgRerr rerrHeader) 1 precursors s;
                 (ok, rerrHeader) \<leftarrow> AddUnDestination dst seqNo (RerrHeader_Clear rerrHeader);
                 let (_, toDst, s) = do_lookup e dst (fresh_entry e) s;
                 collect_unreachable e u rerrHeader (GetPrecursors toDst precursors) s }
          else
            do { let (_, toDst, s) = do_lookup e dst (fresh_entry e) s;
                 collect_unreachable e u rerrHeader (GetPrecursors toDst precursors) s } }"

definition SendRerrWhenBreaksLinkToNextHop :: "environment \<Rightarrow> Ipv4Address \<Rightarrow> RoutingProtocol \<Rightarrow> RoutingProtocol option" where
  "SendRerrWhenBreaksLinkToNextHop e nextHop s =
     (case do_lookup e nextHop (fresh_entry e) s of (ok, toNextHop, s) \<Rightarrow>
        if \<not> ok then Some s
        else
          do { let precursors = GetPrecursors toNextHop [];
               (_, rerrHeader) \<leftarrow> AddUnDestination nextHop (rt_seqNo toNextHop) mk_RerrHeader;
               let (unreachable, t) = GetListOfDestinationWithNextHop (env_now e) nextHop (m_routingTable s);
               let s = s\<lparr>m_routingTable := t\<rparr>;
               (rerrHeader, precursors, s) \<leftarrow> collect_unreachable e unreachable rerrHeader precursors s;
               s \<leftarrow> (if GetDestCount rerrHeader \<noteq> 0 then SendRerrMessage e (MsgRerr rerrHeader) 1 precursors s else Some s);
               let unreachable = om_insert nextHop (rt_seqNo toNextHop) unreachable;
               Some (s\<lparr>m_routingTable := InvalidateRoutesWithDst (env_now e) unreachable (m_routingTable s)\<rparr>) })"

fun broadcast_now :: "aodv_msg \<Rightarrow> u8 \<Rightarrow> (addr, Ipv4InterfaceAddress) omap \<Rightarrow> RoutingProtocol \<Rightarrow> RoutingProtocol" where
  "broadcast_now msg ttl [] s = s"
| "broadcast_now msg ttl ((socket, iface) # m) s = broadcast_now msg ttl m (emit (SendTo socket msg ttl (broadcast_of iface)) s)"

definition SendRerrWhenNoRouteToForward :: "environment \<Rightarrow> Ipv4Address \<Rightarrow> u32 \<Rightarrow> Ipv4Address \<Rightarrow> RoutingProtocol \<Rightarrow> RoutingProtocol option" where
  "SendRerrWhenNoRouteToForward e dst dstSeqNo origin s =
     (if m_rerrCount s = m_rerrRateLimit s then if m_rerrRateLimitTimer s \<noteq> None then Some s else None
      else
        do { (_, rerrHeader) \<leftarrow> AddUnDestination dst dstSeqNo mk_RerrHeader;
             let (ok, toOrigin, s) = do_lookup_valid e origin (fresh_entry e) s;
             if ok then
               do { socket \<leftarrow> FindSocketWithInterfaceAddress (rt_iface toOrigin) s;
                    Some (emit (SendTo socket (MsgRerr rerrHeader) 1 (GetNextHop toOrigin)) s) }
             else Some (broadcast_now (MsgRerr rerrHeader) 1 (m_socketAddresses s) s) })"

section \<open>Neighbours\<close>

definition CloseNeighbor :: "environment \<Rightarrow> Neighbor \<Rightarrow> bool" where
  "CloseNeighbor e nb \<longleftrightarrow> n_expireTime nb < env_now e \<or> n_close nb"

fun link_failures :: "environment \<Rightarrow> Neighbor list \<Rightarrow> RoutingProtocol \<Rightarrow> RoutingProtocol option" where
  "link_failures e [] s = Some s"
| "link_failures e (j # js) s =
     do { s \<leftarrow> (if CloseNeighbor e j then SendRerrWhenBreaksLinkToNextHop e (n_neighborAddress j) s else Some s);
          link_failures e js s }"

definition nb_ScheduleTimer :: "environment \<Rightarrow> RoutingProtocol \<Rightarrow> RoutingProtocol" where
  "nb_ScheduleTimer e s = s\<lparr>m_nb := (m_nb s)\<lparr>m_ntimer := Some (env_now e + m_ntimer_delay (m_nb s))\<rparr>\<rparr>"

definition nb_Purge :: "environment \<Rightarrow> RoutingProtocol \<Rightarrow> RoutingProtocol option" where
  "nb_Purge e s =
     (if m_nb_list (m_nb s) = [] then Some s
      else do { s \<leftarrow> link_failures e (m_nb_list (m_nb s)) s;
                let s = s\<lparr>m_nb := (m_nb s)\<lparr>m_nb_list := filter (\<lambda>nb. \<not> CloseNeighbor e nb) (m_nb_list (m_nb s))\<rparr>\<rparr>;
                Some (nb_ScheduleTimer e s) })"

definition LookupMacAddress :: "environment \<Rightarrow> Ipv4Address \<Rightarrow> RoutingProtocol \<Rightarrow> Mac48Address" where
  "LookupMacAddress e ad s =
     (case List.map_filter (\<lambda>a. ArpLookup e a ad) (m_arp (m_nb s)) of [] \<Rightarrow> 0 | hw # _ \<Rightarrow> hw)"

text \<open>The first entry for an address, if there is one, is updated.\<close>

fun nb_update_first :: "environment \<Rightarrow> Ipv4Address \<Rightarrow> Time \<Rightarrow> Mac48Address \<Rightarrow> Neighbor list \<Rightarrow> Neighbor list option" where
  "nb_update_first e ad expire mac [] = None"
| "nb_update_first e ad expire mac (n # ns) =
     (if n_neighborAddress n = ad
      then Some (n\<lparr>n_expireTime := max (expire + env_now e) (n_expireTime n),
                   n_hardwareAddress := (if n_hardwareAddress n = 0 then mac else n_hardwareAddress n)\<rparr> # ns)
      else map_option (Cons n) (nb_update_first e ad expire mac ns))"

definition nb_Update :: "environment \<Rightarrow> Ipv4Address \<Rightarrow> Time \<Rightarrow> RoutingProtocol \<Rightarrow> RoutingProtocol option" where
  "nb_Update e ad expire s =
     (case nb_update_first e ad expire (LookupMacAddress e ad s) (m_nb_list (m_nb s)) of
        Some l \<Rightarrow> Some (s\<lparr>m_nb := (m_nb s)\<lparr>m_nb_list := l\<rparr>\<rparr>)
      | None \<Rightarrow>
          let nb = \<lparr>n_neighborAddress = ad, n_hardwareAddress = LookupMacAddress e ad s, n_expireTime = expire + env_now e, n_close = False\<rparr>
          in nb_Purge e (s\<lparr>m_nb := (m_nb s)\<lparr>m_nb_list := m_nb_list (m_nb s) @ [nb]\<rparr>\<rparr>))"

definition nb_IsNeighbor :: "environment \<Rightarrow> Ipv4Address \<Rightarrow> RoutingProtocol \<Rightarrow> (bool \<times> RoutingProtocol) option" where
  "nb_IsNeighbor e ad s =
     do { s \<leftarrow> nb_Purge e s; Some (\<exists>n \<in> set (m_nb_list (m_nb s)). n_neighborAddress n = ad, s) }"

definition nb_GetExpireTime :: "environment \<Rightarrow> Ipv4Address \<Rightarrow> RoutingProtocol \<Rightarrow> (Time \<times> RoutingProtocol) option" where
  "nb_GetExpireTime e ad s =
     do { s \<leftarrow> nb_Purge e s;
          Some (case find (\<lambda>n. n_neighborAddress n = ad) (m_nb_list (m_nb s)) of None \<Rightarrow> 0 | Some n \<Rightarrow> n_expireTime n - env_now e, s) }"

definition ProcessTxError :: "environment \<Rightarrow> Mac48Address \<Rightarrow> RoutingProtocol \<Rightarrow> RoutingProtocol option" where
  "ProcessTxError e ad s =
     nb_Purge e (s\<lparr>m_nb := (m_nb s)\<lparr>m_nb_list :=
       map (\<lambda>n. if n_hardwareAddress n = ad then n\<lparr>n_close := True\<rparr> else n) (m_nb_list (m_nb s))\<rparr>\<rparr>)"

section \<open>Route requests\<close>

definition delay_left :: "environment \<Rightarrow> Time option \<Rightarrow> Time" where
  "delay_left e t = (case t of None \<Rightarrow> 0 | Some at \<Rightarrow> at - env_now e)"

text \<open>The time until the next attempt: a multiple of the node traversal time within the ring, a
  binary exponential backoff of the net traversal time at the full diameter. Shifting 1 by 31
  or more is undefined.\<close>

definition retry_time :: "RoutingTableEntry \<Rightarrow> RoutingProtocol \<Rightarrow> Time option" where
  "retry_time rt s =
     (if unat (rt_hops rt) < unat (m_netDiameter s)
      then Some (2 * m_nodeTraversalTime s * (uint (rt_hops rt) + uint (m_timeoutBuffer s)))
      else if 0 < rt_reqCount rt
      then let backoffFactor = unat (rt_reqCount rt) - 1
           in if backoffFactor < 31 then Some (m_netTraversalTime s * 2 ^ backoffFactor) else None
      else None)"

definition ScheduleRreqRetry :: "environment \<Rightarrow> Ipv4Address \<Rightarrow> RoutingProtocol \<Rightarrow> RoutingProtocol option" where
  "ScheduleRreqRetry e dst s =
     (case do_lookup e dst (fresh_entry e) (s\<lparr>m_addressReqTimer := om_set dst None (m_addressReqTimer s)\<rparr>) of (_, rt, s) \<Rightarrow>
        do { retry \<leftarrow> retry_time rt s;
             Some (s\<lparr>m_addressReqTimer := om_set dst (Some (env_now e + retry)) (m_addressReqTimer s)\<rparr>) })"

text \<open>The time to live of the next request for a destination that is in the table.\<close>

definition next_ttl :: "RoutingTableEntry \<Rightarrow> RoutingProtocol \<Rightarrow> u16" where
  "next_ttl rt s =
     (if rt_flag rt \<noteq> IN_SEARCH then min (rt_hops rt + m_ttlIncrement s) (ucast (m_netDiameter s))
      else let ttl = rt_hops rt + m_ttlIncrement s
           in if m_ttlThreshold s < ttl then ucast (m_netDiameter s) else ttl)"

text \<open>Broadcast on every interface with a jitter; the request is entered in the id cache first.\<close>

fun broadcast_rreq :: "environment \<Rightarrow> RreqHeader \<Rightarrow> u8 \<Rightarrow> (addr, Ipv4InterfaceAddress) omap \<Rightarrow> RoutingProtocol \<Rightarrow> RoutingProtocol" where
  "broadcast_rreq e rreqHeader ttl [] s = s"
| "broadcast_rreq e rreqHeader ttl ((socket, iface) # m) s =
     (let rreqHeader = rreqHeader\<lparr>rq_origin := ifa_local iface\<rparr>;
          s = s\<lparr>m_rreqIdCache := snd (ic_IsDuplicate (env_now e) (ifa_local iface) (m_requestId s) (m_rreqIdCache s))\<rparr>;
          s = s\<lparr>m_lastBcastTime := env_now e\<rparr>;
          s = schedule_send socket (MsgRreq rreqHeader) ttl (broadcast_of iface) s
      in broadcast_rreq e rreqHeader ttl m s)"

text \<open>A request for \<open>dst\<close>: the header and the table entry that remembers the search, for a
  destination that is in the table and for one that is not.\<close>

definition blank_rreq :: "Ipv4Address \<Rightarrow> RreqHeader" where
  "blank_rreq dst =
     \<lparr>rq_flags = 0, rq_reserved = 0, rq_hopCount = 0, rq_requestID = 0, rq_dst = dst, rq_dstSeqNo = 0,
      rq_origin = Ipv4Address_default, rq_originSeqNo = 0\<rparr>"

definition search_known :: "environment \<Rightarrow> RoutingTableEntry \<Rightarrow> RreqHeader \<Rightarrow> RoutingProtocol \<Rightarrow> RreqHeader \<times> u16 \<times> RoutingProtocol" where
  "search_known e rt rreqHeader s =
     (let ttl = next_ttl rt s;
          rt = (if unat ttl = unat (m_netDiameter s) then IncrementRreqCnt rt else rt);
          rreqHeader = (if rt_validSeqNo rt then rreqHeader\<lparr>rq_dstSeqNo := rt_seqNo rt\<rparr> else SetUnknownSeqno True rreqHeader);
          rt = rt_SetLifeTime (env_now e) (m_pathDiscoveryTime s) (rt\<lparr>rt_hops := ttl, rt_flag := IN_SEARCH\<rparr>)
      in (rreqHeader, ttl, do_update rt s))"

definition search_unknown :: "environment \<Rightarrow> Ipv4Address \<Rightarrow> RreqHeader \<Rightarrow> RoutingProtocol \<Rightarrow> RreqHeader \<times> u16 \<times> RoutingProtocol" where
  "search_unknown e dst rreqHeader s =
     (let ttl = m_ttlStart s;
          newEntry = mk_RoutingTableEntry (env_now e) nullptr dst False 0 Ipv4InterfaceAddress_default ttl Ipv4Address_default (m_pathDiscoveryTime s);
          newEntry = (if unat ttl = unat (m_netDiameter s) then IncrementRreqCnt newEntry else newEntry)
      in (SetUnknownSeqno True rreqHeader, ttl, do_add e (newEntry\<lparr>rt_flag := IN_SEARCH\<rparr>) s))"

text \<open>SendRequest, from the flags of the header on.\<close>

definition launch_rreq :: "environment \<Rightarrow> Ipv4Address \<Rightarrow> RreqHeader \<Rightarrow> u16 \<Rightarrow> RoutingProtocol \<Rightarrow> RoutingProtocol option" where
  "launch_rreq e dst rreqHeader ttl s =
     (let rreqHeader = (if m_gratuitousReply s then SetGratuitousRrep True rreqHeader else rreqHeader);
          rreqHeader = (if m_destinationOnly s then SetDestinationOnly True rreqHeader else rreqHeader);
          s = s\<lparr>m_seqNo := m_seqNo s + 1\<rparr>;
          rreqHeader = rreqHeader\<lparr>rq_originSeqNo := m_seqNo s\<rparr>;
          s = s\<lparr>m_requestId := m_requestId s + 1\<rparr>;
          rreqHeader = rreqHeader\<lparr>rq_requestID := m_requestId s\<rparr>
      in ScheduleRreqRetry e dst (broadcast_rreq e rreqHeader (ucast ttl) (m_socketAddresses s) s))"

definition SendRequest :: "environment \<Rightarrow> Ipv4Address \<Rightarrow> RoutingProtocol \<Rightarrow> RoutingProtocol option" where
  "SendRequest e dst s =
     (if m_rreqCount s = m_rreqRateLimit s
      then Some (emit (ScheduleSendRequest (delay_left e (m_rreqRateLimitTimer s) + 100000) dst) s)
      else
        let s = s\<lparr>m_rreqCount := m_rreqCount s + 1\<rparr>;
            (ok, rt, s) = do_lookup e dst (fresh_entry e) s;
            (rreqHeader, ttl, s) = (if ok then search_known e rt (blank_rreq dst) s else search_unknown e dst (blank_rreq dst) s)
        in launch_rreq e dst rreqHeader ttl s)"

section \<open>Packets that wait for a route\<close>

lemma rq_Dequeue_shorter:
  assumes "rq_Dequeue now dst q = (Some x, dr, q1)"
  shows "length (m_queue q1) < length (m_queue q)"
proof -
  let ?l = "filter (\<lambda>e. \<not> qe_IsExpired now e) (m_queue q)"
  obtain es where "list_erase_first (\<lambda>e. qe_dst e = dst) ?l = Some (x, es)" "m_queue q1 = es"
    using assms by (auto simp: rq_Dequeue_def rq_Purge_def split: option.splits)
  then have "length (m_queue q1) < length ?l" using list_erase_first_length by fastforce
  also have "\<dots> \<le> length (m_queue q)" by (rule length_filter_le)
  finally show ?thesis .
qed

text \<open>The loop of SendPacketFromQueue: the calls it makes and the queue it leaves. A packet whose
  output interface is fixed to another one is lost, and the loop ends.\<close>

function drain_queue :: "environment \<Rightarrow> Ipv4Address \<Rightarrow> Ipv4Route \<Rightarrow> RequestQueue \<Rightarrow> action list \<times> RequestQueue" where
  "drain_queue e dst route q =
     (case rq_Dequeue (env_now e) dst q of
        (None, dr, q1) \<Rightarrow> (map (\<lambda>x. ErrorCallback (qe_packet x) (qe_header x)) dr, q1)
      | (Some x, dr, q1) \<Rightarrow>
          let errs = map (\<lambda>x. ErrorCallback (qe_packet x) (qe_header x)) dr; p = qe_packet x in
          if pk_deferred p \<noteq> None \<and> the (pk_deferred p) \<noteq> -1 \<and> the (pk_deferred p) \<noteq> GetInterfaceForDevice e (r_outputDevice route)
          then (errs, q1)
          else let hdr = (qe_header x)\<lparr>ih_source := r_source route, ih_ttl := ih_ttl (qe_header x) + 1\<rparr>;
                   (acts, q2) = drain_queue e dst route q1
               in (errs @ [UnicastForward route (p\<lparr>pk_deferred := None\<rparr>) hdr] @ acts, q2))"
  by auto

termination
  by (relation "measure (\<lambda>(e, dst, route, q). length (m_queue q))") (auto dest!: sym [of "(Some _, _, _)"] rq_Dequeue_shorter)

declare drain_queue.simps [simp del]

definition SendPacketFromQueue :: "environment \<Rightarrow> Ipv4Address \<Rightarrow> Ipv4Route \<Rightarrow> RoutingProtocol \<Rightarrow> RoutingProtocol" where
  "SendPacketFromQueue e dst route s =
     (case drain_queue e dst route (m_rqueue s) of (acts, q) \<Rightarrow> s\<lparr>m_rqueue := q, m_out := m_out s @ acts\<rparr>)"

definition drop_packets :: "environment \<Rightarrow> Ipv4Address \<Rightarrow> RoutingProtocol \<Rightarrow> RoutingProtocol" where
  "drop_packets e dst s =
     (case rq_DropPacketWithDst (env_now e) dst (m_rqueue s) of (dr, q) \<Rightarrow> emit_errors dr (s\<lparr>m_rqueue := q\<rparr>))"

definition RouteRequestTimerExpire :: "environment \<Rightarrow> Ipv4Address \<Rightarrow> RoutingProtocol \<Rightarrow> RoutingProtocol option" where
  "RouteRequestTimerExpire e dst s =
     (case do_lookup_valid e dst (fresh_entry e) s of (ok, toDst, s) \<Rightarrow>
        if ok then Some (SendPacketFromQueue e dst (rt_route toDst) s)
        else if unat (rt_reqCount toDst) = unat (m_rreqRetries s)
        then Some (drop_packets e dst (do_delete e dst (s\<lparr>m_addressReqTimer := om_erase dst (m_addressReqTimer s)\<rparr>)))
        else if rt_flag toDst = IN_SEARCH then SendRequest e dst s
        else Some (drop_packets e dst (do_delete e dst (s\<lparr>m_addressReqTimer := om_erase dst (m_addressReqTimer s)\<rparr>))))"

section \<open>Replies\<close>

text \<open>\<open>int32_t (a) - int32_t (b)\<close>. Where the difference is not a 32-bit number the behaviour of the
  code is undefined; here it wraps around.\<close>

definition seq_diff :: "u32 \<Rightarrow> u32 \<Rightarrow> int" where
  "seq_diff a b = sint (a - b)"

definition send_unicast :: "RoutingTableEntry \<Rightarrow> aodv_msg \<Rightarrow> u8 \<Rightarrow> Ipv4Address \<Rightarrow> RoutingProtocol \<Rightarrow> RoutingProtocol option" where
  "send_unicast rt msg ttl dest s =
     do { socket \<leftarrow> FindSocketWithInterfaceAddress (rt_iface rt) s; Some (emit (SendTo socket msg ttl dest) s) }"

definition SendReply :: "RreqHeader \<Rightarrow> RoutingTableEntry \<Rightarrow> RoutingProtocol \<Rightarrow> RoutingProtocol option" where
  "SendReply rreqHeader toOrigin s =
     (let s = (if \<not> GetUnknownSeqno rreqHeader \<and> rq_dstSeqNo rreqHeader = m_seqNo s + 1 then s\<lparr>m_seqNo := m_seqNo s + 1\<rparr> else s);
          rrepHeader = mk_RrepHeader 0 0 (rq_dst rreqHeader) (m_seqNo s) (GetDestination toOrigin) (m_myRouteTimeout s)
      in send_unicast toOrigin (MsgRrep rrepHeader) (ucast (rt_hops toOrigin)) (GetNextHop toOrigin) s)"

text \<open>For a destination one hop away the code asks for an acknowledgement, and sets up, but does not
  schedule, a timer on a copy of the entry of the next hop.\<close>

definition SendReplyByIntermediateNode ::
  "environment \<Rightarrow> RoutingTableEntry \<Rightarrow> RoutingTableEntry \<Rightarrow> bool \<Rightarrow> RoutingProtocol \<Rightarrow> RoutingProtocol option" where
  "SendReplyByIntermediateNode e toDst toOrigin gratRep s =
     (let rrepHeader = mk_RrepHeader 0 (ucast (rt_hops toDst)) (GetDestination toDst) (rt_seqNo toDst) (GetDestination toOrigin)
            (rt_GetLifeTime (env_now e) toDst);
          (rrepHeader, s) = (if rt_hops toDst = 1
             then (SetAckRequired True rrepHeader, snd (snd (do_lookup e (GetNextHop toOrigin) (fresh_entry e) s)))
             else (rrepHeader, s));
          toDst = snd (InsertPrecursor (GetNextHop toOrigin) toDst);
          toOrigin = snd (InsertPrecursor (GetNextHop toDst) toOrigin);
          s = do_update toOrigin (do_update toDst s)
      in do { s \<leftarrow> send_unicast toOrigin (MsgRrep rrepHeader) (ucast (rt_hops toOrigin)) (GetNextHop toOrigin) s;
              if gratRep
              then send_unicast toDst
                     (MsgRrep (mk_RrepHeader 0 (ucast (rt_hops toOrigin)) (GetDestination toOrigin) (rt_seqNo toOrigin)
                        (GetDestination toDst) (rt_GetLifeTime (env_now e) toOrigin)))
                     (ucast (rt_hops toDst)) (GetNextHop toDst) s
              else Some s })"

definition SendReplyAck :: "environment \<Rightarrow> Ipv4Address \<Rightarrow> RoutingProtocol \<Rightarrow> RoutingProtocol option" where
  "SendReplyAck e neighbor s =
     (case do_lookup e neighbor (fresh_entry e) s of (_, toNeighbor, s) \<Rightarrow>
        send_unicast toNeighbor (MsgRrepAck mk_RrepAckHeader) 1 neighbor s)"

section \<open>Receiving\<close>

text \<open>RecvRequest, the route to the originator of the request.\<close>

definition reverse_route :: "environment \<Rightarrow> RreqHeader \<Rightarrow> u8 \<Rightarrow> Ipv4Address \<Rightarrow> Ipv4Address \<Rightarrow> RoutingProtocol \<Rightarrow> RoutingProtocol" where
  "reverse_route e rreqHeader hop receiver src s =
     (let origin = rq_origin rreqHeader; minimal = 2 * m_netTraversalTime s - 2 * uint hop * m_nodeTraversalTime s in
      case do_lookup e origin (fresh_entry e) s of (ok, toOrigin, s) \<Rightarrow>
        if \<not> ok
        then do_add e (mk_RoutingTableEntry (env_now e) (receiver_dev e receiver) origin True (rq_originSeqNo rreqHeader)
                         (receiver_iface e receiver) (ucast hop) src minimal) s
        else
          let seqNo = (if rt_validSeqNo toOrigin \<and> \<not> 0 < seq_diff (rq_originSeqNo rreqHeader) (rt_seqNo toOrigin)
                       then rt_seqNo toOrigin else rq_originSeqNo rreqHeader);
              toOrigin = SetOutputDevice (receiver_dev e receiver) (SetNextHop src (toOrigin\<lparr>rt_seqNo := seqNo, rt_validSeqNo := True\<rparr>));
              toOrigin = toOrigin\<lparr>rt_iface := receiver_iface e receiver, rt_hops := ucast hop\<rparr>
          in do_update (rt_SetLifeTime (env_now e) (max minimal (rt_GetLifeTime (env_now e) toOrigin)) toOrigin) s)"

text \<open>RecvRequest, the route to the neighbour that sent it.\<close>

definition neighbour_route :: "environment \<Rightarrow> u32 \<Rightarrow> Ipv4Address \<Rightarrow> Ipv4Address \<Rightarrow> RoutingProtocol \<Rightarrow> RoutingProtocol" where
  "neighbour_route e seqNo receiver src s =
     (case do_lookup e src (fresh_entry e) s of (ok, toNeighbor, s) \<Rightarrow>
        if \<not> ok
        then do_add e (mk_RoutingTableEntry (env_now e) (receiver_dev e receiver) src False seqNo (receiver_iface e receiver) 1 src
                         (m_activeRouteTimeout s)) s
        else
          let toNeighbor = rt_SetLifeTime (env_now e) (m_activeRouteTimeout s) toNeighbor;
              toNeighbor = SetOutputDevice (receiver_dev e receiver) (toNeighbor\<lparr>rt_validSeqNo := False, rt_seqNo := seqNo, rt_flag := VALID\<rparr>);
              toNeighbor = SetNextHop src (toNeighbor\<lparr>rt_iface := receiver_iface e receiver, rt_hops := 1\<rparr>)
          in do_update toNeighbor s)"

fun forward_rreq :: "environment \<Rightarrow> RreqHeader \<Rightarrow> u8 \<Rightarrow> (addr, Ipv4InterfaceAddress) omap \<Rightarrow> RoutingProtocol \<Rightarrow> RoutingProtocol" where
  "forward_rreq e rreqHeader ttl [] s = s"
| "forward_rreq e rreqHeader ttl ((socket, iface) # m) s =
     forward_rreq e rreqHeader ttl m
       (schedule_send socket (MsgRreq rreqHeader) ttl (broadcast_of iface) (s\<lparr>m_lastBcastTime := env_now e\<rparr>))"

text \<open>RecvRequest, what follows when this node is not the destination.\<close>

definition relay_rreq :: "environment \<Rightarrow> RreqHeader \<Rightarrow> u8 \<Rightarrow> RoutingProtocol \<Rightarrow> RoutingProtocol option" where
  "relay_rreq e rreqHeader tagTtl s =
     Some (if tagTtl < 2 then s else forward_rreq e rreqHeader (tagTtl - 1) (m_socketAddresses s) s)"

definition answer_rreq :: "environment \<Rightarrow> RreqHeader \<Rightarrow> u8 \<Rightarrow> Ipv4Address \<Rightarrow> RoutingProtocol \<Rightarrow> RoutingProtocol option" where
  "answer_rreq e rreqHeader tagTtl src s =
     (case do_lookup e (rq_dst rreqHeader) (fresh_entry e) s of (ok, toDst, s) \<Rightarrow>
        if \<not> ok then relay_rreq e rreqHeader tagTtl s
        else if GetNextHop toDst = src then Some s
        else if (GetUnknownSeqno rreqHeader \<or> 0 \<le> seq_diff (rt_seqNo toDst) (rq_dstSeqNo rreqHeader)) \<and> rt_validSeqNo toDst
        then if \<not> GetDestinationOnly rreqHeader \<and> rt_flag toDst = VALID
             then (case do_lookup e (rq_origin rreqHeader) (fresh_entry e) s of (_, toOrigin, s) \<Rightarrow>
                     SendReplyByIntermediateNode e toDst toOrigin (GetGratuitousRrep rreqHeader) s)
             else relay_rreq e (SetUnknownSeqno False (rreqHeader\<lparr>rq_dstSeqNo := rt_seqNo toDst\<rparr>)) tagTtl s
        else relay_rreq e rreqHeader tagTtl s)"

definition hello_loss_time :: "RoutingProtocol \<Rightarrow> Time" where
  "hello_loss_time s = uint (m_allowedHelloLoss s) * m_helloInterval s"

text \<open>RecvRequest, a request that is not a duplicate.\<close>

definition process_rreq :: "environment \<Rightarrow> RreqHeader \<Rightarrow> u8 \<Rightarrow> Ipv4Address \<Rightarrow> Ipv4Address \<Rightarrow> RoutingProtocol \<Rightarrow> RoutingProtocol option" where
  "process_rreq e rreqHeader tagTtl receiver src s =
     (let hop = rq_hopCount rreqHeader + 1; rreqHeader = rreqHeader\<lparr>rq_hopCount := hop\<rparr>;
          s = reverse_route e rreqHeader hop receiver src s;
          s = neighbour_route e (rq_originSeqNo rreqHeader) receiver src s
      in do { s \<leftarrow> nb_Update e src (hello_loss_time s) s;
              if IsMyOwnAddress (rq_dst rreqHeader) s
              then (case do_lookup e (rq_origin rreqHeader) (fresh_entry e) s of (_, toOrigin, s) \<Rightarrow> SendReply rreqHeader toOrigin s)
              else answer_rreq e rreqHeader tagTtl src s })"

definition RecvRequest :: "environment \<Rightarrow> RreqHeader \<Rightarrow> u8 \<Rightarrow> Ipv4Address \<Rightarrow> Ipv4Address \<Rightarrow> RoutingProtocol \<Rightarrow> RoutingProtocol option" where
  "RecvRequest e rreqHeader tagTtl receiver src s =
     (case do_lookup e src (fresh_entry e) s of (ok, toPrev, s) \<Rightarrow>
        if ok \<and> rt_blackListState toPrev then Some s
        else
          case ic_IsDuplicate (env_now e) (rq_origin rreqHeader) (rq_requestID rreqHeader) (m_rreqIdCache s) of (dup, c) \<Rightarrow>
            let s = s\<lparr>m_rreqIdCache := c\<rparr> in
            if dup then Some s else process_rreq e rreqHeader tagTtl receiver src s)"

definition ProcessHello :: "environment \<Rightarrow> RrepHeader \<Rightarrow> Ipv4Address \<Rightarrow> RoutingProtocol \<Rightarrow> RoutingProtocol option" where
  "ProcessHello e rrepHeader receiver s =
     (case do_lookup e (rp_dst rrepHeader) (fresh_entry e) s of (ok, toNeighbor, s) \<Rightarrow>
        let s = (if \<not> ok
                 then do_add e (mk_RoutingTableEntry (env_now e) (receiver_dev e receiver) (rp_dst rrepHeader) True (rp_dstSeqNo rrepHeader)
                                  (receiver_iface e receiver) 1 (rp_dst rrepHeader) (GetLifeTime rrepHeader)) s
                 else
                   let toNeighbor = rt_SetLifeTime (env_now e) (max (hello_loss_time s) (rt_GetLifeTime (env_now e) toNeighbor)) toNeighbor;
                       toNeighbor = SetOutputDevice (receiver_dev e receiver)
                         (toNeighbor\<lparr>rt_seqNo := rp_dstSeqNo rrepHeader, rt_validSeqNo := True, rt_flag := VALID\<rparr>);
                       toNeighbor = SetNextHop (rp_dst rrepHeader) (toNeighbor\<lparr>rt_iface := receiver_iface e receiver, rt_hops := 1\<rparr>)
                   in do_update toNeighbor s)
        in if m_enableHello s then nb_Update e (rp_dst rrepHeader) (hello_loss_time s) s else Some s)"

text \<open>RecvReply, when the entry for the destination is replaced.\<close>

definition rrep_newer :: "RrepHeader \<Rightarrow> u8 \<Rightarrow> RoutingTableEntry \<Rightarrow> bool" where
  "rrep_newer rrepHeader hop toDst \<longleftrightarrow>
     \<not> rt_validSeqNo toDst \<or> 0 < seq_diff (rp_dstSeqNo rrepHeader) (rt_seqNo toDst) \<or>
     (rp_dstSeqNo rrepHeader = rt_seqNo toDst \<and> rt_flag toDst \<noteq> VALID) \<or>
     (rp_dstSeqNo rrepHeader = rt_seqNo toDst \<and> unat hop < unat (rt_hops toDst))"

text \<open>RecvReply, the precursors of a reply that is forwarded.\<close>

definition update_precursors :: "environment \<Rightarrow> Ipv4Address \<Rightarrow> RoutingTableEntry \<Rightarrow> RoutingTableEntry \<Rightarrow> RoutingProtocol \<Rightarrow>
  RoutingTableEntry \<times> RoutingProtocol" where
  "update_precursors e dst toDst toOrigin s =
     (case do_lookup_valid e dst toDst s of (ok, toDst, s) \<Rightarrow>
        if ok then
          let toDst = snd (InsertPrecursor (GetNextHop toOrigin) toDst); s = do_update toDst s;
              (_, toNextHopToDst, s) = do_lookup e (GetNextHop toDst) (fresh_entry e) s;
              s = do_update (snd (InsertPrecursor (GetNextHop toOrigin) toNextHopToDst)) s;
              toOrigin = snd (InsertPrecursor (GetNextHop toDst) toOrigin); s = do_update toOrigin s;
              (_, toNextHopToOrigin, s) = do_lookup e (GetNextHop toOrigin) (fresh_entry e) s
          in (toOrigin, do_update (snd (InsertPrecursor (GetNextHop toDst) toNextHopToOrigin)) s)
        else (toOrigin, s))"

text \<open>RecvReply, a reply that goes on to its originator.\<close>

definition forward_rrep :: "environment \<Rightarrow> RrepHeader \<Rightarrow> u8 \<Rightarrow> RoutingTableEntry \<Rightarrow> RoutingProtocol \<Rightarrow> RoutingProtocol option" where
  "forward_rrep e rrepHeader tagTtl toDst s =
     (case do_lookup e (rp_origin rrepHeader) (fresh_entry e) s of (ok, toOrigin, s) \<Rightarrow>
        if \<not> ok \<or> rt_flag toOrigin = IN_SEARCH then Some s
        else
          let toOrigin = rt_SetLifeTime (env_now e) (max (m_activeRouteTimeout s) (rt_GetLifeTime (env_now e) toOrigin)) toOrigin;
              s = do_update toOrigin s;
              (toOrigin, s) = update_precursors e (rp_dst rrepHeader) toDst toOrigin s
          in if tagTtl < 2 then Some s
             else send_unicast toOrigin (MsgRrep rrepHeader) (tagTtl - 1) (GetNextHop toOrigin) s)"

text \<open>RecvReply, a reply for this node.\<close>

definition accept_rrep :: "environment \<Rightarrow> RoutingTableEntry \<Rightarrow> RoutingTableEntry \<Rightarrow> RoutingProtocol \<Rightarrow> RoutingProtocol" where
  "accept_rrep e newEntry toDst s =
     (let dst = GetDestination newEntry;
          s = (if rt_flag toDst = IN_SEARCH
               then (do_update newEntry s)\<lparr>m_addressReqTimer := om_erase dst (m_addressReqTimer s)\<rparr> else s);
          (_, toDst, s) = do_lookup e dst toDst s
      in SendPacketFromQueue e dst (rt_route toDst) s)"

text \<open>RecvReply, the route to the destination: the entry that was in the table and the new state.\<close>

definition learn_route :: "environment \<Rightarrow> RrepHeader \<Rightarrow> RoutingTableEntry \<Rightarrow> RoutingProtocol \<Rightarrow> RoutingTableEntry \<times> RoutingProtocol" where
  "learn_route e rrepHeader newEntry s =
     (case do_lookup e (rp_dst rrepHeader) (fresh_entry e) s of (ok, toDst, s) \<Rightarrow>
        (toDst, if ok then if rrep_newer rrepHeader (rp_hopCount rrepHeader) toDst then do_update newEntry s else s
                else do_add e newEntry s))"

text \<open>RecvReply, a reply that is not a hello message.\<close>

definition process_rrep :: "environment \<Rightarrow> RrepHeader \<Rightarrow> RoutingTableEntry \<Rightarrow> u8 \<Rightarrow> Ipv4Address \<Rightarrow> RoutingProtocol \<Rightarrow> RoutingProtocol option" where
  "process_rrep e rrepHeader newEntry tagTtl sender s =
     (case learn_route e rrepHeader newEntry s of (toDst, s) \<Rightarrow>
        do { s \<leftarrow> (if GetAckRequired rrepHeader then SendReplyAck e sender s else Some s);
             let rrepHeader = (if GetAckRequired rrepHeader then SetAckRequired False rrepHeader else rrepHeader);
             if IsMyOwnAddress (rp_origin rrepHeader) s then Some (accept_rrep e newEntry toDst s)
             else forward_rrep e rrepHeader tagTtl toDst s })"

definition RecvReply :: "environment \<Rightarrow> RrepHeader \<Rightarrow> u8 \<Rightarrow> Ipv4Address \<Rightarrow> Ipv4Address \<Rightarrow> RoutingProtocol \<Rightarrow> RoutingProtocol option" where
  "RecvReply e rrepHeader tagTtl receiver sender s =
     (let dst = rp_dst rrepHeader; hop = rp_hopCount rrepHeader + 1; rrepHeader = rrepHeader\<lparr>rp_hopCount := hop\<rparr> in
      if dst = rp_origin rrepHeader then ProcessHello e rrepHeader receiver s
      else process_rrep e rrepHeader
             (mk_RoutingTableEntry (env_now e) (receiver_dev e receiver) dst True (rp_dstSeqNo rrepHeader)
                (receiver_iface e receiver) (ucast hop) sender (GetLifeTime rrepHeader)) tagTtl sender s)"

definition RecvReplyAck :: "environment \<Rightarrow> Ipv4Address \<Rightarrow> RoutingProtocol \<Rightarrow> RoutingProtocol" where
  "RecvReplyAck e neighbor s =
     (case do_lookup e neighbor (fresh_entry e) s of (ok, rt, s) \<Rightarrow> if ok then do_update (rt\<lparr>rt_flag := VALID\<rparr>) s else s)"

text \<open>RecvError, the destinations of a route error that this node reaches through its sender.\<close>

definition affected :: "(Ipv4Address, u32) omap \<Rightarrow> (Ipv4Address, u32) omap \<Rightarrow> (Ipv4Address, u32) omap" where
  "affected dstWithNextHopSrc uns =
     fold (\<lambda>un unreachable. fold (\<lambda>i unreachable. if fst i = fst un then om_insert (fst un) (snd un) unreachable else unreachable)
        dstWithNextHopSrc unreachable) uns []"

definition RecvError :: "environment \<Rightarrow> RerrHeader \<Rightarrow> Ipv4Address \<Rightarrow> RoutingProtocol \<Rightarrow> RoutingProtocol option" where
  "RecvError e rerrHeader src s =
     (case GetListOfDestinationWithNextHop (env_now e) src (m_routingTable s) of (dstWithNextHopSrc, t) \<Rightarrow>
        let s = s\<lparr>m_routingTable := t\<rparr>; unreachable = affected dstWithNextHopSrc (re_unreachable rerrHeader) in
        do { (rerrHeader, precursors, s) \<leftarrow> collect_unreachable e unreachable (rerrHeader\<lparr>re_unreachable := []\<rparr>) [] s;
             s \<leftarrow> (if GetDestCount rerrHeader \<noteq> 0 then SendRerrMessage e (MsgRerr rerrHeader) 1 precursors s else Some s);
             Some (s\<lparr>m_routingTable := InvalidateRoutesWithDst (env_now e) unreachable (m_routingTable s)\<rparr>) })"

text \<open>A packet received on a socket; an unknown message type, None here, is dropped.\<close>

definition RecvAodv :: "environment \<Rightarrow> addr \<Rightarrow> Ipv4Address \<Rightarrow> aodv_msg option \<Rightarrow> u8 \<Rightarrow> RoutingProtocol \<Rightarrow> RoutingProtocol option" where
  "RecvAodv e socket sender msg tagTtl s =
     do { iface \<leftarrow> (case map_of (m_socketAddresses s) socket of Some iface \<Rightarrow> Some iface
                   | None \<Rightarrow> map_of (m_socketSubnetBroadcastAddresses s) socket);
          let receiver = ifa_local iface;
          let s = UpdateRouteToNeighbor e sender receiver s;
          case msg of
            None \<Rightarrow> Some s
          | Some (MsgRreq x) \<Rightarrow> RecvRequest e x tagTtl receiver sender s
          | Some (MsgRrep x) \<Rightarrow> RecvReply e x tagTtl receiver sender s
          | Some (MsgRerr x) \<Rightarrow> RecvError e x sender s
          | Some (MsgRrepAck x) \<Rightarrow> Some (RecvReplyAck e sender s) }"

end
