(* ===== verification/Aodv_Routing.thy ===== *)
theory Aodv_Routing
  imports Aodv_Protocol
begin

unbundle bit_operations_syntax

text \<open>
  src/aodv/model/aodv-routing-protocol.cc, the interface of the routing protocol to the rest of the
  node: routes for outgoing packets, incoming packets, timers, and the changes of interfaces and
  addresses. The sockets that the code creates are arguments.
\<close>

section \<open>Outgoing packets\<close>

datatype SocketErrno =
    ERROR_NOTERROR | ERROR_ISCONN | ERROR_NOTCONN | ERROR_MSGSIZE | ERROR_AGAIN | ERROR_SHUTDOWN | ERROR_OPNOTSUPP
  | ERROR_AFNOSUPPORT | ERROR_INVAL | ERROR_BADF | ERROR_NOROUTETOHOST | ERROR_NODEV | ERROR_ADDRNOTAVAIL | ERROR_ADDRINUSE

text \<open>The source address of a packet that is looped back: the first AODV interface, or the first on the
  device \<open>oif\<close>.\<close>

definition loopback_source :: "environment \<Rightarrow> addr \<Rightarrow> (addr, Ipv4InterfaceAddress) omap \<Rightarrow> Ipv4Address option" where
  "loopback_source e oif m =
     (if oif \<noteq> nullptr
      then case find (\<lambda>(_, iface). oif = GetNetDevice e (GetInterfaceForAddress e (ifa_local iface))) m of
             Some (_, iface) \<Rightarrow> Some (ifa_local iface) | None \<Rightarrow> Some Ipv4Address_default
      else case m of [] \<Rightarrow> None | (_, iface) # _ \<Rightarrow> Some (ifa_local iface))"

definition LoopbackRoute :: "environment \<Rightarrow> Ipv4Header \<Rightarrow> addr \<Rightarrow> RoutingProtocol \<Rightarrow> Ipv4Route option" where
  "LoopbackRoute e hdr oif s =
     do { src \<leftarrow> loopback_source e oif (m_socketAddresses s);
          if m_lo s = nullptr \<or> src = Ipv4Address_default then None
          else Some \<lparr>r_dest = ih_destination hdr, r_source = src, r_gateway = GetLoopback, r_outputDevice = m_lo s\<rparr> }"

text \<open>A null packet is None. The result is the route, None when it is null, the error code, the packet,
  which may have got a tag, and the state.\<close>

definition RouteOutput :: "environment \<Rightarrow> data_packet option \<Rightarrow> Ipv4Header \<Rightarrow> addr \<Rightarrow> SocketErrno \<Rightarrow> RoutingProtocol \<Rightarrow>
  (Ipv4Route option \<times> SocketErrno \<times> data_packet option \<times> RoutingProtocol) option" where
  "RouteOutput e p header oif sockerr s =
     (case p of
        None \<Rightarrow> do { route \<leftarrow> LoopbackRoute e header oif s; Some (Some route, sockerr, None, s) }
      | Some pkt \<Rightarrow>
          if m_socketAddresses s = [] then Some (None, ERROR_NOROUTETOHOST, p, s)
          else
            let dst = ih_destination header in
            case do_lookup_valid e dst (fresh_entry e) s of (ok, rt, s) \<Rightarrow>
              if ok then
                if oif \<noteq> nullptr \<and> GetOutputDevice rt \<noteq> oif then Some (None, ERROR_NOROUTETOHOST, p, s)
                else Some (Some (rt_route rt), ERROR_NOTERROR, p, touch e (GetNextHop rt) (touch e dst s))
              else
                let iif = (if oif \<noteq> nullptr then GetInterfaceForDevice e oif else -1);
                    pkt = (if pk_deferred pkt = None then pkt\<lparr>pk_deferred := Some iif\<rparr> else pkt)
                in do { route \<leftarrow> LoopbackRoute e header oif s; Some (Some route, ERROR_NOTERROR, Some pkt, s) })"

definition DeferredRouteOutput :: "environment \<Rightarrow> data_packet \<Rightarrow> Ipv4Header \<Rightarrow> RoutingProtocol \<Rightarrow> RoutingProtocol option" where
  "DeferredRouteOutput e p header s =
     do { (result, dr, q) \<leftarrow> rq_Enqueue (env_now e) \<lparr>qe_packet = p, qe_header = header, qe_expire = env_now e + env_now e\<rparr> (m_rqueue s);
          let s = emit_errors dr (s\<lparr>m_rqueue := q\<rparr>);
          if result
          then (case do_lookup e (ih_destination header) (fresh_entry e) s of (ok, rt, s) \<Rightarrow>
                  if \<not> ok \<or> rt_flag rt \<noteq> IN_SEARCH then SendRequest e (ih_destination header) s else Some s)
          else Some s }"

section \<open>Incoming packets\<close>

definition IsMulticast :: "Ipv4Address \<Rightarrow> bool" where
  "IsMulticast ad \<longleftrightarrow> 0xe0000000 \<le> ad \<and> ad \<le> 0xefffffff"

definition IsBroadcast :: "Ipv4Address \<Rightarrow> bool" where
  "IsBroadcast ad \<longleftrightarrow> ad = 0xffffffff"

definition Forwarding :: "environment \<Rightarrow> data_packet \<Rightarrow> Ipv4Header \<Rightarrow> RoutingProtocol \<Rightarrow> (bool \<times> RoutingProtocol) option" where
  "Forwarding e p header s =
     (let dst = ih_destination header; origin = ih_source header;
          s = s\<lparr>m_routingTable := rt_Purge (env_now e) (m_routingTable s)\<rparr>;
          (ok, toDst, s) = do_lookup e dst (fresh_entry e) s
      in if ok \<and> rt_flag toDst = VALID
         then let s = touch e (GetNextHop toDst) (touch e dst (touch e origin s));
                  (_, toOrigin, s) = do_lookup e origin (fresh_entry e) s;
                  s = touch e (GetNextHop toOrigin) s
              in do { s \<leftarrow> nb_Update e (GetNextHop toDst) (m_activeRouteTimeout s) s;
                      s \<leftarrow> nb_Update e (GetNextHop toOrigin) (m_activeRouteTimeout s) s;
                      Some (True, emit (UnicastForward (rt_route toDst) p header) s) }
         else do { s \<leftarrow> SendRerrWhenNoRouteToForward e dst (if ok \<and> rt_validSeqNo toDst then rt_seqNo toDst else 0) origin s;
                   Some (False, s) })"

text \<open>RouteInput, local delivery; \<open>lcb\<close> says whether the callback is set.\<close>

definition deliver :: "data_packet \<Rightarrow> Ipv4Header \<Rightarrow> int \<Rightarrow> bool \<Rightarrow> RoutingProtocol \<Rightarrow> RoutingProtocol" where
  "deliver p header iif lcb s = emit (if lcb then LocalDeliver p header iif else ErrorCallback p header) s"

text \<open>RouteInput, the interface that a broadcast is for.\<close>

definition broadcast_iface :: "environment \<Rightarrow> int \<Rightarrow> Ipv4Address \<Rightarrow> RoutingProtocol \<Rightarrow> bool" where
  "broadcast_iface e iif dst s \<longleftrightarrow>
     (\<exists>(_, iface) \<in> set (m_socketAddresses s).
        GetInterfaceForAddress e (ifa_local iface) = iif \<and> (dst = ifa_broadcast iface \<or> IsBroadcast dst))"

definition input_broadcast :: "environment \<Rightarrow> data_packet \<Rightarrow> Ipv4Header \<Rightarrow> int \<Rightarrow> bool \<Rightarrow> RoutingProtocol \<Rightarrow> RoutingProtocol" where
  "input_broadcast e p header iif lcb s =
     (case dpd_IsDuplicate (env_now e) p header (m_dpd s) of (dup, c) \<Rightarrow>
        let s = s\<lparr>m_dpd := c\<rparr> in
        if dup then s
        else
          let s = deliver p header iif lcb (touch e (ih_source header) s) in
          if \<not> m_enableBroadcast s then s
          else if ih_protocol header = 17 \<and> pk_udpPort p = 654 then s
          else if 1 < ih_ttl header
          then (case do_lookup e (ih_destination header) (fresh_entry e) s of (ok, toBroadcast, s) \<Rightarrow>
                  if ok then emit (UnicastForward (rt_route toBroadcast) p header) s else s)
          else s)"

definition input_local :: "environment \<Rightarrow> data_packet \<Rightarrow> Ipv4Header \<Rightarrow> int \<Rightarrow> bool \<Rightarrow> RoutingProtocol \<Rightarrow> RoutingProtocol option" where
  "input_local e p header iif lcb s =
     (let origin = ih_source header; s = touch e origin s;
          (ok, toOrigin, s) = do_lookup_valid e origin (fresh_entry e) s
      in do { s \<leftarrow> (if ok then let s = touch e (GetNextHop toOrigin) s in nb_Update e (GetNextHop toOrigin) (m_activeRouteTimeout s) s
                   else Some s);
              Some (deliver p header iif lcb s) })"

definition RouteInput :: "environment \<Rightarrow> data_packet \<Rightarrow> Ipv4Header \<Rightarrow> addr \<Rightarrow> bool \<Rightarrow> RoutingProtocol \<Rightarrow> (bool \<times> RoutingProtocol) option" where
  "RouteInput e p header idev lcb s =
     (let iif = GetInterfaceForDevice e idev; dst = ih_destination header; origin = ih_source header in
      if m_socketAddresses s = [] then Some (False, s)
      else if m_ipv4 s = nullptr \<or> iif < 0 then None
      else if idev = m_lo s \<and> pk_deferred p \<noteq> None
      then map_option (\<lambda>s. (True, s)) (DeferredRouteOutput e p header s)
      else if IsMyOwnAddress origin s then Some (True, s)
      else if IsMulticast dst then Some (False, s)
      else if broadcast_iface e iif dst s then Some (True, input_broadcast e p header iif lcb s)
      else if IsDestinationAddress e dst iif then map_option (\<lambda>s. (True, s)) (input_local e p header iif lcb s)
      else if \<not> IsForwarding e iif then Some (True, emit (ErrorCallback p header) s)
      else Forwarding e p header s)"

section \<open>Timers and start\<close>

definition Seconds :: "int \<Rightarrow> Time" where
  "Seconds n = n * 1000000000"

fun send_hellos :: "(addr, Ipv4InterfaceAddress) omap \<Rightarrow> RoutingProtocol \<Rightarrow> RoutingProtocol" where
  "send_hellos [] s = s"
| "send_hellos ((socket, iface) # m) s =
     send_hellos m
       (schedule_send socket (MsgRrep (mk_RrepHeader 0 0 (ifa_local iface) (m_seqNo s) (ifa_local iface) (hello_loss_time s))) 1
          (broadcast_of iface) s)"

definition SendHello :: "RoutingProtocol \<Rightarrow> RoutingProtocol" where
  "SendHello s = send_hellos (m_socketAddresses s) s"

definition HelloTimerExpire :: "environment \<Rightarrow> RoutingProtocol \<Rightarrow> RoutingProtocol" where
  "HelloTimerExpire e s =
     (let (offset, s) = (if 0 < m_lastBcastTime s then (env_now e - m_lastBcastTime s, s) else (0, SendHello s));
          diff = m_helloInterval s - offset
      in s\<lparr>m_htimer := Some (env_now e + max 0 diff), m_lastBcastTime := 0\<rparr>)"

definition RreqRateLimitTimerExpire :: "environment \<Rightarrow> RoutingProtocol \<Rightarrow> RoutingProtocol" where
  "RreqRateLimitTimerExpire e s = s\<lparr>m_rreqCount := 0, m_rreqRateLimitTimer := Some (env_now e + Seconds 1)\<rparr>"

definition RerrRateLimitTimerExpire :: "environment \<Rightarrow> RoutingProtocol \<Rightarrow> RoutingProtocol" where
  "RerrRateLimitTimerExpire e s = s\<lparr>m_rerrCount := 0, m_rerrRateLimitTimer := Some (env_now e + Seconds 1)\<rparr>"

definition AckTimerExpire :: "Ipv4Address \<Rightarrow> Time \<Rightarrow> RoutingProtocol \<Rightarrow> RoutingProtocol" where
  "AckTimerExpire neighbor blacklistTimeout s =
     s\<lparr>m_routingTable := snd (MarkLinkAsUnidirectional neighbor blacklistTimeout (m_routingTable s))\<rparr>"

definition Start :: "environment \<Rightarrow> RoutingProtocol \<Rightarrow> RoutingProtocol" where
  "Start e s =
     (let s = (if m_enableHello s then nb_ScheduleTimer e s else s)
      in s\<lparr>m_rreqRateLimitTimer := Some (env_now e + Seconds 1), m_rerrRateLimitTimer := Some (env_now e + Seconds 1)\<rparr>)"

text \<open>The delay of the first hello message is \<open>GetInteger (0, 100)\<close> in milliseconds.\<close>

definition DoInitialize :: "environment \<Rightarrow> RoutingProtocol \<Rightarrow> RoutingProtocol" where
  "DoInitialize e s =
     (if m_enableHello s then case jitter s of (startTime, s) \<Rightarrow> s\<lparr>m_htimer := Some (env_now e + startTime)\<rparr> else s)"

section \<open>Interfaces and addresses\<close>

text \<open>Routes that never expire. \<open>GetMaximumSimulationTime ()\<close> is the largest 64-bit time, so that adding
  the current time, unless it is 0, is an overflow of a signed number, which is undefined.\<close>

definition GetMaximumSimulationTime :: Time where
  "GetMaximumSimulationTime = 0x7fffffffffffffff"

definition lasting_entry :: "environment \<Rightarrow> addr \<Rightarrow> Ipv4Address \<Rightarrow> Ipv4InterfaceAddress \<Rightarrow> RoutingTableEntry option" where
  "lasting_entry e dev dst iface =
     (if GetMaximumSimulationTime + env_now e < 2 ^ 63
      then Some (mk_RoutingTableEntry (env_now e) dev dst True 0 iface 1 dst GetMaximumSimulationTime) else None)"

definition SetIpv4 :: "environment \<Rightarrow> addr \<Rightarrow> RoutingProtocol \<Rightarrow> RoutingProtocol option" where
  "SetIpv4 e ipv4 s =
     (if ipv4 = nullptr \<or> m_ipv4 s \<noteq> nullptr then None
      else if GetNInterfaces e \<noteq> 1 \<or> ifa_local (GetAddress e 0) \<noteq> GetLoopback then None
      else if GetNetDevice e 0 = nullptr then None
      else do { let s = s\<lparr>m_ipv4 := ipv4, m_lo := GetNetDevice e 0\<rparr>;
                rt \<leftarrow> lasting_entry e (m_lo s) GetLoopback (mk_Ipv4InterfaceAddress GetLoopback 0xff000000);
                Some (emit ScheduleNowStart (do_add e rt s)) })"

text \<open>The sockets of an interface and the route to its broadcast address.\<close>

definition open_sockets :: "environment \<Rightarrow> Ipv4InterfaceAddress \<Rightarrow> addr \<Rightarrow> addr \<Rightarrow> RoutingProtocol \<Rightarrow> RoutingProtocol option" where
  "open_sockets e iface socket1 socket2 s =
     (let s = s\<lparr>m_socketAddresses := om_insert socket1 iface (m_socketAddresses s),
                m_socketSubnetBroadcastAddresses := om_insert socket2 iface (m_socketSubnetBroadcastAddresses s)\<rparr>
      in do { rt \<leftarrow> lasting_entry e (receiver_dev e (ifa_local iface)) (ifa_broadcast iface) iface;
              Some (do_add e rt s) })"

definition AddArpCache :: "addr \<Rightarrow> RoutingProtocol \<Rightarrow> RoutingProtocol" where
  "AddArpCache a s = s\<lparr>m_nb := (m_nb s)\<lparr>m_arp := m_arp (m_nb s) @ [a]\<rparr>\<rparr>"

definition DelArpCache :: "addr \<Rightarrow> RoutingProtocol \<Rightarrow> RoutingProtocol" where
  "DelArpCache a s = s\<lparr>m_nb := (m_nb s)\<lparr>m_arp := removeAll a (m_arp (m_nb s))\<rparr>\<rparr>"

definition nb_Clear :: "RoutingProtocol \<Rightarrow> RoutingProtocol" where
  "nb_Clear s = s\<lparr>m_nb := (m_nb s)\<lparr>m_nb_list := []\<rparr>\<rparr>"

text \<open>When the interface has a Wi-Fi device the code also subscribes NotifyTxError to the frames that it
  drops: the environment then calls it.\<close>

definition NotifyInterfaceUp :: "environment \<Rightarrow> int \<Rightarrow> addr \<Rightarrow> addr \<Rightarrow> RoutingProtocol \<Rightarrow> RoutingProtocol option" where
  "NotifyInterfaceUp e i socket1 socket2 s =
     (let iface = GetAddress e i in
      if ifa_local iface = GetLoopback then Some s
      else do { s \<leftarrow> open_sockets e iface socket1 socket2 s;
                Some (if GetArpCache e i \<noteq> nullptr then AddArpCache (GetArpCache e i) s else s) })"

definition NotifyTxError :: "environment \<Rightarrow> Mac48Address \<Rightarrow> RoutingProtocol \<Rightarrow> RoutingProtocol option" where
  "NotifyTxError e addr1 s = ProcessTxError e addr1 s"

definition no_interfaces :: "RoutingProtocol \<Rightarrow> RoutingProtocol" where
  "no_interfaces s = (nb_Clear (s\<lparr>m_htimer := None\<rparr>))\<lparr>m_routingTable := rt_Clear (m_routingTable s)\<rparr>"

definition NotifyInterfaceDown :: "environment \<Rightarrow> int \<Rightarrow> RoutingProtocol \<Rightarrow> RoutingProtocol option" where
  "NotifyInterfaceDown e i s =
     do { let s = (if HasAdhocWifiMac e i then DelArpCache (GetArpCache e i) s else s);
          socket \<leftarrow> FindSocketWithInterfaceAddress (GetAddress e i) s;
          let s = (emit (CloseSocket socket) s)\<lparr>m_socketAddresses := om_erase socket (m_socketAddresses s)\<rparr>;
          socket \<leftarrow> FindSubnetBroadcastSocketWithInterfaceAddress (GetAddress e i) s;
          let s = (emit (CloseSocket socket) s)\<lparr>m_socketSubnetBroadcastAddresses := om_erase socket (m_socketSubnetBroadcastAddresses s)\<rparr>;
          Some (if m_socketAddresses s = [] then no_interfaces s
                else s\<lparr>m_routingTable := DeleteAllRoutesFromInterface (GetAddress e i) (m_routingTable s)\<rparr>) }"

definition NotifyAddAddress :: "environment \<Rightarrow> int \<Rightarrow> addr \<Rightarrow> addr \<Rightarrow> RoutingProtocol \<Rightarrow> RoutingProtocol option" where
  "NotifyAddAddress e i socket1 socket2 s =
     (if \<not> IsUp e i then Some s
      else if GetNAddresses e i = 1 \<and> FindSocketWithInterfaceAddress (GetAddress e i) s = None \<and> ifa_local (GetAddress e i) \<noteq> GetLoopback
      then open_sockets e (GetAddress e i) socket1 socket2 s
      else Some s)"

text \<open>The socket of the broadcast address is closed, and then erased from the map of the unicast
  sockets.\<close>

definition close_sockets :: "Ipv4InterfaceAddress \<Rightarrow> addr \<Rightarrow> RoutingProtocol \<Rightarrow> RoutingProtocol" where
  "close_sockets address socket s =
     (let s = s\<lparr>m_routingTable := DeleteAllRoutesFromInterface address (m_routingTable s)\<rparr>;
          s = (emit (CloseSocket socket) s)\<lparr>m_socketAddresses := om_erase socket (m_socketAddresses s)\<rparr>
      in case FindSubnetBroadcastSocketWithInterfaceAddress address s of None \<Rightarrow> s
         | Some unicastSocket \<Rightarrow>
             (emit (CloseSocket unicastSocket) s)\<lparr>m_socketAddresses := om_erase unicastSocket (m_socketAddresses s)\<rparr>)"

definition NotifyRemoveAddress :: "environment \<Rightarrow> int \<Rightarrow> Ipv4InterfaceAddress \<Rightarrow> addr \<Rightarrow> addr \<Rightarrow> RoutingProtocol \<Rightarrow> RoutingProtocol option" where
  "NotifyRemoveAddress e i address socket1 socket2 s =
     (case FindSocketWithInterfaceAddress address s of None \<Rightarrow> Some s
      | Some socket \<Rightarrow>
          do { let s = close_sockets address socket s;
               s \<leftarrow> (if GetNAddresses e i \<noteq> 0 then open_sockets e (GetAddress e i) socket1 socket2 s else Some s);
               Some (if m_socketAddresses s = [] then no_interfaces s else s) })"

definition DoDispose :: "RoutingProtocol \<Rightarrow> RoutingProtocol" where
  "DoDispose s =
     s\<lparr>m_ipv4 := nullptr,
       m_out := m_out s @ map (\<lambda>(socket, _). CloseSocket socket) (m_socketAddresses s @ m_socketSubnetBroadcastAddresses s),
       m_socketAddresses := [], m_socketSubnetBroadcastAddresses := []\<rparr>"

definition SetMaxQueueLen :: "u32 \<Rightarrow> RoutingProtocol \<Rightarrow> RoutingProtocol" where
  "SetMaxQueueLen len s = s\<lparr>m_rqueue := (m_rqueue s)\<lparr>m_maxLen := unat len\<rparr>\<rparr>"

definition SetMaxQueueTime :: "Time \<Rightarrow> RoutingProtocol \<Rightarrow> RoutingProtocol" where
  "SetMaxQueueTime t s = s\<lparr>m_rqueue := (m_rqueue s)\<lparr>m_queueTimeout := t\<rparr>\<rparr>"

section \<open>A new protocol\<close>

text \<open>The values of the constructor, with the hello messages and the forwarding of broadcasts enabled as
  their attributes are by default.\<close>

definition mk_RoutingProtocol :: "(nat \<Rightarrow> u32) \<Rightarrow> RoutingProtocol" where
  "mk_RoutingProtocol random =
     (let activeRouteTimeout = Seconds 3; nodeTraversalTime = MilliSeconds 40; netTraversalTime = 2 * 35 * nodeTraversalTime;
          pathDiscoveryTime = 2 * netTraversalTime; helloInterval = Seconds 1
      in \<lparr>m_rreqRetries = 2, m_ttlStart = 1, m_ttlIncrement = 2, m_ttlThreshold = 7, m_timeoutBuffer = 2, m_rreqRateLimit = 10,
          m_rerrRateLimit = 10, m_activeRouteTimeout = activeRouteTimeout, m_netDiameter = 35, m_nodeTraversalTime = nodeTraversalTime,
          m_netTraversalTime = netTraversalTime, m_pathDiscoveryTime = pathDiscoveryTime,
          m_myRouteTimeout = 2 * max pathDiscoveryTime activeRouteTimeout, m_helloInterval = helloInterval, m_allowedHelloLoss = 2,
          m_blackListTimeout = 2 * netTraversalTime, m_destinationOnly = False, m_gratuitousReply = True, m_enableHello = True,
          m_enableBroadcast = True, m_ipv4 = nullptr, m_socketAddresses = [], m_socketSubnetBroadcastAddresses = [], m_lo = nullptr,
          m_routingTable = \<lparr>m_ipv4AddressEntry = [], m_badLinkLifetime = 5 * max activeRouteTimeout helloInterval\<rparr>,
          m_rqueue = \<lparr>m_queue = [], m_maxLen = 64, m_queueTimeout = Seconds 30\<rparr>, m_requestId = 0, m_seqNo = 0,
          m_rreqIdCache = \<lparr>m_idCache = [], ic_lifetime = pathDiscoveryTime\<rparr>, m_dpd = \<lparr>m_idCache = [], ic_lifetime = pathDiscoveryTime\<rparr>,
          m_nb = \<lparr>m_nb_list = [], m_ntimer_delay = helloInterval, m_ntimer = None, m_arp = []\<rparr>, m_rreqCount = 0, m_rerrCount = 0,
          m_htimer = None, m_rreqRateLimitTimer = None, m_rerrRateLimitTimer = None, m_addressReqTimer = [], m_lastBcastTime = 0,
          m_random = random, m_out = []\<rparr>)"

end
