(* ===== verification/Aodv_Invariant.thy ===== *)
theory Aodv_Invariant
  imports Aodv_Routing
begin

text \<open>
  What every handler of the AODV routing protocol keeps: the routing table is well formed, the sockets
  and the request timers are keyed in order, a neighbour is listed once, the queue of waiting packets
  satisfies its invariant, and the counters of route requests and route errors stay within
  their limits.
\<close>

section \<open>Events\<close>

text \<open>Everything the node calls the protocol with.\<close>

datatype aodv_event =
    EvRouteOutput "data_packet option" Ipv4Header addr SocketErrno
  | EvRouteInput data_packet Ipv4Header addr bool
  | EvRecvAodv addr Ipv4Address "aodv_msg option" u8
  | EvSendRequest Ipv4Address
  | EvRouteRequestTimer Ipv4Address
  | EvHelloTimer
  | EvRreqRateLimitTimer
  | EvRerrRateLimitTimer
  | EvAckTimer Ipv4Address Time
  | EvNeighborTimer
  | EvTxError Mac48Address
  | EvSetIpv4 addr
  | EvStart
  | EvInitialize
  | EvInterfaceUp int addr addr
  | EvInterfaceDown int
  | EvAddAddress int addr addr
  | EvRemoveAddress int Ipv4InterfaceAddress addr addr
  | EvDispose

fun aodv_exec :: "environment \<Rightarrow> aodv_event \<Rightarrow> RoutingProtocol \<Rightarrow> RoutingProtocol option" where
  "aodv_exec e (EvRouteOutput p hdr oif err) s = map_option (\<lambda>(_, _, _, s). s) (RouteOutput e p hdr oif err s)"
| "aodv_exec e (EvRouteInput p hdr idev lcb) s = map_option snd (RouteInput e p hdr idev lcb s)"
| "aodv_exec e (EvRecvAodv socket sender msg ttl) s = RecvAodv e socket sender msg ttl s"
| "aodv_exec e (EvSendRequest dst) s = SendRequest e dst s"
| "aodv_exec e (EvRouteRequestTimer dst) s = RouteRequestTimerExpire e dst s"
| "aodv_exec e EvHelloTimer s = Some (HelloTimerExpire e s)"
| "aodv_exec e EvRreqRateLimitTimer s = Some (RreqRateLimitTimerExpire e s)"
| "aodv_exec e EvRerrRateLimitTimer s = Some (RerrRateLimitTimerExpire e s)"
| "aodv_exec e (EvAckTimer neighbor timeout) s = Some (AckTimerExpire neighbor timeout s)"
| "aodv_exec e EvNeighborTimer s = nb_Purge e s"
| "aodv_exec e (EvTxError mac) s = NotifyTxError e mac s"
| "aodv_exec e (EvSetIpv4 ipv4) s = SetIpv4 e ipv4 s"
| "aodv_exec e EvStart s = Some (Start e s)"
| "aodv_exec e EvInitialize s = Some (DoInitialize e s)"
| "aodv_exec e (EvInterfaceUp i s1 s2) s = NotifyInterfaceUp e i s1 s2 s"
| "aodv_exec e (EvInterfaceDown i) s = NotifyInterfaceDown e i s"
| "aodv_exec e (EvAddAddress i s1 s2) s = NotifyAddAddress e i s1 s2 s"
| "aodv_exec e (EvRemoveAddress i ad s1 s2) s = NotifyRemoveAddress e i ad s1 s2 s"
| "aodv_exec e EvDispose s = Some (DoDispose s)"

text \<open>The states a node can be in at a time, from the state the constructor makes.\<close>

inductive aodv_reachable :: "Time \<Rightarrow> RoutingProtocol \<Rightarrow> bool" where
  init: "aodv_reachable 0 (mk_RoutingProtocol random)"
| event: "aodv_reachable now s \<Longrightarrow> now \<le> env_now e \<Longrightarrow> aodv_exec e ev s = Some s' \<Longrightarrow> aodv_reachable (env_now e) s'"

section \<open>The invariant\<close>

definition nb_ok :: "Neighbors \<Rightarrow> bool" where
  "nb_ok nb \<longleftrightarrow> distinct (map n_neighborAddress (m_nb_list nb))"

definition aodv_inv :: "Time \<Rightarrow> RoutingProtocol \<Rightarrow> bool" where
  "aodv_inv now s \<longleftrightarrow> table_ok (m_routingTable s) \<and> om_ok (m_socketAddresses s) \<and> om_ok (m_socketSubnetBroadcastAddresses s) \<and>
     om_ok (m_addressReqTimer s) \<and> nb_ok (m_nb s) \<and> rq_inv now (m_rqueue s) \<and> m_rreqCount s \<le> m_rreqRateLimit s \<and> m_rerrCount s \<le> m_rerrRateLimit s"

text \<open>Changes of other fields do not matter.\<close>

lemma aodv_inv_simps [simp]:
  "aodv_inv now (s\<lparr>m_out := x1\<rparr>) = aodv_inv now s"
  "aodv_inv now (s\<lparr>m_random := x2\<rparr>) = aodv_inv now s"
  "aodv_inv now (s\<lparr>m_rreqIdCache := x3\<rparr>) = aodv_inv now s"
  "aodv_inv now (s\<lparr>m_dpd := x3\<rparr>) = aodv_inv now s"
  "aodv_inv now (s\<lparr>m_lastBcastTime := x4\<rparr>) = aodv_inv now s"
  "aodv_inv now (s\<lparr>m_seqNo := x5\<rparr>) = aodv_inv now s"
  "aodv_inv now (s\<lparr>m_requestId := x5\<rparr>) = aodv_inv now s"
  "aodv_inv now (s\<lparr>m_htimer := x6\<rparr>) = aodv_inv now s"
  "aodv_inv now (s\<lparr>m_rreqRateLimitTimer := x6\<rparr>) = aodv_inv now s"
  "aodv_inv now (s\<lparr>m_rerrRateLimitTimer := x6\<rparr>) = aodv_inv now s"
  "aodv_inv now (s\<lparr>m_ipv4 := x7\<rparr>) = aodv_inv now s"
  "aodv_inv now (s\<lparr>m_lo := x7\<rparr>) = aodv_inv now s"
  by (simp_all add: aodv_inv_def)

lemma inv_emit [simp]: "aodv_inv now (emit a s) = aodv_inv now s" "aodv_inv now (emit_errors es s) = aodv_inv now s"
  by (simp_all add: emit_def emit_errors_def)

lemma inv_schedule_send [simp]: "aodv_inv now (schedule_send socket msg ttl dest s) = aodv_inv now s"
  by (simp add: schedule_send_def jitter_def)

lemma inv_table: "aodv_inv now s \<Longrightarrow> table_ok t \<Longrightarrow> aodv_inv now (s\<lparr>m_routingTable := t\<rparr>)"
  by (simp add: aodv_inv_def)

lemma inv_table_ok: "aodv_inv now s \<Longrightarrow> table_ok (m_routingTable s)"
  by (simp add: aodv_inv_def)

section \<open>The routing table\<close>

text \<open>A lookup keeps the invariant, and the entry it leaves in its argument has no precursor twice, if the
  argument had none.\<close>

lemma inv_lookup:
  assumes "aodv_inv now s" and "do_lookup e i rt s = (ok, rt', s')"
  shows "aodv_inv now s'" and "distinct (rt_precursorList rt) \<Longrightarrow> distinct (rt_precursorList rt')"
  using assms inv_table [OF assms(1) table_ok_Purge [OF inv_table_ok [OF assms(1)], of "env_now e"]]
    visible_ok [OF inv_table_ok [OF assms(1)], of "env_now e" i]
  by (auto simp: do_lookup_def LookupRoute_eq [OF inv_table_ok [OF assms(1)]] entry_ok_def split: option.splits)

lemma inv_lookup_valid:
  assumes "aodv_inv now s" and "do_lookup_valid e i rt s = (ok, rt', s')"
  shows "aodv_inv now s'" and "distinct (rt_precursorList rt) \<Longrightarrow> distinct (rt_precursorList rt')"
  using assms inv_table [OF assms(1) table_ok_Purge [OF inv_table_ok [OF assms(1)], of "env_now e"]]
    visible_ok [OF inv_table_ok [OF assms(1)], of "env_now e" i]
  by (auto simp: do_lookup_valid_def LookupValidRoute_eq [OF inv_table_ok [OF assms(1)]] entry_ok_def split: option.splits)

lemma inv_update: "aodv_inv now s \<Longrightarrow> distinct (rt_precursorList rt) \<Longrightarrow> aodv_inv now (do_update rt s)"
  by (simp add: do_update_def inv_table inv_table_ok)

lemma inv_add: "aodv_inv now s \<Longrightarrow> distinct (rt_precursorList rt) \<Longrightarrow> aodv_inv now (do_add e rt s)"
  by (simp add: do_add_def inv_table inv_table_ok)

lemma inv_delete: "aodv_inv now s \<Longrightarrow> aodv_inv now (do_delete e dst s)"
  by (simp add: do_delete_def inv_table inv_table_ok)

lemma precursors_simps [simp]:
  "rt_precursorList (mk_RoutingTableEntry now dev dst v seqNo iface hops nextHop lifetime) = []"
  "rt_precursorList (fresh_entry e) = []"
  "rt_precursorList (SetNextHop a rt) = rt_precursorList rt"
  "rt_precursorList (SetOutputDevice d rt) = rt_precursorList rt"
  "rt_precursorList (rt_SetLifeTime now lt rt) = rt_precursorList rt"
  "rt_precursorList (IncrementRreqCnt rt) = rt_precursorList rt"
  by (simp_all add: mk_RoutingTableEntry_def RoutingTableEntry_default_def SetNextHop_def SetOutputDevice_def rt_SetLifeTime_def IncrementRreqCnt_def)

lemma distinct_InsertPrecursor [simp]: "distinct (rt_precursorList rt) \<Longrightarrow> distinct (rt_precursorList (snd (InsertPrecursor i rt)))"
  by (simp add: InsertPrecursor_def LookupPrecursor_def)

lemma inv_UpdateRouteLifeTime: "aodv_inv now s \<Longrightarrow> aodv_inv now (snd (UpdateRouteLifeTime e ad lt s))"
  by (auto simp: UpdateRouteLifeTime_def dest: inv_lookup split: prod.splits intro!: inv_update)

lemma inv_UpdateRouteToNeighbor: "aodv_inv now s \<Longrightarrow> aodv_inv now (UpdateRouteToNeighbor e sender receiver s)"
  by (auto simp: UpdateRouteToNeighbor_def Let_def dest: inv_lookup split: prod.splits intro!: inv_update inv_add)


section \<open>Handlers that may fail\<close>

text \<open>A predicate on the result of a handler, if there is one.\<close>

lemma after_bind: "pred_option Q m \<Longrightarrow> (\<And>x. Q x \<Longrightarrow> pred_option P (f x)) \<Longrightarrow> pred_option P (Option.bind m f)"
  by (cases m) simp_all

lemma after_any: "(\<And>x. m = Some x \<Longrightarrow> pred_option P (f x)) \<Longrightarrow> pred_option P (Option.bind m f)"
  by (cases m) simp_all

lemma after_lookup:
  "aodv_inv now s \<Longrightarrow> (\<And>ok rt s'. aodv_inv now s' \<Longrightarrow> distinct (rt_precursorList rt) \<Longrightarrow> pred_option P (f ok rt s')) \<Longrightarrow>
   pred_option P (case do_lookup e i (fresh_entry e) s of (ok, rt, s') \<Rightarrow> f ok rt s')"
  using inv_lookup [of now s e i "fresh_entry e"] by (cases "do_lookup e i (fresh_entry e) s") simp

lemma after_lookup_valid:
  "aodv_inv now s \<Longrightarrow> (\<And>ok rt s'. aodv_inv now s' \<Longrightarrow> distinct (rt_precursorList rt) \<Longrightarrow> pred_option P (f ok rt s')) \<Longrightarrow>
   pred_option P (case do_lookup_valid e i (fresh_entry e) s of (ok, rt, s') \<Rightarrow> f ok rt s')"
  using inv_lookup_valid [of now s e i "fresh_entry e"] by (cases "do_lookup_valid e i (fresh_entry e) s") simp

section \<open>Route errors\<close>

lemma inv_rerrCount:
  assumes "aodv_inv now s" and "m_rerrCount s \<noteq> m_rerrRateLimit s"
  shows "aodv_inv now (s\<lparr>m_rerrCount := m_rerrCount s + 1\<rparr>)"
proof -
  have "m_rerrCount s < m_rerrRateLimit s" using assms by (simp add: aodv_inv_def order.strict_iff_order)
  then show ?thesis using assms by (simp add: aodv_inv_def inc_le)
qed

lemma inv_rreqCount:
  assumes "aodv_inv now s" and "m_rreqCount s \<noteq> m_rreqRateLimit s"
  shows "aodv_inv now (s\<lparr>m_rreqCount := m_rreqCount s + 1\<rparr>)"
proof -
  have "m_rreqCount s < m_rreqRateLimit s" using assms by (simp add: aodv_inv_def order.strict_iff_order)
  then show ?thesis using assms by (simp add: aodv_inv_def inc_le)
qed

lemma inv_precursor_ifaces:
  "aodv_inv now s \<Longrightarrow> precursor_ifaces e ps rt ifaces s = (ifaces', s') \<Longrightarrow> aodv_inv now s'"
  by (induction e ps rt ifaces s rule: precursor_ifaces.induct) (auto split: prod.splits dest: inv_lookup_valid)

lemma inv_send_on_ifaces: "aodv_inv now s \<Longrightarrow> pred_option (aodv_inv now) (send_on_ifaces msg ttl is s)"
  by (induction msg ttl "is" s rule: send_on_ifaces.induct) (auto intro!: after_any)

lemma rerrCount_lookup_valid:
  "do_lookup_valid e i rt s = (ok, rt', s') \<Longrightarrow> m_rerrCount s' = m_rerrCount s \<and> m_rerrRateLimit s' = m_rerrRateLimit s"
  by (auto simp: do_lookup_valid_def split: prod.splits)

lemma rerrCount_schedule_send:
  "m_rerrCount (schedule_send socket msg ttl dest s) = m_rerrCount s" "m_rerrRateLimit (schedule_send socket msg ttl dest s) = m_rerrRateLimit s"
  by (simp_all add: schedule_send_def jitter_def emit_def)

lemma inv_SendRerrMessage:
  assumes "aodv_inv now s"
  shows "pred_option (aodv_inv now) (SendRerrMessage e msg ttl precursors s)"
proof -
  obtain ok rt s1 where l: "do_lookup_valid e (hd precursors) (fresh_entry e) s = (ok, rt, s1)" by (metis prod_cases3)
  have s1: "aodv_inv now s1" by (rule inv_lookup_valid(1) [OF assms l])
  have "aodv_inv now ((schedule_send socket msg ttl dest s1)\<lparr>m_rerrCount := m_rerrCount (schedule_send socket msg ttl dest s1) + 1\<rparr>)"
    if "m_rerrCount s \<noteq> m_rerrRateLimit s" for socket dest
    by (intro inv_rerrCount) (use s1 that rerrCount_lookup_valid [OF l] in \<open>simp_all add: rerrCount_schedule_send\<close>)
  moreover obtain ifaces s2 where p: "precursor_ifaces e precursors (fresh_entry e) [] s = (ifaces, s2)" by (metis surj_pair)
  moreover have "pred_option (aodv_inv now) (send_on_ifaces msg ttl ifaces s2)"
    by (rule inv_send_on_ifaces [OF inv_precursor_ifaces [OF assms p]])
  ultimately show ?thesis using assms l s1 by (auto simp: SendRerrMessage_def Let_def intro!: after_any)
qed

lemma inv_collect_unreachable:
  "aodv_inv now s \<Longrightarrow> pred_option (\<lambda>(_, _, s'). aodv_inv now s') (collect_unreachable e u hdr precursors s)"
proof (induction e u hdr precursors s rule: collect_unreachable.induct)
  case (2 e dst seqNo u hdr precursors s)
  show ?case
  proof (cases "AddUnDestination dst seqNo hdr")
    case (Some x)
    then obtain hdr1 where a: "AddUnDestination dst seqNo hdr = Some (True, hdr1)" by (auto simp: AddUnDestination_def split: if_splits)
    obtain b rt s1 where l: "do_lookup e dst (fresh_entry e) s = (b, rt, s1)" by (metis prod_cases3)
    show ?thesis using "2.IH"(2) [OF a refl] a l inv_lookup(1) [OF "2.prems" l] by simp
  qed simp
qed simp

lemma inv_rerr_end:
  assumes "aodv_inv now s"
  shows "pred_option (aodv_inv now) (if c then SendRerrMessage e msg ttl precursors s else Some s)"
  using assms by (simp add: inv_SendRerrMessage)

lemma inv_invalidate: "aodv_inv now s \<Longrightarrow> aodv_inv now (s\<lparr>m_routingTable := InvalidateRoutesWithDst t u (m_routingTable s)\<rparr>)"
  by (simp add: inv_table inv_table_ok)

lemma inv_unreachable_list:
  "aodv_inv now s \<Longrightarrow> GetListOfDestinationWithNextHop t nh (m_routingTable s) = (u, t') \<Longrightarrow> aodv_inv now (s\<lparr>m_routingTable := t'\<rparr>)"
  by (auto simp: GetListOfDestinationWithNextHop_def Let_def inv_table inv_table_ok)

text \<open>A route error, from the list of unreachable destinations on.\<close>

lemma inv_report:
  assumes "aodv_inv now s"
  shows "pred_option (aodv_inv now)
    (do { (hdr', prec', s) \<leftarrow> collect_unreachable e u hdr prec s;
          s \<leftarrow> (if GetDestCount hdr' \<noteq> 0 then SendRerrMessage e (MsgRerr hdr') 1 prec' s else Some s);
          Some (s\<lparr>m_routingTable := InvalidateRoutesWithDst t u' (m_routingTable s)\<rparr>) })"
  by (rule after_bind [OF inv_collect_unreachable [OF assms]])
     (auto simp del: if_split intro!: after_bind [OF inv_rerr_end] inv_invalidate)

lemma inv_SendRerrWhenBreaksLink:
  assumes "aodv_inv now s"
  shows "pred_option (aodv_inv now) (SendRerrWhenBreaksLinkToNextHop e nextHop s)"
  unfolding SendRerrWhenBreaksLinkToNextHop_def
  by (rule after_lookup [OF assms])
     (auto simp del: if_split simp add: if_bool_eq_conj intro!: after_any inv_report inv_unreachable_list split: prod.split)

lemma inv_broadcast_now [simp]: "aodv_inv now (broadcast_now msg ttl m s) = aodv_inv now s"
  by (induction msg ttl m s rule: broadcast_now.induct) simp_all

lemma inv_SendRerrWhenNoRoute:
  "aodv_inv now s \<Longrightarrow> pred_option (aodv_inv now) (SendRerrWhenNoRouteToForward e dst seqNo origin s)"
  unfolding SendRerrWhenNoRouteToForward_def Let_def by (auto intro!: after_any after_lookup_valid)

section \<open>Neighbours\<close>

lemma inv_link_failures: "aodv_inv now s \<Longrightarrow> pred_option (aodv_inv now) (link_failures e js s)"
  by (induction js arbitrary: s) (auto intro!: after_bind [OF inv_SendRerrWhenBreaksLink])

lemma inv_nb: "aodv_inv now s \<Longrightarrow> nb_ok nb \<Longrightarrow> aodv_inv now (s\<lparr>m_nb := nb\<rparr>)"
  by (simp add: aodv_inv_def)

lemma inv_nb_ok: "aodv_inv now s \<Longrightarrow> nb_ok (m_nb s)"
  by (simp add: aodv_inv_def)

lemma inv_nb_ScheduleTimer: "aodv_inv now s \<Longrightarrow> aodv_inv now (nb_ScheduleTimer e s)"
  unfolding nb_ScheduleTimer_def by (rule inv_nb) (use inv_nb_ok in \<open>auto simp: nb_ok_def\<close>)

lemma inv_nb_Purge:
  assumes "aodv_inv now s"
  shows "pred_option (aodv_inv now) (nb_Purge e s)"
proof -
  have "aodv_inv now (nb_ScheduleTimer e (s1\<lparr>m_nb := (m_nb s1)\<lparr>m_nb_list := filter (\<lambda>nb. \<not> CloseNeighbor e nb) (m_nb_list (m_nb s1))\<rparr>\<rparr>))"
    if "aodv_inv now s1" for s1
    by (intro inv_nb_ScheduleTimer inv_nb that) (use inv_nb_ok [OF that] in \<open>simp add: nb_ok_def distinct_map_filter\<close>)
  then show ?thesis using assms unfolding nb_Purge_def Let_def by (simp add: after_bind [OF inv_link_failures])
qed

lemma nb_update_first_keys:
  "nb_update_first e ad expire mac ns = Some ns' \<Longrightarrow> map n_neighborAddress ns' = map n_neighborAddress ns"
  by (induction e ad expire mac ns arbitrary: ns' rule: nb_update_first.induct) (auto split: if_splits)

lemma nb_update_first_None: "nb_update_first e ad expire mac ns = None \<Longrightarrow> ad \<notin> n_neighborAddress ` set ns"
  by (induction e ad expire mac ns rule: nb_update_first.induct) (auto split: if_splits)

lemma inv_nb_Update:
  assumes "aodv_inv now s"
  shows "pred_option (aodv_inv now) (nb_Update e ad expire s)"
proof (cases "nb_update_first e ad expire (LookupMacAddress e ad s) (m_nb_list (m_nb s))")
  case None
  then show ?thesis using inv_nb_ok [OF assms] nb_update_first_None [OF None] assms
    by (simp add: nb_Update_def nb_ok_def Let_def inv_nb_Purge inv_nb)
next
  case (Some ns)
  then show ?thesis using inv_nb_ok [OF assms] nb_update_first_keys [OF Some] assms by (simp add: nb_Update_def nb_ok_def inv_nb)
qed

lemma inv_ProcessTxError:
  assumes "aodv_inv now s"
  shows "pred_option (aodv_inv now) (ProcessTxError e ad s)"
proof -
  let ?f = "\<lambda>n :: Neighbor. if n_hardwareAddress n = ad then n\<lparr>n_close := True\<rparr> else n"
  have "n_neighborAddress \<circ> ?f = n_neighborAddress" by auto
  then have "nb_ok ((m_nb s)\<lparr>m_nb_list := map ?f (m_nb_list (m_nb s))\<rparr>)"
    using inv_nb_ok [OF assms] by (simp add: nb_ok_def)
  then show ?thesis unfolding ProcessTxError_def by (intro inv_nb_Purge inv_nb assms)
qed

section \<open>Route requests\<close>

lemma inv_timer: "aodv_inv now s \<Longrightarrow> om_ok t \<Longrightarrow> aodv_inv now (s\<lparr>m_addressReqTimer := t\<rparr>)"
  by (simp add: aodv_inv_def)

lemma inv_timer_ok: "aodv_inv now s \<Longrightarrow> om_ok (m_addressReqTimer s)"
  by (simp add: aodv_inv_def)

lemma inv_ScheduleRreqRetry: "aodv_inv now s \<Longrightarrow> pred_option (aodv_inv now) (ScheduleRreqRetry e dst s)"
  unfolding ScheduleRreqRetry_def
  by (rule after_lookup [of now]) (auto intro!: after_any inv_timer om_ok_set dest: inv_timer_ok)

lemma inv_broadcast_rreq [simp]: "aodv_inv now (broadcast_rreq e hdr ttl m s) = aodv_inv now s"
  by (induction e hdr ttl m s rule: broadcast_rreq.induct) (simp_all add: Let_def)

lemma inv_search_known:
  "aodv_inv now s \<Longrightarrow> distinct (rt_precursorList rt) \<Longrightarrow> aodv_inv now (snd (snd (search_known e rt hdr s)))"
  by (auto simp: search_known_def Let_def intro!: inv_update)

lemma inv_search_unknown: "aodv_inv now s \<Longrightarrow> aodv_inv now (snd (snd (search_unknown e dst hdr s)))"
  by (auto simp: search_unknown_def Let_def intro!: inv_add)

lemma inv_launch_rreq: "aodv_inv now s \<Longrightarrow> pred_option (aodv_inv now) (launch_rreq e dst hdr ttl s)"
  by (simp add: launch_rreq_def Let_def inv_ScheduleRreqRetry)

lemma inv_SendRequest: "aodv_inv now s \<Longrightarrow> pred_option (aodv_inv now) (SendRequest e dst s)"
proof (cases "m_rreqCount s = m_rreqRateLimit s")
  case False
  assume i: "aodv_inv now s"
  show ?thesis unfolding SendRequest_def Let_def if_not_P [OF False]
    apply (rule after_lookup [OF inv_rreqCount [OF i False]])
    subgoal for ok rt s1
      using inv_search_known [of now s1 rt e "blank_rreq dst"] inv_search_unknown [of now s1 e dst "blank_rreq dst"]
      by (cases ok) (auto simp: case_prod_beta intro!: inv_launch_rreq)
    done
qed (simp add: SendRequest_def)

section \<open>The queue\<close>

lemma rq_inv_later: "rq_inv now q \<Longrightarrow> now \<le> later \<Longrightarrow> rq_inv later q"
  by (fastforce simp: rq_inv_def)

lemma inv_later: "aodv_inv now s \<Longrightarrow> now \<le> later \<Longrightarrow> aodv_inv later s"
  by (auto simp: aodv_inv_def rq_inv_later)

lemma inv_queue: "aodv_inv now s \<Longrightarrow> rq_inv now q \<Longrightarrow> aodv_inv now (s\<lparr>m_rqueue := q\<rparr>)"
  by (simp add: aodv_inv_def)

lemma inv_queue_ok: "aodv_inv now s \<Longrightarrow> rq_inv now (m_rqueue s)"
  by (simp add: aodv_inv_def)

lemma rq_inv_exec: "rq_inv now q \<Longrightarrow> rq_exec now x q = Some (acc, out, q1) \<Longrightarrow> rq_inv now q1"
  using fifo_exec [of now q now x] by (simp add: fifo_step_def)

lemma rq_inv_Dequeue:
  assumes "rq_inv now q" and "rq_Dequeue now dst q = (r, dr, q1)"
  shows "rq_inv now q1"
  using assms(2) rq_inv_exec [OF assms(1), of "Deq dst"] by (cases r) simp_all

lemma rq_inv_Drop: "rq_inv now q \<Longrightarrow> rq_DropPacketWithDst now dst q = (dr, q1) \<Longrightarrow> rq_inv now q1"
  using rq_inv_exec [of now q "DropDst dst"] by simp

lemma rq_inv_Enqueue: "rq_inv now q \<Longrightarrow> rq_Enqueue now x q = Some (r, dr, q1) \<Longrightarrow> rq_inv now q1"
  using rq_inv_exec [of now q "Enq x"] by simp

lemma rq_inv_drain: "rq_inv (env_now e) q \<Longrightarrow> rq_inv (env_now e) (snd (drain_queue e dst route q))"
proof (induction e dst route q rule: drain_queue.induct)
  case (1 e dst route q)
  obtain r dr q1 where d: "rq_Dequeue (env_now e) dst q = (r, dr, q1)" by (metis prod_cases3)
  have "rq_inv (env_now e) q1" by (rule rq_inv_Dequeue [OF 1(2) d])
  then show ?case using 1(1) [OF d [symmetric]] d
    by (subst drain_queue.simps) (auto simp: Let_def case_prod_beta split: option.splits)
qed

lemma inv_SendPacketFromQueue: "aodv_inv (env_now e) s \<Longrightarrow> aodv_inv (env_now e) (SendPacketFromQueue e dst route s)"
  using rq_inv_drain [OF inv_queue_ok, of e s dst route] by (auto simp: SendPacketFromQueue_def inv_queue split: prod.splits)

lemma inv_drop_packets: "aodv_inv (env_now e) s \<Longrightarrow> aodv_inv (env_now e) (drop_packets e dst s)"
  by (auto simp: drop_packets_def split: prod.splits intro!: inv_queue dest: rq_inv_Drop [OF inv_queue_ok])

lemma inv_RouteRequestTimerExpire: "aodv_inv (env_now e) s \<Longrightarrow> pred_option (aodv_inv (env_now e)) (RouteRequestTimerExpire e dst s)"
  unfolding RouteRequestTimerExpire_def
  by (rule after_lookup_valid, assumption)
     (auto intro!: inv_SendPacketFromQueue inv_drop_packets inv_delete inv_timer inv_SendRequest dest: inv_timer_ok)

section \<open>Replies\<close>

lemma inv_send_unicast: "aodv_inv now s \<Longrightarrow> pred_option (aodv_inv now) (send_unicast rt msg ttl dest s)"
  by (auto simp: send_unicast_def intro!: after_any)

lemma inv_SendReply: "aodv_inv now s \<Longrightarrow> pred_option (aodv_inv now) (SendReply hdr toOrigin s)"
  by (simp add: SendReply_def Let_def inv_send_unicast)

lemma inv_SendReplyByIntermediateNode:
  assumes "aodv_inv now s" and "distinct (rt_precursorList toDst)" and "distinct (rt_precursorList toOrigin)"
  shows "pred_option (aodv_inv now) (SendReplyByIntermediateNode e toDst toOrigin grat s)"
proof -
  have "aodv_inv now (snd (snd (do_lookup e nh (fresh_entry e) s)))" for nh
    using inv_lookup(1) [OF assms(1)] by (metis prod.collapse)
  then have "pred_option (aodv_inv now) (send_unicast rt msg ttl dest (do_update rt1 (do_update rt2 s1)))"
    if "s1 = s \<or> s1 = snd (snd (do_lookup e nh (fresh_entry e) s))" "distinct (rt_precursorList rt1)" "distinct (rt_precursorList rt2)"
    for rt msg ttl dest rt1 rt2 s1 nh
    using that assms(1) by (auto intro!: inv_send_unicast inv_update)
  note first = this
  show ?thesis unfolding SendReplyByIntermediateNode_def Let_def
    by (cases "rt_hops toDst = 1")
       (auto simp: assms intro!: after_bind [OF first] inv_send_unicast)
qed

lemma inv_SendReplyAck: "aodv_inv now s \<Longrightarrow> pred_option (aodv_inv now) (SendReplyAck e neighbor s)"
  unfolding SendReplyAck_def by (rule after_lookup [of now]) (simp_all add: inv_send_unicast)

section \<open>Receiving\<close>

lemma inv_reverse_route: "aodv_inv now s \<Longrightarrow> aodv_inv now (reverse_route e hdr hop receiver src s)"
  by (auto simp: reverse_route_def Let_def dest: inv_lookup split: prod.splits intro!: inv_update inv_add)

lemma inv_neighbour_route: "aodv_inv now s \<Longrightarrow> aodv_inv now (neighbour_route e seqNo receiver src s)"
  by (auto simp: neighbour_route_def Let_def dest: inv_lookup split: prod.splits intro!: inv_update inv_add)

lemma inv_forward_rreq [simp]: "aodv_inv now (forward_rreq e hdr ttl m s) = aodv_inv now s"
  by (induction e hdr ttl m s rule: forward_rreq.induct) simp_all

lemma inv_relay_rreq: "aodv_inv now s \<Longrightarrow> pred_option (aodv_inv now) (relay_rreq e hdr ttl s)"
  by (simp add: relay_rreq_def)

lemma inv_answer_rreq: "aodv_inv now s \<Longrightarrow> pred_option (aodv_inv now) (answer_rreq e hdr ttl src s)"
  unfolding answer_rreq_def
  by (rule after_lookup [of now]) (auto intro!: after_lookup inv_SendReplyByIntermediateNode inv_relay_rreq)

lemma inv_process_rreq:
  assumes "aodv_inv now s"
  shows "pred_option (aodv_inv now) (process_rreq e hdr ttl receiver src s)"
  unfolding process_rreq_def Let_def
  by (rule after_bind [OF inv_nb_Update [OF inv_neighbour_route [OF inv_reverse_route [OF assms]]]])
     (simp add: inv_answer_rreq after_lookup inv_SendReply)

lemma inv_RecvRequest:
  assumes "aodv_inv now s"
  shows "pred_option (aodv_inv now) (RecvRequest e hdr ttl receiver src s)"
  unfolding RecvRequest_def Let_def
  by (rule after_lookup [OF assms]) (simp add: inv_process_rreq split: prod.split)

lemma inv_ProcessHello:
  assumes "aodv_inv now s"
  shows "pred_option (aodv_inv now) (ProcessHello e hdr receiver s)"
  unfolding ProcessHello_def
  by (rule after_lookup [OF assms]) (simp add: Let_def inv_nb_Update inv_update inv_add)

lemma inv_update_precursors:
  assumes "aodv_inv now s" and "distinct (rt_precursorList toDst)" and "distinct (rt_precursorList toOrigin)"
    and "update_precursors e dst toDst toOrigin s = (rt, s')"
  shows "aodv_inv now s'"
proof -
  obtain ok rt1 s1 where l: "do_lookup_valid e dst toDst s = (ok, rt1, s1)" by (metis prod_cases3)
  have i: "aodv_inv now s1" "distinct (rt_precursorList rt1)"
    using inv_lookup_valid [OF assms(1) l] assms(2) by simp_all
  let ?d = "snd (InsertPrecursor (GetNextHop toOrigin) rt1)"
  obtain o2 rt2 s2 where 2: "do_lookup e (GetNextHop ?d) (fresh_entry e) (do_update ?d s1) = (o2, rt2, s2)" by (metis prod_cases3)
  have i2: "aodv_inv now s2" "distinct (rt_precursorList rt2)"
    using inv_lookup [OF inv_update [OF i(1)] 2] i(2) by simp_all
  let ?s3 = "do_update (snd (InsertPrecursor (GetNextHop ?d) toOrigin)) (do_update (snd (InsertPrecursor (GetNextHop toOrigin) rt2)) s2)"
  obtain o4 rt4 s4 where 4: "do_lookup e (GetNextHop (snd (InsertPrecursor (GetNextHop ?d) toOrigin))) (fresh_entry e) ?s3 = (o4, rt4, s4)"
    by (metis prod_cases3)
  have "aodv_inv now ?s3" using i2 assms(3) by (simp add: inv_update)
  then have "aodv_inv now s4" "distinct (rt_precursorList rt4)" using inv_lookup [OF _ 4] by simp_all
  then show ?thesis using assms(4) l i 2 4 by (auto simp: update_precursors_def Let_def inv_update split: if_splits)
qed

lemma inv_forward_rrep:
  assumes "aodv_inv now s" and "distinct (rt_precursorList toDst)"
  shows "pred_option (aodv_inv now) (forward_rrep e hdr ttl toDst s)"
  unfolding forward_rrep_def
proof (rule after_lookup [OF assms(1)], goal_cases)
  case (1 ok rt s1)
  let ?rt = "rt_SetLifeTime (env_now e) (max (m_activeRouteTimeout s1) (rt_GetLifeTime (env_now e) rt)) rt"
  obtain rt2 s2 where u: "update_precursors e (rp_dst hdr) toDst ?rt (do_update ?rt s1) = (rt2, s2)" by (metis surj_pair)
  have "aodv_inv now s2" by (rule inv_update_precursors [OF _ assms(2) _ u]) (use 1 in \<open>simp_all add: inv_update\<close>)
  then show ?case using u 1 by (simp add: Let_def inv_send_unicast)
qed

lemma inv_accept_rrep:
  assumes "aodv_inv (env_now e) s" and "distinct (rt_precursorList newEntry)"
  shows "aodv_inv (env_now e) (accept_rrep e newEntry toDst s)"
proof -
  let ?s1 = "if rt_flag toDst = IN_SEARCH
    then (do_update newEntry s)\<lparr>m_addressReqTimer := om_erase (GetDestination newEntry) (m_addressReqTimer s)\<rparr> else s"
  obtain ok rt s2 where l: "do_lookup e (GetDestination newEntry) toDst ?s1 = (ok, rt, s2)" by (metis prod_cases3)
  have "aodv_inv (env_now e) ?s1"
    using assms inv_update [OF assms] by (auto intro!: inv_timer om_ok_erase dest: inv_timer_ok)
  then have "aodv_inv (env_now e) s2" using inv_lookup(1) [OF _ l] by simp
  then show ?thesis using l by (simp add: accept_rrep_def Let_def inv_SendPacketFromQueue)
qed

lemma inv_learn_route:
  assumes "aodv_inv now s" and "distinct (rt_precursorList newEntry)" and "learn_route e hdr newEntry s = (toDst, s')"
  shows "aodv_inv now s'" and "distinct (rt_precursorList toDst)"
proof -
  obtain ok rt s1 where l: "do_lookup e (rp_dst hdr) (fresh_entry e) s = (ok, rt, s1)" by (metis prod_cases3)
  have "aodv_inv now s1" "distinct (rt_precursorList rt)" using inv_lookup [OF assms(1) l] by simp_all
  then show "aodv_inv now s'" "distinct (rt_precursorList toDst)"
    using assms(2,3) l by (auto simp: learn_route_def inv_update inv_add)
qed

lemma inv_process_rrep:
  assumes "aodv_inv (env_now e) s" and "distinct (rt_precursorList newEntry)"
  shows "pred_option (aodv_inv (env_now e)) (process_rrep e hdr newEntry ttl sender s)"
proof -
  obtain toDst s1 where l: "learn_route e hdr newEntry s = (toDst, s1)" by (metis surj_pair)
  note i = inv_learn_route [OF assms l]
  have "pred_option (aodv_inv (env_now e)) (if GetAckRequired hdr then SendReplyAck e sender s1 else Some s1)"
    using i(1) by (simp add: inv_SendReplyAck)
  then show ?thesis unfolding process_rrep_def l prod.case
    by (rule after_bind) (use i(2) assms(2) in \<open>simp add: Let_def inv_accept_rrep inv_forward_rrep\<close>)
qed

lemma inv_RecvReply:
  "aodv_inv (env_now e) s \<Longrightarrow> pred_option (aodv_inv (env_now e)) (RecvReply e hdr ttl receiver sender s)"
  by (simp add: RecvReply_def Let_def inv_ProcessHello inv_process_rrep)

lemma inv_RecvReplyAck: "aodv_inv now s \<Longrightarrow> aodv_inv now (RecvReplyAck e neighbor s)"
  by (auto simp: RecvReplyAck_def dest: inv_lookup split: prod.splits intro!: inv_update)

lemma inv_RecvError: "aodv_inv now s \<Longrightarrow> pred_option (aodv_inv now) (RecvError e hdr src s)"
  unfolding RecvError_def Let_def by (auto split: prod.split intro!: inv_report inv_unreachable_list)

lemma inv_RecvAodv: "aodv_inv (env_now e) s \<Longrightarrow> pred_option (aodv_inv (env_now e)) (RecvAodv e socket sender msg ttl s)"
  unfolding RecvAodv_def Let_def
  by (auto split: option.split aodv_msg.split
      intro!: after_any inv_RecvRequest inv_RecvReply inv_RecvError inv_RecvReplyAck inv_UpdateRouteToNeighbor)

section \<open>The interface of the node\<close>

lemma inv_RouteOutput:
  "aodv_inv now s \<Longrightarrow> pred_option (\<lambda>(_, _, _, s'). aodv_inv now s') (RouteOutput e p hdr oif err s)"
  unfolding RouteOutput_def Let_def
  by (auto split: option.split intro!: after_any after_lookup_valid [of now] inv_UpdateRouteLifeTime)

lemma inv_DeferredRouteOutput:
  assumes "aodv_inv (env_now e) s"
  shows "pred_option (aodv_inv (env_now e)) (DeferredRouteOutput e p hdr s)"
  unfolding DeferredRouteOutput_def Let_def
proof (rule after_any, clarify)
  fix ok dr q
  assume "rq_Enqueue (env_now e) \<lparr>qe_packet = p, qe_header = hdr, qe_expire = env_now e + env_now e\<rparr> (m_rqueue s) = Some (ok, dr, q)"
  then have "aodv_inv (env_now e) (s\<lparr>m_rqueue := q\<rparr>)" by (intro inv_queue assms rq_inv_Enqueue [OF inv_queue_ok [OF assms]])
  then show "pred_option (aodv_inv (env_now e))
    (if ok then case do_lookup e (ih_destination hdr) (fresh_entry e) (emit_errors dr (s\<lparr>m_rqueue := q\<rparr>)) of (ok, rt, s) \<Rightarrow>
       if \<not> ok \<or> rt_flag rt \<noteq> IN_SEARCH then SendRequest e (ih_destination hdr) s else Some s
     else Some (emit_errors dr (s\<lparr>m_rqueue := q\<rparr>)))"
    by (auto intro!: after_lookup [of "env_now e"] inv_SendRequest)
qed

lemma inv_Forwarding: "aodv_inv now s \<Longrightarrow> pred_option (\<lambda>(_, s'). aodv_inv now s') (Forwarding e p hdr s)"
  unfolding Forwarding_def Let_def
  by (rule after_lookup [of now])
     (auto simp: inv_table inv_table_ok
       intro!: after_lookup [of now] after_bind [OF inv_nb_Update] after_bind [OF inv_SendRerrWhenNoRoute] inv_UpdateRouteLifeTime)

lemma inv_deliver [simp]: "aodv_inv now (deliver p hdr iif lcb s) = aodv_inv now s"
  by (simp add: deliver_def)

lemma inv_input_broadcast: "aodv_inv now s \<Longrightarrow> aodv_inv now (input_broadcast e p hdr iif lcb s)"
  using inv_UpdateRouteLifeTime [of now "s\<lparr>m_dpd := c\<rparr>" for c]
  by (auto simp: input_broadcast_def Let_def split: prod.split dest!: inv_lookup(1) [rotated])

lemma inv_input_local: "aodv_inv now s \<Longrightarrow> pred_option (aodv_inv now) (input_local e p hdr iif lcb s)"
  unfolding input_local_def Let_def
  by (rule after_lookup_valid [of now]) (auto intro!: inv_UpdateRouteLifeTime after_bind [OF inv_nb_Update])

lemma pred_map_True: "pred_option P m \<Longrightarrow> pred_option (\<lambda>(_, s). P s) (map_option (\<lambda>s. (True, s)) m)"
  by (cases m) simp_all

lemma inv_RouteInput:
  "aodv_inv (env_now e) s \<Longrightarrow> pred_option (\<lambda>(_, s'). aodv_inv (env_now e) s') (RouteInput e p hdr idev lcb s)"
  unfolding RouteInput_def Let_def
  by (simp add: pred_map_True inv_DeferredRouteOutput inv_input_broadcast inv_input_local inv_Forwarding)

lemma inv_send_hellos [simp]: "aodv_inv now (send_hellos m s) = aodv_inv now s"
  by (induction m s rule: send_hellos.induct) simp_all

lemma inv_timers:
  assumes "aodv_inv now s"
  shows "aodv_inv now (HelloTimerExpire e s)" "aodv_inv now (RreqRateLimitTimerExpire e s)" "aodv_inv now (RerrRateLimitTimerExpire e s)"
    "aodv_inv now (AckTimerExpire nb bt s)" "aodv_inv now (Start e s)" "aodv_inv now (DoInitialize e s)" "aodv_inv now (DoDispose s)"
proof -
  show "aodv_inv now (HelloTimerExpire e s)" using assms by (simp add: HelloTimerExpire_def Let_def SendHello_def)
  show "aodv_inv now (RreqRateLimitTimerExpire e s)" using assms by (simp add: RreqRateLimitTimerExpire_def aodv_inv_def)
  show "aodv_inv now (RerrRateLimitTimerExpire e s)" using assms by (simp add: RerrRateLimitTimerExpire_def aodv_inv_def)
  show "aodv_inv now (AckTimerExpire nb bt s)" using assms by (simp add: AckTimerExpire_def inv_table inv_table_ok)
  show "aodv_inv now (Start e s)" using assms by (simp add: Start_def inv_nb_ScheduleTimer)
  show "aodv_inv now (DoInitialize e s)" using assms by (simp add: DoInitialize_def jitter_def)
  show "aodv_inv now (DoDispose s)" using assms by (simp add: DoDispose_def aodv_inv_def)
qed

lemma inv_sockets:
  "aodv_inv now s \<Longrightarrow> om_ok m \<Longrightarrow> aodv_inv now (s\<lparr>m_socketAddresses := m\<rparr>)"
  "aodv_inv now s \<Longrightarrow> om_ok m \<Longrightarrow> aodv_inv now (s\<lparr>m_socketSubnetBroadcastAddresses := m\<rparr>)"
  "aodv_inv now s \<Longrightarrow> om_ok (m_socketAddresses s)" "aodv_inv now s \<Longrightarrow> om_ok (m_socketSubnetBroadcastAddresses s)"
  by (simp_all add: aodv_inv_def)

lemma lasting_precursors: "pred_option (\<lambda>rt. distinct (rt_precursorList rt)) (lasting_entry e dev dst iface)"
  by (simp add: lasting_entry_def)

lemma inv_SetIpv4: "aodv_inv now s \<Longrightarrow> pred_option (aodv_inv now) (SetIpv4 e ipv4 s)"
  by (auto simp: SetIpv4_def Let_def intro!: after_bind [OF lasting_precursors] inv_add)

lemma inv_open_sockets: "aodv_inv now s \<Longrightarrow> pred_option (aodv_inv now) (open_sockets e iface s1 s2 s)"
  unfolding open_sockets_def Let_def by (rule after_bind [OF lasting_precursors]) (simp add: inv_add inv_sockets)

lemma inv_ArpCache: "aodv_inv now s \<Longrightarrow> aodv_inv now (AddArpCache a s)" "aodv_inv now s \<Longrightarrow> aodv_inv now (DelArpCache a s)"
  by (auto simp: AddArpCache_def DelArpCache_def nb_ok_def intro!: inv_nb dest: inv_nb_ok)

lemma inv_no_interfaces: "aodv_inv now s \<Longrightarrow> aodv_inv now (no_interfaces s)"
  by (simp add: no_interfaces_def nb_Clear_def aodv_inv_def nb_ok_def table_ok_def rt_Clear_def)

lemma inv_NotifyInterfaceUp: "aodv_inv now s \<Longrightarrow> pred_option (aodv_inv now) (NotifyInterfaceUp e i s1 s2 s)"
  by (auto simp: NotifyInterfaceUp_def Let_def intro!: after_bind [OF inv_open_sockets] inv_ArpCache)

lemma inv_NotifyInterfaceDown: "aodv_inv now s \<Longrightarrow> pred_option (aodv_inv now) (NotifyInterfaceDown e i s)"
proof -
  assume i: "aodv_inv now s"
  have "aodv_inv now (if HasAdhocWifiMac e i then DelArpCache (GetArpCache e i) s else s)" using i by (simp add: inv_ArpCache)
  then show ?thesis unfolding NotifyInterfaceDown_def Let_def
    by (intro after_any) (auto intro!: inv_no_interfaces inv_table inv_sockets(1,2) om_ok_erase DeleteAllRoutes_ok simp: inv_sockets(3,4) inv_table_ok emit_def
      simp del: if_split)
qed

lemma inv_NotifyAddAddress: "aodv_inv now s \<Longrightarrow> pred_option (aodv_inv now) (NotifyAddAddress e i s1 s2 s)"
  by (simp add: NotifyAddAddress_def inv_open_sockets)

lemma inv_close_sockets: "aodv_inv now s \<Longrightarrow> aodv_inv now (close_sockets address socket s)"
  by (auto simp: close_sockets_def Let_def split: option.split intro!: inv_sockets(1) inv_table simp: inv_sockets(3) inv_table_ok)

lemma inv_NotifyRemoveAddress: "aodv_inv now s \<Longrightarrow> pred_option (aodv_inv now) (NotifyRemoveAddress e i ad s1 s2 s)"
  by (auto simp: NotifyRemoveAddress_def Let_def split: option.split
      intro!: after_bind [OF inv_open_sockets] inv_no_interfaces inv_close_sockets)

text \<open>Every event keeps the invariant.\<close>

lemma inv_exec_RouteOutput: "aodv_inv now s \<Longrightarrow> pred_option (aodv_inv now) (aodv_exec e (EvRouteOutput p hdr oif err) s)"
  using inv_RouteOutput [of now s e p hdr oif err] by (cases "RouteOutput e p hdr oif err s") auto

lemma inv_exec_RouteInput: "aodv_inv (env_now e) s \<Longrightarrow> pred_option (aodv_inv (env_now e)) (aodv_exec e (EvRouteInput p hdr idev lcb) s)"
  using inv_RouteInput [of e s p hdr idev lcb] by (cases "RouteInput e p hdr idev lcb s") auto

lemma inv_exec: "aodv_inv (env_now e) s \<Longrightarrow> pred_option (aodv_inv (env_now e)) (aodv_exec e ev s)"
  by (cases ev)
     (simp_all only: inv_exec_RouteOutput inv_exec_RouteInput, simp_all add: inv_RecvAodv inv_SendRequest inv_RouteRequestTimerExpire inv_timers
       inv_nb_Purge NotifyTxError_def inv_ProcessTxError inv_SetIpv4 inv_NotifyInterfaceUp inv_NotifyInterfaceDown inv_NotifyAddAddress
       inv_NotifyRemoveAddress)

lemma inv_initial: "aodv_inv now (mk_RoutingProtocol random)" if "0 \<le> now"
  using that by (simp add: aodv_inv_def mk_RoutingProtocol_def Let_def table_ok_def nb_ok_def rq_inv_def Seconds_def)

lemma reachable_inv: "aodv_reachable now s \<Longrightarrow> aodv_inv now s"
proof (induction rule: aodv_reachable.induct)
  case (event now s e ev s')
  then show ?case using inv_exec [OF inv_later, of now s e ev] by simp
qed (simp add: inv_initial)

end
