(* ===== verification/Aodv_Search.thy ===== *)
theory Aodv_Search
  imports Aodv_Invariant
begin

text \<open>
  The expanding ring search of the route discovery: SendRequest, ScheduleRreqRetry and
  RouteRequestTimerExpire for one destination, when no reply comes.
\<close>

section \<open>The state of a search\<close>

text \<open>The parameters of a search, which no step changes.\<close>

definition search_config :: "RoutingProtocol \<Rightarrow> u32 \<times> u16 \<times> u16 \<times> u32 \<times> u16" where
  "search_config s = (m_rreqRetries s, m_ttlIncrement s, m_ttlThreshold s, m_netDiameter s, m_rreqRateLimit s)"

text \<open>Sound parameters: the ring grows, its threshold is within the diameter, the sums fit 16 bits, and the
  backoff of the retries fits an int.\<close>

definition config_ok :: "RoutingProtocol \<Rightarrow> bool" where
  "config_ok s \<longleftrightarrow> 0 < unat (m_ttlIncrement s) \<and> unat (m_ttlThreshold s) \<le> unat (m_netDiameter s) \<and>
     unat (m_netDiameter s) + unat (m_ttlIncrement s) < 2 ^ 16 \<and> unat (m_rreqRetries s) \<le> 31 \<and> 0 < unat (m_rreqRateLimit s)"

text \<open>A search with the ring at \<open>h\<close> hops and \<open>c\<close> requests sent over the full diameter.\<close>

definition searching :: "Ipv4Address \<Rightarrow> nat \<Rightarrow> nat \<Rightarrow> RoutingProtocol \<Rightarrow> bool" where
  "searching dst h c s \<longleftrightarrow>
     (\<exists>rt. entries (m_routingTable s) dst = Some rt \<and> rt_flag rt = IN_SEARCH \<and> unat (rt_hops rt) = h \<and> unat (rt_reqCount rt) = c) \<and>
     h \<le> unat (m_netDiameter s) \<and> (h = unat (m_netDiameter s) \<longleftrightarrow> 0 < c) \<and> c \<le> unat (m_rreqRetries s)"

definition search_over :: "Ipv4Address \<Rightarrow> RoutingProtocol \<Rightarrow> bool" where
  "search_over dst s \<longleftrightarrow> entries (m_routingTable s) dst = None \<and> map_of (m_addressReqTimer s) dst = None \<and>
     (\<forall>x \<in> set (m_queue (m_rqueue s)). qe_dst x \<noteq> dst)"

section \<open>What the steps leave alone\<close>

lemma config_simps [simp]:
  "search_config (s\<lparr>m_out := x1\<rparr>) = search_config s"
  "search_config (s\<lparr>m_random := x2\<rparr>) = search_config s"
  "search_config (s\<lparr>m_rreqIdCache := x3\<rparr>) = search_config s"
  "search_config (s\<lparr>m_lastBcastTime := x4\<rparr>) = search_config s"
  "search_config (s\<lparr>m_seqNo := x5\<rparr>) = search_config s"
  "search_config (s\<lparr>m_requestId := x5\<rparr>) = search_config s"
  "search_config (s\<lparr>m_routingTable := t\<rparr>) = search_config s"
  "search_config (s\<lparr>m_addressReqTimer := tm\<rparr>) = search_config s"
  "search_config (s\<lparr>m_rqueue := q\<rparr>) = search_config s"
  "search_config (s\<lparr>m_rreqCount := n\<rparr>) = search_config s"
  "search_config (s\<lparr>m_rreqRateLimitTimer := x6\<rparr>) = search_config s"
  by (simp_all add: search_config_def)

lemma config_eqD:
  "search_config s = search_config s' \<Longrightarrow> m_rreqRetries s = m_rreqRetries s' \<and> m_ttlIncrement s = m_ttlIncrement s' \<and>
     m_ttlThreshold s = m_ttlThreshold s' \<and> m_netDiameter s = m_netDiameter s' \<and> m_rreqRateLimit s = m_rreqRateLimit s'"
  by (simp add: search_config_def)

lemma broadcast_rreq_frame [simp]:
  "m_routingTable (broadcast_rreq e hdr ttl m s) = m_routingTable s \<and> search_config (broadcast_rreq e hdr ttl m s) = search_config s"
  by (induction e hdr ttl m s rule: broadcast_rreq.induct) (simp_all add: Let_def schedule_send_def jitter_def emit_def)

text \<open>An entry that is in search is not purged.\<close>

lemma visible_in_search: "entries t k = Some rt \<Longrightarrow> rt_flag rt = IN_SEARCH \<Longrightarrow> visible now t k = Some rt"
  by (simp add: visible_def purge_entry_def)

section \<open>One step\<close>

lemma next_ttl_grows:
  assumes c: "config_ok s" and f: "rt_flag rt = IN_SEARCH" and h: "unat (rt_hops rt) \<le> unat (m_netDiameter s)"
  shows "unat (next_ttl rt s) \<le> unat (m_netDiameter s)"
    and "unat (rt_hops rt) < unat (m_netDiameter s) \<Longrightarrow> unat (rt_hops rt) < unat (next_ttl rt s)"
    and "unat (rt_hops rt) = unat (m_netDiameter s) \<Longrightarrow> unat (next_ttl rt s) = unat (m_netDiameter s)"
proof -
  have s: "unat (rt_hops rt + m_ttlIncrement s) = unat (rt_hops rt) + unat (m_ttlIncrement s)"
    using c h by (intro unat_add_lem [THEN iffD1]) (simp add: config_ok_def)
  have d: "unat (ucast (m_netDiameter s) :: u16) = unat (m_netDiameter s)"
    using c by (simp add: config_ok_def unsigned_ucast_eq take_bit_eq_mod)
  show "unat (next_ttl rt s) \<le> unat (m_netDiameter s)"
    "unat (rt_hops rt) < unat (m_netDiameter s) \<Longrightarrow> unat (rt_hops rt) < unat (next_ttl rt s)"
    "unat (rt_hops rt) = unat (m_netDiameter s) \<Longrightarrow> unat (next_ttl rt s) = unat (m_netDiameter s)"
    using c h f by (simp_all add: next_ttl_def Let_def d s config_ok_def word_less_nat_alt)
qed

text \<open>A lookup of the destination finds the entry.\<close>

lemma lookup_searching:
  assumes "table_ok (m_routingTable s)" and "entries (m_routingTable s) dst = Some rt" and "rt_flag rt = IN_SEARCH"
  shows "do_lookup e dst rt0 s = (True, rt, s\<lparr>m_routingTable := rt_Purge (env_now e) (m_routingTable s)\<rparr>)"
    and "do_lookup_valid e dst rt0 s = (False, rt, s\<lparr>m_routingTable := rt_Purge (env_now e) (m_routingTable s)\<rparr>)"
    and "entries (rt_Purge (env_now e) (m_routingTable s)) dst = Some rt"
  using assms visible_in_search [OF assms(2,3), of "env_now e"]
  by (simp_all add: do_lookup_def do_lookup_valid_def LookupRoute_eq LookupValidRoute_eq)

text \<open>The entry after a request has been sent.\<close>

definition rearmed :: "environment \<Rightarrow> RoutingTableEntry \<Rightarrow> RoutingProtocol \<Rightarrow> RoutingTableEntry" where
  "rearmed e rt s =
     (let rt1 = (if unat (next_ttl rt s) = unat (m_netDiameter s) then IncrementRreqCnt rt else rt)
      in rt_SetLifeTime (env_now e) (m_pathDiscoveryTime s) (rt1\<lparr>rt_hops := next_ttl rt s, rt_flag := IN_SEARCH\<rparr>))"

lemma rearmed_simps [simp]:
  "rt_flag (rearmed e rt s) = IN_SEARCH" "rt_hops (rearmed e rt s) = next_ttl rt s" "rt_route (rearmed e rt s) = rt_route rt"
  "rt_precursorList (rearmed e rt s) = rt_precursorList rt"
  "rt_reqCount (rearmed e rt s) = (if unat (next_ttl rt s) = unat (m_netDiameter s) then rt_reqCount rt + 1 else rt_reqCount rt)"
  by (simp_all add: rearmed_def Let_def rt_SetLifeTime_def IncrementRreqCnt_def)

lemma search_known_state: "snd (snd (search_known e rt hdr s)) = do_update (rearmed e rt s) s"
  by (simp add: search_known_def rearmed_def Let_def)

lemma update_searching:
  assumes "table_ok (m_routingTable s)" and "entries (m_routingTable s) dst = Some rt" and "rt_flag rt' = IN_SEARCH"
    and "rt_route rt' = rt_route rt" and "rt_precursorList rt' = rt_precursorList rt"
  shows "table_ok (m_routingTable (do_update rt' s))" and "entries (m_routingTable (do_update rt' s)) dst = Some rt'"
proof -
  have rt: "GetDestination rt = dst" "distinct (rt_precursorList rt)"
    using assms(1,2) by (simp_all add: table_ok_entries entry_ok_def)
  show "table_ok (m_routingTable (do_update rt' s))" using assms rt by (simp add: do_update_def)
  show "entries (m_routingTable (do_update rt' s)) dst = Some rt'"
    using assms rt by (simp add: do_update_def Update_entries clear_count_def)
qed

text \<open>When the retry has a time.\<close>

definition can_retry :: "RoutingTableEntry \<Rightarrow> RoutingProtocol \<Rightarrow> bool" where
  "can_retry rt s \<longleftrightarrow> unat (rt_hops rt) < unat (m_netDiameter s) \<or> 0 < unat (rt_reqCount rt) \<and> unat (rt_reqCount rt) \<le> 31"

lemma retry_time_Some: "can_retry rt s \<Longrightarrow> \<exists>d. retry_time rt s = Some d"
  by (auto simp: can_retry_def retry_time_def Let_def word_less_nat_alt)

lemma can_retry_config: "search_config s' = search_config s \<Longrightarrow> can_retry rt s' = can_retry rt s"
  by (auto simp: can_retry_def dest: config_eqD)

lemma ScheduleRreqRetry_searching:
  assumes "table_ok (m_routingTable s)" and "entries (m_routingTable s) dst = Some rt" and "rt_flag rt = IN_SEARCH" and "can_retry rt s"
  shows "\<exists>s'. ScheduleRreqRetry e dst s = Some s' \<and> table_ok (m_routingTable s') \<and> entries (m_routingTable s') dst = Some rt \<and>
    search_config s' = search_config s"
proof -
  let ?s = "s\<lparr>m_addressReqTimer := om_set dst None (m_addressReqTimer s)\<rparr>"
  let ?s1 = "?s\<lparr>m_routingTable := rt_Purge (env_now e) (m_routingTable s)\<rparr>"
  have "do_lookup e dst (fresh_entry e) ?s = (True, rt, ?s1)"
    using lookup_searching(1) [of ?s dst rt e "fresh_entry e"] assms by simp
  moreover obtain d where "retry_time rt ?s1 = Some d"
    using retry_time_Some can_retry_config [of ?s1 s rt] assms(4) by auto
  ultimately show ?thesis using assms(1) lookup_searching(3) [OF assms(1-3), of e] by (simp add: ScheduleRreqRetry_def)
qed

lemma launch_rreq_eq:
  "\<exists>hdr'. launch_rreq e dst hdr ttl s = ScheduleRreqRetry e dst
     (broadcast_rreq e hdr' (ucast ttl) (m_socketAddresses s) (s\<lparr>m_seqNo := m_seqNo s + 1, m_requestId := m_requestId s + 1\<rparr>))"
  unfolding launch_rreq_def Let_def by (rule exI) (simp split del: if_split)

lemma launch_searching:
  assumes "table_ok (m_routingTable s)" and "entries (m_routingTable s) dst = Some rt" and "rt_flag rt = IN_SEARCH" and "can_retry rt s"
  shows "\<exists>s'. launch_rreq e dst hdr ttl s = Some s' \<and> table_ok (m_routingTable s') \<and> entries (m_routingTable s') dst = Some rt \<and>
    search_config s' = search_config s"
proof -
  obtain hdr' where l: "launch_rreq e dst hdr ttl s = ScheduleRreqRetry e dst
      (broadcast_rreq e hdr' (ucast ttl) (m_socketAddresses s) (s\<lparr>m_seqNo := m_seqNo s + 1, m_requestId := m_requestId s + 1\<rparr>))"
    using launch_rreq_eq by blast
  let ?s = "broadcast_rreq e hdr' (ucast ttl) (m_socketAddresses s) (s\<lparr>m_seqNo := m_seqNo s + 1, m_requestId := m_requestId s + 1\<rparr>)"
  have "can_retry rt ?s" using assms(4) can_retry_config [of ?s s rt] by simp
  then show ?thesis using ScheduleRreqRetry_searching [of ?s dst rt e] assms unfolding l by simp
qed

lemma SendRequest_searching:
  assumes t: "table_ok (m_routingTable s)" and rt: "entries (m_routingTable s) dst = Some rt" "rt_flag rt = IN_SEARCH"
    and n: "m_rreqCount s \<noteq> m_rreqRateLimit s" and d: "can_retry (rearmed e rt s) s"
  shows "\<exists>s'. SendRequest e dst s = Some s' \<and> table_ok (m_routingTable s') \<and> entries (m_routingTable s') dst = Some (rearmed e rt s) \<and>
    search_config s' = search_config s"
proof -
  let ?s1 = "s\<lparr>m_rreqCount := m_rreqCount s + 1, m_routingTable := rt_Purge (env_now e) (m_routingTable s)\<rparr>"
  have l: "do_lookup e dst (fresh_entry e) (s\<lparr>m_rreqCount := m_rreqCount s + 1\<rparr>) = (True, rt, ?s1)"
    using lookup_searching(1) [of "s\<lparr>m_rreqCount := m_rreqCount s + 1\<rparr>" dst rt] t rt by simp
  have r: "rearmed e rt ?s1 = rearmed e rt s" by (simp add: rearmed_def next_ttl_def Let_def)
  obtain hdr ttl where k: "search_known e rt (blank_rreq dst) ?s1 = (hdr, ttl, do_update (rearmed e rt s) ?s1)"
    using search_known_state [of e rt "blank_rreq dst" ?s1] r by (metis prod.collapse)
  let ?s2 = "do_update (rearmed e rt s) ?s1"
  have u: "table_ok (m_routingTable ?s2)" "entries (m_routingTable ?s2) dst = Some (rearmed e rt s)"
    using update_searching [of ?s1 dst rt "rearmed e rt s"] t lookup_searching(3) [OF t rt, of e] by simp_all
  have c: "search_config ?s2 = search_config s" by (simp add: do_update_def)
  have "can_retry (rearmed e rt s) ?s2" using d can_retry_config [OF c] by simp
  then show ?thesis using launch_searching [OF u, of e hdr ttl] c by (simp add: SendRequest_def n l k)
qed

section \<open>The whole search\<close>

text \<open>Expirations of the request timer; when the rate limit is reached, its timer expires first.\<close>

definition search_round :: "environment \<Rightarrow> Ipv4Address \<Rightarrow> RoutingProtocol \<Rightarrow> RoutingProtocol option" where
  "search_round e dst s =
     RouteRequestTimerExpire e dst (if m_rreqCount s = m_rreqRateLimit s then RreqRateLimitTimerExpire e s else s)"

fun search_rounds :: "environment list \<Rightarrow> Ipv4Address \<Rightarrow> RoutingProtocol \<Rightarrow> RoutingProtocol option" where
  "search_rounds [] dst s = Some s"
| "search_rounds (e # es) dst s = do { s \<leftarrow> search_round e dst s; search_rounds es dst s }"

text \<open>How many more requests there can be.\<close>

definition search_left :: "nat \<Rightarrow> nat \<Rightarrow> RoutingProtocol \<Rightarrow> nat" where
  "search_left h c s = (unat (m_netDiameter s) - h) + (unat (m_rreqRetries s) - c)"

lemma searching_config: "search_config s' = search_config s \<Longrightarrow> config_ok s' = config_ok s"
  by (auto simp: config_ok_def dest: config_eqD)

text \<open>The search is given up.\<close>

definition give_up :: "environment \<Rightarrow> Ipv4Address \<Rightarrow> RoutingProtocol \<Rightarrow> RoutingProtocol" where
  "give_up e dst s = drop_packets e dst (do_delete e dst (s\<lparr>m_addressReqTimer := om_erase dst (m_addressReqTimer s)\<rparr>))"

lemma give_up_over:
  assumes "table_ok (m_routingTable s)"
  shows "search_over dst (give_up e dst s)" and "table_ok (m_routingTable (give_up e dst s))"
    and "search_config (give_up e dst s) = search_config s"
proof -
  let ?s = "do_delete e dst (s\<lparr>m_addressReqTimer := om_erase dst (m_addressReqTimer s)\<rparr>)"
  obtain dr q where d: "rq_DropPacketWithDst (env_now e) dst (m_rqueue ?s) = (dr, q)" by (metis surj_pair)
  then have q: "\<forall>x \<in> set (m_queue q). qe_dst x \<noteq> dst"
    by (auto simp: rq_DropPacketWithDst_def rq_Purge_def)
  have e: "give_up e dst s = emit_errors dr (?s\<lparr>m_rqueue := q\<rparr>)" by (simp add: give_up_def drop_packets_def d)
  show "search_over dst (give_up e dst s)"
    using q assms by (simp add: e search_over_def emit_errors_def do_delete_def DeleteRoute_entries map_of_om_erase)
  show "table_ok (m_routingTable (give_up e dst s))" using assms by (simp add: e emit_errors_def do_delete_def)
  show "search_config (give_up e dst s) = search_config s" by (simp add: e emit_errors_def do_delete_def)
qed

text \<open>A round of a search that is on: it is given up, or the ring grows or the count rises.\<close>

lemma round_searching:
  assumes t: "table_ok (m_routingTable s)" and c: "config_ok s" and on: "searching dst h n s"
  shows "\<exists>s'. search_round e dst s = Some s' \<and> table_ok (m_routingTable s') \<and> search_config s' = search_config s \<and>
    (search_over dst s' \<or> (\<exists>h' n'. searching dst h' n' s' \<and> search_left h' n' s < search_left h n s))"
proof -
  let ?s = "if m_rreqCount s = m_rreqRateLimit s then RreqRateLimitTimerExpire e s else s"
  obtain rt where rt: "entries (m_routingTable s) dst = Some rt" "rt_flag rt = IN_SEARCH" "unat (rt_hops rt) = h" "unat (rt_reqCount rt) = n"
    and hn: "h \<le> unat (m_netDiameter s)" "h = unat (m_netDiameter s) \<longleftrightarrow> 0 < n" "n \<le> unat (m_rreqRetries s)"
    using on by (auto simp: searching_def)
  have s: "m_routingTable ?s = m_routingTable s" "search_config ?s = search_config s" "m_rreqCount ?s \<noteq> m_rreqRateLimit ?s"
    using c by (auto simp: RreqRateLimitTimerExpire_def search_config_def config_ok_def)
  let ?s1 = "?s\<lparr>m_routingTable := rt_Purge (env_now e) (m_routingTable ?s)\<rparr>"
  have l: "do_lookup_valid e dst (fresh_entry e) ?s = (False, rt, ?s1)"
    using lookup_searching(2) [of ?s dst rt] t rt s(1) by simp
  have s1: "table_ok (m_routingTable ?s1)" "entries (m_routingTable ?s1) dst = Some rt" "search_config ?s1 = search_config s"
    "m_rreqCount ?s1 \<noteq> m_rreqRateLimit ?s1" "config_ok ?s1"
    using t s lookup_searching(3) [OF t rt(1,2), of e] c searching_config [of ?s1 s] by simp_all
  note cf = config_eqD [OF s1(3)]
  show ?thesis
  proof (cases "n = unat (m_rreqRetries s)")
    case True
    then have "search_round e dst s = Some (give_up e dst ?s1)"
      using l rt(4) cf by (simp add: search_round_def RouteRequestTimerExpire_def give_up_def)
    then show ?thesis using give_up_over [OF s1(1), where dst = dst and e = e] s1(3) by simp
  next
    case False
    note g = next_ttl_grows [OF s1(5) rt(2)]
    let ?h = "unat (next_ttl rt ?s1)" and ?rt = "rearmed e rt ?s1"
    have r32: "unat (m_rreqRetries s) \<le> 31" using c by (simp add: config_ok_def)
    have inc: "unat (rt_reqCount rt + 1) = n + 1"
      using False hn(3) r32 rt(4) by (subst unat_Suc_simple) auto
    have h: "?h \<le> unat (m_netDiameter s)" "h < unat (m_netDiameter s) \<Longrightarrow> h < ?h" "h = unat (m_netDiameter s) \<Longrightarrow> ?h = unat (m_netDiameter s)"
      using g hn(1) rt(3) cf by simp_all
    let ?n = "if ?h = unat (m_netDiameter s) then n + 1 else n"
    have n: "unat (rt_reqCount ?rt) = ?n" using inc rt(4) cf by simp
    have "can_retry ?rt ?s1" using h n hn r32 False cf by (auto simp: can_retry_def)
    then obtain s' where s': "SendRequest e dst ?s1 = Some s'" "table_ok (m_routingTable s')" "entries (m_routingTable s') dst = Some ?rt"
      "search_config s' = search_config s"
      using SendRequest_searching [OF s1(1,2) rt(2) s1(4), of e] s1(3) by auto
    have "searching dst ?h ?n s'"
      using s'(3) n h hn False config_eqD [OF s'(4)] by (auto simp: searching_def)
    moreover have "search_left ?h ?n s < search_left h n s"
      using h hn False by (auto simp: search_left_def)
    moreover have "search_round e dst s = Some s'"
      using l rt s'(1) False cf by (simp add: search_round_def RouteRequestTimerExpire_def)
    ultimately show ?thesis using s' by blast
  qed
qed

text \<open>A round after the end changes nothing that matters.\<close>

lemma round_over:
  assumes "table_ok (m_routingTable s)" and "search_over dst s"
  shows "\<exists>s'. search_round e dst s = Some s' \<and> table_ok (m_routingTable s') \<and> search_over dst s'"
proof -
  let ?s = "if m_rreqCount s = m_rreqRateLimit s then RreqRateLimitTimerExpire e s else s"
  have t: "m_routingTable ?s = m_routingTable s" by (simp add: RreqRateLimitTimerExpire_def)
  have v: "visible (env_now e) (m_routingTable s) dst = None" using assms(2) by (simp add: search_over_def visible_def)
  let ?s1 = "?s\<lparr>m_routingTable := rt_Purge (env_now e) (m_routingTable ?s)\<rparr>"
  have "do_lookup_valid e dst (fresh_entry e) ?s = (False, fresh_entry e, ?s1)"
    using v assms(1) t by (simp add: do_lookup_valid_def LookupValidRoute_eq)
  moreover have "rt_flag (fresh_entry e) \<noteq> IN_SEARCH" by (simp add: RoutingTableEntry_default_def mk_RoutingTableEntry_def)
  ultimately have "search_round e dst s = Some (give_up e dst ?s1)"
    by (simp add: search_round_def RouteRequestTimerExpire_def give_up_def)
  then show ?thesis using give_up_over [of ?s1, where dst = dst and e = e] assms(1) t by simp
qed

lemma rounds_over:
  "table_ok (m_routingTable s) \<Longrightarrow> search_over dst s \<Longrightarrow> \<exists>s'. search_rounds es dst s = Some s' \<and> search_over dst s'"
proof (induction es arbitrary: s)
  case (Cons e es)
  then show ?case using round_over [OF Cons.prems, of e] by (auto simp: bind_eq_Some_conv)
qed simp

lemma rounds_end:
  "table_ok (m_routingTable s) \<Longrightarrow> config_ok s \<Longrightarrow> searching dst h n s \<Longrightarrow> search_left h n s < length es \<Longrightarrow>
   \<exists>s'. search_rounds es dst s = Some s' \<and> search_over dst s'"
proof (induction es arbitrary: s h n)
  case (Cons e es)
  obtain s1 where s1: "search_round e dst s = Some s1" "table_ok (m_routingTable s1)" "search_config s1 = search_config s"
    "search_over dst s1 \<or> (\<exists>h' n'. searching dst h' n' s1 \<and> search_left h' n' s < search_left h n s)"
    using round_searching [OF Cons.prems(1-3)] by blast
  have "search_left h' n' s1 = search_left h' n' s" for h' n'
    using config_eqD [OF s1(3)] by (simp add: search_left_def)
  then show ?case
    using s1 rounds_over [OF s1(2)] Cons.IH [OF s1(2)] searching_config [OF s1(3)] Cons.prems(2,4) by fastforce
qed simp

end
