(* ===== verification/Aodv_Message.thy ===== *)
theory Aodv_Message
  imports Aodv_Protocol
begin

text \<open>
  A message of the routing protocol as a packet: the code that sends one adds the header of the message and
  then a TypeHeader, the code that receives one (RecvAodv and the handler it calls) removes them. The
  handlers of Aodv_Protocol exchange the header objects; the round trip shows that this is what the
  packets carry.
\<close>

fun msg_type :: "aodv_msg \<Rightarrow> MessageType" where
  "msg_type (MsgRreq _) = AODVTYPE_RREQ"
| "msg_type (MsgRrep _) = AODVTYPE_RREP"
| "msg_type (MsgRerr _) = AODVTYPE_RERR"
| "msg_type (MsgRrepAck _) = AODVTYPE_RREP_ACK"

fun add_msg_header :: "aodv_msg \<Rightarrow> Buffer \<Rightarrow> buf_heap \<Rightarrow> (Buffer \<times> buf_heap) option" where
  "add_msg_header (MsgRreq x) = pkt_AddHeader (RreqHeader_GetSerializedSize x) (RreqHeader_Serialize x)"
| "add_msg_header (MsgRrep x) = pkt_AddHeader (RrepHeader_GetSerializedSize x) (RrepHeader_Serialize x)"
| "add_msg_header (MsgRerr x) = pkt_AddHeader (RerrHeader_GetSerializedSize x) (RerrHeader_Serialize x)"
| "add_msg_header (MsgRrepAck x) = pkt_AddHeader (RrepAckHeader_GetSerializedSize x) (RrepAckHeader_Serialize x)"

definition make_packet :: "aodv_msg \<Rightarrow> Buffer \<Rightarrow> buf_heap \<Rightarrow> (Buffer \<times> buf_heap) option" where
  "make_packet msg b h =
     do { (b, h) \<leftarrow> add_msg_header msg b h;
          let tHeader = mk_TypeHeader (msg_type msg);
          pkt_AddHeader (TypeHeader_GetSerializedSize tHeader) (TypeHeader_Serialize tHeader) b h }"

text \<open>An unknown type gives no message. RecvReplyAck does not look at the header of the acknowledgement,
  which it leaves in the packet.\<close>

definition parse_packet :: "Buffer \<Rightarrow> buf_heap \<Rightarrow> (aodv_msg option \<times> Buffer) option" where
  "parse_packet b h =
     do { (tHeader, _, b) \<leftarrow> pkt_RemoveHeader TypeHeader_Deserialize (mk_TypeHeader AODVTYPE_RREQ) b h;
          if \<not> th_valid tHeader then Some (None, b)
          else case th_type tHeader of
            AODVTYPE_RREQ \<Rightarrow> do { (x, _, b) \<leftarrow> pkt_RemoveHeader RreqHeader_Deserialize (blank_rreq 0) b h; Some (Some (MsgRreq x), b) }
          | AODVTYPE_RREP \<Rightarrow> do { (x, _, b) \<leftarrow> pkt_RemoveHeader RrepHeader_Deserialize (mk_RrepHeader 0 0 0 0 0 0) b h; Some (Some (MsgRrep x), b) }
          | AODVTYPE_RERR \<Rightarrow> do { (x, _, b) \<leftarrow> pkt_RemoveHeader RerrHeader_Deserialize mk_RerrHeader b h; Some (Some (MsgRerr x), b) }
          | AODVTYPE_RREP_ACK \<Rightarrow> Some (Some (MsgRrepAck mk_RrepAckHeader), b) }"

text \<open>The messages the protocol sends: a route error lists its destinations in order, at most 255.\<close>

fun msg_ok :: "aodv_msg \<Rightarrow> bool" where
  "msg_ok (MsgRerr x) = rerr_valid x"
| "msg_ok (MsgRrepAck x) = (x = mk_RrepAckHeader)"
| "msg_ok _ = True"

fun unread :: "aodv_msg \<Rightarrow> u8 option list" where
  "unread (MsgRrepAck x) = [Some (ra_reserved x)]"
| "unread _ = []"

fun msg_wire :: "aodv_msg \<Rightarrow> u8 list" where
  "msg_wire (MsgRreq x) = rreq_wire x"
| "msg_wire (MsgRrep x) = rrep_wire x"
| "msg_wire (MsgRerr x) = rerr_wire x"
| "msg_wire (MsgRrepAck x) = [ra_reserved x]"

lemma add_msg_header_ok:
  assumes "buf_inv h (add_mset b B)" and "msg_ok msg"
  shows "\<exists>b1 h1. add_msg_header msg b h = Some (b1, h1) \<and> buf_inv h1 (add_mset b1 B) \<and>
    content h1 b1 = map Some (msg_wire msg) @ content h b \<and> (\<forall>c \<in># B. content h1 c = content h c)"
  using rreq.add_header [OF assms(1)] rrep.add_header [OF assms(1)] rerr.add_header [OF assms(1)] rack.add_header [OF assms(1)] assms(2)
  by (cases msg) simp_all

lemma make_packet_ok:
  assumes "buf_inv h (add_mset b B)" and "msg_ok msg"
  shows "\<exists>b1 h1. make_packet msg b h = Some (b1, h1) \<and> buf_inv h1 (add_mset b1 B) \<and>
    content h1 b1 = map Some (MessageType_code (msg_type msg) # msg_wire msg) @ content h b \<and> (\<forall>c \<in># B. content h1 c = content h c)"
proof -
  obtain b1 h1 where 1: "add_msg_header msg b h = Some (b1, h1)" "buf_inv h1 (add_mset b1 B)"
    "content h1 b1 = map Some (msg_wire msg) @ content h b" "\<forall>c \<in># B. content h1 c = content h c"
    using add_msg_header_ok [OF assms] by blast
  let ?t = "mk_TypeHeader (msg_type msg)"
  obtain b2 h2 where 2: "pkt_AddHeader (TypeHeader_GetSerializedSize ?t) (TypeHeader_Serialize ?t) b1 h1 = Some (b2, h2)"
    "buf_inv h2 (add_mset b2 B)" "content h2 b2 = map Some [MessageType_code (th_type ?t)] @ content h1 b1"
    "\<forall>c \<in># B. content h2 c = content h1 c"
    using mtype.add_header [OF 1(2), of ?t] by (auto simp: mk_TypeHeader_def)
  have "make_packet msg b h = Some (b2, h2)" using 1(1) 2(1) by (simp add: make_packet_def Let_def)
  then show ?thesis using 1(3,4) 2 by (simp add: mk_TypeHeader_def)
qed

lemma parse_packet_ok:
  assumes "buf_inv h (add_mset b B)" and "msg_ok msg"
    and "content h b = map Some (MessageType_code (msg_type msg) # msg_wire msg) @ rest"
  shows "\<exists>b1. parse_packet b h = Some (Some msg, b1) \<and> buf_inv h (add_mset b1 B) \<and> content h b1 = unread msg @ rest"
proof -
  let ?t = "mk_TypeHeader (msg_type msg)"
  obtain b1 where 1: "pkt_RemoveHeader TypeHeader_Deserialize (mk_TypeHeader AODVTYPE_RREQ) b h = Some (?t, TypeHeader_GetSerializedSize ?t, b1)"
    "buf_inv h (add_mset b1 B)" "content h b1 = map Some (msg_wire msg) @ rest"
    using mtype.remove_header [OF assms(1), of ?t "map Some (msg_wire msg) @ rest"] assms(3) by (auto simp: mk_TypeHeader_def)
  show ?thesis
  proof (cases msg)
    case (MsgRreq x)
    then show ?thesis using 1 rreq.remove_header [OF 1(2), of x rest "blank_rreq 0"] by (auto simp: parse_packet_def mk_TypeHeader_def)
  next
    case (MsgRrep x)
    then show ?thesis using 1 rrep.remove_header [OF 1(2), of x rest "mk_RrepHeader 0 0 0 0 0 0"] by (auto simp: parse_packet_def mk_TypeHeader_def)
  next
    case (MsgRerr x)
    then show ?thesis using 1 assms(2) rerr.remove_header [OF 1(2), of x rest mk_RerrHeader] by (auto simp: parse_packet_def mk_TypeHeader_def)
  next
    case (MsgRrepAck x)
    then show ?thesis using 1 assms(2) by (simp add: parse_packet_def mk_TypeHeader_def)
  qed
qed

text \<open>
  C30: A routing message survives its way through a packet. For every RREQ, every RREP, every RERR with at
  most 255 destinations and every RREP_ACK, and any payload in the buffer: adding the header of
  the message and the type header succeeds, the receiver removes them again and gets exactly the
  fields that were sent, what is left of the packet is the payload (after the reserved byte of an
  RREP_ACK, which the code does not remove), and no other buffer changes its content.
\<close>

theorem message_round_trip:
  assumes "buf_inv h (add_mset b B)" and "msg_ok msg"
  shows "\<exists>b1 h1 b2. make_packet msg b h = Some (b1, h1) \<and> parse_packet b1 h1 = Some (Some msg, b2) \<and>
    content h1 b2 = unread msg @ content h b \<and> (\<forall>c \<in># B. content h1 c = content h c)"
  using make_packet_ok [OF assms] parse_packet_ok [OF _ assms(2)] by blast

definition example_rerr :: aodv_msg where
  "example_rerr = MsgRerr \<lparr>re_flag = 1, re_reserved = 0, re_unreachable = [(0x0a000001, 7), (0x0a000002, 0xffffffff)]\<rparr>"

theorem message_round_trip_witness:
  "msg_ok example_rerr \<and>
   (\<exists>b1 h1 b2. make_packet example_rerr (fst two_zeros) (snd two_zeros) = Some (b1, h1) \<and> parse_packet b1 h1 = Some (Some example_rerr, b2) \<and>
      content h1 b2 = content (snd two_zeros) (fst two_zeros))"
proof -
  have ok: "msg_ok example_rerr" by (simp add: example_rerr_def rerr_valid_def)
  have "buf_inv (snd two_zeros) (add_mset (fst two_zeros) {#})" using two_zeros_inv by simp
  from message_round_trip [OF this ok] ok show ?thesis by (auto simp: example_rerr_def)
qed

end
