(* ===== verification/Aodv_Properties.thy ===== *)
theory Aodv_Properties
  imports Aodv_Search Aodv_Message
begin

text \<open>
  The main properties of the AODV routing protocol: the invariant of every reachable state, the
  end of every route discovery, and the routes that outgoing packets get. Aodv_Reactions continues with
  the messages that a node hears.
\<close>

section \<open>An example environment\<close>

text \<open>One interface, number 1, with device 11 and address 10.0.0.1/24; interface 0 is the loopback.\<close>

definition example_iface :: Ipv4InterfaceAddress where
  "example_iface = mk_Ipv4InterfaceAddress 0x0a000001 0xffffff00"

definition example_env :: "Time \<Rightarrow> environment" where
  "example_env now =
     \<lparr>env_now = now, GetInterfaceForAddress = (\<lambda>a. if a = 0x0a000001 then 1 else if a = GetLoopback then 0 else -1),
      GetInterfaceForDevice = (\<lambda>d. if d = 11 then 1 else if d = 10 then 0 else -1),
      GetNetDevice = (\<lambda>i. if i = 1 then 11 else 10),
      GetAddress = (\<lambda>i. if i = 1 then example_iface else mk_Ipv4InterfaceAddress GetLoopback 0xff000000),
      IsDestinationAddress = (\<lambda>a i. a = 0x0a000001), IsForwarding = (\<lambda>i. True), ArpLookup = (\<lambda>c a. None),
      GetNInterfaces = 1, IsUp = (\<lambda>i. True), GetNAddresses = (\<lambda>i. 1), GetArpCache = (\<lambda>i. 0), HasAdhocWifiMac = (\<lambda>i. False)\<rparr>"

lemma env_now_example [simp]: "env_now (example_env now) = now"
  by (simp add: example_env_def)

text \<open>A node with that interface, without routes.\<close>

definition example_node :: RoutingProtocol where
  "example_node = (mk_RoutingProtocol (\<lambda>_. 3))\<lparr>m_ipv4 := 5, m_lo := 10, m_socketAddresses := [(100, example_iface)],
     m_socketSubnetBroadcastAddresses := [(101, example_iface)]\<rparr>"

section \<open>Reachable states\<close>

text \<open>
  C14: In every state that a node reaches from the state of the constructor, by any sequence of
  packets, timers and changes of interfaces at times that do not go back: the routing table is
  ordered by destination, holds every entry under its destination, with no precursor twice, and counts
  route requests only for a search; sockets and request timers are ordered; no neighbour is
  listed twice; the queue of waiting packets is within its limit, sorted by expiry and without a
  packet twice; and the numbers of requests and errors since the last tick of their timers do not
  exceed their limits.
\<close>

theorem reachable_well_formed:
  assumes "aodv_reachable now s"
  shows "aodv_inv now s"
  by (rule reachable_inv [OF assms])

definition example_run :: "(Time \<times> aodv_event) list" where
  "example_run = [(0, EvSetIpv4 5), (0, EvStart), (0, EvInitialize), (0, EvInterfaceUp 1 100 101), (7, EvHelloTimer), (9, EvSendRequest 0x0a000003)]"

fun run_events :: "(Time \<times> aodv_event) list \<Rightarrow> RoutingProtocol \<Rightarrow> RoutingProtocol option" where
  "run_events [] s = Some s"
| "run_events ((t, ev) # evs) s = do { s \<leftarrow> aodv_exec (example_env t) ev s; run_events evs s }"

lemma run_reachable:
  "aodv_reachable now s \<Longrightarrow> sorted (now # map fst evs) \<Longrightarrow> run_events evs s = Some s' \<Longrightarrow> aodv_reachable (last (now # map fst evs)) s'"
proof (induction evs arbitrary: now s)
  case (Cons x evs)
  obtain t ev where x: "x = (t, ev)" by (cases x)
  then obtain s1 where s1: "aodv_exec (example_env t) ev s = Some s1" "run_events evs s1 = Some s'"
    using Cons.prems(3) by (auto simp: bind_eq_Some_conv)
  then have "aodv_reachable t s1"
    using aodv_reachable.event [OF Cons.prems(1), of "example_env t" ev s1] Cons.prems(2) x by simp
  then show ?case using Cons.IH [of t s1] Cons.prems(2) s1(2) x by auto
qed simp

lemma example_run_result:
  "\<exists>s. run_events example_run (mk_RoutingProtocol (\<lambda>_. 3)) = Some s \<and> length (m_out s) = 3 \<and> length (m_ipv4AddressEntry (m_routingTable s)) = 3"
proof -
  have "map_option (\<lambda>s. (length (m_out s), length (m_ipv4AddressEntry (m_routingTable s)))) (run_events example_run (mk_RoutingProtocol (\<lambda>_. 3))) = Some (3, 3)"
    by code_simp
  then show ?thesis by auto
qed

theorem reachable_well_formed_witness:
  "\<exists>s. aodv_reachable 9 s \<and> aodv_inv 9 s \<and> length (m_out s) = 3 \<and> length (m_ipv4AddressEntry (m_routingTable s)) = 3"
proof -
  obtain s where s: "run_events example_run (mk_RoutingProtocol (\<lambda>_. 3)) = Some s" "length (m_out s) = 3"
    "length (m_ipv4AddressEntry (m_routingTable s)) = 3"
    using example_run_result by blast
  have "aodv_reachable 9 s" using run_reachable [OF aodv_reachable.init _ s(1)] by (simp add: example_run_def)
  then show ?thesis using reachable_well_formed s by blast
qed

section \<open>Route discovery\<close>

text \<open>The entry of a search that starts.\<close>

definition first_entry :: "environment \<Rightarrow> Ipv4Address \<Rightarrow> RoutingProtocol \<Rightarrow> RoutingTableEntry" where
  "first_entry e dst s =
     (let rt = mk_RoutingTableEntry (env_now e) nullptr dst False 0 Ipv4InterfaceAddress_default (m_ttlStart s) Ipv4Address_default (m_pathDiscoveryTime s)
      in (if unat (m_ttlStart s) = unat (m_netDiameter s) then IncrementRreqCnt rt else rt)\<lparr>rt_flag := IN_SEARCH\<rparr>)"

lemma first_entry_simps [simp]:
  "GetDestination (first_entry e dst s) = dst" "rt_flag (first_entry e dst s) = IN_SEARCH" "rt_hops (first_entry e dst s) = m_ttlStart s"
  "rt_precursorList (first_entry e dst s) = []"
  "rt_reqCount (first_entry e dst s) = (if unat (m_ttlStart s) = unat (m_netDiameter s) then 1 else 0)"
  by (simp_all add: first_entry_def Let_def mk_RoutingTableEntry_def IncrementRreqCnt_def)

lemma search_unknown_state: "snd (snd (search_unknown e dst hdr s)) = do_add e (first_entry e dst s) s"
  by (simp add: search_unknown_def first_entry_def Let_def)

lemma SendRequest_unknown:
  assumes t: "table_ok (m_routingTable s)" and n: "m_rreqCount s \<noteq> m_rreqRateLimit s"
    and v: "visible (env_now e) (m_routingTable s) dst = None" and h: "unat (m_ttlStart s) \<le> unat (m_netDiameter s)"
    and r: "0 < unat (m_rreqRetries s)"
  shows "\<exists>s'. SendRequest e dst s = Some s' \<and> table_ok (m_routingTable s') \<and> search_config s' = search_config s \<and>
    searching dst (unat (m_ttlStart s)) (if unat (m_ttlStart s) = unat (m_netDiameter s) then 1 else 0) s'"
proof -
  let ?s1 = "s\<lparr>m_rreqCount := m_rreqCount s + 1, m_routingTable := rt_Purge (env_now e) (m_routingTable s)\<rparr>"
  have l: "do_lookup e dst (fresh_entry e) (s\<lparr>m_rreqCount := m_rreqCount s + 1\<rparr>) = (False, fresh_entry e, ?s1)"
    using t v by (simp add: do_lookup_def LookupRoute_eq)
  let ?rt = "first_entry e dst s"
  have f: "first_entry e dst ?s1 = ?rt" by (simp add: first_entry_def)
  let ?s2 = "do_add e ?rt ?s1"
  obtain hdr ttl where k: "search_unknown e dst (blank_rreq dst) ?s1 = (hdr, ttl, ?s2)"
    using search_unknown_state [of e dst "blank_rreq dst" ?s1] f by (metis prod.collapse)
  have u: "table_ok (m_routingTable ?s2)" "entries (m_routingTable ?s2) dst = Some ?rt" "search_config ?s2 = search_config s"
    using t v by (simp_all add: do_add_def AddRoute_entries clear_count_def)
  have c: "can_retry ?rt s" using h by (auto simp: can_retry_def)
  then have "can_retry ?rt ?s2" using can_retry_config [OF u(3)] by simp
  then obtain s' where s': "SendRequest e dst s = Some s'" "table_ok (m_routingTable s')" "entries (m_routingTable s') dst = Some ?rt"
    "search_config s' = search_config s"
    using launch_searching [OF u(1,2), of e hdr ttl] u(3) by (auto simp: SendRequest_def n l k)
  have "searching dst (unat (m_ttlStart s)) (if unat (m_ttlStart s) = unat (m_netDiameter s) then 1 else 0) s'"
    using s'(3) h r config_eqD [OF s'(4)] by (auto simp: searching_def)
  then show ?thesis using s' by blast
qed

text \<open>
  C13: Every route discovery ends. Let a node start the search of a destination that is not in its
  table, with sound parameters (the ring grows, the start and the threshold of the ring are within the
  diameter, which together with the increment fits 16 bits, between 1 and 31 retries, and a positive
  rate limit), and let no reply come. Then the request is sent, every expiration of the request timer
  succeeds, and after at most NetDiameter + RreqRetries + 1 of them the node has given up: the entry
  and the timer of the destination are gone and no packet for it waits in the queue.
\<close>

theorem route_discovery_ends:
  assumes "table_ok (m_routingTable s)" and "config_ok s" and "m_rreqCount s \<noteq> m_rreqRateLimit s"
    and "visible (env_now e) (m_routingTable s) dst = None" and "unat (m_ttlStart s) \<le> unat (m_netDiameter s)"
    and "0 < unat (m_rreqRetries s)" and "unat (m_netDiameter s) + unat (m_rreqRetries s) < length es"
  shows "\<exists>s1 s2. SendRequest e dst s = Some s1 \<and> (\<exists>h n. searching dst h n s1) \<and> search_rounds es dst s1 = Some s2 \<and> search_over dst s2"
proof -
  let ?h = "unat (m_ttlStart s)" and ?n = "if unat (m_ttlStart s) = unat (m_netDiameter s) then 1 else 0 :: nat"
  obtain s1 where s1: "SendRequest e dst s = Some s1" "table_ok (m_routingTable s1)" "search_config s1 = search_config s" "searching dst ?h ?n s1"
    using SendRequest_unknown [OF assms(1,3,4,5,6)] by blast
  have "search_left ?h ?n s1 < length es" using assms(7) config_eqD [OF s1(3)] by (simp add: search_left_def)
  then obtain s2 where "search_rounds es dst s1 = Some s2" "search_over dst s2"
    using rounds_end [OF s1(2) _ s1(4)] searching_config [OF s1(3)] assms(2) by blast
  then show ?thesis using s1 by blast
qed

theorem route_discovery_ends_witness:
  "\<exists>s1 s2. SendRequest (example_env 5) 0x0a000003 example_node = Some s1 \<and>
     search_rounds (replicate 38 (example_env 6)) 0x0a000003 s1 = Some s2 \<and> search_over 0x0a000003 s2"
proof -
  have s: "m_routingTable example_node = \<lparr>m_ipv4AddressEntry = [], m_badLinkLifetime = 5 * max (Seconds 3) (Seconds 1)\<rparr>"
    "m_rreqCount example_node = 0" "m_rreqRateLimit example_node = 10" "m_ttlStart example_node = 1" "m_netDiameter example_node = 35"
    "m_rreqRetries example_node = 2" "m_ttlIncrement example_node = 2" "m_ttlThreshold example_node = 7"
    by (simp_all add: example_node_def mk_RoutingProtocol_def Let_def)
  then have "table_ok (m_routingTable example_node)" "config_ok example_node"
    "visible (env_now (example_env 5)) (m_routingTable example_node) 0x0a000003 = None"
    by (simp_all add: table_ok_def config_ok_def visible_def entries_def Seconds_def)
  then show ?thesis
    using route_discovery_ends [of example_node "example_env 5" "0x0a000003" "replicate 38 (example_env 6)"] s by auto
qed

section \<open>Routes of outgoing packets\<close>

text \<open>What UpdateRouteLifeTime makes of an entry.\<close>

definition extended :: "environment \<Rightarrow> Time \<Rightarrow> RoutingTableEntry \<Rightarrow> RoutingTableEntry" where
  "extended e lt rt = rt\<lparr>rt_reqCount := 0, rt_lifeTime := max lt (rt_lifeTime rt - env_now e) + env_now e\<rparr>"

lemma UpdateRouteLifeTime_visible:
  assumes t: "table_ok (m_routingTable s)"
  shows "table_ok (m_routingTable (snd (UpdateRouteLifeTime e ad lt s)))"
    and "visible (env_now e) (m_routingTable (snd (UpdateRouteLifeTime e ad lt s))) k =
      map_option (\<lambda>rt. if k = ad \<and> rt_flag rt = VALID then extended e lt rt else rt) (visible (env_now e) (m_routingTable s) k)"
proof -
  let ?now = "env_now e" and ?t = "m_routingTable s" and ?s' = "snd (UpdateRouteLifeTime e ad lt s)"
  consider (none) "\<not> (\<exists>rt. visible ?now ?t ad = Some rt \<and> rt_flag rt = VALID)" | (some) rt where "visible ?now ?t ad = Some rt" "rt_flag rt = VALID"
    by blast
  then have "table_ok (m_routingTable ?s') \<and> visible ?now (m_routingTable ?s') k =
      map_option (\<lambda>rt. if k = ad \<and> rt_flag rt = VALID then extended e lt rt else rt) (visible ?now ?t k)"
  proof cases
    case none
    then have "m_routingTable ?s' = rt_Purge ?now ?t"
      using t by (auto simp: UpdateRouteLifeTime_def do_lookup_def LookupRoute_eq split: option.splits)
    then show ?thesis using none t by (cases "visible ?now ?t k") auto
  next
    case (some rt)
    let ?x = "extended e lt rt"
    have m: "m_routingTable ?s' = snd (rt_Update ?x (rt_Purge ?now ?t))"
      using t some by (simp add: UpdateRouteLifeTime_def do_lookup_def LookupRoute_eq do_update_def extended_def rt_SetLifeTime_def rt_GetLifeTime_def)
    have x: "GetDestination ?x = ad" "distinct (rt_precursorList ?x)" "clear_count ?x = ?x" "rt_flag ?x = VALID"
      using visible_ok [OF t some(1)] some(2) by (simp_all add: extended_def entry_ok_def clear_count_def)
    have e: "entries (m_routingTable ?s') = (visible ?now ?t)(ad \<mapsto> ?x)" "m_badLinkLifetime (m_routingTable ?s') = m_badLinkLifetime ?t"
      using t some(1) x unfolding m by (simp_all add: Update_entries)
    have "?now \<le> rt_lifeTime rt" by (rule visible_valid [OF some])
    then have p: "purge_entry ?now bl ?x = Some ?x" for bl
      by (simp add: purge_entry_def rt_GetLifeTime_def extended_def max_def)
    have i: "Option.bind (visible ?now ?t k) (purge_entry ?now (m_badLinkLifetime ?t)) = visible ?now ?t k"
      using visible_Purge [OF t, of ?now] t by (metis visible_def entries_Purge badLink_Purge)
    have "table_ok (m_routingTable ?s')" using t x(2) unfolding m by simp
    moreover have "visible ?now (m_routingTable ?s') k = (if k = ad then Some ?x else visible ?now ?t k)"
      using i p by (simp add: visible_def [of ?now "m_routingTable ?s'"] e)
    ultimately show ?thesis using some by (cases "visible ?now ?t k") auto
  qed
  then show "table_ok (m_routingTable ?s')" "visible ?now (m_routingTable ?s') k =
      map_option (\<lambda>rt. if k = ad \<and> rt_flag rt = VALID then extended e lt rt else rt) (visible ?now ?t k)" by auto
qed

lemma extended_simps [simp]: "rt_flag (extended e lt rt) = rt_flag rt" "rt_route (extended e lt rt) = rt_route rt"
  "env_now e + lt \<le> rt_lifeTime (extended e lt rt)"
  by (simp_all add: extended_def)

lemma UpdateRouteLifeTime_timeout [simp]: "m_activeRouteTimeout (snd (UpdateRouteLifeTime e ad lt s)) = m_activeRouteTimeout s"
  by (auto simp: UpdateRouteLifeTime_def do_lookup_def do_update_def split: prod.splits)

text \<open>After a valid route has been touched, and possibly the route to its gateway too, it is still there, with its lifetime extended.\<close>

lemma touch_twice:
  assumes t: "table_ok (m_routingTable s)" and v: "visible (env_now e) (m_routingTable s) dst = Some rt" "rt_flag rt = VALID"
  shows "\<exists>rt'. visible (env_now e) (m_routingTable (touch e gw (touch e dst s))) dst = Some rt' \<and> rt_flag rt' = VALID \<and>
    rt_route rt' = rt_route rt \<and> env_now e + m_activeRouteTimeout s \<le> rt_lifeTime rt'"
  using UpdateRouteLifeTime_visible(2) [OF UpdateRouteLifeTime_visible(1) [OF t, of e dst "m_activeRouteTimeout s"], of e gw "m_activeRouteTimeout s" dst]
    UpdateRouteLifeTime_visible(2) [OF t, of e dst "m_activeRouteTimeout s" dst] v
  by auto

lemma lookup_valid_eq:
  assumes "table_ok (m_routingTable s)"
  shows "do_lookup_valid e k (fresh_entry e) s =
    (case visible (env_now e) (m_routingTable s) k of
       None \<Rightarrow> (False, fresh_entry e, s\<lparr>m_routingTable := rt_Purge (env_now e) (m_routingTable s)\<rparr>)
     | Some rt \<Rightarrow> (rt_flag rt = VALID, rt, s\<lparr>m_routingTable := rt_Purge (env_now e) (m_routingTable s)\<rparr>))"
  using assms by (simp add: do_lookup_valid_def LookupValidRoute_eq split: option.splits)

lemma LoopbackRoute_table [simp]: "LoopbackRoute e hdr oif (s\<lparr>m_routingTable := t\<rparr>) = LoopbackRoute e hdr oif s"
  by (simp add: LoopbackRoute_def cong: if_cong)

lemma LoopbackRoute_Some: "LoopbackRoute e hdr oif s = Some route \<Longrightarrow> r_gateway route = GetLoopback \<and> r_outputDevice route = m_lo s"
  by (auto simp: LoopbackRoute_def bind_eq_Some_conv split: if_splits)

lemma RouteOutput_valid:
  assumes t: "table_ok (m_routingTable s)" and m: "m_socketAddresses s \<noteq> []"
    and v: "visible (env_now e) (m_routingTable s) (ih_destination hdr) = Some rt" "rt_flag rt = VALID"
    and d: "oif = nullptr \<or> GetOutputDevice rt = oif"
  shows "\<exists>s' rt'. RouteOutput e (Some p) hdr oif err s = Some (Some (rt_route rt), ERROR_NOTERROR, Some p, s') \<and>
    visible (env_now e) (m_routingTable s') (ih_destination hdr) = Some rt' \<and> rt_flag rt' = VALID \<and> rt_route rt' = rt_route rt \<and>
    env_now e + m_activeRouteTimeout s \<le> rt_lifeTime rt'"
proof -
  let ?s1 = "s\<lparr>m_routingTable := rt_Purge (env_now e) (m_routingTable s)\<rparr>"
  have "RouteOutput e (Some p) hdr oif err s =
      Some (Some (rt_route rt), ERROR_NOTERROR, Some p, touch e (GetNextHop rt) (touch e (ih_destination hdr) ?s1))"
    using t m v d by (auto simp: RouteOutput_def Let_def lookup_valid_eq)
  then show ?thesis using touch_twice [of ?s1 e "ih_destination hdr" rt "GetNextHop rt"] t v by simp
qed

text \<open>
  C34: RouteOutput gives a packet the route it should have. With a well-formed routing table and
  at least one interface: when the table holds a valid entry for the destination that has not expired
  (and whose device is the requested one, if one is requested), the result is exactly its route, without an
  error, and the lifetime of the entry is then at least the current time plus ActiveRouteTimeout; when
  the device is another one, there is no route and the error is NOROUTETOHOST; and without such
  an entry the packet gets the loopback route and the tag that defers it, unless no source address is found.
\<close>

theorem RouteOutput_routes:
  assumes "table_ok (m_routingTable s)" and "m_socketAddresses s \<noteq> []"
  shows "(\<forall>rt. visible (env_now e) (m_routingTable s) (ih_destination hdr) = Some rt \<and> rt_flag rt = VALID \<longrightarrow>
        env_now e \<le> rt_lifeTime rt \<and> GetDestination rt = ih_destination hdr \<and>
        (if oif = nullptr \<or> GetOutputDevice rt = oif
         then \<exists>s' rt'. RouteOutput e (Some p) hdr oif err s = Some (Some (rt_route rt), ERROR_NOTERROR, Some p, s') \<and>
           visible (env_now e) (m_routingTable s') (ih_destination hdr) = Some rt' \<and> rt_flag rt' = VALID \<and> rt_route rt' = rt_route rt \<and>
           env_now e + m_activeRouteTimeout s \<le> rt_lifeTime rt'
         else \<exists>s'. RouteOutput e (Some p) hdr oif err s = Some (None, ERROR_NOROUTETOHOST, Some p, s'))) \<and>
    ((\<forall>rt. visible (env_now e) (m_routingTable s) (ih_destination hdr) = Some rt \<longrightarrow> rt_flag rt \<noteq> VALID) \<longrightarrow>
      (\<forall>route. LoopbackRoute e hdr oif s = Some route \<longrightarrow>
        (\<exists>p' s'. RouteOutput e (Some p) hdr oif err s = Some (Some route, ERROR_NOTERROR, Some p', s') \<and> pk_deferred p' \<noteq> None \<and>
          r_gateway route = GetLoopback \<and> r_outputDevice route = m_lo s)))"
proof -
  have "\<exists>s'. RouteOutput e (Some p) hdr oif err s = Some (None, ERROR_NOROUTETOHOST, Some p, s')"
    if "visible (env_now e) (m_routingTable s) (ih_destination hdr) = Some rt" "rt_flag rt = VALID" "\<not> (oif = nullptr \<or> GetOutputDevice rt = oif)" for rt
    using that assms by (simp add: RouteOutput_def Let_def lookup_valid_eq)
  moreover have "\<exists>p' s'. RouteOutput e (Some p) hdr oif err s = Some (Some route, ERROR_NOTERROR, Some p', s') \<and> pk_deferred p' \<noteq> None \<and>
      r_gateway route = GetLoopback \<and> r_outputDevice route = m_lo s"
    if "\<forall>rt. visible (env_now e) (m_routingTable s) (ih_destination hdr) = Some rt \<longrightarrow> rt_flag rt \<noteq> VALID" "LoopbackRoute e hdr oif s = Some route" for route
    using that assms LoopbackRoute_Some [OF that(2)] by (auto simp: RouteOutput_def Let_def lookup_valid_eq split: option.split)
  ultimately show ?thesis
    using RouteOutput_valid [OF assms] visible_valid visible_ok [OF assms(1)] by auto
qed

definition example_route :: RoutingTableEntry where
  "example_route = mk_RoutingTableEntry 0 11 0x0a000003 True 40 example_iface 2 0x0a000002 (Seconds 2)"

definition example_routed :: RoutingProtocol where
  "example_routed = do_add (example_env 0) example_route example_node"

lemma example_routed_ok: "table_ok (m_routingTable example_routed)" "m_socketAddresses example_routed \<noteq> []"
  "visible 5 (m_routingTable example_routed) 0x0a000003 = Some example_route"
proof -
  have t: "table_ok (m_routingTable example_node)" "entries (m_routingTable example_node) = Map.empty"
    by (simp_all add: example_node_def mk_RoutingProtocol_def Let_def table_ok_def Seconds_def entries_def [abs_def] fun_eq_iff)
  have r: "rt_precursorList example_route = []" "GetDestination example_route = 0x0a000003" "clear_count example_route = example_route"
    "purge_entry 5 bl example_route = Some example_route" for bl
    by (simp_all add: example_route_def mk_RoutingTableEntry_def clear_count_def purge_entry_def rt_GetLifeTime_def Seconds_def)
  show "table_ok (m_routingTable example_routed)" using t r by (simp add: example_routed_def do_add_def)
  show "m_socketAddresses example_routed \<noteq> []" by (simp add: example_routed_def do_add_def example_node_def)
  have "entries (m_routingTable example_routed) 0x0a000003 = Some example_route"
    using t r by (simp add: example_routed_def do_add_def AddRoute_entries visible_def)
  then show "visible 5 (m_routingTable example_routed) 0x0a000003 = Some example_route" using r by (simp add: visible_def)
qed

theorem RouteOutput_routes_witness:
  "\<exists>s'. RouteOutput (example_env 5) (Some \<lparr>pk_uid = 1, pk_deferred = None, pk_udpPort = 9\<rparr>)
      \<lparr>ih_source = 0x0a000001, ih_destination = 0x0a000003, ih_ttl = 64, ih_protocol = 17\<rparr> 11 ERROR_BADF example_routed =
     Some (Some (rt_route example_route), ERROR_NOTERROR, Some \<lparr>pk_uid = 1, pk_deferred = None, pk_udpPort = 9\<rparr>, s')"
  using RouteOutput_routes [OF example_routed_ok(1,2), of "example_env 5" "\<lparr>ih_source = 0x0a000001, ih_destination = 0x0a000003, ih_ttl = 64, ih_protocol = 17\<rparr>"
      11 "\<lparr>pk_uid = 1, pk_deferred = None, pk_udpPort = 9\<rparr>" ERROR_BADF] example_routed_ok(3)
  by (auto simp: example_route_def mk_RoutingTableEntry_def)

end
