(* ===== verification/Aodv_Reactions.thy ===== *)
theory Aodv_Reactions
  imports Aodv_Properties
begin

text \<open>
  How an AODV node reacts to what it hears: its own requests are dropped, a route error and a broken
  link invalidate exactly the routes they concern, and a reply with an old sequence number is accepted
  while the destination is searched.
\<close>

section \<open>Own requests\<close>

text \<open>What the broadcast of a request does to the id cache and to the list of actions.\<close>

definition remember_all :: "Time \<Rightarrow> u32 \<Rightarrow> (addr, Ipv4InterfaceAddress) omap \<Rightarrow> IdCache \<Rightarrow> IdCache" where
  "remember_all now i m c = fold (\<lambda>(_, iface) c. snd (ic_check now (ifa_local iface, i) c)) m c"

lemma remember_all_keeps:
  "now \<le> later \<Longrightarrow> ic_remembers later k c \<Longrightarrow> ic_remembers later k (remember_all now i m c)"
  by (induction m arbitrary: c) (auto simp: remember_all_def intro: idc.check_keeps)

lemma remember_all_adds:
  assumes "(socket, iface) \<in> set m" and "now \<le> later" and "later \<le> now + ic_lifetime c"
    and "\<not> ic_remembers now (ifa_local iface, i) c"
  shows "ic_remembers later (ifa_local iface, i) (remember_all now i m c)"
  using assms
proof (induction m arbitrary: c)
  case (Cons x m)
  obtain so f where x: "x = (so, f)" by (cases x)
  let ?c = "snd (ic_check now (ifa_local f, i) c)"
  have r: "remember_all now i (x # m) c = remember_all now i m ?c" by (simp add: remember_all_def x)
  show ?case
  proof (cases "ifa_local f = ifa_local iface")
    case True
    then have "ic_remembers later (ifa_local iface, i) ?c" using idc.check_adds Cons.prems by simp
    then show ?thesis using r remember_all_keeps Cons.prems(2) by simp
  next
    case False
    have "\<not> ic_remembers now (ifa_local iface, i) ?c"
      using Cons.prems(4) False by (auto simp: ic_remembers_def ic_check_def ic_IsDuplicate_def ic_Purge_def Let_def split: if_splits)
    then show ?thesis using r Cons.IH [of ?c] Cons.prems False x idc.check_window [of now "(ifa_local f, i)" c] by auto
  qed
qed simp

lemma broadcast_rreq_cache [simp]:
  "m_rreqIdCache (broadcast_rreq e hdr ttl m s) = remember_all (env_now e) (m_requestId s) m (m_rreqIdCache s)"
  "m_requestId (broadcast_rreq e hdr ttl m s) = m_requestId s"
  by (induction e hdr ttl m s rule: broadcast_rreq.induct)
     (simp_all add: Let_def schedule_send_def jitter_def emit_def remember_all_def ic_check_def)

text \<open>A request is broadcast once per interface, with the address of the interface as its origin.\<close>

definition rreq_of :: "RreqHeader \<Rightarrow> action \<Rightarrow> (addr, Ipv4InterfaceAddress) omap \<Rightarrow> bool" where
  "rreq_of hdr a m \<longleftrightarrow>
     (\<exists>t socket iface ttl. (socket, iface) \<in> set m \<and> a = ScheduleSendTo t socket (MsgRreq (hdr\<lparr>rq_origin := ifa_local iface\<rparr>)) ttl (broadcast_of iface))"

lemma broadcast_rreq_out:
  "\<exists>out. m_out (broadcast_rreq e hdr ttl m s) = m_out s @ out \<and> (\<forall>a \<in> set out. rreq_of hdr a m)"
proof (induction e hdr ttl m s rule: broadcast_rreq.induct)
  case (2 e hdr ttl socket iface m s)
  let ?s = "schedule_send socket (MsgRreq (hdr\<lparr>rq_origin := ifa_local iface\<rparr>)) ttl (broadcast_of iface)
    (s\<lparr>m_rreqIdCache := snd (ic_IsDuplicate (env_now e) (ifa_local iface) (m_requestId s) (m_rreqIdCache s)), m_lastBcastTime := env_now e\<rparr>)"
  obtain out where out: "m_out (broadcast_rreq e (hdr\<lparr>rq_origin := ifa_local iface\<rparr>) ttl m ?s) = m_out ?s @ out"
    "\<forall>a \<in> set out. rreq_of (hdr\<lparr>rq_origin := ifa_local iface\<rparr>) a m"
    using 2 [OF refl refl refl refl] by auto
  have "\<exists>a. m_out ?s = m_out s @ [a] \<and> rreq_of hdr a ((socket, iface) # m)"
    by (auto simp: schedule_send_def jitter_def emit_def rreq_of_def)
  then obtain a where a: "m_out ?s = m_out s @ [a]" "rreq_of hdr a ((socket, iface) # m)" by blast
  have "rreq_of hdr b ((socket, iface) # m)" if "b \<in> set out" for b using out(2) that by (fastforce simp: rreq_of_def)
  then show ?case using out(1) a by (intro exI [of _ "a # out"]) (simp add: Let_def)
qed simp

lemma ScheduleRreqRetry_frame:
  "ScheduleRreqRetry e dst s = Some s' \<Longrightarrow> m_rreqIdCache s' = m_rreqIdCache s \<and> m_requestId s' = m_requestId s \<and> m_out s' = m_out s"
  by (auto simp: ScheduleRreqRetry_def do_lookup_def bind_eq_Some_conv split: prod.splits)

lemma do_lookup_frame:
  "do_lookup e i rt s = (ok, rt', s') \<Longrightarrow> s' = s\<lparr>m_routingTable := rt_Purge (env_now e) (m_routingTable s)\<rparr>"
  by (auto simp: do_lookup_def LookupRoute_def Let_def split: prod.splits option.splits)

lemma search_frame:
  "\<exists>t. snd (snd (search_known e rt hdr s)) = s\<lparr>m_routingTable := t\<rparr>"
  "\<exists>t. snd (snd (search_unknown e dst hdr s)) = s\<lparr>m_routingTable := t\<rparr>"
  by (auto simp: search_known_def search_unknown_def do_update_def do_add_def Let_def)

lemma SendRequest_sends:
  assumes "SendRequest e dst s = Some s1" and "m_rreqCount s \<noteq> m_rreqRateLimit s"
  shows "m_requestId s1 = m_requestId s + 1 \<and>
    m_rreqIdCache s1 = remember_all (env_now e) (m_requestId s + 1) (m_socketAddresses s) (m_rreqIdCache s) \<and>
    (\<exists>out hdr. m_out s1 = m_out s @ out \<and> rq_requestID hdr = m_requestId s1 \<and> (\<forall>a \<in> set out. rreq_of hdr a (m_socketAddresses s)))"
proof -
  obtain ok rt s0 where l: "do_lookup e dst (fresh_entry e) (s\<lparr>m_rreqCount := m_rreqCount s + 1\<rparr>) = (ok, rt, s0)" by (metis prod_cases3)
  let ?k = "if ok then search_known e rt (blank_rreq dst) s0 else search_unknown e dst (blank_rreq dst) s0"
  obtain hdr ttl s2 where k: "?k = (hdr, ttl, s2)" by (metis prod_cases3)
  obtain t0 where "s0 = s\<lparr>m_rreqCount := m_rreqCount s + 1, m_routingTable := t0\<rparr>" using do_lookup_frame [OF l] by auto
  moreover have "\<exists>t. snd (snd ?k) = s0\<lparr>m_routingTable := t\<rparr>" by (simp add: search_frame)
  ultimately obtain t where s2: "s2 = s\<lparr>m_rreqCount := m_rreqCount s + 1, m_routingTable := t\<rparr>" using k by auto
  have "launch_rreq e dst hdr ttl s2 = Some s1" using assms l k by (simp add: SendRequest_def)
  then obtain hdr' where h: "ScheduleRreqRetry e dst (broadcast_rreq e hdr' (ucast ttl) (m_socketAddresses s)
      (s2\<lparr>m_seqNo := m_seqNo s + 1, m_requestId := m_requestId s + 1\<rparr>)) = Some s1" "rq_requestID hdr' = m_requestId s + 1"
    by (simp add: launch_rreq_def Let_def s2)
  obtain out where "m_out (broadcast_rreq e hdr' (ucast ttl) (m_socketAddresses s) (s2\<lparr>m_seqNo := m_seqNo s + 1, m_requestId := m_requestId s + 1\<rparr>)) = m_out s @ out"
    "\<forall>a \<in> set out. rreq_of hdr' a (m_socketAddresses s)"
    using broadcast_rreq_out [of e hdr' "ucast ttl" "m_socketAddresses s" "s2\<lparr>m_seqNo := m_seqNo s + 1, m_requestId := m_requestId s + 1\<rparr>"] s2 by auto
  then show ?thesis using ScheduleRreqRetry_frame [OF h(1)] h(2) s2 by auto
qed

lemma RecvRequest_duplicate:
  assumes "ic_remembers (env_now e) (rq_origin hdr, rq_requestID hdr) (m_rreqIdCache s)"
  shows "\<exists>c. RecvRequest e hdr ttl receiver src s = Some (s\<lparr>m_routingTable := rt_Purge (env_now e) (m_routingTable s), m_rreqIdCache := c\<rparr>)"
proof -
  let ?t = "rt_Purge (env_now e) (m_routingTable s)"
  obtain ok rt s0 where l: "do_lookup e src (fresh_entry e) s = (ok, rt, s0)" by (metis prod_cases3)
  have s0: "s0 = s\<lparr>m_routingTable := ?t\<rparr>" by (rule do_lookup_frame [OF l])
  obtain dup c where c: "ic_IsDuplicate (env_now e) (rq_origin hdr) (rq_requestID hdr) (m_rreqIdCache s) = (dup, c)" by (metis surj_pair)
  have "dup" using idc.check_iff [of "env_now e" "(rq_origin hdr, rq_requestID hdr)" "m_rreqIdCache s"] assms c by (simp add: ic_check_def)
  then have "RecvRequest e hdr ttl receiver src s =
      Some (if ok \<and> rt_blackListState rt then s0 else s\<lparr>m_routingTable := ?t, m_rreqIdCache := c\<rparr>)"
    using l c s0 by (simp add: RecvRequest_def)
  moreover have "s0 = s\<lparr>m_routingTable := ?t, m_rreqIdCache := m_rreqIdCache s\<rparr>" using s0 by simp
  ultimately show ?thesis by metis
qed

text \<open>
  A node ignores its own route requests. When a request is sent, its origin and its number are new to
  the id cache, and it comes back, from whomever and with whatever other fields, within the
  lifetime of the cache, then it is dropped: the only change is that expired routes and expired cache entries
  are removed, and nothing is sent.
\<close>

theorem own_request_ignored:
  assumes "SendRequest e dst s = Some s1" and "m_rreqCount s \<noteq> m_rreqRateLimit s"
    and "m_out s1 = m_out s @ out" and "ScheduleSendTo t socket (MsgRreq sent) ttl to \<in> set out"
    and "\<not> ic_remembers (env_now e) (rq_origin sent, rq_requestID sent) (m_rreqIdCache s)"
    and "env_now e \<le> env_now later" and "env_now later \<le> env_now e + ic_lifetime (m_rreqIdCache s)"
    and "rq_origin hdr = rq_origin sent" and "rq_requestID hdr = rq_requestID sent"
  shows "\<exists>c. RecvRequest later hdr tagTtl receiver src s1 =
    Some (s1\<lparr>m_routingTable := rt_Purge (env_now later) (m_routingTable s1), m_rreqIdCache := c\<rparr>)"
proof -
  obtain h where h: "rq_requestID h = m_requestId s + 1" "\<forall>a \<in> set out. rreq_of h a (m_socketAddresses s)"
    "m_rreqIdCache s1 = remember_all (env_now e) (m_requestId s + 1) (m_socketAddresses s) (m_rreqIdCache s)"
    using SendRequest_sends [OF assms(1,2)] assms(3) by auto
  then obtain iface where i: "(socket, iface) \<in> set (m_socketAddresses s)" "sent = h\<lparr>rq_origin := ifa_local iface\<rparr>"
    using assms(4) unfolding rreq_of_def by blast
  have "ic_remembers (env_now later) (rq_origin hdr, rq_requestID hdr) (m_rreqIdCache s1)"
    using remember_all_adds [OF i(1) assms(6,7)] assms(5,8,9) h(1,3) i(2) by simp
  then show ?thesis by (rule RecvRequest_duplicate)
qed

definition sent_rreq :: RreqHeader where
  "sent_rreq = (SetGratuitousRrep True (SetUnknownSeqno True (blank_rreq 0x0a000003)))\<lparr>rq_origin := 0x0a000001, rq_originSeqNo := 1, rq_requestID := 1\<rparr>"

lemma example_request:
  "\<exists>s1 t. SendRequest (example_env 5) 0x0a000003 example_node = Some s1 \<and>
     m_out s1 = m_out example_node @ [ScheduleSendTo t 100 (MsgRreq sent_rreq) 1 0x0a0000ff]"
proof -
  have "map_option m_out (SendRequest (example_env 5) 0x0a000003 example_node) = Some [ScheduleSendTo (MilliSeconds 3) 100 (MsgRreq sent_rreq) 1 0x0a0000ff]"
    by code_simp
  moreover have "m_out example_node = []" by code_simp
  ultimately show ?thesis by auto
qed

theorem own_request_ignored_witness:
  "\<exists>s1 c. SendRequest (example_env 5) 0x0a000003 example_node = Some s1 \<and>
     RecvRequest (example_env 900) (sent_rreq\<lparr>rq_hopCount := 1\<rparr>) 3 0x0a0000ff 0x0a000002 s1 =
       Some (s1\<lparr>m_routingTable := rt_Purge 900 (m_routingTable s1), m_rreqIdCache := c\<rparr>)"
proof -
  obtain s1 t where s1: "SendRequest (example_env 5) 0x0a000003 example_node = Some s1"
    "m_out s1 = m_out example_node @ [ScheduleSendTo t 100 (MsgRreq sent_rreq) 1 0x0a0000ff]"
    using example_request by blast
  have c: "m_rreqCount example_node \<noteq> m_rreqRateLimit example_node" "m_idCache (m_rreqIdCache example_node) = []"
    "900 \<le> 5 + ic_lifetime (m_rreqIdCache example_node)"
    by code_simp+
  then show ?thesis
    using own_request_ignored [OF s1(1) c(1) s1(2), of t 100 sent_rreq 1 "0x0a0000ff" "example_env 900" "sent_rreq\<lparr>rq_hopCount := 1\<rparr>" 3 "0x0a0000ff" "0x0a000002"] s1(1)
    by (auto simp: ic_remembers_def)
qed

section \<open>Route errors and broken links\<close>

text \<open>The table shows the routes \<open>v\<close> at the current time. Sending messages and looking routes up keep that.\<close>

definition view :: "environment \<Rightarrow> (Ipv4Address \<Rightarrow> RoutingTableEntry option) \<Rightarrow> Time \<Rightarrow> RoutingProtocol \<Rightarrow> bool" where
  "view e v bl s \<longleftrightarrow> table_ok (m_routingTable s) \<and> visible (env_now e) (m_routingTable s) = v \<and> m_badLinkLifetime (m_routingTable s) = bl"

lemma view_simps [simp]:
  "view e v bl (schedule_send socket msg ttl dest s) = view e v bl s"
  "view e v bl (s\<lparr>m_rerrCount := n\<rparr>) = view e v bl s"
  by (simp_all add: view_def schedule_send_def jitter_def emit_def)

lemma view_Purge: "view e v bl s \<Longrightarrow> view e v bl (s\<lparr>m_routingTable := rt_Purge (env_now e) (m_routingTable s)\<rparr>)"
  by (simp add: view_def)

lemma view_lookup: "view e v bl s \<Longrightarrow> do_lookup e i rt s = (ok, rt', s') \<Longrightarrow> view e v bl s'"
  using do_lookup_frame view_Purge by blast

lemma view_lookup_valid: "view e v bl s \<Longrightarrow> do_lookup_valid e i rt s = (ok, rt', s') \<Longrightarrow> view e v bl s'"
  using view_Purge [of e v bl s] by (auto simp: view_def do_lookup_valid_def LookupValidRoute_eq split: prod.splits option.splits)

lemma view_precursor_ifaces: "view e v bl s \<Longrightarrow> precursor_ifaces e ps rt ifaces s = (ifaces', s') \<Longrightarrow> view e v bl s'"
  by (induction e ps rt ifaces s rule: precursor_ifaces.induct) (auto split: prod.splits dest: view_lookup_valid)

lemma view_send_on_ifaces: "view e v bl s \<Longrightarrow> pred_option (view e v bl) (send_on_ifaces msg ttl is s)"
  by (induction msg ttl "is" s rule: send_on_ifaces.induct) (auto intro!: after_any)

lemma view_SendRerrMessage:
  assumes "view e v bl s"
  shows "pred_option (view e v bl) (SendRerrMessage e msg ttl precursors s)"
proof -
  obtain ok rt s1 where l: "do_lookup_valid e (hd precursors) (fresh_entry e) s = (ok, rt, s1)" by (metis prod_cases3)
  obtain ifaces s2 where p: "precursor_ifaces e precursors (fresh_entry e) [] s = (ifaces, s2)" by (metis surj_pair)
  show ?thesis
    using assms l p view_lookup_valid [OF assms l] view_send_on_ifaces [OF view_precursor_ifaces [OF assms p]]
    by (auto simp: SendRerrMessage_def Let_def intro!: after_any)
qed

lemma view_collect_unreachable:
  "view e v bl s \<Longrightarrow> pred_option (\<lambda>(_, _, s'). view e v bl s') (collect_unreachable e u hdr precursors s)"
proof (induction e u hdr precursors s rule: collect_unreachable.induct)
  case (2 e dst seqNo u hdr precursors s)
  show ?case
  proof (cases "AddUnDestination dst seqNo hdr")
    case (Some x)
    then obtain hdr1 where a: "AddUnDestination dst seqNo hdr = Some (True, hdr1)" by (auto simp: AddUnDestination_def split: if_splits)
    obtain b rt s1 where l: "do_lookup e dst (fresh_entry e) s = (b, rt, s1)" by (metis prod_cases3)
    show ?thesis using "2.IH"(2) [OF a refl] a l view_lookup [OF "2.prems" l] by simp
  qed simp
qed simp

text \<open>The routes after those to the destinations \<open>ds\<close> have been invalidated.\<close>

definition without :: "environment \<Rightarrow> Time \<Rightarrow> Ipv4Address set \<Rightarrow> (Ipv4Address \<Rightarrow> RoutingTableEntry option) \<Rightarrow> Ipv4Address \<Rightarrow> RoutingTableEntry option" where
  "without e bl ds v k = map_option (\<lambda>rt. if k \<in> ds \<and> rt_flag rt = VALID then Invalidate (env_now e) bl rt else rt) (v k)"

lemma view_report:
  assumes "view e v bl s"
    and "do { (hdr', prec', s) \<leftarrow> collect_unreachable e u hdr prec s;
          s \<leftarrow> (if GetDestCount hdr' \<noteq> 0 then SendRerrMessage e (MsgRerr hdr') 1 prec' s else Some s);
          Some (s\<lparr>m_routingTable := InvalidateRoutesWithDst (env_now e) u' (m_routingTable s)\<rparr>) } = Some s'"
  shows "entries (m_routingTable s') = without e bl (fst ` set u') v"
proof -
  obtain hdr' prec' s1 where 1: "collect_unreachable e u hdr prec s = Some (hdr', prec', s1)"
    using assms(2) by (auto simp: bind_eq_Some_conv)
  then have v1: "view e v bl s1" using view_collect_unreachable [OF assms(1), of u hdr prec] by simp
  obtain s2 where 2: "(if GetDestCount hdr' \<noteq> 0 then SendRerrMessage e (MsgRerr hdr') 1 prec' s1 else Some s1) = Some s2"
    "s' = s2\<lparr>m_routingTable := InvalidateRoutesWithDst (env_now e) u' (m_routingTable s2)\<rparr>"
    using assms(2) 1 by (auto simp: bind_eq_Some_conv)
  then have "view e v bl s2" using v1 view_SendRerrMessage [OF v1, of "MsgRerr hdr'" 1 prec'] by (auto split: if_splits)
  then show ?thesis using 2(2) by (auto simp: view_def InvalidateRoutes_entries without_def)
qed


text \<open>The destinations whose next hop is \<open>nh\<close>, and those of them that a route error lists.\<close>

lemma keys_fold_if:
  "fst ` set (fold (\<lambda>(k, x) u. if P x then om_insert k (f x) u else u) xs u0) = fst ` set u0 \<union> {k. \<exists>x. (k, x) \<in> set xs \<and> P x}"
proof (induction xs arbitrary: u0)
  case (Cons x xs)
  have "fst ` set (if P y then om_insert k (f y) u0 else u0) = fst ` set u0 \<union> (if P y then {k} else {})" for k y by simp
  then show ?case by (cases x) (auto simp: Cons.IH simp del: image_eqI)
qed simp

lemma GetListOf_keys:
  assumes "table_ok t"
  shows "fst ` set (fst (GetListOfDestinationWithNextHop now nh t)) = {k. \<exists>rt. visible now t k = Some rt \<and> GetNextHop rt = nh}"
proof -
  have "om_ok (m_ipv4AddressEntry (rt_Purge now t))" using table_ok_Purge [OF assms] by (simp add: table_ok_def)
  then have "(k, rt) \<in> set (m_ipv4AddressEntry (rt_Purge now t)) \<longleftrightarrow> visible now t k = Some rt" for k rt
    using entries_Purge [OF assms, of now] om_ok_distinct by (metis entries_def map_of_eq_Some_iff)
  then show ?thesis by (auto simp: GetListOfDestinationWithNextHop_def Let_def keys_fold_if)
qed

lemma GetListOf_table: "snd (GetListOfDestinationWithNextHop now nh t) = rt_Purge now t"
  by (simp add: GetListOfDestinationWithNextHop_def Let_def)

lemma keys_affected_inner:
  "fst ` set (fold (\<lambda>i u. if fst i = d then om_insert d x u else u) ns u0) = fst ` set u0 \<union> ({d} \<inter> fst ` set ns)"
  by (induction ns arbitrary: u0) auto

lemma keys_affected: "fst ` set (affected ns uns) = fst ` set ns \<inter> fst ` set uns"
proof -
  have "fst ` set (fold (\<lambda>un u. fold (\<lambda>i u. if fst i = fst un then om_insert (fst un) (snd un) u else u) ns u) uns u0) =
      fst ` set u0 \<union> (fst ` set ns \<inter> fst ` set uns)" for u0
    by (induction uns arbitrary: u0) (auto simp: keys_affected_inner)
  then show ?thesis by (simp add: affected_def)
qed

text \<open>
  C35: A route error invalidates exactly the routes it concerns. Let a node with a
  well-formed routing table handle a route error from a neighbour. Then every valid route whose next hop is that neighbour and
  whose destination the error lists becomes invalid, for the lifetime of a bad link, and every other
  route, as seen at that time, is what it was.
\<close>

theorem RecvError_invalidates:
  assumes "table_ok (m_routingTable s)" and "RecvError e hdr src s = Some s'"
  shows "entries (m_routingTable s') k =
    map_option (\<lambda>rt. if k \<in> fst ` set (re_unreachable hdr) \<and> GetNextHop rt = src \<and> rt_flag rt = VALID
                     then Invalidate (env_now e) (m_badLinkLifetime (m_routingTable s)) rt else rt)
      (visible (env_now e) (m_routingTable s) k)"
proof -
  let ?now = "env_now e" and ?t = "m_routingTable s"
  obtain ns t where g: "GetListOfDestinationWithNextHop ?now src ?t = (ns, t)" by (metis surj_pair)
  have t: "t = rt_Purge ?now ?t" using GetListOf_table [of ?now src ?t] g by simp
  have v: "view e (visible ?now ?t) (m_badLinkLifetime ?t) (s\<lparr>m_routingTable := t\<rparr>)" using assms(1) t by (simp add: view_def)
  have "entries (m_routingTable s') =
      without e (m_badLinkLifetime ?t) (fst ` set (affected ns (re_unreachable hdr))) (visible ?now ?t)"
    by (rule view_report [OF v]) (use assms(2) g in \<open>simp add: RecvError_def Let_def\<close>)
  moreover have "k \<in> fst ` set ns \<longleftrightarrow> (\<exists>rt. visible ?now ?t k = Some rt \<and> GetNextHop rt = src)"
    using GetListOf_keys [OF assms(1), of ?now src] g by auto
  ultimately show ?thesis by (cases "visible ?now ?t k") (auto simp: without_def keys_affected)
qed

definition example_error :: RerrHeader where
  "example_error = mk_RerrHeader\<lparr>re_unreachable := [(0x0a000003, 41)]\<rparr>"

theorem RecvError_invalidates_witness:
  "\<exists>s'. RecvError (example_env 5) example_error 0x0a000002 example_routed = Some s' \<and>
     entries (m_routingTable s') 0x0a000003 = Some (Invalidate 5 (m_badLinkLifetime (m_routingTable example_routed)) example_route)"
proof -
  have "map_option (\<lambda>_. True) (RecvError (example_env 5) example_error 0x0a000002 example_routed) = Some True" by code_simp
  then obtain s' where s': "RecvError (example_env 5) example_error 0x0a000002 example_routed = Some s'" by auto
  have r: "GetNextHop example_route = 0x0a000002" "rt_flag example_route = VALID"
    by (simp_all add: example_route_def mk_RoutingTableEntry_def)
  show ?thesis
    using RecvError_invalidates [OF example_routed_ok(1) s', of "0x0a000003"] s' example_routed_ok(3) r by (simp add: example_error_def)
qed

text \<open>
  A broken link invalidates every route through it. When a node with a well-formed routing table
  handles the loss of a neighbour that its table knows, every valid route to the neighbour
  or with the neighbour as its next hop becomes invalid, and every other route, as seen at
  that time, is what it was.
\<close>

theorem broken_link_invalidates:
  assumes "table_ok (m_routingTable s)" and "SendRerrWhenBreaksLinkToNextHop e nextHop s = Some s'"
    and "visible (env_now e) (m_routingTable s) nextHop \<noteq> None"
  shows "entries (m_routingTable s') k =
    map_option (\<lambda>rt. if (k = nextHop \<or> GetNextHop rt = nextHop) \<and> rt_flag rt = VALID
                     then Invalidate (env_now e) (m_badLinkLifetime (m_routingTable s)) rt else rt)
      (visible (env_now e) (m_routingTable s) k)"
proof -
  let ?now = "env_now e" and ?t = "m_routingTable s" and ?s1 = "s\<lparr>m_routingTable := rt_Purge (env_now e) (m_routingTable s)\<rparr>"
  obtain rt where rt: "do_lookup e nextHop (fresh_entry e) s = (True, rt, ?s1)"
    using assms(1,3) by (auto simp: do_lookup_def LookupRoute_eq)
  obtain ns t where g: "GetListOfDestinationWithNextHop ?now nextHop (rt_Purge ?now ?t) = (ns, t)" by (metis surj_pair)
  have t: "t = rt_Purge ?now (rt_Purge ?now ?t)" using GetListOf_table [of ?now nextHop "rt_Purge ?now ?t"] g by simp
  have v: "view e (visible ?now ?t) (m_badLinkLifetime ?t) (s\<lparr>m_routingTable := t\<rparr>)" using assms(1) t by (simp add: view_def)
  obtain ok hdr where a: "AddUnDestination nextHop (rt_seqNo rt) mk_RerrHeader = Some (ok, hdr)"
    using assms(2) rt by (auto simp: SendRerrWhenBreaksLinkToNextHop_def bind_eq_Some_conv)
  have "entries (m_routingTable s') =
      without e (m_badLinkLifetime ?t) (fst ` set (om_insert nextHop (rt_seqNo rt) ns)) (visible ?now ?t)"
    by (rule view_report [OF v]) (use assms(2) rt g a in \<open>simp add: SendRerrWhenBreaksLinkToNextHop_def Let_def\<close>)
  moreover have "k \<in> fst ` set ns \<longleftrightarrow> (\<exists>rt. visible ?now ?t k = Some rt \<and> GetNextHop rt = nextHop)"
    using GetListOf_keys [OF table_ok_Purge [OF assms(1)], of ?now nextHop ?now] g assms(1) by auto
  ultimately show ?thesis by (cases "visible ?now ?t k") (auto simp: without_def)
qed

definition example_linked :: RoutingProtocol where
  "example_linked = do_add (example_env 0) (mk_RoutingTableEntry 0 11 0x0a000002 True 7 example_iface 1 0x0a000002 (Seconds 2)) example_routed"

lemma example_linked_ok: "table_ok (m_routingTable example_linked)"
  "\<exists>rt. visible 5 (m_routingTable example_linked) 0x0a000002 = Some rt"
  "\<exists>rt. visible 5 (m_routingTable example_linked) 0x0a000003 = Some rt \<and> rt_flag rt = VALID \<and> GetNextHop rt = 0x0a000002"
proof -
  show "table_ok (m_routingTable example_linked)" using example_routed_ok(1) by (simp add: example_linked_def do_add_def)
  have "map_option (\<lambda>_. ()) (visible 5 (m_routingTable example_linked) 0x0a000002) = Some ()" by code_simp
  then show "\<exists>rt. visible 5 (m_routingTable example_linked) 0x0a000002 = Some rt" by auto
  have "map_option (\<lambda>rt. (rt_flag rt = VALID, GetNextHop rt)) (visible 5 (m_routingTable example_linked) 0x0a000003) = Some (True, 0x0a000002)"
    by code_simp
  then show "\<exists>rt. visible 5 (m_routingTable example_linked) 0x0a000003 = Some rt \<and> rt_flag rt = VALID \<and> GetNextHop rt = 0x0a000002" by auto
qed

theorem broken_link_invalidates_witness:
  "\<exists>s' rt. SendRerrWhenBreaksLinkToNextHop (example_env 5) 0x0a000002 example_linked = Some s' \<and>
     entries (m_routingTable s') 0x0a000003 = Some rt \<and> rt_flag rt = INVALID"
proof -
  have "map_option (\<lambda>_. True) (SendRerrWhenBreaksLinkToNextHop (example_env 5) 0x0a000002 example_linked) = Some True" by code_simp
  then obtain s' where s': "SendRerrWhenBreaksLinkToNextHop (example_env 5) 0x0a000002 example_linked = Some s'" by auto
  show ?thesis
    using broken_link_invalidates [OF example_linked_ok(1) s', of "0x0a000003"] s' example_linked_ok(2,3)
    by (auto simp: Invalidate_def)
qed

section \<open>A stale reply\<close>

definition example_search :: RoutingProtocol where
  "example_search = do_add (example_env 0)
     ((mk_RoutingTableEntry 0 11 0x0a000003 True 100 example_iface 2 0x0a000002 (Seconds 2))\<lparr>rt_flag := IN_SEARCH\<rparr>) example_node"

definition stale_reply :: RrepHeader where
  "stale_reply =
     \<lparr>rp_flags = 0, rp_prefixSize = 0, rp_hopCount = 0, rp_dst = 0x0a000003, rp_dstSeqNo = 5, rp_origin = 0x0a000001, rp_lifeTime = 3000\<rparr>"


end
