(* ===== verification/Tcp_Rx_Buffer.thy ===== *)
theory Tcp_Rx_Buffer
  imports Ns3_Prelude
begin

text \<open>
  src/internet/model/tcp-rx-buffer.cc: the buffer in which a TCP receiver puts segments that arrive in any order back together, with the
  sequence numbers of src/network/utils/sequence-number.h, which wrap around. A packet is the list of its bytes:
  CreateFragment and AddAtEnd of Packet act on it as on such a list, as Packet_Pool shows. A failing assertion is \<^term>\<open>None\<close>.
\<close>

section \<open>Sequence numbers\<close>

type_synonym SequenceNumber32 = u32

definition seq_gt :: "SequenceNumber32 \<Rightarrow> SequenceNumber32 \<Rightarrow> bool" where
  "seq_gt a b \<longleftrightarrow> (b < a \<and> a - b \<le> 0xffffffff div 2) \<or> (a < b \<and> 0xffffffff div 2 < b - a)"

definition seq_le :: "SequenceNumber32 \<Rightarrow> SequenceNumber32 \<Rightarrow> bool" where
  "seq_le a b \<longleftrightarrow> \<not> seq_gt a b"

definition seq_ge :: "SequenceNumber32 \<Rightarrow> SequenceNumber32 \<Rightarrow> bool" where
  "seq_ge a b \<longleftrightarrow> seq_gt a b \<or> a = b"

definition seq_lt :: "SequenceNumber32 \<Rightarrow> SequenceNumber32 \<Rightarrow> bool" where
  "seq_lt a b \<longleftrightarrow> \<not> seq_gt a b \<and> a \<noteq> b"

text \<open>The difference of two sequence numbers, an \<open>int32_t\<close> as a word.\<close>

definition seqno_diff :: "SequenceNumber32 \<Rightarrow> SequenceNumber32 \<Rightarrow> u32" where
  "seqno_diff a b =
     (if b < a then
        (let diff = a - b in if diff < 0xffffffff div 2 then diff else - (0xffffffff - a + 1 + b))
      else
        (let diff = b - a in if diff < 0xffffffff div 2 then - diff else 0xffffffff - b + 1 + a))"

section \<open>The buffer\<close>

type_synonym SackBlock = "SequenceNumber32 \<times> SequenceNumber32"

text \<open>\<open>m_data\<close> is a map from sequence numbers to packets, a list in the order of its keys.\<close>

type_synonym rx_map = "(SequenceNumber32 \<times> u8 list) list"

record TcpRxBuffer =
  rx_sackList :: "SackBlock list"
  rx_nextRxSeq :: SequenceNumber32
  rx_finSeq :: SequenceNumber32
  rx_gotFin :: bool
  rx_size :: u32
  rx_maxBuffer :: u32
  rx_availBytes :: u32
  rx_data :: rx_map

fun rx_put :: "SequenceNumber32 \<Rightarrow> u8 list \<Rightarrow> rx_map \<Rightarrow> rx_map" where
  "rx_put k p [] = [(k, p)]"
| "rx_put k p ((k', p') # m) =
     (if seq_lt k k' then (k, p) # (k', p') # m
      else if seq_lt k' k then (k', p') # rx_put k p m
      else (k', p) # m)"

definition rx_find :: "SequenceNumber32 \<Rightarrow> rx_map \<Rightarrow> bool" where
  "rx_find k m \<longleftrightarrow> (\<exists>e \<in> set m. \<not> seq_lt k (fst e) \<and> \<not> seq_lt (fst e) k)"

definition fragment :: "u32 \<Rightarrow> u32 \<Rightarrow> u8 list \<Rightarrow> u8 list option" where
  "fragment start len p = (if unat start + unat len \<le> length p then Some (take (unat len) (drop (unat start) p)) else None)"

definition packet_size :: "u8 list \<Rightarrow> u32" where
  "packet_size p = of_nat (length p)"

definition TcpRxBuffer_new :: "u32 \<Rightarrow> TcpRxBuffer" where
  "TcpRxBuffer_new n =
     \<lparr>rx_sackList = [], rx_nextRxSeq = n, rx_finSeq = 0, rx_gotFin = False, rx_size = 0, rx_maxBuffer = 32768, rx_availBytes = 0, rx_data = []\<rparr>"

definition rx_SetNextRxSequence :: "SequenceNumber32 \<Rightarrow> TcpRxBuffer \<Rightarrow> TcpRxBuffer" where
  "rx_SetNextRxSequence s b = b\<lparr>rx_nextRxSeq := s\<rparr>"

definition rx_SetMaxBufferSize :: "u32 \<Rightarrow> TcpRxBuffer \<Rightarrow> TcpRxBuffer" where
  "rx_SetMaxBufferSize s b = b\<lparr>rx_maxBuffer := s\<rparr>"

definition rx_IncNextRxSequence :: "TcpRxBuffer \<Rightarrow> TcpRxBuffer option" where
  "rx_IncNextRxSequence b = (if rx_size b = 0 then Some (b\<lparr>rx_nextRxSeq := rx_nextRxSeq b + 1\<rparr>) else None)"

definition rx_MaxRxSequence :: "TcpRxBuffer \<Rightarrow> SequenceNumber32" where
  "rx_MaxRxSequence b =
     (if rx_gotFin b then rx_finSeq b
      else case rx_data b of
        (k, p) # m \<Rightarrow> if seq_gt (rx_nextRxSeq b) k then k + rx_maxBuffer b else rx_nextRxSeq b + rx_maxBuffer b
      | [] \<Rightarrow> rx_nextRxSeq b + rx_maxBuffer b)"

definition rx_SetFinSequence :: "SequenceNumber32 \<Rightarrow> TcpRxBuffer \<Rightarrow> TcpRxBuffer" where
  "rx_SetFinSequence s b =
     (let b = b\<lparr>rx_gotFin := True, rx_finSeq := s\<rparr>
      in if rx_nextRxSeq b = rx_finSeq b then b\<lparr>rx_nextRxSeq := rx_nextRxSeq b + 1\<rparr> else b)"

definition rx_Finished :: "TcpRxBuffer \<Rightarrow> bool" where
  "rx_Finished b \<longleftrightarrow> rx_gotFin b \<and> seq_lt (rx_finSeq b) (rx_nextRxSeq b)"

section \<open>Selective acknowledgements\<close>

text \<open>The loop of UpdateSackList: \<open>begin\<close> is the first block, \<open>seen\<close> the blocks before the iterator, and a merge starts over.\<close>

function sack_merge :: "SackBlock \<Rightarrow> SackBlock list \<Rightarrow> SackBlock list \<Rightarrow> SackBlock list option" where
  "sack_merge begin' seen [] = Some (begin' # seen)"
| "sack_merge begin' seen (current # todo) =
     (if fst begin' = snd current then
        if seq_lt (fst current) (snd begin') then sack_merge (fst current, snd begin') [] (seen @ todo) else None
      else if snd begin' = fst current then
        if seq_lt (fst begin') (snd current) then sack_merge (fst begin', snd current) [] (seen @ todo) else None
      else sack_merge begin' (seen @ [current]) todo)"
  by pat_completeness auto
termination sack_merge
  by (relation "measures [\<lambda>(b, seen, todo). length seen + length todo, \<lambda>(b, seen, todo). length todo]") auto

definition UpdateSackList :: "SequenceNumber32 \<Rightarrow> SequenceNumber32 \<Rightarrow> TcpRxBuffer \<Rightarrow> TcpRxBuffer option" where
  "UpdateSackList head tail b =
     (if seq_gt head (rx_nextRxSeq b) then
        do { l \<leftarrow> sack_merge (head, tail) [] (rx_sackList b);
             Some (b\<lparr>rx_sackList := if 4 < length l then butlast l else l\<rparr>) }
      else None)"

fun ClearSackList :: "SequenceNumber32 \<Rightarrow> SackBlock list \<Rightarrow> SackBlock list option" where
  "ClearSackList seq [] = Some []"
| "ClearSackList seq (block # l) =
     (if seq_lt (fst block) (snd block) then
        do { l \<leftarrow> ClearSackList seq l; Some (if seq_le (snd block) seq then l else block # l) }
      else None)"

section \<open>Add\<close>

text \<open>The loop that removes overlapped bytes: the map, the head and the tail of the new data, and the occupancy.\<close>

fun rx_trim :: "rx_map \<Rightarrow> SequenceNumber32 \<Rightarrow> SequenceNumber32 \<Rightarrow> u32 \<Rightarrow> rx_map \<times> SequenceNumber32 \<times> SequenceNumber32 \<times> u32" where
  "rx_trim [] headSeq tailSeq size' = ([], headSeq, tailSeq, size')"
| "rx_trim ((k, p) # m) headSeq tailSeq size' =
     (if seq_le k tailSeq then
        (let lastByteSeq = k + packet_size p in
         if seq_gt lastByteSeq headSeq then
           if seq_gt k headSeq \<and> seq_lt lastByteSeq tailSeq then rx_trim m headSeq tailSeq (size' - packet_size p)
           else
             (let headSeq' = (if seq_le k headSeq then lastByteSeq else headSeq);
                  tailSeq' = (if seq_ge lastByteSeq tailSeq then k else tailSeq)
              in case rx_trim m headSeq' tailSeq' size' of (m, r) \<Rightarrow> ((k, p) # m, r))
         else case rx_trim m headSeq tailSeq size' of (m, r) \<Rightarrow> ((k, p) # m, r))
      else ((k, p) # m, headSeq, tailSeq, size'))"

text \<open>The loop that moves on over contiguous data.\<close>

fun rx_advance :: "rx_map \<Rightarrow> SequenceNumber32 \<Rightarrow> u32 \<Rightarrow> SackBlock list \<Rightarrow> (SequenceNumber32 \<times> u32 \<times> SackBlock list) option" where
  "rx_advance [] next availBytes l = Some (next, availBytes, l)"
| "rx_advance ((k, p) # m) next availBytes l =
     (if seq_lt k next then rx_advance m next availBytes l
      else if seq_gt k next then Some (next, availBytes, l)
      else
        (let next = k + packet_size p in
         do { l \<leftarrow> ClearSackList next l; rx_advance m next (availBytes + packet_size p) l }))"

definition rx_window :: "TcpRxBuffer \<Rightarrow> SequenceNumber32 \<Rightarrow> SequenceNumber32 \<Rightarrow> SequenceNumber32 \<times> SequenceNumber32" where
  "rx_window b headSeq tailSeq =
     (let headSeq = (if seq_lt headSeq (rx_nextRxSeq b) then rx_nextRxSeq b else headSeq)
      in case rx_data b of
           [] \<Rightarrow> (headSeq, tailSeq)
         | (k, p) # m \<Rightarrow>
             (let maxSeq = k + rx_maxBuffer b;
                  tailSeq = (if seq_lt maxSeq tailSeq then maxSeq else tailSeq);
                  headSeq = (if seq_lt tailSeq headSeq then tailSeq else headSeq)
              in (headSeq, tailSeq)))"

definition rx_Add :: "u8 list \<Rightarrow> SequenceNumber32 \<Rightarrow> TcpRxBuffer \<Rightarrow> (bool \<times> TcpRxBuffer) option" where
  "rx_Add p seq b =
     (case rx_window b seq (seq + packet_size p) of (headSeq, tailSeq) \<Rightarrow>
      case rx_trim (rx_data b) headSeq tailSeq (rx_size b) of (m, headSeq, tailSeq, size') \<Rightarrow>
        (let b = b\<lparr>rx_data := m, rx_size := size'\<rparr> in
         if seq_ge headSeq tailSeq then Some (False, b)
         else
           do { p \<leftarrow> fragment (seqno_diff headSeq seq) (seqno_diff tailSeq headSeq) p;
                if rx_find headSeq (rx_data b) then None
                else
                  do { let b = b\<lparr>rx_data := rx_put headSeq p (rx_data b)\<rparr>;
                       b \<leftarrow> (if seq_gt headSeq (rx_nextRxSeq b) then UpdateSackList headSeq tailSeq b else Some b);
                       let b = b\<lparr>rx_size := rx_size b + packet_size p\<rparr>;
                       (next, availBytes, l) \<leftarrow> rx_advance (rx_data b) (rx_nextRxSeq b) (rx_availBytes b) (rx_sackList b);
                       let b = b\<lparr>rx_nextRxSeq := next, rx_availBytes := availBytes, rx_sackList := l\<rparr>;
                       Some (True, if rx_gotFin b \<and> rx_nextRxSeq b = rx_finSeq b then b\<lparr>rx_nextRxSeq := rx_nextRxSeq b + 1\<rparr> else b) } }))"

section \<open>Extract\<close>

text \<open>The loop of Extract: the data taken out, and the rest of the buffer.\<close>

fun rx_extract_loop :: "u32 \<Rightarrow> rx_map \<Rightarrow> SequenceNumber32 \<Rightarrow> u32 \<Rightarrow> u32 \<Rightarrow> u8 list \<Rightarrow> (u8 list \<times> rx_map \<times> u32 \<times> u32) option" where
  "rx_extract_loop extractSize [] next size' availBytes out = (if extractSize = 0 then Some (out, [], size', availBytes) else None)"
| "rx_extract_loop extractSize ((k, p) # m) next size' availBytes out =
     (if extractSize = 0 then Some (out, (k, p) # m, size', availBytes)
      else if seq_le k next then
        let pktSize = packet_size p in
        if pktSize \<le> extractSize
        then rx_extract_loop (extractSize - pktSize) m next (size' - pktSize) (availBytes - pktSize) (out @ p)
        else
          do { q \<leftarrow> fragment 0 extractSize p;
               r \<leftarrow> fragment extractSize (pktSize - extractSize) p;
               Some (out @ q, filter (\<lambda>e. fst e \<noteq> k) (rx_put (k + extractSize) r ((k, p) # m)), size' - extractSize, availBytes - extractSize) }
      else None)"

text \<open>A null pointer is the empty list.\<close>

definition rx_Extract :: "u32 \<Rightarrow> TcpRxBuffer \<Rightarrow> (u8 list \<times> TcpRxBuffer) option" where
  "rx_Extract maxSize b =
     (let extractSize = min maxSize (rx_availBytes b) in
      if extractSize = 0 then Some ([], b)
      else if rx_data b = [] then None
      else
        do { (out, m, size', availBytes) \<leftarrow> rx_extract_loop extractSize (rx_data b) (rx_nextRxSeq b) (rx_size b) (rx_availBytes b) [];
             Some (out, b\<lparr>rx_data := m, rx_size := size', rx_availBytes := availBytes\<rparr>) })"

end
