(* ===== verification/Tcp_Rx_Positions.thy ===== *)
theory Tcp_Rx_Positions
  imports Tcp_Rx_Buffer
begin

text \<open>
  The receive buffer over positions in the byte stream instead of sequence numbers: within a window of \<open>2 ^ 31\<close> positions the
  comparison of sequence numbers that wrap around is the order of the positions. On positions, the loops of Add and Extract are described by the
  set of bytes that are held.
\<close>

section \<open>Sequence numbers of positions\<close>

definition seqn :: "u32 \<Rightarrow> nat \<Rightarrow> SequenceNumber32" where
  "seqn s x = s + of_nat x"

lemma seqn_add: "seqn s x + of_nat n = seqn s (x + n)"
  by (simp add: seqn_def)

lemma unat_diff_small: "x < 2 ^ 32 \<Longrightarrow> unat (of_nat x :: u32) = x"
  by (simp add: unat_of_nat take_bit_nat_eq_self)

lemma seq_gt_diff:
  assumes "uint (a - b) \<noteq> 2 ^ 31"
  shows "seq_gt a b \<longleftrightarrow> 0 < uint (a - b) \<and> uint (a - b) < 2 ^ 31"
proof -
  have h: "uint (0xffffffff div 2 :: u32) = 2 ^ 31 - 1" by simp
  define A B where "A = uint a" and "B = uint b"
  have b: "0 \<le> A" "A < 2 ^ 32" "0 \<le> B" "B < 2 ^ 32" unfolding A_def B_def using uint_lt2p [of a] uint_lt2p [of b] by simp_all
  show ?thesis using assms b unfolding seq_gt_def word_less_def word_le_def h uint_sub_if' A_def [symmetric] B_def [symmetric]
    by (auto split: if_splits)
qed

lemma seqn_diff: "seqn s x - seqn s y = of_int (int x - int y)"
  by (simp add: seqn_def)

lemma seq_gt_pos:
  assumes "x < y + 2 ^ 31" and "y < x + 2 ^ 31"
  shows "seq_gt (seqn s x) (seqn s y) \<longleftrightarrow> y < x"
proof -
  have u: "uint (seqn s x - seqn s y) = (int x - int y) mod 2 ^ 32" by (simp only: seqn_diff unsigned_of_int take_bit_eq_mod) simp
  show ?thesis
  proof (cases "y \<le> x")
    case True
    then have "uint (seqn s x - seqn s y) = int x - int y" unfolding u using assms by simp
    then show ?thesis using seq_gt_diff [of "seqn s x" "seqn s y"] assms True by auto
  next
    case False
    have "(int x - int y) mod 2 ^ 32 = (int x - int y + 2 ^ 32) mod 2 ^ 32" by simp
    also have "\<dots> = int x - int y + 2 ^ 32" using assms False by (intro mod_pos_pos_trivial) simp_all
    finally show ?thesis using u seq_gt_diff [of "seqn s x" "seqn s y"] assms False by auto
  qed
qed

lemma seqn_eq:
  assumes "x < y + 2 ^ 31" and "y < x + 2 ^ 31"
  shows "seqn s x = seqn s y \<longleftrightarrow> x = y"
proof -
  have "\<not> seq_gt a a" for a by (simp add: seq_gt_def)
  then show ?thesis using seq_gt_pos [OF assms, of s] seq_gt_pos [OF assms(2,1), of s] by (metis linorder_neqE_nat)
qed

text \<open>A window of positions, and the comparisons in it.\<close>

definition in_win :: "nat \<Rightarrow> nat \<Rightarrow> bool" where
  "in_win lo x \<longleftrightarrow> lo \<le> x \<and> x < lo + 2 ^ 31"

lemma seq_cmp:
  assumes "in_win lo x" and "in_win lo y"
  shows "seq_gt (seqn s x) (seqn s y) \<longleftrightarrow> y < x" "seq_lt (seqn s x) (seqn s y) \<longleftrightarrow> x < y"
    "seq_le (seqn s x) (seqn s y) \<longleftrightarrow> x \<le> y" "seq_ge (seqn s x) (seqn s y) \<longleftrightarrow> y \<le> x"
    "seqn s x = seqn s y \<longleftrightarrow> x = y"
proof -
  have w: "x < y + 2 ^ 31" "y < x + 2 ^ 31" using assms by (auto simp: in_win_def)
  show "seq_gt (seqn s x) (seqn s y) \<longleftrightarrow> y < x" by (rule seq_gt_pos [OF w])
  show e: "seqn s x = seqn s y \<longleftrightarrow> x = y" by (rule seqn_eq [OF w])
  show "seq_lt (seqn s x) (seqn s y) \<longleftrightarrow> x < y" "seq_le (seqn s x) (seqn s y) \<longleftrightarrow> x \<le> y" "seq_ge (seqn s x) (seqn s y) \<longleftrightarrow> y \<le> x"
    unfolding seq_lt_def seq_le_def seq_ge_def e seq_gt_pos [OF w] by auto
qed

lemma seqno_diff_eq: "seqno_diff a b = a - b"
proof -
  have "(0xffffffff :: u32) = - 1" by simp
  then show ?thesis by (simp add: seqno_diff_def Let_def)
qed

end
