(* ===== verification/Tcp_Rx_Trim.thy ===== *)
theory Tcp_Rx_Trim
  imports Tcp_Rx_Positions
begin

text \<open>
  The loops of Add and Extract on positions: segments at positions of the stream, sorted and disjoint, and the set of bytes they cover.
\<close>

section \<open>Segments at positions\<close>

type_synonym segs = "(nat \<times> u8 list) list"

definition enc :: "u32 \<Rightarrow> segs \<Rightarrow> rx_map" where
  "enc s D = map (\<lambda>(x, p). (seqn s x, p)) D"

lemma enc_simps [simp]: "enc s [] = []" "enc s ((x, p) # D) = (seqn s x, p) # enc s D"
  by (simp_all add: enc_def)

text \<open>Sorted, disjoint and not empty, from position \<open>a\<close> on.\<close>

fun chain :: "nat \<Rightarrow> segs \<Rightarrow> bool" where
  "chain a [] = True"
| "chain a ((x, p) # D) = (a \<le> x \<and> p \<noteq> [] \<and> chain (x + length p) D)"

fun cover :: "segs \<Rightarrow> nat set" where
  "cover [] = {}"
| "cover ((x, p) # D) = {x..<x + length p} \<union> cover D"

fun seg_total :: "segs \<Rightarrow> nat" where
  "seg_total [] = 0"
| "seg_total ((x, p) # D) = length p + seg_total D"

lemma chain_weaken: "chain a D \<Longrightarrow> b \<le> a \<Longrightarrow> chain b D"
  by (cases D) auto

lemma chain_mem: "chain a D \<Longrightarrow> (x, p) \<in> set D \<Longrightarrow> a \<le> x \<and> p \<noteq> []"
  by (induction a D rule: chain.induct) fastforce+

lemma chain_cover: "chain a D \<Longrightarrow> n \<in> cover D \<Longrightarrow> a \<le> n"
  by (induction a D rule: chain.induct) fastforce+

lemma cover_mem: "n \<in> cover D \<longleftrightarrow> (\<exists>(x, p) \<in> set D. x \<le> n \<and> n < x + length p)"
  by (induction D rule: cover.induct) auto

lemma finite_cover [simp]: "finite (cover D)"
  by (induction D rule: cover.induct) auto

lemma seg_total_cover: "chain a D \<Longrightarrow> seg_total D = card (cover D)"
proof (induction a D rule: chain.induct)
  case (2 a x p D)
  have "{x..<x + length p} \<inter> cover D = {}" using 2 chain_cover [of "x + length p" D] by fastforce
  then show ?case using 2 by (simp add: card_Un_disjoint)
qed simp

section \<open>Removing overlapped bytes\<close>

fun pos_trim :: "segs \<Rightarrow> nat \<Rightarrow> nat \<Rightarrow> segs \<times> nat \<times> nat" where
  "pos_trim [] h t = ([], h, t)"
| "pos_trim ((x, p) # D) h t =
     (if x \<le> t then
        if h < x + length p then
          if h < x \<and> x + length p < t then pos_trim D h t
          else case pos_trim D (if x \<le> h then x + length p else h) (if t \<le> x + length p then x else t) of (D, r) \<Rightarrow> ((x, p) # D, r)
        else case pos_trim D h t of (D, r) \<Rightarrow> ((x, p) # D, r)
      else ((x, p) # D, h, t))"

lemma pos_trim_stop: "chain a D \<Longrightarrow> t < a \<Longrightarrow> pos_trim D h t = (D, h, t)"
  by (cases D) auto

text \<open>Nothing to add: nothing changes.\<close>

lemma pos_trim_empty: "chain a D \<Longrightarrow> t \<le> h \<Longrightarrow> pos_trim D h t = (D', h', t') \<Longrightarrow> D' = D \<and> t' \<le> h'"
proof (induction D arbitrary: a h t D' h' t')
  case (Cons e D)
  obtain x p where e: "e = (x, p)" by (cases e)
  have c: "chain (x + length p) D" using Cons.prems(1) e by simp
  show ?case
  proof (cases "x \<le> t \<and> h < x + length p")
    case True
    then have "pos_trim D (x + length p) x = (D, x + length p, x)" using Cons.prems(1) e by (intro pos_trim_stop [OF c]) auto
    then show ?thesis using True Cons.prems(2,3) e by auto
  next
    case False
    then show ?thesis using Cons.IH [OF c Cons.prems(2)] Cons.prems(2,3) e by (auto split: if_splits prod.splits)
  qed
qed simp

definition trimmed :: "segs \<Rightarrow> nat \<Rightarrow> nat \<Rightarrow> segs \<times> nat \<times> nat \<Rightarrow> bool" where
  "trimmed D h t r \<longleftrightarrow>
     (case r of (D', h', t') \<Rightarrow>
        if h' < t' then
          (\<forall>(x, p) \<in> set D'. x + length p \<le> h' \<or> t' \<le> x) \<and> cover D' \<union> {h'..<t'} = cover D \<union> {h..<t} \<and> h' \<notin> cover D \<and>
          h \<le> h' \<and> t' \<le> t \<and> set D' \<subseteq> set D
        else D' = D \<and> {h..<t} \<subseteq> cover D)"

lemma pos_trim_ok:
  "chain a D \<Longrightarrow> h < t \<Longrightarrow> trimmed D h t (pos_trim D h t) \<and> chain a (fst (pos_trim D h t))"
proof (induction D arbitrary: a h t)
  case Nil
  then show ?case by (simp add: trimmed_def)
next
  case (Cons e D)
  obtain x p where e: "e = (x, p)" by (cases e)
  let ?l = "x + length p"
  have c: "a \<le> x" "p \<noteq> []" "chain ?l D" using Cons.prems(1) e by simp_all
  have x: "x < ?l" using c(2) by simp
  have above: "?l \<le> n" if "n \<in> cover D" for n using chain_cover [OF c(3) that] .
  consider (behind) "t < x" | (before) "x \<le> t" "?l \<le> h" | (inside) "h < x" "?l < t" | (head) "x \<le> h" "h < ?l" "?l < t"
    | (all) "x \<le> h" "h < ?l" "t \<le> ?l" | (tail) "h < x" "x \<le> t" "t \<le> ?l" by linarith
  then show ?case
  proof cases
    case behind
    have "t < y" if "(y, q) \<in> set D" for y q using behind x chain_mem [OF c(3) that] by simp
    moreover have "h \<notin> cover D" using above [of h] behind x Cons.prems(2) by fastforce
    ultimately show ?thesis using behind Cons.prems e by (fastforce simp: trimmed_def)
  next
    case before
    obtain D' h' t' where r: "pos_trim D h t = (D', h', t')" by (metis prod_cases3)
    then have i: "trimmed D h t (D', h', t')" "chain ?l D'" using Cons.IH [OF c(3) Cons.prems(2)] by simp_all
    then have "trimmed (e # D) h t (e # D', h', t')" using before e by (auto simp: trimmed_def split: if_splits)
    then show ?thesis using before r i(2) c e by simp
  next
    case inside
    obtain D' h' t' where r: "pos_trim D h t = (D', h', t')" by (metis prod_cases3)
    then have i: "trimmed D h t (D', h', t')" "chain ?l D'" using Cons.IH [OF c(3) Cons.prems(2)] by simp_all
    have "h \<notin> cover D" using above [of h] inside x by fastforce
    then have "h' < t'" using i(1) Cons.prems(2) by (auto simp: trimmed_def split: if_splits)
    then have u: "cover D' \<union> {h'..<t'} = cover D \<union> {h..<t}" "set D' \<subseteq> set D" "h \<le> h'" using i(1) by (auto simp: trimmed_def)
    have "cover D' \<subseteq> cover D" using u(2) by (force simp: cover_mem)
    then have "h \<in> {h'..<t'}" using u(1) \<open>h \<notin> cover D\<close> Cons.prems(2) by (metis UnE UnI2 atLeastLessThan_iff order_refl subsetD)
    then have "h' = h" using u(3) by simp
    moreover have "{x..<?l} \<subseteq> {h..<t}" using inside by auto
    then have "cover (e # D) \<union> {h..<t} = cover D \<union> {h..<t}" using e by auto
    ultimately have "trimmed (e # D) h t (D', h', t')" using i(1) inside e \<open>h' < t'\<close> unfolding trimmed_def by auto
    then show ?thesis using inside r chain_weaken [OF i(2)] c(1) x e by simp
  next
    case head
    obtain D' h' t' where r: "pos_trim D ?l t = (D', h', t')" by (metis prod_cases3)
    then have i: "trimmed D ?l t (D', h', t')" "chain ?l D'" using Cons.IH [OF c(3) head(3)] by simp_all
    have "{x..<?l} \<union> {h..<t} = {x..<?l} \<union> {?l..<t}" using head by auto
    then have "cover (e # D) \<union> {h..<t} = {x..<?l} \<union> (cover D \<union> {?l..<t})" using e by auto
    then have "trimmed (e # D) h t (e # D', h', t')" using i(1) head e unfolding trimmed_def by (auto split: if_splits)
    then show ?thesis using head r i(2) c e by simp
  next
    case all
    have "pos_trim D ?l x = (D, ?l, x)" by (rule pos_trim_stop [OF c(3) x])
    then show ?thesis using all x c e Cons.prems by (auto simp: trimmed_def)
  next
    case tail
    have r: "pos_trim D h x = (D, h, x)" by (rule pos_trim_stop [OF c(3) x])
    have "x < y" if "(y, q) \<in> set D" for y q using less_le_trans [OF x conjunct1 [OF chain_mem [OF c(3) that]]] .
    moreover have "h \<notin> cover D" using above [of h] tail x by fastforce
    ultimately have "trimmed (e # D) h t (e # D, h, x)" using tail e by (fastforce simp: trimmed_def)
    then show ?thesis using tail r c e x by simp
  qed
qed

section \<open>Inserting and moving on\<close>

fun pos_put :: "nat \<Rightarrow> u8 list \<Rightarrow> segs \<Rightarrow> segs" where
  "pos_put x p [] = [(x, p)]"
| "pos_put x p ((y, q) # D) = (if x < y then (x, p) # (y, q) # D else (y, q) # pos_put x p D)"

lemma set_pos_put [simp]: "set (pos_put x p D) = insert (x, p) (set D)"
  by (induction D rule: cover.induct) auto

lemma cover_pos_put: "cover (pos_put x p D) = {x..<x + length p} \<union> cover D"
  by (induction D rule: cover.induct) auto

lemma seg_total_pos_put: "seg_total (pos_put x p D) = length p + seg_total D"
  by (induction D rule: cover.induct) auto

lemma chain_pos_put:
  "chain a D \<Longrightarrow> a \<le> x \<Longrightarrow> p \<noteq> [] \<Longrightarrow> \<forall>(y, q) \<in> set D. y + length q \<le> x \<or> x + length p \<le> y \<Longrightarrow> chain a (pos_put x p D)"
proof (induction a D rule: chain.induct)
  case (2 a y q D)
  have "0 < length p" using 2 by simp
  moreover have "y + length q \<le> x \<or> x + length p \<le> y" using 2(5) by simp
  ultimately have "x < y \<or> \<not> x < y \<and> y + length q \<le> x" by linarith
  then show ?case using 2 by auto
qed simp

fun pos_advance :: "segs \<Rightarrow> nat \<Rightarrow> nat" where
  "pos_advance [] n = n"
| "pos_advance ((x, p) # D) n = (if x < n then pos_advance D n else if n < x then n else pos_advance D (x + length p))"

text \<open>The first position that is not held, for segments that do not reach over \<open>n\<close>.\<close>

lemma pos_advance_ok:
  "chain a D \<Longrightarrow> \<forall>(x, p) \<in> set D. x < n \<longrightarrow> x + length p \<le> n \<Longrightarrow>
     n \<le> pos_advance D n \<and> {n..<pos_advance D n} \<subseteq> cover D \<and> pos_advance D n \<notin> cover D \<and>
     (\<forall>(x, p) \<in> set D. x < pos_advance D n \<longrightarrow> x + length p \<le> pos_advance D n)"
proof (induction D arbitrary: a n)
  case (Cons e D)
  obtain x p where e: "e = (x, p)" by (cases e)
  have c: "p \<noteq> []" "chain (x + length p) D" using Cons.prems(1) e by simp_all
  have above: "x + length p \<le> y" if "(y, q) \<in> set D" for y q using chain_mem [OF c(2) that] by simp
  consider "x < n" | "n < x" | "x = n" by linarith
  then show ?case
  proof cases
    case 1
    then have "x + length p \<le> n" using Cons.prems(2) e by auto
    moreover have "\<forall>(x, p) \<in> set D. x < n \<longrightarrow> x + length p \<le> n" using Cons.prems(2) by simp
    note Cons.IH [OF c(2) this]
    ultimately show ?thesis using 1 e by auto
  next
    case 2
    have "n \<notin> cover (e # D)" using chain_cover [OF Cons.prems(1)] chain_cover [OF c(2), of n] 2 e by auto
    moreover have "\<not> y < n" if "(y, q) \<in> set (e # D)" for y q using that above [of y q] 2 e by auto
    ultimately show ?thesis using 2 e by fastforce
  next
    case 3
    have "\<forall>(y, q) \<in> set D. y < x + length p \<longrightarrow> y + length q \<le> x + length p" using above by fastforce
    note i = Cons.IH [OF c(2) this]
    let ?n = "pos_advance D (x + length p)"
    have "{n..<?n} = {x..<x + length p} \<union> {x + length p..<?n}" using 3 i by auto
    then show ?thesis using 3 e i by auto
  qed
qed simp

end
