(* ===== verification/Tcp_Rx_Sim.thy ===== *)
theory Tcp_Rx_Sim
  imports Tcp_Rx_Trim
begin

text \<open>
  The loops of the receive buffer on sequence numbers do what they do on positions, within a window of positions.
\<close>

section \<open>Add\<close>

definition segs_in :: "nat \<Rightarrow> segs \<Rightarrow> bool" where
  "segs_in lo D \<longleftrightarrow> (\<forall>(x, p) \<in> set D. in_win lo x \<and> in_win lo (x + length p))"

lemma segs_in_Cons [simp]: "segs_in lo ((x, p) # D) \<longleftrightarrow> in_win lo x \<and> in_win lo (x + length p) \<and> segs_in lo D"
  by (auto simp: segs_in_def)

lemma end_seqn: "seqn s x + packet_size p = seqn s (x + length p)"
  by (simp add: packet_size_def seqn_add)

lemma of_nat_diff_size: "of_nat (length p + n) - packet_size p = of_nat n"
  by (simp add: packet_size_def)

lemma add_size: "of_nat v + packet_size p = of_nat (v + length p)"
  by (simp add: packet_size_def)

lemma seq_irrefl [simp]: "\<not> seq_gt a a" "\<not> seq_lt a a"
  by (simp_all add: seq_gt_def seq_lt_def)

lemma trim_sim:
  "segs_in lo D \<Longrightarrow> in_win lo h \<Longrightarrow> in_win lo t \<Longrightarrow> pos_trim D h t = (D', h', t') \<Longrightarrow>
     rx_trim (enc s D) (seqn s h) (seqn s t) (of_nat (seg_total D + k)) = (enc s D', seqn s h', seqn s t', of_nat (seg_total D' + k))"
proof (induction D arbitrary: h t k D' h' t')
  case (Cons e D)
  obtain x p where e: "e = (x, p)" by (cases e)
  let ?l = "x + length p"
  have w: "in_win lo x" "in_win lo ?l" "segs_in lo D" using Cons.prems(1) e by simp_all
  note cmp = seq_cmp [OF w(1) Cons.prems(3)] seq_cmp [OF w(2) Cons.prems(2)] seq_cmp [OF w(1) Cons.prems(2)] seq_cmp [OF w(2) Cons.prems(3)]
  show ?case
  proof (cases "x \<le> t \<and> h < ?l \<and> h < x \<and> ?l < t")
    case True
    then have "pos_trim D h t = (D', h', t')" using Cons.prems(4) e by simp
    then show ?thesis using Cons.IH [OF w(3) Cons.prems(2,3), of D' h' t' k] True of_nat_diff_size [of p "seg_total D + k"]
      by (simp add: e cmp end_seqn add.assoc)
  next
    case False
    define h1 t1 where "h1 = (if x \<le> t \<and> h < ?l \<and> x \<le> h then ?l else h)" and "t1 = (if x \<le> t \<and> h < ?l \<and> t \<le> ?l then x else t)"
    have w1: "in_win lo h1" "in_win lo t1" using w Cons.prems(2,3) by (simp_all add: h1_def t1_def)
    show ?thesis
    proof (cases "x \<le> t")
      case True
      obtain D1 where D1: "pos_trim D h1 t1 = (D1, h', t')" "D' = (x, p) # D1"
        using Cons.prems(4) e False True by (auto simp: h1_def t1_def split: prod.splits if_splits)
      note i = Cons.IH [OF w(3) w1 D1(1), of "length p + k"]
      have size: "seg_total (e # D) + k = seg_total D + (length p + k)" by (simp add: e)
      have "rx_trim (enc s (e # D)) (seqn s h) (seqn s t) (of_nat (seg_total (e # D) + k)) =
          (case rx_trim (enc s D) (seqn s h1) (seqn s t1) (of_nat (seg_total D + (length p + k))) of (m, r) \<Rightarrow> ((seqn s x, p) # m, r))"
        unfolding size using True False by (auto simp: e cmp end_seqn h1_def t1_def Let_def)
      then show ?thesis unfolding i by (simp add: D1(2) ac_simps)
    next
      case False
      then have "D' = (x, p) # D" "h' = h" "t' = t" using Cons.prems(4) e by simp_all
      then show ?thesis using False by (simp add: e cmp)
    qed
  qed
qed simp

lemma put_sim:
  "segs_in lo D \<Longrightarrow> in_win lo x \<Longrightarrow> \<forall>(y, q) \<in> set D. y \<noteq> x \<Longrightarrow> rx_put (seqn s x) p (enc s D) = enc s (pos_put x p D)"
  by (induction D rule: cover.induct) (auto simp: seq_cmp)

lemma find_sim: "segs_in lo D \<Longrightarrow> in_win lo x \<Longrightarrow> \<forall>(y, q) \<in> set D. y \<noteq> x \<Longrightarrow> \<not> rx_find (seqn s x) (enc s D)"
proof -
  assume a: "segs_in lo D" "in_win lo x" "\<forall>(y, q) \<in> set D. y \<noteq> x"
  have "seq_lt (seqn s x) (seqn s y) \<or> seq_lt (seqn s y) (seqn s x)" if "(y, q) \<in> set D" for y q
  proof -
    have "in_win lo y" "y \<noteq> x" using a that by (auto simp: segs_in_def)
    then show ?thesis using seq_cmp(2) [OF a(2)] seq_cmp(2) [OF _ a(2)] by auto
  qed
  then show ?thesis unfolding rx_find_def enc_def by fastforce
qed

section \<open>Acknowledged blocks\<close>

definition encB :: "u32 \<Rightarrow> (nat \<times> nat) list \<Rightarrow> SackBlock list" where
  "encB s B = map (\<lambda>(a, b). (seqn s a, seqn s b)) B"

definition blocks_in :: "nat \<Rightarrow> (nat \<times> nat) list \<Rightarrow> bool" where
  "blocks_in lo B \<longleftrightarrow> (\<forall>(a, b) \<in> set B. in_win lo a \<and> in_win lo b \<and> a < b)"

lemma clear_sim: "blocks_in lo B \<Longrightarrow> in_win lo n \<Longrightarrow> ClearSackList (seqn s n) (encB s B) = Some (encB s (filter (\<lambda>(a, b). n < b) B))"
proof (induction B)
  case (Cons e B)
  obtain a b where e: "e = (a, b)" by (cases e)
  then have w: "in_win lo a" "in_win lo b" "a < b" "blocks_in lo B" using Cons.prems(1) by (auto simp: blocks_in_def)
  show ?case using Cons.IH [OF w(4) Cons.prems(2)] w(3) by (auto simp: e encB_def seq_cmp [OF w(1,2)] seq_cmp [OF w(2) Cons.prems(2)])
qed (simp add: encB_def)

lemma blocks_in_filter: "blocks_in lo B \<Longrightarrow> blocks_in lo (filter P B)"
  by (auto simp: blocks_in_def)

lemma advance_sim:
  "segs_in lo D \<Longrightarrow> in_win lo n \<Longrightarrow> blocks_in lo B \<Longrightarrow> chain a D \<Longrightarrow> \<forall>(x, p) \<in> set D. x < n \<longrightarrow> x + length p \<le> n \<Longrightarrow>
     rx_advance (enc s D) (seqn s n) (of_nat v) (encB s B) =
       Some (seqn s (pos_advance D n), of_nat (v + (pos_advance D n - n)),
             encB s (if pos_advance D n = n then B else filter (\<lambda>(a, b). pos_advance D n < b) B))"
proof (induction D arbitrary: a n v B)
  case (Cons e D)
  obtain x p where e: "e = (x, p)" by (cases e)
  have w: "in_win lo x" "in_win lo (x + length p)" "segs_in lo D" and c: "chain (x + length p) D" "p \<noteq> []" using Cons.prems(1,4) e by simp_all
  note cmp = seq_cmp [OF w(1) Cons.prems(2)]
  show ?case
  proof (cases x n rule: linorder_cases)
    case less
    have "\<forall>(x, p) \<in> set D. x < n \<longrightarrow> x + length p \<le> n" using Cons.prems(5) by simp
    then show ?thesis using less Cons.IH [OF w(3) Cons.prems(2,3) c(1), of v] by (simp add: e cmp)
  next
    case greater
    then show ?thesis by (simp add: e cmp)
  next
    case True: equal
    let ?l = "x + length p" and ?B = "filter (\<lambda>(a, b). x + length p < b) B"
    let ?n = "pos_advance D ?l"
    have above: "\<forall>(y, q) \<in> set D. y < ?l \<longrightarrow> y + length q \<le> ?l" using chain_mem [OF c(1)] by fastforce
    note i = Cons.IH [OF w(3,2) blocks_in_filter [OF Cons.prems(3)] c(1) above, of "v + length p" "\<lambda>(a, b). ?l < b"]
    have "?l \<le> ?n" using pos_advance_ok [OF c(1) above] by blast
    then have f: "(if ?n = ?l then ?B else filter (\<lambda>(a, b). ?n < b) ?B) = filter (\<lambda>(a, b). ?n < b) B" by (auto intro!: filter_cong)
    have ne: "?n \<noteq> n" using \<open>?l \<le> ?n\<close> True c(2) by (metis add_le_same_cancel1 le_zero_eq length_0_conv)
    have size: "v + length p + (?n - ?l) = v + (?n - n)" using \<open>?l \<le> ?n\<close> True by simp
    have "rx_advance (enc s (e # D)) (seqn s n) (of_nat v) (encB s B) = rx_advance (enc s D) (seqn s ?l) (of_nat (v + length p)) (encB s ?B)"
      using True clear_sim [OF Cons.prems(3) w(2), of s] by (simp add: e end_seqn add_size Let_def del: of_nat_add)
    then show ?thesis unfolding i f size using ne True by (simp add: e)
  qed
qed simp

function pos_merge :: "nat \<times> nat \<Rightarrow> (nat \<times> nat) list \<Rightarrow> (nat \<times> nat) list \<Rightarrow> (nat \<times> nat) list" where
  "pos_merge c seen [] = c # seen"
| "pos_merge c seen (d # todo) =
     (if fst c = snd d then pos_merge (fst d, snd c) [] (seen @ todo)
      else if snd c = fst d then pos_merge (fst c, snd d) [] (seen @ todo)
      else pos_merge c (seen @ [d]) todo)"
  by pat_completeness auto
termination pos_merge
  by (relation "measures [\<lambda>(b, seen, todo). length seen + length todo, \<lambda>(b, seen, todo). length todo]") auto

lemma encB_simps [simp]: "encB s [] = []" "encB s (c # B) = (seqn s (fst c), seqn s (snd c)) # encB s B" "encB s (B @ B') = encB s B @ encB s B'"
  "length (encB s B) = length B" "butlast (encB s B) = encB s (butlast B)"
  by (simp_all add: encB_def case_prod_beta map_butlast)

lemma blocks_in_simps [simp]: "blocks_in lo []" "blocks_in lo (c # B) \<longleftrightarrow> in_win lo (fst c) \<and> in_win lo (snd c) \<and> fst c < snd c \<and> blocks_in lo B"
  "blocks_in lo (B @ B') \<longleftrightarrow> blocks_in lo B \<and> blocks_in lo B'"
  by (auto simp: blocks_in_def)

lemma merge_sim:
  "in_win lo (fst c) \<Longrightarrow> in_win lo (snd c) \<Longrightarrow> fst c < snd c \<Longrightarrow> blocks_in lo seen \<Longrightarrow> blocks_in lo todo \<Longrightarrow>
     sack_merge (seqn s (fst c), seqn s (snd c)) (encB s seen) (encB s todo) = Some (encB s (pos_merge c seen todo))"
proof (induction c seen todo rule: pos_merge.induct)
  case (2 c seen d todo)
  have w: "in_win lo (fst d)" "in_win lo (snd d)" "fst d < snd d" "blocks_in lo todo" using 2(8) by simp_all
  note cmp = seq_cmp [OF 2(4) w(2)] seq_cmp [OF 2(5) w(1)] seq_cmp [OF w(1) 2(5)] seq_cmp [OF 2(4) w(2)]
  show ?case
  proof (cases "fst c = snd d")
    case True
    then show ?thesis using "2.IH"(1) 2(4-8) w cmp by auto
  next
    case False
    then show ?thesis using "2.IH"(2,3) 2(4-8) w cmp by auto
  qed
qed simp

text \<open>The merged list covers the same positions; its first block contains the new one.\<close>

definition block_set :: "(nat \<times> nat) list \<Rightarrow> nat set" where
  "block_set B = (\<Union>(a, b) \<in> set B. {a..<b})"

lemma block_set_simps [simp]: "block_set [] = {}" "block_set (c # B) = {fst c..<snd c} \<union> block_set B" "block_set (B @ B') = block_set B \<union> block_set B'"
  by (auto simp: block_set_def)

lemma pos_merge_ok:
  "fst c < snd c \<Longrightarrow> \<forall>(a, b) \<in> set (seen @ todo). a < b \<Longrightarrow>
     block_set (pos_merge c seen todo) = {fst c..<snd c} \<union> block_set seen \<union> block_set todo \<and>
     (\<forall>(a, b) \<in> set (pos_merge c seen todo). a < b) \<and>
     (\<exists>a b B. pos_merge c seen todo = (a, b) # B \<and> a \<le> fst c \<and> snd c \<le> b) \<and>
     length (pos_merge c seen todo) \<le> Suc (length seen + length todo)"
proof (induction c seen todo rule: pos_merge.induct)
  case (1 c seen)
  then show ?case by (cases c) auto
next
  case (2 c seen d todo)
  have d: "fst d < snd d" using 2(5) by auto
  consider (left) "fst c = snd d" | (right) "fst c \<noteq> snd d" "snd c = fst d" | (apart) "fst c \<noteq> snd d" "snd c \<noteq> fst d" by blast
  then show ?case
  proof cases
    case left
    let ?m = "(fst d, snd c)"
    have s: "{fst ?m..<snd ?m} = {fst c..<snd c} \<union> {fst d..<snd d}" and le: "fst ?m \<le> fst c" "snd c \<le> snd ?m" using left d 2(4) by auto
    have "fst ?m < snd ?m" "\<forall>(a, b) \<in> set ([] @ seen @ todo). a < b" using 2(4,5) d left by auto
    note i = "2.IH"(1) [OF left this]
    obtain a b B where f: "pos_merge ?m [] (seen @ todo) = (a, b) # B" "a \<le> fst ?m" "snd ?m \<le> b" using i by blast
    have e: "pos_merge c seen (d # todo) = pos_merge ?m [] (seen @ todo)" using left by simp
    have "block_set (pos_merge ?m [] (seen @ todo)) = {fst c..<snd c} \<union> block_set seen \<union> block_set (d # todo)"
      using conjunct1 [OF i] s by auto
    moreover have "length (pos_merge ?m [] (seen @ todo)) \<le> Suc (length seen + length (d # todo))"
      using conjunct2 [OF conjunct2 [OF conjunct2 [OF i]]] by simp
    moreover note conjunct1 [OF conjunct2 [OF i]] f(1) order_trans [OF f(2) le(1)] order_trans [OF le(2) f(3)]
    ultimately show ?thesis unfolding e by blast
  next
    case right
    let ?m = "(fst c, snd d)"
    have s: "{fst ?m..<snd ?m} = {fst c..<snd c} \<union> {fst d..<snd d}" and le: "fst ?m \<le> fst c" "snd c \<le> snd ?m" using right d 2(4) by auto
    have "fst ?m < snd ?m" "\<forall>(a, b) \<in> set ([] @ seen @ todo). a < b" using 2(4,5) d right by auto
    note i = "2.IH"(2) [OF right this]
    obtain a b B where f: "pos_merge ?m [] (seen @ todo) = (a, b) # B" "a \<le> fst ?m" "snd ?m \<le> b" using i by blast
    have e: "pos_merge c seen (d # todo) = pos_merge ?m [] (seen @ todo)" using right by simp
    have "block_set (pos_merge ?m [] (seen @ todo)) = {fst c..<snd c} \<union> block_set seen \<union> block_set (d # todo)"
      using conjunct1 [OF i] s by auto
    moreover have "length (pos_merge ?m [] (seen @ todo)) \<le> Suc (length seen + length (d # todo))"
      using conjunct2 [OF conjunct2 [OF conjunct2 [OF i]]] by simp
    moreover note conjunct1 [OF conjunct2 [OF i]] f(1) order_trans [OF f(2) le(1)] order_trans [OF le(2) f(3)]
    ultimately show ?thesis unfolding e by blast
  next
    case apart
    have "\<forall>(a, b) \<in> set ((seen @ [d]) @ todo). a < b" using 2(5) by simp
    note i = "2.IH"(3) [OF apart 2(4) this]
    have e: "pos_merge c seen (d # todo) = pos_merge c (seen @ [d]) todo" using apart by simp
    have "block_set (pos_merge c (seen @ [d]) todo) = {fst c..<snd c} \<union> block_set seen \<union> block_set (d # todo)"
      using conjunct1 [OF i] by auto
    moreover have "length (pos_merge c (seen @ [d]) todo) \<le> Suc (length seen + length (d # todo))"
      using conjunct2 [OF conjunct2 [OF conjunct2 [OF i]]] by simp
    ultimately show ?thesis unfolding e using conjunct2 [OF i] by blast
  qed
qed

lemma pos_merge_ends:
  "P (fst c) \<Longrightarrow> P (snd c) \<Longrightarrow> \<forall>(a, b) \<in> set (seen @ todo). P a \<and> P b \<Longrightarrow> \<forall>(a, b) \<in> set (pos_merge c seen todo). P a \<and> P b"
proof (induction c seen todo rule: pos_merge.induct)
  case (1 c seen)
  then show ?case by (cases c) auto
next
  case (2 c seen d todo)
  have d: "P (fst d)" "P (snd d)" "\<forall>(a, b) \<in> set ([] @ seen @ todo). P a \<and> P b" "\<forall>(a, b) \<in> set ((seen @ [d]) @ todo). P a \<and> P b"
    using 2(6) by auto
  consider (left) "fst c = snd d" | (right) "fst c \<noteq> snd d" "snd c = fst d" | (apart) "fst c \<noteq> snd d" "snd c \<noteq> fst d" by blast
  then show ?case
  proof cases
    case left
    then show ?thesis using "2.IH"(1) [OF left, unfolded fst_conv snd_conv, OF d(1) 2(5) d(3)] by simp
  next
    case right
    then show ?thesis using "2.IH"(2) [OF right, unfolded fst_conv snd_conv, OF 2(4) d(2,3)] by simp
  next
    case apart
    then show ?thesis using "2.IH"(3) [OF apart 2(4,5) d(4)] by simp
  qed
qed

section \<open>Extract\<close>

definition contents :: "(nat \<Rightarrow> u8) \<Rightarrow> segs \<Rightarrow> bool" where
  "contents stream D \<longleftrightarrow> (\<forall>(x, p) \<in> set D. p = map stream [x..<x + length p])"

lemma contents_Cons [simp]: "contents stream ((x, p) # D) \<longleftrightarrow> p = map stream [x..<x + length p] \<and> contents stream D"
  by (auto simp: contents_def)

lemma fragment_ok: "n + k \<le> length p \<Longrightarrow> length p < 2 ^ 32 \<Longrightarrow> fragment (of_nat n) (of_nat k) p = Some (take k (drop n p))"
  by (simp add: fragment_def unat_of_nat take_bit_nat_eq_self)

lemma chain_first:
  assumes "chain d D" and "d \<in> cover D"
  shows "\<exists>p D1. D = (d, p) # D1 \<and> p \<noteq> [] \<and> chain (d + length p) D1"
proof (cases D)
  case Nil
  then show ?thesis using assms(2) by simp
next
  case (Cons e D1)
  obtain x p where e: "e = (x, p)" by (cases e)
  have c: "d \<le> x" "p \<noteq> []" "chain (x + length p) D1" using assms(1) Cons e by simp_all
  have "x \<le> d" using assms(2) chain_cover [OF c(3), of d] Cons e by auto
  then show ?thesis using c Cons e by auto
qed

text \<open>Extract takes the first \<open>k\<close> bytes, for segments that start at \<open>d\<close> and hold them.\<close>

lemma extract_sim:
  assumes "segs_in lo D" and "in_win lo n" and "chain d D" and "contents stream D" and "{d..<d + k} \<subseteq> cover D" and "d + k \<le> n"
    and "k < 2 ^ 31" and "\<forall>(x, p) \<in> set D. x < n \<longrightarrow> x + length p \<le> n"
  shows "\<exists>D'. rx_extract_loop (of_nat k) (enc s D) (seqn s n) (of_nat (seg_total D + j)) (of_nat (k + v)) out =
      Some (out @ map stream [d..<d + k], enc s D', of_nat (seg_total D' + j), of_nat v) \<and>
    chain (d + k) D' \<and> cover D' = cover D - {d..<d + k} \<and> contents stream D' \<and> (\<forall>(x, p) \<in> set D'. x < n \<longrightarrow> x + length p \<le> n)"
  using assms
proof (induction D arbitrary: d k out)
  case Nil
  then have "k = 0" by simp
  then show ?case using Nil by (intro exI [of _ "[]"]) (simp add: contents_def)
next
  case (Cons e D)
  show ?case
  proof (cases "k = 0")
    case True
    then show ?thesis using Cons.prems by (intro exI [of _ "e # D"]) (cases e, simp)
  next
    case False
    then have "d \<in> cover (e # D)" using Cons.prems(5) by auto
    then obtain p where e: "e = (d, p)" and c: "p \<noteq> []" "chain (d + length p) D" using chain_first [OF Cons.prems(3)] by auto
    have w: "in_win lo d" "in_win lo (d + length p)" "segs_in lo D" using Cons.prems(1) e by simp_all
    have p: "p = map stream [d..<d + length p]" "contents stream D" using Cons.prems(4) e by simp_all
    have len: "length p < 2 ^ 31" using w(1,2) by (simp add: in_win_def)
    have le: "seq_le (seqn s d) (seqn s n)" using seq_cmp(3) [OF w(1) Cons.prems(2)] Cons.prems(6) by simp
    have uk: "unat (of_nat k :: u32) = k" "unat (packet_size p) = length p"
      using Cons.prems(7) len by (simp_all add: unat_diff_small packet_size_def)
    then have k0: "(of_nat k :: u32) \<noteq> 0" using False by (metis unat_0)
    have above: "d + length p \<le> y" if "y \<in> cover D" for y using chain_cover [OF c(2) that] .
    show ?thesis
    proof (cases "length p \<le> k")
      case True
      let ?d = "d + length p" and ?k = "k - length p"
      have dk: "?d + ?k = d + k" using True by simp
      have "{?d..<?d + ?k} \<subseteq> cover D" unfolding dk
      proof
        fix y assume y: "y \<in> {?d..<d + k}"
        then have "y \<in> cover (e # D)" using Cons.prems(5) by (meson atLeastLessThan_iff le_add1 order_trans subsetD)
        then show "y \<in> cover D" using y e by simp
      qed
      moreover have "?d + ?k \<le> n" "?k < 2 ^ 31" "\<forall>(x, p) \<in> set D. x < n \<longrightarrow> x + length p \<le> n" using Cons.prems(6-8) True by simp_all
      ultimately obtain D' where i: "rx_extract_loop (of_nat ?k) (enc s D) (seqn s n) (of_nat (seg_total D + j)) (of_nat (?k + v)) (out @ p) =
          Some ((out @ p) @ map stream [?d..<?d + ?k], enc s D', of_nat (seg_total D' + j), of_nat v)" "chain (?d + ?k) D'"
        "cover D' = cover D - {?d..<?d + ?k}" "contents stream D'" "\<forall>(x, p) \<in> set D'. x < n \<longrightarrow> x + length p \<le> n"
        using Cons.IH [OF w(3) Cons.prems(2) c(2) p(2), of ?k "out @ p"] by blast
      have "packet_size p \<le> (of_nat k :: u32)" using True uk by (simp add: word_le_nat_alt)
      moreover have "(of_nat k :: u32) - packet_size p = of_nat ?k" "of_nat (k + v) - packet_size p = (of_nat (?k + v) :: u32)"
        using True by (simp_all add: packet_size_def of_nat_diff)
      moreover have "of_nat (seg_total (e # D) + j) - packet_size p = (of_nat (seg_total D + j) :: u32)"
        using of_nat_diff_size [of p "seg_total D + j"] e by (simp add: add.assoc)
      ultimately have "rx_extract_loop (of_nat k) (enc s (e # D)) (seqn s n) (of_nat (seg_total (e # D) + j)) (of_nat (k + v)) out =
          rx_extract_loop (of_nat ?k) (enc s D) (seqn s n) (of_nat (seg_total D + j)) (of_nat (?k + v)) (out @ p)"
        using k0 le e by (simp only: enc_simps rx_extract_loop.simps Let_def if_True if_False)
      moreover have "p @ map stream [?d..<d + k] = map stream [d..<d + k]"
        using p(1) True upt_add_eq_append [of d "d + length p" "k - length p"] by (metis dk le_add1 map_append)
      moreover have "cover D' = cover (e # D) - {d..<d + k}" unfolding i(3) dk using e above True by fastforce
      ultimately show ?thesis using i(1,2,4,5) unfolding dk by (intro exI [of _ D']) simp
    next
      case False
      let ?D = "(d + k, drop k p) # D"
      have wk: "in_win lo (d + k)" using w(1,2) False by (simp add: in_win_def)
      have f: "fragment 0 (of_nat k) p = Some (take k p)" "fragment (of_nat k) (packet_size p - of_nat k) p = Some (drop k p)"
        using fragment_ok [of 0 k p] fragment_ok [of k "length p - k" p] False len by (simp_all add: packet_size_def of_nat_diff)
      have "rx_put (seqn s (d + k)) r (enc s D) = (seqn s (d + k), r) # enc s D" for r
        using w(3) c(2) False by (cases D) (auto simp: seq_cmp [OF wk])
      then have "rx_put (seqn s d + of_nat k) r (enc s (e # D)) = (seqn s d, p) # (seqn s (d + k), r) # enc s D" for r
        using seq_cmp [OF w(1) wk] seq_cmp [OF wk w(1)] \<open>k \<noteq> 0\<close> by (simp add: e seqn_add)
      moreover have "filter (\<lambda>e. fst e \<noteq> seqn s d) (enc s D) = enc s D"
      proof -
        have "seqn s y \<noteq> seqn s d" if "(y, q) \<in> set D" for y q
        proof -
          have "d < d + length p" using c(1) by simp
          then have "d < y" using conjunct1 [OF chain_mem [OF c(2) that]] by (rule less_le_trans)
          moreover have "in_win lo y" using w(3) that by (auto simp: segs_in_def)
          ultimately show ?thesis using seq_cmp(5) [OF _ w(1)] by auto
        qed
        then show ?thesis by (intro filter_True) (auto simp: enc_def)
      qed
      ultimately have "filter (\<lambda>e. fst e \<noteq> seqn s d) (rx_put (seqn s d + of_nat k) (drop k p) (enc s (e # D))) = enc s ?D"
        using seq_cmp(5) [OF wk w(1)] \<open>k \<noteq> 0\<close> by simp
      moreover have "\<not> packet_size p \<le> (of_nat k :: u32)" using False uk by (simp add: word_le_nat_alt)
      moreover have "of_nat (seg_total (e # D) + j) - of_nat k = (of_nat (seg_total ?D + j) :: u32)"
        using False e by (simp add: of_nat_diff)
      ultimately have "rx_extract_loop (of_nat k) (enc s (e # D)) (seqn s n) (of_nat (seg_total (e # D) + j)) (of_nat (k + v)) out =
          Some (out @ take k p, enc s ?D, of_nat (seg_total ?D + j), of_nat v)"
        using k0 le f e by simp
      moreover have "take k p = map stream [d..<d + k]" "drop k p = map stream [d + k..<d + length p]"
        using p(1) False by (metis add_le_cancel_left nat_le_linear take_map take_upt, metis drop_map drop_upt)
      moreover have "cover ?D = cover (e # D) - {d..<d + k}" using e above False by fastforce
      moreover have "chain (d + k) ?D" using c False by simp
      moreover have "\<forall>(x, p) \<in> set ?D. x < n \<longrightarrow> x + length p \<le> n" using Cons.prems(6,8) e False \<open>k \<noteq> 0\<close> by auto
      ultimately show ?thesis using p(2) False by (intro exI [of _ ?D]) simp
    qed
  qed
qed

end
