(* ===== verification/Tcp_Rx_Correct.thy ===== *)
theory Tcp_Rx_Correct
  imports Tcp_Rx_Sim
begin

text \<open>
  The receive buffer implements the reassembly of a byte stream: whatever the order, the overlaps and the repetitions of the segments are, it
  holds the set of bytes that arrived in its window and delivers the stream in order.
\<close>

section \<open>Specification\<close>

text \<open>How many bytes were delivered, which positions behind them are held, and whether the end of the stream is known.\<close>

record rx_spec =
  sp_delivered :: nat
  sp_held :: "nat set"
  sp_fin :: bool

definition first_gap :: "nat \<Rightarrow> nat set \<Rightarrow> nat" where
  "first_gap d S = (LEAST n. d \<le> n \<and> n \<notin> S)"

definition sp_next :: "rx_spec \<Rightarrow> nat" where
  "sp_next st = first_gap (sp_delivered st) (sp_held st)"

text \<open>A segment from \<open>x\<close> to \<open>x + n\<close> is cut at the next expected byte and at the end of the window of size \<open>M\<close>.\<close>

definition sp_accepted :: "nat \<Rightarrow> nat \<Rightarrow> nat \<Rightarrow> rx_spec \<Rightarrow> nat set" where
  "sp_accepted M x n st =
     {max x (sp_next st)..<if sp_held st = {} then x + n else min (x + n) (Min (sp_held st) + M)}"

definition sp_Add :: "nat \<Rightarrow> nat \<Rightarrow> nat \<Rightarrow> rx_spec \<Rightarrow> bool \<times> rx_spec" where
  "sp_Add M x n st =
     (\<not> sp_accepted M x n st \<subseteq> sp_held st, st\<lparr>sp_held := sp_held st \<union> sp_accepted M x n st\<rparr>)"

definition sp_Extract :: "(nat \<Rightarrow> u8) \<Rightarrow> nat \<Rightarrow> rx_spec \<Rightarrow> u8 list \<times> rx_spec" where
  "sp_Extract stream n st =
     (let d = sp_delivered st; k = min n (sp_next st - d)
      in (map stream [d..<d + k], st\<lparr>sp_delivered := d + k, sp_held := sp_held st - {d..<d + k}\<rparr>))"

section \<open>Refinement relation\<close>

text \<open>All positions are within \<open>2 ^ 29\<close> of the next expected byte.\<close>

abbreviation rx_reach :: nat where
  "rx_reach \<equiv> 2 ^ 29"

definition rx_core :: "(nat \<Rightarrow> u8) \<Rightarrow> u32 \<Rightarrow> nat \<Rightarrow> nat \<Rightarrow> segs \<Rightarrow> (nat \<times> nat) list \<Rightarrow> bool" where
  "rx_core stream s d N D B \<longleftrightarrow>
     chain d D \<and> contents stream D \<and> d \<le> N \<and> {d..<N} \<subseteq> cover D \<and> N \<notin> cover D \<and>
     (\<forall>(x, p) \<in> set D. x < N \<longrightarrow> x + length p \<le> N) \<and> cover D \<subseteq> {..<d + rx_reach} \<and>
     (\<forall>(a, b) \<in> set B. N < a \<and> a < b \<and> {a..<b} \<subseteq> cover D) \<and> length B \<le> 4"

definition rx_rel :: "(nat \<Rightarrow> u8) \<Rightarrow> nat \<Rightarrow> nat \<Rightarrow> u32 \<Rightarrow> rx_spec \<Rightarrow> TcpRxBuffer \<Rightarrow> bool" where
  "rx_rel stream L M s st b \<longleftrightarrow>
     (\<exists>N D B. rx_core stream s (sp_delivered st) N D B \<and> cover D = sp_held st \<and> cover D \<subseteq> {..<L} \<and> N \<le> L \<and>
        rx_data b = enc s D \<and> rx_sackList b = encB s B \<and> rx_size b = of_nat (seg_total D) \<and>
        rx_availBytes b = of_nat (N - sp_delivered st) \<and> unat (rx_maxBuffer b) = M \<and> M \<le> rx_reach \<and>
        rx_gotFin b = sp_fin st \<and> (sp_fin st \<longrightarrow> rx_finSeq b = seqn s L \<and> L \<le> N + rx_reach) \<and>
        rx_nextRxSeq b = seqn s (if sp_fin st \<and> N = L then N + 1 else N))"

lemma rx_core_next: "rx_core stream s d N D B \<Longrightarrow> first_gap d (cover D) = N"
  unfolding first_gap_def by (rule Least_equality) (auto simp: rx_core_def not_less [symmetric])

definition win_lo :: "nat \<Rightarrow> nat" where
  "win_lo N = N - rx_reach"

lemma in_win_near: "N \<le> x + rx_reach \<Longrightarrow> x \<le> N + 2 * rx_reach \<Longrightarrow> in_win (win_lo N) x"
  by (auto simp: in_win_def win_lo_def)

lemma rx_core_bounds: "rx_core stream s d N D B \<Longrightarrow> d \<le> N \<and> N \<le> d + rx_reach \<and> (\<forall>n \<in> cover D. d \<le> n \<and> n < d + rx_reach)"
proof -
  assume a: "rx_core stream s d N D B"
  have "N \<le> d + rx_reach"
  proof (cases "d < N")
    case True
    then have "N - 1 \<in> {d..<N}" by auto
    then have "N - 1 \<in> {..<d + rx_reach}" using a unfolding rx_core_def by blast
    then show ?thesis by simp
  qed simp
  then show ?thesis using a chain_cover [of d D] by (auto simp: rx_core_def)
qed

lemma rx_core_segs: "rx_core stream s d N D B \<Longrightarrow> segs_in (win_lo N) D"
proof -
  assume a: "rx_core stream s d N D B"
  have "in_win (win_lo N) x \<and> in_win (win_lo N) (x + length p)" if "(x, p) \<in> set D" for x p
  proof -
    have x: "d \<le> x" "p \<noteq> []" using chain_mem [of d D x p] a that by (auto simp: rx_core_def)
    then have "x \<le> x + length p - 1 \<and> x + length p - 1 < x + length p" by (cases p) auto
    then have "x + length p - 1 \<in> cover D" using that unfolding cover_mem by blast
    then have "N \<le> x + rx_reach" "x + length p \<le> N + 2 * rx_reach" using rx_core_bounds [OF a] x by fastforce+
    then show ?thesis by (auto intro!: in_win_near)
  qed
  then show ?thesis by (auto simp: segs_in_def)
qed

lemma rx_core_blocks: "rx_core stream s d N D B \<Longrightarrow> blocks_in (win_lo N) B"
proof -
  assume a: "rx_core stream s d N D B"
  have "in_win (win_lo N) x \<and> in_win (win_lo N) y \<and> x < y" if "(x, y) \<in> set B" for x y
  proof -
    have x: "N < x" "x < y" "{x..<y} \<subseteq> cover D" using a that by (auto simp: rx_core_def)
    then have "y - 1 \<in> cover D" by auto
    then have "y \<le> N + 2 * rx_reach" using rx_core_bounds [OF a] by fastforce
    then show ?thesis using x by (auto intro!: in_win_near)
  qed
  then show ?thesis by (auto simp: blocks_in_def)
qed

section \<open>Add\<close>

text \<open>The blocks after new data from \<open>h\<close> to \<open>t\<close>, before the next expected byte moves on.\<close>

definition new_blocks :: "nat \<Rightarrow> nat \<Rightarrow> nat \<Rightarrow> (nat \<times> nat) list \<Rightarrow> (nat \<times> nat) list" where
  "new_blocks N h t B =
     (if N < h then let R = pos_merge (h, t) [] B in if 4 < length R then butlast R else R else B)"

lemma new_blocks_ok:
  assumes "h < t" and "\<forall>(a, b) \<in> set B. N < a \<and> a < b \<and> {a..<b} \<subseteq> S" and "{h..<t} \<subseteq> S" and "length B \<le> 4"
  shows "(\<forall>(a, b) \<in> set (new_blocks N h t B). N < a \<and> a < b \<and> {a..<b} \<subseteq> S) \<and> length (new_blocks N h t B) \<le> 4"
proof (cases "N < h")
  case True
  let ?R = "pos_merge (h, t) [] B"
  have B: "\<forall>(a, b) \<in> set ([] @ B). a < b" "\<forall>(a, b) \<in> set ([] @ B). N < a \<and> N < b" using assms(2) by fastforce+
  note m = pos_merge_ok [of "(h, t)", unfolded fst_conv snd_conv, OF assms(1) B(1)]
  have "block_set B \<subseteq> S" using assms(2) by (fastforce simp: block_set_def)
  then have "block_set ?R \<subseteq> S" using m assms(3) by auto
  then have s: "{a..<b} \<subseteq> S" if "(a, b) \<in> set ?R" for a b using that unfolding block_set_def by blast
  have n: "\<forall>(a, b) \<in> set ?R. N < a \<and> N < b" by (rule pos_merge_ends) (use True assms(1) B(2) in simp_all)
  have lt: "\<forall>(a, b) \<in> set ?R. a < b" using m by blast
  have all: "\<forall>(a, b) \<in> set ?R. N < a \<and> a < b \<and> {a..<b} \<subseteq> S" using s n lt by blast
  have l: "length ?R \<le> 5" using m assms(4) by simp
  have e: "new_blocks N h t B = (if 4 < length ?R then butlast ?R else ?R)" using True by (simp add: new_blocks_def Let_def)
  then have "set (new_blocks N h t B) \<subseteq> set ?R" by (auto dest: in_set_butlastD)
  moreover have "length (new_blocks N h t B) \<le> 4" unfolding e using l by (simp add: le_diff_conv)
  ultimately show ?thesis using all by blast
next
  case False
  then show ?thesis using assms(2,4) by (simp add: new_blocks_def)
qed

lemma core_add:
  assumes "rx_core stream s d N D B" and "h < t" and "N \<le> h" and "t \<le> d + rx_reach"
    and "pos_trim D h t = (D', h', t')" and "h' < t'"
  defines "D2 \<equiv> pos_put h' (map stream [h'..<t']) D'"
  defines "N2 \<equiv> pos_advance D2 N"
  shows "rx_core stream s d N2 D2 (if N2 = N then new_blocks N h' t' B else filter (\<lambda>(a, b). N2 < b) (new_blocks N h' t' B))"
    and "cover D2 = cover D \<union> {h..<t}" and "N \<le> N2" and "seg_total D2 = (t' - h') + seg_total D'"
    and "\<forall>(x, p) \<in> set D2. x < N \<longrightarrow> x + length p \<le> N" and "chain d D2" and "h' \<notin> cover D"
    and "\<forall>(a, b) \<in> set (new_blocks N h' t' B). N < a \<and> a < b \<and> {a..<b} \<subseteq> cover D2"
proof -
  have c: "chain d D" "contents stream D" "d \<le> N" "{d..<N} \<subseteq> cover D" "N \<notin> cover D" "\<forall>(x, p) \<in> set D. x < N \<longrightarrow> x + length p \<le> N"
    "cover D \<subseteq> {..<d + rx_reach}" "\<forall>(a, b) \<in> set B. N < a \<and> a < b \<and> {a..<b} \<subseteq> cover D" "length B \<le> 4" using assms(1) by (auto simp: rx_core_def)
  have tr: "trimmed D h t (D', h', t')" "chain d D'" using pos_trim_ok [OF c(1) assms(2)] assms(5) by simp_all
  then have tr': "\<forall>(x, p) \<in> set D'. x + length p \<le> h' \<or> t' \<le> x" "cover D' \<union> {h'..<t'} = cover D \<union> {h..<t}" "h' \<notin> cover D"
    "h \<le> h'" "t' \<le> t" "set D' \<subseteq> set D" using assms(6) by (simp_all add: trimmed_def)
  show "h' \<notin> cover D" by (rule tr'(3))
  have len: "h' + length (map stream [h'..<t']) = t'" using assms(6) by simp
  show cov: "cover D2 = cover D \<union> {h..<t}" unfolding D2_def cover_pos_put len using tr'(2) by auto
  show ch: "chain d D2" unfolding D2_def
    by (rule chain_pos_put [OF tr(2)]) (use tr'(1,4) assms(3,6) c(3) len in auto)
  show al: "\<forall>(x, p) \<in> set D2. x < N \<longrightarrow> x + length p \<le> N" unfolding D2_def using c(6) tr'(4,6) assms(3) by auto
  have con: "contents stream D2" unfolding D2_def using c(2) tr'(6) len by (auto simp: contents_def)
  note ad = pos_advance_ok [OF ch al, folded N2_def]
  show "N \<le> N2" using ad by blast
  show "seg_total D2 = (t' - h') + seg_total D'" unfolding D2_def by (simp add: seg_total_pos_put)
  have B1: "\<forall>(a, b) \<in> set B. N < a \<and> a < b \<and> {a..<b} \<subseteq> cover D2" unfolding cov using c(8) by fastforce
  have "{h'..<t'} \<subseteq> cover D2" unfolding cov using tr'(2) by auto
  note nb = new_blocks_ok [OF assms(6) B1 this c(9)]
  show "\<forall>(a, b) \<in> set (new_blocks N h' t' B). N < a \<and> a < b \<and> {a..<b} \<subseteq> cover D2" by (rule conjunct1 [OF nb])
  let ?B = "if N2 = N then new_blocks N h' t' B else filter (\<lambda>(a, b). N2 < b) (new_blocks N h' t' B)"
  have "N2 < a \<and> a < b \<and> {a..<b} \<subseteq> cover D2" if m: "(a, b) \<in> set ?B" for a b
  proof -
    have ab: "N < a" "a < b" "{a..<b} \<subseteq> cover D2" using m nb by (auto split: if_splits)
    show ?thesis
    proof (cases "N2 = N")
      case False
      then have "N2 < b" using m by simp
      then have "\<not> a \<le> N2" using ab(3) ad by (meson atLeastLessThan_iff subsetD)
      then show ?thesis using ab by simp
    qed (use ab in simp)
  qed
  moreover have "length ?B \<le> 4" using nb le_trans [OF length_filter_le] by auto
  moreover have "{d..<N2} \<subseteq> cover D2"
  proof -
    have "{d..<N2} \<subseteq> {d..<N} \<union> {N..<N2}" by auto
    then show ?thesis using c(4) ad cov by blast
  qed
  moreover have "cover D2 \<subseteq> {..<d + rx_reach}" unfolding cov using c(7) assms(4) by auto
  moreover have "d \<le> N2" using c(3) ad by linarith
  ultimately show "rx_core stream s d N2 D2 ?B" unfolding rx_core_def using ch con ad by blast
qed

lemma cover_first: "chain a ((x, p) # D) \<Longrightarrow> Min (cover ((x, p) # D)) = x"
proof (rule Min_eqI)
  assume c: "chain a ((x, p) # D)"
  show "x \<in> cover ((x, p) # D)" using c by simp
  show "x \<le> n" if "n \<in> cover ((x, p) # D)" for n using that chain_cover [of "x + length p" D n] c by auto
qed simp

lemma cover_empty: "chain a D \<Longrightarrow> cover D = {} \<longleftrightarrow> D = []"
  by (cases D) auto

text \<open>The window of the specification, on positions.\<close>

definition win_end :: "nat \<Rightarrow> nat \<Rightarrow> segs \<Rightarrow> nat" where
  "win_end M e D = (case D of [] \<Rightarrow> e | (x, p) # D1 \<Rightarrow> min e (x + M))"

lemma window_sim:
  assumes "segs_in lo D" and "in_win lo x" and "in_win lo e" and "in_win lo n" and "\<forall>(y, p) \<in> set D. in_win lo (y + M)"
    and "rx_data b = enc s D" and "rx_nextRxSeq b = seqn s n" and "rx_maxBuffer b = of_nat M"
  defines "t \<equiv> win_end M e D"
  shows "rx_window b (seqn s x) (seqn s e) = (seqn s (if D \<noteq> [] \<and> t < max x n then t else max x n), seqn s t)"
proof -
  have h: "(if seq_lt (seqn s x) (rx_nextRxSeq b) then rx_nextRxSeq b else seqn s x) = seqn s (max x n)" "in_win lo (max x n)"
    using seq_cmp [OF assms(2,4)] assms(2,4) unfolding assms(7) by (auto simp: max_def)
  show ?thesis
  proof (cases D)
    case Nil
    then show ?thesis using h assms(6) by (simp add: rx_window_def t_def win_end_def Let_def)
  next
    case (Cons f D1)
    obtain y p where f: "f = (y, p)" by (cases f)
    have w: "in_win lo (y + M)" using assms(5) Cons f by simp
    have k: "seqn s y + rx_maxBuffer b = seqn s (y + M)" unfolding assms(8) by (rule seqn_add)
    have t: "t = min e (y + M)" unfolding t_def win_end_def Cons f by simp
    have tt: "(if seq_lt (seqn s (y + M)) (seqn s e) then seqn s (y + M) else seqn s e) = seqn s t" "in_win lo t"
      unfolding t using seq_cmp [OF w assms(3)] w assms(3) by (auto simp: min_def)
    show ?thesis unfolding rx_window_def Let_def h(1) assms(6) Cons f enc_simps list.case prod.case k tt(1) seq_cmp(2) [OF tt(2) h(2)] by simp
  qed
qed

lemma pos_trim_win: "segs_in lo D \<Longrightarrow> in_win lo h \<Longrightarrow> in_win lo t \<Longrightarrow> pos_trim D h t = (D', h', t') \<Longrightarrow> in_win lo h' \<and> in_win lo t'"
proof (induction D arbitrary: h t D')
  case (Cons e D)
  obtain x p where e: "e = (x, p)" by (cases e)
  have w: "in_win lo x" "in_win lo (x + length p)" "segs_in lo D" using Cons.prems(1) e by simp_all
  have step: "in_win lo h' \<and> in_win lo t'" if "in_win lo h1" "in_win lo t1" "snd (pos_trim D h1 t1) = (h', t')" for h1 t1
    using Cons.IH [OF w(3) that(1,2)] that(3) by (metis prod.collapse)
  have "in_win lo (if x \<le> h then x + length p else h)" "in_win lo (if t \<le> x + length p then x else t)" using w Cons.prems(2,3) by simp_all
  then show ?case using Cons.prems(2-4) step unfolding e pos_trim.simps by (auto split: if_splits prod.splits)
qed simp

lemma UpdateSackList_sim:
  assumes "blocks_in lo B" and "in_win lo h" "in_win lo t" "in_win lo N" "h < t" and "rx_sackList b = encB s B" and "rx_nextRxSeq b = seqn s N"
  shows "(if seq_gt (seqn s h) (rx_nextRxSeq b) then UpdateSackList (seqn s h) (seqn s t) b else Some b) =
    Some (b\<lparr>rx_sackList := encB s (new_blocks N h t B)\<rparr>)"
proof (cases "N < h")
  case True
  have "sack_merge (seqn s h, seqn s t) [] (encB s B) = Some (encB s (pos_merge (h, t) [] B))"
    using merge_sim [of lo "(h, t)" "[]" B s] assms by simp
  then show ?thesis using True seq_cmp(1) [OF assms(2,4)] assms(6,7) by (simp add: UpdateSackList_def new_blocks_def Let_def)
next
  case False
  then show ?thesis using seq_cmp(1) [OF assms(2,4)] assms(6,7) by (simp add: new_blocks_def)
qed

lemma fragment_slice:
  assumes "x \<le> h" and "h \<le> t" and "t \<le> x + n" and "n < 2 ^ 32"
  shows "fragment (seqno_diff (seqn s h) (seqn s x)) (seqno_diff (seqn s t) (seqn s h)) (map stream [x..<x + n]) = Some (map stream [h..<t])"
proof -
  have d: "seqno_diff (seqn s h) (seqn s x) = of_nat (h - x)" "seqno_diff (seqn s t) (seqn s h) = of_nat (t - h)"
    using assms(1,2) by (simp_all add: seqno_diff_eq seqn_def of_nat_diff)
  have "take (t - h) (drop (h - x) (map stream [x..<x + n])) = map stream [h..<t]"
    using assms by (simp add: drop_map take_map)
  then show ?thesis unfolding d using fragment_ok [of "h - x" "t - h" "map stream [x..<x + n]"] assms by simp
qed

lemma seqn_Suc: "seqn s n + 1 = seqn s (Suc n)"
  by (simp add: seqn_def)

lemma in_win_between: "in_win lo x \<Longrightarrow> in_win lo z \<Longrightarrow> x \<le> y \<Longrightarrow> y \<le> z \<Longrightarrow> in_win lo y"
  by (auto simp: in_win_def)

lemma blocks_in_near:
  assumes "\<forall>(a, b) \<in> set B. N < a \<and> a < b \<and> {a..<b} \<subseteq> S" and "S \<subseteq> {..<N + rx_reach}"
  shows "blocks_in (win_lo N) B"
proof -
  have "in_win (win_lo N) a \<and> in_win (win_lo N) b \<and> a < b" if "(a, b) \<in> set B" for a b
  proof -
    have "N < a" "a < b" "b - 1 \<in> S" using assms(1) that by fastforce+
    moreover from this have "b - 1 < N + rx_reach" using assms(2) by auto
    ultimately show ?thesis by (auto intro!: in_win_near)
  qed
  then show ?thesis by (auto simp: blocks_in_def)
qed

text \<open>The part of Add that stores data from \<open>h'\<close> to \<open>t'\<close>.\<close>

definition rx_store :: "u8 list \<Rightarrow> SequenceNumber32 \<Rightarrow> SequenceNumber32 \<Rightarrow> TcpRxBuffer \<Rightarrow> (bool \<times> TcpRxBuffer) option" where
  "rx_store p headSeq tailSeq b =
     (if rx_find headSeq (rx_data b) then None
      else
        do { let b = b\<lparr>rx_data := rx_put headSeq p (rx_data b)\<rparr>;
             b \<leftarrow> (if seq_gt headSeq (rx_nextRxSeq b) then UpdateSackList headSeq tailSeq b else Some b);
             let b = b\<lparr>rx_size := rx_size b + packet_size p\<rparr>;
             (next, availBytes, l) \<leftarrow> rx_advance (rx_data b) (rx_nextRxSeq b) (rx_availBytes b) (rx_sackList b);
             let b = b\<lparr>rx_nextRxSeq := next, rx_availBytes := availBytes, rx_sackList := l\<rparr>;
             Some (True, if rx_gotFin b \<and> rx_nextRxSeq b = rx_finSeq b then b\<lparr>rx_nextRxSeq := rx_nextRxSeq b + 1\<rparr> else b) })"

lemma rx_Add_store:
  "rx_Add p seq b =
     (case rx_window b seq (seq + packet_size p) of (headSeq, tailSeq) \<Rightarrow>
      case rx_trim (rx_data b) headSeq tailSeq (rx_size b) of (m, headSeq, tailSeq, size') \<Rightarrow>
        if seq_ge headSeq tailSeq then Some (False, b\<lparr>rx_data := m, rx_size := size'\<rparr>)
        else do { p \<leftarrow> fragment (seqno_diff headSeq seq) (seqno_diff tailSeq headSeq) p;
                  rx_store p headSeq tailSeq (b\<lparr>rx_data := m, rx_size := size'\<rparr>) })"
  unfolding rx_Add_def rx_store_def Let_def by (simp split: prod.splits)

lemma rx_store_ok:
  assumes core: "rx_core stream s d N D B" and ht: "h < t" "N \<le> h" "t \<le> d + rx_reach" "t \<le> L" "cover D \<subseteq> {..<L}" "N \<le> L"
    and trim: "pos_trim D h t = (D', h', t')" "h' < t'"
    and b: "rx_data b = enc s D'" "rx_sackList b = encB s B" "rx_size b = of_nat (seg_total D')" "rx_availBytes b = of_nat (N - d)"
      "rx_nextRxSeq b = seqn s N" "rx_gotFin b \<longrightarrow> rx_finSeq b = seqn s L \<and> L \<le> N + rx_reach"
  shows "\<exists>N2 D2 B2 b'. rx_store (map stream [h'..<t']) (seqn s h') (seqn s t') b = Some (True, b') \<and> rx_core stream s d N2 D2 B2 \<and>
    cover D2 = cover D \<union> {h..<t} \<and> N2 \<le> L \<and> N \<le> N2 \<and>
    rx_data b' = enc s D2 \<and> rx_sackList b' = encB s B2 \<and> rx_size b' = of_nat (seg_total D2) \<and> rx_availBytes b' = of_nat (N2 - d) \<and>
    rx_maxBuffer b' = rx_maxBuffer b \<and> rx_gotFin b' = rx_gotFin b \<and> rx_finSeq b' = rx_finSeq b \<and>
    rx_nextRxSeq b' = seqn s (if rx_gotFin b \<and> N2 = L then N2 + 1 else N2)"
proof -
  let ?lo = "win_lo N" and ?q = "map stream [h'..<t']"
  define D2 N2 where "D2 = pos_put h' ?q D'" and "N2 = pos_advance D2 N"
  let ?B = "new_blocks N h' t' B"
  define B2 where "B2 = (if N2 = N then ?B else filter (\<lambda>(a, b). N2 < b) ?B)"
  note ca = core_add [OF core ht(1-3) trim, folded D2_def, folded N2_def, folded B2_def]
  note bounds = rx_core_bounds [OF core]
  have d: "chain d D" using core by (simp add: rx_core_def)
  have tr: "chain d D'" "set D' \<subseteq> set D" "\<forall>(x, p) \<in> set D'. x + length p \<le> h' \<or> t' \<le> x" "h \<le> h'" "t' \<le> t"
    using pos_trim_ok [OF d ht(1)] trim by (simp_all add: trimmed_def)
  have wN: "in_win ?lo N" by (rule in_win_near) simp_all
  have near: "N \<le> h'" "t' \<le> N + rx_reach" using tr(4,5) ht(2,3) bounds by linarith+
  have wh: "in_win ?lo h'" "in_win ?lo t'" using near trim(2) by (intro in_win_near; linarith)+
  have segs: "segs_in ?lo D'" using rx_core_segs [OF core] tr(2) by (auto simp: segs_in_def)
  have len: "h' + length ?q = t'" using trim(2) by simp
  have segs2: "segs_in ?lo D2" unfolding D2_def using segs wh len by (auto simp: segs_in_def)
  have ne: "\<forall>(y, q) \<in> set D'. y \<noteq> h'"
  proof -
    have "y \<noteq> h'" if "(y, q) \<in> set D'" for y q
    proof
      assume "y = h'"
      then have "h' + length q \<le> h' \<or> t' \<le> h'" using tr(3) that by auto
      then show False using chain_mem [OF tr(1) that] trim(2) by simp
    qed
    then show ?thesis by blast
  qed
  have cov: "cover D2 \<subseteq> {..<N + rx_reach}"
  proof
    fix n assume "n \<in> cover D2"
    then have "n \<in> cover D \<or> n < t" unfolding ca(2) by auto
    then have "n < d + rx_reach" using bounds ht(3) less_le_trans by blast
    then show "n \<in> {..<N + rx_reach}" using bounds by simp
  qed
  note nb = ca(8)
  have adv: "rx_advance (enc s D2) (seqn s N) (of_nat (N - d)) (encB s ?B) = Some (seqn s N2, of_nat (N2 - d), encB s B2)"
    using advance_sim [OF segs2 wN blocks_in_near [OF nb cov] ca(6,5), of s "N - d"] ca(3) bounds
    unfolding N2_def [symmetric] B2_def [symmetric] by simp
  have size: "rx_size b + packet_size ?q = of_nat (seg_total D2)"
    unfolding b(3) add_size ca(4) by (simp add: add.commute)
  have N2: "N2 \<le> L"
  proof (cases "d < N2")
    case True
    then have "N2 - 1 \<in> {d..<N2}" by auto
    then have "N2 - 1 \<in> cover D2" using ca(1) unfolding rx_core_def by blast
    then show ?thesis using ca(2) ht(4,5) by auto
  qed (use bounds ht(6) in simp)
  have fin: "seqn s N2 = rx_finSeq b \<longleftrightarrow> N2 = L" if "rx_gotFin b"
    using b(6) that N2 ca(3) seqn_eq [of N2 L s] by auto
  let ?b = "b\<lparr>rx_data := enc s D2, rx_sackList := encB s B2, rx_size := of_nat (seg_total D2), rx_nextRxSeq := seqn s N2, rx_availBytes := of_nat (N2 - d)\<rparr>"
  let ?b' = "if rx_gotFin b \<and> N2 = L then ?b\<lparr>rx_nextRxSeq := seqn s N2 + 1\<rparr> else ?b"
  let ?b1 = "b\<lparr>rx_data := enc s D2\<rparr>"
  have put: "rx_put (seqn s h') ?q (enc s D') = enc s D2" unfolding D2_def by (rule put_sim [OF segs wh(1) ne])
  have find: "rx_find (seqn s h') (enc s D') = False" using find_sim [OF segs wh(1) ne] by simp
  have sack: "(if seq_gt (seqn s h') (rx_nextRxSeq ?b1) then UpdateSackList (seqn s h') (seqn s t') ?b1 else Some ?b1) =
      Some (?b1\<lparr>rx_sackList := encB s ?B\<rparr>)"
    by (rule UpdateSackList_sim [OF rx_core_blocks [OF core] wh wN trim(2)]) (simp_all add: b)
  have "rx_store ?q (seqn s h') (seqn s t') b = Some (True, ?b')"
  proof -
    define b2 where "b2 = ?b1\<lparr>rx_sackList := encB s ?B, rx_size := of_nat (seg_total D2)\<rparr>"
    define b3 where "b3 = b2\<lparr>rx_nextRxSeq := seqn s N2, rx_availBytes := of_nat (N2 - d), rx_sackList := encB s B2\<rparr>"
    have b2: "(?b1\<lparr>rx_sackList := encB s ?B\<rparr>)\<lparr>rx_size := rx_size (?b1\<lparr>rx_sackList := encB s ?B\<rparr>) + packet_size ?q\<rparr> = b2"
      unfolding b2_def using size by simp
    have "rx_advance (rx_data b2) (rx_nextRxSeq b2) (rx_availBytes b2) (rx_sackList b2) = Some (seqn s N2, of_nat (N2 - d), encB s B2)"
      unfolding b2_def using adv by (simp add: b)
    then have store: "rx_store ?q (seqn s h') (seqn s t') b =
        Some (True, if rx_gotFin b3 \<and> rx_nextRxSeq b3 = rx_finSeq b3 then b3\<lparr>rx_nextRxSeq := rx_nextRxSeq b3 + 1\<rparr> else b3)"
      unfolding rx_store_def Let_def b(1) put find if_False sack bind.bind_lunit b2 b3_def by simp
    have b3: "b3 = ?b" unfolding b3_def b2_def by simp
    have sel: "rx_gotFin b3 = rx_gotFin b" "rx_nextRxSeq b3 = seqn s N2" "rx_finSeq b3 = rx_finSeq b" unfolding b3 by simp_all
    have cond: "(rx_gotFin b \<and> seqn s N2 = rx_finSeq b) = (rx_gotFin b \<and> N2 = L)" using fin by blast
    show ?thesis unfolding store sel cond unfolding b3 ..
  qed
  moreover have "rx_data ?b' = enc s D2" "rx_sackList ?b' = encB s B2" "rx_size ?b' = of_nat (seg_total D2)" "rx_availBytes ?b' = of_nat (N2 - d)"
    "rx_maxBuffer ?b' = rx_maxBuffer b" "rx_gotFin ?b' = rx_gotFin b" "rx_finSeq ?b' = rx_finSeq b"
    "rx_nextRxSeq ?b' = seqn s (if rx_gotFin b \<and> N2 = L then N2 + 1 else N2)" by (simp_all add: seqn_Suc)
  ultimately show ?thesis using ca(1,2,3) N2 by blast
qed

text \<open>What the relation says, with the segments and the blocks on positions.\<close>

definition rx_state :: "(nat \<Rightarrow> u8) \<Rightarrow> nat \<Rightarrow> nat \<Rightarrow> u32 \<Rightarrow> rx_spec \<Rightarrow> nat \<Rightarrow> segs \<Rightarrow> (nat \<times> nat) list \<Rightarrow> TcpRxBuffer \<Rightarrow> bool" where
  "rx_state stream L M s st N D B b \<longleftrightarrow>
     rx_core stream s (sp_delivered st) N D B \<and> cover D = sp_held st \<and> cover D \<subseteq> {..<L} \<and> N \<le> L \<and>
     rx_data b = enc s D \<and> rx_sackList b = encB s B \<and> rx_size b = of_nat (seg_total D) \<and>
     rx_availBytes b = of_nat (N - sp_delivered st) \<and> unat (rx_maxBuffer b) = M \<and> M \<le> rx_reach \<and>
     rx_gotFin b = sp_fin st \<and> (sp_fin st \<longrightarrow> rx_finSeq b = seqn s L \<and> L \<le> N + rx_reach) \<and>
     rx_nextRxSeq b = seqn s (if sp_fin st \<and> N = L then N + 1 else N)"

lemma rx_rel_state: "rx_rel stream L M s st b \<longleftrightarrow> (\<exists>N D B. rx_state stream L M s st N D B b)"
  unfolding rx_rel_def rx_state_def ..

lemma rx_state_next: "rx_state stream L M s st N D B b \<Longrightarrow> sp_next st = N"
  using rx_core_next [of stream s "sp_delivered st" N D B] by (simp add: rx_state_def sp_next_def)

lemma sp_accepted_win:
  assumes "chain d D" and "cover D = sp_held st"
  shows "sp_accepted M x n st = {max x (sp_next st)..<win_end M (x + n) D}"
proof (cases D)
  case Nil
  then show ?thesis using assms(2) by (auto simp: sp_accepted_def win_end_def)
next
  case (Cons e D1)
  obtain y p where e: "e = (y, p)" by (cases e)
  have "Min (sp_held st) = y" using cover_first [of d y p D1] assms Cons e by simp
  moreover have "sp_held st \<noteq> {}" using cover_empty [OF assms(1)] assms(2) Cons by simp
  ultimately show ?thesis using Cons e by (simp add: sp_accepted_def win_end_def)
qed

text \<open>Data that is accepted lies within reach of the bytes that were delivered.\<close>

lemma win_end_reach:
  assumes "rx_core stream s d N D B" and "M \<le> rx_reach" and "e \<le> N + rx_reach"
  shows "win_end M e D \<le> d + rx_reach"
proof (cases "d < N")
  case True
  then have "d \<in> cover D" using assms(1) by (auto simp: rx_core_def)
  then obtain p D1 where "D = (d, p) # D1" using chain_first [of d D] assms(1) by (auto simp: rx_core_def)
  then show ?thesis using assms(2) by (simp add: win_end_def)
next
  case False
  then have "N = d" using assms(1) by (simp add: rx_core_def)
  then show ?thesis using assms(3) by (auto simp: win_end_def split: list.splits)
qed

lemma Add_rel:
  assumes "rx_rel stream L M s st b" and "x + n \<le> L" and "sp_next st \<le> x + rx_reach" and "x + n \<le> sp_next st + rx_reach"
  shows "\<exists>b'. rx_Add (map stream [x..<x + n]) (seqn s x) b = Some (fst (sp_Add M x n st), b') \<and> rx_rel stream L M s (snd (sp_Add M x n st)) b'"
proof -
  obtain N D B where st: "rx_state stream L M s st N D B b" using assms(1) unfolding rx_rel_state by blast
  have N: "sp_next st = N" by (rule rx_state_next [OF st])
  let ?d = "sp_delivered st" and ?lo = "win_lo N" and ?p = "map stream [x..<x + n]"
  have core: "rx_core stream s ?d N D B" and held: "cover D = sp_held st" and L: "cover D \<subseteq> {..<L}" "N \<le> L"
    and M: "unat (rx_maxBuffer b) = M" "M \<le> rx_reach" and fin: "rx_gotFin b = sp_fin st" "sp_fin st \<longrightarrow> rx_finSeq b = seqn s L \<and> L \<le> N + rx_reach"
    and R: "rx_data b = enc s D" "rx_sackList b = encB s B" "rx_size b = of_nat (seg_total D)" "rx_availBytes b = of_nat (N - ?d)"
      "rx_nextRxSeq b = seqn s (if sp_fin st \<and> N = L then N + 1 else N)"
    using st unfolding rx_state_def by blast+
  have ch: "chain ?d D" using core by (simp add: rx_core_def)
  note bounds = rx_core_bounds [OF core]
  define nx where "nx = (if sp_fin st \<and> N = L then N + 1 else N)"
  define t where "t = win_end M (x + n) D"
  define h where "h = (if D \<noteq> [] \<and> t < max x nx then t else max x nx)"
  have acc: "sp_accepted M x n st = {max x N..<t}" using sp_accepted_win [OF ch held] unfolding t_def N .
  have tle: "t \<le> x + n" unfolding t_def win_end_def by (auto split: list.splits)
  have w: "in_win ?lo x" "in_win ?lo (x + n)" "in_win ?lo nx" using assms(3,4) unfolding N nx_def by (auto intro!: in_win_near)
  have segs: "segs_in ?lo D" by (rule rx_core_segs [OF core])
  have wM: "\<forall>(y, p) \<in> set D. in_win ?lo (y + M)"
  proof -
    have "in_win ?lo (y + M)" if "(y, p) \<in> set D" for y p
    proof -
      have "y \<in> cover D" using that chain_mem [OF ch that] unfolding cover_mem by (intro bexI [of _ "(y, p)"]) simp_all
      then have "?d \<le> y" "y < ?d + rx_reach" using bounds by blast+
      then show ?thesis using bounds M(2) by (intro in_win_near) linarith+
    qed
    then show ?thesis by blast
  qed
  have "rx_maxBuffer b = of_nat M" using M(1) by auto
  then have win: "rx_window b (seqn s x) (seqn s x + packet_size ?p) = (seqn s h, seqn s t)"
    using window_sim [OF segs w wM R(1) R(5) [folded nx_def]] unfolding end_seqn h_def t_def by simp
  have wt: "in_win ?lo t" "in_win ?lo h"
  proof -
    show "in_win ?lo t" using w(2) wM unfolding t_def win_end_def by (auto simp: min_def split: list.splits)
    then show "in_win ?lo h" using w(1,3) unfolding h_def by (simp add: max_def)
  qed
  obtain D' h' t' where tr: "pos_trim D h t = (D', h', t')" by (metis prod_cases3)
  have trim: "rx_trim (rx_data b) (seqn s h) (seqn s t) (rx_size b) = (enc s D', seqn s h', seqn s t', of_nat (seg_total D'))"
    using trim_sim [OF segs wt(2,1) tr, of s 0] unfolding R(1,3) by simp
  have wt': "in_win ?lo h'" "in_win ?lo t'" using pos_trim_win [OF segs wt(2,1) tr] by blast+
  have ge: "seq_ge (seqn s h') (seqn s t') \<longleftrightarrow> t' \<le> h'" by (rule seq_cmp(4) [OF wt'])
  have hN: "h = max x N \<and> nx = N" if "h < t"
  proof -
    have "h = max x nx" using that unfolding h_def by (auto split: if_splits)
    moreover from this have "nx = N" using that tle assms(2) unfolding nx_def by (auto split: if_splits)
    ultimately show ?thesis by simp
  qed
  let ?b1 = "b\<lparr>rx_data := enc s D', rx_size := of_nat (seg_total D')\<rparr>"
  show ?thesis
  proof (cases "h' < t'")
    case True
    then have "h < t" using pos_trim_empty [OF ch _ tr] by (metis leD not_le_imp_less)
    note hN = hN [OF this]
    have tr': "h \<le> h'" "t' \<le> t" "h' \<notin> cover D" using pos_trim_ok [OF ch \<open>h < t\<close>] True unfolding tr trimmed_def by simp_all
    have "N \<le> h" "t \<le> L" using hN tle assms(2) by auto
    moreover have "t \<le> ?d + rx_reach" unfolding t_def by (rule win_end_reach [OF core M(2)]) (use assms(4) N in simp)
    moreover have "rx_nextRxSeq ?b1 = seqn s N" using R(5) hN unfolding nx_def by (auto split: if_splits)
    moreover have "rx_gotFin ?b1 \<longrightarrow> rx_finSeq ?b1 = seqn s L \<and> L \<le> N + rx_reach" using fin by simp
    moreover have "rx_data ?b1 = enc s D'" "rx_sackList ?b1 = encB s B" "rx_size ?b1 = of_nat (seg_total D')" "rx_availBytes ?b1 = of_nat (N - ?d)"
      using R by simp_all
    ultimately obtain N2 D2 B2 b' where b': "rx_store (map stream [h'..<t']) (seqn s h') (seqn s t') ?b1 = Some (True, b')"
      "rx_core stream s ?d N2 D2 B2" "cover D2 = cover D \<union> {h..<t}" "N2 \<le> L" "N \<le> N2" "rx_data b' = enc s D2" "rx_sackList b' = encB s B2"
      "rx_size b' = of_nat (seg_total D2)" "rx_availBytes b' = of_nat (N2 - ?d)" "rx_maxBuffer b' = rx_maxBuffer ?b1" "rx_gotFin b' = rx_gotFin ?b1"
      "rx_finSeq b' = rx_finSeq ?b1" "rx_nextRxSeq b' = seqn s (if rx_gotFin ?b1 \<and> N2 = L then N2 + 1 else N2)"
      using rx_store_ok [OF core \<open>h < t\<close> _ _ _ L tr True, of ?b1] by blast
    have "fragment (seqno_diff (seqn s h') (seqn s x)) (seqno_diff (seqn s t') (seqn s h')) ?p = Some (map stream [h'..<t'])"
      by (rule fragment_slice) (use hN tr' tle True assms(3,4) N in auto)
    then have add: "rx_Add ?p (seqn s x) b = Some (True, b')" unfolding rx_Add_store win trim prod.case ge using True b'(1) by simp
    have acc': "sp_accepted M x n st = {h..<t}" using acc hN by simp
    have "h' \<in> sp_accepted M x n st" unfolding acc' using tr' True by auto
    then have sp: "fst (sp_Add M x n st)" using tr'(3) held by (auto simp: sp_Add_def)
    have "cover D2 \<subseteq> {..<L}" unfolding b'(3) using L \<open>t \<le> L\<close> by auto
    then have "rx_state stream L M s (snd (sp_Add M x n st)) N2 D2 B2 b'" unfolding rx_state_def sp_Add_def acc'
      using b' held M fin by auto
    then show ?thesis using add sp unfolding rx_rel_state by auto
  next
    case False
    have same: "D' = D \<and> sp_accepted M x n st \<subseteq> sp_held st"
    proof (cases "h < t")
      case True
      then show ?thesis using pos_trim_ok [OF ch True] False hN held unfolding tr trimmed_def acc by simp
    next
      case le: False
      have "t \<le> max x nx" using le unfolding h_def by (auto split: if_splits)
      then have "t \<le> max x N" using tle assms(2) unfolding nx_def by (auto split: if_splits)
      then show ?thesis using pos_trim_empty [OF ch _ tr] le acc by simp
    qed
    have add: "rx_Add ?p (seqn s x) b = Some (False, b)" unfolding rx_Add_store win trim prod.case ge using False same R(1,3) by simp
    have "sp_Add M x n st = (False, st)" using same by (auto simp: sp_Add_def Un_absorb2)
    then show ?thesis using add assms(1) by simp
  qed
qed

section \<open>End of the stream and delivery\<close>

lemma Fin_rel:
  assumes "rx_rel stream L M s st b" and "L \<le> sp_next st + rx_reach"
  shows "rx_rel stream L M s (st\<lparr>sp_fin := True\<rparr>) (rx_SetFinSequence (seqn s L) b)"
proof -
  obtain N D B where st: "rx_state stream L M s st N D B b" using assms(1) unfolding rx_rel_state by blast
  have N: "N \<le> L" "L \<le> N + rx_reach" "rx_nextRxSeq b = seqn s (if sp_fin st \<and> N = L then N + 1 else N)"
    using st assms(2) rx_state_next [OF st] by (simp_all add: rx_state_def)
  have "(rx_nextRxSeq b = seqn s L) = (\<not> sp_fin st \<and> N = L)" unfolding N(3) using N(1,2) by (subst seqn_eq) auto
  then have "rx_nextRxSeq (rx_SetFinSequence (seqn s L) b) = seqn s (if N = L then N + 1 else N)"
    using N(3) by (auto simp: rx_SetFinSequence_def Let_def seqn_Suc)
  moreover have "rx_data (rx_SetFinSequence (seqn s L) b) = rx_data b" "rx_sackList (rx_SetFinSequence (seqn s L) b) = rx_sackList b"
    "rx_size (rx_SetFinSequence (seqn s L) b) = rx_size b" "rx_availBytes (rx_SetFinSequence (seqn s L) b) = rx_availBytes b"
    "rx_maxBuffer (rx_SetFinSequence (seqn s L) b) = rx_maxBuffer b" "rx_gotFin (rx_SetFinSequence (seqn s L) b)" "rx_finSeq (rx_SetFinSequence (seqn s L) b) = seqn s L"
    by (simp_all add: rx_SetFinSequence_def Let_def)
  ultimately have "rx_state stream L M s (st\<lparr>sp_fin := True\<rparr>) N D B (rx_SetFinSequence (seqn s L) b)"
    using st N(2) by (auto simp: rx_state_def)
  then show ?thesis unfolding rx_rel_state by blast
qed

lemma core_extract:
  assumes "rx_core stream s d N D B" and "d + k \<le> N" and "chain (d + k) D'" and "cover D' = cover D - {d..<d + k}" and "contents stream D'"
    and "\<forall>(x, p) \<in> set D'. x < n \<longrightarrow> x + length p \<le> n" and "n = N \<or> n = N + 1"
  shows "rx_core stream s (d + k) N D' B"
proof -
  have c: "{d..<N} \<subseteq> cover D" "N \<notin> cover D" "cover D \<subseteq> {..<d + rx_reach}" "\<forall>(a, b) \<in> set B. N < a \<and> a < b \<and> {a..<b} \<subseteq> cover D" "length B \<le> 4"
    using assms(1) by (auto simp: rx_core_def)
  have "x + length p \<le> N" if "(x, p) \<in> set D'" "x < N" for x p
  proof (rule ccontr)
    assume "\<not> x + length p \<le> N"
    then have "N \<in> cover D'" using that unfolding cover_mem by (intro bexI [of _ "(x, p)"]) simp_all
    then show False using c(2) assms(4) by simp
  qed
  moreover have "{a..<b} \<subseteq> cover D'" if "(a, b) \<in> set B" for a b
  proof -
    have "N < a" "{a..<b} \<subseteq> cover D" using c(4) that by auto
    moreover from this have "{a..<b} \<inter> {d..<d + k} = {}" using assms(2) by auto
    ultimately show ?thesis unfolding assms(4) by blast
  qed
  moreover have "{d + k..<N} \<subseteq> cover D'" unfolding assms(4) using c(1) by auto
  moreover have "cover D' \<subseteq> {..<d + k + rx_reach}" unfolding assms(4) using c(3) by auto
  moreover have "N \<notin> cover D'" unfolding assms(4) using c(2) by simp
  ultimately show ?thesis unfolding rx_core_def using assms(2,3,5) c(4,5) by blast
qed

lemma Extract_rel:
  assumes "rx_rel stream L M s st b"
  shows "\<exists>b'. rx_Extract m b = Some (fst (sp_Extract stream (unat m) st), b') \<and> rx_rel stream L M s (snd (sp_Extract stream (unat m) st)) b'"
proof -
  obtain N D B where st: "rx_state stream L M s st N D B b" using assms(1) unfolding rx_rel_state by blast
  have nxt: "sp_next st = N" by (rule rx_state_next [OF st])
  let ?d = "sp_delivered st" and ?lo = "win_lo N"
  have core: "rx_core stream s ?d N D B" using st by (simp add: rx_state_def)
  note bounds = rx_core_bounds [OF core]
  define k where "k = min (unat m) (N - ?d)"
  have av: "rx_availBytes b = of_nat (N - ?d)" using st by (simp add: rx_state_def)
  have "unat (rx_availBytes b) = N - ?d" unfolding av using bounds by (intro unat_diff_small) auto
  then have ext: "min m (rx_availBytes b) = of_nat k" unfolding k_def by (auto simp: min_def word_le_nat_alt av)
  have sp: "sp_Extract stream (unat m) st = (map stream [?d..<?d + k], st\<lparr>sp_delivered := ?d + k, sp_held := sp_held st - {?d..<?d + k}\<rparr>)"
    unfolding sp_Extract_def nxt k_def Let_def ..
  have k: "k \<le> N - ?d" "k < 2 ^ 31" unfolding k_def using bounds by auto
  show ?thesis
  proof (cases "k = 0")
    case True
    then have "rx_Extract m b = Some ([], b)" using ext by (simp add: rx_Extract_def Let_def)
    moreover have "snd (sp_Extract stream (unat m) st) = st" unfolding sp True by simp
    ultimately show ?thesis using assms sp True by simp
  next
    case False
    define nx where "nx = (if sp_fin st \<and> N = L then N + 1 else N)"
    have nx: "nx = N \<or> nx = N + 1" "rx_nextRxSeq b = seqn s nx" using st by (auto simp: rx_state_def nx_def)
    have wn: "in_win ?lo nx" using nx(1) by (auto intro!: in_win_near)
    have c: "chain ?d D" "contents stream D" "{?d..<N} \<subseteq> cover D" "N \<notin> cover D" "\<forall>(x, p) \<in> set D. x < N \<longrightarrow> x + length p \<le> N"
      using core by (auto simp: rx_core_def)
    have al: "\<forall>(x, p) \<in> set D. x < nx \<longrightarrow> x + length p \<le> nx"
    proof -
      have "x + length p \<le> nx" if "(x, p) \<in> set D" "x < nx" for x p
      proof (cases "x = N")
        case True
        then have "N \<in> cover D" using that chain_mem [OF c(1) that(1)] unfolding cover_mem by (intro bexI [of _ "(x, p)"]) simp_all
        then show ?thesis using c(4) by simp
      next
        case False
        then have "x < N" using that(2) nx(1) by auto
        then have "x + length p \<le> N" using c(5) that(1) by auto
        then show ?thesis using nx(1) by auto
      qed
      then show ?thesis by blast
    qed
    have le: "?d + k \<le> N" using k(1) bounds by auto
    then have "{?d..<?d + k} \<subseteq> {?d..<N}" by auto
    then have sub: "{?d..<?d + k} \<subseteq> cover D" "?d + k \<le> nx" "?d + k \<le> N" using c(3) nx(1) le by (blast, auto)
    obtain D' where D': "rx_extract_loop (of_nat k) (enc s D) (seqn s nx) (of_nat (seg_total D + 0)) (of_nat (k + (N - ?d - k))) [] =
        Some ([] @ map stream [?d..<?d + k], enc s D', of_nat (seg_total D' + 0), of_nat (N - ?d - k))"
      "chain (?d + k) D'" "cover D' = cover D - {?d..<?d + k}" "contents stream D'" "\<forall>(x, p) \<in> set D'. x < nx \<longrightarrow> x + length p \<le> nx"
      using extract_sim [OF rx_core_segs [OF core] wn c(1,2) sub(1,2) k(2) al, of s 0 "N - ?d - k" "[]"] by blast
    let ?b = "b\<lparr>rx_data := enc s D', rx_size := of_nat (seg_total D'), rx_availBytes := of_nat (N - ?d - k)\<rparr>"
    have "unat (of_nat k :: u32) = k" by (rule unat_diff_small) (use k(2) in simp)
    then have "(of_nat k :: u32) \<noteq> 0" using False by (metis unat_0)
    moreover have "D \<noteq> []" using sub(1) False by auto
    moreover have "rx_data b = enc s D" "rx_size b = of_nat (seg_total D)" using st by (simp_all add: rx_state_def)
    moreover have "k + (N - ?d - k) = N - ?d" using k(1) by simp
    ultimately have "rx_Extract m b = Some (map stream [?d..<?d + k], ?b)"
      using D'(1) ext nx(2) av by (simp add: rx_Extract_def Let_def enc_def)
    moreover have "rx_state stream L M s (snd (sp_Extract stream (unat m) st)) N D' B ?b"
      using st core_extract [OF core sub(3) D'(2-5) nx(1)] D'(3) k(1) unfolding rx_state_def sp by auto
    ultimately show ?thesis unfolding rx_rel_state sp by auto
  qed
qed

section \<open>Runs\<close>

text \<open>
  The calls of a socket: a segment of the stream, the end of the stream, and a read of at most so many bytes. The stream starts at
  sequence number \<open>s\<close> and has \<open>L\<close> bytes.
\<close>

datatype rx_op = RxAdd nat nat | RxFin | RxExtract u32

datatype rx_out = RxAdded bool | RxDone | RxData "u8 list"

fun rx_step :: "(nat \<Rightarrow> u8) \<Rightarrow> nat \<Rightarrow> u32 \<Rightarrow> rx_op \<Rightarrow> TcpRxBuffer \<Rightarrow> (rx_out \<times> TcpRxBuffer) option" where
  "rx_step stream L s (RxAdd x n) b = do { (r, b) \<leftarrow> rx_Add (map stream [x..<x + n]) (s + of_nat x) b; Some (RxAdded r, b) }"
| "rx_step stream L s RxFin b = Some (RxDone, rx_SetFinSequence (s + of_nat L) b)"
| "rx_step stream L s (RxExtract m) b = do { (p, b) \<leftarrow> rx_Extract m b; Some (RxData p, b) }"

fun rx_run :: "(nat \<Rightarrow> u8) \<Rightarrow> nat \<Rightarrow> u32 \<Rightarrow> rx_op list \<Rightarrow> TcpRxBuffer \<Rightarrow> (rx_out list \<times> TcpRxBuffer) option" where
  "rx_run stream L s [] b = Some ([], b)"
| "rx_run stream L s (op # ops) b = do { (r, b) \<leftarrow> rx_step stream L s op b; (rs, b) \<leftarrow> rx_run stream L s ops b; Some (r # rs, b) }"

fun sp_step :: "(nat \<Rightarrow> u8) \<Rightarrow> nat \<Rightarrow> rx_op \<Rightarrow> rx_spec \<Rightarrow> rx_out \<times> rx_spec" where
  "sp_step stream M (RxAdd x n) st = (RxAdded (fst (sp_Add M x n st)), snd (sp_Add M x n st))"
| "sp_step stream M RxFin st = (RxDone, st\<lparr>sp_fin := True\<rparr>)"
| "sp_step stream M (RxExtract m) st = (RxData (fst (sp_Extract stream (unat m) st)), snd (sp_Extract stream (unat m) st))"

fun sp_run :: "(nat \<Rightarrow> u8) \<Rightarrow> nat \<Rightarrow> rx_op list \<Rightarrow> rx_spec \<Rightarrow> rx_out list \<times> rx_spec" where
  "sp_run stream M [] st = ([], st)"
| "sp_run stream M (op # ops) st = (case sp_step stream M op st of (r, st) \<Rightarrow> case sp_run stream M ops st of (rs, st) \<Rightarrow> (r # rs, st))"

text \<open>Segments and the end of the stream arrive within \<open>2 ^ 29\<close> bytes of the next expected byte.\<close>

fun rx_legal :: "(nat \<Rightarrow> u8) \<Rightarrow> nat \<Rightarrow> nat \<Rightarrow> rx_op list \<Rightarrow> rx_spec \<Rightarrow> bool" where
  "rx_legal stream L M [] st = True"
| "rx_legal stream L M (op # ops) st =
     ((case op of
         RxAdd x n \<Rightarrow> x + n \<le> L \<and> sp_next st \<le> x + rx_reach \<and> x + n \<le> sp_next st + rx_reach
       | RxFin \<Rightarrow> L \<le> sp_next st + rx_reach
       | RxExtract m \<Rightarrow> True) \<and>
      rx_legal stream L M ops (snd (sp_step stream M op st)))"

definition sp_init :: rx_spec where
  "sp_init = \<lparr>sp_delivered = 0, sp_held = {}, sp_fin = False\<rparr>"

lemma rx_run_ok:
  "rx_rel stream L M s st b \<Longrightarrow> rx_legal stream L M ops st \<Longrightarrow>
     \<exists>b'. rx_run stream L s ops b = Some (fst (sp_run stream M ops st), b') \<and> rx_rel stream L M s (snd (sp_run stream M ops st)) b'"
proof (induction ops arbitrary: st b)
  case (Cons op ops)
  let ?st = "snd (sp_step stream M op st)"
  have "\<exists>b1. rx_step stream L s op b = Some (fst (sp_step stream M op st), b1) \<and> rx_rel stream L M s ?st b1"
  proof (cases op)
    case (RxAdd x n)
    then show ?thesis using Add_rel [OF Cons.prems(1), of x n] Cons.prems(2) by (auto simp: seqn_def)
  next
    case RxFin
    then show ?thesis using Fin_rel [OF Cons.prems(1)] Cons.prems(2) by (auto simp: seqn_def)
  next
    case (RxExtract m)
    then show ?thesis using Extract_rel [OF Cons.prems(1), of m] by auto
  qed
  then obtain b1 where b1: "rx_step stream L s op b = Some (fst (sp_step stream M op st), b1)" "rx_rel stream L M s ?st b1" by blast
  moreover have "rx_legal stream L M ops ?st" using Cons.prems(2) by simp
  ultimately obtain b2 where "rx_run stream L s ops b1 = Some (fst (sp_run stream M ops ?st), b2)" "rx_rel stream L M s (snd (sp_run stream M ops ?st)) b2"
    using Cons.IH by blast
  then show ?case using b1(1) by (auto split: prod.splits)
qed simp

lemma rx_rel_init: "unat M \<le> rx_reach \<Longrightarrow> rx_rel stream L (unat M) s sp_init (rx_SetMaxBufferSize M (TcpRxBuffer_new s))"
  unfolding rx_rel_state
  by (intro exI [of _ 0] exI [of _ "[]"])
    (simp add: rx_state_def rx_core_def sp_init_def rx_SetMaxBufferSize_def TcpRxBuffer_new_def seqn_def contents_def)

text \<open>What is read, of all the answers of a run.\<close>

fun rx_read :: "rx_out list \<Rightarrow> u8 list" where
  "rx_read [] = []"
| "rx_read (r # rs) = (case r of RxData p \<Rightarrow> p @ rx_read rs | _ \<Rightarrow> rx_read rs)"

lemma upt_join: "i \<le> j \<Longrightarrow> j \<le> k \<Longrightarrow> [i..<j] @ [j..<k] = [i..<k]"
  by (metis le_iff_add upt_add_eq_append)

lemma sp_run_reads:
  "sp_delivered st \<le> sp_delivered (snd (sp_run stream M ops st)) \<and>
   rx_read (fst (sp_run stream M ops st)) = map stream [sp_delivered st..<sp_delivered (snd (sp_run stream M ops st))]"
proof (induction ops arbitrary: st)
  case (Cons op ops)
  note i = Cons.IH [of "snd (sp_step stream M op st)"]
  show ?case
  proof (cases op)
    case (RxExtract m)
    let ?d = "sp_delivered st" and ?d1 = "sp_delivered (snd (sp_step stream M op st))"
    have "?d \<le> ?d1" "fst (sp_step stream M op st) = RxData (map stream [?d..<?d1])" by (simp_all add: RxExtract sp_Extract_def Let_def)
    then show ?thesis using i upt_join [of ?d ?d1] by (auto split: prod.splits simp flip: map_append)
  qed (use i in \<open>auto simp: sp_Add_def split: prod.splits\<close>)
qed simp

section \<open>Properties\<close>

lemma rx_rel_observe:
  assumes "rx_rel stream L M s st b"
  shows "rx_nextRxSeq b = s + of_nat (if sp_fin st \<and> sp_next st = L then sp_next st + 1 else sp_next st)"
    and "unat (rx_availBytes b) = sp_next st - sp_delivered st" and "unat (rx_size b) = card (sp_held st)"
    and "rx_Finished b \<longleftrightarrow> sp_fin st \<and> sp_next st = L"
proof -
  obtain N D B where st: "rx_state stream L M s st N D B b" using assms unfolding rx_rel_state by blast
  have N: "sp_next st = N" by (rule rx_state_next [OF st])
  have core: "rx_core stream s (sp_delivered st) N D B" using st by (simp add: rx_state_def)
  note bounds = rx_core_bounds [OF core]
  show "rx_nextRxSeq b = s + of_nat (if sp_fin st \<and> sp_next st = L then sp_next st + 1 else sp_next st)"
    using st unfolding N rx_state_def seqn_def by blast
  have "rx_availBytes b = of_nat (N - sp_delivered st)" using st by (simp add: rx_state_def)
  moreover have "N - sp_delivered st < 2 ^ 32" using bounds by auto
  ultimately show "unat (rx_availBytes b) = sp_next st - sp_delivered st" unfolding N by (simp only: unat_diff_small)
  have "cover D \<subseteq> {sp_delivered st..<sp_delivered st + rx_reach}" using bounds by auto
  then have "card (cover D) \<le> rx_reach" using card_mono [of "{sp_delivered st..<sp_delivered st + rx_reach}" "cover D"] by simp
  moreover have "rx_size b = of_nat (card (cover D))" "cover D = sp_held st" using st core seg_total_cover [of "sp_delivered st" D] by (simp_all add: rx_state_def rx_core_def)
  ultimately show "unat (rx_size b) = card (sp_held st)" using unat_diff_small [of "card (cover D)"] by simp
  show "rx_Finished b \<longleftrightarrow> sp_fin st \<and> sp_next st = L"
  proof (cases "sp_fin st")
    case True
    let ?n = "if N = L then N + 1 else N"
    have f: "rx_gotFin b" "rx_finSeq b = seqn s L" "L \<le> N + rx_reach" "N \<le> L" "rx_nextRxSeq b = seqn s ?n" using st True by (simp_all add: rx_state_def)
    have "in_win (win_lo N) L" "in_win (win_lo N) ?n" using f(3,4) by (auto intro!: in_win_near)
    note seq_cmp(2) [OF this]
    then show ?thesis using f True N by (auto simp: rx_Finished_def)
  next
    case False
    then show ?thesis using st by (simp add: rx_Finished_def rx_state_def)
  qed
qed


lemma first_gap_eq: "d \<le> n \<Longrightarrow> {d..<n} \<subseteq> S \<Longrightarrow> n \<notin> S \<Longrightarrow> first_gap d S = n"
  unfolding first_gap_def by (rule Least_equality) (auto simp: not_less [symmetric])

lemma example_legal: "rx_legal stream 4 M [RxAdd 2 2, RxAdd 0 2, RxExtract 10] sp_init"
proof -
  let ?st = "\<lparr>sp_delivered = 0, sp_held = {2..<4}, sp_fin = False\<rparr>"
  have 0: "sp_next sp_init = 0" unfolding sp_next_def sp_init_def by (simp add: first_gap_eq)
  have "snd (sp_step stream M (RxAdd 2 2) sp_init) = ?st" using 0 by (simp add: sp_Add_def sp_accepted_def) (simp add: sp_init_def)
  moreover have "sp_next ?st = 0" unfolding sp_next_def by (simp add: first_gap_eq)
  ultimately show ?thesis using 0 by (simp del: sp_step.simps)
qed

lemma example_run:
  assumes "4 \<le> M"
  shows "sp_run stream M [RxAdd 2 2, RxAdd 0 2, RxExtract 10] sp_init =
    ([RxAdded True, RxAdded True, RxData (map stream [0..<4])], \<lparr>sp_delivered = 4, sp_held = {}, sp_fin = False\<rparr>)"
proof -
  let ?st = "\<lambda>x. \<lparr>sp_delivered = 0, sp_held = {x..<4}, sp_fin = False\<rparr>"
  have next': "sp_next sp_init = 0" "sp_next (?st 2) = 0" "sp_next (?st 0) = 4" unfolding sp_next_def sp_init_def by (simp_all add: first_gap_eq)
  have 1: "sp_step stream M (RxAdd 2 2) sp_init = (RxAdded True, ?st 2)" using next' by (simp add: sp_Add_def sp_accepted_def) (simp add: sp_init_def)
  have "Min {2..<4 :: nat} = 2" by (rule Min_eqI) auto
  then have "sp_accepted M 0 2 (?st 2) = {0..<2}" using next' assms by (simp add: sp_accepted_def numeral_2_eq_2)
  moreover have "{2..<4} \<union> {0..<2} = {0..<4 :: nat}" by auto
  ultimately have 2: "sp_step stream M (RxAdd 0 2) (?st 2) = (RxAdded True, ?st 0)" by (simp add: sp_Add_def)
  have 3: "sp_step stream M (RxExtract 10) (?st 0) = (RxData (map stream [0..<4]), \<lparr>sp_delivered = 4, sp_held = {}, sp_fin = False\<rparr>)"
    using next' by (simp add: sp_Extract_def Let_def)
  show ?thesis by (simp del: sp_step.simps add: 1 2 3)
qed


text \<open>
  C39: Selective acknowledgements tell the truth. After any calls as above, there are at most four blocks, and each of them is a
  range of bytes behind the next expected byte that the buffer holds.
\<close>

theorem sack_blocks_held:
  assumes "unat M \<le> 2 ^ 29" and "rx_legal stream L (unat M) ops sp_init"
  shows "\<exists>outs b. rx_run stream L s ops (rx_SetMaxBufferSize M (TcpRxBuffer_new s)) = Some (outs, b) \<and> length (rx_sackList b) \<le> 4 \<and>
    (\<forall>block \<in> set (rx_sackList b). \<exists>x y. block = (s + of_nat x, s + of_nat y) \<and>
       sp_next (snd (sp_run stream (unat M) ops sp_init)) < x \<and> x < y \<and> {x..<y} \<subseteq> sp_held (snd (sp_run stream (unat M) ops sp_init)))"
proof -
  let ?st = "snd (sp_run stream (unat M) ops sp_init)"
  obtain b where b: "rx_run stream L s ops (rx_SetMaxBufferSize M (TcpRxBuffer_new s)) = Some (fst (sp_run stream (unat M) ops sp_init), b)"
    "rx_rel stream L (unat M) s ?st b"
    using rx_run_ok [OF rx_rel_init [OF assms(1)] assms(2), of s] by auto
  then obtain N D B where st: "rx_state stream L (unat M) s ?st N D B b" unfolding rx_rel_state by blast
  have N: "sp_next ?st = N" by (rule rx_state_next [OF st])
  have core: "rx_core stream s (sp_delivered ?st) N D B" and held: "cover D = sp_held ?st" and sack: "rx_sackList b = encB s B"
    using st unfolding rx_state_def by blast+
  have B: "rx_sackList b = encB s B" "length B \<le> 4" "\<forall>(x, y) \<in> set B. N < x \<and> x < y \<and> {x..<y} \<subseteq> sp_held ?st"
    using sack core unfolding rx_core_def held by blast+
  have "\<exists>x y. block = (s + of_nat x, s + of_nat y) \<and> N < x \<and> x < y \<and> {x..<y} \<subseteq> sp_held ?st" if h: "block \<in> set (encB s B)" for block
  proof -
    obtain x y where "(x, y) \<in> set B" "block = (seqn s x, seqn s y)" using h unfolding encB_def by fastforce
    then show ?thesis using B(3) unfolding seqn_def by blast
  qed
  then show ?thesis using b(1) B(1,2) unfolding N by auto
qed

lemma example_held: "sp_held (snd (sp_run stream 1000 [RxAdd 2 2, RxAdd 0 1] sp_init)) = {0, 2, 3} \<and>
    sp_next (snd (sp_run stream 1000 [RxAdd 2 2, RxAdd 0 1] sp_init)) = 1 \<and> rx_legal stream 4 1000 [RxAdd 2 2, RxAdd 0 1] sp_init"
proof -
  let ?st = "\<lambda>S. \<lparr>sp_delivered = 0, sp_held = S, sp_fin = False\<rparr>"
  have s: "{2..<4} = {2, 3 :: nat}" by auto
  have next': "sp_next sp_init = 0" "sp_next (?st {2, 3}) = 0" unfolding sp_next_def sp_init_def by (simp_all add: first_gap_eq)
  have n1: "sp_next (?st {0, 2, 3}) = 1" unfolding sp_next_def by (simp add: first_gap_eq)
  have 1: "sp_step stream 1000 (RxAdd 2 2) sp_init = (RxAdded True, ?st {2, 3})" using next' by (simp add: sp_Add_def sp_accepted_def s) (simp add: sp_init_def s)
  have 2: "sp_step stream 1000 (RxAdd 0 1) (?st {2, 3}) = (RxAdded True, ?st {0, 2, 3})" using next' by (simp add: sp_Add_def sp_accepted_def)
  show ?thesis by (simp del: sp_step.simps One_nat_def add: 1 2 next' n1)
qed

theorem sack_blocks_held_witness:
  "unat (1000 :: u32) \<le> 2 ^ 29 \<and> rx_legal of_nat 4 1000 [RxAdd 2 2, RxAdd 0 1] sp_init \<and>
   (\<exists>outs b. rx_run of_nat 4 0xfffffffe [RxAdd 2 2, RxAdd 0 1] (rx_SetMaxBufferSize 1000 (TcpRxBuffer_new 0xfffffffe)) = Some (outs, b) \<and>
      length (rx_sackList b) \<le> 4 \<and>
      (\<forall>block \<in> set (rx_sackList b). \<exists>x y. block = (0xfffffffe + of_nat x, 0xfffffffe + of_nat y) \<and> 1 < x \<and> x < y \<and> {x..<y} \<subseteq> {0, 2, 3}))"
proof -
  have m: "unat (1000 :: u32) = 1000" by simp
  note e = example_held [where stream = of_nat]
  have a: "unat (1000 :: u32) \<le> 2 ^ 29" "rx_legal of_nat 4 (unat (1000 :: u32)) [RxAdd 2 2, RxAdd 0 1] sp_init"
    unfolding m using e by simp_all
  show ?thesis using a sack_blocks_held [OF a, where s = "0xfffffffe"] unfolding m conjunct1 [OF e] conjunct1 [OF conjunct2 [OF e]] by blast
qed


end
