(* ===== verification/Spec2Isabelle.thy ===== *)
theory Spec2Isabelle
  imports Simulator_Properties Random_Variables Time_Registry Gym_Interface Buffer_Properties Packet_Pool Aodv_Reactions Tcp_Rx_Correct
begin

text \<open>
  A verification development of the ns-3 discrete-event network simulator with the ns3-ai
  extension that couples it to reinforcement-learning agents. It covers six parts of the repository, and each
  of them down to the single operation: the core that runs events in order of time, the numbers below it (times, fixed-point
  arithmetic and random numbers), the coupling to an agent in another process, packets with their bytes and tags, the AODV routing protocol,
  and the receive buffer of TCP.

  \<^bold>\<open>How the parts interact.\<close> A simulation schedules events with DefaultSimulatorImpl, which keeps
  them in a scheduler (one of five data structures behind the interface Scheduler) and runs them one by one. The
  events are the handlers of network models; AODV is the model of this kind that is verified here. Its messages are headers,
  which are written into and read from the byte buffer of a packet. A TCP receiver puts the packets that reach it back in order. A model that learns hands its
  observation to the gym interface, which encodes it as a message, passes it through shared memory
  to the Python agent, waits for the reply and executes the action in it.

  \<^bold>\<open>Conventions.\<close> A class is a record with the members of the class, an operation a function that
  takes and returns it, in the order of the code, with the names of the code; where two classes have a method of the
  same name, or HOL has one, a short prefix tells them apart. A failing NS_ASSERT, a fatal error or undefined
  behaviour is the value None of an option. Machine integers keep their width wherever wrap-around matters
  (\<open>u8\<close>, \<open>u16\<close>, \<open>u32\<close>, \<open>u64\<close> of Ns3_Prelude); the offsets of a buffer are natural numbers, and in the theories on events and on AODV a
  time is an integer in nanoseconds (Ns3_Time has the class Time itself). Pointers are addresses, with 0 for the null pointer. Logging, printing and reference counts of
  objects other than buffer storage are left out. What the repository only calls (protobuf, Boost, sockets, the Ipv4 object,
  the values drawn from a random variable, the callbacks of a user) is an argument of the definitions, and what is assumed of
  it is a hypothesis of the theorem that needs it.

  \<^bold>\<open>Shared theories.\<close> Ns3_Prelude has the machine types, the collections of facts and the loops over
  std::list; Ordered_Map is std::map as a list in key order.

  \<^bold>\<open>Events (src/core/model).\<close> Event_Queue has the event key and the interface of scheduler.h, a record of
  functions, with its contract as the locales \<open>event_queue\<close> and \<open>removable_queue\<close>. List_Scheduler,
  Map_Scheduler, PQ_Scheduler, Heap_Scheduler and Calendar_Scheduler model the five implementations and interpret
  the contract. Scheduler_Equivalence shows that every legal sequence of calls gets the same
  answers from each of them as from the sorted list (from the heap without Remove, which does not restore the order
  of the heap, as a closed evaluation shows). Simulator_Impl models default-simulator-impl.cc;
  Simulator_Correct proves the event loop correct over any scheduler that keeps the contract, and Simulator_Properties
  has the results for the schedulers of the repository: Run returns, processes events in the order of time
  and uid, keeps identifiers truthful and never notifies a cancelled event; Destroy returns. The calendar is in 64-bit
  arithmetic, and its theorems hold for time stamps below its horizon of 2 to the power of 47.

  \<^bold>\<open>Numbers (src/core/model).\<close> Int64x64 models int64x64-128.cc, numbers with 64 bits before and 64 behind the point in a
  128-bit word. Int64x64_Correct shows that multiplication and division, whose loops are proved to end, compute the truncated
  product and quotient; Int64x64_Inverse that multiplication with an inverse of 128 bits divides by an integer exactly. Ns3_Time models
  the units, the conversion table, the conversions and the registry of nstime.h and time.cc. Time_Correct shows that the conversions count whole steps, that
  RoundTo finds the nearest multiple of a unit and that quotients are exact, and that an overflow of a product passes
  unnoticed; Time_Registry that the change of the resolution converts every Time object of a program. Rng_Stream models rng-stream.cc, a generator that computes with integers in
  floating point, and shows that no operation rounds; Rng_Jump that the powers of matrices move the generator by the
  given number of steps; Random_Variables has the seed, the runs and the streams and shows that all variables of a program draw from
  disjoint blocks of one sequence, and that every draw is in range.

  \<^bold>\<open>Agents (contrib/ns3-ai/model).\<close> Ai_Msg_Interface models the semaphores and the eight Begin and End methods with
  one atomic memory access per step, as a step relation that interleaves the two processes: they are
  never in the same buffer, messages arrive in order, and programs that fit each other never deadlock and can always
  complete. Gym_Containers and Gym_Spaces have the containers and spaces and their encoding with the round trips;
  Gym_Interface has Init, NotifyCurrentState and the end of a simulation, composed with the message interface.

  \<^bold>\<open>Packets (src/network/model).\<close> Packet_Buffer models buffer.cc: storage shared with reference counts and
  copy-on-write, the virtual zero area and the free list. Buffer_Correct has the content of a buffer and the invariant;
  Buffer_Iterator, Buffer_Codec and Buffer_Write the iterator and what its readers and writers do to the content;
  Buffer_Concat the concatenation; Buffer_Pool the refinement of any sequence of operations on any
  number of buffers by lists of bytes; Buffer_Properties the results on integers and on concatenation. Packet_Header has
  AddHeader, RemoveHeader and PeekHeader of packet.cc over the interface \<open>header_codec\<close>, which every header interprets.
  Packet_Tags models packet-tag-list.cc, the lists of tags whose cells the copies of a packet share; Tag_Sharing has the
  invariant of the shared cells and Tag_Pool the refinement by independent lists. Byte_Tags models byte-tag-list.cc, the tags on
  ranges of bytes; Byte_Tag_Sharing has the invariant of their shared storage, Byte_Tag_Views what the lists mean: the
  tags of every byte. Packets puts the three together as packet.cc does; Packet_Correct has the contract of every operation of
  Packet, and Packet_Pool the refinement of any sequence of operations on any number of packets by lists of bytes with
  their tags, the concatenation of packets, and that padding is not cleared. The theorems on byte tags hold while
  offsets stay below 2 to the power of 30 and the storage of the tags below 2 to the power of 32; the specification keeps
  account of both.

  \<^bold>\<open>AODV (src/aodv/model).\<close> Aodv_Packet has the five headers with their serialization, Aodv_Message the round
  trip of a whole message through a packet. Aodv_Rtable is the routing table, Aodv_Queue the id cache and the queue of packets that
  wait for a route. Aodv_Protocol has the handlers of messages and of the search for a route, with
  the list of neighbours; Aodv_Routing the routing of outgoing and incoming packets, the timers and
  the changes of interfaces. What a handler sends, schedules or hands to a callback is appended to the list
  \<open>m_out\<close> of actions; a timer is the time at which it expires. Aodv_Invariant has all events of a node as a step relation and the
  invariant of its reachable states. Aodv_Search and Aodv_Properties show that every route discovery ends and what
  route a packet gets; Aodv_Reactions shows what route errors, broken links, own requests and old replies do.

  \<^bold>\<open>Transport (src/internet/model).\<close> Tcp_Rx_Buffer models tcp-rx-buffer.cc with the sequence numbers of sequence-number.h, which wrap
  around: the window, the removal of overlapped bytes, the blocks of selective acknowledgements, Add and Extract. A packet is the list of its bytes,
  as Packet_Pool justifies. Tcp_Rx_Positions shows that the comparison of sequence numbers is the order of the positions in the stream, within a
  window; Tcp_Rx_Trim describes the loops on positions by the set of bytes that are held, and Tcp_Rx_Sim shows that the loops on sequence numbers do the
  same. Tcp_Rx_Correct has the specification, a set of bytes, and the refinement: a byte stream of any length that arrives in any order, within
  2 to the power of 29 bytes of the next expected byte, is delivered in order, and selective acknowledgements only name bytes that
  are held, although their blocks can overlap.

  \<^bold>\<open>Fuel.\<close> The event loop and Destroy take a number of rounds; the theorems state a number that is enough, the
  number of pending events plus those that the handlers may add. The search of the calendar runs for one
  round per bucket and never needs more. The decoding of containers and spaces takes the depth of the
  message. The rounds of a route discovery are the list of times at which the request timer expires; the theorem
  gives the length, diameter plus retries plus 1, after which the search is over. The loop of the division of 64.64 numbers is a partial
  function, with the proof that it returns. All other loops are total functions.

  \<^bold>\<open>Not modelled.\<close> Of the modelled parts: threads other than the list of events they hand over; the creation of the
  shared memory segment and the rest of the Python environment; metadata and nix vectors of packets and
  the serialization of whole packets, buffers and tag lists, which only distributed simulation uses; the distributions of
  random variables and the conversion of times and numbers from and to floating point and text; output and attribute tables. Of the
  repository: opengym, which repeats the containers and spaces of ns3-ai over ZMQ sockets; the realtime and
  distributed simulators, which depend on wall-clock time and MPI; the models of devices and
  channels (wifi, lte, nr, lr-wpan and others), the rest of TCP (the socket with its states, timers and congestion control), the other transport and routing protocols, which would each be a
  development of this size; and bindings, examples, tests and build files.
\<close>

end
